(* ===== verification/Prelude.thy ===== *)
theory Prelude
  imports Main "HOL-Library.Word" "HOL-Library.Monad_Syntax"
begin

text \<open>
  Shared vocabulary of the development.

  C integers of a fixed width are words (\<open>u8\<close>, \<open>u16\<close>, \<open>u32\<close>, \<open>u64\<close>); a cast to the signed
  type of the same width is \<^term>\<open>sint\<close>.  A \<^verbatim>\<open>size_t\<close> is a natural number on which every
  operation that may wrap is written with \<open>sz_add\<close>, \<open>sz_mul\<close> and \<open>sz_int\<close>, which reduce
  modulo \<open>2 ^ 64\<close>.

  A C function that can abort on an \<^verbatim>\<open>assert\<close>, that can touch memory outside an allocation,
  or that can loop forever returns an \<open>option\<close>: \<^term>\<open>None\<close> is exactly one of these three.  So
  a theorem whose conclusion is \<open>\<dots> = Some r\<close> states memory safety, absence of assertion
  failures and termination together with the value of the result.  Such functions are written
  with the \<open>do\<close>-notation of the option monad.

  The allocator is an argument \<open>mem\<close>: \<open>mem n\<close> is \<^term>\<open>None\<close> when an allocation of \<open>n\<close> bytes
  fails and otherwise the (indeterminate) contents of the fresh block.
\<close>

unbundle bit_operations_syntax

named_theorems safe_mem \<open>accesses inside an allocation succeed\<close>
named_theorems sz_arith \<open>size_t operations that do not wrap\<close>

type_synonym u8 = "8 word"
type_synonym u16 = "16 word"
type_synonym u32 = "32 word"
type_synonym u64 = "64 word"
type_synonym bytes = "u8 list"
type_synonym allocator = "nat \<Rightarrow> bytes option"

section \<open>Assertions\<close>

definition assert_that :: "bool \<Rightarrow> unit option" where
  "assert_that P = (if P then Some () else None)"

lemma assert_that_simps [simp]:
  "assert_that True = Some ()" "assert_that False = None"
  "assert_that P = Some u \<longleftrightarrow> P" "assert_that P = None \<longleftrightarrow> \<not> P"
  by (simp_all add: assert_that_def)

lemma bind_assert_that [simp]:
  "P \<Longrightarrow> Option.bind (assert_that P) f = f ()"
  "\<not> P \<Longrightarrow> Option.bind (assert_that P) f = None"
  by simp_all

lemma bind_assert_that_Some:
  "Option.bind (assert_that P) f = Some r \<longleftrightarrow> P \<and> f () = Some r"
  by (cases P) simp_all

section \<open>Arithmetic of size\_t\<close>

definition SIZE_MAX :: nat where
  "SIZE_MAX = 2 ^ 64 - 1"

definition sz_add :: "nat \<Rightarrow> nat \<Rightarrow> nat" where
  "sz_add a b = (a + b) mod 2 ^ 64"

definition sz_mul :: "nat \<Rightarrow> nat \<Rightarrow> nat" where
  "sz_mul a b = (a * b) mod 2 ^ 64"

definition sz_int :: "int \<Rightarrow> nat" where
  "sz_int i = nat (i mod 2 ^ 64)"

definition sz_sub :: "nat \<Rightarrow> nat \<Rightarrow> nat" where
  "sz_sub a b = sz_int (int a - int b)"

lemma sz_add_exact [sz_arith]: "a + b < 2 ^ 64 \<Longrightarrow> sz_add a b = a + b"
  by (simp add: sz_add_def)

lemma sz_mul_exact [sz_arith]: "a * b < 2 ^ 64 \<Longrightarrow> sz_mul a b = a * b"
  by (simp add: sz_mul_def)

lemma sz_int_exact [sz_arith]: "0 \<le> i \<Longrightarrow> i < 2 ^ 64 \<Longrightarrow> sz_int i = nat i"
  by (simp add: sz_int_def)

lemma sz_sub_exact [sz_arith]: "b \<le> a \<Longrightarrow> a < 2 ^ 64 \<Longrightarrow> sz_sub a b = a - b"
  by (simp add: sz_sub_def sz_int_def nat_diff_distrib' flip: of_nat_diff)

section \<open>Words\<close>

lemma word_xor_cancel [simp]:
  fixes x y z :: "'a::len word"
  shows "x XOR z = y XOR z \<longleftrightarrow> x = y" "z XOR x = z XOR y \<longleftrightarrow> x = y"
proof -
  show r: "x XOR z = y XOR z \<longleftrightarrow> x = y"
  proof
    assume "x XOR z = y XOR z"
    then have "(x XOR z) XOR z = (y XOR z) XOR z" by simp
    then show "x = y" by (simp only: xor.assoc xor_self_eq xor.right_neutral)
  qed simp
  show "z XOR x = z XOR y \<longleftrightarrow> x = y" using r by (simp add: xor.commute)
qed

section \<open>Memory blocks\<close>

text \<open>Reading and writing a run of bytes of a block; outside the block is undefined behaviour.\<close>

definition mem_read :: "bytes \<Rightarrow> nat \<Rightarrow> nat \<Rightarrow> bytes option" where
  "mem_read xs i n = (if i + n \<le> length xs then Some (take n (drop i xs)) else None)"

definition mem_write :: "bytes \<Rightarrow> nat \<Rightarrow> bytes \<Rightarrow> bytes option" where
  "mem_write xs i src =
     (if i + length src \<le> length xs
      then Some (take i xs @ src @ drop (i + length src) xs) else None)"

text \<open>\<^verbatim>\<open>realloc\<close>: the old contents, cut or extended with the fresh block's bytes.\<close>

definition realloc_bytes :: "allocator \<Rightarrow> bytes \<Rightarrow> nat \<Rightarrow> bytes option" where
  "realloc_bytes mem old n =
     (case mem n of None \<Rightarrow> None
      | Some fresh \<Rightarrow> Some (take n old @ drop (length old) fresh))"

text \<open>What the C library promises of an allocator, and one that never fails.\<close>

definition alloc_law :: "allocator \<Rightarrow> bool" where
  "alloc_law mem \<longleftrightarrow> (\<forall>n xs. mem n = Some xs \<longrightarrow> length xs = n)"

definition zero_mem :: allocator where
  "zero_mem n = Some (replicate n 0)"

definition no_mem :: allocator where
  "no_mem n = None"

lemma alloc_law_zero_mem [simp]: "alloc_law zero_mem"
  by (simp add: alloc_law_def zero_mem_def)

lemma alloc_law_no_mem [simp]: "alloc_law no_mem"
  by (simp add: alloc_law_def no_mem_def)

lemma alloc_lawD: "alloc_law mem \<Longrightarrow> mem n = Some xs \<Longrightarrow> length xs = n"
  by (simp add: alloc_law_def)

lemma length_mem_write: "mem_write xs i src = Some ys \<Longrightarrow> length ys = length xs"
  by (auto simp: mem_write_def split: if_splits)

lemma mem_write_in [safe_mem]:
  "i + length src \<le> length xs \<Longrightarrow>
     mem_write xs i src = Some (take i xs @ src @ drop (i + length src) xs)"
  by (simp add: mem_write_def)

lemma mem_read_in [safe_mem]:
  "i + n \<le> length xs \<Longrightarrow> mem_read xs i n = Some (take n (drop i xs))"
  by (simp add: mem_read_def)

lemma realloc_bytes_length:
  assumes "alloc_law mem" "realloc_bytes mem old n = Some xs" "length old \<le> n"
  shows "length xs = n" "take (length old) xs = old"
  using assms by (auto simp: realloc_bytes_def alloc_law_def split: option.splits)


text \<open>Overwriting a run of bytes inside a slice of a block.\<close>

lemma slice_overwrite:
  assumes "p \<le> s" "k + max s (p + length src) \<le> length xs"
  shows "take (max s (p + length src)) (drop k (take (k + p) xs @ src @ drop (k + p + length src) xs)) =
         take p (drop k xs) @ src @ drop (p + length src) (take s (drop k xs))"
proof -
  define zs where "zs = drop k xs"
  let ?n = "length src"
  have len: "p + ?n \<le> length zs" "s \<le> length zs" using assms(2) by (simp_all add: zs_def)
  have whole: "drop k (take (k + p) xs @ src @ drop (k + p + ?n) xs) = take p zs @ src @ drop (p + ?n) zs"
    using assms by (simp add: zs_def drop_take add.commute add.left_commute)
  show ?thesis
  proof (cases "s \<le> p + ?n")
    case True
    then have "max s (p + ?n) = length (take p zs @ src)" using len by simp
    with True len show ?thesis unfolding whole zs_def[symmetric] by simp
  next
    case False
    with len assms(1) show ?thesis unfolding whole zs_def[symmetric] by (simp add: drop_take)
  qed
qed

section \<open>Transition systems\<close>

text \<open>
  The interface of every component that is a state machine: an initial state satisfies the
  invariant and every step keeps it.  Each component interprets the locale on its own states.
\<close>

locale transition_system =
  fixes init :: "'s \<Rightarrow> bool" and step :: "'s \<Rightarrow> 's \<Rightarrow> bool" and inv :: "'s \<Rightarrow> bool"
  assumes init_inv: "init s \<Longrightarrow> inv s"
    and step_inv: "inv s \<Longrightarrow> step s t \<Longrightarrow> inv t"
begin

lemma steps_inv: "step\<^sup>*\<^sup>* s t \<Longrightarrow> inv s \<Longrightarrow> inv t"
  by (induction rule: rtranclp_induct) (auto intro: step_inv)

lemma reachable_inv: "init s \<Longrightarrow> step\<^sup>*\<^sup>* s t \<Longrightarrow> inv t"
  using steps_inv init_inv by blast

end

end
