(* ===== verification/Buffer.thy ===== *)
theory Buffer
  imports Prelude
begin

text \<open>
  The growable byte buffer \<^verbatim>\<open>IHS_Buffer\<close> (\<^verbatim>\<open>include/ihslib/buffer.h\<close>, \<^verbatim>\<open>src/ihs_buffer.h\<close>,
  \<^verbatim>\<open>src/ihs_buffer.c\<close>): a block with a reserved prefix (\<open>buf_offset\<close>), the payload
  (\<open>buf_size\<close>) and a reserved suffix.  The theory holds the record, every operation of the
  C file, the well-formedness invariant \<open>buf_wf\<close>, the payload \<open>buf_content\<close> as the abstract
  view, and for each operation that it keeps the invariant, cannot fail, and what it does to
  the payload.  A pointer into the block is the index of the byte it points to.
\<close>

section \<open>State\<close>

record ihs_buffer =
  buf_data :: "bytes option"
  buf_capacity :: nat
  buf_offset :: nat
  buf_size :: nat
  buf_suffix :: nat
  buf_initialCapacity :: nat
  buf_maxCapacity :: nat

section \<open>Operations\<close>

definition IHS_BufferInit :: "nat \<Rightarrow> nat \<Rightarrow> ihs_buffer" where
  "IHS_BufferInit initialCapacity maxCapacity =
     \<lparr>buf_data = None, buf_capacity = 0, buf_offset = 0, buf_size = 0, buf_suffix = 0,
      buf_initialCapacity = initialCapacity, buf_maxCapacity = maxCapacity\<rparr>"

text \<open>\<^verbatim>\<open>IHS_BUFFER_WRAP\<close>: a buffer over an existing block that is all payload.\<close>

definition IHS_BUFFER_WRAP :: "bytes \<Rightarrow> ihs_buffer" where
  "IHS_BUFFER_WRAP d =
     \<lparr>buf_data = Some d, buf_capacity = length d, buf_offset = 0, buf_size = length d,
      buf_suffix = 0, buf_initialCapacity = 0, buf_maxCapacity = 0\<rparr>"

definition IHS_BufferMaxSize :: "ihs_buffer \<Rightarrow> nat" where
  "IHS_BufferMaxSize b = sz_sub (sz_sub (buf_capacity b) (buf_offset b)) (buf_suffix b)"

definition IHS_BufferUsedSize :: "ihs_buffer \<Rightarrow> nat" where
  "IHS_BufferUsedSize b = sz_add (sz_add (buf_offset b) (buf_size b)) (buf_suffix b)"

definition IHS_BufferIsNull :: "ihs_buffer \<Rightarrow> bool" where
  "IHS_BufferIsNull b \<longleftrightarrow> buf_data b = None"

definition IHS_BufferPointerAt :: "ihs_buffer \<Rightarrow> nat \<Rightarrow> nat option" where
  "IHS_BufferPointerAt b position = do {
     assert_that (buf_data b \<noteq> None);
     assert_that (position < IHS_BufferMaxSize b);
     Some (sz_add (buf_offset b) position)
   }"

definition IHS_BufferPointer :: "ihs_buffer \<Rightarrow> nat option" where
  "IHS_BufferPointer b = IHS_BufferPointerAt b 0"

text \<open>\<^verbatim>\<open>memcpy\<close> from and to a pointer into the buffer's block.\<close>

definition buf_load :: "ihs_buffer \<Rightarrow> nat \<Rightarrow> nat \<Rightarrow> bytes option" where
  "buf_load b p n = do { xs \<leftarrow> buf_data b; mem_read xs p n }"

definition buf_store :: "ihs_buffer \<Rightarrow> nat \<Rightarrow> bytes \<Rightarrow> ihs_buffer option" where
  "buf_store b p src = do {
     xs \<leftarrow> buf_data b;
     ys \<leftarrow> mem_write xs p src;
     Some (b\<lparr>buf_data := Some ys\<rparr>)
   }"

definition IHS_BufferReadMem :: "ihs_buffer \<Rightarrow> nat \<Rightarrow> nat \<Rightarrow> bytes option" where
  "IHS_BufferReadMem b position len = do {
     assert_that (len \<le> buf_size b);
     p \<leftarrow> IHS_BufferPointerAt b position;
     buf_load b p len
   }"

definition IHS_BufferEnsureCapacityExact :: "allocator \<Rightarrow> ihs_buffer \<Rightarrow> nat \<Rightarrow> ihs_buffer option" where
  "IHS_BufferEnsureCapacityExact mem b wantedCapacity = do {
     assert_that (buf_maxCapacity b > 0 \<longrightarrow> wantedCapacity \<le> buf_maxCapacity b);
     if wantedCapacity \<le> buf_capacity b then Some b
     else do {
       allocated \<leftarrow> realloc_bytes mem (case buf_data b of None \<Rightarrow> [] | Some xs \<Rightarrow> xs) wantedCapacity;
       Some (b\<lparr>buf_data := Some allocated, buf_capacity := wantedCapacity\<rparr>)
     }
   }"

text \<open>The doubling loop of \<^verbatim>\<open>IHS_BufferEnsureCapacity\<close>; \<^term>\<open>None\<close> when it never stops.\<close>

partial_function (option) double_until :: "nat \<Rightarrow> nat \<Rightarrow> nat option" where
  "double_until newCapacity wantedCapacity =
     (if newCapacity < wantedCapacity then double_until (sz_mul newCapacity 2) wantedCapacity
      else Some newCapacity)"

definition IHS_BufferEnsureCapacity :: "allocator \<Rightarrow> ihs_buffer \<Rightarrow> nat \<Rightarrow> ihs_buffer option" where
  "IHS_BufferEnsureCapacity mem b wantedCapacity = do {
     let newCapacity = buf_capacity b;
     let newCapacity = (if newCapacity = 0 then buf_initialCapacity b else newCapacity);
     let newCapacity = (if newCapacity = 0
                        then (if buf_maxCapacity b < 1024 then buf_maxCapacity b else 1024)
                        else newCapacity);
     assert_that (newCapacity > 0);
     newCapacity \<leftarrow> double_until newCapacity wantedCapacity;
     IHS_BufferEnsureCapacityExact mem b newCapacity
   }"

definition IHS_BufferEnsureMaxSizeExact :: "allocator \<Rightarrow> ihs_buffer \<Rightarrow> nat \<Rightarrow> ihs_buffer option" where
  "IHS_BufferEnsureMaxSizeExact mem b maxSize =
     IHS_BufferEnsureCapacityExact mem b (sz_add (sz_add (buf_offset b) maxSize) (buf_suffix b))"

definition IHS_BufferEnsureMaxSize :: "allocator \<Rightarrow> ihs_buffer \<Rightarrow> nat \<Rightarrow> ihs_buffer option" where
  "IHS_BufferEnsureMaxSize mem b maxSize =
     IHS_BufferEnsureCapacity mem b (sz_add (sz_add (buf_offset b) maxSize) (buf_suffix b))"

definition IHS_BufferClear :: "ihs_buffer \<Rightarrow> bool \<Rightarrow> ihs_buffer option" where
  "IHS_BufferClear b freeData =
     (let b = b\<lparr>buf_size := 0, buf_offset := 0\<rparr> in
      if buf_data b = None then do { assert_that (buf_capacity b = 0); Some b }
      else if freeData then Some (b\<lparr>buf_capacity := 0, buf_data := None\<rparr>)
      else Some b)"

definition IHS_BufferOffsetBy :: "ihs_buffer \<Rightarrow> int \<Rightarrow> ihs_buffer option" where
  "IHS_BufferOffsetBy b offset = do {
     assert_that (if offset < 0 then - offset \<le> int (buf_offset b) else offset \<le> int (buf_size b));
     Some (b\<lparr>buf_offset := sz_int (int (buf_offset b) + offset),
             buf_size := sz_int (int (buf_size b) - offset)\<rparr>)
   }"

definition IHS_BufferSetSuffixLength :: "allocator \<Rightarrow> ihs_buffer \<Rightarrow> nat \<Rightarrow> ihs_buffer option" where
  "IHS_BufferSetSuffixLength mem b suffixLen = do {
     b \<leftarrow> IHS_BufferEnsureCapacity mem b (sz_add (sz_add (buf_offset b) (buf_size b)) suffixLen);
     Some (b\<lparr>buf_suffix := suffixLen\<rparr>)
   }"

definition IHS_BufferExtendSize :: "ihs_buffer \<Rightarrow> ihs_buffer" where
  "IHS_BufferExtendSize b =
     b\<lparr>buf_size := sz_add (sz_add (buf_size b) (buf_offset b)) (buf_suffix b),
       buf_offset := 0, buf_suffix := 0\<rparr>"

definition IHS_BufferPointerForAppend ::
    "allocator \<Rightarrow> ihs_buffer \<Rightarrow> nat \<Rightarrow> (ihs_buffer \<times> nat) option" where
  "IHS_BufferPointerForAppend mem b appendSize = do {
     let newSize = sz_add (buf_size b) appendSize;
     b \<leftarrow> IHS_BufferEnsureMaxSize mem b newSize;
     p \<leftarrow> IHS_BufferPointerAt b (buf_size b);
     Some (b, p)
   }"

definition IHS_BufferSuffixPointer :: "ihs_buffer \<Rightarrow> nat option" where
  "IHS_BufferSuffixPointer b = do {
     assert_that (buf_suffix b > 0);
     IHS_BufferPointerAt b (buf_size b)
   }"

definition IHS_BufferAppendMem :: "allocator \<Rightarrow> ihs_buffer \<Rightarrow> bytes \<Rightarrow> ihs_buffer option" where
  "IHS_BufferAppendMem mem b data = do {
     (b, dst) \<leftarrow> IHS_BufferPointerForAppend mem b (length data);
     b \<leftarrow> buf_store b dst data;
     Some (b\<lparr>buf_size := sz_add (buf_size b) (length data)\<rparr>)
   }"

definition IHS_BufferAppend :: "allocator \<Rightarrow> ihs_buffer \<Rightarrow> ihs_buffer \<Rightarrow> ihs_buffer option" where
  "IHS_BufferAppend mem b data = do {
     p \<leftarrow> IHS_BufferPointer data;
     src \<leftarrow> buf_load data p (buf_size data);
     IHS_BufferAppendMem mem b src
   }"

definition IHS_BufferWriteMem :: "allocator \<Rightarrow> ihs_buffer \<Rightarrow> nat \<Rightarrow> bytes \<Rightarrow> ihs_buffer option" where
  "IHS_BufferWriteMem mem b position src = do {
     let writeEnd = sz_add position (length src);
     b \<leftarrow> IHS_BufferEnsureMaxSize mem b writeEnd;
     dst \<leftarrow> IHS_BufferPointerAt b position;
     b \<leftarrow> buf_store b dst src;
     Some (if buf_size b < writeEnd then b\<lparr>buf_size := writeEnd\<rparr> else b)
   }"

definition IHS_BufferFillMem ::
    "allocator \<Rightarrow> ihs_buffer \<Rightarrow> nat \<Rightarrow> u8 \<Rightarrow> nat \<Rightarrow> ihs_buffer option" where
  "IHS_BufferFillMem mem b position fill fillLen = do {
     let fillEnd = sz_add position fillLen;
     b \<leftarrow> IHS_BufferEnsureMaxSize mem b fillEnd;
     dst \<leftarrow> IHS_BufferPointerAt b position;
     b \<leftarrow> buf_store b dst (replicate fillLen fill);
     Some (if buf_size b < fillEnd then b\<lparr>buf_size := fillEnd\<rparr> else b)
   }"

definition IHS_BufferReleaseOwnership :: "ihs_buffer \<Rightarrow> ihs_buffer option" where
  "IHS_BufferReleaseOwnership b = IHS_BufferClear (b\<lparr>buf_data := None, buf_capacity := 0\<rparr>) False"

text \<open>The result is the drained source and the new owner.\<close>

definition IHS_BufferTransferOwnership :: "ihs_buffer \<Rightarrow> (ihs_buffer \<times> ihs_buffer) option" where
  "IHS_BufferTransferOwnership b = do {
     drained \<leftarrow> IHS_BufferReleaseOwnership b;
     Some (drained, b)
   }"


section \<open>Invariant and abstract view\<close>

definition live_alloc :: "allocator \<Rightarrow> bool" where
  "live_alloc mem \<longleftrightarrow> alloc_law mem \<and> (\<forall>n. mem n \<noteq> None)"

lemma live_alloc_zero_mem [simp]: "live_alloc zero_mem"
  by (simp add: live_alloc_def zero_mem_def alloc_law_def)

definition buf_wf :: "ihs_buffer \<Rightarrow> bool" where
  "buf_wf b \<longleftrightarrow>
     (case buf_data b of None \<Rightarrow> buf_capacity b = 0 | Some xs \<Rightarrow> length xs = buf_capacity b) \<and>
     buf_offset b + buf_size b + buf_suffix b \<le> buf_capacity b \<and>
     buf_capacity b < 2 ^ 63 \<and> buf_initialCapacity b < 2 ^ 63 \<and>
     (0 < buf_maxCapacity b \<longrightarrow>
        buf_capacity b \<le> buf_maxCapacity b \<and> buf_initialCapacity b \<le> buf_maxCapacity b)"

definition buf_content :: "ihs_buffer \<Rightarrow> bytes" where
  "buf_content b =
     (case buf_data b of None \<Rightarrow> [] | Some xs \<Rightarrow> take (buf_size b) (drop (buf_offset b) xs))"

text \<open>The reserved prefix, which holds the serialized packet header.\<close>

definition buf_prefix :: "ihs_buffer \<Rightarrow> bytes" where
  "buf_prefix b = (case buf_data b of None \<Rightarrow> [] | Some xs \<Rightarrow> take (buf_offset b) xs)"

text \<open>The capacity that growth starts from, and a sufficient condition for growth to succeed.\<close>

definition grow_base :: "ihs_buffer \<Rightarrow> nat" where
  "grow_base b =
     (if buf_capacity b \<noteq> 0 then buf_capacity b
      else if buf_initialCapacity b \<noteq> 0 then buf_initialCapacity b
      else min (buf_maxCapacity b) 1024)"

definition can_hold :: "ihs_buffer \<Rightarrow> nat \<Rightarrow> bool" where
  "can_hold b w \<longleftrightarrow> 0 < grow_base b \<and>
     (w \<le> grow_base b \<or> w \<le> 2 ^ 62 \<and> (buf_maxCapacity b = 0 \<or> 2 * w \<le> buf_maxCapacity b))"

lemma grow_base_bound: "buf_wf b \<Longrightarrow> grow_base b < 2 ^ 63"
  by (auto simp: grow_base_def buf_wf_def)

lemma can_hold_bound: "buf_wf b \<Longrightarrow> can_hold b w \<Longrightarrow> w < 2 ^ 63"
  using grow_base_bound[of b] by (auto simp: can_hold_def)

lemma buf_wf_Init: "i < 2 ^ 63 \<Longrightarrow> (m = 0 \<or> i \<le> m) \<Longrightarrow> buf_wf (IHS_BufferInit i m)"
  by (auto simp: buf_wf_def IHS_BufferInit_def)

lemma buf_wf_WRAP: "length d < 2 ^ 63 \<Longrightarrow> buf_wf (IHS_BUFFER_WRAP d)"
  by (simp add: buf_wf_def IHS_BUFFER_WRAP_def)

lemma buf_content_WRAP [simp]: "buf_content (IHS_BUFFER_WRAP d) = d"
  by (simp add: buf_content_def IHS_BUFFER_WRAP_def)

lemma buf_content_Init [simp]: "buf_content (IHS_BufferInit i m) = []"
  by (simp add: buf_content_def IHS_BufferInit_def)

lemma length_buf_content: "buf_wf b \<Longrightarrow> length (buf_content b) = buf_size b"
  by (auto simp: buf_wf_def buf_content_def split: option.splits)

lemma buf_wf_bounds:
  assumes "buf_wf b"
  shows "buf_offset b + buf_size b + buf_suffix b \<le> buf_capacity b"
    "buf_capacity b < 2 ^ 63" "buf_capacity b < 2 ^ 64"
    "buf_suffix b \<le> buf_capacity b - buf_offset b"
proof -
  show le: "buf_offset b + buf_size b + buf_suffix b \<le> buf_capacity b"
    and lt: "buf_capacity b < 2 ^ 63" using assms by (simp_all add: buf_wf_def)
  show "buf_capacity b < 2 ^ 64" using lt by simp
  show "buf_suffix b \<le> buf_capacity b - buf_offset b" using le by arith
qed

lemma buf_wf_block:
  assumes "buf_wf b" "0 < buf_capacity b"
  obtains xs where "buf_data b = Some xs" "length xs = buf_capacity b"
  using assms by (auto simp: buf_wf_def split: option.splits)

lemma MaxSize_exact:
  "buf_wf b \<Longrightarrow> IHS_BufferMaxSize b = buf_capacity b - buf_offset b - buf_suffix b"
  using buf_wf_bounds[of b] by (simp add: IHS_BufferMaxSize_def sz_sub_exact)

lemma UsedSize_exact:
  "buf_wf b \<Longrightarrow> IHS_BufferUsedSize b = buf_offset b + buf_size b + buf_suffix b"
  using buf_wf_bounds[of b] by (simp add: IHS_BufferUsedSize_def sz_add_exact)

lemma PointerAt_in:
  assumes "buf_wf b" "p < buf_capacity b - buf_offset b - buf_suffix b"
  shows "IHS_BufferPointerAt b p = Some (buf_offset b + p)"
proof -
  have "buf_data b \<noteq> None" using assms buf_wf_block[of b] by fastforce
  moreover have "buf_offset b + p < 2 ^ 64" using assms buf_wf_bounds(3)[of b] by linarith
  ultimately show ?thesis
    using assms by (simp add: IHS_BufferPointerAt_def MaxSize_exact sz_add_exact)
qed

section \<open>Growth\<close>

text \<open>The doubling loop returns for every request up to \<open>2 ^ 63\<close>.\<close>

lemma double_until_enough:
  assumes "0 < c" "w \<le> 2 ^ 63"
  shows "\<exists>r. double_until c w = Some r \<and> w \<le> r \<and> c \<le> r \<and> (r = c \<or> r < 2 * w)"
  using assms
proof (induction "w - c" arbitrary: c rule: less_induct)
  case less
  show ?case
  proof (cases "c < w")
    case False
    then show ?thesis by (simp add: double_until.simps)
  next
    case True
    with less.prems have eq: "sz_mul c 2 = c * 2" by (simp add: sz_mul_exact)
    have "w - c * 2 < w - c" using True less.prems by simp
    then obtain r where r: "double_until (c * 2) w = Some r" "w \<le> r" "c * 2 \<le> r"
        "r = c * 2 \<or> r < 2 * w"
      using less.hyps[of "c * 2"] less.prems by auto
    then have "r < 2 * w" using True by auto
    with r True show ?thesis
      by (auto simp: double_until.simps[of c w] eq)
  qed
qed

text \<open>A request the current capacity satisfies leaves the loop at once.\<close>

lemma double_until_ge: "w \<le> c \<Longrightarrow> double_until c w = Some c"
  by (simp add: double_until.simps)

text \<open>A request that fits does not touch the buffer, whatever the allocator would do.\<close>

lemma EnsureMaxSize_fits:
  assumes wf: "buf_wf b" and cap: "0 < buf_capacity b"
    and fits: "buf_offset b + n + buf_suffix b \<le> buf_capacity b"
  shows "IHS_BufferEnsureMaxSize mem b n = Some b"
proof -
  have "buf_offset b + n < 2 ^ 64" "buf_offset b + n + buf_suffix b < 2 ^ 64"
    using buf_wf_bounds(3)[OF wf] fits by auto
  moreover have "buf_maxCapacity b > 0 \<longrightarrow> buf_capacity b \<le> buf_maxCapacity b"
    using wf by (simp add: buf_wf_def)
  ultimately show ?thesis
    using cap fits by (simp add: IHS_BufferEnsureMaxSize_def IHS_BufferEnsureCapacity_def
        Let_def sz_add_exact IHS_BufferEnsureCapacityExact_def double_until_ge)
qed

lemma EnsureCapacityExact_grow:
  assumes wf: "buf_wf b" and live: "live_alloc mem" and r: "r < 2 ^ 63"
    and max: "0 < buf_maxCapacity b \<longrightarrow> r \<le> buf_maxCapacity b"
  obtains b' where "IHS_BufferEnsureCapacityExact mem b r = Some b'" "buf_wf b'"
    "buf_capacity b' = max r (buf_capacity b)" "buf_content b' = buf_content b"
    "buf_prefix b' = buf_prefix b"
    "b' = b\<lparr>buf_data := buf_data b', buf_capacity := buf_capacity b'\<rparr>"
    "buf_data b' \<noteq> None \<or> b' = b"
proof (cases "r \<le> buf_capacity b")
  case True
  with max wf that[of b] show ?thesis
    by (simp add: IHS_BufferEnsureCapacityExact_def)
next
  case False
  let ?old = "case buf_data b of None \<Rightarrow> [] | Some xs \<Rightarrow> xs"
  have len: "length ?old = buf_capacity b"
    using wf by (auto simp: buf_wf_def split: option.splits)
  obtain ys where ys: "realloc_bytes mem ?old r = Some ys"
    using live by (fastforce simp: live_alloc_def realloc_bytes_def split: option.split)
  have leny: "length ys = r" and pre: "take (buf_capacity b) ys = ?old"
    using realloc_bytes_length[OF _ ys] live False len by (simp_all add: live_alloc_def)
  let ?b = "b\<lparr>buf_data := Some ys, buf_capacity := r\<rparr>"
  have bounds: "buf_offset b + buf_size b + buf_suffix b \<le> buf_capacity b"
    using wf by (simp add: buf_wf_def)
  have "take (buf_size b) (drop (buf_offset b) ys) =
        take (buf_size b) (drop (buf_offset b) (take (buf_capacity b) ys))"
    using bounds by (simp add: drop_take min_def)
  moreover have "take (buf_offset b) ys = take (buf_offset b) (take (buf_capacity b) ys)"
    using bounds by (simp add: min_def)
  ultimately have content: "buf_content ?b = buf_content b" "buf_prefix ?b = buf_prefix b"
    by (simp_all add: buf_content_def buf_prefix_def pre split: option.splits)
  have "buf_wf ?b" using wf False leny r max by (auto simp: buf_wf_def)
  then show ?thesis
    using that[of ?b] content ys False max
    by (simp add: IHS_BufferEnsureCapacityExact_def)
qed

lemma EnsureCapacity_grow:
  assumes wf: "buf_wf b" and live: "live_alloc mem" and can: "can_hold b w"
  obtains b' where "IHS_BufferEnsureCapacity mem b w = Some b'" "buf_wf b'"
    "w \<le> buf_capacity b'" "buf_capacity b \<le> buf_capacity b'"
    "buf_content b' = buf_content b" "buf_prefix b' = buf_prefix b"
    "b' = b\<lparr>buf_data := buf_data b', buf_capacity := buf_capacity b'\<rparr>"
    "buf_data b' \<noteq> None"
proof -
  let ?c = "grow_base b"
  have c: "0 < ?c" "?c < 2 ^ 63" "0 < buf_maxCapacity b \<longrightarrow> ?c \<le> buf_maxCapacity b"
    using wf can by (auto simp: grow_base_def can_hold_def buf_wf_def)
  have w: "w < 2 ^ 63" by (rule can_hold_bound[OF wf can])
  obtain r where r: "double_until ?c w = Some r" "w \<le> r" "?c \<le> r" "r = ?c \<or> r < 2 * w"
    using double_until_enough[OF c(1), of w] w by auto
  have r63: "r < 2 ^ 63" using r c can double_until_ge[of w ?c] by (auto simp: can_hold_def)
  have rmax: "0 < buf_maxCapacity b \<longrightarrow> r \<le> buf_maxCapacity b"
    using r c can double_until_ge[of w ?c] by (auto simp: can_hold_def)
  from EnsureCapacityExact_grow[OF wf live r63 rmax]
  obtain b' where b': "IHS_BufferEnsureCapacityExact mem b r = Some b'" "buf_wf b'"
    "buf_capacity b' = max r (buf_capacity b)" "buf_content b' = buf_content b"
    "buf_prefix b' = buf_prefix b"
    "b' = b\<lparr>buf_data := buf_data b', buf_capacity := buf_capacity b'\<rparr>" by blast
  have "IHS_BufferEnsureCapacity mem b w = Some b'"
    using c(1) r(1) b'(1)
    by (auto simp: IHS_BufferEnsureCapacity_def grow_base_def Let_def min_def split: if_splits)
  moreover have "buf_data b' \<noteq> None"
    using b'(3) c r buf_wf_block[OF b'(2)] by fastforce
  ultimately show ?thesis using that b' r by (simp add: max.coboundedI1)
qed

lemma EnsureMaxSize_grow:
  assumes wf: "buf_wf b" and live: "live_alloc mem"
    and can: "can_hold b (buf_offset b + n + buf_suffix b)"
  obtains b' where "IHS_BufferEnsureMaxSize mem b n = Some b'" "buf_wf b'"
    "buf_offset b + n + buf_suffix b \<le> buf_capacity b'" "buf_capacity b \<le> buf_capacity b'"
    "buf_content b' = buf_content b" "buf_prefix b' = buf_prefix b"
    "b' = b\<lparr>buf_data := buf_data b', buf_capacity := buf_capacity b'\<rparr>"
    "buf_data b' \<noteq> None"
proof -
  have "sz_add (sz_add (buf_offset b) n) (buf_suffix b) = buf_offset b + n + buf_suffix b"
    using can_hold_bound[OF wf can] by (simp add: sz_add_exact)
  then show ?thesis
    using EnsureCapacity_grow[OF wf live can] that
    by (metis IHS_BufferEnsureMaxSize_def)
qed


section \<open>Behaviour of the operations on well-formed buffers\<close>

text \<open>What every operation below leaves alone.\<close>

definition buf_frame :: "ihs_buffer \<Rightarrow> ihs_buffer \<Rightarrow> bool" where
  "buf_frame b b' \<longleftrightarrow>
     buf_suffix b' = buf_suffix b \<and> buf_initialCapacity b' = buf_initialCapacity b \<and>
     buf_maxCapacity b' = buf_maxCapacity b \<and> buf_capacity b \<le> buf_capacity b'"

lemma buf_store_in:
  assumes wf: "buf_wf b" and room: "buf_offset b + p + length src \<le> buf_capacity b"
    and cap: "0 < buf_capacity b"
  obtains xs where "buf_data b = Some xs" "length xs = buf_capacity b"
    "buf_store b (buf_offset b + p) src =
       Some (b\<lparr>buf_data := Some (take (buf_offset b + p) xs @ src @
                                 drop (buf_offset b + p + length src) xs)\<rparr>)"
proof -
  obtain xs where xs: "buf_data b = Some xs" "length xs = buf_capacity b"
    using buf_wf_block[OF wf cap] .
  then show ?thesis using that room by (simp add: buf_store_def mem_write_in)
qed

lemma buf_wf_set_data:
  assumes "buf_wf b" "0 < buf_capacity b" "length ys = buf_capacity b"
    "buf_offset b + n + buf_suffix b \<le> buf_capacity b"
  shows "buf_wf (b\<lparr>buf_data := Some ys, buf_size := n\<rparr>)"
  using assms by (simp add: buf_wf_def)

lemma WriteMem_spec:
  assumes wf: "buf_wf b" and live: "live_alloc mem"
    and can: "can_hold b (buf_offset b + (p + length src) + buf_suffix b)"
    and p: "p \<le> buf_size b"
    and ne: "src \<noteq> [] \<or> buf_offset b + p + buf_suffix b < buf_capacity b"
  obtains b' where "IHS_BufferWriteMem mem b p src = Some b'" "buf_wf b'" "buf_frame b b'"
    "buf_offset b' = buf_offset b" "buf_size b' = max (buf_size b) (p + length src)"
    "buf_content b' = take p (buf_content b) @ src @ drop (p + length src) (buf_content b)"
    "buf_prefix b' = buf_prefix b"
proof -
  let ?n = "length src" and ?o = "buf_offset b" and ?s = "buf_size b"
  have end_eq: "sz_add p ?n = p + ?n" using can_hold_bound[OF wf can] by (simp add: sz_add_exact)
  obtain c where c: "IHS_BufferEnsureMaxSize mem b (p + ?n) = Some c" "buf_wf c"
    "?o + (p + ?n) + buf_suffix b \<le> buf_capacity c" "buf_capacity b \<le> buf_capacity c"
    "buf_content c = buf_content b" "buf_prefix c = buf_prefix b"
    "c = b\<lparr>buf_data := buf_data c, buf_capacity := buf_capacity c\<rparr>" "buf_data c \<noteq> None"
    using EnsureMaxSize_grow[OF wf live can] by metis
  have fields: "buf_offset c = ?o" "buf_size c = ?s" "buf_suffix c = buf_suffix b"
    "buf_initialCapacity c = buf_initialCapacity b" "buf_maxCapacity c = buf_maxCapacity b"
    by (subst c(7), simp)+
  have "p < buf_capacity c - ?o - buf_suffix b"
    using ne c(3,4) length_greater_0_conv[of src] by (cases "src = []") (simp, linarith)
  then have ptr: "IHS_BufferPointerAt c p = Some (?o + p)" and cap: "0 < buf_capacity c"
    using PointerAt_in[OF c(2), of p] fields by auto
  obtain xs where xs: "buf_data c = Some xs" "length xs = buf_capacity c"
    "buf_store c (buf_offset c + p) src =
       Some (c\<lparr>buf_data := Some (take (buf_offset c + p) xs @ src @
                                 drop (buf_offset c + p + ?n) xs)\<rparr>)"
    using buf_store_in[OF c(2) _ cap, of p src] c(3) fields by auto
  let ?ys = "take (?o + p) xs @ src @ drop (?o + p + ?n) xs"
  let ?b = "c\<lparr>buf_data := Some ?ys, buf_size := max ?s (p + ?n)\<rparr>"
  have bnd: "?o + ?s + buf_suffix b \<le> buf_capacity c" using buf_wf_bounds(1)[OF wf] c(4) by simp
  have run: "IHS_BufferWriteMem mem b p src = Some ?b"
    using c(1) ptr xs(3) fields by (auto simp: IHS_BufferWriteMem_def end_eq Let_def max_def)
  have wf': "buf_wf ?b"
    by (rule buf_wf_set_data[OF c(2) cap]) (use bnd c(3) xs(2) fields in auto)
  have over: "take (max ?s (p + ?n)) (drop ?o ?ys) =
        take p (drop ?o xs) @ src @ drop (p + ?n) (take ?s (drop ?o xs))"
    by (rule slice_overwrite[OF p]) (use bnd c(3) xs(2) in auto)
  have old: "buf_content b = take ?s (drop ?o xs)" "buf_prefix b = take ?o xs"
    using c(5,6) by (simp_all add: buf_content_def[of c] buf_prefix_def[of c] xs(1) fields)
  have content: "buf_content ?b = take p (buf_content b) @ src @ drop (p + ?n) (buf_content b)"
    unfolding old using over p by (simp add: buf_content_def fields min_absorb1)
  have "buf_prefix ?b = buf_prefix b"
    unfolding old using xs(2) bnd by (simp add: buf_prefix_def fields)
  then show ?thesis using that[OF run wf' _ _ _ content] fields c(4) by (simp add: buf_frame_def)
qed

text \<open>Inside the present capacity a write needs no allocator.\<close>

lemma WriteMem_fits:
  assumes wf: "buf_wf b" and p: "p \<le> buf_size b" and src: "src \<noteq> []"
    and fits: "buf_offset b + (p + length src) + buf_suffix b \<le> buf_capacity b"
  obtains b' where "IHS_BufferWriteMem mem b p src = Some b'" "buf_wf b'" "buf_frame b b'"
    "buf_offset b' = buf_offset b" "buf_size b' = max (buf_size b) (p + length src)"
    "buf_content b' = take p (buf_content b) @ src @ drop (p + length src) (buf_content b)"
    "buf_prefix b' = buf_prefix b"
proof -
  have cap: "0 < buf_capacity b" using fits src by (cases src) auto
  then have "can_hold b (buf_offset b + (p + length src) + buf_suffix b)"
    using fits by (simp add: can_hold_def grow_base_def)
  moreover have "IHS_BufferWriteMem mem b p src = IHS_BufferWriteMem zero_mem b p src"
  proof -
    have "p + length src < 2 ^ 64" using buf_wf_bounds(3)[OF wf] fits by auto
    then show ?thesis
      using EnsureMaxSize_fits[OF wf cap fits] by (simp add: IHS_BufferWriteMem_def sz_add_exact)
  qed
  ultimately show ?thesis
    using WriteMem_spec[OF wf live_alloc_zero_mem _ p] src that by metis
qed

lemma FillMem_eq_WriteMem:
  "IHS_BufferFillMem mem b p v n = IHS_BufferWriteMem mem b p (replicate n v)"
  by (simp add: IHS_BufferFillMem_def IHS_BufferWriteMem_def)

text \<open>Appending is writing at the end of the payload.\<close>

lemma AppendMem_eq_WriteMem:
  assumes wf: "buf_wf b" and len: "buf_size b + length d < 2 ^ 64"
  shows "IHS_BufferAppendMem mem b d = IHS_BufferWriteMem mem b (buf_size b) d"
proof -
  have size: "buf_size c = buf_size b" if "IHS_BufferEnsureMaxSize mem b n = Some c" for n c
    using that
    by (auto simp: IHS_BufferEnsureMaxSize_def IHS_BufferEnsureCapacity_def
        IHS_BufferEnsureCapacityExact_def Let_def bind_eq_Some_conv split: if_splits)
  show ?thesis
    using len
    by (auto simp: IHS_BufferAppendMem_def IHS_BufferWriteMem_def IHS_BufferPointerForAppend_def
        buf_store_def Let_def sz_add_exact bind_assoc size
        intro!: Option.bind_cong dest!: size split: option.splits)
qed


lemma AppendMem_spec:
  assumes wf: "buf_wf b" and live: "live_alloc mem"
    and can: "can_hold b (buf_offset b + (buf_size b + length d) + buf_suffix b)"
    and ne: "d \<noteq> [] \<or> buf_offset b + buf_size b + buf_suffix b < buf_capacity b"
  obtains b' where "IHS_BufferAppendMem mem b d = Some b'" "buf_wf b'" "buf_frame b b'"
    "buf_offset b' = buf_offset b" "buf_size b' = buf_size b + length d"
    "buf_content b' = buf_content b @ d" "buf_prefix b' = buf_prefix b"
proof -
  have lt: "buf_size b + length d < 2 ^ 64" using can_hold_bound[OF wf can] by simp
  show ?thesis
    using WriteMem_spec[OF wf live can order_refl ne] that
    by (metis AppendMem_eq_WriteMem[OF wf lt] length_buf_content[OF wf] append.right_neutral
        drop_all le_add1 max.absorb2 take_all order_refl)
qed

text \<open>
  Appending nothing to a buffer whose room is used up fails the assertion of
  \<^verbatim>\<open>IHS_BufferPointerAt\<close>.
\<close>

lemma AppendMem_empty_full:
  assumes wf: "buf_wf b" and cap: "0 < buf_capacity b"
    and full: "buf_offset b + buf_size b + buf_suffix b = buf_capacity b"
  shows "IHS_BufferAppendMem mem b [] = None"
proof -
  have lt: "buf_size b < 2 ^ 64"
    using buf_wf_bounds(3)[OF wf] full by auto
  have "IHS_BufferEnsureMaxSize mem b (buf_size b) = Some b"
    using EnsureMaxSize_fits[OF wf cap] full by simp
  moreover have "\<not> buf_size b < IHS_BufferMaxSize b"
    using full by (simp add: MaxSize_exact[OF wf])
  ultimately show ?thesis
    using lt by (simp add: IHS_BufferAppendMem_def IHS_BufferPointerForAppend_def Let_def
        sz_add_exact IHS_BufferPointerAt_def)
qed

lemma buf_load_content:
  assumes wf: "buf_wf b" and cap: "0 < buf_capacity b - buf_offset b - buf_suffix b"
  shows "do { p \<leftarrow> IHS_BufferPointer b; buf_load b p (buf_size b) } = Some (buf_content b)"
proof -
  obtain xs where xs: "buf_data b = Some xs" "length xs = buf_capacity b"
    using buf_wf_block[OF wf] cap by auto
  then show ?thesis
    using buf_wf_bounds(1)[OF wf]
    by (simp add: IHS_BufferPointer_def PointerAt_in[OF wf cap] buf_load_def mem_read_in buf_content_def)
qed

lemma Append_eq_AppendMem:
  assumes "buf_wf d" "0 < buf_capacity d - buf_offset d - buf_suffix d"
  shows "IHS_BufferAppend mem b d = IHS_BufferAppendMem mem b (buf_content d)"
  using buf_load_content[OF assms]
  by (auto simp: IHS_BufferAppend_def bind_eq_Some_conv)

text \<open>Moving the payload's start forwards drops bytes, backwards uncovers the prefix.\<close>

lemma OffsetBy_forward:
  assumes wf: "buf_wf b" and k: "k \<le> buf_size b"
  shows "IHS_BufferOffsetBy b (int k) =
           Some (b\<lparr>buf_offset := buf_offset b + k, buf_size := buf_size b - k\<rparr>)"
    "buf_wf (b\<lparr>buf_offset := buf_offset b + k, buf_size := buf_size b - k\<rparr>)"
    "buf_content (b\<lparr>buf_offset := buf_offset b + k, buf_size := buf_size b - k\<rparr>) =
       drop k (buf_content b)"
proof -
  have "buf_offset b + k < 2 ^ 64" "buf_size b < 2 ^ 64"
    using buf_wf_bounds[OF wf] k by auto
  then show "IHS_BufferOffsetBy b (int k) =
      Some (b\<lparr>buf_offset := buf_offset b + k, buf_size := buf_size b - k\<rparr>)"
    using k sz_int_exact[of "int (buf_offset b) + int k"] sz_int_exact[of "int (buf_size b) - int k"]
    by (simp add: IHS_BufferOffsetBy_def nat_add_distrib nat_diff_distrib')
  show "buf_wf (b\<lparr>buf_offset := buf_offset b + k, buf_size := buf_size b - k\<rparr>)"
    using wf k by (auto simp: buf_wf_def split: option.splits)
  show "buf_content (b\<lparr>buf_offset := buf_offset b + k, buf_size := buf_size b - k\<rparr>) =
       drop k (buf_content b)"
    using k by (simp add: buf_content_def drop_take add.commute split: option.split)
qed

lemma OffsetBy_backward:
  assumes wf: "buf_wf b" and k: "k \<le> buf_offset b" "0 < k"
  shows "IHS_BufferOffsetBy b (- int k) =
           Some (b\<lparr>buf_offset := buf_offset b - k, buf_size := buf_size b + k\<rparr>)"
    "buf_wf (b\<lparr>buf_offset := buf_offset b - k, buf_size := buf_size b + k\<rparr>)"
    "buf_content (b\<lparr>buf_offset := buf_offset b - k, buf_size := buf_size b + k\<rparr>) =
       drop (buf_offset b - k) (buf_prefix b) @ buf_content b"
proof -
  have "buf_offset b < 2 ^ 64" "buf_size b + k < 2 ^ 64"
    using buf_wf_bounds[OF wf] k by auto
  then show "IHS_BufferOffsetBy b (- int k) =
      Some (b\<lparr>buf_offset := buf_offset b - k, buf_size := buf_size b + k\<rparr>)"
    using k sz_int_exact[of "int (buf_offset b) - int k"] sz_int_exact[of "int (buf_size b) + int k"]
    by (simp add: IHS_BufferOffsetBy_def nat_add_distrib nat_diff_distrib')
  show "buf_wf (b\<lparr>buf_offset := buf_offset b - k, buf_size := buf_size b + k\<rparr>)"
    using wf k by (auto simp: buf_wf_def split: option.splits)
  have "take (buf_size b + k) (drop (buf_offset b - k) xs) =
        drop (buf_offset b - k) (take (buf_offset b) xs) @ take (buf_size b) (drop (buf_offset b) xs)"
    if "buf_offset b + buf_size b \<le> length xs" for xs :: bytes
  proof -
    have "take (k + buf_size b) (drop (buf_offset b - k) xs) =
        take k (drop (buf_offset b - k) xs) @ take (buf_size b) (drop k (drop (buf_offset b - k) xs))"
      by (rule take_add)
    then show ?thesis using k by (simp add: drop_take add.commute)
  qed
  then show "buf_content (b\<lparr>buf_offset := buf_offset b - k, buf_size := buf_size b + k\<rparr>) =
       drop (buf_offset b - k) (buf_prefix b) @ buf_content b"
    using wf k by (auto simp: buf_content_def buf_prefix_def buf_wf_def split: option.splits)
qed

lemma Clear_spec:
  assumes wf: "buf_wf b"
  obtains b' where "IHS_BufferClear b freeData = Some b'" "buf_content b' = []" "buf_size b' = 0"
    "buf_offset b' = 0" "freeData \<Longrightarrow> buf_data b' = None \<and> buf_capacity b' = 0"
    "\<not> freeData \<Longrightarrow> buf_data b' = buf_data b \<and> buf_capacity b' = buf_capacity b \<and> buf_wf b'"
    "buf_suffix b' = buf_suffix b" "buf_suffix b = 0 \<Longrightarrow> buf_wf b'"
proof (cases "buf_data b")
  case None
  then have "buf_capacity b = 0" using wf by (simp add: buf_wf_def)
  with None wf show ?thesis
    by (intro that[of "b\<lparr>buf_size := 0, buf_offset := 0\<rparr>"])
      (auto simp: IHS_BufferClear_def buf_content_def buf_wf_def)
next
  case (Some xs)
  show ?thesis
  proof (cases freeData)
    case True
    with Some wf show ?thesis
      by (intro that[of "b\<lparr>buf_size := 0, buf_offset := 0, buf_capacity := 0, buf_data := None\<rparr>"])
        (auto simp: IHS_BufferClear_def buf_content_def buf_wf_def)
  next
    case False
    with Some wf show ?thesis
      by (intro that[of "b\<lparr>buf_size := 0, buf_offset := 0\<rparr>"])
        (auto simp: IHS_BufferClear_def buf_content_def buf_wf_def)
  qed
qed

text \<open>Transfer never fails: the source is emptied and the target is the old value.\<close>

lemma TransferOwnership_spec [simp]:
  "IHS_BufferTransferOwnership b =
     Some (b\<lparr>buf_data := None, buf_capacity := 0, buf_size := 0, buf_offset := 0\<rparr>, b)"
  by (simp add: IHS_BufferTransferOwnership_def IHS_BufferReleaseOwnership_def IHS_BufferClear_def)

end
