(* ===== verification/Endianness.thy ===== *)
theory Endianness
  imports Prelude
begin

text \<open>
  Fixed-width little-endian integers on the wire (\<^verbatim>\<open>src/endianness.h\<close>).  The C code copies the
  object representation, so these definitions are its behaviour on the little-endian hosts the
  library is built for.  The interface the parsers and writers rely on is the locale
  \<open>wire_int\<close>, interpreted on the four widths of the source.
\<close>

section \<open>Definitions\<close>

fun le_word :: "bytes \<Rightarrow> 'a::len word" where
  "le_word [] = 0"
| "le_word (b # bs) = ucast b OR push_bit 8 (le_word bs)"

definition le_bytes :: "nat \<Rightarrow> 'a::len word \<Rightarrow> bytes" where
  "le_bytes n v = map (\<lambda>i. ucast (drop_bit (8 * i) v)) [0..<n]"

definition IHS_WriteUInt16LE :: "u16 \<Rightarrow> bytes" where
  "IHS_WriteUInt16LE value = le_bytes 2 value"

definition IHS_WriteSInt16LE :: "u16 \<Rightarrow> bytes" where
  \<comment> \<open>an \<open>int16_t\<close> is kept as its 16-bit pattern; \<open>sint\<close> reads its value\<close>
  "IHS_WriteSInt16LE value = le_bytes 2 value"

definition IHS_WriteUInt32LE :: "u32 \<Rightarrow> bytes" where
  "IHS_WriteUInt32LE value = le_bytes 4 value"

definition IHS_WriteUInt64LE :: "u64 \<Rightarrow> bytes" where
  "IHS_WriteUInt64LE value = le_bytes 8 value"

text \<open>A read takes the bytes from the pointer on and touches exactly its width.\<close>

definition IHS_ReadUInt16LE :: "bytes \<Rightarrow> u16 option" where
  "IHS_ReadUInt16LE src = map_option le_word (mem_read src 0 2)"

definition IHS_ReadSInt16LE :: "bytes \<Rightarrow> u16 option" where
  "IHS_ReadSInt16LE src = map_option le_word (mem_read src 0 2)"

definition IHS_ReadUInt32LE :: "bytes \<Rightarrow> u32 option" where
  "IHS_ReadUInt32LE src = map_option le_word (mem_read src 0 4)"

definition IHS_ReadUInt64LE :: "bytes \<Rightarrow> u64 option" where
  "IHS_ReadUInt64LE src = map_option le_word (mem_read src 0 8)"

section \<open>Bits of an encoding\<close>

lemma length_le_bytes [simp]: "length (le_bytes n v) = n"
  by (simp add: le_bytes_def)

lemma bit_le_word:
  "bit (le_word bs :: 'a::len word) i \<longleftrightarrow>
     i < LENGTH('a) \<and> i div 8 < length bs \<and> bit (bs ! (i div 8)) (i mod 8)"
proof (induction bs arbitrary: i)
  case Nil
  then show ?case by simp
next
  case (Cons b bs)
  show ?case
  proof (cases "i < 8")
    case True
    then show ?thesis by (auto simp: bit_simps)
  next
    case False
    then obtain j where "i = j + 8" by (metis add.commute le_add_diff_inverse not_less)
    moreover have "(j + 8) div 8 = Suc (j div 8)" by simp
    ultimately show ?thesis using Cons[of j] by (auto simp: bit_simps dest: bit_imp_le_length)
  qed
qed

lemma le_word_le_bytes:
  assumes "LENGTH('a::len) = 8 * n"
  shows "le_word (le_bytes n v) = (v :: 'a word)"
proof (rule bit_word_eqI)
  fix i assume i: "i < LENGTH('a)"
  then have "i div 8 < n" using assms by simp
  moreover have "8 * (i div 8) + i mod 8 = i" by simp
  ultimately show "bit (le_word (le_bytes n v) :: 'a word) i = bit v i"
    using i by (simp add: bit_le_word le_bytes_def bit_simps)
qed

lemma le_bytes_le_word:
  assumes "LENGTH('a::len) = 8 * n" "length bs = n"
  shows "le_bytes n (le_word bs :: 'a word) = bs"
proof (rule nth_equalityI)
  show "length (le_bytes n (le_word bs :: 'a word)) = length bs" using assms by simp
next
  fix k assume "k < length (le_bytes n (le_word bs :: 'a word))"
  then have k: "k < n" by simp
  show "le_bytes n (le_word bs :: 'a word) ! k = bs ! k"
  proof (rule bit_word_eqI)
    fix i assume i: "i < LENGTH(8)"
    then have "8 * k + i < LENGTH('a)" using k assms by simp
    moreover have "(8 * k + i) div 8 = k" "(8 * k + i) mod 8 = i" using i by simp_all
    ultimately show "bit (le_bytes n (le_word bs :: 'a word) ! k) i = bit (bs ! k) i"
      using k i assms by (simp add: le_bytes_def bit_simps bit_le_word)
  qed
qed

section \<open>The interface of a wire integer\<close>

locale wire_int =
  fixes enc :: "'v \<Rightarrow> bytes" and dec :: "bytes \<Rightarrow> 'v option" and width :: nat
  assumes length_enc: "length (enc v) = width"
    and dec_enc: "dec (enc v @ rest) = Some v"
    and enc_dec: "dec (bs @ rest) = Some v \<Longrightarrow> length bs = width \<Longrightarrow> enc v = bs"
    and dec_enough: "width \<le> length src \<longleftrightarrow> (\<exists>v. dec src = Some v)"
begin

lemma enc_inject: "enc v = enc w \<longleftrightarrow> v = w"
  by (metis option.inject dec_enc)

lemma dec_at:
  "k = length pre \<Longrightarrow> dec (drop k (pre @ enc v @ rest)) = Some v"
  by (simp add: dec_enc)

lemma dec_short: "length src < width \<Longrightarrow> dec src = None"
  using dec_enough[of src] by (cases "dec src") auto

lemma dec_splits:
  assumes "dec src = Some v"
  shows "src = enc v @ drop width src"
proof -
  have "width \<le> length src" using assms dec_enough by blast
  then have "enc v = take width src"
    using enc_dec[of "take width src" "drop width src" v] assms by simp
  then show ?thesis by simp
qed

end

lemma read_le_word_cases:
  "map_option le_word (mem_read src 0 n) =
     (if n \<le> length src then Some (le_word (take n src)) else None)"
  by (simp add: mem_read_def)

interpretation u16_wire: wire_int IHS_WriteUInt16LE IHS_ReadUInt16LE 2
  by unfold_locales
    (auto simp: IHS_WriteUInt16LE_def IHS_ReadUInt16LE_def read_le_word_cases le_word_le_bytes
      le_bytes_le_word split: if_splits)

interpretation s16_wire: wire_int IHS_WriteSInt16LE IHS_ReadSInt16LE 2
  by unfold_locales
    (auto simp: IHS_WriteSInt16LE_def IHS_ReadSInt16LE_def read_le_word_cases le_word_le_bytes
      le_bytes_le_word split: if_splits)

interpretation u32_wire: wire_int IHS_WriteUInt32LE IHS_ReadUInt32LE 4
  by unfold_locales
    (auto simp: IHS_WriteUInt32LE_def IHS_ReadUInt32LE_def read_le_word_cases le_word_le_bytes
      le_bytes_le_word split: if_splits)

interpretation u64_wire: wire_int IHS_WriteUInt64LE IHS_ReadUInt64LE 8
  by unfold_locales
    (auto simp: IHS_WriteUInt64LE_def IHS_ReadUInt64LE_def read_le_word_cases le_word_le_bytes
      le_bytes_le_word split: if_splits)

end
