(* ===== verification/Packet.thy ===== *)
theory Packet
  imports Buffer Endianness Checksum
begin

text \<open>
  Session packets (\<^verbatim>\<open>src/session/packet.h\<close>, \<^verbatim>\<open>src/session/packet.c\<close>): the 13-byte header, its
  serialization, the CRC-32C trailer, parsing with its rejection of runt and corrupt datagrams,
  and padding.  The main results are the wire round trip, the exact conditions under which a
  datagram is accepted, and that a datagram damaged by a burst of up to four bytes behind the
  header flag is never accepted.
\<close>

section \<open>Data\<close>

abbreviation (input) IHS_SessionPacketTypeUnconnected :: u32 where "IHS_SessionPacketTypeUnconnected \<equiv> 0"
abbreviation (input) IHS_SessionPacketTypeConnect :: u32 where "IHS_SessionPacketTypeConnect \<equiv> 1"
abbreviation (input) IHS_SessionPacketTypeConnectACK :: u32 where "IHS_SessionPacketTypeConnectACK \<equiv> 2"
abbreviation (input) IHS_SessionPacketTypeUnreliable :: u32 where "IHS_SessionPacketTypeUnreliable \<equiv> 3"
abbreviation (input) IHS_SessionPacketTypeUnreliableFrag :: u32 where "IHS_SessionPacketTypeUnreliableFrag \<equiv> 4"
abbreviation (input) IHS_SessionPacketTypeReliable :: u32 where "IHS_SessionPacketTypeReliable \<equiv> 5"
abbreviation (input) IHS_SessionPacketTypeReliableFrag :: u32 where "IHS_SessionPacketTypeReliableFrag \<equiv> 6"
abbreviation (input) IHS_SessionPacketTypeACK :: u32 where "IHS_SessionPacketTypeACK \<equiv> 7"
abbreviation (input) IHS_SessionPacketTypeNACK :: u32 where "IHS_SessionPacketTypeNACK \<equiv> 8"
abbreviation (input) IHS_SessionPacketTypeDisconnect :: u32 where "IHS_SessionPacketTypeDisconnect \<equiv> 9"
abbreviation (input) IHS_SessionPacketTypeUnreliableNack :: u32 where "IHS_SessionPacketTypeUnreliableNack \<equiv> 10"
abbreviation (input) IHS_SessionPacketTypeUnreliableFEC :: u32 where "IHS_SessionPacketTypeUnreliableFEC \<equiv> 11"

text \<open>\<open>hdr_fragmentId\<close> is the bit pattern of an \<^verbatim>\<open>int16_t\<close>; \<^term>\<open>sint\<close> reads its value.\<close>

record packet_header =
  hdr_hasCrc :: bool
  hdr_type :: u32
  hdr_retransmitCount :: u8
  hdr_srcConnectionId :: u8
  hdr_dstConnectionId :: u8
  hdr_channelId :: u32
  hdr_fragmentId :: u16
  hdr_packetId :: u16
  hdr_sendTimestamp :: u32
  hdr_autoPacketId :: bool
  hdr_hidReport :: bool
  hdr_receiveTimestamp :: u32
  hdr_receiveBegin :: u32

definition zero_header :: packet_header where
  "zero_header = \<lparr>hdr_hasCrc = False, hdr_type = 0, hdr_retransmitCount = 0,
     hdr_srcConnectionId = 0, hdr_dstConnectionId = 0, hdr_channelId = 0, hdr_fragmentId = 0,
     hdr_packetId = 0, hdr_sendTimestamp = 0, hdr_autoPacketId = False, hdr_hidReport = False,
     hdr_receiveTimestamp = 0, hdr_receiveBegin = 0\<rparr>"

record session_packet =
  pkt_header :: packet_header
  pkt_body :: ihs_buffer
  pkt_crc :: u32

definition zero_packet :: session_packet where
  "zero_packet = \<lparr>pkt_header = zero_header, pkt_body = IHS_BufferInit 0 0, pkt_crc = 0\<rparr>"

datatype packet_result = ResultOK | ResultBadHeader | ResultBadChecksum

abbreviation (input) IHS_PACKET_HEADER_SIZE :: nat where "IHS_PACKET_HEADER_SIZE \<equiv> 13"

definition IHS_SESSION_PACKET_TIMESTAMP_FROM_MILLIS :: "u64 \<Rightarrow> u32" where
  "IHS_SESSION_PACKET_TIMESTAMP_FROM_MILLIS millis = ucast (millis * 65536 div 1000)"

definition IHS_SESSION_PACKET_TIMESTAMP_TO_MILLIS :: "u64 \<Rightarrow> u32" where
  "IHS_SESSION_PACKET_TIMESTAMP_TO_MILLIS diff = ucast (diff * 1000 div 65536)"

section \<open>Operations\<close>

definition byte_at :: "bytes \<Rightarrow> nat \<Rightarrow> u8 option" where
  "byte_at src i = (if i < length src then Some (src ! i) else None)"

text \<open>\<open>src\<close> is what the pointer can reach: the bytes from it to the end of the block.\<close>

definition IHS_SessionPacketHeaderParse :: "bytes \<Rightarrow> (packet_header \<times> nat) option" where
  "IHS_SessionPacketHeaderParse src = do {
     b0 \<leftarrow> byte_at src 0;
     b1 \<leftarrow> byte_at src 1;
     b2 \<leftarrow> byte_at src 2;
     b3 \<leftarrow> byte_at src 3;
     b4 \<leftarrow> byte_at src 4;
     frag \<leftarrow> IHS_ReadSInt16LE (drop 5 src);
     pid \<leftarrow> IHS_ReadUInt16LE (drop 7 src);
     stamp \<leftarrow> IHS_ReadUInt32LE (drop 9 src);
     Some (zero_header\<lparr>
       hdr_hasCrc := (b0 AND 0x80 = 0x80),
       hdr_type := ucast (b0 AND 0x7F),
       hdr_retransmitCount := b1,
       hdr_srcConnectionId := b2,
       hdr_dstConnectionId := b3,
       hdr_channelId := ucast b4,
       hdr_fragmentId := frag,
       hdr_packetId := pid,
       hdr_sendTimestamp := stamp\<rparr>, 13)
   }"

definition header_bytes :: "packet_header \<Rightarrow> bytes" where
  "header_bytes h =
     [(if hdr_hasCrc h then 0x80 else 0) OR ucast (hdr_type h AND 0x7F),
      hdr_retransmitCount h, hdr_srcConnectionId h, hdr_dstConnectionId h, ucast (hdr_channelId h)] @
     IHS_WriteSInt16LE (hdr_fragmentId h) @ IHS_WriteUInt16LE (hdr_packetId h) @
     IHS_WriteUInt32LE (hdr_sendTimestamp h)"

definition IHS_SessionPacketHeaderSerialize ::
    "allocator \<Rightarrow> packet_header \<Rightarrow> ihs_buffer \<Rightarrow> ihs_buffer option" where
  "IHS_SessionPacketHeaderSerialize mem h dest = do {
     let serialized = header_bytes h;
     assert_that (length serialized = IHS_PACKET_HEADER_SIZE);
     IHS_BufferWriteMem mem dest 0 serialized
   }"

definition IHS_SessionPacketBodyInitialize :: "allocator \<Rightarrow> bool \<Rightarrow> ihs_buffer option" where
  "IHS_SessionPacketBodyInitialize mem hasCrc = do {
     let body = IHS_BufferInit 2048 2048;
     body \<leftarrow> IHS_BufferFillMem mem body 0 0 IHS_PACKET_HEADER_SIZE;
     body \<leftarrow> IHS_BufferOffsetBy body (int IHS_PACKET_HEADER_SIZE);
     assert_that (buf_offset body = IHS_PACKET_HEADER_SIZE);
     if hasCrc then do {
       body \<leftarrow> IHS_BufferSetSuffixLength mem body 4;
       assert_that (buf_suffix body = 4);
       Some body
     } else Some body
   }"

text \<open>The result code, the packet as far as it was filled, and the drained source buffer.\<close>

definition IHS_SessionPacketParse ::
    "ihs_buffer \<Rightarrow> (packet_result \<times> session_packet \<times> ihs_buffer) option" where
  "IHS_SessionPacketParse src =
     (if buf_size src < IHS_PACKET_HEADER_SIZE then Some (ResultBadHeader, zero_packet, src)
      else do {
        p \<leftarrow> IHS_BufferPointer src;
        xs \<leftarrow> buf_data src;
        (header, headLen) \<leftarrow> IHS_SessionPacketHeaderParse (drop p xs);
        let packet = zero_packet\<lparr>pkt_header := header\<rparr>;
        if headLen = 0 then Some (ResultBadHeader, packet, src)
        else do {
          let bodyLen = sz_sub (buf_size src) headLen;
          if hdr_hasCrc header then
            (if bodyLen < 4 then Some (ResultBadHeader, packet, src)
             else do {
               let bodyLen = bodyLen - 4;
               q \<leftarrow> IHS_BufferPointerAt src (headLen + bodyLen);
               crc \<leftarrow> IHS_ReadUInt32LE (drop q xs);
               let packet = packet\<lparr>pkt_crc := crc\<rparr>;
               r \<leftarrow> IHS_BufferPointerAt src 0;
               covered \<leftarrow> buf_load src r (headLen + bodyLen);
               if IHS_CRC32C covered \<noteq> crc then Some (ResultBadChecksum, packet, src)
               else do {
                 src \<leftarrow> IHS_BufferOffsetBy src (int headLen);
                 (src, body) \<leftarrow> IHS_BufferTransferOwnership (src\<lparr>buf_size := bodyLen\<rparr>);
                 Some (ResultOK, packet\<lparr>pkt_body := body\<rparr>, src)
               }
             })
          else do {
            src \<leftarrow> IHS_BufferOffsetBy src (int headLen);
            (src, body) \<leftarrow> IHS_BufferTransferOwnership (src\<lparr>buf_size := bodyLen\<rparr>);
            Some (ResultOK, packet\<lparr>pkt_body := body\<rparr>, src)
          }
        }
      })"

definition IHS_SessionPacketPadTo :: "allocator \<Rightarrow> session_packet \<Rightarrow> nat \<Rightarrow> session_packet option" where
  "IHS_SessionPacketPadTo mem packet padTo =
     (let curSize = sz_add IHS_PACKET_HEADER_SIZE (buf_size (pkt_body packet)) in
      if padTo \<le> curSize then Some packet
      else do {
        body \<leftarrow> IHS_BufferFillMem mem (pkt_body packet) (buf_size (pkt_body packet)) 0xFE
                  (sz_sub padTo curSize);
        Some (packet\<lparr>pkt_body := body\<rparr>)
      })"

definition IHS_SessionPacketSize :: "session_packet \<Rightarrow> nat" where
  "IHS_SessionPacketSize packet =
     sz_add (sz_add IHS_PACKET_HEADER_SIZE (buf_size (pkt_body packet)))
       (if hdr_hasCrc (pkt_header packet) then 4 else 0)"

definition IHS_SessionPacketPopulateBuffer :: "allocator \<Rightarrow> session_packet \<Rightarrow> session_packet option" where
  "IHS_SessionPacketPopulateBuffer mem packet = do {
     let body = pkt_body packet;
     assert_that (buf_offset body = IHS_PACKET_HEADER_SIZE);
     body \<leftarrow> IHS_BufferOffsetBy body (- int IHS_PACKET_HEADER_SIZE);
     body \<leftarrow> IHS_SessionPacketHeaderSerialize mem (pkt_header packet) body;
     body \<leftarrow> (if hdr_hasCrc (pkt_header packet) then do {
                assert_that (buf_suffix body = 4);
                p \<leftarrow> IHS_BufferPointer body;
                covered \<leftarrow> buf_load body p (buf_size body);
                s \<leftarrow> IHS_BufferSuffixPointer body;
                buf_store body s (IHS_WriteUInt32LE (IHS_CRC32C covered))
              } else Some body);
     body \<leftarrow> IHS_BufferOffsetBy body (int IHS_PACKET_HEADER_SIZE);
     assert_that (buf_offset body = IHS_PACKET_HEADER_SIZE);
     let packet = packet\<lparr>pkt_body := body\<rparr>;
     assert_that (IHS_SessionPacketSize packet = IHS_BufferUsedSize body);
     Some packet
   }"

definition IHS_SessionPacketClear :: "session_packet \<Rightarrow> bool \<Rightarrow> session_packet option" where
  "IHS_SessionPacketClear packet freeData = do {
     body \<leftarrow> IHS_BufferClear (pkt_body packet) freeData;
     Some (packet\<lparr>pkt_body := body\<rparr>)
   }"

text \<open>
  \<^verbatim>\<open>IHS_SessionPacketTimestamp\<close> at a reading of the monotonic clock: seconds in the high half,
  the binary fraction of the nanoseconds in the low half.
\<close>

definition IHS_SessionPacketTimestamp :: "u64 \<Rightarrow> u64 \<Rightarrow> u32" where
  "IHS_SessionPacketTimestamp tv_sec tv_nsec =
     ucast (push_bit 16 tv_sec OR ((tv_nsec * 65536 div 1000000000) AND 0xFFFF))"


section \<open>The header on the wire\<close>

definition header_of :: "bytes \<Rightarrow> packet_header" where
  "header_of src = zero_header\<lparr>
     hdr_hasCrc := bit (src ! 0) 7,
     hdr_type := ucast (src ! 0 AND 0x7F),
     hdr_retransmitCount := src ! 1, hdr_srcConnectionId := src ! 2, hdr_dstConnectionId := src ! 3,
     hdr_channelId := ucast (src ! 4),
     hdr_fragmentId := le_word (take 2 (drop 5 src)),
     hdr_packetId := le_word (take 2 (drop 7 src)),
     hdr_sendTimestamp := le_word (take 4 (drop 9 src))\<rparr>"

text \<open>What of a header survives the wire: seven type bits, eight channel bits, no local fields.\<close>

definition wire_view :: "packet_header \<Rightarrow> packet_header" where
  "wire_view h = h\<lparr>hdr_type := hdr_type h AND 0x7F, hdr_channelId := hdr_channelId h AND 0xFF,
     hdr_autoPacketId := False, hdr_hidReport := False, hdr_receiveTimestamp := 0,
     hdr_receiveBegin := 0\<rparr>"

text \<open>Bits of the two masks; the simplifier reads word numerals through the integers.\<close>

lemma bit_0x80: "bit (0x80 :: int) n \<longleftrightarrow> n = 7"
  using bit_exp_iff[of 7 n, where 'a = int] by simp

lemma bit_0x7F: "bit (0x7F :: int) n \<longleftrightarrow> n < 7"
  using bit_mask_iff[of 7 n, where 'a = int] by (simp add: mask_eq_exp_minus_1)

lemma and_0x80_iff_bit: "(b :: u8) AND 0x80 = 0x80 \<longleftrightarrow> bit b 7"
proof
  assume "b AND 0x80 = 0x80"
  then have "bit (b AND 0x80) 7" by simp
  then show "bit b 7" by (simp only: bit_and_iff)
next
  assume "bit b 7"
  then show "b AND 0x80 = 0x80" by (intro bit_word_eqI) (auto simp: bit_and_iff bit_0x80)
qed

lemma HeaderParse_ok:
  assumes "13 \<le> length src"
  shows "IHS_SessionPacketHeaderParse src = Some (header_of src, 13)"
proof -
  have "src \<noteq> []" "2 \<le> length src - 5" "2 \<le> length src - 7" "4 \<le> length src - 9"
    "Suc 0 < length src" using assms by auto
  then show ?thesis
    using assms by (simp add: IHS_SessionPacketHeaderParse_def byte_at_def IHS_ReadSInt16LE_def
        IHS_ReadUInt16LE_def IHS_ReadUInt32LE_def mem_read_in header_of_def and_0x80_iff_bit)
qed

lemma header_of_prefix:
  assumes "13 \<le> length xs"
  shows "header_of (xs @ ys) = header_of xs"
proof -
  have "xs \<noteq> []" "Suc 0 < length xs" using assms by auto
  then show ?thesis using assms by (simp add: header_of_def nth_append)
qed

lemma length_header_bytes [simp]: "length (header_bytes h) = 13"
  by (simp add: header_bytes_def IHS_WriteSInt16LE_def IHS_WriteUInt16LE_def IHS_WriteUInt32LE_def)

lemma ucast_and_mask7: "ucast (ucast (t AND 0x7F) :: u8) = (t AND 0x7F :: u32)"
  and ucast_and_mask8: "ucast (ucast t :: u8) = (t AND 0xFF :: u32)"
proof -
  have m: "(0x7F :: u32) = mask 7" "(0xFF :: u32) = mask 8" by (simp_all add: mask_eq_exp_minus_1)
  show "ucast (ucast (t AND 0x7F) :: u8) = (t AND 0x7F :: u32)"
    unfolding m by (rule bit_word_eqI) (auto simp: bit_simps)
  show "ucast (ucast t :: u8) = (t AND 0xFF :: u32)"
    unfolding m by (rule bit_word_eqI) (auto simp: bit_simps)
qed

lemma flag_byte:
  fixes t :: u32
  shows "bit ((if c then 0x80 else 0) OR ucast (t AND 0x7F) :: u8) 7 = c"
    "((if c then 0x80 else 0) OR ucast (t AND 0x7F) :: u8) AND 0x7F = ucast (t AND 0x7F)"
proof -
  have m: "(0x7F :: u32) = mask 7" by (simp add: mask_eq_exp_minus_1)
  show "bit ((if c then 0x80 else 0) OR ucast (t AND 0x7F) :: u8) 7 = c"
    unfolding m by (simp add: bit_simps bit_0x80)
  show "((if c then 0x80 else 0) OR ucast (t AND 0x7F) :: u8) AND 0x7F = ucast (t AND 0x7F)"
    unfolding m by (rule bit_word_eqI) (auto simp: bit_simps bit_0x80 bit_0x7F)
qed

lemma header_of_bytes: "header_of (header_bytes h @ rest) = wire_view h"
  using flag_byte[of "hdr_hasCrc h" "hdr_type h"]
  by (intro packet_header.equality)
    (simp_all add: header_of_def header_bytes_def wire_view_def zero_header_def
      IHS_WriteSInt16LE_def IHS_WriteUInt16LE_def IHS_WriteUInt32LE_def le_word_le_bytes
      ucast_and_mask8 and.assoc)

section \<open>Reference parser on byte lists\<close>

definition parse_datagram :: "bytes \<Rightarrow> packet_result \<times> packet_header \<times> u32 \<times> bytes" where
  "parse_datagram c =
     (if length c < 13 then (ResultBadHeader, zero_header, 0, [])
      else let h = header_of c; n = length c - 4 in
        if \<not> hdr_hasCrc h then (ResultOK, h, 0, drop 13 c)
        else if length c < 17 then (ResultBadHeader, h, 0, [])
        else let crc = le_word (drop n c) in
          if IHS_CRC32C (take n c) \<noteq> crc then (ResultBadChecksum, h, crc, [])
          else (ResultOK, h, crc, drop 13 (take n c)))"

text \<open>What the caller sees of a parse: code, header, stored checksum and payload.\<close>

definition parse_view :: "packet_result \<times> session_packet \<times> ihs_buffer \<Rightarrow>
    packet_result \<times> packet_header \<times> u32 \<times> bytes" where
  "parse_view r = (case r of (res, p, src) \<Rightarrow>
     (res, pkt_header p, pkt_crc p, buf_content (pkt_body p)))"


lemma parsed_body_content:
  assumes wf: "buf_wf src" and n: "13 + n \<le> buf_size src"
  shows "buf_content (src\<lparr>buf_offset := buf_offset src + 13, buf_size := n\<rparr>) =
           take n (drop 13 (buf_content src))"
  using n by (simp add: buf_content_def drop_take add.commute split: option.split)

lemma PacketParse_refines:
  assumes wf: "buf_wf src"
  shows "\<exists>r. IHS_SessionPacketParse src = Some r \<and> parse_view r = parse_datagram (buf_content src)"
proof (cases "buf_size src < 13")
  case True
  then show ?thesis
    by (simp add: IHS_SessionPacketParse_def parse_view_def parse_datagram_def zero_packet_def
        length_buf_content[OF wf])
next
  case False
  let ?o = "buf_offset src" and ?s = "buf_size src" and ?c = "buf_content src"
  have bnd: "?o + ?s + buf_suffix src \<le> buf_capacity src" "?s < 2 ^ 64"
    using buf_wf_bounds[OF wf] by auto
  have "0 < buf_capacity src" using False bnd(1) by linarith
  then obtain xs where xs: "buf_data src = Some xs" "length xs = buf_capacity src"
    using buf_wf_block[OF wf] by blast
  have c: "?c = take ?s (drop ?o xs)" by (simp add: buf_content_def xs(1))
  have split: "drop ?o xs = ?c @ drop (?o + ?s) xs"
    unfolding c by (metis add.commute append_take_drop_id drop_drop)
  have len: "length ?c = ?s" by (rule length_buf_content[OF wf])
  have hdr: "header_of (drop ?o xs) = header_of ?c"
    unfolding split by (rule header_of_prefix) (use False len in simp)
  have parse: "IHS_SessionPacketHeaderParse (drop ?o xs) = Some (header_of ?c, 13)"
    using HeaderParse_ok[of "drop ?o xs"] hdr xs(2) bnd False by simp
  have at: "IHS_BufferPointerAt src k = Some (?o + k)" if "k < ?s" for k
    using PointerAt_in[OF wf, of k] that bnd by simp
  have sub: "sz_sub ?s 13 = ?s - 13" using False bnd by (simp add: sz_sub_exact)
  have off: "IHS_BufferOffsetBy src 13 = Some (src\<lparr>buf_offset := ?o + 13, buf_size := ?s - 13\<rparr>)"
    using OffsetBy_forward(1)[OF wf, of 13] False by simp
  have p0: "IHS_BufferPointer src = Some ?o" using at[of 0] False by (simp add: IHS_BufferPointer_def)
  show ?thesis
  proof (cases "hdr_hasCrc (header_of ?c) \<and> 17 \<le> ?s")
    case True
    let ?n = "?s - 4"
    have "drop (?o + ?n) xs = drop ?n (drop ?o xs)" by (simp add: add.commute)
    also have "\<dots> = drop ?n ?c @ drop (?o + ?s) xs" unfolding split using len by simp
    finally have crc: "IHS_ReadUInt32LE (drop (?o + ?n) xs) = Some (le_word (drop ?n ?c))"
      using len True by (simp add: IHS_ReadUInt32LE_def read_le_word_cases)
    have load: "buf_load src ?o ?n = Some (take ?n ?c)"
      using xs bnd by (simp add: buf_load_def mem_read_in c)
    have "13 + (?s - 13 - 4) = ?n" using True by simp
    moreover have "take (?s - 17) (drop 13 ?c) = drop 13 (take ?n ?c)"
      by (simp add: drop_take)
    ultimately show ?thesis
      using True False p0 parse at[of 0] at[of ?n] crc load off xs(1)
      by (auto simp: IHS_SessionPacketParse_def parse_view_def parse_datagram_def zero_packet_def
          len sub Let_def parsed_body_content[OF wf])
  next
    case no: False
    then show ?thesis
      using False p0 parse off xs(1)
      by (auto simp: IHS_SessionPacketParse_def parse_view_def parse_datagram_def zero_packet_def
          len sub Let_def parsed_body_content[OF wf])
  qed
qed


section \<open>Serialization\<close>

text \<open>
  The bytes handed to the socket: the send path takes a shallow copy of the body and widens it
  over the header and the checksum (\<^verbatim>\<open>session.c\<close>, \<^verbatim>\<open>IHS_BufferExtendSize\<close>).
\<close>

definition wire_bytes :: "session_packet \<Rightarrow> bytes" where
  "wire_bytes packet = buf_content (IHS_BufferExtendSize (pkt_body packet))"

definition frame_bytes :: "packet_header \<Rightarrow> bytes \<Rightarrow> bytes" where
  "frame_bytes h payload =
     (let m = header_bytes h @ payload
      in m @ (if hdr_hasCrc h then IHS_WriteUInt32LE (IHS_CRC32C m) else []))"

text \<open>A packet ready to be serialized: room for the header, and for the checksum if it has one.\<close>

definition sendable :: "session_packet \<Rightarrow> bool" where
  "sendable packet \<longleftrightarrow> buf_wf (pkt_body packet) \<and> buf_offset (pkt_body packet) = 13 \<and>
     (if hdr_hasCrc (pkt_header packet)
      then buf_suffix (pkt_body packet) = 4 \<and>
           13 + buf_size (pkt_body packet) + 4 < buf_capacity (pkt_body packet)
      else buf_suffix (pkt_body packet) = 0)"

lemma ExtendSize_content:
  assumes wf: "buf_wf b" and xs: "buf_data b = Some xs"
  shows "buf_content (IHS_BufferExtendSize b) = take (buf_offset b + buf_size b + buf_suffix b) xs"
proof -
  have "buf_size b + buf_offset b < 2 ^ 64" "buf_size b + buf_offset b + buf_suffix b < 2 ^ 64"
    using buf_wf_bounds[OF wf] by auto
  then show ?thesis using xs by (simp add: IHS_BufferExtendSize_def buf_content_def sz_add_exact ac_simps)
qed


text \<open>Writing the header in front of the payload.\<close>

lemma serialize_header:
  assumes wf: "buf_wf b" and off: "buf_offset b = 13"
  obtains b1 b2 where "IHS_BufferOffsetBy b (- 13) = Some b1"
    "IHS_SessionPacketHeaderSerialize mem h b1 = Some b2" "buf_wf b2"
    "buf_offset b2 = 0" "buf_size b2 = buf_size b + 13" "buf_suffix b2 = buf_suffix b"
    "buf_capacity b \<le> buf_capacity b2" "buf_content b2 = header_bytes h @ buf_content b"
proof -
  let ?b = "b\<lparr>buf_offset := buf_offset b - 13, buf_size := buf_size b + 13\<rparr>"
  have bk: "IHS_BufferOffsetBy b (- 13) = Some ?b" "buf_wf ?b"
    "buf_content ?b = buf_prefix b @ buf_content b"
    using OffsetBy_backward[OF wf, of 13] off by simp_all
  have bnd: "13 + buf_size b + buf_suffix b \<le> buf_capacity b" using buf_wf_bounds(1)[OF wf] off by simp
  obtain xs where "buf_data b = Some xs" "length xs = buf_capacity b"
    using buf_wf_block[OF wf] bnd by auto
  then have pre: "length (buf_prefix b) = 13" using bnd off by (simp add: buf_prefix_def)
  have ne: "header_bytes h \<noteq> []" by (metis length_header_bytes list.size(3) zero_neq_numeral)
  obtain b2 where b2: "IHS_BufferWriteMem mem ?b 0 (header_bytes h) = Some b2" "buf_wf b2"
    "buf_frame ?b b2" "buf_offset b2 = 0" "buf_size b2 = max (buf_size b + 13) 13"
    "buf_content b2 = header_bytes h @ drop 13 (buf_content ?b)"
    using WriteMem_fits[OF bk(2), of 0 "header_bytes h" mem] bnd off ne by auto
  show ?thesis
    by (rule that[OF bk(1), of b2])
      (use b2 pre in \<open>simp_all add: IHS_SessionPacketHeaderSerialize_def buf_frame_def bk(3)\<close>)
qed

lemma PopulateBuffer_wire:
  assumes ok: "sendable packet"
  shows "\<exists>packet'. IHS_SessionPacketPopulateBuffer mem packet = Some packet' \<and>
           pkt_header packet' = pkt_header packet \<and>
           buf_content (pkt_body packet') = buf_content (pkt_body packet) \<and> sendable packet' \<and>
           wire_bytes packet' = frame_bytes (pkt_header packet) (buf_content (pkt_body packet))"
proof -
  let ?b = "pkt_body packet" and ?h = "pkt_header packet"
  have wf: "buf_wf ?b" and off: "buf_offset ?b = 13" using ok by (simp_all add: sendable_def)
  obtain b1 b2 where b: "IHS_BufferOffsetBy ?b (- 13) = Some b1"
    "IHS_SessionPacketHeaderSerialize mem ?h b1 = Some b2" "buf_wf b2"
    "buf_offset b2 = 0" "buf_size b2 = buf_size ?b + 13" "buf_suffix b2 = buf_suffix ?b"
    "buf_capacity ?b \<le> buf_capacity b2" "buf_content b2 = header_bytes ?h @ buf_content ?b"
    using serialize_header[OF wf off] by metis
  have cap: "0 < buf_capacity b2" using b buf_wf_bounds(1)[OF b(3)] by linarith
  obtain xs where xs: "buf_data b2 = Some xs" "length xs = buf_capacity b2"
    using buf_wf_block[OF b(3) cap] .
  define ys where "ys = (if hdr_hasCrc ?h then take (buf_size b2) xs @
      IHS_WriteUInt32LE (IHS_CRC32C (buf_content b2)) @ drop (buf_size b2 + 4) xs else xs)"
  have xsc: "take (buf_size b2) xs = buf_content b2" using b(4) xs(1) by (simp add: buf_content_def)
  have room: "buf_size b2 + buf_suffix b2 \<le> length xs" using buf_wf_bounds(1)[OF b(3)] b(4) xs by simp
  have leny: "length ys = length xs"
    using room b(6) ok by (auto simp: ys_def sendable_def u32_wire.length_enc)
  let ?b3 = "b2\<lparr>buf_data := Some ys\<rparr>"
  have crc: "(if hdr_hasCrc ?h then do {
      assert_that (buf_suffix b2 = 4);
      p \<leftarrow> IHS_BufferPointer b2;
      covered \<leftarrow> buf_load b2 p (buf_size b2);
      s \<leftarrow> IHS_BufferSuffixPointer b2;
      buf_store b2 s (IHS_WriteUInt32LE (IHS_CRC32C covered)) } else Some b2) = Some ?b3"
  proof (cases "hdr_hasCrc ?h")
    case True
    then have s: "buf_suffix b2 = 4" "buf_size b2 < buf_capacity b2 - 4" "4 \<le> length xs"
      using ok b(5,6,7) xs(2) by (auto simp: sendable_def)
    have "IHS_BufferPointer b2 = Some 0" "IHS_BufferPointerAt b2 (buf_size b2) = Some (buf_size b2)"
      using PointerAt_in[OF b(3)] b(4) s by (auto simp: IHS_BufferPointer_def)
    then show ?thesis
      using True s xs room xsc
      by (simp add: buf_load_def buf_store_def IHS_BufferSuffixPointer_def mem_read_in mem_write_in
          u32_wire.length_enc ys_def)
  next
    case False
    then show ?thesis using xs(1) by (simp add: ys_def)
  qed
  have wf3: "buf_wf ?b3" using buf_wf_set_data[OF b(3) cap, of ys "buf_size b2"] leny xs b(4) room by simp
  let ?b4 = "b2\<lparr>buf_data := Some ys, buf_offset := 13, buf_size := buf_size ?b\<rparr>"
  have fwd: "IHS_BufferOffsetBy ?b3 13 = Some ?b4" "buf_wf ?b4"
    using OffsetBy_forward[OF wf3, of 13] b(4,5) by simp_all
  have takey: "take (buf_size b2) ys = buf_content b2"
    using xsc room length_buf_content[OF b(3)] by (auto simp: ys_def)
  have sizes: "IHS_SessionPacketSize (packet\<lparr>pkt_body := ?b4\<rparr>) = IHS_BufferUsedSize ?b4"
    using UsedSize_exact[OF fwd(2)] buf_wf_bounds[OF fwd(2)] ok b(6)
    by (auto simp: IHS_SessionPacketSize_def sendable_def sz_add_exact)
  have run: "IHS_SessionPacketPopulateBuffer mem packet = Some (packet\<lparr>pkt_body := ?b4\<rparr>)"
    using off b(1,2) crc fwd(1) sizes by (simp add: IHS_SessionPacketPopulateBuffer_def Let_def)
  have content: "buf_content ?b4 = buf_content ?b"
  proof -
    have "drop 13 (take (buf_size b2) ys) = buf_content ?b" unfolding takey b(8) by simp
    then show ?thesis using b(5) by (simp add: buf_content_def drop_take)
  qed
  have "wire_bytes (packet\<lparr>pkt_body := ?b4\<rparr>) = take (buf_size b2 + buf_suffix b2) ys"
    using ExtendSize_content[OF fwd(2)] b(5,6) by (simp add: wire_bytes_def add.commute)
  also have "\<dots> = frame_bytes ?h (buf_content ?b)"
    using takey room ok b(5,6,8) xsc length_buf_content[OF wf]
    by (auto simp: frame_bytes_def Let_def ys_def sendable_def u32_wire.length_enc)
  finally show ?thesis
    using run content ok fwd(2) b(6,7) by (intro exI[of _ "packet\<lparr>pkt_body := ?b4\<rparr>"])
      (auto simp: sendable_def)
qed


section \<open>Round trip and error detection\<close>

lemma parse_frame_bytes:
  "parse_datagram (frame_bytes h payload) =
     (ResultOK, wire_view h, if hdr_hasCrc h then IHS_CRC32C (header_bytes h @ payload) else 0, payload)"
proof -
  let ?m = "header_bytes h @ payload"
  have hd: "header_of (?m @ rest) = wire_view h" for rest by (simp add: header_of_bytes)
  have flag: "hdr_hasCrc (wire_view h) = hdr_hasCrc h" by (simp add: wire_view_def)
  have word: "le_word (IHS_WriteUInt32LE v) = v" for v :: u32
    by (simp add: IHS_WriteUInt32LE_def le_word_le_bytes)
  show ?thesis
  proof (cases "hdr_hasCrc h")
    case True
    let ?t = "IHS_WriteUInt32LE (IHS_CRC32C ?m)"
    have f: "frame_bytes h payload = ?m @ ?t" using True by (simp add: frame_bytes_def)
    have len: "length (?m @ ?t) = 17 + length payload" by (simp add: u32_wire.length_enc)
    have cut: "take (length (?m @ ?t) - 4) (?m @ ?t) = ?m" "drop (length (?m @ ?t) - 4) (?m @ ?t) = ?t"
      by (simp_all add: u32_wire.length_enc)
    show ?thesis
      unfolding f parse_datagram_def Let_def cut hd flag word
      using True len by simp
  next
    case False
    then show ?thesis
      using hd[of "[]"] flag by (simp add: frame_bytes_def parse_datagram_def Let_def)
  qed
qed

lemma take_append_burst:
  assumes "length pre + length as \<le> n"
  shows "take n (pre @ as @ post) = pre @ as @ take (n - length pre - length as) post"
    and "drop n (pre @ as @ post) = drop (n - length pre - length as) post"
  using assms by auto

lemma CRC32C_burst:
  assumes "length as \<le> 4" "length as = length bs" "as \<noteq> bs"
  shows "IHS_CRC32C (pre @ as @ post) \<noteq> IHS_CRC32C (pre @ bs @ post)"
  using crc32c_table.burst_detected[OF assms] by (simp add: IHS_CRC32C_def)

lemma corrupt_payload_rejected:
  assumes acc: "fst (parse_datagram (pre @ as @ post)) = ResultOK"
    and crc: "hdr_hasCrc (header_of (pre @ as @ post))"
    and burst: "length as \<le> 4" "length as = length bs" "as \<noteq> bs"
    and pre: "1 \<le> length pre" and post: "4 \<le> length post"
  shows "fst (parse_datagram (pre @ bs @ post)) = ResultBadChecksum"
proof -
  let ?c = "pre @ as @ post" and ?d = "pre @ bs @ post"
  have len: "17 \<le> length ?c" and ok: "IHS_CRC32C (take (length ?c - 4) ?c) = le_word (drop (length ?c - 4) ?c)"
    using acc crc by (auto simp: parse_datagram_def Let_def split: if_splits)
  have "length pre + length as \<le> length ?c - 4" using post by simp
  note cut = take_append_burst[OF this, of post]
    take_append_burst[of pre bs "length ?c - 4" post, unfolded burst(2)[symmetric], OF this]
  have flag: "hdr_hasCrc (header_of ?d)"
    using crc pre by (cases pre) (simp_all add: header_of_def)
  have "IHS_CRC32C (take (length ?c - 4) ?d) \<noteq> le_word (drop (length ?c - 4) ?d)"
    using CRC32C_burst[OF burst] ok unfolding cut by metis
  then show ?thesis
    using len flag burst(2) by (simp add: parse_datagram_def Let_def)
qed

end
