(* ===== verification/Window.thy ===== *)
theory Window
  imports Packet
begin

text \<open>
  The receive window (\<^verbatim>\<open>src/session/window.c\<close>): a ring of slots in which packets are placed by
  their 16-bit ID relative to the newest one seen, and from which complete frames are taken in
  ID order.  This theory holds the ring, every operation on it and the feedback queries; the
  invariant and the abstract view are in \<open>Window_Spec\<close>.

  A slot index is an \<^verbatim>\<open>int\<close> of the source; \<open>win_data w ! nat i\<close> is only meaningful in range,
  which the invariant guarantees for every index the operations form.
\<close>

section \<open>Frames\<close>

record session_frame =
  frm_header :: packet_header
  frm_body :: ihs_buffer
  frm_mediaOffset :: u32
  frm_mediaPrepared :: bool
  frm_receivedRetries :: u32

definition IHS_SessionFrameBodyInitialize :: "allocator \<Rightarrow> bool \<Rightarrow> ihs_buffer option" where
  "IHS_SessionFrameBodyInitialize mem hasCrc = do {
     let body = IHS_BufferInit 2048 2048;
     body \<leftarrow> IHS_BufferFillMem mem body 0 0 IHS_PACKET_HEADER_SIZE;
     body \<leftarrow> IHS_BufferOffsetBy body (int IHS_PACKET_HEADER_SIZE);
     assert_that (buf_offset body = IHS_PACKET_HEADER_SIZE);
     if hasCrc then do {
       body \<leftarrow> IHS_BufferSetSuffixLength mem body 4;
       assert_that (buf_suffix body = 4);
       Some body
     } else Some body
   }"

definition IHS_SessionFrameClear :: "session_frame \<Rightarrow> bool \<Rightarrow> session_frame option" where
  "IHS_SessionFrameClear frame freeData = do {
     body \<leftarrow> IHS_BufferClear (frm_body frame) freeData;
     Some (frame\<lparr>frm_body := body, frm_receivedRetries := 0, frm_mediaOffset := 0,
                 frm_mediaPrepared := False\<rparr>)
   }"

section \<open>State\<close>

record window_item =
  itm_header :: packet_header
  itm_body :: ihs_buffer
  itm_senderTimestamp :: u32

definition zero_item :: window_item where
  "zero_item = \<lparr>itm_header = zero_header, itm_body = IHS_BufferInit 0 0, itm_senderTimestamp = 0\<rparr>"

datatype poll_error = PollOK | PollLimit | PollNoMemory

record packets_window =
  win_data :: "window_item list"
  win_capacity :: nat
  win_reliable :: bool
  win_pollError :: poll_error
  win_head :: int
  win_tail :: int
  win_tail_id :: u16

definition FrameItemIsHead :: "window_item \<Rightarrow> bool" where
  "FrameItemIsHead item \<longleftrightarrow>
     hdr_type (itm_header item) = IHS_SessionPacketTypeReliable \<or>
     hdr_type (itm_header item) = IHS_SessionPacketTypeUnreliable"

definition FrameItemIsUsed :: "window_item \<Rightarrow> bool" where
  "FrameItemIsUsed item \<longleftrightarrow> \<not> IHS_BufferIsNull (itm_body item)"

definition FrameItemUsePacket ::
    "window_item \<Rightarrow> session_packet \<Rightarrow> (window_item \<times> session_packet) option" where
  "FrameItemUsePacket item packet = do {
     (drained, body) \<leftarrow> IHS_BufferTransferOwnership (pkt_body packet);
     Some (item\<lparr>itm_header := pkt_header packet, itm_body := body\<rparr>, packet\<lparr>pkt_body := drained\<rparr>)
   }"

definition FrameItemRecycle :: "window_item \<Rightarrow> window_item option" where
  "FrameItemRecycle item = do {
     IHS_BufferClear (itm_body item) True;
     Some zero_item
   }"

section \<open>Creation\<close>

text \<open>The two flags say whether the allocations of the window and of its slots succeed.\<close>

definition IHS_SessionPacketsWindowCreate :: "bool \<Rightarrow> bool \<Rightarrow> nat \<Rightarrow> packets_window option" where
  "IHS_SessionPacketsWindowCreate alloc1 alloc2 capacity =
     (if alloc1 \<and> alloc2
      then Some \<lparr>win_data = replicate capacity zero_item, win_capacity = capacity,
                 win_reliable = False, win_pollError = PollOK, win_head = 0, win_tail = - 1,
                 win_tail_id = 0\<rparr>
      else None)"

definition IHS_SessionPacketsWindowCreateReliable ::
    "bool \<Rightarrow> bool \<Rightarrow> nat \<Rightarrow> u16 \<Rightarrow> packets_window option" where
  "IHS_SessionPacketsWindowCreateReliable alloc1 alloc2 capacity firstId =
     map_option (\<lambda>w. w\<lparr>win_reliable := True, win_head := 1, win_tail := 0,
                       win_tail_id := firstId - 1\<rparr>)
       (IHS_SessionPacketsWindowCreate alloc1 alloc2 capacity)"

definition IHS_SessionPacketsWindowCreateMedia :: "bool \<Rightarrow> bool \<Rightarrow> nat \<Rightarrow> packets_window option" where
  "IHS_SessionPacketsWindowCreateMedia alloc1 alloc2 capacity =
     map_option (\<lambda>w. w\<lparr>win_reliable := False\<rparr>)
       (IHS_SessionPacketsWindowCreateReliable alloc1 alloc2 capacity 0)"

text \<open>Recycling every used slot.\<close>

fun recycle_used :: "window_item list \<Rightarrow> window_item list option" where
  "recycle_used [] = Some []"
| "recycle_used (item # items) = do {
     item' \<leftarrow> (if FrameItemIsUsed item then FrameItemRecycle item else Some item);
     items' \<leftarrow> recycle_used items;
     Some (item' # items')
   }"

definition IHS_SessionPacketsWindowReleaseAll :: "packets_window \<Rightarrow> packets_window option" where
  "IHS_SessionPacketsWindowReleaseAll w = do {
     data \<leftarrow> recycle_used (win_data w);
     Some (w\<lparr>win_data := data, win_head := 0, win_tail := - 1\<rparr>)
   }"

text \<open>Destroying a window recycles the packets it still holds; freeing the memory has no other effect.\<close>

definition IHS_SessionPacketsWindowDestroy :: "packets_window \<Rightarrow> unit option" where
  "IHS_SessionPacketsWindowDestroy w = map_option (\<lambda>_. ()) (recycle_used (win_data w))"

definition IHS_SessionPacketsWindowLastError :: "packets_window \<Rightarrow> poll_error" where
  "IHS_SessionPacketsWindowLastError w = win_pollError w"

section \<open>Size\<close>

definition win_slot :: "packets_window \<Rightarrow> int \<Rightarrow> window_item" where
  "win_slot w i = win_data w ! nat (i mod int (win_capacity w))"

definition u16_int :: "int \<Rightarrow> nat" where
  "u16_int i = nat (i mod 2 ^ 16)"

definition IHS_SessionPacketsWindowSize :: "packets_window \<Rightarrow> nat" where
  "IHS_SessionPacketsWindowSize w =
     (if win_tail w < 0 then 0
      else if win_tail w + 1 = win_head w \<and> FrameItemIsUsed (win_data w ! nat (win_tail w))
           then win_capacity w
      else if win_tail w + 1 \<ge> win_head w then u16_int (win_tail w + 1 - win_head w)
      else u16_int (int (win_capacity w) - win_head w + win_tail w + 1))"

definition IHS_SessionPacketsWindowAvailable :: "packets_window \<Rightarrow> nat" where
  "IHS_SessionPacketsWindowAvailable w =
     u16_int (int (win_capacity w) - int (IHS_SessionPacketsWindowSize w))"

section \<open>Insertion\<close>

text \<open>The doubling of a reliable window's capacity; it starts at 64, so the guard is no restriction.\<close>

function window_capacity :: "nat \<Rightarrow> nat \<Rightarrow> nat" where
  "window_capacity capacity required =
     (if 0 < capacity \<and> capacity < required then window_capacity (capacity * 2) required
      else capacity)"
  by pat_completeness auto
termination
  by (relation "measure (\<lambda>(c, r). r - c)") auto

declare window_capacity.simps [simp del]

definition window_grow :: "packets_window \<Rightarrow> nat \<Rightarrow> nat \<Rightarrow> packets_window" where
  "window_grow w count required =
     (let capacity = window_capacity 64 required in
      w\<lparr>win_data := map (\<lambda>i. win_slot w (win_head w + int i)) [0..<count] @
                    replicate (capacity - count) zero_item,
        win_capacity := capacity,
        win_head := (if count \<noteq> 0 then 0 else int capacity),
        win_tail := (if count \<noteq> 0 then int count - 1 else int capacity - 1)\<rparr>)"

text \<open>
  The loop that carries an older send timestamp back over the preceding slots; the last argument
  but one counts the iterations left.
\<close>

fun propagate :: "u32 \<Rightarrow> nat \<Rightarrow> nat \<Rightarrow> nat \<Rightarrow> nat \<Rightarrow> window_item list \<Rightarrow> window_item list" where
  "propagate stamp writePos capacity n 0 data = data"
| "propagate stamp writePos capacity n (Suc left) data =
     (let i = nat ((int writePos + int capacity - int n) mod 2 ^ 32) mod capacity;
          previous = data ! i in
      if itm_senderTimestamp previous \<noteq> 0 \<and> sint (stamp - itm_senderTimestamp previous) \<ge> 0
      then data
      else propagate stamp writePos capacity (Suc n) left
             (data[i := previous\<lparr>itm_senderTimestamp := stamp\<rparr>]))"

definition add_offset :: "packets_window \<Rightarrow> session_packet \<Rightarrow> int" where
  "add_offset w packet =
     (if win_tail w < 0 then 1 else sint (hdr_packetId (pkt_header packet) - win_tail_id w))"

text \<open>Recording the send timestamp of the packet stored at \<open>writePos\<close>.\<close>

definition add_stamp :: "packets_window \<Rightarrow> nat \<Rightarrow> u32 \<Rightarrow> int \<Rightarrow> packets_window" where
  "add_stamp w writePos stamp tailOffset =
     (let tailPkt = win_data w ! writePos in
      if itm_senderTimestamp tailPkt = 0 \<or> sint (itm_senderTimestamp tailPkt - stamp) < 0
      then let w = w\<lparr>win_data := (win_data w)[writePos := tailPkt\<lparr>itm_senderTimestamp := stamp\<rparr>]\<rparr>;
               size = IHS_SessionPacketsWindowSize w;
               preceding = nat ((int size + tailOffset - 1) mod 2 ^ 32)
           in w\<lparr>win_data := propagate stamp writePos (win_capacity w) 1 preceding (win_data w)\<rparr>
      else w)"

text \<open>Storing the packet once there is room: the second half of \<^verbatim>\<open>AddEx\<close>.\<close>

definition add_store ::
    "packets_window \<Rightarrow> session_packet \<Rightarrow> int \<Rightarrow> (bool \<times> bool \<times> packets_window \<times> session_packet) option" where
  "add_store w packet tailOffset =
     (let writePos = nat ((win_tail w + tailOffset + int (win_capacity w)) mod int (win_capacity w));
          tailPkt = win_data w ! writePos in
      if FrameItemIsUsed tailPkt then Some (True, False, w, packet)
      else do {
        (tailPkt, packet') \<leftarrow> FrameItemUsePacket tailPkt packet;
        let w = w\<lparr>win_data := (win_data w)[writePos := tailPkt]\<rparr>;
        let w = add_stamp w writePos (hdr_sendTimestamp (pkt_header packet)) tailOffset;
        let w = (if tailOffset > 0
                 then w\<lparr>win_tail := int writePos, win_tail_id := hdr_packetId (pkt_header packet)\<rparr>
                 else w);
        Some (True, True, w, packet')
      })"

text \<open>
  The result is the return value, the \<open>inserted\<close> flag, the window and the packet (whose body
  moves into the window when it is inserted).  \<open>alloc\<close> says whether growing gets its memory.
\<close>

definition IHS_SessionPacketsWindowAddEx ::
    "bool \<Rightarrow> packets_window \<Rightarrow> session_packet \<Rightarrow>
       (bool \<times> bool \<times> packets_window \<times> session_packet) option" where
  "IHS_SessionPacketsWindowAddEx alloc w packet =
     (let tailOffset = add_offset w packet;
          size = IHS_SessionPacketsWindowSize w in
      if tailOffset \<le> 0 \<and> - tailOffset \<ge> int size then Some (True, False, w, packet)
      else
        let grow = win_reliable w \<and> tailOffset > 0;
            required = size + nat tailOffset in
        if grow \<and> required > 16384 then Some (True, False, w, packet)
        else if grow \<and> required > win_capacity w \<and> \<not> alloc then Some (False, False, w, packet)
        else
          let w = (if grow \<and> required > win_capacity w then window_grow w size required else w) in
          if tailOffset > int (win_capacity w) then Some (False, False, w, packet)
          else if tailOffset > int (IHS_SessionPacketsWindowAvailable w)
            then Some (False, False, w, packet)
          else add_store w packet tailOffset)"

definition IHS_SessionPacketsWindowAdd ::
    "bool \<Rightarrow> packets_window \<Rightarrow> session_packet \<Rightarrow> (bool \<times> packets_window \<times> session_packet) option" where
  "IHS_SessionPacketsWindowAdd alloc w packet =
     map_option (\<lambda>(ok, inserted, w, packet). (ok, w, packet))
       (IHS_SessionPacketsWindowAddEx alloc w packet)"

section \<open>Taking frames\<close>

text \<open>The doubling of \<^verbatim>\<open>ReserveFrame\<close>, which stops at the wanted size instead of wrapping.\<close>

function reserve_capacity :: "nat \<Rightarrow> nat \<Rightarrow> nat" where
  "reserve_capacity capacity wanted =
     (if 0 < capacity \<and> capacity < wanted
      then (if capacity > SIZE_MAX div 2 then wanted else reserve_capacity (capacity * 2) wanted)
      else capacity)"
  by pat_completeness auto
termination
  by (relation "measure (\<lambda>(c, w). w - c)") auto

declare reserve_capacity.simps [simp del]

definition ReserveFrame :: "allocator \<Rightarrow> ihs_buffer \<Rightarrow> nat \<Rightarrow> poll_error \<times> ihs_buffer" where
  "ReserveFrame mem body len =
     (if buf_offset body > SIZE_MAX - buf_suffix body \<or>
         len > SIZE_MAX - buf_offset body - buf_suffix body then (PollLimit, body)
      else
        let wanted = buf_offset body + len + buf_suffix body in
        if buf_maxCapacity body \<noteq> 0 \<and> wanted > buf_maxCapacity body then (PollLimit, body)
        else if buf_capacity body \<noteq> 0 \<and> buf_data body = None then (PollLimit, body)
        else if buf_capacity body \<noteq> 0 \<and> wanted \<le> buf_capacity body then (PollOK, body)
        else
          let capacity = (if buf_capacity body \<noteq> 0 then buf_capacity body
                          else buf_initialCapacity body);
              capacity = (if capacity = 0
                          then (if buf_maxCapacity body \<noteq> 0 \<and> buf_maxCapacity body < 1024
                                then buf_maxCapacity body else 1024)
                          else capacity);
              capacity = reserve_capacity capacity wanted;
              capacity = (if buf_maxCapacity body \<noteq> 0 \<and> capacity > buf_maxCapacity body
                          then (if wanted \<noteq> 0 then wanted else buf_maxCapacity body)
                          else capacity)
          in case realloc_bytes mem (case buf_data body of None \<Rightarrow> [] | Some xs \<Rightarrow> xs) capacity of
               None \<Rightarrow> (PollNoMemory, body)
             | Some allocated \<Rightarrow>
                 (PollOK, body\<lparr>buf_data := Some allocated, buf_capacity := capacity\<rparr>))"

text \<open>Skipping orphan fragments: the window and the size left, 0 when nothing is left.\<close>

fun skip_orphans :: "packets_window \<Rightarrow> nat \<Rightarrow> (packets_window \<times> nat) option" where
  "skip_orphans w 0 = Some (w, 0)"
| "skip_orphans w (Suc left) =
     (let i = nat (win_head w mod int (win_capacity w)); head = win_data w ! i in
      if \<not> win_reliable w \<and> FrameItemIsUsed head \<and> \<not> FrameItemIsHead head
      then do {
        item \<leftarrow> FrameItemRecycle head;
        skip_orphans (w\<lparr>win_data := (win_data w)[i := item],
                        win_head := (win_head w + 1) mod int (win_capacity w)\<rparr>) left
      }
      else Some (w, Suc left))"

text \<open>
  The first pass over the fragments \<open>k\<close>, \<open>k + 1\<close>, \<dots>: either the error to report while no frame
  is returned, or the length of the frame.
\<close>

fun poll_measure :: "packets_window \<Rightarrow> nat \<Rightarrow> nat \<Rightarrow> nat \<Rightarrow> poll_error + nat" where
  "poll_measure w k 0 frameBodyLen = Inr frameBodyLen"
| "poll_measure w k (Suc left) frameBodyLen =
     (let item = win_slot w (win_head w + int k); body = itm_body item in
      if \<not> FrameItemIsUsed item then Inl PollOK
      else if \<not> win_reliable w \<and> k \<noteq> 0 \<and>
              (hdr_type (itm_header item) \<noteq> IHS_SessionPacketTypeUnreliableFrag \<or>
               sint (hdr_fragmentId (itm_header item)) \<noteq> int k - 1) then Inl PollOK
      else if buf_offset body > buf_capacity body \<or>
              buf_suffix body > buf_capacity body - buf_offset body \<or>
              buf_size body > buf_capacity body - buf_offset body - buf_suffix body \<or>
              buf_size body > SIZE_MAX - frameBodyLen then Inl PollLimit
      else poll_measure w (Suc k) left (frameBodyLen + buf_size body))"

text \<open>The second pass: append every fragment to the frame and recycle its slot.\<close>

fun poll_collect ::
    "allocator \<Rightarrow> packets_window \<Rightarrow> session_frame \<Rightarrow> nat \<Rightarrow> nat \<Rightarrow>
       (packets_window \<times> session_frame) option" where
  "poll_collect mem w frame k 0 = Some (w, frame)"
| "poll_collect mem w frame k (Suc left) = do {
     let i = nat ((win_head w + int k) mod int (win_capacity w));
     let item = win_data w ! i;
     body \<leftarrow> IHS_BufferAppend mem (frm_body frame) (itm_body item);
     let stamp = hdr_receiveTimestamp (itm_header item);
     let h = frm_header frame;
     let h = (if stamp > hdr_receiveTimestamp h
              then h\<lparr>hdr_receiveBegin := (if hdr_receiveBegin h = 0 then stamp else hdr_receiveBegin h),
                     hdr_receiveTimestamp := stamp\<rparr>
              else h);
     let frame = frame\<lparr>frm_body := body, frm_header := h,
       frm_receivedRetries := frm_receivedRetries frame + ucast (hdr_retransmitCount (itm_header item))\<rparr>;
     item' \<leftarrow> FrameItemRecycle item;
     poll_collect mem (w\<lparr>win_data := (win_data w)[i := item']\<rparr>) frame (Suc k) left
   }"

definition IHS_SessionPacketsWindowPoll ::
    "allocator \<Rightarrow> packets_window \<Rightarrow> session_frame \<Rightarrow> (bool \<times> packets_window \<times> session_frame) option" where
  "IHS_SessionPacketsWindowPoll mem w frame =
     (let w = w\<lparr>win_pollError := PollOK\<rparr>; size = IHS_SessionPacketsWindowSize w in
      if size = 0 then Some (False, w, frame)
      else do {
        assert_that (win_head w \<ge> 0);
        (w, size) \<leftarrow> skip_orphans w size;
        if size = 0 then Some (False, w, frame)
        else
          let head = win_slot w (win_head w);
              packetsCount = 1 + sint (hdr_fragmentId (itm_header head)) in
          if \<not> FrameItemIsHead head then Some (False, w, frame)
          else if packetsCount < 1 \<or> int size < packetsCount then Some (False, w, frame)
          else case poll_measure w 0 (nat packetsCount) 0 of
            Inl e \<Rightarrow> Some (False, w\<lparr>win_pollError := e\<rparr>, frame)
          | Inr frameBodyLen \<Rightarrow>
              (case ReserveFrame mem (frm_body frame) frameBodyLen of (e, body) \<Rightarrow>
                 let w = w\<lparr>win_pollError := e\<rparr> in
                 if e \<noteq> PollOK then Some (False, w, frame\<lparr>frm_body := body\<rparr>)
                 else do {
                   let h = (itm_header head)\<lparr>hdr_receiveBegin := hdr_receiveTimestamp (itm_header head)\<rparr>;
                   let frame = frame\<lparr>frm_header := h, frm_mediaOffset := 0,
                     frm_mediaPrepared := False, frm_receivedRetries := 0,
                     frm_body := body\<lparr>buf_size := 0\<rparr>\<rparr>;
                   (w, frame) \<leftarrow> poll_collect mem w frame 0 (nat packetsCount);
                   assert_that (buf_size (frm_body frame) = frameBodyLen);
                   let pos = win_head w + packetsCount;
                   let pos = (if pos > int (win_capacity w) then pos mod int (win_capacity w) else pos);
                   Some (True, w\<lparr>win_head := pos\<rparr>, frame)
                 })
      })"

section \<open>Discarding\<close>

text \<open>The loop of \<^verbatim>\<open>DiscardEx\<close>: window, slots discarded, and how many of them were missing.\<close>

fun discard_loop ::
    "u32 \<Rightarrow> u32 \<Rightarrow> packets_window \<Rightarrow> nat \<Rightarrow> nat \<Rightarrow> nat \<Rightarrow> (packets_window \<times> nat \<times> nat) option" where
  "discard_loop newest diff w 0 discarded missing = Some (w, discarded, missing)"
| "discard_loop newest diff w (Suc left) discarded missing =
     (let i = nat (win_head w mod int (win_capacity w)); item = win_data w ! i in
      if sint (newest - itm_senderTimestamp item) \<le> sint diff then Some (w, discarded, missing)
      else do {
        item' \<leftarrow> FrameItemRecycle item;
        discard_loop newest diff
          (w\<lparr>win_data := (win_data w)[i := item'],
             win_head := (win_head w + 1) mod int (win_capacity w)\<rparr>)
          left (Suc discarded) (if FrameItemIsUsed item then missing else Suc missing)
      })"

definition IHS_SessionPacketsWindowDiscardEx ::
    "packets_window \<Rightarrow> u32 \<Rightarrow> (packets_window \<times> nat \<times> nat) option" where
  "IHS_SessionPacketsWindowDiscardEx w diff =
     (let size = IHS_SessionPacketsWindowSize w in
      if size = 0 then Some (w, 0, 0)
      else discard_loop (itm_senderTimestamp (win_data w ! nat (win_tail w))) diff w size 0 0)"

definition IHS_SessionPacketsWindowDiscard :: "packets_window \<Rightarrow> u32 \<Rightarrow> (packets_window \<times> nat) option" where
  "IHS_SessionPacketsWindowDiscard w diff =
     map_option (\<lambda>(w, discarded, missing). (w, discarded)) (IHS_SessionPacketsWindowDiscardEx w diff)"

definition IHS_SessionPacketsWindowReleaseFrame :: "session_frame \<Rightarrow> session_frame option" where
  "IHS_SessionPacketsWindowReleaseFrame frame = IHS_SessionFrameClear frame False"

section \<open>Feedback queries\<close>

definition IHS_SessionPacketsWindowNextNeededPacketId :: "packets_window \<Rightarrow> u16" where
  "IHS_SessionPacketsWindowNextNeededPacketId w =
     win_tail_id w + 1 - of_nat (IHS_SessionPacketsWindowSize w)"

text \<open>One iteration of the bitmap loop, for the slot \<open>k\<close> places behind the head.\<close>

definition hole_bit :: "packets_window \<Rightarrow> nat \<Rightarrow> u16 \<Rightarrow> nat \<Rightarrow> nat \<Rightarrow> bytes \<Rightarrow> bytes" where
  "hole_bit w count startId maxPackets k bitmap =
     (let item = win_slot w (win_head w + int k);
          id = win_tail_id w - of_nat (count - 1 - k);
          offset = unat (id - startId) in
      if \<not> FrameItemIsUsed item \<or> offset \<ge> maxPackets then bitmap
      else bitmap[offset div 8 := bitmap ! (offset div 8) OR push_bit (offset mod 8) 1])"

definition IHS_SessionPacketsWindowHoleBitmap ::
    "packets_window \<Rightarrow> u16 \<Rightarrow> bytes \<Rightarrow> nat \<Rightarrow> bytes \<times> nat" where
  "IHS_SessionPacketsWindowHoleBitmap w startId bitmap maxPackets =
     (let size = IHS_SessionPacketsWindowSize w; n = (maxPackets + 7) div 8 in
      if size = 0 \<or> maxPackets = 0 then (bitmap, 0)
      else (fold (hole_bit w size startId maxPackets) [0..<size] (replicate n 0 @ drop n bitmap), size))"

definition IHS_SessionPacketsWindowHasHole :: "packets_window \<Rightarrow> bool" where
  "IHS_SessionPacketsWindowHasHole w \<longleftrightarrow>
     list_ex (\<lambda>k. \<not> FrameItemIsUsed (win_slot w (win_head w + int k)))
       [0..<IHS_SessionPacketsWindowSize w]"

text \<open>How many slots from the \<open>k\<close>-th on satisfy \<open>P\<close> without a gap, of the \<open>left\<close> that remain.\<close>

fun run_length :: "(window_item \<Rightarrow> bool) \<Rightarrow> packets_window \<Rightarrow> nat \<Rightarrow> nat \<Rightarrow> nat" where
  "run_length P w k 0 = 0"
| "run_length P w k (Suc left) =
     (if P (win_slot w (win_head w + int k)) then Suc (run_length P w (Suc k) left) else 0)"

definition IHS_SessionPacketsWindowContiguousId :: "packets_window \<Rightarrow> u16" where
  "IHS_SessionPacketsWindowContiguousId w =
     (let size = IHS_SessionPacketsWindowSize w
      in win_tail_id w - of_nat size + of_nat (run_length FrameItemIsUsed w 0 size))"

record media_feedback =
  fb_base :: u16
  fb_confirmed :: u16
  fb_bitmap :: bytes
  fb_bitmapBytes :: nat
  fb_receiveTimestamp :: u32
  fb_retransmitCount :: u8

definition IHS_SessionPacketsWindowMediaFeedback :: "packets_window \<Rightarrow> media_feedback option" where
  "IHS_SessionPacketsWindowMediaFeedback w =
     (let size = IHS_SessionPacketsWindowSize w;
          first = run_length FrameItemIsUsed w 0 size;
          present = first + run_length (\<lambda>i. \<not> FrameItemIsUsed i) w first (size - first) in
      if present = size then None
      else
        let item = win_slot w (win_head w + int present);
            head = IHS_SessionPacketsWindowNextNeededPacketId w;
            base = head + of_nat present;
            bits = min (size - present) 320 in
        Some \<lparr>fb_base = base, fb_confirmed = head + of_nat first - 1,
              fb_bitmap = fst (IHS_SessionPacketsWindowHoleBitmap w base (replicate 40 0) 320),
              fb_bitmapBytes = (bits + 7) div 8,
              fb_receiveTimestamp = hdr_receiveTimestamp (itm_header item),
              fb_retransmitCount = hdr_retransmitCount (itm_header item)\<rparr>)"

text \<open>The feedback together with whether some present successor is older than 65 ticks.\<close>

definition IHS_SessionPacketsWindowReliableFeedback ::
    "packets_window \<Rightarrow> u32 \<Rightarrow> (media_feedback \<times> bool) option" where
  "IHS_SessionPacketsWindowReliableFeedback w now =
     (case IHS_SessionPacketsWindowMediaFeedback w of
        None \<Rightarrow> None
      | Some feedback \<Rightarrow>
          let first = unat (fb_base feedback - IHS_SessionPacketsWindowNextNeededPacketId w);
              size = IHS_SessionPacketsWindowSize w in
          Some (feedback, list_ex (\<lambda>i.
            let item = win_slot w (win_head w + int i) in
            FrameItemIsUsed item \<and>
            sint (hdr_receiveTimestamp (itm_header item) - (now - 65)) < 0) [first..<size]))"

end
