(* ===== verification/Window_Spec.thy ===== *)
theory Window_Spec
  imports Window
begin

text \<open>
  Invariant and abstract view of the receive window.  \<open>win_rep w n\<close> says that \<open>w\<close> represents a
  window of \<open>n\<close> slots; \<open>win_view w\<close> lists them, \<^term>\<open>None\<close> for a packet not received yet.  Every
  operation is shown to be the corresponding operation on that list.
\<close>

section \<open>Cyclic indices\<close>

lemma cyc_inject:
  fixes h :: int
  assumes "0 \<le> a" "a < c" "0 \<le> b" "b < c"
  shows "(h + a) mod c = (h + b) mod c \<longleftrightarrow> a = b"
proof
  assume "(h + a) mod c = (h + b) mod c"
  then have "c dvd a - b" by (simp add: mod_eq_dvd_iff)
  then obtain q where q: "a - b = c * q" by (auto elim: dvdE)
  have "- c < c * q" "c * q < c" using assms q by linarith+
  moreover have "0 < c" using assms by linarith
  ultimately have "- 1 < q" "q < 1"
    by (smt (verit) mult_le_cancel_left1 mult_minus_right mult_le_cancel_left_pos)+
  then have "q = 0" by simp
  then show "a = b" using q by simp
qed simp

section \<open>Slots\<close>

definition item_ok :: "window_item \<Rightarrow> bool" where
  "item_ok item \<longleftrightarrow>
     (if FrameItemIsUsed item then buf_wf (itm_body item)
      else itm_body item = IHS_BufferInit 0 0 \<and> itm_header item = zero_header)"

lemma zero_item_simps [simp]:
  "\<not> FrameItemIsUsed zero_item" "item_ok zero_item" "itm_senderTimestamp zero_item = 0"
  by (simp_all add: zero_item_def item_ok_def FrameItemIsUsed_def IHS_BufferIsNull_def
      IHS_BufferInit_def)

lemma Recycle_ok [simp]: "item_ok item \<Longrightarrow> FrameItemRecycle item = Some zero_item"
  using Clear_spec[of "itm_body item" True]
  by (auto simp: FrameItemRecycle_def item_ok_def IHS_BufferClear_def IHS_BufferInit_def
      FrameItemIsUsed_def IHS_BufferIsNull_def split: if_splits)

definition slot_view :: "window_item \<Rightarrow> (packet_header \<times> ihs_buffer) option" where
  "slot_view item = (if FrameItemIsUsed item then Some (itm_header item, itm_body item) else None)"

lemma slot_view_simps [simp]:
  "slot_view zero_item = None"
  "slot_view item = None \<longleftrightarrow> \<not> FrameItemIsUsed item"
  "slot_view (item\<lparr>itm_senderTimestamp := t\<rparr>) = slot_view item"
  by (simp_all add: slot_view_def) (simp add: FrameItemIsUsed_def)

lemma item_ok_stamp [simp]: "item_ok (item\<lparr>itm_senderTimestamp := t\<rparr>) = item_ok item"
  "FrameItemIsUsed (item\<lparr>itm_senderTimestamp := t\<rparr>) = FrameItemIsUsed item"
  by (simp_all add: item_ok_def FrameItemIsUsed_def)

section \<open>Representation\<close>

definition win_rep :: "packets_window \<Rightarrow> nat \<Rightarrow> bool" where
  "win_rep w n \<longleftrightarrow>
     0 < win_capacity w \<and> win_capacity w < 2 ^ 16 \<and> length (win_data w) = win_capacity w \<and>
     - 1 \<le> win_tail w \<and> win_tail w < int (win_capacity w) \<and>
     0 \<le> win_head w \<and> win_head w \<le> int (win_capacity w) \<and>
     n \<le> win_capacity w \<and> list_all item_ok (win_data w) \<and>
     (\<forall>k < win_capacity w. n \<le> k \<longrightarrow> \<not> FrameItemIsUsed (win_slot w (win_head w + int k))) \<and>
     (if n = 0 then win_head w = win_tail w + 1
      else 0 \<le> win_tail w \<and>
           (win_head w + int n) mod int (win_capacity w) =
             (win_tail w + 1) mod int (win_capacity w) \<and>
           FrameItemIsUsed (win_data w ! nat (win_tail w)))"

definition win_wf :: "packets_window \<Rightarrow> bool" where
  "win_wf w \<longleftrightarrow> win_rep w (IHS_SessionPacketsWindowSize w)"

definition win_view :: "packets_window \<Rightarrow> (packet_header \<times> ihs_buffer) option list" where
  "win_view w = map (\<lambda>k. slot_view (win_slot w (win_head w + int k)))
     [0..<IHS_SessionPacketsWindowSize w]"

lemma win_repD:
  assumes "win_rep w n"
  shows "0 < win_capacity w" "win_capacity w < 2 ^ 16" "length (win_data w) = win_capacity w"
    "- 1 \<le> win_tail w" "win_tail w < int (win_capacity w)" "0 \<le> win_head w"
    "win_head w \<le> int (win_capacity w)" "n \<le> win_capacity w"
    "list_all item_ok (win_data w)"
    "\<And>k. n \<le> k \<Longrightarrow> k < win_capacity w \<Longrightarrow> \<not> FrameItemIsUsed (win_slot w (win_head w + int k))"
  using assms by (simp_all add: win_rep_def)

lemma win_slot_ok: "win_rep w n \<Longrightarrow> item_ok (win_slot w i)"
  using win_repD(1,3,9)[of w n]
  by (auto simp: win_slot_def list_all_length nat_less_iff)

text \<open>Every slot of the ring is the \<open>k\<close>-th behind the head for exactly one \<open>k\<close>.\<close>

lemma slot_of_index:
  assumes "win_rep w n" "0 \<le> i" "i < int (win_capacity w)"
  obtains k where "k < win_capacity w" "(win_head w + int k) mod int (win_capacity w) = i"
    "win_slot w (win_head w + int k) = win_data w ! nat i"
proof -
  let ?c = "int (win_capacity w)" and ?k = "nat ((i - win_head w) mod int (win_capacity w))"
  have c: "0 < ?c" using win_repD(1)[OF assms(1)] by simp
  have "int ?k = (i - win_head w) mod ?c" using c by simp
  then have "(win_head w + int ?k) mod ?c = i" using assms(2,3) c by (simp add: mod_add_right_eq)
  moreover have "?k < win_capacity w" using c by (simp add: nat_less_iff)
  ultimately show ?thesis using that[of ?k] by (simp add: win_slot_def)
qed

lemma Size_rep:
  assumes rep: "win_rep w n"
  shows "IHS_SessionPacketsWindowSize w = n"
proof -
  let ?c = "int (win_capacity w)" and ?h = "win_head w" and ?t = "win_tail w"
  note D = win_repD[OF rep]
  have c: "0 < ?c" "?c < 2 ^ 16" using D by auto
  have u16: "u16_int x = nat x" if "0 \<le> x" "x \<le> ?c" for x
    using that c by (simp add: u16_int_def)
  show ?thesis
  proof (cases "n = 0")
    case True
    then have ht: "?h = ?t + 1" using rep by (simp add: win_rep_def)
    have "\<not> FrameItemIsUsed (win_data w ! nat ?t)" if tail: "0 \<le> ?t"
    proof -
      obtain k where "k < win_capacity w" "win_slot w (?h + int k) = win_data w ! nat ?t"
        using slot_of_index[OF rep tail D(5)] by blast
      then show ?thesis using D(10)[of k] True by simp
    qed
    then show ?thesis using True ht by (auto simp: IHS_SessionPacketsWindowSize_def u16_int_def)
  next
    case False
    then have t: "0 \<le> ?t" "(?h + int n) mod ?c = (?t + 1) mod ?c"
      "FrameItemIsUsed (win_data w ! nat ?t)"
      using rep by (simp_all add: win_rep_def)
    then have "?c dvd ?h + int n - (?t + 1)" by (simp add: mod_eq_dvd_iff)
    then obtain q where q: "?h + int n - (?t + 1) = ?c * q" by (auto elim: dvdE)
    have nb: "1 \<le> int n" "int n \<le> ?c" using False D(8) by auto
    have "- ?c \<le> ?c * q" "?c * q < 2 * ?c" using q nb t(1) D(5,6,7) by linarith+
    then have "- 1 \<le> q" "q < 2"
      using c(1) by (metis mult.commute mult_le_cancel_left_pos mult_minus1_right,
          metis mult.commute mult_less_cancel_left_pos)
    then have "q = - 1 \<or> q = 0 \<or> q = 1" by auto
    then show ?thesis
      using q nb t(1,3) D(5,6,7) c u16[of "?t + 1 - ?h"] u16[of "?c - ?h + ?t + 1"]
      by (auto simp: IHS_SessionPacketsWindowSize_def)
  qed
qed

lemma win_rep_wf: "win_rep w n \<Longrightarrow> win_wf w"
  by (simp add: win_wf_def Size_rep)

lemma length_win_view: "length (win_view w) = IHS_SessionPacketsWindowSize w"
  by (simp add: win_view_def)

lemma win_view_rep:
  "win_rep w n \<Longrightarrow> win_view w = map (\<lambda>k. slot_view (win_slot w (win_head w + int k))) [0..<n]"
  by (simp add: win_view_def Size_rep)

lemma Available_rep:
  assumes "win_rep w n"
  shows "IHS_SessionPacketsWindowAvailable w = win_capacity w - n"
proof -
  have "0 \<le> int (win_capacity w) - int n" "int (win_capacity w) - int n < 2 ^ 16"
    using win_repD(2,8)[OF assms] by auto
  then show ?thesis
    by (simp add: IHS_SessionPacketsWindowAvailable_def Size_rep[OF assms] u16_int_def)
qed


section \<open>Updating slots\<close>

lemma win_slot_update:
  assumes "length (win_data w) = win_capacity w" "0 < win_capacity w"
  shows "win_slot (w\<lparr>win_data := (win_data w)[nat (i mod int (win_capacity w)) := x]\<rparr>) j =
           (if j mod int (win_capacity w) = i mod int (win_capacity w) then x else win_slot w j)"
proof -
  have "nat (i mod int (win_capacity w)) < length (win_data w)"
    using assms by (simp add: nat_less_iff)
  moreover have "nat (i mod int (win_capacity w)) = nat (j mod int (win_capacity w)) \<longleftrightarrow>
      j mod int (win_capacity w) = i mod int (win_capacity w)"
    using assms(2) by (auto simp: nat_eq_iff)
  ultimately show ?thesis by (simp add: win_slot_def nth_list_update)
qed

lemma Size_cong:
  assumes "win_head v = win_head w" "win_tail v = win_tail w" "win_capacity v = win_capacity w"
    "0 \<le> win_tail w \<Longrightarrow> FrameItemIsUsed (win_data v ! nat (win_tail w)) =
       FrameItemIsUsed (win_data w ! nat (win_tail w))"
  shows "IHS_SessionPacketsWindowSize v = IHS_SessionPacketsWindowSize w"
  using assms by (auto simp: IHS_SessionPacketsWindowSize_def)

section \<open>Timestamp propagation\<close>

text \<open>Only timestamps change.\<close>

definition restamped :: "window_item list \<Rightarrow> window_item list \<Rightarrow> bool" where
  "restamped xs ys \<longleftrightarrow> length ys = length xs \<and>
     (\<forall>j < length xs. \<exists>t. ys ! j = (xs ! j)\<lparr>itm_senderTimestamp := t\<rparr>)"

lemma restamped_refl: "restamped xs xs"
proof -
  have "x = x\<lparr>itm_senderTimestamp := itm_senderTimestamp x\<rparr>" for x :: window_item by simp
  then show ?thesis unfolding restamped_def by blast
qed

lemma restamped_update:
  assumes "restamped (xs[i := (xs ! i)\<lparr>itm_senderTimestamp := t\<rparr>]) ys"
  shows "restamped xs ys"
proof -
  have "\<exists>u. ys ! j = (xs ! j)\<lparr>itm_senderTimestamp := u\<rparr>" if j: "j < length xs" for j
  proof -
    obtain u where "ys ! j = (xs[i := (xs ! i)\<lparr>itm_senderTimestamp := t\<rparr>] ! j)\<lparr>itm_senderTimestamp := u\<rparr>"
      using assms j by (auto simp: restamped_def)
    then show ?thesis using j by (cases "i = j") auto
  qed
  then show ?thesis using assms by (simp add: restamped_def)
qed

lemma propagate_restamped: "restamped data (propagate stamp pos c n left data)"
proof (induction stamp pos c n left data rule: propagate.induct)
  case 1
  then show ?case by (simp add: restamped_refl)
next
  case (2 stamp pos c n left data)
  show ?case
    using restamped_update[OF 2(1)[OF refl refl]] by (simp add: Let_def restamped_refl)
qed

lemma propagate_untouched:
  assumes "\<forall>m. n \<le> m \<and> m < n + left \<longrightarrow> nat ((int pos + int c - int m) mod 2 ^ 32) mod c \<noteq> j"
  shows "propagate stamp pos c n left data ! j = data ! j"
  using assms
proof (induction stamp pos c n left data rule: propagate.induct)
  case 1
  then show ?case by simp
next
  case (2 stamp pos c n left data)
  have "nat ((int pos + int c - int n) mod 2 ^ 32) mod c \<noteq> j"
    using 2(2) by simp
  moreover have "\<forall>m. Suc n \<le> m \<and> m < Suc n + left \<longrightarrow>
      nat ((int pos + int c - int m) mod 2 ^ 32) mod c \<noteq> j"
    using 2(2) by simp
  ultimately show ?case using 2(1)[OF refl refl] by (simp add: Let_def)
qed

lemma propagate_index:
  fixes h :: int
  assumes c: "0 < c" "c < 2 ^ 16" and m: "m \<le> k" "k < c"
    and pos: "int pos = (h + int k) mod int c"
  shows "int (nat ((int pos + int c - int m) mod 2 ^ 32) mod c) = (h + int (k - m)) mod int c"
proof -
  have "0 \<le> int pos + int c - int m" using m by simp
  moreover have "int pos < int c" using pos c by simp
  then have "int pos + int c - int m < 2 ^ 32" using c by simp
  ultimately have "int (nat ((int pos + int c - int m) mod 2 ^ 32) mod c) =
      (int pos + int c - int m) mod int c"
    by (simp add: zmod_int)
  also have "\<dots> = (h + int k - int m) mod int c"
    unfolding pos by (metis add_diff_eq diff_add_eq mod_add_self2 mod_diff_left_eq)
  finally show ?thesis using m by (simp add: of_nat_diff algebra_simps)
qed

end
