(* ===== verification/Window_Add.thy ===== *)
theory Window_Add
  imports Window_Spec
begin

text \<open>
  Insertion into the receive window, on the abstract view: what \<^verbatim>\<open>AddEx\<close> does with an old, a
  duplicate, a far-ahead and a new packet, that it keeps the invariant, and that every packet
  stays at the place its ID names.
\<close>

section \<open>Stamping\<close>

lemma add_stamp_spec:
  assumes len: "length (win_data w) = win_capacity w" and c: "win_capacity w < 2 ^ 16"
    and k: "k < win_capacity w" and pos: "int pos = (h + int k) mod int (win_capacity w)"
    and preceding: "Suc k < win_capacity w \<Longrightarrow> int (IHS_SessionPacketsWindowSize w) + d - 1 = int k"
  obtains ys where "add_stamp w pos stamp d = w\<lparr>win_data := ys\<rparr>" "restamped (win_data w) ys"
    "\<And>j. k < j \<Longrightarrow> j < win_capacity w \<Longrightarrow>
       ys ! nat ((h + int j) mod int (win_capacity w)) =
       win_data w ! nat ((h + int j) mod int (win_capacity w))"
proof (cases "itm_senderTimestamp (win_data w ! pos) = 0 \<or>
    sint (itm_senderTimestamp (win_data w ! pos) - stamp) < 0")
  case False
  then have "add_stamp w pos stamp d = w\<lparr>win_data := win_data w\<rparr>"
    by (simp add: add_stamp_def Let_def)
  then show thesis using that restamped_refl by blast
next
  case True
  let ?c = "win_capacity w" and ?item = "(win_data w ! pos)\<lparr>itm_senderTimestamp := stamp\<rparr>"
  define ds where "ds = (win_data w)[pos := ?item]"
  define p where "p = nat ((int (IHS_SessionPacketsWindowSize w) + d - 1) mod 2 ^ 32)"
  define ys where "ys = propagate stamp pos ?c 1 p ds"
  have c0: "0 < ?c" using k by simp
  have "FrameItemIsUsed (ds ! j) = FrameItemIsUsed (win_data w ! j)" for j
    by (cases "pos < length (win_data w)") (auto simp: ds_def nth_list_update list_update_beyond)
  then have "IHS_SessionPacketsWindowSize (w\<lparr>win_data := ds\<rparr>) = IHS_SessionPacketsWindowSize w"
    by (intro Size_cong) simp_all
  then have "add_stamp w pos stamp d = w\<lparr>win_data := ys\<rparr>"
    using True by (simp add: add_stamp_def Let_def ds_def ys_def p_def)
  moreover have "restamped (win_data w) ys"
    unfolding ys_def using propagate_restamped restamped_update by (metis ds_def)
  moreover have "ys ! nat ((h + int j) mod int ?c) = win_data w ! nat ((h + int j) mod int ?c)"
    if j: "k < j" "j < ?c" for j
  proof -
    have p: "p = k" using preceding j c by (simp add: p_def)
    have outside: "(h + int (k - m)) mod int ?c \<noteq> (h + int j) mod int ?c" if "m \<le> k" for m
      using cyc_inject[of "int (k - m)" "int ?c" "int j" h] j by auto
    have "nat ((int pos + int ?c - int m) mod 2 ^ 32) mod ?c \<noteq> nat ((h + int j) mod int ?c)"
      if m: "1 \<le> m \<and> m < 1 + k" for m
      using propagate_index[OF c0 c _ k pos, of m] outside[of m] m c0
      by (metis Suc_eq_plus1 add.commute less_Suc_eq_le nat_int of_nat_0_less_iff
          pos_mod_sign int_nat_eq)
    then have "ys ! nat ((h + int j) mod int ?c) = ds ! nat ((h + int j) mod int ?c)"
      unfolding ys_def p by (intro propagate_untouched) blast
    moreover have "pos \<noteq> nat ((h + int j) mod int ?c)" using outside[of 0] pos c0 by auto
    ultimately show ?thesis by (simp add: ds_def)
  qed
  ultimately show thesis using that by blast
qed

section \<open>Storing\<close>

lemma restampedD:
  assumes "restamped xs ys" "i < length xs"
  shows "FrameItemIsUsed (ys ! i) = FrameItemIsUsed (xs ! i)"
    "item_ok (ys ! i) = item_ok (xs ! i)" "slot_view (ys ! i) = slot_view (xs ! i)"
proof -
  obtain t where "ys ! i = (xs ! i)\<lparr>itm_senderTimestamp := t\<rparr>"
    using assms by (auto simp: restamped_def)
  then show "FrameItemIsUsed (ys ! i) = FrameItemIsUsed (xs ! i)"
    "item_ok (ys ! i) = item_ok (xs ! i)" "slot_view (ys ! i) = slot_view (xs ! i)" by simp_all
qed

lemma length_restamped [simp]: "restamped xs ys \<Longrightarrow> length ys = length xs"
  by (simp add: restamped_def)

text \<open>The position an ID maps to, counted from the head.\<close>

lemma write_position:
  assumes rep: "win_rep w n" and k: "int k = int n + d - 1"
  shows "(win_tail w + d + int (win_capacity w)) mod int (win_capacity w) =
         (win_head w + int k) mod int (win_capacity w)"
proof (cases "n = 0")
  case True
  then have "win_tail w + d = win_head w + int k" using rep k by (simp add: win_rep_def)
  then show ?thesis by simp
next
  case False
  then have *: "(win_head w + int n) mod int (win_capacity w) = (win_tail w + 1) mod int (win_capacity w)"
    using rep by (simp add: win_rep_def)
  have "(win_tail w + d + int (win_capacity w)) mod int (win_capacity w) =
      (win_tail w + 1 + (d - 1)) mod int (win_capacity w)"
    by (metis add.commute add_diff_cancel_left' add_diff_eq mod_add_self2)
  also have "\<dots> = (win_head w + int n + (d - 1)) mod int (win_capacity w)"
    using * by (metis mod_add_left_eq)
  also have "win_head w + int n + (d - 1) = win_head w + int k" using k by linarith
  finally show ?thesis .
qed

text \<open>Storing a packet \<open>k\<close> places behind the head.\<close>

lemma win_rep_store:
  assumes rep: "win_rep w n" and k: "k < win_capacity w"
    and len: "length ys = win_capacity w"
    and used: "FrameItemIsUsed item" and ok: "item_ok item"
    and at_k: "slot_view (ys ! nat ((win_head w + int k) mod int (win_capacity w))) = slot_view item"
    and oks: "\<And>i. i < win_capacity w \<Longrightarrow> item_ok (ys ! i)"
    and views: "\<And>j. j < win_capacity w \<Longrightarrow> j \<noteq> k \<Longrightarrow>
        slot_view (ys ! nat ((win_head w + int j) mod int (win_capacity w))) =
        slot_view (win_slot w (win_head w + int j))"
    and rest: "\<And>j. k < j \<Longrightarrow> n \<le> j \<Longrightarrow> j < win_capacity w \<Longrightarrow>
        ys ! nat ((win_head w + int j) mod int (win_capacity w)) = win_slot w (win_head w + int j)"
    and w': "w' = w\<lparr>win_data := ys, win_tail := (if n \<le> k then (win_head w + int k) mod int (win_capacity w)
        else win_tail w), win_tail_id := i\<rparr>"
  shows "win_rep w' (max n (Suc k))"
    "win_view w' = (win_view w @ replicate (Suc k - n) None)[k := slot_view item]"
proof -
  let ?c = "int (win_capacity w)" and ?h = "win_head w"
  note D = win_repD[OF rep]
  have slot: "win_slot w' j = ys ! nat (j mod ?c)" for j by (simp add: w' win_slot_def)
  have kpos: "0 \<le> (?h + int k) mod ?c" "(?h + int k) mod ?c < ?c" using D(1) by simp_all
  have used_iff: "FrameItemIsUsed x \<longleftrightarrow> slot_view x \<noteq> None" for x by simp
  have tail_used: "FrameItemIsUsed (ys ! nat (win_tail w))" if n: "k < n"
  proof -
    have t: "0 \<le> win_tail w" "FrameItemIsUsed (win_data w ! nat (win_tail w))"
      using rep n by (simp_all add: win_rep_def)
    obtain j where j: "j < win_capacity w" "(?h + int j) mod ?c = win_tail w"
        "win_slot w (?h + int j) = win_data w ! nat (win_tail w)"
      using slot_of_index[OF rep t(1) D(5)] by blast
    show ?thesis
      using views[OF j(1)] at_k used t(2) j used_iff by (cases "j = k") metis+
  qed
  have k_used: "FrameItemIsUsed (ys ! nat ((?h + int k) mod ?c))"
    using at_k used used_iff by metis
  have zero: "\<not> FrameItemIsUsed (win_slot w' (?h + int j))" if "j < win_capacity w" "max n (Suc k) \<le> j" for j
    using that rest[of j] D(10)[of j] slot by simp
  have "(?h + int (max n (Suc k))) mod ?c = (win_tail w' + 1) mod ?c"
  proof (cases "n \<le> k")
    case True
    have "(?h + (1 + int k)) mod ?c = ((?h + int k) mod ?c + 1) mod ?c"
      by (simp add: mod_add_right_eq add_ac)
    with True show ?thesis by (simp add: w')
  next
    case False
    then show ?thesis using rep by (simp add: w' win_rep_def)
  qed
  moreover have "0 \<le> win_tail w' \<and> win_tail w' < ?c \<and> FrameItemIsUsed (ys ! nat (win_tail w'))"
    using kpos k_used tail_used D(5) rep by (auto simp: w' win_rep_def)
  ultimately show rep': "win_rep w' (max n (Suc k))"
    unfolding win_rep_def using D(1,2,6,7,8) k len oks zero by (simp add: w' list_all_length)
  have "win_view w' = map (\<lambda>j. slot_view (ys ! nat ((?h + int j) mod ?c))) [0..<max n (Suc k)]"
    unfolding win_view_rep[OF rep'] slot by (simp add: w')
  also have "\<dots> = (win_view w @ replicate (Suc k - n) None)[k := slot_view item]"
  proof (rule nth_equalityI)
    fix j assume "j < length (map (\<lambda>j. slot_view (ys ! nat ((?h + int j) mod ?c))) [0..<max n (Suc k)])"
    then have j: "j < max n (Suc k)" by simp
    show "map (\<lambda>j. slot_view (ys ! nat ((?h + int j) mod ?c))) [0..<max n (Suc k)] ! j =
        (win_view w @ replicate (Suc k - n) None)[k := slot_view item] ! j"
    proof (cases "j = k")
      case True
      then show ?thesis using at_k j by (simp add: win_view_rep[OF rep] nth_append)
    next
      case False
      then have "j < win_capacity w" using j k D(8) by auto
      then show ?thesis
        using j False views[OF _ False] D(10)[of j]
        by (simp add: win_view_rep[OF rep] nth_append)
    qed
  qed (simp add: win_view_rep[OF rep])
  finally show "win_view w' = (win_view w @ replicate (Suc k - n) None)[k := slot_view item]" .
qed

lemma UsePacket_simps:
  "FrameItemUsePacket item packet =
     Some (item\<lparr>itm_header := pkt_header packet, itm_body := pkt_body packet\<rparr>,
           packet\<lparr>pkt_body := (pkt_body packet)\<lparr>buf_data := None, buf_capacity := 0, buf_size := 0,
                                                buf_offset := 0\<rparr>\<rparr>)"
  by (simp add: FrameItemUsePacket_def)

definition body_ok :: "ihs_buffer \<Rightarrow> bool" where
  "body_ok b \<longleftrightarrow> buf_wf b \<and> \<not> IHS_BufferIsNull b"

definition stored :: "packets_window \<Rightarrow> packets_window \<Rightarrow> nat \<Rightarrow> session_packet \<Rightarrow> bool" where
  "stored w w' k packet \<longleftrightarrow>
     win_wf w' \<and>
     win_view w' = (win_view w @ replicate (Suc k - length (win_view w)) None)
       [k := Some (pkt_header packet, pkt_body packet)] \<and>
     win_reliable w' = win_reliable w \<and> win_pollError w' = win_pollError w \<and>
     win_tail_id w' = (if length (win_view w) \<le> k then hdr_packetId (pkt_header packet)
                       else win_tail_id w)"

lemma add_store_duplicate:
  assumes "win_rep w n" "int k = int n + d - 1"
    "FrameItemIsUsed (win_slot w (win_head w + int k))"
  shows "add_store w packet d = Some (True, False, w, packet)"
  using assms(3) write_position[OF assms(1,2)] by (simp add: add_store_def Let_def win_slot_def)

lemma add_store_inserts:
  assumes rep: "win_rep w n" and k: "int k = int n + d - 1" "k < win_capacity w"
    and free: "\<not> FrameItemIsUsed (win_slot w (win_head w + int k))"
    and body: "body_ok (pkt_body packet)"
  obtains w' packet' where "add_store w packet d = Some (True, True, w', packet')"
    "win_rep w' (max n (Suc k))" "stored w w' k packet" "win_capacity w' = win_capacity w"
proof -
  let ?c = "win_capacity w" and ?h = "win_head w"
  note D = win_repD[OF rep]
  define pos where "pos = nat ((?h + int k) mod int ?c)"
  define item where "item = (win_slot w (?h + int k))\<lparr>itm_header := pkt_header packet,
      itm_body := pkt_body packet\<rparr>"
  define v where "v = w\<lparr>win_data := (win_data w)[pos := item]\<rparr>"
  have pos: "int pos = (?h + int k) mod int ?c" "pos < ?c"
    using D(1) by (simp_all add: pos_def nat_less_iff)
  have item: "FrameItemIsUsed item" "item_ok item"
      "slot_view item = Some (pkt_header packet, pkt_body packet)"
    using body by (simp_all add: item_def item_ok_def FrameItemIsUsed_def slot_view_def body_ok_def)
  have preceding: "int (IHS_SessionPacketsWindowSize v) + d - 1 = int k" if "Suc k < ?c"
  proof -
    have "FrameItemIsUsed (win_data v ! nat (win_tail w)) =
        FrameItemIsUsed (win_data w ! nat (win_tail w))" if t: "0 \<le> win_tail w"
    proof (cases "n = 0")
      case True
      then have "?h + (int ?c - 1) = win_tail w + int ?c" using rep by (simp add: win_rep_def)
      then have "(?h + (int ?c - 1)) mod int ?c = win_tail w"
        using t D(5) by (metis mod_add_self2 mod_pos_pos_trivial)
      then have "pos \<noteq> nat (win_tail w)"
        using cyc_inject[of "int ?c - 1" "int ?c" "int k" ?h] \<open>Suc k < ?c\<close> t pos(1) by auto
      then show ?thesis by (simp add: v_def)
    next
      case False
      then have "FrameItemIsUsed (win_data w ! nat (win_tail w))" using rep by (simp add: win_rep_def)
      then show ?thesis
        using item(1) pos(2) D(3) by (cases "pos = nat (win_tail w)") (simp_all add: v_def)
    qed
    then have "IHS_SessionPacketsWindowSize v = IHS_SessionPacketsWindowSize w"
      by (intro Size_cong) (simp_all add: v_def)
    then show ?thesis using k(1) Size_rep[OF rep] by simp
  qed
  obtain ys where ys: "add_stamp v pos (hdr_sendTimestamp (pkt_header packet)) d = v\<lparr>win_data := ys\<rparr>"
      "restamped (win_data v) ys"
      "\<And>j. k < j \<Longrightarrow> j < win_capacity v \<Longrightarrow> ys ! nat ((?h + int j) mod int (win_capacity v)) =
         win_data v ! nat ((?h + int j) mod int (win_capacity v))"
    using add_stamp_spec[of v k pos ?h d] preceding pos(1) k(2) D(2,3) by (auto simp: v_def)
  define w' where "w' = w\<lparr>win_data := ys, win_tail := (if n \<le> k then (?h + int k) mod int ?c
      else win_tail w), win_tail_id := (if n \<le> k then hdr_packetId (pkt_header packet) else win_tail_id w)\<rparr>"
  have "0 < d \<longleftrightarrow> n \<le> k" using k(1) by linarith
  then have run: "add_store w packet d = Some (True, True, w', packet\<lparr>pkt_body := (pkt_body packet)\<lparr>
      buf_data := None, buf_capacity := 0, buf_size := 0, buf_offset := 0\<rparr>\<rparr>)"
    using free ys(1) write_position[OF rep k(1)] pos(1)
    by (simp add: add_store_def Let_def win_slot_def UsePacket_simps w'_def v_def item_def
        flip: pos_def)
  have vdata: "win_data v ! nat ((?h + int j) mod int ?c) =
      (if j = k then item else win_slot w (?h + int j))" if "j < ?c" for j
    using that win_slot_update[OF D(3,1), of "?h + int k" item "?h + int j"]
      cyc_inject[of "int j" "int ?c" "int k" ?h] k(2)
    by (simp add: v_def pos_def win_slot_def)
  have oks: "item_ok (ys ! i)" if "i < ?c" for i
    using restampedD(2)[OF ys(2), of i] that item(2) D(3,9)
    by (cases "i = pos") (simp_all add: v_def list_all_length)
  have idx: "nat ((?h + int j) mod int ?c) < length (win_data v)" for j
    using D(1,3) by (simp add: v_def nat_less_iff)
  have "win_rep w' (max n (Suc k))"
    "win_view w' = (win_view w @ replicate (Suc k - n) None)[k := slot_view item]"
    using win_rep_store[OF rep k(2) _ item(1,2) _ oks _ _ w'_def] ys(3) vdata
      restampedD(3)[OF ys(2) idx] length_restamped[OF ys(2)] D(3) k(2)
    by (simp_all add: v_def)
  moreover have "length (win_view w) = n" using Size_rep[OF rep] by (simp add: length_win_view)
  ultimately show thesis
    using that[OF run] win_rep_wf by (simp add: stored_def item(3) w'_def)
qed

section \<open>Growing\<close>

lemma window_capacity_props:
  assumes "0 < capacity" "required \<le> 16384" "capacity = 64 * 2 ^ a" "capacity < 32768"
  shows "required \<le> window_capacity capacity required" "capacity \<le> window_capacity capacity required"
    "window_capacity capacity required < 32768"
  using assms
proof (induction capacity required arbitrary: a rule: window_capacity.induct)
  case (1 capacity required)
  {
    case 1
    then show ?case using "1.IH"(1)[of "Suc a"] by (subst window_capacity.simps) auto
  next
    case 2
    then show ?case using "1.IH"(2)[of "Suc a"] by (subst window_capacity.simps) auto
  next
    case 3
    then show ?case using "1.IH"(3)[of "Suc a"] by (subst window_capacity.simps) auto
  }
qed

text \<open>A grown window holds the same packets and has room for the one that made it grow.\<close>

lemma window_grow_rep:
  assumes rep: "win_rep w n" and req: "n \<le> required" "required \<le> 16384" "win_capacity w < required"
  shows "win_rep (window_grow w n required) n" "win_view (window_grow w n required) = win_view w"
    "required \<le> win_capacity (window_grow w n required)"
proof -
  let ?c = "window_capacity 64 required"
  define v where "v = window_grow w n required"
  note D = win_repD[OF rep]
  note P = window_capacity_props[of 64 required 0, simplified, OF req(2)]
  have v: "win_capacity v = ?c" "win_head v = (if n \<noteq> 0 then 0 else int ?c)"
    "win_tail v = (if n \<noteq> 0 then int n - 1 else int ?c - 1)"
    "win_data v = map (\<lambda>i. win_slot w (win_head w + int i)) [0..<n] @ replicate (?c - n) zero_item"
    by (simp_all add: v_def window_grow_def Let_def)
  have n: "n \<le> ?c" using req P by linarith
  have idx: "nat ((win_head v + int k) mod int ?c) = k" if "k < ?c" for k
    using that v(2) by simp
  then have slot: "win_slot v (win_head v + int k) =
      (if k < n then win_slot w (win_head w + int k) else zero_item)" if "k < ?c" for k
    using that by (simp add: win_slot_def[of v] v(1,4) nth_append)
  have last: "FrameItemIsUsed (win_slot w (win_head w + int (n - 1)))" if "n \<noteq> 0"
  proof -
    have t: "0 \<le> win_tail w" "FrameItemIsUsed (win_data w ! nat (win_tail w))"
        "(win_head w + int n) mod int (win_capacity w) = (win_tail w + 1) mod int (win_capacity w)"
      using rep that by (simp_all add: win_rep_def)
    have "(win_head w + int n - 1) mod int (win_capacity w) = (win_tail w + 1 - 1) mod int (win_capacity w)"
      using t(3) by (metis mod_diff_left_eq)
    then have "(win_head w + int (n - 1)) mod int (win_capacity w) = win_tail w"
      using that t(1) D(5) by (simp add: of_nat_diff add_diff_eq)
    then show ?thesis using t(2) by (simp add: win_slot_def)
  qed
  have ok: "list_all item_ok (win_data v)"
    using win_slot_ok[OF rep] by (auto simp: v(4) list_all_iff)
  have "n \<noteq> 0 \<Longrightarrow> win_data v ! nat (int n - 1) = win_slot w (win_head w + int (n - 1))"
    by (simp add: v(4) nth_append nat_diff_distrib')
  then have rep': "win_rep v n"
    using n P(2,3) ok slot last
    by (cases "n = 0") (simp_all add: win_rep_def v(1,2,3), simp_all add: v(4))
  moreover have "win_view v = win_view w"
    unfolding win_view_rep[OF rep'] win_view_rep[OF rep] using n slot by simp
  moreover have "required \<le> win_capacity v" using P by (simp add: v(1))
  ultimately show "win_rep (window_grow w n required) n"
    "win_view (window_grow w n required) = win_view w"
    "required \<le> win_capacity (window_grow w n required)"
    by (simp_all add: v_def)
qed

section \<open>AddEx\<close>

text \<open>
  The abstract operation: what becomes of the view when a packet arrives at offset \<open>d\<close> from the
  newest one.
\<close>

datatype add_verdict = TooOld | Duplicate | TooFar | NoRoom | Inserted nat

definition view_verdict ::
    "bool \<Rightarrow> nat \<Rightarrow> (packet_header \<times> ihs_buffer) option list \<Rightarrow> int \<Rightarrow> add_verdict" where
  "view_verdict reliable capacity view d =
     (let k = int (length view) + d - 1 in
      if k < 0 then TooOld
      else if reliable \<and> 0 < d \<and> k + 1 > 16384 then TooFar
      else if \<not> reliable \<and> k \<ge> int capacity then NoRoom
      else if nat k < length view \<and> view ! nat k \<noteq> None then Duplicate
      else Inserted (nat k))"

definition add_post ::
    "packets_window \<Rightarrow> session_packet \<Rightarrow> add_verdict \<Rightarrow>
       bool \<times> bool \<times> packets_window \<times> session_packet \<Rightarrow> bool" where
  "add_post w packet verdict r =
     (case verdict of
        Inserted k \<Rightarrow> fst r \<and> fst (snd r) \<and> stored w (fst (snd (snd r))) k packet \<and>
          win_capacity w \<le> win_capacity (fst (snd (snd r)))
      | NoRoom \<Rightarrow> r = (False, False, w, packet)
      | _ \<Rightarrow> r = (True, False, w, packet))"

lemma view_nth:
  assumes "win_rep w n" "k < n"
  shows "win_view w ! k = slot_view (win_slot w (win_head w + int k))"
  using assms by (simp add: win_view_rep)

lemma view_len: "win_rep w n \<Longrightarrow> length (win_view w) = n"
  by (simp add: length_win_view Size_rep)

text \<open>The common end of \<^verbatim>\<open>AddEx\<close>, once the window is large enough.\<close>

lemma add_store_verdict:
  assumes rep: "win_rep w n" and k: "int k = int n + d - 1" "k < win_capacity w"
    and body: "body_ok (pkt_body packet)"
  obtains r where "add_store w packet d = Some r"
    "if k < n \<and> win_view w ! k \<noteq> None then r = (True, False, w, packet)
     else fst r \<and> fst (snd r) \<and> stored w (fst (snd (snd r))) k packet \<and>
          win_capacity (fst (snd (snd r))) = win_capacity w"
proof (cases "FrameItemIsUsed (win_slot w (win_head w + int k))")
  case True
  then have "k < n" using win_repD(10)[OF rep _ k(2)] by (cases "k < n") simp_all
  then show thesis
    using that add_store_duplicate[OF rep k(1) True] view_nth[OF rep] True by simp
next
  case False
  then have "\<not> (k < n \<and> win_view w ! k \<noteq> None)"
    using view_nth[OF rep] by (metis slot_view_simps(2))
  then show thesis
    using that add_store_inserts[OF rep k False body] by (metis fst_conv snd_conv)
qed

lemma stored_grow:
  assumes "stored (window_grow w n required) w' k packet"
    "win_view (window_grow w n required) = win_view w"
  shows "stored w w' k packet"
  using assms by (simp add: stored_def window_grow_def Let_def)

lemma AddEx_verdict:
  assumes wf: "win_wf w" and body: "body_ok (pkt_body packet)"
  obtains r where "IHS_SessionPacketsWindowAddEx True w packet = Some r"
    "add_post w packet (view_verdict (win_reliable w) (win_capacity w) (win_view w)
       (add_offset w packet)) r"
proof -
  define n where "n = IHS_SessionPacketsWindowSize w"
  define d where "d = add_offset w packet"
  have rep: "win_rep w n" using wf by (simp add: win_wf_def n_def)
  note D = win_repD[OF rep]
  have len: "length (win_view w) = n" using view_len[OF rep] .
  have run: "IHS_SessionPacketsWindowAddEx True w packet =
     (if d \<le> 0 \<and> - d \<ge> int n then Some (True, False, w, packet)
      else if win_reliable w \<and> d > 0 \<and> n + nat d > 16384 then Some (True, False, w, packet)
      else let w' = (if win_reliable w \<and> d > 0 \<and> n + nat d > win_capacity w
                     then window_grow w n (n + nat d) else w) in
        if d > int (win_capacity w') then Some (False, False, w', packet)
        else if d > int (IHS_SessionPacketsWindowAvailable w') then Some (False, False, w', packet)
        else add_store w' packet d)"
    by (simp add: IHS_SessionPacketsWindowAddEx_def Let_def n_def d_def)
  define verdict where "verdict = view_verdict (win_reliable w) (win_capacity w) (win_view w) d"
  have "\<exists>r. IHS_SessionPacketsWindowAddEx True w packet = Some r \<and> add_post w packet verdict r"
  proof (cases "int n + d \<le> 0 \<or> win_reliable w \<and> d > 0 \<and> n + nat d > 16384")
    case True
    then have "verdict = TooOld \<or> verdict = TooFar"
      by (simp add: verdict_def view_verdict_def len Let_def) linarith
    moreover have "d \<le> 0 \<and> - d \<ge> int n \<or> win_reliable w \<and> d > 0 \<and> n + nat d > 16384"
      using True by linarith
    then have "IHS_SessionPacketsWindowAddEx True w packet = Some (True, False, w, packet)"
      unfolding run by (elim disjE) (simp_all only: if_P if_True if_cancel simp_thms)
    ultimately show ?thesis by (auto simp: add_post_def)
  next
    case live: False
    define k where "k = nat (int n + d - 1)"
    have k: "int k = int n + d - 1" using live by (simp add: k_def)
    show ?thesis
    proof (cases "win_reliable w \<and> d > 0 \<and> n + nat d > win_capacity w")
      case grow: True
      let ?v = "window_grow w n (n + nat d)"
      note G = window_grow_rep[OF rep, of "n + nat d"]
      have room: "n + nat d \<le> win_capacity ?v" using G(3) grow live by simp
      have vrep: "win_rep ?v n" and view: "win_view ?v = win_view w" using G(1,2) grow live by simp_all
      have fits: "k < win_capacity ?v" using k grow room by linarith
      have new: "\<not> (k < n \<and> win_view ?v ! k \<noteq> None)" using k grow by linarith
      have "verdict = Inserted k"
        using live grow k by (auto simp: verdict_def view_verdict_def len Let_def k_def)
      moreover have "\<not> d > int (win_capacity ?v)" "\<not> d > int (IHS_SessionPacketsWindowAvailable ?v)"
        using grow room Available_rep[OF vrep] by linarith+
      then have "IHS_SessionPacketsWindowAddEx True w packet = add_store ?v packet d"
        using live grow by (simp add: run Let_def)
      moreover obtain r where "add_store ?v packet d = Some r"
        "fst r \<and> fst (snd r) \<and> stored ?v (fst (snd (snd r))) k packet \<and>
          win_capacity (fst (snd (snd r))) = win_capacity ?v"
        using add_store_verdict[OF vrep k fits body] new by (metis (no_types, lifting))
      ultimately show ?thesis
        using room grow stored_grow[OF _ view] by (intro exI[of _ r]) (simp add: add_post_def)
    next
      case same: False
      show ?thesis
      proof (cases "int k \<ge> int (win_capacity w)")
        case True
        then have "\<not> win_reliable w" "d > int (IHS_SessionPacketsWindowAvailable w)"
          using same k D(8) Available_rep[OF rep] by auto
        then show ?thesis
          using live same True k by (auto simp: run Let_def add_post_def verdict_def view_verdict_def len)
      next
        case False
        then have fits: "k < win_capacity w" by simp
        have "d \<le> int (win_capacity w)" "d \<le> int (IHS_SessionPacketsWindowAvailable w)"
          using fits k D(8) Available_rep[OF rep] by auto
        then have "IHS_SessionPacketsWindowAddEx True w packet = add_store w packet d"
          using live same by (auto simp: run Let_def)
        moreover have "verdict = (if k < n \<and> win_view w ! k \<noteq> None then Duplicate else Inserted k)"
          using live fits k by (auto simp: verdict_def view_verdict_def len Let_def k_def)
        moreover obtain r where "add_store w packet d = Some r"
          "if k < n \<and> win_view w ! k \<noteq> None then r = (True, False, w, packet)
           else fst r \<and> fst (snd r) \<and> stored w (fst (snd (snd r))) k packet \<and>
             win_capacity (fst (snd (snd r))) = win_capacity w"
          using add_store_verdict[OF rep k fits body] .
        ultimately show ?thesis by (intro exI[of _ r]) (simp add: add_post_def split: if_splits)
      qed
    qed
  qed
  then show thesis using that by (auto simp: verdict_def d_def)
qed

text \<open>Without memory to grow, the only new outcome is that the window stays as it is.\<close>

lemma AddEx_no_memory:
  "IHS_SessionPacketsWindowAddEx False w packet = IHS_SessionPacketsWindowAddEx True w packet \<or>
   IHS_SessionPacketsWindowAddEx False w packet = Some (False, False, w, packet)"
  by (simp add: IHS_SessionPacketsWindowAddEx_def Let_def)

section \<open>Sequence numbers\<close>

text \<open>Every received packet sits where its ID says, counted from the next needed one.\<close>

definition view_ids :: "u16 \<Rightarrow> (packet_header \<times> 'a) option list \<Rightarrow> bool" where
  "view_ids base view \<longleftrightarrow>
     (\<forall>k < length view. \<forall>h b. view ! k = Some (h, b) \<longrightarrow> hdr_packetId h = base + of_nat k)"

definition win_ids :: "packets_window \<Rightarrow> bool" where
  "win_ids w \<longleftrightarrow> view_ids (IHS_SessionPacketsWindowNextNeededPacketId w) (win_view w)"

lemma NextNeeded_view:
  "IHS_SessionPacketsWindowNextNeededPacketId w = win_tail_id w + 1 - of_nat (length (win_view w))"
  by (simp add: IHS_SessionPacketsWindowNextNeededPacketId_def length_win_view)

lemma stored_NextNeeded:
  assumes st: "stored w w' k packet" and wf: "win_wf w"
    and k: "int k = int (length (win_view w)) + add_offset w packet - 1"
  shows "IHS_SessionPacketsWindowNextNeededPacketId w' =
     (if win_tail w < 0 then hdr_packetId (pkt_header packet)
      else IHS_SessionPacketsWindowNextNeededPacketId w)"
    "hdr_packetId (pkt_header packet) = IHS_SessionPacketsWindowNextNeededPacketId w' + of_nat k"
proof -
  let ?n = "length (win_view w)" and ?id = "hdr_packetId (pkt_header packet)"
  have rep: "win_rep w ?n" using wf by (simp add: win_wf_def length_win_view)
  have empty: "?n = 0" if "win_tail w < 0" using rep that by (auto simp: win_rep_def split: if_splits)
  have len: "length (win_view w') = max ?n (Suc k)" using st by (simp add: stored_def max_def)
  have off: "?id = win_tail_id w + of_int (add_offset w packet)" if "\<not> win_tail w < 0"
    using that by (simp add: add_offset_def)
  have next': "IHS_SessionPacketsWindowNextNeededPacketId w' =
      (if ?n \<le> k then ?id - of_nat k else IHS_SessionPacketsWindowNextNeededPacketId w)"
    unfolding NextNeeded_view len using st
    by (cases "?n \<le> k") (simp_all add: stored_def max.absorb1 max.absorb2 not_le Suc_le_eq)
  have kk: "(of_nat k :: u16) = of_nat ?n + of_int (add_offset w packet) - 1"
    using arg_cong[OF k, of "of_int :: int \<Rightarrow> u16"] by simp
  show "IHS_SessionPacketsWindowNextNeededPacketId w' =
     (if win_tail w < 0 then ?id else IHS_SessionPacketsWindowNextNeededPacketId w)"
  proof (cases "win_tail w < 0")
    case True
    then have "k = 0" using k empty by (simp add: add_offset_def)
    then show ?thesis using True empty next' by simp
  next
    case False
    then show ?thesis using next' off kk by (simp add: NextNeeded_view)
  qed
  then show "?id = IHS_SessionPacketsWindowNextNeededPacketId w' + of_nat k"
    using next' off kk empty k by (cases "win_tail w < 0") (simp_all add: NextNeeded_view add_offset_def)
qed

lemma stored_ids:
  assumes st: "stored w w' k packet" and wf: "win_wf w" and ids: "win_ids w"
    and k: "int k = int (length (win_view w)) + add_offset w packet - 1"
  shows "win_ids w'"
proof -
  note N = stored_NextNeeded[OF st wf k]
  have rep: "win_rep w (length (win_view w))" using wf by (simp add: win_wf_def length_win_view)
  have empty: "win_view w = []" if "win_tail w < 0"
    using rep that by (auto simp: win_rep_def split: if_splits)
  have "hdr_packetId h = IHS_SessionPacketsWindowNextNeededPacketId w' + of_nat j"
    if j: "j < length (win_view w')" and e: "win_view w' ! j = Some (h, b)" for j h b
  proof (cases "j = k")
    case True
    then show ?thesis using e N(2) st j by (auto simp: stored_def)
  next
    case False
    then have "j < length (win_view w) \<and> win_view w ! j = Some (h, b)"
      using e st j by (auto simp: stored_def nth_append split: if_splits)
    then show ?thesis using ids empty N(1) by (auto simp: win_ids_def view_ids_def)
  qed
  then show ?thesis by (simp add: win_ids_def view_ids_def)
qed

end
