(* ===== verification/Window_Poll.thy ===== *)
theory Window_Poll
  imports Window_Add
begin

text \<open>
  Removal from the receive window, on the abstract view: taking a complete frame drops its
  fragments from the front of the view and concatenates their payloads, discarding and skipping
  orphans drop a prefix, and the invariants of the window survive.
\<close>

section \<open>Advancing the head\<close>

lemma win_rep_advance:
  assumes rep: "win_rep w n" and c: "c \<le> n"
    and len: "length ds = win_capacity w"
    and h': "h' mod int (win_capacity w) = (win_head w + int c) mod int (win_capacity w)"
      "0 \<le> h'" "h' \<le> int (win_capacity w)" "n = c \<Longrightarrow> h' = win_tail w + 1"
    and gone: "\<And>j. j < c \<Longrightarrow> ds ! nat ((win_head w + int j) mod int (win_capacity w)) = zero_item"
    and kept: "\<And>j. c \<le> j \<Longrightarrow> j < win_capacity w \<Longrightarrow>
      ds ! nat ((win_head w + int j) mod int (win_capacity w)) = win_slot w (win_head w + int j)"
    and w': "w' = w\<lparr>win_data := ds, win_head := h', win_pollError := e\<rparr>"
  shows "win_rep w' (n - c)" "win_view w' = drop c (win_view w)"
proof -
  let ?c = "int (win_capacity w)" and ?h = "win_head w"
  note D = win_repD[OF rep]
  have shift: "(h' + x) mod ?c = (?h + (int c + x)) mod ?c" for x
    using h'(1) by (metis add.assoc mod_add_left_eq)
  have slot: "win_slot w' i = ds ! nat (i mod ?c)" for i by (simp add: w' win_slot_def)
  have at: "win_slot w' (h' + int k) = win_slot w (?h + int (c + k))" if "c + k < win_capacity w" for k
    using kept[of "c + k"] that by (simp add: slot shift)
  have wrapped: "win_slot w' (h' + int k) = zero_item" if "win_capacity w \<le> c + k" "k < win_capacity w" for k
  proof -
    have "(?h + (int c + int k)) mod ?c = (?h + int (c + k - win_capacity w)) mod ?c"
    proof -
      have "?h + (int c + int k) = ?h + int (c + k - win_capacity w) + ?c"
        using that(1) by (simp add: of_nat_diff)
      then show ?thesis by (metis mod_add_self2)
    qed
    then show ?thesis using gone[of "c + k - win_capacity w"] that by (simp add: slot shift)
  qed
  have zero: "\<not> FrameItemIsUsed (win_slot w' (h' + int k))" if "k < win_capacity w" "n - c \<le> k" for k
  proof (cases "c + k < win_capacity w")
    case True
    then show ?thesis using at D(10)[of "c + k"] that c by simp
  next
    case False
    then show ?thesis using wrapped that by simp
  qed
  have all_slots: "list_all item_ok ds"
    unfolding list_all_length
  proof (intro allI impI)
    fix i assume i: "i < length ds"
    obtain k where "k < win_capacity w" "(?h + int k) mod ?c = int i"
      using slot_of_index[OF rep, of "int i"] i len by auto
    then show "item_ok (ds ! i)"
      using gone[of k] kept[of k] win_slot_ok[OF rep] by (cases "k < c") (auto simp: not_less)
  qed
  have tail: "FrameItemIsUsed (ds ! nat (win_tail w))" if "c < n"
  proof -
    have t: "0 \<le> win_tail w" "FrameItemIsUsed (win_data w ! nat (win_tail w))"
      using rep that by (simp_all add: win_rep_def)
    have "(?h + int n) mod ?c = (win_tail w + 1) mod ?c" using rep that by (simp add: win_rep_def)
    then have "(?h + int n - 1) mod ?c = (win_tail w + 1 - 1) mod ?c" by (metis mod_diff_left_eq)
    then have "(?h + int (n - 1)) mod ?c = win_tail w"
      using that t(1) D(5) by (simp add: of_nat_diff add_diff_eq)
    then show ?thesis using kept[of "n - 1"] that t(2) D(8) by (simp add: win_slot_def)
  qed
  have cong: "(h' + int (n - c)) mod ?c = (win_tail w + 1) mod ?c" if "c < n"
    using rep that c by (simp add: shift win_rep_def of_nat_diff)
  show rep': "win_rep w' (n - c)"
    unfolding win_rep_def
    using D(1,2,4,5,8) len h'(2,3,4) c all_slots zero tail cong rep
    by (cases "n = c") (simp_all add: w' win_rep_def)
  have "win_view w' = map (\<lambda>k. slot_view (win_slot w (?h + int (c + k)))) [0..<n - c]"
    unfolding win_view_rep[OF rep'] using at D(8) c by (simp add: w')
  also have "\<dots> = drop c (win_view w)"
    unfolding win_view_rep[OF rep] by (rule nth_equalityI) (auto simp: less_diff_conv add.commute)
  finally show "win_view w' = drop c (win_view w)" .
qed

text \<open>Recycling the head slot of a window that holds more than one.\<close>

lemma win_rep_step:
  assumes rep: "win_rep w n" and n: "1 < n"
    and w': "w' = w\<lparr>win_data := (win_data w)[nat (win_head w mod int (win_capacity w)) := zero_item],
      win_head := (win_head w + 1) mod int (win_capacity w)\<rparr>"
  shows "win_rep w' (n - 1)" "win_view w' = tl (win_view w)"
proof -
  note D = win_repD[OF rep]
  have up: "(win_data w)[nat (win_head w mod int (win_capacity w)) := zero_item] !
      nat ((win_head w + int j) mod int (win_capacity w)) =
      (if j = 0 then zero_item else win_slot w (win_head w + int j))" if "j < win_capacity w" for j
    using win_slot_update[OF D(3,1), of "win_head w" zero_item "win_head w + int j"] D(1)
      cyc_inject[of "int j" "int (win_capacity w)" 0 "win_head w"] that
    by (simp add: win_slot_def)
  have c: "0 \<le> (win_head w + 1) mod int (win_capacity w)"
    "(win_head w + 1) mod int (win_capacity w) \<le> int (win_capacity w)"
    using D(1) by (simp_all add: order_less_imp_le)
  note adv = win_rep_advance[OF rep, of 1
      "(win_data w)[nat (win_head w mod int (win_capacity w)) := zero_item]"
      "(win_head w + 1) mod int (win_capacity w)" w' "win_pollError w"]
  have "win_rep w' (n - 1) \<and> win_view w' = drop 1 (win_view w)"
    by (intro conjI adv) (use up up[of 0] n c D(1,3) in \<open>simp_all add: w'\<close>)
  then show "win_rep w' (n - 1)" "win_view w' = tl (win_view w)"
    by (simp_all add: drop_Suc)
qed

section \<open>Orphan fragments\<close>

definition orphan :: "(packet_header \<times> ihs_buffer) option \<Rightarrow> bool" where
  "orphan v = (case v of None \<Rightarrow> False
     | Some (h, b) \<Rightarrow> hdr_type h \<noteq> IHS_SessionPacketTypeReliable \<and>
                    hdr_type h \<noteq> IHS_SessionPacketTypeUnreliable)"

lemma orphan_slot: "orphan (slot_view item) \<longleftrightarrow> FrameItemIsUsed item \<and> \<not> FrameItemIsHead item"
  by (simp add: orphan_def slot_view_def FrameItemIsHead_def)

lemma view_Cons:
  assumes "win_rep w n" "0 < n"
  shows "win_view w = slot_view (win_slot w (win_head w)) # tl (win_view w)"
  using assms by (simp add: win_view_rep upt_conv_Cons del: upt_Suc)

text \<open>Orphans at the front are dropped as long as something else follows them.\<close>

lemma skip_orphans_view:
  assumes "win_rep w n" "\<not> list_all orphan (win_view w) \<or> win_reliable w"
  obtains w' n' where "skip_orphans w n = Some (w', n')" "win_rep w' n'"
    "win_view w' = (if win_reliable w then win_view w else dropWhile orphan (win_view w))"
    "win_reliable w' = win_reliable w" "win_pollError w' = win_pollError w"
    "win_tail_id w' = win_tail_id w" "win_capacity w' = win_capacity w"
  using assms
proof (induction n arbitrary: w thesis)
  case 0
  have "win_view w = []" using view_len[OF 0(2)] by simp
  then show ?case using 0(1)[of w 0] 0(2) by simp
next
  case (Suc n)
  let ?i = "nat (win_head w mod int (win_capacity w))"
  let ?slot = "win_slot w (win_head w)"
  define w' where "w' = w\<lparr>win_data := (win_data w)[?i := zero_item],
      win_head := (win_head w + 1) mod int (win_capacity w)\<rparr>"
  note V = view_Cons[OF Suc.prems(2) zero_less_Suc]
  show ?case
  proof (cases "\<not> win_reliable w \<and> orphan (slot_view ?slot)")
    case False
    then have "skip_orphans w (Suc n) = Some (w, Suc n)"
      by (auto simp: Let_def orphan_slot simp flip: win_slot_def)
    moreover have "\<not> win_reliable w \<Longrightarrow> dropWhile orphan (win_view w) = win_view w"
      using False V by (metis dropWhile.simps(2))
    ultimately show ?thesis using Suc.prems(1)[of w "Suc n"] Suc.prems(2) by simp
  next
    case True
    then have more: "\<not> list_all orphan (tl (win_view w))"
      using Suc.prems(3) V by (metis list.pred_inject(2))
    then have "tl (win_view w) \<noteq> []" by auto
    then have n: "1 < Suc n" using view_len[OF Suc.prems(2)] by (cases n) (auto simp: length_Suc_conv)
    note step = win_rep_step[OF Suc.prems(2) n w'_def]
    have run: "skip_orphans w (Suc n) = skip_orphans w' n"
      using True win_slot_ok[OF Suc.prems(2), of "win_head w"]
      by (simp add: Let_def orphan_slot w'_def flip: win_slot_def)
    have "dropWhile orphan (win_view w) = dropWhile orphan (win_view w')"
      using True V step(2) by (metis dropWhile.simps(2))
    moreover obtain v m where "skip_orphans w' n = Some (v, m)" "win_rep v m"
        "win_view v = dropWhile orphan (win_view w')" "\<not> win_reliable v"
        "win_pollError v = win_pollError w" "win_tail_id v = win_tail_id w"
        "win_capacity v = win_capacity w"
      using Suc.IH[of w'] step more True by (auto simp: w'_def)
    ultimately show ?thesis using Suc.prems(1)[of v m] True run by (simp del: skip_orphans.simps)
  qed
qed

section \<open>Discarding\<close>

text \<open>
  Discarding drops the slots whose propagated timestamp lags too far behind the newest one; the
  newest slot itself always stays.
\<close>

lemma discard_loop_view:
  assumes "win_rep w n" "0 < n" "newest = itm_senderTimestamp (win_data w ! nat (win_tail w))"
    "0 \<le> sint diff"
  obtains w' c m where "discard_loop newest diff w n discarded missing = Some (w', discarded + c, m)"
    "c < n" "win_rep w' (n - c)" "win_view w' = drop c (win_view w)"
    "m = missing + length (filter (\<lambda>v. v = None) (take c (win_view w)))"
    "win_reliable w' = win_reliable w" "win_pollError w' = win_pollError w"
    "win_tail_id w' = win_tail_id w" "win_capacity w' = win_capacity w"
    "sint (newest - itm_senderTimestamp (win_slot w' (win_head w'))) \<le> sint diff"
  using assms
proof (induction n arbitrary: w discarded missing thesis)
  case 0
  then show ?case by simp
next
  case (Suc n)
  let ?i = "nat (win_head w mod int (win_capacity w))"
  let ?slot = "win_slot w (win_head w)"
  define w' where "w' = w\<lparr>win_data := (win_data w)[?i := zero_item],
      win_head := (win_head w + 1) mod int (win_capacity w)\<rparr>"
  note D = win_repD[OF Suc.prems(2)]
  note V = view_Cons[OF Suc.prems(2) zero_less_Suc]
  show ?case
  proof (cases "sint (newest - itm_senderTimestamp ?slot) \<le> sint diff")
    case True
    then have "discard_loop newest diff w (Suc n) discarded missing = Some (w, discarded, missing)"
      by (simp add: Let_def flip: win_slot_def)
    then show ?thesis using Suc.prems(1)[of w 0] True Suc.prems(2) by simp
  next
    case False
    have t: "0 \<le> win_tail w"
      "(win_head w + int (Suc n)) mod int (win_capacity w) = (win_tail w + 1) mod int (win_capacity w)"
      using Suc.prems(2) by (simp_all add: win_rep_def)
    have other: "?i \<noteq> nat (win_tail w)"
      using False Suc.prems(4,5) by (auto simp: win_slot_def)
    have n: "1 < Suc n"
    proof (rule ccontr)
      assume "\<not> 1 < Suc n"
      then have "(win_head w + 1 - 1) mod int (win_capacity w) = (win_tail w + 1 - 1) mod int (win_capacity w)"
        using t(2) by (metis One_nat_def Suc_eq_plus1 gr0I less_Suc_eq_0_disj mod_diff_left_eq of_nat_1
            less_one linorder_not_less)
      then show False using other t(1) D(5) by simp
    qed
    note step = win_rep_step[OF Suc.prems(2) n w'_def]
    have run: "discard_loop newest diff w (Suc n) discarded missing =
        discard_loop newest diff w' n (Suc discarded) (if FrameItemIsUsed ?slot then missing else Suc missing)"
      using False win_slot_ok[OF Suc.prems(2), of "win_head w"]
      by (simp add: Let_def w'_def flip: win_slot_def)
    have "newest = itm_senderTimestamp (win_data w' ! nat (win_tail w'))"
      using Suc.prems(4) other by (simp add: w'_def)
    then obtain v c m where IH: "discard_loop newest diff w' n (Suc discarded)
          (if FrameItemIsUsed ?slot then missing else Suc missing) = Some (v, Suc discarded + c, m)"
        "c < n" "win_rep v (n - c)" "win_view v = drop c (win_view w')"
        "m = (if FrameItemIsUsed ?slot then missing else Suc missing) +
           length (filter (\<lambda>v. v = None) (take c (win_view w')))"
        "win_reliable v = win_reliable w'" "win_pollError v = win_pollError w'"
        "win_tail_id v = win_tail_id w'" "win_capacity v = win_capacity w'"
        "sint (newest - itm_senderTimestamp (win_slot v (win_head v))) \<le> sint diff"
      using Suc.IH[of w' "Suc discarded" "if FrameItemIsUsed ?slot then missing else Suc missing"]
        step n Suc.prems(5) by auto
    have "m = missing + length (filter (\<lambda>v. v = None) (take (Suc c) (win_view w)))"
      using IH(5) step(2) by (subst V) simp
    moreover have "win_view v = drop (Suc c) (win_view w)"
      using IH(4) step(2) by (simp add: drop_Suc)
    ultimately show ?thesis
      using Suc.prems(1)[of v "Suc c" m] IH run by (simp add: w'_def)
  qed
qed

section \<open>Taking a frame\<close>

text \<open>How many packets the frame at the front of the view consists of, if it is complete.\<close>

definition frag_ok :: "bool \<Rightarrow> (packet_header \<times> ihs_buffer) option list \<Rightarrow> nat \<Rightarrow> bool" where
  "frag_ok reliable view k =
     (case view ! k of None \<Rightarrow> False
      | Some (h, b) \<Rightarrow> reliable \<or> k = 0 \<or>
          hdr_type h = IHS_SessionPacketTypeUnreliableFrag \<and> sint (hdr_fragmentId h) = int k - 1)"

definition frame_count :: "bool \<Rightarrow> (packet_header \<times> ihs_buffer) option list \<Rightarrow> nat option" where
  "frame_count reliable view =
     (case view of
        Some (h, b) # rest \<Rightarrow>
          let count = 1 + sint (hdr_fragmentId h) in
          if \<not> orphan (Some (h, b)) \<and> 1 \<le> count \<and> count \<le> int (length view) \<and>
             list_all (frag_ok reliable view) [0..<nat count]
          then Some (nat count) else None
      | _ \<Rightarrow> None)"

definition view_body :: "(packet_header \<times> ihs_buffer) option \<Rightarrow> bytes" where
  "view_body v = (case v of None \<Rightarrow> [] | Some (h, b) \<Rightarrow> buf_content b)"

definition view_retries :: "(packet_header \<times> ihs_buffer) option \<Rightarrow> u32" where
  "view_retries v = (case v of None \<Rightarrow> 0 | Some (h, b) \<Rightarrow> ucast (hdr_retransmitCount h))"

abbreviation frame_data :: "(packet_header \<times> ihs_buffer) option list \<Rightarrow> bytes" where
  "frame_data view \<equiv> concat (map view_body view)"

lemma slot_body: "FrameItemIsUsed item \<Longrightarrow> view_body (slot_view item) = buf_content (itm_body item)"
  by (simp add: view_body_def slot_view_def)

text \<open>The measuring pass.\<close>

lemma poll_measure_ok:
  assumes rep: "win_rep w n" and "k + left \<le> n"
    and "\<And>j. k \<le> j \<Longrightarrow> j < k + left \<Longrightarrow> frag_ok (win_reliable w) (win_view w) j"
    and "acc + length (frame_data (take left (drop k (win_view w)))) \<le> SIZE_MAX"
  shows "poll_measure w k left acc = Inr (acc + length (frame_data (take left (drop k (win_view w)))))"
  using assms(2-)
proof (induction left arbitrary: k acc)
  case 0
  then show ?case by simp
next
  case (Suc left)
  let ?item = "win_slot w (win_head w + int k)"
  have k: "k < n" using Suc.prems(1) by simp
  have split: "take (Suc left) (drop k (win_view w)) =
      win_view w ! k # take left (drop (Suc k) (win_view w))"
    using k view_len[OF rep] by (simp add: Cons_nth_drop_Suc[symmetric])
  have at: "win_view w ! k = slot_view ?item" using view_nth[OF rep k] .
  have frag: "frag_ok (win_reliable w) (win_view w) k" using Suc.prems(2) by simp
  then have used: "FrameItemIsUsed ?item" by (auto simp: frag_ok_def at slot_view_def split: if_splits)
  then have wf: "buf_wf (itm_body ?item)"
    using win_slot_ok[OF rep, of "win_head w + int k"] by (simp add: item_ok_def)
  have len: "length (view_body (win_view w ! k)) = buf_size (itm_body ?item)"
    using used by (simp add: at slot_body length_buf_content[OF wf])
  have "poll_measure w k (Suc left) acc = poll_measure w (Suc k) left (acc + buf_size (itm_body ?item))"
    using used frag buf_wf_bounds(1)[OF wf] Suc.prems(3) len
    by (auto simp: Let_def frag_ok_def at slot_view_def split)
  also have "\<dots> = Inr (acc + length (frame_data (take (Suc left) (drop k (win_view w)))))"
    using Suc.IH[of "Suc k" "acc + buf_size (itm_body ?item)"] Suc.prems len by (simp add: split)
  finally show ?case .
qed

text \<open>The collecting pass, into a buffer with enough capacity.\<close>

lemma collect_append:
  assumes dst: "buf_wf dst" and src: "buf_wf src" "buf_size src \<noteq> 0" and live: "live_alloc mem"
    and room: "buf_offset dst + (buf_size dst + buf_size src) + buf_suffix dst \<le> buf_capacity dst"
  obtains dst' where "IHS_BufferAppend mem dst src = Some dst'" "buf_wf dst'"
    "buf_offset dst' = buf_offset dst" "buf_suffix dst' = buf_suffix dst"
    "buf_capacity dst \<le> buf_capacity dst'" "buf_size dst' = buf_size dst + buf_size src"
    "buf_content dst' = buf_content dst @ buf_content src" "buf_prefix dst' = buf_prefix dst"
proof -
  have len: "length (buf_content src) = buf_size src" using length_buf_content[OF src(1)] .
  have "0 < buf_capacity src - buf_offset src - buf_suffix src"
    using buf_wf_bounds(1)[OF src(1)] src(2) by linarith
  then have run: "IHS_BufferAppend mem dst src = IHS_BufferAppendMem mem dst (buf_content src)"
    using Append_eq_AppendMem[OF src(1)] by simp
  have "can_hold dst (buf_offset dst + (buf_size dst + length (buf_content src)) + buf_suffix dst)"
    using room src(2) len by (simp add: can_hold_def grow_base_def)
  moreover have "buf_content src \<noteq> []" using len src(2) by auto
  ultimately obtain dst' where "IHS_BufferAppendMem mem dst (buf_content src) = Some dst'"
      "buf_wf dst'" "buf_frame dst dst'" "buf_offset dst' = buf_offset dst"
      "buf_size dst' = buf_size dst + length (buf_content src)"
      "buf_content dst' = buf_content dst @ buf_content src" "buf_prefix dst' = buf_prefix dst"
    using AppendMem_spec[OF dst live] by metis
  then show thesis using that[of dst'] run len by (simp add: buf_frame_def)
qed

definition collected :: "packets_window \<Rightarrow> packets_window \<Rightarrow> nat \<Rightarrow> nat \<Rightarrow> bool" where
  "collected w w' k left \<longleftrightarrow>
     (\<exists>ds. w' = w\<lparr>win_data := ds\<rparr> \<and> length ds = length (win_data w)) \<and>
     (\<forall>j < win_capacity w. win_slot w' (win_head w + int j) =
        (if k \<le> j \<and> j < k + left then zero_item else win_slot w (win_head w + int j)))"

lemma poll_collect_ok:
  assumes "length (win_data w) = win_capacity w" "k + left \<le> win_capacity w"
    and "\<And>j. k \<le> j \<Longrightarrow> j < k + left \<Longrightarrow> item_ok (win_slot w (win_head w + int j)) \<and>
      FrameItemIsUsed (win_slot w (win_head w + int j)) \<and>
      buf_size (itm_body (win_slot w (win_head w + int j))) \<noteq> 0"
    and "view = map (\<lambda>j. slot_view (win_slot w (win_head w + int j))) [k..<k + left]"
    and "buf_wf (frm_body frame)" "live_alloc mem"
    and "buf_offset (frm_body frame) + (buf_size (frm_body frame) + length (frame_data view)) +
      buf_suffix (frm_body frame) \<le> buf_capacity (frm_body frame)"
  obtains w' frame' where "poll_collect mem w frame k left = Some (w', frame')"
    "collected w w' k left" "buf_wf (frm_body frame')"
    "buf_content (frm_body frame') = buf_content (frm_body frame) @ frame_data view"
    "frm_receivedRetries frame' = frm_receivedRetries frame + sum_list (map view_retries view)"
    "frm_mediaOffset frame' = frm_mediaOffset frame" "frm_mediaPrepared frame' = frm_mediaPrepared frame"
    "hdr_packetId (frm_header frame') = hdr_packetId (frm_header frame)"
  using assms
proof (induction left arbitrary: w frame k view thesis)
  case 0
  have "collected w w k 0" by (auto simp: collected_def intro!: exI[of _ "win_data w"])
  moreover have "view = []" using 0(5) by simp
  ultimately show ?case using 0(1)[of w frame] 0(6) by simp
next
  case (Suc left)
  let ?i = "nat ((win_head w + int k) mod int (win_capacity w))"
  let ?item = "win_slot w (win_head w + int k)"
  define w1 where "w1 = w\<lparr>win_data := (win_data w)[?i := zero_item]\<rparr>"
  have c: "0 < win_capacity w" using Suc.prems(3) by linarith
  have item: "item_ok ?item" "FrameItemIsUsed ?item" "buf_size (itm_body ?item) \<noteq> 0"
    using Suc.prems(4)[of k] by auto
  then have wf: "buf_wf (itm_body ?item)" by (simp add: item_ok_def)
  define rest where "rest = map (\<lambda>j. slot_view (win_slot w (win_head w + int j))) [Suc k..<Suc k + left]"
  have view: "view = slot_view ?item # rest"
    using Suc.prems(5) by (simp add: rest_def upt_conv_Cons del: upt_Suc)
  have len: "length (frame_data view) = buf_size (itm_body ?item) + length (frame_data rest)"
    using item(2) by (simp add: view slot_body length_buf_content[OF wf])
  obtain body where body: "IHS_BufferAppend mem (frm_body frame) (itm_body ?item) = Some body"
      "buf_wf body" "buf_offset body = buf_offset (frm_body frame)"
      "buf_suffix body = buf_suffix (frm_body frame)"
      "buf_capacity (frm_body frame) \<le> buf_capacity body"
      "buf_size body = buf_size (frm_body frame) + buf_size (itm_body ?item)"
      "buf_content body = buf_content (frm_body frame) @ buf_content (itm_body ?item)"
    using collect_append[OF Suc.prems(6) wf item(3) Suc.prems(7)] Suc.prems(8) len by auto
  define h where "h = (let h = frm_header frame; stamp = hdr_receiveTimestamp (itm_header ?item) in
     if stamp > hdr_receiveTimestamp h
     then h\<lparr>hdr_receiveBegin := (if hdr_receiveBegin h = 0 then stamp else hdr_receiveBegin h),
            hdr_receiveTimestamp := stamp\<rparr>
     else h)"
  define frame1 where "frame1 = frame\<lparr>frm_body := body, frm_header := h,
      frm_receivedRetries := frm_receivedRetries frame + ucast (hdr_retransmitCount (itm_header ?item))\<rparr>"
  have run: "poll_collect mem w frame k (Suc left) = poll_collect mem w1 frame1 (Suc k) left"
    using body(1) item(1) by (simp add: Let_def frame1_def h_def w1_def flip: win_slot_def)
  have slots: "win_slot w1 (win_head w + int j) =
      (if j = k then zero_item else win_slot w (win_head w + int j))" if "j < win_capacity w" for j
    using win_slot_update[OF Suc.prems(2) c, of "win_head w + int k" zero_item "win_head w + int j"]
      cyc_inject[of "int j" "int (win_capacity w)" "int k" "win_head w"] that Suc.prems(3)
    by (simp add: w1_def)
  have rest1: "rest = map (\<lambda>j. slot_view (win_slot w1 (win_head w1 + int j))) [Suc k..<Suc k + left]"
  proof -
    have "win_slot w (win_head w + int j) = win_slot w1 (win_head w1 + int j)"
      if "j \<in> set [Suc k..<Suc k + left]" for j
    proof -
      have "j < win_capacity w" "j \<noteq> k" using that Suc.prems(3) by auto
      then show ?thesis using slots[of j] by (simp add: w1_def)
    qed
    then show ?thesis unfolding rest_def by (intro map_cong) simp_all
  qed
  have room1: "buf_offset (frm_body frame1) + (buf_size (frm_body frame1) + length (frame_data rest)) +
      buf_suffix (frm_body frame1) \<le> buf_capacity (frm_body frame1)"
    using Suc.prems(8) body(3-6) len by (simp add: frame1_def)
  have items1: "item_ok (win_slot w1 (win_head w1 + int j)) \<and> FrameItemIsUsed (win_slot w1 (win_head w1 + int j)) \<and>
      buf_size (itm_body (win_slot w1 (win_head w1 + int j))) \<noteq> 0"
    if "Suc k \<le> j" "j < Suc k + left" for j
    using that slots[of j] Suc.prems(4)[of j] Suc.prems(3) by (simp add: w1_def)
  obtain w' frame' where IH: "poll_collect mem w1 frame1 (Suc k) left = Some (w', frame')"
    "collected w1 w' (Suc k) left" "buf_wf (frm_body frame')"
    "buf_content (frm_body frame') = buf_content (frm_body frame1) @ frame_data rest"
    "frm_receivedRetries frame' = frm_receivedRetries frame1 + sum_list (map view_retries rest)"
    "frm_mediaOffset frame' = frm_mediaOffset frame1" "frm_mediaPrepared frame' = frm_mediaPrepared frame1"
    "hdr_packetId (frm_header frame') = hdr_packetId (frm_header frame1)"
    using Suc.IH[of w1 frame1 "Suc k" rest] Suc.prems(2,3,7) items1 rest1 room1 body(2)
    by (auto simp: w1_def frame1_def)
  have "collected w w' k (Suc left)"
    using IH(2) slots Suc.prems(2,3) by (auto simp: collected_def w1_def)
  moreover have "hdr_packetId h = hdr_packetId (frm_header frame)" by (simp add: h_def Let_def)
  moreover have "view_retries (slot_view ?item) = ucast (hdr_retransmitCount (itm_header ?item))"
    using item(2) by (simp add: view_retries_def slot_view_def)
  ultimately show ?case
    using Suc.prems(1)[of w' frame'] IH run body(7) item(2)
    by (simp add: frame1_def view slot_body add.assoc)
qed

text \<open>Reserving the frame's memory succeeds below the buffer's maximum.\<close>

lemma reserve_capacity_props:
  assumes "0 < capacity" "wanted \<le> 2 ^ 62"
  shows "wanted \<le> reserve_capacity capacity wanted" "capacity \<le> reserve_capacity capacity wanted"
    "reserve_capacity capacity wanted < 2 ^ 63 \<or> reserve_capacity capacity wanted = capacity"
  using assms
proof (induction capacity wanted rule: reserve_capacity.induct)
  case (1 capacity wanted)
  {
    case 1
    then show ?case
      using "1.IH"(1) by (subst reserve_capacity.simps) (auto simp: SIZE_MAX_def)
  next
    case 2
    then show ?case
      using "1.IH"(2) by (subst reserve_capacity.simps) (auto simp: SIZE_MAX_def)
  next
    case 3
    then show ?case
      using "1.IH"(3)
      by (subst (1 2) reserve_capacity.simps) (auto simp: SIZE_MAX_def)
  }
qed

lemma ReserveFrame_ok:
  assumes wf: "buf_wf b" and live: "live_alloc mem" and len: "0 < len"
    and small: "buf_offset b + len + buf_suffix b \<le> 2 ^ 62"
    and limit: "buf_maxCapacity b = 0 \<or> buf_offset b + len + buf_suffix b \<le> buf_maxCapacity b"
  obtains b' where "ReserveFrame mem b len = (PollOK, b')" "buf_wf b'"
    "buf_offset b + len + buf_suffix b \<le> buf_capacity b'"
    "buf_offset b' = buf_offset b" "buf_suffix b' = buf_suffix b"
proof -
  let ?wanted = "buf_offset b + len + buf_suffix b"
  note W = buf_wf_bounds[OF wf]
  have nolimit: "\<not> (buf_offset b > SIZE_MAX - buf_suffix b \<or> len > SIZE_MAX - buf_offset b - buf_suffix b)"
    using small by (auto simp: SIZE_MAX_def)
  have max: "\<not> (buf_maxCapacity b \<noteq> 0 \<and> ?wanted > buf_maxCapacity b)" using limit by auto
  have data: "\<not> (buf_capacity b \<noteq> 0 \<and> buf_data b = None)" using wf by (auto simp: buf_wf_def)
  show thesis
  proof (cases "buf_capacity b \<noteq> 0 \<and> ?wanted \<le> buf_capacity b")
    case True
    then have "ReserveFrame mem b len = (PollOK, b)"
      using nolimit max data by (simp add: ReserveFrame_def Let_def)
    then show thesis using that[of b] wf True by simp
  next
    case False
    define c0 where "c0 = (let c = (if buf_capacity b \<noteq> 0 then buf_capacity b else buf_initialCapacity b)
      in if c = 0 then (if buf_maxCapacity b \<noteq> 0 \<and> buf_maxCapacity b < 1024 then buf_maxCapacity b else 1024)
         else c)"
    define c1 where "c1 = reserve_capacity c0 ?wanted"
    define c2 where "c2 = (if buf_maxCapacity b \<noteq> 0 \<and> c1 > buf_maxCapacity b then ?wanted else c1)"
    define old where "old = (case buf_data b of None \<Rightarrow> [] | Some xs \<Rightarrow> xs)"
    have c0: "0 < c0" "c0 < 2 ^ 63" "buf_capacity b \<le> c0"
      using wf by (auto simp: c0_def Let_def buf_wf_def)
    note R = reserve_capacity_props[OF c0(1) small]
    have old: "length old = buf_capacity b" using wf by (auto simp: old_def buf_wf_def split: option.splits)
    have c2: "?wanted \<le> c2" "c2 < 2 ^ 63" "buf_maxCapacity b = 0 \<or> c2 \<le> buf_maxCapacity b"
        "buf_capacity b \<le> c2"
      using R c0 small max False by (auto simp: c2_def c1_def)
    obtain fresh where fresh: "realloc_bytes mem old c2 = Some fresh"
    proof -
      obtain ys where "mem c2 = Some ys" using live by (auto simp: live_alloc_def)
      then show ?thesis using that by (simp add: realloc_bytes_def)
    qed
    have flen: "length fresh = c2"
      using realloc_bytes_length(1)[OF _ fresh] live c2(4) old by (simp add: live_alloc_def)
    have "ReserveFrame mem b len = (PollOK, b\<lparr>buf_data := Some fresh, buf_capacity := c2\<rparr>)"
    proof -
      have wanted: "(if ?wanted \<noteq> 0 then ?wanted else buf_maxCapacity b) = ?wanted" using len by simp
      have "ReserveFrame mem b len = (case realloc_bytes mem old c2 of None \<Rightarrow> (PollNoMemory, b)
          | Some allocated \<Rightarrow> (PollOK, b\<lparr>buf_data := Some allocated, buf_capacity := c2\<rparr>))"
        by (simp only: ReserveFrame_def Let_def c2_def c1_def c0_def old_def if_not_P[OF nolimit]
            if_not_P[OF max] if_not_P[OF data] if_not_P[OF False] wanted)
      then show ?thesis using fresh by simp
    qed
    moreover have "buf_wf (b\<lparr>buf_data := Some fresh, buf_capacity := c2\<rparr>)"
      using wf c2 flen W by (auto simp: buf_wf_def)
    ultimately show thesis using that c2 by simp
  qed
qed

text \<open>
  Polling a window whose front holds a complete frame.  \<open>poll_ready\<close> collects the conditions:
  the frame is complete, no fragment is empty, the destination may hold it, and the frame does
  not fill a ring whose head stands one past the last slot (see \<open>Poll_full_ring\<close>).
\<close>

definition poll_ready :: "packets_window \<Rightarrow> session_frame \<Rightarrow> nat \<Rightarrow> bool" where
  "poll_ready w frame c \<longleftrightarrow>
     (let view = take c (win_view w); b = frm_body frame;
          wanted = buf_offset b + length (frame_data view) + buf_suffix b in
      frame_count (win_reliable w) (win_view w) = Some c \<and>
      list_all (\<lambda>v. view_body v \<noteq> []) view \<and>
      buf_wf b \<and> wanted \<le> 2 ^ 62 \<and> (buf_maxCapacity b = 0 \<or> wanted \<le> buf_maxCapacity b))"

lemma frame_countD:
  assumes "frame_count reliable view = Some c"
  obtains h b where "view ! 0 = Some (h, b)" "c = nat (1 + sint (hdr_fragmentId h))" "0 < c"
    "c \<le> length view" "\<not> orphan (view ! 0)" "\<And>k. k < c \<Longrightarrow> frag_ok reliable view k"
    "0 \<le> sint (hdr_fragmentId h)" "view \<noteq> []"
proof -
  obtain h b rest where "view = Some (h, b) # rest"
    using assms by (auto simp: frame_count_def split: list.splits option.splits)
  then show thesis
    using that[of h b] assms
    by (auto simp: frame_count_def Let_def list_all_iff split: if_splits)
qed

lemma collected_slots:
  assumes "collected w w' 0 c" "c \<le> win_capacity w"
  obtains ds where "w' = w\<lparr>win_data := ds\<rparr>" "length ds = length (win_data w)"
    "\<And>j. j < c \<Longrightarrow> ds ! nat ((win_head w + int j) mod int (win_capacity w)) = zero_item"
    "\<And>j. c \<le> j \<Longrightarrow> j < win_capacity w \<Longrightarrow>
       ds ! nat ((win_head w + int j) mod int (win_capacity w)) = win_slot w (win_head w + int j)"
proof -
  obtain ds where "w' = w\<lparr>win_data := ds\<rparr>" "length ds = length (win_data w)"
    using assms(1) by (auto simp: collected_def)
  then show thesis
    using assms that[of ds] by (auto simp: collected_def win_slot_def)
qed

lemma poll_readyD:
  assumes "poll_ready w frame c"
  shows "frame_count (win_reliable w) (win_view w) = Some c"
    "\<And>v. v \<in> set (take c (win_view w)) \<Longrightarrow> view_body v \<noteq> []" "buf_wf (frm_body frame)"
    "buf_offset (frm_body frame) + length (frame_data (take c (win_view w))) +
       buf_suffix (frm_body frame) \<le> 2 ^ 62"
    "buf_maxCapacity (frm_body frame) = 0 \<or>
     buf_offset (frm_body frame) + length (frame_data (take c (win_view w))) +
       buf_suffix (frm_body frame) \<le> buf_maxCapacity (frm_body frame)"
  using assms by (simp_all add: poll_ready_def Let_def list_all_iff)

lemma pollError_irrelevant [simp]:
  "win_slot (w\<lparr>win_pollError := e\<rparr>) i = win_slot w i"
  "IHS_SessionPacketsWindowSize (w\<lparr>win_pollError := e\<rparr>) = IHS_SessionPacketsWindowSize w"
  "win_view (w\<lparr>win_pollError := e\<rparr>) = win_view w"
  "win_rep (w\<lparr>win_pollError := e\<rparr>) n = win_rep w n"
  by (simp_all add: win_slot_def IHS_SessionPacketsWindowSize_def win_view_def win_rep_def)

lemma poll_ready_items:
  assumes rep: "win_rep w n" and ready: "poll_ready w frame c" and j: "j < c"
  shows "item_ok (win_slot w (win_head w + int j)) \<and> FrameItemIsUsed (win_slot w (win_head w + int j)) \<and>
      buf_size (itm_body (win_slot w (win_head w + int j))) \<noteq> 0"
proof -
  let ?item = "win_slot w (win_head w + int j)"
  have F: "c \<le> length (win_view w)" "frag_ok (win_reliable w) (win_view w) j"
    using frame_countD[OF poll_readyD(1)[OF ready]] j by metis+
  have at: "win_view w ! j = slot_view ?item"
    using view_nth[OF rep] j F(1) view_len[OF rep] by simp
  then have used: "FrameItemIsUsed ?item"
    using F(2) by (auto simp: frag_ok_def slot_view_def split: if_splits)
  have ok: "item_ok ?item" using win_slot_ok[OF rep] .
  have "take c (win_view w) ! j \<in> set (take c (win_view w))" using j F(1) by (intro nth_mem) simp
  then have "view_body (win_view w ! j) \<noteq> []" using poll_readyD(2)[OF ready] j by simp
  then show ?thesis
    using used ok length_buf_content[of "itm_body ?item"]
    by (simp add: at slot_body item_ok_def flip: length_greater_0_conv)
qed

text \<open>The two passes together.\<close>

lemma poll_fill:
  assumes rep: "win_rep w n" and ready: "poll_ready w frame c" and live: "live_alloc mem"
  obtains b' w' frame' where
    "ReserveFrame mem (frm_body frame) (length (frame_data (take c (win_view w)))) = (PollOK, b')"
    "poll_collect mem w (frame\<lparr>frm_header := h, frm_mediaOffset := 0, frm_mediaPrepared := False,
       frm_receivedRetries := 0, frm_body := b'\<lparr>buf_size := 0\<rparr>\<rparr>) 0 c = Some (w', frame')"
    "collected w w' 0 c" "buf_wf (frm_body frame')"
    "buf_content (frm_body frame') = frame_data (take c (win_view w))"
    "buf_size (frm_body frame') = length (frame_data (take c (win_view w)))"
    "frm_receivedRetries frame' = sum_list (map view_retries (take c (win_view w)))"
    "frm_mediaOffset frame' = 0" "\<not> frm_mediaPrepared frame'"
proof -
  let ?view = "take c (win_view w)" and ?b = "frm_body frame"
  note R = poll_readyD[OF ready]
  note D = win_repD[OF rep]
  have c: "0 < c" "c \<le> length (win_view w)" using frame_countD[OF R(1)] by metis+
  have n: "c \<le> n" using c view_len[OF rep] by simp
  have "?view \<noteq> []" using c by auto
  then have data: "frame_data ?view \<noteq> []" using R(2) by (cases ?view) auto
  obtain b' where b': "ReserveFrame mem ?b (length (frame_data ?view)) = (PollOK, b')" "buf_wf b'"
      "buf_offset ?b + length (frame_data ?view) + buf_suffix ?b \<le> buf_capacity b'"
      "buf_offset b' = buf_offset ?b" "buf_suffix b' = buf_suffix ?b"
    using ReserveFrame_ok[OF R(3) live _ R(4,5)] data by auto
  define frame0 where "frame0 = frame\<lparr>frm_header := h, frm_mediaOffset := 0, frm_mediaPrepared := False,
      frm_receivedRetries := 0, frm_body := b'\<lparr>buf_size := 0\<rparr>\<rparr>"
  have wf0: "buf_wf (frm_body frame0)" and content0: "buf_content (frm_body frame0) = []"
    using b'(2) by (auto simp: frame0_def buf_wf_def buf_content_def split: option.splits)
  have vw: "?view = map (\<lambda>j. slot_view (win_slot w (win_head w + int j))) [0..<0 + c]"
    using n by (simp add: win_view_rep[OF rep] take_map)
  have lim: "0 + c \<le> win_capacity w" using n D(8) by linarith
  have room0: "buf_offset (frm_body frame0) + (buf_size (frm_body frame0) + length (frame_data ?view)) +
      buf_suffix (frm_body frame0) \<le> buf_capacity (frm_body frame0)"
    using b'(3-5) by (simp add: frame0_def)
  have items: "item_ok (win_slot w (win_head w + int j)) \<and> FrameItemIsUsed (win_slot w (win_head w + int j)) \<and>
      buf_size (itm_body (win_slot w (win_head w + int j))) \<noteq> 0" if "0 \<le> j" "j < 0 + c" for j
    using poll_ready_items[OF rep ready] that by simp
  obtain w' frame' where run: "poll_collect mem w frame0 0 c = Some (w', frame')"
    "collected w w' 0 c" "buf_wf (frm_body frame')"
    "buf_content (frm_body frame') = buf_content (frm_body frame0) @ frame_data ?view"
    "frm_receivedRetries frame' = frm_receivedRetries frame0 + sum_list (map view_retries ?view)"
    "frm_mediaOffset frame' = frm_mediaOffset frame0" "frm_mediaPrepared frame' = frm_mediaPrepared frame0"
    using poll_collect_ok[OF D(3) lim items vw wf0 live room0] by blast
  have "buf_size (frm_body frame') = length (frame_data ?view)"
    using length_buf_content[OF run(3)] run(4) content0 by simp
  then show thesis
    using that[of b' w' frame'] b'(1) run content0 by (simp add: frame0_def)
qed

text \<open>What \<^verbatim>\<open>Poll\<close> delivers and leaves behind, before the question of the invariant.\<close>

lemma Poll_delivers:
  assumes wf: "win_wf w" and ready: "poll_ready w frame c" and live: "live_alloc mem"
  obtains ds frame' where
    "IHS_SessionPacketsWindowPoll mem w frame = Some (True,
       w\<lparr>win_data := ds, win_pollError := PollOK,
         win_head := (if win_head w + int c > int (win_capacity w)
                      then (win_head w + int c) mod int (win_capacity w) else win_head w + int c)\<rparr>,
       frame')"
    "length ds = win_capacity w"
    "\<And>j. j < c \<Longrightarrow> ds ! nat ((win_head w + int j) mod int (win_capacity w)) = zero_item"
    "\<And>j. c \<le> j \<Longrightarrow> j < win_capacity w \<Longrightarrow>
       ds ! nat ((win_head w + int j) mod int (win_capacity w)) = win_slot w (win_head w + int j)"
    "buf_content (frm_body frame') = frame_data (take c (win_view w))" "buf_wf (frm_body frame')"
    "frm_receivedRetries frame' = sum_list (map view_retries (take c (win_view w)))"
    "frm_mediaOffset frame' = 0" "\<not> frm_mediaPrepared frame'"
proof -
  define v where "v = w\<lparr>win_pollError := PollOK\<rparr>"
  define n where "n = IHS_SessionPacketsWindowSize w"
  let ?view = "take c (win_view w)"
  have rep: "win_rep v n" using wf by (simp add: win_wf_def n_def v_def)
  have v: "win_view v = win_view w" "win_reliable v = win_reliable w"
      "IHS_SessionPacketsWindowSize v = n" "poll_ready v frame c"
    using ready by (simp_all add: v_def n_def poll_ready_def)
  note D = win_repD[OF rep] and R = poll_readyD[OF v(4)]
  obtain h b where F: "win_view v ! 0 = Some (h, b)" "c = nat (1 + sint (hdr_fragmentId h))" "0 < c"
    "c \<le> length (win_view v)" "\<not> orphan (win_view v ! 0)"
    "\<And>k. k < c \<Longrightarrow> frag_ok (win_reliable v) (win_view v) k" "0 \<le> sint (hdr_fragmentId h)"
    using frame_countD[OF R(1)] by metis
  have n: "c \<le> n" "0 < n" using F(3,4) view_len[OF rep] by simp_all
  let ?item = "win_slot v (win_head v)"
  have at0: "slot_view ?item = Some (h, b)" using view_nth[OF rep n(2)] F(1) by simp
  then have item: "FrameItemIsUsed ?item" "itm_header ?item = h"
    by (simp_all add: slot_view_def split: if_splits)
  have head: "FrameItemIsHead ?item" using F(5) item(1) at0 F(1) by (metis orphan_slot)
  have skip: "skip_orphans v n = Some (v, n)"
    using n(2) head by (cases n) (auto simp: Let_def simp flip: win_slot_def)
  have pm: "poll_measure v 0 c 0 = Inr (length (frame_data ?view))"
    using poll_measure_ok[OF rep, of 0 c 0] n F(6) R(4) by (simp add: v SIZE_MAX_def)
  obtain b' w1 frame' where run:
    "ReserveFrame mem (frm_body frame) (length (frame_data ?view)) = (PollOK, b')"
    "poll_collect mem v (frame\<lparr>frm_header := h\<lparr>hdr_receiveBegin := hdr_receiveTimestamp h\<rparr>,
       frm_mediaOffset := 0, frm_mediaPrepared := False, frm_receivedRetries := 0,
       frm_body := b'\<lparr>buf_size := 0\<rparr>\<rparr>) 0 c = Some (w1, frame')"
    "collected v w1 0 c" "buf_wf (frm_body frame')" "buf_content (frm_body frame') = frame_data ?view"
    "buf_size (frm_body frame') = length (frame_data ?view)"
    "frm_receivedRetries frame' = sum_list (map view_retries ?view)"
    "frm_mediaOffset frame' = 0" "\<not> frm_mediaPrepared frame'"
    using poll_fill[OF rep v(4) live] unfolding v(1) by blast
  have "c \<le> win_capacity v" using n(1) D(8) by linarith
  then obtain ds where ds: "w1 = v\<lparr>win_data := ds\<rparr>" "length ds = length (win_data v)"
    "\<And>j. j < c \<Longrightarrow> ds ! nat ((win_head v + int j) mod int (win_capacity v)) = zero_item"
    "\<And>j. c \<le> j \<Longrightarrow> j < win_capacity v \<Longrightarrow>
       ds ! nat ((win_head v + int j) mod int (win_capacity v)) = win_slot v (win_head v + int j)"
    using collected_slots[OF run(3)] by blast
  have cnt: "1 + sint (hdr_fragmentId h) = int c" using F(2,7) by simp
  have "IHS_SessionPacketsWindowPoll mem w frame = Some (True,
     w\<lparr>win_data := ds, win_pollError := PollOK,
         win_head := (if win_head w + int c > int (win_capacity w)
                      then (win_head w + int c) mod int (win_capacity w) else win_head w + int c)\<rparr>, frame')"
    unfolding IHS_SessionPacketsWindowPoll_def Let_def v_def[symmetric] v(3)
    using n F(3) skip D(6) head item cnt pm run(1,2,6) ds(1)
    by (simp add: v_def)
  then show thesis
    using that[of ds frame'] ds(2-4) run(4-9) D(3) by (simp add: v_def)
qed

text \<open>The invariant survives unless the frame fills a ring whose head is one past the end.\<close>

lemma Poll_advances:
  assumes wf: "win_wf w" and ready: "poll_ready w frame c" and live: "live_alloc mem"
    and room: "win_head w < int (win_capacity w) \<or> c < win_capacity w"
  obtains w' frame' where "IHS_SessionPacketsWindowPoll mem w frame = Some (True, w', frame')"
    "win_wf w'" "win_view w' = drop c (win_view w)" "win_tail_id w' = win_tail_id w"
    "win_reliable w' = win_reliable w" "win_capacity w' = win_capacity w"
    "win_pollError w' = PollOK"
    "buf_content (frm_body frame') = frame_data (take c (win_view w))" "buf_wf (frm_body frame')"
    "frm_receivedRetries frame' = sum_list (map view_retries (take c (win_view w)))"
proof -
  define n where "n = IHS_SessionPacketsWindowSize w"
  have rep: "win_rep w n" using wf by (simp add: win_wf_def n_def)
  note D = win_repD[OF rep]
  define h' where "h' = (if win_head w + int c > int (win_capacity w)
      then (win_head w + int c) mod int (win_capacity w) else win_head w + int c)"
  have fc: "frame_count (win_reliable w) (win_view w) = Some c"
    using ready by (simp add: poll_ready_def Let_def)
  have c: "0 < c" "c \<le> n" using frame_countD[OF fc] view_len[OF rep] by metis+
  have low: "0 \<le> h'" and high: "h' \<le> int (win_capacity w)"
    using D(1,6) by (simp_all add: h'_def order_less_imp_le)
  have mod: "h' mod int (win_capacity w) = (win_head w + int c) mod int (win_capacity w)"
    by (simp add: h'_def)
  have empty: "h' = win_tail w + 1" if "n = c"
  proof -
    have t: "0 \<le> win_tail w" "h' mod int (win_capacity w) = (win_tail w + 1) mod int (win_capacity w)"
      using rep that c mod by (auto simp: win_rep_def)
    have pos: "0 < h'"
    proof (cases "win_head w + int c > int (win_capacity w)")
      case True
      have "win_head w + int c < 2 * int (win_capacity w)" using room D(7,8) c that by linarith
      then have "(win_head w + int c) mod int (win_capacity w) = win_head w + int c - int (win_capacity w)"
        using True minus_mod_self2[of "win_head w + int c" "int (win_capacity w)"]
          mod_pos_pos_trivial[of "win_head w + int c - int (win_capacity w)" "int (win_capacity w)"]
        by linarith
      then show ?thesis using True by (simp add: h'_def)
    next
      case False
      then show ?thesis using c(1) D(6) by (simp add: h'_def)
    qed
    have "(h' - 1) mod int (win_capacity w) = (win_tail w + 1 - 1) mod int (win_capacity w)"
      using t(2) by (metis mod_diff_left_eq)
    then show ?thesis using pos high t(1) D(5) by simp
  qed
  obtain ds frame' where run: "IHS_SessionPacketsWindowPoll mem w frame = Some (True,
       w\<lparr>win_data := ds, win_pollError := PollOK, win_head := h'\<rparr>, frame')"
    "length ds = win_capacity w"
    "\<And>j. j < c \<Longrightarrow> ds ! nat ((win_head w + int j) mod int (win_capacity w)) = zero_item"
    "\<And>j. c \<le> j \<Longrightarrow> j < win_capacity w \<Longrightarrow>
       ds ! nat ((win_head w + int j) mod int (win_capacity w)) = win_slot w (win_head w + int j)"
    "buf_content (frm_body frame') = frame_data (take c (win_view w))" "buf_wf (frm_body frame')"
    "frm_receivedRetries frame' = sum_list (map view_retries (take c (win_view w)))"
    using Poll_delivers[OF wf ready live] unfolding h'_def by metis
  have upd: "w\<lparr>win_data := ds, win_pollError := PollOK, win_head := h'\<rparr> =
      w\<lparr>win_data := ds, win_head := h', win_pollError := PollOK\<rparr>" by simp
  note A = win_rep_advance[OF rep c(2) run(2) mod low high empty run(3,4) upd]
  show thesis using that[OF run(1) win_rep_wf[OF A(1)] A(2)] run(5-7) by simp
qed

end
