(* ===== verification/Window_Props.thy ===== *)
theory Window_Props
  imports Window_Poll
begin

text \<open>
  The feedback queries of the receive window on its abstract view, and the properties of the
  window as a whole: what every operation does to the view, that the invariants hold in every
  reachable window, and the two ways in which the ring is mistaken for a full one.
\<close>

section \<open>Queries\<close>

lemma HasHole_view:
  assumes "win_wf w"
  shows "IHS_SessionPacketsWindowHasHole w \<longleftrightarrow> None \<in> set (win_view w)"
proof -
  have "None \<in> set (win_view w) \<longleftrightarrow>
      (\<exists>k < IHS_SessionPacketsWindowSize w. slot_view (win_slot w (win_head w + int k)) = None)"
    unfolding win_view_def in_set_conv_nth by (auto simp del: slot_view_simps(2))
  then show ?thesis by (auto simp: IHS_SessionPacketsWindowHasHole_def list_ex_iff)
qed

lemma run_length_view:
  assumes "win_rep w n" "k + left = n"
  shows "run_length FrameItemIsUsed w k left = length (takeWhile (\<lambda>v. v \<noteq> None) (drop k (win_view w)))"
    "run_length (\<lambda>i. \<not> FrameItemIsUsed i) w k left =
       length (takeWhile (\<lambda>v. v = None) (drop k (win_view w)))"
  using assms(2)
proof (induction left arbitrary: k)
  case 0
  {
    case 1
    then show ?case using view_len[OF assms(1)] by simp
  next
    case 2
    then show ?case using view_len[OF assms(1)] by simp
  }
next
  case (Suc left)
  {
    case 1
    then have k: "k < n" by simp
    then have "drop k (win_view w) = win_view w ! k # drop (Suc k) (win_view w)"
      using view_len[OF assms(1)] by (simp add: Cons_nth_drop_Suc)
    then show ?case using Suc(1)[of "Suc k"] 1 view_nth[OF assms(1) k] by (simp del: not_None_eq)
  next
    case 2
    then have k: "k < n" by simp
    then have "drop k (win_view w) = win_view w ! k # drop (Suc k) (win_view w)"
      using view_len[OF assms(1)] by (simp add: Cons_nth_drop_Suc)
    then show ?case using Suc(2)[of "Suc k"] 2 view_nth[OF assms(1) k] by simp
  }
qed

lemma ContiguousId_view:
  assumes "win_wf w"
  shows "IHS_SessionPacketsWindowContiguousId w =
    IHS_SessionPacketsWindowNextNeededPacketId w - 1 +
      of_nat (length (takeWhile (\<lambda>v. v \<noteq> None) (win_view w)))"
  using run_length_view(1)[of w "IHS_SessionPacketsWindowSize w" 0 "IHS_SessionPacketsWindowSize w"] assms
  by (simp add: IHS_SessionPacketsWindowContiguousId_def IHS_SessionPacketsWindowNextNeededPacketId_def
      Let_def win_wf_def)

subsection \<open>Bitmap\<close>

definition bitmap_bit :: "bytes \<Rightarrow> nat \<Rightarrow> bool" where
  "bitmap_bit bm i \<longleftrightarrow> bit (bm ! (i div 8)) (i mod 8)"

lemma bitmap_bit_set:
  assumes "j div 8 < length bm" "i div 8 < length bm"
  shows "bitmap_bit (bm[j div 8 := bm ! (j div 8) OR push_bit (j mod 8) 1]) i \<longleftrightarrow>
    bitmap_bit bm i \<or> i = j"
proof -
  have "i mod 8 < 8" by simp
  moreover have "i = j \<longleftrightarrow> i div 8 = j div 8 \<and> i mod 8 = j mod 8" by (metis div_mult_mod_eq)
  ultimately show ?thesis
    using assms by (auto simp: bitmap_bit_def nth_list_update bit_or_iff bit_exp_iff)
qed

lemma fold_hole_bit:
  assumes "maxPackets \<le> 8 * length bm" "i < maxPackets"
  shows "bitmap_bit (fold (hole_bit w n startId maxPackets) ks bm) i \<longleftrightarrow> bitmap_bit bm i \<or>
    (\<exists>k \<in> set ks. FrameItemIsUsed (win_slot w (win_head w + int k)) \<and>
       unat (win_tail_id w - of_nat (n - 1 - k) - startId) = i)"
  using assms(1)
proof (induction ks arbitrary: bm)
  case Nil
  then show ?case by simp
next
  case (Cons k ks)
  let ?o = "unat (win_tail_id w - of_nat (n - 1 - k) - startId)"
  have len: "length (hole_bit w n startId maxPackets k bm) = length bm"
    by (simp add: hole_bit_def Let_def)
  have i: "i div 8 < length bm" using assms(2) Cons.prems by linarith
  have "bitmap_bit (hole_bit w n startId maxPackets k bm) i \<longleftrightarrow>
      bitmap_bit bm i \<or> FrameItemIsUsed (win_slot w (win_head w + int k)) \<and> ?o = i"
  proof (cases "\<not> FrameItemIsUsed (win_slot w (win_head w + int k)) \<or> ?o \<ge> maxPackets")
    case True
    then show ?thesis using assms(2) by (auto simp: hole_bit_def Let_def)
  next
    case False
    then have "?o div 8 < length bm" using Cons.prems by linarith
    then show ?thesis using False bitmap_bit_set[OF _ i, of ?o] by (auto simp: hole_bit_def Let_def)
  qed
  then show ?case using Cons.IH[of "hole_bit w n startId maxPackets k bm"] Cons.prems len by auto
qed

lemma HoleBitmap_view:
  assumes wf: "win_wf w" and ne: "win_view w \<noteq> []" and i: "i < maxPackets"
    and room: "maxPackets \<le> 8 * length bm"
  shows "bitmap_bit (fst (IHS_SessionPacketsWindowHoleBitmap w startId bm maxPackets)) i \<longleftrightarrow>
    (\<exists>k < length (win_view w). win_view w ! k \<noteq> None \<and>
       unat (IHS_SessionPacketsWindowNextNeededPacketId w + of_nat k - startId) = i)"
proof -
  define n where "n = IHS_SessionPacketsWindowSize w"
  let ?m = "(maxPackets + 7) div 8"
  let ?bm = "replicate ?m 0 @ drop ?m bm"
  have rep: "win_rep w n" using wf by (simp add: win_wf_def n_def)
  have n: "length (win_view w) = n" "n \<noteq> 0" using view_len[OF rep] ne by auto
  have len: "maxPackets \<le> 8 * length ?bm" by simp
  have zero: "\<not> bitmap_bit ?bm i"
  proof -
    have "i div 8 < ?m" using i by linarith
    then show ?thesis by (simp add: bitmap_bit_def nth_append)
  qed
  have id: "win_tail_id w - of_nat (n - 1 - k) =
      IHS_SessionPacketsWindowNextNeededPacketId w + of_nat k" if "k < n" for k
    using that by (simp add: IHS_SessionPacketsWindowNextNeededPacketId_def of_nat_diff flip: n_def)
  have used: "FrameItemIsUsed (win_slot w (win_head w + int k)) \<longleftrightarrow> win_view w ! k \<noteq> None" if "k < n" for k
    using view_nth[OF rep that] by (metis slot_view_simps(2))
  have "fst (IHS_SessionPacketsWindowHoleBitmap w startId bm maxPackets) =
      fold (hole_bit w n startId maxPackets) [0..<n] ?bm"
    using n(2) i by (simp add: IHS_SessionPacketsWindowHoleBitmap_def Let_def flip: n_def)
  moreover have "(\<exists>k \<in> set [0..<n]. FrameItemIsUsed (win_slot w (win_head w + int k)) \<and>
         unat (win_tail_id w - of_nat (n - 1 - k) - startId) = i) \<longleftrightarrow>
      (\<exists>k < n. win_view w ! k \<noteq> None \<and>
         unat (IHS_SessionPacketsWindowNextNeededPacketId w + of_nat k - startId) = i)"
    using id used by (metis atLeastLessThan_iff le0 set_upt)
  ultimately show ?thesis
    using fold_hole_bit[OF len i, of w n startId "[0..<n]"] zero n(1) by simp
qed

section \<open>Polling past orphans\<close>

definition front :: "packets_window \<Rightarrow> (packet_header \<times> ihs_buffer) option list" where
  "front w = (if win_reliable w then win_view w else dropWhile orphan (win_view w))"

text \<open>Nothing is skipped when a frame start or a gap is at the front.\<close>

lemma skip_orphans_stop:
  assumes "win_rep w n" "win_reliable w \<or> (n \<noteq> 0 \<longrightarrow> \<not> orphan (win_view w ! 0))"
  shows "skip_orphans w n = Some (w, n)"
  using assms view_nth[OF assms(1), of 0]
  by (cases n) (auto simp: Let_def orphan_slot simp flip: win_slot_def)

lemma hd_dropWhile_orphan: "dropWhile orphan xs \<noteq> [] \<Longrightarrow> \<not> orphan (dropWhile orphan xs ! 0)"
  using hd_dropWhile[of orphan xs] by (simp add: hd_conv_nth)

lemma Poll_skips:
  assumes wf: "win_wf w" and ne: "front w \<noteq> []"
  obtains v where "win_wf v" "win_view v = front w" "win_reliable v = win_reliable w"
    "win_tail_id v = win_tail_id w" "win_capacity v = win_capacity w" "win_pollError v = PollOK"
    "\<And>mem frame. IHS_SessionPacketsWindowPoll mem w frame = IHS_SessionPacketsWindowPoll mem v frame"
proof -
  define n where "n = IHS_SessionPacketsWindowSize w"
  define u where "u = w\<lparr>win_pollError := PollOK\<rparr>"
  have rep: "win_rep u n" using wf by (simp add: win_wf_def n_def u_def)
  have "\<not> list_all orphan (win_view u) \<or> win_reliable u"
    using ne by (auto simp: front_def u_def list_all_iff)
  then obtain v m where v: "skip_orphans u n = Some (v, m)" "win_rep v m"
    "win_view v = (if win_reliable u then win_view u else dropWhile orphan (win_view u))"
    "win_reliable v = win_reliable u" "win_pollError v = win_pollError u"
    "win_tail_id v = win_tail_id u" "win_capacity v = win_capacity u"
    using skip_orphans_view[OF rep] by blast
  have view: "win_view v = front w" using v(3) by (simp add: front_def u_def)
  have err: "v\<lparr>win_pollError := PollOK\<rparr> = v" using v(5) by (simp add: u_def)
  have m: "m \<noteq> 0" using view_len[OF v(2)] ne view by auto
  have stop: "skip_orphans v m = Some (v, m)"
    using skip_orphans_stop[OF v(2)] ne hd_dropWhile_orphan view v(4)
    by (auto simp: front_def u_def split: if_splits)
  have n: "n \<noteq> 0" using v(1) m by (cases n) auto
  have hd: "0 \<le> win_head u" "0 \<le> win_head v" using win_repD(6) rep v(2) by blast+
  have "IHS_SessionPacketsWindowPoll mem w frame = IHS_SessionPacketsWindowPoll mem v frame" for mem frame
    unfolding IHS_SessionPacketsWindowPoll_def Let_def u_def[symmetric] err
    using n m hd v(1) stop Size_rep[OF rep] Size_rep[OF v(2)] by simp
  then show thesis
    using that[of v] win_rep_wf[OF v(2)] view v(4-7) by (simp add: u_def)
qed

text \<open>A poll that returns no frame changes nothing but the orphans in front.\<close>

lemma Poll_idle:
  assumes wf: "win_wf w" and ne: "front w \<noteq> []"
    and run: "IHS_SessionPacketsWindowPoll mem w frame = Some (False, w', frame')"
  shows "win_wf w' \<and> win_view w' = front w \<and> win_tail_id w' = win_tail_id w \<and>
    win_reliable w' = win_reliable w"
proof -
  obtain v where v: "win_wf v" "win_view v = front w" "win_reliable v = win_reliable w"
    "win_tail_id v = win_tail_id w" "win_pollError v = PollOK"
    "\<And>mem frame. IHS_SessionPacketsWindowPoll mem w frame = IHS_SessionPacketsWindowPoll mem v frame"
    using Poll_skips[OF wf ne] by metis
  have rep: "win_rep v (IHS_SessionPacketsWindowSize v)" using v(1) by (simp add: win_wf_def)
  have err: "v\<lparr>win_pollError := PollOK\<rparr> = v" using v(5) by simp
  have stop: "skip_orphans v (IHS_SessionPacketsWindowSize v) = Some (v, IHS_SessionPacketsWindowSize v)"
    using skip_orphans_stop[OF rep] ne hd_dropWhile_orphan v(2,3)
    by (auto simp: front_def split: if_splits)
  have "IHS_SessionPacketsWindowPoll mem v frame = Some (False, w', frame')" using run v(6) by simp
  then have "\<exists>e. w' = v\<lparr>win_pollError := e\<rparr>"
    unfolding IHS_SessionPacketsWindowPoll_def Let_def err stop
    using err win_repD(6)[OF rep] stop err[symmetric]
    by (auto simp: Let_def bind_eq_Some_conv bind_assert_that_Some split: if_splits sum.splits prod.splits)
  then show ?thesis using v rep by (auto simp: win_wf_def)
qed

section \<open>Sequence numbers of a shortened view\<close>

lemma view_ids_drop: "view_ids base view \<Longrightarrow> c \<le> length view \<Longrightarrow> view_ids (base + of_nat c) (drop c view)"
  unfolding view_ids_def
proof (intro allI impI)
  fix k h b
  assume all: "\<forall>k < length view. \<forall>h b. view ! k = Some (h, b) \<longrightarrow> hdr_packetId h = base + of_nat k"
    and k: "c \<le> length view" "k < length (drop c view)" "drop c view ! k = Some (h, b)"
  then have "c + k < length view" "view ! (c + k) = Some (h, b)" by auto
  then have "hdr_packetId h = base + of_nat (c + k)" using all by blast
  then show "hdr_packetId h = base + of_nat c + of_nat k" by (simp add: add.assoc)
qed

lemma NextNeeded_drop:
  assumes "win_view w' = drop c (win_view w)" "win_tail_id w' = win_tail_id w" "c \<le> length (win_view w)"
  shows "IHS_SessionPacketsWindowNextNeededPacketId w' =
    IHS_SessionPacketsWindowNextNeededPacketId w + of_nat c"
  using assms by (simp add: NextNeeded_view of_nat_diff)

lemma win_ids_drop:
  assumes "win_view w' = drop c (win_view w)" "win_tail_id w' = win_tail_id w" "c \<le> length (win_view w)"
    "win_ids w"
  shows "win_ids w'"
  using assms view_ids_drop[of _ "win_view w" c] NextNeeded_drop[OF assms(1-3)]
  by (simp add: win_ids_def)

lemma front_drop: obtains c where "front w = drop c (win_view w)" "c \<le> length (win_view w)"
  using dropWhile_eq_drop[of orphan "win_view w"] length_takeWhile_le[of orphan "win_view w"]
  by (cases "win_reliable w")
    (auto simp: front_def intro: that[of 0] that[of "length (takeWhile orphan (win_view w))"])

section \<open>The window as a state machine\<close>

lemma CreateReliable_rep:
  assumes "IHS_SessionPacketsWindowCreateReliable a b capacity i = Some w" "0 < capacity" "capacity < 2 ^ 16"
  shows "win_rep w 0" "win_tail_id w = i - 1" "win_capacity w = capacity"
  using assms
  by (auto simp: IHS_SessionPacketsWindowCreateReliable_def IHS_SessionPacketsWindowCreate_def
      win_rep_def win_slot_def nat_less_iff list_all_iff split: if_splits)

lemma recycle_used_all:
  "list_all item_ok items \<Longrightarrow>
   recycle_used items = Some (map (\<lambda>i. if FrameItemIsUsed i then zero_item else i) items)"
  by (induction items) auto

lemma win_ids_empty: "win_view w = [] \<Longrightarrow> win_ids w"
  by (simp add: win_ids_def view_ids_def)

lemma ReleaseAll_rep:
  assumes "win_wf w"
  obtains w' where "IHS_SessionPacketsWindowReleaseAll w = Some w'" "win_rep w' 0" "win_reliable w' = win_reliable w"
    "win_capacity w' = win_capacity w"
proof -
  have rep: "win_rep w (IHS_SessionPacketsWindowSize w)" using assms by (simp add: win_wf_def)
  note D = win_repD[OF rep]
  let ?ds = "map (\<lambda>i. if FrameItemIsUsed i then zero_item else i) (win_data w)"
  let ?w = "w\<lparr>win_data := ?ds, win_head := 0, win_tail := - 1\<rparr>"
  have "\<not> FrameItemIsUsed (win_slot ?w i)" for i
  proof -
    have "nat (i mod int (win_capacity w)) < length (win_data w)" using D(1,3) by (simp add: nat_less_iff)
    then show ?thesis by (simp add: win_slot_def)
  qed
  moreover have "list_all item_ok ?ds" using D(9) by (auto simp: list_all_iff)
  ultimately have "win_rep ?w 0" using D(1,2,3) by (simp add: win_rep_def)
  then show thesis using that[of ?w] recycle_used_all[OF D(9)] by (simp add: IHS_SessionPacketsWindowReleaseAll_def)
qed

text \<open>
  The steps a session takes with a window.  A poll that delivers is taken with its frame
  complete and outside the full-ring case; a discard has a non-negative limit.
\<close>

inductive window_step :: "packets_window \<Rightarrow> packets_window \<Rightarrow> bool" where
  add: "IHS_SessionPacketsWindowAddEx alloc w packet = Some (ok, inserted, w', packet') \<Longrightarrow>
     body_ok (pkt_body packet) \<Longrightarrow> window_step w w'"
| deliver: "IHS_SessionPacketsWindowPoll mem w frame = Some (True, w', frame') \<Longrightarrow>
     poll_ready w frame c \<Longrightarrow> live_alloc mem \<Longrightarrow>
     win_head w < int (win_capacity w) \<or> c < win_capacity w \<Longrightarrow> window_step w w'"
| idle: "IHS_SessionPacketsWindowPoll mem w frame = Some (False, w', frame') \<Longrightarrow>
     front w \<noteq> [] \<Longrightarrow> window_step w w'"
| discard: "IHS_SessionPacketsWindowDiscardEx w diff = Some (w', n, m) \<Longrightarrow> 0 \<le> sint diff \<Longrightarrow>
     window_step w w'"
| release: "IHS_SessionPacketsWindowReleaseAll w = Some w' \<Longrightarrow> window_step w w'"

inductive_cases window_stepE: "window_step w w'"

definition window_inv :: "packets_window \<Rightarrow> bool" where
  "window_inv w \<longleftrightarrow> win_wf w \<and> win_ids w"

definition window_init :: "packets_window \<Rightarrow> bool" where
  "window_init w \<longleftrightarrow> (\<exists>a b capacity i. 0 < capacity \<and> capacity < 2 ^ 16 \<and>
     (IHS_SessionPacketsWindowCreateReliable a b capacity i = Some w \<or>
      IHS_SessionPacketsWindowCreateMedia a b capacity = Some w))"

lemma verdict_index:
  assumes "view_verdict reliable capacity view d = Inserted k"
  shows "int k = int (length view) + d - 1"
  using assms by (auto simp: view_verdict_def Let_def split: if_splits)

lemma AddEx_inv:
  assumes "window_inv w" "body_ok (pkt_body packet)"
    "IHS_SessionPacketsWindowAddEx alloc w packet = Some (ok, inserted, w', packet')"
  shows "window_inv w'"
proof -
  obtain r where r: "IHS_SessionPacketsWindowAddEx True w packet = Some r"
    "add_post w packet (view_verdict (win_reliable w) (win_capacity w) (win_view w) (add_offset w packet)) r"
    using AddEx_verdict[of w packet] assms unfolding window_inv_def by blast
  have "r = (ok, inserted, w', packet') \<or> w' = w"
    using AddEx_no_memory[of w packet] assms(3) r(1) by (cases alloc) auto
  then show ?thesis
    using assms(1) r(2) verdict_index stored_ids
    by (auto simp: add_post_def window_inv_def stored_def split: add_verdict.splits)
qed

lemma ReleaseAll_inv:
  assumes "window_inv w" "IHS_SessionPacketsWindowReleaseAll w = Some w'"
  shows "window_inv w'"
proof -
  have "win_rep w' 0" using ReleaseAll_rep[of w] assms by (metis option.inject window_inv_def)
  then show ?thesis using win_rep_wf view_len[of w' 0] by (auto simp: window_inv_def intro: win_ids_empty)
qed

lemma Discard_view:
  assumes "win_wf w" "0 \<le> sint diff"
  obtains w' c where "IHS_SessionPacketsWindowDiscardEx w diff =
      Some (w', c, length (filter (\<lambda>v. v = None) (take c (win_view w))))"
    "win_wf w'" "win_view w' = drop c (win_view w)" "win_tail_id w' = win_tail_id w"
    "c \<le> length (win_view w)" "win_view w \<noteq> [] \<Longrightarrow> c < length (win_view w)"
    "win_view w \<noteq> [] \<Longrightarrow> sint (itm_senderTimestamp (win_data w ! nat (win_tail w)) -
       itm_senderTimestamp (win_slot w' (win_head w'))) \<le> sint diff"
proof (cases "win_view w = []")
  case True
  then have "IHS_SessionPacketsWindowDiscardEx w diff = Some (w, 0, 0)"
    by (simp add: IHS_SessionPacketsWindowDiscardEx_def win_view_def)
  then show thesis using that[of w 0] assms(1) True by simp
next
  case False
  define n where "n = IHS_SessionPacketsWindowSize w"
  have rep: "win_rep w n" using assms(1) by (simp add: win_wf_def n_def)
  have n: "0 < n" "length (win_view w) = n" using False view_len[OF rep] by auto
  obtain w' c m where "discard_loop (itm_senderTimestamp (win_data w ! nat (win_tail w))) diff w n 0 0 =
      Some (w', 0 + c, m)" "c < n" "win_rep w' (n - c)" "win_view w' = drop c (win_view w)"
    "m = 0 + length (filter (\<lambda>v. v = None) (take c (win_view w)))" "win_tail_id w' = win_tail_id w"
    "sint (itm_senderTimestamp (win_data w ! nat (win_tail w)) -
      itm_senderTimestamp (win_slot w' (win_head w'))) \<le> sint diff"
    using discard_loop_view[OF rep n(1) refl assms(2), of 0 0] by metis
  then show thesis
    using that[of w' c] n win_rep_wf by (simp add: IHS_SessionPacketsWindowDiscardEx_def Let_def flip: n_def)
qed

lemma window_step_inv: "window_inv w \<Longrightarrow> window_step w w' \<Longrightarrow> window_inv w'"
proof (erule window_stepE)
  fix mem frame frame' c
  assume *: "window_inv w" "IHS_SessionPacketsWindowPoll mem w frame = Some (True, w', frame')"
    "poll_ready w frame c" "live_alloc mem" "win_head w < int (win_capacity w) \<or> c < win_capacity w"
  then have "win_wf w'" "win_view w' = drop c (win_view w)" "win_tail_id w' = win_tail_id w"
    using Poll_advances[of w frame c mem] by (auto simp: window_inv_def)
  moreover have "c \<le> length (win_view w)" using frame_countD[OF poll_readyD(1)[OF *(3)]] by metis
  ultimately show ?thesis using win_ids_drop *(1) by (auto simp: window_inv_def)
next
  fix mem frame frame'
  assume *: "window_inv w" "IHS_SessionPacketsWindowPoll mem w frame = Some (False, w', frame')" "front w \<noteq> []"
  obtain c where "front w = drop c (win_view w)" "c \<le> length (win_view w)" using front_drop .
  then show ?thesis
    using Poll_idle[of w mem frame w' frame'] win_ids_drop *  by (auto simp: window_inv_def)
next
  fix diff n m
  assume *: "window_inv w" "IHS_SessionPacketsWindowDiscardEx w diff = Some (w', n, m)" "0 \<le> sint diff"
  obtain v c where "IHS_SessionPacketsWindowDiscardEx w diff =
      Some (v, c, length (filter (\<lambda>v. v = None) (take c (win_view w))))"
    "win_wf v" "win_view v = drop c (win_view w)" "win_tail_id v = win_tail_id w" "c \<le> length (win_view w)"
    using Discard_view[of w diff] * by (metis window_inv_def)
  then show ?thesis using win_ids_drop * by (auto simp: window_inv_def)
qed (auto intro: AddEx_inv ReleaseAll_inv)

interpretation window_sys: transition_system window_init window_step window_inv
proof
  fix w assume "window_init w"
  then have "\<exists>v i. win_rep v 0 \<and> (w = v \<or> w = v\<lparr>win_reliable := False\<rparr>)"
    by (auto simp: window_init_def IHS_SessionPacketsWindowCreateMedia_def dest: CreateReliable_rep)
  then have "win_rep w 0" by (auto simp: win_rep_def win_slot_def)
  then show "window_inv w"
    using win_rep_wf view_len by (fastforce simp: window_inv_def intro: win_ids_empty)
qed (rule window_step_inv)

section \<open>Example windows\<close>

definition demo_header :: "u16 \<Rightarrow> u32 \<Rightarrow> u16 \<Rightarrow> packet_header" where
  "demo_header i t f = zero_header\<lparr>hdr_packetId := i, hdr_type := t, hdr_fragmentId := f,
     hdr_sendTimestamp := 7\<rparr>"

definition demo_packet :: "u16 \<Rightarrow> u32 \<Rightarrow> u16 \<Rightarrow> bytes \<Rightarrow> session_packet" where
  "demo_packet i t f d = \<lparr>pkt_header = demo_header i t f, pkt_body = IHS_BUFFER_WRAP d, pkt_crc = 0\<rparr>"

definition demo_item :: "u16 \<Rightarrow> u32 \<Rightarrow> u16 \<Rightarrow> bytes \<Rightarrow> window_item" where
  "demo_item i t f d = \<lparr>itm_header = demo_header i t f, itm_body = IHS_BUFFER_WRAP d,
     itm_senderTimestamp = 7\<rparr>"

definition demo_ring :: "int \<Rightarrow> int \<Rightarrow> u16 \<Rightarrow> window_item list \<Rightarrow> packets_window" where
  "demo_ring h t i items = \<lparr>win_data = items, win_capacity = length items, win_reliable = False,
     win_pollError = PollOK, win_head = h, win_tail = t, win_tail_id = i\<rparr>"

definition demo_frame :: session_frame where
  "demo_frame = \<lparr>frm_header = zero_header, frm_body = IHS_BufferInit 16 64, frm_mediaOffset = 0,
     frm_mediaPrepared = False, frm_receivedRetries = 0\<rparr>"

lemmas demo_simps = demo_ring_def demo_item_def demo_packet_def demo_header_def demo_frame_def
  win_slot_def slot_view_def FrameItemIsUsed_def IHS_BufferIsNull_def IHS_BUFFER_WRAP_def
  IHS_BufferInit_def zero_item_def zero_header_def item_ok_def buf_wf_def u16_int_def

text \<open>Four slots, two of them taken by the frame with the IDs 5 and 6, then one gap and ID 8.\<close>

definition demo_window :: packets_window where
  "demo_window = demo_ring 2 1 8
     [zero_item\<lparr>itm_senderTimestamp := 7\<rparr>, demo_item 8 IHS_SessionPacketTypeUnreliable 0 [5],
      demo_item 5 IHS_SessionPacketTypeUnreliable 1 [1, 2],
      demo_item 6 IHS_SessionPacketTypeUnreliableFrag 0 [3, 4]]"

lemma Size_demo: "IHS_SessionPacketsWindowSize demo_window = 4"
  by (simp add: IHS_SessionPacketsWindowSize_def demo_window_def demo_simps)

lemma view_demo: "win_view demo_window =
  [Some (demo_header 5 IHS_SessionPacketTypeUnreliable 1, IHS_BUFFER_WRAP [1, 2]),
   Some (demo_header 6 IHS_SessionPacketTypeUnreliableFrag 0, IHS_BUFFER_WRAP [3, 4]), None,
   Some (demo_header 8 IHS_SessionPacketTypeUnreliable 0, IHS_BUFFER_WRAP [5])]"
  unfolding win_view_def Size_demo
  by (simp add: demo_window_def demo_simps upt_rec)

lemma demo_window_inv: "window_inv demo_window"
proof -
  have "win_rep demo_window 4"
    by (auto simp: win_rep_def demo_window_def demo_simps)
  moreover have "win_ids demo_window"
    unfolding win_ids_def view_ids_def NextNeeded_view view_demo
    by (auto simp: demo_window_def demo_ring_def demo_header_def less_Suc_eq numeral_eq_Suc)
  ultimately show ?thesis using win_rep_wf by (simp add: window_inv_def)
qed

lemma demo_window_ready: "poll_ready demo_window demo_frame 2"
proof -
  have "frame_count False (win_view demo_window) = Some 2"
    unfolding view_demo
    by (simp add: frame_count_def demo_header_def orphan_def frag_ok_def upt_rec)
  moreover have "win_reliable demo_window = False" by (simp add: demo_window_def demo_ring_def)
  ultimately show ?thesis
    unfolding poll_ready_def view_demo
    by (simp add: view_body_def buf_content_def demo_frame_def IHS_BUFFER_WRAP_def buf_wf_def
        IHS_BufferInit_def)
qed

section \<open>Properties\<close>

text \<open>C17: Adding a packet never fails an assertion or leaves the ring, and its effect on the view
  of the window is the abstract one: an old, duplicate or out-of-range packet is ignored, a packet
  beyond a full media window is refused, and any other one is stored exactly at the place its ID
  names while all other packets stay; the invariant is kept.\<close>

theorem window_add_refines:
  assumes "window_inv w" "body_ok (pkt_body packet)"
  shows "\<exists>r. IHS_SessionPacketsWindowAddEx True w packet = Some r \<and>
    add_post w packet (view_verdict (win_reliable w) (win_capacity w) (win_view w)
      (add_offset w packet)) r \<and> window_inv (fst (snd (snd r)))"
proof -
  obtain r where "IHS_SessionPacketsWindowAddEx True w packet = Some r"
    "add_post w packet (view_verdict (win_reliable w) (win_capacity w) (win_view w) (add_offset w packet)) r"
    using AddEx_verdict[of w packet] assms unfolding window_inv_def by blast
  then show ?thesis using AddEx_inv[OF assms] by (cases r) auto
qed

theorem window_add_refines_witness:
  "\<exists>r. IHS_SessionPacketsWindowAddEx True demo_window (demo_packet 7 IHS_SessionPacketTypeUnreliable 0 [9]) = Some r \<and>
    add_post demo_window (demo_packet 7 IHS_SessionPacketTypeUnreliable 0 [9]) (Inserted 2) r"
proof -
  have "view_verdict (win_reliable demo_window) (win_capacity demo_window) (win_view demo_window)
      (add_offset demo_window (demo_packet 7 IHS_SessionPacketTypeUnreliable 0 [9])) = Inserted 2"
    unfolding view_demo
    by (simp add: view_verdict_def add_offset_def demo_window_def demo_ring_def demo_packet_def demo_header_def)
  moreover have "body_ok (pkt_body (demo_packet 7 IHS_SessionPacketTypeUnreliable 0 [9]))"
    by (simp add: body_ok_def demo_packet_def buf_wf_def IHS_BUFFER_WRAP_def IHS_BufferIsNull_def)
  ultimately show ?thesis using window_add_refines[OF demo_window_inv] by metis
qed





text \<open>Discarding with a non-negative age limit drops a prefix of the window, never the newest
  packet, counts the packets missing in it, stops at a slot inside the age limit, and keeps the
  invariant.\<close>

theorem window_discard_drops_stale_prefix:
  assumes "window_inv w" "0 \<le> sint diff"
  shows "\<exists>w' c. IHS_SessionPacketsWindowDiscardEx w diff =
      Some (w', c, length (filter (\<lambda>v. v = None) (take c (win_view w)))) \<and>
    win_view w' = drop c (win_view w) \<and> window_inv w' \<and>
    (win_view w \<noteq> [] \<longrightarrow> c < length (win_view w) \<and>
      sint (itm_senderTimestamp (win_data w ! nat (win_tail w)) -
        itm_senderTimestamp (win_slot w' (win_head w'))) \<le> sint diff)"
proof -
  have wf: "win_wf w" using assms(1) by (simp add: window_inv_def)
  obtain w' c where "IHS_SessionPacketsWindowDiscardEx w diff =
      Some (w', c, length (filter (\<lambda>v. v = None) (take c (win_view w))))"
    "win_wf w'" "win_view w' = drop c (win_view w)" "win_tail_id w' = win_tail_id w"
    "c \<le> length (win_view w)" "win_view w \<noteq> [] \<Longrightarrow> c < length (win_view w)"
    "win_view w \<noteq> [] \<Longrightarrow> sint (itm_senderTimestamp (win_data w ! nat (win_tail w)) -
       itm_senderTimestamp (win_slot w' (win_head w'))) \<le> sint diff"
    using Discard_view[OF wf assms(2)] by blast
  then show ?thesis using win_ids_drop[of w' c w] assms(1) by (auto simp: window_inv_def)
qed

theorem window_discard_drops_stale_prefix_witness:
  "\<exists>w' c. IHS_SessionPacketsWindowDiscardEx demo_window 3 =
      Some (w', c, length (filter (\<lambda>v. v = None) (take c (win_view demo_window)))) \<and> c < 4"
proof -
  have "win_view demo_window \<noteq> []" "length (win_view demo_window) = 4" by (simp_all add: view_demo)
  then show ?thesis
    using window_discard_drops_stale_prefix[OF demo_window_inv, of 3] by auto
qed

text \<open>The acknowledgement bitmap is exact: in a window that holds something, bit \<open>i\<close> is set if
  and only if the packet with ID \<open>startId + i\<close> (in 16-bit arithmetic) lies in the window and has been
  received.\<close>

theorem window_bitmap_exact:
  assumes "window_inv w" "win_view w \<noteq> []" "i < maxPackets" "maxPackets \<le> 8 * length bm"
  shows "bitmap_bit (fst (IHS_SessionPacketsWindowHoleBitmap w startId bm maxPackets)) i \<longleftrightarrow>
    (\<exists>k < length (win_view w). win_view w ! k \<noteq> None \<and>
       unat (IHS_SessionPacketsWindowNextNeededPacketId w + of_nat k - startId) = i)"
  using HoleBitmap_view[OF _ assms(2-4)] assms(1) by (simp add: window_inv_def)

theorem window_bitmap_exact_witness:
  "bitmap_bit (fst (IHS_SessionPacketsWindowHoleBitmap demo_window 5 [0] 8)) 1 \<and>
   \<not> bitmap_bit (fst (IHS_SessionPacketsWindowHoleBitmap demo_window 5 [0] 8)) 2"
proof -
  have ne: "win_view demo_window \<noteq> []" by (simp add: view_demo)
  have base: "IHS_SessionPacketsWindowNextNeededPacketId demo_window = 5"
    unfolding NextNeeded_view view_demo by (simp add: demo_window_def demo_ring_def)
  have "\<exists>k < length (win_view demo_window). win_view demo_window ! k \<noteq> None \<and>
       unat (IHS_SessionPacketsWindowNextNeededPacketId demo_window + of_nat k - 5) = 1"
    by (rule exI[of _ 1]) (simp add: base view_demo)
  moreover have "\<not> (\<exists>k < length (win_view demo_window). win_view demo_window ! k \<noteq> None \<and>
       unat (IHS_SessionPacketsWindowNextNeededPacketId demo_window + of_nat k - 5) = 2)"
  proof (intro notI, elim exE conjE)
    fix k assume k: "k < length (win_view demo_window)" "win_view demo_window ! k \<noteq> None"
      "unat (IHS_SessionPacketsWindowNextNeededPacketId demo_window + of_nat k - 5) = 2"
    then have "k = 0 \<or> k = 1 \<or> k = 2 \<or> k = 3" by (auto simp: view_demo)
    then show False using k by (elim disjE) (simp_all add: base view_demo)
  qed
  ultimately show ?thesis
    using window_bitmap_exact[OF demo_window_inv ne, of 1 8 "[0]" 5]
      window_bitmap_exact[OF demo_window_inv ne, of 2 8 "[0]" 5] by simp
qed

text \<open>The contiguous ID reported to the sender is the last one before the first gap, counted
  from the packet before the next needed one, and a hole is reported exactly when a packet is missing.\<close>

theorem window_contiguous_and_holes:
  assumes "window_inv w"
  shows "IHS_SessionPacketsWindowContiguousId w =
      IHS_SessionPacketsWindowNextNeededPacketId w - 1 +
        of_nat (length (takeWhile (\<lambda>v. v \<noteq> None) (win_view w))) \<and>
    (IHS_SessionPacketsWindowHasHole w \<longleftrightarrow> None \<in> set (win_view w))"
  using ContiguousId_view HasHole_view assms by (simp add: window_inv_def)

theorem window_contiguous_and_holes_witness:
  "IHS_SessionPacketsWindowContiguousId demo_window = 6 \<and> IHS_SessionPacketsWindowHasHole demo_window"
proof -
  have "IHS_SessionPacketsWindowNextNeededPacketId demo_window = 5"
    unfolding NextNeeded_view view_demo by (simp add: demo_window_def demo_ring_def)
  then show ?thesis
    using window_contiguous_and_holes[OF demo_window_inv] by (simp add: view_demo)
qed

text \<open>Defect: when a frame fills the whole ring while the head cursor stands one past the last
  slot, polling it wraps the head to slot 0, so the emptied window reports itself full of packets that
  are all missing.\<close>

theorem window_poll_full_ring_phantom:
  assumes "win_wf w" "poll_ready w frame (win_capacity w)" "live_alloc mem"
    "win_head w = int (win_capacity w)"
  shows "\<exists>w' frame'. IHS_SessionPacketsWindowPoll mem w frame = Some (True, w', frame') \<and>
    IHS_SessionPacketsWindowSize w' = win_capacity w' \<and>
    win_view w' = replicate (win_capacity w') None"
proof -
  let ?c = "win_capacity w"
  obtain ds frame' where run: "IHS_SessionPacketsWindowPoll mem w frame = Some (True,
       w\<lparr>win_data := ds, win_pollError := PollOK,
         win_head := (if win_head w + int ?c > int ?c
                      then (win_head w + int ?c) mod int ?c else win_head w + int ?c)\<rparr>, frame')"
    "length ds = ?c" "\<And>j. j < ?c \<Longrightarrow> ds ! nat ((win_head w + int j) mod int ?c) = zero_item"
    using Poll_delivers[OF assms(1-3)] by metis
  have "length (win_view w) = IHS_SessionPacketsWindowSize w" by (rule length_win_view)
  then have rep: "win_rep w (length (win_view w))" using assms(1) by (simp add: win_wf_def)
  note D = win_repD[OF rep]
  have n: "length (win_view w) = ?c"
    using D(8) frame_countD[OF poll_readyD(1)[OF assms(2)]] by (metis le_antisym)
  then have tail: "0 \<le> win_tail w" "(win_head w + int ?c) mod int ?c = (win_tail w + 1) mod int ?c"
    using rep D(1) by (simp_all add: win_rep_def)
  then have "(win_tail w + 1) mod int ?c = 0" using assms(4) by simp
  then have t: "win_tail w = int ?c - 1" using tail(1) D(5) zmod_trivial_iff
    by (metis add_diff_cancel_right' int_one_le_iff_zero_less le_add_same_cancel2 linorder_not_less
        mod_pos_pos_trivial not_less_iff_gr_or_eq zle_add1_eq_le zless_add1_eq)
  define w' where "w' = w\<lparr>win_data := ds, win_pollError := PollOK, win_head := 0\<rparr>"
  have zero: "win_slot w' (win_head w' + int j) = zero_item" if "j < ?c" for j
    using run(3)[OF that] assms(4) that by (simp add: w'_def win_slot_def)
  have size: "IHS_SessionPacketsWindowSize w' = ?c"
    using t D(1,2) by (simp add: IHS_SessionPacketsWindowSize_def w'_def u16_int_def)
  have "win_view w' = replicate ?c None"
    unfolding win_view_def size using zero by (intro nth_equalityI) simp_all
  moreover have "IHS_SessionPacketsWindowPoll mem w frame = Some (True, w', frame')"
    using run(1) assms(4) D(1) by (simp add: w'_def)
  ultimately show ?thesis using size by (auto simp: w'_def)
qed

definition demo_full :: packets_window where
  "demo_full = demo_ring 2 1 6 [demo_item 5 IHS_SessionPacketTypeUnreliable 1 [1, 2],
      demo_item 6 IHS_SessionPacketTypeUnreliableFrag 0 [3, 4]]"

theorem window_poll_full_ring_phantom_witness:
  "\<exists>w' frame'. IHS_SessionPacketsWindowPoll zero_mem demo_full demo_frame = Some (True, w', frame') \<and>
    IHS_SessionPacketsWindowSize w' = win_capacity w' \<and> win_view w' = replicate (win_capacity w') None"
proof -
  have rep: "win_rep demo_full 2" by (auto simp: win_rep_def demo_full_def demo_simps)
  have view: "win_view demo_full =
    [Some (demo_header 5 IHS_SessionPacketTypeUnreliable 1, IHS_BUFFER_WRAP [1, 2]),
     Some (demo_header 6 IHS_SessionPacketTypeUnreliableFrag 0, IHS_BUFFER_WRAP [3, 4])]"
    unfolding win_view_rep[OF rep] by (simp add: demo_full_def demo_simps upt_rec)
  have count: "frame_count False (win_view demo_full) = Some 2"
    unfolding view by (simp add: frame_count_def demo_header_def orphan_def frag_ok_def upt_rec)
  have cap: "win_capacity demo_full = 2" "win_reliable demo_full = False" "win_head demo_full = 2"
    by (simp_all add: demo_full_def demo_ring_def)
  have "poll_ready demo_full demo_frame (win_capacity demo_full)"
    using count unfolding poll_ready_def view cap
    by (simp add: view_body_def buf_content_def demo_frame_def IHS_BUFFER_WRAP_def buf_wf_def
        IHS_BufferInit_def)
  then show ?thesis
    using window_poll_full_ring_phantom[OF win_rep_wf[OF rep] _ live_alloc_zero_mem] cap by simp
qed

text \<open>Defect: when the only packet of a media window is an orphan fragment in the last slot of the
  ring, polling skips it with the head cursor wrapped to slot 0; the emptied window reports itself full
  and refuses the very next packet.\<close>

theorem window_orphan_skip_phantom:
  assumes "win_rep w 1" "\<not> win_reliable w" "orphan (win_view w ! 0)" "1 < win_capacity w"
    "win_head w = int (win_capacity w) - 1"
    "hdr_packetId (pkt_header packet) = win_tail_id w + 1"
  shows "\<exists>w'. IHS_SessionPacketsWindowPoll mem w frame = Some (False, w', frame) \<and>
    (\<forall>i. \<not> FrameItemIsUsed (win_slot w' i)) \<and> IHS_SessionPacketsWindowSize w' = win_capacity w' \<and>
    IHS_SessionPacketsWindowAddEx alloc w' packet = Some (False, False, w', packet)"
proof -
  let ?c = "win_capacity w"
  define u where "u = w\<lparr>win_pollError := PollOK\<rparr>"
  define w' where "w' = u\<lparr>win_data := (win_data u)[nat (win_head u) := zero_item], win_head := 0\<rparr>"
  have rep: "win_rep u 1" using assms(1) by (simp add: u_def)
  note D = win_repD[OF rep]
  have u: "win_capacity u = ?c" "win_head u = int ?c - 1" "\<not> win_reliable u" "win_tail_id u = win_tail_id w"
    using assms by (simp_all add: u_def)
  have small: "win_head u mod int ?c = win_head u"
    using mod_pos_pos_trivial[of "win_head u" "int ?c"] u(2) assms(4) by linarith
  have hd: "nat (win_head u mod int ?c) = nat (win_head u)" "(win_head u + 1) mod int ?c = 0"
    by (simp only: small) (simp add: u(2))
  have orph: "orphan (slot_view (win_slot u (win_head u)))"
    using assms(3) view_nth[OF assms(1), of 0] by (simp add: u_def)
  have "(win_head u + 1) mod int ?c = (win_tail u + 1) mod int ?c"
    using rep by (simp add: win_rep_def u(1))
  then have "(win_head u + 1 - 1) mod int ?c = (win_tail u + 1 - 1) mod int ?c"
    by (metis mod_diff_left_eq)
  then have tail: "win_tail u = int ?c - 1"
    using rep u small D(5) by (simp add: win_rep_def)
  have skip: "skip_orphans u (Suc 0) = Some (w', 0)"
    using orph win_slot_ok[OF rep, of "win_head u"] hd u
    by (simp add: Let_def orphan_slot w'_def win_slot_def)
  have poll: "IHS_SessionPacketsWindowPoll mem w frame = Some (False, w', frame)"
    unfolding IHS_SessionPacketsWindowPoll_def Let_def u_def[symmetric]
    using skip Size_rep[OF rep] D(6) by simp
  have slots: "\<not> FrameItemIsUsed (win_slot w' i)" for i
  proof -
    have i: "0 \<le> i mod int ?c" "i mod int ?c < int (win_capacity u)" using assms(4) by (simp_all add: u(1))
    obtain k where k: "k < ?c" "(win_head u + int k) mod int ?c = i mod int ?c"
        "win_slot u (win_head u + int k) = win_data u ! nat (i mod int ?c)"
      using slot_of_index[OF rep i] u(1) by metis
    show ?thesis
      using k D(3) D(10)[of k] hd u
      by (cases "k = 0") (auto simp: win_slot_def w'_def nth_list_update split: if_splits)
  qed
  have size: "IHS_SessionPacketsWindowSize w' = ?c"
    using tail u D(1,2) assms(4)
    by (simp add: IHS_SessionPacketsWindowSize_def w'_def u16_int_def)
  have avail: "IHS_SessionPacketsWindowAvailable w' = 0"
    by (simp add: IHS_SessionPacketsWindowAvailable_def size u16_int_def) (simp add: w'_def u(1))
  have "add_offset w' packet = 1"
    using tail assms(4,6) u by (simp add: add_offset_def w'_def)
  then have "IHS_SessionPacketsWindowAddEx alloc w' packet = Some (False, False, w', packet)"
    using u assms(4) avail by (simp add: IHS_SessionPacketsWindowAddEx_def Let_def w'_def)
  then show ?thesis using poll slots size u by (auto simp: w'_def)
qed

definition demo_orphan :: packets_window where
  "demo_orphan = demo_ring 1 1 4 [zero_item, demo_item 4 IHS_SessionPacketTypeUnreliableFrag 0 [3]]"

theorem window_orphan_skip_phantom_witness:
  "\<exists>w'. IHS_SessionPacketsWindowPoll zero_mem demo_orphan demo_frame = Some (False, w', demo_frame) \<and>
    IHS_SessionPacketsWindowAddEx True w' (demo_packet 5 IHS_SessionPacketTypeUnreliable 0 [1]) =
      Some (False, False, w', demo_packet 5 IHS_SessionPacketTypeUnreliable 0 [1])"
proof -
  have one: "(\<forall>k < 2. 1 \<le> k \<longrightarrow> P k) \<longleftrightarrow> P 1" for P :: "nat \<Rightarrow> bool"
    by (metis One_nat_def Suc_1 le_antisym less_Suc_eq_le lessI order_refl)
  have "win_capacity demo_orphan = 2" by (simp add: demo_orphan_def demo_ring_def)
  then have rep: "win_rep demo_orphan 1"
    unfolding win_rep_def by (simp only: one) (simp add: demo_orphan_def demo_simps)
  have "orphan (win_view demo_orphan ! 0)"
    unfolding win_view_rep[OF rep] by (simp add: demo_orphan_def demo_simps orphan_def)
  then show ?thesis
    using window_orphan_skip_phantom[OF rep, of "demo_packet 5 IHS_SessionPacketTypeUnreliable 0 [1]"
        zero_mem demo_frame True]
    by (auto simp: demo_orphan_def demo_ring_def demo_packet_def demo_header_def)
qed

text \<open>Releasing a window empties every slot in use and forgets the sequence origin.\<close>

theorem window_release_all_empties:
  assumes "win_wf w"
  shows "\<exists>w'. IHS_SessionPacketsWindowReleaseAll w = Some w' \<and>
    list_all (\<lambda>i. \<not> FrameItemIsUsed i) (win_data w') \<and> length (win_data w') = length (win_data w) \<and>
    IHS_SessionPacketsWindowSize w' = 0 \<and> add_offset w' packet = 1"
  using recycle_used_all[of "win_data w"] assms
  by (auto simp: IHS_SessionPacketsWindowReleaseAll_def win_wf_def win_rep_def list_all_iff
      IHS_SessionPacketsWindowSize_def add_offset_def)

theorem window_release_all_empties_witness:
  "\<exists>w'. IHS_SessionPacketsWindowReleaseAll demo_window = Some w' \<and> IHS_SessionPacketsWindowSize w' = 0"
  using window_release_all_empties[of demo_window] demo_window_inv by (auto simp: window_inv_def)

text \<open>Defect: releasing a window does not clear the propagated timestamp of a slot whose packet is
  missing, so the slot enters the next generation with a stale age.\<close>

theorem window_release_all_stale_stamp:
  "\<exists>w'. IHS_SessionPacketsWindowReleaseAll demo_window = Some w' \<and>
    itm_senderTimestamp (win_data w' ! 0) \<noteq> 0"
  using recycle_used_all[of "win_data demo_window"] demo_window_inv
  by (auto simp: IHS_SessionPacketsWindowReleaseAll_def window_inv_def win_wf_def win_rep_def
      demo_window_def demo_ring_def)

end
