(* ===== verification/Wire_Props.thy ===== *)
theory Wire_Props
  imports Packet
begin

text \<open>
  Properties of the byte layer: wire integers, checksums, the growable buffer, and parsing and
  serializing packets.
\<close>

section \<open>Checksums and wire integers\<close>

text \<open>C40: Both table-driven checksums compute the bit-wise cyclic redundancy code of their
  polynomial, for every input.\<close>

theorem crc_tables_implement_polynomial:
  "IHS_CRC32C bs = crc_bitwise 0x82F63B78 0xFFFFFFFF bs XOR 0xFFFFFFFF \<and>
   IHS_CRC32 bs = crc_bitwise 0xEDB88320 0xFFFFFFFF bs XOR 0xFFFFFFFF"
  by (simp add: IHS_CRC32C_def IHS_CRC32_def crc32c_table.crc_loop_bitwise crc32_table.crc_loop_bitwise)

text \<open>Little-endian integers of every width survive a round trip, whatever follows them, and
  reading never leaves the bytes that are there: it fails exactly when too few are left.\<close>

theorem little_endian_round_trip:
  "IHS_ReadUInt16LE (IHS_WriteUInt16LE a @ rest) = Some a \<and>
   IHS_ReadSInt16LE (IHS_WriteSInt16LE b @ rest) = Some b \<and>
   IHS_ReadUInt32LE (IHS_WriteUInt32LE c @ rest) = Some c \<and>
   IHS_ReadUInt64LE (IHS_WriteUInt64LE d @ rest) = Some d \<and>
   (IHS_ReadUInt16LE src = None \<longleftrightarrow> length src < 2) \<and>
   (IHS_ReadUInt32LE src = None \<longleftrightarrow> length src < 4) \<and>
   (IHS_ReadUInt64LE src = None \<longleftrightarrow> length src < 8)"
  using u16_wire.dec_enough[of src] u32_wire.dec_enough[of src] u64_wire.dec_enough[of src]
    u16_wire.dec_short[of src] u32_wire.dec_short[of src] u64_wire.dec_short[of src]
  by (auto simp: u16_wire.dec_enc s16_wire.dec_enc u32_wire.dec_enc u64_wire.dec_enc not_less)

section \<open>Buffers\<close>

definition demo_buffer :: ihs_buffer where
  "demo_buffer = \<lparr>buf_data = Some [9, 1, 2, 3, 0, 0, 0, 0], buf_capacity = 8, buf_offset = 1, buf_size = 3,
     buf_suffix = 1, buf_initialCapacity = 8, buf_maxCapacity = 64\<rparr>"

lemma demo_buffer_wf: "buf_wf demo_buffer"
  by (simp add: demo_buffer_def buf_wf_def)

text \<open>Writing at a position inside the payload is safe, grows the buffer when needed, replaces
  exactly the addressed bytes, keeps the reserved prefix, and keeps the buffer well formed.\<close>

theorem buffer_write_correct:
  assumes "buf_wf b" "live_alloc mem" "p \<le> buf_size b"
    "can_hold b (buf_offset b + (p + length src) + buf_suffix b)"
    "src \<noteq> [] \<or> buf_offset b + p + buf_suffix b < buf_capacity b"
  shows "\<exists>b'. IHS_BufferWriteMem mem b p src = Some b' \<and> buf_wf b' \<and>
    buf_content b' = take p (buf_content b) @ src @ drop (p + length src) (buf_content b) \<and>
    buf_prefix b' = buf_prefix b \<and> buf_suffix b' = buf_suffix b \<and>
    buf_maxCapacity b' = buf_maxCapacity b"
proof -
  obtain b' where "IHS_BufferWriteMem mem b p src = Some b'" "buf_wf b'" "buf_frame b b'"
    "buf_content b' = take p (buf_content b) @ src @ drop (p + length src) (buf_content b)"
    "buf_prefix b' = buf_prefix b"
    using WriteMem_spec[OF assms(1,2,4,3,5)] by metis
  then show ?thesis by (auto simp: buf_frame_def)
qed

theorem buffer_write_correct_witness:
  "\<exists>b'. IHS_BufferWriteMem zero_mem demo_buffer 2 [7, 7, 7, 7, 7, 7, 7, 7] = Some b' \<and>
    buf_content b' = [1, 2, 7, 7, 7, 7, 7, 7, 7, 7]"
  using buffer_write_correct[OF demo_buffer_wf live_alloc_zero_mem, of 2 "[7, 7, 7, 7, 7, 7, 7, 7]"]
  by (auto simp: demo_buffer_def can_hold_def grow_base_def buf_content_def)

text \<open>Appending adds exactly the given bytes at the end of the payload and changes nothing else,
  growing the buffer when needed.\<close>

theorem buffer_append_correct:
  assumes "buf_wf b" "live_alloc mem" "d \<noteq> []"
    "can_hold b (buf_offset b + (buf_size b + length d) + buf_suffix b)"
  shows "\<exists>b'. IHS_BufferAppendMem mem b d = Some b' \<and> buf_wf b' \<and>
    buf_content b' = buf_content b @ d \<and> buf_prefix b' = buf_prefix b \<and> buf_suffix b' = buf_suffix b"
proof -
  obtain b' where "IHS_BufferAppendMem mem b d = Some b'" "buf_wf b'" "buf_frame b b'"
    "buf_content b' = buf_content b @ d" "buf_prefix b' = buf_prefix b"
    using AppendMem_spec[OF assms(1,2,4)] assms(3) by metis
  then show ?thesis by (auto simp: buf_frame_def)
qed

theorem buffer_append_correct_witness:
  "\<exists>b'. IHS_BufferAppendMem zero_mem demo_buffer [4, 5, 6, 7] = Some b' \<and>
    buf_content b' = [1, 2, 3, 4, 5, 6, 7]"
  using buffer_append_correct[OF demo_buffer_wf live_alloc_zero_mem, of "[4, 5, 6, 7]"]
  by (auto simp: demo_buffer_def can_hold_def grow_base_def buf_content_def)

text \<open>The doubling loop that picks a new capacity ends with enough room for every request up to
  half the address space, and with at most twice the request.\<close>

theorem buffer_growth_terminates:
  assumes "0 < newCapacity" "wanted \<le> 2 ^ 63"
  shows "\<exists>r. double_until newCapacity wanted = Some r \<and> wanted \<le> r \<and> newCapacity \<le> r \<and>
    (r = newCapacity \<or> r < 2 * wanted)"
  using double_until_enough[OF assms] .

theorem buffer_growth_terminates_witness:
  "\<exists>r. double_until 2048 5000 = Some r \<and> 5000 \<le> r \<and> r < 10000"
  using buffer_growth_terminates[of 2048 5000] by auto

text \<open>A capacity that has wrapped to zero never grows again.\<close>

lemma double_until_zero: "0 < w \<Longrightarrow> double_until 0 w = None"
proof -
  have "\<not> (c = 0 \<and> 0 < w)" if "double_until c w = Some r" for c r
    using that
  proof (rule double_until.raw_induct[of "\<lambda>c w r. \<not> (c = 0 \<and> 0 < w)", rotated])
    fix f c w r
    assume IH: "\<And>c w r. f c w = Some r \<Longrightarrow> \<not> (c = 0 \<and> 0 < w)"
      and eq: "(if c < w then f (sz_mul c 2) w else Some c) = Some r"
    show "\<not> (c = 0 \<and> 0 < w)"
    proof
      assume "c = 0 \<and> 0 < w"
      then show False using IH[of 0 w r] eq by (simp add: sz_mul_def)
    qed
  qed
  then show "0 < w \<Longrightarrow> double_until 0 w = None" by (cases "double_until 0 w") auto
qed

text \<open>Defect: a request above half the address space makes the doubling loop wrap to zero and run
  forever, from every capacity that is a power of two.\<close>

theorem buffer_growth_diverges:
  assumes "k < 64" "2 ^ 63 < wanted"
  shows "double_until (2 ^ k) wanted = None"
  using assms(1)
proof (induction "63 - k" arbitrary: k)
  case 0
  then have "k = 63" by simp
  moreover have "sz_mul (2 ^ 63) 2 = 0" by (simp add: sz_mul_def)
  ultimately show ?case
    using assms(2) double_until_zero[of wanted] by (subst double_until.simps) simp
next
  case (Suc n)
  then have k: "Suc k < 64" "n = 63 - Suc k" by simp_all
  have "(2::nat) ^ Suc k \<le> 2 ^ 63" using k by (intro power_increasing) simp_all
  then have "sz_mul (2 ^ k) 2 = 2 ^ Suc k" "(2::nat) ^ k < wanted"
    using assms(2) by (simp_all add: sz_mul_def)
  then show ?case using Suc(1)[OF k(2,1)] by (subst double_until.simps) simp
qed

theorem buffer_growth_diverges_witness: "double_until 2048 (2 ^ 63 + 1) = None"
  using buffer_growth_diverges[of 11 "2 ^ 63 + 1"] by simp

text \<open>Defect: appending an empty block to a buffer whose room is used up fails an assertion, as
  happens to an empty fragment of a frame that exactly fills its buffer.\<close>

theorem buffer_append_empty_aborts:
  assumes "buf_wf b" "0 < buf_capacity b" "buf_offset b + buf_size b + buf_suffix b = buf_capacity b"
  shows "IHS_BufferAppendMem mem b [] = None"
  using AppendMem_empty_full[OF assms] .

theorem buffer_append_empty_aborts_witness:
  "IHS_BufferAppendMem zero_mem (demo_buffer\<lparr>buf_size := 6\<rparr>) [] = None"
  using buffer_append_empty_aborts[of "demo_buffer\<lparr>buf_size := 6\<rparr>"]
  by (simp add: demo_buffer_def buf_wf_def)

section \<open>Packets\<close>

lemma fst_parse_view: "fst (parse_view r) = fst r"
  by (simp add: parse_view_def split: prod.splits)

text \<open>C2: Parsing a datagram is total on well-formed buffers (no access outside the block, no
  assertion failure) and agrees with the reference parser on the bytes: it refuses exactly the
  truncated datagrams and those whose checksum does not match.\<close>

theorem packet_parse_refines:
  assumes "buf_wf src"
  shows "\<exists>r. IHS_SessionPacketParse src = Some r \<and> parse_view r = parse_datagram (buf_content src)"
  using PacketParse_refines[OF assms] .

theorem packet_parse_refines_witness:
  "\<exists>r. IHS_SessionPacketParse demo_buffer = Some r \<and> fst r = ResultBadHeader"
proof -
  have "parse_datagram (buf_content demo_buffer) = (ResultBadHeader, zero_header, 0, [])"
    by (simp add: parse_datagram_def demo_buffer_def buf_content_def)
  then show ?thesis
    using packet_parse_refines[OF demo_buffer_wf] by (auto simp: parse_view_def)
qed

text \<open>C1: Round trip: a packet that has been serialized is parsed back, from any buffer that holds its
  bytes, as the same header (as far as it travels on the wire) with the same payload.\<close>

theorem packet_round_trip:
  assumes "sendable packet"
  shows "\<exists>packet'. IHS_SessionPacketPopulateBuffer mem packet = Some packet' \<and>
    buf_content (pkt_body packet') = buf_content (pkt_body packet) \<and>
    (\<forall>src. buf_wf src \<and> buf_content src = wire_bytes packet' \<longrightarrow>
      (\<exists>r. IHS_SessionPacketParse src = Some r \<and> fst r = ResultOK \<and>
        pkt_header (fst (snd r)) = wire_view (pkt_header packet) \<and>
        buf_content (pkt_body (fst (snd r))) = buf_content (pkt_body packet)))"
proof -
  obtain packet' where p: "IHS_SessionPacketPopulateBuffer mem packet = Some packet'"
    "buf_content (pkt_body packet') = buf_content (pkt_body packet)"
    "wire_bytes packet' = frame_bytes (pkt_header packet) (buf_content (pkt_body packet))"
    using PopulateBuffer_wire[OF assms] by metis
  have "\<exists>r. IHS_SessionPacketParse src = Some r \<and> fst r = ResultOK \<and>
        pkt_header (fst (snd r)) = wire_view (pkt_header packet) \<and>
        buf_content (pkt_body (fst (snd r))) = buf_content (pkt_body packet)"
    if "buf_wf src" "buf_content src = wire_bytes packet'" for src
    using PacketParse_refines[OF that(1)] that(2) p(3)
    by (auto simp: parse_frame_bytes parse_view_def split: prod.splits)
  then show ?thesis using p by blast
qed

definition demo_send :: session_packet where
  "demo_send = \<lparr>pkt_header = zero_header\<lparr>hdr_hasCrc := True, hdr_type := 5, hdr_packetId := 77\<rparr>,
     pkt_body = \<lparr>buf_data = Some (replicate 13 0 @ [1, 2, 3] @ replicate 16 0), buf_capacity = 32,
       buf_offset = 13, buf_size = 3, buf_suffix = 4, buf_initialCapacity = 32, buf_maxCapacity = 2048\<rparr>,
     pkt_crc = 0\<rparr>"

theorem packet_round_trip_witness:
  "\<exists>packet'. IHS_SessionPacketPopulateBuffer zero_mem demo_send = Some packet' \<and>
    buf_content (pkt_body packet') = [1, 2, 3]"
proof -
  have "sendable demo_send" by (simp add: sendable_def demo_send_def buf_wf_def)
  moreover have "buf_content (pkt_body demo_send) = [1, 2, 3]"
    by (simp add: demo_send_def buf_content_def)
  ultimately show ?thesis using packet_round_trip[of demo_send zero_mem] by auto
qed

text \<open>The checksum detects every burst of up to four damaged bytes behind the flag byte: if the
  undamaged datagram with a checksum is accepted, the damaged one is refused as a bad checksum.\<close>

theorem packet_burst_rejected:
  assumes "buf_wf src" "buf_wf dmg" "buf_content src = pre @ as @ post" "buf_content dmg = pre @ bs @ post"
    "length as \<le> 4" "length as = length bs" "as \<noteq> bs" "1 \<le> length pre" "4 \<le> length post"
    "map_option fst (IHS_SessionPacketParse src) = Some ResultOK" "hdr_hasCrc (header_of (pre @ as @ post))"
  shows "map_option fst (IHS_SessionPacketParse dmg) = Some ResultBadChecksum"
proof -
  have "fst (parse_datagram (pre @ as @ post)) = ResultOK"
    using PacketParse_refines[OF assms(1)] assms(3,10) fst_parse_view by (metis option.map(2) option.inject)
  then have "fst (parse_datagram (pre @ bs @ post)) = ResultBadChecksum"
    using corrupt_payload_rejected assms by metis
  then show ?thesis
    using PacketParse_refines[OF assms(2)] assms(4) fst_parse_view by (metis option.map(2))
qed

text \<open>The datagram of \<open>demo_send\<close> and a damaged copy.\<close>

definition demo_head :: bytes where
  "demo_head = header_bytes (pkt_header demo_send)"

definition demo_tail :: bytes where
  "demo_tail = [3] @ IHS_WriteUInt32LE (IHS_CRC32C (demo_head @ [1, 2, 3]))"

lemma demo_datagram: "demo_head @ [1, 2] @ demo_tail = frame_bytes (pkt_header demo_send) [1, 2, 3]"
  by (simp add: demo_head_def demo_tail_def frame_bytes_def Let_def demo_send_def)

theorem packet_burst_rejected_witness:
  "map_option fst (IHS_SessionPacketParse (IHS_BUFFER_WRAP (demo_head @ [1, 9] @ demo_tail))) =
     Some ResultBadChecksum"
proof -
  have len: "length demo_head = 13" "length demo_tail = 5"
    by (simp_all add: demo_head_def demo_tail_def u32_wire.length_enc)
  have wf: "buf_wf (IHS_BUFFER_WRAP (demo_head @ x @ demo_tail))" if "length x = 2" for x
    using that len by (intro buf_wf_WRAP) simp
  have content: "buf_content (IHS_BUFFER_WRAP d) = d" for d
    by (simp add: buf_content_def IHS_BUFFER_WRAP_def)
  have flag: "hdr_hasCrc (header_of (demo_head @ [1, 2] @ demo_tail))"
    unfolding demo_head_def header_of_bytes by (simp add: wire_view_def demo_send_def)
  have "fst (parse_datagram (demo_head @ [1, 2] @ demo_tail)) = ResultOK"
    unfolding demo_datagram by (simp add: parse_frame_bytes)
  then have "map_option fst (IHS_SessionPacketParse (IHS_BUFFER_WRAP (demo_head @ [1, 2] @ demo_tail))) =
      Some ResultOK"
    using PacketParse_refines[OF wf[of "[1, 2]"]] content fst_parse_view by (metis length_Cons list.size(3)
        numeral_2_eq_2 option.map(2))
  then show ?thesis
    using packet_burst_rejected[OF wf[of "[1, 2]"] wf[of "[1, 9]"] content content] flag len by simp
qed

end
