(* ===== verification/Retransmission.thy ===== *)
theory Retransmission
  imports Packet
begin

text \<open>
  The retransmission store (\<^verbatim>\<open>src/session/retransmission.c\<close>): every reliable packet that has been
  prepared is kept in a linked list, newest first, until the peer confirms it.

  A node is a record with its address \<open>pnd_ref\<close> and the reference count of the source.  Nodes
  still linked are in \<open>rt_pending\<close> in list order; a node that was unlinked while an attempt to
  send it holds a reference is in \<open>rt_detached\<close> until the last reference is dropped, and a node
  in neither list is freed memory.

  The store's mutex makes every operation below one atomic step.  The exception is the sending
  loop, which releases the mutex around the socket call: the callback \<open>send\<close> is therefore given
  the store and returns it as other threads have left it.  It also returns the packet, which the
  socket layer stamps, and the clock's current retry delay is read from its context.
\<close>

section \<open>State\<close>

record pending =
  pnd_ref :: nat
  pnd_packet :: session_packet
  pnd_firstTrackedMs :: u64
  pnd_lastSendMs :: u64
  pnd_lastSendTimestamp :: u32
  pnd_nextRetryMs :: u64
  pnd_retryCount :: u32
  pnd_initialSent :: bool
  pnd_ready :: bool
  pnd_nackPending :: bool
  pnd_tracked :: bool
  pnd_references :: nat
  pnd_nextWireCount :: u8
  pnd_feedbackGeneration :: u64

record rt_stats =
  st_tracked :: u64
  st_acknowledged :: u64
  st_superseded :: u64
  st_giveUps :: u64
  st_nacks :: u64
  st_retries :: u64
  st_sendFailures :: u64
  st_outstanding :: u32
  st_oldestOutstandingMs :: u64
  st_oldestChannelId :: u32
  st_oldestPacketId :: u32
  st_oldestFragmentId :: u32
  st_oldestRetryCount :: u32
  st_maxAckLatencyMs :: u64
  st_hidAcknowledged :: u64
  st_hidPending :: u32
  st_hidInFlight :: u32
  st_hidOldestInFlightPacketId :: u32

record retransmission =
  rt_pending :: "pending list"
  rt_detached :: "pending list"
  rt_fresh :: nat
  rt_st :: rt_stats

definition zero_stats :: rt_stats where
  "zero_stats = \<lparr>st_tracked = 0, st_acknowledged = 0, st_superseded = 0,
     st_giveUps = 0, st_nacks = 0, st_retries = 0, st_sendFailures = 0,
     st_outstanding = 0, st_oldestOutstandingMs = 0, st_oldestChannelId = 0, st_oldestPacketId = 0,
     st_oldestFragmentId = 0, st_oldestRetryCount = 0, st_maxAckLatencyMs = 0, st_hidAcknowledged = 0,
     st_hidPending = 0, st_hidInFlight = 0, st_hidOldestInFlightPacketId = 0\<rparr>"

definition IHS_RetransmissionInit :: retransmission where
  "IHS_RetransmissionInit = \<lparr>rt_pending = [], rt_detached = [], rt_fresh = 0, rt_st = zero_stats\<rparr>"

section \<open>Helpers\<close>

abbreviation (input) INT16_MIN :: u16 where "INT16_MIN \<equiv> 0x8000"

definition PacketIdentityMatches :: "packet_header \<Rightarrow> u32 \<Rightarrow> u16 \<Rightarrow> u16 \<Rightarrow> bool" where
  "PacketIdentityMatches header channelId packetId fragmentId \<longleftrightarrow>
     hdr_channelId header = channelId \<and> hdr_packetId header = packetId \<and>
     (fragmentId = INT16_MIN \<or> hdr_fragmentId header = fragmentId)"

definition PacketClone :: "allocator \<Rightarrow> session_packet \<Rightarrow> session_packet option" where
  "PacketClone mem source = do {
     body \<leftarrow> IHS_SessionPacketBodyInitialize mem (hdr_hasCrc (pkt_header source));
     p \<leftarrow> IHS_BufferPointer (pkt_body source);
     d \<leftarrow> buf_load (pkt_body source) p (buf_size (pkt_body source));
     body \<leftarrow> IHS_BufferAppendMem mem body d;
     Some \<lparr>pkt_header = pkt_header source, pkt_body = body, pkt_crc = pkt_crc source\<rparr>
   }"

text \<open>Dropping one reference: \<^term>\<open>None\<close> when it was the last one and the node is freed.\<close>

definition PendingDestroy :: "pending \<Rightarrow> pending option" where
  "PendingDestroy p =
     (if pnd_references p \<noteq> 1 then Some (p\<lparr>pnd_references := pnd_references p - 1\<rparr>) else None)"

text \<open>Unlinking a node hands it to the attempts that still refer to it.\<close>

definition detach :: "pending \<Rightarrow> pending list" where
  "detach p = (case PendingDestroy (p\<lparr>pnd_tracked := False\<rparr>) of None \<Rightarrow> [] | Some p \<Rightarrow> [p])"

text \<open>\<open>ticks\<close> is the clock's retry estimate, \<^term>\<open>None\<close> for a store without a session.\<close>

definition RetryDelayMs :: "u32 option \<Rightarrow> u64" where
  "RetryDelayMs ticks =
     (case ticks of None \<Rightarrow> 25 | Some ticks \<Rightarrow> (ucast ticks * 1000 + 65535) div 65536)"

section \<open>Registration\<close>

text \<open>\<open>alloc\<close> says whether the node can be allocated.\<close>

definition IHS_RetransmissionTrack ::
    "allocator \<Rightarrow> bool \<Rightarrow> retransmission \<Rightarrow> session_packet \<Rightarrow> u64 \<Rightarrow> (bool \<times> retransmission) option" where
  "IHS_RetransmissionTrack mem alloc r packet nowMs = do {
     assert_that (buf_data (pkt_body packet) \<noteq> None);
     assert_that (buf_offset (pkt_body packet) = IHS_PACKET_HEADER_SIZE);
     if \<not> alloc then Some (False, r)
     else do {
       clone \<leftarrow> PacketClone mem packet;
       let h = pkt_header packet;
       if list_ex (\<lambda>item. PacketIdentityMatches (pkt_header (pnd_packet item)) (hdr_channelId h)
                     (hdr_packetId h) (hdr_fragmentId h)) (rt_pending r)
       then Some (False, r)
       else
         let pending = \<lparr>pnd_ref = rt_fresh r, pnd_packet = clone, pnd_firstTrackedMs = nowMs,
               pnd_lastSendMs = 0, pnd_lastSendTimestamp = 0, pnd_nextRetryMs = - 1,
               pnd_retryCount = 0, pnd_initialSent = False, pnd_ready = False,
               pnd_nackPending = False, pnd_tracked = True, pnd_references = 1,
               pnd_nextWireCount = hdr_retransmitCount h, pnd_feedbackGeneration = 0\<rparr>;
             st = rt_st r in
         Some (True, r\<lparr>rt_pending := pending # rt_pending r, rt_fresh := Suc (rt_fresh r),
           rt_st := st\<lparr>st_tracked := st_tracked st + 1, st_outstanding := st_outstanding st + 1\<rparr>\<rparr>)
     }
   }"

definition IHS_RetransmissionActivate :: "retransmission \<Rightarrow> u8 \<Rightarrow> u16 \<Rightarrow> u16 \<Rightarrow> retransmission" where
  "IHS_RetransmissionActivate r channel firstId count =
     r\<lparr>rt_pending := map (\<lambda>p.
         let h = pkt_header (pnd_packet p) in
         if hdr_channelId h = ucast channel \<and> hdr_packetId h - firstId < count
         then p\<lparr>pnd_ready := True\<rparr> else p) (rt_pending r)\<rparr>"

text \<open>Unlinking the first node that satisfies \<open>P\<close>.\<close>

fun unlink_first :: "(pending \<Rightarrow> bool) \<Rightarrow> pending list \<Rightarrow> (pending \<times> pending list) option" where
  "unlink_first P [] = None"
| "unlink_first P (p # ps) =
     (if P p then Some (p, ps) else map_option (\<lambda>(q, qs). (q, p # qs)) (unlink_first P ps))"

definition IHS_RetransmissionCancelUnsent :: "retransmission \<Rightarrow> packet_header \<Rightarrow> retransmission" where
  "IHS_RetransmissionCancelUnsent r header =
     (case unlink_first (\<lambda>p. \<not> pnd_ready p \<and> \<not> pnd_initialSent p \<and>
             PacketIdentityMatches (pkt_header (pnd_packet p)) (hdr_channelId header)
               (hdr_packetId header) (hdr_fragmentId header)) (rt_pending r) of
        None \<Rightarrow> r
      | Some (p, rest) \<Rightarrow>
          let st = rt_st r in
          r\<lparr>rt_pending := rest, rt_detached := detach p @ rt_detached r,
            rt_st := st\<lparr>st_tracked := st_tracked st - 1, st_outstanding := st_outstanding st - 1\<rparr>\<rparr>)"

section \<open>Feedback\<close>

text \<open>The statistics of one confirmed packet.\<close>

definition note_ack :: "u64 \<Rightarrow> pending \<Rightarrow> rt_stats \<Rightarrow> rt_stats" where
  "note_ack nowMs p st =
     (let latency = (if nowMs \<ge> pnd_firstTrackedMs p then nowMs - pnd_firstTrackedMs p else 0) in
      st\<lparr>st_acknowledged := st_acknowledged st + 1,
         st_hidAcknowledged := (if hdr_hidReport (pkt_header (pnd_packet p))
                                then st_hidAcknowledged st + 1 else st_hidAcknowledged st),
         st_outstanding := st_outstanding st - 1,
         st_maxAckLatencyMs := (if latency > st_maxAckLatencyMs st then latency
                                else st_maxAckLatencyMs st)\<rparr>)"

definition IHS_RetransmissionAcknowledge ::
    "retransmission \<Rightarrow> u32 \<Rightarrow> u16 \<Rightarrow> u16 \<Rightarrow> u64 \<Rightarrow> bool \<times> retransmission" where
  "IHS_RetransmissionAcknowledge r channelId packetId fragmentId nowMs =
     (case unlink_first (\<lambda>p. PacketIdentityMatches (pkt_header (pnd_packet p)) channelId packetId
             fragmentId) (rt_pending r) of
        None \<Rightarrow> (False, r)
      | Some (p, rest) \<Rightarrow>
          if \<not> pnd_ready p then (False, r)
          else (True, r\<lparr>rt_pending := rest, rt_detached := detach p @ rt_detached r,
                        rt_st := note_ack nowMs p (rt_st r)\<rparr>))"

definition IHS_RetransmissionSupersede :: "retransmission \<Rightarrow> u32 \<Rightarrow> u16 \<Rightarrow> u16 \<Rightarrow> bool" where
  "IHS_RetransmissionSupersede r channelId packetId fragmentId =
     list_ex (\<lambda>p. PacketIdentityMatches (pkt_header (pnd_packet p)) channelId packetId fragmentId)
       (rt_pending r)"

definition IHS_RetransmissionIsTracked :: "retransmission \<Rightarrow> u32 \<Rightarrow> u16 \<Rightarrow> u16 \<Rightarrow> bool" where
  "IHS_RetransmissionIsTracked r channelId packetId fragmentId =
     list_ex (\<lambda>p. PacketIdentityMatches (pkt_header (pnd_packet p)) channelId packetId fragmentId)
       (rt_pending r)"

text \<open>Updating the first node that satisfies \<open>P\<close>; the flag says whether there is one.\<close>

fun update_first ::
    "(pending \<Rightarrow> bool) \<Rightarrow> (pending \<Rightarrow> pending) \<Rightarrow> pending list \<Rightarrow> bool \<times> pending list" where
  "update_first P f [] = (False, [])"
| "update_first P f (p # ps) =
     (if P p then (True, f p # ps)
      else (case update_first P f ps of (found, qs) \<Rightarrow> (found, p # qs)))"

definition nudge :: "u64 \<Rightarrow> pending \<Rightarrow> pending" where
  "nudge nowMs p =
     (if pnd_initialSent p then p\<lparr>pnd_nextRetryMs := nowMs, pnd_nackPending := True,
                                pnd_feedbackGeneration := pnd_feedbackGeneration p + 1\<rparr>
      else p\<lparr>pnd_nackPending := True, pnd_feedbackGeneration := pnd_feedbackGeneration p + 1\<rparr>)"

definition IHS_RetransmissionNack ::
    "retransmission \<Rightarrow> u32 \<Rightarrow> u16 \<Rightarrow> u16 \<Rightarrow> u64 \<Rightarrow> bool \<times> retransmission" where
  "IHS_RetransmissionNack r channelId packetId fragmentId nowMs =
     (case update_first (\<lambda>p. PacketIdentityMatches (pkt_header (pnd_packet p)) channelId packetId
             fragmentId) (nudge nowMs) (rt_pending r) of
        (found, ps) \<Rightarrow>
          (found, r\<lparr>rt_pending := ps,
                    rt_st := (if found then (rt_st r)\<lparr>st_nacks := st_nacks (rt_st r) + 1\<rparr>
                              else rt_st r)\<rparr>))"

definition note_sent :: "packet_header \<Rightarrow> bool \<Rightarrow> u64 \<Rightarrow> u64 \<Rightarrow> pending \<Rightarrow> pending" where
  "note_sent header sent nowMs delayMs p =
     (let count = hdr_retransmitCount header in
      p\<lparr>pnd_initialSent := True, pnd_ready := True, pnd_lastSendMs := nowMs,
        pnd_lastSendTimestamp := hdr_sendTimestamp header,
        pnd_packet := (pnd_packet p)\<lparr>pkt_header := (pkt_header (pnd_packet p))
          \<lparr>hdr_sendTimestamp := hdr_sendTimestamp header\<rparr>\<rparr>,
        pnd_nextWireCount := (if sent \<and> count < 255 then count + 1 else count),
        pnd_nextRetryMs := (if \<not> sent \<or> pnd_nackPending p then nowMs else nowMs + delayMs)\<rparr>)"

definition IHS_RetransmissionNoteInitialSend ::
    "u32 option \<Rightarrow> retransmission \<Rightarrow> packet_header \<Rightarrow> bool \<Rightarrow> u64 \<Rightarrow> retransmission" where
  "IHS_RetransmissionNoteInitialSend ticks r header sent nowMs =
     (case update_first (\<lambda>p. PacketIdentityMatches (pkt_header (pnd_packet p)) (hdr_channelId header)
             (hdr_packetId header) (hdr_fragmentId header))
             (note_sent header sent nowMs (RetryDelayMs ticks)) (rt_pending r) of
        (found, ps) \<Rightarrow>
          r\<lparr>rt_pending := ps,
            rt_st := (if found \<and> \<not> sent
                      then (rt_st r)\<lparr>st_sendFailures := st_sendFailures (rt_st r) + 1\<rparr>
                      else rt_st r)\<rparr>)"

text \<open>Serial-number order of 16-bit IDs: \<open>id\<close> lies strictly before \<open>bound\<close>.\<close>

definition id_below :: "u16 \<Rightarrow> u16 \<Rightarrow> bool" where
  "id_below bound i \<longleftrightarrow> \<not> (bound - i = 0 \<or> bound - i \<ge> 0x8000)"

text \<open>The loop of \<^verbatim>\<open>AcknowledgeThrough\<close>: the nodes kept, the nodes unlinked, and the statistics.\<close>

fun ack_through ::
    "u32 \<Rightarrow> u16 \<Rightarrow> u64 \<Rightarrow> pending list \<Rightarrow> rt_stats \<Rightarrow> pending list \<times> pending list \<times> rt_stats" where
  "ack_through channelId packetId nowMs [] st = ([], [], st)"
| "ack_through channelId packetId nowMs (p # ps) st =
     (let h = pkt_header (pnd_packet p) in
      if hdr_channelId h \<noteq> channelId \<or> \<not> pnd_ready p \<or> \<not> id_below packetId (hdr_packetId h)
      then (case ack_through channelId packetId nowMs ps st of (kept, gone, st) \<Rightarrow> (p # kept, gone, st))
      else (case ack_through channelId packetId nowMs ps (note_ack nowMs p st) of
              (kept, gone, st) \<Rightarrow> (kept, p # gone, st)))"

definition IHS_RetransmissionAcknowledgeThrough ::
    "retransmission \<Rightarrow> u32 \<Rightarrow> u16 \<Rightarrow> u64 \<Rightarrow> nat \<times> retransmission" where
  "IHS_RetransmissionAcknowledgeThrough r channelId packetId nowMs =
     (case ack_through channelId packetId nowMs (rt_pending r) (rt_st r) of
        (kept, gone, st) \<Rightarrow>
          (length gone, r\<lparr>rt_pending := kept, rt_detached := concat (map detach (rev gone)) @ rt_detached r,
                          rt_st := st\<rparr>))"

text \<open>Applying \<open>f\<close> to every node that satisfies \<open>P\<close>, counting them.\<close>

definition nudge_all ::
    "(pending \<Rightarrow> bool) \<Rightarrow> (pending \<Rightarrow> pending) \<Rightarrow> retransmission \<Rightarrow> nat \<times> retransmission" where
  "nudge_all P f r =
     (let n = length (filter P (rt_pending r)) in
      (n, r\<lparr>rt_pending := map (\<lambda>p. if P p then f p else p) (rt_pending r),
            rt_st := (rt_st r)\<lparr>st_nacks := st_nacks (rt_st r) + of_nat n\<rparr>\<rparr>))"

definition IHS_RetransmissionNackAllThrough ::
    "retransmission \<Rightarrow> u32 \<Rightarrow> u16 \<Rightarrow> u64 \<Rightarrow> nat \<times> retransmission" where
  "IHS_RetransmissionNackAllThrough r channelId packetId nowMs =
     nudge_all (\<lambda>p. hdr_channelId (pkt_header (pnd_packet p)) = channelId \<and>
                    id_below packetId (hdr_packetId (pkt_header (pnd_packet p)))) (nudge nowMs) r"

definition IHS_RetransmissionNackBefore ::
    "retransmission \<Rightarrow> u32 \<Rightarrow> u16 \<Rightarrow> bool \<Rightarrow> u32 \<Rightarrow> u64 \<Rightarrow> nat \<times> retransmission" where
  "IHS_RetransmissionNackBefore r channel i below cutoff nowMs =
     nudge_all (\<lambda>p.
         hdr_channelId (pkt_header (pnd_packet p)) = channel \<and>
         (if below then id_below i (hdr_packetId (pkt_header (pnd_packet p)))
          else i - hdr_packetId (pkt_header (pnd_packet p)) = 0) \<and>
         pnd_initialSent p \<and> \<not> sint (pnd_lastSendTimestamp p - cutoff) > 0)
       (\<lambda>p. p\<lparr>pnd_nextRetryMs := nowMs, pnd_nackPending := True,
              pnd_feedbackGeneration := pnd_feedbackGeneration p + 1\<rparr>) r"

section \<open>Sending\<close>

definition PendingDue :: "pending \<Rightarrow> u64 \<Rightarrow> bool \<Rightarrow> u32 \<Rightarrow> u32 \<Rightarrow> int \<Rightarrow> bool" where
  "PendingDue p nowMs ticks nowTicks delay channel =
     (let h = pkt_header (pnd_packet p) in
      if channel \<ge> 0 \<and> uint (hdr_channelId h) \<noteq> channel then False
      else if \<not> pnd_ready p then False
      else if \<not> pnd_initialSent p then True
      else if \<not> ticks \<or> (hdr_type h \<noteq> IHS_SessionPacketTypeReliable \<and>
                          hdr_type h \<noteq> IHS_SessionPacketTypeReliableFrag)
        then pnd_nextRetryMs p \<le> nowMs
      else pnd_nackPending p \<or> pnd_nextWireCount p = 0 \<or> pnd_lastSendTimestamp p = 0 \<or>
           sint (pnd_lastSendTimestamp p + delay - nowTicks) < 0)"

record attempt =
  at_ref :: nat
  at_packet :: session_packet
  at_generation :: u64

text \<open>The snapshot of the due packets, each with a reference of its own.\<close>

fun snapshot :: "allocator \<Rightarrow> (pending \<Rightarrow> bool) \<Rightarrow> pending list \<Rightarrow> (attempt list \<times> pending list) option" where
  "snapshot mem due [] = Some ([], [])"
| "snapshot mem due (p # ps) =
     (if \<not> due p then map_option (\<lambda>(as, qs). (as, p # qs)) (snapshot mem due ps)
      else do {
        clone \<leftarrow> PacketClone mem (pnd_packet p);
        (as, qs) \<leftarrow> snapshot mem due ps;
        Some (\<lparr>at_ref = pnd_ref p,
               at_packet = clone\<lparr>pkt_header := (pkt_header clone)\<lparr>hdr_retransmitCount := pnd_nextWireCount p\<rparr>\<rparr>,
               at_generation = pnd_feedbackGeneration p\<rparr> # as,
              p\<lparr>pnd_references := pnd_references p + 1\<rparr> # qs)
      })"

text \<open>The node behind a reference; \<^term>\<open>None\<close> when it has been freed.\<close>

definition node :: "retransmission \<Rightarrow> nat \<Rightarrow> pending option" where
  "node r i = List.find (\<lambda>p. pnd_ref p = i) (rt_pending r @ rt_detached r)"

definition set_node :: "nat \<Rightarrow> (pending \<Rightarrow> pending) \<Rightarrow> retransmission \<Rightarrow> retransmission" where
  "set_node i f r =
     r\<lparr>rt_pending := map (\<lambda>p. if pnd_ref p = i then f p else p) (rt_pending r),
       rt_detached := map (\<lambda>p. if pnd_ref p = i then f p else p) (rt_detached r)\<rparr>"

definition drop_reference :: "nat \<Rightarrow> pending list \<Rightarrow> pending list" where
  "drop_reference i ps =
     concat (map (\<lambda>p. if pnd_ref p = i
                      then (case PendingDestroy p of None \<Rightarrow> [] | Some p \<Rightarrow> [p]) else [p]) ps)"

definition release :: "nat \<Rightarrow> retransmission \<Rightarrow> retransmission" where
  "release i r = r\<lparr>rt_pending := drop_reference i (rt_pending r),
                   rt_detached := drop_reference i (rt_detached r)\<rparr>"

text \<open>What the sender writes back into a node that is still tracked.\<close>

definition note_attempt :: "attempt \<Rightarrow> session_packet \<Rightarrow> bool \<Rightarrow> u64 \<Rightarrow> u64 \<Rightarrow> pending \<Rightarrow> pending" where
  "note_attempt a packet sent nowMs delayMs p =
     (let stamp = hdr_sendTimestamp (pkt_header packet);
          p = p\<lparr>pnd_initialSent := True, pnd_lastSendMs := nowMs, pnd_lastSendTimestamp := stamp,
                pnd_packet := (pnd_packet p)\<lparr>pkt_header := (pkt_header (pnd_packet p))
                  \<lparr>hdr_sendTimestamp := stamp\<rparr>\<rparr>\<rparr>;
          p = (if sent
               then p\<lparr>pnd_retryCount := ucast (hdr_retransmitCount (pkt_header packet)),
                      pnd_nextWireCount := (if pnd_nextWireCount p < 255 then pnd_nextWireCount p + 1
                                            else pnd_nextWireCount p)\<rparr>
               else p) in
      if pnd_feedbackGeneration p = at_generation a
      then p\<lparr>pnd_nackPending := False,
             pnd_nextRetryMs := (if pnd_nextWireCount p = 0 then nowMs else nowMs + delayMs)\<rparr>
      else p)"

type_synonym 'c sender =
  "session_packet \<Rightarrow> retransmission \<Rightarrow> 'c \<Rightarrow> bool \<times> session_packet \<times> retransmission \<times> 'c"

fun process_loop ::
    "'c sender \<Rightarrow> ('c \<Rightarrow> u32 option) \<Rightarrow> u64 \<Rightarrow> attempt list \<Rightarrow> (u32 \<Rightarrow> bool) \<Rightarrow> retransmission \<Rightarrow> 'c \<Rightarrow> nat \<Rightarrow>
       (nat \<times> retransmission \<times> 'c) option" where
  "process_loop send ticks nowMs [] failed r c attempted = Some (attempted, r, c)"
| "process_loop send ticks nowMs (a # as) failed r c attempted = do {
     p \<leftarrow> node r (at_ref a);
     let channel = hdr_channelId (pkt_header (at_packet a));
     assert_that (channel < 256);
     if pnd_tracked p \<and> \<not> failed channel
     then (case send (at_packet a) r c of
       (sent, packet, r, c) \<Rightarrow> do {
         p \<leftarrow> node r (at_ref a);
         let st = rt_st r;
         let st = (if pnd_initialSent p then st\<lparr>st_retries := st_retries st + 1\<rparr> else st);
         let st = (if \<not> sent then st\<lparr>st_sendFailures := st_sendFailures st + 1\<rparr> else st);
         let r = r\<lparr>rt_st := st\<rparr>;
         let r = (if pnd_tracked p
                  then set_node (at_ref a) (note_attempt a packet sent nowMs (RetryDelayMs (ticks c))) r
                  else r);
         process_loop send ticks nowMs as (failed(channel := \<not> sent)) (release (at_ref a) r) c
           (Suc attempted)
       })
     else process_loop send ticks nowMs as failed (release (at_ref a) r) c attempted
   }"

text \<open>\<open>alloc\<close> says whether the snapshot can be allocated.\<close>

definition Process ::
    "allocator \<Rightarrow> bool \<Rightarrow> 'c sender \<Rightarrow> ('c \<Rightarrow> u32 option) \<Rightarrow> retransmission \<Rightarrow> u64 \<Rightarrow> bool \<Rightarrow> u32 \<Rightarrow> int \<Rightarrow> 'c \<Rightarrow>
       (nat \<times> retransmission \<times> 'c) option" where
  "Process mem alloc send ticks r nowMs byTicks nowTicks channel c =
     (let delay = (case ticks c of None \<Rightarrow> 1638 | Some t \<Rightarrow> t);
          due = (\<lambda>p. PendingDue p nowMs byTicks nowTicks delay channel) in
      if \<not> list_ex due (rt_pending r) \<or> \<not> alloc then Some (0, r, c)
      else do {
        (as, ps) \<leftarrow> snapshot mem due (rt_pending r);
        process_loop send ticks nowMs (rev as) (\<lambda>_. False) (r\<lparr>rt_pending := ps\<rparr>) c 0
      })"

definition IHS_RetransmissionProcessAt where
  "IHS_RetransmissionProcessAt mem alloc send ticks r nowMs c =
     Process mem alloc send ticks r nowMs False 0 (- 1) c"

definition IHS_RetransmissionProcessTicks where
  "IHS_RetransmissionProcessTicks mem alloc send ticks r nowMs nowTicks c =
     Process mem alloc send ticks r nowMs True nowTicks (- 1) c"

definition IHS_RetransmissionProcessChannel where
  "IHS_RetransmissionProcessChannel mem alloc send ticks r nowMs nowTicks channel c =
     Process mem alloc send ticks r nowMs True nowTicks (uint (channel :: u8)) c"

definition IHS_RetransmissionDeinit :: "retransmission \<Rightarrow> retransmission" where
  "IHS_RetransmissionDeinit r =
     r\<lparr>rt_pending := [],
       rt_detached := concat (map (\<lambda>p. case PendingDestroy p of None \<Rightarrow> [] | Some p \<Rightarrow> [p]) (rt_pending r)) @
                      rt_detached r,
       rt_st := (rt_st r)\<lparr>st_outstanding := 0\<rparr>\<rparr>"

section \<open>Statistics\<close>

text \<open>One node's share: the oldest HID packet in flight, the oldest packet and whether there is one.\<close>

definition stat_step ::
    "pending \<Rightarrow> rt_stats \<times> u64 \<times> u64 \<times> bool \<Rightarrow> rt_stats \<times> u64 \<times> u64 \<times> bool" where
  "stat_step p acc =
     (case acc of (st, oldestHID, oldest, found) \<Rightarrow>
        let h = pkt_header (pnd_packet p); first = pnd_firstTrackedMs p;
            (st, oldestHID) =
              (if hdr_hidReport h
               then if pnd_initialSent p
                    then (let st = st\<lparr>st_hidInFlight := st_hidInFlight st + 1\<rparr> in
                          if first \<le> oldestHID
                          then (st\<lparr>st_hidOldestInFlightPacketId := ucast (hdr_packetId h)\<rparr>, first)
                          else (st, oldestHID))
                    else (st\<lparr>st_hidPending := st_hidPending st + 1\<rparr>, oldestHID)
               else (st, oldestHID)) in
        if \<not> found \<or> first < oldest
        then (st\<lparr>st_oldestChannelId := hdr_channelId h, st_oldestPacketId := ucast (hdr_packetId h),
                 st_oldestFragmentId := scast (hdr_fragmentId h), st_oldestRetryCount := pnd_retryCount p\<rparr>,
              oldestHID, first, True)
        else (st, oldestHID, oldest, found))"

definition IHS_RetransmissionGetStats :: "retransmission \<Rightarrow> u64 \<Rightarrow> rt_stats" where
  "IHS_RetransmissionGetStats r nowMs =
     (let st = (rt_st r)\<lparr>st_hidPending := 0, st_hidInFlight := 0, st_hidOldestInFlightPacketId := - 1\<rparr> in
      case fold stat_step (rt_pending r) (st, - 1, nowMs, False) of
        (st, oldestHID, oldest, found) \<Rightarrow>
          st\<lparr>st_oldestOutstandingMs := (if found \<and> nowMs \<ge> oldest then nowMs - oldest else 0)\<rparr>)"

end
