(* ===== verification/Retransmission_Spec.thy ===== *)
theory Retransmission_Spec
  imports Retransmission
begin

text \<open>
  Invariant of the retransmission store and its preservation by every operation, including the
  sending loop during which other threads may change the store.
\<close>

section \<open>Cloning packets\<close>

lemma BodyInitialize_ok:
  assumes "live_alloc mem"
  obtains xs where "length xs = 2048"
    "IHS_SessionPacketBodyInitialize mem hasCrc =
       Some \<lparr>buf_data = Some xs, buf_capacity = 2048, buf_offset = 13, buf_size = 0,
         buf_suffix = (if hasCrc then 4 else 0), buf_initialCapacity = 2048, buf_maxCapacity = 2048\<rparr>"
proof -
  obtain fresh where fresh: "mem 2048 = Some fresh"
    using assms by (metis live_alloc_def not_None_eq)
  have len: "length fresh = 2048" using assms fresh alloc_lawD live_alloc_def by blast
  let ?xs = "replicate 13 0 @ drop 13 fresh"
  have "IHS_BufferFillMem mem (IHS_BufferInit 2048 2048) 0 0 13 =
      Some ((IHS_BufferInit 2048 2048)\<lparr>buf_data := Some ?xs, buf_capacity := 2048, buf_size := 13\<rparr>)"
    using fresh len
    by (simp add: IHS_BufferFillMem_def IHS_BufferInit_def IHS_BufferEnsureMaxSize_def sz_add_def
        IHS_BufferEnsureCapacity_def double_until_ge IHS_BufferEnsureCapacityExact_def realloc_bytes_def
        IHS_BufferPointerAt_def IHS_BufferMaxSize_def sz_sub_def sz_int_def buf_store_def mem_write_def)
  moreover have "IHS_BufferOffsetBy ((IHS_BufferInit 2048 2048)\<lparr>buf_data := Some ?xs,
      buf_capacity := 2048, buf_size := 13\<rparr>) (int 13) =
      Some ((IHS_BufferInit 2048 2048)\<lparr>buf_data := Some ?xs, buf_capacity := 2048, buf_size := 0, buf_offset := 13\<rparr>)"
    by (simp add: IHS_BufferOffsetBy_def IHS_BufferInit_def sz_int_def)
  ultimately have "IHS_SessionPacketBodyInitialize mem hasCrc =
       Some \<lparr>buf_data = Some ?xs, buf_capacity = 2048, buf_offset = 13, buf_size = 0,
         buf_suffix = (if hasCrc then 4 else 0), buf_initialCapacity = 2048, buf_maxCapacity = 2048\<rparr>"
    by (simp add: IHS_SessionPacketBodyInitialize_def IHS_BufferInit_def IHS_BufferSetSuffixLength_def
        sz_add_def IHS_BufferEnsureCapacity_def double_until_ge IHS_BufferEnsureCapacityExact_def)
  then show ?thesis using that[of ?xs] len by simp
qed

text \<open>Packets small enough for one datagram buffer.\<close>

definition clone_ok :: "session_packet \<Rightarrow> bool" where
  "clone_ok packet \<longleftrightarrow> buf_wf (pkt_body packet) \<and>
     0 < buf_capacity (pkt_body packet) - buf_offset (pkt_body packet) - buf_suffix (pkt_body packet) \<and>
     13 + buf_size (pkt_body packet) + (if hdr_hasCrc (pkt_header packet) then 4 else 0) \<le> 2048"

lemma PacketClone_ok:
  assumes live: "live_alloc mem" and ok: "clone_ok packet"
  obtains clone where "PacketClone mem packet = Some clone" "pkt_header clone = pkt_header packet"
    "buf_content (pkt_body clone) = buf_content (pkt_body packet)" "clone_ok clone"
    "buf_offset (pkt_body clone) = 13" "buf_suffix (pkt_body clone) = (if hdr_hasCrc (pkt_header packet) then 4 else 0)"
    "buf_size (pkt_body clone) = buf_size (pkt_body packet)" "2048 \<le> buf_capacity (pkt_body clone)"
proof -
  let ?src = "pkt_body packet" and ?s = "if hdr_hasCrc (pkt_header packet) then 4 else (0::nat)"
  have src: "buf_wf ?src" "0 < buf_capacity ?src - buf_offset ?src - buf_suffix ?src"
      "13 + buf_size ?src + ?s \<le> 2048" using ok by (simp_all add: clone_ok_def)
  obtain xs where xs: "length xs = 2048" "IHS_SessionPacketBodyInitialize mem (hdr_hasCrc (pkt_header packet)) =
       Some \<lparr>buf_data = Some xs, buf_capacity = 2048, buf_offset = 13, buf_size = 0,
         buf_suffix = ?s, buf_initialCapacity = 2048, buf_maxCapacity = 2048\<rparr>"
    using BodyInitialize_ok[OF live, of "hdr_hasCrc (pkt_header packet)"] by metis
  define b where "b = \<lparr>buf_data = Some xs, buf_capacity = 2048, buf_offset = 13, buf_size = 0,
         buf_suffix = ?s, buf_initialCapacity = 2048, buf_maxCapacity = 2048\<rparr>"
  have len: "length (buf_content ?src) = buf_size ?src" by (rule length_buf_content[OF src(1)])
  have b: "buf_wf b" "can_hold b (buf_offset b + (buf_size b + length (buf_content ?src)) + buf_suffix b)"
      "buf_offset b + buf_size b + buf_suffix b < buf_capacity b"
    using xs(1) src(3) len by (auto simp: b_def buf_wf_def can_hold_def grow_base_def)
  obtain b' where b': "IHS_BufferAppendMem mem b (buf_content ?src) = Some b'" "buf_wf b'" "buf_frame b b'"
      "buf_offset b' = buf_offset b" "buf_size b' = buf_size b + length (buf_content ?src)"
      "buf_content b' = buf_content b @ buf_content ?src"
    using AppendMem_spec[OF b(1) live b(2)] b(3) by metis
  have load: "do { p \<leftarrow> IHS_BufferPointer ?src; buf_load ?src p (buf_size ?src) } = Some (buf_content ?src)"
    using buf_load_content[OF src(1,2)] .
  then obtain p where p: "IHS_BufferPointer ?src = Some p" "buf_load ?src p (buf_size ?src) = Some (buf_content ?src)"
    by (auto simp: bind_eq_Some_conv)
  have clone: "PacketClone mem packet = Some \<lparr>pkt_header = pkt_header packet, pkt_body = b', pkt_crc = pkt_crc packet\<rparr>"
    using xs(2) p b'(1) by (simp add: PacketClone_def b_def)
  have "buf_content b' = buf_content ?src" using b'(6) by (simp add: b_def buf_content_def)
  moreover have "clone_ok \<lparr>pkt_header = pkt_header packet, pkt_body = b', pkt_crc = pkt_crc packet\<rparr>"
    using b'(2,3,4,5) src(3) len by (auto simp: clone_ok_def buf_frame_def b_def)
  ultimately show thesis using that[OF clone] b'(3,4,5) len by (simp add: buf_frame_def b_def)
qed

section \<open>Invariant\<close>

text \<open>
  \<open>refs\<close> are the references held by the sending loop.  Every linked node is tracked and has one
  reference of its own and those of the loop; a detached node has only those of the loop and at
  least one; no reference dangles; no two linked nodes have the same identity.
\<close>

definition ident :: "pending \<Rightarrow> u32 \<times> u16 \<times> u16" where
  "ident p = (let h = pkt_header (pnd_packet p) in (hdr_channelId h, hdr_packetId h, hdr_fragmentId h))"

definition node_ok :: "pending \<Rightarrow> bool" where
  "node_ok p \<longleftrightarrow> clone_ok (pnd_packet p) \<and> hdr_channelId (pkt_header (pnd_packet p)) < 256"

definition rt_inv :: "nat list \<Rightarrow> retransmission \<Rightarrow> bool" where
  "rt_inv refs r \<longleftrightarrow>
     distinct (map pnd_ref (rt_pending r @ rt_detached r)) \<and>
     (\<forall>p \<in> set (rt_pending r @ rt_detached r). pnd_ref p < rt_fresh r) \<and>
     (\<forall>p \<in> set (rt_pending r). pnd_tracked p \<and> node_ok p \<and>
        pnd_references p = 1 + count_list refs (pnd_ref p)) \<and>
     (\<forall>p \<in> set (rt_detached r). \<not> pnd_tracked p \<and> 0 < count_list refs (pnd_ref p) \<and>
        pnd_references p = count_list refs (pnd_ref p)) \<and>
     (\<forall>i \<in> set refs. i \<in> pnd_ref ` set (rt_pending r @ rt_detached r)) \<and>
     distinct (map ident (rt_pending r)) \<and>
     st_outstanding (rt_st r) = of_nat (length (rt_pending r))"

lemma rt_inv_Init: "rt_inv [] IHS_RetransmissionInit"
  by (simp add: rt_inv_def IHS_RetransmissionInit_def zero_stats_def)

text \<open>When the loop holds no reference, nothing is detached: no node leaks.\<close>

lemma rt_inv_no_leak: "rt_inv [] r \<Longrightarrow> rt_detached r = []"
  by (cases "rt_detached r") (auto simp: rt_inv_def)

text \<open>Changing nodes in place.\<close>

definition same_node :: "pending \<Rightarrow> pending \<Rightarrow> bool" where
  "same_node p q \<longleftrightarrow> pnd_ref q = pnd_ref p \<and> pnd_tracked q = pnd_tracked p \<and>
     pnd_references q = pnd_references p \<and> ident q = ident p \<and> (node_ok p \<longrightarrow> node_ok q)"

lemma same_node_refl: "same_node p p"
  by (simp add: same_node_def)

lemma same_nodes_maps:
  "list_all2 same_node ps qs \<Longrightarrow> map pnd_ref qs = map pnd_ref ps \<and> map ident qs = map ident ps \<and>
     length qs = length ps"
  by (induction rule: list_all2_induct) (auto simp: same_node_def)

lemma same_nodes_mem: "list_all2 same_node ps qs \<Longrightarrow> q \<in> set qs \<Longrightarrow> \<exists>p \<in> set ps. same_node p q"
  by (induction rule: list_all2_induct) auto

lemma rt_inv_same:
  assumes inv: "rt_inv refs r" and same: "list_all2 same_node (rt_pending r) qs"
    and st: "st_outstanding st = st_outstanding (rt_st r)"
  shows "rt_inv refs (r\<lparr>rt_pending := qs, rt_st := st\<rparr>)"
proof -
  note M = same_nodes_maps[OF same]
  have img: "pnd_ref ` set qs = pnd_ref ` set (rt_pending r)" using M by (metis list.set_map)
  have node: "pnd_ref q < rt_fresh r \<and> pnd_tracked q \<and> node_ok q \<and>
      pnd_references q = 1 + count_list refs (pnd_ref q)" if "q \<in> set qs" for q
    using same_nodes_mem[OF same that] inv by (auto simp: rt_inv_def same_node_def)
  show ?thesis
    using inv M img node st unfolding rt_inv_def by (simp add: image_Un ball_Un)
qed

text \<open>Updates of single nodes that keep what the invariant mentions.\<close>

definition benign :: "(pending \<Rightarrow> pending) \<Rightarrow> bool" where
  "benign f \<longleftrightarrow> (\<forall>p. same_node p (f p))"

lemma benign_map: "benign f \<Longrightarrow> list_all2 same_node ps (map f ps)"
  by (induction ps) (auto simp: benign_def)

lemma benign_if: "benign f \<Longrightarrow> benign (\<lambda>p. if P p then f p else p)"
  by (simp add: benign_def same_node_refl)

lemma benign_update_first: "benign f \<Longrightarrow> list_all2 same_node ps (snd (update_first P f ps))"
  by (induction ps) (auto simp: benign_def same_node_refl list_all2_same split: prod.splits)

lemmas benign_unfold = benign_def same_node_def ident_def node_ok_def Let_def

text \<open>Unlinking one node.\<close>

lemma detach_cases:
  assumes "pnd_references p = 1 + n"
  shows "detach p = (if n = 0 then [] else [p\<lparr>pnd_tracked := False, pnd_references := n\<rparr>])"
  using assms by (simp add: detach_def PendingDestroy_def)

lemma rt_inv_unlink:
  assumes inv: "rt_inv refs r" and split: "rt_pending r = xs @ p # ys"
    and st: "st_outstanding st = st_outstanding (rt_st r) - 1"
  shows "rt_inv refs (r\<lparr>rt_pending := xs @ ys, rt_detached := detach p @ rt_detached r, rt_st := st\<rparr>)"
proof -
  have p: "pnd_references p = 1 + count_list refs (pnd_ref p)"
    using inv split by (simp add: rt_inv_def)
  have zero: "count_list refs (pnd_ref p) = 0 \<Longrightarrow> pnd_ref p \<notin> set refs" by (simp add: count_list_0_iff)
  show ?thesis
    using inv split st zero
    by (auto simp: rt_inv_def detach_cases[OF p])
qed

section \<open>Operations\<close>

lemma ident_matches:
  "\<not> PacketIdentityMatches (pkt_header (pnd_packet p)) c i f \<Longrightarrow> ident p \<noteq> (c, i, f)"
  by (auto simp: PacketIdentityMatches_def ident_def Let_def)

lemma Track_inv:
  assumes inv: "rt_inv refs r" and live: "live_alloc mem" and ok: "clone_ok packet"
    and channel: "hdr_channelId (pkt_header packet) < 256"
    and run: "IHS_RetransmissionTrack mem alloc r packet nowMs = Some (new, r')"
  shows "rt_inv refs r'"
proof -
  obtain clone where clone: "PacketClone mem packet = Some clone" "pkt_header clone = pkt_header packet"
      "clone_ok clone"
    using PacketClone_ok[OF live ok] by metis
  have fresh: "rt_fresh r \<notin> set refs"
    using inv unfolding rt_inv_def by (metis image_iff order_less_irrefl)
  show ?thesis
  proof (cases "r' = r")
    case True
    then show ?thesis using inv by simp
  next
    case False
    define p where "p = \<lparr>pnd_ref = rt_fresh r, pnd_packet = clone, pnd_firstTrackedMs = nowMs,
        pnd_lastSendMs = 0, pnd_lastSendTimestamp = 0, pnd_nextRetryMs = - 1, pnd_retryCount = 0,
        pnd_initialSent = False, pnd_ready = False, pnd_nackPending = False, pnd_tracked = True,
        pnd_references = 1, pnd_nextWireCount = hdr_retransmitCount (pkt_header packet),
        pnd_feedbackGeneration = 0\<rparr>"
    define st where "st = (rt_st r)\<lparr>st_tracked := st_tracked (rt_st r) + 1,
        st_outstanding := st_outstanding (rt_st r) + 1\<rparr>"
    have new: "\<not> list_ex (\<lambda>item. PacketIdentityMatches (pkt_header (pnd_packet item))
        (hdr_channelId (pkt_header packet)) (hdr_packetId (pkt_header packet))
        (hdr_fragmentId (pkt_header packet))) (rt_pending r)"
      and r': "r' = r\<lparr>rt_pending := p # rt_pending r, rt_fresh := Suc (rt_fresh r), rt_st := st\<rparr>"
      using run clone(1) False
      by (auto simp: IHS_RetransmissionTrack_def Let_def bind_assert_that_Some p_def st_def split: if_splits)
    have p: "pnd_ref p = rt_fresh r" "pnd_packet p = clone" "pnd_tracked p" "pnd_references p = 1"
      "st_outstanding st = st_outstanding (rt_st r) + 1" by (simp_all add: p_def st_def)
    have "ident p = (hdr_channelId (pkt_header packet), hdr_packetId (pkt_header packet),
        hdr_fragmentId (pkt_header packet))"
      using p(2) clone(2) by (simp add: ident_def Let_def)
    then have id: "ident p \<notin> ident ` set (rt_pending r)"
      using new ident_matches by (fastforce simp: list_ex_iff)
    have "count_list refs (rt_fresh r) = 0" using fresh by (simp add: count_list_0_iff)
    moreover have "node_ok p" using p(2) clone(2,3) channel by (simp add: node_ok_def)
    moreover have "rt_fresh r \<notin> pnd_ref ` set (rt_pending r)" "rt_fresh r \<notin> pnd_ref ` set (rt_detached r)"
      using inv by (auto simp: rt_inv_def)
    ultimately show ?thesis
      using inv p id r' by (auto simp: rt_inv_def less_SucI)
  qed
qed

lemma unlink_first_split:
  "unlink_first P ps = Some (p, rest) \<Longrightarrow>
   \<exists>xs ys. ps = xs @ p # ys \<and> rest = xs @ ys \<and> P p \<and> (\<forall>x \<in> set xs. \<not> P x)"
proof (induction ps arbitrary: rest)
  case Nil
  then show ?case by simp
next
  case (Cons q qs)
  show ?case
  proof (cases "P q")
    case True
    then have "p = q" "rest = qs" using Cons.prems by auto
    then have "q # qs = [] @ p # qs \<and> rest = [] @ qs \<and> P p" using True by simp
    then show ?thesis by fastforce
  next
    case False
    then obtain rest' where "unlink_first P qs = Some (p, rest')" "rest = q # rest'"
      using Cons.prems by auto
    then show ?thesis using Cons.IH[of rest'] False by (metis append_Cons set_ConsD)
  qed
qed

lemma note_ack_outstanding: "st_outstanding (note_ack nowMs p st) = st_outstanding st - 1"
  by (simp add: note_ack_def Let_def)

lemma Cancel_inv: "rt_inv refs r \<Longrightarrow> rt_inv refs (IHS_RetransmissionCancelUnsent r header)"
  by (auto simp: IHS_RetransmissionCancelUnsent_def Let_def split: option.splits
      dest!: unlink_first_split intro!: rt_inv_unlink)

lemma Acknowledge_inv:
  "rt_inv refs r \<Longrightarrow> rt_inv refs (snd (IHS_RetransmissionAcknowledge r c i f nowMs))"
  by (auto simp: IHS_RetransmissionAcknowledge_def note_ack_outstanding split: option.splits
      dest!: unlink_first_split intro!: rt_inv_unlink)

lemma ack_through_inv:
  assumes "rt_inv refs (r\<lparr>rt_pending := pre @ ps, rt_detached := D, rt_st := st\<rparr>)"
    "ack_through c i nowMs ps st = (kept, gone, st')"
  shows "rt_inv refs (r\<lparr>rt_pending := pre @ kept, rt_detached := concat (map detach (rev gone)) @ D, rt_st := st'\<rparr>)"
  using assms
proof (induction ps arbitrary: pre D st kept gone)
  case Nil
  then show ?case by simp
next
  case (Cons p ps)
  let ?h = "pkt_header (pnd_packet p)"
  show ?case
  proof (cases "hdr_channelId ?h \<noteq> c \<or> \<not> pnd_ready p \<or> \<not> id_below i (hdr_packetId ?h)")
    case True
    then obtain kept' where "ack_through c i nowMs ps st = (kept', gone, st')" "kept = p # kept'"
      using Cons.prems(2) by (auto simp: Let_def split: prod.splits)
    moreover have "rt_inv refs (r\<lparr>rt_pending := (pre @ [p]) @ ps, rt_detached := D, rt_st := st\<rparr>)"
      using Cons.prems(1) by simp
    ultimately show ?thesis using Cons.IH by fastforce
  next
    case False
    then obtain gone' where step: "ack_through c i nowMs ps (note_ack nowMs p st) = (kept, gone', st')" "gone = p # gone'"
      using Cons.prems(2) by (auto simp: Let_def split: prod.splits)
    have "rt_inv refs (r\<lparr>rt_pending := pre @ ps, rt_detached := detach p @ D, rt_st := note_ack nowMs p st\<rparr>)"
      using rt_inv_unlink[OF Cons.prems(1), of pre p ps "note_ack nowMs p st"]
      by (simp add: note_ack_outstanding)
    then show ?thesis using Cons.IH[OF _ step(1)] step(2) by simp
  qed
qed

lemma AcknowledgeThrough_inv:
  assumes "rt_inv refs r"
  shows "rt_inv refs (snd (IHS_RetransmissionAcknowledgeThrough r c i nowMs))"
proof -
  obtain kept gone st where run: "ack_through c i nowMs (rt_pending r) (rt_st r) = (kept, gone, st)"
    by (cases "ack_through c i nowMs (rt_pending r) (rt_st r)")
  have "rt_inv refs (r\<lparr>rt_pending := [] @ rt_pending r, rt_detached := rt_detached r, rt_st := rt_st r\<rparr>)"
    using assms by simp
  from ack_through_inv[OF this run] show ?thesis
    by (simp add: IHS_RetransmissionAcknowledgeThrough_def run)
qed

subsection \<open>In-place updates\<close>

lemma benign_nudge: "benign (nudge nowMs)"
  by (simp add: benign_unfold nudge_def)

lemma benign_ready: "benign (\<lambda>p. p\<lparr>pnd_ready := b\<rparr>)"
  by (simp add: benign_unfold)

lemma benign_retry: "benign (\<lambda>p. p\<lparr>pnd_nextRetryMs := t, pnd_nackPending := b,
    pnd_feedbackGeneration := pnd_feedbackGeneration p + 1\<rparr>)"
  by (simp add: benign_unfold)

lemma clone_ok_stamp: "clone_ok (packet\<lparr>pkt_header := (pkt_header packet)\<lparr>hdr_sendTimestamp := t\<rparr>\<rparr>) = clone_ok packet"
  by (simp add: clone_ok_def)

lemma benign_note_sent: "benign (note_sent header sent nowMs delayMs)"
  by (simp add: benign_unfold note_sent_def clone_ok_stamp)

lemma benign_note_attempt: "benign (note_attempt a packet sent nowMs delayMs)"
  by (simp add: benign_unfold note_attempt_def clone_ok_stamp)

lemmas benign_intros = benign_if benign_nudge benign_ready benign_retry benign_note_sent benign_note_attempt

lemma update_first_inv:
  assumes "rt_inv refs r" "benign f" "update_first P f (rt_pending r) = (found, qs)"
    "st_outstanding st = st_outstanding (rt_st r)"
  shows "rt_inv refs (r\<lparr>rt_pending := qs, rt_st := st\<rparr>)"
  using rt_inv_same[OF assms(1) _ assms(4), of qs] benign_update_first[OF assms(2), of "rt_pending r" P]
    assms(3) by simp

lemma Nack_inv: "rt_inv refs r \<Longrightarrow> rt_inv refs (snd (IHS_RetransmissionNack r c i f nowMs))"
  using update_first_inv[OF _ benign_nudge]
  by (auto simp: IHS_RetransmissionNack_def split: prod.splits)

lemma NoteInitialSend_inv: "rt_inv refs r \<Longrightarrow> rt_inv refs (IHS_RetransmissionNoteInitialSend ticks r h sent nowMs)"
  using update_first_inv[OF _ benign_note_sent]
  by (auto simp: IHS_RetransmissionNoteInitialSend_def split: prod.splits)

lemma Activate_inv: "rt_inv refs r \<Longrightarrow> rt_inv refs (IHS_RetransmissionActivate r c i n)"
  using rt_inv_same[OF _ benign_map[OF benign_if[OF benign_ready]], of refs r "rt_st r"]
  by (simp add: IHS_RetransmissionActivate_def Let_def)

lemma nudge_all_inv: "rt_inv refs r \<Longrightarrow> benign f \<Longrightarrow> rt_inv refs (snd (nudge_all P f r))"
  using rt_inv_same[OF _ benign_map[OF benign_if]] by (simp add: nudge_all_def Let_def)

end
