(* ===== verification/Retransmission_Props.thy ===== *)
theory Retransmission_Props
  imports Retransmission_Spec
begin

text \<open>
  The store as a state machine, the sending loop under interference, and the properties of
  acknowledgements, negative acknowledgements and pacing.
\<close>

section \<open>Steps of the other threads\<close>

inductive rt_op :: "retransmission \<Rightarrow> retransmission \<Rightarrow> bool" where
  track: "IHS_RetransmissionTrack mem alloc r packet nowMs = Some (new, r') \<Longrightarrow> live_alloc mem \<Longrightarrow>
     clone_ok packet \<Longrightarrow> hdr_channelId (pkt_header packet) < 256 \<Longrightarrow> rt_op r r'"
| activate: "rt_op r (IHS_RetransmissionActivate r channel firstId count)"
| cancel: "rt_op r (IHS_RetransmissionCancelUnsent r header)"
| ack: "rt_op r (snd (IHS_RetransmissionAcknowledge r channelId packetId fragmentId nowMs))"
| ack_through: "rt_op r (snd (IHS_RetransmissionAcknowledgeThrough r channelId packetId nowMs))"
| nack: "rt_op r (snd (IHS_RetransmissionNack r channelId packetId fragmentId nowMs))"
| nack_all: "rt_op r (snd (IHS_RetransmissionNackAllThrough r channelId packetId nowMs))"
| nack_before: "rt_op r (snd (IHS_RetransmissionNackBefore r channelId packetId below cutoff nowMs))"
| note_send: "rt_op r (IHS_RetransmissionNoteInitialSend ticks r header sent nowMs)"

lemma rt_op_inv: "rt_inv refs r \<Longrightarrow> rt_op r r' \<Longrightarrow> rt_inv refs r'"
  by (erule rt_op.cases)
    (auto intro: Track_inv Activate_inv Cancel_inv Acknowledge_inv AcknowledgeThrough_inv Nack_inv
      NoteInitialSend_inv nudge_all_inv benign_intros
      simp: IHS_RetransmissionNackAllThrough_def IHS_RetransmissionNackBefore_def)

interpretation rt_sys: transition_system "\<lambda>r. r = IHS_RetransmissionInit" rt_op "rt_inv []"
  by unfold_locales (auto intro: rt_op_inv simp: rt_inv_Init)

lemma rt_ops_inv: "rt_op\<^sup>*\<^sup>* r r' \<Longrightarrow> rt_inv refs r \<Longrightarrow> rt_inv refs r'"
  by (induction rule: rtranclp_induct) (auto intro: rt_op_inv)

section \<open>References of the sending loop\<close>

lemma count_list_map_filter:
  assumes "distinct (map f ps)" "p \<in> set ps"
  shows "count_list (map f (filter P ps)) (f p) = (if P p then 1 else 0)"
  using assms
proof (induction ps)
  case Nil
  then show ?case by simp
next
  case (Cons q qs)
  have zero: "count_list (map f (filter P qs)) (f q) = 0"
    using Cons.prems(1) by (auto simp: count_list_0_iff)
  show ?case
  proof (cases "p = q")
    case True
    then show ?thesis using zero by simp
  next
    case False
    then have "p \<in> set qs" "f q \<noteq> f p" using Cons.prems by auto
    then show ?thesis using Cons.IH Cons.prems(1) by simp
  qed
qed

lemma snapshot_refs:
  assumes "snapshot mem due ps = Some (as, qs)"
  shows "qs = map (\<lambda>p. if due p then p\<lparr>pnd_references := pnd_references p + 1\<rparr> else p) ps"
    "map at_ref as = map pnd_ref (filter due ps)"
    "\<forall>a \<in> set as. \<exists>p \<in> set ps. hdr_channelId (pkt_header (at_packet a)) = hdr_channelId (pkt_header (pnd_packet p))"
proof -
  have "qs = map (\<lambda>p. if due p then p\<lparr>pnd_references := pnd_references p + 1\<rparr> else p) ps \<and>
    map at_ref as = map pnd_ref (filter due ps) \<and>
    (\<forall>a \<in> set as. \<exists>p \<in> set ps. hdr_channelId (pkt_header (at_packet a)) = hdr_channelId (pkt_header (pnd_packet p)))"
    using assms
  proof (induction ps arbitrary: as qs)
    case Nil
    then show ?case by simp
  next
    case (Cons p ps)
    have clone: "pkt_header c = pkt_header q" if "PacketClone mem q = Some c" for c q
      using that by (auto simp: PacketClone_def bind_eq_Some_conv)
    show ?case
    proof (cases "due p")
      case False
      then obtain qs' where "snapshot mem due ps = Some (as, qs')" "qs = p # qs'"
        using Cons.prems by auto
      then show ?thesis using Cons.IH[of as qs'] False by auto
    next
      case True
      then obtain c as' qs' where run: "PacketClone mem (pnd_packet p) = Some c"
          "snapshot mem due ps = Some (as', qs')" "qs = p\<lparr>pnd_references := pnd_references p + 1\<rparr> # qs'"
          "as = \<lparr>at_ref = pnd_ref p, at_packet = c\<lparr>pkt_header := (pkt_header c)
             \<lparr>hdr_retransmitCount := pnd_nextWireCount p\<rparr>\<rparr>, at_generation = pnd_feedbackGeneration p\<rparr> # as'"
        using Cons.prems by (auto simp: bind_eq_Some_conv)
      then show ?thesis using Cons.IH[OF run(2)] True clone[OF run(1)] by auto
    qed
  qed
  then show "qs = map (\<lambda>p. if due p then p\<lparr>pnd_references := pnd_references p + 1\<rparr> else p) ps"
    "map at_ref as = map pnd_ref (filter due ps)"
    "\<forall>a \<in> set as. \<exists>p \<in> set ps. hdr_channelId (pkt_header (at_packet a)) = hdr_channelId (pkt_header (pnd_packet p))"
    by blast+
qed

lemma snapshot_total:
  assumes "live_alloc mem" "\<forall>p \<in> set ps. clone_ok (pnd_packet p)"
  shows "\<exists>as qs. snapshot mem due ps = Some (as, qs)"
  using assms(2)
proof (induction ps)
  case Nil
  then show ?case by simp
next
  case (Cons p ps)
  obtain c where "PacketClone mem (pnd_packet p) = Some c"
    using PacketClone_ok[OF assms(1), of "pnd_packet p"] Cons.prems by auto
  then show ?case using Cons by auto
qed

text \<open>Changing reference counts.\<close>

lemma rt_inv_recount:
  assumes inv: "rt_inv refs r"
    and maps: "map pnd_ref qs = map pnd_ref (rt_pending r)" "map ident qs = map ident (rt_pending r)"
    and qs: "\<And>q. q \<in> set qs \<Longrightarrow> pnd_tracked q \<and> node_ok q \<and> pnd_references q = 1 + count_list refs' (pnd_ref q)"
    and ds: "distinct (map pnd_ref ds)" "pnd_ref ` set ds \<subseteq> pnd_ref ` set (rt_detached r)"
      "\<And>q. q \<in> set ds \<Longrightarrow> \<not> pnd_tracked q \<and> 0 < count_list refs' (pnd_ref q) \<and>
         pnd_references q = count_list refs' (pnd_ref q)"
    and dangling: "\<And>i. i \<in> set refs' \<Longrightarrow> i \<in> pnd_ref ` set (rt_pending r) \<union> pnd_ref ` set ds"
  shows "rt_inv refs' (r\<lparr>rt_pending := qs, rt_detached := ds\<rparr>)"
proof -
  have img: "pnd_ref ` set qs = pnd_ref ` set (rt_pending r)" using maps(1) by (metis list.set_map)
  have fresh: "pnd_ref q < rt_fresh r" if "q \<in> set qs \<or> q \<in> set ds" for q
  proof -
    have "pnd_ref q \<in> pnd_ref ` set (rt_pending r @ rt_detached r)"
      using that img ds(2) by (auto simp: image_Un)
    then show ?thesis using inv unfolding rt_inv_def by (metis image_iff)
  qed
  have len: "length qs = length (rt_pending r)" using maps(1) by (metis length_map)
  have disj: "pnd_ref ` set (rt_pending r) \<inter> pnd_ref ` set ds = {}"
    using inv ds(2) by (auto simp: rt_inv_def)
  show ?thesis
    using inv maps qs ds(1,3) dangling img fresh len disj
    unfolding rt_inv_def by (auto simp: image_Un)
qed

lemma snapshot_inv:
  assumes inv: "rt_inv [] r" and snap: "snapshot mem due (rt_pending r) = Some (as, qs)"
  shows "rt_inv (map at_ref as) (r\<lparr>rt_pending := qs\<rparr>)"
proof -
  let ?f = "\<lambda>p. if due p then p\<lparr>pnd_references := pnd_references p + 1\<rparr> else p"
  note S = snapshot_refs[OF snap]
  have D: "rt_detached r = []" by (rule rt_inv_no_leak[OF inv])
  have dist: "distinct (map pnd_ref (rt_pending r))" using inv by (simp add: rt_inv_def)
  have comp: "pnd_ref \<circ> ?f = pnd_ref" "ident \<circ> ?f = ident"
    by (auto simp: fun_eq_iff ident_def)
  have node: "pnd_tracked (?f p) \<and> node_ok (?f p) \<and>
      pnd_references (?f p) = 1 + count_list (map at_ref as) (pnd_ref (?f p))"
    if "p \<in> set (rt_pending r)" for p
    using that inv count_list_map_filter[OF dist that, of due] S(2)
    by (auto simp: rt_inv_def node_ok_def)
  have "rt_inv (map at_ref as) (r\<lparr>rt_pending := qs, rt_detached := rt_detached r\<rparr>)"
  proof (rule rt_inv_recount[OF inv])
    show "map pnd_ref qs = map pnd_ref (rt_pending r)" "map ident qs = map ident (rt_pending r)"
      using comp by (simp_all add: S(1))
    fix q assume "q \<in> set qs"
    then obtain p where "p \<in> set (rt_pending r)" "q = ?f p" unfolding S(1) by auto
    then show "pnd_tracked q \<and> node_ok q \<and> pnd_references q = 1 + count_list (map at_ref as) (pnd_ref q)"
      using node by blast
  next
    fix i assume "i \<in> set (map at_ref as)"
    then show "i \<in> pnd_ref ` set (rt_pending r) \<union> pnd_ref ` set (rt_detached r)"
      unfolding S(2) by auto
  qed (simp_all add: D)
  then show ?thesis by simp
qed

lemma drop_reference_pending:
  assumes "\<forall>p \<in> set ps. pnd_ref p = i \<longrightarrow> pnd_references p \<noteq> 1"
  shows "drop_reference i ps =
    map (\<lambda>p. if pnd_ref p = i then p\<lparr>pnd_references := pnd_references p - 1\<rparr> else p) ps"
  using assms unfolding drop_reference_def by (induction ps) (auto simp: PendingDestroy_def)

lemma drop_reference_mem:
  "q \<in> set (drop_reference i ps) \<longleftrightarrow>
     (\<exists>p \<in> set ps. pnd_ref p \<noteq> i \<and> q = p \<or>
        pnd_ref p = i \<and> pnd_references p \<noteq> 1 \<and> q = p\<lparr>pnd_references := pnd_references p - 1\<rparr>)"
  unfolding drop_reference_def by (induction ps) (auto simp: PendingDestroy_def)

lemma drop_reference_refs:
  "pnd_ref ` set (drop_reference i ps) \<subseteq> pnd_ref ` set ps"
  "distinct (map pnd_ref ps) \<Longrightarrow> distinct (map pnd_ref (drop_reference i ps))"
proof -
  show sub: "pnd_ref ` set (drop_reference i ps) \<subseteq> pnd_ref ` set ps" for ps
    using drop_reference_mem[of _ i ps] by auto
  show "distinct (map pnd_ref ps) \<Longrightarrow> distinct (map pnd_ref (drop_reference i ps))"
  proof (induction ps)
    case (Cons p ps)
    have "drop_reference i (p # ps) = drop_reference i ps \<or>
        (\<exists>q. pnd_ref q = pnd_ref p \<and> drop_reference i (p # ps) = q # drop_reference i ps)"
      by (auto simp: drop_reference_def PendingDestroy_def)
    then show ?case using Cons sub[of ps] by auto
  qed (simp add: drop_reference_def)
qed

lemma release_inv:
  assumes inv: "rt_inv (i # refs) r"
  shows "rt_inv refs (release i r)"
proof -
  let ?f = "\<lambda>p. if pnd_ref p = i then p\<lparr>pnd_references := pnd_references p - 1\<rparr> else p"
  have pend: "pnd_tracked p \<and> node_ok p \<and> pnd_references p = 1 + count_list (i # refs) (pnd_ref p)"
    if "p \<in> set (rt_pending r)" for p using inv that by (simp add: rt_inv_def)
  have det: "\<not> pnd_tracked p \<and> pnd_references p = count_list (i # refs) (pnd_ref p) \<and>
      0 < count_list (i # refs) (pnd_ref p)"
    if "p \<in> set (rt_detached r)" for p using inv that by (simp add: rt_inv_def)
  have run: "drop_reference i (rt_pending r) = map ?f (rt_pending r)"
    by (rule drop_reference_pending) (use pend in auto)
  have comp: "pnd_ref \<circ> ?f = pnd_ref" "ident \<circ> ?f = ident" by (auto simp: fun_eq_iff ident_def)
  have "rt_inv refs (r\<lparr>rt_pending := map ?f (rt_pending r), rt_detached := drop_reference i (rt_detached r)\<rparr>)"
  proof (rule rt_inv_recount[OF inv])
    show "map pnd_ref (map ?f (rt_pending r)) = map pnd_ref (rt_pending r)"
      "map ident (map ?f (rt_pending r)) = map ident (rt_pending r)" using comp by simp_all
    fix q assume "q \<in> set (map ?f (rt_pending r))"
    then obtain p where "p \<in> set (rt_pending r)" "q = ?f p" by auto
    then show "pnd_tracked q \<and> node_ok q \<and> pnd_references q = 1 + count_list refs (pnd_ref q)"
      using pend[of p] by (auto simp: node_ok_def)
  next
    fix q assume "q \<in> set (drop_reference i (rt_detached r))"
    then obtain p where p: "p \<in> set (rt_detached r)" "pnd_ref p \<noteq> i \<and> q = p \<or>
        pnd_ref p = i \<and> pnd_references p \<noteq> 1 \<and> q = p\<lparr>pnd_references := pnd_references p - 1\<rparr>"
      unfolding drop_reference_mem by blast
    then show "\<not> pnd_tracked q \<and> 0 < count_list refs (pnd_ref q) \<and> pnd_references q = count_list refs (pnd_ref q)"
      using det[OF p(1)] by auto
  next
    fix j assume j: "j \<in> set refs"
    then have "j \<in> pnd_ref ` set (rt_pending r) \<or> j \<in> pnd_ref ` set (rt_detached r)"
      using inv by (auto simp: rt_inv_def image_Un)
    moreover have "j \<in> pnd_ref ` set (drop_reference i (rt_detached r))"
      if mem: "j \<in> pnd_ref ` set (rt_detached r)"
    proof -
      obtain p where p: "p \<in> set (rt_detached r)" "pnd_ref p = j" using mem by auto
      define q where "q = (if j = i then p\<lparr>pnd_references := pnd_references p - 1\<rparr> else p)"
      have "count_list refs j \<noteq> 0" using j by (simp add: count_list_0_iff)
      then have "q \<in> set (drop_reference i (rt_detached r))"
        using det[OF p(1)] p unfolding drop_reference_mem q_def by (intro bexI[of _ p]) auto
      moreover have "pnd_ref q = j" using p(2) by (simp add: q_def)
      ultimately show ?thesis by auto
    qed
    ultimately show "j \<in> pnd_ref ` set (rt_pending r) \<union> pnd_ref ` set (drop_reference i (rt_detached r))" by auto
  qed (use drop_reference_refs inv in \<open>auto simp: rt_inv_def\<close>)
  then show ?thesis by (simp add: release_def run)
qed

lemma node_exists:
  assumes "rt_inv refs r" "i \<in> set refs"
  obtains p where "node r i = Some p" "p \<in> set (rt_pending r @ rt_detached r)" "pnd_ref p = i"
proof (cases "node r i")
  case None
  then show ?thesis using assms by (auto simp: node_def find_None_iff rt_inv_def)
next
  case (Some p)
  then have "\<exists>k < length (rt_pending r @ rt_detached r). pnd_ref p = i \<and> p = (rt_pending r @ rt_detached r) ! k"
    by (auto simp: node_def find_Some_iff)
  then show ?thesis using that[OF Some] nth_mem by blast
qed

lemma set_node_inv:
  assumes inv: "rt_inv refs r" and f: "benign f"
  shows "rt_inv refs (set_node i f r)"
proof -
  let ?f = "\<lambda>p. if pnd_ref p = i then f p else p"
  have same: "same_node p (?f p)" for p using f by (simp add: benign_def same_node_refl)
  have comp: "pnd_ref \<circ> ?f = pnd_ref" "ident \<circ> ?f = ident"
    using same by (auto simp: fun_eq_iff same_node_def)
  have img: "pnd_ref ` ?f ` A = pnd_ref ` A" for A using comp(1) by (metis image_comp)
  have "rt_inv refs (r\<lparr>rt_pending := map ?f (rt_pending r), rt_detached := map ?f (rt_detached r)\<rparr>)"
  proof (rule rt_inv_recount[OF inv])
    fix q assume "q \<in> set (map ?f (rt_pending r))"
    then obtain p where "p \<in> set (rt_pending r)" "same_node p q" using same by (metis (no_types, lifting) imageE list.set_map)
    then show "pnd_tracked q \<and> node_ok q \<and> pnd_references q = 1 + count_list refs (pnd_ref q)"
      using inv by (auto simp: rt_inv_def same_node_def)
  next
    fix q assume "q \<in> set (map ?f (rt_detached r))"
    then obtain p where "p \<in> set (rt_detached r)" "same_node p q" using same by (metis (no_types, lifting) imageE list.set_map)
    then show "\<not> pnd_tracked q \<and> 0 < count_list refs (pnd_ref q) \<and> pnd_references q = count_list refs (pnd_ref q)"
      using inv by (auto simp: rt_inv_def same_node_def)
  next
    show "distinct (map pnd_ref (map ?f (rt_detached r)))" using inv comp by (simp add: rt_inv_def)
    show "pnd_ref ` set (map ?f (rt_detached r)) \<subseteq> pnd_ref ` set (rt_detached r)" using img by simp
    fix j assume "j \<in> set refs"
    then show "j \<in> pnd_ref ` set (rt_pending r) \<union> pnd_ref ` set (map ?f (rt_detached r))"
      using inv img by (auto simp: rt_inv_def image_Un)
  qed (use comp in simp_all)
  then show ?thesis by (simp add: set_node_def)
qed

section \<open>The sending loop under interference\<close>

text \<open>While a packet is being sent, other threads may perform any sequence of operations.\<close>

definition interfering :: "'c sender \<Rightarrow> bool" where
  "interfering send \<longleftrightarrow> (\<forall>packet r c. rt_op\<^sup>*\<^sup>* r (fst (snd (snd (send packet r c)))))"

lemma rt_inv_stats:
  "rt_inv refs r \<Longrightarrow> st_outstanding st = st_outstanding (rt_st r) \<Longrightarrow> rt_inv refs (r\<lparr>rt_st := st\<rparr>)"
  by (simp add: rt_inv_def)

lemma process_loop_safe:
  assumes "interfering send" "rt_inv (map at_ref as) r"
    "\<forall>a \<in> set as. hdr_channelId (pkt_header (at_packet a)) < 256"
  shows "\<exists>n r' c'. process_loop send ticks nowMs as failed r c attempted = Some (n, r', c') \<and>
    rt_inv [] r' \<and> n \<le> attempted + length as"
  using assms(2,3)
proof (induction as arbitrary: failed r c attempted)
  case Nil
  then show ?case by simp
next
  case (Cons a as)
  let ?i = "at_ref a" and ?ch = "hdr_channelId (pkt_header (at_packet a))"
  have mem: "?i \<in> set (map at_ref (a # as))" by simp
  obtain p where p: "node r ?i = Some p" using node_exists[OF Cons.prems(1) mem] .
  have ch: "?ch < 256" using Cons.prems(2) by simp
  show ?case
  proof (cases "pnd_tracked p \<and> \<not> failed ?ch")
    case False
    have "rt_inv (map at_ref as) (release ?i r)" using release_inv Cons.prems(1) by simp
    then have "\<exists>n r' c'. process_loop send ticks nowMs as failed (release ?i r) c attempted = Some (n, r', c') \<and>
        rt_inv [] r' \<and> n \<le> attempted + length as"
      using Cons.IH Cons.prems(2) by simp
    moreover have "process_loop send ticks nowMs (a # as) failed r c attempted =
        process_loop send ticks nowMs as failed (release ?i r) c attempted"
      using p ch False by (auto simp: Let_def)
    ultimately show ?thesis by (metis le_Suc_eq length_Cons add_Suc_right)
  next
    case True
    obtain sent packet r1 c1 where send: "send (at_packet a) r c = (sent, packet, r1, c1)"
      by (metis prod_cases4)
    have "rt_op\<^sup>*\<^sup>* r r1" using assms(1) send unfolding interfering_def by (metis fst_conv snd_conv)
    then have inv1: "rt_inv (map at_ref (a # as)) r1" using rt_ops_inv Cons.prems(1) by blast
    obtain q where q: "node r1 ?i = Some q" using node_exists[OF inv1 mem] .
    define st where "st = (let st = rt_st r1;
         st = (if pnd_initialSent q then st\<lparr>st_retries := st_retries st + 1\<rparr> else st) in
         if \<not> sent then st\<lparr>st_sendFailures := st_sendFailures st + 1\<rparr> else st)"
    define r2 where "r2 = (if pnd_tracked q
        then set_node ?i (note_attempt a packet sent nowMs (RetryDelayMs (ticks c1))) (r1\<lparr>rt_st := st\<rparr>)
        else r1\<lparr>rt_st := st\<rparr>)"
    have "rt_inv (map at_ref (a # as)) (r1\<lparr>rt_st := st\<rparr>)"
      using rt_inv_stats[OF inv1] by (simp add: st_def Let_def)
    then have "rt_inv (map at_ref (a # as)) r2"
      using set_node_inv[OF _ benign_note_attempt] by (simp add: r2_def)
    then have "rt_inv (map at_ref as) (release ?i r2)" using release_inv by simp
    then have "\<exists>n r' c'. process_loop send ticks nowMs as (failed(?ch := \<not> sent)) (release ?i r2) c1 (Suc attempted) =
        Some (n, r', c') \<and> rt_inv [] r' \<and> n \<le> Suc attempted + length as"
      using Cons.IH Cons.prems(2) by (metis list.set_intros(2))
    moreover have "process_loop send ticks nowMs (a # as) failed r c attempted =
        process_loop send ticks nowMs as (failed(?ch := \<not> sent)) (release ?i r2) c1 (Suc attempted)"
      using p ch True send q by (simp add: Let_def r2_def st_def)
    ultimately show ?thesis by simp
  qed
qed

lemma rev_inv: "rt_inv refs r \<Longrightarrow> rt_inv (rev refs) r"
proof -
  have "count_list (rev refs) = count_list refs" by (auto simp: fun_eq_iff count_list_rev)
  then show "rt_inv refs r \<Longrightarrow> rt_inv (rev refs) r" by (simp add: rt_inv_def)
qed

lemma Process_safe:
  assumes inv: "rt_inv [] r" and "live_alloc mem" "interfering send"
  shows "\<exists>n r' c'. Process mem alloc send ticks r nowMs byTicks nowTicks channel c = Some (n, r', c') \<and>
    rt_inv [] r' \<and> n \<le> length (rt_pending r)"
proof -
  define due where "due = (\<lambda>p. PendingDue p nowMs byTicks nowTicks
      (case ticks c of None \<Rightarrow> 1638 | Some t \<Rightarrow> t) channel)"
  have nodes: "clone_ok (pnd_packet p)" "hdr_channelId (pkt_header (pnd_packet p)) < 256"
    if "p \<in> set (rt_pending r)" for p using inv that by (simp_all add: rt_inv_def node_ok_def)
  obtain as qs where snap: "snapshot mem due (rt_pending r) = Some (as, qs)"
    using snapshot_total[OF assms(2), of "rt_pending r" due] nodes by auto
  have inv': "rt_inv (map at_ref (rev as)) (r\<lparr>rt_pending := qs\<rparr>)"
    using rev_inv[OF snapshot_inv[OF inv snap]] by (simp add: rev_map)
  have ch: "\<forall>a \<in> set (rev as). hdr_channelId (pkt_header (at_packet a)) < 256"
    using snapshot_refs(3)[OF snap] nodes(2) by fastforce
  have "length as = length (filter due (rt_pending r))"
    using snapshot_refs(2)[OF snap] by (metis length_map)
  then have "length (rev as) \<le> length (rt_pending r)" by simp
  then show ?thesis
    using process_loop_safe[OF assms(3) inv' ch, of ticks nowMs "\<lambda>_. False" c 0] snap inv
    by (auto simp: Process_def Let_def due_def[symmetric])
qed

section \<open>Order of the attempts\<close>

text \<open>
  A sender that only records what it was given: \<open>ok\<close> is the outcome of the transport.  The
  attempts made on one channel are the oldest due packets up to and including the first failure.
\<close>

definition record_send :: "(session_packet \<Rightarrow> bool) \<Rightarrow> session_packet list sender" where
  "record_send ok packet r log = (ok packet, packet, r, log @ [packet])"

fun upto_failure :: "('a \<Rightarrow> bool) \<Rightarrow> 'a list \<Rightarrow> 'a list" where
  "upto_failure ok [] = []"
| "upto_failure ok (x # xs) = x # (if ok x then upto_failure ok xs else [])"

fun attempts_made :: "(session_packet \<Rightarrow> bool) \<Rightarrow> (u32 \<Rightarrow> bool) \<Rightarrow> session_packet list \<Rightarrow> session_packet list" where
  "attempts_made ok failed [] = []"
| "attempts_made ok failed (p # ps) =
     (let ch = hdr_channelId (pkt_header p) in
      if failed ch then attempts_made ok failed ps
      else p # attempts_made ok (failed(ch := \<not> ok p)) ps)"

lemma attempts_made_channel:
  "filter (\<lambda>p. hdr_channelId (pkt_header p) = ch) (attempts_made ok failed ps) =
     (if failed ch then [] else upto_failure ok (filter (\<lambda>p. hdr_channelId (pkt_header p) = ch) ps))"
  by (induction ps arbitrary: failed) (auto simp: Let_def)

definition retained :: "retransmission \<Rightarrow> ((u32 \<times> u16 \<times> u16) \<times> ihs_buffer) list" where
  "retained r = map (\<lambda>p. (ident p, pkt_body (pnd_packet p))) (rt_pending r)"

lemma interfering_record_send: "interfering (record_send ok)"
  by (simp add: interfering_def record_send_def)

lemma node_tracked:
  assumes "rt_inv refs r" "rt_detached r = []" "i \<in> set refs"
  obtains p where "node r i = Some p" "pnd_tracked p"
proof -
  obtain p where "node r i = Some p" "p \<in> set (rt_pending r @ rt_detached r)"
    using node_exists[OF assms(1,3)] .
  then show thesis using that assms(1,2) by (auto simp: rt_inv_def)
qed

lemma retained_release:
  assumes "rt_inv (i # refs) r" "rt_detached r = []"
  shows "rt_detached (release i r) = [] \<and> retained (release i r) = retained r"
proof -
  have "\<forall>p \<in> set (rt_pending r). pnd_ref p = i \<longrightarrow> pnd_references p \<noteq> 1"
    using assms(1) by (auto simp: rt_inv_def)
  note run = drop_reference_pending[OF this]
  have "drop_reference i [] = []" by (simp add: drop_reference_def)
  then show ?thesis
    using assms(2) by (simp add: release_def retained_def run ident_def)
qed

lemma retained_set_node:
  "retained (set_node i (note_attempt a packet sent nowMs delayMs) r) = retained r"
  by (simp add: retained_def set_node_def ident_def note_attempt_def Let_def)

lemma process_loop_record:
  assumes "rt_inv (map at_ref as) r" "rt_detached r = []"
    "\<forall>a \<in> set as. hdr_channelId (pkt_header (at_packet a)) < 256"
  shows "\<exists>n r'. process_loop (record_send ok) ticks nowMs as failed r log attempted =
      Some (n, r', log @ attempts_made ok failed (map at_packet as)) \<and> retained r' = retained r"
  using assms
proof (induction as arbitrary: failed r log attempted)
  case Nil
  then show ?case by simp
next
  case (Cons a as)
  let ?i = "at_ref a" and ?ch = "hdr_channelId (pkt_header (at_packet a))"
  have mem: "?i \<in> set (map at_ref (a # as))" by simp
  obtain p where p: "node r ?i = Some p" "pnd_tracked p" using node_tracked[OF Cons.prems(1,2) mem] .
  have ch: "?ch < 256" and rest: "\<forall>a \<in> set as. hdr_channelId (pkt_header (at_packet a)) < 256"
    using Cons.prems(3) by auto
  show ?case
  proof (cases "failed ?ch")
    case True
    have "rt_inv (map at_ref as) (release ?i r)" using release_inv Cons.prems(1) by simp
    moreover have "process_loop (record_send ok) ticks nowMs (a # as) failed r log attempted =
        process_loop (record_send ok) ticks nowMs as failed (release ?i r) log attempted"
      using p ch True by (simp add: Let_def)
    ultimately show ?thesis
      using Cons.IH[of "release ?i r" failed log attempted] retained_release[of ?i "map at_ref as" r] Cons.prems rest True
      by (simp add: Let_def)
  next
    case False
    define st where "st = (let st = rt_st r;
         st = (if pnd_initialSent p then st\<lparr>st_retries := st_retries st + 1\<rparr> else st) in
         if \<not> ok (at_packet a) then st\<lparr>st_sendFailures := st_sendFailures st + 1\<rparr> else st)"
    define r2 where "r2 = set_node ?i (note_attempt a (at_packet a) (ok (at_packet a)) nowMs
        (RetryDelayMs (ticks (log @ [at_packet a])))) (r\<lparr>rt_st := st\<rparr>)"
    have "rt_inv (map at_ref (a # as)) (r\<lparr>rt_st := st\<rparr>)"
      using rt_inv_stats[OF Cons.prems(1)] by (simp add: st_def Let_def)
    then have inv2: "rt_inv (?i # map at_ref as) r2"
      using set_node_inv[OF _ benign_note_attempt] by (simp add: r2_def)
    have r2: "rt_detached r2 = []" "retained r2 = retained r"
      using Cons.prems(2) retained_set_node[of ?i a "at_packet a" "ok (at_packet a)" nowMs _ "r\<lparr>rt_st := st\<rparr>"]
      by (simp_all add: r2_def retained_def) (simp add: set_node_def)
    have run: "process_loop (record_send ok) ticks nowMs (a # as) failed r log attempted =
        process_loop (record_send ok) ticks nowMs as (failed(?ch := \<not> ok (at_packet a))) (release ?i r2)
          (log @ [at_packet a]) (Suc attempted)"
      using p ch False by (simp add: Let_def r2_def st_def record_send_def)
    have "rt_inv (map at_ref as) (release ?i r2)" using release_inv[OF inv2] .
    then obtain n r' where "process_loop (record_send ok) ticks nowMs as (failed(?ch := \<not> ok (at_packet a)))
        (release ?i r2) (log @ [at_packet a]) (Suc attempted) =
        Some (n, r', (log @ [at_packet a]) @ attempts_made ok (failed(?ch := \<not> ok (at_packet a))) (map at_packet as))"
        "retained r' = retained (release ?i r2)"
      using Cons.IH rest retained_release[OF inv2 r2(1)] by blast
    then show ?thesis
      using run retained_release[OF inv2 r2(1)] r2(2) False by (simp add: Let_def)
  qed
qed

section \<open>Acknowledgements\<close>

definition confirmed :: "u32 \<Rightarrow> u16 \<Rightarrow> pending \<Rightarrow> bool" where
  "confirmed channelId bound p \<longleftrightarrow> hdr_channelId (pkt_header (pnd_packet p)) = channelId \<and> pnd_ready p \<and>
     id_below bound (hdr_packetId (pkt_header (pnd_packet p)))"

lemma ack_through_filter:
  "ack_through c i nowMs ps st = (kept, gone, st') \<Longrightarrow>
   kept = filter (\<lambda>p. \<not> confirmed c i p) ps \<and> gone = filter (confirmed c i) ps \<and>
   st_acknowledged st' = st_acknowledged st + of_nat (length gone)"
proof (induction ps arbitrary: st kept gone)
  case Nil
  then show ?case by simp
next
  case (Cons p ps)
  show ?case
  proof (cases "confirmed c i p")
    case True
    then obtain gone' where step: "ack_through c i nowMs ps (note_ack nowMs p st) = (kept, gone', st')" "gone = p # gone'"
      using Cons.prems by (auto simp: Let_def confirmed_def split: prod.splits)
    then show ?thesis using Cons.IH[OF step(1)] True by (simp add: note_ack_def Let_def)
  next
    case False
    then obtain kept' where step: "ack_through c i nowMs ps st = (kept', gone, st')" "kept = p # kept'"
      using Cons.prems by (auto simp: Let_def confirmed_def split: prod.splits)
    then show ?thesis using Cons.IH[OF step(1)] False by simp
  qed
qed

text \<open>Serial-number comparison is the usual one on a window of half the number space.\<close>

lemma id_below_unat: "id_below bound i \<longleftrightarrow> 0 < unat (bound - i) \<and> unat (bound - i) < 2 ^ 15"
proof -
  have "bound - i = 0 \<longleftrightarrow> unat (bound - i) = 0" using unat_eq_0[of "bound - i"] by auto
  moreover have "0x8000 \<le> bound - i \<longleftrightarrow> 2 ^ 15 \<le> unat (bound - i)" by (simp add: word_le_nat_alt)
  ultimately show ?thesis unfolding id_below_def by auto
qed

lemma id_below_iff: "id_below bound i \<longleftrightarrow> (\<exists>d. 0 < d \<and> d < 2 ^ 15 \<and> bound = i + of_nat d)"
proof
  assume "id_below bound i"
  then show "\<exists>d. 0 < d \<and> d < 2 ^ 15 \<and> bound = i + of_nat d"
    unfolding id_below_unat by (intro exI[of _ "unat (bound - i)"]) simp
next
  assume "\<exists>d. 0 < d \<and> d < 2 ^ 15 \<and> bound = i + of_nat d"
  then obtain d where d: "0 < d" "d < 2 ^ 15" "bound = i + of_nat d" by blast
  then have "unat (bound - i) = d" by (simp add: unat_of_nat)
  then show "id_below bound i" using d(1,2) by (simp add: id_below_unat)
qed

section \<open>Example\<close>

definition demo_reliable :: "u16 \<Rightarrow> session_packet" where
  "demo_reliable i = \<lparr>pkt_header = zero_header\<lparr>hdr_type := IHS_SessionPacketTypeReliable, hdr_packetId := i,
       hdr_channelId := 1\<rparr>,
     pkt_body = \<lparr>buf_data = Some (replicate 13 0 @ [1, 2, 3]), buf_capacity = 16, buf_offset = 13, buf_size = 3,
       buf_suffix = 0, buf_initialCapacity = 16, buf_maxCapacity = 2048\<rparr>, pkt_crc = 0\<rparr>"

lemma demo_reliable_ok: "clone_ok (demo_reliable i)" "hdr_channelId (pkt_header (demo_reliable i)) < 256"
  by (simp_all add: demo_reliable_def clone_ok_def buf_wf_def)

section \<open>Properties\<close>

text \<open>C23: Sending is safe under interference: while the loop has released the lock around a send, other
  threads may track, activate, cancel, acknowledge and negatively acknowledge packets in any order; no
  freed packet is ever touched, no assertion fails, the store keeps its invariant, and when the loop is
  done no unlinked packet is left allocated.\<close>

theorem retransmission_process_safe:
  assumes "rt_inv [] r" "live_alloc mem" "interfering send"
  shows "\<exists>n r' c'. Process mem alloc send ticks r nowMs byTicks nowTicks channel c = Some (n, r', c') \<and>
    rt_inv [] r' \<and> rt_detached r' = [] \<and> n \<le> length (rt_pending r)"
  using Process_safe[OF assms, of alloc ticks nowMs byTicks nowTicks channel c] rt_inv_no_leak by blast

theorem retransmission_process_safe_witness:
  "\<exists>n r' c'. Process zero_mem True (record_send (\<lambda>_. True)) (\<lambda>_. None) IHS_RetransmissionInit 5 True 7 1 [] =
     Some (n, r', c') \<and> rt_detached r' = []"
  using retransmission_process_safe[OF rt_inv_Init live_alloc_zero_mem interfering_record_send] by blast



text \<open>C25: A cumulative acknowledgement releases exactly the activated packets of the channel whose ID lies
  strictly before the bound in serial-number order, keeps all others in order, and counts them.\<close>

theorem retransmission_ack_through_exact:
  "fst (IHS_RetransmissionAcknowledgeThrough r c bound nowMs) = length (filter (confirmed c bound) (rt_pending r)) \<and>
   rt_pending (snd (IHS_RetransmissionAcknowledgeThrough r c bound nowMs)) =
     filter (\<lambda>p. \<not> confirmed c bound p) (rt_pending r) \<and>
   st_acknowledged (rt_st (snd (IHS_RetransmissionAcknowledgeThrough r c bound nowMs))) =
     st_acknowledged (rt_st r) + of_nat (length (filter (confirmed c bound) (rt_pending r))) \<and>
   (id_below bound i \<longleftrightarrow> (\<exists>d. 0 < d \<and> d < 2 ^ 15 \<and> bound = i + of_nat d))"
proof -
  obtain kept gone st where run: "ack_through c bound nowMs (rt_pending r) (rt_st r) = (kept, gone, st)"
    by (metis prod_cases3)
  show ?thesis
    using ack_through_filter[OF run] id_below_iff
    by (simp add: IHS_RetransmissionAcknowledgeThrough_def run)
qed

text \<open>Tracking a packet that fits a datagram either refuses it because one with its identity is retained,
  leaving the store as it is, or retains a copy with the same header and payload that is not due before it is
  activated.\<close>

theorem retransmission_track_spec:
  assumes "live_alloc mem" "clone_ok packet" "buf_offset (pkt_body packet) = 13"
  shows "\<exists>r'. IHS_RetransmissionTrack mem True r packet nowMs =
      Some (\<not> IHS_RetransmissionIsTracked r (hdr_channelId (pkt_header packet)) (hdr_packetId (pkt_header packet))
              (hdr_fragmentId (pkt_header packet)), r') \<and>
    (if IHS_RetransmissionIsTracked r (hdr_channelId (pkt_header packet)) (hdr_packetId (pkt_header packet))
          (hdr_fragmentId (pkt_header packet))
     then r' = r
     else \<exists>p. rt_pending r' = p # rt_pending r \<and> pkt_header (pnd_packet p) = pkt_header packet \<and>
        buf_content (pkt_body (pnd_packet p)) = buf_content (pkt_body packet) \<and>
        (\<forall>now ticks nowTicks delay channel. \<not> PendingDue p now ticks nowTicks delay channel))"
proof -
  obtain clone where clone: "PacketClone mem packet = Some clone" "pkt_header clone = pkt_header packet"
      "buf_content (pkt_body clone) = buf_content (pkt_body packet)"
    using PacketClone_ok[OF assms(1,2)] by metis
  have data: "buf_data (pkt_body packet) \<noteq> None"
    using assms(2) by (auto simp: clone_ok_def buf_wf_def split: option.splits)
  show ?thesis
  proof (cases "IHS_RetransmissionIsTracked r (hdr_channelId (pkt_header packet))
      (hdr_packetId (pkt_header packet)) (hdr_fragmentId (pkt_header packet))")
    case True
    then show ?thesis
      using assms(3) data clone
      by (simp add: IHS_RetransmissionTrack_def IHS_RetransmissionIsTracked_def Let_def)
  next
    case False
    then show ?thesis
      using assms(3) data clone
      by (simp add: IHS_RetransmissionTrack_def IHS_RetransmissionIsTracked_def Let_def PendingDue_def)
  qed
qed

theorem retransmission_track_spec_witness:
  "\<exists>r'. IHS_RetransmissionTrack zero_mem True IHS_RetransmissionInit (demo_reliable 4) 9 = Some (True, r')"
  using retransmission_track_spec[OF live_alloc_zero_mem demo_reliable_ok(1), of 4 IHS_RetransmissionInit 9]
  by (auto simp: demo_reliable_def IHS_RetransmissionIsTracked_def IHS_RetransmissionInit_def)


definition demo_node :: pending where
  "demo_node = \<lparr>pnd_ref = 0, pnd_packet = demo_reliable 4, pnd_firstTrackedMs = 0, pnd_lastSendMs = 0,
     pnd_lastSendTimestamp = 0, pnd_nextRetryMs = - 1, pnd_retryCount = 0, pnd_initialSent = False,
     pnd_ready = True, pnd_nackPending = False, pnd_tracked = True, pnd_references = 1,
     pnd_nextWireCount = 0, pnd_feedbackGeneration = 0\<rparr>"

definition demo_store :: retransmission where
  "demo_store = \<lparr>rt_pending = [demo_node], rt_detached = [], rt_fresh = 1,
     rt_st = zero_stats\<lparr>st_outstanding := 1\<rparr>\<rparr>"


end
