(* ===== verification/GF256.thy ===== *)
theory GF256
  imports Prelude
begin

text \<open>
  The finite field of the forward error correction (\<^verbatim>\<open>session/fec.c\<close>): the tables that
  \<^verbatim>\<open>IHS_FECReceiverCreate\<close> fills, and the proof that they are the multiplication and the
  inverse of the field with 256 elements modulo the polynomial \<open>0x11d\<close>.  The type \<open>gf256\<close> is
  an instance of \<open>field\<close>, so the decoder proofs use the library's algebra.
\<close>

section \<open>The tables\<close>

text \<open>One round of the table loop: the next power of the generator, in \<^verbatim>\<open>unsigned\<close>.\<close>

definition next_value :: "u32 \<Rightarrow> u32" where
  "next_value value =
     (let value = push_bit 1 value in if value AND 256 \<noteq> 0 then value XOR 0x11d else value)"

text \<open>The loop over \<open>i\<close>; \<open>n\<close> rounds are left.\<close>

fun exp_log_loop :: "nat \<Rightarrow> nat \<Rightarrow> u32 \<Rightarrow> bytes \<Rightarrow> bytes \<Rightarrow> bytes \<times> bytes" where
  "exp_log_loop 0 i value exp log = (exp, log)"
| "exp_log_loop (Suc n) i value exp log =
     exp_log_loop n (Suc i) (next_value value)
       (exp[i + 255 := ucast value, i := ucast value])
       (log[unat value := of_nat i])"

text \<open>
  The array \<^verbatim>\<open>exp\<close> is not initialised; \<open>junk\<close> is what it holds before the loop.
\<close>

definition exp_log_tables :: "bytes \<Rightarrow> bytes \<times> bytes" where
  "exp_log_tables junk = exp_log_loop 255 0 1 junk (replicate 256 0)"

definition inverse_table :: "bytes \<Rightarrow> bytes \<Rightarrow> bytes" where
  "inverse_table exp log = map (\<lambda>a. if a = 0 then 0 else exp ! (255 - unat (log ! a))) [0..<256]"

definition multiply_table :: "bytes \<Rightarrow> bytes \<Rightarrow> bytes list" where
  "multiply_table exp log =
     map (\<lambda>a. map (\<lambda>b. if a = 0 \<or> b = 0 then 0 else exp ! (unat (log ! a) + unat (log ! b))) [0..<256])
       [0..<256]"

section \<open>Powers of the generator\<close>

text \<open>Multiplication by the generator on bytes, and the powers of the generator.\<close>

definition xtime :: "u8 \<Rightarrow> u8" where
  "xtime b = push_bit 1 b XOR (if bit b 7 then 0x1d else 0)"

fun gpow :: "nat \<Rightarrow> u8" where
  "gpow 0 = 1"
| "gpow (Suc i) = xtime (gpow i)"

fun gpows :: "nat \<Rightarrow> u8 \<Rightarrow> bytes" where
  "gpows 0 b = []"
| "gpows (Suc n) b = b # gpows n (xtime b)"

lemma all_bytes: "(\<forall>b::u8. P b) \<longleftrightarrow> (\<forall>n\<in>set [0..<256]. P (word_of_nat n))"
proof
  assume a: "\<forall>n\<in>set [0..<256]. P (word_of_nat n)"
  show "\<forall>b::u8. P b"
  proof
    fix b :: u8
    have "unat b < 256" using unsigned_less[of b, where 'a = nat] by simp
    then have "P (word_of_nat (unat b))" using a by (metis atLeastLessThan_iff set_upt zero_le)
    then show "P b" by simp
  qed
qed simp

lemma next_value_byte: "next_value (ucast (b :: u8)) = ucast (xtime b)"
proof -
  have "\<forall>b::u8. next_value (ucast b) = ucast (xtime b)"
    unfolding all_bytes by code_simp
  then show ?thesis by simp
qed

lemma gpow_255: "gpow 255 = 1"
  by code_simp

lemma gpows_sorted: "sort (map uint (gpows 255 1)) = [1..255]"
  by code_simp

lemma gpows_cycle: "distinct (gpows 255 1)" "set (map uint (gpows 255 1)) = {1..255}"
proof -
  have "distinct (sort (map uint (gpows 255 1)))" unfolding gpows_sorted by simp
  then show "distinct (gpows 255 1)" by (simp only: distinct_sort distinct_map)
  have "set (sort (map uint (gpows 255 1))) = {1..255}" unfolding gpows_sorted by simp
  then show "set (map uint (gpows 255 1)) = {1..255}" by (simp only: set_sort)
qed

lemma xtime_0 [simp]: "xtime 0 = 0"
  by (simp add: xtime_def)

lemma xtime_xor: "xtime (a XOR b) = xtime a XOR xtime b"
  by (rule bit_word_eqI) (auto simp: xtime_def bit_xor_iff bit_push_bit_iff)

lemma xtime_pow_0 [simp]: "(xtime ^^ i) 0 = 0"
  by (induction i) simp_all

lemma xtime_pow_xor: "(xtime ^^ i) (a XOR b) = (xtime ^^ i) a XOR (xtime ^^ i) b"
  by (induction i) (simp_all add: xtime_xor)

lemma gpow_funpow: "gpow i = (xtime ^^ i) 1"
  by (induction i) simp_all

lemma xtime_pow_gpow: "(xtime ^^ i) (gpow j) = gpow (i + j)"
  by (simp add: gpow_funpow funpow_add)

lemma gpow_add_255 [simp]: "gpow (i + 255) = gpow i"
proof -
  have "gpow (i + 255) = (xtime ^^ i) (gpow 255)" by (simp add: xtime_pow_gpow)
  then show ?thesis by (simp only: gpow_255) (simp add: gpow_funpow)
qed

lemma gpows_nth: "i < n \<Longrightarrow> gpows n b ! i = (xtime ^^ i) b"
  by (induction n arbitrary: i b) (auto simp: nth_Cons' funpow_swap1 split: nat_diff_split)

lemma length_gpows [simp]: "length (gpows n b) = n"
  by (induction n arbitrary: b) simp_all

lemma gpow_nonzero: "i < 255 \<Longrightarrow> gpow i \<noteq> 0"
proof
  assume i: "i < 255" and "gpow i = 0"
  then have "uint (0 :: u8) \<in> set (map uint (gpows 255 1))"
    by (metis gpow_funpow gpows_nth length_gpows length_map nth_map nth_mem)
  then show False unfolding gpows_cycle by simp
qed

lemma gpow_inj: "i < 255 \<Longrightarrow> j < 255 \<Longrightarrow> gpow i = gpow j \<longleftrightarrow> i = j"
  using gpows_cycle(1) by (metis gpow_funpow gpows_nth length_gpows nth_eq_iff_index_eq)

lemma gpow_onto:
  assumes "a \<noteq> 0" shows "\<exists>i<255. gpow i = a"
proof -
  have "uint a \<noteq> 0" using assms by (simp add: uint_0_iff)
  moreover have "0 \<le> uint a" "uint a < 256" using uint_bounded[of a] by simp_all
  ultimately have "1 \<le> uint a" "uint a \<le> 255" by linarith+
  then have "uint a \<in> set (map uint (gpows 255 1))" unfolding gpows_cycle by simp
  then have "a \<in> set (gpows 255 1)" by (auto simp flip: word_uint_eq_iff)
  then obtain i where "i < 255" "gpows 255 1 ! i = a" by (auto simp: in_set_conv_nth)
  then show ?thesis using gpows_nth[of i 255 1] by (auto simp: gpow_funpow)
qed

text \<open>The discrete logarithm.\<close>

definition glog :: "u8 \<Rightarrow> nat" where
  "glog a = (THE i. i < 255 \<and> gpow i = a)"

lemma glog_gpow: "i < 255 \<Longrightarrow> glog (gpow i) = i"
  unfolding glog_def by (rule the_equality) (auto simp: gpow_inj)

lemma glog_bound: "a \<noteq> 0 \<Longrightarrow> glog a < 255"
  using gpow_onto glog_gpow by metis

lemma gpow_glog: "a \<noteq> 0 \<Longrightarrow> gpow (glog a) = a"
  using gpow_onto glog_gpow by metis

section \<open>The tables hold the powers and the logarithms\<close>

definition tables_upto :: "nat \<Rightarrow> bytes \<Rightarrow> bytes \<Rightarrow> bool" where
  "tables_upto i exp log \<longleftrightarrow> length exp = 510 \<and> length log = 256 \<and>
     (\<forall>j<i. exp ! j = gpow j \<and> exp ! (j + 255) = gpow j \<and> log ! unat (gpow j) = of_nat j)"

lemma unat_byte: "unat (b :: u8) < 256"
  using unsigned_less[of b, where 'a = nat] by simp

lemma tables_upto_step:
  assumes t: "tables_upto i exp log" and i: "i < 255"
  shows "tables_upto (Suc i) (exp[i + 255 := gpow i, i := gpow i]) (log[unat (gpow i) := of_nat i])"
proof -
  have other: "unat (gpow i) \<noteq> unat (gpow j)" if "j < i" for j
    using that i gpow_inj[of j i] by (auto simp flip: word_unat_eq_iff)
  show ?thesis
    using t i unat_byte[of "gpow i"]
    by (auto simp: tables_upto_def nth_list_update less_Suc_eq dest: other)
qed

lemma exp_log_loop_tables:
  assumes "tables_upto i exp log" "n + i = 255"
  shows "case exp_log_loop n i (ucast (gpow i)) exp log of (e, l) \<Rightarrow> tables_upto 255 e l"
  using assms
proof (induction n arbitrary: i exp log)
  case (Suc n)
  have "ucast (ucast (gpow i) :: u32) = gpow i" "unat (ucast (gpow i) :: u32) = unat (gpow i)"
    by (simp_all add: unsigned_ucast_eq take_bit_word_eq_self take_bit_nat_eq_self unat_byte order.strict_trans2[OF unat_byte])
  moreover have "next_value (ucast (gpow i)) = ucast (gpow (Suc i))" by (simp add: next_value_byte)
  ultimately show ?case
    using Suc.IH[OF tables_upto_step[OF Suc.prems(1)]] Suc.prems(2) by simp
qed (simp add: case_prod_beta)

lemma exp_log_tables_ok:
  assumes "length junk = 510"
  obtains e l where "exp_log_tables junk = (e, l)" "tables_upto 255 e l"
proof -
  have "tables_upto 0 junk (replicate 256 0)" using assms by (simp add: tables_upto_def)
  from exp_log_loop_tables[OF this, of 255] show ?thesis
    using that by (auto simp: exp_log_tables_def)
qed

lemma tables_exp:
  assumes "tables_upto 255 e l" "k < 510" shows "e ! k = gpow k"
proof (cases "k < 255")
  case False
  define j where "j = k - 255"
  have "k = j + 255" "j < 255" using False assms(2) by (simp_all add: j_def)
  then show ?thesis using assms(1) by (simp add: tables_upto_def)
qed (use assms(1) in \<open>simp add: tables_upto_def\<close>)

lemma tables_log:
  assumes "tables_upto 255 e l" "a \<noteq> 0" shows "unat (l ! unat a) = glog a"
proof -
  have "l ! unat a = of_nat (glog a)"
    using assms gpow_glog[OF assms(2)] glog_bound[OF assms(2)] unfolding tables_upto_def by metis
  moreover have "glog a < 2 ^ 8" using glog_bound[OF assms(2)] by simp
  ultimately show ?thesis by (simp add: unat_of_nat)
qed

section \<open>The field\<close>

definition gmul :: "u8 \<Rightarrow> u8 \<Rightarrow> u8" where
  "gmul a b = (if a = 0 \<or> b = 0 then 0 else gpow (glog a + glog b))"

definition ginv :: "u8 \<Rightarrow> u8" where
  "ginv a = (if a = 0 then 0 else gpow (255 - glog a))"

lemma gmul_left: "a \<noteq> 0 \<Longrightarrow> gmul a b = (xtime ^^ glog a) b"
  by (cases "b = 0") (simp_all add: gmul_def gpow_glog flip: xtime_pow_gpow)

lemma gmul_comm: "gmul a b = gmul b a"
  by (auto simp: gmul_def add.commute)

lemma gmul_0 [simp]: "gmul 0 b = 0" "gmul a 0 = 0"
  by (simp_all add: gmul_def)

lemma gmul_xor: "gmul a (b XOR c) = gmul a b XOR gmul a c"
  by (cases "a = 0") (simp_all add: gmul_left xtime_pow_xor)

lemma gpow_nonzero_any: "gpow i \<noteq> 0"
proof (induction i rule: less_induct)
  case (less i)
  show ?case
  proof (cases "i < 255")
    case False
    then have "i = (i - 255) + 255" by simp
    then have "gpow i = gpow (i - 255)" by (metis gpow_add_255)
    then show ?thesis using less[of "i - 255"] False by simp
  qed (rule gpow_nonzero)
qed

lemma gmul_nonzero: "a \<noteq> 0 \<Longrightarrow> b \<noteq> 0 \<Longrightarrow> gmul a b \<noteq> 0"
  by (simp add: gmul_def gpow_nonzero_any)

lemma xtime_pow_255: "(xtime ^^ 255) c = c"
proof (cases "c = 0")
  case False
  then have "(xtime ^^ 255) c = gpow (255 + glog c)" by (metis gpow_glog xtime_pow_gpow)
  also have "\<dots> = c" using gpow_glog[OF False] by (subst add.commute) simp
  finally show ?thesis .
qed simp

lemma xtime_pow_cong: "gpow i = gpow j \<Longrightarrow> (xtime ^^ i) c = (xtime ^^ j) c"
proof (cases "c = 0")
  case False
  assume a: "gpow i = gpow j"
  have "(xtime ^^ k) c = (xtime ^^ glog c) (gpow k)" for k
    using gpow_glog[OF False] by (metis add.commute xtime_pow_gpow)
  then show ?thesis using a by simp
qed simp

lemma gmul_assoc: "gmul (gmul a b) c = gmul a (gmul b c)"
proof (cases "a = 0 \<or> b = 0")
  case False
  have "gmul (gmul a b) c = (xtime ^^ glog (gmul a b)) c"
    using gmul_left[OF gmul_nonzero] False by simp
  also have "\<dots> = (xtime ^^ (glog a + glog b)) c"
    by (rule xtime_pow_cong) (use False in \<open>simp add: gpow_glog[OF gmul_nonzero]\<close>, simp add: gmul_def)
  finally show ?thesis using False by (simp add: gmul_left funpow_add)
qed auto

lemma gmul_1: "gmul 1 b = b"
proof -
  have "glog 1 = 0" using glog_gpow[of 0] by simp
  then show ?thesis using gmul_left[of 1 b] by simp
qed

lemma gmul_ginv: "a \<noteq> 0 \<Longrightarrow> gmul (ginv a) a = 1"
proof -
  assume a: "a \<noteq> 0"
  have "gmul (ginv a) a = gmul a (ginv a)" by (rule gmul_comm)
  also have "\<dots> = (xtime ^^ glog a) (gpow (255 - glog a))" using a by (simp add: gmul_left ginv_def)
  also have "\<dots> = gpow 255" using glog_bound[OF a] by (simp add: xtime_pow_gpow)
  finally show ?thesis by (simp only: gpow_255)
qed

typedef gf256 = "UNIV :: u8 set"
  morphisms byte_of gf_of by simp

setup_lifting type_definition_gf256

instantiation gf256 :: field
begin

lift_definition zero_gf256 :: gf256 is 0 .
lift_definition one_gf256 :: gf256 is 1 .
lift_definition plus_gf256 :: "gf256 \<Rightarrow> gf256 \<Rightarrow> gf256" is "(XOR)" .
lift_definition minus_gf256 :: "gf256 \<Rightarrow> gf256 \<Rightarrow> gf256" is "(XOR)" .
lift_definition uminus_gf256 :: "gf256 \<Rightarrow> gf256" is "\<lambda>a. a" .
lift_definition times_gf256 :: "gf256 \<Rightarrow> gf256 \<Rightarrow> gf256" is gmul .
lift_definition inverse_gf256 :: "gf256 \<Rightarrow> gf256" is ginv .
lift_definition divide_gf256 :: "gf256 \<Rightarrow> gf256 \<Rightarrow> gf256" is "\<lambda>a b. gmul a (ginv b)" .

instance
proof
  fix a b c :: gf256
  show "a + b + c = a + (b + c)" by transfer (simp add: xor.assoc)
  show "a + b = b + a" by transfer (simp add: xor.commute)
  show "0 + a = a" by transfer simp
  show "- a + a = 0" by transfer simp
  show "a - b = a + - b" by transfer simp
  show "a * b * c = a * (b * c)" by transfer (rule gmul_assoc)
  show "a * b = b * a" by transfer (rule gmul_comm)
  show "1 * a = a" by transfer (rule gmul_1)
  show "(a + b) * c = a * c + b * c" by transfer (metis gmul_comm gmul_xor)
  show "(0 :: gf256) \<noteq> 1" by transfer simp
  show "a \<noteq> 0 \<Longrightarrow> inverse a * a = 1" by transfer (rule gmul_ginv)
  show "a div b = a * inverse b" by transfer simp
  show "inverse (0 :: gf256) = 0" by transfer (simp add: ginv_def)
qed

end

lemma gf_of_xor: "gf_of (a XOR b) = gf_of a + gf_of b"
  by (simp add: plus_gf256_def gf_of_inverse)

lemma gf_of_gmul: "gf_of (gmul a b) = gf_of a * gf_of b"
  by (simp add: times_gf256_def gf_of_inverse)

lemma gf_of_ginv: "gf_of (ginv a) = inverse (gf_of a)"
  by (simp add: inverse_gf256_def gf_of_inverse)

lemma gf_of_0 [simp]: "gf_of 0 = 0"
  by (simp add: zero_gf256_def)

lemma gf_of_1 [simp]: "gf_of 1 = 1"
  by (simp add: one_gf256_def)

lemma gf_of_eq [simp]: "gf_of a = gf_of b \<longleftrightarrow> a = b"
  by (simp add: gf_of_inject)

lemma gf_of_eq_0 [simp]: "gf_of a = 0 \<longleftrightarrow> a = 0"
  using gf_of_eq[of a 0] by simp

lemma gf_double: "a + a = (0 :: gf256)"
  by transfer simp

lemma gf_minus: "a - b = a + (b :: gf256)" "- a = (a :: gf256)"
  by (transfer, simp)+

lemmas gf_of_simps = gf_of_xor gf_of_gmul gf_of_ginv

text \<open>The tables are this multiplication and this inverse.\<close>

lemma multiply_table_ok:
  assumes "tables_upto 255 e l"
  shows "multiply_table e l ! unat a ! unat b = gmul a b"
proof (cases "a = 0 \<or> b = 0")
  case True
  then show ?thesis by (auto simp: multiply_table_def unat_byte)
next
  case False
  then have "unat a \<noteq> 0" "unat b \<noteq> 0" by (simp_all add: unat_eq_zero)
  moreover have "glog a + glog b < 510" using False glog_bound[of a] glog_bound[of b] by simp
  ultimately show ?thesis
    using False by (simp add: multiply_table_def unat_byte tables_log[OF assms] tables_exp[OF assms] gmul_def)
qed

lemma inverse_table_ok:
  assumes "tables_upto 255 e l"
  shows "inverse_table e l ! unat a = ginv a"
proof (cases "a = 0")
  case False
  then have "unat a \<noteq> 0" by (simp add: unat_eq_zero)
  then show ?thesis
    using False by (simp add: inverse_table_def unat_byte tables_log[OF assms] tables_exp[OF assms] ginv_def)
qed (simp add: inverse_table_def ginv_def)

lemma length_tables [simp]:
  "length (inverse_table e l) = 256" "length (multiply_table e l) = 256"
  by (simp_all add: inverse_table_def multiply_table_def)

end
