(* ===== verification/FEC.thy ===== *)
theory FEC
  imports Packet Window GF256
begin

text \<open>
  The forward-error-correction receiver (\<^verbatim>\<open>session/fec.c\<close>).  A group of packets carries the
  shards of a message followed by parity shards; the receiver keeps one group at a time and
  hands out a frame as soon as enough shards have arrived, rebuilding the missing data shards
  from the parity by Gauss--Jordan elimination over the field of \<open>GF256\<close>.

  The tables and the shard memory are kept as the arrays of the source; the scratch matrix and
  right-hand sides, which are flat arrays with a fixed row length there, are lists of rows.
  \<^verbatim>\<open>calloc\<close> may fail: \<open>mem n\<close> is \<^term>\<open>None\<close> when there is no block of \<open>n\<close> bytes.
\<close>

section \<open>State\<close>

datatype fec_error = FECReceiveOK | FECReceiveNoMemory

record fec_receiver =
  fec_multiply :: "bytes list"
  fec_inverse :: bytes
  fec_shards :: "bytes option"
  fec_present :: "bool list option"
  fec_length :: nat
  fec_dataCount :: nat
  fec_shardSize :: nat
  fec_parityCount :: nat
  fec_group :: u16
  fec_lastDelivered :: u16
  fec_received :: nat
  fec_firstHeader :: packet_header
  fec_err :: fec_error

definition IHS_FEC_MAX_DATA_BYTES :: nat where
  "IHS_FEC_MAX_DATA_BYTES = (2 * 1024 * 1024 + 65535 - 1) div 65535 * 65535"

definition calloc_bytes :: "allocator \<Rightarrow> nat \<Rightarrow> bytes option" where
  "calloc_bytes mem n = map_option (\<lambda>_. replicate n 0) (mem n)"

section \<open>Operations\<close>

text \<open>\<open>junk\<close> is the uninitialised stack array \<^verbatim>\<open>exp\<close>.\<close>

definition IHS_FECReceiverCreate :: "bytes \<Rightarrow> fec_receiver" where
  "IHS_FECReceiverCreate junk =
     (case exp_log_tables junk of (exp, log) \<Rightarrow>
        \<lparr>fec_multiply = multiply_table exp log, fec_inverse = inverse_table exp log,
         fec_shards = None, fec_present = None, fec_length = 0, fec_dataCount = 0,
         fec_shardSize = 0, fec_parityCount = 0, fec_group = 0, fec_lastDelivered = 0xFFFF,
         fec_received = 0, fec_firstHeader = zero_header, fec_err = FECReceiveOK\<rparr>)"

definition Reset :: "fec_receiver \<Rightarrow> fec_receiver" where
  "Reset r = r\<lparr>fec_shards := None, fec_present := None, fec_received := 0\<rparr>"

text \<open>Destroying a receiver drops its group; the receiver itself is then freed.\<close>

definition IHS_FECReceiverDestroy :: "fec_receiver \<Rightarrow> fec_receiver" where
  "IHS_FECReceiverDestroy r = Reset r"

definition IHS_FECReceiverLastError :: "fec_receiver \<Rightarrow> fec_error" where
  "IHS_FECReceiverLastError r = fec_err r"

definition MultiplyAdd :: "fec_receiver \<Rightarrow> bytes \<Rightarrow> bytes \<Rightarrow> u8 \<Rightarrow> bytes" where
  "MultiplyAdd r dst src coefficient =
     map2 (\<lambda>d s. d XOR fec_multiply r ! unat coefficient ! unat s) dst src"

text \<open>The coefficient of a data column in a parity row.\<close>

definition coefficient :: "fec_receiver \<Rightarrow> nat \<Rightarrow> nat \<Rightarrow> u8" where
  "coefficient r col row = fec_inverse r ! ((fec_parityCount r + col) XOR row)"

definition read_shard :: "fec_receiver \<Rightarrow> bytes \<Rightarrow> nat \<Rightarrow> bytes option" where
  "read_shard r shards k = mem_read shards (k * fec_shardSize r) (fec_shardSize r)"

text \<open>A row of the matrix: the coefficients of the missing columns, then a unit row.\<close>

definition equation :: "fec_receiver \<Rightarrow> nat list \<Rightarrow> nat \<Rightarrow> nat \<Rightarrow> bytes" where
  "equation r missing p row =
     map (\<lambda>col. coefficient r col p) missing @ (replicate (length missing) 0)[row := 1]"

text \<open>Subtracting the received data columns from a parity shard.\<close>

fun subtract_known ::
    "fec_receiver \<Rightarrow> bytes \<Rightarrow> bool list \<Rightarrow> nat \<Rightarrow> nat list \<Rightarrow> bytes \<Rightarrow> bytes option" where
  "subtract_known r shards present p [] acc = Some acc"
| "subtract_known r shards present p (col # cols) acc =
     (if present ! col
      then do {
        s \<leftarrow> read_shard r shards col;
        subtract_known r shards present p cols (MultiplyAdd r acc s (coefficient r col p))
      }
      else subtract_known r shards present p cols acc)"

definition right_side :: "fec_receiver \<Rightarrow> bytes \<Rightarrow> bool list \<Rightarrow> nat \<Rightarrow> bytes option" where
  "right_side r shards present p = do {
     s \<leftarrow> read_shard r shards (fec_dataCount r + p);
     subtract_known r shards present p [0..<fec_dataCount r] s
   }"

text \<open>One column of the elimination; \<^term>\<open>None\<close> when there is no pivot.\<close>

definition eliminate_column :: "fec_receiver \<Rightarrow> nat \<Rightarrow> bytes list \<Rightarrow> nat \<Rightarrow> bytes list option" where
  "eliminate_column r count matrix col =
     (case find (\<lambda>k. matrix ! k ! col \<noteq> 0) [col..<count] of
        None \<Rightarrow> None
      | Some pivot \<Rightarrow>
          let matrix = (if pivot \<noteq> col then matrix[col := matrix ! pivot, pivot := matrix ! col]
                        else matrix);
              scale = fec_inverse r ! unat (matrix ! col ! col);
              row = map (\<lambda>b. fec_multiply r ! unat scale ! unat b) (matrix ! col);
              matrix = matrix[col := row]
          in Some (map (\<lambda>other.
               let target = matrix ! other; factor = target ! col in
               if other = col \<or> factor = 0 then target else MultiplyAdd r target row factor)
             [0..<count]))"

fun eliminate :: "fec_receiver \<Rightarrow> nat \<Rightarrow> nat list \<Rightarrow> bytes list \<Rightarrow> bytes list option" where
  "eliminate r count [] matrix = Some matrix"
| "eliminate r count (col # cols) matrix =
     (case eliminate_column r count matrix col of
        None \<Rightarrow> None | Some matrix \<Rightarrow> eliminate r count cols matrix)"

text \<open>The missing shard as a combination of the right-hand sides.\<close>

fun combine :: "fec_receiver \<Rightarrow> bytes list \<Rightarrow> bytes \<Rightarrow> bytes \<Rightarrow> bytes" where
  "combine r (b # rhs) (c # cs) dst = combine r rhs cs (MultiplyAdd r dst b c)"
| "combine r rhs cs dst = dst"

fun store_missing ::
    "fec_receiver \<Rightarrow> bytes list \<Rightarrow> nat list \<Rightarrow> bytes list \<Rightarrow> bytes \<Rightarrow> bytes option" where
  "store_missing r rhs (k # missing) (row # matrix) shards = do {
     shards \<leftarrow> mem_write shards (k * fec_shardSize r)
       (combine r rhs (drop (length rhs) row) (replicate (fec_shardSize r) 0));
     store_missing r rhs missing matrix shards
   }"
| "store_missing r rhs missing matrix shards = Some shards"

fun right_sides :: "fec_receiver \<Rightarrow> bytes \<Rightarrow> bool list \<Rightarrow> nat list \<Rightarrow> bytes list option" where
  "right_sides r shards present [] = Some []"
| "right_sides r shards present (p # ps) = do {
     b \<leftarrow> right_side r shards present p;
     bs \<leftarrow> right_sides r shards present ps;
     Some (b # bs)
   }"

definition Reconstruct :: "allocator \<Rightarrow> fec_receiver \<Rightarrow> (bool \<times> fec_receiver) option" where
  "Reconstruct mem r = do {
     shards \<leftarrow> fec_shards r;
     present \<leftarrow> fec_present r;
     let missing = filter (\<lambda>i. \<not> present ! i) [0..<fec_dataCount r];
     let count = length missing;
     if count > 255 then Some (False, r)
     else if count = 0 then Some (True, r)
     else if fec_parityCount r = 0 \<or> count > fec_parityCount r \<or>
             fec_dataCount r + fec_parityCount r > 255 then Some (False, r)
     else do {
       let parity = take count (filter (\<lambda>i. present ! (fec_dataCount r + i)) [0..<fec_parityCount r]);
       if length parity \<noteq> count then Some (False, r)
       else if calloc_bytes mem (count * (count * 2)) = None \<or>
               calloc_bytes mem (count * fec_shardSize r) = None
         then Some (False, r\<lparr>fec_err := FECReceiveNoMemory\<rparr>)
       else do {
         rhs \<leftarrow> right_sides r shards present parity;
         let matrix = map (\<lambda>row. equation r missing (parity ! row) row) [0..<count];
         case eliminate r count [0..<count] matrix of
           None \<Rightarrow> Some (False, r)
         | Some matrix \<Rightarrow> do {
             shards \<leftarrow> store_missing r rhs missing matrix shards;
             Some (True, r\<lparr>fec_shards := Some shards\<rparr>)
           }
       }
     }
   }"

text \<open>
  The geometry of a group, as the shard announces it: the message length, the shard size and the
  numbers of data and parity shards; \<^term>\<open>None\<close> when the packet is refused.
\<close>

definition group_geometry ::
    "session_packet \<Rightarrow> nat \<Rightarrow> nat \<Rightarrow> nat \<Rightarrow> (nat \<times> nat \<times> nat) option" where
  "group_geometry packet len shardSize parity =
     (if len = 0 \<or> len > IHS_FEC_MAX_DATA_BYTES \<or> shardSize = 0 \<or>
         buf_size (pkt_body packet) \<noteq> shardSize + 8 then None
      else
        let data = (len + shardSize - 1) div shardSize;
            total = data + parity;
            index = unat (hdr_fragmentId (pkt_header packet)) in
        if data * shardSize > IHS_FEC_MAX_DATA_BYTES \<or> total > 65536 \<or> index \<ge> total \<or>
           (parity \<noteq> 0 \<and> total > 255) then None
        else Some (data, total, index))"

text \<open>Opening a group: the previous one is dropped.\<close>

definition open_group ::
    "allocator \<Rightarrow> fec_receiver \<Rightarrow> packet_header \<Rightarrow> nat \<Rightarrow> nat \<Rightarrow> nat \<Rightarrow> nat \<Rightarrow> fec_receiver option" where
  "open_group mem r header len shardSize parity data =
     (let r = Reset r; total = data + parity in
      case (calloc_bytes mem (total * shardSize), calloc_bytes mem total) of
        (Some shards, Some _) \<Rightarrow>
          Some (r\<lparr>fec_shards := Some shards, fec_present := Some (replicate total False),
                  fec_group := hdr_packetId header, fec_length := len, fec_shardSize := shardSize,
                  fec_dataCount := data, fec_parityCount := parity,
                  fec_firstHeader := header\<lparr>hdr_receiveBegin := 0\<rparr>\<rparr>)
      | _ \<Rightarrow> None)"

text \<open>The header that the frame will carry, after one more shard.\<close>

definition merge_header :: "packet_header \<Rightarrow> packet_header \<Rightarrow> packet_header" where
  "merge_header first header =
     (let begin = hdr_receiveBegin first;
          first = (if unat (hdr_fragmentId header) < unat (hdr_fragmentId first) then header else first)
      in first\<lparr>hdr_receiveBegin := (if begin \<noteq> 0 then begin else hdr_receiveTimestamp header),
               hdr_receiveTimestamp := hdr_receiveTimestamp header\<rparr>)"

text \<open>Storing a shard of the open group and, once there are enough, delivering the frame.\<close>

definition accept_shard ::
    "allocator \<Rightarrow> fec_receiver \<Rightarrow> session_packet \<Rightarrow> bytes \<Rightarrow> nat \<Rightarrow> session_frame \<Rightarrow>
       (bool \<times> fec_receiver \<times> session_frame) option" where
  "accept_shard mem r packet payload index frame = do {
     let r = r\<lparr>fec_firstHeader := merge_header (fec_firstHeader r) (pkt_header packet)\<rparr>;
     shards \<leftarrow> fec_shards r;
     present \<leftarrow> fec_present r;
     if present ! index then Some (False, r, frame)
     else do {
       shards \<leftarrow> mem_write shards (index * fec_shardSize r) payload;
       let r = r\<lparr>fec_shards := Some shards, fec_present := Some (present[index := True]),
                 fec_received := fec_received r + 1\<rparr>;
       if fec_received r < fec_dataCount r then Some (False, r, frame)
       else do {
         (ok, r) \<leftarrow> Reconstruct mem r;
         if \<not> ok then Some (False, r, frame)
         else do {
           let capacity = (fec_dataCount r + fec_parityCount r) * fec_shardSize r;
           let body = \<lparr>buf_data = fec_shards r, buf_capacity = capacity, buf_offset = 0,
             buf_size = fec_length r, buf_suffix = 0, buf_initialCapacity = 0,
             buf_maxCapacity = capacity\<rparr>;
           Some (True, Reset (r\<lparr>fec_lastDelivered := fec_group r\<rparr>),
             \<lparr>frm_header = fec_firstHeader r, frm_body = body, frm_mediaOffset = 0,
              frm_mediaPrepared = False, frm_receivedRetries = 0\<rparr>)
         }
       }
     }
   }"

definition group_active :: "fec_receiver \<Rightarrow> u16 \<Rightarrow> bool" where
  "group_active r g \<longleftrightarrow> fec_shards r \<noteq> None \<and> fec_group r = g"

definition IHS_FECReceiverAdd ::
    "allocator \<Rightarrow> fec_receiver \<Rightarrow> session_packet \<Rightarrow> session_frame \<Rightarrow>
       (bool \<times> fec_receiver \<times> session_frame) option" where
  "IHS_FECReceiverAdd mem r packet frame =
     (let r = r\<lparr>fec_err := FECReceiveOK\<rparr>; header = pkt_header packet; body = pkt_body packet;
          group = hdr_packetId header; distance = group - fec_lastDelivered r in
      if hdr_type header \<noteq> IHS_SessionPacketTypeUnreliableFEC \<or> buf_size body < 9 \<or>
         IHS_BufferIsNull body then Some (False, r, frame)
      else if distance = 0 \<or> distance \<ge> 0x8000 then Some (False, r, frame)
      else do {
        p \<leftarrow> IHS_BufferPointer body;
        xs \<leftarrow> buf_data body;
        len \<leftarrow> IHS_ReadUInt32LE (drop p xs);
        size \<leftarrow> IHS_ReadUInt16LE (drop (p + 4) xs);
        parity \<leftarrow> IHS_ReadUInt16LE (drop (p + 6) xs);
        case group_geometry packet (unat len) (unat size) (unat parity) of
          None \<Rightarrow> Some (False, r, frame)
        | Some (data, shards, index) \<Rightarrow>
            if group_active r group \<and>
               (fec_length r \<noteq> unat len \<or> fec_shardSize r \<noteq> unat size \<or>
                fec_parityCount r \<noteq> unat parity) then Some (False, r, frame)
            else if \<not> group_active r group
            then (case open_group mem r header (unat len) (unat size) (unat parity) data of
                    None \<Rightarrow> Some (False, (Reset r)\<lparr>fec_err := FECReceiveNoMemory\<rparr>, frame)
                  | Some r \<Rightarrow> do {
                      payload \<leftarrow> buf_load body (p + 8) (unat size);
                      accept_shard mem r packet payload index frame
                    })
            else do {
              payload \<leftarrow> buf_load body (p + 8) (unat size);
              accept_shard mem r packet payload index frame
            }
      })"

end
