(* ===== verification/FEC_Spec.thy ===== *)
theory FEC_Spec
  imports FEC
begin

text \<open>
  What the forward error correction promises.  The code is the systematic Cauchy code of the
  source comment: parity shard \<open>row\<close> is the sum over the data shards \<open>col\<close> of
  \<open>inverse (parityCount + col XOR row)\<close> times the shard.  The lemmas show that elimination on the
  coefficient matrix always finds its pivot on the diagonal (every Schur complement of a Cauchy
  matrix is a scaled Cauchy matrix), that it keeps every linear equation, and hence that the
  decoder returns the original data from any sufficient set of shards.
\<close>

section \<open>Bytes as field elements\<close>

abbreviation gx :: "nat \<Rightarrow> gf256" where
  "gx n \<equiv> gf_of (of_nat n)"

lemma gx_inj: "a < 256 \<Longrightarrow> b < 256 \<Longrightarrow> gx a = gx b \<longleftrightarrow> a = b"
proof -
  assume "a < 256" "b < 256"
  then have "unat (of_nat a :: u8) = a" "unat (of_nat b :: u8) = b" by (simp_all add: unat_of_nat)
  then show ?thesis by (metis gf_of_eq)
qed

lemma gx_sum_nonzero: "a < 256 \<Longrightarrow> b < 256 \<Longrightarrow> a \<noteq> b \<Longrightarrow> gx a + gx b \<noteq> 0"
  using gx_inj[of a b] by (metis gf_minus(1) right_minus_eq)

definition tables_ok :: "fec_receiver \<Rightarrow> bool" where
  "tables_ok r \<longleftrightarrow> (\<forall>a b. fec_multiply r ! unat a ! unat b = gmul a b) \<and>
     (\<forall>a. fec_inverse r ! unat a = ginv a)"

lemma Create_tables: "length junk = 510 \<Longrightarrow> tables_ok (IHS_FECReceiverCreate junk)"
  by (erule exp_log_tables_ok)
    (simp add: IHS_FECReceiverCreate_def tables_ok_def multiply_table_ok inverse_table_ok)

lemma coefficient_gf:
  assumes "tables_ok r" "fec_parityCount r + col < 256" "row < 256"
  shows "gf_of (coefficient r col row) = inverse (gx (fec_parityCount r + col) + gx row)"
proof -
  let ?m = "fec_parityCount r + col"
  have "unat (of_nat ?m XOR of_nat row :: u8) = unat (of_nat ?m :: u8) XOR unat (of_nat row :: u8)"
    by (rule unsigned_xor_eq)
  also have "\<dots> = ?m XOR row" using assms(2,3) by (simp only: unat_of_nat) simp
  finally have "coefficient r col row = ginv (of_nat ?m XOR of_nat row)"
    using assms(1) unfolding coefficient_def tables_ok_def by metis
  then show ?thesis by (simp only: gf_of_simps)
qed

lemma length_MultiplyAdd [simp]: "length (MultiplyAdd r d s c) = min (length d) (length s)"
  by (simp add: MultiplyAdd_def)

lemma MultiplyAdd_gf:
  assumes "tables_ok r" "t < length d" "t < length s"
  shows "gf_of (MultiplyAdd r d s c ! t) = gf_of (d ! t) + gf_of c * gf_of (s ! t)"
  using assms by (simp add: MultiplyAdd_def tables_ok_def gf_of_simps)

section \<open>Elimination\<close>

abbreviation ge :: "bytes list \<Rightarrow> nat \<Rightarrow> nat \<Rightarrow> gf256" where
  "ge M i j \<equiv> gf_of (M ! i ! j)"

definition mat_ok :: "nat \<Rightarrow> bytes list \<Rightarrow> bool" where
  "mat_ok n M \<longleftrightarrow> length M = n \<and> (\<forall>i<n. length (M ! i) = 2 * n)"

lemma eliminate_column_entries:
  assumes tab: "tables_ok r" and M: "mat_ok n M" and k: "k < n" and piv: "M ! k ! k \<noteq> 0"
  shows "\<exists>M'. eliminate_column r n M k = Some M' \<and> mat_ok n M' \<and>
     (\<forall>i<n. \<forall>j<2 * n. ge M' i j =
        (if i = k then ge M k j / ge M k k else ge M i j - ge M i k * (ge M k j / ge M k k)))"
proof -
  have found: "find (\<lambda>i. M ! i ! k \<noteq> 0) [k..<n] = Some k"
    using k piv by (simp add: upt_conv_Cons)
  define scale where "scale = fec_inverse r ! unat (M ! k ! k)"
  define row where "row = map (\<lambda>b. fec_multiply r ! unat scale ! unat b) (M ! k)"
  define N where "N = M[k := row]"
  define M' where "M' = map (\<lambda>i. if i = k \<or> N ! i ! k = 0 then N ! i
     else MultiplyAdd r (N ! i) row (N ! i ! k)) [0..<n]"
  have eq: "eliminate_column r n M k = Some M'"
    by (simp only: eliminate_column_def found M'_def N_def row_def scale_def Let_def option.case
        simp_thms if_False)
  have lens: "length M = n" "\<And>i. i < n \<Longrightarrow> length (M ! i) = 2 * n"
    using M by (simp_all add: mat_ok_def)
  have row: "length row = 2 * n" "\<And>j. j < 2 * n \<Longrightarrow> gf_of (row ! j) = ge M k j / ge M k k"
    using tab lens k
    by (simp_all add: row_def scale_def tables_ok_def gf_of_simps divide_inverse mult.commute)
  have N: "N ! i = (if i = k then row else M ! i)" if "i < n" for i
    using that k lens by (simp add: N_def)
  have "mat_ok n M'" using N row(1) lens k by (simp add: mat_ok_def M'_def)
  moreover have "ge M' i j = (if i = k then ge M k j / ge M k k
     else ge M i j - ge M i k * (ge M k j / ge M k k))" if "i < n" "j < 2 * n" for i j
    using that N[OF that(1)] N[OF k] row lens k
    by (simp add: M'_def MultiplyAdd_gf[OF tab] gf_minus)
  ultimately show ?thesis using eq by blast
qed

text \<open>
  The state before column \<open>k\<close>: unit columns on the left, a scaled Cauchy matrix in the lower
  right corner.
\<close>

definition cauchy_from :: "(nat \<Rightarrow> gf256) \<Rightarrow> (nat \<Rightarrow> gf256) \<Rightarrow> nat \<Rightarrow> nat \<Rightarrow> bytes list \<Rightarrow> bool" where
  "cauchy_from X Y n k M \<longleftrightarrow>
     (\<forall>i<n. \<forall>j<k. ge M i j = (if i = j then 1 else 0)) \<and>
     (\<exists>\<alpha> \<beta>. (\<forall>i. k \<le> i \<longrightarrow> i < n \<longrightarrow> \<alpha> i \<noteq> 0 \<and> \<beta> i \<noteq> 0) \<and>
       (\<forall>i j. k \<le> i \<longrightarrow> i < n \<longrightarrow> k \<le> j \<longrightarrow> j < n \<longrightarrow> ge M i j = \<alpha> i * \<beta> j / (X i + Y j)))"

lemma schur_cauchy:
  fixes a b x y :: "'a::field"
  assumes "x + y \<noteq> 0" "x + yk \<noteq> 0" "xk + y \<noteq> 0" "xk + yk \<noteq> 0" "ak \<noteq> 0" "bk \<noteq> 0"
  shows "a * b / (x + y) - a * bk / (x + yk) * (ak * b / (xk + y) / (ak * bk / (xk + yk))) =
         (a * (x - xk) / (x + yk)) * (b * (y - yk) / (xk + y)) / (x + y)"
  using assms by (simp add: divide_simps) algebra

lemma cauchy_pivot:
  assumes "cauchy_from X Y n k M" "k < n" "X k + Y k \<noteq> 0"
  shows "M ! k ! k \<noteq> 0"
proof -
  have "ge M k k \<noteq> 0" using assms unfolding cauchy_from_def by fastforce
  then show ?thesis by simp
qed

lemma cauchy_step:
  assumes c: "cauchy_from X Y n k M" and k: "k < n"
    and sep: "\<And>i j. i < n \<Longrightarrow> j < n \<Longrightarrow> X i + Y j \<noteq> 0"
    and dis: "\<And>i j. i < n \<Longrightarrow> j < n \<Longrightarrow> i \<noteq> j \<Longrightarrow> X i \<noteq> X j \<and> Y i \<noteq> Y j"
    and e: "\<And>i j. i < n \<Longrightarrow> j < 2 * n \<Longrightarrow> ge M' i j =
        (if i = k then ge M k j / ge M k k else ge M i j - ge M i k * (ge M k j / ge M k k))"
  shows "cauchy_from X Y n (Suc k) M'"
proof -
  obtain \<alpha> \<beta> where nz: "\<And>i. k \<le> i \<Longrightarrow> i < n \<Longrightarrow> \<alpha> i \<noteq> 0 \<and> \<beta> i \<noteq> 0"
    and m: "\<And>i j. k \<le> i \<Longrightarrow> i < n \<Longrightarrow> k \<le> j \<Longrightarrow> j < n \<Longrightarrow> ge M i j = \<alpha> i * \<beta> j / (X i + Y j)"
    using c unfolding cauchy_from_def by blast
  have left: "\<And>i j. i < n \<Longrightarrow> j < k \<Longrightarrow> ge M i j = (if i = j then 1 else 0)"
    using c unfolding cauchy_from_def by blast
  have piv: "ge M k k \<noteq> 0" using cauchy_pivot[OF c k sep[OF k k]] by simp
  have unit: "ge M' i j = (if i = j then 1 else 0)" if "i < n" "j < Suc k" for i j
    using that k left[of k j] left[of i j] e[of i j] piv by (cases "j = k") auto
  let ?a = "\<lambda>i. \<alpha> i * (X i - X k) / (X i + Y k)" and ?b = "\<lambda>j. \<beta> j * (Y j - Y k) / (X k + Y j)"
  have nz': "?a i \<noteq> 0 \<and> ?b i \<noteq> 0" if "Suc k \<le> i" "i < n" for i
    using that nz[of i] dis[of i k] sep[of i k] sep[of k i] k by simp
  have m': "ge M' i j = ?a i * ?b j / (X i + Y j)" if "Suc k \<le> i" "i < n" "Suc k \<le> j" "j < n" for i j
  proof -
    have "ge M' i j = \<alpha> i * \<beta> j / (X i + Y j) -
        \<alpha> i * \<beta> k / (X i + Y k) * (\<alpha> k * \<beta> j / (X k + Y j) / (\<alpha> k * \<beta> k / (X k + Y k)))"
      using that k by (simp add: e m)
    also have "\<dots> = ?a i * ?b j / (X i + Y j)"
      by (rule schur_cauchy) (use that k nz[of k] sep in auto)
    finally show ?thesis .
  qed
  show ?thesis
    unfolding cauchy_from_def
  proof (intro conjI exI)
    show "\<forall>i<n. \<forall>j<Suc k. ge M' i j = (if i = j then 1 else 0)" using unit by blast
    show "\<forall>i. Suc k \<le> i \<longrightarrow> i < n \<longrightarrow> ?a i \<noteq> 0 \<and> ?b i \<noteq> 0" using nz' by blast
    show "\<forall>i j. Suc k \<le> i \<longrightarrow> i < n \<longrightarrow> Suc k \<le> j \<longrightarrow> j < n \<longrightarrow>
        ge M' i j = ?a i * ?b j / (X i + Y j)" using m' by blast
  qed
qed

text \<open>The linear equations that the rows stand for.\<close>

definition solves :: "nat \<Rightarrow> (nat \<Rightarrow> gf256) \<Rightarrow> (nat \<Rightarrow> gf256) \<Rightarrow> bytes list \<Rightarrow> bool" where
  "solves n x b M \<longleftrightarrow>
     (\<forall>i<n. (\<Sum>j<n. ge M i j * x j) = (\<Sum>j<n. ge M i (n + j) * b j))"

lemma solves_step:
  assumes s: "solves n x b M" and k: "k < n"
    and e: "\<And>i j. i < n \<Longrightarrow> j < 2 * n \<Longrightarrow> ge M' i j =
        (if i = k then ge M k j / ge M k k else ge M i j - ge M i k * (ge M k j / ge M k k))"
  shows "solves n x b M'"
  unfolding solves_def
proof (intro allI impI)
  fix i assume i: "i < n"
  have eq: "\<And>i. i < n \<Longrightarrow> (\<Sum>j<n. ge M i j * x j) = (\<Sum>j<n. ge M i (n + j) * b j)"
    using s by (simp add: solves_def)
  show "(\<Sum>j<n. ge M' i j * x j) = (\<Sum>j<n. ge M' i (n + j) * b j)"
  proof (cases "i = k")
    case True
    have "(\<Sum>j<n. ge M' i j * x j) = (\<Sum>j<n. ge M k j * x j) / ge M k k"
      using e[OF i] True by (simp add: sum_divide_distrib)
    moreover have "(\<Sum>j<n. ge M' i (n + j) * b j) = (\<Sum>j<n. ge M k (n + j) * b j) / ge M k k"
      using e[OF i] True by (simp add: sum_divide_distrib)
    ultimately show ?thesis using eq[OF k] by simp
  next
    case False
    let ?f = "ge M i k / ge M k k"
    have "(\<Sum>j<n. ge M' i j * x j) = (\<Sum>j<n. ge M i j * x j) - ?f * (\<Sum>j<n. ge M k j * x j)"
      using e[OF i] False by (simp add: left_diff_distrib sum_subtractf sum_distrib_left mult.assoc)
    moreover have "(\<Sum>j<n. ge M' i (n + j) * b j) =
        (\<Sum>j<n. ge M i (n + j) * b j) - ?f * (\<Sum>j<n. ge M k (n + j) * b j)"
      using e[OF i] False by (simp add: left_diff_distrib sum_subtractf sum_distrib_left mult.assoc)
    ultimately show ?thesis using eq[OF k] eq[OF i] by simp
  qed
qed

lemma eliminate_correct:
  assumes tab: "tables_ok r"
    and sep: "\<And>i j. i < n \<Longrightarrow> j < n \<Longrightarrow> X i + Y j \<noteq> 0"
    and dis: "\<And>i j. i < n \<Longrightarrow> j < n \<Longrightarrow> i \<noteq> j \<Longrightarrow> X i \<noteq> X j \<and> Y i \<noteq> Y j"
    and "k \<le> n" "mat_ok n M" "cauchy_from X Y n k M"
  shows "\<exists>M'. eliminate r n [k..<n] M = Some M' \<and> mat_ok n M' \<and> cauchy_from X Y n n M' \<and>
     (\<forall>x b. solves n x b M \<longrightarrow> solves n x b M')"
  using assms(4-)
proof (induction k arbitrary: M rule: inc_induct)
  case (step k)
  have "M ! k ! k \<noteq> 0" by (rule cauchy_pivot) (use step sep in auto)
  from eliminate_column_entries[OF tab step.prems(1) \<open>k < n\<close> this]
  obtain M1 where M1: "eliminate_column r n M k = Some M1" "mat_ok n M1"
    and e: "\<And>i j. i < n \<Longrightarrow> j < 2 * n \<Longrightarrow> ge M1 i j =
        (if i = k then ge M k j / ge M k k else ge M i j - ge M i k * (ge M k j / ge M k k))" by blast
  have "cauchy_from X Y n (Suc k) M1"
    by (rule cauchy_step[OF step.prems(2) \<open>k < n\<close> sep dis e])
  from step.IH[OF M1(2) this] obtain M' where M': "eliminate r n [Suc k..<n] M1 = Some M'"
    "mat_ok n M'" "cauchy_from X Y n n M'" "\<forall>x b. solves n x b M1 \<longrightarrow> solves n x b M'" by blast
  have "solves n x b M1" if "solves n x b M" for x b
    by (rule solves_step[OF that \<open>k < n\<close> e])
  then show ?case using M' M1(1) step.hyps by (auto simp: upt_conv_Cons)
qed auto

lemma solves_unit:
  assumes "cauchy_from X Y n n M" "solves n x b M" "i < n"
  shows "x i = (\<Sum>j<n. ge M i (n + j) * b j)"
proof -
  have "(\<Sum>j<n. ge M i j * x j) = (\<Sum>j<n. if j = i then x j else 0)"
    using assms(1,3) by (intro sum.cong) (auto simp: cauchy_from_def)
  then show ?thesis using assms(2,3) by (simp add: solves_def)
qed

section \<open>The code\<close>

text \<open>Parity shard \<open>p\<close> of the data shards \<open>D\<close> of a group with \<open>m\<close> parity shards.\<close>

definition encode_parity :: "nat \<Rightarrow> bytes list \<Rightarrow> nat \<Rightarrow> nat \<Rightarrow> bytes" where
  "encode_parity m D sz p =
     map (\<lambda>t. byte_of (\<Sum>c\<leftarrow>[0..<length D]. inverse (gx (m + c) + gx p) * gf_of (D ! c ! t))) [0..<sz]"

definition codeword :: "nat \<Rightarrow> bytes list \<Rightarrow> nat \<Rightarrow> nat \<Rightarrow> bytes" where
  "codeword m D sz k = (if k < length D then D ! k else encode_parity m D sz (k - length D))"

definition shard :: "nat \<Rightarrow> bytes \<Rightarrow> nat \<Rightarrow> bytes" where
  "shard sz xs k = take sz (drop (k * sz) xs)"

text \<open>
  The shard memory of a group: every slot that is marked present holds its shard of the
  codeword.
\<close>

definition group_ok :: "fec_receiver \<Rightarrow> bytes list \<Rightarrow> bytes \<Rightarrow> bool list \<Rightarrow> bool" where
  "group_ok r D xs ps \<longleftrightarrow>
     fec_dataCount r = length D \<and> (\<forall>d\<in>set D. length d = fec_shardSize r) \<and>
     length ps = length D + fec_parityCount r \<and>
     length xs = length ps * fec_shardSize r \<and>
     (\<forall>k<length ps. ps ! k \<longrightarrow>
        shard (fec_shardSize r) xs k = codeword (fec_parityCount r) D (fec_shardSize r) k)"

lemma slot_bound: "(k :: nat) < n \<Longrightarrow> k * s + s \<le> n * s"
  by (metis Suc_leI add.commute mult_Suc mult_le_mono1)

lemma read_shard_ok:
  assumes "group_ok r D xs ps" "k < length ps"
  shows "read_shard r xs k = Some (shard (fec_shardSize r) xs k)"
  using assms slot_bound[OF assms(2), of "fec_shardSize r"]
  by (simp add: read_shard_def mem_read_def shard_def group_ok_def)

lemma length_codeword:
  "\<forall>d\<in>set D. length d = sz \<Longrightarrow> length (codeword m D sz k) = sz"
  by (simp add: codeword_def encode_parity_def)

lemma sum_list_split:
  fixes f :: "'a \<Rightarrow> 'b::comm_monoid_add"
  shows "(\<Sum>x\<leftarrow>xs. f x) = (\<Sum>x\<leftarrow>filter P xs. f x) + (\<Sum>x\<leftarrow>filter (\<lambda>x. \<not> P x) xs. f x)"
  by (induction xs) (auto simp: ac_simps)

lemma gf_add_cancel: "a + (a + b) = (b :: gf256)"
  by (simp add: gf_double flip: add.assoc)

lemma subtract_known_ok:
  assumes tab: "tables_ok r" and g: "group_ok r D xs ps"
    and m: "fec_parityCount r + length D \<le> 255" and p: "p < 256"
    and "set cols \<subseteq> {..<length D}" "length acc = fec_shardSize r"
  shows "\<exists>b. subtract_known r xs ps p cols acc = Some b \<and> length b = fec_shardSize r \<and>
     (\<forall>t<fec_shardSize r. gf_of (b ! t) = gf_of (acc ! t) +
        (\<Sum>c\<leftarrow>filter ((!) ps) cols. inverse (gx (fec_parityCount r + c) + gx p) * gf_of (D ! c ! t)))"
  using assms(5-)
proof (induction cols arbitrary: acc)
  case (Cons c cols)
  show ?case
  proof (cases "ps ! c")
    case True
    let ?s = "fec_shardSize r" and ?m = "fec_parityCount r"
    let ?acc = "MultiplyAdd r acc (D ! c) (coefficient r c p)"
    have c: "c < length D" "c < length ps" using Cons.prems(1) g by (auto simp: group_ok_def)
    have rd: "read_shard r xs c = Some (D ! c)"
      using g True c by (simp add: read_shard_ok[OF g c(2)]) (simp add: group_ok_def codeword_def)
    have ld: "length (D ! c) = ?s" using g c by (simp add: group_ok_def)
    have "length ?acc = ?s" using Cons.prems(2) ld by simp
    from Cons.IH[OF _ this] Cons.prems(1) obtain b where b: "subtract_known r xs ps p cols ?acc = Some b"
      "length b = ?s"
      "\<And>t. t < ?s \<Longrightarrow> gf_of (b ! t) = gf_of (?acc ! t) +
        (\<Sum>c\<leftarrow>filter ((!) ps) cols. inverse (gx (?m + c) + gx p) * gf_of (D ! c ! t))" by auto
    moreover have "gf_of (?acc ! t) = gf_of (acc ! t) + inverse (gx (?m + c) + gx p) * gf_of (D ! c ! t)"
      if "t < ?s" for t
      using that Cons.prems(2) ld c m p by (simp add: MultiplyAdd_gf[OF tab] coefficient_gf[OF tab])
    ultimately show ?thesis using True rd by (simp add: add.assoc)
  next
    case False
    then show ?thesis using Cons by simp
  qed
qed simp

lemma right_side_ok:
  assumes tab: "tables_ok r" and g: "group_ok r D xs ps"
    and m: "fec_parityCount r + length D \<le> 255" and p: "p < fec_parityCount r" "ps ! (length D + p)"
  shows "\<exists>b. right_side r xs ps p = Some b \<and> length b = fec_shardSize r \<and>
     (\<forall>t<fec_shardSize r. gf_of (b ! t) =
        (\<Sum>c\<leftarrow>filter (\<lambda>i. \<not> ps ! i) [0..<length D].
           inverse (gx (fec_parityCount r + c) + gx p) * gf_of (D ! c ! t)))"
proof -
  let ?s = "fec_shardSize r" and ?m = "fec_parityCount r"
  let ?f = "\<lambda>t c. inverse (gx (?m + c) + gx p) * gf_of (D ! c ! t)"
  have k: "length D + p < length ps" using g p by (simp add: group_ok_def)
  have rd: "read_shard r xs (length D + p) = Some (encode_parity ?m D ?s p)"
    using g p(2) k by (simp add: read_shard_ok[OF g k]) (simp add: group_ok_def codeword_def)
  have "\<exists>b. subtract_known r xs ps p [0..<length D] (encode_parity ?m D ?s p) = Some b \<and>
     length b = ?s \<and> (\<forall>t<?s. gf_of (b ! t) = gf_of (encode_parity ?m D ?s p ! t) +
        (\<Sum>c\<leftarrow>filter ((!) ps) [0..<length D]. ?f t c))"
    by (rule subtract_known_ok[OF tab g m]) (use m p(1) in \<open>auto simp: encode_parity_def\<close>)
  then obtain b where sub: "subtract_known r xs ps p [0..<length D] (encode_parity ?m D ?s p) = Some b"
    and b: "length b = ?s" "\<forall>t<?s. gf_of (b ! t) = gf_of (encode_parity ?m D ?s p ! t) +
        (\<Sum>c\<leftarrow>filter ((!) ps) [0..<length D]. ?f t c)" by blast
  have b0: "right_side r xs ps p = Some b"
    using rd sub g by (simp add: right_side_def group_ok_def)
  have "gf_of (b ! t) = (\<Sum>c\<leftarrow>filter (\<lambda>i. \<not> ps ! i) [0..<length D]. ?f t c)" if "t < ?s" for t
  proof -
    have "gf_of (encode_parity ?m D ?s p ! t) = (\<Sum>c\<leftarrow>[0..<length D]. ?f t c)"
      using that by (simp add: encode_parity_def byte_of_inverse)
    also have "\<dots> = (\<Sum>c\<leftarrow>filter ((!) ps) [0..<length D]. ?f t c) +
        (\<Sum>c\<leftarrow>filter (\<lambda>i. \<not> ps ! i) [0..<length D]. ?f t c)" by (rule sum_list_split)
    finally show ?thesis using b(2) that by (simp add: add.commute gf_add_cancel)
  qed
  then show ?thesis using b0 b(1) by blast
qed

lemma right_sides_ok:
  assumes "tables_ok r" "group_ok r D xs ps" "fec_parityCount r + length D \<le> 255"
    and "\<forall>p\<in>set parity. p < fec_parityCount r \<and> ps ! (length D + p)"
  shows "\<exists>rhs. right_sides r xs ps parity = Some rhs \<and> length rhs = length parity \<and>
     (\<forall>i<length parity. length (rhs ! i) = fec_shardSize r \<and>
       (\<forall>t<fec_shardSize r. gf_of (rhs ! i ! t) =
        (\<Sum>c\<leftarrow>filter (\<lambda>i. \<not> ps ! i) [0..<length D].
           inverse (gx (fec_parityCount r + c) + gx (parity ! i)) * gf_of (D ! c ! t))))"
  using assms(4)
proof (induction parity)
  case (Cons p parity)
  obtain b where b: "right_side r xs ps p = Some b" "length b = fec_shardSize r"
     "\<forall>t<fec_shardSize r. gf_of (b ! t) =
        (\<Sum>c\<leftarrow>filter (\<lambda>i. \<not> ps ! i) [0..<length D].
           inverse (gx (fec_parityCount r + c) + gx p) * gf_of (D ! c ! t))"
    using right_side_ok[OF assms(1-3), of p] Cons.prems by (meson list.set_intros(1))
  obtain rhs where rhs: "right_sides r xs ps parity = Some rhs" "length rhs = length parity"
    "\<forall>i<length parity. length (rhs ! i) = fec_shardSize r \<and>
       (\<forall>t<fec_shardSize r. gf_of (rhs ! i ! t) =
        (\<Sum>c\<leftarrow>filter (\<lambda>i. \<not> ps ! i) [0..<length D].
           inverse (gx (fec_parityCount r + c) + gx (parity ! i)) * gf_of (D ! c ! t)))"
    using Cons by auto
  show ?case using b rhs by (auto simp: less_Suc_eq_0_disj)
qed simp

section \<open>Reconstruction\<close>

lemma shard_write:
  assumes "length d = s" "k < n" "length xs = n * s"
  shows "\<exists>ys. mem_write xs (k * s) d = Some ys \<and> length ys = n * s \<and>
     (\<forall>i<n. shard s ys i = (if i = k then d else shard s xs i))"
proof -
  let ?ys = "take (k * s) xs @ d @ drop (k * s + s) xs"
  have fits: "k * s + s \<le> n * s" by (rule slot_bound[OF assms(2)])
  have sl: "shard s ?ys i = (if i = k then d else shard s xs i)" if "i < n" for i
  proof (cases i k rule: linorder_cases)
    case less
    then have "i * s + s \<le> k * s" by (rule slot_bound)
    then have "min s (k * s - i * s) = s" "s \<le> n * s - i * s" "s \<le> k * s - i * s"
      using fits by linarith+
    then show ?thesis using less assms by (simp add: shard_def drop_take)
  next
    case greater
    then have "k * s + s \<le> i * s" by (rule slot_bound)
    then show ?thesis using greater fits assms by (simp add: shard_def)
  qed (use fits assms in \<open>simp add: shard_def\<close>)
  have "mem_write xs (k * s) d = Some ?ys" using fits assms by (simp add: mem_write_def)
  moreover have "length ?ys = n * s" using fits assms by simp
  ultimately show ?thesis using sl by blast
qed

lemma combine_ok:
  assumes tab: "tables_ok r" and "length cs = length rhs" "\<forall>b\<in>set rhs. length b = s" "length dst = s"
  shows "length (combine r rhs cs dst) = s \<and>
     (\<forall>t < s. gf_of (combine r rhs cs dst ! t) =
        gf_of (dst ! t) + (\<Sum>j<length rhs. gf_of (cs ! j) * gf_of (rhs ! j ! t)))"
  using assms(2-)
proof (induction rhs cs arbitrary: dst rule: list_induct2')
  case (4 b rhs c cs)
  then show ?case
    by (simp add: MultiplyAdd_gf[OF tab] sum.lessThan_Suc_shift add.assoc del: sum.lessThan_Suc)
qed simp_all

lemma store_missing_ok:
  assumes "length M = length missing" "distinct missing" "\<forall>k\<in>set missing. k < n"
    and "length xs = n * fec_shardSize r"
    and "\<forall>row\<in>set M. length (combine r rhs (drop (length rhs) row) (replicate (fec_shardSize r) 0)) = fec_shardSize r"
  shows "\<exists>ys. store_missing r rhs missing M xs = Some ys \<and> length ys = length xs \<and>
     (\<forall>k<n. k \<notin> set missing \<longrightarrow> shard (fec_shardSize r) ys k = shard (fec_shardSize r) xs k) \<and>
     (\<forall>i<length missing. shard (fec_shardSize r) ys (missing ! i) =
        combine r rhs (drop (length rhs) (M ! i)) (replicate (fec_shardSize r) 0))"
  using assms
proof (induction missing M arbitrary: xs rule: list_induct2')
  case (4 k missing row M)
  let ?s = "fec_shardSize r"
  let ?d = "\<lambda>row. combine r rhs (drop (length rhs) row) (replicate ?s 0)"
  have "length (?d row) = ?s" "k < n" "length xs = n * ?s" using "4.prems" by simp_all
  from shard_write[OF this] obtain zs where zs: "mem_write xs (k * ?s) (?d row) = Some zs"
    "length zs = n * ?s" "\<forall>i<n. shard ?s zs i = (if i = k then ?d row else shard ?s xs i)" by blast
  have "\<exists>ys. store_missing r rhs missing M zs = Some ys \<and> length ys = length zs \<and>
     (\<forall>k<n. k \<notin> set missing \<longrightarrow> shard ?s ys k = shard ?s zs k) \<and>
     (\<forall>i<length missing. shard ?s ys (missing ! i) = ?d (M ! i))"
    by (rule "4.IH") (use "4.prems" zs(2) in auto)
  then obtain ys where ys: "store_missing r rhs missing M zs = Some ys" "length ys = length zs"
     "\<forall>k<n. k \<notin> set missing \<longrightarrow> shard ?s ys k = shard ?s zs k"
     "\<forall>i<length missing. shard ?s ys (missing ! i) = ?d (M ! i)" by blast
  have "shard ?s ys ((k # missing) ! i) = ?d ((row # M) ! i)" if "i < length (k # missing)" for i
    using that ys(3,4) zs(3) "4.prems"(2,3) by (cases i) auto
  then show ?case using ys zs "4.prems"(4) by auto
qed simp_all

lemma take_filter_props:
  assumes "n \<le> length (filter P [0..<m])"
  shows "length (take n (filter P [0..<m])) = n" "distinct (take n (filter P [0..<m]))"
    "\<forall>p\<in>set (take n (filter P [0..<m])). p < m \<and> P p"
  using assms by (auto dest: in_set_takeD)

lemma Reconstruct_ok:
  assumes tab: "tables_ok r" and st: "fec_shards r = Some xs" "fec_present r = Some ps"
    and g: "group_ok r D xs ps"
    and enough: "length (filter (\<lambda>i. \<not> ps ! i) [0..<length D])
       \<le> length (filter (\<lambda>i. ps ! (length D + i)) [0..<fec_parityCount r])"
    and small: "fec_parityCount r = 0 \<or> length D + fec_parityCount r \<le> 255"
    and mem: "\<forall>n. mem n \<noteq> None"
  shows "\<exists>ys. Reconstruct mem r = Some (True, r\<lparr>fec_shards := Some ys\<rparr>) \<and> length ys = length xs \<and>
     (\<forall>k<length D. shard (fec_shardSize r) ys k = D ! k)"
proof -
  let ?s = "fec_shardSize r" and ?m = "fec_parityCount r"
  define missing where "missing = filter (\<lambda>i. \<not> ps ! i) [0..<length D]"
  define n where "n = length missing"
  define parity where "parity = take n (filter (\<lambda>i. ps ! (length D + i)) [0..<?m])"
  have dc: "fec_dataCount r = length D" using g by (simp add: group_ok_def)
  have lp: "length ps = length D + ?m" "length xs = (length D + ?m) * ?s" using g by (simp_all add: group_ok_def)
  have known: "shard ?s xs k = D ! k" if "k < length D" "k \<notin> set missing" for k
    using that g by (auto simp: missing_def group_ok_def codeword_def)
  have nm: "n \<le> length (filter (\<lambda>i. ps ! (length D + i)) [0..<?m])"
    using enough by (simp add: n_def missing_def)
  have "length (filter (\<lambda>i. ps ! (length D + i)) [0..<?m]) \<le> ?m"
    by (rule order_trans[OF length_filter_le]) simp
  with nm have nle: "n \<le> ?m" by linarith
  show ?thesis
  proof (cases "n = 0")
    case True
    have "r\<lparr>fec_shards := Some xs\<rparr> = r" using st(1) by simp
    then show ?thesis
      using True known st dc
      by (intro exI[of _ xs]) (auto simp: Reconstruct_def n_def missing_def[symmetric])
  next
    case False
    then have total: "?m + length D \<le> 255" using small nle by auto
    have mis: "distinct missing" "\<forall>k\<in>set missing. k < length D" by (auto simp: missing_def)
    note par = take_filter_props[OF nm, folded parity_def]
    obtain rhs where rhs: "right_sides r xs ps parity = Some rhs" "length rhs = n"
      "\<forall>i<n. length (rhs ! i) = ?s \<and> (\<forall>t<?s. gf_of (rhs ! i ! t) =
        (\<Sum>c\<leftarrow>missing. inverse (gx (?m + c) + gx (parity ! i)) * gf_of (D ! c ! t)))"
      using right_sides_ok[OF tab g total par(3)] unfolding missing_def[symmetric] par(1) by blast
    define X where "X i = gx (parity ! i)" for i
    define Y where "Y j = gx (?m + missing ! j)" for j
    define M where "M = map (\<lambda>row. equation r missing (parity ! row) row) [0..<n]"
    have pb: "parity ! i < ?m" if "i < n" for i using that par(1,3) by (metis nth_mem)
    have mb: "missing ! j < length D" if "j < n" for j using that mis(2) by (simp add: n_def)
    have sep: "X i + Y j \<noteq> 0" if "i < n" "j < n" for i j
      unfolding X_def Y_def by (rule gx_sum_nonzero) (use pb[OF that(1)] mb[OF that(2)] total in auto)
    have dis: "X i \<noteq> X j \<and> Y i \<noteq> Y j" if "i < n" "j < n" "i \<noteq> j" for i j
      using that pb[of i] pb[of j] mb[of i] mb[of j] total par(1,2) mis(1)
      by (simp add: X_def Y_def gx_inj nth_eq_iff_index_eq n_def del: of_nat_add gf_of_eq)
    have M: "mat_ok n M" by (simp add: mat_ok_def M_def equation_def n_def)
    have Mleft: "ge M i j = inverse (Y j + X i)" if "i < n" "j < n" for i j
      using that pb[OF that(1)] mb[OF that(2)] total
      by (simp add: M_def equation_def nth_append coefficient_gf[OF tab] X_def Y_def n_def del: of_nat_add)
    have Mright: "ge M i (n + j) = (if i = j then 1 else 0)" if "i < n" "j < n" for i j
      using that by (simp add: M_def equation_def nth_append n_def nth_list_update)
    have "cauchy_from X Y n 0 M"
      unfolding cauchy_from_def
      by (intro conjI exI[of _ "\<lambda>_. 1"]) (auto simp: Mleft divide_inverse add.commute)
    from eliminate_correct[OF tab sep dis le0 M this] obtain M' where
      M': "eliminate r n [0..<n] M = Some M'" "mat_ok n M'" "cauchy_from X Y n n M'"
      "\<forall>x b. solves n x b M \<longrightarrow> solves n x b M'" by blast
    have sol: "solves n (\<lambda>j. gf_of (D ! (missing ! j) ! t)) (\<lambda>j. gf_of (rhs ! j ! t)) M" if t: "t < ?s" for t
      unfolding solves_def
    proof (intro allI impI)
      fix i assume i: "i < n"
      have "(\<Sum>j<n. ge M i (n + j) * gf_of (rhs ! j ! t)) =
          (\<Sum>j<n. if i = j then gf_of (rhs ! j ! t) else 0)"
        using i by (intro sum.cong) (auto simp: Mright)
      also have "\<dots> = gf_of (rhs ! i ! t)" using i by simp
      also have "\<dots> = (\<Sum>j<n. ge M i j * gf_of (D ! (missing ! j) ! t))"
        using rhs(3) i t
        by (simp add: sum_list_sum_nth atLeast0LessThan Mleft X_def Y_def n_def del: of_nat_add)
      finally show "(\<Sum>j<n. ge M i j * gf_of (D ! (missing ! j) ! t)) =
          (\<Sum>j<n. ge M i (n + j) * gf_of (rhs ! j ! t))" by simp
    qed
    have lens: "length M' = n" "\<forall>i<n. length (M' ! i) = 2 * n" using M'(2) by (simp_all add: mat_ok_def)
    have rl: "\<forall>b\<in>set rhs. length b = ?s" using rhs(2,3) by (auto simp: in_set_conv_nth)
    note comb = combine_ok[OF tab _ rl, of "drop n row" "replicate ?s 0" for row, unfolded rhs(2), simplified]
    have blk: "combine r rhs (drop n (M' ! i)) (replicate ?s 0) = D ! (missing ! i)" if i: "i < n" for i
    proof (rule nth_equalityI)
      have ld: "length (drop n (M' ! i)) = n" using lens(2) i by simp
      have dl: "length (D ! (missing ! i)) = ?s" using g mb[OF i] by (simp add: group_ok_def)
      show "length (combine r rhs (drop n (M' ! i)) (replicate ?s 0)) = length (D ! (missing ! i))"
        using comb[of "M' ! i"] ld dl by simp
      fix t assume "t < length (combine r rhs (drop n (M' ! i)) (replicate ?s 0))"
      then have t: "t < ?s" using comb[of "M' ! i"] ld by simp
      have "gf_of (combine r rhs (drop n (M' ! i)) (replicate ?s 0) ! t) =
          (\<Sum>j<n. ge M' i (n + j) * gf_of (rhs ! j ! t))"
        using comb[of "M' ! i"] ld t lens(2) i by simp
      also have "\<dots> = gf_of (D ! (missing ! i) ! t)"
        using solves_unit[OF M'(3) M'(4)[rule_format, OF sol[OF t]] i] by simp
      finally show "combine r rhs (drop n (M' ! i)) (replicate ?s 0) ! t = D ! (missing ! i) ! t" by simp
    qed
    have "\<forall>row\<in>set M'. length (combine r rhs (drop (length rhs) row) (replicate ?s 0)) = ?s"
    proof
      fix row assume "row \<in> set M'"
      then have "length (drop n row) = n" using lens by (auto simp: in_set_conv_nth)
      then show "length (combine r rhs (drop (length rhs) row) (replicate ?s 0)) = ?s"
        using comb[of row] rhs(2) by simp
    qed
    moreover have "\<forall>k\<in>set missing. k < length D + ?m" using mis(2) by auto
    ultimately obtain ys where ys: "store_missing r rhs missing M' xs = Some ys" "length ys = length xs"
      "\<forall>k<length D + ?m. k \<notin> set missing \<longrightarrow> shard ?s ys k = shard ?s xs k"
      "\<forall>i<length missing. shard ?s ys (missing ! i) = combine r rhs (drop n (M' ! i)) (replicate ?s 0)"
      using store_missing_ok[of M' missing "length D + ?m" xs r rhs] lens(1) mis(1) lp(2) rhs(2)
      by (auto simp: n_def)
    have final: "shard ?s ys k = D ! k" if "k < length D" for k
    proof (cases "k \<in> set missing")
      case True
      then obtain i where "i < n" "missing ! i = k" by (auto simp: in_set_conv_nth n_def)
      then show ?thesis using ys(4) blk[of i] by (metis n_def)
    qed (use that ys(3) known in auto)
    have "Reconstruct mem r = Some (True, r\<lparr>fec_shards := Some ys\<rparr>)"
      using False nle total st dc mem rhs(1) M'(1) ys(1) par(1)
      unfolding Reconstruct_def Let_def
      by (simp add: missing_def[symmetric] n_def[symmetric] parity_def[symmetric]
          M_def[symmetric] calloc_bytes_def)
    then show ?thesis using ys(2) final by blast
  qed
qed

end
