(* ===== verification/FEC_Props.thy ===== *)
theory FEC_Props
  imports FEC_Spec
begin

text \<open>
  The receiver as a whole: packets of one group may arrive in any order, with duplicates and
  losses, and the message is delivered exactly once, when as many distinct shards have arrived
  as it has data shards.
\<close>

section \<open>Groups on the wire\<close>

record message =
  msg_group :: u16
  msg_length :: nat
  msg_size :: nat
  msg_parity :: nat
  msg_data :: "bytes list"

abbreviation msg_shards :: "message \<Rightarrow> nat" where
  "msg_shards msg \<equiv> length (msg_data msg) + msg_parity msg"

definition message_ok :: "message \<Rightarrow> bool" where
  "message_ok msg \<longleftrightarrow>
     0 < msg_length msg \<and> msg_length msg \<le> IHS_FEC_MAX_DATA_BYTES \<and>
     0 < msg_size msg \<and> msg_size msg < 65536 \<and> msg_parity msg < 65536 \<and>
     (msg_length msg + msg_size msg - 1) div msg_size msg = length (msg_data msg) \<and>
     (\<forall>d\<in>set (msg_data msg). length d = msg_size msg) \<and>
     length (msg_data msg) * msg_size msg \<le> IHS_FEC_MAX_DATA_BYTES \<and>
     msg_shards msg \<le> 65536 \<and> (msg_parity msg = 0 \<or> msg_shards msg \<le> 255)"

definition shard_bytes :: "message \<Rightarrow> nat \<Rightarrow> bytes" where
  "shard_bytes msg k =
     IHS_WriteUInt32LE (of_nat (msg_length msg)) @ IHS_WriteUInt16LE (of_nat (msg_size msg)) @
     IHS_WriteUInt16LE (of_nat (msg_parity msg)) @ codeword (msg_parity msg) (msg_data msg) (msg_size msg) k"

definition carries :: "message \<Rightarrow> nat \<Rightarrow> session_packet \<Rightarrow> bool" where
  "carries msg k packet \<longleftrightarrow> k < msg_shards msg \<and>
     hdr_type (pkt_header packet) = IHS_SessionPacketTypeUnreliableFEC \<and>
     hdr_packetId (pkt_header packet) = msg_group msg \<and>
     hdr_fragmentId (pkt_header packet) = of_nat k \<and>
     buf_wf (pkt_body packet) \<and> buf_content (pkt_body packet) = shard_bytes msg k"

lemma length_shard_bytes: "message_ok msg \<Longrightarrow> length (shard_bytes msg k) = msg_size msg + 8"
  by (simp add: shard_bytes_def message_ok_def length_codeword u32_wire.length_enc u16_wire.length_enc)

lemma carries_size: "message_ok msg \<Longrightarrow> carries msg k p \<Longrightarrow> buf_size (pkt_body p) = msg_size msg + 8"
  using length_shard_bytes length_buf_content unfolding carries_def by metis

lemma carries_reads:
  assumes "message_ok msg" "carries msg k p"
  obtains o' xs where "IHS_BufferPointer (pkt_body p) = Some o'" "buf_data (pkt_body p) = Some xs"
    "IHS_ReadUInt32LE (drop o' xs) = Some (of_nat (msg_length msg))"
    "IHS_ReadUInt16LE (drop (o' + 4) xs) = Some (of_nat (msg_size msg))"
    "IHS_ReadUInt16LE (drop (o' + 6) xs) = Some (of_nat (msg_parity msg))"
    "buf_load (pkt_body p) (o' + 8) (msg_size msg) =
       Some (codeword (msg_parity msg) (msg_data msg) (msg_size msg) k)"
proof -
  let ?b = "pkt_body p" and ?cw = "codeword (msg_parity msg) (msg_data msg) (msg_size msg) k"
  let ?o = "buf_offset ?b"
  have wf: "buf_wf ?b" and c: "buf_content ?b = shard_bytes msg k" using assms(2) by (simp_all add: carries_def)
  have sz: "buf_size ?b = msg_size msg + 8" by (rule carries_size[OF assms])
  have bnd: "?o + buf_size ?b + buf_suffix ?b \<le> buf_capacity ?b" using buf_wf_bounds[OF wf] by auto
  then obtain xs where xs: "buf_data ?b = Some xs" "length xs = buf_capacity ?b"
    using buf_wf_block[OF wf] sz by (metis add_is_0 bot_nat_0.not_eq_extremum le_zero_eq zero_neq_numeral)
  have split: "drop ?o xs = shard_bytes msg k @ drop (?o + buf_size ?b) xs"
  proof -
    have "shard_bytes msg k = take (buf_size ?b) (drop ?o xs)" using c xs(1) by (simp add: buf_content_def)
    then show ?thesis by (metis add.commute append_take_drop_id drop_drop)
  qed
  have len: "length (IHS_WriteUInt32LE v) = 4" "length (IHS_WriteUInt16LE w) = 2" for v w
    by (simp_all add: u32_wire.length_enc u16_wire.length_enc)
  have "IHS_BufferPointer ?b = Some ?o"
    using PointerAt_in[OF wf, of 0] bnd sz by (simp add: IHS_BufferPointer_def)
  moreover have "IHS_ReadUInt32LE (drop ?o xs) = Some (of_nat (msg_length msg))"
    unfolding split shard_bytes_def by (simp add: u32_wire.dec_enc)
  moreover have d: "drop (?o + i) xs = drop i (shard_bytes msg k @ drop (?o + buf_size ?b) xs)" for i
    by (metis add.commute drop_drop split)
  have "IHS_ReadUInt16LE (drop (?o + 4) xs) = Some (of_nat (msg_size msg))"
    unfolding d[of 4] by (simp add: shard_bytes_def len u16_wire.dec_enc)
  moreover have "IHS_ReadUInt16LE (drop (?o + 6) xs) = Some (of_nat (msg_parity msg))"
    unfolding d[of 6] by (simp add: shard_bytes_def len u16_wire.dec_enc)
  moreover have "length ?cw = msg_size msg"
    using assms(1) by (simp add: message_ok_def length_codeword)
  then have "take (msg_size msg) (drop (?o + 8) xs) = ?cw"
    unfolding d[of 8] by (simp add: shard_bytes_def len)
  then have "buf_load ?b (?o + 8) (msg_size msg) = Some ?cw"
    using xs bnd sz by (simp add: buf_load_def mem_read_def)
  ultimately show ?thesis using that xs(1) by blast
qed

lemma geometry_ok:
  assumes "message_ok msg" "carries msg k p"
  shows "group_geometry p (msg_length msg) (msg_size msg) (msg_parity msg) =
     Some (length (msg_data msg), msg_shards msg, k)"
proof -
  have "k < 65536" using assms by (auto simp: message_ok_def carries_def)
  then have "unat (hdr_fragmentId (pkt_header p)) = k"
    using assms(2) by (simp add: carries_def unat_of_nat)
  moreover have "(msg_length msg + msg_size msg - 1) div msg_size msg = length (msg_data msg)"
    using assms(1) by (simp add: message_ok_def)
  moreover have "0 < msg_length msg" "msg_length msg \<le> IHS_FEC_MAX_DATA_BYTES" "0 < msg_size msg"
    "length (msg_data msg) * msg_size msg \<le> IHS_FEC_MAX_DATA_BYTES" "msg_shards msg \<le> 65536"
    "msg_parity msg = 0 \<or> msg_shards msg \<le> 255" "k < msg_shards msg"
    using assms unfolding message_ok_def carries_def by blast+
  ultimately show ?thesis
    using carries_size[OF assms] unfolding group_geometry_def Let_def by auto
qed

section \<open>Collecting a group\<close>

definition newer :: "fec_receiver \<Rightarrow> u16 \<Rightarrow> bool" where
  "newer r g \<longleftrightarrow> g - fec_lastDelivered r \<noteq> 0 \<and> g - fec_lastDelivered r < 0x8000"

definition fresh :: "message \<Rightarrow> fec_receiver \<Rightarrow> bool" where
  "fresh msg r \<longleftrightarrow> tables_ok r \<and> newer r (msg_group msg) \<and>
     (fec_shards r = None \<or> fec_group r \<noteq> msg_group msg)"

definition collecting :: "message \<Rightarrow> nat set \<Rightarrow> fec_receiver \<Rightarrow> bool" where
  "collecting msg S r \<longleftrightarrow> tables_ok r \<and> newer r (msg_group msg) \<and> fec_group r = msg_group msg \<and>
     fec_length r = msg_length msg \<and> fec_shardSize r = msg_size msg \<and>
     fec_parityCount r = msg_parity msg \<and> fec_received r = card S \<and>
     (\<exists>xs ps. fec_shards r = Some xs \<and> fec_present r = Some ps \<and>
        group_ok r (msg_data msg) xs ps \<and> S = {k. k < length ps \<and> ps ! k})"

definition delivered :: "message \<Rightarrow> fec_receiver \<Rightarrow> bool" where
  "delivered msg r \<longleftrightarrow> tables_ok r \<and> fec_lastDelivered r = msg_group msg \<and> fec_shards r = None"

lemma receiver_frame [simp]:
  "tables_ok (r\<lparr>fec_err := e\<rparr>) = tables_ok r" "newer (r\<lparr>fec_err := e\<rparr>) g = newer r g"
  "group_ok (r\<lparr>fec_err := e\<rparr>) D xs ps = group_ok r D xs ps"
  "collecting msg S (r\<lparr>fec_err := e\<rparr>) = collecting msg S r"
  "tables_ok (r\<lparr>fec_firstHeader := h\<rparr>) = tables_ok r" "newer (r\<lparr>fec_firstHeader := h\<rparr>) g = newer r g"
  "group_ok (r\<lparr>fec_firstHeader := h\<rparr>) D xs ps = group_ok r D xs ps"
  "collecting msg S (r\<lparr>fec_firstHeader := h\<rparr>) = collecting msg S r"
  by (simp_all add: tables_ok_def newer_def group_ok_def collecting_def)

lemma Add_late:
  assumes "delivered msg r" "carries msg k p"
  shows "\<exists>r'. IHS_FECReceiverAdd mem r p f = Some (False, r', f) \<and> delivered msg r'"
  using assms by (simp add: IHS_FECReceiverAdd_def delivered_def carries_def tables_ok_def Let_def)

lemma open_group_ok:
  assumes "\<forall>n. mem n \<noteq> None"
  shows "open_group mem r header len sz parity n =
     Some ((Reset r)\<lparr>fec_shards := Some (replicate ((n + parity) * sz) 0),
       fec_present := Some (replicate (n + parity) False), fec_group := hdr_packetId header,
       fec_length := len, fec_shardSize := sz, fec_dataCount := n, fec_parityCount := parity,
       fec_firstHeader := header\<lparr>hdr_receiveBegin := 0\<rparr>\<rparr>)"
proof -
  obtain a b where "mem ((n + parity) * sz) = Some a" "mem (n + parity) = Some b" using assms by blast
  then show ?thesis by (simp add: open_group_def calloc_bytes_def Let_def)
qed

lemma Add_accepts:
  assumes msg: "message_ok msg" and p: "carries msg k p" and mem: "\<forall>n. mem n \<noteq> None"
    and r: "fresh msg r \<and> S = {} \<or> collecting msg S r"
  shows "\<exists>r1. collecting msg S r1 \<and> IHS_FECReceiverAdd mem r p f =
     accept_shard mem r1 p (codeword (msg_parity msg) (msg_data msg) (msg_size msg) k) k f"
proof -
  let ?cw = "codeword (msg_parity msg) (msg_data msg) (msg_size msg) k"
  have bounds: "msg_length msg < 2 ^ 32" "msg_size msg < 2 ^ 16" "msg_parity msg < 2 ^ 16" "0 < msg_size msg"
    using msg by (simp_all add: message_ok_def IHS_FEC_MAX_DATA_BYTES_def)
  then have un: "unat (of_nat (msg_length msg) :: u32) = msg_length msg"
    "unat (of_nat (msg_size msg) :: u16) = msg_size msg" "unat (of_nat (msg_parity msg) :: u16) = msg_parity msg"
    by (simp_all add: unat_of_nat)
  obtain o' xs where rd: "IHS_BufferPointer (pkt_body p) = Some o'" "buf_data (pkt_body p) = Some xs"
    "IHS_ReadUInt32LE (drop o' xs) = Some (of_nat (msg_length msg))"
    "IHS_ReadUInt16LE (drop (o' + 4) xs) = Some (of_nat (msg_size msg))"
    "IHS_ReadUInt16LE (drop (o' + 6) xs) = Some (of_nat (msg_parity msg))"
    "buf_load (pkt_body p) (o' + 8) (msg_size msg) = Some ?cw"
    by (rule carries_reads[OF msg p])
  have head: "hdr_type (pkt_header p) = 11" "hdr_packetId (pkt_header p) = msg_group msg"
    using p by (simp_all add: carries_def)
  have new: "newer r (msg_group msg)" using r by (auto simp: fresh_def collecting_def)
  have nl: "msg_group msg \<noteq> fec_lastDelivered r" "\<not> msg_group msg - fec_lastDelivered r \<ge> 0x8000"
    using new by (auto simp: newer_def not_le)
  let ?r = "r\<lparr>fec_err := FECReceiveOK\<rparr>"
  note run = IHS_FECReceiverAdd_def rd un head nl Let_def carries_size[OF msg p] IHS_BufferIsNull_def
    geometry_ok[OF msg p]
  from r show ?thesis
  proof
    assume f: "fresh msg r \<and> S = {}"
    obtain r1 where o: "open_group mem ?r (pkt_header p) (msg_length msg) (msg_size msg) (msg_parity msg)
        (length (msg_data msg)) = Some r1" using open_group_ok[OF mem] by blast
    then have "collecting msg {} r1"
      using f msg by (auto simp: open_group_ok[OF mem] collecting_def fresh_def newer_def tables_ok_def
          group_ok_def Reset_def head message_ok_def)
    moreover have "IHS_FECReceiverAdd mem r p f = accept_shard mem r1 p ?cw k f"
    proof -
      have "\<not> group_active ?r (msg_group msg)" using f by (simp add: fresh_def group_active_def)
      then show ?thesis using o bounds by (simp add: run)
    qed
    ultimately show ?thesis using f by blast
  next
    assume c: "collecting msg S r"
    then have "collecting msg S ?r" by simp
    moreover have "IHS_FECReceiverAdd mem r p f = accept_shard mem ?r p ?cw k f"
    proof -
      have "group_active ?r (msg_group msg)" "fec_length r = msg_length msg"
        "fec_shardSize r = msg_size msg" "fec_parityCount r = msg_parity msg"
        using c by (auto simp: collecting_def group_active_def)
      then show ?thesis using bounds by (simp add: run)
    qed
    ultimately show ?thesis by blast
  qed
qed

lemma take_shards:
  assumes "\<forall>k<length D. shard s ys k = D ! k" "n \<le> length D"
  shows "take (n * s) ys = concat (take n D)"
  using assms(2)
proof (induction n)
  case (Suc n)
  have "take (Suc n * s) ys = take (n * s) ys @ shard s ys n"
    unfolding shard_def by (metis add.commute mult_Suc take_add)
  then show ?case using Suc assms(1) by (simp add: take_Suc_conv_app_nth)
qed simp

lemma ceiling_covers:
  assumes "0 < (s :: nat)" shows "a \<le> (a + s - 1) div s * s"
proof -
  have "(a + s - 1) div s * s + (a + s - 1) mod s = a + s - 1" by (rule div_mult_mod_eq)
  moreover have "(a + s - 1) mod s < s" using assms by simp
  ultimately show ?thesis using assms by linarith
qed

lemma length_filter_upt: "length (filter P [0..<n]) = card {i. i < n \<and> P i}"
proof -
  have "length (filter P [0..<n]) = card (set (filter P [0..<n]))"
    by (rule distinct_card[symmetric]) simp
  also have "set (filter P [0..<n]) = {i. i < n \<and> P i}" by auto
  finally show ?thesis .
qed

lemma missing_vs_parity:
  assumes "card {k. k < n + m \<and> P k} = n"
  shows "length (filter (\<lambda>i. \<not> P i) [0..<n]) \<le> length (filter (\<lambda>i. P (n + i)) [0..<m])"
proof -
  let ?A = "{i. i < n \<and> P i}" and ?B = "{i. i < m \<and> P (n + i)}" and ?N = "{i. i < n \<and> \<not> P i}"
  have "{k. k < n + m \<and> P k} = ?A \<union> (+) n ` ?B"
  proof (intro equalityI subsetI)
    fix k assume k: "k \<in> {k. k < n + m \<and> P k}"
    show "k \<in> ?A \<union> (+) n ` ?B"
    proof (cases "k < n")
      case False
      then have "k = n + (k - n)" by simp
      then show ?thesis using k False by (intro UnI2 image_eqI[of _ _ "k - n"]) auto
    qed (use k in simp)
  qed auto
  moreover have "card ((+) n ` ?B) = card ?B" by (intro card_image) simp
  moreover have "?A \<inter> (+) n ` ?B = {}" by auto
  ultimately have "n = card ?A + card ?B" using assms by (simp add: card_Un_disjoint)
  moreover have "{..<n} = ?A \<union> ?N" by auto
  then have "n = card ?A + card ?N"
    by (metis (no_types, lifting) card_Un_disjoint card_lessThan disjoint_iff finite_Un finite_lessThan mem_Collect_eq)
  ultimately show ?thesis by (simp add: length_filter_upt)
qed

lemma present_insert:
  "k < length ps \<Longrightarrow> {j. j < length (ps[k := True]) \<and> ps[k := True] ! j} = insert k {j. j < length ps \<and> ps ! j}"
  by (auto simp: nth_list_update)

text \<open>A stored shard extends the set of shards that the receiver holds.\<close>

lemma store_shard:
  assumes msg: "message_ok msg" and c: "collecting msg S r" and k: "k < msg_shards msg" "k \<notin> S"
    and xs: "fec_shards r = Some xs" "fec_present r = Some ps"
    and w: "mem_write xs (k * msg_size msg) (codeword (msg_parity msg) (msg_data msg) (msg_size msg) k) = Some ys"
  shows "collecting msg (insert k S)
     (r\<lparr>fec_shards := Some ys, fec_present := Some (ps[k := True]), fec_received := fec_received r + 1\<rparr>)"
proof -
  let ?cw = "codeword (msg_parity msg) (msg_data msg) (msg_size msg)"
  have g: "group_ok r (msg_data msg) xs ps" and S: "S = {k. k < length ps \<and> ps ! k}"
    and f: "fec_shardSize r = msg_size msg" "fec_parityCount r = msg_parity msg"
    using c xs by (auto simp: collecting_def)
  have len: "length ps = msg_shards msg" "length xs = msg_shards msg * msg_size msg"
    using g f by (simp_all add: group_ok_def)
  have "length (?cw k) = msg_size msg" using msg by (simp add: message_ok_def length_codeword)
  from shard_write[OF this k(1) len(2)] w
  have ys: "length ys = msg_shards msg * msg_size msg"
    "\<forall>i<msg_shards msg. shard (msg_size msg) ys i = (if i = k then ?cw k else shard (msg_size msg) xs i)"
    by auto
  have "group_ok r (msg_data msg) ys (ps[k := True])"
    using g f ys len by (auto simp: group_ok_def nth_list_update)
  moreover have "card (insert k S) = fec_received r + 1"
    using c k(2) S by (simp add: collecting_def)
  moreover have "insert k S = {j. j < length (ps[k := True]) \<and> ps[k := True] ! j}"
    using S k(1) len(1) by (simp only: present_insert)
  ultimately show ?thesis
    using c unfolding collecting_def
    by (intro conjI exI[of _ ys] exI[of _ "ps[k := True]"]) (simp_all add: tables_ok_def newer_def group_ok_def)
qed

text \<open>A receiver that holds as many shards as there are data shards reconstructs the message.\<close>

lemma collected_reconstructs:
  assumes msg: "message_ok msg" and c: "collecting msg S r" and full: "card S = length (msg_data msg)"
    and mem: "\<forall>n. mem n \<noteq> None"
  shows "\<exists>ys. Reconstruct mem r = Some (True, r\<lparr>fec_shards := Some ys\<rparr>) \<and>
     take (msg_length msg) ys = take (msg_length msg) (concat (msg_data msg))"
proof -
  let ?D = "msg_data msg" and ?s = "msg_size msg"
  obtain xs ps where xs: "fec_shards r = Some xs" "fec_present r = Some ps" "group_ok r ?D xs ps"
    "S = {k. k < length ps \<and> ps ! k}" and f: "tables_ok r" "fec_shardSize r = ?s" "fec_parityCount r = msg_parity msg"
    using c by (auto simp: collecting_def)
  have len: "length ps = length ?D + fec_parityCount r" using xs(3) by (simp add: group_ok_def)
  have "length (filter (\<lambda>i. \<not> ps ! i) [0..<length ?D])
       \<le> length (filter (\<lambda>i. ps ! (length ?D + i)) [0..<fec_parityCount r])"
    by (rule missing_vs_parity) (use full xs(4) len in simp)
  moreover have "fec_parityCount r = 0 \<or> length ?D + fec_parityCount r \<le> 255"
    using msg unfolding message_ok_def f(3) by blast
  ultimately obtain ys where ys: "Reconstruct mem r = Some (True, r\<lparr>fec_shards := Some ys\<rparr>)"
    "\<forall>k<length ?D. shard ?s ys k = ?D ! k"
    using Reconstruct_ok[OF f(1) xs(1-3) _ _ mem] f(2) by auto
  have "take (length ?D * ?s) ys = concat ?D" using take_shards[OF ys(2), of "length ?D"] by simp
  moreover have "msg_length msg \<le> length ?D * ?s"
  proof -
    have "0 < ?s" "(msg_length msg + ?s - 1) div ?s = length ?D" using msg by (simp_all add: message_ok_def)
    then show ?thesis using ceiling_covers by metis
  qed
  ultimately have "take (msg_length msg) ys = take (msg_length msg) (concat ?D)"
    by (metis min.absorb1 take_take)
  then show ?thesis using ys(1) by blast
qed

lemma accept_shard_cases:
  assumes msg: "message_ok msg" and c: "collecting msg S r" and k: "k < msg_shards msg"
    and few: "card S < length (msg_data msg)" and mem: "\<forall>n. mem n \<noteq> None"
  defines "cw \<equiv> codeword (msg_parity msg) (msg_data msg) (msg_size msg) k"
  shows "if card (insert k S) < length (msg_data msg)
     then \<exists>r'. accept_shard mem r p cw k f = Some (False, r', f) \<and> collecting msg (insert k S) r'
     else \<exists>r' f'. accept_shard mem r p cw k f = Some (True, r', f') \<and> delivered msg r' \<and>
       buf_content (frm_body f') = take (msg_length msg) (concat (msg_data msg))"
proof -
  define r1 where "r1 = r\<lparr>fec_firstHeader := merge_header (fec_firstHeader r) (pkt_header p)\<rparr>"
  have c1: "collecting msg S r1" using c by (simp add: r1_def)
  then obtain xs ps where xs: "fec_shards r1 = Some xs" "fec_present r1 = Some ps"
    "group_ok r1 (msg_data msg) xs ps" "S = {k. k < length ps \<and> ps ! k}"
    and f: "fec_shardSize r1 = msg_size msg" "fec_parityCount r1 = msg_parity msg"
    by (auto simp: collecting_def)
  have len: "length ps = msg_shards msg" "length xs = msg_shards msg * msg_size msg"
    and dc: "fec_dataCount r1 = length (msg_data msg)"
    using xs(3) f by (simp_all add: group_ok_def)
  show ?thesis
  proof (cases "k \<in> S")
    case True
    then have "accept_shard mem r p cw k f = Some (False, r1, f)"
      using xs by (simp add: accept_shard_def r1_def Let_def)
    then show ?thesis using True c1 few by (simp add: insert_absorb)
  next
    case False
    have "length cw = msg_size msg" using msg by (simp add: cw_def message_ok_def length_codeword)
    then obtain ys where w: "mem_write xs (k * msg_size msg) cw = Some ys"
      using shard_write[OF _ k len(2)] by blast
    let ?r2 = "r1\<lparr>fec_shards := Some ys, fec_present := Some (ps[k := True]), fec_received := fec_received r1 + 1\<rparr>"
    have c2: "collecting msg (insert k S) ?r2"
      by (rule store_shard[OF msg c1 k False xs(1,2) w[unfolded cw_def]])
    have rec: "fec_received r1 + 1 = card (insert k S)" using c2 by (simp add: collecting_def)
    have np: "\<not> ps ! k" using False xs(4) k len(1) by simp
    have ew: "accept_shard mem r p cw k f =
        (if card (insert k S) < length (msg_data msg) then Some (False, ?r2, f)
         else do { (ok, r) \<leftarrow> Reconstruct mem ?r2;
           if \<not> ok then Some (False, r, f)
           else do {
             let capacity = (fec_dataCount r + fec_parityCount r) * fec_shardSize r;
             let body = \<lparr>buf_data = fec_shards r, buf_capacity = capacity, buf_offset = 0,
               buf_size = fec_length r, buf_suffix = 0, buf_initialCapacity = 0,
               buf_maxCapacity = capacity\<rparr>;
             Some (True, Reset (r\<lparr>fec_lastDelivered := fec_group r\<rparr>),
               \<lparr>frm_header = fec_firstHeader r, frm_body = body, frm_mediaOffset = 0,
                frm_mediaPrepared = False, frm_receivedRetries = 0\<rparr>) } })"
      using xs np w rec f dc by (simp add: accept_shard_def r1_def[symmetric] Let_def)
    show ?thesis
    proof (cases "card (insert k S) < length (msg_data msg)")
      case True
      then show ?thesis using ew c2 by simp
    next
      case full: False
      have "finite S" using xs(4) by simp
      then have "card (insert k S) = length (msg_data msg)" using few full False by simp
      from collected_reconstructs[OF msg c2 this mem] obtain zs where
        zs: "Reconstruct mem ?r2 = Some (True, ?r2\<lparr>fec_shards := Some zs\<rparr>)"
        "take (msg_length msg) zs = take (msg_length msg) (concat (msg_data msg))" by blast
      have "tables_ok r1" "fec_length r1 = msg_length msg" "fec_group r1 = msg_group msg"
        using c1 by (simp_all add: collecting_def)
      then show ?thesis
        using ew full zs by (simp add: buf_content_def delivered_def Reset_def tables_ok_def Let_def)
    qed
  qed
qed

section \<open>Feeding a sequence of packets\<close>

text \<open>The frames that a sequence of packets produces, in order.\<close>

fun feed :: "allocator \<Rightarrow> session_frame \<Rightarrow> fec_receiver \<Rightarrow> session_packet list \<Rightarrow>
    (session_frame list \<times> fec_receiver) option" where
  "feed mem f r [] = Some ([], r)"
| "feed mem f r (p # ps) = do {
     (ok, r, f') \<leftarrow> IHS_FECReceiverAdd mem r p f;
     (fs, r) \<leftarrow> feed mem f r ps;
     Some (if ok then f' # fs else fs, r)
   }"

lemma feed_delivered:
  assumes "delivered msg r" "list_all2 (carries msg) ks ps"
  shows "\<exists>r'. feed mem f r ps = Some ([], r') \<and> delivered msg r'"
  using assms(2,1)
proof (induction arbitrary: r rule: list_all2_induct)
  case (Cons k ks p ps)
  from Add_late[OF Cons.prems Cons.hyps(1)] obtain r1 where
    "IHS_FECReceiverAdd mem r p f = Some (False, r1, f)" "delivered msg r1" by blast
  then show ?case using Cons.IH by fastforce
qed simp

lemma feed_collecting:
  assumes msg: "message_ok msg" and mem: "\<forall>n. mem n \<noteq> None" and "list_all2 (carries msg) ks ps"
    and "fresh msg r \<and> S = {} \<or> collecting msg S r" "card S < length (msg_data msg)"
  shows "\<exists>fs r'. feed mem f r ps = Some (fs, r') \<and>
     (if card (S \<union> set ks) < length (msg_data msg) then fs = []
      else delivered msg r' \<and>
        (\<exists>f'. fs = [f'] \<and> buf_content (frm_body f') = take (msg_length msg) (concat (msg_data msg))))"
  using assms(3-)
proof (induction arbitrary: r S rule: list_all2_induct)
  case (Cons k ks p ps)
  have k: "k < msg_shards msg" using Cons.hyps(1) by (simp add: carries_def)
  from Add_accepts[OF msg Cons.hyps(1) mem Cons.prems(1)] obtain r1 where c1: "collecting msg S r1"
    and run: "IHS_FECReceiverAdd mem r p f =
      accept_shard mem r1 p (codeword (msg_parity msg) (msg_data msg) (msg_size msg) k) k f" by blast
  have un: "S \<union> set (k # ks) = insert k S \<union> set ks" by simp
  have fin: "finite S" using c1 by (auto simp: collecting_def)
  show ?case
  proof (cases "card (insert k S) < length (msg_data msg)")
    case True
    then obtain r2 where r2: "IHS_FECReceiverAdd mem r p f = Some (False, r2, f)" "collecting msg (insert k S) r2"
      using accept_shard_cases[OF msg c1 k Cons.prems(2) mem, of p f] run by auto
    from Cons.IH[OF disjI2[OF r2(2)] True] show ?thesis unfolding un using r2(1) by auto
  next
    case False
    then obtain r2 f' where r2: "IHS_FECReceiverAdd mem r p f = Some (True, r2, f')" "delivered msg r2"
      "buf_content (frm_body f') = take (msg_length msg) (concat (msg_data msg))"
      using accept_shard_cases[OF msg c1 k Cons.prems(2) mem, of p f] run by auto
    have "card (insert k S) \<le> card (insert k S \<union> set ks)" using fin by (intro card_mono) auto
    then have "\<not> card (S \<union> set (k # ks)) < length (msg_data msg)" unfolding un using False by linarith
    moreover obtain r3 where "feed mem f r2 ps = Some ([], r3)" "delivered msg r3"
      using feed_delivered[OF r2(2) Cons.hyps(2)] by blast
    ultimately show ?thesis using r2 by auto
  qed
qed simp

section \<open>Arbitrary packets\<close>

text \<open>
  The receiver's own invariant, which no packet from the network can break: the shard memory has
  the size that the geometry says, and a group with parity fits the field.
\<close>

definition fec_wf :: "fec_receiver \<Rightarrow> bool" where
  "fec_wf r \<longleftrightarrow> (case fec_shards r of None \<Rightarrow> True
     | Some xs \<Rightarrow> (\<exists>ps. fec_present r = Some ps \<and>
         length ps = fec_dataCount r + fec_parityCount r \<and>
         length xs = length ps * fec_shardSize r \<and>
         fec_length r \<le> fec_dataCount r * fec_shardSize r \<and>
         length ps \<le> 65536 \<and> fec_shardSize r < 65536 \<and>
         (fec_length r + fec_shardSize r - 1) div fec_shardSize r = fec_dataCount r))"

lemma fec_wf_frame [simp]:
  "fec_wf (r\<lparr>fec_err := e\<rparr>) = fec_wf r" "fec_wf (r\<lparr>fec_firstHeader := h\<rparr>) = fec_wf r"
  by (simp_all add: fec_wf_def split: option.splits)

lemma fec_wf_Reset [simp]: "fec_wf (Reset r)"
  by (simp add: fec_wf_def Reset_def)

lemma read_shard_safe:
  assumes "length xs = n * fec_shardSize r" "k < n"
  shows "\<exists>s. read_shard r xs k = Some s \<and> length s = fec_shardSize r"
  using slot_bound[OF assms(2), of "fec_shardSize r"] assms(1) by (simp add: read_shard_def mem_read_def)

lemma subtract_known_safe:
  assumes "length xs = n * fec_shardSize r" "\<forall>k\<in>set cols. k < n" "length acc = fec_shardSize r"
  shows "\<exists>b. subtract_known r xs ps p cols acc = Some b \<and> length b = fec_shardSize r"
  using assms(2,3)
proof (induction cols arbitrary: acc)
  case (Cons c cols)
  from read_shard_safe[OF assms(1), of c] Cons.prems(1)
  obtain s where s: "read_shard r xs c = Some s" "length s = fec_shardSize r" by auto
  show ?case using Cons.IH[of acc] Cons.IH[of "MultiplyAdd r acc s (coefficient r c p)"] Cons.prems s by simp
qed simp

lemma right_sides_safe:
  assumes "length xs = n * fec_shardSize r" "fec_dataCount r \<le> n" "\<forall>p\<in>set parity. fec_dataCount r + p < n"
  shows "\<exists>bs. right_sides r xs ps parity = Some bs \<and> (\<forall>b\<in>set bs. length b = fec_shardSize r)"
  using assms(3)
proof (induction parity)
  case (Cons p parity)
  from read_shard_safe[OF assms(1), of "fec_dataCount r + p"] Cons.prems
  obtain s where s: "read_shard r xs (fec_dataCount r + p) = Some s" "length s = fec_shardSize r" by auto
  have cols: "\<forall>k\<in>set [0..<fec_dataCount r]. k < n" using assms(2) by auto
  from subtract_known_safe[OF assms(1) cols s(2)] obtain b where
    b: "subtract_known r xs ps p [0..<fec_dataCount r] s = Some b" "length b = fec_shardSize r" by blast
  from Cons obtain bs where "right_sides r xs ps parity = Some bs" "\<forall>b\<in>set bs. length b = fec_shardSize r"
    by auto
  then show ?case using s b by (simp add: right_side_def)
qed simp

lemma length_combine:
  "\<forall>b\<in>set rhs. length b = length dst \<Longrightarrow> length (combine r rhs cs dst) = length dst"
  by (induction rhs cs arbitrary: dst rule: list_induct2') simp_all

lemma store_missing_safe:
  assumes "\<forall>b\<in>set rhs. length b = fec_shardSize r" "\<forall>k\<in>set missing. k < n"
    "length xs = n * fec_shardSize r"
  shows "\<exists>ys. store_missing r rhs missing M xs = Some ys \<and> length ys = length xs"
  using assms(2,3)
proof (induction missing M arbitrary: xs rule: list_induct2')
  case (4 k missing row M)
  let ?d = "combine r rhs (drop (length rhs) row) (replicate (fec_shardSize r) 0)"
  have "length ?d = fec_shardSize r" using assms(1) by (simp add: length_combine)
  moreover have "k * fec_shardSize r + fec_shardSize r \<le> length xs"
    using slot_bound[of k n "fec_shardSize r"] "4.prems" by simp
  ultimately obtain zs where zs: "mem_write xs (k * fec_shardSize r) ?d = Some zs" "length zs = length xs"
    by (metis length_mem_write mem_write_in)
  then show ?case using "4.IH"[of zs] "4.prems" by simp
qed simp_all

lemma Reconstruct_safe:
  assumes "fec_wf r" "fec_shards r = Some xs"
  shows "\<exists>ok e ys. Reconstruct mem r = Some (ok, r\<lparr>fec_shards := Some ys, fec_err := e\<rparr>) \<and> length ys = length xs"
proof -
  obtain ps where ps: "fec_present r = Some ps" "length ps = fec_dataCount r + fec_parityCount r"
    "length xs = length ps * fec_shardSize r"
    using assms by (auto simp: fec_wf_def)
  define missing where "missing = filter (\<lambda>i. \<not> ps ! i) [0..<fec_dataCount r]"
  define parity where
    "parity = take (length missing) (filter (\<lambda>i. ps ! (fec_dataCount r + i)) [0..<fec_parityCount r])"
  have par: "\<forall>p\<in>set parity. fec_dataCount r + p < length ps"
    using ps(2) by (auto simp: parity_def dest: in_set_takeD)
  have mis: "\<forall>k\<in>set missing. k < length ps" using ps(2) by (auto simp: missing_def)
  obtain rhs where rhs: "right_sides r xs ps parity = Some rhs" "\<forall>b\<in>set rhs. length b = fec_shardSize r"
    using right_sides_safe[OF ps(3) _ par] ps(2) by auto
  have same: "r = r\<lparr>fec_shards := Some xs, fec_err := fec_err r\<rparr>" using assms(2) by simp
  show ?thesis
  proof (cases "Reconstruct mem r = Some (False, r) \<or> Reconstruct mem r = Some (True, r) \<or>
      Reconstruct mem r = Some (False, r\<lparr>fec_err := FECReceiveNoMemory\<rparr>)")
    case True
    moreover have "r\<lparr>fec_err := FECReceiveNoMemory\<rparr> = r\<lparr>fec_shards := Some xs, fec_err := FECReceiveNoMemory\<rparr>"
      using assms(2) by simp
    ultimately show ?thesis using same by metis
  next
    case False
    then obtain M where M: "eliminate r (length missing) [0..<length missing]
        (map (\<lambda>row. equation r missing (parity ! row) row) [0..<length missing]) = Some M"
      and run: "Reconstruct mem r = do { shards \<leftarrow> store_missing r rhs missing M xs;
        Some (True, r\<lparr>fec_shards := Some shards\<rparr>) }"
      using assms(2) ps(1) rhs(1) unfolding Reconstruct_def Let_def
      by (auto simp: missing_def[symmetric] parity_def[symmetric] split: if_splits option.splits)
    obtain ys where "store_missing r rhs missing M xs = Some ys" "length ys = length xs"
      using store_missing_safe[OF rhs(2) mis ps(3)] by blast
    moreover have "r\<lparr>fec_shards := Some ys\<rparr> = r\<lparr>fec_shards := Some ys, fec_err := fec_err r\<rparr>" by simp
    ultimately show ?thesis using run by (metis bind.bind_lunit)
  qed
qed

text \<open>What a call of \<^verbatim>\<open>Add\<close> may do to the receiver and the frame.\<close>

definition add_outcome :: "fec_receiver \<Rightarrow> u16 \<Rightarrow> session_frame \<Rightarrow> bool \<times> fec_receiver \<times> session_frame \<Rightarrow> bool" where
  "add_outcome r g f out = (case out of (ok, r', f') \<Rightarrow> fec_wf r' \<and>
     (if ok then buf_wf (frm_body f') \<and> newer r g \<and> fec_lastDelivered r' = g \<and> fec_shards r' = None
      else f' = f \<and> fec_lastDelivered r' = fec_lastDelivered r))"

lemma add_outcome_cong:
  "fec_lastDelivered r = fec_lastDelivered s \<Longrightarrow> add_outcome r g f out = add_outcome s g f out"
  by (simp add: add_outcome_def newer_def)

lemma accept_shard_safe:
  assumes wf: "fec_wf r" and xs: "fec_shards r = Some xs" and i: "i < fec_dataCount r + fec_parityCount r"
    and d: "length d = fec_shardSize r" and new: "newer r (fec_group r)"
  shows "\<exists>out. accept_shard mem r p d i f = Some out \<and> add_outcome r (fec_group r) f out"
proof -
  let ?h = "merge_header (fec_firstHeader r) (pkt_header p)"
  obtain ps where ps: "fec_present r = Some ps" "length ps = fec_dataCount r + fec_parityCount r"
    "length xs = length ps * fec_shardSize r" "fec_length r \<le> fec_dataCount r * fec_shardSize r"
    "length ps \<le> 65536" "fec_shardSize r < 65536"
    using wf xs by (auto simp: fec_wf_def)
  have "i < length ps" using i ps(2) by simp
  from shard_write[OF d this ps(3)] obtain ys where
    ys: "mem_write xs (i * fec_shardSize r) d = Some ys" "length ys = length xs" using ps(3) by auto
  let ?r2 = "r\<lparr>fec_firstHeader := ?h, fec_shards := Some ys, fec_present := Some (ps[i := True]),
    fec_received := fec_received r + 1\<rparr>"
  have wf2: "fec_wf ?r2" using wf xs ps ys by (simp add: fec_wf_def)
  then obtain ok e zs where rec: "Reconstruct mem ?r2 = Some (ok, ?r2\<lparr>fec_shards := Some zs, fec_err := e\<rparr>)"
    "length zs = length ys" using Reconstruct_safe[of ?r2 ys mem] by auto
  have "length ps * fec_shardSize r \<le> 65536 * 65536" using ps(5,6) by (intro mult_mono) auto
  then have cap: "length ps * fec_shardSize r < 2 ^ 63" by simp
  have "fec_dataCount r * fec_shardSize r \<le> length ps * fec_shardSize r" using ps(2) by simp
  with ps(4) have fits: "fec_length r \<le> length ps * fec_shardSize r" by linarith
  have wfh: "fec_wf (r\<lparr>fec_firstHeader := ?h\<rparr>)" using wf by simp
  have wf3: "fec_wf (?r2\<lparr>fec_shards := Some zs, fec_err := e\<rparr>)" using wf2 rec(2) by (simp add: fec_wf_def)
  show ?thesis
  proof (cases "ps ! i \<or> fec_received r + 1 < fec_dataCount r \<or> \<not> ok")
    case True
    then show ?thesis
      using xs ps(1) ys(1) rec wf2 wf3 wfh by (auto simp: accept_shard_def add_outcome_def Let_def)
  next
    case False
    then have "accept_shard mem r p d i f = Some (True,
        Reset (?r2\<lparr>fec_shards := Some zs, fec_err := e, fec_lastDelivered := fec_group r\<rparr>),
        \<lparr>frm_header = ?h, frm_body = \<lparr>buf_data = Some zs, buf_capacity = length ps * fec_shardSize r,
           buf_offset = 0, buf_size = fec_length r, buf_suffix = 0, buf_initialCapacity = 0,
           buf_maxCapacity = length ps * fec_shardSize r\<rparr>,
         frm_mediaOffset = 0, frm_mediaPrepared = False, frm_receivedRetries = 0\<rparr>)"
      using xs ps(1,2) ys(1) rec(1) by (simp add: accept_shard_def Let_def)
    then show ?thesis
      using new cap fits rec(2) ys(2) ps(3) by (simp add: add_outcome_def fec_wf_def Reset_def buf_wf_def)
  qed
qed

lemma Add_safe:
  assumes wf: "fec_wf r" and b: "buf_wf (pkt_body p)"
  shows "\<exists>out. IHS_FECReceiverAdd mem r p f = Some out \<and> add_outcome r (hdr_packetId (pkt_header p)) f out"
proof (cases "hdr_type (pkt_header p) \<noteq> 11 \<or> buf_size (pkt_body p) < 9 \<or> IHS_BufferIsNull (pkt_body p) \<or>
    \<not> newer r (hdr_packetId (pkt_header p))")
  case True
  have "fec_wf (r\<lparr>fec_err := FECReceiveOK\<rparr>)" using wf by simp
  then show ?thesis using True by (auto simp: IHS_FECReceiverAdd_def add_outcome_def newer_def Let_def not_le)
next
  case False
  let ?b = "pkt_body p" and ?h = "pkt_header p" and ?r = "r\<lparr>fec_err := FECReceiveOK\<rparr>"
  let ?g = "hdr_packetId (pkt_header p)"
  have bnd: "buf_offset ?b + buf_size ?b + buf_suffix ?b \<le> buf_capacity ?b" using buf_wf_bounds[OF b] by auto
  obtain xs where xs: "buf_data ?b = Some xs" using False by (auto simp: IHS_BufferIsNull_def)
  then have lxs: "length xs = buf_capacity ?b" using b by (simp add: buf_wf_def)
  have ptr: "IHS_BufferPointer ?b = Some (buf_offset ?b)"
    using PointerAt_in[OF b, of 0] bnd False by (simp add: IHS_BufferPointer_def)
  have "4 \<le> length (drop (buf_offset ?b) xs)" "2 \<le> length (drop (buf_offset ?b + 4) xs)"
    "2 \<le> length (drop (buf_offset ?b + 6) xs)" using lxs bnd False by auto
  then obtain len sz par where rd: "IHS_ReadUInt32LE (drop (buf_offset ?b) xs) = Some len"
    "IHS_ReadUInt16LE (drop (buf_offset ?b + 4) xs) = Some sz"
    "IHS_ReadUInt16LE (drop (buf_offset ?b + 6) xs) = Some par"
    using u32_wire.dec_enough u16_wire.dec_enough by metis
  have new: "newer r ?g" "hdr_type ?h = 11" "\<not> buf_size ?b < 9" "\<not> IHS_BufferIsNull ?b"
    "?g \<noteq> fec_lastDelivered r" "\<not> ?g - fec_lastDelivered r \<ge> 0x8000"
    using False by (auto simp: newer_def not_le)
  note run = IHS_FECReceiverAdd_def Let_def ptr xs rd new(2-)
  have wf1: "fec_wf ?r" "fec_wf ((Reset ?r)\<lparr>fec_err := FECReceiveNoMemory\<rparr>)"
    using wf by simp_all
  show ?thesis
  proof (cases "group_geometry p (unat len) (unat sz) (unat par)")
    case None
    then show ?thesis using wf1 by (intro exI[of _ "(False, ?r, f)"]) (simp add: run add_outcome_def)
  next
    case (Some geo)
    then obtain n tot i where geo: "group_geometry p (unat len) (unat sz) (unat par) = Some (n, tot, i)"
      by (cases geo) auto
    have gd: "n = (unat len + unat sz - 1) div unat sz" "i < n + unat par" "n + unat par \<le> 65536"
      "buf_size ?b = unat sz + 8" "0 < unat sz"
      using geo by (auto simp: group_geometry_def Let_def split: if_splits)
    have szb: "unat sz < 65536" using unsigned_less[of sz, where 'a = nat] by simp
    obtain d where d: "buf_load ?b (buf_offset ?b + 8) (unat sz) = Some d" "length d = unat sz"
      using xs lxs bnd gd(4) by (auto simp: buf_load_def mem_read_def)
    have accept: "\<exists>out. accept_shard mem r1 p d i f = Some out \<and> add_outcome r ?g f out"
      if h: "fec_wf r1" "fec_shards r1 \<noteq> None" "fec_dataCount r1 = n" "fec_parityCount r1 = unat par"
        "fec_shardSize r1 = unat sz" "fec_group r1 = ?g" "fec_lastDelivered r1 = fec_lastDelivered r" for r1
    proof -
      obtain ys where "fec_shards r1 = Some ys" using h(2) by blast
      from accept_shard_safe[OF h(1) this, of i d mem p f] h gd(2) d(2) new(1)
      show ?thesis by (simp add: newer_def add_outcome_cong[of r1 r])
    qed
    show ?thesis
    proof (cases "group_active ?r ?g")
      case opens: False
      show ?thesis
      proof (cases "open_group mem ?r ?h (unat len) (unat sz) (unat par) n")
        case None
        have "IHS_FECReceiverAdd mem r p f = Some (False, (Reset ?r)\<lparr>fec_err := FECReceiveNoMemory\<rparr>, f)"
          by (simp add: run geo opens None)
        then show ?thesis using wf1 by (simp add: add_outcome_def Reset_def)
      next
        case (Some r1)
        have "\<exists>out. accept_shard mem r1 p d i f = Some out \<and> add_outcome r ?g f out"
          using Some gd szb ceiling_covers[of "unat sz" "unat len"]
          by (intro accept) (auto simp: open_group_def Let_def fec_wf_def Reset_def calloc_bytes_def
              split: option.splits)
        moreover have "IHS_FECReceiverAdd mem r p f = accept_shard mem r1 p d i f"
          by (simp add: run geo opens Some d)
        ultimately show ?thesis by simp
      qed
    next
      case same: True
      show ?thesis
      proof (cases "fec_length r \<noteq> unat len \<or> fec_shardSize r \<noteq> unat sz \<or> fec_parityCount r \<noteq> unat par")
        case True
        have "IHS_FECReceiverAdd mem r p f = Some (False, ?r, f)"
          using same True by (auto simp: run geo)
        then show ?thesis using wf1 by (simp add: add_outcome_def)
      next
        case False
        have "\<exists>out. accept_shard mem ?r p d i f = Some out \<and> add_outcome r ?g f out"
          using same False wf wf1(1) gd(1) by (intro accept) (auto simp: fec_wf_def group_active_def)
        moreover have "IHS_FECReceiverAdd mem r p f = accept_shard mem ?r p d i f"
          using same False by (simp add: run geo d)
        ultimately show ?thesis by simp
      qed
    qed
  qed
qed

section \<open>Properties\<close>

definition demo_message :: message where
  "demo_message = \<lparr>msg_group = 5, msg_length = 3, msg_size = 2, msg_parity = 2,
     msg_data = [[104, 105], [33, 0]]\<rparr>"

definition demo_shard :: "nat \<Rightarrow> session_packet" where
  "demo_shard k = \<lparr>pkt_header = zero_header\<lparr>hdr_type := IHS_SessionPacketTypeUnreliableFEC,
     hdr_packetId := 5, hdr_fragmentId := of_nat k\<rparr>,
     pkt_body = IHS_BUFFER_WRAP (shard_bytes demo_message k), pkt_crc = 0\<rparr>"

definition demo_frame :: session_frame where
  "demo_frame = \<lparr>frm_header = zero_header, frm_body = IHS_BufferInit 0 0, frm_mediaOffset = 0,
     frm_mediaPrepared = False, frm_receivedRetries = 0\<rparr>"

lemma demo_message_ok: "message_ok demo_message"
  by (simp add: message_ok_def demo_message_def IHS_FEC_MAX_DATA_BYTES_def)

lemma demo_shard_carries: "k < 4 \<Longrightarrow> carries demo_message k (demo_shard k)"
proof -
  assume k: "k < 4"
  have "length (shard_bytes demo_message k) = 10"
    using length_shard_bytes[OF demo_message_ok] by (simp add: demo_message_def)
  then have "buf_wf (IHS_BUFFER_WRAP (shard_bytes demo_message k))" by (intro buf_wf_WRAP) simp
  then show ?thesis using k by (simp add: carries_def demo_shard_def) (simp add: demo_message_def)
qed

lemma fresh_Create: "length junk = 510 \<Longrightarrow> msg_group msg < 0x7FFF \<Longrightarrow> fresh msg (IHS_FECReceiverCreate junk)"
proof -
  assume a: "length junk = 510" "msg_group msg < 0x7FFF"
  have "unat (msg_group msg) < 0x7FFF" using a(2) by (simp add: word_less_nat_alt)
  then have "unat (of_nat (unat (msg_group msg) + 1) :: u16) = unat (msg_group msg) + 1"
    by (simp only: unat_of_nat) simp
  then have u: "unat (msg_group msg + 1) = unat (msg_group msg) + 1" by (simp add: add.commute)
  have "fec_lastDelivered (IHS_FECReceiverCreate junk) = - 1"
    by (simp add: IHS_FECReceiverCreate_def case_prod_beta)
  moreover have "msg_group msg + 1 < 0x8000" using u a(2) by (simp add: word_less_nat_alt)
  moreover have "msg_group msg + 1 \<noteq> 0" using u by (metis add_is_0 one_neq_zero unat_0)
  moreover have "fec_shards (IHS_FECReceiverCreate junk) = None"
    by (simp add: IHS_FECReceiverCreate_def case_prod_beta)
  ultimately show ?thesis
    using Create_tables[OF a(1)] by (simp add: fresh_def newer_def)
qed

text \<open>C20: Forward error correction works: packets that carry shards of one encoded message, fed to a
  receiver that has not delivered that group, in any order, with any duplicates and losses, never
  make the receiver fail; if they include as many distinct shards as the message has data shards
  (whichever those are) exactly one frame comes out and its body is the message, otherwise no frame
  comes out.\<close>

theorem fec_any_shards_deliver:
  assumes "message_ok msg" "\<forall>n. mem n \<noteq> None" "fresh msg r" "list_all2 (carries msg) ks ps"
  shows "\<exists>fs r'. feed mem f r ps = Some (fs, r') \<and>
     (if card (set ks) < length (msg_data msg) then fs = []
      else \<exists>f'. fs = [f'] \<and> buf_content (frm_body f') = take (msg_length msg) (concat (msg_data msg)))"
proof -
  have "0 < msg_length msg" "msg_length msg \<le> length (msg_data msg) * msg_size msg"
    using assms(1) ceiling_covers[of "msg_size msg" "msg_length msg"] by (simp_all add: message_ok_def)
  then have "card ({} :: nat set) < length (msg_data msg)" by (cases "msg_data msg") auto
  from feed_collecting[OF assms(1,2,4) _ this, of r f] assms(3) show ?thesis by auto
qed

theorem fec_any_shards_deliver_witness:
  "\<exists>f' r'. feed zero_mem demo_frame (IHS_FECReceiverCreate (replicate 510 0)) [demo_shard 3, demo_shard 3, demo_shard 2] =
     Some ([f'], r') \<and> buf_content (frm_body f') = [104, 105, 33]"
proof -
  have "fresh demo_message (IHS_FECReceiverCreate (replicate 510 0))"
    by (rule fresh_Create) (simp_all add: demo_message_def)
  moreover have "list_all2 (carries demo_message) [3, 3, 2] [demo_shard 3, demo_shard 3, demo_shard 2]"
    by (simp add: demo_shard_carries)
  moreover have "\<forall>n. zero_mem n \<noteq> None" by (simp add: zero_mem_def)
  ultimately show ?thesis
    using fec_any_shards_deliver[OF demo_message_ok, of zero_mem "IHS_FECReceiverCreate (replicate 510 0)"
        "[3, 3, 2]" "[demo_shard 3, demo_shard 3, demo_shard 2]" demo_frame]
    by (auto simp: demo_message_def)
qed

text \<open>C21: The correction step itself: when every shard marked present holds its shard of the
  codeword and at least as many parity shards as missing data shards are present, the
  reconstruction succeeds -- the elimination never lacks a pivot -- and afterwards the data shards
  are the original ones.\<close>

theorem fec_reconstruct_correct:
  assumes "length junk = 510" and "fec_multiply r = fec_multiply (IHS_FECReceiverCreate junk)"
    "fec_inverse r = fec_inverse (IHS_FECReceiverCreate junk)"
    and "fec_shards r = Some xs" "fec_present r = Some ps" "group_ok r D xs ps"
    and "length (filter (\<lambda>i. \<not> ps ! i) [0..<length D])
       \<le> length (filter (\<lambda>i. ps ! (length D + i)) [0..<fec_parityCount r])"
    and "length D + fec_parityCount r \<le> 255" "\<forall>n. mem n \<noteq> None"
  shows "\<exists>ys. Reconstruct mem r = Some (True, r\<lparr>fec_shards := Some ys\<rparr>) \<and> length ys = length xs \<and>
     (\<forall>k<length D. shard (fec_shardSize r) ys k = D ! k)"
proof -
  have "tables_ok r" using Create_tables[OF assms(1)] assms(2,3) by (simp add: tables_ok_def)
  from Reconstruct_ok[OF this assms(4-7) _ assms(9)] assms(8) show ?thesis by blast
qed

definition demo_receiver :: fec_receiver where
  "demo_receiver = (IHS_FECReceiverCreate (replicate 510 0))
     \<lparr>fec_shards := Some ([0, 0] @ codeword 1 [[7, 8], [9, 10]] 2 1 @ codeword 1 [[7, 8], [9, 10]] 2 2),
      fec_present := Some [False, True, True], fec_length := 4, fec_dataCount := 2, fec_shardSize := 2,
      fec_parityCount := 1\<rparr>"

theorem fec_reconstruct_correct_witness:
  "\<exists>ys. Reconstruct zero_mem demo_receiver = Some (True, demo_receiver\<lparr>fec_shards := Some ys\<rparr>) \<and>
     shard 2 ys 0 = [7, 8]"
proof -
  let ?D = "[[7, 8], [9, 10]] :: bytes list"
  have len: "length (codeword 1 ?D 2 k) = 2" for k by (rule length_codeword) simp
  let ?xs = "[0, 0] @ codeword 1 ?D 2 1 @ codeword 1 ?D 2 2"
  have "shard 2 ?xs 1 = codeword 1 ?D 2 1" "shard 2 ?xs 2 = codeword 1 ?D 2 2"
    using len by (simp_all add: shard_def)
  then have "group_ok demo_receiver ?D ?xs [False, True, True]"
    using len by (auto simp: group_ok_def demo_receiver_def less_Suc_eq numeral_3_eq_3 numeral_2_eq_2)
  then show ?thesis
    using fec_reconstruct_correct[of "replicate 510 0" demo_receiver ?xs "[False, True, True]" ?D zero_mem]
    by (auto simp: demo_receiver_def zero_mem_def upt_rec)
qed

text \<open>C22: No packet can make the receiver fail: for every packet with a well-formed body, every
  allocator and every well-formed receiver, adding the packet stays inside the receiver's memory,
  ends, and leaves a well-formed receiver; a frame comes out only for a group newer than the last
  delivered one, which it then becomes, and otherwise the frame is untouched.\<close>

theorem fec_add_safe:
  assumes "fec_wf r" "buf_wf (pkt_body packet)"
  shows "\<exists>out. IHS_FECReceiverAdd mem r packet frame = Some out \<and>
     add_outcome r (hdr_packetId (pkt_header packet)) frame out"
  using Add_safe[OF assms] .

theorem fec_add_safe_witness:
  "\<exists>out. IHS_FECReceiverAdd no_mem (IHS_FECReceiverCreate (replicate 510 0)) (demo_shard 0) demo_frame = Some out \<and>
     add_outcome (IHS_FECReceiverCreate (replicate 510 0)) 5 demo_frame out"
proof -
  have "fec_wf (IHS_FECReceiverCreate (replicate 510 0))"
    by (simp add: fec_wf_def IHS_FECReceiverCreate_def case_prod_beta)
  moreover have "buf_wf (pkt_body (demo_shard 0))" using demo_shard_carries[of 0] by (simp add: carries_def)
  moreover have "hdr_packetId (pkt_header (demo_shard 0)) = 5" by (simp add: demo_shard_def)
  ultimately show ?thesis using fec_add_safe by metis
qed

end
