(* ===== verification/Outgoing.thy ===== *)
theory Outgoing
  imports Packet "HOL-Library.Signed_Division"
begin

text \<open>
  The outgoing side of a connection (\<^verbatim>\<open>session/outgoing.c\<close>, \<^verbatim>\<open>session/outgoing_sort.c\<close>): the
  channel registry with its priorities, packet-ID counters, the rate limiter, and for every
  channel the window of unreliable packets that are kept for retransmission.

  The window is a ring whose capacity is a power of two, indexed by the low bits of the packet
  ID; \<open>head\<close>, \<open>tail\<close> and \<open>cursor\<close> are sequence numbers that wrap around.  The network is the
  argument \<open>send\<close> (see \<open>Session_Link\<close> for the function of the source); the two flags of
  \<open>grow_window\<close> and the flag of \<open>IHS_OutgoingRetain\<close> say whether \<^verbatim>\<open>calloc\<close> succeeds.
\<close>

section \<open>State\<close>

record out_window =
  ow_slots :: "session_packet option list"
  ow_created :: "u32 list"
  ow_capacity :: nat
  ow_head :: u16
  ow_tail :: u16
  ow_cursor :: u16
  ow_initialized :: bool
  ow_lastFeedback :: u32

definition zero_out_window :: out_window where
  "zero_out_window = \<lparr>ow_slots = [], ow_created = [], ow_capacity = 0, ow_head = 0, ow_tail = 0,
     ow_cursor = 0, ow_initialized = False, ow_lastFeedback = 0\<rparr>"

record outgoing =
  out_rate :: "int list"
  out_deadline :: "u32 list"
  out_blocked :: bool
  out_dirty :: bool
  out_count :: nat
  out_rotation :: nat
  out_order :: "nat list"
  out_creation :: "nat list"
  out_active :: "bool list"
  out_priority :: "int list"
  out_reliableId :: "u16 list"
  out_unreliableId :: "u16 list"
  out_unreliable :: "out_window list"

definition IHS_OutgoingInit :: "u32 \<Rightarrow> outgoing" where
  "IHS_OutgoingInit now = \<lparr>out_rate = [12500000, 625000], out_deadline = [now, now],
     out_blocked = False, out_dirty = False, out_count = 0, out_rotation = 0,
     out_order = replicate 32 0, out_creation = replicate 32 0, out_active = replicate 32 False,
     out_priority = replicate 32 0, out_reliableId = replicate 32 0,
     out_unreliableId = replicate 32 0, out_unreliable = replicate 32 zero_out_window\<rparr>"

section \<open>The window of unreliable packets\<close>

definition slot_of :: "out_window \<Rightarrow> u16 \<Rightarrow> nat" where
  "slot_of w i = unat i AND (ow_capacity w - 1)"

abbreviation ow_span :: "out_window \<Rightarrow> nat" where
  "ow_span w \<equiv> unat (ow_tail w - ow_head w)"

definition ow_release :: "out_window \<Rightarrow> u16 \<Rightarrow> out_window option" where
  "ow_release w i =
     (if ow_capacity w = 0 then Some w
      else case ow_slots w ! slot_of w i of
        None \<Rightarrow> Some w
      | Some p \<Rightarrow> do {
          IHS_SessionPacketClear p True;
          Some (w\<lparr>ow_slots := (ow_slots w)[slot_of w i := None]\<rparr>)
        })"

definition ow_get :: "out_window \<Rightarrow> u16 \<Rightarrow> session_packet option" where
  "ow_get w i =
     (if ow_capacity w = 0 \<or> i - ow_head w \<ge> ow_tail w - ow_head w then None
      else ow_slots w ! slot_of w i)"

fun advance :: "nat \<Rightarrow> out_window \<Rightarrow> out_window option" where
  "advance 0 w = Some w"
| "advance (Suc n) w = do {
     w \<leftarrow> ow_release w (ow_head w);
     let w = (if ow_capacity w \<noteq> 0
              then w\<lparr>ow_created := (ow_created w)[slot_of w (ow_head w) := 0]\<rparr> else w);
     advance n (w\<lparr>ow_head := ow_head w + 1\<rparr>)
   }"

text \<open>Destroying the windows releases every packet they hold.\<close>

definition IHS_OutgoingDeinit :: "outgoing \<Rightarrow> outgoing option" where
  "IHS_OutgoingDeinit o' = do {
     ws \<leftarrow> those (map (\<lambda>w. advance (ow_span w) w) (out_unreliable o'));
     Some (o'\<lparr>out_unreliable := map (\<lambda>w. w\<lparr>ow_slots := [], ow_created := []\<rparr>) ws\<rparr>)
   }"

fun double_to :: "nat \<Rightarrow> nat \<Rightarrow> nat \<Rightarrow> nat" where
  "double_to 0 sz need = sz"
| "double_to (Suc fuel) sz need = (if sz < need then double_to fuel (sz * 2) need else sz)"

text \<open>Copying the slots of the live packets into the larger ring; \<open>n\<close> rounds are left.\<close>

fun move_slots :: "out_window \<Rightarrow> nat \<Rightarrow> nat \<Rightarrow> nat \<Rightarrow> session_packet option list \<Rightarrow> u32 list \<Rightarrow>
    session_packet option list \<times> u32 list" where
  "move_slots w sz i 0 slots stamps = (slots, stamps)"
| "move_slots w sz i (Suc n) slots stamps =
     (let pid = ow_head w + of_nat i; k = unat pid AND (sz - 1) in
      move_slots w sz (Suc i) n (slots[k := ow_slots w ! slot_of w pid])
        (stamps[k := ow_created w ! slot_of w pid]))"

text \<open>
  \<^verbatim>\<open>capacity\<close> of the source.  The doubling loop runs at most ten stamps, from 64 to 32768; the
  fuel is the number of bits of the request.
\<close>

definition grow_window :: "bool \<Rightarrow> bool \<Rightarrow> out_window \<Rightarrow> nat \<Rightarrow> bool \<times> out_window" where
  "grow_window alloc1 alloc2 w need =
     (if need \<le> ow_capacity w then (True, w)
      else if need > 32768 then (False, w)
      else let sz = double_to 16 (if ow_capacity w \<noteq> 0 then ow_capacity w else 64) need in
        if \<not> alloc1 \<or> \<not> alloc2 then (False, w)
        else case move_slots w sz 0 (if ow_capacity w \<noteq> 0 then ow_span w else 0)
                    (replicate sz None) (replicate sz 0) of
          (slots, stamps) \<Rightarrow> (True, w\<lparr>ow_slots := slots, ow_created := stamps, ow_capacity := sz\<rparr>))"

section \<open>Channels, priorities and packet IDs\<close>

text \<open>The loop of \<^verbatim>\<open>Register\<close>; the second result is the channels that it activates.\<close>

fun register_loop :: "nat list \<Rightarrow> outgoing \<Rightarrow> outgoing \<times> nat list" where
  "register_loop [] o' = (o', [])"
| "register_loop (i # ids) o' =
     (if out_active o' ! i then register_loop ids o'
      else case register_loop ids
               (o'\<lparr>out_active := (out_active o')[i := True],
                   out_creation := (out_creation o')[out_count o' := i],
                   out_order := (out_order o')[out_count o' := i],
                   out_count := (out_count o' + 1) mod 256, out_dirty := True\<rparr>) of
             (o', new) \<Rightarrow> (o', i # new))"

definition IHS_OutgoingRegister :: "outgoing \<Rightarrow> nat \<Rightarrow> outgoing \<times> nat list" where
  "IHS_OutgoingRegister o' channel =
     (if channel \<ge> 32 \<or> out_active o' ! channel then (o', [])
      else register_loop [0..<Suc channel] o')"

definition IHS_OutgoingPriority :: "outgoing \<Rightarrow> nat \<Rightarrow> int \<Rightarrow> outgoing \<times> nat list" where
  "IHS_OutgoingPriority o' channel priority =
     (if channel \<ge> 32 then (o', [])
      else case IHS_OutgoingRegister o' channel of (o', new) \<Rightarrow>
        (o'\<lparr>out_priority := (out_priority o')[channel := priority], out_dirty := True\<rparr>, new))"

definition IHS_OutgoingNextId :: "outgoing \<Rightarrow> nat \<Rightarrow> bool \<Rightarrow> u16 \<times> outgoing" where
  "IHS_OutgoingNextId o' channel reliable =
     (if channel \<ge> 32 then (0, o')
      else if reliable
      then (out_reliableId o' ! channel,
            o'\<lparr>out_reliableId := (out_reliableId o')[channel := out_reliableId o' ! channel + 1]\<rparr>)
      else (out_unreliableId o' ! channel,
            o'\<lparr>out_unreliableId := (out_unreliableId o')[channel := out_unreliableId o' ! channel + 1]\<rparr>))"

section \<open>The rate limiter\<close>

definition packet_class :: "u32 \<Rightarrow> nat option" where
  "packet_class t =
     (let t = t AND 127 in if t = 3 \<or> t = 4 then Some 0 else if t = 5 \<or> t = 6 then Some 1 else None)"

definition IHS_OutgoingCanSend :: "outgoing \<Rightarrow> u32 \<Rightarrow> u32 \<Rightarrow> bool \<times> outgoing" where
  "IHS_OutgoingCanSend o' t now =
     (let allowed = (case packet_class t of None \<Rightarrow> True | Some c \<Rightarrow> sint (now - out_deadline o' ! c) \<ge> 0)
      in (allowed, o'\<lparr>out_blocked := \<not> allowed\<rparr>))"

definition IHS_OutgoingSent :: "outgoing \<Rightarrow> u32 \<Rightarrow> u32 \<Rightarrow> u32 \<Rightarrow> outgoing" where
  "IHS_OutgoingSent o' t stamp wireBytes =
     (case packet_class t of None \<Rightarrow> o'
      | Some c \<Rightarrow>
          let rate = out_rate o' ! c;
              deadline = (if rate \<noteq> 0
                then let fl = stamp - 65; prior = out_deadline o' ! c;
                         fl = (if sint (prior - fl) \<ge> 0 then prior else fl);
                         numerator = sint (push_bit 16 wireBytes)
                     in fl + word_of_int (numerator sdiv rate)
                else stamp)
          in o'\<lparr>out_deadline := (out_deadline o')[c := deadline]\<rparr>)"

section \<open>Retaining and sending unreliable packets\<close>

text \<open>Changing the window of a channel.\<close>

definition set_window :: "nat \<Rightarrow> out_window \<Rightarrow> outgoing \<Rightarrow> outgoing" where
  "set_window ch w o' = o'\<lparr>out_unreliable := (out_unreliable o')[ch := w]\<rparr>"

definition retain_in ::
    "bool \<Rightarrow> bool \<Rightarrow> bool \<Rightarrow> out_window \<Rightarrow> session_packet \<Rightarrow> u32 \<Rightarrow>
       (bool \<times> session_packet \<times> out_window) option" where
  "retain_in alloc1 alloc2 alloc3 w packet created =
     (let i = hdr_packetId (pkt_header packet);
          w = (if ow_initialized w then w
               else w\<lparr>ow_head := i, ow_tail := i, ow_cursor := i, ow_initialized := True\<rparr>);
          distance = unat (i - ow_head w) in
      case (if distance < 32768 then grow_window alloc1 alloc2 w (distance + 1) else (False, w)) of
        (ok, w) \<Rightarrow>
          if ok \<and> alloc3 \<and> ow_slots w ! slot_of w i = None
          then do {
            (drained, body) \<leftarrow> IHS_BufferTransferOwnership (pkt_body packet);
            let copy = \<lparr>pkt_header = pkt_header packet, pkt_body = body, pkt_crc = pkt_crc packet\<rparr>;
            let w = w\<lparr>ow_slots := (ow_slots w)[slot_of w i := Some copy],
                      ow_created := (ow_created w)[slot_of w i := created]\<rparr>;
            let w = (if ow_span w \<le> distance then w\<lparr>ow_tail := i + 1\<rparr> else w);
            Some (True, packet\<lparr>pkt_body := drained\<rparr>, w)
          }
          else Some (False, packet, w))"

text \<open>The third result is the channels that registering activates.\<close>

definition IHS_OutgoingRetain ::
    "bool \<Rightarrow> bool \<Rightarrow> bool \<Rightarrow> outgoing \<Rightarrow> session_packet \<Rightarrow> u32 \<Rightarrow>
       (bool \<times> session_packet \<times> outgoing \<times> nat list) option" where
  "IHS_OutgoingRetain alloc1 alloc2 alloc3 o' packet created =
     (let ch = unat (ucast (hdr_channelId (pkt_header packet)) :: u8) in
      if ch \<ge> 32 then Some (False, packet, o', [])
      else case IHS_OutgoingRegister o' ch of (o', new) \<Rightarrow> do {
        (ok, packet, w) \<leftarrow> retain_in alloc1 alloc2 alloc3 (out_unreliable o' ! ch) packet created;
        Some (ok, packet, set_window ch w o', new)
      })"

text \<open>
  Sending.  \<open>send packet o' c\<close> is \<^verbatim>\<open>IHS_SessionSendPacketResult\<close>: its result code, the packet
  (stamped), the outgoing state (rate limiter) and the environment \<open>c\<close>.
\<close>

type_synonym 'c transmit =
  "session_packet \<Rightarrow> outgoing \<Rightarrow> 'c \<Rightarrow> (nat \<times> session_packet \<times> outgoing \<times> 'c) option"

definition put_slot :: "nat \<Rightarrow> u16 \<Rightarrow> session_packet \<Rightarrow> outgoing \<Rightarrow> outgoing" where
  "put_slot ch i p o' =
     (let w = out_unreliable o' ! ch in
      set_window ch (w\<lparr>ow_slots := (ow_slots w)[slot_of w i := Some p]\<rparr>) o')"

definition attempt_packet ::
    "'c transmit \<Rightarrow> nat \<Rightarrow> u16 \<Rightarrow> session_packet \<Rightarrow> outgoing \<Rightarrow> 'c \<Rightarrow> (nat \<times> outgoing \<times> 'c) option" where
  "attempt_packet send ch i p o' c = do {
     (result, p, o', c) \<leftarrow> send p o' c;
     let n = hdr_retransmitCount (pkt_header p);
     let p = (if result = 0 \<and> n < 255
              then p\<lparr>pkt_header := (pkt_header p)\<lparr>hdr_retransmitCount := n + 1\<rparr>\<rparr> else p);
     Some (result, put_slot ch i p o', c)
   }"

text \<open>Dropping the packets that are too old; the argument bounds the number of rounds.\<close>

fun expire :: "nat \<Rightarrow> u32 \<Rightarrow> u32 \<Rightarrow> out_window \<Rightarrow> out_window option" where
  "expire 0 keep now w = Some w"
| "expire (Suc n) keep now w =
     (if ow_head w \<noteq> ow_tail w \<and> sint (ow_created w ! slot_of w (ow_head w) + keep - now) < 0
      then do { w \<leftarrow> advance 1 w; expire n keep now w } else Some w)"

text \<open>The loop from the cursor to the tail, \<open>n\<close> packets away.\<close>

fun send_new :: "'c transmit \<Rightarrow> nat \<Rightarrow> nat \<Rightarrow> outgoing \<Rightarrow> 'c \<Rightarrow> (nat \<times> outgoing \<times> 'c) option" where
  "send_new send ch 0 o' c = Some (0, o', c)"
| "send_new send ch (Suc n) o' c = do {
     let w = out_unreliable o' ! ch;
     (result, o', c) \<leftarrow> (case ow_get w (ow_cursor w) of
        None \<Rightarrow> Some (0, o', c)
      | Some p \<Rightarrow> attempt_packet send ch (ow_cursor w) p o' c);
     if result \<noteq> 0 then Some (result, o', c)
     else do {
       let w = out_unreliable o' ! ch;
       send_new send ch n (set_window ch (w\<lparr>ow_cursor := ow_cursor w + 1\<rparr>) o') c
     }
   }"

text \<open>The retry loop over the packets \<open>i\<close>, \<open>i + 1\<close>, \dots before the old cursor.\<close>

fun send_marked :: "'c transmit \<Rightarrow> nat \<Rightarrow> u16 \<Rightarrow> nat \<Rightarrow> outgoing \<Rightarrow> 'c \<Rightarrow> (nat \<times> outgoing \<times> 'c) option" where
  "send_marked send ch i 0 o' c = Some (0, o', c)"
| "send_marked send ch i (Suc n) o' c = do {
     (result, o', c) \<leftarrow> (case ow_get (out_unreliable o' ! ch) i of
        None \<Rightarrow> Some (0, o', c)
      | Some p \<Rightarrow> if hdr_sendTimestamp (pkt_header p) = 0 then attempt_packet send ch i p o' c
                 else Some (0, o', c));
     if result \<noteq> 0 then Some (result, o', c) else send_marked send ch (i + 1) n o' c
   }"

text \<open>
  \<open>ms\<close> is the round-trip time in milliseconds plus two, cut to an integer: the only use of a
  floating-point number here.
\<close>

definition keep_ticks :: "u32 \<Rightarrow> u32" where
  "keep_ticks ms = 13107 + 2 * ucast ((ucast ms :: u64) * 65536 div 1000)"

definition IHS_OutgoingSendUnreliable ::
    "'c transmit \<Rightarrow> outgoing \<Rightarrow> nat \<Rightarrow> bool \<Rightarrow> u32 \<Rightarrow> u32 \<Rightarrow> 'c \<Rightarrow> (nat \<times> outgoing \<times> 'c) option" where
  "IHS_OutgoingSendUnreliable send o' ch retry now ms c =
     (if ch \<ge> 32 then Some (2, o', c)
      else do {
        let w = out_unreliable o' ! ch;
        w \<leftarrow> expire (ow_span w) (keep_ticks ms) now w;
        let w = (if ow_cursor w - ow_head w > ow_tail w - ow_head w
                 then w\<lparr>ow_cursor := ow_head w\<rparr> else w);
        let start = ow_cursor w;
        (result, o', c) \<leftarrow> send_new send ch (unat (ow_tail w - start)) (set_window ch w o') c;
        (result, o', c) \<leftarrow>
          (if result = 0 \<and> retry
           then send_marked send ch (ow_head w) (unat (start - ow_head w)) o' c
           else Some (result, o', c));
        Some (if result = 1 then 0 else result, o', c)
      })"

section \<open>Feedback\<close>

definition mark :: "u32 \<Rightarrow> u16 \<Rightarrow> out_window \<Rightarrow> out_window" where
  "mark cutoff i w =
     (case ow_get w i of None \<Rightarrow> w
      | Some p \<Rightarrow>
          let h = pkt_header p in
          if hdr_retransmitCount h \<noteq> 0 \<and> hdr_sendTimestamp h \<noteq> 0 \<and>
             sint (cutoff - hdr_sendTimestamp h) \<ge> 0
          then w\<lparr>ow_slots := (ow_slots w)[slot_of w i :=
                 Some (p\<lparr>pkt_header := h\<lparr>hdr_sendTimestamp := 0\<rparr>\<rparr>)]\<rparr>
          else w)"

text \<open>Advancing over the packets that are already gone.\<close>

fun skip_released :: "nat \<Rightarrow> out_window \<Rightarrow> out_window option" where
  "skip_released 0 w = Some w"
| "skip_released (Suc n) w =
     (if ow_head w \<noteq> ow_tail w \<and> ow_get w (ow_head w) = None
      then do { w \<leftarrow> advance 1 w; skip_released n w } else Some w)"

text \<open>The bits of one byte of the bitmap, from the lowest to the highest one that is set.\<close>

fun nack_bits :: "u32 \<Rightarrow> u16 \<Rightarrow> nat \<Rightarrow> out_window \<Rightarrow> out_window option" where
  "nack_bits cutoff i bits w =
     (if bits = 0 then Some w
      else do {
        w \<leftarrow> (if odd bits
             then (if sint (ow_cursor w - i) > 0 \<and> ow_get w i \<noteq> None then ow_release w i else Some w)
             else Some (mark cutoff i w));
        nack_bits cutoff (i + 1) (bits div 2) w
      })"

declare nack_bits.simps [simp del]

fun nack_bytes :: "u32 \<Rightarrow> u16 \<Rightarrow> bytes \<Rightarrow> out_window \<Rightarrow> out_window option" where
  "nack_bytes cutoff i [] w = Some w"
| "nack_bytes cutoff i (b # bs) w = do {
     w \<leftarrow> nack_bits cutoff i (unat b) w;
     nack_bytes cutoff (i + 8) bs w
   }"

fun mark_run :: "u32 \<Rightarrow> u16 \<Rightarrow> nat \<Rightarrow> out_window \<Rightarrow> out_window" where
  "mark_run cutoff i 0 w = w"
| "mark_run cutoff i (Suc n) w = mark_run cutoff (i + 1) n (mark cutoff i w)"

text \<open>The extended form: timestamp echo, confirmation and bitmap.\<close>

definition nack_extended :: "u32 \<Rightarrow> u16 \<Rightarrow> bytes \<Rightarrow> out_window \<Rightarrow> (u32 \<times> out_window) option" where
  "nack_extended cutoff base b w = do {
     let echo = (le_word (take 4 b) :: u32);
     let cutoff = (if sint (cutoff - echo) < 0 then echo else cutoff);
     let confirmed = (le_word (take 2 (drop 4 b)) :: u16);
     let count = sint (confirmed - ow_head w + 1);
     w \<leftarrow> (if count > 0 then advance (min (nat count) (ow_span w)) w else Some w);
     w \<leftarrow> skip_released (ow_span w) w;
     w \<leftarrow> nack_bytes cutoff base (drop 6 b) w;
     Some (cutoff, w)
   }"

text \<open>\<open>age\<close> is \<^verbatim>\<open>IHS_StreamClockNackAgeTicks\<close>.\<close>

definition nack_window :: "out_window \<Rightarrow> session_packet \<Rightarrow> u32 \<Rightarrow> u32 \<Rightarrow> out_window option" where
  "nack_window w packet now age =
     (let stamp = hdr_sendTimestamp (pkt_header packet); sz = buf_size (pkt_body packet) in
      if ow_lastFeedback w \<noteq> 0 \<and> sint (stamp - ow_lastFeedback w) < 0 then Some w
      else let w = w\<lparr>ow_lastFeedback := stamp\<rparr> in
      if sz \<noteq> 0 \<and> sz < 6 then Some w
      else do {
        let cutoff = now - age;
        let base = hdr_packetId (pkt_header packet);
        (cutoff, w) \<leftarrow> (if sz \<ge> 6
          then do {
            p \<leftarrow> IHS_BufferPointer (pkt_body packet);
            b \<leftarrow> buf_load (pkt_body packet) p sz;
            nack_extended cutoff base b w
          }
          else Some (cutoff, w));
        let count = uint base - uint (ow_head w);
        Some (if count > 0 then mark_run cutoff (ow_head w) (min (nat count) (ow_span w)) w else w)
      })"

definition IHS_OutgoingNack :: "outgoing \<Rightarrow> session_packet \<Rightarrow> u32 \<Rightarrow> u32 \<Rightarrow> outgoing option" where
  "IHS_OutgoingNack o' packet now age =
     (let ch = unat (ucast (hdr_channelId (pkt_header packet)) :: u8) in
      if ch \<ge> 32 then Some o'
      else do {
        w \<leftarrow> nack_window (out_unreliable o' ! ch) packet now age;
        Some (set_window ch w o')
      })"

end
