(* ===== verification/Outgoing_Spec.thy ===== *)
theory Outgoing_Spec
  imports Outgoing
begin

text \<open>
  The retransmission window of unreliable packets as a finite map from packet IDs to packets:
  its invariant, and the effect of every operation on the map.
\<close>

section \<open>Invariant\<close>

text \<open>
  A ring is either not allocated or has a power of two between 64 and 32768 slots; the slots
  outside the sequence range are empty and every packet sits in the slot of its own ID.
\<close>

definition ow_ring :: "out_window \<Rightarrow> nat \<Rightarrow> bool" where
  "ow_ring w k \<longleftrightarrow> ow_capacity w = 2 ^ k \<and> 6 \<le> k \<and> k \<le> 15 \<and>
     length (ow_slots w) = 2 ^ k \<and> length (ow_created w) = 2 ^ k \<and> ow_span w \<le> 2 ^ k \<and>
     (\<forall>n<2 ^ k. ow_span w \<le> n \<longrightarrow> ow_slots w ! slot_of w (ow_head w + of_nat n) = None)"

definition ow_wf :: "out_window \<Rightarrow> bool" where
  "ow_wf w \<longleftrightarrow>
     (ow_capacity w = 0 \<and> ow_head w = ow_tail w \<or> (\<exists>k. ow_ring w k)) \<and>
     (\<forall>i p. ow_get w i = Some p \<longrightarrow> hdr_packetId (pkt_header p) = i \<and> buf_wf (pkt_body p))"

lemma slot_of_nat:
  assumes "ow_capacity w = 2 ^ k"
  shows "slot_of w i = unat i mod 2 ^ k"
proof -
  have "slot_of w i = unat i AND mask k" using assms by (simp add: slot_of_def mask_eq_exp_minus_1)
  also have "\<dots> = take_bit k (unat i)" by (simp only: take_bit_eq_mask)
  finally show ?thesis by (simp add: take_bit_eq_mod)
qed

lemma slot_of_less: "ow_capacity w = 2 ^ k \<Longrightarrow> slot_of w i < 2 ^ k"
  by (simp add: slot_of_nat)

lemma add_mod_cancel:
  fixes c :: nat assumes "(c + a) mod m = (c + b) mod m" "a < m" "b < m" shows "a = b"
proof -
  from assms(1) obtain q r where "c + a + m * q = c + b + m * r" unfolding nat_mod_eq_iff by blast
  then have "a + m * q = b + m * r" by linarith
  then have "(a + m * q) mod m = (b + m * r) mod m" by simp
  then show ?thesis using assms(2,3) by simp
qed

lemma slot_of_mod:
  assumes "ow_capacity w = 2 ^ k" "k \<le> 16"
  shows "slot_of w i = (unat (ow_head w) + unat (i - ow_head w)) mod 2 ^ k"
proof -
  have "(2::nat) ^ k dvd 2 ^ 16" using assms(2) by (rule le_imp_power_dvd)
  moreover have "unat i = (unat (ow_head w) + unat (i - ow_head w)) mod 2 ^ 16"
    using unat_word_ariths(1)[of "ow_head w" "i - ow_head w"] by simp
  ultimately have "unat i mod 2 ^ k = (unat (ow_head w) + unat (i - ow_head w)) mod 2 ^ k"
    by (simp only: mod_mod_cancel)
  then show ?thesis by (simp add: slot_of_nat[OF assms(1)])
qed

lemma slot_of_inj:
  assumes c: "ow_capacity w = 2 ^ k" "k \<le> 15"
    and ij: "unat (i - ow_head w) < 2 ^ k" "unat (j - ow_head w) < 2 ^ k"
  shows "slot_of w i = slot_of w j \<longleftrightarrow> i = j"
proof
  assume "slot_of w i = slot_of w j"
  then have "unat (i - ow_head w) = unat (j - ow_head w)"
    using c by (intro add_mod_cancel[OF _ ij]) (simp add: slot_of_mod[of w k])
  then have "i - ow_head w = j - ow_head w" by (simp flip: word_unat_eq_iff)
  then show "i = j" by simp
qed simp

text \<open>Reading the ring through the map.\<close>

lemma ow_get_ring:
  assumes "ow_ring w k"
  shows "ow_get w i = (if unat (i - ow_head w) < ow_span w then ow_slots w ! slot_of w i else None)"
  using assms by (auto simp: ow_get_def ow_ring_def word_le_nat_alt not_le)

lemma ow_ring_outside:
  assumes r: "ow_ring w k" and i: "ow_span w \<le> unat (i - ow_head w)" "unat (i - ow_head w) < 2 ^ k"
  shows "ow_slots w ! slot_of w i = None"
proof -
  have "ow_head w + of_nat (unat (i - ow_head w)) = i" by simp
  then show ?thesis using r i unfolding ow_ring_def by metis
qed

lemma ow_wf_zero [simp]: "ow_wf zero_out_window"
  by (simp add: ow_wf_def zero_out_window_def ow_get_def)

text \<open>
  Changing one slot inside the sequence range changes the map at one point.
\<close>

lemma ow_get_update:
  assumes r: "ow_ring w k" and i: "unat (i - ow_head w) < ow_span w"
  shows "ow_get (w\<lparr>ow_slots := (ow_slots w)[slot_of w i := v]\<rparr>) = (ow_get w)(i := v)"
    "ow_ring (w\<lparr>ow_slots := (ow_slots w)[slot_of w i := v]\<rparr>) k"
proof -
  let ?w = "w\<lparr>ow_slots := (ow_slots w)[slot_of w i := v]\<rparr>"
  have c: "ow_capacity w = 2 ^ k" "length (ow_slots w) = 2 ^ k" "ow_span w \<le> 2 ^ k"
    using r by (simp_all add: ow_ring_def)
  have sl: "slot_of ?w = slot_of w" by (simp add: slot_of_def fun_eq_iff)
  have ib: "unat (i - ow_head w) < 2 ^ k" using i c(3) by simp
  have k15: "k \<le> 15" using r by (simp add: ow_ring_def)
  have other: "ow_slots ?w ! slot_of w j = ow_slots w ! slot_of w j"
    if "j \<noteq> i" "unat (j - ow_head w) < 2 ^ k" for j
    using slot_of_inj[OF c(1) k15 ib that(2)] that(1) by simp
  show ring: "ow_ring ?w k"
    unfolding ow_ring_def sl
  proof (intro conjI allI impI)
    fix n assume n: "n < 2 ^ k" "ow_span ?w \<le> n"
    have "(2::nat) ^ k \<le> 2 ^ 15" using k15 by (intro power_increasing) auto
    then have "unat (of_nat n :: u16) = n" using n(1) by (simp add: unat_of_nat)
    then have u: "unat (ow_head w + of_nat n - ow_head w) = n" by simp
    then have "ow_head w + of_nat n \<noteq> i" using n i by auto
    then have "ow_slots ?w ! slot_of w (ow_head w + of_nat n) = ow_slots w ! slot_of w (ow_head w + of_nat n)"
      by (rule other) (use u n in simp)
    then show "ow_slots ?w ! slot_of w (ow_head ?w + of_nat n) = None"
      using ow_ring_outside[OF r] u n by simp
  qed (use r in \<open>simp_all add: ow_ring_def\<close>)
  show "ow_get ?w = (ow_get w)(i := v)"
  proof
    fix j
    show "ow_get ?w j = ((ow_get w)(i := v)) j"
    proof (cases "j = i")
      case True
      then show ?thesis
        using i slot_of_less[OF c(1), of i] c(2) by (simp add: ow_get_ring[OF ring] sl)
    next
      case False
      then show ?thesis
        using other[OF False] c(3) by (auto simp: ow_get_ring[OF ring] ow_get_ring[OF r] sl)
    qed
  qed
qed

lemma ow_wf_cases:
  assumes "ow_wf w"
  obtains "ow_capacity w = 0" "ow_head w = ow_tail w" "ow_get w = Map.empty"
  | k where "ow_ring w k" "ow_capacity w \<noteq> 0"
proof (cases "\<exists>k. ow_ring w k")
  case True
  then show ?thesis using that(2) by (auto simp: ow_ring_def)
next
  case False
  then have "ow_capacity w = 0" "ow_head w = ow_tail w" using assms by (auto simp: ow_wf_def)
  moreover have "ow_get w = Map.empty" using calculation by (auto simp: ow_get_def)
  ultimately show ?thesis using that(1) by blast
qed

lemma ow_wf_ring:
  "ow_ring w k \<Longrightarrow> (\<And>i p. ow_get w i = Some p \<Longrightarrow> hdr_packetId (pkt_header p) = i \<and> buf_wf (pkt_body p)) \<Longrightarrow>
     ow_wf w"
  by (auto simp: ow_wf_def)

lemma ow_wf_packet:
  "ow_wf w \<Longrightarrow> ow_get w i = Some p \<Longrightarrow> hdr_packetId (pkt_header p) = i \<and> buf_wf (pkt_body p)"
  by (simp add: ow_wf_def)

section \<open>Releasing\<close>

lemma PacketClear_total: "buf_wf (pkt_body p) \<Longrightarrow> \<exists>q. IHS_SessionPacketClear p True = Some q"
  by (auto simp: IHS_SessionPacketClear_def IHS_BufferClear_def buf_wf_def Let_def)

lemma ow_release_inside:
  assumes wf: "ow_wf w" and i: "unat (i - ow_head w) < ow_span w"
  shows "\<exists>w'. ow_release w i = Some w' \<and> ow_wf w' \<and> ow_get w' = (ow_get w)(i := None) \<and>
     w' = w\<lparr>ow_slots := ow_slots w'\<rparr>"
  using wf
proof (cases rule: ow_wf_cases)
  case 1
  then show ?thesis using i by simp
next
  case (2 k)
  show ?thesis
  proof (cases "ow_slots w ! slot_of w i")
    case None
    then have "(ow_get w)(i := None) = ow_get w" by (auto simp: ow_get_ring[OF 2(1)])
    then show ?thesis using None 2 wf by (simp add: ow_release_def)
  next
    case (Some p)
    let ?w = "w\<lparr>ow_slots := (ow_slots w)[slot_of w i := None]\<rparr>"
    have "ow_get w i = Some p" using Some i by (simp add: ow_get_ring[OF 2(1)])
    then obtain q where "IHS_SessionPacketClear p True = Some q"
      using PacketClear_total ow_wf_packet[OF wf] by blast
    then have "ow_release w i = Some ?w" using Some 2(2) by (simp add: ow_release_def)
    moreover have "ow_wf ?w"
      by (rule ow_wf_ring[OF ow_get_update(2)[OF 2(1) i]])
        (auto simp: ow_get_update(1)[OF 2(1) i] ow_wf_packet[OF wf] split: if_splits)
    ultimately show ?thesis using ow_get_update(1)[OF 2(1) i] by simp
  qed
qed

lemma unat_succ: "(i :: u16) \<noteq> j \<Longrightarrow> unat (j - (i + 1)) = unat (j - i) - 1"
proof -
  assume "i \<noteq> j"
  then have "j - i \<noteq> 0" by auto
  then have "unat (j - i - 1) = unat (j - i) - 1" by (simp add: unat_minus_one)
  then show ?thesis by (simp add: diff_diff_eq)
qed

lemma unat_diff_0 [simp]: "unat (i - j) = 0 \<longleftrightarrow> (i :: u16) = j"
  by (simp add: unat_eq_zero)

lemma ow_get_outside: "\<not> unat (i - ow_head w) < ow_span w \<Longrightarrow> ow_get w i = None"
  by (simp add: ow_get_def word_le_nat_alt)

lemma advance_one:
  assumes wf: "ow_wf w" and ne: "ow_head w \<noteq> ow_tail w"
  shows "\<exists>w'. advance 1 w = Some w' \<and> ow_wf w' \<and> ow_get w' = (ow_get w)(ow_head w := None) \<and>
     ow_head w' = ow_head w + 1 \<and> ow_span w' = ow_span w - 1 \<and>
     w' = w\<lparr>ow_slots := ow_slots w', ow_created := ow_created w', ow_head := ow_head w'\<rparr>"
proof -
  have "0 < ow_span w" using ne by (simp add: gr0_conv_Suc[symmetric] flip: neq0_conv)
  then obtain w1 where w1: "ow_release w (ow_head w) = Some w1" "ow_wf w1"
    "ow_get w1 = (ow_get w)(ow_head w := None)" "w1 = w\<lparr>ow_slots := ow_slots w1\<rparr>"
    using ow_release_inside[OF wf, of "ow_head w"] by auto
  have f: "ow_head w1 = ow_head w" "ow_tail w1 = ow_tail w" "ow_capacity w1 = ow_capacity w"
    by (subst w1(4), simp)+
  have "ow_capacity w1 \<noteq> 0" using wf ne f(3) by (auto simp: ow_wf_def ow_ring_def)
  then obtain k where r: "ow_ring w1 k" using w1(2) by (auto elim: ow_wf_cases)
  then have c: "ow_capacity w1 = 2 ^ k" "k \<le> 15" "6 \<le> k" and sp: "ow_span w1 \<le> 2 ^ k"
    by (auto simp: ow_ring_def)
  define w' where "w' = w1\<lparr>ow_created := (ow_created w1)[slot_of w1 (ow_head w1) := 0],
    ow_head := ow_head w1 + 1\<rparr>"
  have sl: "slot_of w' = slot_of w1" by (simp add: slot_of_def w'_def fun_eq_iff)
  have span: "ow_span w' = ow_span w1 - 1" using ne f by (simp add: w'_def unat_succ)
  have pos: "0 < ow_span w1" using \<open>0 < ow_span w\<close> f by simp
  have gone: "ow_slots w1 ! slot_of w1 (ow_head w) = None"
    using w1(3) pos ow_get_ring[OF r, of "ow_head w"] f(1) by simp
  have "ow_ring w' k"
    unfolding ow_ring_def sl
  proof (intro conjI allI impI)
    fix n assume n: "n < 2 ^ k" "ow_span w' \<le> n"
    have "(2::nat) ^ k \<le> 2 ^ 15" using c(2) by (intro power_increasing) auto
    then have u: "unat (of_nat m :: u16) = m" if "m \<le> 2 ^ k" for m using that by (simp add: unat_of_nat)
    let ?i = "ow_head w1 + of_nat (Suc n)"
    have eq: "ow_head w' + of_nat n = ?i" by (simp add: w'_def)
    have d: "unat (?i - ow_head w1) = Suc n" using u[of "Suc n"] n(1) by simp
    have "ow_slots w1 ! slot_of w1 ?i = None"
    proof (cases "Suc n < 2 ^ k")
      case True
      then show ?thesis using ow_ring_outside[OF r, of ?i] d n(2) span by simp
    next
      case False
      then have "Suc n = 2 ^ k" using n(1) by simp
      then have "slot_of w1 ?i = slot_of w1 (ow_head w1)"
        using c(1,2) d by (simp add: slot_of_mod[of w1 k])
      then show ?thesis using gone f(1) by simp
    qed
    then show "ow_slots w' ! slot_of w1 (ow_head w' + of_nat n) = None"
      unfolding eq by (simp add: w'_def)
  qed (use r span sp in \<open>simp_all add: ow_ring_def w'_def\<close>)
  note ring = this
  have get: "ow_get w' = ow_get w1"
  proof
    fix j
    show "ow_get w' j = ow_get w1 j"
    proof (cases "j = ow_head w1")
      case True
      then show ?thesis
        using gone f(1) span by (simp add: ow_get_ring[OF ring] ow_get_ring[OF r] sl) (simp add: w'_def)
    next
      case False
      have "unat (j - ow_head w') = unat (j - ow_head w1) - 1" "0 < unat (j - ow_head w1)"
        using False by (simp_all add: w'_def unat_succ flip: neq0_conv)
      then show ?thesis
        using span pos by (auto simp: ow_get_ring[OF ring] ow_get_ring[OF r] sl) (simp_all add: w'_def)
    qed
  qed
  have "ow_wf w'"
    by (rule ow_wf_ring[OF ring]) (use get ow_wf_packet[OF w1(2)] in simp)
  moreover have "advance 1 w = Some w'"
    using w1(1) \<open>ow_capacity w1 \<noteq> 0\<close> by (simp add: w'_def Let_def numeral_eq_Suc)
  moreover have "w' = w\<lparr>ow_slots := ow_slots w', ow_created := ow_created w', ow_head := ow_head w'\<rparr>"
    unfolding w'_def by (subst (1 2 3 4 5 6) w1(4)) simp
  ultimately show ?thesis
    using get w1(3) span f by (intro exI[of _ w']) (auto simp: w'_def)
qed

lemma advance_Suc: "advance (Suc n) w = Option.bind (advance 1 w) (advance n)"
  by (cases "ow_release w (ow_head w)") (simp_all add: Let_def)

lemma advance_spec:
  assumes "ow_wf w" "n \<le> ow_span w"
  shows "\<exists>w'. advance n w = Some w' \<and> ow_wf w' \<and>
     ow_get w' = (\<lambda>i. if unat (i - ow_head w) < n then None else ow_get w i) \<and>
     ow_head w' = ow_head w + of_nat n \<and> ow_span w' = ow_span w - n \<and>
     w' = w\<lparr>ow_slots := ow_slots w', ow_created := ow_created w', ow_head := ow_head w'\<rparr>"
  using assms
proof (induction n arbitrary: w)
  case (Suc n)
  then have ne: "ow_head w \<noteq> ow_tail w" by auto
  from advance_one[OF Suc.prems(1) this] obtain w1 where w1: "advance 1 w = Some w1" "ow_wf w1"
    "ow_get w1 = (ow_get w)(ow_head w := None)" "ow_head w1 = ow_head w + 1" "ow_span w1 = ow_span w - 1"
    "w1 = w\<lparr>ow_slots := ow_slots w1, ow_created := ow_created w1, ow_head := ow_head w1\<rparr>" by blast
  have "n \<le> ow_span w1" using Suc.prems(2) w1(5) by simp
  from Suc.IH[OF w1(2) this] obtain w' where w': "advance n w1 = Some w'" "ow_wf w'"
    "ow_get w' = (\<lambda>i. if unat (i - ow_head w1) < n then None else ow_get w1 i)"
    "ow_head w' = ow_head w1 + of_nat n" "ow_span w' = ow_span w1 - n"
    "w' = w1\<lparr>ow_slots := ow_slots w', ow_created := ow_created w', ow_head := ow_head w'\<rparr>" by blast
  have "ow_get w' i = (if unat (i - ow_head w) < Suc n then None else ow_get w i)" for i
  proof (cases "i = ow_head w")
    case False
    then have "0 < unat (i - ow_head w)" "unat (i - ow_head w1) = unat (i - ow_head w) - 1"
      unfolding w1(4) by (simp_all add: unat_succ flip: neq0_conv)
    then show ?thesis using False by (auto simp: w'(3) w1(3))
  qed (simp add: w'(3) w1(3))
  moreover have "w' = w\<lparr>ow_slots := ow_slots w', ow_created := ow_created w', ow_head := ow_head w'\<rparr>"
    by (subst w'(6), subst w1(6)) simp
  moreover have "advance (Suc n) w = Some w'" unfolding advance_Suc using w1(1) w'(1) by simp
  moreover have "ow_head w' = ow_head w + of_nat (Suc n)" using w'(4) w1(4) by (simp add: add.commute)
  moreover have "ow_span w' = ow_span w - Suc n" using w'(5) w1(5) by simp
  ultimately show ?case using w'(2) by blast
qed simp

section \<open>Growing\<close>

lemma double_to_power:
  assumes "sz = 2 ^ j" "need \<le> 2 ^ m" "j \<le> m" "m - j \<le> fuel"
  shows "\<exists>k. j \<le> k \<and> k \<le> m \<and> double_to fuel sz need = 2 ^ k \<and> need \<le> 2 ^ k"
  using assms
proof (induction fuel arbitrary: sz j)
  case 0
  then show ?case by auto
next
  case (Suc fuel)
  show ?case
  proof (cases "sz < need")
    case True
    then have "j < m" using Suc.prems by (metis le_neq_implies_less linorder_not_less)
    then have "Suc j \<le> m" "m - Suc j \<le> fuel" using Suc.prems(4) by linarith+
    moreover have "sz * 2 = 2 ^ Suc j" using Suc.prems(1) by simp
    ultimately obtain k where "Suc j \<le> k" "k \<le> m" "double_to fuel (sz * 2) need = 2 ^ k" "need \<le> 2 ^ k"
      using Suc.IH[OF _ Suc.prems(2)] by blast
    then show ?thesis using True by auto
  qed (use Suc.prems in auto)
qed

text \<open>The copying loop fills the slot of every live ID and no other slot.\<close>

lemma move_slots_spec:
  assumes "length slots = 2 ^ k" "length stamps = 2 ^ k" "k \<le> 15" "i + n \<le> 2 ^ k"
  shows "case move_slots w (2 ^ k) i n slots stamps of (ss, ts) \<Rightarrow>
     length ss = 2 ^ k \<and> length ts = 2 ^ k \<and>
     (\<forall>j<2 ^ k. ss ! (unat (ow_head w + of_nat j) mod 2 ^ k) =
        (if i \<le> j \<and> j < i + n then ow_slots w ! slot_of w (ow_head w + of_nat j)
         else slots ! (unat (ow_head w + of_nat j) mod 2 ^ k)))"
  using assms
proof (induction n arbitrary: i slots stamps)
  case (Suc n)
  let ?s = "\<lambda>j. unat (ow_head w + of_nat j) mod 2 ^ k"
  have m: "unat (ow_head w + of_nat i) AND (2 ^ k - 1) = ?s i"
    using slot_of_nat[of "w\<lparr>ow_capacity := 2 ^ k\<rparr>" k] by (simp add: slot_of_def)
  have "(2::nat) ^ k \<le> 2 ^ 15" using Suc.prems(3) by (intro power_increasing) auto
  then have u: "unat (of_nat m :: u16) = m" if "m < 2 ^ k" for m using that by (simp add: unat_of_nat)
  have inj: "?s a = ?s b \<longleftrightarrow> a = b" if "a < 2 ^ k" "b < 2 ^ k" for a b
  proof -
    let ?w = "w\<lparr>ow_capacity := 2 ^ k\<rparr>"
    have "slot_of ?w (ow_head w + of_nat a) = slot_of ?w (ow_head w + of_nat b) \<longleftrightarrow>
        (of_nat a :: u16) = of_nat b"
      using slot_of_inj[of ?w k "ow_head w + of_nat a" "ow_head w + of_nat b"] Suc.prems(3) that u by simp
    then show ?thesis using u that by (metis slot_of_nat[of ?w k] out_window.select_convs(3) out_window.update_convs(3)
          out_window.surjective)
  qed
  have step: "move_slots w (2 ^ k) i (Suc n) slots stamps = move_slots w (2 ^ k) (Suc i) n
      (slots[?s i := ow_slots w ! slot_of w (ow_head w + of_nat i)])
      (stamps[?s i := ow_created w ! slot_of w (ow_head w + of_nat i)])"
    by (simp only: move_slots.simps Let_def m)
  have "i < 2 ^ k" using Suc.prems(4) by simp
  then show ?case
    unfolding step using Suc.IH[of "slots[?s i := ow_slots w ! slot_of w (ow_head w + of_nat i)]"
        "stamps[?s i := ow_created w ! slot_of w (ow_head w + of_nat i)]" "Suc i"] Suc.prems
    by (auto simp: nth_list_update inj le_Suc_eq not_less_eq_eq dest: le_antisym split: prod.splits)
qed auto

lemma grow_window_spec:
  assumes wf: "ow_wf w"
  shows "case grow_window xa xb w need of (ok, w') \<Rightarrow>
     ow_wf w' \<and> ow_get w' = ow_get w \<and>
     w' = w\<lparr>ow_slots := ow_slots w', ow_created := ow_created w', ow_capacity := ow_capacity w'\<rparr> \<and>
     (ok \<longrightarrow> need \<le> ow_capacity w') \<and> (\<not> ok \<longrightarrow> w' = w) \<and>
     (ok \<longleftrightarrow> need \<le> ow_capacity w \<or> need \<le> 32768 \<and> xa \<and> xb)"
proof (cases "need \<le> ow_capacity w \<or> need > 32768 \<or> \<not> xa \<or> \<not> xb")
  case True
  then show ?thesis using wf by (auto simp: grow_window_def Let_def)
next
  case False
  define base where "base = (if ow_capacity w \<noteq> 0 then ow_capacity w else 64)"
  define live where "live = (if ow_capacity w \<noteq> 0 then ow_span w else 0)"
  have "\<exists>j. base = 2 ^ j \<and> 6 \<le> j \<and> j \<le> 15 \<and> live \<le> 2 ^ j \<and> live = ow_span w"
    using wf
  proof (cases rule: ow_wf_cases)
    case 1
    then show ?thesis by (intro exI[of _ 6]) (simp add: base_def live_def)
  next
    case (2 k)
    then show ?thesis by (intro exI[of _ k]) (simp add: base_def live_def ow_ring_def)
  qed
  then obtain j where j: "base = 2 ^ j" "6 \<le> j" "j \<le> 15" "live \<le> 2 ^ j" "live = ow_span w" by blast
  have "need \<le> 2 ^ 15" using False by simp
  moreover have "15 - j \<le> 16" by simp
  ultimately obtain k where
    k: "j \<le> k" "k \<le> 15" "double_to 16 base need = 2 ^ k" "need \<le> 2 ^ k"
    using double_to_power[OF j(1) _ j(3)] by blast
  have "(2::nat) ^ j \<le> 2 ^ k" using k(1) by (intro power_increasing) auto
  with j(4) have live: "live \<le> 2 ^ k" by (rule order_trans)
  obtain ss ts where mv: "move_slots w (2 ^ k) 0 live (replicate (2 ^ k) None) (replicate (2 ^ k) 0) = (ss, ts)"
    by fastforce
  have ms: "length ss = 2 ^ k" "length ts = 2 ^ k"
    "\<forall>n<2 ^ k. ss ! (unat (ow_head w + of_nat n) mod 2 ^ k) =
       (if n < live then ow_slots w ! slot_of w (ow_head w + of_nat n) else None)"
    using move_slots_spec[of "replicate (2 ^ k) None" k "replicate (2 ^ k) 0" 0 live w] k(2) live mv by auto
  define w' where "w' = w\<lparr>ow_slots := ss, ow_created := ts, ow_capacity := 2 ^ k\<rparr>"
  have sl: "slot_of w' i = unat i mod 2 ^ k" for i by (rule slot_of_nat) (simp add: w'_def)
  have run: "grow_window xa xb w need = (True, w')"
    using False k(3) mv by (simp add: grow_window_def base_def live_def w'_def Let_def)
  have ring: "ow_ring w' k"
    unfolding ow_ring_def sl using ms k j live by (auto simp: w'_def)
  have get: "ow_get w' i = ow_get w i" for i
  proof (cases "unat (i - ow_head w) < ow_span w")
    case True
    then have n: "unat (i - ow_head w) < live" "unat (i - ow_head w) < 2 ^ k" using j(5) live by auto
    have "ow_slots w' ! slot_of w' i = ow_slots w ! slot_of w i"
      using ms(3)[rule_format, OF n(2)] n(1) unfolding sl by (simp add: w'_def)
    moreover have "ow_capacity w \<noteq> 0" using True n(1) by (auto simp: live_def split: if_splits)
    then obtain k0 where "ow_ring w k0" using wf by (auto elim: ow_wf_cases)
    ultimately show ?thesis using True by (simp add: ow_get_ring[OF ring] ow_get_ring) (simp add: w'_def)
  next
    case False
    then show ?thesis using ow_get_outside[of i w] ow_get_outside[of i w'] by (simp add: w'_def)
  qed
  have "ow_wf w'" by (rule ow_wf_ring[OF ring]) (use get ow_wf_packet[OF wf] in simp)
  then show ?thesis using run get k(4) False by (auto simp: fun_eq_iff w'_def)
qed

section \<open>Retaining\<close>

text \<open>Moving the tail forward inside the ring takes in empty slots only.\<close>

lemma extend_tail:
  assumes r: "ow_ring w k" and d: "ow_span w \<le> unat (i - ow_head w)" "unat (i - ow_head w) < 2 ^ k"
  shows "ow_ring (w\<lparr>ow_tail := i + 1\<rparr>) k" "ow_get (w\<lparr>ow_tail := i + 1\<rparr>) = ow_get w"
    "ow_span (w\<lparr>ow_tail := i + 1\<rparr>) = Suc (unat (i - ow_head w))"
proof -
  let ?w = "w\<lparr>ow_tail := i + 1\<rparr>"
  have k: "k \<le> 15" using r by (simp add: ow_ring_def)
  then have "(2::nat) ^ k \<le> 2 ^ 15" by (intro power_increasing) auto
  then have b: "Suc (unat (i - ow_head w)) < 2 ^ 16" using d(2) by simp
  have e: "i + 1 - ow_head w = (i - ow_head w) + 1" by (simp add: algebra_simps)
  have u: "unat ((i - ow_head w) + 1) = Suc (unat (i - ow_head w))"
    using b by (simp add: unat_word_ariths)
  have span': "unat (i + 1 - ow_head w) = Suc (unat (i - ow_head w))" by (simp only: e u)
  then show span: "ow_span ?w = Suc (unat (i - ow_head w))" by simp
  have sl: "slot_of ?w = slot_of w" by (simp add: slot_of_def fun_eq_iff)
  show ring: "ow_ring ?w k"
    using r d span unfolding ow_ring_def sl by auto
  show "ow_get ?w = ow_get w"
  proof
    fix j
    show "ow_get ?w j = ow_get w j"
      using ow_ring_outside[OF r, of j] d
      by (auto simp: ow_get_ring[OF ring] ow_get_ring[OF r] sl span' less_Suc_eq)
  qed
qed

text \<open>The window that \<^verbatim>\<open>Retain\<close> starts from.\<close>

definition started :: "u16 \<Rightarrow> out_window \<Rightarrow> out_window" where
  "started i w = (if ow_initialized w then w
     else w\<lparr>ow_head := i, ow_tail := i, ow_cursor := i, ow_initialized := True\<rparr>)"

text \<open>An uninitialised window holds nothing.\<close>

definition ow_inv :: "out_window \<Rightarrow> bool" where
  "ow_inv w \<longleftrightarrow> ow_wf w \<and> (\<not> ow_initialized w \<longrightarrow> ow_capacity w = 0 \<and> ow_head w = ow_tail w)"

lemma started_wf: "ow_inv w \<Longrightarrow> ow_wf (started i w) \<and> ow_get (started i w) = ow_get w \<and> ow_initialized (started i w)"
  by (auto simp: ow_inv_def ow_wf_def started_def ow_get_def fun_eq_iff)

lemma ow_invI: "ow_wf w \<Longrightarrow> ow_initialized w \<Longrightarrow> ow_inv w"
  by (simp add: ow_inv_def)

lemma retain_in_spec:
  fixes p :: session_packet
  assumes inv: "ow_inv w" and b: "buf_wf (pkt_body p)"
  defines "i \<equiv> hdr_packetId (pkt_header p)"
  shows "\<exists>ok p' w'. retain_in xa xb xc w p created = Some (ok, p', w') \<and> ow_inv w' \<and>
     (if ok then ow_get w i = None \<and> ow_get w' = (ow_get w)(i \<mapsto> \<lparr>pkt_header = pkt_header p,
          pkt_body = pkt_body p, pkt_crc = pkt_crc p\<rparr>) \<and> unat (i - ow_head (started i w)) < 32768
      else p' = p \<and> ow_get w' = ow_get w) \<and>
     (xa \<and> xb \<and> xc \<and> unat (i - ow_head (started i w)) < 32768 \<and> ow_get w i = None \<longrightarrow> ok)"
proof -
  define w0 where "w0 = started i w"
  define d where "d = unat (i - ow_head w0)"
  have wf0: "ow_wf w0" "ow_get w0 = ow_get w" "ow_initialized w0" using started_wf[OF inv] by (auto simp: w0_def)
  obtain ok1 w1 where g: "(if d < 32768 then grow_window xa xb w0 (d + 1) else (False, w0)) = (ok1, w1)"
    by fastforce
  have w1: "ow_wf w1" "ow_get w1 = ow_get w" "ow_head w1 = ow_head w0" "ow_tail w1 = ow_tail w0" "ow_initialized w1"
    "ok1 \<Longrightarrow> d < 32768 \<and> d + 1 \<le> ow_capacity w1" "xa \<Longrightarrow> xb \<Longrightarrow> d < 32768 \<Longrightarrow> ok1"
  proof -
    have *: "ow_wf w1 \<and> ow_get w1 = ow_get w0 \<and>
      w1 = w0\<lparr>ow_slots := ow_slots w1, ow_created := ow_created w1, ow_capacity := ow_capacity w1\<rparr> \<and>
      (ok1 \<longrightarrow> d < 32768 \<and> d + 1 \<le> ow_capacity w1) \<and> (xa \<and> xb \<and> d < 32768 \<longrightarrow> ok1)"
      using g grow_window_spec[OF wf0(1), of "d + 1" xa xb] wf0(1) by (auto split: if_splits prod.splits)
    then have e: "w1 = w0\<lparr>ow_slots := ow_slots w1, ow_created := ow_created w1, ow_capacity := ow_capacity w1\<rparr>"
      by blast
    show "ow_head w1 = ow_head w0" "ow_tail w1 = ow_tail w0" "ow_initialized w1"
      by (subst e, simp add: wf0(3))+
    show "ow_wf w1" "ow_get w1 = ow_get w" "ok1 \<Longrightarrow> d < 32768 \<and> d + 1 \<le> ow_capacity w1"
      "xa \<Longrightarrow> xb \<Longrightarrow> d < 32768 \<Longrightarrow> ok1" using * wf0(2) by auto
  qed
  have run: "retain_in xa xb xc w p created =
     (if ok1 \<and> xc \<and> ow_slots w1 ! slot_of w1 i = None
      then do {
        (drained, body) \<leftarrow> IHS_BufferTransferOwnership (pkt_body p);
        let copy = \<lparr>pkt_header = pkt_header p, pkt_body = body, pkt_crc = pkt_crc p\<rparr>;
        let w = w1\<lparr>ow_slots := (ow_slots w1)[slot_of w1 i := Some copy],
                  ow_created := (ow_created w1)[slot_of w1 i := created]\<rparr>;
        let w = (if ow_span w \<le> d then w\<lparr>ow_tail := i + 1\<rparr> else w);
        Some (True, p\<lparr>pkt_body := drained\<rparr>, w)
      } else Some (False, p, w1))"
    using g unfolding retain_in_def Let_def i_def[symmetric] started_def[symmetric] w0_def[symmetric]
      d_def[symmetric] by simp
  show ?thesis
  proof (cases "ok1 \<and> xc \<and> ow_slots w1 ! slot_of w1 i = None")
    case False
    have "xa \<and> xb \<and> xc \<and> d < 32768 \<longrightarrow> ow_get w i \<noteq> None"
    proof (intro impI)
      assume *: "xa \<and> xb \<and> xc \<and> d < 32768"
      then have ok1: ok1 and ns: "ow_slots w1 ! slot_of w1 i \<noteq> None" using w1(7) False by auto
      then obtain k where k: "ow_ring w1 k" using w1(1,6) by (auto elim: ow_wf_cases)
      then have "d < 2 ^ k" using w1(6)[OF ok1] by (simp add: ow_ring_def)
      then have "unat (i - ow_head w1) < ow_span w1"
        using ns ow_ring_outside[OF k, of i] w1(3) by (metis d_def linorder_not_le)
      then show "ow_get w i \<noteq> None" using ns by (simp add: ow_get_ring[OF k] flip: w1(2))
    qed
    then show ?thesis using False run w1 by (auto simp: ow_invI w0_def[symmetric] d_def[symmetric])
  next
    case True
    let ?copy = "\<lparr>pkt_header = pkt_header p, pkt_body = pkt_body p, pkt_crc = pkt_crc p\<rparr>"
    obtain k where k: "ow_ring w1 k" using w1(1,6) True by (auto elim: ow_wf_cases)
    have dk: "d < 2 ^ k" using w1(6) True k by (simp add: ow_ring_def)
    define w2 where "w2 = (if ow_span w1 \<le> d then w1\<lparr>ow_tail := i + 1\<rparr> else w1)"
    have r2: "ow_ring w2 k" "ow_get w2 = ow_get w" "d < ow_span w2" "ow_head w2 = ow_head w0"
      using extend_tail[OF k, of i] dk k w1(2,3) by (auto simp: w2_def d_def)
    have sl: "slot_of w2 = slot_of w1" by (simp add: slot_of_def w2_def fun_eq_iff)
    have i2: "unat (i - ow_head w2) < ow_span w2" using r2(3,4) by (simp add: d_def)
    have none: "ow_get w i = None" using ow_get_ring[OF r2(1), of i] True r2(2) sl by (simp add: w2_def split: if_splits)
    let ?w3 = "w2\<lparr>ow_slots := (ow_slots w2)[slot_of w2 i := Some ?copy]\<rparr>"
    let ?w4 = "?w3\<lparr>ow_created := (ow_created w2)[slot_of w2 i := created]\<rparr>"
    have "ow_get ?w4 = ow_get ?w3" "ow_ring ?w4 k \<longleftrightarrow> ow_ring ?w3 k"
      using r2(1) by (simp_all add: fun_eq_iff ow_get_def slot_of_def ow_ring_def)
    then have r4: "ow_get ?w4 = (ow_get w)(i \<mapsto> ?copy)" "ow_ring ?w4 k"
      using ow_get_update[OF r2(1) i2, of "Some ?copy"] r2(2) by simp_all
    have "hdr_packetId (pkt_header q) = j \<and> buf_wf (pkt_body q)" if "ow_get ?w4 j = Some q" for j q
      using that b ow_wf_packet[OF w1(1), of j q] unfolding r4(1) w1(2) by (auto simp: i_def split: if_splits)
    then have "ow_wf ?w4" by (rule ow_wf_ring[OF r4(2)])
    moreover have "ow_initialized ?w4" using w1(5) by (simp add: w2_def)
    ultimately have "ow_inv ?w4" by (rule ow_invI)
    moreover obtain q where "retain_in xa xb xc w p created = Some (True, q, ?w4)"
      using True run unfolding sl by (simp add: w2_def Let_def)
    moreover have "d < 32768" using w1(6) True by simp
    ultimately show ?thesis using r4(1) none by (auto simp: w0_def[symmetric] d_def[symmetric])
  qed
qed

end
