(* ===== verification/Outgoing_Nack.thy ===== *)
theory Outgoing_Nack
  imports Outgoing_Spec
begin

text \<open>
  The effect of feedback on the retransmission window: which packets a NACK releases, which it
  marks for another transmission, and which it leaves alone.
\<close>

section \<open>Marking\<close>

lemma ow_frame [simp]:
  "slot_of (w\<lparr>ow_lastFeedback := x\<rparr>) = slot_of w" "slot_of (w\<lparr>ow_cursor := i\<rparr>) = slot_of w"
  "ow_ring (w\<lparr>ow_lastFeedback := x\<rparr>) k = ow_ring w k" "ow_ring (w\<lparr>ow_cursor := i\<rparr>) k = ow_ring w k"
  "ow_get (w\<lparr>ow_lastFeedback := x\<rparr>) = ow_get w" "ow_get (w\<lparr>ow_cursor := i\<rparr>) = ow_get w"
  "ow_wf (w\<lparr>ow_lastFeedback := x\<rparr>) = ow_wf w" "ow_wf (w\<lparr>ow_cursor := i\<rparr>) = ow_wf w"
proof -
  show s: "slot_of (w\<lparr>ow_lastFeedback := x\<rparr>) = slot_of w" "slot_of (w\<lparr>ow_cursor := i\<rparr>) = slot_of w"
    by (simp_all add: slot_of_def fun_eq_iff)
  show r: "ow_ring (w\<lparr>ow_lastFeedback := x\<rparr>) k = ow_ring w k" "ow_ring (w\<lparr>ow_cursor := i\<rparr>) k = ow_ring w k" for k
    by (simp_all add: ow_ring_def s)
  show g: "ow_get (w\<lparr>ow_lastFeedback := x\<rparr>) = ow_get w" "ow_get (w\<lparr>ow_cursor := i\<rparr>) = ow_get w"
    by (simp_all add: ow_get_def s fun_eq_iff)
  show "ow_wf (w\<lparr>ow_lastFeedback := x\<rparr>) = ow_wf w" "ow_wf (w\<lparr>ow_cursor := i\<rparr>) = ow_wf w"
    by (simp_all add: ow_wf_def r g)
qed

definition marked :: "u32 \<Rightarrow> session_packet \<Rightarrow> session_packet" where
  "marked cutoff p =
     (let h = pkt_header p in
      if hdr_retransmitCount h \<noteq> 0 \<and> hdr_sendTimestamp h \<noteq> 0 \<and> sint (cutoff - hdr_sendTimestamp h) \<ge> 0
      then p\<lparr>pkt_header := h\<lparr>hdr_sendTimestamp := 0\<rparr>\<rparr> else p)"

lemma marked_simps [simp]:
  "marked c (marked c p) = marked c p"
  "hdr_packetId (pkt_header (marked c p)) = hdr_packetId (pkt_header p)" "pkt_body (marked c p) = pkt_body p"
  by (simp_all add: marked_def Let_def)

text \<open>What a step may change: the slots only.\<close>

abbreviation same_frame :: "out_window \<Rightarrow> out_window \<Rightarrow> bool" where
  "same_frame w w' \<equiv> w' = w\<lparr>ow_slots := ow_slots w'\<rparr>"

lemma same_frame_fields:
  assumes "same_frame w w'"
  shows "ow_head w' = ow_head w" "ow_tail w' = ow_tail w" "ow_cursor w' = ow_cursor w"
    "ow_capacity w' = ow_capacity w" "ow_initialized w' = ow_initialized w"
    "ow_lastFeedback w' = ow_lastFeedback w"
  by (subst assms, simp)+

lemma same_frame_trans:
  assumes "same_frame w w1" "same_frame w1 w2" shows "same_frame w w2"
  by (subst assms(2), subst assms(1)) simp

lemma fun_upd_same [simp]: "f(x := f x) = f"
  by simp

lemma ow_get_inside: "ow_get w i = Some p \<Longrightarrow> unat (i - ow_head w) < ow_span w"
  by (rule ccontr) (simp add: ow_get_outside)

lemma mark_spec:
  assumes wf: "ow_wf w"
  shows "ow_wf (mark c i w) \<and> ow_get (mark c i w) = (ow_get w)(i := map_option (marked c) (ow_get w i)) \<and>
     same_frame w (mark c i w)"
proof (cases "ow_get w i")
  case None
  then show ?thesis using wf by (auto simp: mark_def fun_eq_iff)
next
  case (Some p)
  then obtain k where k: "ow_ring w k" using wf by (auto elim: ow_wf_cases)
  have i: "unat (i - ow_head w) < ow_span w" using ow_get_inside[OF Some] .
  have e: "mark c i w = (if marked c p = p then w else w\<lparr>ow_slots := (ow_slots w)[slot_of w i := Some (marked c p)]\<rparr>)"
  proof -
    let ?h = "pkt_header p"
    have "hdr_sendTimestamp ?h = 0" if a: "p\<lparr>pkt_header := ?h\<lparr>hdr_sendTimestamp := 0\<rparr>\<rparr> = p"
      using arg_cong[OF a, of "\<lambda>q. hdr_sendTimestamp (pkt_header q)"] by simp
    then have "marked c p \<noteq> p" if "hdr_retransmitCount ?h \<noteq> 0 \<and> hdr_sendTimestamp ?h \<noteq> 0 \<and>
        sint (c - hdr_sendTimestamp ?h) \<ge> 0"
      using that by (simp add: marked_def Let_def) blast
    then show ?thesis using Some unfolding mark_def Let_def marked_def by (simp split: if_split)
  qed
  note up = ow_get_update[OF k i, of "Some (marked c p)"]
  have "ow_wf (w\<lparr>ow_slots := (ow_slots w)[slot_of w i := Some (marked c p)]\<rparr>)"
    by (rule ow_wf_ring[OF up(2)]) (use Some ow_wf_packet[OF wf] in \<open>auto simp: up(1) split: if_splits\<close>)
  then show ?thesis using wf e up(1) Some by (auto simp: fun_eq_iff)
qed

lemma mark_run_spec:
  assumes "ow_wf w" "n \<le> 65536"
  shows "ow_wf (mark_run c i n w) \<and> same_frame w (mark_run c i n w) \<and>
     ow_get (mark_run c i n w) = (\<lambda>j. if unat (j - i) < n then map_option (marked c) (ow_get w j) else ow_get w j)"
  using assms
proof (induction n arbitrary: i w)
  case (Suc n)
  note m = mark_spec[OF Suc.prems(1), of c i]
  have "n \<le> 65536" using Suc.prems(2) by simp
  note ih = Suc.IH[OF conjunct1[OF m] this, of "i + 1"]
  have "ow_get (mark_run c (i + 1) n (mark c i w)) j =
      (if unat (j - i) < Suc n then map_option (marked c) (ow_get w j) else ow_get w j)" for j
  proof (cases "j = i")
    case True
    then show ?thesis using ih m by (auto simp: option.map_comp o_def)
  next
    case False
    then have "unat (j - (i + 1)) = unat (j - i) - 1" "0 < unat (j - i)"
      by (simp_all add: unat_succ flip: neq0_conv)
    then show ?thesis using ih m False by auto
  qed
  moreover have "same_frame w (mark_run c (i + 1) n (mark c i w))"
    using ih m same_frame_trans by blast
  ultimately show ?case using ih by (auto simp: fun_eq_iff)
qed auto

section \<open>The bitmap\<close>

lemma nack_bits_spec:
  assumes "ow_wf w" "bits < 2 ^ m" "m \<le> 16"
  shows "\<exists>w'. nack_bits c i bits w = Some w' \<and> ow_wf w' \<and> same_frame w w' \<and>
     ow_get w' = (\<lambda>j. let k = unat (j - i) in
       if k < m \<and> bit bits k \<and> 0 < sint (ow_cursor w - j) then None
       else if k < m \<and> \<not> bit bits k \<and> 2 ^ k \<le> bits then map_option (marked c) (ow_get w j)
       else ow_get w j)"
  using assms
proof (induction m arbitrary: i bits w)
  case 0
  then show ?case by (simp add: nack_bits.simps)
next
  case (Suc m)
  show ?case
  proof (cases "bits = 0")
    case True
    then show ?thesis using Suc.prems(1) by (auto simp: nack_bits.simps fun_eq_iff Let_def)
  next
    case False
    define step where "step = (if odd bits
      then (if sint (ow_cursor w - i) > 0 \<and> ow_get w i \<noteq> None then ow_release w i else Some w)
      else Some (mark c i w))"
    have "\<exists>w1. step = Some w1 \<and> ow_wf w1 \<and> same_frame w w1 \<and>
        ow_get w1 = (ow_get w)(i := (if odd bits
          then (if 0 < sint (ow_cursor w - i) then None else ow_get w i) else map_option (marked c) (ow_get w i)))"
    proof (cases "odd bits \<and> sint (ow_cursor w - i) > 0 \<and> ow_get w i \<noteq> None")
      case True
      then have "unat (i - ow_head w) < ow_span w" using ow_get_inside by blast
      then show ?thesis using ow_release_inside[OF Suc.prems(1), of i] True by (auto simp: step_def)
    next
      case False
      then show ?thesis
        using mark_spec[OF Suc.prems(1), of c i] Suc.prems(1) by (auto simp: step_def fun_eq_iff)
    qed
    then obtain w1 where w1: "step = Some w1" "ow_wf w1" "same_frame w w1"
      "ow_get w1 = (ow_get w)(i := (if odd bits
          then (if 0 < sint (ow_cursor w - i) then None else ow_get w i) else map_option (marked c) (ow_get w i)))"
      by blast
    have "bits div 2 < 2 ^ m" "m \<le> 16" using Suc.prems(2,3) by auto
    from Suc.IH[OF w1(2) this, of "i + 1"] obtain w2 where w2: "nack_bits c (i + 1) (bits div 2) w1 = Some w2"
      "ow_wf w2" "same_frame w1 w2"
      "ow_get w2 = (\<lambda>j. let k = unat (j - (i + 1)) in
       if k < m \<and> bit (bits div 2) k \<and> 0 < sint (ow_cursor w1 - j) then None
       else if k < m \<and> \<not> bit (bits div 2) k \<and> 2 ^ k \<le> bits div 2 then map_option (marked c) (ow_get w1 j)
       else ow_get w1 j)" by blast
    have cur: "ow_cursor w1 = ow_cursor w" by (rule same_frame_fields(3)[OF w1(3)])
    have run: "nack_bits c i bits w = Some w2"
      using False w1(1) w2(1) by (subst nack_bits.simps) (simp add: step_def)
    have "ow_get w2 j = (let k = unat (j - i) in
       if k < Suc m \<and> bit bits k \<and> 0 < sint (ow_cursor w - j) then None
       else if k < Suc m \<and> \<not> bit bits k \<and> 2 ^ k \<le> bits then map_option (marked c) (ow_get w j)
       else ow_get w j)" for j
    proof (cases "j = i")
      case True
      have "i - (i + 1) = (65535 :: u16)" by simp
      then have "\<not> unat (i - (i + 1)) < m" using Suc.prems(3) by (simp only: unat_numeral) simp
      then show ?thesis using True False w1(4) w2(4) by (auto simp: Let_def bit_0)
    next
      case False
      then obtain k where k: "unat (j - i) = Suc k" by (metis not0_implies_Suc unat_diff_0)
      then have "unat (j - (i + 1)) = k" using False by (simp add: unat_succ)
      moreover have "2 ^ k \<le> bits div 2 \<longleftrightarrow> 2 ^ Suc k \<le> bits" by auto
      ultimately show ?thesis using False w1(4) w2(4) k cur by (simp add: Let_def bit_Suc)
    qed
    then show ?thesis using run w2(2) same_frame_trans[OF w1(3) w2(3)] by blast
  qed
qed

text \<open>The two readings of a bitmap position: received, and explicitly missing.\<close>

definition ack_bit :: "bytes \<Rightarrow> nat \<Rightarrow> bool" where
  "ack_bit bs k \<longleftrightarrow> k div 8 < length bs \<and> bit (bs ! (k div 8)) (k mod 8)"

definition nack_bit :: "bytes \<Rightarrow> nat \<Rightarrow> bool" where
  "nack_bit bs k \<longleftrightarrow> k div 8 < length bs \<and> \<not> bit (bs ! (k div 8)) (k mod 8) \<and>
     2 ^ (k mod 8) \<le> unat (bs ! (k div 8))"

lemma bitmap_Cons:
  "ack_bit (b # bs) k = (if k < 8 then bit b k else ack_bit bs (k - 8))"
  "nack_bit (b # bs) k = (if k < 8 then \<not> bit b k \<and> 2 ^ k \<le> unat b else nack_bit bs (k - 8))"
proof -
  have "k div 8 = Suc ((k - 8) div 8)" "k mod 8 = (k - 8) mod 8" if "\<not> k < 8"
    using that by (simp_all add: div_if le_mod_geq)
  then show "ack_bit (b # bs) k = (if k < 8 then bit b k else ack_bit bs (k - 8))"
    "nack_bit (b # bs) k = (if k < 8 then \<not> bit b k \<and> 2 ^ k \<le> unat b else nack_bit bs (k - 8))"
    by (simp_all add: ack_bit_def nack_bit_def)
qed

lemma nack_bytes_spec:
  assumes "ow_wf w" "8 * length bs \<le> 65536"
  shows "\<exists>w'. nack_bytes c i bs w = Some w' \<and> ow_wf w' \<and> same_frame w w' \<and>
     ow_get w' = (\<lambda>j. if ack_bit bs (unat (j - i)) \<and> 0 < sint (ow_cursor w - j) then None
       else if nack_bit bs (unat (j - i)) then map_option (marked c) (ow_get w j) else ow_get w j)"
  using assms
proof (induction bs arbitrary: i w)
  case Nil
  then show ?case by (simp add: ack_bit_def nack_bit_def)
next
  case (Cons b bs)
  have b: "unat b < 2 ^ 8" using unsigned_less[of b, where 'a = nat] by simp
  from nack_bits_spec[OF Cons.prems(1) b, of c i] obtain w1 where w1: "nack_bits c i (unat b) w = Some w1"
    "ow_wf w1" "same_frame w w1" "ow_get w1 = (\<lambda>j. let k = unat (j - i) in
       if k < 8 \<and> bit (unat b) k \<and> 0 < sint (ow_cursor w - j) then None
       else if k < 8 \<and> \<not> bit (unat b) k \<and> 2 ^ k \<le> unat b then map_option (marked c) (ow_get w j)
       else ow_get w j)" by auto
  have "8 * length bs \<le> 65536" using Cons.prems(2) by simp
  from Cons.IH[OF w1(2) this, of "i + 8"] obtain w2 where w2: "nack_bytes c (i + 8) bs w1 = Some w2"
    "ow_wf w2" "same_frame w1 w2"
    "ow_get w2 = (\<lambda>j. if ack_bit bs (unat (j - (i + 8))) \<and> 0 < sint (ow_cursor w1 - j) then None
       else if nack_bit bs (unat (j - (i + 8))) then map_option (marked c) (ow_get w1 j) else ow_get w1 j)"
    by blast
  have cur: "ow_cursor w1 = ow_cursor w" by (rule same_frame_fields(3)[OF w1(3)])
  have bb: "bit (unat b) k = bit b k" for k by (simp add: bit_unsigned_iff bit_imp_le_length)
  have "ow_get w2 j = (if ack_bit (b # bs) (unat (j - i)) \<and> 0 < sint (ow_cursor w - j) then None
       else if nack_bit (b # bs) (unat (j - i)) then map_option (marked c) (ow_get w j) else ow_get w j)" for j
  proof (cases "unat (j - i) < 8")
    case True
    have "j - (i + 8) = (j - i) + (- 8)" by simp
    moreover have "unat ((j - i) + (- 8)) = (unat (j - i) + 65528) mod 65536"
      by (subst unat_word_ariths(1)) simp
    ultimately have far: "unat (j - (i + 8)) = unat (j - i) + 65528" using True by (simp add: diff_diff_eq)
    have "length bs \<le> (unat (j - i) + 65528) div 8" using Cons.prems(2) by simp
    then have "\<not> ack_bit bs (unat (j - (i + 8)))" "\<not> nack_bit bs (unat (j - (i + 8)))"
      unfolding far by (simp_all add: ack_bit_def nack_bit_def)
    then show ?thesis using True by (simp add: w2(4) w1(4) bitmap_Cons bb Let_def)
  next
    case False
    have "(8 :: u16) \<le> j - i" using False by (simp add: word_le_nat_alt)
    then have "unat (j - i - 8) = unat (j - i) - 8" by (simp add: unat_sub)
    then have "unat (j - (i + 8)) = unat (j - i) - 8" by (simp add: diff_diff_eq)
    then show ?thesis using False by (simp add: w2(4) w1(4) bitmap_Cons cur Let_def)
  qed
  then show ?case using w1(1) w2(1,2) same_frame_trans[OF w1(3) w2(3)] by auto
qed

section \<open>Moving the head\<close>

text \<open>What moving the head may change.\<close>

abbreviation head_frame :: "out_window \<Rightarrow> out_window \<Rightarrow> bool" where
  "head_frame w w' \<equiv> w' = w\<lparr>ow_slots := ow_slots w', ow_created := ow_created w', ow_head := ow_head w'\<rparr>"

lemma head_frame_fields:
  assumes "head_frame w w'"
  shows "ow_tail w' = ow_tail w" "ow_cursor w' = ow_cursor w" "ow_capacity w' = ow_capacity w"
    "ow_initialized w' = ow_initialized w" "ow_lastFeedback w' = ow_lastFeedback w"
  by (subst assms, simp)+

lemma head_frame_trans:
  assumes "head_frame w w1" "head_frame w1 w2" shows "head_frame w w2"
  by (subst assms(2), subst assms(1)) simp

lemma same_head_frame:
  assumes "same_frame w w'" shows "head_frame w w'"
  using assms by (cases w; cases w') simp

lemma skip_released_spec:
  assumes "ow_wf w" "ow_span w \<le> n"
  shows "\<exists>w'. skip_released n w = Some w' \<and> ow_wf w' \<and> head_frame w w' \<and> ow_get w' = ow_get w \<and>
     (ow_head w' = ow_tail w' \<or> ow_get w' (ow_head w') \<noteq> None)"
  using assms
proof (induction n arbitrary: w)
  case (Suc n)
  show ?case
  proof (cases "ow_head w \<noteq> ow_tail w \<and> ow_get w (ow_head w) = None")
    case True
    from advance_one[OF Suc.prems(1)] True obtain w1 where w1: "advance 1 w = Some w1" "ow_wf w1"
      "ow_get w1 = (ow_get w)(ow_head w := None)" "ow_span w1 = ow_span w - 1" "head_frame w w1" by blast
    have "ow_span w1 \<le> n" using w1(4) Suc.prems(2) by simp
    from Suc.IH[OF w1(2) this] obtain w2 where w2: "skip_released n w1 = Some w2" "ow_wf w2" "head_frame w1 w2"
      "ow_get w2 = ow_get w1" "ow_head w2 = ow_tail w2 \<or> ow_get w2 (ow_head w2) \<noteq> None" by blast
    have "ow_get w1 = ow_get w" using w1(3) True by (auto simp: fun_eq_iff)
    then show ?thesis using True w1(1) w2 head_frame_trans[OF w1(5) w2(3)] by auto
  qed (use Suc.prems in auto)
qed auto

lemma expire_spec:
  assumes "ow_wf w" "ow_span w \<le> n"
  shows "\<exists>w' m. expire n keep now w = Some w' \<and> ow_wf w' \<and> head_frame w w' \<and>
     m \<le> ow_span w \<and> ow_head w' = ow_head w + of_nat m \<and>
     ow_get w' = (\<lambda>i. if unat (i - ow_head w) < m then None else ow_get w i) \<and>
     (ow_head w' = ow_tail w' \<or> sint (ow_created w' ! slot_of w' (ow_head w') + keep - now) \<ge> 0)"
  using assms
proof (induction n arbitrary: w)
  case 0
  then show ?case by (intro exI[of _ w] exI[of _ 0]) auto
next
  case (Suc n)
  show ?case
  proof (cases "ow_head w \<noteq> ow_tail w \<and> sint (ow_created w ! slot_of w (ow_head w) + keep - now) < 0")
    case True
    from advance_one[OF Suc.prems(1)] True obtain w1 where w1: "advance 1 w = Some w1" "ow_wf w1"
      "ow_get w1 = (ow_get w)(ow_head w := None)" "ow_head w1 = ow_head w + 1" "ow_span w1 = ow_span w - 1"
      "head_frame w w1" by blast
    have "ow_span w1 \<le> n" using w1(5) Suc.prems(2) by simp
    from Suc.IH[OF w1(2) this] obtain w2 m where w2: "expire n keep now w1 = Some w2" "ow_wf w2" "head_frame w1 w2"
      "m \<le> ow_span w1" "ow_head w2 = ow_head w1 + of_nat m"
      "ow_get w2 = (\<lambda>i. if unat (i - ow_head w1) < m then None else ow_get w1 i)"
      "ow_head w2 = ow_tail w2 \<or> sint (ow_created w2 ! slot_of w2 (ow_head w2) + keep - now) \<ge> 0" by blast
    have "ow_get w2 i = (if unat (i - ow_head w) < Suc m then None else ow_get w i)" for i
    proof (cases "i = ow_head w")
      case False
      then have "0 < unat (i - ow_head w)" "unat (i - ow_head w1) = unat (i - ow_head w) - 1"
        unfolding w1(4) by (simp_all add: unat_succ flip: neq0_conv)
      then show ?thesis using False by (auto simp: w2(6) w1(3))
    qed (simp add: w2(6) w1(3))
    moreover have "Suc m \<le> ow_span w"
    proof -
      have "0 < ow_span w" using True by (auto simp flip: neq0_conv)
      then show ?thesis using w2(4) w1(5) by linarith
    qed
    moreover have "ow_head w2 = ow_head w + of_nat (Suc m)" using w2(5) w1(4) by (simp add: add.commute)
    moreover have "expire (Suc n) keep now w = Some w2" using True w1(1) w2(1) by simp
    ultimately show ?thesis using w2(2,7) head_frame_trans[OF w1(6) w2(3)] by (intro exI[of _ w2] exI[of _ "Suc m"]) auto
  qed (use Suc.prems in \<open>intro exI[of _ w] exI[of _ 0]; auto\<close>)
qed

section \<open>Feedback as a whole\<close>

text \<open>The number of packets that a confirmation covers.\<close>

definition confirmed_count :: "out_window \<Rightarrow> u16 \<Rightarrow> nat" where
  "confirmed_count w confirmed =
     (let count = sint (confirmed - ow_head w + 1) in if count > 0 then min (nat count) (ow_span w) else 0)"

lemma nack_extended_spec:
  assumes wf: "ow_wf w" and bs: "8 * length bs \<le> 65536"
  shows "\<exists>w'. nack_extended cutoff base (IHS_WriteUInt32LE echo @ IHS_WriteUInt16LE confirmed @ bs) w =
       Some (if sint (cutoff - echo) < 0 then echo else cutoff, w') \<and> ow_wf w' \<and> head_frame w w' \<and>
     ow_get w' = (\<lambda>j. if unat (j - ow_head w) < confirmed_count w confirmed \<or>
           ack_bit bs (unat (j - base)) \<and> 0 < sint (ow_cursor w - j) then None
       else if nack_bit bs (unat (j - base))
         then map_option (marked (if sint (cutoff - echo) < 0 then echo else cutoff)) (ow_get w j)
       else ow_get w j)"
proof -
  let ?b = "IHS_WriteUInt32LE echo @ IHS_WriteUInt16LE confirmed @ bs"
  let ?c = "if sint (cutoff - echo) < 0 then echo else cutoff"
  have len: "length (IHS_WriteUInt32LE echo) = 4" "length (IHS_WriteUInt16LE confirmed) = 2"
    by (simp_all add: u32_wire.length_enc u16_wire.length_enc)
  have rd: "le_word (take 4 ?b) = echo" "le_word (take 2 (drop 4 ?b)) = confirmed" "drop 6 ?b = bs"
    using len by (simp_all add: IHS_WriteUInt32LE_def IHS_WriteUInt16LE_def le_word_le_bytes)
  have cc: "confirmed_count w confirmed \<le> ow_span w" by (simp add: confirmed_count_def Let_def)
  from advance_spec[OF wf cc] obtain w1 where w1: "advance (confirmed_count w confirmed) w = Some w1" "ow_wf w1"
    "ow_get w1 = (\<lambda>i. if unat (i - ow_head w) < confirmed_count w confirmed then None else ow_get w i)"
    "head_frame w w1" by blast
  from skip_released_spec[OF w1(2) order_refl] obtain w2 where w2: "skip_released (ow_span w1) w1 = Some w2"
    "ow_wf w2" "head_frame w1 w2" "ow_get w2 = ow_get w1" by blast
  from nack_bytes_spec[OF w2(2) bs, of ?c base] obtain w3 where w3: "nack_bytes ?c base bs w2 = Some w3" "ow_wf w3"
    "same_frame w2 w3"
    "ow_get w3 = (\<lambda>j. if ack_bit bs (unat (j - base)) \<and> 0 < sint (ow_cursor w2 - j) then None
       else if nack_bit bs (unat (j - base)) then map_option (marked ?c) (ow_get w2 j) else ow_get w2 j)" by blast
  have cur: "ow_cursor w2 = ow_cursor w"
    using head_frame_fields(2)[OF w1(4)] head_frame_fields(2)[OF w2(3)] by simp
  have fr: "head_frame w w3"
    using head_frame_trans[OF head_frame_trans[OF w1(4) w2(3)] same_head_frame[OF w3(3)]] .
  have "nack_extended cutoff base ?b w = Some (?c, w3)"
    unfolding nack_extended_def rd Let_def using w1(1) w2(1) w3(1)
    by (auto simp: confirmed_count_def Let_def split: if_splits)
  then show ?thesis using w3(2,4) fr w2(4) w1(3) cur by (auto simp: fun_eq_iff)
qed

text \<open>Marking the IDs below the base, which are compared without wrap-around.\<close>

lemma mark_below:
  fixes base :: u16 and c :: u32
  assumes wf: "ow_wf w"
  defines "count \<equiv> uint base - uint (ow_head w)"
  defines "w' \<equiv> (if count > 0 then mark_run c (ow_head w) (min (nat count) (ow_span w)) w else w)"
  shows "ow_wf w' \<and> same_frame w w' \<and>
     ow_get w' = (\<lambda>j. if uint (ow_head w) \<le> uint j \<and> uint j < uint base
        then map_option (marked c) (ow_get w j) else ow_get w j)"
proof -
  have below: "unat (j - ow_head w) < nat count \<longleftrightarrow> uint (ow_head w) \<le> uint j \<and> uint j < uint base"
    if "count > 0" for j
  proof (cases "uint (ow_head w) \<le> uint j")
    case True
    then have "uint (j - ow_head w) = uint j - uint (ow_head w)" by (simp add: uint_sub_if')
    then have "int (unat (j - ow_head w)) = uint j - uint (ow_head w)" by simp
    then show ?thesis using True that by (simp add: count_def zless_nat_eq_int_zless)
  next
    case False
    then have "uint (j - ow_head w) = uint j - uint (ow_head w) + 65536" by (simp add: uint_sub_if')
    then have "int (unat (j - ow_head w)) = uint j - uint (ow_head w) + 65536" by simp
    moreover have "uint base < 65536" "0 \<le> uint j" using uint_bounded[of base] by simp_all
    ultimately have "\<not> int (unat (j - ow_head w)) < count" unfolding count_def by linarith
    then show ?thesis using False by (simp add: zless_nat_eq_int_zless)
  qed
  show ?thesis
  proof (cases "count > 0")
    case True
    have "min (nat count) (ow_span w) \<le> 65536" using unsigned_less[of "ow_tail w - ow_head w", where 'a = nat] by simp
    note run = mark_run_spec[OF wf this, of c "ow_head w"]
    have "ow_get w' j = (if uint (ow_head w) \<le> uint j \<and> uint j < uint base
        then map_option (marked c) (ow_get w j) else ow_get w j)" for j
    proof (cases "unat (j - ow_head w) < ow_span w")
      case t: True
      then show ?thesis using run True below[OF True, of j] by (simp add: w'_def)
    next
      case False
      then show ?thesis using run True ow_get_outside[OF False] by (simp add: w'_def)
    qed
    then show ?thesis using run True by (auto simp: w'_def)
  next
    case False
    then have "\<not> (uint (ow_head w) \<le> uint j \<and> uint j < uint base)" for j by (auto simp: count_def)
    then show ?thesis using False wf by (auto simp: w'_def fun_eq_iff)
  qed
qed

lemma nack_window_extended:
  fixes now age :: u32
  assumes wf: "ow_wf w" and b: "buf_wf (pkt_body p)"
    and c: "buf_content (pkt_body p) = IHS_WriteUInt32LE echo @ IHS_WriteUInt16LE confirmed @ bs"
    and bs: "8 * length bs \<le> 65536"
    and fresh: "ow_lastFeedback w = 0 \<or> sint (hdr_sendTimestamp (pkt_header p) - ow_lastFeedback w) \<ge> 0"
  defines "base \<equiv> hdr_packetId (pkt_header p)"
    and "lim \<equiv> (if sint (now - age - echo) < 0 then echo else now - age)"
  shows "\<exists>w'. nack_window w p now age = Some w' \<and> ow_wf w' \<and>
     ow_lastFeedback w' = hdr_sendTimestamp (pkt_header p) \<and>
     ow_tail w' = ow_tail w \<and> ow_cursor w' = ow_cursor w \<and> ow_initialized w' = ow_initialized w \<and>
     ow_capacity w' = ow_capacity w \<and>
     (\<forall>j. ow_get w' j =
       (if unat (j - ow_head w) < confirmed_count w confirmed \<or>
           ack_bit bs (unat (j - base)) \<and> 0 < sint (ow_cursor w - j) then None
        else if nack_bit bs (unat (j - base)) \<or> uint (ow_head w') \<le> uint j \<and> uint j < uint base
          then map_option (marked lim) (ow_get w j)
        else ow_get w j))"
proof -
  let ?w0 = "w\<lparr>ow_lastFeedback := hdr_sendTimestamp (pkt_header p)\<rparr>"
  have get0: "ow_get ?w0 = ow_get w" by simp
  have wf0: "ow_wf ?w0" using wf by simp
  have len: "length (IHS_WriteUInt32LE echo) = 4" "length (IHS_WriteUInt16LE confirmed) = 2"
    by (simp_all add: u32_wire.length_enc u16_wire.length_enc)
  then have sz: "buf_size (pkt_body p) = length bs + 6"
    using length_buf_content[OF b] c by simp
  have bnd: "buf_offset (pkt_body p) + buf_size (pkt_body p) + buf_suffix (pkt_body p) \<le> buf_capacity (pkt_body p)"
    using buf_wf_bounds[OF b] by auto
  have ptr: "IHS_BufferPointer (pkt_body p) = Some (buf_offset (pkt_body p))"
    using PointerAt_in[OF b, of 0] bnd sz by (simp add: IHS_BufferPointer_def)
  have load: "buf_load (pkt_body p) (buf_offset (pkt_body p)) (length bs + 6) =
      Some (IHS_WriteUInt32LE echo @ IHS_WriteUInt16LE confirmed @ bs)"
    using buf_load_content[OF b] c sz bnd ptr by simp
  obtain w1 where
    w1: "nack_extended (now - age) base (IHS_WriteUInt32LE echo @ IHS_WriteUInt16LE confirmed @ bs) ?w0 = Some (lim, w1)"
    "ow_wf w1" "head_frame ?w0 w1"
    "ow_get w1 = (\<lambda>j. if unat (j - ow_head w) < confirmed_count ?w0 confirmed \<or>
           ack_bit bs (unat (j - base)) \<and> 0 < sint (ow_cursor w - j) then None
       else if nack_bit bs (unat (j - base)) then map_option (marked lim) (ow_get w j) else ow_get w j)"
    using nack_extended_spec[OF wf0 bs, of "now - age" base echo confirmed]
    unfolding lim_def[symmetric] get0 by auto
  have cc: "confirmed_count ?w0 confirmed = confirmed_count w confirmed" by (simp add: confirmed_count_def Let_def)
  define w2 where "w2 = (if uint base - uint (ow_head w1) > 0
     then mark_run lim (ow_head w1) (min (nat (uint base - uint (ow_head w1))) (ow_span w1)) w1 else w1)"
  note m = mark_below[OF w1(2), of base lim, folded w2_def]
  have run: "nack_window w p now age = Some w2"
    using fresh sz ptr load w1(1) by (auto simp: nack_window_def Let_def w2_def base_def)
  have h: "ow_head w2 = ow_head w1" using m same_frame_fields(1) by blast
  have get: "ow_get w2 j = (if unat (j - ow_head w) < confirmed_count w confirmed \<or>
           ack_bit bs (unat (j - base)) \<and> 0 < sint (ow_cursor w - j) then None
        else if nack_bit bs (unat (j - base)) \<or> uint (ow_head w2) \<le> uint j \<and> uint j < uint base
          then map_option (marked lim) (ow_get w j)
        else ow_get w j)" for j
    unfolding h using m by (auto simp: w1(4) cc option.map_comp o_def)
  have fr: "same_frame w1 w2" using m by blast
  have "ow_lastFeedback w2 = hdr_sendTimestamp (pkt_header p)" "ow_tail w2 = ow_tail w" "ow_cursor w2 = ow_cursor w"
    "ow_initialized w2 = ow_initialized w" "ow_capacity w2 = ow_capacity w"
    using same_frame_fields[OF fr] head_frame_fields[OF w1(3)] by simp_all
  then show ?thesis using run m get by blast
qed

lemma nack_window_total:
  assumes inv: "ow_inv w" and b: "buf_wf (pkt_body p)" and sz: "buf_size (pkt_body p) \<le> 8198"
  shows "\<exists>w'. nack_window w p now age = Some w' \<and> ow_inv w' \<and>
     (\<forall>j q. ow_get w' j = Some q \<longrightarrow> (\<exists>c. ow_get w j = Some q \<or> (\<exists>q0. ow_get w j = Some q0 \<and> q = marked c q0)))"
proof -
  have wf: "ow_wf w" using inv by (simp add: ow_inv_def)
  let ?w0 = "w\<lparr>ow_lastFeedback := hdr_sendTimestamp (pkt_header p)\<rparr>"
  have get0: "ow_get ?w0 = ow_get w" by simp
  have inv0: "ow_inv ?w0" using inv by (simp add: ow_inv_def)
  show ?thesis
  proof (cases "ow_lastFeedback w \<noteq> 0 \<and> sint (hdr_sendTimestamp (pkt_header p) - ow_lastFeedback w) < 0 \<or>
      buf_size (pkt_body p) \<noteq> 0 \<and> buf_size (pkt_body p) < 6")
    case True
    then show ?thesis using inv inv0 get0 by (auto simp: nack_window_def Let_def)
  next
    case fresh: False
    show ?thesis
    proof (cases "buf_size (pkt_body p) = 0")
      case True
      define w2 where "w2 = (if uint (hdr_packetId (pkt_header p)) - uint (ow_head ?w0) > 0
        then mark_run (now - age) (ow_head ?w0)
          (min (nat (uint (hdr_packetId (pkt_header p)) - uint (ow_head ?w0))) (ow_span ?w0)) ?w0 else ?w0)"
      have "ow_wf ?w0" using inv0 by (simp add: ow_inv_def)
      note m = mark_below[OF this, of "hdr_packetId (pkt_header p)" "now - age", folded w2_def]
      have run: "nack_window w p now age = Some w2"
        using fresh True by (auto simp: nack_window_def Let_def w2_def)
      have fr: "same_frame ?w0 w2" using m by blast
      have "ow_inv w2"
        using m inv0 same_frame_fields[OF fr] by (simp add: ow_inv_def)
      moreover have "\<exists>c. ow_get w j = Some q \<or> (\<exists>q0. ow_get w j = Some q0 \<and> q = marked c q0)"
        if "ow_get w2 j = Some q" for j q
        using m that by (auto simp: get0 split: if_splits)
      ultimately show ?thesis using run by blast
    next
      case False
      let ?s = "buf_content (pkt_body p)"
      have len: "length ?s = buf_size (pkt_body p)" by (rule length_buf_content[OF b])
      have s6: "6 \<le> length ?s" using fresh False len by auto
      obtain echo confirmed where e: "IHS_ReadUInt32LE ?s = Some echo" "IHS_ReadUInt16LE (drop 4 ?s) = Some confirmed"
        using u32_wire.dec_enough[of ?s] u16_wire.dec_enough[of "drop 4 ?s"] s6 by auto
      have c: "?s = IHS_WriteUInt32LE echo @ IHS_WriteUInt16LE confirmed @ drop 6 ?s"
        using u32_wire.dec_splits[OF e(1)] u16_wire.dec_splits[OF e(2)] by simp
      have "8 * length (drop 6 ?s) \<le> 65536" using len sz by simp
      moreover have "ow_lastFeedback w = 0 \<or> sint (hdr_sendTimestamp (pkt_header p) - ow_lastFeedback w) \<ge> 0"
        using fresh by auto
      ultimately obtain w' lim where w': "nack_window w p now age = Some w'" "ow_wf w'"
        "ow_initialized w' = ow_initialized w" "ow_capacity w' = ow_capacity w"
        "\<And>j. ow_get w' j \<in> {None, ow_get w j, map_option (marked lim) (ow_get w j)}"
        using nack_window_extended[OF wf b c, of now age]
        by (elim disjE exE conjE) (metis (no_types, lifting) insert_iff)+
      have "ow_inv w'" using w'(2-4) inv by (auto simp: ow_inv_def ow_wf_def ow_ring_def)
      moreover have "\<exists>c. ow_get w j = Some q \<or> (\<exists>q0. ow_get w j = Some q0 \<and> q = marked c q0)"
        if "ow_get w' j = Some q" for j q
        using w'(5)[of j] that by (cases "ow_get w j") auto
      ultimately show ?thesis using w'(1) by blast
    qed
  qed
qed

end
