(* ===== verification/Outgoing_Send.thy ===== *)
theory Outgoing_Send
  imports Outgoing_Nack
begin

text \<open>
  Sending from the retransmission window over an arbitrary network.  The locale \<open>transmitter\<close> is
  the contract between the window and the function that puts a packet on the wire: the packet
  keeps its identity and stays sendable, and the windows are not touched.  It is interpreted on
  the model of \<^verbatim>\<open>IHS_SessionSendPacketResult\<close> in \<open>Session_Link\<close>.
\<close>

section \<open>Outgoing states\<close>

definition out_wf :: "(session_packet \<Rightarrow> bool) \<Rightarrow> outgoing \<Rightarrow> bool" where
  "out_wf ok o' \<longleftrightarrow> length (out_unreliable o') = 32 \<and>
     (\<forall>w\<in>set (out_unreliable o'). ow_inv w \<and> (\<forall>i p. ow_get w i = Some p \<longrightarrow> ok p))"

lemma out_wf_window:
  assumes "out_wf ok o'" "ch < 32"
  shows "ow_inv (out_unreliable o' ! ch) \<and> (\<forall>i p. ow_get (out_unreliable o' ! ch) i = Some p \<longrightarrow> ok p)"
proof -
  have "out_unreliable o' ! ch \<in> set (out_unreliable o')" using assms by (simp add: out_wf_def)
  then show ?thesis using assms(1) unfolding out_wf_def by blast
qed

lemma out_wf_set_window:
  assumes "out_wf ok o'" "ow_inv w" "\<And>i p. ow_get w i = Some p \<Longrightarrow> ok p"
  shows "out_wf ok (set_window ch w o')"
  using assms set_update_subset_insert[of "out_unreliable o'" ch w]
  by (fastforce simp: out_wf_def set_window_def)

lemma set_window_nth [simp]:
  "length (out_unreliable o') = 32 \<Longrightarrow> ch < 32 \<Longrightarrow> out_unreliable (set_window ch w o') ! ch = w"
  by (simp add: set_window_def)

text \<open>The IDs \<open>i\<close>, \<open>i + 1\<close>, \dots\ and the packets that a window holds under them.\<close>

fun ids_from :: "u16 \<Rightarrow> nat \<Rightarrow> u16 list" where
  "ids_from i 0 = []"
| "ids_from i (Suc n) = i # ids_from (i + 1) n"

definition held :: "out_window \<Rightarrow> u16 list \<Rightarrow> session_packet list" where
  "held w is = List.map_filter (ow_get w) is"

lemma held_simps [simp]:
  "held w [] = []"
  "held w (i # is) = (case ow_get w i of None \<Rightarrow> held w is | Some p \<Rightarrow> p # held w is)"
  by (simp_all add: held_def List.map_filter_simps split: option.splits)

lemma held_cong: "(\<And>i. i \<in> set is \<Longrightarrow> ow_get w i = ow_get w' i) \<Longrightarrow> held w is = held w' is"
  by (induction "is") (auto split: option.splits)

lemma set_ids_from: "n \<le> 65536 \<Longrightarrow> j \<in> set (ids_from i n) \<longleftrightarrow> unat (j - i) < n"
proof (induction n arbitrary: i)
  case (Suc n)
  then have "n \<le> 65536" by simp
  show ?case
  proof (cases "j = i")
    case False
    then have "unat (j - (i + 1)) = unat (j - i) - 1" "0 < unat (j - i)"
      by (simp_all add: unat_succ flip: neq0_conv)
    then show ?thesis using Suc.IH[OF \<open>n \<le> 65536\<close>, of "i + 1"] False by auto
  qed simp
qed simp

section \<open>The contract of the network\<close>

text \<open>The wrapper \<open>recording\<close> logs the packets that are handed to the network.\<close>

definition recording :: "'c transmit \<Rightarrow> ('c \<times> session_packet list) transmit" where
  "recording send p o' c = do {
     (result, p', o', d) \<leftarrow> send p o' (fst c);
     Some (result, p', o', (d, snd c @ [p]))
   }"

locale transmitter =
  fixes send :: "'c transmit" and ok :: "session_packet \<Rightarrow> bool"
  assumes send_total: "ok p \<Longrightarrow> \<exists>result p' o2 d. send p o1 c = Some (result, p', o2, d)"
    and send_packet: "ok p \<Longrightarrow> send p o1 c = Some (result, p', o2, d) \<Longrightarrow>
      ok p' \<and> hdr_packetId (pkt_header p') = hdr_packetId (pkt_header p) \<and> buf_wf (pkt_body p')"
    and send_windows: "ok p \<Longrightarrow> send p o1 c = Some (result, p', o2, d) \<Longrightarrow> out_unreliable o2 = out_unreliable o1"
    and ok_count: "ok p \<Longrightarrow> ok (p\<lparr>pkt_header := (pkt_header p)\<lparr>hdr_retransmitCount := n\<rparr>\<rparr>)"
begin

text \<open>One attempt replaces one packet of one window by its stamped copy.\<close>

lemma attempt_spec:
  assumes wf: "out_wf ok o1" and ch: "ch < 32" and p: "ow_get (out_unreliable o1 ! ch) i = Some p"
  shows "\<exists>result o2 d p'. attempt_packet (recording send) ch i p o1 (c, log) = Some (result, o2, d, log @ [p]) \<and>
     out_wf ok o2 \<and>
     ow_get (out_unreliable o2 ! ch) = (ow_get (out_unreliable o1 ! ch))(i \<mapsto> p') \<and>
     same_frame (out_unreliable o1 ! ch) (out_unreliable o2 ! ch)"
proof -
  let ?w = "out_unreliable o1 ! ch"
  have inv: "ow_inv ?w" "ok p" using out_wf_window[OF wf ch] p by auto
  then have wfw: "ow_wf ?w" by (simp add: ow_inv_def)
  then obtain k where k: "ow_ring ?w k" using p by (auto elim: ow_wf_cases)
  obtain result p1 o2 d where s: "send p o1 c = Some (result, p1, o2, d)" using send_total[OF inv(2)] by blast
  have p1: "ok p1" "hdr_packetId (pkt_header p1) = hdr_packetId (pkt_header p)" "buf_wf (pkt_body p1)"
    and same: "out_unreliable o2 = out_unreliable o1"
    using send_packet[OF inv(2) s] send_windows[OF inv(2) s] by auto
  define p2 where "p2 = (if result = 0 \<and> hdr_retransmitCount (pkt_header p1) < 255
    then p1\<lparr>pkt_header := (pkt_header p1)\<lparr>hdr_retransmitCount := hdr_retransmitCount (pkt_header p1) + 1\<rparr>\<rparr> else p1)"
  have p2: "ok p2" "hdr_packetId (pkt_header p2) = i" "buf_wf (pkt_body p2)"
    using p1 ok_count ow_wf_packet[OF wfw p] by (auto simp: p2_def)
  note up = ow_get_update[OF k ow_get_inside[OF p], of "Some p2"]
  let ?w2 = "?w\<lparr>ow_slots := (ow_slots ?w)[slot_of ?w i := Some p2]\<rparr>"
  have wf2: "ow_wf ?w2"
    by (rule ow_wf_ring[OF up(2)]) (use p2 ow_wf_packet[OF wfw] in \<open>auto simp: up(1) split: if_splits\<close>)
  have inv2: "ow_inv ?w2" using wf2 inv(1) by (simp add: ow_inv_def)
  have "out_wf ok o2" using wf same by (simp add: out_wf_def)
  then have o3: "out_wf ok (set_window ch ?w2 o2)"
    by (rule out_wf_set_window[OF _ inv2]) (use p2(1) out_wf_window[OF wf ch] in \<open>auto simp: up(1) split: if_splits\<close>)
  have len: "length (out_unreliable o2) = 32" using same wf by (simp add: out_wf_def)
  have "attempt_packet (recording send) ch i p o1 (c, log) = Some (result, set_window ch ?w2 o2, d, log @ [p])"
    using s same by (simp add: attempt_packet_def recording_def put_slot_def p2_def Let_def)
  then show ?thesis using o3 up(1) len ch by (intro exI conjI) auto
qed

text \<open>
  The loop over the new packets: the log grows by the packets from the cursor on, in order, up to
  and including the first refused one, and the cursor stops at it.
\<close>

lemma send_new_spec:
  assumes "out_wf ok o1" "ch < 32" "ow_tail (out_unreliable o1 ! ch) - ow_cursor (out_unreliable o1 ! ch) = of_nat n"
    "n < 65536"
  shows "\<exists>result o2 d log' m. send_new (recording send) ch n o1 (c, log) = Some (result, o2, d, log @ log') \<and>
     out_wf ok o2 \<and> m \<le> n \<and>
     ow_cursor (out_unreliable o2 ! ch) = ow_cursor (out_unreliable o1 ! ch) + of_nat m \<and>
     ow_head (out_unreliable o2 ! ch) = ow_head (out_unreliable o1 ! ch) \<and>
     ow_tail (out_unreliable o2 ! ch) = ow_tail (out_unreliable o1 ! ch) \<and>
     dom (ow_get (out_unreliable o2 ! ch)) = dom (ow_get (out_unreliable o1 ! ch)) \<and>
     (if result = 0 then m = n \<and> log' = held (out_unreliable o1 ! ch) (ids_from (ow_cursor (out_unreliable o1 ! ch)) n)
      else m < n \<and> ow_get (out_unreliable o2 ! ch) (ow_cursor (out_unreliable o2 ! ch)) \<noteq> None \<and>
        log' = held (out_unreliable o1 ! ch) (ids_from (ow_cursor (out_unreliable o1 ! ch)) (Suc m)))"
  using assms
proof (induction n arbitrary: o1 c log)
  case 0
  then show ?case by (intro exI[of _ 0]) auto
next
  case (Suc n)
  let ?w = "out_unreliable o1 ! ch"
  let ?i = "ow_cursor ?w"
  have step: "\<exists>result o2 d log1. (case ow_get ?w ?i of None \<Rightarrow> Some (0, o1, (c, log))
      | Some p \<Rightarrow> attempt_packet (recording send) ch ?i p o1 (c, log)) = Some (result, o2, d, log @ log1) \<and>
      out_wf ok o2 \<and> same_frame ?w (out_unreliable o2 ! ch) \<and>
      log1 = held ?w [?i] \<and> (ow_get ?w ?i = None \<longrightarrow> result = 0) \<and>
      dom (ow_get (out_unreliable o2 ! ch)) = dom (ow_get ?w) \<and>
      (\<forall>j. j \<noteq> ?i \<longrightarrow> ow_get (out_unreliable o2 ! ch) j = ow_get ?w j)"
  proof (cases "ow_get ?w ?i")
    case None
    then show ?thesis using Suc.prems(1) by (intro exI[of _ 0] exI[of _ o1] exI[of _ c] exI[of _ "[]"]) auto
  next
    case (Some p)
    from attempt_spec[OF Suc.prems(1,2) Some, of c log] obtain result o2 d p' where
      a: "attempt_packet (recording send) ch ?i p o1 (c, log) = Some (result, o2, d, log @ [p])"
      "out_wf ok o2" "ow_get (out_unreliable o2 ! ch) = (ow_get ?w)(?i \<mapsto> p')"
      "same_frame ?w (out_unreliable o2 ! ch)" by blast
    then show ?thesis using Some by (intro exI[of _ result] exI[of _ o2] exI[of _ d] exI[of _ "[p]"]) auto
  qed
  then obtain result o2 d log1 where
    run: "(case ow_get ?w ?i of None \<Rightarrow> Some (0, o1, (c, log))
      | Some p \<Rightarrow> attempt_packet (recording send) ch ?i p o1 (c, log)) = Some (result, o2, d, log @ log1)"
    and o2: "out_wf ok o2" "same_frame ?w (out_unreliable o2 ! ch)"
    and l1: "log1 = held ?w [?i]" "ow_get ?w ?i = None \<longrightarrow> result = 0"
    and dm: "dom (ow_get (out_unreliable o2 ! ch)) = dom (ow_get ?w)"
    and rest: "\<And>j. j \<noteq> ?i \<Longrightarrow> ow_get (out_unreliable o2 ! ch) j = ow_get ?w j" by blast
  note f2 = same_frame_fields[OF o2(2)]
  have unf: "send_new (recording send) ch (Suc n) o1 (c, log) =
     (if result \<noteq> 0 then Some (result, o2, d, log @ log1)
      else send_new (recording send) ch n (set_window ch ((out_unreliable o2 ! ch)
        \<lparr>ow_cursor := ow_cursor (out_unreliable o2 ! ch) + 1\<rparr>) o2) (d, log @ log1))"
    using run by (simp add: Let_def)
  show ?case
  proof (cases "result = 0")
    case False
    moreover have "ow_get (out_unreliable o2 ! ch) (ow_cursor (out_unreliable o2 ! ch)) \<noteq> None"
      using l1(2) False dm f2(3) by (metis domIff)
    moreover have "log1 = held ?w (ids_from ?i (Suc 0))" using l1(1) by simp
    ultimately show ?thesis
      using unf o2(1) dm f2 by (intro exI[of _ result] exI[of _ o2] exI[of _ d] exI[of _ log1] exI[of _ 0]) auto
  next
    case True
    let ?w3 = "(out_unreliable o2 ! ch)\<lparr>ow_cursor := ow_cursor (out_unreliable o2 ! ch) + 1\<rparr>"
    let ?o3 = "set_window ch ?w3 o2"
    have len: "length (out_unreliable o2) = 32" using o2(1) by (simp add: out_wf_def)
    have w3: "out_unreliable ?o3 ! ch = ?w3" using len Suc.prems(2) by simp
    have "out_wf ok ?o3"
      by (rule out_wf_set_window[OF o2(1)])
        (use out_wf_window[OF o2(1) Suc.prems(2)] in \<open>auto simp: ow_inv_def\<close>)
    moreover have "ow_tail (out_unreliable ?o3 ! ch) - ow_cursor (out_unreliable ?o3 ! ch) = of_nat n"
      using Suc.prems(3) f2 unfolding w3 by (simp add: algebra_simps)
    ultimately obtain r3 o4 d4 log4 m where ih: "send_new (recording send) ch n ?o3 (d, log @ log1) =
        Some (r3, o4, d4, (log @ log1) @ log4)" "out_wf ok o4" "m \<le> n"
      "ow_cursor (out_unreliable o4 ! ch) = ow_cursor ?w3 + of_nat m"
      "ow_head (out_unreliable o4 ! ch) = ow_head ?w3" "ow_tail (out_unreliable o4 ! ch) = ow_tail ?w3"
      "dom (ow_get (out_unreliable o4 ! ch)) = dom (ow_get ?w3)"
      "if r3 = 0 then m = n \<and> log4 = held ?w3 (ids_from (ow_cursor ?w3) n)
       else m < n \<and> ow_get (out_unreliable o4 ! ch) (ow_cursor (out_unreliable o4 ! ch)) \<noteq> None \<and>
        log4 = held ?w3 (ids_from (ow_cursor ?w3) (Suc m))"
      using Suc.IH[of ?o3 d "log @ log1"] Suc.prems(2,4) unfolding w3 by (auto simp del: ids_from.simps)
    have hd: "held ?w3 (ids_from (ow_cursor ?w3) k) = held ?w (ids_from (?i + 1) k)" if "k \<le> n" for k
    proof -
      have "held ?w3 (ids_from (?i + 1) k) = held ?w (ids_from (?i + 1) k)"
      proof (rule held_cong)
        fix j assume "j \<in> set (ids_from (?i + 1) k)"
        moreover have "k \<le> 65536" using that Suc.prems(4) by simp
        ultimately have "unat (j - (?i + 1)) < k" by (simp add: set_ids_from)
        moreover have "unat (?i - (?i + 1)) = 65535"
        proof -
          have "?i - (?i + 1) = (65535 :: u16)" by simp
          then show ?thesis by (simp only: unat_numeral) simp
        qed
        ultimately have "j \<noteq> ?i" using that Suc.prems(4) by auto
        then show "ow_get ?w3 j = ow_get ?w j" using rest by simp
      qed
      then show ?thesis using f2 by simp
    qed
    have "log1 @ held ?w (ids_from (?i + 1) k) = held ?w (ids_from ?i (Suc k))" for k
      using l1(1) by (simp split: option.splits)
    then have fin: "if r3 = 0 then Suc m = Suc n \<and> log1 @ log4 = held ?w (ids_from ?i (Suc n))
       else Suc m < Suc n \<and> ow_get (out_unreliable o4 ! ch) (ow_cursor (out_unreliable o4 ! ch)) \<noteq> None \<and>
        log1 @ log4 = held ?w (ids_from ?i (Suc (Suc m)))"
      using ih(8) hd by (cases "r3 = 0") (auto simp del: ids_from.simps)
    show ?thesis
      using unf True ih(1-7) fin f2 dm
      by (intro exI[of _ r3] exI[of _ o4] exI[of _ d4] exI[of _ "log1 @ log4"] exI[of _ "Suc m"])
        (auto simp del: ids_from.simps)
  qed
qed

end

end
