(* ===== verification/Collections.thy ===== *)
theory Collections
  imports Prelude
begin

text \<open>
  Contracts of the containers.  \<open>fifo\<close> is what every queue of the program promises: appending adds
  at the end of the represented sequence and removing takes its first element.  It is interpreted
  on the sample ring (\<open>Network_Stats_Props\<close>), on the linked queue (\<open>Linked_Queue\<close>) and on the array
  list (\<open>Array_List\<close>).
\<close>

locale fifo =
  fixes ok :: "'q \<Rightarrow> bool" and room :: "'q \<Rightarrow> 'a \<Rightarrow> bool" and content :: "'q \<Rightarrow> 'a list"
    and append_op :: "'q \<Rightarrow> 'a \<Rightarrow> 'q" and remove_op :: "'q \<Rightarrow> 'q"
  assumes append_ok: "ok q \<Longrightarrow> room q x \<Longrightarrow> ok (append_op q x)"
    and append_content: "ok q \<Longrightarrow> room q x \<Longrightarrow> content (append_op q x) = content q @ [x]"
    and remove_ok: "ok q \<Longrightarrow> content q \<noteq> [] \<Longrightarrow> ok (remove_op q)"
    and remove_content: "ok q \<Longrightarrow> content q \<noteq> [] \<Longrightarrow> content (remove_op q) = tl (content q)"
begin

lemma remove_many:
  assumes "ok q" "n \<le> length (content q)"
  shows "ok ((remove_op ^^ n) q)" "content ((remove_op ^^ n) q) = drop n (content q)"
proof -
  have "ok ((remove_op ^^ n) q) \<and> content ((remove_op ^^ n) q) = drop n (content q)"
    using assms(2)
  proof (induction n)
    case (Suc n)
    then have ih: "ok ((remove_op ^^ n) q)" "content ((remove_op ^^ n) q) = drop n (content q)" by auto
    moreover have "drop n (content q) \<noteq> []" using Suc.prems by simp
    ultimately show ?case using remove_ok remove_content by (simp add: tl_drop drop_Suc)
  qed (use assms(1) in simp)
  then show "ok ((remove_op ^^ n) q)" "content ((remove_op ^^ n) q) = drop n (content q)" by auto
qed

text \<open>What is appended comes out after what was there before.\<close>

lemma append_then_remove:
  assumes "ok q" "room q x"
  shows "content ((remove_op ^^ length (content q)) (append_op q x)) = [x]"
  using remove_many(2)[OF append_ok[OF assms], of "length (content q)"] append_content[OF assms] by simp

end

section \<open>Rings of a power of two\<close>

lemma and_power_two_nat: "n AND (2 ^ k - 1) = n mod 2 ^ k" for n :: nat
proof -
  have "n AND (2 ^ k - 1) = n AND mask k" by (simp add: mask_eq_exp_minus_1)
  then show ?thesis by (simp only: take_bit_eq_mask[symmetric] take_bit_eq_mod)
qed

lemma ring_index_inj:
  fixes h i j c :: nat
  assumes "i < c" "j < c" "(h + i) mod c = (h + j) mod c"
  shows "i = j"
proof -
  have "int ((h + i) mod c) = int ((h + j) mod c)" using assms(3) by simp
  then have "(int h + int i) mod int c = (int h + int j) mod int c" by (simp add: zmod_int)
  then have "int c dvd int i - int j" by (simp add: mod_eq_dvd_iff)
  moreover have "\<bar>int i - int j\<bar> < int c" using assms(1,2) by auto
  ultimately have "int i - int j = 0" using zdvd_not_zless[of "\<bar>int i - int j\<bar>" "int c"] by (cases "int i = int j") auto
  then show ?thesis by simp
qed

lemma map_ring_shift:
  assumes "Suc n \<le> c" "h < c"
  shows "map (\<lambda>i. f ((Suc h mod c + i) mod c)) [0..<n] = tl (map (\<lambda>i. f ((h + i) mod c)) [0..<Suc n])"
proof -
  have "(Suc h mod c + i) mod c = (h + Suc i) mod c" for i by (simp add: mod_add_left_eq)
  then show ?thesis by (simp add: upt_conv_Cons map_Suc_upt[symmetric] o_def del: upt_Suc)
qed

end
