(* ===== verification/Network_Stats.thy ===== *)
theory Network_Stats
  imports Collections
begin

text \<open>
  The sliding-window collectors of \<^verbatim>\<open>session/network_stats.c\<close>: a ring buffer of samples that are
  dropped when they are older than three seconds, and four collectors that keep running sums
  over it.  The cached floating-point quotients (\<^verbatim>\<open>bitrate\<close>, \<^verbatim>\<open>milliseconds\<close>, \<^verbatim>\<open>link\<close>) are derived
  from these sums by the code and are not part of the state here.

  \<open>alloc\<close> says whether \<^verbatim>\<open>malloc\<close> succeeds.  The part of a fresh block that is not copied into is
  indeterminate; it is modelled as zero samples, which no operation reads (every access of the
  lemmas below is to an index below \<open>count\<close>).
\<close>

section \<open>The ring of samples\<close>

record network_sample =
  ns_timestamp :: u32
  ns_values :: "u32 list"

record sample_queue =
  sq_data :: "network_sample list"
  sq_head :: nat
  sq_count :: nat
  sq_capacity :: nat

definition zero_sample :: network_sample where
  "zero_sample = \<lparr>ns_timestamp = 0, ns_values = [0, 0, 0, 0]\<rparr>"

definition zero_queue :: sample_queue where
  "zero_queue = \<lparr>sq_data = [], sq_head = 0, sq_count = 0, sq_capacity = 0\<rparr>"

definition WINDOW_TICKS :: u32 where
  "WINDOW_TICKS = 0x30000"

definition IHS_NetworkSampleQueueDestroy :: "sample_queue \<Rightarrow> sample_queue" where
  "IHS_NetworkSampleQueueDestroy q = zero_queue"

definition at_index :: "sample_queue \<Rightarrow> nat \<Rightarrow> nat" where
  "at_index q i = sz_add (sq_head q) i AND (sq_capacity q - 1)"

abbreviation at_sample :: "sample_queue \<Rightarrow> nat \<Rightarrow> network_sample" where
  "at_sample q i \<equiv> sq_data q ! at_index q i"

definition reserve :: "bool \<Rightarrow> sample_queue \<Rightarrow> bool \<times> sample_queue" where
  "reserve alloc q =
     (if sq_count q < sq_capacity q then (True, q)
      else let cap = (if sq_capacity q \<noteq> 0 then sz_mul (sq_capacity q) 2 else 8) in
        if cap < sq_capacity q \<or> cap > SIZE_MAX div 20 then (False, q)
        else if \<not> alloc then (False, q)
        else (True, \<lparr>sq_data = map (at_sample q) [0..<sq_count q] @ replicate (cap - sq_count q) zero_sample,
                     sq_head = 0, sq_count = sq_count q, sq_capacity = cap\<rparr>))"

definition expired :: "sample_queue \<Rightarrow> u32 \<Rightarrow> bool" where
  "expired q now \<longleftrightarrow> sq_count q \<noteq> 0 \<and> now - ns_timestamp (at_sample q 0) > WINDOW_TICKS"

definition pop :: "sample_queue \<Rightarrow> sample_queue" where
  "pop q = q\<lparr>sq_head := sz_add (sq_head q) 1 AND (sq_capacity q - 1), sq_count := sq_count q - 1\<rparr>"

definition push :: "sample_queue \<Rightarrow> network_sample \<Rightarrow> sample_queue" where
  "push q s = q\<lparr>sq_data := (sq_data q)[at_index q (sq_count q) := s], sq_count := sq_count q + 1\<rparr>"

text \<open>
  The \<^verbatim>\<open>while (expired(q, now))\<close> loop that the collectors share; \<open>take_off\<close> is the subtraction
  that each of them makes for a dropped sample.  It runs at most \<open>count\<close> rounds.
\<close>

fun expire_samples :: "(network_sample \<Rightarrow> 's \<Rightarrow> 's) \<Rightarrow> nat \<Rightarrow> u32 \<Rightarrow> sample_queue \<Rightarrow> 's \<Rightarrow> sample_queue \<times> 's" where
  "expire_samples take_off 0 now q s = (q, s)"
| "expire_samples take_off (Suc n) now q s =
     (if expired q now then expire_samples take_off n now (pop q) (take_off (at_sample q 0) s) else (q, s))"

definition add_value :: "sample_queue \<Rightarrow> u32 \<Rightarrow> sample_queue" where
  "add_value q v =
     (let i = at_index q (sq_count q - 1); s = sq_data q ! i in
      q\<lparr>sq_data := (sq_data q)[i := s\<lparr>ns_values := (ns_values s)[0 := ns_values s ! 0 + v]\<rparr>]\<rparr>)"

section \<open>The collectors\<close>

record bitrate_stats =
  br_queue :: sample_queue
  br_bytes :: u64

record packet_stats =
  pk_queue :: sample_queue
  pk_total :: u32
  pk_lost :: u32

record ping_stats =
  pg_queue :: sample_queue
  pg_sum :: u32

record video_stats =
  vs_queue :: sample_queue
  vs_frame :: u16
  vs_firstSent :: u32
  vs_lastReceived :: u32
  vs_frameBytes :: u32
  vs_totals :: "u32 list"

text \<open>The byte counts are \<^verbatim>\<open>int32_t\<close>: the word is read as signed when it is widened.\<close>

definition IHS_NetworkBitrateRecord :: "bool \<Rightarrow> bitrate_stats \<Rightarrow> u32 \<Rightarrow> u32 \<Rightarrow> bool \<times> bitrate_stats" where
  "IHS_NetworkBitrateRecord alloc s now b =
     (let q = br_queue s in
      if sq_count q \<noteq> 0 \<and> ns_timestamp (at_sample q (sq_count q - 1)) = now
      then (True, s\<lparr>br_queue := add_value q b, br_bytes := br_bytes s + scast b\<rparr>)
      else case reserve alloc q of
        (False, q) \<Rightarrow> (False, s)
      | (True, q) \<Rightarrow>
          case expire_samples (\<lambda>x n. n - scast (ns_values x ! 0)) (sq_count q) now q (br_bytes s) of
            (q, n) \<Rightarrow> (True, s\<lparr>br_queue := push q \<lparr>ns_timestamp = now, ns_values = [b, 0, 0, 0]\<rparr>,
                              br_bytes := n + scast b\<rparr>))"

definition IHS_NetworkPacketRecord :: "bool \<Rightarrow> packet_stats \<Rightarrow> u32 \<Rightarrow> u32 \<Rightarrow> bool \<Rightarrow> bool \<times> packet_stats" where
  "IHS_NetworkPacketRecord alloc s now n lost =
     (let q = pk_queue s; flag = (if lost then 1 else 0);
          finish = (\<lambda>q total' lost'. (True, s\<lparr>pk_queue := q, pk_total := total' + n,
             pk_lost := (if lost then lost' + n else lost')\<rparr>)) in
      if sq_count q \<noteq> 0 \<and> ns_timestamp (at_sample q (sq_count q - 1)) = now \<and>
         ns_values (at_sample q (sq_count q - 1)) ! 1 = flag
      then finish (add_value q n) (pk_total s) (pk_lost s)
      else case reserve alloc q of
        (False, q) \<Rightarrow> (False, s)
      | (True, q) \<Rightarrow>
          case expire_samples (\<lambda>x (t, l). (t - ns_values x ! 0,
                 if ns_values x ! 1 \<noteq> 0 then l - ns_values x ! 0 else l))
               (sq_count q) now q (pk_total s, pk_lost s) of
            (q, t, l) \<Rightarrow> finish (push q \<lparr>ns_timestamp = now, ns_values = [n, flag, 0, 0]\<rparr>) t l)"

definition IHS_NetworkPingMean :: "u32 \<Rightarrow> u32 \<Rightarrow> u32" where
  "IHS_NetworkPingMean total' n = (if n \<noteq> 0 then total' div n else 0)"

definition IHS_NetworkPingRecord :: "bool \<Rightarrow> ping_stats \<Rightarrow> u32 \<Rightarrow> u32 \<Rightarrow> bool \<times> ping_stats" where
  "IHS_NetworkPingRecord alloc s ticks now =
     (case reserve alloc (pg_queue s) of
        (False, q) \<Rightarrow> (False, s)
      | (True, q) \<Rightarrow>
          case expire_samples (\<lambda>x n. n - ns_values x ! 0) (sq_count q) now q (pg_sum s) of
            (q, n) \<Rightarrow> (True, s\<lparr>pg_queue := push q \<lparr>ns_timestamp = now, ns_values = [ticks, 0, 0, 0]\<rparr>,
                              pg_sum := n + ticks\<rparr>))"

definition IHS_NetworkVideoRecord ::
    "bool \<Rightarrow> video_stats \<Rightarrow> u32 \<Rightarrow> u32 \<Rightarrow> u32 \<Rightarrow> u16 \<Rightarrow> u32 \<Rightarrow> bool \<times> video_stats" where
  "IHS_NetworkVideoRecord alloc s now receiveBegin receiveEnd frame b =
     (let next_frame = (\<lambda>s. s\<lparr>vs_frame := frame, vs_firstSent := now, vs_frameBytes := 0\<rparr>);
          finish = (\<lambda>s. (True, s\<lparr>vs_lastReceived := receiveEnd, vs_frameBytes := vs_frameBytes s + b\<rparr>)) in
      if vs_frame s = frame then finish s
      else if vs_firstSent s \<noteq> 0 \<and> vs_frameBytes s \<noteq> 0 \<and>
              sint (vs_lastReceived s - vs_firstSent s) > 0 \<and> sint (now - vs_lastReceived s) \<ge> 0
      then (case reserve alloc (vs_queue s) of
          (False, q) \<Rightarrow> (False, s)
        | (True, q) \<Rightarrow>
            case expire_samples (\<lambda>x ts. map2 (-) ts (ns_values x)) (sq_count q) (vs_lastReceived s) q (vs_totals s) of
              (q, ts) \<Rightarrow>
                let v = [receiveEnd - receiveBegin, vs_lastReceived s - vs_firstSent s,
                         now - vs_lastReceived s, vs_frameBytes s]
                in finish (next_frame (s\<lparr>vs_queue := push q \<lparr>ns_timestamp = vs_lastReceived s, ns_values = v\<rparr>,
                                         vs_totals := map2 (+) ts v\<rparr>)))
      else finish (next_frame s))"

section \<open>The session's collectors\<close>

record network_state =
  nw_rateSent :: bitrate_stats
  nw_rateReceived :: bitrate_stats
  nw_packets :: packet_stats
  nw_video :: video_stats

definition IHS_SessionRecordNetworkReceived :: "bool \<Rightarrow> bool \<Rightarrow> network_state \<Rightarrow> u32 \<Rightarrow> u32 \<Rightarrow> network_state" where
  "IHS_SessionRecordNetworkReceived alloc1 alloc2 s now b =
     s\<lparr>nw_packets := snd (IHS_NetworkPacketRecord alloc1 (nw_packets s) now 1 False),
       nw_rateReceived := snd (IHS_NetworkBitrateRecord alloc2 (nw_rateReceived s) now b)\<rparr>"

definition IHS_SessionRecordNetworkLost :: "bool \<Rightarrow> network_state \<Rightarrow> u32 \<Rightarrow> u32 \<Rightarrow> network_state" where
  "IHS_SessionRecordNetworkLost alloc s now n =
     (if n = 0 then s else s\<lparr>nw_packets := snd (IHS_NetworkPacketRecord alloc (nw_packets s) now n True)\<rparr>)"

definition IHS_SessionRecordNetworkSent :: "bool \<Rightarrow> network_state \<Rightarrow> u32 \<Rightarrow> u32 \<Rightarrow> network_state" where
  "IHS_SessionRecordNetworkSent alloc s now b =
     s\<lparr>nw_rateSent := snd (IHS_NetworkBitrateRecord alloc (nw_rateSent s) now b)\<rparr>"

definition IHS_SessionRecordNetworkVideo ::
    "bool \<Rightarrow> network_state \<Rightarrow> u32 \<Rightarrow> u32 \<Rightarrow> u32 \<Rightarrow> u16 \<Rightarrow> u32 \<Rightarrow> network_state" where
  "IHS_SessionRecordNetworkVideo alloc s sent begin' end' frame b =
     (let sent = (if sint (end' - sent) < 0 then end' else sent) in
      s\<lparr>nw_video := snd (IHS_NetworkVideoRecord alloc (nw_video s) sent begin' end' frame b)\<rparr>)"

section \<open>The ring as a queue\<close>

definition samples :: "sample_queue \<Rightarrow> network_sample list" where
  "samples q = map (at_sample q) [0..<sq_count q]"

definition sq_wf :: "sample_queue \<Rightarrow> bool" where
  "sq_wf q \<longleftrightarrow> length (sq_data q) = sq_capacity q \<and> sq_count q \<le> sq_capacity q \<and>
     (sq_capacity q = 0 \<and> sq_head q = 0 \<or>
      (\<exists>k. sq_capacity q = 2 ^ k \<and> k < 63 \<and> sq_head q < sq_capacity q)) \<and>
     (\<forall>s\<in>set (sq_data q). length (ns_values s) = 4)"

end
