(* ===== verification/Session_Link.thy ===== *)
theory Session_Link
  imports Outgoing_Send Network_Stats
begin

text \<open>
  Putting a packet on the wire: \<^verbatim>\<open>IHS_SessionSendPacketResult\<close> of \<^verbatim>\<open>session/session.c\<close>, with the rate
  limiter of the outgoing side, the checksum suffix, serialization, the socket and the statistics.

  The operating system is the record \<open>platform\<close>: reading the packet clock, sending a datagram on
  the socket of the session (the outcome is the success or the class of \<^verbatim>\<open>errno\<close> that the code
  distinguishes) and allocating memory.  It acts on a state of its own, of any type.
\<close>

datatype send_status = SendOk | SendAgain | SendTooBig | SendBadFd | SendFailed

record 'n platform =
  pf_now :: "'n \<Rightarrow> u32 \<times> 'n"
  pf_send :: "bytes \<Rightarrow> 'n \<Rightarrow> send_status \<times> 'n"
  pf_mem :: allocator
  pf_grow :: "'n \<Rightarrow> bool"

record 'n link =
  lk_detached :: bool
  lk_crcRequired :: bool
  lk_network :: network_state
  lk_env :: 'n

definition send_code :: "send_status \<Rightarrow> nat" where
  "send_code st = (case st of SendOk \<Rightarrow> 0 | SendAgain \<Rightarrow> 1 | SendTooBig \<Rightarrow> 2 | SendBadFd \<Rightarrow> 3 | SendFailed \<Rightarrow> 4)"

definition require_crc :: "allocator \<Rightarrow> bool \<Rightarrow> session_packet \<Rightarrow> session_packet option" where
  "require_crc mem required packet =
     (if required \<and> \<not> hdr_hasCrc (pkt_header packet) then do {
        body \<leftarrow> IHS_BufferSetSuffixLength mem (pkt_body packet) 4;
        Some (packet\<lparr>pkt_header := (pkt_header packet)\<lparr>hdr_hasCrc := True\<rparr>, pkt_body := body\<rparr>)
      } else Some packet)"

definition IHS_SessionSendPacketResult :: "'n platform \<Rightarrow> 'n link transmit" where
  "IHS_SessionSendPacketResult pf packet o' s =
     (if lk_detached s then Some (3, packet, o', s)
      else case pf_now pf (lk_env s) of (now, n) \<Rightarrow>
        let packet = packet\<lparr>pkt_header := (pkt_header packet)\<lparr>hdr_sendTimestamp := now\<rparr>\<rparr> in
        case IHS_OutgoingCanSend o' (hdr_type (pkt_header packet)) now of (allowed, o') \<Rightarrow>
          if \<not> allowed then Some (1, packet, o', s\<lparr>lk_env := n\<rparr>)
          else do {
            let charged = of_nat (IHS_PACKET_HEADER_SIZE + buf_size (pkt_body packet));
            packet \<leftarrow> require_crc (pf_mem pf) (lk_crcRequired s) packet;
            packet \<leftarrow> IHS_SessionPacketPopulateBuffer (pf_mem pf) packet;
            case pf_send pf (wire_bytes packet) n of (st, n) \<Rightarrow>
              Some (send_code st, packet,
                if st = SendOk then IHS_OutgoingSent o' (hdr_type (pkt_header packet)) now charged else o',
                s\<lparr>lk_env := n, lk_network := (if st = SendOk
                  then IHS_SessionRecordNetworkSent (pf_grow pf n) (lk_network s) now charged else lk_network s)\<rparr>)
          })"

section \<open>The contract of the network holds\<close>

text \<open>A packet that can be sent with a checksum, whether it has room reserved for it yet or not.\<close>

definition link_ok :: "session_packet \<Rightarrow> bool" where
  "link_ok p \<longleftrightarrow> sendable p \<and> 13 + buf_size (pkt_body p) + 4 < buf_capacity (pkt_body p)"

lemma SetSuffixLength_fits:
  assumes wf: "buf_wf b" and room: "buf_offset b + buf_size b + n \<le> buf_capacity b" "0 < buf_capacity b"
  shows "IHS_BufferSetSuffixLength mem b n = Some (b\<lparr>buf_suffix := n\<rparr>)"
proof -
  have "sz_add (sz_add (buf_offset b) (buf_size b)) n = buf_offset b + buf_size b + n"
    using room buf_wf_bounds[OF wf] by (simp add: sz_add_exact)
  moreover have "double_until (buf_capacity b) (buf_offset b + buf_size b + n) = Some (buf_capacity b)"
    by (rule double_until_ge[OF room(1)])
  moreover obtain xs where "buf_data b = Some xs" "length xs = buf_capacity b" using buf_wf_block[OF wf room(2)] .
  moreover have "0 < buf_maxCapacity b \<longrightarrow> buf_capacity b \<le> buf_maxCapacity b" using wf by (simp add: buf_wf_def)
  ultimately show ?thesis
    using room by (simp add: IHS_BufferSetSuffixLength_def IHS_BufferEnsureCapacity_def
        IHS_BufferEnsureCapacityExact_def Let_def)
qed

lemma require_crc_ok:
  assumes ok: "link_ok p"
  shows "\<exists>p'. require_crc mem req p = Some p' \<and> link_ok p' \<and> buf_content (pkt_body p') = buf_content (pkt_body p) \<and>
     pkt_header p' = (pkt_header p)\<lparr>hdr_hasCrc := hdr_hasCrc (pkt_header p) \<or> req\<rparr>"
proof (cases "req \<and> \<not> hdr_hasCrc (pkt_header p)")
  case True
  let ?b = "pkt_body p"
  have wf: "buf_wf ?b" "buf_offset ?b = 13" "buf_suffix ?b = 0" "13 + buf_size ?b + 4 < buf_capacity ?b"
    using ok True by (auto simp: link_ok_def sendable_def)
  have "IHS_BufferSetSuffixLength mem ?b 4 = Some (?b\<lparr>buf_suffix := 4\<rparr>)"
    using SetSuffixLength_fits[OF wf(1), of 4] wf by simp
  moreover have "buf_wf (?b\<lparr>buf_suffix := 4\<rparr>)" using wf by (auto simp: buf_wf_def split: option.splits)
  ultimately show ?thesis using True wf by (auto simp: require_crc_def link_ok_def sendable_def buf_content_def split: option.splits)
next
  case False
  then show ?thesis using ok by (auto simp: require_crc_def intro: packet_header.equality)
qed

lemma link_ok_header:
  assumes "hdr_hasCrc h = hdr_hasCrc (pkt_header p)"
  shows "link_ok (p\<lparr>pkt_header := h\<rparr>) \<longleftrightarrow> link_ok p"
  using assms by (simp add: link_ok_def sendable_def)

lemma buf_store_sizes:
  "buf_store b s d = Some b' \<Longrightarrow> buf_size b' = buf_size b \<and> buf_capacity b' = buf_capacity b"
  by (auto simp: buf_store_def split: bind_splits option.splits)

lemma PopulateBuffer_capacity:
  assumes ok: "sendable packet" and run: "IHS_SessionPacketPopulateBuffer mem packet = Some packet'"
  shows "buf_size (pkt_body packet') = buf_size (pkt_body packet)"
    "buf_capacity (pkt_body packet) \<le> buf_capacity (pkt_body packet')"
proof -
  let ?b = "pkt_body packet" and ?h = "pkt_header packet"
  have wf: "buf_wf ?b" and off: "buf_offset ?b = 13" using ok by (simp_all add: sendable_def)
  obtain b1 b2 where b: "IHS_BufferOffsetBy ?b (- 13) = Some b1"
    "IHS_SessionPacketHeaderSerialize mem ?h b1 = Some b2" "buf_wf b2"
    "buf_offset b2 = 0" "buf_size b2 = buf_size ?b + 13" "buf_capacity ?b \<le> buf_capacity b2"
    using serialize_header[OF wf off] by metis
  obtain b3 where b3: "buf_size b3 = buf_size b2" "buf_capacity b3 = buf_capacity b2"
    and fin: "IHS_BufferOffsetBy b3 13 = Some (pkt_body packet')"
    using run off b(1,2) unfolding IHS_SessionPacketPopulateBuffer_def Let_def
    by (auto split: bind_splits if_splits dest: buf_store_sizes)
  have "length (buf_content (pkt_body packet')) = length (buf_content ?b)" "buf_wf (pkt_body packet')"
    using PopulateBuffer_wire[OF ok, of mem] run by (auto simp: sendable_def)
  then show "buf_size (pkt_body packet') = buf_size ?b" using wf by (simp add: length_buf_content)
  show "buf_capacity ?b \<le> buf_capacity (pkt_body packet')"
    using fin b3 b(6) by (auto simp: IHS_BufferOffsetBy_def Let_def split: bind_splits if_splits dest!: sym[of _ "pkt_body packet'"])
qed

lemma CanSend_windows [simp]:
  "out_unreliable (snd (IHS_OutgoingCanSend o' t now)) = out_unreliable o'"
  by (simp add: IHS_OutgoingCanSend_def Let_def)

lemma Sent_windows [simp]: "out_unreliable (IHS_OutgoingSent o' t now n) = out_unreliable o'"
  by (simp add: IHS_OutgoingSent_def Let_def split: option.splits)

text \<open>
  The three outcomes of a send attempt: the session is detached, the rate limiter refuses, or the
  datagram reaches the socket, stamped with the current time and with a checksum if one is required.
\<close>

lemma send_result_cases:
  fixes pf :: "'n platform" and s :: "'n link"
  assumes ok: "link_ok p"
  defines "now \<equiv> fst (pf_now pf (lk_env s))"
  obtains (detached) "lk_detached s" "IHS_SessionSendPacketResult pf p o1 s = Some (3, p, o1, s)"
  | (refused) "\<not> lk_detached s" "\<not> fst (IHS_OutgoingCanSend o1 (hdr_type (pkt_header p)) now)"
      "IHS_SessionSendPacketResult pf p o1 s = Some (1, p\<lparr>pkt_header := (pkt_header p)\<lparr>hdr_sendTimestamp := now\<rparr>\<rparr>,
         snd (IHS_OutgoingCanSend o1 (hdr_type (pkt_header p)) now), s\<lparr>lk_env := snd (pf_now pf (lk_env s))\<rparr>)"
  | (tried) p' o2 d st where "\<not> lk_detached s" "fst (IHS_OutgoingCanSend o1 (hdr_type (pkt_header p)) now)"
      "IHS_SessionSendPacketResult pf p o1 s = Some (send_code st, p', o2, d)" "link_ok p'"
      "pkt_header p' = (pkt_header p)\<lparr>hdr_sendTimestamp := now, hdr_hasCrc := hdr_hasCrc (pkt_header p) \<or> lk_crcRequired s\<rparr>"
      "out_unreliable o2 = out_unreliable o1"
      "pf_send pf (frame_bytes (pkt_header p') (buf_content (pkt_body p))) (snd (pf_now pf (lk_env s))) = (st, lk_env d)"
      "st \<noteq> SendOk \<Longrightarrow> o2 = snd (IHS_OutgoingCanSend o1 (hdr_type (pkt_header p)) now)"
      "st = SendOk \<Longrightarrow> o2 = IHS_OutgoingSent (snd (IHS_OutgoingCanSend o1 (hdr_type (pkt_header p)) now))
         (hdr_type (pkt_header p)) now (of_nat (13 + buf_size (pkt_body p)))"
proof -
  let ?p = "p\<lparr>pkt_header := (pkt_header p)\<lparr>hdr_sendTimestamp := now\<rparr>\<rparr>"
  obtain n where now: "pf_now pf (lk_env s) = (now, n)" unfolding now_def by (metis prod.collapse)
  obtain allowed o' where can: "IHS_OutgoingCanSend o1 (hdr_type (pkt_header p)) now = (allowed, o')" by fastforce
  consider "lk_detached s" | "\<not> lk_detached s" "\<not> allowed" | "\<not> lk_detached s" "allowed" by blast
  then show ?thesis
  proof cases
    case 1
    then show ?thesis using detached by (simp add: IHS_SessionSendPacketResult_def)
  next
    case 2
    then show ?thesis using refused can now by (simp add: IHS_SessionSendPacketResult_def)
  next
    case 3
    have okp: "link_ok ?p" using ok by (simp add: link_ok_header)
    obtain p1 where p1: "require_crc (pf_mem pf) (lk_crcRequired s) ?p = Some p1" "link_ok p1"
      "buf_content (pkt_body p1) = buf_content (pkt_body p)"
      "pkt_header p1 = (pkt_header ?p)\<lparr>hdr_hasCrc := hdr_hasCrc (pkt_header p) \<or> lk_crcRequired s\<rparr>"
      using require_crc_ok[OF okp, of "pf_mem pf" "lk_crcRequired s"] by auto
    have "sendable p1" using p1(2) by (simp add: link_ok_def)
    from PopulateBuffer_wire[OF this, of "pf_mem pf"] PopulateBuffer_capacity[OF this, of "pf_mem pf"]
    obtain p2 where p2: "IHS_SessionPacketPopulateBuffer (pf_mem pf) p1 = Some p2" "pkt_header p2 = pkt_header p1"
      "sendable p2" "wire_bytes p2 = frame_bytes (pkt_header p1) (buf_content (pkt_body p1))"
      "buf_size (pkt_body p2) = buf_size (pkt_body p1)" "buf_capacity (pkt_body p1) \<le> buf_capacity (pkt_body p2)"
      by auto
    have ok2: "link_ok p2" using p1(2) p2(3,5,6) by (simp add: link_ok_def)
    obtain st n2 where st: "pf_send pf (wire_bytes p2) n = (st, n2)" by fastforce
    define o2 where "o2 = (if st = SendOk then IHS_OutgoingSent o' (hdr_type (pkt_header p)) now
      (of_nat (13 + buf_size (pkt_body p))) else o')"
    define d where "d = s\<lparr>lk_env := n2, lk_network := (if st = SendOk then
      IHS_SessionRecordNetworkSent (pf_grow pf n2) (lk_network s) now (of_nat (13 + buf_size (pkt_body p))) else lk_network s)\<rparr>"
    have run: "IHS_SessionSendPacketResult pf p o1 s = Some (send_code st, p2, o2, d)"
      using 3 can now p1(1,4) p2(1,2) st by (simp add: IHS_SessionSendPacketResult_def o2_def d_def Let_def)
    have "out_unreliable o' = out_unreliable o1" using can CanSend_windows[of o1] by (metis snd_conv)
    then have win: "out_unreliable o2 = out_unreliable o1" by (simp add: o2_def)
    show ?thesis
      by (rule tried[OF 3(1) _ run ok2 _ win, of])
        (use 3 can now p1(3,4) p2(2,4) st in \<open>simp_all add: o2_def d_def\<close>)
  qed
qed

interpretation link_tx: transmitter "IHS_SessionSendPacketResult pf" link_ok for pf :: "'n platform"
proof unfold_locales
  fix p :: session_packet and o1 :: outgoing and c :: "'n link"
  assume ok: "link_ok p"
  show "\<exists>result p' o2 d. IHS_SessionSendPacketResult pf p o1 c = Some (result, p', o2, d)"
    using send_result_cases[OF ok, of c pf o1] by metis
next
  fix p p' :: session_packet and o1 o2 :: outgoing and c d :: "'n link" and result
  assume ok: "link_ok p" and run: "IHS_SessionSendPacketResult pf p o1 c = Some (result, p', o2, d)"
  have "link_ok p' \<and> hdr_packetId (pkt_header p') = hdr_packetId (pkt_header p) \<and> out_unreliable o2 = out_unreliable o1"
    using ok
  proof (cases rule: send_result_cases[of p c pf o1])
    case (tried p1 o3 e st)
    then show ?thesis using run by auto
  qed (use run ok in \<open>auto simp: link_ok_header\<close>)
  then show "link_ok p' \<and> hdr_packetId (pkt_header p') = hdr_packetId (pkt_header p) \<and> buf_wf (pkt_body p')"
    and "out_unreliable o2 = out_unreliable o1" by (auto simp: link_ok_def sendable_def)
next
  fix p n
  assume "link_ok p"
  then show "link_ok (p\<lparr>pkt_header := (pkt_header p)\<lparr>hdr_retransmitCount := n\<rparr>\<rparr>)" by (simp add: link_ok_header)
qed

end
