(* ===== verification/Outgoing_Props.thy ===== *)
theory Outgoing_Props
  imports Session_Link
begin

text \<open>
  Properties of the outgoing side: retaining, sending over the session's network, feedback from the
  peer, and the rate limiter.
\<close>

section \<open>Retaining and feedback\<close>

text \<open>Retaining an unreliable packet is a map update: it succeeds exactly when memory is available,
  the ID is less than 32768 ahead of the window and its place is free; then the packet can be
  found under its ID and every other packet is where it was, even when the ring had to grow.
  Otherwise nothing is stored.
\<close>

theorem outgoing_retain_lookup:
  fixes p :: session_packet
  assumes "ow_inv w" "buf_wf (pkt_body p)"
  defines "i \<equiv> hdr_packetId (pkt_header p)"
  shows "\<exists>ok p' w'. retain_in m1 m2 m3 w p created = Some (ok, p', w') \<and> ow_inv w' \<and>
     (if ok then ow_get w i = None \<and>
          ow_get w' = (ow_get w)(i \<mapsto> \<lparr>pkt_header = pkt_header p, pkt_body = pkt_body p, pkt_crc = pkt_crc p\<rparr>) \<and>
          unat (i - ow_head (started i w)) < 32768
      else p' = p \<and> ow_get w' = ow_get w) \<and>
     (m1 \<and> m2 \<and> m3 \<and> unat (i - ow_head (started i w)) < 32768 \<and> ow_get w i = None \<longrightarrow> ok)"
  using retain_in_spec[OF assms(1,2), of m1 m2 m3 created] unfolding i_def .

lemma zero_out_window_inv: "ow_inv zero_out_window"
  by (simp add: ow_inv_def ow_wf_def zero_out_window_def ow_get_def)

definition example_packet :: "u16 \<Rightarrow> session_packet" where
  "example_packet i = \<lparr>pkt_header = zero_header\<lparr>hdr_type := 3, hdr_packetId := i, hdr_channelId := 3\<rparr>,
     pkt_body = \<lparr>buf_data = Some (replicate 32 0), buf_capacity = 32, buf_offset = 13, buf_size = 3,
       buf_suffix = 0, buf_initialCapacity = 32, buf_maxCapacity = 2048\<rparr>, pkt_crc = 0\<rparr>"

lemma example_packet_ok: "link_ok (example_packet i)" "buf_wf (pkt_body (example_packet i))"
  by (simp_all add: link_ok_def sendable_def example_packet_def buf_wf_def zero_header_def)

theorem outgoing_retain_lookup_witness:
  "\<exists>p' w'. retain_in True True True zero_out_window (example_packet 65535) 7 = Some (True, p', w') \<and>
     ow_get w' 65535 \<noteq> None"
proof -
  have 1: "ow_get zero_out_window 65535 = None" "unat (65535 - ow_head (started 65535 zero_out_window) :: u16) < 32768"
    "hdr_packetId (pkt_header (example_packet 65535)) = 65535"
    by (simp_all add: zero_out_window_def ow_get_def started_def example_packet_def)
  show ?thesis
    using outgoing_retain_lookup[OF zero_out_window_inv example_packet_ok(2)[of 65535], of True True True 7] 1 by auto
qed

text \<open>C37: Feedback from the peer has exactly the effect that its format prescribes.  The packets up to
  the confirmed ID are released; a set bit of the bitmap releases its packet if that packet has
  been sent; a clear bit below the highest set bit of its byte, and every held ID numerically below
  the base, mark the packet for retransmission if it has been sent and is older than the cutoff;
  nothing else changes.
\<close>

theorem outgoing_nack_exact:
  fixes now age :: u32
  assumes "ow_wf w" "buf_wf (pkt_body p)"
    "buf_content (pkt_body p) = IHS_WriteUInt32LE echo @ IHS_WriteUInt16LE confirmed @ bs"
    "8 * length bs \<le> 65536"
    "ow_lastFeedback w = 0 \<or> sint (hdr_sendTimestamp (pkt_header p) - ow_lastFeedback w) \<ge> 0"
  defines "base \<equiv> hdr_packetId (pkt_header p)"
    and "lim \<equiv> (if sint (now - age - echo) < 0 then echo else now - age)"
  shows "\<exists>w'. nack_window w p now age = Some w' \<and> ow_wf w' \<and>
     ow_lastFeedback w' = hdr_sendTimestamp (pkt_header p) \<and>
     ow_tail w' = ow_tail w \<and> ow_cursor w' = ow_cursor w \<and>
     (\<forall>j. ow_get w' j =
       (if unat (j - ow_head w) < confirmed_count w confirmed \<or>
           ack_bit bs (unat (j - base)) \<and> 0 < sint (ow_cursor w - j) then None
        else if nack_bit bs (unat (j - base)) \<or> uint (ow_head w') \<le> uint j \<and> uint j < uint base
          then map_option (marked lim) (ow_get w j)
        else ow_get w j))"
  using nack_window_extended[OF assms(1-5), of now age] unfolding base_def lim_def by blast

definition example_nack :: session_packet where
  "example_nack = \<lparr>pkt_header = zero_header\<lparr>hdr_type := 10, hdr_packetId := 5, hdr_sendTimestamp := 900\<rparr>,
     pkt_body = IHS_BUFFER_WRAP (IHS_WriteUInt32LE 800 @ IHS_WriteUInt16LE 4 @ [2]), pkt_crc = 0\<rparr>"

theorem outgoing_nack_exact_witness:
  "\<exists>w'. nack_window zero_out_window example_nack 1000 50 = Some w' \<and> ow_lastFeedback w' = 900"
proof -
  have "buf_wf (pkt_body example_nack)" unfolding example_nack_def
    by (simp add: buf_wf_WRAP u32_wire.length_enc u16_wire.length_enc)
  moreover have "buf_content (pkt_body example_nack) = IHS_WriteUInt32LE 800 @ IHS_WriteUInt16LE 4 @ [2]"
    by (simp add: example_nack_def)
  moreover have "ow_wf zero_out_window" using zero_out_window_inv by (simp add: ow_inv_def)
  ultimately show ?thesis
    using outgoing_nack_exact[of zero_out_window example_nack 800 4 "[2]" 1000 50]
    by (auto simp: example_nack_def zero_out_window_def)
qed

section \<open>Sending in order\<close>


definition example_window :: out_window where
  "example_window = \<lparr>ow_slots = (replicate 64 None)[7 := Some (example_packet 7)], ow_created = replicate 64 5, ow_capacity = 64,
     ow_head = 7, ow_tail = 8, ow_cursor = 7, ow_initialized = True, ow_lastFeedback = 0\<rparr>"

definition example_out :: outgoing where
  "example_out = set_window 3 example_window (IHS_OutgoingInit 0)"

definition quiet_platform :: "unit platform" where
  "quiet_platform = \<lparr>pf_now = (\<lambda>n. (0, n)), pf_send = (\<lambda>d n. (SendOk, n)), pf_mem = zero_mem, pf_grow = (\<lambda>n. True)\<rparr>"

definition quiet_link :: "unit link" where
  "quiet_link = \<lparr>lk_detached = False, lk_crcRequired = True,
     lk_network = \<lparr>nw_rateSent = \<lparr>br_queue = zero_queue, br_bytes = 0\<rparr>, nw_rateReceived = \<lparr>br_queue = zero_queue, br_bytes = 0\<rparr>,
       nw_packets = \<lparr>pk_queue = zero_queue, pk_total = 0, pk_lost = 0\<rparr>,
       nw_video = \<lparr>vs_queue = zero_queue, vs_frame = 0, vs_firstSent = 0, vs_lastReceived = 0, vs_frameBytes = 0,
         vs_totals = [0, 0, 0, 0]\<rparr>\<rparr>, lk_env = ()\<rparr>"

lemma example_window_slot: "slot_of example_window i = unat i mod 64"
  using slot_of_nat[of example_window 6] by (simp add: example_window_def)

lemma example_window_get: "ow_get example_window i = (if i = 7 then Some (example_packet 7) else None)"
proof -
  have "i - 7 < 1 \<longleftrightarrow> i = 7" by (metis word_less_1 right_minus_eq)
  then show ?thesis using example_window_slot[of 7] by (auto simp: ow_get_def example_window_def not_le)
qed

lemma example_window_inv: "ow_inv example_window"
proof -
  have "ow_slots example_window ! slot_of example_window (7 + of_nat n) = None" if n: "n < 64" "1 \<le> n" for n
  proof -
    have "unat (7 + of_nat n :: u16) = 7 + n" using n(1) by (simp add: unat_word_ariths unat_of_nat)
    moreover have "(7 + n) mod 64 \<noteq> 7" using n by presburger
    ultimately show ?thesis by (simp add: example_window_slot) (simp add: example_window_def)
  qed
  then have "ow_ring example_window 6" by (simp add: ow_ring_def example_window_def)
  then show ?thesis
    using example_packet_ok(2)[of 7] unfolding ow_inv_def ow_wf_def example_window_get
    by (auto simp: example_packet_def example_window_def[THEN arg_cong[of _ _ ow_initialized]] split: if_splits)
qed

lemma example_out_wf: "out_wf link_ok example_out"
proof -
  have "ow_get zero_out_window i = None" for i by (simp add: zero_out_window_def ow_get_def)
  then have "out_wf link_ok (IHS_OutgoingInit 0)" using zero_out_window_inv by (simp add: out_wf_def IHS_OutgoingInit_def)
  then show ?thesis unfolding example_out_def
    by (rule out_wf_set_window) (use example_window_inv example_packet_ok in \<open>auto simp: example_window_get split: if_splits\<close>)
qed


section \<open>The rate limiter\<close>

text \<open>The rate limiter alone, for one class of packets: a send at \<open>now\<close> of \<open>n\<close> bytes that is admitted.\<close>

fun paced :: "u32 \<Rightarrow> outgoing \<Rightarrow> (u32 \<times> u32) list \<Rightarrow> outgoing option" where
  "paced t o' [] = Some o'"
| "paced t o' ((now, n) # ss) =
     (case IHS_OutgoingCanSend o' t now of (allowed, o') \<Rightarrow>
        if allowed then paced t (IHS_OutgoingSent o' t now n) ss else None)"

text \<open>The time that \<open>n\<close> bytes take at a rate.\<close>

definition send_cost :: "int \<Rightarrow> u32 \<Rightarrow> int" where
  "send_cost rate n = (uint n * 65536) div rate"

lemma sint_small: "- (2 ^ 31) \<le> i \<Longrightarrow> i < 2 ^ 31 \<Longrightarrow> sint (word_of_int i :: u32) = i"
proof -
  assume "- (2 ^ 31) \<le> i" "i < 2 ^ 31"
  then have "signed_take_bit 31 i = i" by (intro signed_take_bit_int_eq_self) auto
  then show ?thesis by (simp only: sint_sbintrunc') simp
qed

lemma sent_deadline:
  fixes origin :: u32
  assumes cls: "packet_class t = Some c" and c: "c < length (out_deadline o')" "out_rate o' ! c = rate" "4 \<le> rate"
    and n: "n < 32768"
    and d: "out_deadline o' ! c = origin + word_of_int e" "- (2 ^ 31) \<le> e - (x - 65)" "e \<le> x"
    and now: "now = origin + word_of_int x"
  shows "out_deadline (IHS_OutgoingSent o' t now n) ! c = origin + word_of_int (max e (x - 65) + send_cost rate n)"
    "0 \<le> send_cost rate n" "send_cost rate n < 2 ^ 29"
proof -
  have "uint n < 32768" using n by (simp add: word_less_def)
  then have un: "0 \<le> uint n * 65536" "uint n * 65536 < 2 ^ 31" by simp_all
  show cost: "0 \<le> send_cost rate n" using c(3) by (simp add: send_cost_def pos_imp_zdiv_nonneg_iff)
  have "uint n * 65536 div rate \<le> uint n * 65536 div 4" using un c(3) by (intro zdiv_mono2) auto
  then show "send_cost rate n < 2 ^ 29" using un by (simp add: send_cost_def)
  have num: "sint (push_bit 16 n) = uint n * 65536"
  proof -
    have "push_bit 16 n = word_of_int (uint n * 65536)" by (simp add: push_bit_eq_mult mult.commute)
    moreover have "- (2 ^ 31) \<le> uint n * 65536" by (rule order.trans[OF _ un(1)]) simp
    ultimately show ?thesis using sint_small[OF _ un(2)] by (simp only:)
  qed
  have sd: "(uint n * 65536) sdiv rate = send_cost rate n"
    using un c(3) by (simp add: signed_divide_int_def send_cost_def sgn_if)
  have diff: "sint (out_deadline o' ! c - (now - 65)) = e - (x - 65)"
  proof -
    have "out_deadline o' ! c - (now - 65) = word_of_int (e - (x - 65))" using d(1) now by (simp add: algebra_simps)
    moreover have "e - (x - 65) < 2 ^ 31" using d(3) by simp
    ultimately show ?thesis using sint_small[OF d(2)] by (simp only:)
  qed
  have fl: "(if sint (out_deadline o' ! c - (now - 65)) \<ge> 0 then out_deadline o' ! c else now - 65) =
      origin + word_of_int (max e (x - 65))"
    unfolding diff by (auto simp: d(1) now max_def)
  have "out_deadline (IHS_OutgoingSent o' t now n) ! c =
      (if sint (out_deadline o' ! c - (now - 65)) \<ge> 0 then out_deadline o' ! c else now - 65) + word_of_int (send_cost rate n)"
    using cls c by (simp add: IHS_OutgoingSent_def Let_def num sd)
  then show "out_deadline (IHS_OutgoingSent o' t now n) ! c = origin + word_of_int (max e (x - 65) + send_cost rate n)"
    unfolding fl by (simp add: algebra_simps)
qed

lemma sent_frame:
  "out_rate (IHS_OutgoingSent o' t now n) = out_rate o'"
  "length (out_deadline (IHS_OutgoingSent o' t now n)) = length (out_deadline o')"
  by (simp_all add: IHS_OutgoingSent_def Let_def split: option.splits)

lemma paced_Cons:
  assumes "packet_class t = Some c"
  shows "paced t o' ((now, n) # ss) = Some o2 \<longleftrightarrow>
    sint (now - out_deadline o' ! c) \<ge> 0 \<and> paced t (IHS_OutgoingSent (o'\<lparr>out_blocked := False\<rparr>) t now n) ss = Some o2"
  using assms by (simp add: IHS_OutgoingCanSend_def Let_def)

lemma paced_bound:
  fixes origin :: u32
  assumes cls: "packet_class t = Some c" and "c < length (out_deadline o')" "out_rate o' ! c = rate" "4 \<le> rate"
    and "\<forall>(x, n)\<in>set ss. 0 \<le> x \<and> x \<le> 2 ^ 30 \<and> n < 32768"
    and "out_deadline o' ! c = origin + word_of_int e" "- 65 \<le> e" "e < 2 ^ 30 + 2 ^ 29"
    and "paced t o' (map (\<lambda>(x, n). (origin + word_of_int x, n)) ss) = Some o2" "ss \<noteq> []"
  shows "e + (\<Sum>(x, n)\<leftarrow>butlast ss. send_cost rate n) \<le> fst (last ss)"
  using assms(2-)
proof (induction ss arbitrary: o' e)
  case (Cons s ss)
  obtain x n where s: "s = (x, n)" by fastforce
  let ?now = "origin + word_of_int x"
  let ?o = "o'\<lparr>out_blocked := False\<rparr>"
  have x: "0 \<le> x" "x \<le> 2 ^ 30" "n < 32768" using Cons.prems(4) s by auto
  have p: "sint (?now - out_deadline o' ! c) \<ge> 0"
    "paced t (IHS_OutgoingSent ?o t ?now n) (map (\<lambda>(x, n). (origin + word_of_int x, n)) ss) = Some o2"
    using Cons.prems(8) unfolding s list.map prod.case paced_Cons[OF cls] by auto
  have "?now - out_deadline o' ! c = word_of_int (x - e)" using Cons.prems(5) by simp
  moreover have "- (2 ^ 31) \<le> x - e" "x - e < 2 ^ 31" using x Cons.prems(6,7) by simp_all
  ultimately have "sint (?now - out_deadline o' ! c) = x - e" using sint_small by (simp only:)
  then have ex: "e \<le> x" using p(1) by linarith
  note d = sent_deadline[OF cls, of ?o rate n origin e x ?now]
  have d': "out_deadline (IHS_OutgoingSent ?o t ?now n) ! c = origin + word_of_int (max e (x - 65) + send_cost rate n)"
    "0 \<le> send_cost rate n" "send_cost rate n < 2 ^ 29"
    using d Cons.prems(1-3,5,6) ex x by simp_all
  show ?case
  proof (cases "ss = []")
    case True
    then show ?thesis using ex s by simp
  next
    case False
    have "max e (x - 65) + send_cost rate n + (\<Sum>(x, n)\<leftarrow>butlast ss. send_cost rate n) \<le> fst (last ss)"
    proof (rule Cons.IH[OF _ _ Cons.prems(3) _ d'(1) _ _ p(2) False])
      show "- 65 \<le> max e (x - 65) + send_cost rate n" using Cons.prems(6) d'(2) by linarith
      show "max e (x - 65) + send_cost rate n < 2 ^ 30 + 2 ^ 29" using ex x d'(3) by linarith
    qed (use Cons.prems in \<open>simp_all add: sent_frame\<close>)
    then show ?thesis using False s by (simp add: max_def split: if_splits)
  qed
qed simp



end
