(* ===== verification/Network_Stats_Props.thy ===== *)
theory Network_Stats_Props
  imports Network_Stats
begin

text \<open>
  The ring of samples is a queue, and the running sums of the collectors are the sums over the
  samples it holds.
\<close>

section \<open>The ring\<close>

lemma sq_wf_cases:
  assumes "sq_wf q"
  obtains (empty) "sq_capacity q = 0" "sq_count q = 0" "sq_data q = []"
  | (ring) k where "sq_capacity q = 2 ^ k" "k < 63" "sq_head q < sq_capacity q"
  using assms unfolding sq_wf_def by auto

lemma at_index_mod:
  assumes "sq_wf q" "sq_capacity q \<noteq> 0" "i \<le> sq_capacity q"
  shows "at_index q i = (sq_head q + i) mod sq_capacity q"
  using assms(1)
proof (cases rule: sq_wf_cases)
  case (ring k)
  have "(2::nat) ^ k \<le> 2 ^ 62" using ring(2) by (intro power_increasing) auto
  then have "sq_head q + i < 2 ^ 64" using ring(1,3) assms(3) by simp
  then show ?thesis unfolding at_index_def ring(1) by (simp only: sz_add_exact and_power_two_nat)
qed (use assms in simp)

lemma at_index_less: "sq_wf q \<Longrightarrow> sq_capacity q \<noteq> 0 \<Longrightarrow> i \<le> sq_capacity q \<Longrightarrow> at_index q i < length (sq_data q)"
  by (simp add: at_index_mod) (simp add: sq_wf_def)

lemma at_index_inj:
  "sq_wf q \<Longrightarrow> i < sq_capacity q \<Longrightarrow> j < sq_capacity q \<Longrightarrow> at_index q i = at_index q j \<Longrightarrow> i = j"
  using ring_index_inj[of i "sq_capacity q" j "sq_head q"] by (simp add: at_index_mod)

lemma length_samples [simp]: "length (samples q) = sq_count q"
  by (simp add: samples_def)

lemma samples_nth: "i < sq_count q \<Longrightarrow> samples q ! i = at_sample q i"
  by (simp add: samples_def)

lemma samples_empty [simp]: "samples q = [] \<longleftrightarrow> sq_count q = 0"
  by (simp add: samples_def)

lemma sq_wf_update:
  "sq_wf q \<Longrightarrow> length (ns_values s) = 4 \<Longrightarrow> sq_wf (q\<lparr>sq_data := (sq_data q)[i := s]\<rparr>)"
  using set_update_subset_insert[of "sq_data q" i s] by (fastforce simp: sq_wf_def)

lemma at_index_frame [simp]:
  "at_index (q\<lparr>sq_data := d\<rparr>) = at_index q" "at_index (q\<lparr>sq_count := n\<rparr>) = at_index q"
  by (simp_all add: at_index_def fun_eq_iff)

lemma push_spec:
  assumes wf: "sq_wf q" and room: "sq_count q < sq_capacity q" and len: "length (ns_values s) = 4"
  shows "sq_wf (push q s)" "samples (push q s) = samples q @ [s]"
proof -
  have "sq_wf (q\<lparr>sq_data := (sq_data q)[at_index q (sq_count q) := s]\<rparr>)" by (rule sq_wf_update[OF wf len])
  then show "sq_wf (push q s)" using room by (simp add: push_def sq_wf_def)
  have less: "at_index q (sq_count q) < length (sq_data q)" using at_index_less[OF wf] room by simp
  have other: "at_index q (sq_count q) \<noteq> at_index q i" if "i < sq_count q" for i
    using at_index_inj[OF wf, of "sq_count q" i] that room by auto
  show "samples (push q s) = samples q @ [s]"
    by (rule nth_equalityI) (auto simp: push_def samples_def nth_append less other less_Suc_eq)
qed

lemma pop_spec:
  assumes wf: "sq_wf q" and ne: "sq_count q \<noteq> 0"
  shows "sq_wf (pop q)" "samples (pop q) = tl (samples q)" "sq_capacity (pop q) = sq_capacity q"
proof -
  have cap: "sq_count q \<le> sq_capacity q" "sq_capacity q \<noteq> 0" using wf ne by (auto simp: sq_wf_def)
  have head: "sq_head (pop q) = Suc (sq_head q) mod sq_capacity q"
    using at_index_mod[OF wf cap(2), of 1] cap by (simp add: pop_def at_index_def)
  have head_less: "Suc (sq_head q) mod sq_capacity q < sq_capacity q" using cap(2) by simp
  show wf': "sq_wf (pop q)"
    using wf cap head_less head unfolding sq_wf_def by (auto simp: pop_def)
  show "sq_capacity (pop q) = sq_capacity q" by (simp add: pop_def)
  have hl: "sq_head q < sq_capacity q" using wf cap(2) by (auto simp: sq_wf_def)
  obtain n where n: "sq_count q = Suc n" using ne not0_implies_Suc by blast
  have "samples (pop q) = map (\<lambda>i. sq_data q ! ((Suc (sq_head q) mod sq_capacity q + i) mod sq_capacity q)) [0..<n]"
    using cap n at_index_mod[OF wf', unfolded head] by (simp add: samples_def pop_def[of q])
  also have "\<dots> = tl (map (\<lambda>i. sq_data q ! ((sq_head q + i) mod sq_capacity q)) [0..<Suc n])"
    using map_ring_shift[OF _ hl, of n "\<lambda>i. sq_data q ! i"] cap n by simp
  also have "map (\<lambda>i. sq_data q ! ((sq_head q + i) mod sq_capacity q)) [0..<Suc n] = samples q"
    unfolding samples_def n[symmetric] using at_index_mod[OF wf cap(2)] cap
    by (intro map_cong) auto
  finally show "samples (pop q) = tl (samples q)" .
qed

interpretation sample_ring: fifo sq_wf
  "\<lambda>q s. sq_count q < sq_capacity q \<and> length (ns_values s) = 4" samples push pop
  by unfold_locales (use push_spec pop_spec in \<open>auto simp flip: samples_empty\<close>)

lemma reserve_spec:
  assumes wf: "sq_wf q" and r: "reserve alloc q = (ok, q')"
  shows "sq_wf q'" "samples q' = samples q" "ok \<Longrightarrow> sq_count q' < sq_capacity q'" "\<not> ok \<Longrightarrow> q' = q"
    "sq_count q' = sq_count q"
proof -
  have *: "sq_wf q' \<and> samples q' = samples q \<and> (ok \<longrightarrow> sq_count q' < sq_capacity q') \<and> (\<not> ok \<longrightarrow> q' = q) \<and>
      sq_count q' = sq_count q"
  proof (cases "sq_count q < sq_capacity q \<or> \<not> ok")
    case True
    then show ?thesis using r wf by (auto simp: reserve_def Let_def split: if_splits)
  next
    case False
    define cap where "cap = (if sq_capacity q \<noteq> 0 then sz_mul (sq_capacity q) 2 else 8)"
    have q': "q' = \<lparr>sq_data = map (at_sample q) [0..<sq_count q] @ replicate (cap - sq_count q) zero_sample,
        sq_head = 0, sq_count = sq_count q, sq_capacity = cap\<rparr>" and small: "cap \<le> SIZE_MAX div 20"
      using r False by (auto simp: reserve_def Let_def cap_def split: if_splits)
    have full: "sq_count q = sq_capacity q" using wf False by (auto simp: sq_wf_def)
    have "\<exists>j. cap = 2 ^ j \<and> sq_count q < cap"
      using wf
    proof (cases rule: sq_wf_cases)
      case empty
      then have "cap = 2 ^ 3 \<and> sq_count q < cap" by (simp add: cap_def)
      then show ?thesis by blast
    next
      case (ring k)
      have "(2::nat) ^ Suc k \<le> 2 ^ 63" using ring(2) by (intro power_increasing) auto
      then have "sz_mul (sq_capacity q) 2 = 2 ^ Suc k" using ring(1) by (simp add: sz_mul_def)
      then have "cap = 2 ^ Suc k \<and> sq_count q < cap" using ring(1) full by (simp add: cap_def)
      then show ?thesis by blast
    qed
    then obtain j where j: "cap = 2 ^ j" "sq_count q < cap" by blast
    have "(2::nat) ^ j < 2 ^ 63" using small j(1) by (simp add: SIZE_MAX_def)
    then have "j < 63" by (rule power_less_imp_less_exp[rotated]) simp
    have vals: "length (ns_values (at_sample q i)) = 4" if "i < sq_count q" for i
    proof -
      have "at_sample q i \<in> set (sq_data q)" using at_index_less[OF wf, of i] that full by simp
      then show ?thesis using wf by (auto simp: sq_wf_def)
    qed
    have wf': "sq_wf q'"
      unfolding sq_wf_def using j \<open>j < 63\<close> vals by (auto simp: q' zero_sample_def)
    have "samples q' = samples q"
    proof (rule nth_equalityI)
      fix i assume "i < length (samples q')"
      then have i: "i < sq_count q" by (simp add: q')
      have "at_index q' i = i" using at_index_mod[OF wf', of i] i j(2) by (simp add: q')
      then show "samples q' ! i = samples q ! i" using i by (simp add: samples_nth q' nth_append)
    qed (simp add: q')
    moreover have "sq_count q' < sq_capacity q'" "sq_count q' = sq_count q" using j(2) by (simp_all add: q')
    ultimately show ?thesis using wf' False by blast
  qed
  then show "sq_wf q'" "samples q' = samples q" "ok \<Longrightarrow> sq_count q' < sq_capacity q'" "\<not> ok \<Longrightarrow> q' = q"
    "sq_count q' = sq_count q" by auto
qed

lemma add_value_spec:
  assumes wf: "sq_wf q" and ne: "sq_count q \<noteq> 0"
  defines "l \<equiv> last (samples q)"
  shows "sq_wf (add_value q v)" "samples (add_value q v) =
    butlast (samples q) @ [l\<lparr>ns_values := (ns_values l)[0 := ns_values l ! 0 + v]\<rparr>]"
proof -
  have cap: "sq_count q \<le> sq_capacity q" "sq_capacity q \<noteq> 0" using wf ne by (auto simp: sq_wf_def)
  have l: "l = at_sample q (sq_count q - 1)" using ne by (simp add: l_def last_conv_nth samples_nth)
  have less: "at_index q (sq_count q - 1) < length (sq_data q)" using at_index_less[OF wf cap(2)] cap by simp
  then have "l \<in> set (sq_data q)" by (simp add: l)
  then have "length (ns_values l) = 4" using wf by (auto simp: sq_wf_def)
  then show "sq_wf (add_value q v)" unfolding add_value_def Let_def l[symmetric] by (intro sq_wf_update wf) simp
  obtain m where m: "sq_count q = Suc m" using ne not0_implies_Suc by blast
  have other: "at_index q m \<noteq> at_index q i" if "i < m" for i
    using at_index_inj[OF wf, of m i] that cap m by auto
  have "at_index q m < length (sq_data q)" using less m by simp
  then show "samples (add_value q v) = butlast (samples q) @ [l\<lparr>ns_values := (ns_values l)[0 := ns_values l ! 0 + v]\<rparr>]"
    unfolding add_value_def Let_def l[symmetric]
    by (intro nth_equalityI) (use other in \<open>auto simp: samples_def nth_append nth_butlast m less_Suc_eq simp del: upt_Suc\<close>)
qed

section \<open>Dropping old samples\<close>

definition too_old :: "u32 \<Rightarrow> network_sample \<Rightarrow> bool" where
  "too_old now s \<longleftrightarrow> now - ns_timestamp s > WINDOW_TICKS"

lemma expire_samples_spec:
  assumes "sq_wf q" "n = sq_count q"
  shows "\<exists>q'. expire_samples f n now q s = (q', fold f (takeWhile (too_old now) (samples q)) s) \<and>
     sq_wf q' \<and> samples q' = dropWhile (too_old now) (samples q) \<and> sq_capacity q' = sq_capacity q"
  using assms
proof (induction n arbitrary: q s)
  case 0
  then show ?case by (simp flip: samples_empty)
next
  case (Suc n)
  then have ne: "sq_count q \<noteq> 0" by simp
  then obtain x xs where c: "samples q = x # xs" by (cases "samples q") (auto simp: samples_def)
  have x: "x = at_sample q 0" using samples_nth[of 0 q] ne c by simp
  have ex: "expired q now \<longleftrightarrow> too_old now x" using ne by (simp add: expired_def too_old_def x)
  note p = pop_spec[OF Suc.prems(1) ne]
  have "n = sq_count (pop q)" using Suc.prems(2) by (simp add: pop_def)
  then show ?case using Suc.IH[OF p(1), of "f x s"] p(2,3) c ex Suc.prems(1) by (simp add: x[symmetric])
qed

text \<open>Making room, dropping the old samples and appending a new one: the common part of the collectors.\<close>

lemma append_sample_spec:
  assumes wf: "sq_wf q0" and r: "reserve alloc q0 = (True, q)" and len: "length (ns_values x) = 4"
  shows "\<exists>q'. expire_samples f (sq_count q) now q s = (q', fold f (takeWhile (too_old now) (samples q0)) s) \<and>
     sq_wf (push q' x) \<and> samples q' = dropWhile (too_old now) (samples q0) \<and> samples (push q' x) = samples q' @ [x]"
proof -
  note res = reserve_spec[OF wf r]
  obtain q' where e: "expire_samples f (sq_count q) now q s = (q', fold f (takeWhile (too_old now) (samples q)) s)"
    "sq_wf q'" "samples q' = dropWhile (too_old now) (samples q)" "sq_capacity q' = sq_capacity q"
    using expire_samples_spec[OF res(1) refl, of f now s] by (elim exE conjE)
  have "length (dropWhile (too_old now) (samples q)) \<le> sq_count q" using length_dropWhile_le[of _ "samples q"] by simp
  then have room: "sq_count q' < sq_capacity q'" using res(3) e(3,4) by (metis length_samples le_less_trans)
  then show ?thesis using push_spec[OF e(2) room len] e res(2) by auto
qed

lemma sum_drop_take_while:
  "(\<Sum>x\<leftarrow>xs. f x) - (\<Sum>x\<leftarrow>takeWhile P xs. f x) = (\<Sum>x\<leftarrow>dropWhile P xs. f x)"
  for f :: "'a \<Rightarrow> 'b::ab_group_add"
proof -
  have "(\<Sum>x\<leftarrow>xs. f x) = (\<Sum>x\<leftarrow>takeWhile P xs @ dropWhile P xs. f x)" by simp
  then show ?thesis by (simp only: map_append sum_list_append) simp
qed

section \<open>The packet-loss collector\<close>

definition packet_inv :: "packet_stats \<Rightarrow> bool" where
  "packet_inv s \<longleftrightarrow> sq_wf (pk_queue s) \<and>
     pk_total s = (\<Sum>x\<leftarrow>samples (pk_queue s). ns_values x ! 0) \<and>
     pk_lost s = (\<Sum>x\<leftarrow>samples (pk_queue s). if ns_values x ! 1 \<noteq> 0 then ns_values x ! 0 else 0)"

lemma fold_packet_take_off:
  "fold (\<lambda>x (t, l). (t - ns_values x ! 0, if ns_values x ! 1 \<noteq> 0 then l - ns_values x ! 0 else l)) xs (t, l) =
     (t - (\<Sum>x\<leftarrow>xs. ns_values x ! 0), l - (\<Sum>x\<leftarrow>xs. if ns_values x ! 1 \<noteq> 0 then ns_values x ! 0 else 0))"
  for t l :: u32
  by (induction xs arbitrary: t l) (auto simp: algebra_simps)

lemma sum_last_update:
  fixes f :: "'a \<Rightarrow> 'b::ab_group_add"
  assumes "xs \<noteq> []" "f y = f (last xs) + d"
  shows "(\<Sum>x\<leftarrow>butlast xs @ [y]. f x) = (\<Sum>x\<leftarrow>xs. f x) + d"
  using assms by (cases xs rule: rev_cases) (auto simp: algebra_simps)

text \<open>The window of samples after a record: merged into the newest one or appended.\<close>

definition record_sample :: "u32 \<Rightarrow> u32 \<Rightarrow> u32 \<Rightarrow> network_sample list \<Rightarrow> network_sample list" where
  "record_sample now n flag xs =
     (if xs \<noteq> [] \<and> ns_timestamp (last xs) = now \<and> ns_values (last xs) ! 1 = flag
      then butlast xs @ [(last xs)\<lparr>ns_values := (ns_values (last xs))[0 := ns_values (last xs) ! 0 + n]\<rparr>]
      else dropWhile (too_old now) xs @ [\<lparr>ns_timestamp = now, ns_values = [n, flag, 0, 0]\<rparr>])"

lemma packet_values_length:
  assumes "sq_wf q" "s \<in> set (samples q)"
  shows "length (ns_values s) = 4"
proof -
  obtain i where "i < sq_count q" "s = at_sample q i" using assms(2) by (auto simp: samples_def)
  moreover have "sq_count q \<le> sq_capacity q" using assms(1) by (simp add: sq_wf_def)
  ultimately have "s \<in> set (sq_data q)" using at_index_less[OF assms(1), of i] by simp
  then show ?thesis using assms(1) by (auto simp: sq_wf_def)
qed

lemma packet_record_merge:
  assumes inv: "packet_inv s" and ne: "sq_count (pk_queue s) \<noteq> 0"
    and l: "ns_timestamp (last (samples (pk_queue s))) = now"
      "ns_values (last (samples (pk_queue s))) ! 1 = (if lost then 1 else 0)"
  shows "\<exists>s'. IHS_NetworkPacketRecord alloc s now n lost = (True, s') \<and> packet_inv s' \<and>
    samples (pk_queue s') = record_sample now n (if lost then 1 else 0) (samples (pk_queue s))"
proof -
  let ?q = "pk_queue s"
  let ?l = "last (samples ?q)"
  let ?y = "?l\<lparr>ns_values := (ns_values ?l)[0 := ns_values ?l ! 0 + n]\<rparr>"
  have wf: "sq_wf ?q" using inv by (simp add: packet_inv_def)
  note a = add_value_spec[OF wf ne, of n]
  have last: "at_sample ?q (sq_count ?q - 1) = ?l" using ne by (simp add: last_conv_nth samples_nth)
  have len: "length (ns_values ?l) = 4" using packet_values_length[OF wf, of ?l] ne by (simp flip: samples_empty)
  have ne': "samples ?q \<noteq> []" using ne by simp
  have t: "(\<Sum>x\<leftarrow>samples (add_value ?q n). ns_values x ! 0) = pk_total s + n"
    unfolding a(2) using sum_last_update[OF ne', of "\<lambda>x. ns_values x ! 0" ?y n] len inv by (simp add: packet_inv_def)
  have ls: "(\<Sum>x\<leftarrow>samples (add_value ?q n). if ns_values x ! 1 \<noteq> 0 then ns_values x ! 0 else 0) =
      (if lost then pk_lost s + n else pk_lost s)"
    unfolding a(2) using l(2) len inv
      sum_last_update[OF ne', of "\<lambda>x. if ns_values x ! 1 \<noteq> 0 then ns_values x ! 0 else 0" ?y "if lost then n else 0"]
    by (auto simp: packet_inv_def split: if_splits)
  show ?thesis
    using ne l last a t ls by (simp add: IHS_NetworkPacketRecord_def packet_inv_def record_sample_def)
qed

lemma packet_record_append:
  assumes inv: "packet_inv s"
    and l: "\<not> (sq_count (pk_queue s) \<noteq> 0 \<and> ns_timestamp (last (samples (pk_queue s))) = now \<and>
      ns_values (last (samples (pk_queue s))) ! 1 = (if lost then 1 else 0))"
    and r: "reserve alloc (pk_queue s) = (True, q)"
  shows "\<exists>s'. IHS_NetworkPacketRecord alloc s now n lost = (True, s') \<and> packet_inv s' \<and>
    samples (pk_queue s') = record_sample now n (if lost then 1 else 0) (samples (pk_queue s))"
proof -
  have wf: "sq_wf (pk_queue s)" using inv by (simp add: packet_inv_def)
  let ?f = "\<lambda>x (t, l). (t - ns_values x ! 0, if ns_values x ! 1 \<noteq> 0 then l - ns_values x ! 0 else l) :: u32 \<times> u32"
  let ?new = "\<lparr>ns_timestamp = now, ns_values = [n, if lost then 1 else 0, 0, 0]\<rparr> :: network_sample"
  obtain q' where e: "expire_samples ?f (sq_count q) now q (pk_total s, pk_lost s) =
      (q', fold ?f (takeWhile (too_old now) (samples (pk_queue s))) (pk_total s, pk_lost s))"
    and p: "sq_wf (push q' ?new)" "samples (push q' ?new) = samples q' @ [?new]"
    and d: "samples q' = dropWhile (too_old now) (samples (pk_queue s))"
    using append_sample_spec[OF wf r, of ?new ?f now "(pk_total s, pk_lost s)"] by auto
  have t: "pk_total s - (\<Sum>x\<leftarrow>takeWhile (too_old now) (samples (pk_queue s)). ns_values x ! 0) = (\<Sum>x\<leftarrow>samples q'. ns_values x ! 0)"
    "pk_lost s - (\<Sum>x\<leftarrow>takeWhile (too_old now) (samples (pk_queue s)). if ns_values x ! 1 \<noteq> 0 then ns_values x ! 0 else 0) =
       (\<Sum>x\<leftarrow>samples q'. if ns_values x ! 1 \<noteq> 0 then ns_values x ! 0 else 0)"
    using inv unfolding packet_inv_def d by (simp_all only: sum_drop_take_while)
  have lst: "sq_count (pk_queue s) \<noteq> 0 \<Longrightarrow> at_sample (pk_queue s) (sq_count (pk_queue s) - 1) = last (samples (pk_queue s))"
    by (simp add: last_conv_nth samples_nth)
  have c: "\<not> (sq_count (pk_queue s) \<noteq> 0 \<and> ns_timestamp (at_sample (pk_queue s) (sq_count (pk_queue s) - 1)) = now \<and>
      ns_values (at_sample (pk_queue s) (sq_count (pk_queue s) - 1)) ! 1 = (if lost then 1 else 0))"
    using l lst by metis
  have run: "IHS_NetworkPacketRecord alloc s now n lost = (True, s\<lparr>pk_queue := push q' ?new,
      pk_total := (\<Sum>x\<leftarrow>samples q'. ns_values x ! 0) + n,
      pk_lost := (\<Sum>x\<leftarrow>samples q'. if ns_values x ! 1 \<noteq> 0 then ns_values x ! 0 else 0) + (if lost then n else 0)\<rparr>)"
    unfolding IHS_NetworkPacketRecord_def Let_def if_not_P[OF c] r using e unfolding fold_packet_take_off t by simp
  have "packet_inv (s\<lparr>pk_queue := push q' ?new,
      pk_total := (\<Sum>x\<leftarrow>samples q'. ns_values x ! 0) + n,
      pk_lost := (\<Sum>x\<leftarrow>samples q'. if ns_values x ! 1 \<noteq> 0 then ns_values x ! 0 else 0) + (if lost then n else 0)\<rparr>)"
    using p by (simp add: packet_inv_def)
  then show ?thesis using run p l d by (auto simp: record_sample_def)
qed

text \<open>Recording received or lost packets is exact on the window of samples: the new count is merged
  into the newest sample of the same time and kind, or the samples older than three seconds are
  dropped and a new one is appended; in every case the running totals, kept by adding and
  subtracting, are the sums over the samples in the ring.  When the ring cannot grow nothing
  changes.
\<close>

theorem network_packet_record_exact:
  assumes "packet_inv s" "IHS_NetworkPacketRecord alloc s now n lost = (ok, s')"
  shows "packet_inv s' \<and> (if ok then samples (pk_queue s') =
      record_sample now n (if lost then 1 else 0) (samples (pk_queue s)) else s' = s)"
proof (cases "sq_count (pk_queue s) \<noteq> 0 \<and> ns_timestamp (last (samples (pk_queue s))) = now \<and>
    ns_values (last (samples (pk_queue s))) ! 1 = (if lost then 1 else 0)")
  case True
  then show ?thesis using packet_record_merge[OF assms(1), of now lost alloc n] assms(2) by auto
next
  case new: False
  obtain r q where r: "reserve alloc (pk_queue s) = (r, q)" by fastforce
  show ?thesis
  proof (cases r)
    case True
    then show ?thesis using packet_record_append[OF assms(1) new, of alloc q n] r assms(2) by auto
  next
    case False
    have c: "\<not> (sq_count (pk_queue s) \<noteq> 0 \<and> ns_timestamp (at_sample (pk_queue s) (sq_count (pk_queue s) - 1)) = now \<and>
      ns_values (at_sample (pk_queue s) (sq_count (pk_queue s) - 1)) ! 1 = (if lost then 1 else 0))"
      using new by (metis last_conv_nth length_samples samples_empty samples_nth diff_less less_one neq0_conv)
    have "IHS_NetworkPacketRecord alloc s now n lost = (False, s)"
      unfolding IHS_NetworkPacketRecord_def Let_def if_not_P[OF c] r using False by simp
    then show ?thesis using assms by auto
  qed
qed

definition example_packets :: packet_stats where
  "example_packets = \<lparr>pk_queue = \<lparr>sq_data = [\<lparr>ns_timestamp = 70000, ns_values = [4, 1, 0, 0]\<rparr>,
       \<lparr>ns_timestamp = 5, ns_values = [9, 0, 0, 0]\<rparr>], sq_head = 1, sq_count = 2, sq_capacity = 2\<rparr>,
     pk_total = 13, pk_lost = 4\<rparr>"

theorem network_packet_record_exact_witness:
  "case IHS_NetworkPacketRecord True example_packets 200000 3 True of (ok, s') \<Rightarrow>
     ok \<and> packet_inv s' \<and> pk_total s' = 7 \<and> pk_lost s' = 7"
proof -
  have "\<exists>k. (2::nat) = 2 ^ k \<and> k < 63" by (rule exI[of _ 1]) simp
  then have wf: "sq_wf (pk_queue example_packets)" by (simp add: sq_wf_def example_packets_def)
  have i: "at_index (pk_queue example_packets) 0 = 1" "at_index (pk_queue example_packets) (Suc 0) = 0"
    using at_index_mod[OF wf] by (simp_all add: example_packets_def)
  have s: "samples (pk_queue example_packets) = [\<lparr>ns_timestamp = 5, ns_values = [9, 0, 0, 0]\<rparr>,
      \<lparr>ns_timestamp = 70000, ns_values = [4, 1, 0, 0]\<rparr>]"
    using i by (simp add: samples_def example_packets_def numeral_2_eq_2)
  have inv: "packet_inv example_packets" using wf unfolding packet_inv_def s by (simp add: example_packets_def)
  obtain ok s' where run: "IHS_NetworkPacketRecord True example_packets 200000 3 True = (ok, s')" by fastforce
  have "fst (reserve True (pk_queue example_packets))"
    by (simp add: reserve_def example_packets_def sz_mul_def SIZE_MAX_def)
  then have "ok" using run by (auto simp: IHS_NetworkPacketRecord_def Let_def split: prod.splits if_splits bool.splits)
  moreover have "samples (pk_queue s') = [\<lparr>ns_timestamp = 70000, ns_values = [4, 1, 0, 0]\<rparr>,
      \<lparr>ns_timestamp = 200000, ns_values = [3, 1, 0, 0]\<rparr>]" and "packet_inv s'"
    using network_packet_record_exact[OF inv run] \<open>ok\<close>
    by (simp_all add: s record_sample_def too_old_def WINDOW_TICKS_def)
  ultimately show ?thesis using run by (simp add: packet_inv_def)
qed

section \<open>The other collectors\<close>

definition ping_inv :: "ping_stats \<Rightarrow> bool" where
  "ping_inv s \<longleftrightarrow> sq_wf (pg_queue s) \<and> pg_sum s = (\<Sum>x\<leftarrow>samples (pg_queue s). ns_values x ! 0)"

lemma fold_take_off: "fold (\<lambda>x n. n - f x) xs n = n - (\<Sum>x\<leftarrow>xs. f x)" for n :: "'b::ab_group_add"
  by (induction xs arbitrary: n) (auto simp: algebra_simps)

lemma ping_record_spec:
  assumes "ping_inv s" "IHS_NetworkPingRecord alloc s ticks now = (ok, s')"
  shows "ping_inv s' \<and> (if ok then samples (pg_queue s') = dropWhile (too_old now) (samples (pg_queue s)) @
      [\<lparr>ns_timestamp = now, ns_values = [ticks, 0, 0, 0]\<rparr>] else s' = s)"
proof -
  obtain r q where r: "reserve alloc (pg_queue s) = (r, q)" by fastforce
  show ?thesis
  proof (cases r)
    case False
    then show ?thesis using r assms by (auto simp: IHS_NetworkPingRecord_def)
  next
    case True
    let ?new = "\<lparr>ns_timestamp = now, ns_values = [ticks, 0, 0, 0]\<rparr> :: network_sample"
    let ?f = "\<lambda>x n. n - ns_values x ! 0 :: u32"
    have r': "reserve alloc (pg_queue s) = (True, q)" using r True by simp
    have wf: "sq_wf (pg_queue s)" using assms(1) by (simp add: ping_inv_def)
    obtain q' where e: "expire_samples ?f (sq_count q) now q (pg_sum s) =
        (q', fold ?f (takeWhile (too_old now) (samples (pg_queue s))) (pg_sum s))"
      and p: "sq_wf (push q' ?new)" "samples (push q' ?new) = samples q' @ [?new]"
      and d: "samples q' = dropWhile (too_old now) (samples (pg_queue s))"
      using append_sample_spec[OF wf r', of ?new ?f now "pg_sum s"] by auto
    have "s' = s\<lparr>pg_queue := push q' ?new, pg_sum := (\<Sum>x\<leftarrow>samples q'. ns_values x ! 0) + ticks\<rparr>" "ok"
      using assms r True e unfolding fold_take_off ping_inv_def d
      by (auto simp: IHS_NetworkPingRecord_def sum_drop_take_while)
    then show ?thesis using p d by (simp add: ping_inv_def)
  qed
qed

end
