(* ===== verification/Clock.thy ===== *)
theory Clock
  imports Network_Stats_Props "HOL-Library.Signed_Division"
begin

text \<open>
  The stream clock (\<^verbatim>\<open>session/clock.c\<close>): round-trip time, the offset to the peer's clock as a mean
  over ten seconds of samples, and the delays that the transport derives from them.  All times are
  16.16 fixed-point seconds in 32 bits and wrap around; \<^verbatim>\<open>int32_t\<close> and \<^verbatim>\<open>int64_t\<close> fields are words
  read with \<^term>\<open>sint\<close>.

  The singly linked list of samples (\<^verbatim>\<open>head\<close>, \<^verbatim>\<open>tail\<close>, \<^verbatim>\<open>next\<close>) is the list of its nodes.  The only
  floating-point step is the conversion of the cached mean RTT into whole milliseconds: the delay
  functions take that number as the argument \<open>ms\<close>.  \<open>alloc1\<close> and \<open>alloc2\<close> say whether the two
  allocations succeed.
\<close>

record clock_sample =
  ck_timestamp :: u32
  ck_offset :: u32

record stream_clock =
  clk_list :: "clock_sample list"
  clk_ping :: ping_stats
  clk_smoothedRTT :: u32
  clk_offsetSum :: u64
  clk_samples :: u32
  clk_lastEcho :: u32
  clk_minRTT :: u32
  clk_minRTTUpdate :: u32
  clk_offset :: u32
  clk_haveEcho :: bool

definition IHS_StreamClockInit :: stream_clock where
  "IHS_StreamClockInit = \<lparr>clk_list = [], clk_ping = \<lparr>pg_queue = zero_queue, pg_sum = 0\<rparr>,
     clk_smoothedRTT = 0, clk_offsetSum = 0, clk_samples = 0, clk_lastEcho = 0, clk_minRTT = 0,
     clk_minRTTUpdate = 0, clk_offset = 0, clk_haveEcho = False\<rparr>"

definition IHS_StreamClockDeinit :: "stream_clock \<Rightarrow> stream_clock" where
  "IHS_StreamClockDeinit c = c\<lparr>clk_list := [],
     clk_ping := (clk_ping c)\<lparr>pg_queue := IHS_NetworkSampleQueueDestroy (pg_queue (clk_ping c))\<rparr>\<rparr>"

text \<open>The loop that drops the samples older than ten seconds.\<close>

fun expire_offsets :: "u32 \<Rightarrow> clock_sample list \<Rightarrow> u64 \<Rightarrow> u32 \<Rightarrow> clock_sample list \<times> u64 \<times> u32" where
  "expire_offsets now [] total' n = ([], total', n)"
| "expire_offsets now (s # ss) total' n =
     (if now - ck_timestamp s > 10 * 65536 then expire_offsets now ss (total' - scast (ck_offset s)) (n - 1)
      else (s # ss, total', n))"

definition clock_add_sample :: "stream_clock \<Rightarrow> u32 \<Rightarrow> u32 \<Rightarrow> stream_clock option" where
  "clock_add_sample c now offset =
     (case expire_offsets now (clk_list c) (clk_offsetSum c) (clk_samples c) of
        (ss, total', n) \<Rightarrow>
          let total' = total' + scast offset; n = n + 1 in
          if n = 0 then None
          else Some (c\<lparr>clk_list := ss @ [\<lparr>ck_timestamp = now, ck_offset = offset\<rparr>], clk_offsetSum := total',
                       clk_samples := n, clk_offset := word_of_int (sint total' sdiv uint n)\<rparr>))"

definition IHS_StreamClockFeedback ::
    "bool \<Rightarrow> bool \<Rightarrow> stream_clock \<Rightarrow> u32 \<Rightarrow> u32 \<Rightarrow> u32 \<Rightarrow> stream_clock option" where
  "IHS_StreamClockFeedback alloc1 alloc2 c echo peer now =
     (if clk_haveEcho c \<and> sint (echo - clk_lastEcho c) < -130 then Some c
      else let rtt = sint (now - echo); nrtt = (if rtt > 0 then word_of_int rtt else 0 :: u32);
        c = c\<lparr>clk_haveEcho := True, clk_lastEcho := echo,
              clk_ping := snd (IHS_NetworkPingRecord alloc1 (clk_ping c) nrtt now),
              clk_smoothedRTT := (if clk_smoothedRTT c \<noteq> 0
                then ucast (((ucast (clk_smoothedRTT c) :: u64) + ucast nrtt) div 2) else nrtt)\<rparr>;
        c = (if rtt > 0 \<and> (clk_minRTT c = 0 \<or> nrtt < clk_minRTT c) then c\<lparr>clk_minRTT := nrtt\<rparr>
             else if clk_minRTT c \<noteq> 0 \<and> sint (now - clk_minRTTUpdate c) > 0
             then c\<lparr>clk_minRTT := clk_minRTT c + 65, clk_minRTTUpdate := now + 65536 div 4\<rparr> else c) in
        if nrtt > clk_minRTT c + 65 then Some c
        else if \<not> alloc2 then Some c
        else clock_add_sample c now (peer - echo - word_of_int (rtt sdiv 2)))"

definition IHS_StreamClockOffset :: "stream_clock \<Rightarrow> int" where
  "IHS_StreamClockOffset c = sint (clk_offset c)"

definition IHS_StreamClockRetryTicks :: "stream_clock \<Rightarrow> u32" where
  "IHS_StreamClockRetryTicks c =
     (let ticks = clk_smoothedRTT c;
          ticks = (if ticks < 65 then 65 else ticks);
          ticks = (if ticks > 3276 then 3276 else ticks) in
      ticks + ticks div 4)"

definition ms_ticks :: "u32 \<Rightarrow> u32" where
  "ms_ticks ms = ucast ((ucast ms :: u64) * 65536 div 1000)"

definition IHS_StreamClockNackAgeTicks :: "u32 \<Rightarrow> u32" where
  "IHS_StreamClockNackAgeTicks ms = (if ms_ticks ms < 3276 then ms_ticks ms else 3276)"

definition IHS_StreamClockReceiveDelayTicks :: "u32 \<Rightarrow> u32 \<Rightarrow> u32" where
  "IHS_StreamClockReceiveDelayTicks ms budget = budget + ms_ticks ms"

definition IHS_StreamClockMediaDelayTicks :: "u32 \<Rightarrow> u32" where
  "IHS_StreamClockMediaDelayTicks ms = IHS_StreamClockReceiveDelayTicks ms 6553"

definition IHS_StreamClockFeedbackTicks :: "stream_clock \<Rightarrow> u32" where
  "IHS_StreamClockFeedbackTicks c =
     (let ticks = clk_smoothedRTT c;
          ticks = (if ticks > 3276 then 3276 else ticks);
          ticks = ticks div 4 in
      if ticks < 65 then 65 else ticks)"

section \<open>The offset is a mean\<close>

definition clock_inv :: "stream_clock \<Rightarrow> bool" where
  "clock_inv c \<longleftrightarrow> ping_inv (clk_ping c) \<and> length (clk_list c) < 2 ^ 32 \<and>
     unat (clk_samples c) = length (clk_list c) \<and>
     sint (clk_offsetSum c) = (\<Sum>s\<leftarrow>clk_list c. sint (ck_offset s))"

lemma sint_u32_bounds: "- (2 ^ 31) \<le> sint (x :: u32)" "sint (x :: u32) < 2 ^ 31"
  using sint_ge[of x] sint_lt[of x] by simp_all

text \<open>A sum of \<open>n\<close> signed 32-bit numbers fits 64 bits as long as \<open>n\<close> fits 32 bits.\<close>

lemma offset_sum_bound:
  "\<bar>\<Sum>s\<leftarrow>ss. sint (ck_offset s)\<bar> \<le> 2 ^ 31 * int (length ss)"
proof (induction ss)
  case (Cons s ss)
  have "\<bar>sint (ck_offset s)\<bar> \<le> 2 ^ 31" using sint_u32_bounds[of "ck_offset s"] by linarith
  then show ?case using Cons by (simp add: algebra_simps)
qed simp

lemma sint_add_exact:
  fixes x y :: u64
  assumes "- (2 ^ 63) \<le> sint x + sint y" "sint x + sint y < 2 ^ 63"
  shows "sint (x + y) = sint x + sint y"
  using assms by (simp add: sint_word_ariths signed_take_bit_int_eq_self)

lemma sint_sub_exact:
  fixes x y :: u64
  assumes "- (2 ^ 63) \<le> sint x - sint y" "sint x - sint y < 2 ^ 63"
  shows "sint (x - y) = sint x - sint y"
  using assms by (simp add: sint_word_ariths signed_take_bit_int_eq_self)

lemma sint_scast_u32: "sint (scast (x :: u32) :: u64) = sint x"
  by (rule sint_up_scast) (simp add: is_up)

lemma expire_offsets_spec:
  assumes "length ss < 2 ^ 32" "unat n = length ss" "sint total' = (\<Sum>s\<leftarrow>ss. sint (ck_offset s))"
  shows "\<exists>t m. expire_offsets now ss total' n = (dropWhile (\<lambda>s. now - ck_timestamp s > 10 * 65536) ss, t, m) \<and>
     unat m = length (dropWhile (\<lambda>s. now - ck_timestamp s > 10 * 65536) ss) \<and>
     sint t = (\<Sum>s\<leftarrow>dropWhile (\<lambda>s. now - ck_timestamp s > 10 * 65536) ss. sint (ck_offset s))"
  using assms
proof (induction ss arbitrary: total' n)
  case (Cons s ss)
  show ?case
  proof (cases "now - ck_timestamp s > 10 * 65536")
    case True
    have b: "\<bar>\<Sum>s\<leftarrow>ss. sint (ck_offset s)\<bar> < 2 ^ 63" using offset_sum_bound[of ss] Cons.prems(1) by simp
    have "n \<noteq> 0" using Cons.prems(2) by auto
    then have "unat (n - 1) = length ss" using Cons.prems(2) by (simp add: unat_minus_one)
    moreover have "sint (total' - scast (ck_offset s)) = (\<Sum>s\<leftarrow>ss. sint (ck_offset s))"
      using sint_sub_exact[of total' "scast (ck_offset s)"] Cons.prems(3) b by (simp add: sint_scast_u32 abs_less_iff)
    ultimately show ?thesis using True Cons.IH[of "n - 1" "total' - scast (ck_offset s)"] Cons.prems(1) by simp
  next
    case False
    then show ?thesis using Cons.prems by simp
  qed
qed simp

text \<open>Truncating division keeps a mean between the bounds of the values.\<close>

lemma sdiv_between:
  fixes t n lo hi :: int
  assumes "0 < n" "lo * n \<le> t" "t \<le> hi * n"
  shows "lo \<le> t sdiv n" "t sdiv n \<le> hi"
proof -
  have d: "t sdiv n = (if t < 0 then - (- t div n) else t div n)"
    using assms(1) by (auto simp: signed_divide_int_def sgn_if)
  have div_between: "a \<le> s div n \<and> s div n \<le> b" if "a * n \<le> s" "s \<le> b * n" for a b s
    using zdiv_mono1[OF that(1) assms(1)] zdiv_mono1[OF that(2) assms(1)] assms(1) by simp
  have "lo \<le> t div n" "t div n \<le> hi" "- hi \<le> - t div n" "- t div n \<le> - lo"
    using div_between[of lo t hi] div_between[of "- hi" "- t" "- lo"] assms(2,3) by simp_all
  then show "lo \<le> t sdiv n" "t sdiv n \<le> hi" unfolding d by auto
qed

lemma offset_sum_between:
  assumes "\<forall>s\<in>set ss. lo \<le> sint (ck_offset s) \<and> sint (ck_offset s) \<le> hi"
  shows "lo * int (length ss) \<le> (\<Sum>s\<leftarrow>ss. sint (ck_offset s))" "(\<Sum>s\<leftarrow>ss. sint (ck_offset s)) \<le> hi * int (length ss)"
  using assms by (induction ss) (auto simp: algebra_simps)

lemma clock_add_sample_spec:
  fixes now offset :: u32
  assumes inv: "clock_inv c" and room: "length (clk_list c) < 2 ^ 32 - 1"
  defines "ss \<equiv> dropWhile (\<lambda>s. now - ck_timestamp s > 10 * 65536) (clk_list c) @ [\<lparr>ck_timestamp = now, ck_offset = offset\<rparr>]"
  shows "\<exists>c'. clock_add_sample c now offset = Some c' \<and> clock_inv c' \<and> clk_list c' = ss \<and>
     sint (clk_offset c') = (\<Sum>s\<leftarrow>ss. sint (ck_offset s)) sdiv int (length ss)"
proof -
  let ?old = "dropWhile (\<lambda>s. now - ck_timestamp s > 10 * 65536) (clk_list c)"
  obtain t m where e: "expire_offsets now (clk_list c) (clk_offsetSum c) (clk_samples c) = (?old, t, m)"
    "unat m = length ?old" "sint t = (\<Sum>s\<leftarrow>?old. sint (ck_offset s))"
    using expire_offsets_spec[of "clk_list c" "clk_samples c" "clk_offsetSum c" now] inv
    unfolding clock_inv_def by auto
  have len: "length ?old < 2 ^ 32 - 1" using room length_dropWhile_le[of _ "clk_list c"] by (rule le_less_trans[rotated])
  have m1: "unat (m + 1) = Suc (length ?old)"
    using e(2) len by (simp add: unat_word_ariths)
  then have nz: "m + 1 \<noteq> 0" by auto
  have ls: "length ss = Suc (length ?old)" by (simp add: ss_def)
  have b: "\<bar>\<Sum>s\<leftarrow>ss. sint (ck_offset s)\<bar> \<le> 2 ^ 31 * int (length ss)" by (rule offset_sum_bound)
  have sum: "(\<Sum>s\<leftarrow>ss. sint (ck_offset s)) = sint t + sint offset" by (simp add: ss_def e(3))
  have "\<bar>sint t + sint offset\<bar> < 2 ^ 63" using b len unfolding sum ls by simp
  then have t: "sint (t + scast offset) = (\<Sum>s\<leftarrow>ss. sint (ck_offset s))"
    using sint_add_exact[of t "scast offset"] by (simp add: sint_scast_u32 abs_less_iff sum)
  let ?mean = "(\<Sum>s\<leftarrow>ss. sint (ck_offset s)) sdiv int (length ss)"
  have all: "\<forall>s\<in>set ss. - (2 ^ 31) \<le> sint (ck_offset s) \<and> sint (ck_offset s) \<le> 2 ^ 31 - 1"
    using sint_u32_bounds(1) zle_diff1_eq[THEN iffD2, OF sint_u32_bounds(2)] by blast
  have "0 < int (length ss)" using ls by simp
  note mean_bounds = sdiv_between[OF this offset_sum_between[OF all]]
  have mean: "sint (word_of_int ?mean :: u32) = ?mean"
    using mean_bounds by (simp add: sint_sbintrunc' signed_take_bit_int_eq_self)
  have n: "uint (m + 1) = int (length ss)" by (simp only: uint_nat m1 ls)
  have "clock_add_sample c now offset = Some (c\<lparr>clk_list := ss, clk_offsetSum := t + scast offset,
      clk_samples := m + 1, clk_offset := word_of_int ?mean\<rparr>)"
    using e(1) nz t n by (simp add: clock_add_sample_def Let_def ss_def)
  moreover have "clock_inv (c\<lparr>clk_list := ss, clk_offsetSum := t + scast offset,
      clk_samples := m + 1, clk_offset := word_of_int ?mean\<rparr>)"
    using inv t m1 ls len by (simp add: clock_inv_def)
  ultimately show ?thesis using mean by simp
qed

lemma Feedback_mean:
  assumes inv: "clock_inv c" and room: "length (clk_list c) < 2 ^ 32 - 1"
  shows "\<exists>c'. IHS_StreamClockFeedback alloc1 alloc2 c echo peer now = Some c' \<and> clock_inv c' \<and>
     (clk_list c' = clk_list c \<and> clk_offset c' = clk_offset c \<or>
      IHS_StreamClockOffset c' = (\<Sum>s\<leftarrow>clk_list c'. sint (ck_offset s)) sdiv int (length (clk_list c')) \<and>
      (\<forall>lo hi. (\<forall>s\<in>set (clk_list c'). lo \<le> sint (ck_offset s) \<and> sint (ck_offset s) \<le> hi) \<longrightarrow>
         lo \<le> IHS_StreamClockOffset c' \<and> IHS_StreamClockOffset c' \<le> hi))"
proof -
  have ping: "ping_inv (snd (IHS_NetworkPingRecord alloc1 (clk_ping c) n now))" for n
  proof -
    obtain ok s where "IHS_NetworkPingRecord alloc1 (clk_ping c) n now = (ok, s)" by fastforce
    then show ?thesis using ping_record_spec[of "clk_ping c" alloc1 n now] inv by (simp add: clock_inv_def)
  qed
  have *: "IHS_StreamClockFeedback alloc1 alloc2 c echo peer now = Some c1 \<and> clk_list c1 = clk_list c \<and>
        clk_offset c1 = clk_offset c \<and> clock_inv c1 \<or>
      IHS_StreamClockFeedback alloc1 alloc2 c echo peer now = clock_add_sample c1 now off \<and> clock_inv c1 \<and>
        clk_list c1 = clk_list c"
    if "c1 = (if clk_haveEcho c \<and> sint (echo - clk_lastEcho c) < -130 then c else
      let rtt = sint (now - echo); nrtt = (if rtt > 0 then word_of_int rtt else 0 :: u32);
        c = c\<lparr>clk_haveEcho := True, clk_lastEcho := echo,
              clk_ping := snd (IHS_NetworkPingRecord alloc1 (clk_ping c) nrtt now),
              clk_smoothedRTT := (if clk_smoothedRTT c \<noteq> 0
                then ucast (((ucast (clk_smoothedRTT c) :: u64) + ucast nrtt) div 2) else nrtt)\<rparr> in
        if rtt > 0 \<and> (clk_minRTT c = 0 \<or> nrtt < clk_minRTT c) then c\<lparr>clk_minRTT := nrtt\<rparr>
             else if clk_minRTT c \<noteq> 0 \<and> sint (now - clk_minRTTUpdate c) > 0
             then c\<lparr>clk_minRTT := clk_minRTT c + 65, clk_minRTTUpdate := now + 65536 div 4\<rparr> else c)"
      "off = peer - echo - word_of_int (sint (now - echo) sdiv 2)" for c1 off
    using inv ping unfolding that IHS_StreamClockFeedback_def Let_def clock_inv_def by simp
  obtain c1 off where c1: "IHS_StreamClockFeedback alloc1 alloc2 c echo peer now = Some c1 \<and> clk_list c1 = clk_list c \<and>
        clk_offset c1 = clk_offset c \<and> clock_inv c1 \<or>
      IHS_StreamClockFeedback alloc1 alloc2 c echo peer now = clock_add_sample c1 now off \<and> clock_inv c1 \<and>
        clk_list c1 = clk_list c" using *[OF refl refl] by blast
  then show ?thesis
  proof
    assume "IHS_StreamClockFeedback alloc1 alloc2 c echo peer now = clock_add_sample c1 now off \<and> clock_inv c1 \<and>
        clk_list c1 = clk_list c"
    then have s: "IHS_StreamClockFeedback alloc1 alloc2 c echo peer now = clock_add_sample c1 now off"
      and i: "clock_inv c1" and l: "length (clk_list c1) < 2 ^ 32 - 1" using room by simp_all
    obtain c' where c': "clock_add_sample c1 now off = Some c'" "clock_inv c'"
      "sint (clk_offset c') = (\<Sum>s\<leftarrow>clk_list c'. sint (ck_offset s)) sdiv int (length (clk_list c'))"
      "clk_list c' \<noteq> []"
      using clock_add_sample_spec[OF i l, of now off] by auto
    have "lo \<le> sint (clk_offset c') \<and> sint (clk_offset c') \<le> hi"
      if "\<forall>s\<in>set (clk_list c'). lo \<le> sint (ck_offset s) \<and> sint (ck_offset s) \<le> hi" for lo hi
      unfolding c'(3) using sdiv_between[OF _ offset_sum_between[OF that]] c'(4) by simp
    then show ?thesis using s c' by (auto simp: IHS_StreamClockOffset_def)
  qed blast
qed

text \<open>C39: Feeding an echo to the clock keeps it consistent (the 64-bit sum of the offsets never
  overflows and the division by the number of samples is never by zero), and the offset that it
  publishes is either the old one or the truncated mean of the retained samples, so it lies
  between their smallest and their largest offset.
\<close>

theorem clock_feedback_mean:
  assumes inv: "clock_inv c" and room: "length (clk_list c) < 2 ^ 32 - 1"
  shows "\<exists>c'. IHS_StreamClockFeedback alloc1 alloc2 c echo peer now = Some c' \<and> clock_inv c' \<and>
     (clk_list c' = clk_list c \<and> clk_offset c' = clk_offset c \<or>
      IHS_StreamClockOffset c' = (\<Sum>s\<leftarrow>clk_list c'. sint (ck_offset s)) sdiv int (length (clk_list c')) \<and>
      (\<forall>lo hi. (\<forall>s\<in>set (clk_list c'). lo \<le> sint (ck_offset s) \<and> sint (ck_offset s) \<le> hi) \<longrightarrow>
         lo \<le> IHS_StreamClockOffset c' \<and> IHS_StreamClockOffset c' \<le> hi))"
  by (rule Feedback_mean[OF inv room])

theorem clock_feedback_mean_witness:
  "\<exists>c'. IHS_StreamClockFeedback False True IHS_StreamClockInit 1000 501500 3000 = Some c' \<and> clock_inv c'"
proof -
  have "sq_wf zero_queue" by (simp add: sq_wf_def zero_queue_def)
  then have "clock_inv IHS_StreamClockInit"
    by (simp add: clock_inv_def IHS_StreamClockInit_def ping_inv_def samples_def zero_queue_def)
  then show ?thesis
    using clock_feedback_mean[of IHS_StreamClockInit False True 1000 501500 3000] by (auto simp: IHS_StreamClockInit_def)
qed

section \<open>Delays\<close>

lemma word_le_sub: "x \<le> (3276 :: u32) \<Longrightarrow> unat (x + x div 4) = unat x + unat x div 4"
proof -
  assume "x \<le> 3276"
  then have "unat x \<le> 3276" by (simp add: word_le_nat_alt)
  then show ?thesis by (simp add: unat_word_ariths unat_div)
qed

text \<open>The delays that pace the transport are bounded whatever the peer echoes: a retransmission is
  due 81 to 4095 ticks (1.2 ms to 62.5 ms) after a packet was sent, feedback is sent at most once
  in 65 to 819 ticks, and a negative acknowledgement never reaches back more than 3276 ticks.
\<close>

theorem clock_delays_bounded:
  "81 \<le> unat (IHS_StreamClockRetryTicks c) \<and> unat (IHS_StreamClockRetryTicks c) \<le> 4095 \<and>
   65 \<le> unat (IHS_StreamClockFeedbackTicks c) \<and> unat (IHS_StreamClockFeedbackTicks c) \<le> 819 \<and>
   unat (IHS_StreamClockNackAgeTicks ms) \<le> 3276"
proof -
  define t where "t = (if (if clk_smoothedRTT c < 65 then 65 else clk_smoothedRTT c) > 3276 then 3276
    else (if clk_smoothedRTT c < 65 then 65 else clk_smoothedRTT c))"
  have t: "65 \<le> t" "t \<le> 3276" by (auto simp: t_def)
  have "65 \<le> unat t" "unat t \<le> 3276" using t by (simp_all add: word_le_nat_alt)
  moreover have "unat (IHS_StreamClockRetryTicks c) = unat t + unat t div 4"
    using word_le_sub[OF t(2)] by (simp add: IHS_StreamClockRetryTicks_def t_def Let_def)
  moreover define u where "u = (if clk_smoothedRTT c > 3276 then 3276 else clk_smoothedRTT c) div 4"
  have "u \<le> 819" by (auto simp: u_def word_le_nat_alt unat_div word_less_nat_alt)
  then have "65 \<le> unat (IHS_StreamClockFeedbackTicks c)" "unat (IHS_StreamClockFeedbackTicks c) \<le> 819"
    unfolding IHS_StreamClockFeedbackTicks_def Let_def u_def[symmetric] by (auto simp: word_le_nat_alt word_less_nat_alt)
  moreover have "unat (IHS_StreamClockNackAgeTicks ms) \<le> 3276"
    by (auto simp: IHS_StreamClockNackAgeTicks_def word_less_nat_alt)
  ultimately show ?thesis by auto
qed

end
