(* ===== verification/Linked_Queue.thy ===== *)
theory Linked_Queue
  imports Collections
begin

text \<open>
  The linked queue (\<^verbatim>\<open>ihs_queue.c\<close>) with its nodes in an explicit heap: an address is mapped to a
  node, which is a \<^verbatim>\<open>next\<close> pointer and the user's item behind it; \<^term>\<open>None\<close> is the null pointer.
  Dereferencing or freeing an address that is not allocated, a failing \<^verbatim>\<open>assert\<close> and a list that has
  a cycle give \<^term>\<open>None\<close>.  \<^verbatim>\<open>ItemFromNode\<close> and \<^verbatim>\<open>NodeFromItem\<close> convert between the two pointers into
  one block, so an item is addressed by its node.  A predicate is a function of the item, without
  effects of its own; a consumer also changes its context.
\<close>

section \<open>Heap and operations\<close>

record 'a queue_node =
  nd_next :: "nat option"
  nd_item :: 'a

type_synonym 'a heap = "nat \<rightharpoonup> 'a queue_node"

record linked_queue =
  lq_itemSize :: nat
  lq_head :: "nat option"

definition free_node :: "'a heap \<Rightarrow> nat \<Rightarrow> 'a heap option" where
  "free_node h a = (if h a = None then None else Some (h(a := None)))"

definition IHS_QueueCreate :: "bool \<Rightarrow> nat \<Rightarrow> linked_queue option" where
  "IHS_QueueCreate alloc itemSize = (if alloc then Some \<lparr>lq_itemSize = itemSize, lq_head = None\<rparr> else None)"

partial_function (option) destroy_nodes ::
    "('a \<Rightarrow> 'c \<Rightarrow> 'c) \<Rightarrow> 'a heap \<Rightarrow> nat option \<Rightarrow> 'c \<Rightarrow> ('a heap \<times> 'c) option" where
  "destroy_nodes destroy h p c = (case p of None \<Rightarrow> Some (h, c)
     | Some a \<Rightarrow> Option.bind (h a) (\<lambda>n. Option.bind (free_node h a)
         (\<lambda>h'. destroy_nodes destroy h' (nd_next n) (destroy (nd_item n) c))))"

definition IHS_QueueDestroy :: "'a heap \<Rightarrow> linked_queue \<Rightarrow> ('a \<Rightarrow> 'c \<Rightarrow> 'c) \<Rightarrow> 'c \<Rightarrow> ('a heap \<times> 'c) option" where
  "IHS_QueueDestroy h q destroy c = destroy_nodes destroy h (lq_head q) c"

text \<open>The loop of \<^verbatim>\<open>IHS_QueueAppend\<close> that finds the last node.\<close>

partial_function (option) last_node :: "'a heap \<Rightarrow> nat \<Rightarrow> nat option" where
  "last_node h a = Option.bind (h a) (\<lambda>n. case nd_next n of None \<Rightarrow> Some a | Some b \<Rightarrow> last_node h b)"

definition IHS_QueueAppend :: "'a heap \<Rightarrow> linked_queue \<Rightarrow> nat \<Rightarrow> ('a heap \<times> linked_queue) option" where
  "IHS_QueueAppend h q a = do {
     node \<leftarrow> h a;
     assert_that (nd_next node = None);
     case lq_head q of
       None \<Rightarrow> Some (h, q\<lparr>lq_head := Some a\<rparr>)
     | Some cur \<Rightarrow> do {
         l \<leftarrow> last_node h cur;
         n \<leftarrow> h l;
         Some (h(l \<mapsto> n\<lparr>nd_next := Some a\<rparr>), q)
       }
   }"

definition IHS_QueuePoll :: "'a heap \<Rightarrow> linked_queue \<Rightarrow> (nat option \<times> 'a heap \<times> linked_queue) option" where
  "IHS_QueuePoll h q =
     (case lq_head q of None \<Rightarrow> Some (None, h, q)
      | Some a \<Rightarrow> do {
          n \<leftarrow> h a;
          Some (Some a, h(a \<mapsto> n\<lparr>nd_next := None\<rparr>), q\<lparr>lq_head := nd_next n\<rparr>)
        })"

text \<open>Unlinking the successor of \<open>prev\<close>, or the first node.\<close>

definition unlink :: "'a heap \<Rightarrow> linked_queue \<Rightarrow> nat option \<Rightarrow> nat option \<Rightarrow> ('a heap \<times> linked_queue) option" where
  "unlink h q prev nxt =
     (case prev of None \<Rightarrow> Some (h, q\<lparr>lq_head := nxt\<rparr>)
      | Some p \<Rightarrow> do { n \<leftarrow> h p; Some (h(p \<mapsto> n\<lparr>nd_next := nxt\<rparr>), q) })"

partial_function (option) poll_by ::
    "('a \<Rightarrow> bool) \<Rightarrow> 'a heap \<Rightarrow> linked_queue \<Rightarrow> nat option \<Rightarrow> nat option \<Rightarrow> (nat option \<times> 'a heap \<times> linked_queue) option" where
  "poll_by P h q prev cur = (case cur of None \<Rightarrow> Some (None, h, q)
     | Some a \<Rightarrow> Option.bind (h a) (\<lambda>n.
         if P (nd_item n) then map_option (\<lambda>(h', q'). (Some a, h', q')) (unlink h q prev (nd_next n))
         else poll_by P h q (Some a) (nd_next n)))"

definition IHS_QueuePollBy ::
    "'a heap \<Rightarrow> linked_queue \<Rightarrow> ('a \<Rightarrow> bool) \<Rightarrow> (nat option \<times> 'a heap \<times> linked_queue) option" where
  "IHS_QueuePollBy h q P = poll_by P h q None (lq_head q)"

partial_function (option) poll_each ::
    "('a \<Rightarrow> bool) \<Rightarrow> ('a \<Rightarrow> 'c \<Rightarrow> 'c) \<Rightarrow> 'a heap \<Rightarrow> linked_queue \<Rightarrow> nat option \<Rightarrow> nat option \<Rightarrow> nat \<Rightarrow> 'c \<Rightarrow>
       (nat \<times> 'a heap \<times> linked_queue \<times> 'c) option" where
  "poll_each P destroy h q prev cur i c = (case cur of None \<Rightarrow> Some (i, h, q, c)
     | Some a \<Rightarrow> Option.bind (h a) (\<lambda>n.
         if P (nd_item n)
         then Option.bind (unlink h q prev (nd_next n)) (\<lambda>hq.
                Option.bind (free_node (fst hq) a) (\<lambda>h'.
                  poll_each P destroy h' (snd hq) prev (nd_next n) (i + 1) (destroy (nd_item n) c)))
         else poll_each P destroy h q (Some a) (nd_next n) (i + 1) c))"

definition IHS_QueuePollEach ::
    "'a heap \<Rightarrow> linked_queue \<Rightarrow> ('a \<Rightarrow> bool) \<Rightarrow> ('a \<Rightarrow> 'c \<Rightarrow> 'c) \<Rightarrow> 'c \<Rightarrow> (nat \<times> 'a heap \<times> linked_queue \<times> 'c) option" where
  "IHS_QueuePollEach h q P destroy c = poll_each P destroy h q None (lq_head q) 0 c"

definition IHS_QueueIsEmpty :: "linked_queue \<Rightarrow> bool" where
  "IHS_QueueIsEmpty q \<longleftrightarrow> lq_head q = None"

text \<open>\<open>fresh\<close> is the address that \<^verbatim>\<open>calloc\<close> returns and \<open>zero\<close> the item of a zeroed block.\<close>

definition IHS_QueueItemObtain :: "nat option \<Rightarrow> 'a \<Rightarrow> 'a heap \<Rightarrow> nat option \<times> 'a heap" where
  "IHS_QueueItemObtain fresh zero h =
     (case fresh of None \<Rightarrow> (None, h)
      | Some a \<Rightarrow> (Some a, h(a \<mapsto> \<lparr>nd_next = None, nd_item = zero\<rparr>)))"

definition IHS_QueueItemFree :: "'a heap \<Rightarrow> nat \<Rightarrow> 'a heap option" where
  "IHS_QueueItemFree h a = free_node h a"

section \<open>Linked lists in the heap\<close>

fun chain :: "'a heap \<Rightarrow> nat option \<Rightarrow> nat list \<Rightarrow> bool" where
  "chain h p [] \<longleftrightarrow> p = None"
| "chain h p (a # as) \<longleftrightarrow> p = Some a \<and> (\<exists>n. h a = Some n \<and> chain h (nd_next n) as)"

text \<open>A chain up to a node, whose \<^verbatim>\<open>next\<close> pointer is the second argument of the link.\<close>

fun segment :: "'a heap \<Rightarrow> nat option \<Rightarrow> nat list \<Rightarrow> nat option \<Rightarrow> bool" where
  "segment h p [] r \<longleftrightarrow> p = r"
| "segment h p (a # as) r \<longleftrightarrow> p = Some a \<and> (\<exists>n. h a = Some n \<and> segment h (nd_next n) as r)"

lemma chain_segment: "chain h p as \<longleftrightarrow> segment h p as None"
  by (induction as arbitrary: p) auto

lemma segment_append: "segment h p (as @ bs) r \<longleftrightarrow> (\<exists>s. segment h p as s \<and> segment h s bs r)"
  by (induction as arbitrary: p) auto

lemma segment_frame: "(\<And>a. a \<in> set as \<Longrightarrow> h' a = h a) \<Longrightarrow> segment h' p as r = segment h p as r"
  by (induction as arbitrary: p) auto

lemma segment_det: "segment h p as None \<Longrightarrow> segment h p bs None \<Longrightarrow> as = bs"
proof (induction as arbitrary: p bs)
  case Nil
  then show ?case by (cases bs) auto
next
  case (Cons a as)
  then show ?case by (cases bs) auto
qed

lemma segment_distinct: "segment h p as None \<Longrightarrow> distinct as"
proof (induction as arbitrary: p)
  case (Cons a as)
  then obtain n where n: "p = Some a" "h a = Some n" "segment h (nd_next n) as None" by auto
  have "a \<notin> set as"
  proof
    assume "a \<in> set as"
    then obtain xs ys where as: "as = xs @ a # ys" by (meson split_list)
    then have "segment h (Some a) (a # ys) None" using n(3) by (auto simp: segment_append)
    then have "a # ys = a # as" using segment_det[of h "Some a" "a # ys" "a # as"] Cons.prems n(1) by simp
    then show False using as by simp
  qed
  then show ?case using Cons.IH[OF n(3)] by simp
qed simp

lemma segment_alloc: "segment h p as r \<Longrightarrow> a \<in> set as \<Longrightarrow> h a \<noteq> None"
  by (induction as arbitrary: p) auto

definition items :: "'a heap \<Rightarrow> nat list \<Rightarrow> 'a list" where
  "items h as = map (\<lambda>a. nd_item (the (h a))) as"

text \<open>Changing the link of the last node of a segment.\<close>

lemma segment_relink:
  assumes "segment h p (as @ [l]) r" "l \<notin> set as" "h l = Some n"
  shows "segment (h(l \<mapsto> n\<lparr>nd_next := r'\<rparr>)) p (as @ [l]) r'"
proof -
  have "segment h p as (Some l)" using assms(1) by (auto simp: segment_append)
  moreover have "segment (h(l \<mapsto> n\<lparr>nd_next := r'\<rparr>)) p as (Some l) = segment h p as (Some l)"
    using assms(2) by (intro segment_frame) auto
  ultimately show ?thesis by (simp add: segment_append)
qed

section \<open>Append and poll\<close>

lemma last_node_chain:
  "segment h (Some a) (as @ [l]) None \<Longrightarrow> last_node h a = Some l"
proof (induction as arbitrary: a)
  case Nil
  then show ?case by (subst last_node.simps) auto
next
  case (Cons x as)
  then obtain n where n: "a = x" "h x = Some n" "segment h (nd_next n) (as @ [l]) None" by auto
  obtain b where b: "nd_next n = Some b" using n(3) by (cases as) auto
  then have "last_node h b = Some l" using Cons.IH[of b] n(3) by simp
  then show ?case using n b by (subst last_node.simps) simp
qed

lemma append_spec:
  assumes q: "chain h (lq_head q) as" and a: "h a = Some node" "nd_next node = None" "a \<notin> set as"
  shows "\<exists>h' q'. IHS_QueueAppend h q a = Some (h', q') \<and> chain h' (lq_head q') (as @ [a]) \<and>
     (\<forall>b. map_option nd_item (h' b) = map_option nd_item (h b)) \<and> (\<forall>b. b \<notin> set as \<longrightarrow> h' b = h b)"
proof (cases as rule: rev_cases)
  case Nil
  then show ?thesis using q a by (simp add: IHS_QueueAppend_def)
next
  case (snoc bs l)
  then obtain cur where cur: "lq_head q = Some cur" using q by (cases bs) auto
  have seg: "segment h (lq_head q) (bs @ [l]) None" using q snoc by (simp add: chain_segment)
  have l: "last_node h cur = Some l" using last_node_chain[of h cur bs l] seg cur by simp
  obtain n where n: "h l = Some n" using segment_alloc[OF seg, of l] by auto
  have nl: "l \<notin> set bs" using segment_distinct[OF seg] by simp
  let ?h = "h(l \<mapsto> n\<lparr>nd_next := Some a\<rparr>)"
  have "segment ?h (lq_head q) (bs @ [l]) (Some a)" by (rule segment_relink[OF seg nl n])
  moreover have "segment ?h (Some a) [a] None" using a snoc by simp
  ultimately have "segment ?h (lq_head q) (as @ [a]) None" using snoc segment_append[of ?h _ "bs @ [l]" "[a]"] by auto
  moreover have "IHS_QueueAppend h q a = Some (?h, q)" using a cur l n by (simp add: IHS_QueueAppend_def)
  ultimately show ?thesis using n snoc by (auto simp: chain_segment)
qed

lemma poll_spec:
  assumes "chain h (lq_head q) (a # as)"
  shows "\<exists>h' q'. IHS_QueuePoll h q = Some (Some a, h', q') \<and> chain h' (lq_head q') as \<and>
     (\<exists>n. h a = Some n \<and> h' = h(a \<mapsto> n\<lparr>nd_next := None\<rparr>))"
proof -
  obtain n where n: "lq_head q = Some a" "h a = Some n" "segment h (nd_next n) as None"
    using assms by (auto simp: chain_segment)
  have "a \<notin> set as" using segment_distinct[of h _ "a # as"] assms by (simp add: chain_segment)
  then have "segment (h(a \<mapsto> n\<lparr>nd_next := None\<rparr>)) (nd_next n) as None" using n(3) by (subst segment_frame) auto
  then show ?thesis using n by (auto simp: IHS_QueuePoll_def chain_segment)
qed

text \<open>
  The contract of a queue: the state is the heap with the queue, and the content is the list of
  nodes that are linked.
\<close>

definition lq_state_ok :: "'a heap \<times> linked_queue \<Rightarrow> bool" where
  "lq_state_ok s \<longleftrightarrow> (\<exists>as. chain (fst s) (lq_head (snd s)) as)"

definition lq_content :: "'a heap \<times> linked_queue \<Rightarrow> nat list" where
  "lq_content s = (THE as. chain (fst s) (lq_head (snd s)) as)"

definition lq_room :: "'a heap \<times> linked_queue \<Rightarrow> nat \<Rightarrow> bool" where
  "lq_room s a \<longleftrightarrow> a \<notin> set (lq_content s) \<and> (\<exists>n. fst s a = Some n \<and> nd_next n = None)"

lemma lq_content_eq: "chain h (lq_head q) as \<Longrightarrow> lq_content (h, q) = as"
  unfolding lq_content_def by (rule the_equality) (auto simp: chain_segment intro: segment_det)

interpretation linked: fifo lq_state_ok lq_room lq_content
  "\<lambda>s a. the (IHS_QueueAppend (fst s) (snd s) a)" "\<lambda>s. snd (the (IHS_QueuePoll (fst s) (snd s)))"
proof unfold_locales
  fix s :: "'a heap \<times> linked_queue" and a
  assume "lq_state_ok s" "lq_room s a"
  moreover obtain h q where s: "s = (h, q)" by fastforce
  ultimately obtain as n where c: "chain h (lq_head q) as" "h a = Some n" "nd_next n = None" "a \<notin> set as"
    using lq_content_eq by (fastforce simp: lq_state_ok_def lq_room_def)
  then obtain h' q' where "IHS_QueueAppend h q a = Some (h', q')" "chain h' (lq_head q') (as @ [a])"
    using append_spec[OF c] by blast
  then show "lq_state_ok (the (IHS_QueueAppend (fst s) (snd s) a))"
    and "lq_content (the (IHS_QueueAppend (fst s) (snd s) a)) = lq_content s @ [a]"
    using c(1) s by (auto simp: lq_state_ok_def lq_content_eq)
next
  fix s :: "'a heap \<times> linked_queue"
  assume "lq_state_ok s" "lq_content s \<noteq> []"
  moreover obtain h q where s: "s = (h, q)" by fastforce
  ultimately obtain a as where c: "chain h (lq_head q) (a # as)"
    using lq_content_eq by (fastforce simp: lq_state_ok_def neq_Nil_conv)
  then obtain h' q' where "IHS_QueuePoll h q = Some (Some a, h', q')" "chain h' (lq_head q') as"
    using poll_spec[OF c] by blast
  then show "lq_state_ok (snd (the (IHS_QueuePoll (fst s) (snd s))))"
    and "lq_content (snd (the (IHS_QueuePoll (fst s) (snd s)))) = tl (lq_content s)"
    using c s by (auto simp: lq_state_ok_def lq_content_eq simp del: chain.simps)
qed

section \<open>Removal by a predicate\<close>

lemma unlink_spec:
  assumes pre: "segment h (lq_head q) pre (Some a)" and prev: "prev = (if pre = [] then None else Some (last pre))"
    and d: "distinct (pre @ a # as)" and n: "h a = Some n" "segment h (nd_next n) as None"
  shows "\<exists>h' q'. unlink h q prev (nd_next n) = Some (h', q') \<and> segment h' (lq_head q') (pre @ as) None \<and>
     segment h' (lq_head q') pre (nd_next n) \<and>
     (\<forall>b. map_option nd_item (h' b) = map_option nd_item (h b)) \<and> (\<forall>b. b \<notin> set pre \<longrightarrow> h' b = h b)"
proof (cases pre rule: rev_cases)
  case Nil
  then show ?thesis using n prev by (simp add: unlink_def)
next
  case (snoc xs l)
  obtain m where m: "h l = Some m" using segment_alloc[OF pre, of l] snoc by auto
  let ?h = "h(l \<mapsto> m\<lparr>nd_next := nd_next n\<rparr>)"
  have s: "segment ?h (lq_head q) (xs @ [l]) (nd_next n)"
    by (rule segment_relink[where r = "Some a"]) (use pre snoc d m in auto)
  moreover have "segment ?h (nd_next n) as None" using n(2) d snoc by (subst segment_frame) auto
  ultimately have "segment ?h (lq_head q) (pre @ as) None" using snoc segment_append[of ?h _ "xs @ [l]" as] by auto
  then show ?thesis using s m prev snoc by (auto simp: unlink_def)
qed

lemma poll_by_loop:
  assumes "segment h (lq_head q) pre cur" "segment h cur as None" "distinct (pre @ as)"
    "prev = (if pre = [] then None else Some (last pre))"
  shows "poll_by P h q prev cur = (case List.find (\<lambda>a. P (nd_item (the (h a)))) as of
      None \<Rightarrow> Some (None, h, q)
    | Some a \<Rightarrow> map_option (\<lambda>(h', q'). (Some a, h', q'))
        (unlink h q (let xs = pre @ takeWhile (\<lambda>a. \<not> P (nd_item (the (h a)))) as in
           if xs = [] then None else Some (last xs)) (nd_next (the (h a)))))"
  using assms
proof (induction as arbitrary: pre prev cur)
  case Nil
  then show ?case by (subst poll_by.simps) simp
next
  case (Cons a as)
  then obtain n where n: "cur = Some a" "h a = Some n" "segment h (nd_next n) as None" by auto
  have "segment h (lq_head q) (pre @ [a]) (nd_next n)" using Cons.prems(1) n by (simp add: segment_append)
  then have ih: "poll_by P h q (Some a) (nd_next n) = (case List.find (\<lambda>a. P (nd_item (the (h a)))) as of
      None \<Rightarrow> Some (None, h, q)
    | Some a' \<Rightarrow> map_option (\<lambda>(h', q'). (Some a', h', q'))
        (unlink h q (let xs = (pre @ [a]) @ takeWhile (\<lambda>a. \<not> P (nd_item (the (h a)))) as in
           if xs = [] then None else Some (last xs)) (nd_next (the (h a')))))"
    using Cons.IH[of "pre @ [a]" "nd_next n" "Some a"] n(3) Cons.prems(3) by simp
  show ?case
  proof (cases "P (nd_item n)")
    case True
    then show ?thesis using n Cons.prems(4) by (subst poll_by.simps) simp
  next
    case False
    have "poll_by P h q prev cur = poll_by P h q (Some a) (nd_next n)"
      using n False by (subst poll_by.simps) simp
    then show ?thesis using False n unfolding ih by (simp add: Let_def split: option.splits)
  qed
qed

lemma find_split:
  assumes "List.find Q as = Some a"
  shows "as = takeWhile (\<lambda>x. \<not> Q x) as @ a # tl (dropWhile (\<lambda>x. \<not> Q x) as)" "Q a"
  using assms by (induction as) (auto split: if_splits)

lemma poll_each_loop:
  assumes "segment h (lq_head q) pre cur" "segment h cur as None" "distinct (pre @ as)"
    "prev = (if pre = [] then None else Some (last pre))"
  shows "\<exists>h' q'. poll_each P destroy h q prev cur i c =
      Some (i + length as, h', q', fold destroy (filter P (items h as)) c) \<and>
     segment h' (lq_head q') (pre @ filter (\<lambda>a. \<not> P (nd_item (the (h a)))) as) None \<and>
     (\<forall>b. b \<in> set as \<and> P (nd_item (the (h b))) \<longrightarrow> h' b = None) \<and>
     (\<forall>b. \<not> (b \<in> set as \<and> P (nd_item (the (h b)))) \<longrightarrow> map_option nd_item (h' b) = map_option nd_item (h b)) \<and>
     (\<forall>b. b \<notin> set (pre @ as) \<longrightarrow> h' b = h b)"
  using assms
proof (induction as arbitrary: h q pre prev cur i c)
  case Nil
  then show ?case by (subst poll_each.simps) (simp add: items_def)
next
  case (Cons a as)
  then obtain n where n: "cur = Some a" "h a = Some n" "segment h (nd_next n) as None" by auto
  show ?case
  proof (cases "P (nd_item n)")
    case False
    have "segment h (lq_head q) (pre @ [a]) (nd_next n)" using Cons.prems(1) n by (simp add: segment_append)
    then obtain h' q' where ih: "poll_each P destroy h q (Some a) (nd_next n) (i + 1) c =
        Some (i + 1 + length as, h', q', fold destroy (filter P (items h as)) c)"
      "segment h' (lq_head q') ((pre @ [a]) @ filter (\<lambda>a. \<not> P (nd_item (the (h a)))) as) None"
      "\<forall>b. b \<in> set as \<and> P (nd_item (the (h b))) \<longrightarrow> h' b = None"
      "\<forall>b. \<not> (b \<in> set as \<and> P (nd_item (the (h b)))) \<longrightarrow> map_option nd_item (h' b) = map_option nd_item (h b)"
      "\<forall>b. b \<notin> set ((pre @ [a]) @ as) \<longrightarrow> h' b = h b"
      using Cons.IH[of h q "pre @ [a]" "nd_next n" "Some a" "i + 1" c] n(3) Cons.prems(3) by auto
    have "poll_each P destroy h q prev cur i c = poll_each P destroy h q (Some a) (nd_next n) (i + 1) c"
      using n False by (subst poll_each.simps) simp
    then show ?thesis using ih n False by (intro exI[of _ h'] exI[of _ q']) (auto simp: items_def)
  next
    case True
    obtain h1 q1 where u: "unlink h q prev (nd_next n) = Some (h1, q1)"
      "segment h1 (lq_head q1) (pre @ as) None" "segment h1 (lq_head q1) pre (nd_next n)"
      "\<forall>b. map_option nd_item (h1 b) = map_option nd_item (h b)" "\<forall>b. b \<notin> set pre \<longrightarrow> h1 b = h b"
      using unlink_spec[OF Cons.prems(1)[unfolded n(1)] Cons.prems(4,3) n(2,3)] by (elim exE conjE)
    let ?h = "h1(a := None)"
    have a: "a \<notin> set pre" "a \<notin> set as" using Cons.prems(3) by auto
    have fr: "free_node h1 a = Some ?h" using u(5) a(1) n(2) by (simp add: free_node_def)
    have same: "nd_item (the (?h b)) = nd_item (the (h b))" if "b \<in> set as" for b
    proof -
      have "b \<notin> set pre" "b \<noteq> a" using that Cons.prems(3) by auto
      then show ?thesis using u(5) by simp
    qed
    have s1: "segment ?h (lq_head q1) pre (nd_next n)" using u(3) a(1) by (subst segment_frame) auto
    have "?h b = h b" if "b \<in> set as" for b using that u(5) a Cons.prems(3) by auto
    then have s2: "segment ?h (nd_next n) as None" using n(3) segment_frame[of as ?h h] by blast
    obtain h' q' where ih: "poll_each P destroy ?h q1 prev (nd_next n) (i + 1) (destroy (nd_item n) c) =
        Some (i + 1 + length as, h', q', fold destroy (filter P (items ?h as)) (destroy (nd_item n) c))"
      "segment h' (lq_head q') (pre @ filter (\<lambda>a. \<not> P (nd_item (the (?h a)))) as) None"
      "\<forall>b. b \<in> set as \<and> P (nd_item (the (?h b))) \<longrightarrow> h' b = None"
      "\<forall>b. \<not> (b \<in> set as \<and> P (nd_item (the (?h b)))) \<longrightarrow> map_option nd_item (h' b) = map_option nd_item (?h b)"
      "\<forall>b. b \<notin> set (pre @ as) \<longrightarrow> h' b = ?h b"
    proof -
      have "distinct (pre @ as)" using Cons.prems(3) by auto
      from Cons.IH[OF s1 s2 this Cons.prems(4), of "i + 1" "destroy (nd_item n) c"] show thesis
        using that by (elim exE conjE)
    qed
    have it: "items ?h as = items h as" using same by (simp add: items_def)
    have fl: "filter (\<lambda>a. \<not> P (nd_item (the (?h a)))) as = filter (\<lambda>a. \<not> P (nd_item (the (h a)))) as"
      using same by (intro filter_cong) auto
    have "poll_each P destroy h q prev cur i c =
        poll_each P destroy ?h q1 prev (nd_next n) (i + 1) (destroy (nd_item n) c)"
      using n True u(1) fr by (subst poll_each.simps) simp
    then have run: "poll_each P destroy h q prev cur i c =
        Some (i + length (a # as), h', q', fold destroy (filter P (items h (a # as))) c)"
      unfolding ih(1) it using True n(2) by (simp add: items_def)
    have "h' a = None" using ih(5) a by simp
    then show ?thesis
      using run ih(2-5) fl True n(2) same u(4,5) a by (intro exI[of _ h'] exI[of _ q']) auto
  qed
qed

lemma destroy_loop:
  assumes "segment h p as None"
  shows "destroy_nodes destroy h p c = Some (\<lambda>b. if b \<in> set as then None else h b, fold destroy (items h as) c)"
  using assms
proof (induction as arbitrary: h p c)
  case Nil
  then show ?case by (subst destroy_nodes.simps) (simp add: items_def)
next
  case (Cons a as)
  then obtain n where n: "p = Some a" "h a = Some n" "segment h (nd_next n) as None" by auto
  have a: "a \<notin> set as" using segment_distinct[OF Cons.prems] by simp
  have seg: "segment (h(a := None)) (nd_next n) as None" using n(3) a by (subst segment_frame) auto
  have it: "items (h(a := None)) as = items h as" using a by (simp add: items_def)
  have "destroy_nodes destroy h p c = destroy_nodes destroy (h(a := None)) (nd_next n) (destroy (nd_item n) c)"
    using n by (subst destroy_nodes.simps) (simp add: free_node_def)
  also have "\<dots> = Some (\<lambda>b. if b \<in> set as then None else (h(a := None)) b, fold destroy (items h as) (destroy (nd_item n) c))"
    unfolding Cons.IH[OF seg] it by simp
  finally show ?case using n by (simp add: items_def fun_eq_iff if_distrib)
qed

end
