(* ===== verification/Linked_Queue_Props.thy ===== *)
theory Linked_Queue_Props
  imports Linked_Queue
begin

text \<open>Properties of the linked queue.\<close>

text \<open>The linked queue is a queue: appending a detached node puts it behind all others and changes
  no item and no node outside the queue; polling returns the first node, detached again so that it
  can be appended or freed; on an empty queue polling returns the null pointer.  All of this
  without touching memory that is not allocated and without failing an assertion.
\<close>

theorem queue_is_fifo:
  assumes q: "chain h (lq_head q) as" and a: "h a = Some node" "nd_next node = None" "a \<notin> set as"
  shows "\<exists>h' q'. IHS_QueueAppend h q a = Some (h', q') \<and> chain h' (lq_head q') (as @ [a]) \<and>
     (\<forall>b. map_option nd_item (h' b) = map_option nd_item (h b)) \<and> (\<forall>b. b \<notin> set as \<longrightarrow> h' b = h b) \<and>
     (case as @ [a] of [] \<Rightarrow> False | b # bs \<Rightarrow>
        \<exists>h2 q2 n. IHS_QueuePoll h' q' = Some (Some b, h2, q2) \<and> chain h2 (lq_head q2) bs \<and>
          h' b = Some n \<and> h2 = h'(b \<mapsto> n\<lparr>nd_next := None\<rparr>))"
proof -
  obtain h' q' where 1: "IHS_QueueAppend h q a = Some (h', q')" "chain h' (lq_head q') (as @ [a])"
    "\<forall>b. map_option nd_item (h' b) = map_option nd_item (h b)" "\<forall>b. b \<notin> set as \<longrightarrow> h' b = h b"
    using append_spec[OF q a] by (elim exE conjE)
  obtain b bs where b: "as @ [a] = b # bs" by (cases as) auto
  then show ?thesis using 1 poll_spec[of h' q' b bs] by (simp del: chain.simps)
qed

definition demo_heap :: "u8 heap" where
  "demo_heap = [10 \<mapsto> \<lparr>nd_next = Some 30, nd_item = 1\<rparr>, 30 \<mapsto> \<lparr>nd_next = None, nd_item = 3\<rparr>,
     20 \<mapsto> \<lparr>nd_next = None, nd_item = 2\<rparr>]"

definition demo_queue :: linked_queue where
  "demo_queue = \<lparr>lq_itemSize = 1, lq_head = Some 10\<rparr>"

lemma demo_chain: "chain demo_heap (lq_head demo_queue) [10, 30]"
  by (simp add: demo_heap_def demo_queue_def)

theorem queue_is_fifo_witness:
  "\<exists>h' q'. IHS_QueueAppend demo_heap demo_queue 20 = Some (h', q') \<and> chain h' (lq_head q') [10, 30, 20]"
  using queue_is_fifo[OF demo_chain, of 20 "\<lparr>nd_next = None, nd_item = 2\<rparr>"] by (auto simp: demo_heap_def)

text \<open>Removing every item that satisfies a predicate filters the queue: exactly the satisfying items
  are given to the consumer, in order, and their nodes are freed, once each; the others stay linked
  in their order and no other node changes.  The result is the number of items visited.
\<close>

theorem queue_poll_each_filters:
  assumes "chain h (lq_head q) as"
  shows "\<exists>h' q'. IHS_QueuePollEach h q P destroy c =
      Some (length as, h', q', fold destroy (filter P (items h as)) c) \<and>
     chain h' (lq_head q') (filter (\<lambda>a. \<not> P (nd_item (the (h a)))) as) \<and>
     (\<forall>b. b \<in> set as \<and> P (nd_item (the (h b))) \<longrightarrow> h' b = None) \<and>
     (\<forall>b. \<not> (b \<in> set as \<and> P (nd_item (the (h b)))) \<longrightarrow> map_option nd_item (h' b) = map_option nd_item (h b)) \<and>
     (\<forall>b. b \<notin> set as \<longrightarrow> h' b = h b)"
  using poll_each_loop[of h q "[]" "lq_head q" as None P destroy 0 c] assms segment_distinct[of h "lq_head q" as]
  by (simp add: IHS_QueuePollEach_def chain_segment)

theorem queue_poll_each_filters_witness:
  "\<exists>h' q'. IHS_QueuePollEach demo_heap demo_queue (\<lambda>x. x = 1) (\<lambda>x n. n + 1) (0 :: nat) = Some (2, h', q', 1) \<and>
     chain h' (lq_head q') [30] \<and> h' 10 = None"
  using queue_poll_each_filters[OF demo_chain, of "\<lambda>x. x = 1" "\<lambda>x n. n + 1" "0 :: nat"]
  by (auto simp: demo_heap_def items_def)

text \<open>Destroying the queue gives every item to the destructor once, in order, and frees every node
  of the queue, and nothing else.
\<close>

theorem queue_destroy_frees_all:
  assumes "chain h (lq_head q) as"
  shows "IHS_QueueDestroy h q destroy c = Some (\<lambda>b. if b \<in> set as then None else h b, fold destroy (items h as) c)"
  using destroy_loop[of h "lq_head q" as] assms by (simp add: IHS_QueueDestroy_def chain_segment)

theorem queue_destroy_frees_all_witness:
  "\<exists>h'. IHS_QueueDestroy demo_heap demo_queue (\<lambda>x xs. xs @ [x]) [] = Some (h', [1, 3]) \<and> dom h' = {20}"
  using queue_destroy_frees_all[OF demo_chain, of "\<lambda>x xs. xs @ [x]" "[]"]
  by (auto simp: demo_heap_def items_def dom_def split: if_splits)

text \<open>Polling by a predicate removes the first matching item from the queue and keeps the rest in
  order.  Unlike a plain poll it leaves the \<^verbatim>\<open>next\<close> pointer of the removed node as it was, so
  appending that node to a queue again fails the assertion of \<^verbatim>\<open>IHS_QueueAppend\<close>, unless it was the
  last one.
\<close>

theorem queue_poll_by_keeps_next:
  assumes q: "chain h (lq_head q) as" and f: "List.find (\<lambda>a. P (nd_item (the (h a)))) as = Some a"
  shows "\<exists>h' q'. IHS_QueuePollBy h q P = Some (Some a, h', q') \<and> chain h' (lq_head q') (remove1 a as) \<and>
     h' a = h a \<and> (a \<noteq> last as \<longrightarrow> IHS_QueueAppend h' q2 a = None)"
proof -
  let ?Q = "\<lambda>a. P (nd_item (the (h a)))"
  define pre rest where "pre = takeWhile (\<lambda>a. \<not> ?Q a) as" and "rest = tl (dropWhile (\<lambda>a. \<not> ?Q a) as)"
  have as: "as = pre @ a # rest" using find_split(1)[OF f] by (simp add: pre_def rest_def)
  have seg: "segment h (lq_head q) as None" using q by (simp add: chain_segment)
  then have d: "distinct (pre @ a # rest)" using segment_distinct as by blast
  obtain n where n: "segment h (lq_head q) pre (Some a)" "h a = Some n" "segment h (nd_next n) rest None"
    using seg as by (auto simp: segment_append)
  obtain h' q' where u: "unlink h q (if pre = [] then None else Some (last pre)) (nd_next n) = Some (h', q')"
    "segment h' (lq_head q') (pre @ rest) None" "\<forall>b. b \<notin> set pre \<longrightarrow> h' b = h b"
    using unlink_spec[OF n(1) refl d n(2,3)] by blast
  have "IHS_QueuePollBy h q P = Some (Some a, h', q')"
    using poll_by_loop[of h q "[]" "lq_head q" as None P] seg segment_distinct[OF seg] f u(1)[unfolded pre_def] n(2)
    by (simp add: IHS_QueuePollBy_def Let_def)
  moreover have "remove1 a as = pre @ rest" using d as by (simp add: remove1_append)
  moreover have ha: "h' a = h a" using u(3) d by simp
  moreover have "IHS_QueueAppend h' q2 a = None" if l: "a \<noteq> last as"
  proof -
    have "rest \<noteq> []" using l as by auto
    then have "nd_next n \<noteq> None" using n(3) by (cases rest) auto
    then show ?thesis using ha n(2) by (simp add: IHS_QueueAppend_def)
  qed
  ultimately show ?thesis using u(2) by (auto simp: chain_segment)
qed

theorem queue_poll_by_keeps_next_witness:
  "\<exists>h' q'. IHS_QueuePollBy demo_heap demo_queue (\<lambda>x. x = 1) = Some (Some 10, h', q') \<and>
     IHS_QueueAppend h' q' 10 = None"
proof -
  have f: "List.find (\<lambda>a. nd_item (the (demo_heap a)) = 1) [10, 30] = Some 10" by (simp add: demo_heap_def)
  obtain h' q' where "IHS_QueuePollBy demo_heap demo_queue (\<lambda>x. x = 1) = Some (Some 10, h', q')"
    using queue_poll_by_keeps_next[OF demo_chain f, of demo_queue] by blast
  then show ?thesis using queue_poll_by_keeps_next[OF demo_chain f, of q'] by auto
qed

end
