(* ===== verification/NAL.thy ===== *)
theory NAL
  imports Packet
begin

text \<open>
  Assembly of H.264/HEVC byte streams (\<^verbatim>\<open>video/frame_nal.c\<close>, \<^verbatim>\<open>frame_h264.c\<close>, \<^verbatim>\<open>frame_hevc.c\<close>): a
  start sequence and emulation prevention, written through a pointer into the reserved tail of a
  buffer.  \<open>dst\<close> is an offset into the block of the buffer; every access is checked against it.
\<close>

section \<open>Model\<close>

definition VideoFrameFlagNeedStartSequence :: u8 where "VideoFrameFlagNeedStartSequence = 1"
definition VideoFrameFlagNeedEscape :: u8 where "VideoFrameFlagNeedEscape = 2"

fun nal_loop :: "ihs_buffer \<Rightarrow> nat \<Rightarrow> nat \<Rightarrow> bytes \<Rightarrow> (ihs_buffer \<times> nat) option" where
  "nal_loop b dst history [] = Some (b, dst)"
| "nal_loop b dst history (v # vs) = do {
     esc \<leftarrow> (if v \<le> 3 \<and> history \<ge> 2
            then do { z \<leftarrow> buf_load b (dst - 2) 2; Some (z = [0, 0]) } else Some False);
     (b, dst, history) \<leftarrow> (if esc
            then do { b \<leftarrow> buf_store b dst [3]; Some (b, dst + 1, history + 1) }
            else Some (b, dst, history));
     b \<leftarrow> buf_store b dst [v];
     nal_loop b (dst + 1) (history + 1) vs
   }"

text \<open>A continuation without enough history to decide about an escape is refused.\<close>

definition nal_unknown_history :: "ihs_buffer \<Rightarrow> bytes \<Rightarrow> bool \<Rightarrow> bool option" where
  "nal_unknown_history b data start =
     (if \<not> start \<and> data \<noteq> [] \<and> data ! 0 \<le> 3
      then (if buf_size b = 0 then Some True
            else if buf_size b = 1
            then do { p \<leftarrow> IHS_BufferPointer b; x \<leftarrow> buf_load b p 1; Some (x = [0]) } else Some False)
      else Some False)"

definition nal_write :: "allocator \<Rightarrow> ihs_buffer \<Rightarrow> bytes \<Rightarrow> bool \<Rightarrow> nat \<Rightarrow> ihs_buffer option" where
  "nal_write mem b data start reserve = do {
     (b, base) \<leftarrow> IHS_BufferPointerForAppend mem b reserve;
     (b, dst, history, data) \<leftarrow> (if start
        then do {
          b \<leftarrow> buf_store b base [0, 0, 0, 1];
          let direct = (if length data < 3 then length data else 3);
          b \<leftarrow> buf_store b (base + 4) (take direct data);
          Some (b, base + 4 + direct, buf_size b + 4 + direct, drop direct data)
        }
        else Some (b, base, buf_size b, data));
     (b, dst) \<leftarrow> nal_loop b dst history data;
     Some (b\<lparr>buf_size := sz_add (buf_size b) (dst - base)\<rparr>)
   }"

definition IHS_SessionVideoFrameAppendNAL ::
    "allocator \<Rightarrow> ihs_buffer \<Rightarrow> bytes \<Rightarrow> u8 \<Rightarrow> (bool \<times> ihs_buffer) option" where
  "IHS_SessionVideoFrameAppendNAL mem b data flags =
     (if flags AND VideoFrameFlagNeedEscape = 0
      then (if data \<noteq> [] then do { b \<leftarrow> IHS_BufferAppendMem mem b data; Some (True, b) } else Some (True, b))
      else do {
        let start = (flags AND VideoFrameFlagNeedStartSequence \<noteq> 0);
        let len = length data;
        if start \<and> len = 0 then Some (False, b)
        else do {
          unknown \<leftarrow> nal_unknown_history b data start;
          if unknown then Some (False, b)
          else if len > (SIZE_MAX - 5) div 3 * 2 then Some (False, b)
          else do {
            let reserve = len + len div 2 + 5;
            if buf_maxCapacity b \<noteq> 0 \<and> (buf_size b > buf_maxCapacity b \<or> reserve > buf_maxCapacity b - buf_size b)
            then Some (False, b)
            else do { b \<leftarrow> nal_write mem b data start reserve; Some (True, b) }
          }
        }
      })"

definition IHS_SessionVideoFrameAppendH264 ::
    "allocator \<Rightarrow> ihs_buffer \<Rightarrow> bytes \<Rightarrow> u8 \<Rightarrow> (bool \<times> ihs_buffer) option" where
  "IHS_SessionVideoFrameAppendH264 mem b data flags = IHS_SessionVideoFrameAppendNAL mem b data flags"

definition IHS_SessionVideoFrameAppendHEVC ::
    "allocator \<Rightarrow> ihs_buffer \<Rightarrow> bytes \<Rightarrow> u8 \<Rightarrow> (bool \<times> ihs_buffer) option" where
  "IHS_SessionVideoFrameAppendHEVC mem b data flags = IHS_SessionVideoFrameAppendNAL mem b data flags"

section \<open>Emulation prevention on byte strings\<close>

definition zeros2 :: "bytes \<Rightarrow> bool" where
  "zeros2 out \<longleftrightarrow> length out \<ge> 2 \<and> drop (length out - 2) out = [0, 0]"

fun escape :: "bytes \<Rightarrow> bytes \<Rightarrow> bytes" where
  "escape out [] = out"
| "escape out (v # vs) = escape (if v \<le> 3 \<and> zeros2 out then out @ [3, v] else out @ [v]) vs"

text \<open>The decoder of the standard: a 3 behind two zeros is dropped.  The state counts the zeros.\<close>

definition dec_step :: "nat \<times> bytes \<Rightarrow> u8 \<Rightarrow> nat \<times> bytes" where
  "dec_step s b = (if fst s \<ge> 2 \<and> b = 3 then (0, snd s) else (if b = 0 then fst s + 1 else 0, snd s @ [b]))"

definition unescape :: "bytes \<Rightarrow> bytes" where
  "unescape out = snd (foldl dec_step (0, []) out)"

definition trailing :: "bytes \<Rightarrow> nat" where
  "trailing out = length (takeWhile (\<lambda>b. b = 0) (rev out))"

lemma trailing_simps [simp]:
  "trailing [] = 0" "trailing (out @ [b]) = (if b = 0 then trailing out + 1 else 0)"
  by (simp_all add: trailing_def)

lemma zeros2_trailing: "zeros2 out \<longleftrightarrow> trailing out \<ge> 2"
proof (cases out rule: rev_cases)
  case (snoc xs y)
  then show ?thesis by (cases xs rule: rev_cases) (auto simp: zeros2_def trailing_def split: if_splits)
qed (simp add: zeros2_def)

lemma dec_count: "fst (foldl dec_step (0, []) out) = trailing out"
  by (induction out rule: rev_induct) (auto simp: dec_step_def)

lemma unescape_snoc:
  "unescape (out @ [b]) = (if trailing out \<ge> 2 \<and> b = 3 then unescape out else unescape out @ [b])"
  by (simp add: unescape_def dec_step_def dec_count)

lemma unescape_escape: "unescape (escape out vs) = unescape out @ vs"
proof (induction vs arbitrary: out)
  case (Cons v vs)
  have "unescape (out @ [3, v]) = unescape out @ [v]" if "trailing out \<ge> 2"
    using unescape_snoc[of "out @ [3]" v] unescape_snoc[of out 3] that by simp
  moreover have "unescape (out @ [v]) = unescape out @ [v]" if "\<not> (v \<le> 3 \<and> trailing out \<ge> 2)"
    using that by (auto simp: unescape_snoc)
  ultimately show ?case using Cons by (simp add: zeros2_trailing)
qed simp

text \<open>No start code inside: two zeros are never followed by a byte below 3.\<close>

definition no_start_code :: "bytes \<Rightarrow> bool" where
  "no_start_code out \<longleftrightarrow> (\<forall>i. i + 2 < length out \<longrightarrow> out ! i = 0 \<longrightarrow> out ! (i + 1) = 0 \<longrightarrow> out ! (i + 2) \<ge> 3)"

lemma zeros2_nth: "zeros2 out \<longleftrightarrow> length out \<ge> 2 \<and> out ! (length out - 2) = 0 \<and> out ! (length out - 1) = 0"
proof (cases out rule: rev_cases)
  case (snoc xs y)
  then show ?thesis by (cases xs rule: rev_cases) (auto simp: zeros2_def nth_append)
qed (simp add: zeros2_def)

lemma no_start_code_snoc:
  "no_start_code (out @ [b]) \<longleftrightarrow> no_start_code out \<and> (zeros2 out \<longrightarrow> b \<ge> 3)"
proof -
  have "no_start_code (out @ [b]) \<longleftrightarrow> no_start_code out \<and>
      (length out \<ge> 2 \<longrightarrow> out ! (length out - 2) = 0 \<longrightarrow> out ! (length out - 1) = 0 \<longrightarrow> b \<ge> 3)"
  proof (cases "length out \<ge> 2")
    case True
    then obtain n where n: "length out = n + 2" by (metis add.commute le_Suc_ex)
    show ?thesis unfolding no_start_code_def using n
      by (auto simp: nth_append less_Suc_eq all_conj_distrib)
  qed (auto simp: no_start_code_def nth_append)
  then show ?thesis by (auto simp: zeros2_nth)
qed

lemma escape_no_start_code: "no_start_code out \<Longrightarrow> no_start_code (escape out vs)"
proof (induction vs arbitrary: out)
  case (Cons v vs)
  have "no_start_code (out @ [3, v])" if "zeros2 out"
    using no_start_code_snoc[of "out @ [3]" v] no_start_code_snoc[of out 3] Cons.prems
    by (simp add: zeros2_trailing)
  moreover have "no_start_code (out @ [v])" if "\<not> (v \<le> 3 \<and> zeros2 out)"
    using no_start_code_snoc[of out v] Cons.prems that by auto
  ultimately show ?case using Cons.IH by simp
qed simp

text \<open>At most one escape for every two bytes, and one more for the zeros that were there before.\<close>

lemma escape_length_aux:
  "2 * length (escape out vs) + min (trailing (escape out vs)) 2 \<le>
     2 * length out + 3 * length vs + min (trailing out) 2"
proof (induction vs arbitrary: out)
  case (Cons v vs)
  have "trailing (out @ [3, v]) \<le> 1" using trailing_simps(2)[of "out @ [3]" v] by simp
  then have 1: "2 * length (escape (out @ [3, v]) vs) + min (trailing (escape (out @ [3, v]) vs)) 2 \<le>
      2 * length out + 4 + 3 * length vs + 1" using Cons[of "out @ [3, v]"] by simp
  have "min (trailing (out @ [v])) 2 \<le> min (trailing out) 2 + 1" by auto
  then have 2: "2 * length (escape (out @ [v]) vs) + min (trailing (escape (out @ [v]) vs)) 2 \<le>
      2 * length out + 2 + 3 * length vs + min (trailing out) 2 + 1" using Cons[of "out @ [v]"] by simp
  show ?case
  proof (cases "v \<le> 3 \<and> trailing out \<ge> 2")
    case True
    then show ?thesis using 1 by (simp add: zeros2_trailing)
  next
    case False
    then show ?thesis using 2 by (auto simp: zeros2_trailing)
  qed
qed simp

lemma escape_length: "length (escape out vs) \<le> length out + length vs + length vs div 2 + 1"
  using escape_length_aux[of out vs] by auto

lemma escape_length_ge: "length out \<le> length (escape out vs)"
proof (induction vs arbitrary: out)
  case (Cons v vs)
  then show ?case using Cons[of "out @ [3, v]"] Cons[of "out @ [v]"] by auto
qed simp

text \<open>Escaping looks only at the last two bytes, so what is in front of them does not matter.\<close>

lemma trailing_append_one: "b \<noteq> 0 \<Longrightarrow> trailing (pre @ b # out) = trailing out"
  by (induction out rule: rev_induct) (auto simp flip: append_assoc append_Cons)

lemma escape_prefix: "b \<noteq> 0 \<Longrightarrow> escape (pre @ b # out) vs = pre @ b # escape out vs"
proof (induction vs arbitrary: out)
  case (Cons v vs)
  then show ?case using Cons.IH[of "out @ [3, v]"] Cons.IH[of "out @ [v]"]
    by (simp add: zeros2_trailing trailing_append_one)
qed simp

end
