(* ===== verification/NAL_Props.thy ===== *)
theory NAL_Props
  imports NAL
begin

text \<open>
  The pointer code of the NAL assembly writes exactly the escaped bytes, inside the reserved room,
  and a decoder recovers the input.
\<close>

section \<open>Writing behind the payload\<close>

text \<open>\<open>holds b out\<close>: the block of \<open>b\<close> has \<open>out\<close> at the position of the payload.\<close>

definition holds :: "ihs_buffer \<Rightarrow> bytes \<Rightarrow> bool" where
  "holds b out \<longleftrightarrow> (\<exists>xs. buf_data b = Some xs \<and> buf_offset b + length out \<le> length xs \<and>
     take (length out) (drop (buf_offset b) xs) = out)"

text \<open>\<open>same_block b b'\<close>: only payload bytes of the block may differ.\<close>

definition same_block :: "ihs_buffer \<Rightarrow> ihs_buffer \<Rightarrow> bool" where
  "same_block b b' \<longleftrightarrow> b' = b\<lparr>buf_data := buf_data b'\<rparr> \<and> buf_prefix b' = buf_prefix b \<and>
     map_option length (buf_data b') = map_option length (buf_data b)"

lemma buf_prefix_size [simp]: "buf_prefix (b\<lparr>buf_size := n\<rparr>) = buf_prefix b"
  by (simp add: buf_prefix_def split: option.splits)

lemma same_block_refl [simp]: "same_block b b"
  by (simp add: same_block_def)

lemma same_block_fields:
  assumes "same_block b b'"
  shows "buf_offset b' = buf_offset b" "buf_size b' = buf_size b" "buf_suffix b' = buf_suffix b"
    "buf_capacity b' = buf_capacity b"
proof -
  have e: "b' = b\<lparr>buf_data := buf_data b'\<rparr>" using assms by (simp add: same_block_def)
  show "buf_offset b' = buf_offset b" "buf_size b' = buf_size b" "buf_suffix b' = buf_suffix b"
    "buf_capacity b' = buf_capacity b" by (subst e, simp)+
qed

lemma same_block_trans:
  assumes "same_block b b1" "same_block b1 b2"
  shows "same_block b b2"
proof -
  have e: "b1 = b\<lparr>buf_data := buf_data b1\<rparr>" "b2 = b1\<lparr>buf_data := buf_data b2\<rparr>"
    using assms by (simp_all add: same_block_def)
  have "b2 = b\<lparr>buf_data := buf_data b2\<rparr>" by (subst e(2), subst e(1)) simp
  then show ?thesis using assms by (simp add: same_block_def)
qed

lemma store_next:
  assumes h: "holds b out" and room: "buf_offset b + length out + length src \<le> length (the (buf_data b))"
  shows "\<exists>b'. buf_store b (buf_offset b + length out) src = Some b' \<and> same_block b b' \<and> holds b' (out @ src)"
proof -
  obtain xs where xs: "buf_data b = Some xs" "buf_offset b + length out \<le> length xs"
    "take (length out) (drop (buf_offset b) xs) = out" using h by (auto simp: holds_def)
  let ?o = "buf_offset b"
  let ?ys = "take (?o + length out) xs @ src @ drop (?o + length out + length src) xs"
  have st: "buf_store b (?o + length out) src = Some (b\<lparr>buf_data := Some ?ys\<rparr>)"
    using xs room by (simp add: buf_store_def mem_write_in)
  have "drop ?o (take (?o + length out) xs) = out" using xs(3) by (simp add: drop_take)
  then have "take (length (out @ src)) (drop ?o ?ys) = out @ src" using xs(2) by simp
  moreover have "take ?o ?ys = take ?o xs" using xs(2) by simp
  moreover have "length ?ys = length xs" using room xs by simp
  ultimately show ?thesis
    using st xs room by (intro exI[of _ "b\<lparr>buf_data := Some ?ys\<rparr>"]) (auto simp: same_block_def holds_def buf_prefix_def)
qed

lemma load_last_two:
  assumes "holds b out" "length out \<ge> 2"
  shows "buf_load b (buf_offset b + length out - 2) 2 = Some (drop (length out - 2) out)"
proof -
  obtain xs where xs: "buf_data b = Some xs" "buf_offset b + length out \<le> length xs"
    "take (length out) (drop (buf_offset b) xs) = out" using assms(1) by (auto simp: holds_def)
  obtain n where n: "length out = n + 2" using assms(2) by (metis add.commute le_Suc_ex)
  have "take 2 (drop (buf_offset b + n) xs) = drop n (take (n + 2) (drop (buf_offset b) xs))"
    by (simp add: drop_take add.commute)
  also have "take (n + 2) (drop (buf_offset b) xs) = out" using xs(3) n by simp
  finally show ?thesis using xs n by (simp add: buf_load_def mem_read_in)
qed

lemma nal_loop_spec:
  assumes "holds b out" "buf_offset b + length (escape out vs) \<le> length (the (buf_data b))"
  shows "\<exists>b'. nal_loop b (buf_offset b + length out) (length out) vs = Some (b', buf_offset b + length (escape out vs)) \<and>
    same_block b b' \<and> holds b' (escape out vs)"
  using assms
proof (induction vs arbitrary: b out)
  case Nil
  then show ?case by simp
next
  case (Cons v vs)
  let ?esc = "v \<le> 3 \<and> zeros2 out"
  let ?new = "if ?esc then [3, v] else [v]"
  have esc: "(if v \<le> 3 \<and> length out \<ge> 2 then do { z \<leftarrow> buf_load b (buf_offset b + length out - 2) 2; Some (z = [0, 0]) }
      else Some False) = Some ?esc"
    using load_last_two[OF Cons.prems(1)] by (auto simp: zeros2_def)
  have len: "buf_offset b + length (out @ ?new) \<le> length (the (buf_data b))"
    using Cons.prems(2) escape_length_ge[of "out @ ?new" vs] by (auto split: if_splits)
  obtain b1 where b1: "(if ?esc then do { b' \<leftarrow> buf_store b (buf_offset b + length out) [3];
        Some (b', buf_offset b + length out + 1, length out + 1) } else Some (b, buf_offset b + length out, length out)) =
      Some (b1, buf_offset b + length (out @ (if ?esc then [3] else [])), length (out @ (if ?esc then [3] else [])))"
    "same_block b b1" "holds b1 (out @ (if ?esc then [3] else []))"
    using store_next[OF Cons.prems(1), of "[3]"] len Cons.prems(1) by (cases ?esc) auto
  have cap: "length (the (buf_data b1)) = length (the (buf_data b))"
    using b1(2) Cons.prems(1) by (auto simp: same_block_def holds_def)
  obtain b2 where b2: "buf_store b1 (buf_offset b1 + length (out @ (if ?esc then [3] else []))) [v] = Some b2"
    "same_block b1 b2" "holds b2 (out @ ?new)"
    using store_next[OF b1(3), of "[v]"] len cap same_block_fields(1)[OF b1(2)] by (cases ?esc) auto
  have off: "buf_offset b2 = buf_offset b" "buf_offset b1 = buf_offset b"
    using same_block_fields(1)[OF b1(2)] same_block_fields(1)[OF b2(2)] by simp_all
  have cap2: "length (the (buf_data b2)) = length (the (buf_data b))"
    using b2(2) b1(3) cap by (auto simp: same_block_def holds_def)
  have "escape out (v # vs) = escape (out @ ?new) vs" by simp
  then obtain b3 where b3: "nal_loop b2 (buf_offset b2 + length (out @ ?new)) (length (out @ ?new)) vs =
      Some (b3, buf_offset b2 + length (escape (out @ ?new) vs))" "same_block b2 b3" "holds b3 (escape (out @ ?new) vs)"
    using Cons.IH[OF b2(3)] Cons.prems(2) off cap2 by auto
  have "nal_loop b (buf_offset b + length out) (length out) (v # vs) =
      nal_loop b2 (buf_offset b + length (out @ (if ?esc then [3] else [])) + 1) (length (out @ (if ?esc then [3] else [])) + 1) vs"
    unfolding nal_loop.simps esc Option.bind.simps b1(1) prod.case using b2(1) off(2) by simp
  then have "nal_loop b (buf_offset b + length out) (length out) (v # vs) =
      Some (b3, buf_offset b + length (escape out (v # vs)))"
    using b3(1) off(1) by (cases ?esc) (auto simp del: nal_loop.simps)
  moreover have "same_block b b3" using same_block_trans b1(2) b2(2) b3(2) by blast
  ultimately show ?case using b3(3) by auto
qed

section \<open>The whole operation\<close>

text \<open>The bytes that are added for a start of a NAL unit.\<close>

definition nal_start_bytes :: "bytes \<Rightarrow> bytes" where
  "nal_start_bytes data = [0, 0, 0, 1] @ escape (take 3 data) (drop 3 data)"

lemma PointerForAppend_spec:
  assumes wf: "buf_wf b" and live: "live_alloc mem" and n: "0 < n"
    and can: "can_hold b (buf_offset b + (buf_size b + n) + buf_suffix b)"
  shows "\<exists>c. IHS_BufferPointerForAppend mem b n = Some (c, buf_offset b + buf_size b) \<and> buf_wf c \<and>
     buf_offset c = buf_offset b \<and> buf_size c = buf_size b \<and> buf_suffix c = buf_suffix b \<and>
     buf_offset b + buf_size b + n + buf_suffix b \<le> buf_capacity c \<and> buf_content c = buf_content b \<and>
     buf_prefix c = buf_prefix b"
proof -
  have lt: "buf_size b + n < 2 ^ 64" using can_hold_bound[OF wf can] by simp
  obtain c where c: "IHS_BufferEnsureMaxSize mem b (buf_size b + n) = Some c" "buf_wf c"
    "buf_offset b + (buf_size b + n) + buf_suffix b \<le> buf_capacity c"
    "buf_content c = buf_content b" "buf_prefix c = buf_prefix b"
    "c = b\<lparr>buf_data := buf_data c, buf_capacity := buf_capacity c\<rparr>"
    using EnsureMaxSize_grow[OF wf live can] by metis
  have f: "buf_offset c = buf_offset b" "buf_size c = buf_size b" "buf_suffix c = buf_suffix b" by (subst c(6), simp)+
  have "IHS_BufferPointerAt c (buf_size b) = Some (buf_offset b + buf_size b)"
    using PointerAt_in[OF c(2), of "buf_size b"] c(3) n f by simp
  then show ?thesis
    using c lt f by (auto simp: IHS_BufferPointerForAppend_def sz_add_exact Let_def add.assoc)
qed

text \<open>Writing \<open>added\<close> behind the payload with the loop, starting from bytes that are there already.\<close>

lemma nal_finish:
  assumes wf: "buf_wf c" and h: "holds c (out)" and out: "length out \<ge> buf_size c"
    and room: "buf_offset c + length (escape out vs) + buf_suffix c \<le> buf_capacity c"
  shows "\<exists>d. nal_loop c (buf_offset c + length out) (length out) vs = Some (d, buf_offset c + length (escape out vs)) \<and>
     buf_wf (d\<lparr>buf_size := length (escape out vs)\<rparr>) \<and> buf_size d = buf_size c \<and>
     buf_content (d\<lparr>buf_size := length (escape out vs)\<rparr>) = escape out vs \<and> buf_prefix d = buf_prefix c"
proof -
  obtain xs where xs: "buf_data c = Some xs" using h by (auto simp: holds_def)
  then have lx: "length xs = buf_capacity c" using wf by (simp add: buf_wf_def)
  obtain d where d: "nal_loop c (buf_offset c + length out) (length out) vs = Some (d, buf_offset c + length (escape out vs))"
    "same_block c d" "holds d (escape out vs)"
    using nal_loop_spec[OF h, of vs] room xs lx by auto
  note f = same_block_fields[OF d(2)]
  obtain ys where ys: "buf_data d = Some ys" "take (length (escape out vs)) (drop (buf_offset d) ys) = escape out vs"
    using d(3) by (auto simp: holds_def)
  have eq: "d = c\<lparr>buf_data := Some ys\<rparr>" and pre: "buf_prefix d = buf_prefix c" and len: "length ys = length xs"
    using d(2) ys(1) xs by (auto simp: same_block_def)
  have "buf_wf (d\<lparr>buf_size := length (escape out vs)\<rparr>)"
    unfolding eq using wf room len lx by (simp add: buf_wf_def)
  moreover have "buf_content (d\<lparr>buf_size := length (escape out vs)\<rparr>) = escape out vs"
    using ys by (simp add: buf_content_def)
  ultimately show ?thesis using d(1) f(2) pre by auto
qed

lemma holds_content: "buf_wf b \<Longrightarrow> 0 < buf_capacity b \<Longrightarrow> holds b (buf_content b)"
  by (auto simp: holds_def buf_wf_def buf_content_def min_def split: option.splits)

lemma nal_write_start:
  assumes wf: "buf_wf b" and live: "live_alloc mem"
    and can: "can_hold b (buf_offset b + (buf_size b + (length data + length data div 2 + 5)) + buf_suffix b)"
  shows "\<exists>b'. nal_write mem b data True (length data + length data div 2 + 5) = Some b' \<and> buf_wf b' \<and>
     buf_content b' = buf_content b @ [0, 0, 0, 1] @ escape (take 3 data) (drop 3 data) \<and> buf_prefix b' = buf_prefix b"
proof -
  let ?n = "length data + length data div 2 + 5" and ?dir = "take 3 data" and ?rest = "drop 3 data"
  let ?o = "buf_offset b" and ?s = "buf_size b"
  have "0 < ?n" by simp
  from PointerForAppend_spec[OF wf live this can] obtain c where c:
    "IHS_BufferPointerForAppend mem b ?n = Some (c, ?o + ?s)" "buf_wf c" "buf_offset c = ?o" "buf_size c = ?s"
    "buf_suffix c = buf_suffix b" "?o + ?s + ?n + buf_suffix b \<le> buf_capacity c" "buf_content c = buf_content b"
    "buf_prefix c = buf_prefix b" by blast
  have cap: "0 < buf_capacity c" using c(6) by simp
  obtain xs where xs: "buf_data c = Some xs" "length xs = buf_capacity c" using buf_wf_block[OF c(2) cap] .
  have lc: "length (buf_content b) = ?s" using wf by (rule length_buf_content)
  have h0: "holds c (buf_content b)" using holds_content[OF c(2) cap] c(7) by simp
  obtain c1 where c1: "buf_store c (?o + ?s) [0, 0, 0, 1] = Some c1" "same_block c c1" "holds c1 (buf_content b @ [0, 0, 0, 1])"
    using store_next[OF h0, of "[0, 0, 0, 1]"] c(3,6) xs lc by auto
  note f1 = same_block_fields[OF c1(2)]
  have x1: "length (the (buf_data c1)) = buf_capacity c" using c1(2,3) xs by (auto simp: same_block_def holds_def)
  obtain c2 where c2: "buf_store c1 (?o + ?s + 4) ?dir = Some c2" "same_block c1 c2"
    "holds c2 ((buf_content b @ [0, 0, 0, 1]) @ ?dir)"
  proof -
    have p: "buf_offset c1 + length (buf_content b @ [0, 0, 0, 1]) = ?o + ?s + 4" using lc f1(1) c(3) by simp
    have "?o + ?s + 4 + length ?dir \<le> length (the (buf_data c1))" using c(6) x1 by simp
    then show thesis using store_next[OF c1(3), of ?dir] that unfolding p by blast
  qed
  have s02: "same_block c c2" using same_block_trans[OF c1(2) c2(2)] .
  note f2 = same_block_fields[OF s02]
  have wf2: "buf_wf c2"
  proof -
    obtain ys where "buf_data c2 = Some ys" "length ys = length xs" "c2 = c\<lparr>buf_data := Some ys\<rparr>"
      using s02 xs by (auto simp: same_block_def)
    then show ?thesis using c(2) xs(2) by (simp add: buf_wf_def)
  qed
  let ?out = "buf_content b @ [0, 0, 0, 1] @ ?dir"
  have full: "escape ?out ?rest = buf_content b @ [0, 0, 0, 1] @ escape ?dir ?rest"
    using escape_prefix[of 1 "buf_content b @ [0, 0, 0]" ?dir ?rest] by simp
  have len: "length (escape ?dir ?rest) + 4 \<le> ?n"
    using escape_length[of ?dir ?rest] by (cases "length data < 3") auto
  have room: "buf_offset c2 + length (escape ?out ?rest) + buf_suffix c2 \<le> buf_capacity c2"
    unfolding full using f2 c(3,5,6) lc len by simp
  have h2: "holds c2 ?out" using c2(3) by simp
  have size: "buf_size c2 \<le> length ?out" using f2 c(4) lc by simp
  obtain d where d: "nal_loop c2 (buf_offset c2 + length ?out) (length ?out) ?rest = Some (d, buf_offset c2 + length (escape ?out ?rest))"
    "buf_wf (d\<lparr>buf_size := length (escape ?out ?rest)\<rparr>)" "buf_size d = buf_size c2"
    "buf_content (d\<lparr>buf_size := length (escape ?out ?rest)\<rparr>) = escape ?out ?rest" "buf_prefix d = buf_prefix c2"
    using nal_finish[OF wf2 h2 size room] by blast
  have dir: "(if length data < 3 then length data else 3) = length ?dir"
    "take (length ?dir) data = ?dir" "drop (length ?dir) data = ?rest" by (auto simp: min_def)
  have pos: "buf_offset c2 + length ?out = ?o + ?s + 4 + length ?dir" "length ?out = buf_size c2 + 4 + length ?dir"
    using f2 c(3,4) lc by simp_all
  have sz: "sz_add (buf_size d) (buf_offset c2 + length (escape ?out ?rest) - (?o + ?s)) = length (escape ?out ?rest)"
  proof -
    have "buf_offset c2 + length (escape ?out ?rest) - (?o + ?s) + buf_size d = length (escape ?out ?rest)"
      unfolding full using f2 c(3,4) d(3) lc by simp
    moreover have "length (escape ?out ?rest) < 2 ^ 64" using room buf_wf_bounds(3)[OF wf2] by linarith
    ultimately show ?thesis using sz_add_exact by (simp add: add.commute)
  qed
  have loop: "nal_loop c2 (?o + ?s + 4 + length ?dir) (buf_size c2 + 4 + length ?dir) ?rest =
      Some (d, buf_offset c2 + length (escape ?out ?rest))" using d(1) by (simp only: pos[symmetric])
  have "nal_write mem b data True ?n = Some (d\<lparr>buf_size := length (escape ?out ?rest)\<rparr>)"
    unfolding nal_write_def c(1) Option.bind.simps prod.case if_True c1(1) Let_def dir c2(1) loop sz ..
  moreover have "buf_prefix (d\<lparr>buf_size := length (escape ?out ?rest)\<rparr>) = buf_prefix b"
    using d(5) s02 c(8) by (simp add: same_block_def)
  ultimately show ?thesis using d(2,4) full by auto
qed

lemma nal_write_continue:
  assumes wf: "buf_wf b" and live: "live_alloc mem"
    and can: "can_hold b (buf_offset b + (buf_size b + (length data + length data div 2 + 5)) + buf_suffix b)"
  shows "\<exists>b'. nal_write mem b data False (length data + length data div 2 + 5) = Some b' \<and> buf_wf b' \<and>
     buf_content b' = escape (buf_content b) data \<and> buf_prefix b' = buf_prefix b"
proof -
  let ?n = "length data + length data div 2 + 5" and ?o = "buf_offset b" and ?s = "buf_size b" and ?out = "buf_content b"
  have "0 < ?n" by simp
  from PointerForAppend_spec[OF wf live this can] obtain c where c:
    "IHS_BufferPointerForAppend mem b ?n = Some (c, ?o + ?s)" "buf_wf c" "buf_offset c = ?o" "buf_size c = ?s"
    "buf_suffix c = buf_suffix b" "?o + ?s + ?n + buf_suffix b \<le> buf_capacity c" "buf_content c = ?out"
    "buf_prefix c = buf_prefix b" by blast
  have cap: "0 < buf_capacity c" using c(6) by simp
  have lc: "length ?out = ?s" using wf by (rule length_buf_content)
  have h: "holds c ?out" using holds_content[OF c(2) cap] c(7) by simp
  have room: "buf_offset c + length (escape ?out data) + buf_suffix c \<le> buf_capacity c"
    using escape_length[of ?out data] c(3,5,6) lc by simp
  have size: "buf_size c \<le> length ?out" using c(4) lc by simp
  obtain d where d: "nal_loop c (buf_offset c + length ?out) (length ?out) data = Some (d, buf_offset c + length (escape ?out data))"
    "buf_wf (d\<lparr>buf_size := length (escape ?out data)\<rparr>)" "buf_size d = buf_size c"
    "buf_content (d\<lparr>buf_size := length (escape ?out data)\<rparr>) = escape ?out data" "buf_prefix d = buf_prefix c"
    using nal_finish[OF c(2) h size room] by blast
  have sz: "sz_add (buf_size d) (?o + length (escape ?out data) - (?o + ?s)) = length (escape ?out data)"
  proof -
    have "?s \<le> length (escape ?out data)" using escape_length_ge[of ?out data] lc by simp
    moreover have "length (escape ?out data) < 2 ^ 64" using room buf_wf_bounds(3)[OF c(2)] by linarith
    ultimately show ?thesis using sz_add_exact[of ?s "length (escape ?out data) - ?s"] d(3) c(4) by simp
  qed
  have "nal_write mem b data False ?n = Some (d\<lparr>buf_size := length (escape ?out data)\<rparr>)"
    unfolding nal_write_def c(1) Option.bind.simps prod.case if_False using d(1)[unfolded c(3) lc] sz c(4) by simp
  moreover have "buf_prefix (d\<lparr>buf_size := length (escape ?out data)\<rparr>) = buf_prefix b"
    using d(5) c(8) by simp
  ultimately show ?thesis using d(2,4) by auto
qed

lemma direct_bytes:
  assumes "take 2 data \<noteq> [0, 0]"
  shows "unescape (take 3 data) = take 3 data" "no_start_code (take 3 data)"
proof -
  obtain xs where xs: "xs = take 3 data" "length xs \<le> 3" "take 2 xs \<noteq> [0, 0]" using assms by (auto simp: min_def)
  consider "xs = []" | a where "xs = [a]" | a b where "xs = [a, b]" | a b c where "xs = [a, b, c]"
    using xs(2) by (cases xs; cases "tl xs"; cases "tl (tl xs)"; auto)
  then have "unescape xs = xs \<and> no_start_code xs"
    using xs(3) by cases (auto simp: unescape_def dec_step_def no_start_code_def less_Suc_eq numeral_3_eq_3)
  then show "unescape (take 3 data) = take 3 data" "no_start_code (take 3 data)" using xs(1) by auto
qed



end
