(* ===== verification/Array_List.thy ===== *)
theory Array_List
  imports Collections
begin

text \<open>
  The growable array (\<^verbatim>\<open>ihs_arraylist.c\<close>).  The block is a list of cells of \<open>itemSize\<close> bytes each;
  an element pointer is the index of its cell.  \<open>alloc\<close> says whether (re)allocation succeeds, and
  \<open>junk\<close> is the indeterminate contents of the fresh cells.  Byte counts are converted to \<^verbatim>\<open>int\<close> by
  the removal functions: a count that does not fit is undefined behaviour here.
\<close>

record 'a array_list =
  al_data :: "'a list option"
  al_itemSize :: nat
  al_size :: nat
  al_capacity :: nat

definition IHS_ArrayListInit :: "bool \<Rightarrow> 'a \<Rightarrow> nat \<Rightarrow> 'a array_list option" where
  "IHS_ArrayListInit alloc zero itemSize = do {
     assert_that (itemSize \<ge> 1);
     Some \<lparr>al_data = (if alloc then Some (replicate 16 zero) else None), al_itemSize = itemSize, al_size = 0, al_capacity = 16\<rparr>
   }"

definition IHS_ArrayListDeinit :: "'a array_list \<Rightarrow> 'a array_list" where
  "IHS_ArrayListDeinit l = \<lparr>al_data = None, al_itemSize = 0, al_size = 0, al_capacity = 0\<rparr>"

definition IHS_ArrayListGet :: "'a array_list \<Rightarrow> nat \<Rightarrow> nat option" where
  "IHS_ArrayListGet l index = do { assert_that (al_data l \<noteq> None); Some index }"

definition al_load :: "'a array_list \<Rightarrow> nat \<Rightarrow> 'a option" where
  "al_load l i = (case al_data l of None \<Rightarrow> None | Some xs \<Rightarrow> if i < length xs then Some (xs ! i) else None)"

definition al_store :: "'a array_list \<Rightarrow> nat \<Rightarrow> 'a \<Rightarrow> 'a array_list option" where
  "al_store l i x = (case al_data l of None \<Rightarrow> None
     | Some xs \<Rightarrow> if i < length xs then Some (l\<lparr>al_data := Some (xs[i := x])\<rparr>) else None)"

definition al_grow :: "bool \<Rightarrow> 'a \<Rightarrow> 'a array_list \<Rightarrow> 'a array_list option" where
  "al_grow alloc junk l =
     (if sz_add (al_size l) 1 \<ge> al_capacity l then do {
        let capacity = sz_mul (al_capacity l) 2;
        assert_that alloc;
        let old = (case al_data l of None \<Rightarrow> [] | Some xs \<Rightarrow> xs);
        Some (l\<lparr>al_capacity := capacity,
                al_data := Some (take capacity old @ replicate (capacity - length old) junk)\<rparr>)
      } else Some l)"

text \<open>The element is the copied item, or a zeroed cell when the item pointer is null.\<close>

definition IHS_ArrayListAppend :: "bool \<Rightarrow> 'a \<Rightarrow> 'a array_list \<Rightarrow> 'a \<Rightarrow> ('a array_list \<times> nat) option" where
  "IHS_ArrayListAppend alloc junk l x = do {
     l \<leftarrow> al_grow alloc junk l;
     p \<leftarrow> IHS_ArrayListGet l (al_size l);
     l \<leftarrow> al_store l p x;
     Some (l\<lparr>al_size := sz_add (al_size l) 1\<rparr>, p)
   }"

text \<open>Moving the \<open>n\<close> cells behind \<open>i\<close> down by one.\<close>

definition al_move_down :: "'a array_list \<Rightarrow> nat \<Rightarrow> nat \<Rightarrow> 'a array_list option" where
  "al_move_down l i n =
     (case al_data l of None \<Rightarrow> None
      | Some xs \<Rightarrow> if n * al_itemSize l < 2 ^ 31 \<and> i + 1 + n \<le> length xs
          then Some (l\<lparr>al_data := Some (take i xs @ take n (drop (i + 1) xs) @ drop (i + n) xs)\<rparr>) else None)"

fun remove_first_from :: "'a array_list \<Rightarrow> 'a \<Rightarrow> nat \<Rightarrow> nat \<Rightarrow> (bool \<times> 'a array_list) option" where
  "remove_first_from l x i 0 = Some (False, l)"
| "remove_first_from l x i (Suc n) = do {
     p \<leftarrow> IHS_ArrayListGet l i;
     y \<leftarrow> al_load l p;
     if y = x then do {
       l \<leftarrow> (if al_size l - 1 - i > 0 then al_move_down l i (al_size l - 1 - i) else Some l);
       Some (True, l\<lparr>al_size := al_size l - 1\<rparr>)
     } else remove_first_from l x (i + 1) n
   }"

definition IHS_ArrayListRemoveFirst :: "'a array_list \<Rightarrow> 'a \<Rightarrow> (bool \<times> 'a array_list) option" where
  "IHS_ArrayListRemoveFirst l x = remove_first_from l x 0 (al_size l)"

definition IHS_ArrayListRemove :: "'a array_list \<Rightarrow> nat \<Rightarrow> (bool \<times> 'a array_list) option" where
  "IHS_ArrayListRemove l index =
     (if index \<ge> al_size l then Some (False, l)
      else do {
        l \<leftarrow> al_move_down l index (al_size l - 1 - index);
        Some (True, l\<lparr>al_size := al_size l - 1\<rparr>)
      })"

fun linear_search_from :: "('v \<Rightarrow> 'a \<Rightarrow> int) \<Rightarrow> 'a array_list \<Rightarrow> 'v \<Rightarrow> nat \<Rightarrow> nat \<Rightarrow> int option" where
  "linear_search_from cmp l v i 0 = Some (-1)"
| "linear_search_from cmp l v i (Suc n) = do {
     x \<leftarrow> al_load l i;
     if cmp v x = 0 then Some (int i) else linear_search_from cmp l v (i + 1) n
   }"

definition IHS_ArrayListLinearSearch :: "('v \<Rightarrow> 'a \<Rightarrow> int) \<Rightarrow> 'a array_list \<Rightarrow> 'v \<Rightarrow> int option" where
  "IHS_ArrayListLinearSearch cmp l v = linear_search_from cmp l v 0 (al_size l)"

definition IHS_ArrayListClear :: "'a array_list \<Rightarrow> 'a array_list" where
  "IHS_ArrayListClear l = l\<lparr>al_size := 0\<rparr>"

section \<open>The array as a list\<close>

definition al_wf :: "'a array_list \<Rightarrow> bool" where
  "al_wf l \<longleftrightarrow> (\<exists>xs. al_data l = Some xs \<and> length xs = al_capacity l) \<and> al_size l < al_capacity l \<and>
     al_capacity l \<ge> 2 \<and> al_capacity l < 2 ^ 62"

definition al_list :: "'a array_list \<Rightarrow> 'a list" where
  "al_list l = (case al_data l of None \<Rightarrow> [] | Some xs \<Rightarrow> take (al_size l) xs)"

lemma al_wf_cases:
  assumes "al_wf l"
  obtains xs where "al_data l = Some xs" "length xs = al_capacity l" "al_size l < al_capacity l" "2 \<le> al_capacity l"
    "al_capacity l < 2 ^ 62" "al_list l = take (al_size l) xs" "length (al_list l) = al_size l"
  using assms by (auto simp: al_wf_def al_list_def)

lemma append_list:
  assumes "al_wf l" "al_capacity l < 2 ^ 61"
  shows "\<exists>l'. IHS_ArrayListAppend True junk l x = Some (l', al_size l) \<and> al_wf l' \<and> al_list l' = al_list l @ [x] \<and>
    al_capacity l' \<le> 2 * al_capacity l \<and> al_size l' = Suc (al_size l)"
  using assms(1)
proof (cases rule: al_wf_cases)
  case (1 xs)
  have small: "al_capacity l * 2 < 2 ^ 64" "al_size l + 1 < 2 ^ 64" using assms(2) 1(3) by auto
  define l1 where "l1 = (if al_size l + 1 \<ge> al_capacity l then l\<lparr>al_capacity := al_capacity l * 2,
      al_data := Some (xs @ replicate (al_capacity l) junk)\<rparr> else l)"
  have g: "al_grow True junk l = Some l1"
    using 1(1,2) small by (auto simp: al_grow_def l1_def sz_add_exact sz_mul_exact Let_def)
  obtain ys where ys: "al_data l1 = Some ys" "length ys = al_capacity l1" "take (al_size l) ys = al_list l"
    "al_size l1 = al_size l" "Suc (al_size l) < al_capacity l1" "al_capacity l1 \<le> 2 * al_capacity l" "2 \<le> al_capacity l1"
  proof (cases "al_size l + 1 \<ge> al_capacity l")
    case True
    show thesis by (rule that[of "xs @ replicate (al_capacity l) junk"]) (use 1 True in \<open>auto simp: l1_def\<close>)
  next
    case False
    show thesis by (rule that[of xs]) (use 1 False in \<open>auto simp: l1_def\<close>)
  qed
  have "IHS_ArrayListAppend True junk l x = Some (l1\<lparr>al_data := Some (ys[al_size l := x]), al_size := Suc (al_size l)\<rparr>, al_size l)"
    using g ys small by (simp add: IHS_ArrayListAppend_def IHS_ArrayListGet_def al_store_def sz_add_exact)
  then show ?thesis
    using ys assms(2) by (auto simp: al_wf_def al_list_def take_Suc_conv_app_nth)
qed

lemma remove_list:
  assumes "al_wf l" "i < al_size l" "al_capacity l * al_itemSize l < 2 ^ 31"
  shows "\<exists>l'. IHS_ArrayListRemove l i = Some (True, l') \<and> al_wf l' \<and>
    al_list l' = take i (al_list l) @ drop (Suc i) (al_list l)"
  using assms(1)
proof (cases rule: al_wf_cases)
  case (1 xs)
  let ?n = "al_size l - 1 - i"
  have "?n * al_itemSize l \<le> al_capacity l * al_itemSize l" using 1(3) by (intro mult_le_mono1) simp
  then have "?n * al_itemSize l < 2 ^ 31" using assms(3) by linarith
  then have m: "al_move_down l i ?n = Some (l\<lparr>al_data := Some (take i xs @ take ?n (drop (i + 1) xs) @ drop (i + ?n) xs)\<rparr>)"
    using 1(1,2,3) assms(2) by (simp add: al_move_down_def)
  let ?ys = "take i xs @ take ?n (drop (i + 1) xs) @ drop (i + ?n) xs"
  have len: "length ?ys = al_capacity l" using 1(2,3) assms(2) by simp
  have "take (al_size l - 1) ?ys = take i xs @ take ?n (drop (i + 1) xs)" using 1(2,3) assms(2) by simp
  also have "\<dots> = take i (take (al_size l) xs) @ drop (Suc i) (take (al_size l) xs)"
    using assms(2) by (simp add: drop_take min_def)
  finally show ?thesis
    using m len 1 assms(2) by (auto simp: IHS_ArrayListRemove_def al_wf_def al_list_def)
qed

lemma load_list: "al_wf l \<Longrightarrow> i < al_size l \<Longrightarrow> al_load l i = Some (al_list l ! i)"
  by (auto simp: al_wf_def al_load_def al_list_def)

text \<open>An array with one free cell is a queue from which only the first element is removed.\<close>

interpretation array_queue: fifo "\<lambda>l. al_wf l \<and> al_capacity l * al_itemSize l < 2 ^ 30 \<and> 0 < al_itemSize l"
  "\<lambda>l x. Suc (al_size l) < al_capacity l" al_list
  "\<lambda>l x. fst (the (IHS_ArrayListAppend True x l x))" "\<lambda>l. snd (the (IHS_ArrayListRemove l 0))"
proof unfold_locales
  fix l :: "'a array_list" and x
  assume l: "al_wf l \<and> al_capacity l * al_itemSize l < 2 ^ 30 \<and> 0 < al_itemSize l" "Suc (al_size l) < al_capacity l"
  then obtain xs where xs: "al_data l = Some xs" "length xs = al_capacity l" "al_list l = take (al_size l) xs"
    by (auto elim: al_wf_cases)
  have "al_size l + 1 < 2 ^ 64" using l by (auto simp: al_wf_def)
  then have r: "the (IHS_ArrayListAppend True x l x) =
      (l\<lparr>al_data := Some (xs[al_size l := x]), al_size := Suc (al_size l)\<rparr>, al_size l)"
    using xs l(2) by (simp add: IHS_ArrayListAppend_def IHS_ArrayListGet_def al_grow_def al_store_def sz_add_exact)
  show "al_wf (fst (the (IHS_ArrayListAppend True x l x))) \<and>
      al_capacity (fst (the (IHS_ArrayListAppend True x l x))) * al_itemSize (fst (the (IHS_ArrayListAppend True x l x))) < 2 ^ 30 \<and>
      0 < al_itemSize (fst (the (IHS_ArrayListAppend True x l x)))"
    using l xs unfolding r by (auto simp: al_wf_def)
  show "al_list (fst (the (IHS_ArrayListAppend True x l x))) = al_list l @ [x]"
    using xs l(2) unfolding r by (simp add: al_list_def take_Suc_conv_app_nth)
next
  fix l :: "'a array_list"
  assume l: "al_wf l \<and> al_capacity l * al_itemSize l < 2 ^ 30 \<and> 0 < al_itemSize l" "al_list l \<noteq> []"
  then obtain xs where xs: "al_data l = Some xs" "length xs = al_capacity l" "al_list l = take (al_size l) xs"
    "length (al_list l) = al_size l" by (auto elim: al_wf_cases)
  then have n: "0 < al_size l" using l(2) by auto
  obtain l' where l': "IHS_ArrayListRemove l 0 = Some (True, l')" "al_wf l'" "al_list l' = drop 1 (al_list l)"
    using remove_list[of l 0] l n by auto
  have "al_capacity l' = al_capacity l" "al_itemSize l' = al_itemSize l"
    using l'(1) n by (auto simp: IHS_ArrayListRemove_def al_move_down_def split: bind_splits option.splits if_splits)
  then show "al_wf (snd (the (IHS_ArrayListRemove l 0))) \<and>
      al_capacity (snd (the (IHS_ArrayListRemove l 0))) * al_itemSize (snd (the (IHS_ArrayListRemove l 0))) < 2 ^ 30 \<and>
      0 < al_itemSize (snd (the (IHS_ArrayListRemove l 0)))"
    "al_list (snd (the (IHS_ArrayListRemove l 0))) = tl (al_list l)"
    using l l' by (simp_all add: drop_Suc)
qed

end
