(* ===== verification/HID_Report.thy ===== *)
theory HID_Report
  imports Array_List Packet
begin

text \<open>
  Input reports of HID devices (\<^verbatim>\<open>hid/report.c\<close>): full and delta reports are collected in one data
  buffer, and their positions are bound to pointers when the message is taken.

  The generated protobuf structures are the records \<open>report_item\<close> and the message fields of
  \<open>report_holder\<close>; \<open>sizeof_item\<close> is the size of the generated structure.  A data pointer is an offset
  into the block of the data buffer, an item pointer the index of its cell.  \<open>mem\<close> is the allocator
  of the byte buffers, \<open>alloc\<close> says whether the arrays can grow.
\<close>

section \<open>State\<close>

record report_item =
  ri_has_full :: bool
  ri_full_data :: "nat option"
  ri_full_len :: nat
  ri_has_delta :: bool
  ri_delta_data :: "nat option"
  ri_delta_len :: nat
  ri_delta_crc :: "u32 option"
  ri_delta_size :: "u32 option"

definition zero_item :: report_item where
  "zero_item = \<lparr>ri_has_full = False, ri_full_data = None, ri_full_len = 0, ri_has_delta = False,
     ri_delta_data = None, ri_delta_len = 0, ri_delta_crc = None, ri_delta_size = None\<rparr>"

record report_holder =
  rh_device :: u32
  rh_n_reports :: nat
  rh_reports :: "nat list option"
  rh_data :: ihs_buffer
  rh_items :: "report_item array_list"
  rh_pointers :: "nat array_list"
  rh_offsets :: "nat array_list"
  rh_length :: nat
  rh_lastSent :: "bytes option"
  rh_lastSentLen :: nat
  rh_pending :: "bytes option"
  rh_pendingLen :: nat
  rh_bufferCapacity :: nat

section \<open>Operations\<close>

definition IHS_HIDReportHolderInit :: "bool \<Rightarrow> nat \<Rightarrow> u32 \<Rightarrow> report_holder option" where
  "IHS_HIDReportHolderInit alloc sizeof_item deviceId = do {
     items \<leftarrow> IHS_ArrayListInit alloc zero_item sizeof_item;
     pointers \<leftarrow> IHS_ArrayListInit alloc 0 8;
     offsets \<leftarrow> IHS_ArrayListInit alloc 0 8;
     Some \<lparr>rh_device = deviceId, rh_n_reports = 0, rh_reports = None, rh_data = IHS_BufferInit 256 8192,
       rh_items = items, rh_pointers = pointers, rh_offsets = offsets, rh_length = 0,
       rh_lastSent = None, rh_lastSentLen = 0, rh_pending = None, rh_pendingLen = 0, rh_bufferCapacity = 0\<rparr>
   }"

definition IHS_HIDReportHolderDeinit :: "report_holder \<Rightarrow> report_holder option" where
  "IHS_HIDReportHolderDeinit h = do {
     b \<leftarrow> IHS_BufferClear (rh_data h) True;
     Some (h\<lparr>rh_reports := None, rh_offsets := IHS_ArrayListDeinit (rh_offsets h),
       rh_pointers := IHS_ArrayListDeinit (rh_pointers h), rh_items := IHS_ArrayListDeinit (rh_items h),
       rh_data := b, rh_lastSent := None, rh_pending := None\<rparr>)
   }"

text \<open>\<^verbatim>\<open>realloc\<close> of a block that may be null; a failure is stored as a null pointer.\<close>

definition regrow :: "allocator \<Rightarrow> bytes option \<Rightarrow> nat \<Rightarrow> bytes option" where
  "regrow mem p n = realloc_bytes mem (case p of None \<Rightarrow> [] | Some xs \<Rightarrow> xs) n"

definition Stash :: "allocator \<Rightarrow> report_holder \<Rightarrow> bytes \<Rightarrow> report_holder option" where
  "Stash mem h current = do {
     let len = length current;
     let h = (if len > rh_bufferCapacity h
              then h\<lparr>rh_lastSent := regrow mem (rh_lastSent h) len, rh_pending := regrow mem (rh_pending h) len,
                     rh_bufferCapacity := len\<rparr> else h);
     xs \<leftarrow> rh_pending h;
     xs \<leftarrow> mem_write xs 0 current;
     Some (h\<lparr>rh_pending := Some xs, rh_pendingLen := len\<rparr>)
   }"

definition SameAsLastSent :: "report_holder \<Rightarrow> bytes \<Rightarrow> bool option" where
  "SameAsLastSent h current =
     (let len = length current in
      if rh_pendingLen h \<noteq> 0
      then (if rh_pendingLen h = len
            then do { xs \<leftarrow> rh_pending h; ys \<leftarrow> mem_read xs 0 len; Some (ys = current) } else Some False)
      else (case rh_lastSent h of None \<Rightarrow> Some False
            | Some xs \<Rightarrow> if rh_lastSentLen h = len then do { ys \<leftarrow> mem_read xs 0 len; Some (ys = current) }
                         else Some False))"

definition IHS_HIDReportHolderSetReportLength :: "report_holder \<Rightarrow> nat \<Rightarrow> report_holder" where
  "IHS_HIDReportHolderSetReportLength h reportLen = h\<lparr>rh_length := reportLen\<rparr>"

text \<open>Adding an initialised item and its offset to the two arrays.\<close>

definition push_item :: "bool \<Rightarrow> report_holder \<Rightarrow> report_item \<Rightarrow> nat \<Rightarrow> report_holder option" where
  "push_item alloc h item offset = do {
     (items, k) \<leftarrow> IHS_ArrayListAppend alloc zero_item (rh_items h) zero_item;
     items \<leftarrow> al_store items k item;
     (offsets, _) \<leftarrow> IHS_ArrayListAppend alloc 0 (rh_offsets h) offset;
     Some (h\<lparr>rh_items := items, rh_offsets := offsets\<rparr>)
   }"

definition full_item :: "nat \<Rightarrow> report_item" where
  "full_item len = zero_item\<lparr>ri_has_full := True, ri_full_len := len\<rparr>"

definition delta_item :: "nat \<Rightarrow> bytes \<Rightarrow> report_item" where
  "delta_item deltaLen current = zero_item\<lparr>ri_has_delta := True, ri_delta_len := deltaLen,
     ri_delta_crc := Some (IHS_CRC32 current), ri_delta_size := Some (of_nat (length current))\<rparr>"

definition AddFull :: "allocator \<Rightarrow> bool \<Rightarrow> report_holder \<Rightarrow> bytes \<Rightarrow> bool \<Rightarrow> report_holder option" where
  "AddFull mem alloc h current force = do {
     assert_that (rh_length h \<ge> length current);
     same \<leftarrow> (if force then Some False else SameAsLastSent h current);
     if same then Some h
     else do {
       h \<leftarrow> Stash mem h current;
       let offset = buf_size (rh_data h);
       (b, p) \<leftarrow> IHS_BufferPointerForAppend mem (rh_data h) (length current);
       b \<leftarrow> buf_store b p current;
       let h = h\<lparr>rh_data := b\<lparr>buf_size := sz_add (buf_size b) (length current)\<rparr>\<rparr>;
       h \<leftarrow> push_item alloc h (full_item (length current)) offset;
       Some (h\<lparr>rh_n_reports := al_size (rh_items h)\<rparr>)
     }
   }"

definition IHS_HIDReportHolderAddFull :: "allocator \<Rightarrow> bool \<Rightarrow> report_holder \<Rightarrow> bytes \<Rightarrow> report_holder option" where
  "IHS_HIDReportHolderAddFull mem alloc h current = AddFull mem alloc h current False"

definition IHS_HIDReportHolderAddFullForced :: "allocator \<Rightarrow> bool \<Rightarrow> report_holder \<Rightarrow> bytes \<Rightarrow> report_holder option" where
  "IHS_HIDReportHolderAddFullForced mem alloc h current = AddFull mem alloc h current True"

definition ClearMessage :: "report_holder \<Rightarrow> bool \<Rightarrow> report_holder option" where
  "ClearMessage h promotePending = do {
     b \<leftarrow> IHS_BufferClear (rh_data h) False;
     let h = h\<lparr>rh_n_reports := 0, rh_reports := None, rh_data := b,
               rh_items := IHS_ArrayListClear (rh_items h), rh_pointers := IHS_ArrayListClear (rh_pointers h),
               rh_offsets := IHS_ArrayListClear (rh_offsets h)\<rparr>;
     Some (if promotePending \<and> rh_pendingLen h > 0
           then h\<lparr>rh_lastSent := rh_pending h, rh_lastSentLen := rh_pendingLen h,
                  rh_pending := rh_lastSent h, rh_pendingLen := 0\<rparr>
           else if \<not> promotePending then h\<lparr>rh_pendingLen := 0\<rparr> else h)
   }"

definition IHS_HIDReportHolderResetMessage :: "report_holder \<Rightarrow> report_holder option" where
  "IHS_HIDReportHolderResetMessage h = ClearMessage h True"

definition IHS_HIDReportHolderReplaceWithFullForced ::
    "allocator \<Rightarrow> bool \<Rightarrow> report_holder \<Rightarrow> bytes \<Rightarrow> report_holder option" where
  "IHS_HIDReportHolderReplaceWithFullForced mem alloc h current = do {
     h \<leftarrow> ClearMessage h False;
     AddFull mem alloc h current True
   }"

text \<open>Setting the bit of position \<open>i\<close> in a mask of bytes.\<close>

definition set_bit_at :: "bytes \<Rightarrow> nat \<Rightarrow> bytes option" where
  "set_bit_at area i = do {
     m \<leftarrow> byte_at area (i div 8);
     Some (area[i div 8 := m OR push_bit (i mod 8) 1])
   }"

fun set_bits :: "nat \<Rightarrow> nat \<Rightarrow> bytes \<Rightarrow> bytes option" where
  "set_bits i 0 area = Some area"
| "set_bits i (Suc n) area = do { area \<leftarrow> set_bit_at area i; set_bits (i + 1) n area }"

definition IHS_HIDReportHolderAddForcedFullMaskDelta ::
    "allocator \<Rightarrow> bool \<Rightarrow> report_holder \<Rightarrow> bytes \<Rightarrow> report_holder option" where
  "IHS_HIDReportHolderAddForcedFullMaskDelta mem alloc h current = do {
     assert_that (rh_length h \<ge> length current);
     h \<leftarrow> Stash mem h current;
     let offset = buf_size (rh_data h);
     let maskSize = sz_add (rh_length h) 7 div 8;
     let deltaMax = sz_add maskSize (length current);
     (b, p) \<leftarrow> IHS_BufferPointerForAppend mem (rh_data h) deltaMax;
     area \<leftarrow> set_bits 0 (length current) (replicate maskSize 0 @ current);
     b \<leftarrow> buf_store b p area;
     let h = h\<lparr>rh_data := b\<lparr>buf_size := sz_add (buf_size b) deltaMax\<rparr>\<rparr>;
     push_item alloc h (delta_item deltaMax current) offset
   }"

text \<open>
  \<^verbatim>\<open>ComputeDelta\<close>; \<open>area\<close> is the memory behind the pointer.  The mask size is an \<^verbatim>\<open>int\<close>.
\<close>

fun delta_loop :: "bytes \<Rightarrow> bytes \<Rightarrow> nat \<Rightarrow> nat \<Rightarrow> bytes \<Rightarrow> nat \<Rightarrow> (bytes \<times> nat) option" where
  "delta_loop previous current i 0 area sz = Some (area, sz)"
| "delta_loop previous current i (Suc n) area sz = do {
     p \<leftarrow> byte_at previous i;
     c \<leftarrow> byte_at current i;
     if p = c then delta_loop previous current (i + 1) n area sz
     else do {
       area \<leftarrow> set_bit_at area i;
       assert_that (sz < length area);
       delta_loop previous current (i + 1) n (area[sz := c]) (sz + 1)
     }
   }"

definition ComputeDelta :: "bytes \<Rightarrow> bytes \<Rightarrow> nat \<Rightarrow> nat \<Rightarrow> bytes \<Rightarrow> (bytes \<times> nat) option" where
  "ComputeDelta previous current inputLen reportLen area = do {
     assert_that (reportLen + 7 < 2 ^ 31);
     let sz = (reportLen + 7) div 8;
     assert_that (sz \<le> length area);
     delta_loop previous current 0 inputLen (replicate sz 0 @ drop sz area) sz
   }"

definition IHS_HIDReportHolderAddDelta ::
    "allocator \<Rightarrow> bool \<Rightarrow> report_holder \<Rightarrow> bytes \<Rightarrow> bytes \<Rightarrow> report_holder option" where
  "IHS_HIDReportHolderAddDelta mem alloc h previous current = do {
     let len = length current;
     h \<leftarrow> Stash mem h current;
     let offset = buf_size (rh_data h);
     let deltaMax = sz_add (sz_add (rh_length h) 7 div 8) len;
     (b, p) \<leftarrow> IHS_BufferPointerForAppend mem (rh_data h) deltaMax;
     xs \<leftarrow> buf_data b;
     (area, deltaLen) \<leftarrow> ComputeDelta previous current len (rh_length h) (drop p xs);
     assert_that (deltaLen \<le> deltaMax);
     let b = b\<lparr>buf_data := Some (take p xs @ area)\<rparr>;
     if deltaLen + 8 \<ge> len then do {
       (b, full) \<leftarrow> IHS_BufferPointerForAppend mem (b\<lparr>buf_size := offset\<rparr>) len;
       b \<leftarrow> buf_store b full current;
       let h = h\<lparr>rh_data := b\<lparr>buf_size := sz_add (buf_size b) len\<rparr>\<rparr>;
       h \<leftarrow> push_item alloc h (full_item len) offset;
       Some (h\<lparr>rh_n_reports := al_size (rh_items h)\<rparr>)
     }
     else do {
       let h = h\<lparr>rh_data := b\<lparr>buf_size := sz_add (buf_size b) deltaLen\<rparr>\<rparr>;
       h \<leftarrow> push_item alloc h (delta_item deltaLen current) offset;
       Some (h\<lparr>rh_n_reports := al_size (rh_items h)\<rparr>)
     }
   }"

fun bind_items :: "bool \<Rightarrow> nat \<Rightarrow> nat \<Rightarrow> nat \<Rightarrow> report_holder \<Rightarrow> report_holder option" where
  "bind_items alloc base i 0 h = Some h"
| "bind_items alloc base i (Suc n) h = do {
     k \<leftarrow> IHS_ArrayListGet (rh_items h) i;
     item \<leftarrow> al_load (rh_items h) k;
     j \<leftarrow> IHS_ArrayListGet (rh_offsets h) i;
     offset \<leftarrow> al_load (rh_offsets h) j;
     items \<leftarrow> al_store (rh_items h) k
       (if ri_has_full item then item\<lparr>ri_full_data := Some (base + offset)\<rparr>
        else item\<lparr>ri_delta_data := Some (base + offset)\<rparr>);
     (pointers, _) \<leftarrow> IHS_ArrayListAppend alloc 0 (rh_pointers h) k;
     bind_items alloc base (i + 1) n (h\<lparr>rh_items := items, rh_pointers := pointers\<rparr>)
   }"

text \<open>The first result says whether there is a message.\<close>

definition IHS_HIDReportHolderGetMessage :: "bool \<Rightarrow> report_holder \<Rightarrow> (bool \<times> report_holder) option" where
  "IHS_HIDReportHolderGetMessage alloc h =
     (if al_size (rh_items h) = 0 then Some (False, h)
      else do {
        base \<leftarrow> IHS_BufferPointer (rh_data h);
        h \<leftarrow> bind_items alloc base 0 (al_size (rh_items h)) (h\<lparr>rh_pointers := IHS_ArrayListClear (rh_pointers h)\<rparr>);
        Some (True, h\<lparr>rh_reports := map_option (take (al_size (rh_pointers h))) (al_data (rh_pointers h)),
                      rh_n_reports := al_size (rh_items h)\<rparr>)
      })"

section \<open>The host's side: applying a delta\<close>

fun apply_bytes :: "bytes \<Rightarrow> nat \<Rightarrow> bytes \<Rightarrow> bytes \<Rightarrow> bytes" where
  "apply_bytes mask' i [] ds = []"
| "apply_bytes mask' i (p # ps) ds =
     (if bit (mask' ! (i div 8)) (i mod 8)
      then (case ds of [] \<Rightarrow> [] | d # ds \<Rightarrow> d # apply_bytes mask' (i + 1) ps ds)
      else p # apply_bytes mask' (i + 1) ps ds)"

definition apply_delta :: "nat \<Rightarrow> bytes \<Rightarrow> bytes \<Rightarrow> bytes" where
  "apply_delta n previous delta = apply_bytes (take n delta) 0 previous (drop n delta)"

definition decode_item :: "nat \<Rightarrow> bytes \<Rightarrow> bytes \<Rightarrow> report_item \<times> nat \<Rightarrow> bytes" where
  "decode_item n d state io =
     (case io of (item, offset) \<Rightarrow>
        if ri_has_full item then take (ri_full_len item) (drop offset d)
        else apply_delta n state (take (ri_delta_len item) (drop offset d)))"

definition decode_reports :: "report_holder \<Rightarrow> bytes \<Rightarrow> bytes" where
  "decode_reports h state = foldl (decode_item ((rh_length h + 7) div 8) (buf_content (rh_data h))) state
     (zip (al_list (rh_items h)) (al_list (rh_offsets h)))"

end
