(* ===== verification/HID_Props.thy ===== *)
theory HID_Props
  imports HID_Report NAL_Props
begin

text \<open>
  Reports decode to the states they were made from: the delta code is exact, and a whole batch of
  reports leads the host to the newest state.
\<close>

section \<open>One delta\<close>

definition changed :: "bytes \<Rightarrow> bytes \<Rightarrow> bytes" where
  "changed ps cs = map snd (filter (\<lambda>(p, c). p \<noteq> c) (zip ps cs))"

lemma changed_snoc:
  assumes "length ps = length cs"
  shows "changed (ps @ [p]) (cs @ [c]) = changed ps cs @ (if p = c then [] else [c])"
  using assms by (simp add: changed_def)

lemma length_changed: "length (changed ps cs) \<le> length cs"
  unfolding changed_def by (simp add: order.trans[OF length_filter_le])

text \<open>\<open>mask_of mk i ps cs\<close>: the mask bits below \<open>i\<close> tell the changed positions, the others are clear.\<close>

definition mask_of :: "bytes \<Rightarrow> nat \<Rightarrow> bytes \<Rightarrow> bytes \<Rightarrow> bool" where
  "mask_of mk i ps cs \<longleftrightarrow> (\<forall>j < 8 * length mk. bit (mk ! (j div 8)) (j mod 8) \<longleftrightarrow> j < i \<and> ps ! j \<noteq> cs ! j)"

lemma set_bit_at_spec:
  assumes "i < 8 * length mk"
  shows "set_bit_at (mk @ area) i = Some (mk[i div 8 := mk ! (i div 8) OR push_bit (i mod 8) 1] @ area)"
proof -
  have "i div 8 < length mk" using assms by auto
  then show ?thesis by (simp add: set_bit_at_def byte_at_def nth_append list_update_append)
qed

lemma mask_of_step:
  assumes m: "mask_of mk i ps cs" and i: "i < 8 * length mk"
  shows "ps ! i = cs ! i \<Longrightarrow> mask_of mk (Suc i) ps cs"
    "ps ! i \<noteq> cs ! i \<Longrightarrow> mask_of (mk[i div 8 := mk ! (i div 8) OR push_bit (i mod 8) 1]) (Suc i) ps cs"
proof -
  show "mask_of mk (Suc i) ps cs" if "ps ! i = cs ! i" using m that by (auto simp: mask_of_def less_Suc_eq)
  let ?mk = "mk[i div 8 := mk ! (i div 8) OR push_bit (i mod 8) 1]"
  show "mask_of ?mk (Suc i) ps cs" if ne: "ps ! i \<noteq> cs ! i"
    unfolding mask_of_def
  proof (intro allI impI)
    fix j assume j: "j < 8 * length ?mk"
    have "bit (?mk ! (j div 8)) (j mod 8) \<longleftrightarrow> bit (mk ! (j div 8)) (j mod 8) \<or> j = i"
    proof (cases "j div 8 = i div 8")
      case True
      have "j mod 8 < 8" by simp
      then have "bit (mk ! (i div 8) OR push_bit (i mod 8) 1) (j mod 8) \<longleftrightarrow>
          bit (mk ! (i div 8)) (j mod 8) \<or> j mod 8 = i mod 8"
        by (auto simp: bit_or_iff bit_push_bit_iff bit_1_iff bit_exp_iff)
      moreover have "j mod 8 = i mod 8 \<longleftrightarrow> j = i" using True by (metis div_mult_mod_eq)
      moreover have "i div 8 < length mk" using i by auto
      ultimately show ?thesis using True by simp
    next
      case False
      then show ?thesis by auto
    qed
    then show "bit (?mk ! (j div 8)) (j mod 8) \<longleftrightarrow> j < Suc i \<and> ps ! j \<noteq> cs ! j"
      using m j ne by (auto simp: mask_of_def less_Suc_eq)
  qed
qed

lemma delta_loop_spec:
  assumes "length ps = length cs" "length cs \<le> 8 * length mk" "i + m = length cs" "mask_of mk i ps cs" "m \<le> length rest"
  shows "\<exists>mk' rest'. delta_loop ps cs i m (mk @ changed (take i ps) (take i cs) @ rest) (length mk + length (changed (take i ps) (take i cs))) =
      Some (mk' @ changed ps cs @ rest', length mk + length (changed ps cs)) \<and> length mk' = length mk \<and>
      mask_of mk' (length cs) ps cs \<and>
      length (mk' @ changed ps cs @ rest') = length (mk @ changed (take i ps) (take i cs) @ rest)"
  using assms(2-)
proof (induction m arbitrary: i mk rest)
  case 0
  then show ?case using assms(1) by (intro exI[of _ mk] exI[of _ rest]) simp
next
  case (Suc m)
  let ?ch = "changed (take i ps) (take i cs)"
  have i: "i < length cs" "i < length ps" "i < 8 * length mk" using Suc.prems assms(1) by auto
  have tk: "changed (take (Suc i) ps) (take (Suc i) cs) = ?ch @ (if ps ! i = cs ! i then [] else [cs ! i])"
    using i changed_snoc[of "take i ps" "take i cs"] assms(1) by (simp add: take_Suc_conv_app_nth)
  have ld: "byte_at ps i = Some (ps ! i)" "byte_at cs i = Some (cs ! i)" using i by (simp_all add: byte_at_def)
  show ?case
  proof (cases "ps ! i = cs ! i")
    case True
    then have "mask_of mk (Suc i) ps cs" using mask_of_step(1)[OF Suc.prems(3) i(3)] by simp
    then show ?thesis using Suc.IH[of mk "Suc i" rest] Suc.prems tk True ld by auto
  next
    case False
    let ?mk = "mk[i div 8 := mk ! (i div 8) OR push_bit (i mod 8) 1]"
    obtain r rs where r: "rest = r # rs" using Suc.prems(4) by (cases rest) auto
    have m: "mask_of ?mk (Suc i) ps cs" using mask_of_step(2)[OF Suc.prems(3) i(3) False] .
    have up: "(?mk @ ?ch @ rest)[length mk + length ?ch := cs ! i] = ?mk @ (?ch @ [cs ! i]) @ rs"
      by (simp add: r list_update_append)
    have "delta_loop ps cs i (Suc m) (mk @ ?ch @ rest) (length mk + length ?ch) =
        delta_loop ps cs (Suc i) m (?mk @ (?ch @ [cs ! i]) @ rs) (length mk + length ?ch + 1)"
      using ld False set_bit_at_spec[OF i(3), of "?ch @ rest"] up by (simp add: r)
    then show ?thesis using Suc.IH[of ?mk "Suc i" rs] Suc.prems m tk False r by auto
  qed
qed

lemma apply_bytes_changed:
  assumes "length ps = length cs" "mask_of mk (i + length cs) (pre @ ps) (pre' @ cs)" "length pre = i" "length pre' = i"
    "i + length cs \<le> 8 * length mk"
  shows "apply_bytes mk i ps (changed ps cs @ rest) = cs"
  using assms
proof (induction ps cs arbitrary: i pre pre' rule: list_induct2)
  case (Cons p ps c cs)
  have i: "i < 8 * length mk" using Cons.prems(4) by simp
  then have b: "bit (mk ! (i div 8)) (i mod 8) \<longleftrightarrow> p \<noteq> c"
    using Cons.prems(1,2,3) by (auto simp: mask_of_def nth_append)
  have "apply_bytes mk (i + 1) ps (changed ps cs @ rest) = cs"
    by (rule Cons.IH[of "i + 1" "pre @ [p]" "pre' @ [c]"]) (use Cons.prems in auto)
  then show ?case using b by (auto simp: changed_def)
qed simp

lemma compute_delta_spec:
  assumes len: "length ps = length cs" "length cs \<le> reportLen" "reportLen + 7 < 2 ^ 31"
    and room: "(reportLen + 7) div 8 + length cs \<le> length area"
  shows "\<exists>area' k. ComputeDelta ps cs (length cs) reportLen area = Some (area', k) \<and> length area' = length area \<and>
     k \<le> (reportLen + 7) div 8 + length cs \<and> (reportLen + 7) div 8 \<le> k \<and>
     apply_delta ((reportLen + 7) div 8) ps (take k area') = cs"
proof -
  let ?n = "(reportLen + 7) div 8"
  let ?mk = "replicate ?n (0 :: u8)"
  have n: "length cs \<le> 8 * ?n" using len(2) by linarith
  have "mask_of ?mk 0 ps cs" by (auto simp: mask_of_def)
  moreover have "length cs \<le> length (drop ?n area)" using room by simp
  ultimately obtain mk' rest' where l: "delta_loop ps cs 0 (length cs) (?mk @ drop ?n area) ?n =
      Some (mk' @ changed ps cs @ rest', ?n + length (changed ps cs))" "length mk' = ?n" "mask_of mk' (length cs) ps cs"
    "length (mk' @ changed ps cs @ rest') = length (?mk @ drop ?n area)"
    using delta_loop_spec[OF len(1), of ?mk 0 "length cs" "drop ?n area"] n by (auto simp: changed_def)
  have "ComputeDelta ps cs (length cs) reportLen area = Some (mk' @ changed ps cs @ rest', ?n + length (changed ps cs))"
    using l(1) len(3) room by (simp add: ComputeDelta_def Let_def)
  moreover have "apply_delta ?n ps (take (?n + length (changed ps cs)) (mk' @ changed ps cs @ rest')) = cs"
    using apply_bytes_changed[OF len(1), of mk' 0 "[]" "[]" "[]"] l(2,3) n by (simp add: apply_delta_def)
  ultimately show ?thesis using l(4) room length_changed[of ps cs] by auto
qed

section \<open>A batch of reports\<close>

definition item_len :: "report_item \<Rightarrow> nat" where
  "item_len item = (if ri_has_full item then ri_full_len item else ri_delta_len item)"

definition stash_wf :: "report_holder \<Rightarrow> bool" where
  "stash_wf h \<longleftrightarrow> rh_bufferCapacity h \<noteq> 0 \<longrightarrow> (\<exists>xs. rh_pending h = Some xs \<and> length xs = rh_bufferCapacity h)"

definition holder_wf :: "report_holder \<Rightarrow> bool" where
  "holder_wf h \<longleftrightarrow> buf_wf (rh_data h) \<and> al_wf (rh_items h) \<and> al_wf (rh_offsets h) \<and>
     al_size (rh_items h) = al_size (rh_offsets h) \<and>
     (\<forall>(item, offset)\<in>set (zip (al_list (rh_items h)) (al_list (rh_offsets h))).
        offset + item_len item \<le> buf_size (rh_data h)) \<and> stash_wf h"

lemma stash_spec:
  assumes wf: "stash_wf h" and live: "live_alloc mem" and ne: "current \<noteq> []"
  shows "\<exists>ls xs cap. Stash mem h current = Some (h\<lparr>rh_lastSent := ls, rh_pending := Some xs, rh_bufferCapacity := cap,
     rh_pendingLen := length current\<rparr>) \<and> length xs = cap \<and> take (length current) xs = current \<and> cap \<noteq> 0"
proof (cases "length current > rh_bufferCapacity h")
  case True
  let ?n = "length current"
  obtain ys where ys: "mem ?n = Some ys" "length ys = ?n" using live unfolding live_alloc_def alloc_law_def by blast
  let ?old = "case rh_pending h of None \<Rightarrow> [] | Some xs \<Rightarrow> xs"
  have rg: "regrow mem (rh_pending h) ?n = Some (take ?n ?old @ drop (length ?old) ys)"
    using ys by (simp add: regrow_def realloc_bytes_def)
  let ?xs = "take ?n ?old @ drop (length ?old) ys"
  have lx: "length ?xs = ?n" using ys(2) by simp
  have w: "mem_write ?xs 0 current = Some current" using lx by (simp add: mem_write_def)
  show ?thesis
    using True rg w ne by (intro exI[of _ "regrow mem (rh_lastSent h) ?n"] exI[of _ current] exI[of _ ?n])
      (simp add: Stash_def Let_def)
next
  case False
  then have "rh_bufferCapacity h \<noteq> 0" using ne by (metis length_greater_0_conv)
  then obtain xs where xs: "rh_pending h = Some xs" "length xs = rh_bufferCapacity h" using wf by (auto simp: stash_wf_def)
  have w: "mem_write xs 0 current = Some (current @ drop (length current) xs)" using False xs(2) by (simp add: mem_write_def)
  show ?thesis
    using False xs w \<open>rh_bufferCapacity h \<noteq> 0\<close>
    by (intro exI[of _ "rh_lastSent h"] exI[of _ "current @ drop (length current) xs"] exI[of _ "rh_bufferCapacity h"])
      (auto simp: Stash_def Let_def)
qed

lemma push_item_spec:
  assumes wf: "al_wf (rh_items h)" "al_wf (rh_offsets h)" and cap: "al_capacity (rh_items h) < 2 ^ 61" "al_capacity (rh_offsets h) < 2 ^ 61"
  shows "\<exists>items offsets. push_item True h item offset = Some (h\<lparr>rh_items := items, rh_offsets := offsets\<rparr>) \<and>
     al_wf items \<and> al_wf offsets \<and> al_list items = al_list (rh_items h) @ [item] \<and>
     al_list offsets = al_list (rh_offsets h) @ [offset] \<and> al_size items = Suc (al_size (rh_items h)) \<and>
     al_size offsets = Suc (al_size (rh_offsets h))"
proof -
  obtain l1 where l1: "IHS_ArrayListAppend True zero_item (rh_items h) zero_item = Some (l1, al_size (rh_items h))"
    "al_wf l1" "al_list l1 = al_list (rh_items h) @ [zero_item]" "al_size l1 = Suc (al_size (rh_items h))"
    using append_list[OF wf(1) cap(1)] by blast
  obtain l2 where l2: "IHS_ArrayListAppend True 0 (rh_offsets h) offset = Some (l2, al_size (rh_offsets h))"
    "al_wf l2" "al_list l2 = al_list (rh_offsets h) @ [offset]" "al_size l2 = Suc (al_size (rh_offsets h))"
    using append_list[OF wf(2) cap(2)] by blast
  obtain xs where xs: "al_data l1 = Some xs" "length xs = al_capacity l1" "al_size l1 < al_capacity l1"
    "al_list l1 = take (al_size l1) xs" using l1(2) by (auto elim: al_wf_cases)
  have len: "length (al_list (rh_items h)) = al_size (rh_items h)" using wf(1) by (auto elim: al_wf_cases)
  let ?k = "al_size (rh_items h)"
  let ?l = "l1\<lparr>al_data := Some (xs[?k := item])\<rparr>"
  have st: "al_store l1 ?k item = Some ?l" using xs l1(4) by (simp add: al_store_def)
  have "al_wf ?l" using l1(2) xs by (simp add: al_wf_def)
  moreover have "al_list ?l = (al_list l1)[?k := item]" using xs by (simp add: al_list_def take_update_swap)
  moreover have "(al_list l1)[?k := item] = al_list (rh_items h) @ [item]" using l1(3) len by (simp add: list_update_append)
  ultimately show ?thesis using l1(1,4) l2 st by (intro exI[of _ ?l] exI[of _ l2]) (simp add: push_item_def)
qed

lemma decode_prefix:
  assumes "\<forall>(item, offset)\<in>set ios. offset + item_len item \<le> length d"
  shows "foldl (decode_item n (d @ e)) s ios = foldl (decode_item n d) s ios"
  using assms
proof (induction ios arbitrary: s)
  case (Cons io ios)
  then show ?case by (cases io) (auto simp: decode_item_def item_len_def split: if_splits)
qed simp

text \<open>
  The effect of adding one item whose bytes are appended to the data: what was decoded before is
  decoded as before, then the new item.
\<close>

lemma add_item_spec:
  assumes wf: "holder_wf h" and cap: "al_capacity (rh_items h) < 2 ^ 61" "al_capacity (rh_offsets h) < 2 ^ 61"
    and b: "buf_wf b" "buf_content b = buf_content (rh_data h) @ e" and item: "item_len item = length e"
    and st: "stash_wf h2" "rh_items h2 = rh_items h" "rh_offsets h2 = rh_offsets h" "rh_length h2 = rh_length h" "rh_data h2 = b"
  shows "\<exists>h'. push_item True h2 item (buf_size (rh_data h)) = Some h' \<and> holder_wf h' \<and> rh_length h' = rh_length h \<and>
     al_size (rh_items h') = Suc (al_size (rh_items h)) \<and>
     decode_reports h' s = decode_item ((rh_length h + 7) div 8) (buf_content (rh_data h) @ e) (decode_reports h s) (item, buf_size (rh_data h))"
proof -
  have w: "al_wf (rh_items h)" "al_wf (rh_offsets h)" "al_size (rh_items h) = al_size (rh_offsets h)" "buf_wf (rh_data h)"
    "\<forall>(item, offset)\<in>set (zip (al_list (rh_items h)) (al_list (rh_offsets h))). offset + item_len item \<le> buf_size (rh_data h)"
    using wf by (auto simp: holder_wf_def)
  obtain items offsets where p: "push_item True h2 item (buf_size (rh_data h)) = Some (h2\<lparr>rh_items := items, rh_offsets := offsets\<rparr>)"
    "al_wf items" "al_wf offsets" "al_list items = al_list (rh_items h) @ [item]"
    "al_list offsets = al_list (rh_offsets h) @ [buf_size (rh_data h)]" "al_size items = Suc (al_size (rh_items h))"
    "al_size offsets = Suc (al_size (rh_offsets h))"
    using push_item_spec[of h2 item "buf_size (rh_data h)"] w cap st by auto
  have len: "length (al_list (rh_items h)) = length (al_list (rh_offsets h))"
    using w(1-3) by (auto elim!: al_wf_cases)
  have size: "length (buf_content (rh_data h)) = buf_size (rh_data h)" using length_buf_content[OF w(4)] .
  have bs: "buf_size b = buf_size (rh_data h) + length e" using length_buf_content[OF b(1)] b(2) size by simp
  let ?h = "h2\<lparr>rh_items := items, rh_offsets := offsets\<rparr>"
  have z: "zip (al_list (rh_items ?h)) (al_list (rh_offsets ?h)) =
      zip (al_list (rh_items h)) (al_list (rh_offsets h)) @ [(item, buf_size (rh_data h))]"
    using p(4,5) len by simp
  have "holder_wf ?h"
    using z p(2,3,6,7) w st b(1) bs item by (fastforce simp: holder_wf_def stash_wf_def)
  moreover have "decode_reports ?h s = decode_item ((rh_length h + 7) div 8) (buf_content (rh_data h) @ e)
      (decode_reports h s) (item, buf_size (rh_data h))"
    using w(5) size z by (simp add: decode_reports_def st(4,5) b(2) decode_prefix)
  ultimately show ?thesis using p(1,6) st(4) by auto
qed

lemma stash_same:
  assumes "h1 = h\<lparr>rh_lastSent := ls, rh_pending := Some xs, rh_bufferCapacity := length xs, rh_pendingLen := n\<rparr>"
  shows "stash_wf (h1\<lparr>rh_data := b\<rparr>)" "rh_items h1 = rh_items h" "rh_offsets h1 = rh_offsets h" "rh_length h1 = rh_length h"
    "rh_data h1 = rh_data h"
  by (simp_all add: assms stash_wf_def)

text \<open>C28: A batch of reports leads the host to the newest state.  If applying the reports collected so
  far to the host's state gives the previous state of the device, then adding the change to the
  current state succeeds, and applying the longer batch gives the current state, whether the change
  is stored as a delta or, when that would not be shorter, as a full report.\<close>

theorem hid_delta_chain:
  assumes wf: "holder_wf h" and live: "live_alloc mem"
    and cap: "al_capacity (rh_items h) < 2 ^ 61" "al_capacity (rh_offsets h) < 2 ^ 61"
    and len: "length ps = length cs" "cs \<noteq> []" "length cs \<le> rh_length h" "rh_length h + 7 < 2 ^ 31"
    and can: "can_hold (rh_data h) (buf_offset (rh_data h) +
      (buf_size (rh_data h) + ((rh_length h + 7) div 8 + length cs)) + buf_suffix (rh_data h))"
    and before: "decode_reports h s = ps"
  shows "\<exists>h'. IHS_HIDReportHolderAddDelta mem True h ps cs = Some h' \<and> holder_wf h' \<and>
    decode_reports h' s = cs \<and> rh_n_reports h' = Suc (al_size (rh_items h)) \<and> rh_length h' = rh_length h"
proof -
  let ?b = "rh_data h" and ?n = "(rh_length h + 7) div 8"
  have bw: "buf_wf ?b" and sw: "stash_wf h" using wf by (auto simp: holder_wf_def)
  have lb: "length (buf_content ?b) = buf_size ?b" using length_buf_content[OF bw] .
  obtain ls xs where h1: "Stash mem h cs = Some (h\<lparr>rh_lastSent := ls, rh_pending := Some xs,
      rh_bufferCapacity := length xs, rh_pendingLen := length cs\<rparr>)" using stash_spec[OF sw live len(2)] by blast
  define h1 where "h1 = h\<lparr>rh_lastSent := ls, rh_pending := Some xs, rh_bufferCapacity := length xs, rh_pendingLen := length cs\<rparr>"
  note s1 = stash_same[OF h1_def]
  have sz: "sz_add (rh_length h) 7 = rh_length h + 7" "sz_add ?n (length cs) = ?n + length cs"
    using len(3,4) by (simp_all add: sz_add_exact)
  have "0 < ?n + length cs" using len(2) by simp
  note pos = this
  from PointerForAppend_spec[OF bw live pos can] obtain c where c:
    "IHS_BufferPointerForAppend mem ?b (?n + length cs) = Some (c, buf_offset ?b + buf_size ?b)" "buf_wf c"
    "buf_offset c = buf_offset ?b" "buf_size c = buf_size ?b" "buf_suffix c = buf_suffix ?b"
    "buf_offset ?b + buf_size ?b + (?n + length cs) + buf_suffix ?b \<le> buf_capacity c" "buf_content c = buf_content ?b"
    by blast
  let ?p = "buf_offset ?b + buf_size ?b"
  have capc: "0 < buf_capacity c" using c(6) pos by linarith
  obtain ys where ys: "buf_data c = Some ys" "length ys = buf_capacity c" using buf_wf_block[OF c(2) capc] .
  have "?n + length cs \<le> length (drop ?p ys)" using c(6) ys(2) by simp
  from compute_delta_spec[OF len(1,3,4) this] obtain area k where a:
    "ComputeDelta ps cs (length cs) (rh_length h) (drop ?p ys) = Some (area, k)" "length area = length (drop ?p ys)"
    "k \<le> ?n + length cs" "apply_delta ?n ps (take k area) = cs" by blast
  let ?d = "c\<lparr>buf_data := Some (take ?p ys @ area)\<rparr>"
  have lz: "length (take ?p ys @ area) = buf_capacity c" using a(2) ys(2) c(6) by simp
  have wd: "buf_wf ?d" using c(2) lz by (simp add: buf_wf_def)
  have grow: "buf_content (?d\<lparr>buf_size := buf_size ?b + m\<rparr>) = buf_content ?b @ take m area" for m
  proof -
    have "buf_content ?b = take (buf_size ?b) (drop (buf_offset ?b) ys)"
      using c(3,4,7) ys(1) by (simp add: buf_content_def[of c])
    moreover have "drop (buf_offset ?b) (take ?p ys) = take (buf_size ?b) (drop (buf_offset ?b) ys)"
      by (simp add: drop_take)
    ultimately show ?thesis using c(3) c(6) ys(2) by (simp add: buf_content_def)
  qed
  have same: "?d\<lparr>buf_size := buf_size ?b\<rparr> = ?d" unfolding c(4)[symmetric] by (cases c) simp
  have cd: "buf_content ?d = buf_content ?b" using grow[of 0] same by simp
  show ?thesis
  proof (cases "k + 8 \<ge> length cs")
    case True
    have can2: "can_hold ?d (buf_offset ?d + (buf_size ?d + length cs) + buf_suffix ?d)"
      using c(3,4,5,6) capc by (simp add: can_hold_def grow_base_def)
    obtain e where e: "IHS_BufferAppendMem mem ?d cs = Some e" "buf_wf e" "buf_content e = buf_content ?b @ cs"
      using AppendMem_spec[OF wd live can2] len(2) cd by metis
    obtain f q where f: "IHS_BufferPointerForAppend mem ?d (length cs) = Some (f, q)"
      and g: "map_option (\<lambda>g. g\<lparr>buf_size := sz_add (buf_size g) (length cs)\<rparr>) (buf_store f q cs) = Some e"
      using e(1) by (auto simp: IHS_BufferAppendMem_def split: bind_splits)
    obtain g' where g': "buf_store f q cs = Some g'" "e = g'\<lparr>buf_size := sz_add (buf_size g') (length cs)\<rparr>"
      using g by auto
    have it: "item_len (full_item (length cs)) = length cs" by (simp add: item_len_def full_item_def)
    obtain h' where h': "push_item True (h1\<lparr>rh_data := e\<rparr>) (full_item (length cs)) (buf_size ?b) = Some h'" "holder_wf h'"
      "rh_length h' = rh_length h" "al_size (rh_items h') = Suc (al_size (rh_items h))"
      "decode_reports h' s = decode_item ?n (buf_content ?b @ cs) (decode_reports h s) (full_item (length cs), buf_size ?b)"
      using add_item_spec[OF wf cap e(2,3) it s1(1)[of e], where s = s] s1(2-4) by auto
    have "decode_reports h' s = cs" using h'(5) lb by (simp add: decode_item_def full_item_def)
    moreover have "IHS_HIDReportHolderAddDelta mem True h ps cs = Some (h'\<lparr>rh_n_reports := al_size (rh_items h')\<rparr>)"
      using h1[folded h1_def] c(1) ys(1) a(1,3) f g' h'(1) True same
      by (simp add: IHS_HIDReportHolderAddDelta_def Let_def s1(4,5) sz)
    ultimately show ?thesis using h'(2-4) by (auto simp: holder_wf_def decode_reports_def stash_wf_def)
  next
    case False
    let ?e = "?d\<lparr>buf_size := buf_size ?b + k\<rparr>"
    have we: "buf_wf ?e"
      using buf_wf_set_data[OF c(2) capc lz, of "buf_size ?b + k"] c(3,5,6) a(3) by simp
    have it: "item_len (delta_item k cs) = length (take k area)"
      using a(2,3) ys(2) c(6) by (simp add: item_len_def delta_item_def zero_item_def)
    obtain h' where h': "push_item True (h1\<lparr>rh_data := ?e\<rparr>) (delta_item k cs) (buf_size ?b) = Some h'" "holder_wf h'"
      "rh_length h' = rh_length h" "al_size (rh_items h') = Suc (al_size (rh_items h))"
      "decode_reports h' s = decode_item ?n (buf_content ?b @ take k area) (decode_reports h s) (delta_item k cs, buf_size ?b)"
      using add_item_spec[OF wf cap we grow it s1(1)[of ?e], where s = s] s1(2-4) by auto
    have "decode_reports h' s = cs"
      using h'(5) lb before a(4) by (simp add: decode_item_def delta_item_def zero_item_def)
    moreover have "sz_add (buf_size ?b) k = buf_size ?b + k"
      using a(3) c(6) buf_wf_bounds(3)[OF c(2)] by (intro sz_add_exact) linarith
    then have "IHS_HIDReportHolderAddDelta mem True h ps cs = Some (h'\<lparr>rh_n_reports := al_size (rh_items h')\<rparr>)"
      using h1[folded h1_def] c(1,4) ys(1) a(1,3) h'(1) False
      by (simp add: IHS_HIDReportHolderAddDelta_def Let_def s1(4,5) sz)
    ultimately show ?thesis using h'(2-4) by (auto simp: holder_wf_def decode_reports_def stash_wf_def)
  qed
qed

definition example_holder :: report_holder where
  "example_holder = IHS_HIDReportHolderSetReportLength (the (IHS_HIDReportHolderInit True 88 7)) 16"

lemma example_holder_wf: "holder_wf example_holder" "decode_reports example_holder s = s"
  by (simp_all add: example_holder_def IHS_HIDReportHolderSetReportLength_def IHS_HIDReportHolderInit_def IHS_ArrayListInit_def
      holder_wf_def stash_wf_def al_wf_def al_list_def decode_reports_def buf_wf_Init)

theorem hid_delta_chain_witness:
  "\<exists>h'. IHS_HIDReportHolderAddDelta zero_mem True example_holder (replicate 16 0) ((replicate 16 0)[9 := 5]) = Some h' \<and>
     decode_reports h' (replicate 16 0) = (replicate 16 0)[9 := 5]"
proof -
  have e: "rh_length example_holder = 16" "al_capacity (rh_items example_holder) = 16" "al_capacity (rh_offsets example_holder) = 16"
    "rh_data example_holder = IHS_BufferInit 256 8192"
    by (simp_all add: example_holder_def IHS_HIDReportHolderSetReportLength_def IHS_HIDReportHolderInit_def IHS_ArrayListInit_def)
  have "can_hold (IHS_BufferInit 256 8192) 18" by (simp add: can_hold_def grow_base_def IHS_BufferInit_def)
  then have "\<exists>h'. IHS_HIDReportHolderAddDelta zero_mem True example_holder (replicate 16 0) ((replicate 16 0)[9 := 5]) = Some h' \<and>
      holder_wf h' \<and> decode_reports h' (replicate 16 0) = (replicate 16 0)[9 := 5] \<and>
      rh_n_reports h' = Suc (al_size (rh_items example_holder)) \<and> rh_length h' = rh_length example_holder"
    by (intro hid_delta_chain[OF example_holder_wf(1) live_alloc_zero_mem])
      (simp_all add: e example_holder_wf(2) IHS_BufferInit_def)
  then show ?thesis by blast
qed

end
