(* ===== verification/Transport.thy ===== *)
theory Transport
  imports Session_Link Clock
begin

text \<open>
  The life of a connection: \<^verbatim>\<open>session/lifecycle.c\<close> (foreground changes, the periodic connect packet,
  the receive timeout), \<^verbatim>\<open>session/shutdown.c\<close> (disconnect, close, finish, the notification),
  \<^verbatim>\<open>session/connection_id.c\<close> and the transport part of \<^verbatim>\<open>session/client_shutdown.c\<close>.

  The record \<open>conn\<close> holds the fields of \<^verbatim>\<open>IHS_Session\<close> these operations touch; \<^verbatim>\<open>transport.detached\<close>
  and \<^verbatim>\<open>state.crcRequired\<close> are those of the link.  A packet is really built, sent through
  \<^verbatim>\<open>IHS_SessionSendPacket\<close> and cleared; \<^term>\<open>None\<close> is a failing assertion or allocation.  Calls into
  parts that are not modelled here (control messages, the lost-data message of a channel, the
  application's callback) are recorded in order in \<open>cn_calls\<close>.  \<open>rnd n\<close> is the \<open>n\<close>-th word that
  \<^verbatim>\<open>IHS_CryptoRandomUInt32\<close> returns.  Atomic fields are read and written by one thread at a time: a
  compare-and-exchange that fails is repeated, so its loop has the effect of one that succeeds.
\<close>

section \<open>State\<close>

datatype connection_state = Unconnected | Connecting | Handshaking | Authenticating | Negotiating
  | Starting | Connected | Stopping

primrec state_number :: "connection_state \<Rightarrow> nat" where
  "state_number Unconnected = 0"
| "state_number Connecting = 1"
| "state_number Handshaking = 2"
| "state_number Authenticating = 3"
| "state_number Negotiating = 4"
| "state_number Starting = 5"
| "state_number Connected = 6"
| "state_number Stopping = 7"

datatype transport_state = TransportConnecting | TransportConnected | TransportClosing | TransportClosed

datatype client_call = ControlPause | ControlResume | DataLostAudio | DataLostVideo | Disconnected

record transport =
  tp_updateTime :: u32
  tp_lastReceive :: u32
  tp_lastConnect :: u32
  tp_appliedGeneration :: u32
  tp_lifecycleGeneration :: u32
  tp_shutdown :: nat
  tp_notified :: bool
  tp_addressCleared :: bool
  tp_active :: bool
  tp_clientPaused :: bool
  tp_connectionPaused :: bool
  tp_timedOut :: bool

record 'n conn =
  cn_tp :: transport
  cn_connectionState :: connection_state
  cn_connectionId :: u8
  cn_hostConnectionId :: u8
  cn_clock :: stream_clock
  cn_interrupted :: bool
  cn_testMode :: bool
  cn_testPhase :: nat
  cn_outgoing :: outgoing
  cn_link :: "'n link"
  cn_nextConnectionId :: u32
  cn_draws :: nat
  cn_calls :: "client_call list"

section \<open>Connection identifiers\<close>

partial_function (option) seed_id :: "(nat \<Rightarrow> u32) \<Rightarrow> nat \<Rightarrow> u32 \<Rightarrow> (u32 \<times> nat) option" where
  "seed_id rnd draws cid =
     (if cid \<noteq> 0 then Some (cid, draws)
      else seed_id rnd (Suc draws) ((rnd draws AND 0x7FFFFFFF) mod 255))"

definition IHS_SessionNextConnectionId :: "(nat \<Rightarrow> u32) \<Rightarrow> 'n conn \<Rightarrow> (u8 \<times> 'n conn) option" where
  "IHS_SessionNextConnectionId rnd s = do {
     (id, draws) \<leftarrow> seed_id rnd (cn_draws s) (cn_nextConnectionId s);
     let nxt = (if id = 255 then 1 else id + 1);
     Some (ucast id, s\<lparr>cn_nextConnectionId := nxt, cn_draws := draws\<rparr>)
   }"

section \<open>Shutdown\<close>

definition IHS_SessionTransportState :: "'n conn \<Rightarrow> transport_state" where
  "IHS_SessionTransportState s =
     (let shutdown = tp_shutdown (cn_tp s) in
      if shutdown \<noteq> 0 then (if shutdown = 1 then TransportClosing else TransportClosed)
      else if cn_connectionState s = Connecting then TransportConnecting
      else if state_number Handshaking \<le> state_number (cn_connectionState s) then TransportConnected
      else TransportClosed)"

definition IHS_SessionSendPacket ::
    "'n platform \<Rightarrow> 'n conn \<Rightarrow> session_packet \<Rightarrow> (bool \<times> session_packet \<times> 'n conn) option" where
  "IHS_SessionSendPacket pf s packet = do {
     (result, packet, o', l) \<leftarrow> IHS_SessionSendPacketResult pf packet (cn_outgoing s) (cn_link s);
     Some (result = 0, packet, s\<lparr>cn_outgoing := o', cn_link := l\<rparr>)
   }"

text \<open>A connection packet is initialized, sent once and cleared.\<close>

definition send_once :: "'n platform \<Rightarrow> 'n conn \<Rightarrow> packet_header \<Rightarrow> bytes \<Rightarrow> (bool \<times> 'n conn) option" where
  "send_once pf s header payload = do {
     body \<leftarrow> IHS_SessionPacketBodyInitialize (pf_mem pf) False;
     body \<leftarrow> (if payload = [] then Some body else IHS_BufferAppendMem (pf_mem pf) body payload);
     (sent, packet, s) \<leftarrow> IHS_SessionSendPacket pf s (zero_packet\<lparr>pkt_header := header, pkt_body := body\<rparr>);
     _ \<leftarrow> IHS_SessionPacketClear packet True;
     Some (sent, s)
   }"

definition IHS_SessionTransportDisconnect :: "'n platform \<Rightarrow> 'n conn \<Rightarrow> 'n conn option" where
  "IHS_SessionTransportDisconnect pf s =
     (if lk_detached (cn_link s) then Some s
      else do {
        let state = IHS_SessionTransportState s;
        s \<leftarrow> (if state = TransportConnected
              then map_option snd (send_once pf s (zero_header\<lparr>hdr_type := IHS_SessionPacketTypeDisconnect,
                     hdr_srcConnectionId := cn_connectionId s, hdr_dstConnectionId := cn_hostConnectionId s\<rparr>) [])
              else Some s);
        Some (if state \<noteq> TransportClosed then s\<lparr>cn_tp := (cn_tp s)\<lparr>tp_shutdown := 1\<rparr>\<rparr> else s)
      })"

definition IHS_SessionTransportClose :: "'n platform \<Rightarrow> 'n conn \<Rightarrow> 'n conn option" where
  "IHS_SessionTransportClose pf s =
     (if lk_detached (cn_link s) then Some s
      else map_option (\<lambda>s. s\<lparr>cn_link := (cn_link s)\<lparr>lk_detached := True\<rparr>\<rparr>) (IHS_SessionTransportDisconnect pf s))"

text \<open>\<open>registered\<close> says whether the application has set the \<^verbatim>\<open>disconnected\<close> callback.\<close>

definition IHS_SessionNotifyDisconnected :: "bool \<Rightarrow> 'n conn \<Rightarrow> 'n conn" where
  "IHS_SessionNotifyDisconnected registered s =
     (if tp_notified (cn_tp s) then s
      else let s = s\<lparr>cn_tp := (cn_tp s)\<lparr>tp_notified := True\<rparr>\<rparr> in
        if registered then s\<lparr>cn_calls := cn_calls s @ [Disconnected]\<rparr> else s)"

definition IHS_SessionNetworkTestClosed :: "'n conn \<Rightarrow> 'n conn" where
  "IHS_SessionNetworkTestClosed s = (if cn_testMode s then s\<lparr>cn_testPhase := 0\<rparr> else s)"

definition IHS_SessionClientTransportClosed :: "'n conn \<Rightarrow> 'n conn" where
  "IHS_SessionClientTransportClosed s =
     (if cn_testMode s then (IHS_SessionNetworkTestClosed s)\<lparr>cn_connectionState := Unconnected\<rparr>
      else if cn_connectionState s = Connected
      then s\<lparr>cn_connectionState := Stopping, cn_tp := (cn_tp s)\<lparr>tp_clientPaused := False\<rparr>\<rparr>
      else s\<lparr>cn_connectionState := Unconnected\<rparr>)"

definition IHS_SessionTransportFinish :: "(nat \<Rightarrow> u32) \<Rightarrow> 'n conn \<Rightarrow> (bool \<times> 'n conn) option" where
  "IHS_SessionTransportFinish rnd s =
     (if tp_shutdown (cn_tp s) \<noteq> 1 then Some (False, s)
      else do {
        let s = (if lk_detached (cn_link s) then s else IHS_SessionClientTransportClosed s);
        let s = s\<lparr>cn_hostConnectionId := 0\<rparr>;
        (id, s) \<leftarrow> IHS_SessionNextConnectionId rnd s;
        Some (True, s\<lparr>cn_connectionId := id,
          cn_tp := (cn_tp s)\<lparr>tp_addressCleared := True, tp_shutdown := 2, tp_active := False\<rparr>\<rparr>)
      })"

section \<open>Foreground changes and the update\<close>

text \<open>The lowest bit of the generation is the requested state: set in the background.\<close>

definition IHS_SessionSetForeground :: "'n conn \<Rightarrow> bool \<Rightarrow> 'n conn" where
  "IHS_SessionSetForeground s foreground =
     (let generation = tp_lifecycleGeneration (cn_tp s) in
      if generation AND 1 \<noteq> (if foreground then 0 else 1)
      then s\<lparr>cn_tp := (cn_tp s)\<lparr>tp_lifecycleGeneration := generation + 1\<rparr>\<rparr> else s)"

definition IHS_SessionTransportBegin :: "'n conn \<Rightarrow> u32 \<Rightarrow> 'n conn" where
  "IHS_SessionTransportBegin s now =
     s\<lparr>cn_tp := (cn_tp s)\<lparr>tp_updateTime := now, tp_lastReceive := now, tp_lastConnect := 0, tp_active := True\<rparr>,
       cn_clock := (cn_clock s)\<lparr>clk_lastEcho := now, clk_haveEcho := True\<rparr>\<rparr>"

definition IHS_SessionTransportSendConnect :: "'n platform \<Rightarrow> 'n conn \<Rightarrow> (bool \<times> 'n conn) option" where
  "IHS_SessionTransportSendConnect pf s =
     send_once pf s (zero_header\<lparr>hdr_type := IHS_SessionPacketTypeConnect,
       hdr_srcConnectionId := cn_connectionId s\<rparr>) [0xc7, 0x3d, 0x8f, 0x3c]"

definition conn_connected :: "'n conn \<Rightarrow> bool" where
  "conn_connected s \<longleftrightarrow> IHS_SessionTransportState s = TransportConnected \<and> \<not> lk_detached (cn_link s) \<and>
     \<not> cn_interrupted s"

definition ChangeForeground :: "'n conn \<Rightarrow> bool \<Rightarrow> 'n conn" where
  "ChangeForeground s foreground =
     (let phase = cn_connectionState s; connected = conn_connected s in
      if \<not> foreground then
        if tp_clientPaused (cn_tp s) then s
        else
          let s = (if connected then
                let s = (if phase = Connected then s\<lparr>cn_calls := cn_calls s @ [ControlPause]\<rparr> else s) in
                s\<lparr>cn_tp := (cn_tp s)\<lparr>tp_connectionPaused := True\<rparr>\<rparr>
              else s) in
          s\<lparr>cn_tp := (cn_tp s)\<lparr>tp_clientPaused := True\<rparr>\<rparr>
      else
        if \<not> tp_clientPaused (cn_tp s) then s
        else
          let s = (if connected then
                let s = s\<lparr>cn_tp := (cn_tp s)\<lparr>tp_connectionPaused := False,
                            tp_lastReceive := tp_updateTime (cn_tp s)\<rparr>,
                          cn_clock := (cn_clock s)\<lparr>clk_lastEcho := tp_updateTime (cn_tp s), clk_haveEcho := True\<rparr>\<rparr> in
                if phase = Connected
                then s\<lparr>cn_calls := cn_calls s @ [ControlResume, DataLostAudio, DataLostVideo]\<rparr> else s
              else s) in
          s\<lparr>cn_tp := (cn_tp s)\<lparr>tp_clientPaused := False\<rparr>\<rparr>)"

fun apply_generations :: "nat \<Rightarrow> u32 \<Rightarrow> 'n conn \<Rightarrow> 'n conn" where
  "apply_generations 0 requested s = s"
| "apply_generations (Suc n) requested s =
     (if tp_appliedGeneration (cn_tp s) = requested then s
      else let generation = tp_appliedGeneration (cn_tp s) + 1;
               s = s\<lparr>cn_tp := (cn_tp s)\<lparr>tp_appliedGeneration := generation\<rparr>\<rparr> in
        apply_generations n requested (ChangeForeground s (generation AND 1 = 0)))"

definition IHS_SessionTransportPrepareUpdate ::
    "'n platform \<Rightarrow> (nat \<Rightarrow> u32) \<Rightarrow> 'n conn \<Rightarrow> u32 \<Rightarrow> 'n conn option" where
  "IHS_SessionTransportPrepareUpdate pf rnd s now = do {
     let s = apply_generations 32 (tp_lifecycleGeneration (cn_tp s)) s;
     let s = s\<lparr>cn_tp := (cn_tp s)\<lparr>tp_updateTime := now\<rparr>\<rparr>;
     (finished, s) \<leftarrow> IHS_SessionTransportFinish rnd s;
     if finished then Some s
     else if \<not> tp_active (cn_tp s) \<or> tp_timedOut (cn_tp s) \<or> lk_detached (cn_link s) \<or>
         IHS_SessionTransportState s = TransportClosed then Some s
     else if cn_connectionState s = Connecting \<and>
         (tp_lastConnect (cn_tp s) = 0 \<or> 6553 \<le> now - tp_lastConnect (cn_tp s)) then do {
       (_, s) \<leftarrow> IHS_SessionTransportSendConnect pf s;
       Some (s\<lparr>cn_tp := (cn_tp s)\<lparr>tp_lastConnect := now\<rparr>\<rparr>)
     }
     else Some s
   }"

definition IHS_SessionTransportCheckTimeout :: "'n platform \<Rightarrow> 'n conn \<Rightarrow> u32 \<Rightarrow> 'n conn option" where
  "IHS_SessionTransportCheckTimeout pf s now =
     (let state = IHS_SessionTransportState s in
      if \<not> tp_active (cn_tp s) \<or> tp_timedOut (cn_tp s) \<or> lk_detached (cn_link s) \<or>
         (state \<noteq> TransportConnecting \<and> state \<noteq> TransportConnected) then Some s
      else
        let timeout = (if tp_connectionPaused (cn_tp s) then 180 else 15) * 65536 in
        if timeout \<le> now - tp_lastReceive (cn_tp s)
        then IHS_SessionTransportDisconnect pf
          (s\<lparr>cn_tp := (cn_tp s)\<lparr>tp_timedOut := True, tp_active := False\<rparr>\<rparr>)
        else Some s)"

definition IHS_SessionTransportUpdate ::
    "'n platform \<Rightarrow> (nat \<Rightarrow> u32) \<Rightarrow> 'n conn \<Rightarrow> u32 \<Rightarrow> 'n conn option" where
  "IHS_SessionTransportUpdate pf rnd s now =
     Option.bind (IHS_SessionTransportPrepareUpdate pf rnd s now)
       (\<lambda>s. IHS_SessionTransportCheckTimeout pf s now)"

text \<open>
  The part of \<^verbatim>\<open>SessionInitialized\<close> under the base lock, by which the worker starts the connection.
\<close>

definition SessionInitialized :: "'n platform \<Rightarrow> (nat \<Rightarrow> u32) \<Rightarrow> 'n conn \<Rightarrow> 'n conn option" where
  "SessionInitialized pf rnd s =
     (if lk_detached (cn_link s) \<or> cn_interrupted s then Some s
      else do {
        (cid, s) \<leftarrow> IHS_SessionNextConnectionId rnd s;
        let s = s\<lparr>cn_connectionId := cid, cn_connectionState := Connecting, cn_hostConnectionId := 0,
                  cn_link := (cn_link s)\<lparr>lk_crcRequired := False\<rparr>\<rparr>;
        let (now, env) = pf_now pf (lk_env (cn_link s));
        let s = IHS_SessionTransportBegin (s\<lparr>cn_link := (cn_link s)\<lparr>lk_env := env\<rparr>\<rparr>) now;
        map_option snd (IHS_SessionTransportSendConnect pf s)
      })"

end
