(* ===== verification/Transport_Spec.thy ===== *)
theory Transport_Spec
  imports Transport Retransmission_Spec Outgoing_Spec
begin

text \<open>
  The shape of every operation on a connection: sending a connection packet always succeeds in
  building it and changes only the outgoing side and the link; the effect of the foreground edges;
  the shutdown operations.  Generators of connection identifiers.
\<close>

section \<open>Connection packets\<close>

text \<open>
  A packet of the connection itself is in no rate class, so it reaches the socket unless the session
  is detached.
\<close>

definition conn_frame :: "'n platform \<Rightarrow> 'n conn \<Rightarrow> packet_header \<Rightarrow> bytes \<Rightarrow> bytes" where
  "conn_frame pf s h payload = frame_bytes (h\<lparr>hdr_sendTimestamp := fst (pf_now pf (lk_env (cn_link s))),
     hdr_hasCrc := lk_crcRequired (cn_link s)\<rparr>) payload"

definition conn_sent :: "'n platform \<Rightarrow> 'n conn \<Rightarrow> bytes \<Rightarrow> send_status \<times> 'n" where
  "conn_sent pf s frame = pf_send pf frame (snd (pf_now pf (lk_env (cn_link s))))"

lemma SendPacketResult_link:
  assumes "IHS_SessionSendPacketResult pf p o1 l = Some (r, p', o2, l')"
  shows "lk_detached l' = lk_detached l" "lk_crcRequired l' = lk_crcRequired l"
  using assms by (auto simp: IHS_SessionSendPacketResult_def Let_def split: if_splits prod.splits bind_splits)

lemma send_once_packet:
  fixes pf :: "'n platform"
  assumes live: "live_alloc (pf_mem pf)" and len: "length payload \<le> 1000" and crc: "\<not> hdr_hasCrc h"
  obtains p r p' o' l where "link_ok p" "pkt_header p = h" "buf_content (pkt_body p) = payload"
    "IHS_SessionSendPacketResult pf p (cn_outgoing s) (cn_link s) = Some (r, p', o', l)"
    "send_once pf s h payload = Some (r = 0, s\<lparr>cn_outgoing := o', cn_link := l\<rparr>)"
proof -
  obtain xs where xs: "length xs = 2048" "IHS_SessionPacketBodyInitialize (pf_mem pf) False =
       Some \<lparr>buf_data = Some xs, buf_capacity = 2048, buf_offset = 13, buf_size = 0,
         buf_suffix = 0, buf_initialCapacity = 2048, buf_maxCapacity = 2048\<rparr>"
    using BodyInitialize_ok[OF live, of False] by auto
  define b where "b = \<lparr>buf_data = Some xs, buf_capacity = 2048, buf_offset = 13, buf_size = 0,
         buf_suffix = 0, buf_initialCapacity = 2048, buf_maxCapacity = 2048\<rparr>"
  have wf: "buf_wf b" using xs(1) by (simp add: b_def buf_wf_def)
  have "\<exists>b'. (if payload = [] then Some b else IHS_BufferAppendMem (pf_mem pf) b payload) = Some b' \<and>
     buf_wf b' \<and> buf_offset b' = 13 \<and> buf_suffix b' = 0 \<and> buf_size b' \<le> 1000 \<and> 2048 \<le> buf_capacity b' \<and>
     buf_content b' = payload"
  proof (cases "payload = []")
    case True
    then show ?thesis using wf by (simp add: b_def buf_content_def)
  next
    case False
    have can: "can_hold b (buf_offset b + (buf_size b + length payload) + buf_suffix b)"
      using len by (simp add: can_hold_def grow_base_def b_def)
    obtain b' where b': "IHS_BufferAppendMem (pf_mem pf) b payload = Some b'" "buf_wf b'" "buf_frame b b'"
      "buf_offset b' = buf_offset b" "buf_size b' = buf_size b + length payload"
      "buf_content b' = buf_content b @ payload"
      using AppendMem_spec[OF wf live can] False by metis
    show ?thesis using b' False len by (auto simp: b_def buf_frame_def buf_content_def)
  qed
  then obtain b' where b': "(if payload = [] then Some b else IHS_BufferAppendMem (pf_mem pf) b payload) = Some b'"
     "buf_wf b'" "buf_offset b' = 13" "buf_suffix b' = 0" "buf_size b' \<le> 1000" "2048 \<le> buf_capacity b'"
     "buf_content b' = payload" by blast
  define p where "p = zero_packet\<lparr>pkt_header := h, pkt_body := b'\<rparr>"
  have ok: "link_ok p" using b' crc by (simp add: link_ok_def sendable_def p_def)
  obtain r p' o' l where run: "IHS_SessionSendPacketResult pf p (cn_outgoing s) (cn_link s) = Some (r, p', o', l)"
    using link_tx.send_total[OF ok] by blast
  have "buf_wf (pkt_body p')" using link_tx.send_packet[OF ok run] by simp
  then obtain q where q: "IHS_SessionPacketClear p' True = Some q" using PacketClear_total by blast
  have once: "send_once pf s h payload = Some (r = 0, s\<lparr>cn_outgoing := o', cn_link := l\<rparr>)"
    unfolding send_once_def xs(2)[folded b_def] Option.bind.bind_lunit b'(1)
    using run q by (simp add: IHS_SessionSendPacket_def p_def)
  have "pkt_header p = h" "buf_content (pkt_body p) = payload" using b'(7) by (simp_all add: p_def)
  then show thesis using that[OF ok _ _ run once] by blast
qed

lemma send_once_ok:
  fixes pf :: "'n platform"
  assumes live: "live_alloc (pf_mem pf)" and len: "length payload \<le> 1000" and crc: "\<not> hdr_hasCrc h"
    and cls: "packet_class (hdr_type h) = None"
  shows "\<exists>sent o' l. send_once pf s h payload = Some (sent, s\<lparr>cn_outgoing := o', cn_link := l\<rparr>) \<and>
     lk_detached l = lk_detached (cn_link s) \<and> lk_crcRequired l = lk_crcRequired (cn_link s) \<and>
     (\<not> lk_detached (cn_link s) \<longrightarrow>
        (let (st, n) = conn_sent pf s (conn_frame pf s h payload) in sent = (st = SendOk) \<and> lk_env l = n))"
proof -
  obtain p r p' o' l where p: "link_ok p" "pkt_header p = h" "buf_content (pkt_body p) = payload"
    and run: "IHS_SessionSendPacketResult pf p (cn_outgoing s) (cn_link s) = Some (r, p', o', l)"
    and once: "send_once pf s h payload = Some (r = 0, s\<lparr>cn_outgoing := o', cn_link := l\<rparr>)"
    by (rule send_once_packet[OF live len crc])
  have "\<not> lk_detached (cn_link s) \<longrightarrow> (let (st, n) = conn_sent pf s (conn_frame pf s h payload) in
      (r = 0) = (st = SendOk) \<and> lk_env l = n)"
    using p(1)
  proof (cases rule: send_result_cases[of p "cn_link s" pf "cn_outgoing s"])
    case refused
    then show ?thesis using cls by (simp add: IHS_OutgoingCanSend_def p(2))
  next
    case (tried p1 o2 d st)
    then show ?thesis using run crc p(2,3)
      by (auto simp: conn_sent_def conn_frame_def send_code_def split: prod.splits send_status.splits)
  qed (use run in simp)
  then show ?thesis using once SendPacketResult_link[OF run] by blast
qed

section \<open>Connection identifiers\<close>

definition ids_ok :: "(nat \<Rightarrow> u32) \<Rightarrow> 'n conn \<Rightarrow> bool" where
  "ids_ok rnd s \<longleftrightarrow> cn_nextConnectionId s \<le> 255 \<and>
     (cn_nextConnectionId s = 0 \<longrightarrow> (\<exists>k \<ge> cn_draws s. (rnd k AND 0x7FFFFFFF) mod 255 \<noteq> 0))"

lemma seed_id_found:
  assumes "(rnd (d + n) AND 0x7FFFFFFF) mod 255 \<noteq> 0"
  shows "\<exists>cid d'. seed_id rnd d 0 = Some (cid, d') \<and> cid \<noteq> 0 \<and> cid < 255"
  using assms
proof (induction n arbitrary: d)
  case 0
  then show ?case by (subst seed_id.simps, subst seed_id.simps) (simp add: word_mod_less_divisor)
next
  case (Suc n)
  show ?case
  proof (cases "(rnd d AND 0x7FFFFFFF) mod 255 = 0")
    case True
    then show ?thesis using Suc.IH[of "Suc d"] Suc.prems by (subst seed_id.simps) simp
  next
    case False
    then show ?thesis by (subst seed_id.simps, subst seed_id.simps) (simp add: word_mod_less_divisor)
  qed
qed

lemma seed_id_ok:
  assumes "ids_ok rnd s"
  shows "\<exists>cid d. seed_id rnd (cn_draws s) (cn_nextConnectionId s) = Some (cid, d) \<and> cid \<noteq> 0 \<and> cid \<le> 255 \<and>
     (cn_nextConnectionId s \<noteq> 0 \<longrightarrow> cid = cn_nextConnectionId s)"
proof (cases "cn_nextConnectionId s = 0")
  case True
  then obtain k where "(rnd (cn_draws s + k) AND 0x7FFFFFFF) mod 255 \<noteq> 0"
    using assms by (auto simp: ids_ok_def le_iff_add)
  from seed_id_found[of rnd "cn_draws s" k, OF this] True show ?thesis
    by (metis order.strict_implies_order)
next
  case False
  then show ?thesis using assms by (subst seed_id.simps) (simp add: ids_ok_def)
qed

text \<open>The successor of an identifier; \<open>n\<close> identifiers are drawn one after the other.\<close>

definition next_id :: "u32 \<Rightarrow> u32" where
  "next_id cid = (if cid = 255 then 1 else cid + 1)"

lemma next_id_unat:
  assumes "cid \<noteq> 0" "cid \<le> 255"
  shows "next_id cid \<noteq> 0" "next_id cid \<le> 255" "unat (next_id cid) = unat cid mod 255 + 1"
proof -
  have u: "unat cid \<le> 255" "0 < unat cid" using assms by (simp_all add: word_le_nat_alt unat_gt_0)
  have "unat (next_id cid) = unat cid mod 255 + 1"
  proof (cases "cid = 255")
    case False
    then have "unat cid \<noteq> 255" using word_unat_eq_iff[of cid 255] by simp
    then show ?thesis using False u by (simp add: next_id_def unat_word_ariths)
  qed (simp add: next_id_def)
  moreover have "unat cid mod 255 < 255" by simp
  ultimately show "next_id cid \<noteq> 0" "next_id cid \<le> 255" "unat (next_id cid) = unat cid mod 255 + 1"
    by (auto simp: word_le_nat_alt unat_eq_0[symmetric] simp del: unat_eq_0)
qed

lemma NextConnectionId_ok:
  assumes "ids_ok rnd s"
  shows "\<exists>cid d. IHS_SessionNextConnectionId rnd s =
      Some (ucast cid, s\<lparr>cn_nextConnectionId := next_id cid, cn_draws := d\<rparr>) \<and> cid \<noteq> 0 \<and> cid \<le> 255 \<and>
      (cn_nextConnectionId s \<noteq> 0 \<longrightarrow> cid = cn_nextConnectionId s) \<and>
      ids_ok rnd (s\<lparr>cn_nextConnectionId := next_id cid, cn_draws := d\<rparr>)"
proof -
  obtain cid d where cd: "seed_id rnd (cn_draws s) (cn_nextConnectionId s) = Some (cid, d)" "cid \<noteq> 0" "cid \<le> 255"
     "cn_nextConnectionId s \<noteq> 0 \<longrightarrow> cid = cn_nextConnectionId s" using seed_id_ok[OF assms] by blast
  show ?thesis using cd next_id_unat[OF cd(2,3)]
    by (intro exI[of _ cid] exI[of _ d]) (simp add: IHS_SessionNextConnectionId_def next_id_def[symmetric] ids_ok_def)
qed

fun connection_ids :: "(nat \<Rightarrow> u32) \<Rightarrow> nat \<Rightarrow> 'n conn \<Rightarrow> (u8 list \<times> 'n conn) option" where
  "connection_ids rnd 0 s = Some ([], s)"
| "connection_ids rnd (Suc n) s = do {
     (i, s) \<leftarrow> IHS_SessionNextConnectionId rnd s;
     (is, s) \<leftarrow> connection_ids rnd n s;
     Some (i # is, s)
   }"

lemma connection_ids_seq:
  assumes "ids_ok rnd s"
  shows "\<exists>cid s'. cid \<noteq> 0 \<and> cid \<le> 255 \<and> (cn_nextConnectionId s \<noteq> 0 \<longrightarrow> cid = cn_nextConnectionId s) \<and>
     connection_ids rnd n s = Some (map (\<lambda>i. of_nat ((unat cid - 1 + i) mod 255 + 1)) [0..<n], s')"
  using assms
proof (induction n arbitrary: s)
  case 0
  then show ?case
    by (cases "cn_nextConnectionId s = 0") (auto simp: ids_ok_def intro: exI[of _ "1 :: u32"])
next
  case (Suc n)
  obtain cid :: u32 and d where step: "IHS_SessionNextConnectionId rnd s =
      Some (ucast cid, s\<lparr>cn_nextConnectionId := next_id cid, cn_draws := d\<rparr>)" "cid \<noteq> 0" "cid \<le> 255"
      "cn_nextConnectionId s \<noteq> 0 \<longrightarrow> cid = cn_nextConnectionId s"
      "ids_ok rnd (s\<lparr>cn_nextConnectionId := next_id cid, cn_draws := d\<rparr>)"
    using NextConnectionId_ok[OF Suc.prems] by blast
  have u: "0 < unat cid" "unat cid \<le> 255" using step(2,3) by (simp_all add: word_le_nat_alt unat_gt_0)
  have n: "next_id cid \<noteq> 0" "unat (next_id cid) = unat cid mod 255 + 1" using next_id_unat[OF step(2,3)] by simp_all
  have "(unat cid - 1) mod 255 + 1 = unat cid" using u by simp
  then have first: "ucast cid = (of_nat ((unat cid - 1) mod 255 + 1) :: u8)" by simp
  have rest: "(unat cid mod 255 + 1 - 1 + i) mod 255 = (unat cid - 1 + Suc i) mod 255" for i
    using u by (simp add: mod_add_left_eq)
  obtain s' where "connection_ids rnd n (s\<lparr>cn_nextConnectionId := next_id cid, cn_draws := d\<rparr>) =
      Some (map (\<lambda>i. of_nat ((unat (next_id cid) - 1 + i) mod 255 + 1)) [0..<n], s')"
    using Suc.IH[OF step(5)] n(1) by auto
  then show ?case using step(1-4) n first rest
    by (intro exI[of _ cid]) (auto simp: upt_conv_Cons map_Suc_upt[symmetric] o_def simp del: upt_Suc)
qed

section \<open>Foreground edges\<close>

text \<open>
  The calls that a number of alternating edges causes, and the calls that a sequence of requests
  causes when only those that change the state count; \<open>p\<close> is the state before (paused or not).
\<close>

definition edge_call :: "bool \<Rightarrow> client_call list" where
  "edge_call p = (if p then [ControlResume, DataLostAudio, DataLostVideo] else [ControlPause])"

fun edges :: "bool \<Rightarrow> nat \<Rightarrow> client_call list" where
  "edges p 0 = []"
| "edges p (Suc n) = edge_call p @ edges (\<not> p) n"

fun request_calls :: "bool \<Rightarrow> bool list \<Rightarrow> client_call list" where
  "request_calls p [] = []"
| "request_calls p (foreground # fs) = (if foreground = p then edge_call p else []) @ request_calls (\<not> foreground) fs"

lemma and_one_parity [simp]:
  "(g AND 1 = 0) = even g" "(g AND 1 = 1) = odd g" for g :: u32
  by (simp_all add: and_one_eq even_iff_mod_2_eq_zero odd_iff_mod_2_eq_one)

lemma edges_add: "edges p (m + n) = edges p m @ edges (p \<noteq> odd m) n"
proof (induction m arbitrary: p)
  case (Suc m)
  have "((\<not> p) \<noteq> odd m) = (p \<noteq> odd (Suc m))" by auto
  then show ?case by (simp only: add_Suc edges.simps Suc.IH append_assoc)
qed simp

definition streaming :: "'n conn \<Rightarrow> bool" where
  "streaming s \<longleftrightarrow> conn_connected s \<and> cn_connectionState s = Connected \<and>
     (tp_clientPaused (cn_tp s) \<longleftrightarrow> odd (tp_appliedGeneration (cn_tp s)))"

lemma streaming_shutdown: "streaming s \<Longrightarrow> tp_shutdown (cn_tp s) = 0"
  by (auto simp: streaming_def conn_connected_def IHS_SessionTransportState_def Let_def split: if_splits)

lemma streaming_iff: "streaming s \<longleftrightarrow> tp_shutdown (cn_tp s) = 0 \<and> \<not> lk_detached (cn_link s) \<and> \<not> cn_interrupted s \<and>
     cn_connectionState s = Connected \<and> (tp_clientPaused (cn_tp s) \<longleftrightarrow> odd (tp_appliedGeneration (cn_tp s)))"
proof (cases "tp_shutdown (cn_tp s) = 0")
  case True
  then show ?thesis
    by (cases "cn_connectionState s") (simp_all add: streaming_def conn_connected_def IHS_SessionTransportState_def)
next
  case False
  have "\<not> streaming s" by (rule notI, drule streaming_shutdown, simp add: False)
  then show ?thesis using False by simp
qed

text \<open>What the application of edges leaves alone.\<close>

definition same_request :: "'n conn \<Rightarrow> 'n conn \<Rightarrow> bool" where
  "same_request s s' \<longleftrightarrow> tp_lifecycleGeneration (cn_tp s') = tp_lifecycleGeneration (cn_tp s) \<and>
     tp_shutdown (cn_tp s') = tp_shutdown (cn_tp s) \<and> cn_link s' = cn_link s \<and> cn_interrupted s' = cn_interrupted s \<and>
     cn_connectionState s' = cn_connectionState s"

lemma ChangeForeground_frame: "same_request s (ChangeForeground s f)"
  by (simp add: same_request_def ChangeForeground_def Let_def)

lemma same_request_trans: "same_request a b \<Longrightarrow> same_request b c \<Longrightarrow> same_request a c"
  by (simp add: same_request_def)

lemma same_request_connected: "same_request s s' \<Longrightarrow> conn_connected s' = conn_connected s"
  by (simp add: same_request_def conn_connected_def IHS_SessionTransportState_def)

lemma ChangeForeground_edge:
  fixes s :: "'n conn"
  defines "g \<equiv> tp_appliedGeneration (cn_tp s) + 1"
  defines "s' \<equiv> ChangeForeground (s\<lparr>cn_tp := (cn_tp s)\<lparr>tp_appliedGeneration := g\<rparr>\<rparr>) (g AND 1 = 0)"
  assumes st: "streaming s"
  shows "streaming s'" "tp_appliedGeneration (cn_tp s') = g" "same_request s s'"
    "cn_calls s' = cn_calls s @ edge_call (tp_clientPaused (cn_tp s))"
    "tp_clientPaused (cn_tp s') \<longleftrightarrow> \<not> tp_clientPaused (cn_tp s)"
proof -
  have par: "g AND 1 = 0 \<longleftrightarrow> tp_clientPaused (cn_tp s)" using st by (simp add: g_def streaming_def)
  show fr: "same_request s s'"
    unfolding s'_def by (rule same_request_trans[OF _ ChangeForeground_frame]) (simp add: same_request_def)
  show calls: "cn_calls s' = cn_calls s @ edge_call (tp_clientPaused (cn_tp s))"
    and p: "tp_clientPaused (cn_tp s') \<longleftrightarrow> \<not> tp_clientPaused (cn_tp s)"
    and a: "tp_appliedGeneration (cn_tp s') = g"
    using st unfolding s'_def par
    using streaming_shutdown[OF st]
    by (simp_all add: ChangeForeground_def Let_def streaming_def conn_connected_def IHS_SessionTransportState_def edge_call_def)
  show "streaming s'"
    using st same_request_connected[OF fr] fr p a by (simp add: streaming_def same_request_def g_def)
qed

lemma apply_generations_edges:
  fixes s :: "'n conn" and n :: nat and requested :: u32
  assumes "streaming s"
  defines "k \<equiv> min n (unat (requested - tp_appliedGeneration (cn_tp s)))"
  shows "streaming (apply_generations n requested s)" "same_request s (apply_generations n requested s)"
    "tp_appliedGeneration (cn_tp (apply_generations n requested s)) = tp_appliedGeneration (cn_tp s) + of_nat k"
    "cn_calls (apply_generations n requested s) = cn_calls s @ edges (tp_clientPaused (cn_tp s)) k"
proof -
  have "streaming (apply_generations n requested s) \<and> same_request s (apply_generations n requested s) \<and>
    tp_appliedGeneration (cn_tp (apply_generations n requested s)) = tp_appliedGeneration (cn_tp s) + of_nat k \<and>
    cn_calls (apply_generations n requested s) = cn_calls s @ edges (tp_clientPaused (cn_tp s)) k"
    using assms(1) unfolding k_def
  proof (induction n arbitrary: s)
    case 0
    then show ?case by (simp add: same_request_def)
  next
    case (Suc n)
    show ?case
    proof (cases "tp_appliedGeneration (cn_tp s) = requested")
      case True
      then show ?thesis using Suc.prems by (simp add: same_request_def)
    next
      case False
      let ?g = "tp_appliedGeneration (cn_tp s)"
      define s1 where "s1 = ChangeForeground (s\<lparr>cn_tp := (cn_tp s)\<lparr>tp_appliedGeneration := ?g + 1\<rparr>\<rparr>) ((?g + 1) AND 1 = 0)"
      note e = ChangeForeground_edge[OF Suc.prems, folded s1_def]
      have "requested - ?g \<noteq> 0" using False by simp
      then have m: "unat (requested - ?g) = Suc (unat (requested - (?g + 1)))"
        using unat_minus_one[of "requested - ?g"] unat_gt_0[of "requested - ?g"] by (simp add: algebra_simps)
      have run: "apply_generations (Suc n) requested s = apply_generations n requested s1"
        using False by (simp add: s1_def Let_def)
      show ?thesis unfolding run m min_Suc_Suc
        using Suc.IH[OF e(1)] same_request_trans[OF e(3)] by (simp add: e(2,4,5))
    qed
  qed
  then show "streaming (apply_generations n requested s)" "same_request s (apply_generations n requested s)"
    "tp_appliedGeneration (cn_tp (apply_generations n requested s)) = tp_appliedGeneration (cn_tp s) + of_nat k"
    "cn_calls (apply_generations n requested s) = cn_calls s @ edges (tp_clientPaused (cn_tp s)) k" by blast+
qed

text \<open>While the stream is live the update only applies the edges and takes the time.\<close>

lemma PrepareUpdate_streaming:
  assumes "streaming s"
  shows "IHS_SessionTransportPrepareUpdate pf rnd s now =
     (let s = apply_generations 32 (tp_lifecycleGeneration (cn_tp s)) s in
      Some (s\<lparr>cn_tp := (cn_tp s)\<lparr>tp_updateTime := now\<rparr>\<rparr>))"
proof -
  let ?s = "apply_generations 32 (tp_lifecycleGeneration (cn_tp s)) s"
  have st: "streaming ?s" by (rule apply_generations_edges(1)[OF assms])
  then have "tp_shutdown (cn_tp ?s) = 0" "cn_connectionState ?s = Connected"
    by (simp_all add: streaming_shutdown) (simp add: streaming_def)
  then show ?thesis
    by (simp add: IHS_SessionTransportPrepareUpdate_def Let_def IHS_SessionTransportFinish_def)
qed

fun prepare_all :: "'n platform \<Rightarrow> (nat \<Rightarrow> u32) \<Rightarrow> u32 list \<Rightarrow> 'n conn \<Rightarrow> 'n conn option" where
  "prepare_all pf rnd [] s = Some s"
| "prepare_all pf rnd (now # ts) s =
     Option.bind (IHS_SessionTransportPrepareUpdate pf rnd s now) (prepare_all pf rnd ts)"

definition pending :: "'n conn \<Rightarrow> nat" where
  "pending s = unat (tp_lifecycleGeneration (cn_tp s) - tp_appliedGeneration (cn_tp s))"

lemma prepare_all_edges:
  assumes "streaming s" "pending s \<le> 32 * length ts"
  shows "\<exists>s'. prepare_all pf rnd ts s = Some s' \<and> streaming s' \<and>
     tp_appliedGeneration (cn_tp s') = tp_lifecycleGeneration (cn_tp s) \<and>
     cn_calls s' = cn_calls s @ edges (tp_clientPaused (cn_tp s)) (pending s)"
  using assms
proof (induction ts arbitrary: s)
  case Nil
  then have "tp_lifecycleGeneration (cn_tp s) - tp_appliedGeneration (cn_tp s) = 0"
    by (simp add: pending_def unat_eq_0)
  then show ?case using Nil by (simp add: pending_def)
next
  case (Cons now ts)
  let ?a = "apply_generations 32 (tp_lifecycleGeneration (cn_tp s)) s"
  let ?s = "?a\<lparr>cn_tp := (cn_tp ?a)\<lparr>tp_updateTime := now\<rparr>\<rparr>"
  let ?k = "min 32 (pending s)"
  note e = apply_generations_edges[OF Cons.prems(1), of 32 "tp_lifecycleGeneration (cn_tp s)", folded pending_def]
  have st: "streaming ?s" using e(1) same_request_connected[of ?a ?s] by (simp add: streaming_def same_request_def)
  have "tp_lifecycleGeneration (cn_tp ?s) - tp_appliedGeneration (cn_tp ?s) = of_nat (pending s) - of_nat ?k"
    using e(2,3) by (simp add: same_request_def pending_def)
  also have "\<dots> = of_nat (pending s - ?k)" by (simp add: of_nat_diff)
  finally have "pending ?s = (pending s - ?k) mod 2 ^ 32" 
    unfolding pending_def[of ?s] by (simp only: unat_of_nat) simp
  moreover have "pending s < 2 ^ 32" 
    using unsigned_less[of "tp_lifecycleGeneration (cn_tp s) - tp_appliedGeneration (cn_tp s)", where 'a = nat]
    by (simp add: pending_def)
  ultimately have pend: "pending ?s = pending s - ?k" by simp
  have paused: "tp_clientPaused (cn_tp ?s) = (tp_clientPaused (cn_tp s) \<noteq> odd ?k)"
    using st Cons.prems(1) e(3) by (simp add: streaming_def)
  have "pending ?s \<le> 32 * length ts" using Cons.prems(2) pend by simp
  from Cons.IH[OF st this] obtain s' where s': "prepare_all pf rnd ts ?s = Some s'" "streaming s'"
     "tp_appliedGeneration (cn_tp s') = tp_lifecycleGeneration (cn_tp s)"
     "cn_calls s' = cn_calls s @ edges (tp_clientPaused (cn_tp s)) ?k @ edges (tp_clientPaused (cn_tp s) \<noteq> odd ?k) (pending s - ?k)"
    using e(2,4) pend paused by (auto simp: same_request_def)
  have "edges (tp_clientPaused (cn_tp s)) (pending s) = edges (tp_clientPaused (cn_tp s)) ?k @
      edges (tp_clientPaused (cn_tp s) \<noteq> odd ?k) (pending s - ?k)"
    using edges_add[of "tp_clientPaused (cn_tp s)" ?k "pending s - ?k"] by simp
  then show ?case using s' PrepareUpdate_streaming[OF Cons.prems(1), of pf rnd now] by (simp add: Let_def)
qed

text \<open>A sequence of requests, one after the other.\<close>

lemma requests_edges:
  fixes s :: "'n conn"
  defines "g \<equiv> tp_lifecycleGeneration (cn_tp s)"
  shows "\<exists>k \<le> length fs. fold (\<lambda>f s. IHS_SessionSetForeground s f) fs s =
       s\<lparr>cn_tp := (cn_tp s)\<lparr>tp_lifecycleGeneration := g + of_nat k\<rparr>\<rparr> \<and>
     edges (odd g) k = request_calls (odd g) fs \<and> (fs \<noteq> [] \<longrightarrow> (odd (g + of_nat k) \<longleftrightarrow> \<not> last fs))"
  unfolding g_def
proof (induction fs arbitrary: s)
  case (Cons f fs)
  let ?g = "tp_lifecycleGeneration (cn_tp s)"
  have flip: "?g AND 1 \<noteq> (if f then 0 else 1) \<longleftrightarrow> f = odd ?g" by simp
  show ?case
  proof (cases "f = odd ?g")
    case True
    let ?s = "IHS_SessionSetForeground s f"
    have s: "?s = s\<lparr>cn_tp := (cn_tp s)\<lparr>tp_lifecycleGeneration := ?g + 1\<rparr>\<rparr>"
      using True flip by (simp add: IHS_SessionSetForeground_def Let_def)
    from Cons.IH[of ?s] obtain k where k: "k \<le> length fs"
      "fold (\<lambda>f s. IHS_SessionSetForeground s f) fs ?s = s\<lparr>cn_tp := (cn_tp s)\<lparr>tp_lifecycleGeneration := ?g + of_nat (Suc k)\<rparr>\<rparr>"
      "edges (\<not> odd ?g) k = request_calls (\<not> odd ?g) fs" "fs \<noteq> [] \<longrightarrow> (odd (?g + of_nat (Suc k)) \<longleftrightarrow> \<not> last fs)"
      unfolding s by (auto simp: algebra_simps)
    show ?thesis
    proof (intro exI[of _ "Suc k"] conjI)
      show "edges (odd ?g) (Suc k) = request_calls (odd ?g) (f # fs)" using k(3) True by simp
      show "f # fs \<noteq> [] \<longrightarrow> (odd (?g + of_nat (Suc k)) \<longleftrightarrow> \<not> last (f # fs))"
      proof (cases "fs = []")
        case True
        then have "k = 0" using k(1) by simp
        then show ?thesis using \<open>f = odd ?g\<close> True by simp
      qed (use k(4) in simp)
    qed (use k in simp_all)
  next
    case False
    then have s: "IHS_SessionSetForeground s f = s" using flip by (simp add: IHS_SessionSetForeground_def Let_def)
    from Cons.IH[of s] obtain k where k: "k \<le> length fs"
      "fold (\<lambda>f s. IHS_SessionSetForeground s f) fs s = s\<lparr>cn_tp := (cn_tp s)\<lparr>tp_lifecycleGeneration := ?g + of_nat k\<rparr>\<rparr>"
      "edges (odd ?g) k = request_calls (odd ?g) fs" "fs \<noteq> [] \<longrightarrow> (odd (?g + of_nat k) \<longleftrightarrow> \<not> last fs)" by blast
    have "odd ?g = (\<not> f)" using False by auto
    then show ?thesis using k False by (intro exI[of _ k]) (auto simp: s)
  qed
qed simp

section \<open>Shutdown operations\<close>

abbreviation goodbye :: "'n conn \<Rightarrow> packet_header" where
  "goodbye s \<equiv> zero_header\<lparr>hdr_type := IHS_SessionPacketTypeDisconnect,
     hdr_srcConnectionId := cn_connectionId s, hdr_dstConnectionId := cn_hostConnectionId s\<rparr>"

lemma Disconnect_ok:
  fixes pf :: "'n platform"
  assumes live: "live_alloc (pf_mem pf)"
  shows "\<exists>o' l. IHS_SessionTransportDisconnect pf s = Some (s\<lparr>cn_outgoing := o', cn_link := l,
       cn_tp := (cn_tp s)\<lparr>tp_shutdown := (if lk_detached (cn_link s) \<or> IHS_SessionTransportState s = TransportClosed
         then tp_shutdown (cn_tp s) else 1)\<rparr>\<rparr>) \<and>
     lk_detached l = lk_detached (cn_link s) \<and>
     (if IHS_SessionTransportState s = TransportConnected \<and> \<not> lk_detached (cn_link s)
      then lk_env l = snd (conn_sent pf s (conn_frame pf s (goodbye s) []))
      else o' = cn_outgoing s \<and> l = cn_link s)"
proof (cases "IHS_SessionTransportState s = TransportConnected \<and> \<not> lk_detached (cn_link s)")
  case True
  obtain sent o' l where once: "send_once pf s (goodbye s) [] = Some (sent, s\<lparr>cn_outgoing := o', cn_link := l\<rparr>)"
    "lk_detached l = lk_detached (cn_link s)"
    "\<not> lk_detached (cn_link s) \<longrightarrow> (let (st, n) = conn_sent pf s (conn_frame pf s (goodbye s) []) in sent = (st = SendOk) \<and> lk_env l = n)"
    using send_once_ok[OF live, of "[]" "goodbye s" s] by (auto simp: zero_header_def packet_class_def)
  show ?thesis using True once
    by (intro exI[of _ o'] exI[of _ l]) (auto simp: IHS_SessionTransportDisconnect_def Let_def split: prod.splits)
next
  case False
  then show ?thesis
    by (intro exI[of _ "cn_outgoing s"] exI[of _ "cn_link s"])
      (auto simp: IHS_SessionTransportDisconnect_def Let_def)
qed

lemma Disconnect_frame:
  fixes pf :: "'n platform"
  assumes live: "live_alloc (pf_mem pf)" and run: "IHS_SessionTransportDisconnect pf s = Some s'"
  obtains o' l n where "s' = s\<lparr>cn_outgoing := o', cn_link := l, cn_tp := (cn_tp s)\<lparr>tp_shutdown := n\<rparr>\<rparr>"
    "n = (if lk_detached (cn_link s) \<or> IHS_SessionTransportState s = TransportClosed then tp_shutdown (cn_tp s) else 1)"
    "lk_detached l = lk_detached (cn_link s)"
    "IHS_SessionTransportState s \<noteq> TransportConnected \<longrightarrow> o' = cn_outgoing s \<and> l = cn_link s"
    "IHS_SessionTransportState s = TransportConnected \<and> \<not> lk_detached (cn_link s) \<longrightarrow>
       lk_env l = snd (conn_sent pf s (conn_frame pf s (goodbye s) []))"
proof -
  define n where "n = (if lk_detached (cn_link s) \<or> IHS_SessionTransportState s = TransportClosed
    then tp_shutdown (cn_tp s) else 1)"
  obtain o' l where ol: "IHS_SessionTransportDisconnect pf s = Some (s\<lparr>cn_outgoing := o', cn_link := l,
      cn_tp := (cn_tp s)\<lparr>tp_shutdown := n\<rparr>\<rparr>)" "lk_detached l = lk_detached (cn_link s)"
     "if IHS_SessionTransportState s = TransportConnected \<and> \<not> lk_detached (cn_link s)
      then lk_env l = snd (conn_sent pf s (conn_frame pf s (goodbye s) [])) else o' = cn_outgoing s \<and> l = cn_link s"
    using Disconnect_ok[OF live, of s] unfolding n_def by blast
  have s': "s' = s\<lparr>cn_outgoing := o', cn_link := l, cn_tp := (cn_tp s)\<lparr>tp_shutdown := n\<rparr>\<rparr>" using ol(1) run by simp
  show ?thesis by (rule that[OF s' n_def ol(2)]) (use ol(3) in \<open>simp_all split: if_splits\<close>)
qed

lemma SendConnect_ok:
  fixes pf :: "'n platform"
  assumes live: "live_alloc (pf_mem pf)"
  shows "\<exists>sent o' l. IHS_SessionTransportSendConnect pf s = Some (sent, s\<lparr>cn_outgoing := o', cn_link := l\<rparr>) \<and>
     lk_detached l = lk_detached (cn_link s)"
  using send_once_ok[OF live, of "[0xc7, 0x3d, 0x8f, 0x3c]" "zero_header\<lparr>hdr_type := IHS_SessionPacketTypeConnect,
       hdr_srcConnectionId := cn_connectionId s\<rparr>" s]
  by (auto simp: IHS_SessionTransportSendConnect_def zero_header_def packet_class_def)

lemma NextConnectionId_frame:
  assumes "IHS_SessionNextConnectionId rnd s = Some (i, s')"
  obtains c d where "s' = s\<lparr>cn_nextConnectionId := c, cn_draws := d\<rparr>"
  using assms that by (auto simp: IHS_SessionNextConnectionId_def Let_def split: bind_splits)

text \<open>The transport after the client has been told, and after finishing.\<close>

lemma ClientTransportClosed_frame:
  obtains st ph p where "IHS_SessionClientTransportClosed s =
     s\<lparr>cn_connectionState := st, cn_testPhase := ph, cn_tp := (cn_tp s)\<lparr>tp_clientPaused := p\<rparr>\<rparr>"
    "p \<longrightarrow> tp_clientPaused (cn_tp s)"
proof -
  consider "cn_testMode s" | "\<not> cn_testMode s" "cn_connectionState s = Connected" |
      "\<not> cn_testMode s" "cn_connectionState s \<noteq> Connected" by blast
  then show ?thesis
    by cases (rule that[of "tp_clientPaused (cn_tp s)" 0 Unconnected] that[of False "cn_testPhase s" Stopping]
        that[of "tp_clientPaused (cn_tp s)" "cn_testPhase s" Unconnected];
        simp add: IHS_SessionClientTransportClosed_def IHS_SessionNetworkTestClosed_def)+
qed

lemma Finish_frame:
  assumes run: "IHS_SessionTransportFinish rnd s = Some (True, s')"
  obtains st ph p c d i where "s' = s\<lparr>cn_connectionState := st, cn_testPhase := ph, cn_hostConnectionId := 0,
     cn_nextConnectionId := c, cn_draws := d, cn_connectionId := i,
     cn_tp := (cn_tp s)\<lparr>tp_clientPaused := p, tp_addressCleared := True, tp_shutdown := 2, tp_active := False\<rparr>\<rparr>"
    "p \<longrightarrow> tp_clientPaused (cn_tp s)" "tp_shutdown (cn_tp s) = 1"
proof -
  obtain st ph p where told: "(if lk_detached (cn_link s) then s else IHS_SessionClientTransportClosed s) =
     s\<lparr>cn_connectionState := st, cn_testPhase := ph, cn_tp := (cn_tp s)\<lparr>tp_clientPaused := p\<rparr>\<rparr>" "p \<longrightarrow> tp_clientPaused (cn_tp s)"
  proof (cases "lk_detached (cn_link s)")
    case True
    then show ?thesis using that[of "tp_clientPaused (cn_tp s)" "cn_testPhase s" "cn_connectionState s"] by simp
  next
    case False
    then show ?thesis using that ClientTransportClosed_frame[of s] by metis
  qed
  have one: "tp_shutdown (cn_tp s) = 1" using run by (auto simp: IHS_SessionTransportFinish_def split: if_splits)
  then obtain i s1 where i: "IHS_SessionNextConnectionId rnd (s\<lparr>cn_connectionState := st, cn_testPhase := ph,
      cn_tp := (cn_tp s)\<lparr>tp_clientPaused := p\<rparr>, cn_hostConnectionId := 0\<rparr>) = Some (i, s1)"
    "s' = s1\<lparr>cn_connectionId := i, cn_tp := (cn_tp s1)\<lparr>tp_addressCleared := True, tp_shutdown := 2, tp_active := False\<rparr>\<rparr>"
    using run by (auto simp: IHS_SessionTransportFinish_def told(1) Let_def split: bind_splits)
  obtain c d where "s1 = s\<lparr>cn_connectionState := st, cn_testPhase := ph,
      cn_tp := (cn_tp s)\<lparr>tp_clientPaused := p\<rparr>, cn_hostConnectionId := 0, cn_nextConnectionId := c, cn_draws := d\<rparr>"
    by (rule NextConnectionId_frame[OF i(1)])
  then show ?thesis using that[of p i d c ph st] told(2) one i(2) by simp
qed

lemma Finish_ok:
  assumes "ids_ok rnd s"
  shows "\<exists>r s'. IHS_SessionTransportFinish rnd s = Some (r, s') \<and> r = (tp_shutdown (cn_tp s) = 1) \<and>
     (r \<longrightarrow> cn_connectionId s' \<noteq> 0) \<and> (\<not> r \<longrightarrow> s' = s)"
proof (cases "tp_shutdown (cn_tp s) = 1")
  case True
  let ?t = "(if lk_detached (cn_link s) then s else IHS_SessionClientTransportClosed s)\<lparr>cn_hostConnectionId := 0\<rparr>"
  have "ids_ok rnd ?t"
    by (rule ClientTransportClosed_frame[of s]) (use assms in \<open>simp add: ids_ok_def\<close>)
  from NextConnectionId_ok[OF this] obtain cid :: u32 and s1 where
    n: "IHS_SessionNextConnectionId rnd ?t = Some (ucast cid, s1)" "cid \<noteq> 0" "cid \<le> 255"
    by blast
  have "unat cid \<noteq> 0" "unat cid \<le> 255" using n(2,3) by (simp_all add: word_le_nat_alt unat_eq_0)
  then have "unat (ucast cid :: u8) \<noteq> 0" by (simp add: unsigned_ucast_eq take_bit_eq_mod)
  then have "(ucast cid :: u8) \<noteq> 0" by (metis unat_0)
  then show ?thesis using True n(1) by (intro exI[of _ True]) (simp add: IHS_SessionTransportFinish_def Let_def)
qed (intro exI[of _ False], simp add: IHS_SessionTransportFinish_def)

end
