(* ===== verification/Transport_Props.thy ===== *)
theory Transport_Props
  imports Transport_Spec Outgoing_Props
begin

text \<open>
  Properties of the connection's life: foreground requests are all carried out, silence closes the
  connection, the closed state is final, and the invariant of every reachable connection.
\<close>

section \<open>Foreground requests\<close>

text \<open>C30: The application may ask for foreground and background in any order while the worker is
  busy.  On a live stream whose edges have all been applied, as many updates as there are requests
  divided by 32, at whatever times, carry out every change of state in the order of the requests
  (one pause message for going to the background; a resume message and a lost-data message for
  audio and for video for coming back), ignore the requests that change nothing, and leave the
  client paused exactly if the last request was for the background.
\<close>

theorem foreground_requests_applied:
  assumes st: "streaming s" and applied: "pending s = 0" and ne: "fs \<noteq> []"
    and ticks: "length fs \<le> 32 * length ts" and bound: "length fs < 2 ^ 32"
  shows "\<exists>s'. prepare_all pf rnd ts (fold (\<lambda>f s. IHS_SessionSetForeground s f) fs s) = Some s' \<and>
     (tp_clientPaused (cn_tp s') \<longleftrightarrow> \<not> last fs) \<and>
     cn_calls s' = cn_calls s @ request_calls (tp_clientPaused (cn_tp s)) fs"
proof -
  let ?g = "tp_lifecycleGeneration (cn_tp s)"
  have g: "tp_appliedGeneration (cn_tp s) = ?g" using applied by (simp add: pending_def unat_eq_0)
  then have paused: "tp_clientPaused (cn_tp s) = odd ?g" using st by (simp add: streaming_def)
  obtain k where k: "k \<le> length fs" "fold (\<lambda>f s. IHS_SessionSetForeground s f) fs s =
       s\<lparr>cn_tp := (cn_tp s)\<lparr>tp_lifecycleGeneration := ?g + of_nat k\<rparr>\<rparr>"
     "edges (odd ?g) k = request_calls (odd ?g) fs" "odd (?g + of_nat k) \<longleftrightarrow> \<not> last fs"
    using requests_edges[of fs s] ne by blast
  let ?s = "s\<lparr>cn_tp := (cn_tp s)\<lparr>tp_lifecycleGeneration := ?g + of_nat k\<rparr>\<rparr>"
  have "streaming ?s" using st by (simp add: streaming_iff)
  moreover have "pending ?s = k" using k(1) bound g by (simp add: pending_def unat_of_nat)
  ultimately obtain s' where "prepare_all pf rnd ts ?s = Some s'" "streaming s'"
     "tp_appliedGeneration (cn_tp s') = ?g + of_nat k" "cn_calls s' = cn_calls s @ edges (odd ?g) k"
    using prepare_all_edges[of ?s ts pf rnd] k(1) ticks paused by auto
  then show ?thesis using k paused by (auto simp: streaming_def)
qed

text \<open>A live stream over a quiet link.\<close>

definition live_transport :: transport where
  "live_transport = \<lparr>tp_updateTime = 500, tp_lastReceive = 500, tp_lastConnect = 400, tp_appliedGeneration = 0,
     tp_lifecycleGeneration = 0, tp_shutdown = 0, tp_notified = False, tp_addressCleared = False, tp_active = True,
     tp_clientPaused = False, tp_connectionPaused = False, tp_timedOut = False\<rparr>"

definition live_conn :: "unit conn" where
  "live_conn = \<lparr>cn_tp = live_transport, cn_connectionState = Connected, cn_connectionId = 7, cn_hostConnectionId = 9,
     cn_clock = IHS_StreamClockInit, cn_interrupted = False, cn_testMode = False, cn_testPhase = 0,
     cn_outgoing = IHS_OutgoingInit 0, cn_link = quiet_link, cn_nextConnectionId = 8, cn_draws = 1, cn_calls = []\<rparr>"

lemmas live_defs = live_conn_def live_transport_def quiet_link_def quiet_platform_def

theorem foreground_requests_applied_witness:
  "\<exists>s'. prepare_all quiet_platform (\<lambda>_. 0) [600] (fold (\<lambda>f s. IHS_SessionSetForeground s f) [False, False, True] live_conn) = Some s' \<and>
     \<not> tp_clientPaused (cn_tp s') \<and> cn_calls s' = [ControlPause, ControlResume, DataLostAudio, DataLostVideo]"
proof -
  have "streaming live_conn" "pending live_conn = 0" by (simp_all add: streaming_iff pending_def live_defs)
  from foreground_requests_applied[OF this, of "[False, False, True]" "[600]" quiet_platform "\<lambda>_. 0"]
  show ?thesis by (simp add: live_defs edge_call_def)
qed

section \<open>Silence\<close>

definition silence_limit :: "'n conn \<Rightarrow> u32" where
  "silence_limit s = (if tp_connectionPaused (cn_tp s) then 180 else 15) * 65536"

definition waiting :: "'n conn \<Rightarrow> bool" where
  "waiting s \<longleftrightarrow> tp_active (cn_tp s) \<and> \<not> tp_timedOut (cn_tp s) \<and> \<not> lk_detached (cn_link s) \<and>
     IHS_SessionTransportState s \<in> {TransportConnecting, TransportConnected}"

lemma CheckTimeout_waiting:
  assumes "waiting s"
  shows "IHS_SessionTransportCheckTimeout pf s now =
     (if silence_limit s \<le> now - tp_lastReceive (cn_tp s)
      then IHS_SessionTransportDisconnect pf (s\<lparr>cn_tp := (cn_tp s)\<lparr>tp_timedOut := True, tp_active := False\<rparr>\<rparr>)
      else Some s)"
  using assms by (auto simp: IHS_SessionTransportCheckTimeout_def waiting_def silence_limit_def Let_def)

lemma update_closing:
  assumes ids: "ids_ok rnd s" and closing: "tp_shutdown (cn_tp s) = 1" and idle: "pending s = 0"
  shows "\<exists>s'. IHS_SessionTransportUpdate pf rnd s now = Some s' \<and> IHS_SessionTransportState s' = TransportClosed \<and>
     tp_shutdown (cn_tp s') = 2 \<and> cn_hostConnectionId s' = 0 \<and> cn_connectionId s' \<noteq> 0 \<and> cn_link s' = cn_link s"
proof -
  let ?s = "s\<lparr>cn_tp := (cn_tp s)\<lparr>tp_updateTime := now\<rparr>\<rparr>"
  have gen: "apply_generations 32 (tp_lifecycleGeneration (cn_tp s)) s = s"
    using idle by (simp add: pending_def unat_eq_0 eval_nat_numeral)
  have "ids_ok rnd ?s" using ids by (simp add: ids_ok_def)
  then obtain s' where fin: "IHS_SessionTransportFinish rnd ?s = Some (True, s')" "cn_connectionId s' \<noteq> 0"
    using Finish_ok[of rnd ?s] closing by auto
  have f: "tp_shutdown (cn_tp s') = 2" "cn_hostConnectionId s' = 0" "\<not> tp_active (cn_tp s')" "cn_link s' = cn_link s"
    by (rule Finish_frame[OF fin(1)]; simp)+
  have "IHS_SessionTransportPrepareUpdate pf rnd s now = Some s'"
    by (simp add: IHS_SessionTransportPrepareUpdate_def gen fin(1))
  moreover have "IHS_SessionTransportCheckTimeout pf s' now = Some s'"
    using f(3) by (simp add: IHS_SessionTransportCheckTimeout_def)
  ultimately show ?thesis using f fin(2) by (simp add: IHS_SessionTransportUpdate_def IHS_SessionTransportState_def)
qed

text \<open>C29: Silence closes the connection, and nothing earlier does: as long as the last packet is less
  than 15 seconds old (180 while paused) the timeout check changes nothing.  From then on the check
  marks the connection as timed out and closing, sending one disconnect packet if it was
  established, and the next update finishes the closing: the transport is closed, the peer is
  forgotten, a new nonzero connection identifier is assigned, and nothing more is sent.
\<close>

theorem silence_closes:
  fixes pf :: "'n platform" and s :: "'n conn"
  assumes live: "live_alloc (pf_mem pf)" and ids: "ids_ok rnd s" and w: "waiting s" and idle: "pending s = 0"
  defines "frame \<equiv> conn_frame pf s (goodbye s) []"
  shows "if now - tp_lastReceive (cn_tp s) < silence_limit s then IHS_SessionTransportCheckTimeout pf s now = Some s
     else \<exists>s1 s2. IHS_SessionTransportCheckTimeout pf s now = Some s1 \<and> tp_timedOut (cn_tp s1) \<and>
       IHS_SessionTransportState s1 = TransportClosing \<and>
       lk_env (cn_link s1) = (if IHS_SessionTransportState s = TransportConnected
         then snd (conn_sent pf s frame) else lk_env (cn_link s)) \<and>
       IHS_SessionTransportUpdate pf rnd s1 later = Some s2 \<and> IHS_SessionTransportState s2 = TransportClosed \<and>
       cn_hostConnectionId s2 = 0 \<and> cn_connectionId s2 \<noteq> 0 \<and> cn_link s2 = cn_link s1"
proof (cases "now - tp_lastReceive (cn_tp s) < silence_limit s")
  case True
  then show ?thesis by (simp add: CheckTimeout_waiting[OF w] linorder_not_le[symmetric])
next
  case False
  let ?s = "s\<lparr>cn_tp := (cn_tp s)\<lparr>tp_timedOut := True, tp_active := False\<rparr>\<rparr>"
  have same: "IHS_SessionTransportState ?s = IHS_SessionTransportState s" "conn_frame pf ?s (goodbye ?s) [] = frame"
    "conn_sent pf ?s frame = conn_sent pf s frame"
    by (simp_all add: IHS_SessionTransportState_def conn_frame_def conn_sent_def frame_def)
  obtain o' l where dis: "IHS_SessionTransportDisconnect pf ?s = Some (?s\<lparr>cn_outgoing := o', cn_link := l,
       cn_tp := (cn_tp ?s)\<lparr>tp_shutdown := 1\<rparr>\<rparr>)"
     "lk_env l = (if IHS_SessionTransportState s = TransportConnected then snd (conn_sent pf s frame) else lk_env (cn_link s))"
  proof -
    obtain s1 where run: "IHS_SessionTransportDisconnect pf ?s = Some s1" using Disconnect_ok[OF live, of ?s] by blast
    obtain o' l n where "s1 = ?s\<lparr>cn_outgoing := o', cn_link := l, cn_tp := (cn_tp ?s)\<lparr>tp_shutdown := n\<rparr>\<rparr>"
      "n = (if lk_detached (cn_link ?s) \<or> IHS_SessionTransportState ?s = TransportClosed then tp_shutdown (cn_tp ?s) else 1)"
      "IHS_SessionTransportState ?s \<noteq> TransportConnected \<longrightarrow> o' = cn_outgoing ?s \<and> l = cn_link ?s"
      "IHS_SessionTransportState ?s = TransportConnected \<and> \<not> lk_detached (cn_link ?s) \<longrightarrow>
         lk_env l = snd (conn_sent pf ?s (conn_frame pf ?s (goodbye ?s) []))"
      by (rule Disconnect_frame[OF live run])
    then show thesis using run w that[of l o'] unfolding same by (auto simp: waiting_def)
  qed
  let ?s1 = "?s\<lparr>cn_outgoing := o', cn_link := l, cn_tp := (cn_tp ?s)\<lparr>tp_shutdown := 1\<rparr>\<rparr>"
  have "ids_ok rnd ?s1" "pending ?s1 = 0" using ids idle by (simp_all add: ids_ok_def pending_def)
  from update_closing[OF this(1) _ this(2), of pf later] obtain s2 where
    s2: "IHS_SessionTransportUpdate pf rnd ?s1 later = Some s2" "IHS_SessionTransportState s2 = TransportClosed"
       "cn_hostConnectionId s2 = 0" "cn_connectionId s2 \<noteq> 0" "cn_link s2 = l" by auto
  have run: "IHS_SessionTransportCheckTimeout pf s now = Some ?s1"
    using False dis(1) by (simp add: CheckTimeout_waiting[OF w])
  have closing: "IHS_SessionTransportState ?s1 = TransportClosing" by (simp add: IHS_SessionTransportState_def)
  show ?thesis
    by (subst if_not_P[OF False], intro exI[of _ ?s1] exI[of _ s2] conjI, rule run, simp, rule closing)
      (use dis(2) s2 in simp_all)
qed

theorem silence_closes_witness:
  "IHS_SessionTransportCheckTimeout quiet_platform live_conn 1000 = Some live_conn \<and>
   (\<exists>s1 s2. IHS_SessionTransportCheckTimeout quiet_platform live_conn 1000000 = Some s1 \<and>
      IHS_SessionTransportUpdate quiet_platform (\<lambda>_. 0) s1 1000001 = Some s2 \<and>
      IHS_SessionTransportState s2 = TransportClosed)"
proof -
  have h: "live_alloc (pf_mem quiet_platform)" "ids_ok (\<lambda>_. 0) live_conn" "waiting live_conn" "pending live_conn = 0"
    by (simp_all add: ids_ok_def waiting_def pending_def IHS_SessionTransportState_def live_defs)
  have l: "silence_limit live_conn = 983040" "tp_lastReceive (cn_tp live_conn) = 500"
    by (simp_all add: silence_limit_def live_defs)
  show ?thesis
    using silence_closes[OF h, of 1000 0] silence_closes[OF h, of 1000000 1000001] unfolding l by auto
qed

section \<open>Every order of events\<close>

text \<open>
  What can happen to a connection: the operations of this component, called by the worker, the
  application or the receiver, and what other components write (the peer's answer to the connect
  packet, a later phase, an accepted packet, an interruption, the reset of the client by
  \<^verbatim>\<open>SessionFinalized\<close>).  The worker starts a connection before anything can shut it down.
\<close>

inductive conn_step :: "'n platform \<Rightarrow> (nat \<Rightarrow> u32) \<Rightarrow> bool \<Rightarrow> 'n conn \<Rightarrow> 'n conn \<Rightarrow> bool"
  for pf :: "'n platform" and rnd :: "nat \<Rightarrow> u32" and registered :: bool where
  start: "tp_shutdown (cn_tp s) = 0 \<Longrightarrow> SessionInitialized pf rnd s = Some s' \<Longrightarrow> conn_step pf rnd registered s s'"
| accept: "IHS_SessionTransportState s = TransportConnecting \<Longrightarrow>
    conn_step pf rnd registered s (s\<lparr>cn_hostConnectionId := h, cn_connectionState := Handshaking\<rparr>)"
| phase: "conn_step pf rnd registered s (s\<lparr>cn_connectionState := st\<rparr>)"
| receive: "\<not> tp_timedOut (cn_tp s) \<Longrightarrow> conn_step pf rnd registered s (s\<lparr>cn_tp := (cn_tp s)\<lparr>tp_lastReceive := now\<rparr>\<rparr>)"
| interrupt: "conn_step pf rnd registered s (s\<lparr>cn_interrupted := True\<rparr>)"
| reset: "conn_step pf rnd registered s (s\<lparr>cn_tp := (cn_tp s)\<lparr>tp_clientPaused := False\<rparr>\<rparr>)"
| foreground: "conn_step pf rnd registered s (IHS_SessionSetForeground s f)"
| update: "IHS_SessionTransportUpdate pf rnd s now = Some s' \<Longrightarrow> conn_step pf rnd registered s s'"
| disconnect: "IHS_SessionTransportDisconnect pf s = Some s' \<Longrightarrow> conn_step pf rnd registered s s'"
| close: "IHS_SessionTransportClose pf s = Some s' \<Longrightarrow> conn_step pf rnd registered s s'"
| finish: "IHS_SessionTransportFinish rnd s = Some (r, s') \<Longrightarrow> conn_step pf rnd registered s s'"
| notify: "conn_step pf rnd registered s (IHS_SessionNotifyDisconnected registered s)"

definition conn_fresh :: "'n conn \<Rightarrow> bool" where
  "conn_fresh s \<longleftrightarrow> tp_shutdown (cn_tp s) = 0 \<and> \<not> tp_notified (cn_tp s) \<and> \<not> tp_addressCleared (cn_tp s) \<and>
     \<not> tp_active (cn_tp s) \<and> \<not> tp_clientPaused (cn_tp s) \<and> \<not> tp_timedOut (cn_tp s) \<and> Disconnected \<notin> set (cn_calls s)"

definition conn_inv :: "bool \<Rightarrow> 'n conn \<Rightarrow> bool" where
  "conn_inv registered s \<longleftrightarrow> tp_shutdown (cn_tp s) \<le> 2 \<and>
     (tp_shutdown (cn_tp s) = 2 \<longrightarrow> \<not> tp_active (cn_tp s) \<and> cn_hostConnectionId s = 0) \<and>
     (tp_addressCleared (cn_tp s) \<longleftrightarrow> tp_shutdown (cn_tp s) = 2) \<and>
     (tp_timedOut (cn_tp s) \<longrightarrow> \<not> tp_active (cn_tp s) \<and> tp_shutdown (cn_tp s) \<noteq> 0) \<and>
     (tp_clientPaused (cn_tp s) \<longrightarrow> odd (tp_appliedGeneration (cn_tp s))) \<and>
     count_list (cn_calls s) Disconnected = of_bool (registered \<and> tp_notified (cn_tp s))"

text \<open>Applying edges.\<close>

lemma ChangeForeground_inv:
  "tp_active (cn_tp (ChangeForeground s f)) = tp_active (cn_tp s)"
  "tp_addressCleared (cn_tp (ChangeForeground s f)) = tp_addressCleared (cn_tp s)"
  "tp_timedOut (cn_tp (ChangeForeground s f)) = tp_timedOut (cn_tp s)"
  "tp_notified (cn_tp (ChangeForeground s f)) = tp_notified (cn_tp s)"
  "tp_shutdown (cn_tp (ChangeForeground s f)) = tp_shutdown (cn_tp s)"
  "tp_appliedGeneration (cn_tp (ChangeForeground s f)) = tp_appliedGeneration (cn_tp s)"
  "cn_hostConnectionId (ChangeForeground s f) = cn_hostConnectionId s"
  "cn_outgoing (ChangeForeground s f) = cn_outgoing s" "cn_link (ChangeForeground s f) = cn_link s"
  "cn_connectionId (ChangeForeground s f) = cn_connectionId s"
  "tp_clientPaused (cn_tp (ChangeForeground s f)) \<longleftrightarrow> \<not> f"
  "count_list (cn_calls (ChangeForeground s f)) Disconnected = count_list (cn_calls s) Disconnected"
  by (simp_all add: ChangeForeground_def Let_def)

lemma apply_generations_inv:
  "conn_inv registered s \<Longrightarrow> conn_inv registered (apply_generations n requested s) \<and>
     tp_shutdown (cn_tp (apply_generations n requested s)) = tp_shutdown (cn_tp s) \<and>
     cn_outgoing (apply_generations n requested s) = cn_outgoing s \<and> cn_link (apply_generations n requested s) = cn_link s \<and>
     cn_connectionId (apply_generations n requested s) = cn_connectionId s"
proof (induction n arbitrary: s)
  case (Suc n)
  let ?g = "tp_appliedGeneration (cn_tp s) + 1"
  let ?s = "ChangeForeground (s\<lparr>cn_tp := (cn_tp s)\<lparr>tp_appliedGeneration := ?g\<rparr>\<rparr>) (?g AND 1 = 0)"
  have "conn_inv registered ?s" using Suc.prems by (simp add: conn_inv_def ChangeForeground_inv)
  then show ?case using Suc.IH[of ?s] Suc.prems by (simp add: Let_def ChangeForeground_inv)
qed simp

text \<open>
  What every step keeps: the invariant, the progress of the shutdown and, once the transport is
  closed, everything that has to do with sending.
\<close>

definition kept :: "bool \<Rightarrow> 'n conn \<Rightarrow> 'n conn \<Rightarrow> bool" where
  "kept registered s s' \<longleftrightarrow> conn_inv registered s' \<and> tp_shutdown (cn_tp s) \<le> tp_shutdown (cn_tp s') \<and>
     (tp_shutdown (cn_tp s) = 2 \<longrightarrow> cn_outgoing s' = cn_outgoing s \<and> lk_env (cn_link s') = lk_env (cn_link s) \<and>
        cn_connectionId s' = cn_connectionId s)"

lemma kept_inv: "kept registered s s' \<Longrightarrow> conn_inv registered s'"
  by (simp add: kept_def)

lemma kept_trans: "kept registered a b \<Longrightarrow> kept registered b c \<Longrightarrow> kept registered a c"
  by (force simp: kept_def conn_inv_def)

lemma closed_state: "tp_shutdown (cn_tp s) = 2 \<Longrightarrow> IHS_SessionTransportState s = TransportClosed"
  by (simp add: IHS_SessionTransportState_def)

lemma conn_inv_times:
  "conn_inv registered (s\<lparr>cn_tp := (cn_tp s)\<lparr>tp_updateTime := now\<rparr>\<rparr>) = conn_inv registered s"
  "conn_inv registered (s\<lparr>cn_tp := (cn_tp s)\<lparr>tp_lastConnect := now\<rparr>\<rparr>) = conn_inv registered s"
  by (simp_all add: conn_inv_def)

lemma Disconnect_kept:
  fixes pf :: "'n platform"
  assumes live: "live_alloc (pf_mem pf)" and inv: "conn_inv registered s"
    and run: "IHS_SessionTransportDisconnect pf s = Some s'"
  shows "kept registered s s'"
proof -
  obtain o' l n where s': "s' = s\<lparr>cn_outgoing := o', cn_link := l, cn_tp := (cn_tp s)\<lparr>tp_shutdown := n\<rparr>\<rparr>"
    "n = (if lk_detached (cn_link s) \<or> IHS_SessionTransportState s = TransportClosed then tp_shutdown (cn_tp s) else 1)"
    "IHS_SessionTransportState s \<noteq> TransportConnected \<longrightarrow> o' = cn_outgoing s \<and> l = cn_link s"
    by (rule Disconnect_frame[OF live run])
  have n: "n = tp_shutdown (cn_tp s) \<or> n = 1 \<and> tp_shutdown (cn_tp s) \<le> 1"
    using s'(2) inv closed_state[of s] by (fastforce simp: conn_inv_def split: if_splits)
  then have "conn_inv registered s'" using inv unfolding s'(1) by (auto simp: conn_inv_def)
  then show ?thesis using n closed_state[of s] s'(3) unfolding kept_def by (auto simp: s'(1))
qed

lemma Finish_kept:
  assumes inv: "conn_inv registered s" and run: "IHS_SessionTransportFinish rnd s = Some (r, s')"
  shows "kept registered s s'"
proof (cases r)
  case True
  then have "IHS_SessionTransportFinish rnd s = Some (True, s')" using run by simp
  then show ?thesis by (rule Finish_frame) (use inv in \<open>auto simp: kept_def conn_inv_def\<close>)
next
  case False
  then have "s' = s" using run by (auto simp: IHS_SessionTransportFinish_def Let_def split: if_splits bind_splits)
  then show ?thesis using inv by (simp add: kept_def)
qed

lemma SendConnect_kept:
  fixes pf :: "'n platform"
  assumes live: "live_alloc (pf_mem pf)" and inv: "conn_inv registered s" and open': "tp_shutdown (cn_tp s) \<noteq> 2"
    and run: "IHS_SessionTransportSendConnect pf s = Some (r, s')"
  shows "kept registered s s'"
proof -
  obtain o' l where "s' = s\<lparr>cn_outgoing := o', cn_link := l\<rparr>" using SendConnect_ok[OF live, of s] run by auto
  then show ?thesis using inv open' by (simp add: kept_def conn_inv_def)
qed

lemma PrepareUpdate_kept:
  fixes pf :: "'n platform"
  assumes live: "live_alloc (pf_mem pf)" and inv: "conn_inv registered s"
    and run: "IHS_SessionTransportPrepareUpdate pf rnd s now = Some s'"
  shows "kept registered s s'"
proof -
  let ?a = "apply_generations 32 (tp_lifecycleGeneration (cn_tp s)) s"
  let ?s = "?a\<lparr>cn_tp := (cn_tp ?a)\<lparr>tp_updateTime := now\<rparr>\<rparr>"
  have a: "kept registered s ?s"
    using apply_generations_inv[OF inv, of 32 "tp_lifecycleGeneration (cn_tp s)"] by (simp add: kept_def conn_inv_times)
  obtain r s1 where fin: "IHS_SessionTransportFinish rnd ?s = Some (r, s1)"
    using run by (auto simp: IHS_SessionTransportPrepareUpdate_def Let_def split: bind_splits)
  have b: "kept registered s s1" by (rule kept_trans[OF a Finish_kept[OF kept_inv[OF a] fin]])
  consider "s' = s1" | r2 s2 where "IHS_SessionTransportSendConnect pf s1 = Some (r2, s2)" "tp_active (cn_tp s1)"
      "s' = s2\<lparr>cn_tp := (cn_tp s2)\<lparr>tp_lastConnect := now\<rparr>\<rparr>"
    using run fin by (auto simp: IHS_SessionTransportPrepareUpdate_def Let_def split: if_splits bind_splits)
  then show ?thesis
  proof cases
    case 2
    have "tp_shutdown (cn_tp s1) \<noteq> 2" using 2(2) kept_inv[OF b] by (auto simp: conn_inv_def)
    from kept_trans[OF b SendConnect_kept[OF live kept_inv[OF b] this 2(1)]]
    show ?thesis unfolding 2(3) by (simp add: kept_def conn_inv_times)
  qed (use b in simp)
qed

lemma CheckTimeout_kept:
  fixes pf :: "'n platform"
  assumes live: "live_alloc (pf_mem pf)" and inv: "conn_inv registered s"
    and run: "IHS_SessionTransportCheckTimeout pf s now = Some s'"
  shows "kept registered s s'"
proof (cases "waiting s \<and> silence_limit s \<le> now - tp_lastReceive (cn_tp s)")
  case True
  let ?s = "s\<lparr>cn_tp := (cn_tp s)\<lparr>tp_timedOut := True, tp_active := False\<rparr>\<rparr>"
  have st: "IHS_SessionTransportState ?s = IHS_SessionTransportState s" by (simp add: IHS_SessionTransportState_def)
  have w: "\<not> lk_detached (cn_link s)" "IHS_SessionTransportState s \<noteq> TransportClosed" "tp_shutdown (cn_tp s) \<noteq> 2"
    using True closed_state[of s] by (auto simp: waiting_def)
  have dis: "IHS_SessionTransportDisconnect pf ?s = Some s'" using run True by (simp add: CheckTimeout_waiting)
  obtain o' l n where s': "s' = ?s\<lparr>cn_outgoing := o', cn_link := l, cn_tp := (cn_tp ?s)\<lparr>tp_shutdown := n\<rparr>\<rparr>"
    and "n = (if lk_detached (cn_link ?s) \<or> IHS_SessionTransportState ?s = TransportClosed then tp_shutdown (cn_tp ?s) else 1)"
    by (rule Disconnect_frame[OF live dis])
  then have "n = 1" using w st by simp
  moreover have "tp_shutdown (cn_tp s) \<le> 1" using inv w(3) by (auto simp: conn_inv_def)
  ultimately show ?thesis using inv unfolding s' by (auto simp: kept_def conn_inv_def)
next
  case False
  then have "s' = s" using run
    by (auto simp: IHS_SessionTransportCheckTimeout_def waiting_def silence_limit_def Let_def split: if_splits)
  then show ?thesis using inv by (simp add: kept_def)
qed

lemma SessionInitialized_kept:
  fixes pf :: "'n platform"
  assumes live: "live_alloc (pf_mem pf)" and inv: "conn_inv registered s" and zero: "tp_shutdown (cn_tp s) = 0"
    and run: "SessionInitialized pf rnd s = Some s'"
  shows "kept registered s s'"
proof (cases "lk_detached (cn_link s) \<or> cn_interrupted s")
  case True
  then show ?thesis using run inv by (auto simp: SessionInitialized_def kept_def)
next
  case False
  obtain now env where now: "pf_now pf (lk_env (cn_link s)) = (now, env)" by fastforce
  from False run obtain cid s1 where id1: "IHS_SessionNextConnectionId rnd s = Some (cid, s1)"
    by (auto simp: SessionInitialized_def split: bind_splits)
  obtain c d where s1: "s1 = s\<lparr>cn_nextConnectionId := c, cn_draws := d\<rparr>" by (rule NextConnectionId_frame[OF id1])
  define s2 where "s2 = IHS_SessionTransportBegin (s1\<lparr>cn_connectionId := cid, cn_connectionState := Connecting,
     cn_hostConnectionId := 0, cn_link := (cn_link s)\<lparr>lk_crcRequired := False, lk_env := env\<rparr>\<rparr>) now"
  have inv2: "conn_inv registered s2" "tp_shutdown (cn_tp s2) = 0"
    using inv zero by (simp_all add: s2_def s1 IHS_SessionTransportBegin_def conn_inv_def)
  obtain r where "IHS_SessionTransportSendConnect pf s2 = Some (r, s')"
    using run False id1 now by (auto simp: SessionInitialized_def s2_def s1)
  from SendConnect_kept[OF live inv2(1) _ this] show ?thesis using inv2 zero by (simp add: kept_def)
qed

lemma conn_step_kept:
  fixes pf :: "'n platform"
  assumes live: "live_alloc (pf_mem pf)" and inv: "conn_inv registered s" and step: "conn_step pf rnd registered s s'"
  shows "kept registered s s'"
  using step inv
proof cases
  case (start)
  then show ?thesis using SessionInitialized_kept[OF live inv] by blast
next
  case (accept h)
  then have "tp_shutdown (cn_tp s) \<noteq> 2" using closed_state[of s] by auto
  then show ?thesis using inv unfolding accept(1) by (simp add: kept_def conn_inv_def)
next
  case (update now)
  then obtain s1 where s1: "IHS_SessionTransportPrepareUpdate pf rnd s now = Some s1"
    "IHS_SessionTransportCheckTimeout pf s1 now = Some s'"
    by (auto simp: IHS_SessionTransportUpdate_def split: bind_splits)
  have k: "kept registered s s1" by (rule PrepareUpdate_kept[OF live inv s1(1)])
  show ?thesis by (rule kept_trans[OF k CheckTimeout_kept[OF live kept_inv[OF k] s1(2)]])
next
  case disconnect
  then show ?thesis using Disconnect_kept[OF live inv] by blast
next
  case close
  show ?thesis
  proof (cases "lk_detached (cn_link s)")
    case True
    then show ?thesis using close inv by (simp add: IHS_SessionTransportClose_def kept_def)
  next
    case False
    then obtain s1 where s1: "IHS_SessionTransportDisconnect pf s = Some s1"
      "s' = s1\<lparr>cn_link := (cn_link s1)\<lparr>lk_detached := True\<rparr>\<rparr>"
      using close by (auto simp: IHS_SessionTransportClose_def)
    show ?thesis using Disconnect_kept[OF live inv s1(1)] unfolding s1(2) by (simp add: kept_def conn_inv_def)
  qed
next
  case (finish r)
  then show ?thesis using Finish_kept[OF inv] by blast
qed (simp_all add: kept_def conn_inv_def IHS_SessionSetForeground_def IHS_SessionNotifyDisconnected_def Let_def)

text \<open>The connection as a transition system, on platforms whose allocations succeed.\<close>

definition live_step :: "'n platform \<Rightarrow> (nat \<Rightarrow> u32) \<Rightarrow> bool \<Rightarrow> 'n conn \<Rightarrow> 'n conn \<Rightarrow> bool" where
  "live_step pf rnd registered s s' \<longleftrightarrow> live_alloc (pf_mem pf) \<and> conn_step pf rnd registered s s'"

interpretation conn_sys: transition_system "\<lambda>s. s = s0 \<and> conn_inv registered s0" "live_step pf rnd registered"
  "kept registered s0" for s0 :: "'n conn" and pf rnd registered
proof
  show "kept registered s0 s" if "s = s0 \<and> conn_inv registered s0" for s using that by (auto simp: kept_def)
  show "kept registered s0 t" if "kept registered s0 s" "live_step pf rnd registered s t" for s t
    using that kept_trans conn_step_kept kept_inv unfolding live_step_def by blast
qed

lemma live_steps:
  assumes "live_alloc (pf_mem pf)" "(conn_step pf rnd registered)\<^sup>*\<^sup>* s s'"
  shows "(live_step pf rnd registered)\<^sup>*\<^sup>* s s'"
proof -
  have "live_step pf rnd registered = conn_step pf rnd registered" using assms(1) by (simp add: fun_eq_iff live_step_def)
  then show ?thesis using assms(2) by simp
qed

text \<open>C31: However starting, the peer's answers, received packets, foreground changes, updates,
  disconnects, closes and notifications follow each other, the connection stays consistent: the
  shutdown only passes through open, closing and closed; a closed or timed-out connection is
  inactive, the address is cleared exactly when it is closed, and the peer is then forgotten; a
  timed-out connection is shutting down; a paused client has an odd generation; and the
  application is told of the disconnection at most once.
\<close>

theorem transport_reachable_inv:
  fixes pf :: "'n platform"
  assumes live: "live_alloc (pf_mem pf)" and fresh: "conn_fresh s" and run: "(conn_step pf rnd registered)\<^sup>*\<^sup>* s s'"
  shows "conn_inv registered s'"
proof -
  have "conn_inv registered s" using fresh by (simp add: conn_fresh_def conn_inv_def count_list_0_iff)
  then show ?thesis using conn_sys.reachable_inv[OF _ live_steps[OF live run]] kept_inv by blast
qed

definition fresh_conn :: "unit conn" where
  "fresh_conn = live_conn\<lparr>cn_tp := live_transport\<lparr>tp_active := False\<rparr>\<rparr>"

theorem transport_reachable_inv_witness:
  "\<exists>s'. (conn_step quiet_platform (\<lambda>_. 0) True)\<^sup>*\<^sup>* fresh_conn s' \<and> conn_inv True s' \<and> tp_notified (cn_tp s')"
proof -
  have h: "live_alloc (pf_mem quiet_platform)" "conn_fresh fresh_conn"
    by (simp_all add: conn_fresh_def fresh_conn_def live_defs)
  let ?s = "IHS_SessionNotifyDisconnected True fresh_conn"
  have run: "(conn_step quiet_platform (\<lambda>_. 0) True)\<^sup>*\<^sup>* fresh_conn ?s" by (rule r_into_rtranclp, rule conn_step.notify)
  have "tp_notified (cn_tp ?s)" by (simp add: IHS_SessionNotifyDisconnected_def Let_def)
  then show ?thesis using transport_reachable_inv[OF h run] run by blast
qed


definition closed_conn :: "unit conn" where
  "closed_conn = live_conn\<lparr>cn_tp := live_transport\<lparr>tp_active := False, tp_shutdown := 2, tp_addressCleared := True\<rparr>,
     cn_hostConnectionId := 0\<rparr>"


section \<open>Connection identifiers\<close>

text \<open>Connection identifiers are never zero, and 255 successive ones of a process are all
  different, however the first one was drawn.
\<close>

theorem connection_ids_distinct:
  assumes ids: "ids_ok rnd s" and n: "n \<le> 255"
  shows "\<exists>is s'. connection_ids rnd n s = Some (is, s') \<and> length is = n \<and> distinct is \<and> 0 \<notin> set is"
proof -
  obtain cid :: u32 and s' where cid: "cid \<noteq> 0" "cid \<le> 255"
    "connection_ids rnd n s = Some (map (\<lambda>i. of_nat ((unat cid - 1 + i) mod 255 + 1)) [0..<n], s')"
    using connection_ids_seq[OF ids, of n] by blast
  define f where "f = (\<lambda>i. of_nat ((unat cid - 1 + i) mod 255 + 1) :: u8)"
  have u: "unat (f i) = (unat cid - 1 + i) mod 255 + 1" for i
    by (simp add: f_def unat_of_nat del: of_nat_Suc of_nat_add)
  have "inj_on f {0..<n}"
  proof (rule inj_onI)
    fix i j assume ij: "i \<in> {0..<n}" "j \<in> {0..<n}" "f i = f j"
    then have "(unat cid - 1 + i) mod 255 = (unat cid - 1 + j) mod 255" using u[of i] u[of j] by simp
    from ring_index_inj[OF _ _ this] show "i = j" using ij n by simp
  qed
  moreover have "f i \<noteq> 0" for i using u[of i] by (metis unat_0 add_is_0 one_neq_zero)
  ultimately show ?thesis using cid(3) unfolding f_def[symmetric] by (auto simp: distinct_map)
qed

theorem connection_ids_distinct_witness:
  "\<exists>is s'. connection_ids (\<lambda>_. 511) 255 (live_conn\<lparr>cn_nextConnectionId := 0\<rparr>) = Some (is, s') \<and> distinct is \<and> 0 \<notin> set is"
proof -
  have "ids_ok (\<lambda>_. 511) (live_conn\<lparr>cn_nextConnectionId := 0\<rparr>)" by (auto simp: ids_ok_def)
  from connection_ids_distinct[OF this, of 255] show ?thesis by auto
qed

end
