(* ===== verification/Media_Stats.thy ===== *)
theory Media_Stats
  imports Prelude
begin

text \<open>
  The frame statistics of a session (\<^verbatim>\<open>session/media_network_stats.c\<close>): frame numbers, spans, the batch
  of latencies that becomes a window after 600 frames, and the growing arrays of windows and of
  recorded samples.

  An array with its count is the list of the entries in use, next to the capacity of its block:
  storing an entry where the block ends gives \<^term>\<open>None\<close>, as does the failing \<^verbatim>\<open>assert\<close>.  The
  floating-point summaries are parameters: \<open>current\<close> is \<^verbatim>\<open>IHS_MediaNetworkStatsCurrent\<close> as a function of
  the batch and its latencies, \<open>mean\<close> the division by the number of windows in \<^verbatim>\<open>Stop\<close>, of which the
  model only uses that they are functions.  \<open>mem\<close> says whether a \<^verbatim>\<open>realloc\<close> of a number of bytes succeeds.
\<close>

record 'w media_stats =
  ms_next :: u16
  ms_total :: u32
  ms_batch :: u32
  ms_latencies :: "u32 list"
  ms_capacity :: nat
  ms_windows :: "'w list"
  ms_average :: "'w option"
  ms_valid :: bool
  ms_finalized :: bool
  ms_recordFull :: bool
  ms_targetKbps :: u32
  ms_full :: "(u32 \<times> u32) list"
  ms_fullCapacity :: nat

definition media_zero :: "'w media_stats" where
  "media_zero = \<lparr>ms_next = 0, ms_total = 0, ms_batch = 0, ms_latencies = [], ms_capacity = 0, ms_windows = [],
     ms_average = None, ms_valid = False, ms_finalized = False, ms_recordFull = False, ms_targetKbps = 0,
     ms_full = [], ms_fullCapacity = 0\<rparr>"

definition IHS_MediaNetworkStatsInit :: "'w media_stats" where
  "IHS_MediaNetworkStatsInit = media_zero\<lparr>ms_valid := True\<rparr>"

definition IHS_MediaNetworkStatsDestroy :: "'w media_stats" where
  "IHS_MediaNetworkStatsDestroy = media_zero"

definition IHS_MediaNetworkStatsStart :: "'w media_stats \<Rightarrow> 'w media_stats" where
  "IHS_MediaNetworkStatsStart s = s\<lparr>ms_next := 0, ms_targetKbps := 0, ms_full := [], ms_total := 0, ms_batch := 0,
     ms_latencies := [], ms_windows := [], ms_average := None, ms_valid := True, ms_finalized := False\<rparr>"

text \<open>The doubled capacity of an array, in 64 bits; \<open>unit'\<close> is the size of an entry.\<close>

definition grow_array :: "(nat \<Rightarrow> bool) \<Rightarrow> nat \<Rightarrow> nat \<Rightarrow> nat \<Rightarrow> nat option" where
  "grow_array mem unit' first capacity =
     (let bigger = (if capacity \<noteq> 0 then capacity * 2 mod 2 ^ 64 else first) in
      if bigger < capacity \<or> (2 ^ 64 - 1) div unit' < bigger then None
      else if mem (bigger * unit') then Some bigger else None)"

definition media_reserve :: "(nat \<Rightarrow> bool) \<Rightarrow> 'w media_stats \<Rightarrow> bool \<times> 'w media_stats" where
  "media_reserve mem s =
     (if length (ms_windows s) < ms_capacity s then (True, s)
      else case grow_array mem 12 8 (ms_capacity s) of
        None \<Rightarrow> (False, s)
      | Some c \<Rightarrow> (True, s\<lparr>ms_capacity := c\<rparr>))"

definition IHS_MediaNetworkStatsFold ::
    "(nat \<Rightarrow> bool) \<Rightarrow> (u32 \<Rightarrow> u32 list \<Rightarrow> 'w) \<Rightarrow> 'w media_stats \<Rightarrow> (bool \<times> 'w media_stats) option" where
  "IHS_MediaNetworkStatsFold mem current s =
     (case if ms_valid s then media_reserve mem s else (False, s) of (ok, s) \<Rightarrow>
        if \<not> ok then Some (False, s\<lparr>ms_valid := False, ms_batch := 0, ms_latencies := []\<rparr>)
        else do {
          assert_that (length (ms_windows s) < ms_capacity s);
          Some (True, s\<lparr>ms_windows := ms_windows s @ [current (ms_batch s) (ms_latencies s)],
                        ms_batch := 0, ms_latencies := []\<rparr>)
        })"

text \<open>Storing a sample when every sample is recorded.\<close>

definition record_full :: "(nat \<Rightarrow> bool) \<Rightarrow> 'w media_stats \<Rightarrow> u32 \<Rightarrow> (bool \<times> 'w media_stats) option" where
  "record_full mem s elapsed =
     (if \<not> ms_recordFull s then Some (True, s)
      else case if length (ms_full s) = ms_fullCapacity s then grow_array mem 8 64 (ms_fullCapacity s)
                else Some (ms_fullCapacity s) of
        None \<Rightarrow> Some (False, s\<lparr>ms_valid := False, ms_latencies := [], ms_batch := 0\<rparr>)
      | Some c \<Rightarrow> do {
          assert_that (length (ms_full s) < c);
          Some (True, s\<lparr>ms_fullCapacity := c, ms_full := ms_full s @ [(ms_targetKbps s, elapsed)]\<rparr>)
        })"

definition IHS_MediaNetworkStatsRecord ::
    "(nat \<Rightarrow> bool) \<Rightarrow> (u32 \<Rightarrow> u32 list \<Rightarrow> 'w) \<Rightarrow> 'w media_stats \<Rightarrow> u16 \<Rightarrow> u32 \<Rightarrow> u32 \<Rightarrow> (bool \<times> 'w media_stats) option" where
  "IHS_MediaNetworkStatsRecord mem current s frame sent received =
     (if sint (ms_next s - frame) > 0 then Some (True, s)
      else
        let span = ucast (frame - ms_next s) + 1;
            s = s\<lparr>ms_total := ms_total s + span, ms_next := frame + 1\<rparr> in
        if \<not> ms_valid s then Some (False, s)
        else do {
          let s = s\<lparr>ms_batch := ms_batch s + span\<rparr>;
          let elapsed = (if sint (received - sent) < 0 then 0 else received - sent);
          assert_that (length (ms_latencies s) < 600);
          let s = s\<lparr>ms_latencies := ms_latencies s @ [elapsed]\<rparr>;
          (ok, s) \<leftarrow> record_full mem s elapsed;
          if \<not> ok then Some (False, s)
          else if 600 \<le> ms_batch s then IHS_MediaNetworkStatsFold mem current s
          else Some (True, s)
        })"

definition IHS_MediaNetworkStatsStop ::
    "(nat \<Rightarrow> bool) \<Rightarrow> (u32 \<Rightarrow> u32 list \<Rightarrow> 'w) \<Rightarrow> ('w list \<Rightarrow> 'w) \<Rightarrow> 'w media_stats \<Rightarrow> (bool \<times> 'w media_stats) option" where
  "IHS_MediaNetworkStatsStop mem current mean s = do {
     (ok, s) \<leftarrow> IHS_MediaNetworkStatsFold mem current s;
     let s = s\<lparr>ms_finalized := True\<rparr>;
     if \<not> ok then Some (False, s)
     else Some (True, s\<lparr>ms_average := Some (mean (ms_windows s))\<rparr>)
   }"

section \<open>The collector is safe and its numbers agree\<close>

text \<open>
  One call from outside: the network test may switch the recording of samples and the target rate,
  and the allocator may fail at every call.
\<close>

datatype media_op = Start | Record u16 u32 u32 | Stop | Configure bool u32

fun media_apply :: "(u32 \<Rightarrow> u32 list \<Rightarrow> 'w) \<Rightarrow> ('w list \<Rightarrow> 'w) \<Rightarrow> (nat \<Rightarrow> bool) \<times> media_op \<Rightarrow> 'w media_stats \<Rightarrow> 'w media_stats option" where
  "media_apply current mean (mem, Start) s = Some (IHS_MediaNetworkStatsStart s)"
| "media_apply current mean (mem, Record frame sent received) s =
     map_option snd (IHS_MediaNetworkStatsRecord mem current s frame sent received)"
| "media_apply current mean (mem, Stop) s = map_option snd (IHS_MediaNetworkStatsStop mem current mean s)"
| "media_apply current mean (mem, Configure full rate) s = Some (s\<lparr>ms_recordFull := full, ms_targetKbps := rate\<rparr>)"

fun media_run :: "(u32 \<Rightarrow> u32 list \<Rightarrow> 'w) \<Rightarrow> ('w list \<Rightarrow> 'w) \<Rightarrow> ((nat \<Rightarrow> bool) \<times> media_op) list \<Rightarrow> 'w media_stats \<Rightarrow> 'w media_stats option" where
  "media_run current mean [] s = Some s"
| "media_run current mean (x # xs) s = Option.bind (media_apply current mean x s) (media_run current mean xs)"

definition media_inv :: "'w media_stats \<Rightarrow> bool" where
  "media_inv s \<longleftrightarrow> length (ms_latencies s) \<le> unat (ms_batch s) \<and> unat (ms_batch s) < 600 \<and>
     length (ms_windows s) \<le> ms_capacity s \<and> ms_capacity s \<le> (2 ^ 64 - 1) div 12 \<and>
     length (ms_full s) \<le> ms_fullCapacity s \<and> ms_fullCapacity s \<le> (2 ^ 64 - 1) div 8 \<and>
     ucast (ms_total s) = ms_next s"

lemma grow_array_bigger:
  assumes "grow_array mem u first c = Some c'" "0 < first" "2 \<le> u" "c \<le> (2 ^ 64 - 1) div u"
  shows "c < c'" "c' \<le> (2 ^ 64 - 1) div u"
proof -
  have "c \<le> (2 ^ 64 - 1) div 2" using assms(3,4) div_le_mono2[of 2 u "2 ^ 64 - 1"] by linarith
  then have "c * 2 mod 2 ^ 64 = c * 2" by simp
  then show "c < c'" "c' \<le> (2 ^ 64 - 1) div u" using assms(1,2) by (auto simp: grow_array_def Let_def split: if_splits)
qed

text \<open>Folding empties the batch, whatever it held.\<close>

lemma Fold_ok:
  assumes "length (ms_windows s) \<le> ms_capacity s" "ms_capacity s \<le> (2 ^ 64 - 1) div 12"
  shows "\<exists>ok c ws v. IHS_MediaNetworkStatsFold mem current s = Some (ok, s\<lparr>ms_capacity := c, ms_windows := ws, ms_valid := v,
     ms_batch := 0, ms_latencies := []\<rparr>) \<and> length ws \<le> c \<and> c \<le> (2 ^ 64 - 1) div 12 \<and>
     ws = ms_windows s @ (if ok then [current (ms_batch s) (ms_latencies s)] else []) \<and>
     (ok \<longleftrightarrow> ms_valid s \<and> fst (media_reserve mem s))"
proof (cases "ms_valid s \<and> fst (media_reserve mem s)")
  case True
  then obtain c where c: "media_reserve mem s = (True, s\<lparr>ms_capacity := c\<rparr>)" "length (ms_windows s) < c" "c \<le> (2 ^ 64 - 1) div 12"
  proof (cases "length (ms_windows s) < ms_capacity s")
    case False
    then obtain c where "grow_array mem 12 8 (ms_capacity s) = Some c"
      using True by (auto simp: media_reserve_def split: option.splits)
    then show ?thesis using that[of c] False assms grow_array_bigger[of mem 12 8 "ms_capacity s" c]
      by (simp add: media_reserve_def)
  qed (use assms that[of "ms_capacity s"] in \<open>simp add: media_reserve_def\<close>)
  show ?thesis using True c
    by (intro exI[of _ True] exI[of _ c] exI[of _ "ms_windows s @ [current (ms_batch s) (ms_latencies s)]"] exI[of _ True])
      (simp add: IHS_MediaNetworkStatsFold_def)
next
  case False
  then have "(if ms_valid s then media_reserve mem s else (False, s)) = (False, s)"
    by (auto simp: media_reserve_def split: if_splits option.splits)
  then show ?thesis using assms
    by (intro exI[of _ False] exI[of _ "ms_capacity s"] exI[of _ "ms_windows s"] exI[of _ False])
      (use False in \<open>simp add: IHS_MediaNetworkStatsFold_def\<close>)
qed

lemma record_full_ok:
  assumes "length (ms_full s) \<le> ms_fullCapacity s" "ms_fullCapacity s \<le> (2 ^ 64 - 1) div 8"
  shows "\<exists>ok c xs v b ls. record_full mem s e = Some (ok, s\<lparr>ms_fullCapacity := c, ms_full := xs, ms_valid := v,
     ms_batch := b, ms_latencies := ls\<rparr>) \<and> length xs \<le> c \<and> c \<le> (2 ^ 64 - 1) div 8 \<and>
     (if ok then b = ms_batch s \<and> ls = ms_latencies s else b = 0 \<and> ls = [])"
proof -
  let ?g = "if length (ms_full s) = ms_fullCapacity s then grow_array mem 8 64 (ms_fullCapacity s) else Some (ms_fullCapacity s)"
  consider "\<not> ms_recordFull s" | "ms_recordFull s" "?g = None"
    | c where "ms_recordFull s" "?g = Some c" "length (ms_full s) < c" "c \<le> (2 ^ 64 - 1) div 8"
    using assms grow_array_bigger[of mem 8 64 "ms_fullCapacity s"] by (fastforce split: if_splits)
  then show ?thesis
  proof cases
    case 1
    then show ?thesis using assms
      by (intro exI[of _ True] exI[of _ "ms_fullCapacity s"] exI[of _ "ms_full s"] exI[of _ "ms_valid s"]
          exI[of _ "ms_batch s"] exI[of _ "ms_latencies s"]) (simp add: record_full_def)
  next
    case 2
    then show ?thesis using assms
      by (intro exI[of _ False] exI[of _ "ms_fullCapacity s"] exI[of _ "ms_full s"] exI[of _ False]
          exI[of _ "0"] exI[of _ "[]"]) (simp add: record_full_def)
  next
    case 3
    then show ?thesis
      by (intro exI[of _ True] exI[of _ c] exI[of _ "ms_full s @ [(ms_targetKbps s, e)]"] exI[of _ "ms_valid s"]
          exI[of _ "ms_batch s"] exI[of _ "ms_latencies s"]) (simp add: record_full_def)
  qed
qed

lemma ucast_add16: "(ucast (a + b) :: u16) = ucast a + ucast b" for a b :: u32
  by (simp add: word_unat_eq_iff unsigned_ucast_eq take_bit_eq_mod unat_word_ariths mod_mod_cancel mod_add_eq)

lemma unat_ucast16: "unat (ucast x :: u32) = unat x" for x :: u16
  using unsigned_less[of x, where 'a = nat] by (simp add: unsigned_ucast_eq take_bit_nat_eq_self)

lemma ucast_ucast16: "ucast (ucast x :: u32) = x" for x :: u16
  by (simp add: word_unat_eq_iff unsigned_ucast_eq[where 'b = 32] unat_ucast16 take_bit_nat_eq_self
      unsigned_less[of x, where 'a = nat, simplified])

text \<open>The span that a frame adds to a batch in progress does not wrap.\<close>

lemma batch_span:
  fixes batch :: u32 and frame next' :: u16
  assumes "unat batch < 600"
  shows "unat (batch + (ucast (frame - next') + 1)) = unat batch + unat (frame - next') + 1"
proof -
  have "unat (frame - next') < 65536" using unsigned_less[of "frame - next'", where 'a = nat] by simp
  then show ?thesis using assms by (simp add: unat_word_ariths unat_ucast16)
qed

lemma Record_ok:
  assumes inv: "media_inv s"
  shows "\<exists>ok s'. IHS_MediaNetworkStatsRecord mem current s frame sent received = Some (ok, s') \<and> media_inv s'"
proof (cases "sint (ms_next s - frame) > 0")
  case True
  then show ?thesis using inv by (auto simp: IHS_MediaNetworkStatsRecord_def)
next
  case False
  let ?span = "ucast (frame - ms_next s) + 1 :: u32"
  let ?e = "if sint (received - sent) < 0 then 0 else received - sent"
  define s1 where "s1 = s\<lparr>ms_total := ms_total s + ?span, ms_next := frame + 1\<rparr>"
  have inv1: "media_inv s1" using inv by (simp add: media_inv_def s1_def ucast_add16 ucast_ucast16)
  show ?thesis
  proof (cases "ms_valid s")
    case invalid: False
    then show ?thesis using False inv1 by (auto simp: IHS_MediaNetworkStatsRecord_def Let_def s1_def)
  next
    case True
    define s2 where "s2 = s1\<lparr>ms_batch := ms_batch s + ?span, ms_latencies := ms_latencies s @ [?e]\<rparr>"
    have l: "length (ms_latencies s) \<le> unat (ms_batch s)" "unat (ms_batch s) < 600" using inv by (auto simp: media_inv_def)
    note b = batch_span[OF l(2), of frame "ms_next s"]
    obtain ok c xs v b' ls where rf: "record_full mem s2 ?e = Some (ok, s2\<lparr>ms_fullCapacity := c, ms_full := xs, ms_valid := v,
       ms_batch := b', ms_latencies := ls\<rparr>)" "length xs \<le> c" "c \<le> (2 ^ 64 - 1) div 8"
       "if ok then b' = ms_batch s2 \<and> ls = ms_latencies s2 else b' = 0 \<and> ls = []"
      using record_full_ok[of s2 mem ?e] inv1 by (auto simp: media_inv_def s2_def)
    define s3 where "s3 = s2\<lparr>ms_fullCapacity := c, ms_full := xs, ms_valid := v, ms_batch := b', ms_latencies := ls\<rparr>"
    have run: "IHS_MediaNetworkStatsRecord mem current s frame sent received =
       (if \<not> ok then Some (False, s3) else if 600 \<le> ms_batch s3 then IHS_MediaNetworkStatsFold mem current s3 else Some (True, s3))"
      using False True l rf(1) unfolding s3_def
      by (simp add: IHS_MediaNetworkStatsRecord_def Let_def s1_def s2_def)
    consider "\<not> ok \<or> ms_batch s3 < 600" | "ok" "600 \<le> ms_batch s3" by fastforce
    then show ?thesis
    proof cases
      case 1
      have "media_inv s3" using 1 inv1 rf(2-4) l b
        by (cases ok) (simp_all add: media_inv_def s3_def s2_def s1_def word_less_nat_alt)
      then show ?thesis using run 1 by (auto simp: not_le)
    next
      case 2
      from inv1 have "length (ms_windows s3) \<le> ms_capacity s3" "ms_capacity s3 \<le> (2 ^ 64 - 1) div 12"
        by (simp_all add: media_inv_def s3_def s2_def)
      from Fold_ok[OF this, of mem current] run 2 inv1 rf(2,3) show ?thesis
        by (auto simp: media_inv_def s3_def s2_def)
    qed
  qed
qed

lemma media_apply_ok:
  assumes "media_inv s"
  shows "\<exists>s'. media_apply current mean x s = Some s' \<and> media_inv s'"
proof -
  obtain mem op where x: "x = (mem, op)" by (cases x)
  show ?thesis
  proof (cases op)
    case (Record frame sent received)
    then show ?thesis using Record_ok[OF assms, of mem current frame sent received] by (auto simp: x)
  next
    case Stop
    have w: "length (ms_windows s) \<le> ms_capacity s" "ms_capacity s \<le> (2 ^ 64 - 1) div 12"
      using assms by (simp_all add: media_inv_def)
    show ?thesis using Fold_ok[OF w, of mem current] assms
      by (auto simp: x Stop IHS_MediaNetworkStatsStop_def media_inv_def Let_def)
  qed (use assms in \<open>auto simp: x media_inv_def IHS_MediaNetworkStatsStart_def\<close>)
qed

text \<open>No sequence of starting, recording, stopping and configuring the collector fails its assertion
  or writes past the end of an array, whatever the frame numbers and times, and whichever
  allocations fail: the latencies of a batch never exceed its span, a batch in progress is shorter
  than 600 frames, and the total span agrees with the next expected frame number.
\<close>

theorem media_stats_safe:
  "\<exists>s. media_run current mean ops IHS_MediaNetworkStatsInit = Some s \<and> media_inv s"
proof -
  have "\<exists>s'. media_run current mean ops s = Some s' \<and> media_inv s'" if "media_inv s" for s :: "'a media_stats"
    using that
  proof (induction ops arbitrary: s)
    case (Cons x xs)
    then show ?case using media_apply_ok[OF Cons.prems, of current mean x] by auto
  qed simp
  then show ?thesis by (simp add: media_inv_def IHS_MediaNetworkStatsInit_def media_zero_def)
qed

text \<open>A frame that does not close its batch adds its span, one latency and no window; a frame
  that closes it, when memory is available, adds the window that summarizes the whole batch and
  starts an empty one.
\<close>

theorem media_record_window:
  assumes inv: "media_inv s" and valid: "ms_valid s" "\<not> ms_recordFull s" and mem: "\<forall>n. mem n"
    and room: "ms_capacity s \<le> 2 ^ 59" and fwd: "sint (ms_next s - frame) \<le> 0" and time: "0 \<le> sint (received - sent)"
  defines "span \<equiv> unat (ms_batch s) + unat (frame - ms_next s) + 1"
  shows "\<exists>s'. IHS_MediaNetworkStatsRecord mem current s frame sent received = Some (True, s') \<and> ms_next s' = frame + 1 \<and>
     (if span < 600 then ms_windows s' = ms_windows s \<and> unat (ms_batch s') = span \<and>
        ms_latencies s' = ms_latencies s @ [received - sent]
      else ms_windows s' = ms_windows s @ [current (of_nat span) (ms_latencies s @ [received - sent])] \<and>
        ms_batch s' = 0 \<and> ms_latencies s' = [])"
proof -
  have l: "length (ms_latencies s) < 600" "unat (ms_batch s) < 600" using inv by (auto simp: media_inv_def)
  define b where "b = ms_batch s + (ucast (frame - ms_next s) + 1)"
  have b: "unat b = span" using batch_span[OF l(2)] by (simp add: b_def span_def)
  then have b': "b = of_nat span" by (simp add: b[symmetric])
  define s1 where "s1 = s\<lparr>ms_total := ms_total s + (ucast (frame - ms_next s) + 1), ms_next := frame + 1, ms_batch := b,
     ms_latencies := ms_latencies s @ [received - sent]\<rparr>"
  have run: "IHS_MediaNetworkStatsRecord mem current s frame sent received =
      (if 600 \<le> b then IHS_MediaNetworkStatsFold mem current s1 else Some (True, s1))"
    using fwd time valid l by (simp add: IHS_MediaNetworkStatsRecord_def record_full_def s1_def b_def Let_def not_less)
  have le: "600 \<le> b \<longleftrightarrow> \<not> span < 600" using b by (simp add: word_le_nat_alt not_less)
  show ?thesis
  proof (cases "span < 600")
    case True
    then show ?thesis using run le b by (simp add: s1_def)
  next
    case False
    have "\<exists>c. media_reserve mem s1 = (True, s1\<lparr>ms_capacity := c\<rparr>)"
      using mem room by (auto simp: media_reserve_def grow_array_def Let_def s1_def intro: exI[of _ "ms_capacity s"])
    moreover have "ms_valid s1" using valid by (simp add: s1_def)
    moreover have "length (ms_windows s1) \<le> ms_capacity s1" "ms_capacity s1 \<le> (2 ^ 64 - 1) div 12"
      using inv by (simp_all add: media_inv_def s1_def)
    ultimately obtain s' where "IHS_MediaNetworkStatsFold mem current s1 = Some (True, s')"
      "ms_windows s' = ms_windows s1 @ [current (ms_batch s1) (ms_latencies s1)]" "ms_batch s' = 0" "ms_latencies s' = []"
      "ms_next s' = ms_next s1"
      using Fold_ok[of s1 mem current] by auto
    then show ?thesis using run le False b' by (simp add: s1_def)
  qed
qed


theorem media_record_window_witness:
  "\<exists>s'. IHS_MediaNetworkStatsRecord (\<lambda>n. True) (\<lambda>b ls. (b, ls)) IHS_MediaNetworkStatsInit 599 100 150 = Some (True, s') \<and>
     ms_windows s' = [(600, [50])]"
proof -
  let ?s = "IHS_MediaNetworkStatsInit :: (u32 \<times> u32 list) media_stats"
  have h: "media_inv ?s" "ms_valid ?s" "\<not> ms_recordFull ?s" "\<forall>n :: nat. True" "ms_capacity ?s \<le> 2 ^ 59"
    "sint (ms_next ?s - 599) \<le> 0" "(0 :: int) \<le> sint (150 - 100 :: u32)"
    by (simp_all add: media_inv_def IHS_MediaNetworkStatsInit_def media_zero_def)
  show ?thesis using media_record_window[OF h(1-3), of "\<lambda>n. True" 599 150 100 "\<lambda>b ls. (b, ls)"] h(5-7)
    by (auto simp: IHS_MediaNetworkStatsInit_def media_zero_def)
qed

end
