(* ===== verification/Enumeration.thy ===== *)
theory Enumeration
  imports Collections
begin

text \<open>
  Enumerations (\<^verbatim>\<open>ihs_enumeration.c\<close>, \<^verbatim>\<open>ihs_enumeration_array.c\<close>, \<^verbatim>\<open>ihs_enumeration_ll.c\<close>).  An object's class
  pointer, set when it is allocated and never changed, is the constructor of \<open>enumeration\<close>; the
  functions of \<^verbatim>\<open>ihs_enumeration.c\<close> dispatch on it.  An address is a natural number and \<^term>\<open>None\<close> the null
  pointer; sizes and addresses have 64 bits.  The function that finds the successor of a list
  node and the function that frees the underlying data belong to the caller: they are fields of
  the object, as in the code, the latter acting on a state \<open>'c\<close> of its own.
\<close>

section \<open>Objects and operations\<close>

record 'c enumeration_array =
  ea_array :: "nat option"
  ea_itemSize :: nat
  ea_count :: nat
  ea_index :: nat
  ea_arrFree :: "(nat option \<Rightarrow> 'c \<Rightarrow> 'c) option"

record 'c enumeration_ll =
  el_head :: "nat option"
  el_cur :: "nat option"
  el_llNext :: "(nat option \<Rightarrow> nat option) option"
  el_llFree :: "(nat option \<Rightarrow> 'c \<Rightarrow> 'c) option"

datatype 'c enumeration = ArrayClass "'c enumeration_array" | LinkedListClass "'c enumeration_ll"

text \<open>The zeroed objects that \<^verbatim>\<open>calloc\<close> returns.\<close>

definition EnumerationArrayAlloc :: "'c enumeration_array" where
  "EnumerationArrayAlloc = \<lparr>ea_array = None, ea_itemSize = 0, ea_count = 0, ea_index = 0, ea_arrFree = None\<rparr>"

definition EnumerationLLAlloc :: "'c enumeration_ll" where
  "EnumerationLLAlloc = \<lparr>el_head = None, el_cur = None, el_llNext = None, el_llFree = None\<rparr>"

definition IHS_EnumerationArrayCreate ::
    "nat option \<Rightarrow> nat \<Rightarrow> nat \<Rightarrow> (nat option \<Rightarrow> 'c \<Rightarrow> 'c) option \<Rightarrow> 'c enumeration" where
  "IHS_EnumerationArrayCreate array itemSize count free = ArrayClass (EnumerationArrayAlloc\<lparr>ea_array := array,
     ea_itemSize := itemSize, ea_count := count, ea_arrFree := free\<rparr>)"

definition IHS_EnumerationEmptyCreate :: "'c enumeration" where
  "IHS_EnumerationEmptyCreate = IHS_EnumerationArrayCreate None 0 0 None"

definition IHS_EnumerationLinkedListCreate ::
    "nat option \<Rightarrow> (nat option \<Rightarrow> nat option) option \<Rightarrow> (nat option \<Rightarrow> 'c \<Rightarrow> 'c) option \<Rightarrow> 'c enumeration option" where
  "IHS_EnumerationLinkedListCreate ll nxt free = do {
     assert_that (nxt \<noteq> None);
     Some (LinkedListClass (EnumerationLLAlloc\<lparr>el_head := ll, el_llNext := nxt, el_llFree := free\<rparr>))
   }"

definition EnumerationArrayFree :: "'c enumeration_array \<Rightarrow> 'c \<Rightarrow> 'c" where
  "EnumerationArrayFree e c = (case ea_arrFree e of None \<Rightarrow> c | Some f \<Rightarrow> f (ea_array e) c)"

definition EnumerationArrayCount :: "'c enumeration_array \<Rightarrow> nat" where
  "EnumerationArrayCount e = ea_count e"

definition EnumerationArrayReset :: "'c enumeration_array \<Rightarrow> 'c enumeration_array" where
  "EnumerationArrayReset e = e\<lparr>ea_index := 0\<rparr>"

definition EnumerationArrayEnded :: "'c enumeration_array \<Rightarrow> bool" where
  "EnumerationArrayEnded e \<longleftrightarrow> ea_count e \<le> ea_index e"

definition EnumerationArrayGet :: "'c enumeration_array \<Rightarrow> nat option" where
  "EnumerationArrayGet e =
     (if ea_count e \<le> ea_index e then None
      else map_option (\<lambda>a. sz_add a (sz_mul (ea_index e) (ea_itemSize e))) (ea_array e))"

definition EnumerationArrayNext :: "'c enumeration_array \<Rightarrow> nat option \<times> 'c enumeration_array" where
  "EnumerationArrayNext e = (let e = e\<lparr>ea_index := sz_add (ea_index e) 1\<rparr> in (EnumerationArrayGet e, e))"

definition EnumerationLLFree :: "'c enumeration_ll \<Rightarrow> 'c \<Rightarrow> 'c" where
  "EnumerationLLFree e c = (case el_llFree e of None \<Rightarrow> c | Some f \<Rightarrow> f (el_head e) c)"

text \<open>\<open>llNext\<close> is never null in an object that was created.\<close>

definition ll_next :: "'c enumeration_ll \<Rightarrow> nat option \<Rightarrow> nat option" where
  "ll_next e p = (case el_llNext e of None \<Rightarrow> None | Some f \<Rightarrow> f p)"

partial_function (option) count_nodes :: "(nat option \<Rightarrow> nat option) \<Rightarrow> nat option \<Rightarrow> nat \<Rightarrow> nat option" where
  "count_nodes nxt cur n = (if cur = None then Some n else count_nodes nxt (nxt cur) (n + 1))"

definition EnumerationLLCount :: "'c enumeration_ll \<Rightarrow> nat option" where
  "EnumerationLLCount e = count_nodes (ll_next e) (el_head e) 0"

definition EnumerationLLReset :: "'c enumeration_ll \<Rightarrow> 'c enumeration_ll" where
  "EnumerationLLReset e = e\<lparr>el_cur := el_head e\<rparr>"

definition EnumerationLLEnded :: "'c enumeration_ll \<Rightarrow> bool" where
  "EnumerationLLEnded e \<longleftrightarrow> el_cur e = None"

definition EnumerationLLGet :: "'c enumeration_ll \<Rightarrow> nat option" where
  "EnumerationLLGet e = el_cur e"

definition EnumerationLLNext :: "'c enumeration_ll \<Rightarrow> nat option \<times> 'c enumeration_ll" where
  "EnumerationLLNext e = (let e = e\<lparr>el_cur := ll_next e (el_cur e)\<rparr> in (el_cur e, e))"

fun IHS_EnumerationReset :: "'c enumeration \<Rightarrow> 'c enumeration" where
  "IHS_EnumerationReset (ArrayClass e) = ArrayClass (EnumerationArrayReset e)"
| "IHS_EnumerationReset (LinkedListClass e) = LinkedListClass (EnumerationLLReset e)"

fun IHS_EnumerationEnded :: "'c enumeration \<Rightarrow> bool" where
  "IHS_EnumerationEnded (ArrayClass e) = EnumerationArrayEnded e"
| "IHS_EnumerationEnded (LinkedListClass e) = EnumerationLLEnded e"

fun IHS_EnumerationGet :: "'c enumeration \<Rightarrow> nat option" where
  "IHS_EnumerationGet (ArrayClass e) = EnumerationArrayGet e"
| "IHS_EnumerationGet (LinkedListClass e) = EnumerationLLGet e"

fun IHS_EnumerationNext :: "'c enumeration \<Rightarrow> nat option \<times> 'c enumeration" where
  "IHS_EnumerationNext (ArrayClass e) = map_prod id ArrayClass (EnumerationArrayNext e)"
| "IHS_EnumerationNext (LinkedListClass e) = map_prod id LinkedListClass (EnumerationLLNext e)"

fun IHS_EnumerationCount :: "'c enumeration \<Rightarrow> nat option" where
  "IHS_EnumerationCount (ArrayClass e) = Some (EnumerationArrayCount e)"
| "IHS_EnumerationCount (LinkedListClass e) = EnumerationLLCount e"

fun IHS_EnumerationFree :: "'c enumeration \<Rightarrow> 'c \<Rightarrow> 'c" where
  "IHS_EnumerationFree (ArrayClass e) c = EnumerationArrayFree e c"
| "IHS_EnumerationFree (LinkedListClass e) c = EnumerationLLFree e c"

section \<open>The contract of an enumeration\<close>

text \<open>
  The loop that every user of an enumeration runs: reset, then get and next until it has ended.
\<close>

partial_function (option) visit ::
    "('e \<Rightarrow> bool) \<Rightarrow> ('e \<Rightarrow> nat option) \<Rightarrow> ('e \<Rightarrow> nat option \<times> 'e) \<Rightarrow> 'e \<Rightarrow> nat option list \<Rightarrow> (nat option list \<times> 'e) option" where
  "visit ended get nxt e seen =
     (if ended e then Some (seen, e) else visit ended get nxt (snd (nxt e)) (seen @ [get e]))"

text \<open>
  \<open>items\<close> is what there is to enumerate and \<open>left\<close> what has not been passed yet.
\<close>

locale enumerator =
  fixes ok :: "'e \<Rightarrow> bool" and items :: "'e \<Rightarrow> nat list" and left :: "'e \<Rightarrow> nat list"
    and reset :: "'e \<Rightarrow> 'e" and ended :: "'e \<Rightarrow> bool" and get :: "'e \<Rightarrow> nat option"
    and nxt :: "'e \<Rightarrow> nat option \<times> 'e" and number :: "'e \<Rightarrow> nat option"
  assumes reset_left: "ok e \<Longrightarrow> ok (reset e) \<and> items (reset e) = items e \<and> left (reset e) = items e"
    and ended_left: "ok e \<Longrightarrow> ended e \<longleftrightarrow> left e = []"
    and get_left: "ok e \<Longrightarrow> get e = (if left e = [] then None else Some (hd (left e)))"
    and next_left: "ok e \<Longrightarrow> left e \<noteq> [] \<Longrightarrow> ok (snd (nxt e)) \<and> items (snd (nxt e)) = items e \<and>
      left (snd (nxt e)) = tl (left e) \<and> fst (nxt e) = get (snd (nxt e))"
    and number_items: "ok e \<Longrightarrow> number e = Some (length (items e))"
begin

lemma visit_left:
  "ok e \<Longrightarrow> \<exists>e'. visit ended get nxt e seen = Some (seen @ map Some (left e), e') \<and> ok e' \<and> items e' = items e \<and> left e' = []"
proof (induction "left e" arbitrary: e seen)
  case Nil
  then show ?case by (subst visit.simps) (simp add: ended_left)
next
  case (Cons x xs)
  have ne: "left e \<noteq> []" using Cons.hyps(2) by (metis list.distinct(1))
  note n = next_left[OF Cons.prems ne]
  have "xs = left (snd (nxt e))" using n Cons.hyps(2) by (metis list.sel(3))
  from Cons.hyps(1)[OF this, of "seen @ [get e]"] n obtain e' where
    e': "visit ended get nxt (snd (nxt e)) (seen @ [get e]) = Some (seen @ [get e] @ map Some xs, e')"
      "ok e'" "items e' = items e" "left e' = []" using \<open>xs = left (snd (nxt e))\<close> by auto
  have "get e = Some x" "map Some (left e) = Some x # map Some xs"
    using get_left[OF Cons.prems] Cons.hyps(2)[symmetric] by simp_all
  then show ?case using e' ne ended_left[OF Cons.prems] by (subst visit.simps) simp
qed

lemma visits_everything:
  assumes "ok e"
  shows "\<exists>e'. visit ended get nxt (reset e) [] = Some (map Some (items e), e') \<and> get e' = None \<and> ended e' \<and>
     number e' = Some (length (items e))"
proof -
  from reset_left[OF assms] visit_left[of "reset e" "[]"] obtain e' where
    "visit ended get nxt (reset e) [] = Some (map Some (items e), e')" "ok e'" "items e' = items e" "left e' = []" by auto
  then show ?thesis using get_left[of e'] ended_left[of e'] number_items[of e'] by auto
qed

end

section \<open>Arrays\<close>

definition array_ok :: "'c enumeration_array \<Rightarrow> bool" where
  "array_ok e \<longleftrightarrow> ea_index e \<le> ea_count e \<and>
     (case ea_array e of None \<Rightarrow> ea_count e = 0 | Some a \<Rightarrow> a + ea_count e * ea_itemSize e < 2 ^ 64) \<and> ea_count e < 2 ^ 64"

definition array_items :: "'c enumeration_array \<Rightarrow> nat list" where
  "array_items e = map (\<lambda>i. the (ea_array e) + i * ea_itemSize e) [0..<ea_count e]"

definition array_left :: "'c enumeration_array \<Rightarrow> nat list" where
  "array_left e = drop (ea_index e) (array_items e)"

lemma array_get:
  assumes "array_ok e"
  shows "EnumerationArrayGet e = (if array_left e = [] then None else Some (hd (array_left e)))"
proof (cases "ea_count e \<le> ea_index e")
  case False
  then obtain a where a: "ea_array e = Some a" "a + ea_count e * ea_itemSize e < 2 ^ 64"
    using assms by (auto simp: array_ok_def split: option.splits)
  have "ea_index e * ea_itemSize e \<le> ea_count e * ea_itemSize e" using False by simp
  then have "a + ea_index e * ea_itemSize e < 2 ^ 64" "ea_index e * ea_itemSize e < 2 ^ 64" using a(2) by linarith+
  then have "sz_add a (sz_mul (ea_index e) (ea_itemSize e)) = a + ea_index e * ea_itemSize e"
    by (simp add: sz_add_def sz_mul_def)
  then show ?thesis using False a(1) by (simp add: EnumerationArrayGet_def array_left_def array_items_def hd_drop_conv_nth)
qed (simp add: EnumerationArrayGet_def array_left_def array_items_def)

interpretation arrays: enumerator array_ok array_items array_left EnumerationArrayReset EnumerationArrayEnded
  EnumerationArrayGet EnumerationArrayNext "\<lambda>e. Some (EnumerationArrayCount e)"
proof unfold_locales
  fix e :: "'c enumeration_array"
  assume ok: "array_ok e"
  show "array_ok (EnumerationArrayReset e) \<and> array_items (EnumerationArrayReset e) = array_items e \<and>
      array_left (EnumerationArrayReset e) = array_items e"
    using ok by (simp add: EnumerationArrayReset_def array_ok_def array_items_def array_left_def split: option.splits)
  show "EnumerationArrayEnded e \<longleftrightarrow> array_left e = []"
    by (simp add: EnumerationArrayEnded_def array_left_def array_items_def)
  show "EnumerationArrayGet e = (if array_left e = [] then None else Some (hd (array_left e)))" by (rule array_get[OF ok])
  show "Some (EnumerationArrayCount e) = Some (length (array_items e))"
    by (simp add: EnumerationArrayCount_def array_items_def)
  assume "array_left e \<noteq> []"
  then have "ea_index e < ea_count e" by (simp add: array_left_def array_items_def)
  then have "snd (EnumerationArrayNext e) = e\<lparr>ea_index := Suc (ea_index e)\<rparr>" "Suc (ea_index e) \<le> ea_count e"
    using ok by (simp_all add: EnumerationArrayNext_def array_ok_def sz_add_def Let_def)
  then show "array_ok (snd (EnumerationArrayNext e)) \<and> array_items (snd (EnumerationArrayNext e)) = array_items e \<and>
      array_left (snd (EnumerationArrayNext e)) = tl (array_left e) \<and>
      fst (EnumerationArrayNext e) = EnumerationArrayGet (snd (EnumerationArrayNext e))"
    using ok by (simp add: array_ok_def array_items_def array_left_def drop_Suc tl_drop EnumerationArrayNext_def Let_def
        split: option.splits)
qed

section \<open>Linked lists\<close>

fun ll_chain :: "(nat option \<Rightarrow> nat option) \<Rightarrow> nat option \<Rightarrow> nat list \<Rightarrow> bool" where
  "ll_chain nxt p [] \<longleftrightarrow> p = None"
| "ll_chain nxt p (x # xs) \<longleftrightarrow> p = Some x \<and> ll_chain nxt (nxt p) xs"

lemma ll_chain_unique: "ll_chain nxt p xs \<Longrightarrow> ll_chain nxt p ys \<Longrightarrow> xs = ys"
proof (induction xs arbitrary: p ys)
  case Nil
  then show ?case by (cases ys) auto
next
  case (Cons x xs)
  then show ?case by (cases ys) auto
qed

text \<open>The nodes from a pointer on, if they end.\<close>

partial_function (option) ll_nodes :: "(nat option \<Rightarrow> nat option) \<Rightarrow> nat option \<Rightarrow> nat list option" where
  "ll_nodes nxt p = (case p of None \<Rightarrow> Some [] | Some x \<Rightarrow> Option.bind (ll_nodes nxt (nxt p)) (\<lambda>xs. Some (x # xs)))"

lemma ll_nodes_chain: "ll_chain nxt p xs \<Longrightarrow> ll_nodes nxt p = Some xs"
  by (induction xs arbitrary: p) (subst ll_nodes.simps, simp)+

lemma count_nodes_chain: "ll_chain nxt p xs \<Longrightarrow> count_nodes nxt p n = Some (n + length xs)"
  by (induction xs arbitrary: p n) (subst count_nodes.simps, simp)+

definition ll_items :: "'c enumeration_ll \<Rightarrow> nat list" where
  "ll_items e = the (ll_nodes (ll_next e) (el_head e))"

definition ll_left :: "'c enumeration_ll \<Rightarrow> nat list" where
  "ll_left e = the (ll_nodes (ll_next e) (el_cur e))"

definition ll_ok :: "'c enumeration_ll \<Rightarrow> bool" where
  "ll_ok e \<longleftrightarrow> ll_chain (ll_next e) (el_head e) (ll_items e) \<and> ll_chain (ll_next e) (el_cur e) (ll_left e)"

lemma ll_okI:
  assumes "ll_chain (ll_next e) (el_head e) xs" "ll_chain (ll_next e) (el_cur e) ys"
  shows "ll_ok e" "ll_items e = xs" "ll_left e = ys"
  using assms by (simp_all add: ll_ok_def ll_items_def ll_left_def ll_nodes_chain)

interpretation lists: enumerator ll_ok ll_items ll_left EnumerationLLReset EnumerationLLEnded EnumerationLLGet
  EnumerationLLNext EnumerationLLCount
proof unfold_locales
  fix e :: "'c enumeration_ll"
  assume "ll_ok e"
  then have head: "ll_chain (ll_next e) (el_head e) (ll_items e)" and cur: "ll_chain (ll_next e) (el_cur e) (ll_left e)"
    by (simp_all add: ll_ok_def)
  have same: "ll_next (e\<lparr>el_cur := p\<rparr>) = ll_next e" for p by (simp add: ll_next_def fun_eq_iff)
  show "ll_ok (EnumerationLLReset e) \<and> ll_items (EnumerationLLReset e) = ll_items e \<and>
      ll_left (EnumerationLLReset e) = ll_items e"
    using ll_okI[of "EnumerationLLReset e" "ll_items e" "ll_items e"] head by (simp add: EnumerationLLReset_def same)
  show "EnumerationLLEnded e \<longleftrightarrow> ll_left e = []"
    using cur by (cases "ll_left e") (simp_all add: EnumerationLLEnded_def)
  show "EnumerationLLGet e = (if ll_left e = [] then None else Some (hd (ll_left e)))"
    using cur by (cases "ll_left e") (simp_all add: EnumerationLLGet_def)
  show "EnumerationLLCount e = Some (length (ll_items e))"
    using count_nodes_chain[OF head, of 0] by (simp add: EnumerationLLCount_def)
  assume "ll_left e \<noteq> []"
  then obtain x xs where l: "ll_left e = x # xs" by (cases "ll_left e") auto
  let ?e = "e\<lparr>el_cur := ll_next e (el_cur e)\<rparr>"
  have c: "ll_chain (ll_next ?e) (el_cur ?e) xs" "ll_chain (ll_next ?e) (el_head ?e) (ll_items e)"
    using head cur unfolding l by (auto simp: same)
  note ll_okI[OF c(2,1)]
  then show "ll_ok (snd (EnumerationLLNext e)) \<and> ll_items (snd (EnumerationLLNext e)) = ll_items e \<and>
      ll_left (snd (EnumerationLLNext e)) = tl (ll_left e) \<and> fst (EnumerationLLNext e) = EnumerationLLGet (snd (EnumerationLLNext e))"
    by (simp add: EnumerationLLNext_def EnumerationLLGet_def l Let_def)
qed

section \<open>Enumerations of either class\<close>

fun enumeration_ok :: "'c enumeration \<Rightarrow> bool" where
  "enumeration_ok (ArrayClass e) = array_ok e"
| "enumeration_ok (LinkedListClass e) = ll_ok e"

fun enumeration_items :: "'c enumeration \<Rightarrow> nat list" where
  "enumeration_items (ArrayClass e) = array_items e"
| "enumeration_items (LinkedListClass e) = ll_items e"

fun enumeration_left :: "'c enumeration \<Rightarrow> nat list" where
  "enumeration_left (ArrayClass e) = array_left e"
| "enumeration_left (LinkedListClass e) = ll_left e"

interpretation enumerations: enumerator enumeration_ok enumeration_items enumeration_left IHS_EnumerationReset
  IHS_EnumerationEnded IHS_EnumerationGet IHS_EnumerationNext IHS_EnumerationCount
proof unfold_locales
  fix e :: "'c enumeration"
  assume ok: "enumeration_ok e"
  then show "enumeration_ok (IHS_EnumerationReset e) \<and> enumeration_items (IHS_EnumerationReset e) = enumeration_items e \<and>
      enumeration_left (IHS_EnumerationReset e) = enumeration_items e"
    by (cases e) (simp_all add: arrays.reset_left lists.reset_left)
  show "IHS_EnumerationEnded e \<longleftrightarrow> enumeration_left e = []"
    using ok by (cases e) (simp_all add: arrays.ended_left lists.ended_left)
  show "IHS_EnumerationGet e = (if enumeration_left e = [] then None else Some (hd (enumeration_left e)))"
    using ok by (cases e) (simp_all add: arrays.get_left lists.get_left)
  show "IHS_EnumerationCount e = Some (length (enumeration_items e))"
    using ok arrays.number_items lists.number_items by (cases e) auto
  assume "enumeration_left e \<noteq> []"
  then show "enumeration_ok (snd (IHS_EnumerationNext e)) \<and> enumeration_items (snd (IHS_EnumerationNext e)) = enumeration_items e \<and>
      enumeration_left (snd (IHS_EnumerationNext e)) = tl (enumeration_left e) \<and>
      fst (IHS_EnumerationNext e) = IHS_EnumerationGet (snd (IHS_EnumerationNext e))"
    using ok by (cases e) (simp_all add: arrays.next_left lists.next_left)
qed

text \<open>Objects as they are created; an array object is at its first item, a list object at its end.\<close>

lemma array_created:
  assumes "case array of None \<Rightarrow> count = 0 | Some a \<Rightarrow> a + count * itemSize < 2 ^ 64" "count < 2 ^ 64"
  shows "enumeration_ok (IHS_EnumerationArrayCreate array itemSize count free)"
    "enumeration_items (IHS_EnumerationArrayCreate array itemSize count free) = map (\<lambda>i. the array + i * itemSize) [0..<count]"
  using assms
  by (simp_all add: IHS_EnumerationArrayCreate_def EnumerationArrayAlloc_def array_ok_def array_items_def split: option.splits)

lemma list_created:
  assumes "ll_chain nxt p xs"
  shows "\<exists>e. IHS_EnumerationLinkedListCreate p (Some nxt) free = Some e \<and> enumeration_ok e \<and> enumeration_items e = xs \<and>
     enumeration_left e = []"
proof -
  let ?e = "EnumerationLLAlloc\<lparr>el_head := p, el_llNext := Some nxt, el_llFree := free\<rparr>"
  have "ll_next ?e = nxt" by (simp add: ll_next_def fun_eq_iff)
  then show ?thesis using ll_okI[of ?e xs "[]"] assms
    by (simp add: IHS_EnumerationLinkedListCreate_def EnumerationLLAlloc_def)
qed

text \<open>The loop over an enumeration returns and visits every item once, in order: for an array the
  addresses of its \<open>count\<close> items, for a linked list the nodes from its head to the end.  The count
  agrees with the number of visits, and afterwards the enumeration has ended and yields the null
  pointer.
\<close>

theorem enumeration_visits_all:
  fixes free1 free2 :: "(nat option \<Rightarrow> 'c \<Rightarrow> 'c) option"
  assumes array: "a + count * itemSize < 2 ^ 64" "count < 2 ^ 64" and list: "ll_chain nxt p xs"
  defines "loop \<equiv> \<lambda>e :: 'c enumeration. visit IHS_EnumerationEnded IHS_EnumerationGet IHS_EnumerationNext (IHS_EnumerationReset e) []"
  defines "finished \<equiv> \<lambda>(e :: 'c enumeration) n. IHS_EnumerationGet e = None \<and> IHS_EnumerationEnded e \<and> IHS_EnumerationCount e = Some n"
  shows "(\<exists>e. loop (IHS_EnumerationArrayCreate (Some a) itemSize count free1) =
            Some (map (\<lambda>i. Some (a + i * itemSize)) [0..<count], e) \<and> finished e count) \<and>
     (\<exists>e0 e. IHS_EnumerationLinkedListCreate p (Some nxt) free2 = Some e0 \<and> loop e0 = Some (map Some xs, e) \<and>
            finished e (length xs))"
proof
  show "\<exists>e. loop (IHS_EnumerationArrayCreate (Some a) itemSize count free1) =
            Some (map (\<lambda>i. Some (a + i * itemSize)) [0..<count], e) \<and> finished e count"
    using enumerations.visits_everything[OF array_created(1)[where array = "Some a" and count = count and itemSize = itemSize and free = free1]]
      array array_created(2)[where array = "Some a" and count = count and itemSize = itemSize and free = free1]
    by (auto simp: loop_def finished_def o_def)
  show "\<exists>e0 e. IHS_EnumerationLinkedListCreate p (Some nxt) free2 = Some e0 \<and> loop e0 = Some (map Some xs, e) \<and>
            finished e (length xs)"
    using list_created[OF list, of free2] enumerations.visits_everything[where 'a = 'c]
    unfolding loop_def finished_def by metis
qed

theorem enumeration_visits_all_witness:
  "\<exists>e0 e. IHS_EnumerationLinkedListCreate (Some 8) (Some ((\<lambda>_. None)(Some 8 := Some 4))) None = Some (e0 :: unit enumeration) \<and>
     visit IHS_EnumerationEnded IHS_EnumerationGet IHS_EnumerationNext (IHS_EnumerationReset e0) [] = Some ([Some 8, Some 4], e) \<and>
     IHS_EnumerationCount e = Some 2"
proof -
  have "ll_chain ((\<lambda>_. None)(Some 8 := Some 4)) (Some 8) [8, 4]" by simp
  from enumeration_visits_all[of 1000 3 4, OF _ _ this, of None "None :: (nat option \<Rightarrow> unit \<Rightarrow> unit) option"]
  show ?thesis by auto
qed

end
