(* ===== verification/Outgoing_Sort.thy ===== *)
theory Outgoing_Sort
  imports Outgoing "HOL-Library.Multiset"
begin

text \<open>
  Ordering the channels by priority (\<^verbatim>\<open>session/outgoing_sort.c\<close>), a specialization of the library sort of
  libc++: insertion sort below 24 elements, above that a quicksort with a median of three, two kinds
  of partition and an attempt to finish nearly sorted ranges by insertion.

  The array \<^verbatim>\<open>order\<close> is a list, an index a natural number.  Reading or writing outside the array
  gives \<^term>\<open>None\<close>, as does stepping below its first element; most of the scans of the source test no
  bound and rely on an element that stops them.  \<open>lt x y\<close> is \<^verbatim>\<open>before(o, x, y)\<close>.
\<close>

section \<open>The algorithm\<close>

definition before :: "outgoing \<Rightarrow> nat \<Rightarrow> nat \<Rightarrow> bool" where
  "before o' a b \<longleftrightarrow> out_priority o' ! a > out_priority o' ! b"

definition cell :: "nat list \<Rightarrow> nat \<Rightarrow> nat option" where
  "cell a i = (if i < length a then Some (a ! i) else None)"

definition put :: "nat list \<Rightarrow> nat \<Rightarrow> nat \<Rightarrow> nat list option" where
  "put a i x = (if i < length a then Some (a[i := x]) else None)"

definition swap :: "nat list \<Rightarrow> nat \<Rightarrow> nat \<Rightarrow> nat list option" where
  "swap a i j = do {
     t \<leftarrow> cell a i;
     u \<leftarrow> cell a j;
     a \<leftarrow> put a i u;
     put a j t
   }"

definition sort3 :: "(nat \<Rightarrow> nat \<Rightarrow> bool) \<Rightarrow> nat list \<Rightarrow> nat \<Rightarrow> nat \<Rightarrow> nat \<Rightarrow> nat list option" where
  "sort3 lt a x y z = do {
     ax \<leftarrow> cell a x;
     ay \<leftarrow> cell a y;
     az \<leftarrow> cell a z;
     if \<not> lt ay ax then
       if \<not> lt az ay then Some a
       else do {
         a \<leftarrow> swap a y z;
         ay \<leftarrow> cell a y;
         if lt ay ax then swap a x y else Some a
       }
     else if lt az ay then swap a x z
     else do {
       a \<leftarrow> swap a x y;
       ay \<leftarrow> cell a y;
       if lt az ay then swap a y z else Some a
     }
   }"

text \<open>The loop that moves larger elements up; the result is the array and the free place.\<close>

fun shift_up :: "(nat \<Rightarrow> nat \<Rightarrow> bool) \<Rightarrow> nat \<Rightarrow> nat \<Rightarrow> nat list \<Rightarrow> nat \<Rightarrow> (nat list \<times> nat) option" where
  "shift_up lt value lo a 0 = Some (a, 0)"
| "shift_up lt value lo a (Suc j) =
     (if lo < Suc j then do {
        x \<leftarrow> cell a j;
        if lt value x then do {
          a \<leftarrow> put a (Suc j) x;
          shift_up lt value lo a j
        } else Some (a, Suc j)
      } else Some (a, Suc j))"

text \<open>The outer loop; \<open>n\<close> elements are left, \<open>limit\<close> is the test \<^verbatim>\<open>incomplete && hi - lo > 5\<close>.\<close>

fun insert_loop :: "(nat \<Rightarrow> nat \<Rightarrow> bool) \<Rightarrow> nat \<Rightarrow> nat \<Rightarrow> bool \<Rightarrow> nat \<Rightarrow> nat \<Rightarrow> nat list \<Rightarrow> nat \<Rightarrow> (nat list \<times> bool) option" where
  "insert_loop lt lo hi limit 0 i a moved = Some (a, True)"
| "insert_loop lt lo hi limit (Suc n) i a moved = do {
     value \<leftarrow> cell a i;
     (a, j) \<leftarrow> shift_up lt value lo a i;
     a \<leftarrow> put a j value;
     if limit \<and> j \<noteq> i then
       if moved + 1 = 8 then Some (a, i + 1 = hi)
       else insert_loop lt lo hi limit n (i + 1) a (moved + 1)
     else insert_loop lt lo hi limit n (i + 1) a moved
   }"

definition insertion :: "(nat \<Rightarrow> nat \<Rightarrow> bool) \<Rightarrow> nat list \<Rightarrow> nat \<Rightarrow> nat \<Rightarrow> bool \<Rightarrow> (nat list \<times> bool) option" where
  "insertion lt a lo hi incomplete =
     (if incomplete \<and> lo + 5 < hi then do {
        a \<leftarrow> sort3 lt a lo (lo + 1) (lo + 2);
        insert_loop lt lo hi True (hi - (lo + 3)) (lo + 3) a 0
      } else insert_loop lt lo hi False (hi - (lo + 1)) (lo + 1) a 0)"

text \<open>The scans \<^verbatim>\<open>do ++i while P(a[i])\<close> and \<^verbatim>\<open>do --i while P(a[i])\<close>.\<close>

partial_function (option) scan_up :: "(nat \<Rightarrow> bool) \<Rightarrow> nat list \<Rightarrow> nat \<Rightarrow> nat option" where
  "scan_up P a i = Option.bind (cell a (i + 1)) (\<lambda>x. if P x then scan_up P a (i + 1) else Some (i + 1))"

partial_function (option) scan_down :: "(nat \<Rightarrow> bool) \<Rightarrow> nat list \<Rightarrow> nat \<Rightarrow> nat option" where
  "scan_down P a i = (if i = 0 then None
     else Option.bind (cell a (i - 1)) (\<lambda>x. if P x then scan_down P a (i - 1) else Some (i - 1)))"

text \<open>The scans that test their bound.\<close>

partial_function (option) scan_up_to :: "(nat \<Rightarrow> bool) \<Rightarrow> nat list \<Rightarrow> nat \<Rightarrow> nat \<Rightarrow> nat option" where
  "scan_up_to P a i limit =
     (if i + 1 < limit then Option.bind (cell a (i + 1)) (\<lambda>x. if P x then scan_up_to P a (i + 1) limit else Some (i + 1))
      else Some (i + 1))"

partial_function (option) scan_down_to :: "(nat \<Rightarrow> bool) \<Rightarrow> nat list \<Rightarrow> nat \<Rightarrow> nat \<Rightarrow> nat option" where
  "scan_down_to P a first i =
     (if first < i then Option.bind (cell a (i - 1)) (\<lambda>x. if P x then scan_down_to P a first (i - 1) else Some (i - 1))
      else Some i)"

text \<open>The loop of both partitions; \<open>small\<close> elements go to the left.\<close>

partial_function (option) part_loop :: "(nat \<Rightarrow> bool) \<Rightarrow> nat list \<Rightarrow> nat \<Rightarrow> nat \<Rightarrow> (nat list \<times> nat) option" where
  "part_loop small a first end' =
     (if first < end' then Option.bind (swap a first end') (\<lambda>a.
        Option.bind (scan_up small a first) (\<lambda>first.
        Option.bind (scan_down (\<lambda>x. \<not> small x) a end') (\<lambda>end'. part_loop small a first end')))
      else Some (a, first))"

text \<open>The pivot, which was at \<open>lo\<close>, goes to the end of the left part.\<close>

definition place_pivot :: "nat list \<Rightarrow> nat \<Rightarrow> nat \<Rightarrow> nat \<Rightarrow> nat list option" where
  "place_pivot a lo pos pivot = do {
     a \<leftarrow> (if pos \<noteq> lo then do { x \<leftarrow> cell a pos; put a lo x } else Some a);
     put a pos pivot
   }"

definition equal_left :: "(nat \<Rightarrow> nat \<Rightarrow> bool) \<Rightarrow> nat list \<Rightarrow> nat \<Rightarrow> nat \<Rightarrow> (nat list \<times> nat) option" where
  "equal_left lt a lo hi = do {
     pivot \<leftarrow> cell a lo;
     top \<leftarrow> cell a (hi - 1);
     first \<leftarrow> (if lt pivot top then scan_up (\<lambda>x. \<not> lt pivot x) a lo else scan_up_to (\<lambda>x. \<not> lt pivot x) a lo hi);
     end' \<leftarrow> (if first < hi then scan_down (lt pivot) a hi else Some hi);
     (a, first) \<leftarrow> part_loop (\<lambda>x. \<not> lt pivot x) a first end';
     a \<leftarrow> place_pivot a lo (first - 1) pivot;
     Some (a, first)
   }"

definition equal_right :: "(nat \<Rightarrow> nat \<Rightarrow> bool) \<Rightarrow> nat list \<Rightarrow> nat \<Rightarrow> nat \<Rightarrow> (nat list \<times> nat \<times> bool) option" where
  "equal_right lt a lo hi = do {
     pivot \<leftarrow> cell a lo;
     first \<leftarrow> scan_up (\<lambda>x. lt x pivot) a lo;
     end' \<leftarrow> (if first = lo + 1 then scan_down_to (\<lambda>x. \<not> lt x pivot) a first hi else scan_down (\<lambda>x. \<not> lt x pivot) a hi);
     let partitioned = (end' \<le> first);
     (a, first) \<leftarrow> part_loop (\<lambda>x. lt x pivot) a first end';
     a \<leftarrow> place_pivot a lo (first - 1) pivot;
     Some (a, first - 1, partitioned)
   }"

text \<open>
  One round of the loop of \<^verbatim>\<open>sort_range\<close>: it returns, goes on with another range, or sorts the left part
  recursively and goes on with the right part.
\<close>

datatype sort_next = Sorted "nat list" | Again "nat list" nat nat | Split "nat list" nat

definition sort_round :: "(nat \<Rightarrow> nat \<Rightarrow> bool) \<Rightarrow> nat list \<Rightarrow> nat \<Rightarrow> nat \<Rightarrow> bool \<Rightarrow> sort_next option" where
  "sort_round lt a lo hi leftmost =
     (if lo + 24 \<le> hi then do {
        a \<leftarrow> sort3 lt a (lo + (hi - lo) div 2) lo (hi - 1);
        equal \<leftarrow> (if leftmost then Some False
          else if lo = 0 then None
          else do { prev \<leftarrow> cell a (lo - 1); x \<leftarrow> cell a lo; Some (\<not> lt prev x) });
        if equal then do { (a, lo) \<leftarrow> equal_left lt a lo hi; Some (Again a lo hi) }
        else do {
          (a, pivot, partitioned) \<leftarrow> equal_right lt a lo hi;
          if partitioned then do {
            (a, left) \<leftarrow> insertion lt a lo pivot True;
            (a, right) \<leftarrow> insertion lt a (pivot + 1) hi True;
            Some (if right then if left then Sorted a else Again a lo pivot
                  else if left then Again a (pivot + 1) hi
                  else Split a pivot)
          } else Some (Split a pivot)
        }
      } else do { (a, _) \<leftarrow> insertion lt a lo hi False; Some (Sorted a) })"

partial_function (option) sort_range :: "(nat \<Rightarrow> nat \<Rightarrow> bool) \<Rightarrow> nat list \<Rightarrow> nat \<Rightarrow> nat \<Rightarrow> bool \<Rightarrow> nat list option" where
  "sort_range lt a lo hi leftmost =
     Option.bind (sort_round lt a lo hi leftmost) (\<lambda>r. case r of
        Sorted a \<Rightarrow> Some a
      | Again a lo hi \<Rightarrow> sort_range lt a lo hi leftmost
      | Split a pivot \<Rightarrow> Option.bind (sort_range lt a lo pivot leftmost) (\<lambda>a. sort_range lt a (pivot + 1) hi False))"

definition IHS_OutgoingSort :: "outgoing \<Rightarrow> outgoing option" where
  "IHS_OutgoingSort o' = do {
     assert_that (out_count o' \<le> 32);
     order \<leftarrow> sort_range (before o') (out_order o') 0 (out_count o') True;
     Some (o'\<lparr>out_order := order\<rparr>)
   }"

section \<open>Ranges of an array\<close>

text \<open>
  \<open>moved_in lo hi a a'\<close>: the second array is the first with the elements from \<open>lo\<close> to before \<open>hi\<close>
  permuted.
\<close>

definition moved_in :: "nat \<Rightarrow> nat \<Rightarrow> nat list \<Rightarrow> nat list \<Rightarrow> bool" where
  "moved_in lo hi a a' \<longleftrightarrow> mset a' = mset a \<and> (\<forall>i. i < lo \<or> hi \<le> i \<longrightarrow> i < length a \<longrightarrow> a' ! i = a ! i)"

definition in_order :: "(nat \<Rightarrow> int) \<Rightarrow> nat \<Rightarrow> nat \<Rightarrow> nat list \<Rightarrow> bool" where
  "in_order rank lo hi a \<longleftrightarrow> (\<forall>i j. lo \<le> i \<longrightarrow> i < j \<longrightarrow> j < hi \<longrightarrow> rank (a ! i) \<le> rank (a ! j))"

abbreviation all_in :: "nat \<Rightarrow> nat \<Rightarrow> nat list \<Rightarrow> (nat \<Rightarrow> bool) \<Rightarrow> bool" where
  "all_in lo hi a P \<equiv> (\<forall>i. lo \<le> i \<longrightarrow> i < hi \<longrightarrow> P (a ! i))"

lemma moved_in_length: "moved_in lo hi a a' \<Longrightarrow> length a' = length a"
  by (metis moved_in_def mset_eq_length)

lemma moved_in_refl [simp]: "moved_in lo hi a a"
  by (simp add: moved_in_def)

lemma moved_in_trans: "moved_in lo hi a b \<Longrightarrow> moved_in lo hi b c \<Longrightarrow> moved_in lo hi a c"
  using moved_in_length[of lo hi a b] by (simp add: moved_in_def)

lemma moved_in_mono: "moved_in lo hi a b \<Longrightarrow> lo' \<le> lo \<Longrightarrow> hi \<le> hi' \<Longrightarrow> moved_in lo' hi' a b"
  by (auto simp: moved_in_def)

lemma moved_in_outside: "moved_in lo hi a b \<Longrightarrow> i < lo \<or> hi \<le> i \<Longrightarrow> i < length a \<Longrightarrow> b ! i = a ! i"
  by (auto simp: moved_in_def)

lemma swap_ok:
  assumes "i < length a" "j < length a"
  shows "swap a i j = Some (a[i := a ! j, j := a ! i])"
  using assms by (simp add: swap_def cell_def put_def)

lemma moved_in_swap:
  assumes "lo \<le> i" "i < hi" "lo \<le> j" "j < hi" "hi \<le> length a"
  shows "moved_in lo hi a (a[i := a ! j, j := a ! i])"
  using assms by (auto simp: moved_in_def mset_swap nth_list_update)

text \<open>A property of all elements of the range is kept.\<close>

lemma moved_in_segment:
  assumes m: "moved_in lo hi a b" and hi: "lo \<le> hi" "hi \<le> length a"
  shows "mset (drop lo (take hi b)) = mset (drop lo (take hi a))"
proof -
  have len: "length b = length a" by (rule moved_in_length[OF m])
  have split: "mset c = mset (take lo c) + mset (drop lo (take hi c)) + mset (drop hi c)" if "length c = length a" for c :: "nat list"
  proof -
    have "take lo c @ drop lo (take hi c) = take hi c" using hi(1) by (metis append_take_drop_id min.absorb1 take_take)
    then have "c = (take lo c @ drop lo (take hi c)) @ drop hi c" by simp
    then show ?thesis by (metis mset_append)
  qed
  have "take lo b = take lo a" "drop hi b = drop hi a"
    using m len by (auto simp: moved_in_def intro!: nth_equalityI)
  then show ?thesis using split[of a] split[OF len] m by (simp add: moved_in_def)
qed

lemma all_in_set: "hi \<le> length a \<Longrightarrow> all_in lo hi a P \<longleftrightarrow> (\<forall>x \<in> set (drop lo (take hi a)). P x)"
proof -
  assume hi: "hi \<le> length a"
  have "set (drop lo (take hi a)) = {a ! i | i. lo \<le> i \<and> i < hi}"
  proof (intro set_eqI iffI)
    fix x assume "x \<in> set (drop lo (take hi a))"
    then obtain k where "k < hi - lo" "x = a ! (lo + k)" using hi by (auto simp: in_set_conv_nth)
    then show "x \<in> {a ! i | i. lo \<le> i \<and> i < hi}" by (auto intro!: exI[of _ "lo + k"])
  next
    fix x assume "x \<in> {a ! i | i. lo \<le> i \<and> i < hi}"
    then obtain i where i: "x = a ! i" "lo \<le> i" "i < hi" by auto
    then have "drop lo (take hi a) ! (i - lo) = x" "i - lo < length (drop lo (take hi a))" using hi by simp_all
    then show "x \<in> set (drop lo (take hi a))" using nth_mem by metis
  qed
  then show ?thesis by auto
qed

lemma moved_in_all:
  assumes m: "moved_in lo hi a b" and hi: "lo \<le> hi" "hi \<le> length a" and P: "all_in lo hi a P"
  shows "all_in lo hi b P"
proof -
  have "set (drop lo (take hi b)) = set (drop lo (take hi a))"
    using moved_in_segment[OF m hi] by (metis set_mset_mset)
  then show ?thesis using P all_in_set[OF hi(2)] all_in_set[of hi b lo P] hi(2) moved_in_length[OF m] by simp
qed

text \<open>The same for a wider range, of which only a part is permuted.\<close>

lemma moved_in_all_wider:
  assumes m: "moved_in lo hi a b" and le: "lo' \<le> lo" "lo \<le> hi" "hi \<le> hi'" "hi' \<le> length a" and P: "all_in lo' hi' a P"
  shows "all_in lo' hi' b P"
  using moved_in_all[OF moved_in_mono[OF m le(1,3)] _ le(4) P] le by simp

section \<open>Three elements and insertion\<close>

abbreviation rank_less :: "(nat \<Rightarrow> int) \<Rightarrow> nat \<Rightarrow> nat \<Rightarrow> bool" where
  "rank_less rank \<equiv> (\<lambda>x y. rank x < rank y)"

lemma sort3_ok:
  assumes i: "lo \<le> x" "x < hi" "lo \<le> y" "y < hi" "lo \<le> z" "z < hi" "hi \<le> length a" and d: "x \<noteq> y" "y \<noteq> z" "x \<noteq> z"
  shows "\<exists>b. sort3 (rank_less rank) a x y z = Some b \<and> moved_in lo hi a b \<and>
     rank (b ! x) \<le> rank (b ! y) \<and> rank (b ! y) \<le> rank (b ! z)"
proof -
  have in_range: "x < length a" "y < length a" "z < length a" using i by simp_all
  let ?xy = "a[x := a ! y, y := a ! x]" and ?yz = "a[y := a ! z, z := a ! y]" and ?xz = "a[x := a ! z, z := a ! x]"
  have one: "moved_in lo hi a ?xy" "moved_in lo hi a ?yz" "moved_in lo hi a ?xz"
    using i by (auto intro!: moved_in_swap)
  have two: "moved_in lo hi a (?yz[x := ?yz ! y, y := ?yz ! x])" "moved_in lo hi a (?xy[y := ?xy ! z, z := ?xy ! y])"
    by (rule moved_in_trans[OF one(2)], rule moved_in_swap; use i in simp)
      (rule moved_in_trans[OF one(1)], rule moved_in_swap; use i in simp)
  show ?thesis using in_range one two d
    by (auto simp: sort3_def cell_def swap_ok nth_list_update)
qed

text \<open>
  Shifting: \<open>b\<close> is the array with the value in the free place.  All pairs but those with the free
  place are in order, and everything behind it is larger than the value.
\<close>

definition gap_order :: "(nat \<Rightarrow> int) \<Rightarrow> nat \<Rightarrow> nat \<Rightarrow> nat \<Rightarrow> nat list \<Rightarrow> bool" where
  "gap_order rank lo hi j b \<longleftrightarrow> (\<forall>x y. lo \<le> x \<longrightarrow> x < y \<longrightarrow> y < hi \<longrightarrow> x \<noteq> j \<longrightarrow> rank (b ! x) \<le> rank (b ! y) \<or> y = j) \<and>
     (\<forall>y. j < y \<longrightarrow> y < hi \<longrightarrow> rank (b ! j) < rank (b ! y))"

lemma shift_up_ok:
  assumes "lo \<le> j" "j < hi" "hi \<le> length a" "gap_order rank lo hi j (a[j := v])"
  shows "\<exists>a' k. shift_up (rank_less rank) v lo a j = Some (a', k) \<and> lo \<le> k \<and> k \<le> j \<and> length a' = length a \<and>
     moved_in lo hi (a[j := v]) (a'[k := v]) \<and> in_order rank lo hi (a'[k := v])"
  using assms
proof (induction j arbitrary: a)
  case 0
  have "rank (a[0 := v] ! x) \<le> rank (a[0 := v] ! y)" if "x < y" "y < hi" for x y
  proof (cases "x = 0")
    case True
    then show ?thesis using 0 that unfolding gap_order_def by (metis less_imp_le)
  next
    case False
    then show ?thesis using 0 that unfolding gap_order_def by auto
  qed
  then show ?case using 0 by (simp add: in_order_def)
next
  case (Suc j)
  let ?b = "a[Suc j := v]"
  have old: "rank (?b ! x) \<le> rank (?b ! y)" if "lo \<le> x" "x < y" "y < hi" "x \<noteq> Suc j" "y \<noteq> Suc j" for x y
    using Suc.prems(4) that unfolding gap_order_def by blast
  have stop: "in_order rank lo hi ?b" if "Suc j = lo \<or> rank (a ! j) \<le> rank v"
    unfolding in_order_def
  proof (intro allI impI)
    fix x y assume xy: "lo \<le> x" "x < y" "y < hi"
    consider "x = Suc j" | "y = Suc j" "x = j" | "y = Suc j" "x < j" | "x \<noteq> Suc j" "y \<noteq> Suc j" using xy by linarith
    then show "rank (?b ! x) \<le> rank (?b ! y)"
    proof cases
      case 3
      then show ?thesis using old[of x j] that xy Suc.prems by simp
    next
      case 4
      then show ?thesis using old xy by blast
    qed (use Suc.prems xy that in \<open>auto simp: gap_order_def less_imp_le\<close>)
  qed
  show ?case
  proof (cases "lo < Suc j \<and> rank v < rank (a ! j)")
    case False
    then have "shift_up (rank_less rank) v lo a (Suc j) = Some (a, Suc j)" using Suc.prems by (auto simp: cell_def)
    moreover have "Suc j = lo \<or> rank (a ! j) \<le> rank v" using False Suc.prems by auto
    ultimately show ?thesis using stop Suc.prems by auto
  next
    case True
    let ?a = "a[Suc j := a ! j]"
    have run: "shift_up (rank_less rank) v lo a (Suc j) = shift_up (rank_less rank) v lo ?a j"
      using True Suc.prems by (simp add: cell_def put_def)
    have swapped: "?a[j := v] = ?b[j := ?b ! Suc j, Suc j := ?b ! j]"
      using Suc.prems by (auto simp: list_update_swap intro!: nth_equalityI)
    have mv: "moved_in lo hi ?b (?a[j := v])" unfolding swapped
      using True Suc.prems by (intro moved_in_swap) auto
    have "gap_order rank lo hi j (?a[j := v])"
      unfolding gap_order_def
    proof (intro conjI allI impI)
      have new: "?a[j := v] ! y = (if y = j then v else if y = Suc j then a ! j else ?b ! y)" if "y < hi" for y
        using that Suc.prems by (simp add: nth_list_update)
      fix x y
      show "rank (?a[j := v] ! x) \<le> rank (?a[j := v] ! y) \<or> y = j" if "lo \<le> x" "x < y" "y < hi" "x \<noteq> j"
        using old[of x y] old[of x j] old[of j y] new[of x] new[of y] that True Suc.prems by (cases "x = Suc j") auto
      show "rank (?a[j := v] ! j) < rank (?a[j := v] ! y)" if "j < y" "y < hi"
        using new[of y] new[of j] that True Suc.prems unfolding gap_order_def by (cases "y = Suc j") auto
    qed
    from Suc.IH[OF _ _ _ this] True Suc.prems obtain a' k where
      "shift_up (rank_less rank) v lo ?a j = Some (a', k)" "lo \<le> k" "k \<le> j" "length a' = length a"
      "moved_in lo hi (?a[j := v]) (a'[k := v])" "in_order rank lo hi (a'[k := v])" by auto
    then show ?thesis using run moved_in_trans[OF mv] by auto
  qed
qed

lemma insert_loop_ok:
  assumes "in_order rank lo i a" "lo \<le> i" "hi \<le> length a"
  shows "\<exists>b done. insert_loop (rank_less rank) lo hi limit (hi - i) i a moved = Some (b, done) \<and> moved_in lo hi a b \<and>
     (done \<longrightarrow> in_order rank lo hi b) \<and> (\<not> limit \<longrightarrow> done)"
  using assms
proof (induction "hi - i" arbitrary: i a moved)
  case 0
  then show ?case by (auto simp: in_order_def)
next
  case (Suc n)
  then have i: "i < hi" "hi - i = Suc n" "n = hi - (i + 1)" by auto
  have "gap_order rank lo (i + 1) i (a[i := a ! i])"
    using Suc.prems(1) by (auto simp: gap_order_def in_order_def)
  from shift_up_ok[OF Suc.prems(2) _ _ this] i Suc.prems(3) obtain c k where
    c: "shift_up (rank_less rank) (a ! i) lo a i = Some (c, k)" "lo \<le> k" "k \<le> i" "length c = length a"
      "moved_in lo (i + 1) a (c[k := a ! i])" "in_order rank lo (i + 1) (c[k := a ! i])" by auto
  let ?b = "c[k := a ! i]"
  have mv: "moved_in lo hi a ?b" using moved_in_mono[OF c(5)] i by simp
  have run: "insert_loop (rank_less rank) lo hi limit (hi - i) i a moved =
      (if limit \<and> k \<noteq> i \<and> moved + 1 = 8 then Some (?b, i + 1 = hi)
       else insert_loop (rank_less rank) lo hi limit (hi - (i + 1)) (i + 1) ?b (if limit \<and> k \<noteq> i then moved + 1 else moved))"
    using c(1-4) i Suc.prems(3) unfolding i(2) by (simp add: cell_def put_def i(3))
  show ?case
  proof (cases "limit \<and> k \<noteq> i \<and> moved + 1 = 8")
    case True
    then show ?thesis using run mv c(6) by auto
  next
    case False
    obtain b ok where "insert_loop (rank_less rank) lo hi limit (hi - (i + 1)) (i + 1) ?b (if limit \<and> k \<noteq> i then moved + 1 else moved) =
        Some (b, ok)" "moved_in lo hi ?b b" "ok \<longrightarrow> in_order rank lo hi b" "\<not> limit \<longrightarrow> ok"
    proof -
      have "lo \<le> i + 1" "hi \<le> length ?b" using Suc.prems c(4) by simp_all
      from Suc.hyps(1)[OF i(3) c(6) this] show thesis using that by blast
    qed
    then show ?thesis using run False moved_in_trans[OF mv] by auto
  qed
qed

lemma insertion_ok:
  assumes "hi \<le> length a"
  shows "\<exists>b done. insertion (rank_less rank) a lo hi incomplete = Some (b, done) \<and> moved_in lo hi a b \<and>
     (done \<longrightarrow> in_order rank lo hi b) \<and> (\<not> incomplete \<longrightarrow> done)"
proof (cases "incomplete \<and> lo + 5 < hi")
  case True
  then obtain b where b: "sort3 (rank_less rank) a lo (lo + 1) (lo + 2) = Some b" "moved_in lo hi a b"
    "rank (b ! lo) \<le> rank (b ! (lo + 1))" "rank (b ! (lo + 1)) \<le> rank (b ! (lo + 2))"
    using sort3_ok[of lo lo hi "lo + 1" "lo + 2" a rank] assms by auto
  have "in_order rank lo (lo + 3) b"
    unfolding in_order_def
  proof (intro allI impI)
    fix x y assume "lo \<le> x" "x < y" "y < lo + 3"
    then consider "x = lo" "y = lo + 1" | "x = lo" "y = lo + 2" | "x = lo + 1" "y = lo + 2" by linarith
    then show "rank (b ! x) \<le> rank (b ! y)" using b(3,4) by cases auto
  qed
  from insert_loop_ok[OF this, of hi True 0] obtain c ok where
    "insert_loop (rank_less rank) lo hi True (hi - (lo + 3)) (lo + 3) b 0 = Some (c, ok)" "moved_in lo hi b c"
    "ok \<longrightarrow> in_order rank lo hi c" using assms moved_in_length[OF b(2)] by auto
  then show ?thesis using True b(1) moved_in_trans[OF b(2)] by (auto simp: insertion_def)
next
  case False
  have "in_order rank lo (lo + 1) a" by (auto simp: in_order_def)
  from insert_loop_ok[OF this, of hi False 0] show ?thesis using False assms by (auto simp: insertion_def)
qed

section \<open>Scans and partitions\<close>

lemma scan_up_ok:
  assumes "i < s" "s < length a" "\<not> P (a ! s)"
  shows "\<exists>j. scan_up P a i = Some j \<and> i < j \<and> j \<le> s \<and> \<not> P (a ! j) \<and> all_in (i + 1) j a P"
  using assms
proof (induction "s - i" arbitrary: i)
  case (Suc n)
  show ?case
  proof (cases "P (a ! (i + 1))")
    case True
    then have "i + 1 < s" using Suc.prems by (metis Suc_eq_plus1 Suc_lessI)
    moreover have "n = s - (i + 1)" using Suc.hyps(2) by simp
    ultimately obtain j where "scan_up P a (i + 1) = Some j" "i + 1 < j" "j \<le> s" "\<not> P (a ! j)" "all_in (i + 2) j a P"
      using Suc.hyps(1)[of "i + 1"] Suc.prems by auto
    then show ?thesis using True Suc.prems by (subst scan_up.simps) (auto simp: cell_def le_Suc_eq dest: le_imp_less_or_eq)
  next
    case False
    then show ?thesis using Suc.prems by (subst scan_up.simps) (auto simp: cell_def)
  qed
qed simp

lemma scan_down_ok:
  assumes "s < i" "i \<le> length a" "\<not> P (a ! s)"
  shows "\<exists>j. scan_down P a i = Some j \<and> s \<le> j \<and> j < i \<and> \<not> P (a ! j) \<and> all_in (j + 1) i a P"
  using assms
proof (induction "i - s" arbitrary: i)
  case (Suc n)
  show ?case
  proof (cases "P (a ! (i - 1))")
    case True
    then have "s < i - 1" using Suc.prems by (metis Suc_diff_1 less_Suc_eq gr_implies_not0 neq0_conv)
    moreover have "n = i - 1 - s" "i - 1 \<le> length a" using Suc.hyps(2) Suc.prems by simp_all
    ultimately obtain j where "scan_down P a (i - 1) = Some j" "s \<le> j" "j < i - 1" "\<not> P (a ! j)" "all_in (j + 1) (i - 1) a P"
      using Suc.hyps(1)[of "i - 1"] Suc.prems by auto
    moreover have "all_in (j + 1) i a P"
    proof (intro allI impI)
      fix k assume "j + 1 \<le> k" "k < i"
      then show "P (a ! k)" using True \<open>all_in (j + 1) (i - 1) a P\<close> by (cases "k = i - 1") auto
    qed
    ultimately show ?thesis using True Suc.prems by (subst scan_down.simps) (auto simp: cell_def)
  next
    case False
    then show ?thesis using Suc.prems by (subst scan_down.simps) (auto simp: cell_def)
  qed
qed simp

lemma scan_up_to_ok:
  assumes "i < limit" "limit \<le> length a"
  shows "\<exists>j. scan_up_to P a i limit = Some j \<and> i < j \<and> j \<le> limit \<and> (j < limit \<longrightarrow> \<not> P (a ! j)) \<and> all_in (i + 1) j a P"
  using assms
proof (induction "limit - i" arbitrary: i)
  case (Suc n)
  show ?case
  proof (cases "i + 1 < limit \<and> P (a ! (i + 1))")
    case True
    moreover have "n = limit - (i + 1)" using Suc.hyps(2) by simp
    ultimately obtain j where "scan_up_to P a (i + 1) limit = Some j" "i + 1 < j" "j \<le> limit" "j < limit \<longrightarrow> \<not> P (a ! j)" "all_in (i + 2) j a P"
      using Suc.hyps(1)[of "i + 1"] Suc.prems by auto
    then show ?thesis using True Suc.prems by (subst scan_up_to.simps) (auto simp: cell_def le_Suc_eq dest: le_imp_less_or_eq)
  next
    case False
    then show ?thesis using Suc.prems by (subst scan_up_to.simps) (auto simp: cell_def)
  qed
qed simp

lemma scan_down_to_ok:
  assumes "first \<le> i" "i \<le> length a"
  shows "\<exists>j. scan_down_to P a first i = Some j \<and> first \<le> j \<and> j \<le> i \<and> (first < i \<longrightarrow> \<not> P (a ! j) \<or> j = first) \<and>
     all_in (j + 1) i a P \<and> (j = first \<longrightarrow> all_in j i a P \<or> first < i \<and> \<not> P (a ! j)) \<and> (first < i \<longrightarrow> j < i)"
  using assms
proof (induction "i - first" arbitrary: i)
  case 0
  then show ?case by (subst scan_down_to.simps) auto
next
  case (Suc n)
  show ?case
  proof (cases "P (a ! (i - 1))")
    case True
    have "n = i - 1 - first" "first \<le> i - 1" "i - 1 \<le> length a" using Suc.hyps(2) Suc.prems by simp_all
    then obtain j where j: "scan_down_to P a first (i - 1) = Some j" "first \<le> j" "j \<le> i - 1"
       "first < i - 1 \<longrightarrow> \<not> P (a ! j) \<or> j = first" "all_in (j + 1) (i - 1) a P"
       "j = first \<longrightarrow> all_in j (i - 1) a P \<or> first < i - 1 \<and> \<not> P (a ! j)"
      using Suc.hyps(1)[of "i - 1"] Suc.prems by auto
    have ext: "all_in m i a P" if "all_in m (i - 1) a P" for m
    proof (intro allI impI)
      fix k assume "m \<le> k" "k < i"
      then show "P (a ! k)" using True that by (cases "k = i - 1") auto
    qed
    have "first < i" "i - 1 < length a" using Suc.hyps(2) Suc.prems by linarith+
    then have "scan_down_to P a first i = Some j" using True j(1) by (subst scan_down_to.simps) (simp add: cell_def)
    moreover have "j = first \<longrightarrow> all_in j i a P \<or> first < i \<and> \<not> P (a ! j)" using j(6) ext[of j] \<open>first < i\<close> by blast
    moreover have "\<not> P (a ! j) \<or> j = first" using j(2-4) by (cases "first < i - 1") auto
    moreover have "j < i" using j(3) \<open>first < i\<close> by linarith
    moreover have "j \<le> i" using \<open>j < i\<close> by simp
    ultimately show ?thesis using j(2) ext[OF j(5)] by blast
  next
    case False
    then show ?thesis using Suc.hyps(2) Suc.prems by (subst scan_down_to.simps) (auto simp: cell_def)
  qed
qed

text \<open>
  The state of the partition loop: the elements behind the pivot's place up to \<open>first\<close> are small, and
  either the loop is over or both scans have stopped on an element of the wrong side.
\<close>

definition part_state :: "(nat \<Rightarrow> bool) \<Rightarrow> nat \<Rightarrow> nat \<Rightarrow> nat list \<Rightarrow> nat \<Rightarrow> nat \<Rightarrow> bool" where
  "part_state small lo hi a first end' \<longleftrightarrow> lo < first \<and> first \<le> hi \<and> hi \<le> length a \<and> all_in (lo + 1) first a small \<and>
     (if first < end' then end' < hi \<and> \<not> small (a ! first) \<and> small (a ! end') \<and> all_in (end' + 1) hi a (\<lambda>x. \<not> small x)
      else all_in first hi a (\<lambda>x. \<not> small x))"

lemma part_state_step:
  assumes st: "part_state small lo hi a first end'" and lt: "first < end'"
  defines "b \<equiv> a[first := a ! end', end' := a ! first]"
  shows "\<exists>j k. scan_up small b first = Some j \<and> scan_down (\<lambda>x. \<not> small x) b end' = Some k \<and>
     part_state small lo hi b j k \<and> first < j \<and> k < end'"
proof -
  have s: "lo < first" "end' < hi" "hi \<le> length a" "\<not> small (a ! first)" "small (a ! end')"
    "all_in (lo + 1) first a small" "all_in (end' + 1) hi a (\<lambda>x. \<not> small x)"
    using st lt by (auto simp: part_state_def)
  have b: "length b = length a" "small (b ! first)" "\<not> small (b ! end')"
    "\<And>i. i \<noteq> first \<Longrightarrow> i \<noteq> end' \<Longrightarrow> b ! i = a ! i" using s lt by (auto simp: b_def nth_list_update)
  obtain j where j: "scan_up small b first = Some j" "first < j" "j \<le> end'" "\<not> small (b ! j)" "all_in (first + 1) j b small"
    using scan_up_ok[of first end' b small] b s lt by auto
  obtain k where k: "scan_down (\<lambda>x. \<not> small x) b end' = Some k" "first \<le> k" "k < end'" "small (b ! k)"
      "all_in (k + 1) end' b (\<lambda>x. \<not> small x)"
    using scan_down_ok[of first end' b "\<lambda>x. \<not> small x"] b s lt by auto
  have left: "all_in (lo + 1) j b small"
  proof (intro allI impI)
    fix i assume i: "lo + 1 \<le> i" "i < j"
    consider "i < first" | "i = first" | "first < i" by linarith
    then show "small (b ! i)" using i s(6) b j(3,5) lt by cases auto
  qed
  have right: "all_in (k + 1) hi b (\<lambda>x. \<not> small x)"
  proof (intro allI impI)
    fix i assume i: "k + 1 \<le> i" "i < hi"
    consider "i < end'" | "i = end'" | "end' < i" by linarith
    then show "\<not> small (b ! i)" using i s(7) b k(2,5) by cases auto
  qed
  have "k \<noteq> j" using j(4) k(4) by blast
  then have "part_state small lo hi b j k"
    using left right j s b(1) k(3,4) lt unfolding part_state_def by auto
  then show ?thesis using j k by blast
qed

lemma part_loop_ok:
  assumes "part_state small lo hi a first end'"
  shows "\<exists>b p. part_loop small a first end' = Some (b, p) \<and> lo < p \<and> p \<le> hi \<and> moved_in (lo + 1) hi a b \<and>
     all_in (lo + 1) p b small \<and> all_in p hi b (\<lambda>x. \<not> small x)"
  using assms
proof (induction "end' - first" arbitrary: a first end' rule: less_induct)
  case less
  show ?case
  proof (cases "first < end'")
    case False
    then show ?thesis using less.prems by (subst part_loop.simps) (auto simp: part_state_def)
  next
    case True
    let ?b = "a[first := a ! end', end' := a ! first]"
    obtain j k where jk: "scan_up small ?b first = Some j" "scan_down (\<lambda>x. \<not> small x) ?b end' = Some k"
      "part_state small lo hi ?b j k" "first < j" "k < end'"
      using part_state_step[OF less.prems True] by blast
    have in_range: "lo + 1 \<le> first" "end' < hi" "hi \<le> length a" using less.prems True by (auto simp: part_state_def)
    have mv: "moved_in (lo + 1) hi a ?b" using in_range True by (intro moved_in_swap) auto
    have "part_loop small a first end' = part_loop small ?b j k"
      using True in_range jk(1,2) by (subst part_loop.simps) (simp add: swap_ok)
    moreover have "k - j < end' - first" using True jk(4,5) by simp
    ultimately show ?thesis using less.hyps[OF _ jk(3)] moved_in_trans[OF mv] by fastforce
  qed
qed

lemma place_pivot_ok:
  assumes "lo < p" "p \<le> hi" "hi \<le> length a" and S: "all_in (lo + 1) p a S" and N: "all_in p hi a N"
  shows "\<exists>b. place_pivot a lo (p - 1) (a ! lo) = Some b \<and> moved_in lo hi a b \<and> b ! (p - 1) = a ! lo \<and>
     all_in lo (p - 1) b S \<and> all_in p hi b N"
proof (cases "p - 1 = lo")
  case True
  then show ?thesis using assms by (auto simp: place_pivot_def put_def cell_def)
next
  case False
  let ?b = "a[lo := a ! (p - 1), p - 1 := a ! lo]"
  have "place_pivot a lo (p - 1) (a ! lo) = Some ?b" using False assms by (simp add: place_pivot_def put_def cell_def)
  moreover have "moved_in lo hi a ?b" using False assms by (intro moved_in_swap) auto
  moreover have "?b ! (p - 1) = a ! lo" using assms by simp
  moreover have "S (?b ! i)" if "lo \<le> i" "i < p - 1" for i
    using that assms False by (cases "i = lo") (auto simp: nth_list_update)
  moreover have "N (?b ! i)" if "p \<le> i" "i < hi" for i using that assms by (auto simp: nth_list_update)
  ultimately show ?thesis by blast
qed

text \<open>Both partitions end alike: the loop, then the pivot.\<close>

lemma partition_end:
  assumes st: "part_state small lo hi a first end'"
  shows "\<exists>b c p. part_loop small a first end' = Some (b, p) \<and> place_pivot b lo (p - 1) (a ! lo) = Some c \<and>
     lo < p \<and> p \<le> hi \<and> moved_in lo hi a c \<and> c ! (p - 1) = a ! lo \<and>
     all_in lo (p - 1) c small \<and> all_in p hi c (\<lambda>x. \<not> small x)"
proof -
  have hi: "hi \<le> length a" "lo < hi" using st by (auto simp: part_state_def)
  obtain b p where b: "part_loop small a first end' = Some (b, p)" "lo < p" "p \<le> hi" "moved_in (lo + 1) hi a b"
     "all_in (lo + 1) p b small" "all_in p hi b (\<lambda>x. \<not> small x)"
    using part_loop_ok[OF st] by blast
  have "b ! lo = a ! lo" using moved_in_outside[OF b(4)] hi by simp
  moreover have "moved_in lo hi a b" using moved_in_mono[OF b(4)] by simp
  moreover have "hi \<le> length b" using moved_in_length[OF b(4)] hi by simp
  ultimately show ?thesis using place_pivot_ok[OF b(2,3) _ b(5,6)] b(1-3) moved_in_trans by fastforce
qed

lemma equal_right_ok:
  assumes lo: "lo + 1 < hi" "hi \<le> length a" and top: "rank (a ! lo) \<le> rank (a ! (hi - 1))"
  shows "\<exists>b pos part. equal_right (rank_less rank) a lo hi = Some (b, pos, part) \<and> lo \<le> pos \<and> pos < hi \<and> moved_in lo hi a b \<and>
     all_in lo pos b (\<lambda>x. rank x < rank (b ! pos)) \<and> all_in (pos + 1) hi b (\<lambda>x. rank (b ! pos) \<le> rank x)"
proof -
  let ?S = "\<lambda>x. rank x < rank (a ! lo)"
  obtain first where f: "scan_up ?S a lo = Some first" "lo < first" "first \<le> hi - 1" "\<not> ?S (a ! first)" "all_in (lo + 1) first a ?S"
  proof -
    have "lo < hi - 1" "hi - 1 < length a" "\<not> ?S (a ! (hi - 1))" using lo top by linarith+
    from scan_up_ok[where P = ?S, OF this] show thesis using that by blast
  qed
  have "\<exists>end'. (if first = lo + 1 then scan_down_to (\<lambda>x. \<not> ?S x) a first hi else scan_down (\<lambda>x. \<not> ?S x) a hi) = Some end' \<and>
      part_state ?S lo hi a first end'"
  proof (cases "first = lo + 1")
    case True
    obtain e where e: "scan_down_to (\<lambda>x. \<not> ?S x) a first hi = Some e" "first \<le> e" "e \<le> hi"
      "first < hi \<longrightarrow> ?S (a ! e) \<or> e = first" "all_in (e + 1) hi a (\<lambda>x. \<not> ?S x)"
      "e = first \<longrightarrow> all_in e hi a (\<lambda>x. \<not> ?S x) \<or> first < hi \<and> ?S (a ! e)" "first < hi \<longrightarrow> e < hi"
    proof -
      have "first \<le> hi" using f(3) by simp
      from scan_down_to_ok[where P = "\<lambda>x. \<not> ?S x", OF this lo(2)] show thesis using that by auto
    qed
    have "part_state ?S lo hi a first e"
    proof (cases "e = first")
      case True
      then show ?thesis using e(6) f lo by (auto simp: part_state_def)
    next
      case False
      then have "?S (a ! e)" "e \<noteq> hi" using e f(3) lo by auto
      then show ?thesis using False e f lo by (auto simp: part_state_def)
    qed
    then show ?thesis using True e(1) by auto
  next
    case False
    then have "?S (a ! (lo + 1))" "lo + 1 < first" using f(2,5) by auto
    then obtain e where e: "scan_down (\<lambda>x. \<not> ?S x) a hi = Some e" "lo + 1 \<le> e" "e < hi" "?S (a ! e)" "all_in (e + 1) hi a (\<lambda>x. \<not> ?S x)"
      using scan_down_ok[of "lo + 1" hi a "\<lambda>x. \<not> ?S x"] lo by auto
    then have "part_state ?S lo hi a first e" using f lo by (cases "e = first") (auto simp: part_state_def)
    then show ?thesis using False e(1) by auto
  qed
  then obtain end' where e: "(if first = lo + 1 then scan_down_to (\<lambda>x. \<not> ?S x) a first hi else scan_down (\<lambda>x. \<not> ?S x) a hi) = Some end'"
     "part_state ?S lo hi a first end'" by blast
  obtain b c p where p: "part_loop ?S a first end' = Some (b, p)" "place_pivot b lo (p - 1) (a ! lo) = Some c" "lo < p" "p \<le> hi"
     "moved_in lo hi a c" "c ! (p - 1) = a ! lo" "all_in lo (p - 1) c ?S" "all_in p hi c (\<lambda>x. \<not> ?S x)"
    using partition_end[OF e(2)] by blast
  have "equal_right (rank_less rank) a lo hi = Some (c, p - 1, end' \<le> first)"
    unfolding equal_right_def using f(1) e(1) p(1,2) lo by (simp add: cell_def)
  then show ?thesis using p by (intro exI[of _ c] exI[of _ "p - 1"] exI[of _ "end' \<le> first"]) (auto simp: not_less)
qed

lemma equal_left_ok:
  assumes lo: "lo + 1 < hi" "hi \<le> length a"
  shows "\<exists>b p. equal_left (rank_less rank) a lo hi = Some (b, p) \<and> lo < p \<and> p \<le> hi \<and> moved_in lo hi a b \<and>
     all_in lo p b (\<lambda>x. rank x \<le> rank (a ! lo)) \<and> all_in p hi b (\<lambda>x. rank (a ! lo) < rank x)"
proof -
  let ?S = "\<lambda>x. \<not> rank (a ! lo) < rank x"
  have "\<exists>first. (if rank (a ! lo) < rank (a ! (hi - 1)) then scan_up ?S a lo else scan_up_to ?S a lo hi) = Some first \<and>
      lo < first \<and> first \<le> hi \<and> (first < hi \<longrightarrow> \<not> ?S (a ! first)) \<and> all_in (lo + 1) first a ?S"
  proof (cases "rank (a ! lo) < rank (a ! (hi - 1))")
    case True
    then have "lo < hi - 1" "hi - 1 < length a" "\<not> ?S (a ! (hi - 1))" using lo by linarith+
    from scan_up_ok[where P = ?S, OF this] True show ?thesis by auto
  next
    case False
    have "lo < hi" using lo by simp
    from scan_up_to_ok[where P = ?S, OF this lo(2)] False show ?thesis by auto
  qed
  then obtain first where f: "(if rank (a ! lo) < rank (a ! (hi - 1)) then scan_up ?S a lo else scan_up_to ?S a lo hi) = Some first"
      "lo < first" "first \<le> hi" "first < hi \<longrightarrow> \<not> ?S (a ! first)" "all_in (lo + 1) first a ?S" by blast
  have "\<exists>end'. (if first < hi then scan_down (\<lambda>x. rank (a ! lo) < rank x) a hi else Some hi) = Some end' \<and> part_state ?S lo hi a first end'"
  proof (cases "first < hi")
    case True
    obtain e where "scan_down (\<lambda>x. rank (a ! lo) < rank x) a hi = Some e" "lo \<le> e" "e < hi" "?S (a ! e)"
      "all_in (e + 1) hi a (\<lambda>x. rank (a ! lo) < rank x)"
      using scan_down_ok[of lo hi a "\<lambda>x. rank (a ! lo) < rank x"] lo by auto
    then show ?thesis using True f lo by (cases "e = first") (auto simp: part_state_def)
  next
    case False
    then show ?thesis using f lo by (auto simp: part_state_def)
  qed
  then obtain end' where e: "(if first < hi then scan_down (\<lambda>x. rank (a ! lo) < rank x) a hi else Some hi) = Some end'"
      "part_state ?S lo hi a first end'" by blast
  obtain b c p where p: "part_loop ?S a first end' = Some (b, p)" "place_pivot b lo (p - 1) (a ! lo) = Some c" "lo < p" "p \<le> hi"
     "moved_in lo hi a c" "c ! (p - 1) = a ! lo" "all_in lo (p - 1) c ?S" "all_in p hi c (\<lambda>x. \<not> ?S x)"
    using partition_end[OF e(2)] by blast
  have "equal_left (rank_less rank) a lo hi = Some (c, p)"
    unfolding equal_left_def using f(1) e(1) p(1,2) lo by (simp add: cell_def)
  moreover have "rank (c ! i) \<le> rank (a ! lo)" if "lo \<le> i" "i < p" for i
    using that p(6,7) by (cases "i = p - 1") (auto simp: not_less)
  ultimately show ?thesis using p by (intro exI[of _ c] exI[of _ p]) auto
qed

section \<open>Sorting\<close>

text \<open>
  The elements of a range that is not the leftmost one are not smaller than the element before it.
\<close>

definition range_ok :: "(nat \<Rightarrow> int) \<Rightarrow> nat list \<Rightarrow> nat \<Rightarrow> nat \<Rightarrow> bool \<Rightarrow> bool" where
  "range_ok rank a lo hi leftmost \<longleftrightarrow> hi \<le> length a \<and>
     (\<not> leftmost \<longrightarrow> 0 < lo \<and> all_in lo hi a (\<lambda>x. rank (a ! (lo - 1)) \<le> rank x))"

definition sorts :: "(nat \<Rightarrow> int) \<Rightarrow> nat list \<Rightarrow> nat \<Rightarrow> nat \<Rightarrow> nat list option \<Rightarrow> bool" where
  "sorts rank a lo hi r \<longleftrightarrow> (\<exists>b. r = Some b \<and> moved_in lo hi a b \<and> in_order rank lo hi b)"

lemma in_order_join:
  assumes "in_order rank lo p a" "in_order rank (p + 1) hi a"
    and "all_in lo p a (\<lambda>x. rank x \<le> v)" "all_in (p + 1) hi a (\<lambda>x. v \<le> rank x)" "rank (a ! p) = v"
  shows "in_order rank lo hi a"
  unfolding in_order_def
proof (intro allI impI)
  fix i j assume ij: "lo \<le> i" "i < j" "j < hi"
  consider "j < p" | "j = p" | "i < p" "p < j" | "i = p" | "p < i" using ij by linarith
  then show "rank (a ! i) \<le> rank (a ! j)"
  proof cases
    case 3
    then have "rank (a ! i) \<le> v" "v \<le> rank (a ! j)" using assms(3,4) ij by auto
    then show ?thesis by simp
  qed (use assms ij in \<open>auto simp: in_order_def\<close>)
qed

text \<open>After the partition at \<open>p\<close> the two parts are sorted on their own, in any order.\<close>

lemma sorts_parts:
  assumes p: "lo \<le> p" "p < hi" "hi \<le> length a"
    and l: "all_in lo p a (\<lambda>x. rank x \<le> rank (a ! p))" and r: "all_in (p + 1) hi a (\<lambda>x. rank (a ! p) \<le> rank x)"
    and b: "moved_in lo p a b" "in_order rank lo p b" and c: "moved_in (p + 1) hi b c" "in_order rank (p + 1) hi c"
  shows "moved_in lo hi a c" "in_order rank lo hi c"
proof -
  have len: "length b = length a" "length c = length a" using moved_in_length[OF b(1)] moved_in_length[OF c(1)] by auto
  show "moved_in lo hi a c"
    using moved_in_trans[OF moved_in_mono[OF b(1), of lo hi] moved_in_mono[OF c(1), of lo hi]] p by simp
  have same_l: "c ! i = b ! i" if "i \<le> p" for i using moved_in_outside[OF c(1)] that p len by simp
  have same_r: "b ! i = a ! i" if "p \<le> i" "i < hi" for i using moved_in_outside[OF b(1)] that p len by simp
  have "all_in lo p b (\<lambda>x. rank x \<le> rank (a ! p))" using moved_in_all[OF b(1) p(1) _ l] p by simp
  then have 1: "all_in lo p c (\<lambda>x. rank x \<le> rank (a ! p))" using same_l by simp
  have "all_in (p + 1) hi b (\<lambda>x. rank (a ! p) \<le> rank x)" using r same_r by simp
  then have 2: "all_in (p + 1) hi c (\<lambda>x. rank (a ! p) \<le> rank x)" using moved_in_all[OF c(1)] p len by simp
  have 3: "in_order rank lo p c" using b(2) same_l by (simp add: in_order_def)
  show "in_order rank lo hi c"
    by (rule in_order_join[OF 3 c(2) 1 2]) (use same_l[of p] same_r[of p] p in simp)
qed

text \<open>One round keeps the task: what it leaves to do sorts the whole range.\<close>

definition round_ok :: "(nat \<Rightarrow> int) \<Rightarrow> nat list \<Rightarrow> nat \<Rightarrow> nat \<Rightarrow> bool \<Rightarrow> sort_next \<Rightarrow> bool" where
  "round_ok rank a lo hi leftmost r = (case r of
     Sorted b \<Rightarrow> moved_in lo hi a b \<and> in_order rank lo hi b
   | Again b lo' hi' \<Rightarrow> lo' \<le> hi' \<and> hi' - lo' < hi - lo \<and> range_ok rank b lo' hi' leftmost \<and>
       (\<forall>c. moved_in lo' hi' b c \<longrightarrow> in_order rank lo' hi' c \<longrightarrow> moved_in lo hi a c \<and> in_order rank lo hi c)
   | Split b p \<Rightarrow> lo \<le> p \<and> p < hi \<and> moved_in lo hi a b \<and> range_ok rank b lo p leftmost \<and>
       all_in lo p b (\<lambda>x. rank x \<le> rank (b ! p)) \<and> all_in (p + 1) hi b (\<lambda>x. rank (b ! p) \<le> rank x))"

lemma range_ok_moved:
  assumes "range_ok rank a lo hi leftmost" "moved_in lo hi a b" "lo \<le> hi"
  shows "range_ok rank b lo hi leftmost"
proof -
  have hi: "hi \<le> length a" "length b = length a" using assms moved_in_length by (auto simp: range_ok_def)
  have "b ! (lo - 1) = a ! (lo - 1)" if "0 < lo" using moved_in_outside[OF assms(2)] that hi assms(3) by simp
  then show ?thesis
    using moved_in_all[OF assms(2,3) hi(1), of "\<lambda>x. rank (a ! (lo - 1)) \<le> rank x"] hi assms(1) by (auto simp: range_ok_def)
qed

text \<open>Permuting the two parts on their own keeps the partition.\<close>

definition split_at :: "(nat \<Rightarrow> int) \<Rightarrow> nat \<Rightarrow> nat \<Rightarrow> nat \<Rightarrow> nat list \<Rightarrow> bool" where
  "split_at rank lo p hi a \<longleftrightarrow> lo \<le> p \<and> p < hi \<and> hi \<le> length a \<and>
     all_in lo p a (\<lambda>x. rank x \<le> rank (a ! p)) \<and> all_in (p + 1) hi a (\<lambda>x. rank (a ! p) \<le> rank x)"

lemma split_at_left:
  assumes s: "split_at rank lo p hi a" and m: "moved_in lo p a b"
  shows "split_at rank lo p hi b" "\<And>i. p \<le> i \<Longrightarrow> i < hi \<Longrightarrow> b ! i = a ! i"
proof -
  have len: "length b = length a" by (rule moved_in_length[OF m])
  show same: "b ! i = a ! i" if "p \<le> i" "i < hi" for i
    using moved_in_outside[OF m] that s by (simp add: split_at_def)
  show "split_at rank lo p hi b"
    using s same moved_in_all[OF m, of "\<lambda>x. rank x \<le> rank (a ! p)"] len by (simp add: split_at_def)
qed

lemma split_at_right:
  assumes s: "split_at rank lo p hi a" and m: "moved_in (p + 1) hi a b"
  shows "split_at rank lo p hi b" "\<And>i. i \<le> p \<Longrightarrow> b ! i = a ! i"
proof -
  have len: "length b = length a" by (rule moved_in_length[OF m])
  show same: "b ! i = a ! i" if "i \<le> p" for i
    using moved_in_outside[OF m] that s by (simp add: split_at_def)
  show "split_at rank lo p hi b"
    using s same moved_in_all[OF m, of "\<lambda>x. rank (a ! p) \<le> rank x"] len by (simp add: split_at_def)
qed

lemma split_at_sorted:
  assumes "split_at rank lo p hi a" "in_order rank lo p a" "in_order rank (p + 1) hi a"
  shows "in_order rank lo hi a"
  using assms in_order_join[of rank lo p a hi "rank (a ! p)"] by (simp add: split_at_def)

lemma insertion_rounds:
  assumes ok: "range_ok rank a lo hi leftmost" and s: "split_at rank lo p hi a"
  shows "\<exists>b c left right. insertion (rank_less rank) a lo p True = Some (b, left) \<and>
     insertion (rank_less rank) b (p + 1) hi True = Some (c, right) \<and>
     round_ok rank a lo hi leftmost (if right then if left then Sorted c else Again c lo p
       else if left then Again c (p + 1) hi else Split c p)"
proof -
  have p: "lo \<le> p" "p < hi" "hi \<le> length a" using s by (auto simp: split_at_def)
  obtain b left where b: "insertion (rank_less rank) a lo p True = Some (b, left)" "moved_in lo p a b" "left \<longrightarrow> in_order rank lo p b"
    using insertion_ok[of p a rank lo True] p by auto
  have hb: "hi \<le> length b" using moved_in_length[OF b(2)] p by simp
  obtain c right where c: "insertion (rank_less rank) b (p + 1) hi True = Some (c, right)" "moved_in (p + 1) hi b c"
      "right \<longrightarrow> in_order rank (p + 1) hi c"
    using insertion_ok[OF hb, of rank "p + 1" True] by auto
  have sc: "split_at rank lo p hi c" using split_at_right(1)[OF split_at_left(1)[OF s b(2)] c(2)] .
  have left: "left \<longrightarrow> in_order rank lo p c"
    using b(3) split_at_right(2)[OF split_at_left(1)[OF s b(2)] c(2)] by (auto simp: in_order_def)
  have mv: "moved_in lo hi a c"
    using moved_in_trans[OF moved_in_mono[OF b(2), of lo hi] moved_in_mono[OF c(2), of lo hi]] p by simp
  have okc: "range_ok rank c lo hi leftmost" using range_ok_moved[OF ok mv] p by simp
  have hc: "hi \<le> length c" using moved_in_length[OF mv] p by simp
  have "round_ok rank a lo hi leftmost (if right then if left then Sorted c else Again c lo p
       else if left then Again c (p + 1) hi else Split c p)"
  proof (cases right; cases left)
    assume r: right and l: left
    then show ?thesis using mv split_at_sorted[OF sc] left c(3) by (simp add: round_ok_def)
  next
    assume r: right and l: "\<not> left"
    have "moved_in lo hi a d \<and> in_order rank lo hi d" if d: "moved_in lo p c d" "in_order rank lo p d" for d
    proof
      show "moved_in lo hi a d" using moved_in_trans[OF mv moved_in_mono[OF d(1)]] p by simp
      have "in_order rank (p + 1) hi d" using c(3) r split_at_left(2)[OF sc d(1)] by (auto simp: in_order_def)
      then show "in_order rank lo hi d" using split_at_sorted[OF split_at_left(1)[OF sc d(1)] d(2)] by blast
    qed
    moreover have "range_ok rank c lo p leftmost" using okc p hc by (auto simp: range_ok_def)
    ultimately show ?thesis using r l p by (simp add: round_ok_def)
  next
    assume r: "\<not> right" and l: left
    have "moved_in lo hi a d \<and> in_order rank lo hi d" if d: "moved_in (p + 1) hi c d" "in_order rank (p + 1) hi d" for d
    proof
      show "moved_in lo hi a d" using moved_in_trans[OF mv moved_in_mono[OF d(1)]] p by simp
      have "in_order rank lo p d" using left l split_at_right(2)[OF sc d(1)] by (auto simp: in_order_def)
      then show "in_order rank lo hi d" using split_at_sorted[OF split_at_right(1)[OF sc d(1)] _ d(2)] by blast
    qed
    moreover have "range_ok rank c (p + 1) hi leftmost" using sc by (auto simp: range_ok_def split_at_def)
    ultimately show ?thesis using r l p by (auto simp: round_ok_def)
  next
    assume r: "\<not> right" and l: "\<not> left"
    have "range_ok rank c lo p leftmost" using okc p hc by (auto simp: range_ok_def)
    then show ?thesis using r l p mv sc by (simp add: round_ok_def split_at_def)
  qed
  then show ?thesis using b(1) c(1) by blast
qed

lemma round_ok_moved:
  assumes "moved_in lo hi a b" "round_ok rank b lo hi leftmost r"
  shows "round_ok rank a lo hi leftmost r"
  using assms moved_in_trans[OF assms(1)] by (auto simp: round_ok_def split: sort_next.splits)

lemma equal_left_round:
  assumes ok: "range_ok rank a lo hi False" and lo: "lo + 1 < hi" and eq: "\<not> rank (a ! (lo - 1)) < rank (a ! lo)"
  shows "\<exists>b p. equal_left (rank_less rank) a lo hi = Some (b, p) \<and> round_ok rank a lo hi False (Again b p hi)"
proof -
  have hi: "hi \<le> length a" "0 < lo" using ok by (auto simp: range_ok_def)
  obtain b p where b: "equal_left (rank_less rank) a lo hi = Some (b, p)" "lo < p" "p \<le> hi" "moved_in lo hi a b"
     "all_in lo p b (\<lambda>x. rank x \<le> rank (a ! lo))" "all_in p hi b (\<lambda>x. rank (a ! lo) < rank x)"
    using equal_left_ok[OF lo hi(1)] by blast
  have okb: "range_ok rank b lo hi False" using range_ok_moved[OF ok b(4)] lo by simp
  have prev: "b ! (lo - 1) = a ! (lo - 1)" using moved_in_outside[OF b(4)] hi lo by simp
  have low: "rank (b ! i) = rank (a ! lo)" if "lo \<le> i" "i < p" for i
  proof -
    have "rank (b ! (lo - 1)) \<le> rank (b ! i)" using okb that b(3) by (auto simp: range_ok_def)
    then show ?thesis using b(5) that eq prev by (metis linorder_not_less order.trans order_antisym)
  qed
  have "moved_in lo hi a d \<and> in_order rank lo hi d" if d: "moved_in p hi b d" "in_order rank p hi d" for d
  proof
    show "moved_in lo hi a d" using moved_in_trans[OF b(4) moved_in_mono[OF d(1)]] b(2) by simp
    have len: "length b = length a" by (rule moved_in_length[OF b(4)])
    have same: "d ! i = b ! i" if "i < p" for i using moved_in_outside[OF d(1)] that b(3) hi len by simp
    have up: "all_in p hi d (\<lambda>x. rank (a ! lo) < rank x)" using moved_in_all[OF d(1) b(3) _ b(6)] hi len by simp
    show "in_order rank lo hi d"
      unfolding in_order_def
    proof (intro allI impI)
      fix i j assume ij: "lo \<le> i" "i < j" "j < hi"
      consider "j < p" | "i < p" "p \<le> j" | "p \<le> i" by linarith
      then show "rank (d ! i) \<le> rank (d ! j)"
        using ij same low up d(2) by cases (auto simp: in_order_def less_imp_le)
    qed
  qed
  moreover have "range_ok rank b p hi False"
    using b moved_in_length[OF b(4)] hi low[of "p - 1"] by (auto simp: range_ok_def less_imp_le)
  ultimately show ?thesis using b(1-3) by (auto simp: round_ok_def)
qed

lemma sort_round_ok:
  assumes ok: "range_ok rank a lo hi leftmost" and le: "lo \<le> hi"
  shows "\<exists>r. sort_round (rank_less rank) a lo hi leftmost = Some r \<and> round_ok rank a lo hi leftmost r"
proof (cases "lo + 24 \<le> hi")
  case False
  have "hi \<le> length a" using ok by (simp add: range_ok_def)
  from insertion_ok[OF this, of rank lo False] show ?thesis using False by (auto simp: sort_round_def round_ok_def)
next
  case True
  define m where "m = lo + (hi - lo) div 2"
  have hi: "hi \<le> length a" using ok by (simp add: range_ok_def)
  obtain d where d: "hi = lo + d" "24 \<le> d" using True le by (metis add_le_cancel_left le_Suc_ex)
  have "d div 2 * 2 \<le> d" "d < d div 2 * 2 + 2" using div_mult_mod_eq[of d 2] mod_less_divisor[of 2 d] by linarith+
  then have m: "lo < m" "m < hi - 1" "lo < hi" using d by (simp_all add: m_def)
  obtain b where b: "sort3 (rank_less rank) a m lo (hi - 1) = Some b" "moved_in lo hi a b" "rank (b ! lo) \<le> rank (b ! (hi - 1))"
    using sort3_ok[of lo m hi lo "hi - 1" a rank] m hi by auto
  have okb: "range_ok rank b lo hi leftmost" by (rule range_ok_moved[OF ok b(2) le])
  have hb: "hi \<le> length b" "lo + 1 < hi" using okb True by (auto simp: range_ok_def)
  show ?thesis
  proof (cases "\<not> leftmost \<and> \<not> rank (b ! (lo - 1)) < rank (b ! lo)")
    case eq: True
    then have "range_ok rank b lo hi False" using okb by simp
    from equal_left_round[OF this hb(2)] eq obtain c p where c: "equal_left (rank_less rank) b lo hi = Some (c, p)"
      "round_ok rank b lo hi False (Again c p hi)" by blast
    have "0 < lo" using okb eq by (simp add: range_ok_def)
    then have "sort_round (rank_less rank) a lo hi leftmost = Some (Again c p hi)"
      using True eq b(1)[unfolded m_def] c(1) hb m(3) by (simp add: sort_round_def cell_def)
    then show ?thesis using round_ok_moved[OF b(2)] c(2) eq by auto
  next
    case right: False
    obtain c pos part where c: "equal_right (rank_less rank) b lo hi = Some (c, pos, part)" "lo \<le> pos" "pos < hi" "moved_in lo hi b c"
       "all_in lo pos c (\<lambda>x. rank x < rank (c ! pos))" "all_in (pos + 1) hi c (\<lambda>x. rank (c ! pos) \<le> rank x)"
      using equal_right_ok[OF hb(2,1) b(3)] by blast
    have okc: "range_ok rank c lo hi leftmost" by (rule range_ok_moved[OF okb c(4) le])
    have sc: "split_at rank lo pos hi c"
      using c moved_in_length[OF c(4)] hb by (auto simp: split_at_def less_imp_le)
    have mc: "moved_in lo hi a c" by (rule moved_in_trans[OF b(2) c(4)])
    have run: "sort_round (rank_less rank) a lo hi leftmost = (if part then do {
          (a, left) \<leftarrow> insertion (rank_less rank) c lo pos True;
          (a, right) \<leftarrow> insertion (rank_less rank) a (pos + 1) hi True;
          Some (if right then if left then Sorted a else Again a lo pos else if left then Again a (pos + 1) hi else Split a pos)
        } else Some (Split c pos))"
    proof -
      have flag: "(if leftmost then Some False else if lo = 0 then None
          else do { prev \<leftarrow> cell b (lo - 1); x \<leftarrow> cell b lo; Some (\<not> rank prev < rank x) }) = Some False"
        using right okb hb m(3) by (auto simp: cell_def range_ok_def)
      show ?thesis using True b(1)[unfolded m_def] c(1) unfolding sort_round_def by (simp add: flag)
    qed
    show ?thesis
    proof (cases part)
      case True
      obtain d e left right' where de: "insertion (rank_less rank) c lo pos True = Some (d, left)"
         "insertion (rank_less rank) d (pos + 1) hi True = Some (e, right')"
         "round_ok rank c lo hi leftmost (if right' then if left then Sorted e else Again e lo pos
             else if left then Again e (pos + 1) hi else Split e pos)"
        using insertion_rounds[OF okc sc] by blast
      then show ?thesis using run True round_ok_moved[OF mc] by auto
    next
      case False
      have "range_ok rank c lo pos leftmost" using okc sc by (auto simp: range_ok_def split_at_def)
      then show ?thesis using run False mc sc by (simp add: round_ok_def split_at_def)
    qed
  qed
qed

lemma sort_range_ok:
  assumes "range_ok rank a lo hi leftmost" "lo \<le> hi"
  shows "sorts rank a lo hi (sort_range (rank_less rank) a lo hi leftmost)"
  using assms
proof (induction "hi - lo" arbitrary: a lo hi leftmost rule: less_induct)
  case less
  obtain r where r: "sort_round (rank_less rank) a lo hi leftmost = Some r" "round_ok rank a lo hi leftmost r"
    using sort_round_ok[OF less.prems] by blast
  show ?case
  proof (cases r)
    case (Sorted b)
    then show ?thesis using r by (subst sort_range.simps) (auto simp: sorts_def round_ok_def)
  next
    case (Again b lo' hi')
    have a: "lo' \<le> hi'" "hi' - lo' < hi - lo" "range_ok rank b lo' hi' leftmost"
      "\<And>c. moved_in lo' hi' b c \<Longrightarrow> in_order rank lo' hi' c \<Longrightarrow> moved_in lo hi a c \<and> in_order rank lo hi c"
      using r(2) Again by (auto simp: round_ok_def)
    show ?thesis using less.hyps[OF a(2,3,1)] a(4) r(1) Again by (subst sort_range.simps) (auto simp: sorts_def)
  next
    case (Split b p)
    have s: "lo \<le> p" "p < hi" "moved_in lo hi a b" "range_ok rank b lo p leftmost" "split_at rank lo p hi b"
      using r(2) Split moved_in_length[of lo hi a b] less.prems(1) by (auto simp: round_ok_def split_at_def range_ok_def)
    obtain c where c: "sort_range (rank_less rank) b lo p leftmost = Some c" "moved_in lo p b c" "in_order rank lo p c"
    proof -
      have "p - lo < hi - lo" using s(1,2) by simp
      from less.hyps[OF this s(4,1)] show thesis using that by (auto simp: sorts_def)
    qed
    have sc: "split_at rank lo p hi c" by (rule split_at_left(1)[OF s(5) c(2)])
    then have okd: "range_ok rank c (p + 1) hi False" by (auto simp: range_ok_def split_at_def)
    obtain d where d: "sort_range (rank_less rank) c (p + 1) hi False = Some d" "moved_in (p + 1) hi c d" "in_order rank (p + 1) hi d"
    proof -
      have "hi - (p + 1) < hi - lo" "p + 1 \<le> hi" using s(1,2) by simp_all
      from less.hyps[OF this(1) okd this(2)] show thesis using that by (auto simp: sorts_def)
    qed
    have "in_order rank lo p d" using c(3) split_at_right(2)[OF sc d(2)] by (auto simp: in_order_def)
    then have "in_order rank lo hi d" using split_at_sorted[OF split_at_right(1)[OF sc d(2)] _ d(3)] by blast
    moreover have "moved_in lo hi a d"
      using moved_in_trans[OF moved_in_trans[OF s(3) moved_in_mono[OF c(2)]] moved_in_mono[OF d(2)]] s(1,2) by simp
    ultimately show ?thesis using r(1) Split c(1) d(1) by (subst sort_range.simps) (simp add: sorts_def)
  qed
qed

section \<open>The order of the channels\<close>

text \<open>Channels sorted by descending priority.\<close>

abbreviation by_priority :: "outgoing \<Rightarrow> nat list \<Rightarrow> bool" where
  "by_priority o' \<equiv> sorted_wrt (\<lambda>x y. out_priority o' ! y \<le> out_priority o' ! x)"

lemma before_rank: "before o' = rank_less (\<lambda>x. - (out_priority o' ! x))"
  by (simp add: fun_eq_iff before_def)

lemma IHS_OutgoingSort_spec:
  assumes n: "out_count o' \<le> 32" "out_count o' \<le> length (out_order o')"
  obtains order where "IHS_OutgoingSort o' = Some (o'\<lparr>out_order := order\<rparr>)"
    "length order = length (out_order o')"
    "mset (take (out_count o') order) = mset (take (out_count o') (out_order o'))"
    "drop (out_count o') order = drop (out_count o') (out_order o')"
    "by_priority o' (take (out_count o') order)"
proof -
  let ?n = "out_count o'"
  let ?rank = "\<lambda>x. - (out_priority o' ! x)"
  have "range_ok ?rank (out_order o') 0 ?n True" using n by (simp add: range_ok_def)
  from sort_range_ok[OF this] obtain b where b: "sort_range (before o') (out_order o') 0 ?n True = Some b"
    "moved_in 0 ?n (out_order o') b" "in_order ?rank 0 ?n b" by (auto simp: sorts_def before_rank)
  have len: "length b = length (out_order o')" by (rule moved_in_length[OF b(2)])
  have seg: "mset (take ?n b) = mset (take ?n (out_order o'))" using moved_in_segment[OF b(2)] n by simp
  have rest: "drop ?n b = drop ?n (out_order o')"
    using b(2) len by (auto simp: moved_in_def intro!: nth_equalityI)
  have "by_priority o' (take ?n b)" using b(3) by (auto simp: sorted_wrt_iff_nth_less in_order_def)
  then show thesis using that[OF _ len seg rest] b(1) n by (simp add: IHS_OutgoingSort_def)
qed

text \<open>C35: Sorting the registered channels always returns, never leaves the array although most of its
  scans test no bound, permutes exactly the registered prefix of the order, leaves the rest of the
  array and every other field alone, and puts the channels in descending priority.\<close>

theorem outgoing_sort_correct:
  assumes "out_count o' \<le> 32" "out_count o' \<le> length (out_order o')"
  shows "\<exists>order. IHS_OutgoingSort o' = Some (o'\<lparr>out_order := order\<rparr>) \<and>
     length order = length (out_order o') \<and>
     mset (take (out_count o') order) = mset (take (out_count o') (out_order o')) \<and>
     drop (out_count o') order = drop (out_count o') (out_order o') \<and>
     sorted_wrt (\<lambda>x y. out_priority o' ! y \<le> out_priority o' ! x) (take (out_count o') order)"
  using IHS_OutgoingSort_spec[OF assms] by metis

theorem outgoing_sort_correct_witness:
  "\<exists>order. IHS_OutgoingSort ((IHS_OutgoingInit 7)\<lparr>out_count := 3, out_order := [0, 1, 2, 9]\<rparr>) =
     Some ((IHS_OutgoingInit 7)\<lparr>out_count := 3, out_order := order\<rparr>) \<and> mset (take 3 order) = {#0, 1, 2#} \<and> drop 3 order = [9]"
  using outgoing_sort_correct[of "(IHS_OutgoingInit 7)\<lparr>out_count := 3, out_order := [0, 1, 2, 9]\<rparr>"]
  by auto

end
