(* ===== verification/Session.thy ===== *)
theory Session
  imports Transport Window FEC Retransmission Outgoing_Sort
begin

text \<open>
  The state of a session that its transport half works on (\<^verbatim>\<open>struct IHS_Session\<close> of
  \<^verbatim>\<open>session/session_pri.h\<close>, \<^verbatim>\<open>IHS_ReliableChannel\<close>, \<^verbatim>\<open>IHS_UnreliableChannel\<close>, \<^verbatim>\<open>QueuedPacket\<close>), and the
  operations that the components of this half share: reading the clocks, sending a packet, opening
  a channel and disconnecting.

  The operating system is the record \<open>system\<close>: the network and allocator of \<open>platform\<close>, the
  millisecond timer, and whether the next allocation of a node or table succeeds.  The next three
  fields are the integers that the code cuts from floating-point multiples of the round-trip time,
  and \<open>sy_junk\<close> is what an uninitialised array holds.  The calls that leave this half (to the control
  and data channels, the network test, the application) are the values of \<open>session_event\<close>: stopping
  the channels is recorded in \<open>ss_events\<close>, the others go to a delegate that the operations take as an
  argument.  \<^term>\<open>None\<close> is a failing assertion or the use of a null pointer.
\<close>

section \<open>State\<close>

record 'n system =
  sy_pf :: "'n platform"
  sy_timer :: "'n \<Rightarrow> u64 \<times> 'n"
  sy_alloc :: "'n \<Rightarrow> bool \<times> 'n"
  sy_keepMs :: "stream_clock \<Rightarrow> u32"
  sy_nackMs :: "stream_clock \<Rightarrow> u32"
  sy_delayMs :: "stream_clock \<Rightarrow> u32"
  sy_junk :: bytes

datatype ip_address = IPv4 bytes | IPv6 bytes

record socket_address =
  sa_ip :: ip_address
  sa_port :: u16

datatype channel_type = TypeDiscovery | TypeControl | TypeStats | TypeDataAudio | TypeDataVideo | TypeDataMicrophone

record channel =
  chn_id :: u32
  chn_type :: channel_type

record reliable_channel =
  rl_window :: "packets_window option"
  rl_peerTimestamp :: u32
  rl_peerReceiveTime :: u32
  rl_feedbackDeadline :: u32
  rl_lastNackTimestamp :: u32
  rl_ackWatermark :: u16
  rl_feedbackDirty :: bool
  rl_ackPending :: bool
  rl_overflowed :: bool

record unreliable_channel =
  ur_window :: packets_window
  ur_fec :: fec_receiver
  ur_maxReceiveDelay :: u32
  ur_lastPacketTimestamp :: u32
  ur_feedbackDeadline :: u32
  ur_haveFeedbackDeadline :: bool
  ur_feedbackDirty :: bool

record queued_packet =
  qp_packet :: session_packet
  qp_reliable :: bool
  qp_queuedAt :: u32
  qp_batchCount :: nat

datatype session_event = ControlFrame session_frame | TestFrame session_frame | DataFrame channel session_frame
  | ChannelPacket channel session_packet | DataLost nat | Handshake bool | StopChannels

record 'n session =
  ss_conn :: "'n conn"
  ss_address :: socket_address
  ss_channels :: "channel option list"
  ss_retransmission :: retransmission
  ss_reliable :: "reliable_channel list"
  ss_unreliable :: "unreliable_channel option list"
  ss_sendQueue :: "queued_packet list"
  ss_sendBatch :: "queued_packet list option"
  ss_pendingData :: "session_packet list"
  ss_pendingDataCount :: nat
  ss_mtu :: int
  ss_closeRequested :: bool
  ss_hostRequestedStop :: bool
  ss_worker :: bool
  ss_registered :: bool
  ss_testRunning :: bool
  ss_handshakeTick :: u32
  ss_events :: "session_event list"

definition zero_reliable :: reliable_channel where
  "zero_reliable = \<lparr>rl_window = None, rl_peerTimestamp = 0, rl_peerReceiveTime = 0, rl_feedbackDeadline = 0,
     rl_lastNackTimestamp = 0, rl_ackWatermark = 0, rl_feedbackDirty = False, rl_ackPending = False,
     rl_overflowed = False\<rparr>"

section \<open>Shared operations\<close>

abbreviation ss_outgoing :: "'n session \<Rightarrow> outgoing" where
  "ss_outgoing s \<equiv> cn_outgoing (ss_conn s)"

abbreviation ss_env :: "'n session \<Rightarrow> 'n" where
  "ss_env s \<equiv> lk_env (cn_link (ss_conn s))"

abbreviation ss_mem :: "'n system \<Rightarrow> allocator" where
  "ss_mem sys \<equiv> pf_mem (sy_pf sys)"

definition set_env :: "'n \<Rightarrow> 'n session \<Rightarrow> 'n session" where
  "set_env n s = s\<lparr>ss_conn := (ss_conn s)\<lparr>cn_link := (cn_link (ss_conn s))\<lparr>lk_env := n\<rparr>\<rparr>\<rparr>"

definition set_outgoing :: "outgoing \<Rightarrow> 'n session \<Rightarrow> 'n session" where
  "set_outgoing o' s = s\<lparr>ss_conn := (ss_conn s)\<lparr>cn_outgoing := o'\<rparr>\<rparr>"

definition set_network :: "network_state \<Rightarrow> 'n session \<Rightarrow> 'n session" where
  "set_network nw s = s\<lparr>ss_conn := (ss_conn s)\<lparr>cn_link := (cn_link (ss_conn s))\<lparr>lk_network := nw\<rparr>\<rparr>\<rparr>"

definition set_reliable :: "nat \<Rightarrow> reliable_channel \<Rightarrow> 'n session \<Rightarrow> 'n session" where
  "set_reliable ch c s = s\<lparr>ss_reliable := (ss_reliable s)[ch := c]\<rparr>"

definition read_timestamp :: "'n system \<Rightarrow> 'n session \<Rightarrow> u32 \<times> 'n session" where
  "read_timestamp sys s = (case pf_now (sy_pf sys) (ss_env s) of (t, n) \<Rightarrow> (t, set_env n s))"

definition IHS_TimerNow :: "'n system \<Rightarrow> 'n session \<Rightarrow> u64 \<times> 'n session" where
  "IHS_TimerNow sys s = (case sy_timer sys (ss_env s) of (t, n) \<Rightarrow> (t, set_env n s))"

definition may_alloc :: "'n system \<Rightarrow> 'n session \<Rightarrow> bool \<times> 'n session" where
  "may_alloc sys s = (case sy_alloc sys (ss_env s) of (ok, n) \<Rightarrow> (ok, set_env n s))"

definition session_send :: "'n system \<Rightarrow> session_packet \<Rightarrow> 'n session \<Rightarrow> (bool \<times> session_packet \<times> 'n session) option" where
  "session_send sys packet s = do {
     (sent, packet, c) \<leftarrow> IHS_SessionSendPacket (sy_pf sys) (ss_conn s) packet;
     Some (sent, packet, s\<lparr>ss_conn := c\<rparr>)
   }"

text \<open>Opening channels also starts their feedback interval, with a clock reading each.\<close>

fun start_feedback :: "'n system \<Rightarrow> nat list \<Rightarrow> 'n session \<Rightarrow> 'n session" where
  "start_feedback sys [] s = s"
| "start_feedback sys (i # is) s =
     (case read_timestamp sys s of (t, s) \<Rightarrow>
        start_feedback sys is (set_reliable i ((ss_reliable s ! i)\<lparr>rl_feedbackDeadline := t\<rparr>) s))"

definition session_register :: "'n system \<Rightarrow> nat \<Rightarrow> 'n session \<Rightarrow> 'n session" where
  "session_register sys ch s =
     (case IHS_OutgoingRegister (ss_outgoing s) ch of (o', new) \<Rightarrow> start_feedback sys new (set_outgoing o' s))"

section \<open>Disconnecting\<close>

definition IHS_SessionNetworkTestCancel :: "'n session \<Rightarrow> 'n session" where
  "IHS_SessionNetworkTestCancel s =
     (if cn_testMode (ss_conn s) \<and> ss_testRunning s
      then s\<lparr>ss_testRunning := False, ss_conn := (ss_conn s)\<lparr>cn_testPhase := 0\<rparr>\<rparr> else s)"

definition IHS_SessionInterrupt :: "'n session \<Rightarrow> 'n session" where
  "IHS_SessionInterrupt s =
     (let s = s\<lparr>ss_conn := (ss_conn s)\<lparr>cn_interrupted := True\<rparr>\<rparr> in
      if ss_worker s then s else s\<lparr>ss_events := ss_events s @ [StopChannels]\<rparr>)"

definition IHS_SessionDisconnect :: "'n system \<Rightarrow> 'n session \<Rightarrow> 'n session option" where
  "IHS_SessionDisconnect sys s = do {
     let s = IHS_SessionNetworkTestCancel s;
     let s = s\<lparr>ss_closeRequested := True\<rparr>;
     c \<leftarrow> (if ss_worker s then IHS_SessionTransportDisconnect (sy_pf sys) (ss_conn s)
          else IHS_SessionTransportClose (sy_pf sys) (ss_conn s));
     let s = IHS_SessionInterrupt (s\<lparr>ss_conn := c\<rparr>);
     Some (if ss_worker s then s
           else s\<lparr>ss_conn := IHS_SessionNotifyDisconnected (ss_registered s) (ss_conn s)\<rparr>)
   }"

definition IHS_SessionHostStopped :: "'n system \<Rightarrow> 'n session \<Rightarrow> 'n session option" where
  "IHS_SessionHostStopped sys s = IHS_SessionDisconnect sys (s\<lparr>ss_hostRequestedStop := True\<rparr>)"

definition IHS_SessionIsConnectionPending :: "'n session \<Rightarrow> bool" where
  "IHS_SessionIsConnectionPending s =
     (if ss_closeRequested s \<or> tp_shutdown (cn_tp (ss_conn s)) \<noteq> 0 \<or> lk_detached (cn_link (ss_conn s)) \<or>
         cn_interrupted (ss_conn s) then False
      else cn_connectionState (ss_conn s) = Unconnected \<or> cn_connectionState (ss_conn s) = Connecting)"

end
