(* ===== verification/Schedule.thy ===== *)
theory Schedule
  imports Session Retransmission_Props
begin

text \<open>
  Scheduling the channels (\<^verbatim>\<open>session/outgoing.c\<close>, from \<^verbatim>\<open>IHS_OutgoingSnapshot\<close> on): the order of the
  channels by priority is kept in a cache that registering a channel or changing a priority makes
  stale; an update sends for every channel in that order and then retries, starting at a position
  that rotates from one update to the next.
\<close>

section \<open>Operations\<close>

definition IHS_OutgoingSnapshot :: "outgoing \<Rightarrow> (nat \<times> nat list \<times> nat \<times> outgoing) option" where
  "IHS_OutgoingSnapshot o' = do {
     o' \<leftarrow> (if out_dirty o' then do {
              o' \<leftarrow> IHS_OutgoingSort (o'\<lparr>out_order :=
                     take (out_count o') (out_creation o') @ drop (out_count o') (out_order o')\<rparr>);
              Some (o'\<lparr>out_dirty := False\<rparr>)
            } else Some o');
     Some (out_count o', take (out_count o') (out_order o'), out_rotation o', o')
   }"

text \<open>
  The callback \<^verbatim>\<open>send_reliable\<close> of the retransmission store; a failing assertion in it ends the
  program, so that nothing is sent after it.
\<close>

definition send_reliable :: "'n platform \<Rightarrow> 'n conn option sender" where
  "send_reliable pf packet r c =
     (case c of None \<Rightarrow> (False, packet, r, None)
      | Some c \<Rightarrow> case IHS_SessionSendPacket pf c packet of
          None \<Rightarrow> (False, packet, r, None)
        | Some (sent, packet, c) \<Rightarrow> (sent, packet, r, Some c))"

definition process_channel :: "'n system \<Rightarrow> nat \<Rightarrow> u64 \<Rightarrow> u32 \<Rightarrow> 'n session \<Rightarrow> 'n session option" where
  "process_channel sys ch nowMs tick s =
     (case may_alloc sys s of (ok, s) \<Rightarrow> do {
        (_, r, c) \<leftarrow> IHS_RetransmissionProcessChannel (ss_mem sys) ok
          (send_reliable (sy_pf sys)) (map_option (\<lambda>c. IHS_StreamClockRetryTicks (cn_clock c)))
          (ss_retransmission s) nowMs tick (of_nat ch) (Some (ss_conn s));
        c \<leftarrow> c;
        Some (s\<lparr>ss_retransmission := r, ss_conn := c\<rparr>)
      })"

definition send_unreliable :: "'n system \<Rightarrow> nat \<Rightarrow> bool \<Rightarrow> 'n session \<Rightarrow> (nat \<times> 'n session) option" where
  "send_unreliable sys ch retry s =
     (if ch \<ge> 32 then Some (2, s)
      else case read_timestamp sys s of (now, s) \<Rightarrow> do {
        (result, o', l) \<leftarrow> IHS_OutgoingSendUnreliable (IHS_SessionSendPacketResult (sy_pf sys)) (ss_outgoing s) ch retry
          now (sy_keepMs sys (cn_clock (ss_conn s))) (cn_link (ss_conn s));
        Some (result, s\<lparr>ss_conn := (ss_conn s)\<lparr>cn_outgoing := o', cn_link := l\<rparr>\<rparr>)
      })"

definition IHS_OutgoingUpdateChannel :: "'n system \<Rightarrow> nat \<Rightarrow> u32 \<Rightarrow> 'n session \<Rightarrow> 'n session option" where
  "IHS_OutgoingUpdateChannel sys ch tick s =
     (if conn_connected (ss_conn s) then
        case IHS_TimerNow sys s of (nowMs, s) \<Rightarrow> do {
          s \<leftarrow> process_channel sys ch nowMs tick s;
          (_, s) \<leftarrow> send_unreliable sys ch False s;
          Some s
        }
      else Some s)"

text \<open>The rounds of the retry pass that are left, from the position \<open>rotation\<close> on.\<close>

fun retry_loop :: "'n system \<Rightarrow> nat list \<Rightarrow> nat \<Rightarrow> nat \<Rightarrow> nat \<Rightarrow> 'n session \<Rightarrow> 'n session option" where
  "retry_loop sys order n rotation 0 s = Some s"
| "retry_loop sys order n rotation (Suc left) s = do {
     let rotation = (if rotation \<ge> n then 0 else rotation);
     assert_that (rotation < length order);
     (_, s) \<leftarrow> send_unreliable sys (order ! rotation) True s;
     retry_loop sys order n (rotation + 1) left s
   }"

definition rotate_on :: "nat \<Rightarrow> outgoing \<Rightarrow> outgoing" where
  "rotate_on n o' =
     (let r = (out_rotation o' + 1) mod 256 in o'\<lparr>out_rotation := (if r > n then 0 else r)\<rparr>)"

definition IHS_OutgoingRetryPass :: "'n system \<Rightarrow> nat list \<Rightarrow> nat \<Rightarrow> nat \<Rightarrow> 'n session \<Rightarrow> 'n session option" where
  "IHS_OutgoingRetryPass sys order n rotation s =
     (if \<not> conn_connected (ss_conn s) then Some s
      else do {
        s \<leftarrow> retry_loop sys order n rotation n s;
        Some (set_outgoing (rotate_on n (ss_outgoing s)) s)
      })"

fun update_channels :: "'n system \<Rightarrow> nat list \<Rightarrow> u32 \<Rightarrow> 'n session \<Rightarrow> 'n session option" where
  "update_channels sys [] tick s = Some s"
| "update_channels sys (ch # chs) tick s = do {
     s \<leftarrow> IHS_OutgoingUpdateChannel sys ch tick s;
     update_channels sys chs tick s
   }"

definition IHS_OutgoingUpdate :: "'n system \<Rightarrow> u32 \<Rightarrow> 'n session \<Rightarrow> 'n session option" where
  "IHS_OutgoingUpdate sys tick s =
     (if IHS_SessionTransportState (ss_conn s) \<noteq> TransportConnected \<or> lk_detached (cn_link (ss_conn s)) then Some s
      else do {
        (n, order, rotation, o') \<leftarrow> IHS_OutgoingSnapshot (ss_outgoing s);
        s \<leftarrow> update_channels sys order tick (set_outgoing o' s);
        IHS_OutgoingRetryPass sys order n rotation s
      })"

section \<open>The registry of channels\<close>

text \<open>
  Opening a channel opens every channel below it, so the registered channels are always an initial
  segment, created in ascending order.  The cached order is exact unless it is marked stale.
\<close>

definition registry :: "outgoing \<Rightarrow> bool" where
  "registry o' \<longleftrightarrow> out_count o' \<le> 32 \<and> length (out_order o') = 32 \<and> length (out_creation o') = 32 \<and>
     length (out_active o') = 32 \<and> length (out_priority o') = 32 \<and>
     (\<forall>i < 32. out_active o' ! i \<longleftrightarrow> i < out_count o') \<and>
     take (out_count o') (out_creation o') = [0..<out_count o'] \<and> out_rotation o' \<le> out_count o' \<and>
     (\<not> out_dirty o' \<longrightarrow> mset (take (out_count o') (out_order o')) = mset [0..<out_count o'] \<and>
        by_priority o' (take (out_count o') (out_order o')))"

lemma registry_init: "registry (IHS_OutgoingInit now)"
  by (simp add: registry_def IHS_OutgoingInit_def)

lemma register_loop_skip:
  "\<forall>i \<in> set xs. out_active o' ! i \<Longrightarrow> register_loop (xs @ ys) o' = register_loop ys o'"
  by (induction xs) auto

lemma register_loop_new:
  assumes "registry o'" "out_count o' + k \<le> 32"
  shows "\<exists>o2. register_loop [out_count o'..<out_count o' + k] o' = (o2, [out_count o'..<out_count o' + k]) \<and>
     registry o2 \<and> out_count o2 = out_count o' + k \<and> (0 < k \<longrightarrow> out_dirty o2) \<and> out_priority o2 = out_priority o' \<and>
     out_unreliable o2 = out_unreliable o'"
  using assms
proof (induction k arbitrary: o')
  case 0
  then show ?case by simp
next
  case (Suc k)
  let ?n = "out_count o'"
  let ?o = "o'\<lparr>out_active := (out_active o')[?n := True], out_creation := (out_creation o')[?n := ?n],
    out_order := (out_order o')[?n := ?n], out_count := (?n + 1) mod 256, out_dirty := True\<rparr>"
  have n: "?n < 32" "(?n + 1) mod 256 = ?n + 1" using Suc.prems(2) by simp_all
  have "take (?n + 1) ((out_creation o')[?n := ?n]) = [0..<?n + 1]"
    using Suc.prems(1) n by (simp add: registry_def take_Suc_conv_app_nth)
  then have reg: "registry ?o" using Suc.prems(1) n by (auto simp: registry_def nth_list_update less_Suc_eq)
  have inactive: "\<not> out_active o' ! ?n" using Suc.prems(1) n by (simp add: registry_def)
  have ids: "[?n..<?n + Suc k] = ?n # [?n + 1..<?n + 1 + k]" by (simp add: upt_conv_Cons)
  obtain o2 where o2: "register_loop [?n + 1..<?n + 1 + k] ?o = (o2, [?n + 1..<?n + 1 + k])" "registry o2"
    "out_count o2 = ?n + 1 + k" "0 < k \<longrightarrow> out_dirty o2" "out_priority o2 = out_priority o'" "out_unreliable o2 = out_unreliable o'"
    using Suc.IH[OF reg] n Suc.prems(2) by auto
  have d: "out_dirty o2"
  proof (cases "0 < k")
    case False
    then have "o2 = ?o" using o2(1) by simp
    then show ?thesis by simp
  qed (use o2(4) in simp)
  have "register_loop [?n..<?n + Suc k] o' = (o2, [?n..<?n + Suc k])"
    using o2(1) inactive n by (simp only: ids) simp
  then show ?case using o2 d by (intro exI[of _ o2]) simp
qed

lemma Register_spec:
  assumes reg: "registry o'"
  obtains o2 where "IHS_OutgoingRegister o' ch = (o2, [out_count o'..<out_count o2])" "registry o2"
    "out_count o2 = (if ch < 32 then max (out_count o') (Suc ch) else out_count o')"
    "out_priority o2 = out_priority o'" "out_unreliable o2 = out_unreliable o'"
proof (cases "ch \<ge> 32 \<or> out_active o' ! ch")
  case True
  then have "out_count o' = (if ch < 32 then max (out_count o') (Suc ch) else out_count o')"
    using reg by (auto simp: registry_def)
  then show ?thesis using that[of o'] True reg by (auto simp: IHS_OutgoingRegister_def)
next
  case False
  let ?n = "out_count o'"
  have n: "?n \<le> ch" "ch < 32" using False reg by (auto simp: registry_def not_less)
  have "[0..<Suc ch] = [0..<?n] @ [?n..<?n + (Suc ch - ?n)]" using n by (metis le_SucI le_add_diff_inverse upt_add_eq_append zero_le)
  moreover have "\<forall>i \<in> set [0..<?n]. out_active o' ! i" using reg by (auto simp: registry_def)
  ultimately have run: "register_loop [0..<Suc ch] o' = register_loop [?n..<?n + (Suc ch - ?n)] o'"
    by (simp only: register_loop_skip)
  obtain o2 where "register_loop [?n..<?n + (Suc ch - ?n)] o' = (o2, [?n..<?n + (Suc ch - ?n)])" "registry o2"
    "out_count o2 = ?n + (Suc ch - ?n)" "out_priority o2 = out_priority o'" "out_unreliable o2 = out_unreliable o'"
    using register_loop_new[OF reg, of "Suc ch - ?n"] n by auto
  then show ?thesis using that[of o2] run False n by (simp add: IHS_OutgoingRegister_def)
qed

lemma Priority_registry: "registry o' \<Longrightarrow> registry (fst (IHS_OutgoingPriority o' ch priority))"
proof -
  assume reg: "registry o'"
  obtain o2 new where o2: "IHS_OutgoingRegister o' ch = (o2, new)" "registry o2" using Register_spec[OF reg] by metis
  then show ?thesis using reg by (auto simp: IHS_OutgoingPriority_def registry_def)
qed

lemma registry_cong:
  assumes "out_count a = out_count b" "out_order a = out_order b" "out_creation a = out_creation b"
    "out_active a = out_active b" "out_priority a = out_priority b" "out_rotation a = out_rotation b" "out_dirty a = out_dirty b"
  shows "registry a \<longleftrightarrow> registry b"
  using assms by (simp add: registry_def)

lemma Snapshot_spec:
  assumes reg: "registry o'"
  obtains order o2 where "IHS_OutgoingSnapshot o' = Some (out_count o', order, out_rotation o', o2)"
    "mset order = mset [0..<out_count o']" "by_priority o' order" "registry o2" "\<not> out_dirty o2"
    "o2 = o'\<lparr>out_order := out_order o2, out_dirty := False\<rparr>" "order = take (out_count o') (out_order o2)"
proof (cases "out_dirty o'")
  case False
  moreover have "o' = o'\<lparr>out_order := out_order o', out_dirty := False\<rparr>" using False by simp
  ultimately show ?thesis using that[of "take (out_count o') (out_order o')" o'] reg
    by (auto simp: IHS_OutgoingSnapshot_def registry_def)
next
  case True
  let ?n = "out_count o'"
  let ?o = "o'\<lparr>out_order := take ?n (out_creation o') @ drop ?n (out_order o')\<rparr>"
  have n: "?n \<le> 32" "length (out_order ?o) = 32" "take ?n (out_order ?o) = [0..<?n]"
    using reg by (auto simp: registry_def)
  obtain order where o: "IHS_OutgoingSort ?o = Some (?o\<lparr>out_order := order\<rparr>)" "length order = length (out_order ?o)"
    "mset (take ?n order) = mset (take ?n (out_order ?o))" "by_priority ?o (take ?n order)"
    using IHS_OutgoingSort_spec[of ?o] n by auto
  let ?o2 = "o'\<lparr>out_order := order, out_dirty := False\<rparr>"
  have run: "IHS_OutgoingSnapshot o' = Some (?n, take ?n order, out_rotation o', ?o2)"
    using o(1) True by (simp add: IHS_OutgoingSnapshot_def)
  have m: "mset (take ?n order) = mset [0..<?n]" using o(3) unfolding n(3) .
  have p: "by_priority o' (take ?n order)" using o(4) by simp
  have r: "registry ?o2" using reg o(2) n(2) m p by (simp add: registry_def)
  show ?thesis by (rule that[OF run m p r]) simp_all
qed

lemma rotate_on_registry: "registry o' \<Longrightarrow> n \<le> out_count o' \<Longrightarrow> registry (rotate_on n o')"
  by (simp add: registry_def rotate_on_def Let_def)

section \<open>The retry pass\<close>

fun send_all :: "'n system \<Rightarrow> nat list \<Rightarrow> 'n session \<Rightarrow> 'n session option" where
  "send_all sys [] s = Some s"
| "send_all sys (ch # chs) s = do { (_, s) \<leftarrow> send_unreliable sys ch True s; send_all sys chs s }"

lemma retry_loop_order:
  assumes "r \<le> length order" "k \<le> length order"
  shows "retry_loop sys order (length order) r k s = send_all sys (take k (drop r order @ order)) s"
  using assms
proof (induction k arbitrary: r s)
  case (Suc k)
  define q where "q = (if r \<ge> length order then 0 else r)"
  have q: "q < length order" using Suc.prems by (simp add: q_def)
  then have d: "drop q order = order ! q # drop (Suc q) order" by (simp add: Cons_nth_drop_Suc)
  have "take (Suc k) (drop r order @ order) = order ! q # take k (drop (Suc q) order @ order)"
  proof (cases "r < length order")
    case False
    then have "q = 0" "drop r order = []" by (simp_all add: q_def)
    then have "take (Suc k) (drop r order @ order) = take (Suc k) (order ! q # drop (Suc q) order)" using d by simp
    then show ?thesis using Suc.prems \<open>q = 0\<close> by simp
  qed (use d Suc.prems in \<open>auto simp: q_def\<close>)
  moreover have "retry_loop sys order (length order) r (Suc k) s =
      Option.bind (send_unreliable sys (order ! q) True s) (\<lambda>(_, s). retry_loop sys order (length order) (q + 1) k s)"
    using q by (simp add: Let_def q_def)
  ultimately show ?case using Suc.IH[of "q + 1"] Suc.prems q by simp
qed simp

lemma retry_loop_rotate:
  assumes "r \<le> length order"
  shows "retry_loop sys order (length order) r (length order) s = send_all sys (rotate r order) s"
proof -
  have "take (length order) (drop r order @ order) = drop r order @ take r order" using assms by simp
  moreover have "rotate r order = drop r order @ take r order" using assms by (cases "r = length order") (auto simp: rotate_drop_take)
  ultimately show ?thesis using retry_loop_order[OF assms, of "length order"] by simp
qed

end
