(* ===== verification/Send_Queue.thy ===== *)
theory Send_Queue
  imports Schedule
begin

text \<open>
  From a message to the sending worker: building packets and frames and cutting frames into packets
  (\<^verbatim>\<open>session/channels/channel.c\<close>), admission to the send queue, the batches that keep the fragments of
  a frame together, and the dispatch of the worker (\<^verbatim>\<open>session/session.c\<close>).

  A queue is the list of its items (\<open>Linked_Queue\<close> shows that the linked implementation is a FIFO
  queue).  The fields of a channel object that matter here are its identifier; the field
  \<^verbatim>\<open>nextPacketId\<close> is only written.  A packet on the stack starts from a zeroed one: the code sets every
  field before it reads it.
\<close>

section \<open>Packets and frames of a channel\<close>

datatype send_admission = Accepted | TooLarge | NotConnected | LocalFailure

abbreviation (input) IHS_PACKET_ID_NEXT :: int where "IHS_PACKET_ID_NEXT \<equiv> - 1"

definition reserve_id :: "nat \<Rightarrow> bool \<Rightarrow> 'n session \<Rightarrow> u16 \<times> 'n session" where
  "reserve_id ch reliable s =
     (case IHS_OutgoingNextId (ss_outgoing s) ch reliable of (i, o') \<Rightarrow> (i, set_outgoing o' s))"

definition IHS_SessionChannelNextPacketId :: "nat \<Rightarrow> 'n session \<Rightarrow> u16 \<times> 'n session" where
  "IHS_SessionChannelNextPacketId ch s = reserve_id ch True s"

definition IHS_SessionChannelInitializePacketHeader ::
    "'n system \<Rightarrow> nat \<Rightarrow> u32 \<Rightarrow> bool \<Rightarrow> int \<Rightarrow> 'n session \<Rightarrow> packet_header \<times> 'n session" where
  "IHS_SessionChannelInitializePacketHeader sys ch t hasCrc packetId s =
     (let h = zero_header;
          h = (if t \<noteq> IHS_SessionPacketTypeUnconnected
               then h\<lparr>hdr_srcConnectionId := cn_connectionId (ss_conn s), hdr_dstConnectionId := cn_hostConnectionId (ss_conn s)\<rparr>
               else h) in
      case read_timestamp sys s of (now, s) \<Rightarrow>
        let h = h\<lparr>hdr_sendTimestamp := now, hdr_hasCrc := hasCrc, hdr_type := t, hdr_channelId := of_nat ch\<rparr> in
        (if packetId = IHS_PACKET_ID_NEXT then h\<lparr>hdr_autoPacketId := True\<rparr>
         else h\<lparr>hdr_packetId := word_of_int packetId\<rparr>, s))"

definition IHS_SessionChannelInitializePacket ::
    "'n system \<Rightarrow> nat \<Rightarrow> u32 \<Rightarrow> bool \<Rightarrow> int \<Rightarrow> 'n session \<Rightarrow> (session_packet \<times> 'n session) option" where
  "IHS_SessionChannelInitializePacket sys ch t hasCrc packetId s =
     (case IHS_SessionChannelInitializePacketHeader sys ch t hasCrc packetId s of (h, s) \<Rightarrow> do {
        body \<leftarrow> IHS_SessionPacketBodyInitialize (ss_mem sys) hasCrc;
        Some (zero_packet\<lparr>pkt_header := h, pkt_body := body\<rparr>, s)
      })"

section \<open>Admission\<close>

definition QueuedPacketDestroy :: "queued_packet \<Rightarrow> session_packet option" where
  "QueuedPacketDestroy q = IHS_SessionPacketClear (qp_packet q) True"

definition enqueue :: "queued_packet \<Rightarrow> 'n session \<Rightarrow> 'n session" where
  "enqueue q s = (case ss_sendBatch s of
       Some b \<Rightarrow> s\<lparr>ss_sendBatch := Some (b @ [q])\<rparr>
     | None \<Rightarrow> s\<lparr>ss_sendQueue := ss_sendQueue s @ [q]\<rparr>)"

definition assign_id :: "session_packet \<Rightarrow> 'n session \<Rightarrow> session_packet \<times> 'n session" where
  "assign_id packet s =
     (let h = pkt_header packet in
      if hdr_autoPacketId h then
        let reliable = (hdr_type h = IHS_SessionPacketTypeReliable \<or> hdr_type h = IHS_SessionPacketTypeReliableFrag) in
        case reserve_id (unat (ucast (hdr_channelId h) :: u8)) reliable s of
          (i, s) \<Rightarrow> (packet\<lparr>pkt_header := h\<lparr>hdr_packetId := i, hdr_autoPacketId := False\<rparr>\<rparr>, s)
      else (packet, s))"

definition track :: "'n system \<Rightarrow> session_packet \<Rightarrow> 'n session \<Rightarrow> (bool \<times> 'n session) option" where
  "track sys packet s =
     (case IHS_TimerNow sys s of (nowMs, s) \<Rightarrow> case may_alloc sys s of (ok, s) \<Rightarrow> do {
        (new, r) \<leftarrow> IHS_RetransmissionTrack (ss_mem sys) ok (ss_retransmission s) packet nowMs;
        Some (new, s\<lparr>ss_retransmission := r\<rparr>)
      })"

definition IHS_SessionQueuePacketResult ::
    "'n system \<Rightarrow> session_packet \<Rightarrow> bool \<Rightarrow> 'n session \<Rightarrow> (send_admission \<times> session_packet \<times> 'n session) option" where
  "IHS_SessionQueuePacketResult sys packet retransmit s = do {
     assert_that (buf_offset (pkt_body packet) = IHS_PACKET_HEADER_SIZE);
     assert_that (\<not> hdr_hasCrc (pkt_header packet) \<or> buf_suffix (pkt_body packet) = 4);
     if lk_detached (cn_link (ss_conn s)) \<or>
        IHS_SessionTransportState (ss_conn s) \<noteq> TransportConnected \<and>
        hdr_type (pkt_header packet) \<noteq> IHS_SessionPacketTypeUnconnected
     then Some (NotConnected, packet, s)
     else case assign_id packet s of (packet, s) \<Rightarrow> do {
       (ok, s) \<leftarrow> (if retransmit then track sys packet s else Some (True, s));
       if \<not> ok then Some (LocalFailure, packet, s)
       else case may_alloc sys s of (ok, s) \<Rightarrow>
         if \<not> ok then
           Some (LocalFailure, packet, if retransmit
             then s\<lparr>ss_retransmission := IHS_RetransmissionCancelUnsent (ss_retransmission s) (pkt_header packet)\<rparr> else s)
         else do {
           (drained, body) \<leftarrow> IHS_BufferTransferOwnership (pkt_body packet);
           let item = \<lparr>pkt_header = pkt_header packet, pkt_body = body, pkt_crc = pkt_crc packet\<rparr>;
           case read_timestamp sys s of (now, s) \<Rightarrow>
             Some (Accepted, packet\<lparr>pkt_body := drained\<rparr>,
               enqueue \<lparr>qp_packet = item, qp_reliable = retransmit, qp_queuedAt = now, qp_batchCount = 1\<rparr> s)
         }
     }
   }"

definition IHS_SessionQueuePacket ::
    "'n system \<Rightarrow> session_packet \<Rightarrow> bool \<Rightarrow> 'n session \<Rightarrow> (bool \<times> session_packet \<times> 'n session) option" where
  "IHS_SessionQueuePacket sys packet retransmit s =
     map_option (\<lambda>(ret, packet, s). (ret = Accepted, packet, s)) (IHS_SessionQueuePacketResult sys packet retransmit s)"

section \<open>Batches\<close>

definition IHS_SessionSendBatchBegin :: "'n system \<Rightarrow> 'n session \<Rightarrow> (bool \<times> 'n session) option" where
  "IHS_SessionSendBatchBegin sys s = do {
     assert_that (ss_sendBatch s = None);
     case may_alloc sys s of (ok, s) \<Rightarrow> Some (ok, if ok then s\<lparr>ss_sendBatch := Some []\<rparr> else s)
   }"

definition grouped :: "queued_packet list \<Rightarrow> bool" where
  "grouped qs = (case qs of [] \<Rightarrow> False
     | q # _ \<Rightarrow> qp_reliable q \<and> (hdr_type (pkt_header (qp_packet q)) = IHS_SessionPacketTypeReliable \<or>
         hdr_type (pkt_header (qp_packet q)) = IHS_SessionPacketTypeReliableFrag))"

text \<open>The loops over the items: publishing them from position \<open>i\<close> on, or giving them up.\<close>

fun publish :: "bool \<Rightarrow> nat \<Rightarrow> nat \<Rightarrow> queued_packet list \<Rightarrow> 'n session \<Rightarrow> 'n session" where
  "publish grp n i [] s = s"
| "publish grp n i (q # qs) s =
     publish grp n (Suc i) qs (s\<lparr>ss_sendQueue := ss_sendQueue s @
       [q\<lparr>qp_batchCount := (if grp then (if i = 0 then n else 0) else 1)\<rparr>]\<rparr>)"

fun give_up :: "queued_packet list \<Rightarrow> 'n session \<Rightarrow> 'n session option" where
  "give_up [] s = Some s"
| "give_up (q # qs) s = do {
     let s = (if qp_reliable q
              then s\<lparr>ss_retransmission := IHS_RetransmissionCancelUnsent (ss_retransmission s) (pkt_header (qp_packet q))\<rparr>
              else s);
     QueuedPacketDestroy q;
     give_up qs s
   }"

definition IHS_SessionSendBatchEnd :: "bool \<Rightarrow> 'n session \<Rightarrow> 'n session option" where
  "IHS_SessionSendBatchEnd commit s = do {
     qs \<leftarrow> ss_sendBatch s;
     let s = s\<lparr>ss_sendBatch := None\<rparr>;
     assert_that (length qs \<le> 65535);
     if commit then Some (publish (grouped qs) (length qs) 0 qs s) else give_up qs s
   }"

section \<open>Frames\<close>

definition FragmentedPacketType :: "u32 \<Rightarrow> u32 option" where
  "FragmentedPacketType t =
     (if t = IHS_SessionPacketTypeUnreliable then Some IHS_SessionPacketTypeUnreliableFrag
      else if t = IHS_SessionPacketTypeReliable then Some IHS_SessionPacketTypeReliableFrag
      else None)"

text \<open>The identifier of the head of a frame and of every fragment after it.\<close>

definition frame_id :: "nat \<Rightarrow> u32 \<Rightarrow> 'n session \<Rightarrow> u16 \<times> 'n session" where
  "frame_id ch t s =
     (if t = IHS_SessionPacketTypeUnreliable then reserve_id ch False s else IHS_SessionChannelNextPacketId ch s)"

definition fragment_header :: "nat \<Rightarrow> nat \<Rightarrow> int \<Rightarrow> packet_header \<Rightarrow> 'n session \<Rightarrow> (packet_header \<times> 'n session) option" where
  "fragment_header ch packetCount fragmentId h s =
     (if fragmentId < 0 then Some (h\<lparr>hdr_fragmentId := word_of_int (int packetCount - 1)\<rparr>, s)
      else case frame_id ch (hdr_type h) s of (i, s) \<Rightarrow> do {
        t \<leftarrow> FragmentedPacketType (hdr_type h);
        Some (h\<lparr>hdr_packetId := i, hdr_fragmentId := word_of_int fragmentId, hdr_type := t\<rparr>, s)
      })"

text \<open>One round of the loop that cuts a frame; the frame's buffer moves on when the packet is taken.\<close>

definition queue_fragment ::
    "'n system \<Rightarrow> nat \<Rightarrow> bool \<Rightarrow> nat \<Rightarrow> nat \<Rightarrow> session_frame \<Rightarrow> int \<Rightarrow> 'n session \<Rightarrow>
       (send_admission \<times> session_frame \<times> 'n session) option" where
  "queue_fragment sys ch retransmit bodyLimit packetCount frame fragmentId s = do {
     let n = (if buf_size (frm_body frame) > bodyLimit then bodyLimit else buf_size (frm_body frame));
     (h, s) \<leftarrow> fragment_header ch packetCount fragmentId (frm_header frame) s;
     body \<leftarrow> IHS_SessionPacketBodyInitialize (ss_mem sys) (hdr_hasCrc h);
     p \<leftarrow> IHS_BufferPointer (frm_body frame);
     d \<leftarrow> buf_load (frm_body frame) p n;
     body \<leftarrow> IHS_BufferAppendMem (ss_mem sys) body d;
     (ret, packet, s) \<leftarrow> IHS_SessionQueuePacketResult sys (zero_packet\<lparr>pkt_header := h, pkt_body := body\<rparr>) retransmit s;
     IHS_SessionPacketClear packet True;
     if ret \<noteq> Accepted then Some (ret, frame, s)
     else do {
       rest \<leftarrow> IHS_BufferOffsetBy (frm_body frame) (int n);
       Some (ret, frame\<lparr>frm_body := rest\<rparr>, s)
     }
   }"

partial_function (option) queue_fragments ::
    "'n system \<Rightarrow> nat \<Rightarrow> bool \<Rightarrow> nat \<Rightarrow> nat \<Rightarrow> session_frame \<Rightarrow> int \<Rightarrow> 'n session \<Rightarrow>
       (send_admission \<times> session_frame \<times> 'n session) option" where
  "queue_fragments sys ch retransmit bodyLimit packetCount frame fragmentId s =
     (if buf_size (frm_body frame) = 0 then Some (Accepted, frame, s)
      else Option.bind (queue_fragment sys ch retransmit bodyLimit packetCount frame fragmentId s) (\<lambda>r.
        if fst r \<noteq> Accepted then Some r
        else queue_fragments sys ch retransmit bodyLimit packetCount (fst (snd r)) (fragmentId + 1) (snd (snd r))))"

definition SessionChannelQueueFramePackets ::
    "'n system \<Rightarrow> nat \<Rightarrow> session_frame \<Rightarrow> nat \<Rightarrow> bool \<Rightarrow> 'n session \<Rightarrow>
       (send_admission \<times> session_frame \<times> 'n session) option" where
  "SessionChannelQueueFramePackets sys ch frame bodyLimit retransmit s = do {
     let packetCount = (buf_size (frm_body frame) + bodyLimit - 1) div bodyLimit;
     assert_that (packetCount \<le> 32767);
     queue_fragments sys ch retransmit bodyLimit packetCount frame (- 1) s
   }"

definition queue_whole ::
    "'n system \<Rightarrow> session_frame \<Rightarrow> bool \<Rightarrow> 'n session \<Rightarrow> (send_admission \<times> session_frame \<times> 'n session) option" where
  "queue_whole sys frame retransmit s = do {
     (drained, body) \<leftarrow> IHS_BufferTransferOwnership (frm_body frame);
     (ret, packet, s) \<leftarrow> IHS_SessionQueuePacketResult sys
        (zero_packet\<lparr>pkt_header := frm_header frame, pkt_body := body\<rparr>) retransmit s;
     IHS_SessionPacketClear packet True;
     Some (ret, frame\<lparr>frm_body := drained\<rparr>, s)
   }"

definition frame_crc :: "'n system \<Rightarrow> session_frame \<Rightarrow> 'n session \<Rightarrow> session_frame option" where
  "frame_crc sys frame s =
     (if lk_crcRequired (cn_link (ss_conn s)) \<and> \<not> hdr_hasCrc (frm_header frame) then do {
        body \<leftarrow> IHS_BufferSetSuffixLength (ss_mem sys) (frm_body frame) 4;
        Some (frame\<lparr>frm_header := (frm_header frame)\<lparr>hdr_hasCrc := True\<rparr>, frm_body := body\<rparr>)
      } else Some frame)"

definition frame_auto_id :: "nat \<Rightarrow> session_frame \<Rightarrow> 'n session \<Rightarrow> session_frame \<times> 'n session" where
  "frame_auto_id ch frame s =
     (if hdr_autoPacketId (frm_header frame) then
        case frame_id ch (hdr_type (frm_header frame)) s of (i, s) \<Rightarrow>
          (frame\<lparr>frm_header := (frm_header frame)\<lparr>hdr_packetId := i, hdr_autoPacketId := False\<rparr>\<rparr>, s)
      else (frame, s))"

definition IHS_SessionChannelQueueFrameResult ::
    "'n system \<Rightarrow> nat \<Rightarrow> session_frame \<Rightarrow> bool \<Rightarrow> 'n session \<Rightarrow> (send_admission \<times> session_frame \<times> 'n session) option" where
  "IHS_SessionChannelQueueFrameResult sys ch frame retransmit s =
     (if lk_detached (cn_link (ss_conn s)) \<or> IHS_SessionTransportState (ss_conn s) \<noteq> TransportConnected
      then Some (NotConnected, frame, s)
      else do {
        let s = session_register sys ch s;
        frame \<leftarrow> frame_crc sys frame s;
        let mtu = (if ss_mtu s > 0 then ss_mtu s else 1024);
        assert_that (mtu - int IHS_PACKET_HEADER_SIZE - 4 > 0);
        let bodyLimit = nat (mtu - int IHS_PACKET_HEADER_SIZE - 4);
        let size = buf_size (frm_body frame);
        if size div bodyLimit + (if size mod bodyLimit \<noteq> 0 then 1 else 0) > 32767 then Some (TooLarge, frame, s)
        else do {
          (ok, s) \<leftarrow> IHS_SessionSendBatchBegin sys s;
          if \<not> ok then Some (LocalFailure, frame, s)
          else case frame_auto_id ch frame s of (frame, s) \<Rightarrow> do {
            (ret, frame, s) \<leftarrow> (if size \<le> bodyLimit then queue_whole sys frame retransmit s
                               else SessionChannelQueueFramePackets sys ch frame bodyLimit retransmit s);
            s \<leftarrow> IHS_SessionSendBatchEnd (ret = Accepted) s;
            Some (ret, frame, s)
          }
        }
      })"

section \<open>Dispatch\<close>

text \<open>The continuation items of a batch.\<close>

fun batch_rest :: "u32 \<Rightarrow> nat \<Rightarrow> queued_packet list \<Rightarrow> (queued_packet list \<times> queued_packet list) option" where
  "batch_rest ch 0 qs = Some ([], qs)"
| "batch_rest ch (Suc n) [] = None"
| "batch_rest ch (Suc n) (q # qs) = do {
     assert_that (qp_batchCount q = 0 \<and> qp_reliable q \<and> hdr_channelId (pkt_header (qp_packet q)) = ch);
     (batch, qs) \<leftarrow> batch_rest ch n qs;
     Some (q # batch, qs)
   }"

definition dispatch_reliable :: "'n system \<Rightarrow> queued_packet \<Rightarrow> 'n session \<Rightarrow> 'n session option" where
  "dispatch_reliable sys q s =
     (let h = pkt_header (qp_packet q); ch = ucast (hdr_channelId h) :: u8;
          s = s\<lparr>ss_retransmission := IHS_RetransmissionActivate (ss_retransmission s) ch (hdr_packetId h) (of_nat (qp_batchCount q))\<rparr> in
      case IHS_TimerNow sys s of (nowMs, s) \<Rightarrow>
      case read_timestamp sys s of (now, s) \<Rightarrow> process_channel sys (unat ch) nowMs now s)"

definition retain :: "'n system \<Rightarrow> session_packet \<Rightarrow> u32 \<Rightarrow> 'n session \<Rightarrow> (bool \<times> session_packet \<times> 'n session) option" where
  "retain sys packet created s =
     (case may_alloc sys s of (a1, s) \<Rightarrow> case may_alloc sys s of (a2, s) \<Rightarrow> case may_alloc sys s of (a3, s) \<Rightarrow> do {
        (ok, packet, o', new) \<leftarrow> IHS_OutgoingRetain a1 a2 a3 (ss_outgoing s) packet created;
        Some (ok, packet, start_feedback sys new (set_outgoing o' s))
      })"

definition dispatch_unreliable :: "'n system \<Rightarrow> queued_packet \<Rightarrow> 'n session \<Rightarrow> (session_packet \<times> 'n session) option" where
  "dispatch_unreliable sys q s = do {
     (ok, packet, s) \<leftarrow> retain sys (qp_packet q) (qp_queuedAt q) s;
     if ok then do {
       (_, s) \<leftarrow> send_unreliable sys (unat (ucast (hdr_channelId (pkt_header (qp_packet q))) :: u8)) False s;
       Some (packet, s)
     } else Some (packet, s)
   }"

definition dispatch_other :: "'n system \<Rightarrow> queued_packet \<Rightarrow> 'n session \<Rightarrow> (session_packet \<times> 'n session) option" where
  "dispatch_other sys q s = do {
     (sent, packet, s) \<leftarrow> session_send sys (qp_packet q) s;
     if qp_reliable q then
       case IHS_TimerNow sys s of (nowMs, s) \<Rightarrow>
         Some (packet, s\<lparr>ss_retransmission := IHS_RetransmissionNoteInitialSend
           (Some (IHS_StreamClockRetryTicks (cn_clock (ss_conn s)))) (ss_retransmission s) (pkt_header packet) sent nowMs\<rparr>)
     else Some (packet, s)
   }"

definition dispatch_first :: "'n system \<Rightarrow> queued_packet \<Rightarrow> 'n session \<Rightarrow> (session_packet \<times> 'n session) option" where
  "dispatch_first sys q s =
     (let t = hdr_type (pkt_header (qp_packet q)) in
      if \<not> cn_interrupted (ss_conn s) \<and> \<not> lk_detached (cn_link (ss_conn s)) \<and>
         (IHS_SessionTransportState (ss_conn s) = TransportConnected \<or> t = IHS_SessionPacketTypeUnconnected)
      then
        if qp_reliable q \<and> (t = IHS_SessionPacketTypeReliable \<or> t = IHS_SessionPacketTypeReliableFrag)
        then map_option (\<lambda>s. (qp_packet q, s)) (dispatch_reliable sys q s)
        else if t = IHS_SessionPacketTypeUnreliable \<or> t = IHS_SessionPacketTypeUnreliableFrag
        then dispatch_unreliable sys q s
        else dispatch_other sys q s
      else Some (qp_packet q, s))"

text \<open>
  One transaction of the worker.  With \<^verbatim>\<open>wait\<close> the code waits once for an empty queue to be filled by
  another thread and then looks again: that is a step of the other thread followed by this one.
\<close>

definition IHS_SessionDispatchQueued :: "'n system \<Rightarrow> 'n session \<Rightarrow> (bool \<times> 'n session) option" where
  "IHS_SessionDispatchQueued sys s =
     (case ss_sendQueue s of [] \<Rightarrow> Some (False, s)
      | q # qs \<Rightarrow> do {
          assert_that (qp_batchCount q > 0);
          (batch, qs) \<leftarrow> batch_rest (hdr_channelId (pkt_header (qp_packet q))) (qp_batchCount q - 1) qs;
          (packet, s) \<leftarrow> dispatch_first sys q (s\<lparr>ss_sendQueue := qs\<rparr>);
          IHS_SessionPacketClear packet True;
          those (map QueuedPacketDestroy batch);
          Some (True, s)
        })"

end
