(* ===== verification/Receive.thy ===== *)
theory Receive
  imports Send_Queue
begin

text \<open>
  What a session does with received frames and packets: the channel table
  (\<^verbatim>\<open>session/channels/channel.c\<close>), the gate for complete frames (\<^verbatim>\<open>IHS_SessionDeliverReliableFrame\<close> of
  \<^verbatim>\<open>session/session.c\<close>), the frames that wait for their consumer (\<^verbatim>\<open>session/media_pending.c\<close>), reliable and
  unreliable channels (\<^verbatim>\<open>session/reliable.c\<close>, \<^verbatim>\<open>session/unreliable.c\<close>).

  The argument \<open>up\<close> stands for the code behind the function pointers of a channel class and for the
  consumers of frames; it returns the buffer that it was given as it leaves it (a consumer may take
  the payload over) and the session.
\<close>

type_synonym 'n delegate = "session_event \<Rightarrow> 'n session \<Rightarrow> (ihs_buffer \<times> 'n session) option"

section \<open>The channel table\<close>

abbreviation (input) IHS_SessionChannelIdDiscovery :: u32 where "IHS_SessionChannelIdDiscovery \<equiv> 0"
abbreviation (input) IHS_SessionChannelIdControl :: u32 where "IHS_SessionChannelIdControl \<equiv> 1"
abbreviation (input) IHS_SessionChannelIdStats :: u32 where "IHS_SessionChannelIdStats \<equiv> 2"
abbreviation (input) IHS_SessionChannelIdDataStart :: u32 where "IHS_SessionChannelIdDataStart \<equiv> 3"

text \<open>The loop over the table dereferences every entry up to the one it finds.\<close>

fun find_channel :: "(channel \<Rightarrow> bool) \<Rightarrow> channel option list \<Rightarrow> channel option option" where
  "find_channel P [] = Some None"
| "find_channel P (c # cs) = do {
     c \<leftarrow> c;
     if P c then Some (Some c) else find_channel P cs
   }"

definition IHS_SessionChannelFor :: "'n session \<Rightarrow> u32 \<Rightarrow> channel option option" where
  "IHS_SessionChannelFor s channelId =
     (if channelId \<le> IHS_SessionChannelIdStats then do {
        assert_that (unat channelId < length (ss_channels s));
        Some (ss_channels s ! unat channelId)
      } else find_channel (\<lambda>c. chn_id c = channelId) (ss_channels s))"

section \<open>Complete frames\<close>

datatype disposition = ReliableDiscarded | ReliableIgnored | ReliableControl | ReliablePending | ReliableData

abbreviation (input) k_EStreamDataPacket :: u8 where "k_EStreamDataPacket \<equiv> 1"

text \<open>Passing a frame on to the code behind \<open>up\<close>.\<close>

definition hand_over ::
    "'n delegate \<Rightarrow> (session_frame \<Rightarrow> session_event) \<Rightarrow> session_frame \<Rightarrow> 'n session \<Rightarrow> (session_frame \<times> 'n session) option" where
  "hand_over up e frame s = map_option (\<lambda>(b, s). (frame\<lparr>frm_body := b\<rparr>, s)) (up (e frame) s)"

definition first_byte :: "ihs_buffer \<Rightarrow> u8 option" where
  "first_byte b = do { p \<leftarrow> IHS_BufferPointer b; d \<leftarrow> buf_load b p 1; Some (hd d) }"

text \<open>Keeping a frame until its consumer is there: at most 320, the oldest gives way.\<close>

definition drop_oldest :: "'n session \<Rightarrow> 'n session option" where
  "drop_oldest s =
     (if ss_pendingDataCount s = 320 then
        case ss_pendingData s of [] \<Rightarrow> None
        | old # rest \<Rightarrow> do {
            IHS_SessionPacketClear old True;
            Some (s\<lparr>ss_pendingData := rest, ss_pendingDataCount := ss_pendingDataCount s - 1\<rparr>)
          }
      else Some s)"

definition keep_frame :: "'n system \<Rightarrow> session_frame \<Rightarrow> 'n session \<Rightarrow> (disposition \<times> session_frame \<times> 'n session) option" where
  "keep_frame sys frame s = do {
     s \<leftarrow> drop_oldest s;
     case may_alloc sys s of (ok, s) \<Rightarrow>
       if \<not> ok then do { s \<leftarrow> IHS_SessionDisconnect sys s; Some (ReliableDiscarded, frame, s) }
       else do {
         (drained, body) \<leftarrow> IHS_BufferTransferOwnership (frm_body frame);
         Some (ReliablePending, frame\<lparr>frm_body := drained\<rparr>,
           s\<lparr>ss_pendingData := ss_pendingData s @ [\<lparr>pkt_header = frm_header frame, pkt_body = body, pkt_crc = 0\<rparr>],
             ss_pendingDataCount := ss_pendingDataCount s + 1\<rparr>)
       }
   }"

definition deliver_data ::
    "'n system \<Rightarrow> 'n delegate \<Rightarrow> u32 \<Rightarrow> session_frame \<Rightarrow> 'n session \<Rightarrow> (disposition \<times> session_frame \<times> 'n session) option" where
  "deliver_data sys up i frame s =
     (if cn_testMode (ss_conn s) then do { (frame, s) \<leftarrow> hand_over up TestFrame frame s; Some (ReliableData, frame, s) }
      else if cn_connectionState (ss_conn s) \<noteq> Connected \<or> tp_clientPaused (cn_tp (ss_conn s))
      then Some (ReliableDiscarded, frame, s)
      else do {
        c \<leftarrow> IHS_SessionChannelFor s i;
        case c of
          Some c \<Rightarrow>
            if chn_type c = TypeDataAudio \<or> chn_type c = TypeDataVideo
            then do { (frame, s) \<leftarrow> hand_over up (DataFrame c) frame s; Some (ReliableData, frame, s) }
            else keep_frame sys frame s
        | None \<Rightarrow> keep_frame sys frame s
      })"

definition IHS_SessionDeliverReliableFrame ::
    "'n system \<Rightarrow> 'n delegate \<Rightarrow> session_frame \<Rightarrow> 'n session \<Rightarrow> (disposition \<times> session_frame \<times> 'n session) option" where
  "IHS_SessionDeliverReliableFrame sys up frame s =
     (let i = ucast (ucast (hdr_channelId (frm_header frame)) :: u8) :: u32 in
      if cn_connectionState (ss_conn s) = Unconnected \<or> cn_connectionState (ss_conn s) = Stopping \<or>
         cn_interrupted (ss_conn s) \<or> lk_detached (cn_link (ss_conn s))
      then Some (ReliableDiscarded, frame, s)
      else if i = IHS_SessionChannelIdControl
      then do { (frame, s) \<leftarrow> hand_over up ControlFrame frame s; Some (ReliableControl, frame, s) }
      else if buf_size (frm_body frame) = 0 then Some (ReliableDiscarded, frame, s)
      else if i < IHS_SessionChannelIdDataStart then Some (ReliableIgnored, frame, s)
      else do {
        b \<leftarrow> first_byte (frm_body frame);
        if b \<noteq> k_EStreamDataPacket then Some (ReliableIgnored, frame, s)
        else deliver_data sys up i frame s
      })"

text \<open>The frames that wait are taken out before the first of them is offered again.\<close>

fun replay :: "'n system \<Rightarrow> 'n delegate \<Rightarrow> session_packet list \<Rightarrow> 'n session \<Rightarrow> 'n session option" where
  "replay sys up [] s = Some s"
| "replay sys up (q # qs) s = do {
     (_, frame, s) \<leftarrow> IHS_SessionDeliverReliableFrame sys up
        \<lparr>frm_header = pkt_header q, frm_body = pkt_body q, frm_mediaOffset = 0, frm_mediaPrepared = False, frm_receivedRetries = 0\<rparr> s;
     IHS_SessionFrameClear frame True;
     replay sys up qs s
   }"

definition IHS_SessionDrainPendingData :: "'n system \<Rightarrow> 'n delegate \<Rightarrow> 'n session \<Rightarrow> 'n session option" where
  "IHS_SessionDrainPendingData sys up s = replay sys up (ss_pendingData s)
     (s\<lparr>ss_pendingData := [], ss_pendingDataCount := ss_pendingDataCount s - length (ss_pendingData s)\<rparr>)"

section \<open>Reliable channels\<close>

definition IHS_SessionReliableGet :: "'n system \<Rightarrow> nat \<Rightarrow> 'n session \<Rightarrow> bool \<times> 'n session" where
  "IHS_SessionReliableGet sys ch s = (if ch \<ge> 32 then (False, s) else (True, session_register sys ch s))"

abbreviation upd_reliable :: "nat \<Rightarrow> (reliable_channel \<Rightarrow> reliable_channel) \<Rightarrow> 'n session \<Rightarrow> 'n session" where
  "upd_reliable ch f s \<equiv> set_reliable ch (f (ss_reliable s ! ch)) s"

definition record_lost :: "'n system \<Rightarrow> u32 \<Rightarrow> u32 \<Rightarrow> 'n session \<Rightarrow> 'n session" where
  "record_lost sys now n s =
     (case may_alloc sys s of (ok, s) \<Rightarrow>
        set_network (IHS_SessionRecordNetworkLost ok (lk_network (cn_link (ss_conn s))) now n) s)"

text \<open>The loop that delivers the complete frames at the front of the window.\<close>

partial_function (option) drain_frames ::
    "'n system \<Rightarrow> 'n delegate \<Rightarrow> nat \<Rightarrow> session_frame \<Rightarrow> u32 \<Rightarrow> 'n session \<Rightarrow> (bool \<times> u32 \<times> 'n session) option" where
  "drain_frames sys up ch frame retries s =
     (case rl_window (ss_reliable s ! ch) of
        None \<Rightarrow> map_option (\<lambda>_. (True, retries, s)) (IHS_BufferClear (frm_body frame) True)
      | Some w \<Rightarrow> Option.bind (IHS_SessionPacketsWindowPoll (ss_mem sys) w frame) (\<lambda>r.
          let s1 = upd_reliable ch (\<lambda>c. c\<lparr>rl_window := Some (fst (snd r))\<rparr>) s; frame1 = snd (snd r) in
          if IHS_SessionPacketsWindowLastError (fst (snd r)) \<noteq> PollOK
          then Option.bind (IHS_BufferClear (frm_body frame1) True) (\<lambda>_.
            map_option (\<lambda>s. (False, retries, s)) (IHS_SessionDisconnect sys s1))
          else if \<not> fst r then map_option (\<lambda>_. (True, retries, s1)) (IHS_BufferClear (frm_body frame1) True)
          else Option.bind (IHS_SessionDeliverReliableFrame sys up frame1 s1) (\<lambda>d.
            Option.bind (IHS_SessionPacketsWindowReleaseFrame (fst (snd d))) (\<lambda>frame2.
              drain_frames sys up ch frame2 (retries + frm_receivedRetries frame1) (snd (snd d))))))"

definition ReliableDrainFrames ::
    "'n system \<Rightarrow> 'n delegate \<Rightarrow> nat \<Rightarrow> 'n session \<Rightarrow> (bool \<times> u32 \<times> 'n session) option" where
  "ReliableDrainFrames sys up ch s =
     drain_frames sys up ch \<lparr>frm_header = zero_header, frm_body = IHS_BufferInit 1024 0, frm_mediaOffset = 0,
       frm_mediaPrepared = False, frm_receivedRetries = 0\<rparr> 0 s"

text \<open>Feedback packets.\<close>

definition IHS_SessionChannelPacketAck ::
    "'n system \<Rightarrow> nat \<Rightarrow> u16 \<Rightarrow> u16 \<Rightarrow> bool \<Rightarrow> u32 \<Rightarrow> 'n session \<Rightarrow> 'n session option" where
  "IHS_SessionChannelPacketAck sys ch packetId fragmentId ok echoedTimestamp s = do {
     (packet, s) \<leftarrow> IHS_SessionChannelInitializePacket sys ch
        (if ok then IHS_SessionPacketTypeACK else IHS_SessionPacketTypeNACK) False (uint packetId) s;
     body \<leftarrow> IHS_BufferAppendMem (ss_mem sys) (pkt_body packet) (IHS_WriteUInt32LE echoedTimestamp);
     (_, packet, s) \<leftarrow> session_send sys (packet\<lparr>pkt_header := (pkt_header packet)\<lparr>hdr_fragmentId := fragmentId\<rparr>, pkt_body := body\<rparr>) s;
     IHS_SessionPacketClear packet True;
     Some s
   }"

definition feedback_packet ::
    "'n system \<Rightarrow> nat \<Rightarrow> u32 \<Rightarrow> u32 \<Rightarrow> u16 \<Rightarrow> media_feedback \<Rightarrow> 'n session \<Rightarrow> (session_packet \<times> 'n session) option" where
  "feedback_packet sys ch t peer conf fb s = do {
     (packet, s) \<leftarrow> IHS_SessionChannelInitializePacket sys ch t False (uint (fb_base fb)) s;
     body \<leftarrow> IHS_BufferAppendMem (ss_mem sys) (pkt_body packet) (IHS_WriteUInt32LE peer);
     body \<leftarrow> IHS_BufferAppendMem (ss_mem sys) body (IHS_WriteUInt16LE conf);
     body \<leftarrow> IHS_BufferAppendMem (ss_mem sys) body (take (fb_bitmapBytes fb) (fb_bitmap fb));
     Some (packet\<lparr>pkt_body := body\<rparr>, s)
   }"

definition send_feedback :: "'n system \<Rightarrow> session_packet \<Rightarrow> 'n session \<Rightarrow> 'n session option" where
  "send_feedback sys packet s = do {
     (_, packet, s) \<leftarrow> session_send sys packet s;
     IHS_SessionPacketClear packet True;
     Some s
   }"

text \<open>The two halves of the update after the frames are delivered; the flag says whether something was attempted.\<close>

definition update_ack :: "'n system \<Rightarrow> nat \<Rightarrow> bool \<Rightarrow> u16 \<Rightarrow> 'n session \<Rightarrow> (bool \<times> 'n session) option" where
  "update_ack sys ch eligible conf s =
     (let s = (if conf \<noteq> rl_ackWatermark (ss_reliable s ! ch)
               then upd_reliable ch (\<lambda>c. c\<lparr>rl_ackWatermark := conf, rl_ackPending := True\<rparr>) s else s);
          c = ss_reliable s ! ch in
      if \<not> rl_ackPending c then Some (False, s)
      else if eligible then
        case read_timestamp sys s of (t, s) \<Rightarrow> do {
          s \<leftarrow> IHS_SessionChannelPacketAck sys ch conf 0 True (rl_peerTimestamp c + t - rl_peerReceiveTime c) s;
          Some (True, upd_reliable ch (\<lambda>c. c\<lparr>rl_ackPending := False\<rparr>) s)
        }
      else Some (False, upd_reliable ch (\<lambda>c. c\<lparr>rl_feedbackDirty := True\<rparr>) s))"

definition update_nack :: "'n system \<Rightarrow> nat \<Rightarrow> u32 \<Rightarrow> bool \<Rightarrow> u16 \<Rightarrow> bool \<Rightarrow> 'n session \<Rightarrow> (bool \<times> 'n session) option" where
  "update_nack sys ch now eligible conf attempted s = do {
     w \<leftarrow> rl_window (ss_reliable s ! ch);
     case IHS_SessionPacketsWindowReliableFeedback w now of
       None \<Rightarrow> Some (attempted, s)
     | Some (fb, mature) \<Rightarrow>
         if eligible \<and> mature then do {
           (packet, s) \<leftarrow> feedback_packet sys ch IHS_SessionPacketTypeNACK (rl_peerTimestamp (ss_reliable s ! ch)) conf fb s;
           s \<leftarrow> send_feedback sys (packet\<lparr>pkt_header := (pkt_header packet)\<lparr>hdr_fragmentId := 0\<rparr>\<rparr>) s;
           Some (True, s)
         } else Some (attempted, upd_reliable ch (\<lambda>c. c\<lparr>rl_feedbackDirty := True\<rparr>) s)
   }"

definition IHS_SessionReliableUpdateChannelAt ::
    "'n system \<Rightarrow> 'n delegate \<Rightarrow> nat \<Rightarrow> u32 \<Rightarrow> 'n session \<Rightarrow> 'n session option" where
  "IHS_SessionReliableUpdateChannelAt sys up ch now s =
     (if ch \<ge> 32 then Some s
      else if \<not> rl_feedbackDirty (ss_reliable s ! ch) then Some s
      else do {
        (ok, retries, s) \<leftarrow> ReliableDrainFrames sys up ch (upd_reliable ch (\<lambda>c. c\<lparr>rl_feedbackDirty := False\<rparr>) s);
        if \<not> ok then Some s
        else do {
          let s = record_lost sys now retries s;
          let eligible = (sint (now - rl_feedbackDeadline (ss_reliable s ! ch)) \<ge> 0);
          w \<leftarrow> rl_window (ss_reliable s ! ch);
          let conf = IHS_SessionPacketsWindowContiguousId w;
          (attempted, s) \<leftarrow> update_ack sys ch eligible conf s;
          (attempted, s) \<leftarrow> update_nack sys ch now eligible conf attempted s;
          Some (if attempted
                then upd_reliable ch (\<lambda>c. c\<lparr>rl_feedbackDeadline := now + IHS_StreamClockFeedbackTicks (cn_clock (ss_conn s))\<rparr>) s
                else s)
        }
      })"

fun update_reliable :: "'n system \<Rightarrow> 'n delegate \<Rightarrow> u32 \<Rightarrow> nat list \<Rightarrow> 'n session \<Rightarrow> 'n session option" where
  "update_reliable sys up tick [] s = Some s"
| "update_reliable sys up tick (ch # chs) s = do {
     s \<leftarrow> IHS_SessionReliableUpdateChannelAt sys up ch tick s;
     update_reliable sys up tick chs s
   }"

definition IHS_SessionReliableUpdateAt :: "'n system \<Rightarrow> 'n delegate \<Rightarrow> u32 \<Rightarrow> 'n session \<Rightarrow> 'n session option" where
  "IHS_SessionReliableUpdateAt sys up tick s = update_reliable sys up tick [0..<out_count (ss_outgoing s)] s"

text \<open>A negative acknowledgement: the loops over the bytes of the mask and over the bits of a byte.\<close>

function mask_bits :: "u32 \<Rightarrow> u32 \<Rightarrow> u64 \<Rightarrow> u16 \<Rightarrow> u8 \<Rightarrow> retransmission \<Rightarrow> retransmission" where
  "mask_bits ch cutoff nowMs i bits r =
     (if bits = 0 then r
      else mask_bits ch cutoff nowMs (i + 1) (drop_bit 1 bits)
        (if bit bits 0 then snd (IHS_RetransmissionAcknowledge r ch i INT16_MIN nowMs)
         else snd (IHS_RetransmissionNackBefore r ch i False cutoff nowMs)))"
  by auto
termination
proof (relation "measure (\<lambda>(_, _, _, _, bits, _). unat bits)")
  fix bits :: u8
  assume "bits \<noteq> 0"
  then have "0 < unat bits" by (simp add: unat_gt_0)
  then show "((ch, cutoff, nowMs, i + 1, drop_bit 1 bits, r'), ch, cutoff, nowMs, i, bits, r)
      \<in> measure (\<lambda>(_, _, _, _, bits, _). unat bits)" for ch cutoff :: u32 and nowMs :: u64 and i :: u16 and r r' :: retransmission
    by (simp add: unat_drop_bit_eq drop_bit_Suc unat_div)
qed auto

fun mask_bytes :: "u32 \<Rightarrow> u32 \<Rightarrow> u64 \<Rightarrow> u16 \<Rightarrow> bytes \<Rightarrow> retransmission \<Rightarrow> retransmission" where
  "mask_bytes ch cutoff nowMs i [] r = r"
| "mask_bytes ch cutoff nowMs i (b # bs) r = mask_bytes ch cutoff nowMs (i + 8) bs (mask_bits ch cutoff nowMs i b r)"

definition nack_store ::
    "u32 \<Rightarrow> u32 \<Rightarrow> u64 \<Rightarrow> u16 \<Rightarrow> bytes \<Rightarrow> retransmission \<Rightarrow> retransmission option" where
  "nack_store ch cutoff nowMs base body r =
     (if body = [] then Some (snd (IHS_RetransmissionNackBefore r ch base True cutoff nowMs))
      else do {
        seen \<leftarrow> IHS_ReadUInt32LE body;
        contiguous \<leftarrow> IHS_ReadUInt16LE (drop 4 body);
        let cutoff = (if sint (cutoff - seen) < 0 then seen else cutoff);
        let r = snd (IHS_RetransmissionAcknowledgeThrough r ch (contiguous + 1) nowMs);
        let r = mask_bytes ch cutoff nowMs base (drop 6 body) r;
        Some (snd (IHS_RetransmissionNackBefore r ch base True cutoff nowMs))
      })"

definition body_bytes :: "ihs_buffer \<Rightarrow> bytes option" where
  "body_bytes b = (if buf_size b = 0 then Some [] else do { p \<leftarrow> IHS_BufferPointer b; buf_load b p (buf_size b) })"

definition ReliableOnNackPacket :: "'n system \<Rightarrow> nat \<Rightarrow> session_packet \<Rightarrow> 'n session \<Rightarrow> 'n session option" where
  "ReliableOnNackPacket sys ch packet s =
     (case IHS_TimerNow sys s of (nowMs, s) \<Rightarrow>
        let c = ss_reliable s ! ch; h = pkt_header packet; n = buf_size (pkt_body packet) in
        if rl_lastNackTimestamp c \<noteq> 0 \<and> sint (hdr_sendTimestamp h - rl_lastNackTimestamp c) < 0 then Some s
        else
          let s = upd_reliable ch (\<lambda>c. c\<lparr>rl_lastNackTimestamp := hdr_sendTimestamp h\<rparr>) s in
          if n \<noteq> 0 \<and> n < 6 then Some s
          else case read_timestamp sys s of (t, s) \<Rightarrow> do {
            body \<leftarrow> body_bytes (pkt_body packet);
            r \<leftarrow> nack_store (hdr_channelId h) (t - IHS_StreamClockNackAgeTicks (sy_nackMs sys (cn_clock (ss_conn s))))
                  nowMs (hdr_packetId h) body (ss_retransmission s);
            Some (s\<lparr>ss_retransmission := r\<rparr>)
          })"

text \<open>A packet of a reliable stream: into the window, which is made for the first one.\<close>

definition reliable_window :: "'n system \<Rightarrow> nat \<Rightarrow> 'n session \<Rightarrow> packets_window option \<times> 'n session" where
  "reliable_window sys ch s =
     (case rl_window (ss_reliable s ! ch) of
        Some w \<Rightarrow> (Some w, s)
      | None \<Rightarrow> case may_alloc sys s of (a1, s) \<Rightarrow> case may_alloc sys s of (a2, s) \<Rightarrow>
          let w = IHS_SessionPacketsWindowCreateReliable a1 a2 64 0 in
          (w, upd_reliable ch (\<lambda>c. c\<lparr>rl_window := w\<rparr>) s))"

definition insert_reliable ::
    "'n system \<Rightarrow> nat \<Rightarrow> session_packet \<Rightarrow> 'n session \<Rightarrow> (bool \<times> bool \<times> session_packet \<times> 'n session) option" where
  "insert_reliable sys ch packet s =
     (case reliable_window sys ch s of
        (None, s) \<Rightarrow> Some (False, False, packet, upd_reliable ch (\<lambda>c. c\<lparr>rl_feedbackDirty := False\<rparr>) s)
      | (Some w, s) \<Rightarrow>
          let s = (if sint (IHS_SessionPacketsWindowNextNeededPacketId w - hdr_packetId (pkt_header packet)) > 0
                   then upd_reliable ch (\<lambda>c. c\<lparr>rl_ackPending := True\<rparr>) s else s) in
          case may_alloc sys s of (ok, s) \<Rightarrow> do {
            (added, inserted, w, packet) \<leftarrow> IHS_SessionPacketsWindowAddEx ok w packet;
            Some (added, inserted, packet, upd_reliable ch (\<lambda>c. c\<lparr>rl_window := Some w\<rparr>) s)
          })"

definition note_peer :: "packet_header \<Rightarrow> reliable_channel \<Rightarrow> reliable_channel" where
  "note_peer h c =
     (let c = c\<lparr>rl_feedbackDirty := True\<rparr> in
      if rl_peerTimestamp c = 0 \<or> sint (hdr_sendTimestamp h - rl_peerTimestamp c) > 0
      then c\<lparr>rl_peerTimestamp := hdr_sendTimestamp h, rl_peerReceiveTime := hdr_receiveTimestamp h\<rparr> else c)"

definition note_retries :: "'n system \<Rightarrow> bool \<Rightarrow> packet_header \<Rightarrow> 'n session \<Rightarrow> 'n session" where
  "note_retries sys inserted h s =
     (if inserted \<and> hdr_retransmitCount h > 1
      then record_lost sys (hdr_receiveTimestamp h) (ucast (hdr_retransmitCount h) - 1) s else s)"

definition overflow_once :: "'n system \<Rightarrow> nat \<Rightarrow> 'n session \<Rightarrow> 'n session option" where
  "overflow_once sys ch s =
     (if rl_overflowed (ss_reliable s ! ch) then Some s
      else IHS_SessionDisconnect sys (upd_reliable ch (\<lambda>c. c\<lparr>rl_overflowed := True\<rparr>) s))"

definition IHS_SessionReliableReceived ::
    "'n system \<Rightarrow> session_packet \<Rightarrow> 'n session \<Rightarrow> (session_packet \<times> 'n session) option" where
  "IHS_SessionReliableReceived sys packet s =
     (let ch = unat (ucast (hdr_channelId (pkt_header packet)) :: u8); h = pkt_header packet; t = hdr_type h in
      case IHS_SessionReliableGet sys ch s of (found, s) \<Rightarrow>
        if \<not> found then Some (packet, s)
        else if t = IHS_SessionPacketTypeReliable \<or> t = IHS_SessionPacketTypeReliableFrag then do {
          (added, inserted, packet, s) \<leftarrow> insert_reliable sys ch packet (upd_reliable ch (note_peer h) s);
          let s = note_retries sys inserted h s;
          s \<leftarrow> (if added then Some s else overflow_once sys ch s);
          Some (packet, s)
        }
        else if t = IHS_SessionPacketTypeNACK
        then map_option (\<lambda>s. (packet, s)) (ReliableOnNackPacket sys ch packet s)
        else Some (packet, s))"

fun destroy_windows :: "reliable_channel list \<Rightarrow> unit option" where
  "destroy_windows [] = Some ()"
| "destroy_windows (c # cs) = do {
     (case rl_window c of None \<Rightarrow> Some () | Some w \<Rightarrow> IHS_SessionPacketsWindowDestroy w);
     destroy_windows cs
   }"

definition IHS_SessionReliableDeinit :: "'n session \<Rightarrow> unit option" where
  "IHS_SessionReliableDeinit s = destroy_windows (ss_reliable s)"

end
