(* ===== verification/Dispatch.thy ===== *)
theory Dispatch
  imports Receive
begin

text \<open>
  Unreliable channels (\<^verbatim>\<open>session/unreliable.c\<close>), the discovery channel (\<^verbatim>\<open>session/channels/ch_discovery.c\<close>)
  and the way of a datagram through the session (\<^verbatim>\<open>SessionRecvAt\<close> and the network update of
  \<^verbatim>\<open>session/session.c\<close>).  The generated code that unpacks a ping request is behind \<open>up\<close>, as the control
  handshake is.
\<close>

section \<open>Unreliable channels\<close>

text \<open>The five allocations of a channel: itself, the window and its slots, the receiver, the lock.\<close>

definition IHS_SessionUnreliableGet ::
    "'n system \<Rightarrow> nat \<Rightarrow> nat \<Rightarrow> 'n session \<Rightarrow> unreliable_channel option \<times> 'n session" where
  "IHS_SessionUnreliableGet sys ch capacity s =
     (if ch \<ge> 32 then (None, s)
      else case ss_unreliable s ! ch of
        Some rx \<Rightarrow> (Some rx, s)
      | None \<Rightarrow>
          case may_alloc sys s of (a0, s) \<Rightarrow>
          if \<not> a0 then (None, s)
          else case may_alloc sys s of (a1, s) \<Rightarrow> case may_alloc sys s of (a2, s) \<Rightarrow>
               case may_alloc sys s of (a3, s) \<Rightarrow> case may_alloc sys s of (a4, s) \<Rightarrow>
            case IHS_SessionPacketsWindowCreateMedia a1 a2 capacity of
              None \<Rightarrow> (None, s)
            | Some w \<Rightarrow>
                if \<not> a3 \<or> \<not> a4 then (None, s)
                else let rx = \<lparr>ur_window = w, ur_fec = IHS_FECReceiverCreate (sy_junk sys), ur_maxReceiveDelay = 65,
                       ur_lastPacketTimestamp = 0, ur_feedbackDeadline = 0, ur_haveFeedbackDeadline = False,
                       ur_feedbackDirty = False\<rparr>
                     in (Some rx, s\<lparr>ss_unreliable := (ss_unreliable s)[ch := Some rx]\<rparr>))"

definition set_unreliable :: "nat \<Rightarrow> unreliable_channel \<Rightarrow> 'n session \<Rightarrow> 'n session" where
  "set_unreliable ch rx s = s\<lparr>ss_unreliable := (ss_unreliable s)[ch := Some rx]\<rparr>"

definition IHS_SessionUnreliableSetDelay :: "'n system \<Rightarrow> nat \<Rightarrow> u32 \<Rightarrow> 'n session \<Rightarrow> (bool \<times> 'n session) option" where
  "IHS_SessionUnreliableSetDelay sys ch delay s =
     (case IHS_SessionUnreliableGet sys ch 2048 (session_register sys ch s) of
        (None, s) \<Rightarrow> map_option (\<lambda>s. (False, s)) (IHS_SessionDisconnect sys s)
      | (Some rx, s) \<Rightarrow> Some (True, set_unreliable ch (rx\<lparr>ur_maxReceiveDelay := delay\<rparr>) s))"

definition zero_frame :: session_frame where
  "zero_frame = \<lparr>frm_header = zero_header, frm_body = IHS_BufferInit 0 0, frm_mediaOffset = 0,
     frm_mediaPrepared = False, frm_receivedRetries = 0\<rparr>"

definition receive_shard ::
    "'n system \<Rightarrow> 'n delegate \<Rightarrow> nat \<Rightarrow> unreliable_channel \<Rightarrow> session_packet \<Rightarrow> 'n session \<Rightarrow> 'n session option" where
  "receive_shard sys up ch rx packet s = do {
     (ready, fec, frame) \<leftarrow> IHS_FECReceiverAdd (ss_mem sys) (ur_fec rx) packet zero_frame;
     let s = set_unreliable ch (rx\<lparr>ur_fec := fec\<rparr>) s;
     if IHS_FECReceiverLastError fec \<noteq> FECReceiveOK then do {
       IHS_SessionFrameClear frame True;
       IHS_SessionDisconnect sys s
     } else do {
       (_, frame, s) \<leftarrow> (if ready then IHS_SessionDeliverReliableFrame sys up frame s
                          else Some (ReliableDiscarded, frame, s));
       IHS_SessionFrameClear frame True;
       Some s
     }
   }"

definition upd_unreliable :: "nat \<Rightarrow> (unreliable_channel \<Rightarrow> unreliable_channel) \<Rightarrow> 'n session \<Rightarrow> 'n session" where
  "upd_unreliable ch f s = s\<lparr>ss_unreliable := (ss_unreliable s)[ch := map_option f (ss_unreliable s ! ch)]\<rparr>"

definition add_unreliable ::
    "'n system \<Rightarrow> nat \<Rightarrow> session_packet \<Rightarrow> 'n session \<Rightarrow> (bool \<times> bool \<times> session_packet \<times> 'n session) option" where
  "add_unreliable sys ch packet s =
     (case may_alloc sys s of (ok, s) \<Rightarrow> do {
        rx \<leftarrow> ss_unreliable s ! ch;
        (added, inserted, w, packet) \<leftarrow> IHS_SessionPacketsWindowAddEx ok (ur_window rx) packet;
        Some (added, inserted, packet, set_unreliable ch (rx\<lparr>ur_window := w\<rparr>) s)
      })"

text \<open>A packet that does not fit empties the window and is tried once more.\<close>

definition insert_unreliable ::
    "'n system \<Rightarrow> 'n delegate \<Rightarrow> nat \<Rightarrow> session_packet \<Rightarrow> 'n session \<Rightarrow> (bool \<times> session_packet \<times> 'n session) option" where
  "insert_unreliable sys up ch packet s = do {
     (added, inserted, packet, s) \<leftarrow> add_unreliable sys ch packet s;
     if added then Some (inserted, packet, s)
     else do {
       rx \<leftarrow> ss_unreliable s ! ch;
       w \<leftarrow> IHS_SessionPacketsWindowReleaseAll (ur_window rx);
       (_, s) \<leftarrow> up (DataLost ch) (set_unreliable ch (rx\<lparr>ur_window := w\<rparr>) s);
       (_, inserted, packet, s) \<leftarrow> add_unreliable sys ch packet s;
       Some (inserted, packet, s)
     }
   }"

definition note_stamp :: "packet_header \<Rightarrow> unreliable_channel \<Rightarrow> unreliable_channel" where
  "note_stamp h rx =
     (let rx = (if ur_lastPacketTimestamp rx = 0 \<or> sint (hdr_sendTimestamp h - ur_lastPacketTimestamp rx) > 0
                then rx\<lparr>ur_lastPacketTimestamp := hdr_sendTimestamp h\<rparr> else rx)
      in rx\<lparr>ur_feedbackDirty := True\<rparr>)"

definition IHS_SessionUnreliableReceived ::
    "'n system \<Rightarrow> 'n delegate \<Rightarrow> session_packet \<Rightarrow> 'n session \<Rightarrow> (session_packet \<times> 'n session) option" where
  "IHS_SessionUnreliableReceived sys up packet s =
     (let h = pkt_header packet; ch = unat (ucast (hdr_channelId h) :: u8); t = hdr_type h in
      if t \<noteq> IHS_SessionPacketTypeUnreliable \<and> t \<noteq> IHS_SessionPacketTypeUnreliableFrag \<and> t \<noteq> IHS_SessionPacketTypeUnreliableFEC
      then Some (packet, s)
      else case IHS_SessionUnreliableGet sys ch 2048 (session_register sys ch s) of
        (None, s) \<Rightarrow> map_option (\<lambda>s. (packet, s)) (IHS_SessionDisconnect sys s)
      | (Some rx, s) \<Rightarrow>
          if t = IHS_SessionPacketTypeUnreliableFEC
          then map_option (\<lambda>s. (packet, s)) (receive_shard sys up ch rx packet s)
          else do {
            (inserted, packet, s) \<leftarrow> insert_unreliable sys up ch packet s;
            Some (packet, note_retries sys inserted h (upd_unreliable ch (note_stamp h) s))
          })"

definition feedback_wait :: "unreliable_channel \<Rightarrow> u32 \<Rightarrow> media_feedback \<Rightarrow> int" where
  "feedback_wait rx now fb =
     (let wait = (if fb_retransmitCount fb = 1 then sint (fb_receiveTimestamp fb + 65 - now) else 0);
          deadline = sint (ur_feedbackDeadline rx - now) in
      if ur_haveFeedbackDeadline rx \<and> deadline > wait then deadline else wait)"

definition IHS_SessionUnreliableBuildFeedback ::
    "'n system \<Rightarrow> nat \<Rightarrow> unreliable_channel \<Rightarrow> u32 \<Rightarrow> 'n session \<Rightarrow>
       (session_packet option \<times> u32 \<times> unreliable_channel \<times> 'n session) option" where
  "IHS_SessionUnreliableBuildFeedback sys ch rx now s =
     (if \<not> ur_feedbackDirty rx then Some (None, 0xFFFFFFFF, rx, s)
      else let rx = rx\<lparr>ur_feedbackDirty := False\<rparr> in
        case IHS_SessionPacketsWindowMediaFeedback (ur_window rx) of
          None \<Rightarrow> Some (None, 0xFFFFFFFF, rx, s)
        | Some fb \<Rightarrow>
            let wait = feedback_wait rx now fb in
            if wait > 0 then Some (None, word_of_int wait, rx\<lparr>ur_feedbackDirty := True\<rparr>, s)
            else do {
              (packet, s) \<leftarrow> feedback_packet sys ch IHS_SessionPacketTypeUnreliableNack (ur_lastPacketTimestamp rx) (fb_confirmed fb) fb s;
              Some (Some packet, 0, rx\<lparr>ur_feedbackDeadline := now + IHS_StreamClockFeedbackTicks (cn_clock (ss_conn s)),
                      ur_haveFeedbackDeadline := True\<rparr>, s)
            })"

text \<open>One round of the loop that delivers frames and gives up old gaps: a frame, or the packets lost.\<close>

definition assemble ::
    "'n system \<Rightarrow> unreliable_channel \<Rightarrow> 'n session \<Rightarrow> (bool \<times> nat \<times> packets_window \<times> session_frame) option" where
  "assemble sys rx s = do {
     (ready, w, frame) \<leftarrow> IHS_SessionPacketsWindowPoll (ss_mem sys) (ur_window rx) (zero_frame\<lparr>frm_body := IHS_BufferInit 1024 0\<rparr>);
     if \<not> ready \<and> IHS_SessionPacketsWindowLastError w = PollOK then do {
       (w, _, missing) \<leftarrow> IHS_SessionPacketsWindowDiscardEx w
          (IHS_StreamClockReceiveDelayTicks (sy_delayMs sys (cn_clock (ss_conn s))) (ur_maxReceiveDelay rx));
       (ready, w, frame) \<leftarrow> IHS_SessionPacketsWindowPoll (ss_mem sys) w frame;
       Some (ready, missing mod 65536, w, frame)
     } else Some (ready, 0, w, frame)
   }"

partial_function (option) assemble_loop ::
    "'n system \<Rightarrow> 'n delegate \<Rightarrow> nat \<Rightarrow> u32 \<Rightarrow> 'n session \<Rightarrow> (bool \<times> 'n session) option" where
  "assemble_loop sys up ch tick s =
     Option.bind (ss_unreliable s ! ch) (\<lambda>rx. Option.bind (assemble sys rx s) (\<lambda>r.
       let s1 = set_unreliable ch (rx\<lparr>ur_window := fst (snd (snd r))\<rparr>) s; frame1 = snd (snd (snd r)) in
       if IHS_SessionPacketsWindowLastError (fst (snd (snd r))) \<noteq> PollOK
       then Option.bind (IHS_BufferClear (frm_body frame1) True) (\<lambda>_.
         map_option (\<lambda>s. (False, s)) (IHS_SessionDisconnect sys s1))
       else Option.bind (if fst r then IHS_SessionDeliverReliableFrame sys up frame1 s1 else Some (ReliableDiscarded, frame1, s1)) (\<lambda>d.
         Option.bind (IHS_BufferClear (frm_body (fst (snd d))) True) (\<lambda>_.
           let s2 = record_lost sys tick (of_nat (fst (snd r))) (snd (snd d)) in
           if \<not> fst r \<and> fst (snd r) = 0 then Some (True, s2)
           else assemble_loop sys up ch tick s2))))"

definition IHS_SessionUnreliableUpdateAt ::
    "'n system \<Rightarrow> 'n delegate \<Rightarrow> nat \<Rightarrow> u32 \<Rightarrow> 'n session \<Rightarrow> 'n session option" where
  "IHS_SessionUnreliableUpdateAt sys up ch tick s =
     (if ch \<ge> 32 \<or> ss_unreliable s ! ch = None then Some s
      else do {
        (ok, s) \<leftarrow> assemble_loop sys up ch tick s;
        if \<not> ok then Some s
        else do {
          rx \<leftarrow> ss_unreliable s ! ch;
          (packet, _, rx, s) \<leftarrow> IHS_SessionUnreliableBuildFeedback sys ch rx tick s;
          let s = set_unreliable ch rx s;
          case packet of None \<Rightarrow> Some s | Some packet \<Rightarrow> send_feedback sys packet s
        }
      })"

fun destroy_receivers :: "unreliable_channel option list \<Rightarrow> unreliable_channel option list option" where
  "destroy_receivers [] = Some []"
| "destroy_receivers (None # rs) = map_option (Cons None) (destroy_receivers rs)"
| "destroy_receivers (Some rx # rs) = do {
     IHS_SessionPacketsWindowDestroy (ur_window rx);
     map_option (Cons None) (destroy_receivers rs)
   }"

definition IHS_SessionUnreliableDeinit :: "'n session \<Rightarrow> 'n session option" where
  "IHS_SessionUnreliableDeinit s = map_option (\<lambda>rs. s\<lparr>ss_unreliable := rs\<rparr>) (destroy_receivers (ss_unreliable s))"

section \<open>Discovery\<close>

definition clock_feedback :: "'n system \<Rightarrow> u32 \<Rightarrow> packet_header \<Rightarrow> 'n session \<Rightarrow> 'n session option" where
  "clock_feedback sys echo h s =
     (case may_alloc sys s of (a1, s) \<Rightarrow> case may_alloc sys s of (a2, s) \<Rightarrow> do {
        c \<leftarrow> IHS_StreamClockFeedback a1 a2 (cn_clock (ss_conn s)) echo (hdr_sendTimestamp h) (hdr_receiveTimestamp h);
        Some (s\<lparr>ss_conn := (ss_conn s)\<lparr>cn_clock := c\<rparr>\<rparr>)
      })"

definition IHS_SessionNetworkTestConnected :: "u32 \<Rightarrow> 'n session \<Rightarrow> 'n session" where
  "IHS_SessionNetworkTestConnected now s =
     (if \<not> cn_testMode (ss_conn s) then s
      else s\<lparr>ss_conn := (ss_conn s)\<lparr>cn_testPhase := 2\<rparr>, ss_handshakeTick := now\<rparr>)"

definition OnConnectACK :: "'n system \<Rightarrow> 'n delegate \<Rightarrow> session_packet \<Rightarrow> 'n session \<Rightarrow> 'n session option" where
  "OnConnectACK sys up packet s =
     (let h = pkt_header packet; c = ss_conn s in
      if cn_connectionId c \<noteq> hdr_dstConnectionId h then Some s
      else if cn_connectionState c \<noteq> Connecting \<or> tp_timedOut (cn_tp c) \<or> lk_detached (cn_link c) \<or>
        IHS_SessionTransportState c \<noteq> TransportConnecting then Some s
      else if buf_size (pkt_body packet) \<noteq> 4 then Some s
      else do {
        let s = s\<lparr>ss_conn := c\<lparr>cn_hostConnectionId := hdr_srcConnectionId h, cn_link := (cn_link c)\<lparr>lk_crcRequired := hdr_hasCrc h\<rparr>\<rparr>\<rparr>;
        body \<leftarrow> body_bytes (pkt_body packet);
        echo \<leftarrow> IHS_ReadUInt32LE body;
        s \<leftarrow> clock_feedback sys echo h s;
        (_, s) \<leftarrow> up (Handshake (cn_testMode (ss_conn s))) s;
        case read_timestamp sys s of (now, s) \<Rightarrow> Some (IHS_SessionNetworkTestConnected now s)
      })"

definition OnDiscoveryReceived ::
    "'n system \<Rightarrow> 'n delegate \<Rightarrow> channel \<Rightarrow> session_packet \<Rightarrow> 'n session \<Rightarrow> (session_packet \<times> 'n session) option" where
  "OnDiscoveryReceived sys up c packet s =
     (let t = hdr_type (pkt_header packet) in
      if t = IHS_SessionPacketTypeConnectACK then map_option (\<lambda>s. (packet, s)) (OnConnectACK sys up packet s)
      else if t = IHS_SessionPacketTypeUnconnected
      then map_option (\<lambda>(b, s). (packet\<lparr>pkt_body := b\<rparr>, s)) (up (ChannelPacket c packet) s)
      else if t = IHS_SessionPacketTypeDisconnect
      then map_option (\<lambda>k. (packet, s\<lparr>ss_conn := k\<rparr>)) (IHS_SessionTransportDisconnect (sy_pf sys) (ss_conn s))
      else Some (packet, s))"

definition IHS_SessionChannelReceivedPacket ::
    "'n system \<Rightarrow> 'n delegate \<Rightarrow> channel \<Rightarrow> session_packet \<Rightarrow> 'n session \<Rightarrow> (session_packet \<times> 'n session) option" where
  "IHS_SessionChannelReceivedPacket sys up c packet s =
     (if chn_type c = TypeDiscovery then OnDiscoveryReceived sys up c packet s
      else map_option (\<lambda>(b, s). (packet\<lparr>pkt_body := b\<rparr>, s)) (up (ChannelPacket c packet) s))"

section \<open>A datagram\<close>

definition IHS_IPAddressCompare :: "ip_address \<Rightarrow> ip_address \<Rightarrow> bool" where
  "IHS_IPAddressCompare a b = (case (a, b) of (IPv4 x, IPv4 y) \<Rightarrow> x \<noteq> y | (IPv6 x, IPv6 y) \<Rightarrow> x \<noteq> y | _ \<Rightarrow> True)"

definition recv_foreign :: "socket_address \<Rightarrow> packet_header \<Rightarrow> 'n session \<Rightarrow> bool" where
  "recv_foreign address h s =
     (let t = hdr_type h; c = ss_conn s in
      (t \<noteq> IHS_SessionPacketTypeUnconnected \<and> tp_addressCleared (cn_tp c)) \<or>
      IHS_IPAddressCompare (sa_ip address) (sa_ip (ss_address s)) \<or>
      sa_port address \<noteq> sa_port (ss_address s) \<or>
      (t \<noteq> IHS_SessionPacketTypeUnconnected \<and> t \<noteq> IHS_SessionPacketTypeConnect \<and>
         hdr_dstConnectionId h \<noteq> cn_connectionId c) \<or>
      (t = IHS_SessionPacketTypeUnconnected \<and> hdr_channelId h \<noteq> IHS_SessionChannelIdDiscovery) \<or>
      (t \<noteq> IHS_SessionPacketTypeUnconnected \<and> t \<noteq> IHS_SessionPacketTypeConnectACK \<and>
         (t \<noteq> IHS_SessionPacketTypeConnect \<or> cn_hostConnectionId c \<noteq> 0) \<and>
         hdr_srcConnectionId h \<noteq> cn_hostConnectionId c))"

definition recv_special :: "u32 \<Rightarrow> bool" where
  "recv_special t \<longleftrightarrow> t = IHS_SessionPacketTypeUnconnected \<or> t = IHS_SessionPacketTypeConnect \<or>
     t = IHS_SessionPacketTypeConnectACK \<or> t = IHS_SessionPacketTypeDisconnect"

definition recv_refused :: "packet_header \<Rightarrow> 'n session \<Rightarrow> bool" where
  "recv_refused h s \<longleftrightarrow>
     (\<not> recv_special (hdr_type h) \<and>
        (hdr_channelId h \<ge> 32 \<or> lk_crcRequired (cn_link (ss_conn s)) \<and> \<not> hdr_hasCrc h)) \<or>
     tp_timedOut (cn_tp (ss_conn s))"

definition shaken :: "'n session \<Rightarrow> bool" where
  "shaken s \<longleftrightarrow> state_number Handshaking \<le> state_number (cn_connectionState (ss_conn s))"

text \<open>The packet counts as a sign of life, and opens its channel.\<close>

definition recv_account :: "'n system \<Rightarrow> session_packet \<Rightarrow> 'n session \<Rightarrow> 'n session" where
  "recv_account sys packet s =
     (let h = pkt_header packet; t = hdr_type h;
          s = (if t \<noteq> IHS_SessionPacketTypeUnconnected then
                 let s = s\<lparr>ss_conn := (ss_conn s)\<lparr>cn_tp := (cn_tp (ss_conn s))\<lparr>tp_lastReceive := hdr_receiveTimestamp h\<rparr>\<rparr>\<rparr> in
                 case may_alloc sys s of (a1, s) \<Rightarrow> case may_alloc sys s of (a2, s) \<Rightarrow>
                   set_network (IHS_SessionRecordNetworkReceived a1 a2 (lk_network (cn_link (ss_conn s))) (hdr_receiveTimestamp h)
                     (of_nat (IHS_PACKET_HEADER_SIZE + buf_size (pkt_body packet)))) s
               else s) in
      if \<not> recv_special t \<and> shaken s then session_register sys (unat (hdr_channelId h)) s else s)"

definition recv_unreliable_nack :: "'n system \<Rightarrow> session_packet \<Rightarrow> 'n session \<Rightarrow> 'n session option" where
  "recv_unreliable_nack sys packet s =
     (if shaken s then case read_timestamp sys s of (now, s) \<Rightarrow> do {
        o' \<leftarrow> IHS_OutgoingNack (ss_outgoing s) packet now (IHS_StreamClockNackAgeTicks (sy_nackMs sys (cn_clock (ss_conn s))));
        Some (set_outgoing o' s)
      } else Some s)"

definition recv_ack :: "'n system \<Rightarrow> session_packet \<Rightarrow> 'n session \<Rightarrow> 'n session option" where
  "recv_ack sys packet s = do {
     body \<leftarrow> body_bytes (pkt_body packet);
     echo \<leftarrow> IHS_ReadUInt32LE body;
     s \<leftarrow> clock_feedback sys echo (pkt_header packet) s;
     case IHS_TimerNow sys s of (nowMs, s) \<Rightarrow>
       Some (s\<lparr>ss_retransmission := snd (IHS_RetransmissionAcknowledgeThrough (ss_retransmission s)
         (hdr_channelId (pkt_header packet)) (hdr_packetId (pkt_header packet) + 1) nowMs)\<rparr>)
   }"

definition recv_disconnect :: "'n system \<Rightarrow> 'n session \<Rightarrow> 'n session option" where
  "recv_disconnect sys s =
     (if IHS_SessionTransportState (ss_conn s) = TransportConnected
      then map_option (\<lambda>c. s\<lparr>ss_hostRequestedStop := True, ss_conn := c\<rparr>) (IHS_SessionTransportDisconnect (sy_pf sys) (ss_conn s))
      else Some s)"

definition recv_channel ::
    "'n system \<Rightarrow> 'n delegate \<Rightarrow> session_packet \<Rightarrow> 'n session \<Rightarrow> (session_packet \<times> 'n session) option" where
  "recv_channel sys up packet s = do {
     let t = hdr_type (pkt_header packet);
     c \<leftarrow> IHS_SessionChannelFor s (hdr_channelId (pkt_header packet));
     if hdr_channelId (pkt_header packet) \<ge> IHS_SessionChannelIdDataStart \<and>
        (t = IHS_SessionPacketTypeUnreliable \<or> t = IHS_SessionPacketTypeUnreliableFrag \<or> t = IHS_SessionPacketTypeUnreliableFEC)
     then IHS_SessionUnreliableReceived sys up packet s
     else case c of None \<Rightarrow> Some (packet, s)
       | Some c \<Rightarrow> IHS_SessionChannelReceivedPacket sys up c packet s
   }"

definition recv_dispatch ::
    "'n system \<Rightarrow> 'n delegate \<Rightarrow> session_packet \<Rightarrow> 'n session \<Rightarrow> (session_packet \<times> 'n session) option" where
  "recv_dispatch sys up packet s =
     (let t = hdr_type (pkt_header packet) in
      if t \<ge> 12 then Some (packet, s)
      else if t = IHS_SessionPacketTypeConnectACK then do {
        assert_that (0 < length (ss_channels s));
        c \<leftarrow> ss_channels s ! 0;
        IHS_SessionChannelReceivedPacket sys up c packet s
      }
      else if t = IHS_SessionPacketTypeUnreliableNack then map_option (\<lambda>s. (packet, s)) (recv_unreliable_nack sys packet s)
      else if t = IHS_SessionPacketTypeACK \<and> buf_size (pkt_body packet) < 4 then Some (packet, s)
      else if t = IHS_SessionPacketTypeDisconnect then map_option (\<lambda>s. (packet, s)) (recv_disconnect sys s)
      else do {
        s \<leftarrow> (if t = IHS_SessionPacketTypeACK then recv_ack sys packet s else Some s);
        if t = IHS_SessionPacketTypeReliable \<or> t = IHS_SessionPacketTypeReliableFrag \<or> t = IHS_SessionPacketTypeNACK
        then IHS_SessionReliableReceived sys packet s
        else recv_channel sys up packet s
      })"

definition SessionRecvAt ::
    "'n system \<Rightarrow> 'n delegate \<Rightarrow> socket_address \<Rightarrow> ihs_buffer \<Rightarrow> u32 \<Rightarrow> 'n session \<Rightarrow> 'n session option" where
  "SessionRecvAt sys up address data received s =
     (if lk_detached (cn_link (ss_conn s)) then Some s
      else do {
        (ret, packet, _) \<leftarrow> IHS_SessionPacketParse data;
        if ret \<noteq> ResultOK then Some s
        else if recv_foreign address (pkt_header packet) s then do { IHS_SessionPacketClear packet True; Some s }
        else do {
          let packet = packet\<lparr>pkt_header := (pkt_header packet)\<lparr>hdr_receiveTimestamp := received, hdr_receiveBegin := received\<rparr>\<rparr>;
          if recv_refused (pkt_header packet) s then do { IHS_SessionPacketClear packet True; Some s }
          else do {
            (packet, s) \<leftarrow> recv_dispatch sys up packet (recv_account sys packet s);
            IHS_SessionPacketClear packet True;
            Some s
          }
        }
      })"

definition SessionRecvCallback ::
    "'n system \<Rightarrow> 'n delegate \<Rightarrow> socket_address \<Rightarrow> ihs_buffer \<Rightarrow> 'n session \<Rightarrow> 'n session option" where
  "SessionRecvCallback sys up address data s =
     (case read_timestamp sys s of (t, s) \<Rightarrow> SessionRecvAt sys up address data t s)"

section \<open>The network update\<close>

fun network_channels :: "'n system \<Rightarrow> 'n delegate \<Rightarrow> u32 \<Rightarrow> nat list \<Rightarrow> 'n session \<Rightarrow> 'n session option" where
  "network_channels sys up tick [] s = Some s"
| "network_channels sys up tick (ch # chs) s =
     (if cn_interrupted (ss_conn s) \<or> lk_detached (cn_link (ss_conn s)) then Some s
      else do {
        s \<leftarrow> IHS_SessionReliableUpdateChannelAt sys up ch tick s;
        s \<leftarrow> IHS_SessionUnreliableUpdateAt sys up ch tick s;
        s \<leftarrow> IHS_OutgoingUpdateChannel sys ch tick s;
        network_channels sys up tick chs s
      })"

definition IHS_SessionNetworkUpdateAt :: "'n system \<Rightarrow> 'n delegate \<Rightarrow> u32 \<Rightarrow> 'n session \<Rightarrow> 'n session option" where
  "IHS_SessionNetworkUpdateAt sys up tick s = do {
     (n, order, rotation, o') \<leftarrow> IHS_OutgoingSnapshot (ss_outgoing s);
     s \<leftarrow> network_channels sys up tick order (set_outgoing o' s);
     IHS_OutgoingRetryPass sys order n rotation s
   }"

end
