(* ===== verification/Schedule_Props.thy ===== *)
theory Schedule_Props
  imports Schedule Outgoing_Props Transport_Props
begin

text \<open>
  Properties of the schedule: the snapshot lists every registered channel once, by priority; the
  retry pass visits every channel once from a rotating position; and a whole update, over any
  network, ends without a failing assertion and keeps the invariants of the windows, of the
  registry and of the retransmission store.
\<close>

section \<open>Sending keeps the registry\<close>

definition same_registry :: "outgoing \<Rightarrow> outgoing \<Rightarrow> bool" where
  "same_registry a b \<longleftrightarrow> out_count a = out_count b \<and> out_order a = out_order b \<and> out_creation a = out_creation b \<and>
     out_active a = out_active b \<and> out_priority a = out_priority b \<and> out_rotation a = out_rotation b \<and>
     out_dirty a = out_dirty b"

lemma same_registry_refl [simp]: "same_registry a a"
  by (simp add: same_registry_def)

lemma same_registry_trans: "same_registry a b \<Longrightarrow> same_registry b c \<Longrightarrow> same_registry a c"
  by (simp add: same_registry_def)

lemma same_registry_set_window [simp]: "same_registry a (set_window ch w b) \<longleftrightarrow> same_registry a b"
  by (simp add: same_registry_def set_window_def)

lemma same_registryD: "same_registry a b \<Longrightarrow> registry a \<Longrightarrow> registry b"
  using registry_cong[of a b] by (simp add: same_registry_def)

text \<open>A network that also leaves the registry alone.\<close>

locale steady_transmitter = transmitter +
  assumes send_registry: "ok p \<Longrightarrow> send p o1 c = Some (result, p', o2, d) \<Longrightarrow> same_registry o1 o2"
begin

definition sends_on :: "outgoing \<Rightarrow> (nat \<times> outgoing \<times> 'a) option \<Rightarrow> bool" where
  "sends_on o1 r \<longleftrightarrow> (\<exists>result o2 d. r = Some (result, o2, d) \<and> out_wf ok o2 \<and> same_registry o1 o2)"

lemma sends_on_result: "out_wf ok o1 \<Longrightarrow> sends_on o1 (Some (result, o1, c))"
  by (simp add: sends_on_def)

lemma sends_on_bind:
  assumes "sends_on o1 r" "\<And>result o2 d. out_wf ok o2 \<Longrightarrow> sends_on o2 (f (result, o2, d))"
  shows "sends_on o1 (Option.bind r f)"
proof -
  obtain result o2 d where r: "r = Some (result, o2, d)" "out_wf ok o2" "same_registry o1 o2"
    using assms(1) by (auto simp: sends_on_def)
  then show ?thesis using assms(2)[OF r(2)] same_registry_trans by (fastforce simp: sends_on_def)
qed

lemma sends_on_window: "sends_on (set_window ch w o1) r \<longleftrightarrow> sends_on o1 r"
  by (simp add: sends_on_def same_registry_def set_window_def)

lemma attempt_safe:
  assumes wf: "out_wf ok o1" and ch: "ch < 32" and p: "ow_get (out_unreliable o1 ! ch) i = Some p"
  shows "sends_on o1 (attempt_packet send ch i p o1 c)"
proof -
  obtain result o2 d where r: "attempt_packet (recording send) ch i p o1 (c, []) = Some (result, o2, d, [p])" "out_wf ok o2"
    using attempt_spec[OF wf ch p, of c "[]"] by auto
  have okp: "ok p" using out_wf_window[OF wf ch] p by blast
  obtain result1 p1 o3 d1 where s: "send p o1 c = Some (result1, p1, o3, d1)" using send_total[OF okp] by blast
  have "same_registry o1 o3" by (rule send_registry[OF okp s])
  then show ?thesis using r s by (auto simp: attempt_packet_def recording_def sends_on_def put_slot_def Let_def)
qed

lemma send_new_safe:
  assumes "out_wf ok o1" "ch < 32"
  shows "sends_on o1 (send_new send ch n o1 c)"
  using assms
proof (induction n arbitrary: o1 c)
  case 0
  then show ?case by (simp add: sends_on_def)
next
  case (Suc n)
  let ?w = "out_unreliable o1 ! ch"
  have step: "sends_on o1 (case ow_get ?w (ow_cursor ?w) of None \<Rightarrow> Some (0, o1, c)
      | Some p \<Rightarrow> attempt_packet send ch (ow_cursor ?w) p o1 c)"
    using attempt_safe[OF Suc.prems] Suc.prems(1) by (simp add: sends_on_result split: option.splits)
  have rest: "sends_on o2 (send_new send ch n (set_window ch (w\<lparr>ow_cursor := ow_cursor w + 1\<rparr>) o2) d)"
    if "out_wf ok o2" "w = out_unreliable o2 ! ch" for o2 d w
  proof -
    have "ow_get (w\<lparr>ow_cursor := ow_cursor w + 1\<rparr>) = ow_get w" by (simp add: fun_eq_iff)
    moreover have "ow_inv (w\<lparr>ow_cursor := ow_cursor w + 1\<rparr>)"
      using out_wf_window[OF that(1) Suc.prems(2)] that(2) by (auto simp: ow_inv_def ow_wf_def)
    ultimately have "out_wf ok (set_window ch (w\<lparr>ow_cursor := ow_cursor w + 1\<rparr>) o2)"
      using out_wf_set_window[OF that(1)] out_wf_window[OF that(1) Suc.prems(2)] that(2) by metis
    from Suc.IH[OF this Suc.prems(2)] show ?thesis by (simp add: sends_on_window)
  qed
  show ?case by (simp add: Let_def) (rule sends_on_bind[OF step], use rest sends_on_result in \<open>auto simp: Let_def\<close>)
qed

lemma send_marked_safe:
  assumes "out_wf ok o1" "ch < 32"
  shows "sends_on o1 (send_marked send ch i n o1 c)"
  using assms
proof (induction n arbitrary: i o1 c)
  case 0
  then show ?case by (simp add: sends_on_def)
next
  case (Suc n)
  have step: "sends_on o1 (case ow_get (out_unreliable o1 ! ch) i of None \<Rightarrow> Some (0, o1, c)
      | Some p \<Rightarrow> if hdr_sendTimestamp (pkt_header p) = 0 then attempt_packet send ch i p o1 c else Some (0, o1, c))"
    using attempt_safe[OF Suc.prems] Suc.prems(1) by (simp add: sends_on_result split: option.splits)
  show ?case by simp (rule sends_on_bind[OF step], use Suc.IH[OF _ Suc.prems(2)] sends_on_result in auto)
qed

lemma SendUnreliable_safe:
  assumes wf: "out_wf ok o1"
  shows "sends_on o1 (IHS_OutgoingSendUnreliable send o1 ch retry now ms c)"
proof (cases "ch < 32")
  case True
  let ?w0 = "out_unreliable o1 ! ch"
  have inv: "ow_inv ?w0" "\<And>i p. ow_get ?w0 i = Some p \<Longrightarrow> ok p" using out_wf_window[OF wf True] by auto
  then have wf0: "ow_wf ?w0" by (simp add: ow_inv_def)
  obtain w k where w: "expire (ow_span ?w0) (keep_ticks ms) now ?w0 = Some w" "ow_wf w" "head_frame ?w0 w"
    "k \<le> ow_span ?w0" "ow_head w = ow_head ?w0 + of_nat k"
    "ow_get w = (\<lambda>i. if unat (i - ow_head ?w0) < k then None else ow_get ?w0 i)"
    using expire_spec[OF wf0 order_refl, of "keep_ticks ms" now] by (elim exE conjE)
  define w1 where "w1 = (if ow_cursor w - ow_head w > ow_tail w - ow_head w then w\<lparr>ow_cursor := ow_head w\<rparr> else w)"
  have "ow_inv w1" using w(2,4,5) inv(1) head_frame_fields[OF w(3)] by (auto simp: ow_inv_def w1_def)
  moreover have "ok p" if "ow_get w1 i = Some p" for i p
    using that inv(2) w(6) by (auto simp: w1_def split: if_splits)
  ultimately have wf1: "out_wf ok (set_window ch w1 o1)" using out_wf_set_window[OF wf] by blast
  have new: "sends_on o1 (send_new send ch n (set_window ch w1 o1) c)" for n
    using send_new_safe[OF wf1 True, of n c] by (simp add: sends_on_window)
  have "sends_on o1 (do { (result, o', c) \<leftarrow> send_new send ch (unat (ow_tail w1 - ow_cursor w1)) (set_window ch w1 o1) c;
      (result, o', c) \<leftarrow> (if result = 0 \<and> retry
        then send_marked send ch (ow_head w1) (unat (ow_cursor w1 - ow_head w1)) o' c else Some (result, o', c));
      Some (if result = 1 then 0 else result, o', c) })"
    by (rule sends_on_bind[OF new], simp only: prod.case, rule sends_on_bind)
      (use send_marked_safe[OF _ True] sends_on_result in auto)
  then show ?thesis
    unfolding IHS_OutgoingSendUnreliable_def Let_def w(1) Option.bind.simps w1_def[symmetric] using True by simp
next
  case False
  then show ?thesis using wf by (simp add: IHS_OutgoingSendUnreliable_def sends_on_result)
qed

end

lemma limiter_registry:
  "same_registry o1 (snd (IHS_OutgoingCanSend o1 t now))" "same_registry o1 (IHS_OutgoingSent (snd (IHS_OutgoingCanSend o1 t now)) t now n)"
  by (simp_all add: same_registry_def IHS_OutgoingCanSend_def IHS_OutgoingSent_def Let_def split: option.splits)

lemma SendPacketResult_registry:
  assumes ok: "link_ok p" and run: "IHS_SessionSendPacketResult pf p o1 c = Some (result, p', o2, d)"
  shows "same_registry o1 o2"
  using ok
proof (cases rule: send_result_cases[of p c pf o1])
  case (tried p1 o3 e st)
  then show ?thesis using run limiter_registry by (cases "st = SendOk") auto
qed (use run limiter_registry in auto)

interpretation steady_link: steady_transmitter "IHS_SessionSendPacketResult pf" link_ok for pf :: "'n platform"
  by unfold_locales (rule SendPacketResult_registry)

section \<open>Retransmitting over the session's network\<close>

text \<open>A sender that leaves the store alone and keeps \<open>Q\<close> on packets with \<open>P\<close>.\<close>

lemma process_loop_quiet:
  assumes send: "\<And>p r c. P p \<Longrightarrow> Q c \<Longrightarrow> \<exists>sent p' c'. send p r c = (sent, p', r, c') \<and> Q c'"
    and "rt_inv (map at_ref as) r" "rt_detached r = []"
    "\<forall>a \<in> set as. hdr_channelId (pkt_header (at_packet a)) < 256 \<and> P (at_packet a)" "Q c"
  shows "\<exists>n r' c'. process_loop send ticks nowMs as failed r c attempted = Some (n, r', c') \<and>
     retained r' = retained r \<and> rt_inv [] r' \<and> Q c'"
  using assms(2-5)
proof (induction as arbitrary: failed r c attempted)
  case Nil
  then show ?case by simp
next
  case (Cons a as)
  let ?i = "at_ref a" and ?ch = "hdr_channelId (pkt_header (at_packet a))"
  have mem: "?i \<in> set (map at_ref (a # as))" by simp
  obtain p where p: "node r ?i = Some p" "pnd_tracked p" using node_tracked[OF Cons.prems(1,2) mem] .
  have ch: "?ch < 256" "P (at_packet a)"
    and rest: "\<forall>a \<in> set as. hdr_channelId (pkt_header (at_packet a)) < 256 \<and> P (at_packet a)" using Cons.prems(3) by auto
  show ?case
  proof (cases "failed ?ch")
    case True
    have "rt_inv (map at_ref as) (release ?i r)" using release_inv Cons.prems(1) by simp
    moreover have "process_loop send ticks nowMs (a # as) failed r c attempted =
        process_loop send ticks nowMs as failed (release ?i r) c attempted"
      using p ch True by (simp add: Let_def)
    ultimately show ?thesis
      using Cons.IH[of "release ?i r" c failed attempted] retained_release[of ?i "map at_ref as" r] Cons.prems rest by simp
  next
    case False
    obtain sent packet c1 where s: "send (at_packet a) r c = (sent, packet, r, c1)" "Q c1"
      using send[OF ch(2) Cons.prems(4)] by blast
    define st where "st = (let st = rt_st r;
         st = (if pnd_initialSent p then st\<lparr>st_retries := st_retries st + 1\<rparr> else st) in
         if \<not> sent then st\<lparr>st_sendFailures := st_sendFailures st + 1\<rparr> else st)"
    define r2 where "r2 = set_node ?i (note_attempt a packet sent nowMs (RetryDelayMs (ticks c1))) (r\<lparr>rt_st := st\<rparr>)"
    have "rt_inv (map at_ref (a # as)) (r\<lparr>rt_st := st\<rparr>)"
      using rt_inv_stats[OF Cons.prems(1)] by (simp add: st_def Let_def)
    then have inv2: "rt_inv (?i # map at_ref as) r2"
      using set_node_inv[OF _ benign_note_attempt] by (simp add: r2_def)
    have r2: "rt_detached r2 = []" "retained r2 = retained r"
      using Cons.prems(2) retained_set_node[of ?i a packet sent nowMs _ "r\<lparr>rt_st := st\<rparr>"]
      by (simp_all add: r2_def retained_def) (simp add: set_node_def)
    have run: "process_loop send ticks nowMs (a # as) failed r c attempted =
        process_loop send ticks nowMs as (failed(?ch := \<not> sent)) (release ?i r2) c1 (Suc attempted)"
      using p ch False s(1) by (simp add: Let_def r2_def st_def)
    have det: "rt_detached (release ?i r2) = []" "retained (release ?i r2) = retained r"
      using retained_release[OF inv2 r2(1)] r2(2) by simp_all
    show ?thesis
      using Cons.IH[OF release_inv[OF inv2] det(1) rest s(2), of "failed(?ch := \<not> sent)" "Suc attempted"]
      unfolding run det(2) .
  qed
qed

lemma snapshot_clones:
  assumes "snapshot mem due ps = Some (as, qs)" "a \<in> set as"
  shows "\<exists>p \<in> set ps. \<exists>c n. PacketClone mem (pnd_packet p) = Some c \<and>
     at_packet a = c\<lparr>pkt_header := (pkt_header c)\<lparr>hdr_retransmitCount := n\<rparr>\<rparr>"
  using assms
proof (induction ps arbitrary: as qs)
  case (Cons p ps)
  show ?case
  proof (cases "due p")
    case True
    then obtain c as' qs' where run: "PacketClone mem (pnd_packet p) = Some c" "snapshot mem due ps = Some (as', qs')"
        "as = \<lparr>at_ref = pnd_ref p, at_packet = c\<lparr>pkt_header := (pkt_header c)
           \<lparr>hdr_retransmitCount := pnd_nextWireCount p\<rparr>\<rparr>, at_generation = pnd_feedbackGeneration p\<rparr> # as'"
      using Cons.prems by (auto simp: bind_eq_Some_conv)
    then show ?thesis using Cons.IH[OF run(2)] Cons.prems(2) by auto
  qed (use Cons in auto)
qed simp

lemma Process_quiet:
  assumes send: "\<And>p r c. P p \<Longrightarrow> Q c \<Longrightarrow> \<exists>sent p' c'. send p r c = (sent, p', r, c') \<and> Q c'"
    and inv: "rt_inv [] r" and live: "live_alloc mem" and q: "Q c"
    and clones: "\<And>p cl n. p \<in> set (rt_pending r) \<Longrightarrow> PacketClone mem (pnd_packet p) = Some cl \<Longrightarrow>
       P (cl\<lparr>pkt_header := (pkt_header cl)\<lparr>hdr_retransmitCount := n\<rparr>\<rparr>)"
  shows "\<exists>n r' c'. Process mem alloc send ticks r nowMs byTicks nowTicks channel c = Some (n, r', c') \<and>
     retained r' = retained r \<and> rt_inv [] r' \<and> Q c'"
proof -
  define due where "due = (\<lambda>p. PendingDue p nowMs byTicks nowTicks (case ticks c of None \<Rightarrow> 1638 | Some t \<Rightarrow> t) channel)"
  have nodes: "clone_ok (pnd_packet p)" "hdr_channelId (pkt_header (pnd_packet p)) < 256"
    if "p \<in> set (rt_pending r)" for p using inv that by (simp_all add: rt_inv_def node_ok_def)
  obtain as qs where snap: "snapshot mem due (rt_pending r) = Some (as, qs)"
    using snapshot_total[OF live, of "rt_pending r" due] nodes by auto
  have inv': "rt_inv (map at_ref (rev as)) (r\<lparr>rt_pending := qs\<rparr>)"
    using rev_inv[OF snapshot_inv[OF inv snap]] by (simp add: rev_map)
  have D: "rt_detached (r\<lparr>rt_pending := qs\<rparr>) = []" using rt_inv_no_leak[OF inv] by simp
  have as: "\<forall>a \<in> set (rev as). hdr_channelId (pkt_header (at_packet a)) < 256 \<and> P (at_packet a)"
    using snapshot_refs(3)[OF snap] nodes(2) snapshot_clones[OF snap] clones by (metis set_rev)
  have kept: "retained (r\<lparr>rt_pending := qs\<rparr>) = retained r"
    using snapshot_refs(1)[OF snap] by (simp add: retained_def ident_def)
  show ?thesis
    using process_loop_quiet[of P Q send, OF send inv' D as q, of ticks nowMs "\<lambda>_. False" 0] snap inv q kept
    by (auto simp: Process_def Let_def due_def[symmetric])
qed

section \<open>Updates are safe\<close>

text \<open>
  What the transmitting side of a session needs: allocation succeeds, the registry and the windows
  are well-formed, the store keeps its invariant and every packet in it fits a datagram.
\<close>

definition tx_ok :: "'n system \<Rightarrow> 'n session \<Rightarrow> bool" where
  "tx_ok sys s \<longleftrightarrow> live_alloc (ss_mem sys) \<and> registry (ss_outgoing s) \<and> out_wf link_ok (ss_outgoing s) \<and>
     rt_inv [] (ss_retransmission s) \<and> (\<forall>b \<in> snd ` set (retained (ss_retransmission s)). 13 + buf_size b + 4 < 2048)"

definition tx_step :: "'n system \<Rightarrow> 'n session \<Rightarrow> 'n session \<Rightarrow> bool" where
  "tx_step sys s s' \<longleftrightarrow> tx_ok sys s' \<and> same_registry (ss_outgoing s) (ss_outgoing s') \<and>
     retained (ss_retransmission s') = retained (ss_retransmission s)"

lemma tx_step_refl: "tx_ok sys s \<Longrightarrow> tx_step sys s s"
  by (simp add: tx_step_def)

lemma tx_step_trans: "tx_step sys s t \<Longrightarrow> tx_step sys t u \<Longrightarrow> tx_step sys s u"
  using same_registry_trans by (auto simp: tx_step_def)

lemma tx_step_ok: "tx_step sys s t \<Longrightarrow> tx_ok sys t"
  by (simp add: tx_step_def)

lemma tx_ok_env [simp]: "tx_ok sys (set_env n s) \<longleftrightarrow> tx_ok sys s" "ss_outgoing (set_env n s) = ss_outgoing s"
  "ss_retransmission (set_env n s) = ss_retransmission s"
  by (simp_all add: tx_ok_def set_env_def)

lemma clone_link_ok:
  assumes "live_alloc mem" "clone_ok p" "13 + buf_size (pkt_body p) + 4 < 2048" "PacketClone mem p = Some c"
  shows "link_ok (c\<lparr>pkt_header := (pkt_header c)\<lparr>hdr_retransmitCount := n\<rparr>\<rparr>)"
proof -
  have "clone_ok c \<and> pkt_header c = pkt_header p \<and> buf_offset (pkt_body c) = 13 \<and>
      buf_suffix (pkt_body c) = (if hdr_hasCrc (pkt_header p) then 4 else 0) \<and>
      buf_size (pkt_body c) = buf_size (pkt_body p) \<and> 2048 \<le> buf_capacity (pkt_body c)"
    using PacketClone_ok[OF assms(1,2)] assms(4) by (metis option.inject)
  then have "link_ok c" using assms(3) by (auto simp: link_ok_def sendable_def clone_ok_def)
  then show ?thesis by (simp add: link_ok_header)
qed

lemma send_reliable_ok:
  assumes "link_ok p" "out_wf link_ok (cn_outgoing c)"
  shows "\<exists>sent p' c'. send_reliable pf p r (Some c) = (sent, p', r, Some c') \<and> out_wf link_ok (cn_outgoing c') \<and>
     same_registry (cn_outgoing c) (cn_outgoing c')"
proof -
  obtain result p' o2 d where s: "IHS_SessionSendPacketResult pf p (cn_outgoing c) (cn_link c) = Some (result, p', o2, d)"
    using link_tx.send_total[OF assms(1)] by blast
  have "out_wf link_ok o2" using assms(2) link_tx.send_windows[OF assms(1) s] by (simp add: out_wf_def)
  then show ?thesis using s SendPacketResult_registry[OF assms(1) s] by (simp add: send_reliable_def IHS_SessionSendPacket_def)
qed

lemma process_channel_safe:
  fixes sys :: "'n system"
  assumes ok0: "tx_ok sys s0"
  shows "\<exists>s'. process_channel sys ch nowMs tick s0 = Some s' \<and> tx_step sys s0 s'"
proof -
  obtain alloc n0 where al: "sy_alloc sys (ss_env s0) = (alloc, n0)" by fastforce
  define s where "s = set_env n0 s0"
  have ok: "tx_ok sys s" and same: "tx_step sys s t \<longleftrightarrow> tx_step sys s0 t" for t using ok0 by (simp_all add: s_def tx_step_def)
  let ?o = "ss_outgoing s" and ?r = "ss_retransmission s"
  let ?Q = "\<lambda>c. \<exists>c'. c = Some c' \<and> out_wf link_ok (cn_outgoing c') \<and> same_registry ?o (cn_outgoing c')"
  have send: "\<exists>sent p' c'. send_reliable (sy_pf sys) p r c = (sent, p', r, c') \<and> ?Q c'"
    if p: "link_ok p" and c: "?Q c" for p r and c :: "'n conn option"
  proof -
    obtain c1 where c1: "c = Some c1" "out_wf link_ok (cn_outgoing c1)" "same_registry ?o (cn_outgoing c1)" using c by blast
    show ?thesis using send_reliable_ok[OF p c1(2), of "sy_pf sys" r] c1(1,3) same_registry_trans by blast
  qed
  have clones: "link_ok (cl\<lparr>pkt_header := (pkt_header cl)\<lparr>hdr_retransmitCount := n\<rparr>\<rparr>)"
    if "p \<in> set (rt_pending ?r)" "PacketClone (ss_mem sys) (pnd_packet p) = Some cl" for p cl n
  proof -
    have "clone_ok (pnd_packet p)" "13 + buf_size (pkt_body (pnd_packet p)) + 4 < 2048"
      using ok that(1) by (auto simp: tx_ok_def rt_inv_def node_ok_def retained_def)
    then show ?thesis using clone_link_ok[OF _ _ _ that(2)] ok by (simp add: tx_ok_def)
  qed
  have q: "?Q (Some (ss_conn s))" using ok by (simp add: tx_ok_def)
  have inv: "rt_inv [] ?r" and live: "live_alloc (ss_mem sys)" using ok by (simp_all add: tx_ok_def)
  have "\<exists>n r' c'. Process (ss_mem sys) alloc (send_reliable (sy_pf sys))
      (map_option (\<lambda>c. IHS_StreamClockRetryTicks (cn_clock c))) ?r nowMs True tick (uint (of_nat ch :: u8)) (Some (ss_conn s)) =
      Some (n, r', c') \<and> retained r' = retained ?r \<and> rt_inv [] r' \<and> ?Q c'"
    by (rule Process_quiet[where P = link_ok and Q = ?Q, OF _ inv live q], erule (1) send, erule (1) clones)
  then obtain n r' c' where run: "Process (ss_mem sys) alloc (send_reliable (sy_pf sys))
      (map_option (\<lambda>c. IHS_StreamClockRetryTicks (cn_clock c))) ?r nowMs True tick (uint (of_nat ch :: u8)) (Some (ss_conn s)) =
      Some (n, r', c')" "retained r' = retained ?r" "rt_inv [] r'" "?Q c'" by blast
  obtain c1 where c1: "c' = Some c1" "out_wf link_ok (cn_outgoing c1)" "same_registry ?o (cn_outgoing c1)" using run(4) by blast
  have "tx_step sys s (s\<lparr>ss_retransmission := r', ss_conn := c1\<rparr>)"
    using ok run(2,3) c1(2,3) same_registryD[OF c1(3)] by (simp add: tx_step_def tx_ok_def)
  then show ?thesis using run(1) c1(1) al
    by (simp add: process_channel_def IHS_RetransmissionProcessChannel_def may_alloc_def same flip: s_def)
qed

lemma send_unreliable_safe:
  assumes ok: "tx_ok sys s"
  shows "\<exists>result s'. send_unreliable sys ch retry s = Some (result, s') \<and> tx_step sys s s'"
proof (cases "ch < 32")
  case True
  obtain now n where now: "pf_now (sy_pf sys) (ss_env s) = (now, n)" by fastforce
  let ?s = "set_env n s"
  have wf: "out_wf link_ok (ss_outgoing ?s)" using ok by (simp add: tx_ok_def)
  obtain result o2 d where r: "IHS_OutgoingSendUnreliable (IHS_SessionSendPacketResult (sy_pf sys)) (ss_outgoing ?s) ch retry
      now (sy_keepMs sys (cn_clock (ss_conn ?s))) (cn_link (ss_conn ?s)) = Some (result, o2, d)" "out_wf link_ok o2"
      "same_registry (ss_outgoing ?s) o2"
    using steady_link.SendUnreliable_safe[OF wf, of "sy_pf sys" ch retry now "sy_keepMs sys (cn_clock (ss_conn ?s))" "cn_link (ss_conn ?s)"]
    unfolding steady_link.sends_on_def by blast
  have "tx_step sys s (?s\<lparr>ss_conn := (ss_conn ?s)\<lparr>cn_outgoing := o2, cn_link := d\<rparr>\<rparr>)"
    using ok r(2,3) same_registryD[OF r(3)] by (simp add: tx_step_def tx_ok_def)
  then show ?thesis using r(1) True now by (simp add: send_unreliable_def read_timestamp_def)
next
  case False
  then show ?thesis using tx_step_refl[OF ok] by (simp add: send_unreliable_def)
qed

lemma UpdateChannel_safe:
  assumes ok: "tx_ok sys s"
  shows "\<exists>s'. IHS_OutgoingUpdateChannel sys ch tick s = Some s' \<and> tx_step sys s s'"
proof (cases "conn_connected (ss_conn s)")
  case True
  obtain nowMs n where now: "sy_timer sys (ss_env s) = (nowMs, n)" by fastforce
  have ok0: "tx_ok sys (set_env n s)" using ok by simp
  obtain s1 where s1: "process_channel sys ch nowMs tick (set_env n s) = Some s1" "tx_step sys (set_env n s) s1"
    using process_channel_safe[OF ok0] by blast
  obtain result s2 where s2: "send_unreliable sys ch False s1 = Some (result, s2)" "tx_step sys s1 s2"
    using send_unreliable_safe[OF tx_step_ok[OF s1(2)]] by blast
  have "tx_step sys s s2" using tx_step_trans[OF s1(2) s2(2)] by (simp add: tx_step_def)
  then show ?thesis using True now s1(1) s2(1) by (simp add: IHS_OutgoingUpdateChannel_def IHS_TimerNow_def)
next
  case False
  then show ?thesis using tx_step_refl[OF ok] by (simp add: IHS_OutgoingUpdateChannel_def)
qed

lemma update_channels_safe:
  assumes "tx_ok sys s"
  shows "\<exists>s'. update_channels sys chs tick s = Some s' \<and> tx_step sys s s'"
  using assms
proof (induction chs arbitrary: s)
  case (Cons ch chs)
  obtain s1 where s1: "IHS_OutgoingUpdateChannel sys ch tick s = Some s1" "tx_step sys s s1"
    using UpdateChannel_safe[OF Cons.prems] by blast
  then show ?case using Cons.IH[OF tx_step_ok[OF s1(2)]] tx_step_trans by fastforce
qed (simp add: tx_step_refl)

lemma send_all_safe:
  assumes "tx_ok sys s"
  shows "\<exists>s'. send_all sys chs s = Some s' \<and> tx_step sys s s'"
  using assms
proof (induction chs arbitrary: s)
  case (Cons ch chs)
  obtain result s1 where s1: "send_unreliable sys ch True s = Some (result, s1)" "tx_step sys s s1"
    using send_unreliable_safe[OF Cons.prems] by blast
  then show ?case using Cons.IH[OF tx_step_ok[OF s1(2)]] tx_step_trans by fastforce
qed (simp add: tx_step_refl)

lemma RetryPass_rotates:
  assumes "length order = n" "rotation \<le> n" "conn_connected (ss_conn s)"
  shows "IHS_OutgoingRetryPass sys order n rotation s =
     map_option (\<lambda>s. set_outgoing (rotate_on n (ss_outgoing s)) s) (send_all sys (rotate rotation order) s)"
  using retry_loop_rotate[of rotation order sys s] assms
  by (cases "send_all sys (rotate rotation order) s") (auto simp: IHS_OutgoingRetryPass_def)

text \<open>C34: A whole update of a connected session, over any network, ends without a failing assertion.  It
  first serves every registered channel once, in descending priority, and then, if the connection
  is still up, retries on every channel once, in the same order but starting at a position that
  moves on by one with each update.  Every packet that was kept for retransmission is still kept,
  and the invariants hold again.\<close>

theorem outgoing_update_schedule:
  fixes sys :: "'n system"
  assumes ok: "tx_ok sys s" and up: "conn_connected (ss_conn s)"
  shows "\<exists>order o2 s1 s'. mset order = mset [0..<out_count (ss_outgoing s)] \<and>
     sorted_wrt (\<lambda>x y. out_priority (ss_outgoing s) ! y \<le> out_priority (ss_outgoing s) ! x) order \<and>
     o2 = (ss_outgoing s)\<lparr>out_order := out_order o2, out_dirty := False\<rparr> \<and>
     update_channels sys order tick (set_outgoing o2 s) = Some s1 \<and>
     IHS_OutgoingUpdate sys tick s = Some s' \<and> tx_ok sys s' \<and>
     retained (ss_retransmission s') = retained (ss_retransmission s) \<and>
     (if conn_connected (ss_conn s1)
      then \<exists>s2. send_all sys (rotate (out_rotation (ss_outgoing s)) order) s1 = Some s2 \<and>
        s' = set_outgoing (rotate_on (length order) (ss_outgoing s2)) s2
      else s' = s1)"
proof -
  let ?o = "ss_outgoing s"
  have reg: "registry ?o" using ok by (simp add: tx_ok_def)
  obtain order o2 where o2: "IHS_OutgoingSnapshot ?o = Some (out_count ?o, order, out_rotation ?o, o2)"
    "mset order = mset [0..<out_count ?o]" "by_priority ?o order" "registry o2" "\<not> out_dirty o2"
    "o2 = ?o\<lparr>out_order := out_order o2, out_dirty := False\<rparr>" using Snapshot_spec[OF reg] by metis
  have len: "length order = out_count ?o" using o2(2) by (metis mset_eq_length length_upt diff_zero)
  have eq: "out_unreliable o2 = out_unreliable ?o" "out_count o2 = out_count ?o"
    by (subst o2(6), simp)+
  have ok2: "tx_ok sys (set_outgoing o2 s)" using ok o2(4) eq by (simp add: tx_ok_def set_outgoing_def out_wf_def)
  obtain s1 where s1: "update_channels sys order tick (set_outgoing o2 s) = Some s1" "tx_step sys (set_outgoing o2 s) s1"
    using update_channels_safe[OF ok2] by blast
  have run: "IHS_OutgoingUpdate sys tick s = IHS_OutgoingRetryPass sys order (out_count ?o) (out_rotation ?o) s1"
    using up o2(1) s1(1) by (simp add: IHS_OutgoingUpdate_def conn_connected_def)
  have kept1: "retained (ss_retransmission s1) = retained (ss_retransmission s)"
    using s1(2) by (simp add: tx_step_def set_outgoing_def)
  show ?thesis
  proof (cases "conn_connected (ss_conn s1)")
    case True
    obtain s2 where s2: "send_all sys (rotate (out_rotation ?o) order) s1 = Some s2" "tx_step sys s1 s2"
      using send_all_safe[OF tx_step_ok[OF s1(2)]] by blast
    have "out_rotation ?o \<le> out_count ?o" using reg by (simp add: registry_def)
    then have "IHS_OutgoingUpdate sys tick s = Some (set_outgoing (rotate_on (out_count ?o) (ss_outgoing s2)) s2)"
      using run RetryPass_rotates[OF len _ True, of "out_rotation ?o" sys] s2(1) by simp
    moreover have "tx_ok sys (set_outgoing (rotate_on (out_count ?o) (ss_outgoing s2)) s2)"
    proof -
      have t: "tx_step sys (set_outgoing o2 s) s2" by (rule tx_step_trans[OF s1(2) s2(2)])
      then have "out_count (ss_outgoing s2) = out_count ?o"
        using eq(2) by (simp add: tx_step_def same_registry_def set_outgoing_def)
      moreover have "out_unreliable (rotate_on n a) = out_unreliable a" for n a by (simp add: rotate_on_def Let_def)
      ultimately show ?thesis using tx_step_ok[OF t] rotate_on_registry[of "ss_outgoing s2" "out_count ?o"]
        by (simp add: tx_ok_def set_outgoing_def out_wf_def)
    qed
    moreover have "retained (ss_retransmission s2) = retained (ss_retransmission s)"
      using s2(2) kept1 by (simp add: tx_step_def)
    ultimately show ?thesis using o2(2,3,6) s1(1) s2(1) True len
      by (intro exI[of _ order] exI[of _ o2] exI[of _ s1]
          exI[of _ "set_outgoing (rotate_on (out_count ?o) (ss_outgoing s2)) s2"]) (simp add: set_outgoing_def)
  next
    case False
    then have "IHS_OutgoingUpdate sys tick s = Some s1" using run by (simp add: IHS_OutgoingRetryPass_def)
    then show ?thesis using o2(2,3,6) s1 False kept1 tx_step_ok[OF s1(2)]
      by (intro exI[of _ order] exI[of _ o2] exI[of _ s1]) simp
  qed
qed

definition demo_system :: "unit system" where
  "demo_system = \<lparr>sy_pf = quiet_platform, sy_timer = (\<lambda>n. (5, n)), sy_alloc = (\<lambda>n. (True, n)),
     sy_keepMs = (\<lambda>_. 2), sy_nackMs = (\<lambda>_. 1), sy_delayMs = (\<lambda>_. 1), sy_junk = replicate 510 0\<rparr>"

definition demo_out :: outgoing where
  "demo_out = set_window 3 example_window (fst (IHS_OutgoingRegister (IHS_OutgoingInit 0) 3))"

definition demo_session :: "unit session" where
  "demo_session = \<lparr>ss_conn = live_conn\<lparr>cn_outgoing := demo_out\<rparr>,
     ss_address = \<lparr>sa_ip = IPv4 [10, 0, 0, 2], sa_port = 27031\<rparr>,
     ss_channels = [Some \<lparr>chn_id = 0, chn_type = TypeDiscovery\<rparr>, Some \<lparr>chn_id = 1, chn_type = TypeControl\<rparr>,
       Some \<lparr>chn_id = 2, chn_type = TypeStats\<rparr>], ss_retransmission = IHS_RetransmissionInit,
     ss_reliable = replicate 32 zero_reliable, ss_unreliable = replicate 32 None, ss_sendQueue = [], ss_sendBatch = None,
     ss_pendingData = [], ss_pendingDataCount = 0, ss_mtu = 1024, ss_closeRequested = False, ss_hostRequestedStop = False,
     ss_worker = True, ss_registered = True, ss_testRunning = False, ss_handshakeTick = 0, ss_events = []\<rparr>"

lemma demo_tx_ok: "tx_ok demo_system demo_session"
proof -
  obtain o2 where o2: "IHS_OutgoingRegister (IHS_OutgoingInit 0) 3 = (o2, [out_count (IHS_OutgoingInit 0)..<out_count o2])" "registry o2"
    "out_unreliable o2 = out_unreliable (IHS_OutgoingInit 0)" using Register_spec[OF registry_init, of 0 3] by metis
  have "registry demo_out" using o2(1,2) same_registryD[of o2 "set_window 3 example_window o2"] by (simp add: demo_out_def)
  moreover have "out_unreliable demo_out = out_unreliable example_out"
    using o2(1,3) by (simp add: demo_out_def example_out_def set_window_def)
  then have "out_wf link_ok demo_out" using example_out_wf by (simp add: out_wf_def)
  ultimately show ?thesis using rt_inv_Init
    by (simp add: tx_ok_def demo_session_def demo_system_def quiet_platform_def retained_def IHS_RetransmissionInit_def)
qed

lemma demo_connected: "conn_connected (ss_conn demo_session)"
  by (simp add: demo_session_def conn_connected_def live_defs IHS_SessionTransportState_def)

lemma demo_count: "out_count (ss_outgoing demo_session) = 4"
proof -
  have "out_count (fst (IHS_OutgoingRegister (IHS_OutgoingInit 0) 3)) = 4" by code_simp
  then show ?thesis by (simp add: demo_session_def demo_out_def set_window_def)
qed

theorem outgoing_update_schedule_witness:
  "\<exists>order s'. mset order = mset [0..<4] \<and> IHS_OutgoingUpdate demo_system 9 demo_session = Some s' \<and> tx_ok demo_system s'"
proof -
  obtain order s' where "mset order = mset [0..<4]" "IHS_OutgoingUpdate demo_system 9 demo_session = Some s'" "tx_ok demo_system s'"
    using outgoing_update_schedule[OF demo_tx_ok demo_connected, of 9, unfolded demo_count] by (elim exE conjE)
  then show ?thesis by (intro exI conjI)
qed

section \<open>The registry over time\<close>

text \<open>Everything that happens to the outgoing state; the environment of a step is arbitrary.\<close>

inductive out_step :: "outgoing \<Rightarrow> outgoing \<Rightarrow> bool" where
  register: "out_step o' (fst (IHS_OutgoingRegister o' ch))"
| priority: "out_step o' (fst (IHS_OutgoingPriority o' ch priority))"
| next_id: "out_step o' (snd (IHS_OutgoingNextId o' ch reliable))"
| can_send: "out_step o' (snd (IHS_OutgoingCanSend o' t now))"
| sent: "out_step o' (IHS_OutgoingSent o' t stamp n)"
| window: "out_step o' (set_window ch w o')"
| snapshot: "IHS_OutgoingSnapshot o' = Some (n, order, rotation, o2) \<Longrightarrow> out_step o' o2"
| rotate: "n \<le> out_count o' \<Longrightarrow> out_step o' (rotate_on n o')"

lemma set_window_registry: "registry o' \<Longrightarrow> registry (set_window ch w o')"
  using same_registryD[of o' "set_window ch w o'"] by simp

lemma out_step_registry:
  assumes reg: "registry o'" and step: "out_step o' o2"
  shows "registry o2"
  using step
proof cases
  case (register ch)
  then show ?thesis using Register_spec[OF reg, of ch] by (metis fst_conv)
next
  case (snapshot n order rotation)
  then show ?thesis using Snapshot_spec[OF reg] by (metis option.inject prod.inject)
next
  case (next_id ch reliable)
  then have "same_registry o' o2" by (simp add: same_registry_def IHS_OutgoingNextId_def)
  then show ?thesis using same_registryD reg by blast
next
  case (sent t stamp n)
  then have "same_registry o' o2" by (simp add: same_registry_def IHS_OutgoingSent_def Let_def split: option.splits)
  then show ?thesis using same_registryD reg by blast
qed (use reg Priority_registry rotate_on_registry same_registryD[OF limiter_registry(1)] set_window_registry in auto)

interpretation out_sys: transition_system "\<lambda>o'. \<exists>now. o' = IHS_OutgoingInit now" out_step registry
  by unfold_locales (auto intro: registry_init out_step_registry)

text \<open>Whatever channels are opened, reprioritized and served, in whatever order, a snapshot lists the open
  channels, each exactly once, in descending order of their current priorities, and asking again
  at once gives the same list.  The open channels are those from 0 to below the count.\<close>

theorem snapshot_lists_open_channels:
  assumes "out_step\<^sup>*\<^sup>* (IHS_OutgoingInit now) o'"
  shows "\<exists>order o2. IHS_OutgoingSnapshot o' = Some (out_count o', order, out_rotation o', o2) \<and>
     set order = {ch. ch < 32 \<and> out_active o' ! ch} \<and> distinct order \<and>
     sorted_wrt (\<lambda>x y. out_priority o' ! y \<le> out_priority o' ! x) order \<and>
     IHS_OutgoingSnapshot o2 = Some (out_count o', order, out_rotation o', o2)"
proof -
  have reg: "registry o'" using out_sys.reachable_inv[OF _ assms] by blast
  obtain order o2 where o2: "IHS_OutgoingSnapshot o' = Some (out_count o', order, out_rotation o', o2)"
    "mset order = mset [0..<out_count o']" "by_priority o' order" "registry o2" "\<not> out_dirty o2"
    "o2 = o'\<lparr>out_order := out_order o2, out_dirty := False\<rparr>" "order = take (out_count o') (out_order o2)" using Snapshot_spec[OF reg] by metis
  have set: "set order = {ch. ch < 32 \<and> out_active o' ! ch}" "distinct order"
    using o2(2) mset_eq_setD[OF o2(2)] mset_eq_imp_distinct_iff[OF o2(2)] reg by (auto simp: registry_def)
  have "out_count o2 = out_count o'" "out_rotation o2 = out_rotation o'" by (subst o2(6), simp)+
  then have "IHS_OutgoingSnapshot o2 = Some (out_count o', order, out_rotation o', o2)"
    using o2(5,7) by (simp add: IHS_OutgoingSnapshot_def)
  then show ?thesis using o2(1,3) set by (intro exI conjI)
qed

theorem snapshot_lists_open_channels_witness:
  "\<exists>order o2. IHS_OutgoingSnapshot (fst (IHS_OutgoingPriority (IHS_OutgoingInit 0) 3 7)) = Some (4, order, 0, o2) \<and>
     distinct order \<and> 3 \<in> set order"
proof -
  let ?o = "fst (IHS_OutgoingPriority (IHS_OutgoingInit 0) 3 7)"
  have "out_step\<^sup>*\<^sup>* (IHS_OutgoingInit 0) ?o" by (rule r_into_rtranclp, rule out_step.priority)
  note run = snapshot_lists_open_channels[OF this]
  have "out_count ?o = 4" "out_rotation ?o = 0" "out_active ?o ! 3"
    by code_simp+
  then show ?thesis using run by auto
qed

end
