(* ===== verification/Send_Queue_Props.thy ===== *)
theory Send_Queue_Props
  imports Send_Queue Schedule_Props Window_Props
begin

text \<open>
  Admission of frames: a frame is queued whole or not at all, and the packets it is cut into are the
  ones from which a receiving window rebuilds it.
\<close>

section \<open>Giving up tracked packets\<close>

definition hident :: "packet_header \<Rightarrow> u32 \<times> u16 \<times> u16" where
  "hident h = (hdr_channelId h, hdr_packetId h, hdr_fragmentId h)"

lemma ident_header: "ident p = hident (pkt_header (pnd_packet p))"
  by (simp add: ident_def hident_def Let_def)

lemma identity_matches:
  "hdr_fragmentId h \<noteq> INT16_MIN \<Longrightarrow>
   PacketIdentityMatches h' (hdr_channelId h) (hdr_packetId h) (hdr_fragmentId h) \<longleftrightarrow> hident h' = hident h"
  by (auto simp: PacketIdentityMatches_def hident_def)

lemma unlink_first_distinct:
  assumes "distinct (map f ps)" "p \<in> set ps" "\<And>q. q \<in> set ps \<Longrightarrow> P q \<longleftrightarrow> q = p"
  shows "unlink_first P ps = Some (p, filter (\<lambda>q. f q \<noteq> f p) ps)"
  using assms
proof (induction ps)
  case (Cons a ps)
  show ?case
  proof (cases "a = p")
    case True
    have "f q \<noteq> f p" if q: "q \<in> set ps" for q using Cons.prems(1) True q by (auto simp: rev_image_eqI)
    then have "filter (\<lambda>q. f q \<noteq> f p) ps = ps" by simp
    then show ?thesis using True Cons.prems(3)[of a] by simp
  next
    case False
    then have p: "p \<in> set ps" using Cons.prems(2) by simp
    then have "f a \<noteq> f p" using Cons.prems(1) by (auto simp: rev_image_eqI)
    then show ?thesis using Cons.IH[OF _ p] Cons.prems False by simp
  qed
qed simp

lemma Cancel_pending:
  assumes inv: "rt_inv [] r" and p: "p \<in> set (rt_pending r)" "\<not> pnd_ready p" "\<not> pnd_initialSent p"
    and h: "ident p = hident h" "hdr_fragmentId h \<noteq> INT16_MIN"
  shows "rt_pending (IHS_RetransmissionCancelUnsent r h) = filter (\<lambda>q. ident q \<noteq> hident h) (rt_pending r)"
proof -
  let ?P = "\<lambda>p. \<not> pnd_ready p \<and> \<not> pnd_initialSent p \<and>
    PacketIdentityMatches (pkt_header (pnd_packet p)) (hdr_channelId h) (hdr_packetId h) (hdr_fragmentId h)"
  have d: "distinct (map ident (rt_pending r))" using inv by (simp add: rt_inv_def)
  have "?P q \<longleftrightarrow> q = p" if q: "q \<in> set (rt_pending r)" for q
  proof -
    have "q = p" if "ident q = ident p" using inj_onD[of ident, OF _ that q p(1)] d by (simp add: distinct_map)
    then show ?thesis using p(2,3) h(1) by (auto simp: identity_matches[OF h(2)] ident_header[symmetric])
  qed
  from unlink_first_distinct[OF d p(1) this] show ?thesis
    using h(1) by (simp add: IHS_RetransmissionCancelUnsent_def Let_def)
qed

section \<open>Staging a batch\<close>

text \<open>
  The state of a session whose batch holds \<open>qs\<close>, compared with the state \<open>s0\<close> before the batch: the
  send queue is the same, and the retransmission store has got the staged packets and nothing else.
\<close>

definition staged :: "'n session \<Rightarrow> queued_packet list \<Rightarrow> 'n session \<Rightarrow> bool" where
  "staged s0 qs s \<longleftrightarrow> ss_sendBatch s = Some qs \<and> ss_sendQueue s = ss_sendQueue s0 \<and> rt_inv [] (ss_retransmission s) \<and>
     (\<exists>new. rt_pending (ss_retransmission s) = new @ rt_pending (ss_retransmission s0) \<and>
        (\<forall>p \<in> set new. \<not> pnd_ready p \<and> \<not> pnd_initialSent p) \<and>
        map ident new = rev (map (\<lambda>q. hident (pkt_header (qp_packet q))) (filter qp_reliable qs))) \<and>
     (\<forall>q \<in> set qs. hdr_fragmentId (pkt_header (qp_packet q)) \<noteq> INT16_MIN \<and> buf_wf (pkt_body (qp_packet q)))"

definition queues :: "'n session \<Rightarrow> queued_packet list \<times> queued_packet list option \<times> retransmission" where
  "queues s = (ss_sendQueue s, ss_sendBatch s, ss_retransmission s)"

lemma staged_cong: "queues s = queues t \<Longrightarrow> staged s0 qs s \<longleftrightarrow> staged s0 qs t"
  by (simp add: staged_def queues_def)

lemma queues_env [simp]: "queues (set_env n s) = queues s" "queues (set_outgoing o' s) = queues s"
  "queues (set_reliable ch c s) = queues s"
  by (simp_all add: queues_def set_env_def set_outgoing_def set_reliable_def)

text \<open>The clocks and the allocator only change the environment.\<close>

lemma env_only:
  "may_alloc sys s = (ok, s') \<Longrightarrow> \<exists>n. s' = set_env n s"
  "IHS_TimerNow sys s = (t, s') \<Longrightarrow> \<exists>n. s' = set_env n s"
  "read_timestamp sys s = (t', s') \<Longrightarrow> \<exists>n. s' = set_env n s"
  by (auto simp: may_alloc_def IHS_TimerNow_def read_timestamp_def split: prod.splits)

lemma set_env_env [simp]: "set_env n (set_env m s) = set_env n s"
  by (simp add: set_env_def)

lemma start_feedback_shape: "\<exists>n rl. start_feedback sys is s = (set_env n s)\<lparr>ss_reliable := rl\<rparr>"
proof (induction "is" arbitrary: s)
  case Nil
  have "s = (set_env (ss_env s) s)\<lparr>ss_reliable := ss_reliable s\<rparr>" by (simp add: set_env_def)
  then show ?case by (metis start_feedback.simps(1))
next
  case (Cons i "is")
  obtain t s1 where s1: "read_timestamp sys s = (t, s1)" by fastforce
  then obtain m where m: "s1 = set_env m s" using env_only(3) by blast
  let ?t = "set_reliable i ((ss_reliable s1 ! i)\<lparr>rl_feedbackDeadline := t\<rparr>) s1"
  obtain n rl where "start_feedback sys is ?t = (set_env n ?t)\<lparr>ss_reliable := rl\<rparr>" using Cons.IH by blast
  moreover have "(set_env n ?t)\<lparr>ss_reliable := rl\<rparr> = (set_env n s)\<lparr>ss_reliable := rl\<rparr>" unfolding m by (simp add: set_env_def set_reliable_def)
  ultimately show ?case using s1 by auto
qed

lemma register_shape:
  "\<exists>n rl. session_register sys ch s = (set_env n (set_outgoing (fst (IHS_OutgoingRegister (ss_outgoing s) ch)) s))\<lparr>ss_reliable := rl\<rparr>"
  using start_feedback_shape by (simp add: session_register_def case_prod_unfold)

lemma reserve_queues: "reserve_id ch reliable s = (i, s') \<Longrightarrow> queues s' = queues s"
  by (auto simp: reserve_id_def split: prod.splits)

lemma register_queues [simp]: "queues (session_register sys ch s) = queues s"
  using register_shape[of sys ch s] by (auto simp: queues_def set_env_def set_outgoing_def)

text \<open>A connected session, and a system whose allocations succeed.\<close>

definition linked :: "'n session \<Rightarrow> bool" where
  "linked s \<longleftrightarrow> \<not> lk_detached (cn_link (ss_conn s)) \<and> IHS_SessionTransportState (ss_conn s) = TransportConnected"

definition generous :: "'n system \<Rightarrow> bool" where
  "generous sys \<longleftrightarrow> (\<forall>n. fst (sy_alloc sys n))"

lemma linked_env [simp]: "linked (set_env n s) \<longleftrightarrow> linked s" "linked (set_outgoing o' s) \<longleftrightarrow> linked s"
  "linked (set_reliable ch c s) \<longleftrightarrow> linked s" "linked (s\<lparr>ss_retransmission := r\<rparr>) \<longleftrightarrow> linked s"
  "linked (s\<lparr>ss_sendBatch := b\<rparr>) \<longleftrightarrow> linked s"
  by (simp_all add: linked_def set_env_def set_outgoing_def set_reliable_def IHS_SessionTransportState_def)

lemma register_linked [simp]: "linked (session_register sys ch s) \<longleftrightarrow> linked s"
proof -
  have "linked (t\<lparr>ss_reliable := rl\<rparr>) \<longleftrightarrow> linked t" for t :: "'a session" and rl by (simp add: linked_def)
  then show ?thesis using register_shape[of sys ch s] by (metis linked_env(1,2))
qed

lemma generous_alloc:
  assumes "generous sys" "may_alloc sys s = (ok, s')"
  shows ok
proof -
  have "ok = fst (sy_alloc sys (ss_env s))" using assms(2) by (simp add: may_alloc_def case_prod_unfold)
  then show ?thesis using assms(1) by (simp add: generous_def)
qed

text \<open>A packet that can be queued.\<close>

definition queueable :: "session_packet \<Rightarrow> bool" where
  "queueable p \<longleftrightarrow> clone_ok p \<and> buf_offset (pkt_body p) = 13 \<and>
     (hdr_hasCrc (pkt_header p) \<longrightarrow> buf_suffix (pkt_body p) = 4) \<and>
     hdr_channelId (pkt_header p) < 256 \<and> hdr_fragmentId (pkt_header p) \<noteq> INT16_MIN \<and> \<not> hdr_autoPacketId (pkt_header p)"

lemma track_staged:
  assumes st: "staged s0 qs s" and p: "queueable p" and live: "live_alloc (ss_mem sys)"
  obtains ok s' where "track sys p s = Some (ok, s')" "\<not> ok \<Longrightarrow> staged s0 qs s'"
    "\<And>q s2. ok \<Longrightarrow> qp_packet q = p \<Longrightarrow> qp_reliable q \<Longrightarrow> ss_sendBatch s2 = Some (qs @ [q]) \<Longrightarrow> ss_sendQueue s2 = ss_sendQueue s' \<Longrightarrow>
       ss_retransmission s2 = ss_retransmission s' \<Longrightarrow> staged s0 (qs @ [q]) s2"
    "\<exists>n r'. s' = (set_env n s)\<lparr>ss_retransmission := r'\<rparr>"
    "ok \<Longrightarrow> staged s0 qs (s'\<lparr>ss_retransmission := IHS_RetransmissionCancelUnsent (ss_retransmission s') (pkt_header p)\<rparr>)"
    "generous sys \<Longrightarrow> hident (pkt_header p) \<notin> ident ` set (rt_pending (ss_retransmission s)) \<Longrightarrow> ok"
proof -
  obtain nowMs s1 where s1: "IHS_TimerNow sys s = (nowMs, s1)" by fastforce
  obtain al s2 where s2: "may_alloc sys s1 = (al, s2)" by fastforce
  have e2: "\<exists>n. s2 = set_env n s" using env_only(2)[OF s1] env_only(1)[OF s2] by auto
  then have q2: "queues s2 = queues s" by auto
  let ?r = "ss_retransmission s"
  have r2: "ss_retransmission s2 = ?r" using q2 by (simp add: queues_def)
  have inv: "rt_inv [] ?r" using st by (simp add: staged_def)
  have cl: "clone_ok p" "buf_offset (pkt_body p) = 13" "hdr_fragmentId (pkt_header p) \<noteq> INT16_MIN" "hdr_channelId (pkt_header p) < 256"
    using p by (simp_all add: queueable_def)
  obtain clone where c: "PacketClone (ss_mem sys) p = Some clone" "pkt_header clone = pkt_header p"
    using PacketClone_ok[OF live cl(1)] by metis
  have data: "buf_data (pkt_body p) \<noteq> None" using cl(1) by (auto simp: clone_ok_def buf_wf_def split: option.splits)
  obtain ok r' where run: "IHS_RetransmissionTrack (ss_mem sys) al ?r p nowMs = Some (ok, r')"
  proof -
    have "\<exists>x. IHS_RetransmissionTrack (ss_mem sys) al ?r p nowMs = Some x"
      using c data cl(2) by (auto simp: IHS_RetransmissionTrack_def Let_def)
    then show thesis using that by fast
  qed
  define s' where "s' = s2\<lparr>ss_retransmission := r'\<rparr>"
  have t: "track sys p s = Some (ok, s')" using s1 s2 run r2 by (simp add: track_def s'_def)
  have inv': "rt_inv [] r'" by (rule Track_inv[OF inv live cl(1,4) run])
  have no: "r' = ?r" if "\<not> ok" using run that c data cl(2) by (auto simp: IHS_RetransmissionTrack_def Let_def split: if_splits)
  have yes: "\<exists>n. rt_pending r' = n # rt_pending ?r \<and> ident n = hident (pkt_header p) \<and> \<not> pnd_ready n \<and> \<not> pnd_initialSent n" if ok
    using run that c data cl(2) by (auto simp: IHS_RetransmissionTrack_def Let_def ident_header split: if_splits)
  obtain new where new: "rt_pending ?r = new @ rt_pending (ss_retransmission s0)" "\<forall>p \<in> set new. \<not> pnd_ready p \<and> \<not> pnd_initialSent p"
    "map ident new = rev (map (\<lambda>q. hident (pkt_header (qp_packet q))) (filter qp_reliable qs))"
    using st unfolding staged_def by blast
  have free: ok if "generous sys" "hident (pkt_header p) \<notin> ident ` set (rt_pending ?r)"
  proof -
    have "al" by (rule generous_alloc[OF that(1) s2])
    moreover have "\<not> list_ex (\<lambda>item. PacketIdentityMatches (pkt_header (pnd_packet item)) (hdr_channelId (pkt_header p))
        (hdr_packetId (pkt_header p)) (hdr_fragmentId (pkt_header p))) (rt_pending ?r)"
    proof
      assume "list_ex (\<lambda>item. PacketIdentityMatches (pkt_header (pnd_packet item)) (hdr_channelId (pkt_header p))
        (hdr_packetId (pkt_header p)) (hdr_fragmentId (pkt_header p))) (rt_pending ?r)"
      then obtain q where "q \<in> set (rt_pending ?r)" "ident q = hident (pkt_header p)"
        by (auto simp: list_ex_iff identity_matches[OF cl(3)] ident_header)
      then show False using that(2) by (metis image_eqI)
    qed
    ultimately show ?thesis using run c data cl(2) by (auto simp: IHS_RetransmissionTrack_def Let_def)
  qed
  show thesis
  proof (rule that[OF t])
    show "generous sys \<Longrightarrow> hident (pkt_header p) \<notin> ident ` set (rt_pending ?r) \<Longrightarrow> ok" by (rule free)
    show "staged s0 qs s'" if "\<not> ok" using staged_cong[of s' s s0 qs] st no[OF that] q2 by (simp add: queues_def s'_def)
    show "\<exists>n r'. s' = (set_env n s)\<lparr>ss_retransmission := r'\<rparr>" using e2 by (auto simp: s'_def)
  next
    fix q and x :: "'a session"
    assume a: ok "qp_packet q = p" "qp_reliable q" "ss_sendBatch x = Some (qs @ [q])" "ss_sendQueue x = ss_sendQueue s'"
      "ss_retransmission x = ss_retransmission s'"
    obtain n where n: "rt_pending r' = n # rt_pending ?r" "ident n = hident (pkt_header p)" "\<not> pnd_ready n" "\<not> pnd_initialSent n"
      using yes[OF a(1)] by blast
    have "ss_sendQueue x = ss_sendQueue s0" using a(5) q2 st by (simp add: s'_def queues_def staged_def)
    moreover have "buf_wf (pkt_body p)" using cl(1) by (simp add: clone_ok_def)
    ultimately show "staged s0 (qs @ [q]) x" using a n new inv' st cl(3)
      unfolding staged_def by (auto intro!: exI[of _ "n # new"] simp: s'_def)
  next
    assume ok
    obtain n where n: "rt_pending r' = n # rt_pending ?r" "ident n = hident (pkt_header p)" "\<not> pnd_ready n" "\<not> pnd_initialSent n"
      using yes[OF \<open>ok\<close>] by blast
    have "hident (pkt_header p) \<notin> ident ` set (rt_pending ?r)" using inv' n(1,2) by (auto simp: rt_inv_def)
    then have "filter (\<lambda>q. ident q \<noteq> hident (pkt_header p)) (rt_pending ?r) = rt_pending ?r" by (auto simp: filter_id_conv image_iff)
    moreover have "rt_pending (IHS_RetransmissionCancelUnsent r' (pkt_header p)) =
        filter (\<lambda>q. ident q \<noteq> hident (pkt_header p)) (rt_pending r')"
      by (rule Cancel_pending[OF inv', of n]) (use n cl(3) in simp_all)
    ultimately have "rt_pending (IHS_RetransmissionCancelUnsent r' (pkt_header p)) = rt_pending ?r" using n by simp
    then show "staged s0 qs (s'\<lparr>ss_retransmission := IHS_RetransmissionCancelUnsent (ss_retransmission s') (pkt_header p)\<rparr>)"
      using st Cancel_inv[OF inv'] q2 by (simp add: staged_def s'_def queues_def)
  qed
qed

text \<open>Admission into an open batch: the packet is staged, or nothing changes.\<close>

lemma packet_eta: "\<lparr>pkt_header = pkt_header p, pkt_body = pkt_body p, pkt_crc = pkt_crc p\<rparr> = (p :: session_packet)"
  by simp

lemma PacketClear_drained:
  "\<exists>c. IHS_SessionPacketClear (p\<lparr>pkt_body := (pkt_body p)\<lparr>buf_data := None, buf_capacity := 0, buf_size := 0, buf_offset := 0\<rparr>\<rparr>) True = Some c"
  by (simp add: IHS_SessionPacketClear_def IHS_BufferClear_def Let_def)

lemma QueuePacket_staged:
  fixes s :: "'n session"
  assumes st: "staged s0 qs s" and p: "queueable p" and live: "live_alloc (ss_mem sys)"
  obtains ret p' s' where "IHS_SessionQueuePacketResult sys p retransmit s = Some (ret, p', s')" "\<exists>c. IHS_SessionPacketClear p' True = Some c"
    "ret \<noteq> Accepted \<longrightarrow> staged s0 qs s'"
    "ret = Accepted \<longrightarrow> (\<exists>q. staged s0 (qs @ [q]) s' \<and> qp_reliable q = retransmit \<and> qp_batchCount q = 1 \<and> qp_packet q = p)"
    "ss_outgoing s' = ss_outgoing s" "linked s' \<longleftrightarrow> linked s"
    "generous sys \<and> linked s \<and> (retransmit \<longrightarrow> hident (pkt_header p) \<notin> ident ` set (rt_pending (ss_retransmission s))) \<longrightarrow> ret = Accepted"
proof (cases "lk_detached (cn_link (ss_conn s)) \<or> IHS_SessionTransportState (ss_conn s) \<noteq> TransportConnected \<and> hdr_type (pkt_header p) \<noteq> 0")
  case True
  have "IHS_SessionQueuePacketResult sys p retransmit s = Some (NotConnected, p, s)"
    using True p by (auto simp: IHS_SessionQueuePacketResult_def queueable_def)
  then show ?thesis by (rule that) (use True st p PacketClear_total[of p] in \<open>auto simp: queueable_def clone_ok_def linked_def\<close>)
next
  case False
  have wf: "buf_wf (pkt_body p)" and auto: "assign_id p s = (p, s)" using p by (auto simp: queueable_def clone_ok_def assign_id_def Let_def)
  have guard: "\<not> lk_detached (cn_link (ss_conn s))"
    "(IHS_SessionTransportState (ss_conn s) \<noteq> TransportConnected \<and> hdr_type (pkt_header p) \<noteq> 0) = False" using False by auto
  have batch: "ss_sendBatch s = Some qs" using st by (simp add: staged_def)
  define stage where "stage = (if retransmit then track sys p s else Some (True, s))"
  have pf: "buf_offset (pkt_body p) = 13" "hdr_hasCrc (pkt_header p) \<longrightarrow> buf_suffix (pkt_body p) = 4"
    "assert_that (hdr_hasCrc (pkt_header p) \<longrightarrow> buf_suffix (pkt_body p) = 4) = Some ()"
    using p by (auto simp: queueable_def)
  obtain ok s1 where s1: "stage = Some (ok, s1)" "\<not> ok \<Longrightarrow> staged s0 qs s1"
    "\<And>q x. ok \<Longrightarrow> qp_packet q = p \<Longrightarrow> qp_reliable q = retransmit \<Longrightarrow> ss_sendBatch x = Some (qs @ [q]) \<Longrightarrow>
       ss_sendQueue x = ss_sendQueue s1 \<Longrightarrow> ss_retransmission x = ss_retransmission s1 \<Longrightarrow> staged s0 (qs @ [q]) x"
    "\<exists>n r'. s1 = (set_env n s)\<lparr>ss_retransmission := r'\<rparr>"
    "ok \<Longrightarrow> staged s0 qs (if retransmit then s1\<lparr>ss_retransmission :=
       IHS_RetransmissionCancelUnsent (ss_retransmission s1) (pkt_header p)\<rparr> else s1)"
    "generous sys \<Longrightarrow> (retransmit \<longrightarrow> hident (pkt_header p) \<notin> ident ` set (rt_pending (ss_retransmission s))) \<Longrightarrow> ok"
  proof (cases retransmit)
    case True
    show ?thesis
    proof (rule track_staged[OF st p live])
      fix ok s1 assume t: "track sys p s = Some (ok, s1)" "\<not> ok \<Longrightarrow> staged s0 qs s1"
        "\<And>q s2. ok \<Longrightarrow> qp_packet q = p \<Longrightarrow> qp_reliable q \<Longrightarrow> ss_sendBatch s2 = Some (qs @ [q]) \<Longrightarrow>
           ss_sendQueue s2 = ss_sendQueue s1 \<Longrightarrow> ss_retransmission s2 = ss_retransmission s1 \<Longrightarrow> staged s0 (qs @ [q]) s2"
        "\<exists>n r'. s1 = (set_env n s)\<lparr>ss_retransmission := r'\<rparr>"
        "ok \<Longrightarrow> staged s0 qs (s1\<lparr>ss_retransmission := IHS_RetransmissionCancelUnsent (ss_retransmission s1) (pkt_header p)\<rparr>)"
        "generous sys \<Longrightarrow> hident (pkt_header p) \<notin> ident ` set (rt_pending (ss_retransmission s)) \<Longrightarrow> ok"
      show ?thesis by (rule that[of ok s1]) (use True t in \<open>simp_all add: stage_def\<close>)
    qed
  next
    case False
    have "staged s0 (qs @ [q]) x" if "qp_packet q = p" "\<not> qp_reliable q" "ss_sendBatch x = Some (qs @ [q])"
      "ss_sendQueue x = ss_sendQueue s" "ss_retransmission x = ss_retransmission s" for q and x :: "'n session"
      using st that p wf by (auto simp: staged_def queueable_def)
    moreover have "\<exists>n r'. s = (set_env n s)\<lparr>ss_retransmission := r'\<rparr>"
      by (rule exI[of _ "ss_env s"], rule exI[of _ "ss_retransmission s"]) (simp add: set_env_def)
    ultimately show ?thesis using that[of True s] False st by (simp add: stage_def)
  qed
  note run = IHS_SessionQueuePacketResult_def pf guard auto s1(1)[unfolded stage_def] Let_def packet_eta
  obtain al s2 where s2: "may_alloc sys s1 = (al, s2)" by fastforce
  obtain now s3 where s3: "read_timestamp sys s2 = (now, s3)" by fastforce
  obtain n2 n3 where e: "s2 = set_env n2 s1" "s3 = set_env n3 s1" using env_only(1)[OF s2] env_only(3)[OF s3] by auto
  have out: "ss_outgoing s1 = ss_outgoing s" "ss_sendBatch s1 = Some qs" using s1(4) batch by (auto simp: set_env_def)
  have lk: "linked s1 \<longleftrightarrow> linked s" using s1(4) by auto
  let ?q = "\<lparr>qp_packet = p, qp_reliable = retransmit, qp_queuedAt = now, qp_batchCount = 1\<rparr>"
  consider "\<not> ok" | "ok" "\<not> al" | "ok" "al" by blast
  then show ?thesis
  proof cases
    case 1
    have "IHS_SessionQueuePacketResult sys p retransmit s = Some (LocalFailure, p, s1)" using 1 by (simp add: run split del: if_split)
    then show ?thesis by (rule that) (use PacketClear_total[OF wf] s1(2)[OF 1] out lk s1(6) 1 in auto)
  next
    case 2
    let ?c = "if retransmit then s2\<lparr>ss_retransmission := IHS_RetransmissionCancelUnsent (ss_retransmission s2) (pkt_header p)\<rparr> else s2"
    have r: "IHS_SessionQueuePacketResult sys p retransmit s = Some (LocalFailure, p, ?c)" using s2 2 by (simp add: run split del: if_split)
    have t: "staged s0 qs ?c"
      using s1(5)[OF 2(1)] e by (auto simp: staged_def set_env_def split: if_splits)
    have "ss_outgoing ?c = ss_outgoing s" using out e by (simp add: set_env_def)
    moreover have "linked ?c \<longleftrightarrow> linked s" using e lk by simp
    ultimately show ?thesis by (intro that[OF r PacketClear_total[OF wf]]) (use t generous_alloc[OF _ s2] 2 in auto)
  next
    case 3
    have en: "enqueue ?q s3 = s3\<lparr>ss_sendBatch := Some (qs @ [?q])\<rparr>" using out(2) e by (simp add: enqueue_def set_env_def)
    have t: "staged s0 (qs @ [?q]) (enqueue ?q s3)"
      by (rule s1(3)[OF 3(1)]) (use en e in \<open>simp_all add: set_env_def\<close>)
    have r: "IHS_SessionQueuePacketResult sys p retransmit s = Some (Accepted,
       p\<lparr>pkt_body := (pkt_body p)\<lparr>buf_data := None, buf_capacity := 0, buf_size := 0, buf_offset := 0\<rparr>\<rparr>, enqueue ?q s3)"
      using s2 s3 3 by (simp add: run split del: if_split)
    have o: "ss_outgoing (enqueue ?q s3) = ss_outgoing s" using out en e by (simp add: set_env_def)
    have "linked (enqueue ?q s3) \<longleftrightarrow> linked s" using en e lk by simp
    then show ?thesis by (intro that[OF r PacketClear_drained _ _ o]) (use t in auto)
  qed
qed

section \<open>Ending a batch\<close>

lemma give_up_staged:
  assumes "staged s0 qs s"
  shows "\<exists>s'. give_up qs (s\<lparr>ss_sendBatch := None\<rparr>) = Some s' \<and> ss_sendQueue s' = ss_sendQueue s0 \<and> ss_sendBatch s' = None \<and>
     rt_pending (ss_retransmission s') = rt_pending (ss_retransmission s0) \<and> rt_inv [] (ss_retransmission s') \<and>
     ss_conn s' = ss_conn s \<and> ss_reliable s' = ss_reliable s"
proof -
  let ?old = "rt_pending (ss_retransmission s0)"
  have gen: "\<exists>s'. give_up qs t = Some s' \<and> ss_sendQueue s' = ss_sendQueue t \<and> ss_sendBatch s' = ss_sendBatch t \<and>
      rt_pending (ss_retransmission s') = ?old \<and> rt_inv [] (ss_retransmission s') \<and> ss_conn s' = ss_conn t \<and> ss_reliable s' = ss_reliable t"
    if "rt_inv [] (ss_retransmission t)" "rt_pending (ss_retransmission t) = new @ ?old"
      "\<forall>p \<in> set new. \<not> pnd_ready p \<and> \<not> pnd_initialSent p"
      "ident ` set new = (\<lambda>q. hident (pkt_header (qp_packet q))) ` set (filter qp_reliable qs)"
      "\<forall>q \<in> set qs. hdr_fragmentId (pkt_header (qp_packet q)) \<noteq> INT16_MIN \<and> buf_wf (pkt_body (qp_packet q))"
      "distinct (map (\<lambda>q. hident (pkt_header (qp_packet q))) (filter qp_reliable qs))"
    for qs new and t :: "'a session"
    using that
  proof (induction qs arbitrary: t new)
    case Nil
    then show ?case by simp
  next
    case (Cons q qs)
    let ?h = "pkt_header (qp_packet q)"
    obtain c where c: "QueuedPacketDestroy q = Some c"
      using PacketClear_total[of "qp_packet q"] Cons.prems(5) by (auto simp: QueuedPacketDestroy_def)
    show ?case
    proof (cases "qp_reliable q")
      case False
      then show ?thesis using Cons.IH[of t new] Cons.prems c by simp
    next
      case True
      let ?r = "ss_retransmission t"
      let ?t = "t\<lparr>ss_retransmission := IHS_RetransmissionCancelUnsent ?r ?h\<rparr>"
      let ?new = "filter (\<lambda>p. ident p \<noteq> hident ?h) new"
      obtain n where n: "n \<in> set new" "ident n = hident ?h" 
      proof -
        have "hident ?h \<in> ident ` set new" using Cons.prems(4) True by simp
        then show thesis using that by (metis imageE)
      qed
      have d: "distinct (map ident (new @ ?old))" using Cons.prems(1,2) by (simp add: rt_inv_def)
      then have "hident ?h \<notin> ident ` set ?old" using n by (auto simp: n(2)[symmetric])
      then have "filter (\<lambda>p. ident p \<noteq> hident ?h) ?old = ?old" by (auto simp: filter_id_conv image_iff)
      moreover have "rt_pending (IHS_RetransmissionCancelUnsent ?r ?h) = filter (\<lambda>p. ident p \<noteq> hident ?h) (rt_pending ?r)"
        by (rule Cancel_pending[OF Cons.prems(1), of n]) (use n Cons.prems in auto)
      ultimately have pend: "rt_pending (ss_retransmission ?t) = ?new @ ?old" using Cons.prems(2) by simp
      have "hident ?h \<notin> (\<lambda>q. hident (pkt_header (qp_packet q))) ` set (filter qp_reliable qs)"
        using Cons.prems(6) True by auto
      moreover have "ident ` set ?new = ident ` set new - {hident ?h}" by auto
      ultimately have "ident ` set ?new = (\<lambda>q. hident (pkt_header (qp_packet q))) ` set (filter qp_reliable qs)"
        using Cons.prems(4) True by simp
      moreover have "rt_inv [] (ss_retransmission ?t)" using Cancel_inv[OF Cons.prems(1)] by simp
      ultimately have "\<exists>s'. give_up qs ?t = Some s' \<and> ss_sendQueue s' = ss_sendQueue ?t \<and> ss_sendBatch s' = ss_sendBatch ?t \<and>
          rt_pending (ss_retransmission s') = ?old \<and> rt_inv [] (ss_retransmission s') \<and> ss_conn s' = ss_conn ?t \<and> ss_reliable s' = ss_reliable ?t"
        by (intro Cons.IH[of ?t ?new]) (use pend Cons.prems True in auto)
      then show ?thesis using True c by (simp add: Let_def)
    qed
  qed
  obtain new where new: "rt_pending (ss_retransmission s) = new @ ?old" "\<forall>p \<in> set new. \<not> pnd_ready p \<and> \<not> pnd_initialSent p"
    "map ident new = rev (map (\<lambda>q. hident (pkt_header (qp_packet q))) (filter qp_reliable qs))"
    using assms unfolding staged_def by blast
  have inv: "rt_inv [] (ss_retransmission s)" using assms by (simp add: staged_def)
  have "distinct (map ident new)" using inv new(1) by (simp add: rt_inv_def)
  then have d: "distinct (map (\<lambda>q. hident (pkt_header (qp_packet q))) (filter qp_reliable qs))" unfolding new(3) by simp
  have "ident ` set new = (\<lambda>q. hident (pkt_header (qp_packet q))) ` set (filter qp_reliable qs)"
    using arg_cong[OF new(3), of set] by (simp only: set_map set_rev)
  from gen[of "s\<lparr>ss_sendBatch := None\<rparr>" new qs, OF _ _ new(2) this _ d] show ?thesis
    using inv new(1) assms by (simp add: staged_def)
qed

lemma publish_queue:
  "publish grp n i qs s = s\<lparr>ss_sendQueue := ss_sendQueue s @
     map (\<lambda>(k, q). q\<lparr>qp_batchCount := (if grp then (if k = 0 then n else 0) else 1)\<rparr>) (zip [i..<i + length qs] qs)\<rparr>"
proof (induction qs arbitrary: i s)
  case (Cons q qs)
  have "[i..<i + length (q # qs)] = i # [Suc i..<Suc i + length qs]" by (subst upt_rec) simp
  then show ?case by (simp only: publish.simps Cons.IH) simp
qed simp

section \<open>Cutting a frame\<close>

text \<open>The packet counter that the packets of a type draw their identifiers from.\<close>

definition id_counter :: "u32 \<Rightarrow> outgoing \<Rightarrow> u16 list" where
  "id_counter t o' = (if t = IHS_SessionPacketTypeUnreliable then out_unreliableId o' else out_reliableId o')"

lemma frame_id_spec:
  assumes "ch < 32" "length (id_counter t (ss_outgoing s)) = 32"
  obtains s' where "frame_id ch t s = (id_counter t (ss_outgoing s) ! ch, s')" "queues s' = queues s"
    "id_counter t (ss_outgoing s') = (id_counter t (ss_outgoing s))[ch := id_counter t (ss_outgoing s) ! ch + 1]" "linked s' \<longleftrightarrow> linked s"
proof -
  define s' where "s' = snd (frame_id ch t s)"
  have run: "frame_id ch t s = (id_counter t (ss_outgoing s) ! ch, s')" and
    out: "id_counter t (ss_outgoing s') = (id_counter t (ss_outgoing s))[ch := id_counter t (ss_outgoing s) ! ch + 1]"
    using assms(1) by (simp_all add: frame_id_def reserve_id_def IHS_SessionChannelNextPacketId_def IHS_OutgoingNextId_def
        id_counter_def set_outgoing_def s'_def)
  have "queues s' = queues s" using run reserve_queues[of ch]
    by (auto simp: frame_id_def IHS_SessionChannelNextPacketId_def split: if_splits)
  moreover have "linked s' \<longleftrightarrow> linked s"
    by (simp add: s'_def frame_id_def reserve_id_def IHS_SessionChannelNextPacketId_def split: prod.splits)
  ultimately show thesis using that run out by blast
qed

text \<open>The header of packet \<open>k\<close> of \<open>n\<close> that a frame with header \<open>h\<close> and first identifier \<open>i\<close> is cut into.\<close>

definition fragment_of :: "packet_header \<Rightarrow> u16 \<Rightarrow> nat \<Rightarrow> nat \<Rightarrow> packet_header" where
  "fragment_of h i n k =
     (if k = 0 then h\<lparr>hdr_packetId := i, hdr_fragmentId := of_nat (n - 1)\<rparr>
      else h\<lparr>hdr_packetId := i + of_nat k, hdr_fragmentId := of_nat (k - 1),
             hdr_type := (if hdr_type h = IHS_SessionPacketTypeUnreliable then IHS_SessionPacketTypeUnreliableFrag
                          else IHS_SessionPacketTypeReliableFrag)\<rparr>)"

lemma fragment_of_distinct:
  assumes "j < k" "k < 65536"
  shows "hident (fragment_of h i n j) \<noteq> hident (fragment_of h i n k)"
proof
  assume "hident (fragment_of h i n j) = hident (fragment_of h i n k)"
  then have "i + of_nat j = i + of_nat k" by (auto simp: hident_def fragment_of_def split: if_splits)
  then have "(of_nat j :: u16) = of_nat k" by simp
  then have "unat (of_nat j :: u16) = unat (of_nat k :: u16)" by simp
  then show False using assms by (simp add: unat_of_nat)
qed

definition frame_header_ok :: "nat \<Rightarrow> packet_header \<Rightarrow> bool" where
  "frame_header_ok ch h \<longleftrightarrow> ch < 32 \<and> hdr_channelId h = of_nat ch \<and>
     (hdr_type h = IHS_SessionPacketTypeUnreliable \<or> hdr_type h = IHS_SessionPacketTypeReliable)"

lemma load_prefix:
  assumes wf: "buf_wf b" and n: "0 < n" "n \<le> buf_size b"
  shows "do { p \<leftarrow> IHS_BufferPointer b; buf_load b p n } = Some (take n (buf_content b))"
proof -
  have "0 < buf_capacity b - buf_offset b - buf_suffix b" using wf n by (auto simp: buf_wf_def)
  from buf_load_content[OF wf this] obtain p where p: "IHS_BufferPointer b = Some p" "buf_load b p (buf_size b) = Some (buf_content b)"
    by (auto simp: bind_eq_Some_conv)
  obtain xs where xs: "buf_data b = Some xs" "p + buf_size b \<le> length xs" "take (buf_size b) (drop p xs) = buf_content b"
    using p(2) by (auto simp: buf_load_def mem_read_def bind_eq_Some_conv split: if_splits)
  then have "buf_load b p n = Some (take n (buf_content b))"
    using n by (simp add: buf_load_def mem_read_def min_def flip: xs(3))
  then show ?thesis using p by simp
qed

lemma fragment_packet:
  assumes live: "live_alloc mem" and d: "length d \<le> 1455" and h: "frame_header_ok ch h" and k: "k < n" "n \<le> 32767"
    and auto: "\<not> hdr_autoPacketId h"
  obtains b xs where "IHS_SessionPacketBodyInitialize mem (hdr_hasCrc h) = Some xs" "IHS_BufferAppendMem mem xs d = Some b"
    "buf_content b = d" "buf_size b = length d" "queueable (zero_packet\<lparr>pkt_header := fragment_of h i n k, pkt_body := b\<rparr>)"
    "buf_wf b" "13 + buf_size b + 4 < buf_capacity b" "buf_offset b = 13" "buf_suffix b = (if hdr_hasCrc h then 4 else 0)"
proof -
  obtain ys where ys: "length ys = 2048" "IHS_SessionPacketBodyInitialize mem (hdr_hasCrc h) =
     Some \<lparr>buf_data = Some ys, buf_capacity = 2048, buf_offset = 13, buf_size = 0,
       buf_suffix = (if hdr_hasCrc h then 4 else 0), buf_initialCapacity = 2048, buf_maxCapacity = 2048\<rparr>"
    using BodyInitialize_ok[OF live] by metis
  define b0 where "b0 = \<lparr>buf_data = Some ys, buf_capacity = 2048, buf_offset = 13, buf_size = 0,
       buf_suffix = (if hdr_hasCrc h then 4 else (0::nat)), buf_initialCapacity = 2048, buf_maxCapacity = 2048\<rparr>"
  have b0: "buf_wf b0" "can_hold b0 (buf_offset b0 + (buf_size b0 + length d) + buf_suffix b0)"
      "buf_offset b0 + buf_size b0 + buf_suffix b0 < buf_capacity b0"
    using ys(1) d by (auto simp: b0_def buf_wf_def can_hold_def grow_base_def)
  obtain b where b: "IHS_BufferAppendMem mem b0 d = Some b" "buf_wf b" "buf_frame b0 b" "buf_offset b = buf_offset b0"
      "buf_size b = buf_size b0 + length d" "buf_content b = buf_content b0 @ d"
    using AppendMem_spec[OF b0(1) live b0(2)] b0(3) by metis
  have shape: "buf_size b = length d" "buf_offset b = 13" "buf_suffix b = (if hdr_hasCrc h then 4 else 0)" "2048 \<le> buf_capacity b"
    using b by (simp_all add: b0_def buf_frame_def)
  have content: "buf_content b = d" using b(6) by (simp add: b0_def buf_content_def)
  have ch: "(of_nat ch :: u32) < 256" if "ch < 32"
  proof -
    have "unat (of_nat ch :: u32) = ch" using that by (simp add: unat_of_nat)
    then show ?thesis using that by (simp add: word_less_nat_alt)
  qed
  have frag: "hdr_fragmentId (fragment_of h i n k) \<noteq> INT16_MIN"
  proof -
    have "unat (of_nat m :: u16) = m" if "m < 32767" for m using that by (simp add: unat_of_nat)
    then have "(of_nat m :: u16) \<noteq> 0x8000" if "m < 32767" for m using that by (auto dest: arg_cong[of _ _ unat])
    moreover have "hdr_fragmentId (fragment_of h i n k) = of_nat (if k = 0 then n - 1 else k - 1)" by (simp add: fragment_of_def)
    moreover have "(if k = 0 then n - 1 else k - 1) < 32767" using k by auto
    ultimately show ?thesis by metis
  qed
  have "queueable (zero_packet\<lparr>pkt_header := fragment_of h i n k, pkt_body := b\<rparr>)"
    using shape b(2) d frag h auto ch
    by (auto simp: queueable_def clone_ok_def fragment_of_def frame_header_ok_def)
  then show thesis using that[OF ys(2) b(1)[unfolded b0_def] content] shape b(2) d by simp
qed

text \<open>One round of the loop, at packet \<open>k\<close> of \<open>n\<close>.\<close>

lemma queue_fragment_spec:
  fixes s :: "'n session"
  defines "sz f \<equiv> buf_size (frm_body f)"
  assumes st: "staged s0 qs s" and live: "live_alloc (ss_mem sys)"
    and h: "frame_header_ok ch h" "frm_header frame = h" "hdr_packetId h = i" "\<not> hdr_autoPacketId h"
    and body: "buf_wf (frm_body frame)" "0 < sz frame" and lim: "0 < lim" "lim \<le> 1455"
    and k: "k < n" "n \<le> 32767"
    and ids: "length (id_counter (hdr_type h) (ss_outgoing s)) = 32"
      "id_counter (hdr_type h) (ss_outgoing s) ! ch = i + of_nat (max 1 k)"
  obtains ret frame' s' where "queue_fragment sys ch retransmit lim n frame (int k - 1) s = Some (ret, frame', s')"
    "ret \<noteq> Accepted \<longrightarrow> staged s0 qs s'"
    "ret = Accepted \<longrightarrow> (\<exists>q. staged s0 (qs @ [q]) s' \<and> pkt_header (qp_packet q) = fragment_of h i n k \<and>
       buf_content (pkt_body (qp_packet q)) = take (min lim (sz frame)) (buf_content (frm_body frame)) \<and>
       qp_reliable q = retransmit \<and> link_ok (qp_packet q))"
    "ret = Accepted \<longrightarrow> frm_header frame' = h \<and> buf_wf (frm_body frame') \<and> sz frame' = sz frame - min lim (sz frame) \<and>
       buf_content (frm_body frame') = drop (min lim (sz frame)) (buf_content (frm_body frame))"
    "length (id_counter (hdr_type h) (ss_outgoing s')) = 32"
    "id_counter (hdr_type h) (ss_outgoing s') ! ch = i + of_nat (max 1 (Suc k))" "linked s' \<longleftrightarrow> linked s"
    "generous sys \<and> linked s \<and> (retransmit \<longrightarrow> hident (fragment_of h i n k) \<notin> ident ` set (rt_pending (ss_retransmission s))) \<longrightarrow> ret = Accepted"
proof -
  let ?m = "min lim (sz frame)" and ?h = "fragment_of h i n k" and ?b = "frm_body frame"
  have ch: "ch < 32" using h(1) by (simp add: frame_header_ok_def)
  have m: "(if buf_size ?b > lim then lim else buf_size ?b) = ?m" "0 < ?m" "?m \<le> buf_size ?b" "?m \<le> 1455"
    using body(2) lim by (auto simp: sz_def)
  have len: "length (buf_content ?b) = buf_size ?b" by (rule length_buf_content[OF body(1)])
  obtain s1 where s1: "fragment_header ch n (int k - 1) h s = Some (?h, s1)" "queues s1 = queues s"
    "length (id_counter (hdr_type h) (ss_outgoing s1)) = 32"
    "id_counter (hdr_type h) (ss_outgoing s1) ! ch = i + of_nat (max 1 (Suc k))" "linked s1 \<longleftrightarrow> linked s"
  proof (cases "k = 0")
    case True
    have "word_of_int (int n - 1) = (of_nat (n - 1) :: u16)" using k by (simp add: of_nat_diff)
    then show ?thesis using that[of s] True h ids by (simp add: fragment_header_def fragment_of_def)
  next
    case False
    obtain s1 where s1: "frame_id ch (hdr_type h) s = (id_counter (hdr_type h) (ss_outgoing s) ! ch, s1)" "queues s1 = queues s"
      "id_counter (hdr_type h) (ss_outgoing s1) = (id_counter (hdr_type h) (ss_outgoing s))[ch := id_counter (hdr_type h) (ss_outgoing s) ! ch + 1]" "linked s1 \<longleftrightarrow> linked s"
      using frame_id_spec[OF ch ids(1)] by metis
    have w: "(of_int (int k - 1) :: u16) = of_nat (k - 1)" using False by (simp add: of_nat_diff)
    have mx: "max 1 k = k" "max 1 (Suc k) = Suc k" using False by auto
    show ?thesis using that[of s1] s1 False h ids ch w
      by (auto simp: fragment_header_def fragment_of_def FragmentedPacketType_def frame_header_ok_def mx)
  qed
  have crc: "hdr_hasCrc ?h = hdr_hasCrc h" by (simp add: fragment_of_def)
  have len2: "length (take ?m (buf_content ?b)) \<le> 1455" using m(4) len by simp
  obtain b xs where b: "IHS_SessionPacketBodyInitialize (ss_mem sys) (hdr_hasCrc h) = Some xs"
    "IHS_BufferAppendMem (ss_mem sys) xs (take ?m (buf_content ?b)) = Some b" "buf_content b = take ?m (buf_content ?b)"
    "queueable (zero_packet\<lparr>pkt_header := ?h, pkt_body := b\<rparr>)" "buf_wf b" "13 + buf_size b + 4 < buf_capacity b"
    "buf_offset b = 13" "buf_suffix b = (if hdr_hasCrc h then 4 else 0)"
    by (rule fragment_packet[OF live len2 h(1) k h(4)])
  let ?p = "zero_packet\<lparr>pkt_header := ?h, pkt_body := b\<rparr>"
  have ok: "link_ok ?p" using b crc by (simp add: link_ok_def sendable_def)
  have st1: "staged s0 qs s1" using st staged_cong[OF s1(2)] by simp
  obtain ret p' s' where q: "IHS_SessionQueuePacketResult sys ?p retransmit s1 = Some (ret, p', s')"
    "\<exists>c. IHS_SessionPacketClear p' True = Some c" "ret \<noteq> Accepted \<longrightarrow> staged s0 qs s'"
    "ret = Accepted \<longrightarrow> (\<exists>q. staged s0 (qs @ [q]) s' \<and> qp_reliable q = retransmit \<and> qp_batchCount q = 1 \<and> qp_packet q = ?p)"
    "ss_outgoing s' = ss_outgoing s1" "linked s' \<longleftrightarrow> linked s1"
    "generous sys \<and> linked s1 \<and> (retransmit \<longrightarrow> hident (pkt_header ?p) \<notin> ident ` set (rt_pending (ss_retransmission s1))) \<longrightarrow> ret = Accepted"
    by (rule QueuePacket_staged[OF st1 b(4) live, of retransmit])
  obtain p where p: "IHS_BufferPointer ?b = Some p" "buf_load ?b p ?m = Some (take ?m (buf_content ?b))"
    using load_prefix[OF body(1) m(2,3)] by (auto simp: bind_eq_Some_conv)
  note off = OffsetBy_forward[OF body(1) m(3)]
  define frame' where "frame' = (if ret \<noteq> Accepted then frame else
    frame\<lparr>frm_body := ?b\<lparr>buf_offset := buf_offset ?b + ?m, buf_size := buf_size ?b - ?m\<rparr>\<rparr>)"
  have run: "queue_fragment sys ch retransmit lim n frame (int k - 1) s = Some (ret, frame', s')"
    unfolding queue_fragment_def m(1) h(2) Let_def using s1(1) b(1,2) p q(1,2) off(1) crc by (auto simp: frame'_def)
  show thesis
  proof (rule that[OF run q(3)])
    show "ret = Accepted \<longrightarrow> (\<exists>q. staged s0 (qs @ [q]) s' \<and> pkt_header (qp_packet q) = ?h \<and>
       buf_content (pkt_body (qp_packet q)) = take ?m (buf_content ?b) \<and> qp_reliable q = retransmit \<and> link_ok (qp_packet q))"
      using q(4) ok b(3) by auto
    show "ret = Accepted \<longrightarrow> frm_header frame' = h \<and> buf_wf (frm_body frame') \<and> sz frame' = sz frame - ?m \<and>
       buf_content (frm_body frame') = drop ?m (buf_content ?b)" using off h(2) by (simp add: frame'_def sz_def)
    have "ss_retransmission s1 = ss_retransmission s" using s1(2) by (simp add: queues_def)
    then show "generous sys \<and> linked s \<and> (retransmit \<longrightarrow> hident ?h \<notin> ident ` set (rt_pending (ss_retransmission s))) \<longrightarrow> ret = Accepted"
      using q(7) s1(5) by simp
  qed (use s1(3,4,5) q(5,6) in simp_all)
qed

text \<open>The whole loop.\<close>

lemma queue_fragments_spec:
  fixes s :: "'n session"
  assumes live: "live_alloc (ss_mem sys)" and h: "frame_header_ok ch h" "hdr_packetId h = i" "\<not> hdr_autoPacketId h"
    and lim: "0 < lim" "lim \<le> 1455" and n: "n \<le> 32767"
    and "staged s0 qs s" "frm_header frame = h" "buf_wf (frm_body frame)"
      "k + (buf_size (frm_body frame) + lim - 1) div lim = n"
      "length (id_counter (hdr_type h) (ss_outgoing s)) = 32"
      "id_counter (hdr_type h) (ss_outgoing s) ! ch = i + of_nat (max 1 k)"
      "map (\<lambda>q. pkt_header (qp_packet q)) qs = map (fragment_of h i n) [0..<k]"
  shows "\<exists>ret frame' s' qs'. queue_fragments sys ch retransmit lim n frame (int k - 1) s = Some (ret, frame', s') \<and>
     staged s0 (qs @ qs') s' \<and> length qs' \<le> n - k \<and> (\<forall>q \<in> set qs'. qp_reliable q = retransmit \<and> link_ok (qp_packet q)) \<and>
     (generous sys \<and> linked s \<and> (retransmit \<longrightarrow> (\<forall>j < n. hident (fragment_of h i n j) \<notin>
        ident ` set (rt_pending (ss_retransmission s0)))) \<longrightarrow> ret = Accepted) \<and>
     (ret = Accepted \<longrightarrow> map (\<lambda>q. pkt_header (qp_packet q)) qs' = map (fragment_of h i n) [k..<n] \<and>
        map (\<lambda>q. length (buf_content (pkt_body (qp_packet q)))) qs' =
          map (\<lambda>j. min lim (buf_size (frm_body frame) - (j - k) * lim)) [k..<n] \<and>
        concat (map (\<lambda>q. buf_content (pkt_body (qp_packet q))) qs') = buf_content (frm_body frame))"
  using assms(8-)
proof (induction "buf_size (frm_body frame)" arbitrary: k frame s qs rule: less_induct)
  case less
  let ?b = "frm_body frame"
  have len: "length (buf_content ?b) = buf_size ?b" by (rule length_buf_content[OF less.prems(3)])
  show ?case
  proof (cases "buf_size ?b = 0")
    case True
    then have "k = n" using less.prems(4) lim(1) by simp
    then show ?thesis using True less.prems(1) len by (subst queue_fragments.simps) auto
  next
    case False
    let ?m = "min lim (buf_size ?b)"
    have "0 < (buf_size ?b + lim - 1) div lim" unfolding div_greater_zero_iff using False lim(1) by simp
    then have kn: "k < n" using less.prems(4) by simp
    have more: "Suc k + (buf_size ?b - ?m + lim - 1) div lim = n"
    proof (cases "buf_size ?b \<le> lim")
      case True
      then have "(buf_size ?b + lim - 1) div lim = 1" using False lim(1) by (simp add: div_nat_eqI)
      then show ?thesis using True less.prems(4) lim(1) by simp
    next
      case False
      then have "buf_size ?b + lim - 1 = (buf_size ?b - lim + lim - 1) + lim" by simp
      then have "(buf_size ?b + lim - 1) div lim = Suc ((buf_size ?b - lim + lim - 1) div lim)" using lim(1) by (metis div_add_self2 less_numeral_extra(3) Suc_eq_plus1)
      then show ?thesis using False less.prems(4) by simp
    qed
    have pos: "0 < buf_size ?b" using False by simp
    obtain ret frame' s' where step: "queue_fragment sys ch retransmit lim n frame (int k - 1) s = Some (ret, frame', s')"
      "ret \<noteq> Accepted \<longrightarrow> staged s0 qs s'"
      "ret = Accepted \<longrightarrow> (\<exists>q. staged s0 (qs @ [q]) s' \<and> pkt_header (qp_packet q) = fragment_of h i n k \<and>
         buf_content (pkt_body (qp_packet q)) = take ?m (buf_content ?b) \<and> qp_reliable q = retransmit \<and> link_ok (qp_packet q))"
      "ret = Accepted \<longrightarrow> frm_header frame' = h \<and> buf_wf (frm_body frame') \<and> buf_size (frm_body frame') = buf_size ?b - ?m \<and>
         buf_content (frm_body frame') = drop ?m (buf_content ?b)"
      "length (id_counter (hdr_type h) (ss_outgoing s')) = 32"
      "id_counter (hdr_type h) (ss_outgoing s') ! ch = i + of_nat (max 1 (Suc k))" "linked s' \<longleftrightarrow> linked s"
      "generous sys \<and> linked s \<and> (retransmit \<longrightarrow> hident (fragment_of h i n k) \<notin> ident ` set (rt_pending (ss_retransmission s))) \<longrightarrow> ret = Accepted"
      by (rule queue_fragment_spec[OF less.prems(1) live h(1) less.prems(2) h(2,3) less.prems(3) pos lim kn n less.prems(5,6), of retransmit])
    have new: "hident (fragment_of h i n k) \<notin> ident ` set (rt_pending (ss_retransmission s))"
      if old: "\<forall>j < n. hident (fragment_of h i n j) \<notin> ident ` set (rt_pending (ss_retransmission s0))"
    proof
      assume a: "hident (fragment_of h i n k) \<in> ident ` set (rt_pending (ss_retransmission s))"
      obtain nw where nw: "rt_pending (ss_retransmission s) = nw @ rt_pending (ss_retransmission s0)"
        "map ident nw = rev (map (\<lambda>q. hident (pkt_header (qp_packet q))) (filter qp_reliable qs))"
        using less.prems(1) unfolding staged_def by blast
      have "hident (fragment_of h i n k) \<in> set (map ident nw)" using a nw(1) old kn by auto
      then obtain q where q: "q \<in> set qs" "hident (fragment_of h i n k) = hident (pkt_header (qp_packet q))" unfolding nw(2) by auto
      have "pkt_header (qp_packet q) \<in> set (map (fragment_of h i n) [0..<k])" using q(1) less.prems(7) by (metis image_eqI list.set_map)
      then obtain j where "j < k" "pkt_header (qp_packet q) = fragment_of h i n j" by auto
      then show False using q(2) fragment_of_distinct[of j k h i n] kn n by simp
    qed
    show ?thesis
    proof (cases "ret = Accepted")
      case False
      then have "queue_fragments sys ch retransmit lim n frame (int k - 1) s = Some (ret, frame', s')"
        using step(1) pos by (subst queue_fragments.simps) simp
      moreover have "staged s0 (qs @ []) s'" using step(2) False by simp
      moreover have "\<not> (generous sys \<and> linked s \<and> (retransmit \<longrightarrow> (\<forall>j < n. hident (fragment_of h i n j) \<notin>
        ident ` set (rt_pending (ss_retransmission s0)))))" using step(8) new False by blast
      ultimately show ?thesis using False by (intro exI[of _ ret] exI[of _ frame'] exI[of _ s'] exI[of _ "[]"]) simp
    next
      case True
      obtain q where q: "staged s0 (qs @ [q]) s'" "pkt_header (qp_packet q) = fragment_of h i n k"
         "buf_content (pkt_body (qp_packet q)) = take ?m (buf_content ?b)" "qp_reliable q = retransmit" "link_ok (qp_packet q)"
        using step(3) True by blast
      have f: "frm_header frame' = h" "buf_wf (frm_body frame')" "buf_size (frm_body frame') = buf_size ?b - ?m"
         "buf_content (frm_body frame') = drop ?m (buf_content ?b)" using step(4) True by auto
      have "buf_size (frm_body frame') < buf_size ?b" using f(3) lim(1) pos by simp
      moreover have "Suc k + (buf_size (frm_body frame') + lim - 1) div lim = n" using more f(3) by simp
      moreover have "map (\<lambda>q. pkt_header (qp_packet q)) (qs @ [q]) = map (fragment_of h i n) [0..<Suc k]"
        using less.prems(7) q(2) by simp
      ultimately obtain ret2 frame2 s2 qs2 where r: "queue_fragments sys ch retransmit lim n frame' (int (Suc k) - 1) s' = Some (ret2, frame2, s2)"
        "staged s0 ((qs @ [q]) @ qs2) s2" "length qs2 \<le> n - Suc k" "\<forall>q \<in> set qs2. qp_reliable q = retransmit \<and> link_ok (qp_packet q)"
        "ret2 = Accepted \<longrightarrow> map (\<lambda>q. pkt_header (qp_packet q)) qs2 = map (fragment_of h i n) [Suc k..<n] \<and>
          map (\<lambda>q. length (buf_content (pkt_body (qp_packet q)))) qs2 =
            map (\<lambda>j. min lim (buf_size (frm_body frame') - (j - Suc k) * lim)) [Suc k..<n] \<and>
          concat (map (\<lambda>q. buf_content (pkt_body (qp_packet q))) qs2) = buf_content (frm_body frame')"
        "generous sys \<and> linked s' \<and> (retransmit \<longrightarrow> (\<forall>j < n. hident (fragment_of h i n j) \<notin>
          ident ` set (rt_pending (ss_retransmission s0)))) \<longrightarrow> ret2 = Accepted"
        using less.hyps[OF _ q(1) f(1,2) _ step(5,6)] by (elim meta_impE exE conjE) blast
      have run: "queue_fragments sys ch retransmit lim n frame (int k - 1) s = Some (ret2, frame2, s2)"
        using step(1) True pos r(1) by (subst queue_fragments.simps) simp
      have up: "[k..<n] = k # [Suc k..<n]" using kn by (simp add: upt_conv_Cons)
      have sizes: "map (\<lambda>j. min lim (buf_size (frm_body frame') - (j - Suc k) * lim)) [Suc k..<n] =
          map (\<lambda>j. min lim (buf_size ?b - (j - k) * lim)) [Suc k..<n]"
      proof (rule map_cong)
        fix j assume "j \<in> set [Suc k..<n]"
        then have j: "j - k = Suc (j - Suc k)" by auto
        have "buf_size ?b - ?m - x * lim = buf_size ?b - (x * lim + lim)" for x using f(3) by (cases "buf_size ?b \<le> lim") auto
        then show "min lim (buf_size (frm_body frame') - (j - Suc k) * lim) = min lim (buf_size ?b - (j - k) * lim)"
          unfolding j f(3) by simp
      qed simp
      have "staged s0 (qs @ (q # qs2)) s2" using r(2) by simp
      moreover have "length (q # qs2) \<le> n - k" using r(3) kn by simp
      moreover have "\<forall>q \<in> set (q # qs2). qp_reliable q = retransmit \<and> link_ok (qp_packet q)" using r(4) q(4,5) by simp
      moreover have "ret2 = Accepted \<longrightarrow> map (\<lambda>q. pkt_header (qp_packet q)) (q # qs2) = map (fragment_of h i n) [k..<n] \<and>
          map (\<lambda>q. length (buf_content (pkt_body (qp_packet q)))) (q # qs2) =
            map (\<lambda>j. min lim (buf_size ?b - (j - k) * lim)) [k..<n] \<and>
          concat (map (\<lambda>q. buf_content (pkt_body (qp_packet q))) (q # qs2)) = buf_content ?b"
        using r(5) q(2,3) f(4) len unfolding up sizes by (simp add: min_def)
      moreover have "generous sys \<and> linked s \<and> (retransmit \<longrightarrow> (\<forall>j < n. hident (fragment_of h i n j) \<notin>
          ident ` set (rt_pending (ss_retransmission s0)))) \<longrightarrow> ret2 = Accepted" using r(6) step(7) by simp
      ultimately show ?thesis using run by (intro exI conjI)
    qed
  qed
qed

section \<open>Admission of a frame\<close>

lemma register_loop_counters:
  "out_reliableId (fst (register_loop ids o')) = out_reliableId o' \<and> out_unreliableId (fst (register_loop ids o')) = out_unreliableId o'"
  by (induction ids arbitrary: o') (simp_all add: case_prod_unfold)

lemma Register_counters: "id_counter t (fst (IHS_OutgoingRegister o' ch)) = id_counter t o'"
  using register_loop_counters[of "[0..<Suc ch]" o'] by (simp add: IHS_OutgoingRegister_def id_counter_def)

lemma register_fields [simp]:
  "id_counter t (ss_outgoing (session_register sys ch s)) = id_counter t (ss_outgoing s)"
  "ss_mtu (session_register sys ch s) = ss_mtu s"
  "lk_crcRequired (cn_link (ss_conn (session_register sys ch s))) = lk_crcRequired (cn_link (ss_conn s))"
  using register_shape[of sys ch s] Register_counters[of t "ss_outgoing s" ch] by (auto simp: set_env_def set_outgoing_def)

definition frame_ok :: "nat \<Rightarrow> session_frame \<Rightarrow> bool" where
  "frame_ok ch frame \<longleftrightarrow> frame_header_ok ch (frm_header frame) \<and> hdr_autoPacketId (frm_header frame) \<and>
     hdr_fragmentId (frm_header frame) = 0 \<and> buf_wf (frm_body frame) \<and> buf_offset (frm_body frame) = 13 \<and>
     buf_suffix (frm_body frame) = (if hdr_hasCrc (frm_header frame) then 4 else 0) \<and>
     13 + buf_size (frm_body frame) + 4 < buf_capacity (frm_body frame)"

lemma frame_crc_spec:
  assumes ok: "frame_ok ch frame"
  obtains f where "frame_crc sys frame s = Some f" "frame_ok ch f" "buf_content (frm_body f) = buf_content (frm_body frame)"
    "buf_size (frm_body f) = buf_size (frm_body frame)"
    "frm_header f = (frm_header frame)\<lparr>hdr_hasCrc := hdr_hasCrc (frm_header frame) \<or> lk_crcRequired (cn_link (ss_conn s))\<rparr>"
proof (cases "lk_crcRequired (cn_link (ss_conn s)) \<and> \<not> hdr_hasCrc (frm_header frame)")
  case True
  let ?b = "frm_body frame"
  have b: "buf_wf ?b" "buf_offset ?b = 13" "13 + buf_size ?b + 4 < buf_capacity ?b" using ok by (simp_all add: frame_ok_def)
  have "IHS_BufferSetSuffixLength (ss_mem sys) ?b 4 = Some (?b\<lparr>buf_suffix := 4\<rparr>)"
    using SetSuffixLength_fits[OF b(1), of 4] b by simp
  moreover have "buf_wf (?b\<lparr>buf_suffix := 4\<rparr>)" using b by (auto simp: buf_wf_def split: option.splits)
  ultimately show ?thesis
    using that[of "frame\<lparr>frm_header := (frm_header frame)\<lparr>hdr_hasCrc := True\<rparr>, frm_body := ?b\<lparr>buf_suffix := 4\<rparr>\<rparr>"] True ok
    by (auto simp: frame_crc_def frame_ok_def frame_header_ok_def buf_content_def split: option.splits)
next
  case False
  then have "frm_header frame = (frm_header frame)\<lparr>hdr_hasCrc := hdr_hasCrc (frm_header frame) \<or> lk_crcRequired (cn_link (ss_conn s))\<rparr>"
    by (cases "hdr_hasCrc (frm_header frame)") (auto intro: packet_header.equality)
  then show ?thesis using that[of frame] False ok by (auto simp: frame_crc_def)
qed

lemma packets_needed:
  fixes lim m :: nat
  assumes "0 < lim"
  shows "m div lim + (if m mod lim \<noteq> 0 then 1 else 0) = (m + lim - 1) div lim"
proof -
  have "m + lim - 1 = m div lim * lim + (m mod lim + (lim - 1))" using assms by simp
  then have "(m + lim - 1) div lim = m div lim + (m mod lim + (lim - 1)) div lim" using assms by (metis div_mult_self3 less_numeral_extra(3))
  moreover have "(m mod lim + (lim - 1)) div lim = (if m mod lim \<noteq> 0 then 1 else 0)"
  proof (cases "m mod lim = 0")
    case False
    then show ?thesis using assms mod_less_divisor[OF assms, of m] by (simp add: div_nat_eqI)
  qed (use assms in simp)
  ultimately show ?thesis by simp
qed

text \<open>The items that a frame with header \<open>h\<close>, first identifier \<open>i\<close> and payload \<open>d\<close> is queued as.\<close>

definition cut_frame :: "packet_header \<Rightarrow> u16 \<Rightarrow> nat \<Rightarrow> bytes \<Rightarrow> bool \<Rightarrow> queued_packet list \<Rightarrow> bool" where
  "cut_frame h i lim d retransmit items \<longleftrightarrow>
     length items = max 1 ((length d + lim - 1) div lim) \<and>
     map (\<lambda>q. pkt_header (qp_packet q)) items = map (fragment_of h i (length items)) [0..<length items] \<and>
     map (\<lambda>q. length (buf_content (pkt_body (qp_packet q)))) items = map (\<lambda>j. min lim (length d - j * lim)) [0..<length items] \<and>
     concat (map (\<lambda>q. buf_content (pkt_body (qp_packet q))) items) = d \<and>
     (\<forall>q \<in> set items. qp_reliable q = retransmit \<and> link_ok (qp_packet q)) \<and>
     map qp_batchCount items = (if retransmit \<and> hdr_type h = IHS_SessionPacketTypeReliable
       then length items # replicate (length items - 1) 0 else replicate (length items) 1)"

text \<open>The part between opening and closing the batch.\<close>

lemma stage_frame:
  fixes s :: "'n session" and frame :: session_frame
  defines "d \<equiv> buf_content (frm_body frame)" and "h \<equiv> frm_header frame" and "sz \<equiv> buf_size (frm_body frame)"
  assumes live: "live_alloc (ss_mem sys)" and st: "staged s0 [] s"
    and h: "frame_header_ok ch h" "hdr_packetId h = i" "\<not> hdr_autoPacketId h" "hdr_fragmentId h = 0"
    and b: "buf_wf (frm_body frame)" "buf_offset (frm_body frame) = 13"
      "buf_suffix (frm_body frame) = (if hdr_hasCrc h then 4 else 0)" "13 + sz + 4 < buf_capacity (frm_body frame)"
    and lim: "0 < lim" "lim \<le> 1455" and n: "(sz + lim - 1) div lim \<le> 32767"
    and ids: "length (id_counter (hdr_type h) (ss_outgoing s)) = 32" "id_counter (hdr_type h) (ss_outgoing s) ! ch = i + 1"
  shows "\<exists>ret frame' s' qs. (if sz \<le> lim then queue_whole sys frame retransmit s
       else SessionChannelQueueFramePackets sys ch frame lim retransmit s) = Some (ret, frame', s') \<and>
     staged s0 qs s' \<and> length qs \<le> 32767 \<and>
     (generous sys \<and> linked s \<and> (retransmit \<longrightarrow> (\<forall>j < max 1 ((sz + lim - 1) div lim).
        hident (fragment_of h i (max 1 ((sz + lim - 1) div lim)) j) \<notin> ident ` set (rt_pending (ss_retransmission s0)))) \<longrightarrow> ret = Accepted) \<and>
     (ret = Accepted \<longrightarrow> length qs = max 1 ((sz + lim - 1) div lim) \<and>
        map (\<lambda>q. pkt_header (qp_packet q)) qs = map (fragment_of h i (length qs)) [0..<length qs] \<and>
        map (\<lambda>q. length (buf_content (pkt_body (qp_packet q)))) qs = map (\<lambda>j. min lim (sz - j * lim)) [0..<length qs] \<and>
        concat (map (\<lambda>q. buf_content (pkt_body (qp_packet q))) qs) = d \<and>
        (\<forall>q \<in> set qs. qp_reliable q = retransmit \<and> link_ok (qp_packet q)))"
proof (cases "sz \<le> lim")
  case True
  let ?p = "zero_packet\<lparr>pkt_header := h, pkt_body := frm_body frame\<rparr>"
  have "hdr_channelId h < 256"
  proof -
    have "ch < 32" "hdr_channelId h = of_nat ch" using h(1) by (simp_all add: frame_header_ok_def)
    then show ?thesis by (simp add: word_less_nat_alt unat_of_nat)
  qed
  then have q: "queueable ?p" using h b True lim(2) by (auto simp: queueable_def clone_ok_def sz_def)
  have ok: "link_ok ?p" using b by (simp add: link_ok_def sendable_def sz_def)
  obtain ret p' s' where r: "IHS_SessionQueuePacketResult sys ?p retransmit s = Some (ret, p', s')"
    "\<exists>c. IHS_SessionPacketClear p' True = Some c" "ret \<noteq> Accepted \<longrightarrow> staged s0 [] s'"
    "ret = Accepted \<longrightarrow> (\<exists>q. staged s0 ([] @ [q]) s' \<and> qp_reliable q = retransmit \<and> qp_batchCount q = 1 \<and> qp_packet q = ?p)"
    "ss_outgoing s' = ss_outgoing s" "linked s' \<longleftrightarrow> linked s"
    "generous sys \<and> linked s \<and> (retransmit \<longrightarrow> hident (pkt_header ?p) \<notin> ident ` set (rt_pending (ss_retransmission s))) \<longrightarrow> ret = Accepted"
    by (rule QueuePacket_staged[OF st q live, of retransmit])
  have run: "\<exists>frame'. queue_whole sys frame retransmit s = Some (ret, frame', s')"
    using r(1,2) by (auto simp: queue_whole_def h_def)
  have "(sz + lim - 1) div lim \<le> 1"
  proof -
    have "sz + lim - 1 < 2 * lim" using True lim(1) by simp
    then have "(sz + lim - 1) div lim < 2" by (rule less_mult_imp_div_less)
    then show ?thesis by simp
  qed
  then have one: "max 1 ((sz + lim - 1) div lim) = 1" by simp
  have hd: "fragment_of h i 1 0 = h" using h(2,4) by (auto simp: fragment_of_def intro: packet_header.equality)
  have old: "rt_pending (ss_retransmission s) = rt_pending (ss_retransmission s0)" using st by (auto simp: staged_def)
  have len: "length d = sz" using length_buf_content[OF b(1)] by (simp add: d_def sz_def)
  show ?thesis
  proof (cases "ret = Accepted")
    case False
    then have "\<not> (generous sys \<and> linked s \<and> (retransmit \<longrightarrow> hident h \<notin> ident ` set (rt_pending (ss_retransmission s0))))"
      using r(7) old by auto
    then show ?thesis using run r(3) True False unfolding one by (auto simp: hd[simplified] intro!: exI[of _ "[]"])
  next
    case acc: True
    obtain q where q: "staged s0 [q] s'" "qp_reliable q = retransmit" "qp_packet q = ?p" using r(4) acc by auto
    then show ?thesis using run True acc ok len unfolding one
      by (auto simp: hd[simplified] d_def min_def intro!: exI[of _ "[q]"])
  qed
next
  case False
  let ?n = "(sz + lim - 1) div lim"
  have "0 < ?n" unfolding div_greater_zero_iff using False lim(1) by simp
  then have n1: "max 1 ?n = ?n" by simp
  have zero: "0 + (buf_size (frm_body frame) + lim - 1) div lim = ?n" by (simp add: sz_def)
  have c0: "id_counter (hdr_type h) (ss_outgoing s) ! ch = i + of_nat (max 1 0)" using ids(2) by simp
  have hf: "frm_header frame = h" by (simp add: h_def)
  have e0: "map (\<lambda>q. pkt_header (qp_packet q)) [] = map (fragment_of h i ?n) [0..<0]" by simp
  obtain ret frame' s' qs where r: "queue_fragments sys ch retransmit lim ?n frame (int 0 - 1) s = Some (ret, frame', s')"
    "staged s0 ([] @ qs) s'" "length qs \<le> ?n - 0" "\<forall>q \<in> set qs. qp_reliable q = retransmit \<and> link_ok (qp_packet q)"
    "generous sys \<and> linked s \<and> (retransmit \<longrightarrow> (\<forall>j < ?n. hident (fragment_of h i ?n j) \<notin>
       ident ` set (rt_pending (ss_retransmission s0)))) \<longrightarrow> ret = Accepted"
    "ret = Accepted \<longrightarrow> map (\<lambda>q. pkt_header (qp_packet q)) qs = map (fragment_of h i ?n) [0..<?n] \<and>
        map (\<lambda>q. length (buf_content (pkt_body (qp_packet q)))) qs =
          map (\<lambda>j. min lim (buf_size (frm_body frame) - (j - 0) * lim)) [0..<?n] \<and>
        concat (map (\<lambda>q. buf_content (pkt_body (qp_packet q))) qs) = buf_content (frm_body frame)"
    using queue_fragments_spec[OF live h(1,2,3) lim n st hf b(1) zero ids(1) c0 e0, of retransmit] by (elim exE conjE)
  have run: "SessionChannelQueueFramePackets sys ch frame lim retransmit s = Some (ret, frame', s')"
    using r(1) n by (simp add: SessionChannelQueueFramePackets_def sz_def)
  have len: "length qs = ?n" if "ret = Accepted" using r(6) that by (metis length_map length_upt diff_zero)
  show ?thesis
    using run r(2,3,4,5,6) False n len unfolding n1
    by (intro exI[of _ ret] exI[of _ frame'] exI[of _ s'] exI[of _ qs]) (auto simp: d_def sz_def)
qed

lemma numbered_map:
  assumes "\<And>k q. f (q\<lparr>qp_batchCount := k\<rparr>) = f q"
  shows "map f (map (\<lambda>(k, q). q\<lparr>qp_batchCount := g k\<rparr>) (zip [0..<length qs] qs)) = map f qs"
  by (rule nth_equalityI) (simp_all add: assms)

lemma numbered_counts: "map qp_batchCount (map (\<lambda>(k, q). q\<lparr>qp_batchCount := g k\<rparr>) (zip [0..<length qs] qs)) = map g [0..<length qs]"
  by (rule nth_equalityI) simp_all

lemma counts_of: "0 < n \<Longrightarrow> map (\<lambda>k. if grp then (if k = 0 then n else 0) else 1) [0..<n] = (if grp then n # replicate (n - 1) 0 else replicate n 1)"
  by (rule nth_equalityI) (auto simp: nth_Cons split: nat.splits)

lemma publish_cut:
  assumes qs: "length qs = max 1 ((length d + lim - 1) div lim)"
    "map (\<lambda>q. pkt_header (qp_packet q)) qs = map (fragment_of h i (length qs)) [0..<length qs]"
    "map (\<lambda>q. length (buf_content (pkt_body (qp_packet q)))) qs = map (\<lambda>j. min lim (length d - j * lim)) [0..<length qs]"
    "concat (map (\<lambda>q. buf_content (pkt_body (qp_packet q))) qs) = d"
    "\<forall>q \<in> set qs. qp_reliable q = retransmit \<and> link_ok (qp_packet q)"
    and h: "frame_header_ok ch h"
  obtains items where "publish (grouped qs) (length qs) 0 qs s = s\<lparr>ss_sendQueue := ss_sendQueue s @ items\<rparr>"
    "cut_frame h i lim d retransmit items" "map (\<lambda>q. pkt_header (qp_packet q)) items = map (\<lambda>q. pkt_header (qp_packet q)) qs"
proof -
  let ?g = "\<lambda>k. if grouped qs then (if k = 0 then length qs else 0) else (1::nat)"
  define items where "items = map (\<lambda>(k, q). q\<lparr>qp_batchCount := ?g k\<rparr>) (zip [0..<length qs] qs)"
  have len: "length items = length qs" by (simp add: items_def)
  have pos: "0 < length qs" using qs(1) by simp
  then obtain q rest where cons: "qs = q # rest" by (cases qs) auto
  have "pkt_header (qp_packet q) = fragment_of h i (length qs) 0" using qs(2) cons by (simp add: upt_rec)
  then have "hdr_type (pkt_header (qp_packet q)) = hdr_type h" by (simp add: fragment_of_def)
  then have grp: "grouped qs \<longleftrightarrow> retransmit \<and> hdr_type h = 5"
    using qs(5) cons h by (auto simp: grouped_def frame_header_ok_def)
  have maps: "map (\<lambda>q. pkt_header (qp_packet q)) items = map (\<lambda>q. pkt_header (qp_packet q)) qs"
    "map (\<lambda>q. buf_content (pkt_body (qp_packet q))) items = map (\<lambda>q. buf_content (pkt_body (qp_packet q))) qs"
    "map (\<lambda>q. length (buf_content (pkt_body (qp_packet q)))) items = map (\<lambda>q. length (buf_content (pkt_body (qp_packet q)))) qs"
    "map qp_reliable items = map qp_reliable qs" "map qp_packet items = map qp_packet qs"
    unfolding items_def by (rule numbered_map, simp)+
  have all: "\<forall>q \<in> set items. qp_reliable q = retransmit \<and> link_ok (qp_packet q)"
  proof
    fix x assume "x \<in> set items"
    then obtain k where k: "k < length qs" "x = items ! k" using len by (metis in_set_conv_nth)
    have "qp_reliable x = qp_reliable (qs ! k)" "qp_packet x = qp_packet (qs ! k)"
      using maps(4,5) k len by (metis nth_map)+
    then show "qp_reliable x = retransmit \<and> link_ok (qp_packet x)" using qs(5) k(1) by simp
  qed
  have counts: "map qp_batchCount items = (if retransmit \<and> hdr_type h = 5 then length items # replicate (length items - 1) 0
      else replicate (length items) 1)"
    unfolding items_def numbered_counts counts_of[OF pos] using grp by (simp add: map_replicate_const)
  have "cut_frame h i lim d retransmit items"
    unfolding cut_frame_def using qs(1-4) maps(1-3) all counts by (simp add: len)
  moreover have "publish (grouped qs) (length qs) 0 qs s = s\<lparr>ss_sendQueue := ss_sendQueue s @ items\<rparr>"
    by (simp add: publish_queue items_def)
  ultimately show thesis using that maps(1) by blast
qed

end
