(* ===== verification/Frame_Admission.thy ===== *)
theory Frame_Admission
  imports Send_Queue_Props
begin

text \<open>
  The admission of a frame from end to end: the branches of \<^verbatim>\<open>IHS_SessionChannelQueueFrameResult\<close>, and the
  theorem that a frame is queued whole or not at all.
\<close>

section \<open>The branches on a connected session\<close>

lemma QueueFrame_branches:
  assumes lk: "linked s" and mtu: "512 \<le> ss_mtu s" and batch: "ss_sendBatch s = None"
    and f: "frame_crc sys frame (session_register sys ch s) = Some f"
    and al: "may_alloc sys (session_register sys ch s) = (al, s2)"
  defines "lim \<equiv> nat (ss_mtu s - 17)" and "sz \<equiv> buf_size (frm_body f)"
  shows "32767 < (sz + lim - 1) div lim \<Longrightarrow>
      IHS_SessionChannelQueueFrameResult sys ch frame retransmit s = Some (TooLarge, f, session_register sys ch s)"
    and "(sz + lim - 1) div lim \<le> 32767 \<Longrightarrow> \<not> al \<Longrightarrow>
      IHS_SessionChannelQueueFrameResult sys ch frame retransmit s = Some (LocalFailure, f, s2)"
    and "(sz + lim - 1) div lim \<le> 32767 \<Longrightarrow> al \<Longrightarrow> frame_auto_id ch f (s2\<lparr>ss_sendBatch := Some []\<rparr>) = (g, s4) \<Longrightarrow>
      (if sz \<le> lim then queue_whole sys g retransmit s4
       else SessionChannelQueueFramePackets sys ch g lim retransmit s4) = Some (ret, frame', s5) \<Longrightarrow>
      IHS_SessionChannelQueueFrameResult sys ch frame retransmit s =
        do { s \<leftarrow> IHS_SessionSendBatchEnd (ret = Accepted) s5; Some (ret, frame', s) }"
proof -
  define s1 where "s1 = session_register sys ch s"
  have m: "(if ss_mtu s1 > 0 then ss_mtu s1 else 1024) = ss_mtu s" "assert_that (ss_mtu s - int 13 - 4 > 0) = Some ()"
    "nat (ss_mtu s - int 13 - 4) = lim" "0 < lim"
    using mtu by (simp_all add: s1_def lim_def)
  have g: "(lk_detached (cn_link (ss_conn s)) \<or> IHS_SessionTransportState (ss_conn s) \<noteq> TransportConnected) = False"
    using lk by (simp add: linked_def)
  have b: "assert_that (ss_sendBatch s1 = None) = Some ()"
    using batch register_queues[of sys ch s] by (simp add: queues_def s1_def)
  note run = IHS_SessionChannelQueueFrameResult_def Let_def s1_def[symmetric] f[folded s1_def] Option.bind.simps(2) m(1,2,3)
      packets_needed[OF m(4)] IHS_SessionSendBatchBegin_def g if_False sz_def[symmetric] b al[folded s1_def] prod.case
  show "IHS_SessionChannelQueueFrameResult sys ch frame retransmit s = Some (TooLarge, f, session_register sys ch s)"
    if "32767 < (sz + lim - 1) div lim" using that unfolding run by simp
  show "IHS_SessionChannelQueueFrameResult sys ch frame retransmit s = Some (LocalFailure, f, s2)"
    if "(sz + lim - 1) div lim \<le> 32767" "\<not> al" using that unfolding run by simp
  show "IHS_SessionChannelQueueFrameResult sys ch frame retransmit s =
        do { s \<leftarrow> IHS_SessionSendBatchEnd (ret = Accepted) s5; Some (ret, frame', s) }"
    if "(sz + lim - 1) div lim \<le> 32767" "al" "frame_auto_id ch f (s2\<lparr>ss_sendBatch := Some []\<rparr>) = (g, s4)"
      "(if sz \<le> lim then queue_whole sys g retransmit s4
       else SessionChannelQueueFramePackets sys ch g lim retransmit s4) = Some (ret, frame', s5)"
  proof -
    have n: "\<not> 32767 < (sz + lim - 1) div lim" using that(1) by simp
    have a: "al = True" using that(2) by simp
    show ?thesis unfolding run if_not_P[OF n] unfolding a if_True not_True_eq_False if_False Option.bind.simps prod.case that(3) that(4) ..
  qed
qed

section \<open>The outcome\<close>

text \<open>
  What the offer of a frame with header \<open>h\<close> and payload \<open>d\<close> does to the send queue and the
  retransmission store.
\<close>

definition admission ::
    "packet_header \<Rightarrow> nat \<Rightarrow> bytes \<Rightarrow> bool \<Rightarrow> send_admission \<Rightarrow> 'n session \<Rightarrow> 'n session \<Rightarrow> bool" where
  "admission h lim d retransmit ret s s' \<longleftrightarrow> ss_sendBatch s' = None \<and> rt_inv [] (ss_retransmission s') \<and>
     (if ret = Accepted then \<exists>items new. ss_sendQueue s' = ss_sendQueue s @ items \<and>
         cut_frame h (hdr_packetId h) lim d retransmit items \<and>
         rt_pending (ss_retransmission s') = new @ rt_pending (ss_retransmission s) \<and>
         map ident new = (if retransmit then rev (map (\<lambda>q. hident (pkt_header (qp_packet q))) items) else []) \<and>
         (\<forall>p \<in> set new. \<not> pnd_ready p \<and> \<not> pnd_initialSent p)
      else ss_sendQueue s' = ss_sendQueue s \<and> rt_pending (ss_retransmission s') = rt_pending (ss_retransmission s))"

text \<open>The identifiers of the \<open>n\<close> packets of a frame are not pending.\<close>

definition unused :: "packet_header \<Rightarrow> nat \<Rightarrow> 'n session \<Rightarrow> bool" where
  "unused h n s \<longleftrightarrow> (\<forall>j < n. hident (fragment_of h (hdr_packetId h) n j) \<notin> ident ` set (rt_pending (ss_retransmission s)))"

lemma refused:
  assumes "ret \<noteq> Accepted" "queues s' = queues s" "ss_sendBatch s = None" "rt_inv [] (ss_retransmission s)"
  shows "admission h lim d retransmit ret s s'"
  using assms by (simp add: admission_def queues_def)

lemma BatchEnd_admission:
  assumes st: "staged s qs s5" and len: "length qs \<le> 32767" and h: "frame_header_ok ch h" "hdr_packetId h = i"
    and qs: "ret = Accepted \<longrightarrow> length qs = max 1 ((length d + lim - 1) div lim) \<and>
            map (\<lambda>q. pkt_header (qp_packet q)) qs = map (fragment_of h i (length qs)) [0..<length qs] \<and>
            map (\<lambda>q. length (buf_content (pkt_body (qp_packet q)))) qs = map (\<lambda>j. min lim (length d - j * lim)) [0..<length qs] \<and>
            concat (map (\<lambda>q. buf_content (pkt_body (qp_packet q))) qs) = d \<and>
            (\<forall>q \<in> set qs. qp_reliable q = retransmit \<and> link_ok (qp_packet q))"
  obtains s' where "IHS_SessionSendBatchEnd (ret = Accepted) s5 = Some s'" "admission h lim d retransmit ret s s'"
proof -
  have s5: "ss_sendBatch s5 = Some qs" "ss_sendQueue s5 = ss_sendQueue s" using st by (simp_all add: staged_def)
  show thesis
  proof (cases "ret = Accepted")
    case False
    obtain s6 where s6: "give_up qs (s5\<lparr>ss_sendBatch := None\<rparr>) = Some s6" "ss_sendQueue s6 = ss_sendQueue s" "ss_sendBatch s6 = None"
      "rt_pending (ss_retransmission s6) = rt_pending (ss_retransmission s)" "rt_inv [] (ss_retransmission s6)"
      using give_up_staged[OF st] by blast
    have "IHS_SessionSendBatchEnd (ret = Accepted) s5 = Some s6"
      using s6(1) s5 len False by (simp add: IHS_SessionSendBatchEnd_def Let_def)
    then show thesis by (rule that) (use s6 False in \<open>simp add: admission_def\<close>)
  next
    case True
    have q: "length qs = max 1 ((length d + lim - 1) div lim)"
      "map (\<lambda>q. pkt_header (qp_packet q)) qs = map (fragment_of h i (length qs)) [0..<length qs]"
      "map (\<lambda>q. length (buf_content (pkt_body (qp_packet q)))) qs = map (\<lambda>j. min lim (length d - j * lim)) [0..<length qs]"
      "concat (map (\<lambda>q. buf_content (pkt_body (qp_packet q))) qs) = d"
      "\<forall>q \<in> set qs. qp_reliable q = retransmit \<and> link_ok (qp_packet q)" using qs True by simp_all
    let ?s5 = "s5\<lparr>ss_sendBatch := None\<rparr>"
    obtain items where it: "publish (grouped qs) (length qs) 0 qs ?s5 = ?s5\<lparr>ss_sendQueue := ss_sendQueue ?s5 @ items\<rparr>"
      "cut_frame h i lim d retransmit items" "map (\<lambda>q. pkt_header (qp_packet q)) items = map (\<lambda>q. pkt_header (qp_packet q)) qs"
      by (rule publish_cut[OF q h(1), of ?s5])
    have fin: "IHS_SessionSendBatchEnd (ret = Accepted) s5 = Some (?s5\<lparr>ss_sendQueue := ss_sendQueue ?s5 @ items\<rparr>)"
      using s5 len True it(1) by (simp add: IHS_SessionSendBatchEnd_def Let_def)
    obtain new where new: "rt_pending (ss_retransmission s5) = new @ rt_pending (ss_retransmission s)"
      "\<forall>p \<in> set new. \<not> pnd_ready p \<and> \<not> pnd_initialSent p"
      "map ident new = rev (map (\<lambda>q. hident (pkt_header (qp_packet q))) (filter qp_reliable qs))"
      using st unfolding staged_def by blast
    have "filter qp_reliable qs = (if retransmit then qs else [])" using q(5) by (auto simp: filter_id_conv filter_empty_conv)
    moreover have "map (\<lambda>q. hident (pkt_header (qp_packet q))) items = map (\<lambda>q. hident (pkt_header (qp_packet q))) qs"
      using arg_cong[OF it(3), of "map hident"] by (simp add: comp_def)
    ultimately have "map ident new = (if retransmit then rev (map (\<lambda>q. hident (pkt_header (qp_packet q))) items) else [])"
      using new(3) by simp
    moreover have "rt_inv [] (ss_retransmission s5)" using st by (simp add: staged_def)
    ultimately show thesis using s5(2) it(2) new(1,2) True h(2) by (intro that[OF fin]) (auto simp: admission_def)
  qed
qed

text \<open>The frame as it is staged: with its checksum suffix and its identifier.\<close>

definition outgoing_header :: "nat \<Rightarrow> packet_header \<Rightarrow> 'n session \<Rightarrow> packet_header" where
  "outgoing_header ch h s = h\<lparr>hdr_hasCrc := hdr_hasCrc h \<or> lk_crcRequired (cn_link (ss_conn s)),
     hdr_packetId := id_counter (hdr_type h) (ss_outgoing s) ! ch, hdr_autoPacketId := False\<rparr>"

lemma staged_frame:
  fixes s :: "'n session" and frame :: session_frame
  assumes live: "live_alloc (ss_mem sys)" and inv: "rt_inv [] (ss_retransmission s)"
    and f: "frame_ok ch f" "buf_content (frm_body f) = d"
      "frm_header f = (frm_header frame)\<lparr>hdr_hasCrc := hdr_hasCrc (frm_header frame) \<or> lk_crcRequired (cn_link (ss_conn s))\<rparr>"
    and s3: "ss_sendBatch s3 = Some []" "ss_sendQueue s3 = ss_sendQueue s" "ss_retransmission s3 = ss_retransmission s" "linked s3"
    and idc: "length (id_counter (hdr_type (frm_header frame)) (ss_outgoing s)) = 32"
      "id_counter (hdr_type (frm_header frame)) (ss_outgoing s3) = id_counter (hdr_type (frm_header frame)) (ss_outgoing s)"
    and lim: "0 < lim" "lim \<le> 1455" and fits: "(length d + lim - 1) div lim \<le> 32767"
  defines "h \<equiv> outgoing_header ch (frm_header frame) s" and "n \<equiv> max 1 ((length d + lim - 1) div lim)"
  obtains g s4 ret frame' s5 s' where "frame_auto_id ch f s3 = (g, s4)"
    "(if buf_size (frm_body f) \<le> lim then queue_whole sys g retransmit s4
      else SessionChannelQueueFramePackets sys ch g lim retransmit s4) = Some (ret, frame', s5)"
    "IHS_SessionSendBatchEnd (ret = Accepted) s5 = Some s'" "admission h lim d retransmit ret s s'"
    "generous sys \<and> (retransmit \<longrightarrow> unused h n s) \<longrightarrow> ret = Accepted"
proof -
  let ?t = "hdr_type (frm_header frame)"
  have ch: "ch < 32" and t: "hdr_type (frm_header f) = ?t" and au: "hdr_autoPacketId (frm_header f)" and wf: "buf_wf (frm_body f)"
    using f(1,3) by (simp_all add: frame_ok_def frame_header_ok_def)
  have len: "buf_size (frm_body f) = length d" using length_buf_content[OF wf] f(2) by simp
  define i where "i = id_counter ?t (ss_outgoing s) ! ch"
  have ids3: "length (id_counter ?t (ss_outgoing s3)) = 32" using idc by simp
  obtain s4 where s4: "frame_id ch ?t s3 = (id_counter ?t (ss_outgoing s3) ! ch, s4)" "queues s4 = queues s3"
    "id_counter ?t (ss_outgoing s4) = (id_counter ?t (ss_outgoing s3))[ch := id_counter ?t (ss_outgoing s3) ! ch + 1]" "linked s4 \<longleftrightarrow> linked s3"
    using frame_id_spec[OF ch ids3] by metis
  define g where "g = f\<lparr>frm_header := h\<rparr>"
  have hh: "h = (frm_header f)\<lparr>hdr_packetId := i, hdr_autoPacketId := False\<rparr>" unfolding f(3) h_def i_def outgoing_header_def by simp
  have g: "frame_auto_id ch f s3 = (g, s4)" using au s4(1) t idc(2) by (simp add: frame_auto_id_def g_def hh i_def)
  have gb: "frm_body g = frm_body f" "frm_header g = h" by (simp_all add: g_def)
  have st: "staged s [] s4" using s4(2) s3 inv by (simp add: staged_def queues_def)
  have hg: "frame_header_ok ch h" "hdr_packetId h = i" "\<not> hdr_autoPacketId h" "hdr_fragmentId h = 0"
    using f(1) by (auto simp: hh frame_ok_def frame_header_ok_def)
  have bg: "buf_wf (frm_body g)" "buf_offset (frm_body g) = 13" "buf_suffix (frm_body g) = (if hdr_hasCrc h then 4 else 0)"
    "13 + buf_size (frm_body g) + 4 < buf_capacity (frm_body g)" using f(1) by (simp_all add: g_def hh frame_ok_def)
  have tg: "hdr_type h = ?t" using t by (simp add: hh)
  have ng: "(buf_size (frm_body g) + lim - 1) div lim \<le> 32767" using fits by (simp add: g_def len)
  have ig: "length (id_counter (hdr_type h) (ss_outgoing s4)) = 32" "id_counter (hdr_type h) (ss_outgoing s4) ! ch = i + 1"
    unfolding tg using s4(3) ids3 ch idc(2) by (simp_all add: i_def)
  obtain ret frame' s5 qs where r: "(if buf_size (frm_body g) \<le> lim then queue_whole sys g retransmit s4
       else SessionChannelQueueFramePackets sys ch g lim retransmit s4) = Some (ret, frame', s5)"
     "staged s qs s5" "length qs \<le> 32767"
     "generous sys \<and> linked s4 \<and> (retransmit \<longrightarrow> (\<forall>j < n. hident (fragment_of h i n j) \<notin> ident ` set (rt_pending (ss_retransmission s)))) \<longrightarrow> ret = Accepted"
     "ret = Accepted \<longrightarrow> length qs = n \<and>
        map (\<lambda>q. pkt_header (qp_packet q)) qs = map (fragment_of h i (length qs)) [0..<length qs] \<and>
        map (\<lambda>q. length (buf_content (pkt_body (qp_packet q)))) qs = map (\<lambda>j. min lim (length d - j * lim)) [0..<length qs] \<and>
        concat (map (\<lambda>q. buf_content (pkt_body (qp_packet q))) qs) = d \<and>
        (\<forall>q \<in> set qs. qp_reliable q = retransmit \<and> link_ok (qp_packet q))"
    using stage_frame[OF live st hg[folded gb(2)] bg[folded gb(2)] lim ng ig[folded gb(2)], of retransmit]
    unfolding gb len f(2) n_def[symmetric] by (elim exE conjE)
  obtain s' where s': "IHS_SessionSendBatchEnd (ret = Accepted) s5 = Some s'" "admission h lim d retransmit ret s s'"
    by (rule BatchEnd_admission[OF r(2,3) hg(1,2) r(5)[unfolded n_def]])
  show thesis
  proof (rule that[OF g _ s'])
    show "(if buf_size (frm_body f) \<le> lim then queue_whole sys g retransmit s4
      else SessionChannelQueueFramePackets sys ch g lim retransmit s4) = Some (ret, frame', s5)" using r(1) gb by simp
    show "generous sys \<and> (retransmit \<longrightarrow> unused h n s) \<longrightarrow> ret = Accepted"
      using r(4) s4(4) s3(4) hg(2) by (simp add: unused_def)
  qed
qed

text \<open>C7: A frame is admitted whole or not at all.  Offering a frame always returns.  If it is accepted, the
  send queue grows by packets with consecutive identifiers from the channel's counter, the first of
  which tells how many follow, that together carry exactly the payload of the frame, no packet more
  than the datagram size allows, and the retransmission store has got a copy of each of them that
  waits to be activated.  If not, for whatever reason and at whatever packet, the queue and the store
  are as they were.  A connected session with memory accepts every frame of up to 32767 packets
  whose identifiers are free.\<close>

theorem frame_admission:
  fixes s :: "'n session"
  assumes live: "live_alloc (ss_mem sys)" and inv: "rt_inv [] (ss_retransmission s)" and batch: "ss_sendBatch s = None"
    and ok: "frame_ok ch frame" and ids: "length (id_counter (hdr_type (frm_header frame)) (ss_outgoing s)) = 32"
    and mtu: "512 \<le> ss_mtu s" "ss_mtu s \<le> 1472"
    and h: "h = outgoing_header ch (frm_header frame) s" and lim: "lim = nat (ss_mtu s - 17)"
    and d: "d = buf_content (frm_body frame)" and n: "n = (length d + lim - 1) div lim"
  shows "\<exists>ret frame' s'. IHS_SessionChannelQueueFrameResult sys ch frame retransmit s = Some (ret, frame', s') \<and>
     admission h lim d retransmit ret s s' \<and>
     (generous sys \<and> linked s \<and> n \<le> 32767 \<and> (retransmit \<longrightarrow> unused h (max 1 n) s) \<longrightarrow> ret = Accepted)"
proof (cases "linked s")
  case False
  then have "IHS_SessionChannelQueueFrameResult sys ch frame retransmit s = Some (NotConnected, frame, s)"
    by (auto simp: IHS_SessionChannelQueueFrameResult_def linked_def)
  then show ?thesis using refused[OF _ refl batch inv] False by simp
next
  case True
  let ?s1 = "session_register sys ch s"
  obtain f where f: "frame_crc sys frame ?s1 = Some f" "frame_ok ch f" "buf_content (frm_body f) = d"
    "frm_header f = (frm_header frame)\<lparr>hdr_hasCrc := hdr_hasCrc (frm_header frame) \<or> lk_crcRequired (cn_link (ss_conn s))\<rparr>"
    unfolding d by (rule frame_crc_spec[OF ok, of sys ?s1]) (simp add: that)
  obtain al s2 where s2: "may_alloc sys ?s1 = (al, s2)" by fastforce
  obtain m where m: "s2 = set_env m ?s1" using env_only(1)[OF s2] by blast
  have q: "queues ?s1 = queues s" "queues s2 = queues s" using m by simp_all
  have lim0: "0 < lim" "lim \<le> 1455" using mtu by (simp_all add: lim)
  have len: "buf_size (frm_body f) = length d" using length_buf_content[of "frm_body f"] f(2,3) by (simp add: frame_ok_def)
  note branches = QueueFrame_branches[OF True mtu(1) batch f(1) s2, folded lim, unfolded len, folded n]
  consider "32767 < n" | "n \<le> 32767" "\<not> al" | "n \<le> 32767" "al" by linarith
  then show ?thesis
  proof cases
    case 1
    then show ?thesis using branches(1)[OF 1, of retransmit] refused[OF _ q(1) batch inv] by simp
  next
    case 2
    then show ?thesis using branches(2)[OF 2, of retransmit] refused[OF _ q(2) batch inv] generous_alloc[OF _ s2] by auto
  next
    case 3
    let ?s3 = "s2\<lparr>ss_sendBatch := Some []\<rparr>"
    have s3: "ss_sendBatch ?s3 = Some []" "ss_sendQueue ?s3 = ss_sendQueue s" "ss_retransmission ?s3 = ss_retransmission s" "linked ?s3"
      "id_counter (hdr_type (frm_header frame)) (ss_outgoing ?s3) = id_counter (hdr_type (frm_header frame)) (ss_outgoing s)"
      using q(2) m True by (simp_all add: queues_def)
    obtain g s4 ret frame' s5 s' where r: "frame_auto_id ch f ?s3 = (g, s4)"
      "(if buf_size (frm_body f) \<le> lim then queue_whole sys g retransmit s4
        else SessionChannelQueueFramePackets sys ch g lim retransmit s4) = Some (ret, frame', s5)"
      "IHS_SessionSendBatchEnd (ret = Accepted) s5 = Some s'" "admission h lim d retransmit ret s s'"
      "generous sys \<and> (retransmit \<longrightarrow> unused h (max 1 n) s) \<longrightarrow> ret = Accepted"
      by (rule staged_frame[OF live inv f(2,3,4) s3(1-4) ids s3(5) lim0 3(1)[unfolded n], of retransmit, folded h n])
    show ?thesis using branches(3)[OF 3 r(1) r(2)[unfolded len]] r(3,4,5) by simp
  qed
qed

text \<open>A frame of 1100 bytes on a session with datagrams of 1024 bytes takes two packets.\<close>

definition demo_large :: session_frame where
  "demo_large = \<lparr>frm_header = zero_header\<lparr>hdr_type := IHS_SessionPacketTypeReliable, hdr_channelId := 3, hdr_autoPacketId := True\<rparr>,
     frm_body = \<lparr>buf_data = Some (replicate 2048 7), buf_capacity = 2048, buf_offset = 13, buf_size = 1100, buf_suffix = 0,
       buf_initialCapacity = 2048, buf_maxCapacity = 0\<rparr>,
     frm_mediaOffset = 0, frm_mediaPrepared = False, frm_receivedRetries = 0\<rparr>"

lemma demo_large_ok: "frame_ok 3 demo_large"
  by (simp add: frame_ok_def frame_header_ok_def demo_large_def buf_wf_def zero_header_def)

lemma demo_large_length: "length (buf_content (frm_body demo_large)) = 1100"
  by (subst length_buf_content) (use demo_large_ok in \<open>simp_all add: frame_ok_def\<close>, simp add: demo_large_def)

theorem frame_admission_witness:
  "\<exists>frame' s'. IHS_SessionChannelQueueFrameResult demo_system 3 demo_large True demo_session = Some (Accepted, frame', s') \<and>
     length (ss_sendQueue s') = 2"
proof -
  let ?h = "outgoing_header 3 (frm_header demo_large) demo_session"
  have ids: "length (id_counter (hdr_type (frm_header demo_large)) (ss_outgoing demo_session)) = 32"
    using Register_counters[of 5 "IHS_OutgoingInit 0" 3]
    by (simp add: demo_session_def demo_out_def set_window_def demo_large_def id_counter_def IHS_OutgoingInit_def)
  have init: "live_alloc (ss_mem demo_system)" "rt_inv [] (ss_retransmission demo_session)" "ss_sendBatch demo_session = None"
    "512 \<le> ss_mtu demo_session" "ss_mtu demo_session \<le> 1472" "generous demo_system" "unused ?h (max 1 2) demo_session"
    "ss_sendQueue demo_session = []"
    using rt_inv_Init by (simp_all add: demo_system_def demo_session_def quiet_platform_def generous_def unused_def IHS_RetransmissionInit_def)
  have lk: "linked demo_session"
    using demo_connected by (simp add: linked_def conn_connected_def)
  obtain ret frame' s' where r: "IHS_SessionChannelQueueFrameResult demo_system 3 demo_large True demo_session = Some (ret, frame', s')"
    "admission ?h 1007 (buf_content (frm_body demo_large)) True ret demo_session s'"
    "generous demo_system \<and> linked demo_session \<and> (2::nat) \<le> 32767 \<and> (True \<longrightarrow> unused ?h (max 1 2) demo_session) \<longrightarrow> ret = Accepted"
    using frame_admission[OF init(1,2,3) demo_large_ok ids init(4,5) refl _ refl, of 1007 2 True] demo_large_length
    by (simp add: demo_session_def) (elim exE conjE)
  then have "ret = Accepted" using init lk by simp
  then show ?thesis using r(1,2) init(8) demo_large_length by (auto simp: admission_def cut_frame_def)
qed

end
