(* ===== verification/Receive_Props.thy ===== *)
theory Receive_Props
  imports Dispatch Frame_Admission FEC_Props
begin

text \<open>
  Safety of the receiving half: whatever arrives, the session stays well-formed, no assertion
  fails and no memory outside the buffers is touched.  The code behind the delegate may do anything
  that keeps the session well-formed and leaves the receive windows alone.
\<close>

section \<open>Well-formed sessions\<close>

definition channels_ok :: "channel option list \<Rightarrow> bool" where
  "channels_ok cs \<longleftrightarrow> 3 \<le> length cs \<and> None \<notin> set cs"

definition receiver_ok :: "unreliable_channel \<Rightarrow> bool" where
  "receiver_ok rx \<longleftrightarrow> window_inv (ur_window rx) \<and> fec_wf (ur_fec rx)"

text \<open>A well-formed buffer without a suffix: what payloads arrive in.\<close>

definition tidy :: "ihs_buffer \<Rightarrow> bool" where
  "tidy b \<longleftrightarrow> buf_wf b \<and> buf_suffix b = 0"

definition rx_ok :: "'n session \<Rightarrow> bool" where
  "rx_ok s \<longleftrightarrow> length (ss_reliable s) = 32 \<and> (\<forall>c \<in> set (ss_reliable s). \<forall>w. rl_window c = Some w \<longrightarrow> window_inv w) \<and>
     length (ss_unreliable s) = 32 \<and> (\<forall>rx. Some rx \<in> set (ss_unreliable s) \<longrightarrow> receiver_ok rx) \<and>
     channels_ok (ss_channels s) \<and> (\<forall>p \<in> set (ss_pendingData s). tidy (pkt_body p)) \<and>
     ss_pendingDataCount s = length (ss_pendingData s) \<and> length (ss_pendingData s) \<le> 320 \<and>
     clock_inv (cn_clock (ss_conn s))"

definition session_ok :: "'n system \<Rightarrow> 'n session \<Rightarrow> bool" where
  "session_ok sys s \<longleftrightarrow> tx_ok sys s \<and> rx_ok s"

text \<open>The receive windows are the same, and no channel is closed.\<close>

definition same_windows :: "'n session \<Rightarrow> 'n session \<Rightarrow> bool" where
  "same_windows s s' \<longleftrightarrow> map rl_window (ss_reliable s') = map rl_window (ss_reliable s) \<and>
     (\<forall>i rx. ss_unreliable s ! i = Some rx \<longrightarrow>
        (\<exists>rx'. ss_unreliable s' ! i = Some rx' \<and> ur_window rx' = ur_window rx \<and> ur_fec rx' = ur_fec rx))"

lemma same_windows_refl [simp]: "same_windows s s"
  by (simp add: same_windows_def)

lemma same_windows_trans: "same_windows s t \<Longrightarrow> same_windows t u \<Longrightarrow> same_windows s u"
  unfolding same_windows_def by metis

lemma same_windows_eq:
  "ss_reliable s' = ss_reliable s \<Longrightarrow> ss_unreliable s' = ss_unreliable s \<Longrightarrow> same_windows s s'"
  by (simp add: same_windows_def)

fun event_body :: "session_event \<Rightarrow> ihs_buffer option" where
  "event_body (ControlFrame f) = Some (frm_body f)"
| "event_body (TestFrame f) = Some (frm_body f)"
| "event_body (DataFrame c f) = Some (frm_body f)"
| "event_body (ChannelPacket c p) = Some (pkt_body p)"
| "event_body _ = None"

text \<open>What is expected of the code behind the delegate.\<close>

definition polite :: "'n system \<Rightarrow> 'n delegate \<Rightarrow> bool" where
  "polite sys up \<longleftrightarrow> (\<forall>e s. session_ok sys s \<and> (\<forall>b. event_body e = Some b \<longrightarrow> tidy b) \<longrightarrow>
     (\<exists>b s'. up e s = Some (b, s') \<and> tidy b \<and> (event_body e \<noteq> None \<longrightarrow> buf_maxCapacity b = buf_maxCapacity (the (event_body e))) \<and> session_ok sys s' \<and> same_windows s s'))"

text \<open>One operation: it returns, and the result is well-formed with the same windows.\<close>

definition safe :: "'n system \<Rightarrow> 'n session \<Rightarrow> 'n session option \<Rightarrow> bool" where
  "safe sys s r \<longleftrightarrow> (\<exists>s'. r = Some s' \<and> session_ok sys s' \<and> same_windows s s')"

text \<open>The part of the session that these notions look at.\<close>

definition core :: "'n session \<Rightarrow> outgoing \<times> stream_clock \<times> retransmission \<times> reliable_channel list \<times>
    unreliable_channel option list \<times> channel option list \<times> session_packet list \<times> nat" where
  "core s = (ss_outgoing s, cn_clock (ss_conn s), ss_retransmission s, ss_reliable s, ss_unreliable s, ss_channels s,
     ss_pendingData s, ss_pendingDataCount s)"

lemma core_ok:
  assumes "core t = core s"
  shows "session_ok sys t \<longleftrightarrow> session_ok sys s" "same_windows u t \<longleftrightarrow> same_windows u s"
  using assms by (simp_all add: core_def session_ok_def tx_ok_def rx_ok_def same_windows_def)

lemma session_ok_env [simp]:
  "session_ok sys (set_env n s) \<longleftrightarrow> session_ok sys s" "same_windows s (set_env n t) \<longleftrightarrow> same_windows s t"
  "session_ok sys (set_network nw s) \<longleftrightarrow> session_ok sys s" "same_windows s (set_network nw t) \<longleftrightarrow> same_windows s t"
  by (simp_all add: session_ok_def rx_ok_def tx_ok_def set_env_def set_network_def same_windows_def)

lemma session_ok_reliable:
  assumes "session_ok sys s" "length rl = 32" "map rl_window rl = map rl_window (ss_reliable s)"
  shows "session_ok sys (s\<lparr>ss_reliable := rl\<rparr>)" "same_windows s (s\<lparr>ss_reliable := rl\<rparr>)"
proof -
  have "rl_window ` set rl = rl_window ` set (ss_reliable s)" using assms(3) by (metis list.set_map)
  then have "\<forall>c \<in> set rl. \<forall>w. rl_window c = Some w \<longrightarrow> window_inv w" 
    using assms(1) by (auto simp: session_ok_def rx_ok_def image_iff) (metis image_eqI image_iff)
  then show "session_ok sys (s\<lparr>ss_reliable := rl\<rparr>)" using assms(1,2) by (simp add: session_ok_def rx_ok_def tx_ok_def)
  show "same_windows s (s\<lparr>ss_reliable := rl\<rparr>)" using assms(3) by (simp add: same_windows_def)
qed

lemma session_ok_upd:
  assumes "session_ok sys s" "rl_window (f (ss_reliable s ! ch)) = rl_window (ss_reliable s ! ch)"
  shows "session_ok sys (upd_reliable ch f s)" "same_windows s (upd_reliable ch f s)"
proof -
  have "map rl_window ((ss_reliable s)[ch := f (ss_reliable s ! ch)]) = map rl_window (ss_reliable s)"
    by (simp add: map_update assms(2)) (metis list_update_id list_update_beyond map_update not_le_imp_less nth_map length_map)
  moreover have "length ((ss_reliable s)[ch := f (ss_reliable s ! ch)]) = 32"
    using assms(1) by (simp add: session_ok_def rx_ok_def)
  ultimately show "session_ok sys (upd_reliable ch f s)" "same_windows s (upd_reliable ch f s)"
    using session_ok_reliable[OF assms(1)] unfolding set_reliable_def by blast+
qed

lemma env_ok:
  assumes "session_ok sys s"
  shows "may_alloc sys s = (ok, s') \<Longrightarrow> session_ok sys s' \<and> same_windows s s'"
    "IHS_TimerNow sys s = (t, s') \<Longrightarrow> session_ok sys s' \<and> same_windows s s'"
    "read_timestamp sys s = (t', s') \<Longrightarrow> session_ok sys s' \<and> same_windows s s'"
  using env_only[of sys s] assms by auto

section \<open>Opening channels\<close>

lemma start_feedback_windows:
  "length (ss_reliable s) = 32 \<Longrightarrow> set is \<subseteq> {..<32} \<Longrightarrow>
   length (ss_reliable (start_feedback sys is s)) = 32 \<and>
   map rl_window (ss_reliable (start_feedback sys is s)) = map rl_window (ss_reliable s)"
proof (induction "is" arbitrary: s)
  case (Cons i "is")
  obtain t s1 where s1: "read_timestamp sys s = (t, s1)" by fastforce
  then obtain m where m: "s1 = set_env m s" using env_only(3) by blast
  let ?t = "set_reliable i ((ss_reliable s1 ! i)\<lparr>rl_feedbackDeadline := t\<rparr>) s1"
  have len: "length (ss_reliable s1) = 32" using m Cons.prems(1) by (simp add: set_env_def)
  have "map rl_window (ss_reliable ?t) = map rl_window (ss_reliable s1)"
    using Cons.prems(2) len by (simp add: set_reliable_def map_update) (metis length_map list_update_id nth_map)
  moreover have "length (ss_reliable ?t) = 32" using len by (simp add: set_reliable_def)
  ultimately show ?case using Cons.IH[of ?t] Cons.prems(2) s1 m by (simp add: set_env_def)
qed simp

lemma register_ok:
  assumes ok: "session_ok sys s"
  shows "session_ok sys (session_register sys ch s)" "same_windows s (session_register sys ch s)"
proof -
  have reg: "registry (ss_outgoing s)" using ok by (simp add: session_ok_def tx_ok_def)
  obtain o2 where o2: "IHS_OutgoingRegister (ss_outgoing s) ch = (o2, [out_count (ss_outgoing s)..<out_count o2])" "registry o2"
    "out_unreliable o2 = out_unreliable (ss_outgoing s)" using Register_spec[OF reg] by metis
  let ?t = "set_outgoing o2 s"
  have t: "session_ok sys ?t" "same_windows s ?t" using ok o2(2,3)
    by (simp_all add: session_ok_def tx_ok_def rx_ok_def set_outgoing_def out_wf_def same_windows_def)
  let ?r = "start_feedback sys [out_count (ss_outgoing s)..<out_count o2] ?t"
  have "set [out_count (ss_outgoing s)..<out_count o2] \<subseteq> {..<32}" using o2(2) by (auto simp: registry_def)
  then have w: "length (ss_reliable ?r) = 32" "map rl_window (ss_reliable ?r) = map rl_window (ss_reliable ?t)"
    using start_feedback_windows[of ?t] t(1) by (simp_all add: session_ok_def rx_ok_def)
  obtain n rl where r: "?r = (set_env n ?t)\<lparr>ss_reliable := rl\<rparr>"
    using start_feedback_shape[of sys "[out_count (ss_outgoing s)..<out_count o2]" ?t] by blast
  have e: "session_ok sys (set_env n ?t)" using t(1) by simp
  have e2: "ss_reliable (set_env n ?t) = ss_reliable ?t" by (simp add: set_env_def)
  have rl: "length rl = 32" "map rl_window rl = map rl_window (ss_reliable (set_env n ?t))" using w r e2 by simp_all
  have "session_register sys ch s = ?r" using o2(1) by (simp add: session_register_def)
  then show "session_ok sys (session_register sys ch s)" "same_windows s (session_register sys ch s)"
    using session_ok_reliable[OF e rl] r same_windows_trans[of s "set_env n ?t"] t(2) by simp_all
qed

section \<open>Closing the connection\<close>

text \<open>Changes of the connection that concern neither the outgoing windows nor the clock.\<close>

definition conn_like :: "'n conn \<Rightarrow> 'n conn \<Rightarrow> bool" where
  "conn_like c d \<longleftrightarrow> same_registry (cn_outgoing c) (cn_outgoing d) \<and>
     (out_wf link_ok (cn_outgoing c) \<longrightarrow> out_wf link_ok (cn_outgoing d)) \<and> cn_clock d = cn_clock c"

lemma conn_like_ok:
  assumes "session_ok sys s" "conn_like (ss_conn s) c"
  shows "session_ok sys (s\<lparr>ss_conn := c\<rparr>)" "same_windows s (s\<lparr>ss_conn := c\<rparr>)"
  using assms same_registryD by (auto simp: session_ok_def tx_ok_def rx_ok_def conn_like_def same_windows_def)

lemma SendPacket_like:
  assumes "link_ok p" "IHS_SessionSendPacketResult pf p (cn_outgoing c) (cn_link c) = Some (r, p', o', l)"
  shows "conn_like c (c\<lparr>cn_outgoing := o', cn_link := l\<rparr>)"
  using link_tx.send_windows[OF assms] SendPacketResult_registry[OF assms] by (simp add: conn_like_def out_wf_def)

lemma TransportDisconnect_like:
  assumes "live_alloc (pf_mem pf)"
  shows "\<exists>d. IHS_SessionTransportDisconnect pf c = Some d \<and> conn_like c d"
proof -
  let ?h = "zero_header\<lparr>hdr_type := IHS_SessionPacketTypeDisconnect,
    hdr_srcConnectionId := cn_connectionId c, hdr_dstConnectionId := cn_hostConnectionId c\<rparr>"
  have h: "\<not> hdr_hasCrc ?h" by (simp add: zero_header_def)
  obtain p r p' o' l where p: "link_ok p" "IHS_SessionSendPacketResult pf p (cn_outgoing c) (cn_link c) = Some (r, p', o', l)"
    "send_once pf c ?h [] = Some (r = 0, c\<lparr>cn_outgoing := o', cn_link := l\<rparr>)"
    using send_once_packet[OF assms _ h, of "[]" c] by (metis list.size(3) zero_le)
  from SendPacket_like[OF p(1,2)] show ?thesis
    using p(3) by (auto simp: IHS_SessionTransportDisconnect_def Let_def conn_like_def)
qed

lemma TransportClose_like:
  assumes "live_alloc (pf_mem pf)"
  shows "\<exists>d. IHS_SessionTransportClose pf c = Some d \<and> conn_like c d"
  using TransportDisconnect_like[OF assms, of c] by (auto simp: IHS_SessionTransportClose_def conn_like_def)

lemma Disconnect_safe:
  assumes ok: "session_ok sys s"
  shows "safe sys s (IHS_SessionDisconnect sys s)"
proof -
  have live: "live_alloc (ss_mem sys)" using ok by (simp add: session_ok_def tx_ok_def)
  define t where "t = (IHS_SessionNetworkTestCancel s)\<lparr>ss_closeRequested := True\<rparr>"
  have t: "session_ok sys t" "same_windows s t" using ok
    by (simp_all add: t_def session_ok_def tx_ok_def rx_ok_def IHS_SessionNetworkTestCancel_def same_windows_def)
  obtain c where c: "(if ss_worker t then IHS_SessionTransportDisconnect (sy_pf sys) (ss_conn t)
          else IHS_SessionTransportClose (sy_pf sys) (ss_conn t)) = Some c" "conn_like (ss_conn t) c"
    using TransportDisconnect_like[OF live] TransportClose_like[OF live] by (cases "ss_worker t") fastforce+
  note k = conn_like_ok[OF t(1) c(2)]
  let ?u = "IHS_SessionInterrupt (t\<lparr>ss_conn := c\<rparr>)"
  have "core ?u = core (t\<lparr>ss_conn := c\<rparr>)" by (simp add: core_def IHS_SessionInterrupt_def Let_def)
  then have u: "session_ok sys ?u" "same_windows s ?u" using k(1) same_windows_trans[OF t(2) k(2)] core_ok by blast+
  have n: "conn_like d (IHS_SessionNotifyDisconnected b d)" for b and d :: "'a conn"
    by (simp add: conn_like_def IHS_SessionNotifyDisconnected_def Let_def)
  show ?thesis using c(1) u conn_like_ok[OF u(1) n] same_windows_trans[OF u(2)]
    by (auto simp: safe_def IHS_SessionDisconnect_def t_def Let_def)
qed

section \<open>Complete frames\<close>

lemma tidy_clear: "tidy b \<Longrightarrow> \<exists>b'. IHS_BufferClear b f = Some b' \<and> tidy b' \<and> buf_maxCapacity b' = buf_maxCapacity b"
  by (auto simp: tidy_def IHS_BufferClear_def Let_def buf_wf_def split: option.splits)

lemma tidy_FrameClear:
  "tidy (frm_body frame) \<Longrightarrow> \<exists>frame'. IHS_SessionFrameClear frame f = Some frame' \<and> tidy (frm_body frame') \<and>
     buf_maxCapacity (frm_body frame') = buf_maxCapacity (frm_body frame)"
  using tidy_clear[of "frm_body frame" f] by (auto simp: IHS_SessionFrameClear_def)

lemma tidy_PacketClear: "tidy (pkt_body p) \<Longrightarrow> \<exists>q. IHS_SessionPacketClear p True = Some q"
  using PacketClear_total[of p] by (simp add: tidy_def)

lemma Transfer_tidy:
  assumes "tidy b"
  obtains drained where "IHS_BufferTransferOwnership b = Some (drained, b)" "tidy drained" "buf_maxCapacity drained = buf_maxCapacity b"
  using assms that by (auto simp: tidy_def IHS_BufferTransferOwnership_def IHS_BufferReleaseOwnership_def buf_wf_def)

text \<open>The outcome of handing a frame on.\<close>

definition handed :: "'n system \<Rightarrow> session_frame \<Rightarrow> 'n session \<Rightarrow> session_frame \<Rightarrow> 'n session \<Rightarrow> bool" where
  "handed sys frame s frame' s' \<longleftrightarrow> tidy (frm_body frame') \<and> buf_maxCapacity (frm_body frame') = buf_maxCapacity (frm_body frame) \<and>
     session_ok sys s' \<and> same_windows s s'"

lemma hand_over_safe:
  assumes "polite sys up" "session_ok sys s" "tidy (frm_body frame)" "event_body (e frame) = Some (frm_body frame)"
  obtains frame' s' where "hand_over up e frame s = Some (frame', s')" "handed sys frame s frame' s'"
proof -
  have "\<exists>b s'. up (e frame) s = Some (b, s') \<and> tidy b \<and> buf_maxCapacity b = buf_maxCapacity (frm_body frame) \<and>
      session_ok sys s' \<and> same_windows s s'"
    using assms unfolding polite_def by (metis option.distinct(1) option.inject option.sel)
  then show thesis using that by (auto simp: hand_over_def handed_def)
qed

lemma drop_oldest_safe:
  assumes ok: "session_ok sys s"
  obtains s' where "drop_oldest s = Some s'" "session_ok sys s'" "same_windows s s'" "length (ss_pendingData s') < 320"
proof (cases "ss_pendingDataCount s = 320")
  case True
  then obtain q qs where q: "ss_pendingData s = q # qs" using ok by (cases "ss_pendingData s") (auto simp: session_ok_def rx_ok_def)
  have "tidy (pkt_body q)" using ok q by (simp add: session_ok_def rx_ok_def)
  from tidy_PacketClear[OF this] obtain c where "IHS_SessionPacketClear q True = Some c" by blast
  then have "drop_oldest s = Some (s\<lparr>ss_pendingData := qs, ss_pendingDataCount := ss_pendingDataCount s - 1\<rparr>)"
    using True q by (simp add: drop_oldest_def)
  then show thesis by (rule that) (use ok q in \<open>auto simp: session_ok_def tx_ok_def rx_ok_def same_windows_def\<close>)
next
  case False
  then have "drop_oldest s = Some s" by (simp add: drop_oldest_def)
  then show thesis by (rule that) (use ok False in \<open>auto simp: session_ok_def rx_ok_def\<close>)
qed

lemma keep_frame_safe:
  assumes ok: "session_ok sys s" and b: "tidy (frm_body frame)"
  obtains d frame' s' where "keep_frame sys frame s = Some (d, frame', s')" "handed sys frame s frame' s'"
proof -
  obtain s1 where s1: "drop_oldest s = Some s1" "session_ok sys s1" "same_windows s s1" "length (ss_pendingData s1) < 320"
    by (rule drop_oldest_safe[OF ok])
  obtain al s2 where s2: "may_alloc sys s1 = (al, s2)" by fastforce
  have e: "session_ok sys s2" "same_windows s s2" using env_ok(1)[OF s1(2) s2] same_windows_trans[OF s1(3)] by blast+
  have len: "length (ss_pendingData s2) < 320" using env_only(1)[OF s2] s1(4) by (auto simp: set_env_def)
  show thesis
  proof (cases al)
    case False
    obtain s3 where s3: "IHS_SessionDisconnect sys s2 = Some s3" "session_ok sys s3" "same_windows s2 s3"
      using Disconnect_safe[OF e(1)] unfolding safe_def by blast
    have "keep_frame sys frame s = Some (ReliableDiscarded, frame, s3)" using s1(1) s2 s3(1) False by (simp add: keep_frame_def)
    then show thesis by (rule that) (use s3 b same_windows_trans[OF e(2)] in \<open>simp add: handed_def\<close>)
  next
    case True
    obtain drained where d: "IHS_BufferTransferOwnership (frm_body frame) = Some (drained, frm_body frame)" "tidy drained"
      "buf_maxCapacity drained = buf_maxCapacity (frm_body frame)" by (rule Transfer_tidy[OF b])
    let ?s3 = "s2\<lparr>ss_pendingData := ss_pendingData s2 @ [\<lparr>pkt_header = frm_header frame, pkt_body = frm_body frame, pkt_crc = 0\<rparr>],
             ss_pendingDataCount := ss_pendingDataCount s2 + 1\<rparr>"
    have "keep_frame sys frame s = Some (ReliablePending, frame\<lparr>frm_body := drained\<rparr>, ?s3)"
      using s1(1) s2 d(1) True by (simp add: keep_frame_def)
    moreover have "session_ok sys ?s3" using e(1) len b by (auto simp: session_ok_def tx_ok_def rx_ok_def)
    moreover have "same_windows s ?s3" using e(2) by (simp add: same_windows_def)
    ultimately show thesis using that d(2,3) by (simp add: handed_def)
  qed
qed

lemma find_channel_total: "None \<notin> set cs \<Longrightarrow> \<exists>c. find_channel P cs = Some c"
proof (induction cs)
  case (Cons a cs)
  then show ?case by (cases a) auto
qed simp

lemma ChannelFor_total:
  assumes "channels_ok (ss_channels s)"
  shows "\<exists>c. IHS_SessionChannelFor s i = Some c"
proof (cases "i \<le> 2")
  case True
  then have "unat i \<le> 2" by (simp add: word_le_nat_alt)
  then have "unat i < length (ss_channels s)" using assms by (simp add: channels_ok_def)
  then show ?thesis using True by (simp add: IHS_SessionChannelFor_def)
qed (use assms find_channel_total in \<open>simp add: IHS_SessionChannelFor_def channels_ok_def\<close>)

lemma Deliver_safe:
  assumes up: "polite sys up" and ok: "session_ok sys s" and b: "tidy (frm_body frame)"
  obtains d frame' s' where "IHS_SessionDeliverReliableFrame sys up frame s = Some (d, frame', s')" "handed sys frame s frame' s'"
proof -
  let ?D = "\<lambda>r. \<exists>d frame' s'. r = Some (d, frame', s') \<and> handed sys frame s frame' s'"
  have same: "?D (Some (d, frame, s))" for d using ok b by (simp add: handed_def)
  have pass: "?D (do { (f, t) \<leftarrow> hand_over up e frame s; Some (d, f, t) })" if e: "event_body (e frame) = Some (frm_body frame)" for e d
    by (rule hand_over_safe[where e = e, OF up ok b e]) auto
  have keep: "?D (keep_frame sys frame s)" by (rule keep_frame_safe[OF ok b]) auto
  obtain c where c: "IHS_SessionChannelFor s i = Some (c i)" for i
    using ChannelFor_total[of s] ok unfolding session_ok_def rx_ok_def by metis
  have data: "?D (deliver_data sys up i frame s)" for i
    using pass[of TestFrame] pass[of "DataFrame (the (c i))"] same keep c[of i] by (auto simp: deliver_data_def split: option.splits)
  have "?D (IHS_SessionDeliverReliableFrame sys up frame s)"
  proof (cases "buf_size (frm_body frame) = 0")
    case True
    then show ?thesis using pass[of ControlFrame] same by (auto simp: IHS_SessionDeliverReliableFrame_def Let_def)
  next
    case False
    have "\<exists>x. first_byte (frm_body frame) = Some x"
      using load_prefix[of "frm_body frame" 1] b False by (auto simp: first_byte_def tidy_def bind_eq_Some_conv)
    then show ?thesis using pass[of ControlFrame] same data by (auto simp: IHS_SessionDeliverReliableFrame_def Let_def)
  qed
  then show thesis using that by blast
qed

section \<open>The retransmission store\<close>

definition store_ok :: "retransmission \<Rightarrow> bool" where
  "store_ok r \<longleftrightarrow> rt_inv [] r \<and> (\<forall>b \<in> snd ` set (retained r). 13 + buf_size b + 4 < 2048)"

lemma store_ok_subset:
  "store_ok r \<Longrightarrow> rt_inv [] r' \<Longrightarrow> set (retained r') \<subseteq> set (retained r) \<Longrightarrow> store_ok r'"
  by (auto simp: store_ok_def)

lemma Acknowledge_store: "store_ok r \<Longrightarrow> store_ok (snd (IHS_RetransmissionAcknowledge r c i f nowMs))"
  by (rule store_ok_subset[OF _ Acknowledge_inv])
    (auto simp: store_ok_def IHS_RetransmissionAcknowledge_def retained_def split: option.splits dest!: unlink_first_split)

lemma AcknowledgeThrough_store: "store_ok r \<Longrightarrow> store_ok (snd (IHS_RetransmissionAcknowledgeThrough r c i nowMs))"
  by (rule store_ok_subset[OF _ AcknowledgeThrough_inv])
    (auto simp: store_ok_def IHS_RetransmissionAcknowledgeThrough_def retained_def split: prod.splits dest!: ack_through_filter)

lemma NackBefore_store: "store_ok r \<Longrightarrow> store_ok (snd (IHS_RetransmissionNackBefore r c i below cutoff nowMs))"
proof (rule store_ok_subset)
  assume ok: "store_ok r"
  show "rt_inv [] (snd (IHS_RetransmissionNackBefore r c i below cutoff nowMs))"
    using nudge_all_inv[OF _ benign_retry] ok by (simp add: store_ok_def IHS_RetransmissionNackBefore_def benign_unfold)
  show "set (retained (snd (IHS_RetransmissionNackBefore r c i below cutoff nowMs))) \<subseteq> set (retained r)"
    by (auto simp: IHS_RetransmissionNackBefore_def nudge_all_def retained_def ident_def Let_def)
qed

lemmas store_intros = Acknowledge_store AcknowledgeThrough_store NackBefore_store

declare mask_bits.simps [simp del]

lemma mask_bits_store: "store_ok r \<Longrightarrow> store_ok (mask_bits ch cutoff nowMs i bits r)"
proof (induction ch cutoff nowMs i bits r rule: mask_bits.induct)
  case (1 ch cutoff nowMs i bits r)
  then show ?case by (subst mask_bits.simps) (simp add: store_intros)
qed

lemma mask_bytes_store: "store_ok r \<Longrightarrow> store_ok (mask_bytes ch cutoff nowMs i bs r)"
  by (induction bs arbitrary: i r) (auto intro: mask_bits_store)

lemma nack_store_safe:
  assumes "store_ok r" "length body = 0 \<or> 6 \<le> length body"
  shows "\<exists>r'. nack_store ch cutoff nowMs base body r = Some r' \<and> store_ok r'"
proof (cases "body = []")
  case True
  then show ?thesis using assms(1) by (auto simp: nack_store_def intro: store_intros)
next
  case False
  then have "4 \<le> length body" "2 \<le> length (drop 4 body)" using assms(2) by auto
  then obtain a b where "IHS_ReadUInt32LE body = Some a" "IHS_ReadUInt16LE (drop 4 body) = Some b"
    using u32_wire.dec_enough u16_wire.dec_enough by metis
  then show ?thesis using assms(1) False by (auto simp: nack_store_def Let_def intro!: store_intros mask_bytes_store)
qed

section \<open>Reliable channels\<close>

lemma record_lost_ok:
  assumes "session_ok sys s"
  shows "session_ok sys (record_lost sys now n s)" "same_windows s (record_lost sys now n s)"
  using env_ok(1)[OF assms] by (simp_all add: record_lost_def split: prod.splits)

lemma note_retries_ok:
  assumes "session_ok sys s"
  shows "session_ok sys (note_retries sys b h s)" "same_windows s (note_retries sys b h s)"
  using record_lost_ok[OF assms] assms by (simp_all add: note_retries_def)

lemma session_ok_retransmission:
  assumes "session_ok sys s" "store_ok r"
  shows "session_ok sys (s\<lparr>ss_retransmission := r\<rparr>)"
  using assms by (simp add: session_ok_def tx_ok_def rx_ok_def store_ok_def)

lemma session_ok_store: "session_ok sys s \<Longrightarrow> store_ok (ss_retransmission s)"
  by (simp add: session_ok_def tx_ok_def store_ok_def)

lemma body_bytes_content: "buf_wf b \<Longrightarrow> body_bytes b = Some (buf_content b)"
  using load_prefix[of b "buf_size b"] length_buf_content[of b] by (auto simp: body_bytes_def)

lemma OnNack_safe:
  assumes ok: "session_ok sys s" and b: "buf_wf (pkt_body packet)"
  shows "\<exists>s'. ReliableOnNackPacket sys ch packet s = Some s' \<and> session_ok sys s'"
proof -
  obtain nowMs s1 where s1: "IHS_TimerNow sys s = (nowMs, s1)" by fastforce
  have ok1: "session_ok sys s1" using env_ok(2)[OF ok s1] by blast
  let ?h = "pkt_header packet"
  let ?s2 = "upd_reliable ch (\<lambda>c. c\<lparr>rl_lastNackTimestamp := hdr_sendTimestamp ?h\<rparr>) s1"
  have ok2: "session_ok sys ?s2" by (rule session_ok_upd(1)[OF ok1]) simp
  obtain t s3 where s3: "read_timestamp sys ?s2 = (t, s3)" by fastforce
  have ok3: "session_ok sys s3" using env_ok(3)[OF ok2 s3] by blast
  have len: "length (buf_content (pkt_body packet)) = buf_size (pkt_body packet)" by (rule length_buf_content[OF b])
  show ?thesis
  proof (cases "buf_size (pkt_body packet) \<noteq> 0 \<and> buf_size (pkt_body packet) < 6")
    case True
    then show ?thesis using s1 ok1 ok2 by (simp add: ReliableOnNackPacket_def Let_def)
  next
    case False
    then have "length (buf_content (pkt_body packet)) = 0 \<or> 6 \<le> length (buf_content (pkt_body packet))" using len by auto
    from nack_store_safe[OF session_ok_store[OF ok3] this]
    obtain r where r: "nack_store (hdr_channelId ?h) (t - IHS_StreamClockNackAgeTicks (sy_nackMs sys (cn_clock (ss_conn s3))))
        nowMs (hdr_packetId ?h) (buf_content (pkt_body packet)) (ss_retransmission s3) = Some r" "store_ok r" by blast
    have "ReliableOnNackPacket sys ch packet s \<in> {Some s1, Some (s3\<lparr>ss_retransmission := r\<rparr>)}"
      using s1 s3 False body_bytes_content[OF b] r(1) by (auto simp: ReliableOnNackPacket_def Let_def)
    then show ?thesis using ok1 session_ok_retransmission[OF ok3 r(2)] by blast
  qed
qed

lemma session_ok_window:
  assumes ok: "session_ok sys s" and w: "\<And>w. ow = Some w \<Longrightarrow> window_inv w"
  shows "session_ok sys (upd_reliable ch (\<lambda>c. c\<lparr>rl_window := ow\<rparr>) s)"
proof -
  have "\<forall>c \<in> set ((ss_reliable s)[ch := (ss_reliable s ! ch)\<lparr>rl_window := ow\<rparr>]). \<forall>w. rl_window c = Some w \<longrightarrow> window_inv w"
    using ok w by (auto simp: session_ok_def rx_ok_def dest!: set_update_subset_insert[THEN subsetD])
  then show ?thesis using ok by (simp add: session_ok_def tx_ok_def rx_ok_def set_reliable_def)
qed

lemma fresh_window:
  assumes "0 < cap" "cap < 2 ^ 16"
  shows "IHS_SessionPacketsWindowCreateReliable a b cap i = Some w \<Longrightarrow> window_inv w"
    "IHS_SessionPacketsWindowCreateMedia a b cap = Some w \<Longrightarrow> window_inv w"
  using window_sys.init_inv assms unfolding window_init_def by blast+

lemma reliable_window_safe:
  assumes ok: "session_ok sys s" and ch: "ch < 32"
  obtains ow s' where "reliable_window sys ch s = (ow, s')" "session_ok sys s'" "\<forall>w. ow = Some w \<longrightarrow> window_inv w"
proof (cases "rl_window (ss_reliable s ! ch)")
  case (Some w)
  have "ss_reliable s ! ch \<in> set (ss_reliable s)" using ok ch by (simp add: session_ok_def rx_ok_def)
  then have "window_inv w" using ok Some by (simp add: session_ok_def rx_ok_def)
  then show ?thesis using that[of "Some w" s] Some ok by (simp add: reliable_window_def)
next
  case None
  obtain a1 s1 where s1: "may_alloc sys s = (a1, s1)" by fastforce
  obtain a2 s2 where s2: "may_alloc sys s1 = (a2, s2)" by fastforce
  have ok2: "session_ok sys s2" using env_ok(1)[OF ok s1] env_ok(1)[OF _ s2] by blast
  let ?w = "IHS_SessionPacketsWindowCreateReliable a1 a2 64 0"
  have w: "window_inv w" if "?w = Some w" for w by (rule fresh_window(1)[OF _ _ that]) simp_all
  have "reliable_window sys ch s = (?w, upd_reliable ch (\<lambda>c. c\<lparr>rl_window := ?w\<rparr>) s2)"
    using None s1 s2 by (simp add: reliable_window_def Let_def)
  then show ?thesis by (rule that) (use session_ok_window[OF ok2] w in blast)+
qed

lemma AddEx_safe:
  assumes w: "window_inv w" and b: "tidy (pkt_body packet)" "\<not> IHS_BufferIsNull (pkt_body packet)"
  obtains added inserted w' packet' where "IHS_SessionPacketsWindowAddEx al w packet = Some (added, inserted, w', packet')"
    "window_inv w'" "tidy (pkt_body packet')" "\<not> added \<longrightarrow> packet' = packet"
proof -
  have body: "body_ok (pkt_body packet)" using b by (simp add: body_ok_def tidy_def)
  obtain r where r: "IHS_SessionPacketsWindowAddEx True w packet = Some r" using AddEx_verdict[OF _ body] w unfolding window_inv_def by blast
  then obtain added inserted w' packet' where run: "IHS_SessionPacketsWindowAddEx al w packet = Some (added, inserted, w', packet')"
    using AddEx_no_memory[of w packet] by (cases al; cases r) auto
  have "packet' = packet \<or> (\<exists>d. IHS_BufferTransferOwnership (pkt_body packet) = Some (d, pkt_body packet) \<and> pkt_body packet' = d)"
    using run by (auto simp: IHS_SessionPacketsWindowAddEx_def add_store_def FrameItemUsePacket_def Let_def bind_eq_Some_conv
        IHS_BufferTransferOwnership_def split: if_splits)
  then have "tidy (pkt_body packet')"
    using Transfer_tidy[OF b(1)] b(1) by (metis option.inject prod.inject)
  moreover have "packet' = packet" if "\<not> added"
    using run that by (auto simp: IHS_SessionPacketsWindowAddEx_def add_store_def Let_def bind_eq_Some_conv split: if_splits)
  ultimately show thesis using that[OF run AddEx_inv[OF w body run]] by blast
qed

lemma overflow_once_safe:
  assumes ok: "session_ok sys s"
  shows "\<exists>s'. overflow_once sys ch s = Some s' \<and> session_ok sys s'"
proof (cases "rl_overflowed (ss_reliable s ! ch)")
  case False
  have "session_ok sys (upd_reliable ch (\<lambda>c. c\<lparr>rl_overflowed := True\<rparr>) s)" by (rule session_ok_upd(1)[OF ok]) simp
  from Disconnect_safe[OF this] show ?thesis using False by (auto simp: safe_def overflow_once_def)
qed (use ok in \<open>simp add: overflow_once_def\<close>)

lemma ReliableReceived_safe:
  assumes ok: "session_ok sys s" and b: "tidy (pkt_body packet)" "\<not> IHS_BufferIsNull (pkt_body packet)"
  shows "\<exists>packet' s'. IHS_SessionReliableReceived sys packet s = Some (packet', s') \<and> session_ok sys s' \<and> tidy (pkt_body packet')"
proof -
  let ?h = "pkt_header packet" and ?ch = "unat (ucast (hdr_channelId (pkt_header packet)) :: u8)"
  let ?s1 = "session_register sys ?ch s"
  have ok1: "session_ok sys ?s1" by (rule register_ok(1)[OF ok])
  consider "?ch \<ge> 32" | "?ch < 32" "hdr_type ?h = 5 \<or> hdr_type ?h = 6" | "?ch < 32" "hdr_type ?h = 8"
    | "?ch < 32" "hdr_type ?h \<noteq> 5" "hdr_type ?h \<noteq> 6" "hdr_type ?h \<noteq> 8" by linarith
  then show ?thesis
  proof cases
    case 1
    then show ?thesis using ok b(1) by (simp add: IHS_SessionReliableReceived_def IHS_SessionReliableGet_def Let_def)
  next
    case 2
    let ?s2 = "upd_reliable ?ch (note_peer ?h) ?s1"
    have ok2: "session_ok sys ?s2" by (rule session_ok_upd(1)[OF ok1]) (simp add: note_peer_def Let_def)
    obtain ow s3 where s3: "reliable_window sys ?ch ?s2 = (ow, s3)" "session_ok sys s3" "\<forall>w. ow = Some w \<longrightarrow> window_inv w"
      by (rule reliable_window_safe[OF ok2 2(1)])
    obtain added inserted p' s4 where ins: "insert_reliable sys ?ch packet ?s2 = Some (added, inserted, p', s4)"
      "session_ok sys s4" "tidy (pkt_body p')"
    proof (cases ow)
      case None
      have "session_ok sys (upd_reliable ?ch (\<lambda>c. c\<lparr>rl_feedbackDirty := False\<rparr>) s3)" by (rule session_ok_upd(1)[OF s3(2)]) simp
      then show ?thesis using that[of False False packet] s3(1) None b(1) by (simp add: insert_reliable_def)
    next
      case (Some w)
      let ?s = "if sint (IHS_SessionPacketsWindowNextNeededPacketId w - hdr_packetId ?h) > 0
                   then upd_reliable ?ch (\<lambda>c. c\<lparr>rl_ackPending := True\<rparr>) s3 else s3"
      have oks: "session_ok sys ?s" using session_ok_upd(1)[OF s3(2), of "\<lambda>c. c\<lparr>rl_ackPending := True\<rparr>" ?ch] s3(2) by simp
      obtain al s5 where s5: "may_alloc sys ?s = (al, s5)" by fastforce
      have ok5: "session_ok sys s5" using env_ok(1)[OF oks s5] by blast
      obtain added inserted w' p' where add: "IHS_SessionPacketsWindowAddEx al w packet = Some (added, inserted, w', p')"
        "window_inv w'" "tidy (pkt_body p')" by (rule AddEx_safe[OF s3(3)[rule_format, OF Some] b])
      have "insert_reliable sys ?ch packet ?s2 = Some (added, inserted, p', upd_reliable ?ch (\<lambda>c. c\<lparr>rl_window := Some w'\<rparr>) s5)"
        using s3(1) Some s5 add(1) by (simp add: insert_reliable_def Let_def)
      then show ?thesis by (rule that) (use session_ok_window[OF ok5] add(2,3) in auto)
    qed
    let ?s5 = "note_retries sys inserted ?h s4"
    have ok5: "session_ok sys ?s5" by (rule note_retries_ok(1)[OF ins(2)])
    obtain s6 where "(if added then Some ?s5 else overflow_once sys ?ch ?s5) = Some s6" "session_ok sys s6"
      using ok5 overflow_once_safe[OF ok5, of ?ch] by (cases added) auto
    then show ?thesis using 2 ins(1,3) by (auto simp: IHS_SessionReliableReceived_def IHS_SessionReliableGet_def Let_def)
  next
    case 3
    then show ?thesis using OnNack_safe[OF ok1, of packet ?ch] b(1)
      by (auto simp: IHS_SessionReliableReceived_def IHS_SessionReliableGet_def Let_def tidy_def)
  next
    case 4
    then show ?thesis using ok1 b(1) by (simp add: IHS_SessionReliableReceived_def IHS_SessionReliableGet_def Let_def)
  qed
qed

section \<open>Unreliable channels\<close>

lemma session_ok_unreliable:
  assumes "session_ok sys s" "receiver_ok rx"
  shows "session_ok sys (s\<lparr>ss_unreliable := (ss_unreliable s)[ch := Some rx]\<rparr>)"
proof -
  have "receiver_ok x" if "Some x \<in> set ((ss_unreliable s)[ch := Some rx])" for x
    using assms set_update_subset_insert[of "ss_unreliable s" ch "Some rx"] that by (auto simp: session_ok_def rx_ok_def)
  then show ?thesis using assms(1) by (simp add: session_ok_def tx_ok_def rx_ok_def)
qed

lemma receiver_at:
  assumes "session_ok sys s" "ch < 32" "ss_unreliable s ! ch = Some rx"
  shows "receiver_ok rx"
proof -
  have "ss_unreliable s ! ch \<in> set (ss_unreliable s)" using assms(1,2) by (intro nth_mem) (simp add: session_ok_def rx_ok_def)
  then show ?thesis using assms by (simp add: session_ok_def rx_ok_def)
qed

lemma fec_fresh: "fec_wf (IHS_FECReceiverCreate junk)"
  by (simp add: fec_wf_def IHS_FECReceiverCreate_def case_prod_beta)

lemma UnreliableGet_safe:
  assumes ok: "session_ok sys s"
  obtains ox s' where "IHS_SessionUnreliableGet sys ch 2048 s = (ox, s')" "session_ok sys s'"
    "\<forall>rx. ox = Some rx \<longrightarrow> ch < 32 \<and> ss_unreliable s' ! ch = Some rx"
proof (cases "32 \<le> ch \<or> ss_unreliable s ! ch \<noteq> None")
  case True
  let ?x = "if 32 \<le> ch then None else ss_unreliable s ! ch"
  have "IHS_SessionUnreliableGet sys ch 2048 s = (?x, s)" using True by (auto simp: IHS_SessionUnreliableGet_def)
  then show ?thesis by (rule that) (use ok in auto)
next
  case False
  obtain a0 s0 where s0: "may_alloc sys s = (a0, s0)" by fastforce
  obtain a1 s1 where s1: "may_alloc sys s0 = (a1, s1)" by fastforce
  obtain a2 s2 where s2: "may_alloc sys s1 = (a2, s2)" by fastforce
  obtain a3 s3 where s3: "may_alloc sys s2 = (a3, s3)" by fastforce
  obtain a4 s4 where s4: "may_alloc sys s3 = (a4, s4)" by fastforce
  have ok0: "session_ok sys s0" using env_ok(1)[OF ok s0] by blast
  have ok4: "session_ok sys s4" using env_ok(1)[OF ok0 s1] env_ok(1)[OF _ s2] env_ok(1)[OF _ s3] env_ok(1)[OF _ s4] by blast
  show ?thesis
  proof (cases "a0 \<and> a3 \<and> a4 \<and> IHS_SessionPacketsWindowCreateMedia a1 a2 2048 \<noteq> None")
    case True
    then obtain w where w: "IHS_SessionPacketsWindowCreateMedia a1 a2 2048 = Some w" by blast
    let ?rx = "\<lparr>ur_window = w, ur_fec = IHS_FECReceiverCreate (sy_junk sys), ur_maxReceiveDelay = 65,
                       ur_lastPacketTimestamp = 0, ur_feedbackDeadline = 0, ur_haveFeedbackDeadline = False,
                       ur_feedbackDirty = False\<rparr>"
    have "receiver_ok ?rx" using fresh_window(2)[OF _ _ w] fec_fresh by (simp add: receiver_ok_def)
    from session_ok_unreliable[OF ok4 this, of ch] show ?thesis
      using that[of "Some ?rx"] False True s0 s1 s2 s3 s4 w ok4
      by (simp add: IHS_SessionUnreliableGet_def Let_def session_ok_def rx_ok_def)
  next
    case not: False
    have "fst (IHS_SessionUnreliableGet sys ch 2048 s) = None \<and>
        snd (IHS_SessionUnreliableGet sys ch 2048 s) \<in> {s0, s4}"
      using not False s0 s1 s2 s3 s4 by (auto simp: IHS_SessionUnreliableGet_def split: option.splits)
    then show ?thesis using that[of None "snd (IHS_SessionUnreliableGet sys ch 2048 s)"] ok0 ok4 by (auto simp: prod_eq_iff)
  qed
qed

lemma FEC_frame:
  assumes "IHS_FECReceiverAdd mem r p f = Some (True, r', f')"
  shows "buf_suffix (frm_body f') = 0"
proof -
  have acc: "buf_suffix (frm_body f') = 0" if "accept_shard mem x p d i f = Some (True, r', f')" for x d i
    using that by (auto simp: accept_shard_def Let_def bind_eq_Some_conv split: if_splits)
  show ?thesis using assms
    by (auto simp: IHS_FECReceiverAdd_def Let_def dest: acc
        split: if_split_asm option.split_asm prod.split_asm Option.bind_split_asm)
qed

lemma tidy_zero: "tidy (frm_body zero_frame)"
  by (simp add: tidy_def zero_frame_def IHS_BufferInit_def buf_wf_def)

lemma receive_shard_safe:
  assumes up: "polite sys up" and ok: "session_ok sys s" and rx: "receiver_ok rx" and b: "buf_wf (pkt_body packet)"
  shows "\<exists>s'. receive_shard sys up ch rx packet s = Some s' \<and> session_ok sys s'"
proof -
  obtain ready fec frame where run: "IHS_FECReceiverAdd (ss_mem sys) (ur_fec rx) packet zero_frame = Some (ready, fec, frame)"
    and out: "add_outcome (ur_fec rx) (hdr_packetId (pkt_header packet)) zero_frame (ready, fec, frame)"
    using Add_safe[of "ur_fec rx" packet "ss_mem sys" zero_frame] rx b by (auto simp: receiver_ok_def)
  have "tidy (frm_body frame)" using out tidy_zero FEC_frame[of "ss_mem sys" "ur_fec rx" packet zero_frame fec frame] run
    by (cases ready) (auto simp: add_outcome_def tidy_def)
  note f = this tidy_FrameClear[OF this, of True]
  let ?s1 = "set_unreliable ch (rx\<lparr>ur_fec := fec\<rparr>) s"
  have "receiver_ok (rx\<lparr>ur_fec := fec\<rparr>)" using rx out by (simp add: receiver_ok_def add_outcome_def)
  then have ok1: "session_ok sys ?s1" using session_ok_unreliable[OF ok] by (simp add: set_unreliable_def)
  show ?thesis
  proof (cases "IHS_FECReceiverLastError fec \<noteq> FECReceiveOK")
    case True
    then show ?thesis using run f(2) Disconnect_safe[OF ok1] by (auto simp: receive_shard_def safe_def Let_def)
  next
    case False
    obtain d frame' s' where d: "(if ready then IHS_SessionDeliverReliableFrame sys up frame ?s1
        else Some (ReliableDiscarded, frame, ?s1)) = Some (d, frame', s')" "handed sys frame ?s1 frame' s'"
    proof (cases ready)
      case True
      then show ?thesis using that by (auto intro: Deliver_safe[OF up ok1 f(1)])
    qed (use that ok1 f(1) in \<open>auto simp: handed_def\<close>)
    then obtain fr where "IHS_SessionFrameClear frame' True = Some fr" using tidy_FrameClear[of frame' True] by (auto simp: handed_def)
    then show ?thesis using run False d by (auto simp: receive_shard_def Let_def handed_def split del: if_split)
  qed
qed

lemma add_unreliable_safe:
  assumes ok: "session_ok sys s" and ch: "ch < 32" and rx: "ss_unreliable s ! ch \<noteq> None"
    and b: "tidy (pkt_body packet)" "\<not> IHS_BufferIsNull (pkt_body packet)"
  obtains added inserted packet' s' where "add_unreliable sys ch packet s = Some (added, inserted, packet', s')" "session_ok sys s'"
    "tidy (pkt_body packet')" "\<not> added \<longrightarrow> packet' = packet" "ss_unreliable s' ! ch \<noteq> None"
proof -
  obtain al s1 where s1: "may_alloc sys s = (al, s1)" by fastforce
  have ok1: "session_ok sys s1" using env_ok(1)[OF ok s1] by blast
  have "ss_unreliable s1 ! ch = ss_unreliable s ! ch" using env_only(1)[OF s1] by (auto simp: set_env_def)
  then obtain rx where r: "ss_unreliable s1 ! ch = Some rx" using assms(3) by auto
  have rok: "receiver_ok rx" by (rule receiver_at[OF ok1 ch r])
  obtain added inserted w' p' where a: "IHS_SessionPacketsWindowAddEx al (ur_window rx) packet = Some (added, inserted, w', p')"
    "window_inv w'" "tidy (pkt_body p')" "\<not> added \<longrightarrow> p' = packet"
    by (rule AddEx_safe[of "ur_window rx", OF _ b]) (use rok in \<open>simp add: receiver_ok_def\<close>)
  have "receiver_ok (rx\<lparr>ur_window := w'\<rparr>)" using rok a(2) by (simp add: receiver_ok_def)
  from session_ok_unreliable[OF ok1 this, of ch] show thesis
    using that[of added inserted p' "set_unreliable ch (rx\<lparr>ur_window := w'\<rparr>) s1"] s1 r a ok1 ch
    by (simp add: add_unreliable_def set_unreliable_def session_ok_def rx_ok_def)
qed

lemma insert_unreliable_safe:
  assumes up: "polite sys up" and ok: "session_ok sys s" and ch: "ch < 32" and rx: "ss_unreliable s ! ch \<noteq> None"
    and b: "tidy (pkt_body packet)" "\<not> IHS_BufferIsNull (pkt_body packet)"
  shows "\<exists>inserted packet' s'. insert_unreliable sys up ch packet s = Some (inserted, packet', s') \<and> session_ok sys s' \<and>
     tidy (pkt_body packet') \<and> ss_unreliable s' ! ch \<noteq> None"
proof -
  obtain added inserted p' s1 where a: "add_unreliable sys ch packet s = Some (added, inserted, p', s1)" "session_ok sys s1"
    "tidy (pkt_body p')" "\<not> added \<longrightarrow> p' = packet" "ss_unreliable s1 ! ch \<noteq> None"
    by (rule add_unreliable_safe[OF ok ch rx b])
  show ?thesis
  proof (cases added)
    case True
    then show ?thesis using a by (auto simp: insert_unreliable_def)
  next
    case False
    obtain rx where r: "ss_unreliable s1 ! ch = Some rx" using a(5) by auto
    have rok: "receiver_ok rx" by (rule receiver_at[OF a(2) ch r])
    obtain w where w: "IHS_SessionPacketsWindowReleaseAll (ur_window rx) = Some w"
      using ReleaseAll_rep[of "ur_window rx"] rok unfolding receiver_ok_def window_inv_def by blast
    have "window_inv w" using ReleaseAll_inv[OF _ w] rok by (simp add: receiver_ok_def)
    then have "receiver_ok (rx\<lparr>ur_window := w\<rparr>)" using rok by (simp add: receiver_ok_def)
    then have ok2: "session_ok sys (set_unreliable ch (rx\<lparr>ur_window := w\<rparr>) s1)"
      using session_ok_unreliable[OF a(2)] by (simp add: set_unreliable_def)
    let ?s2 = "set_unreliable ch (rx\<lparr>ur_window := w\<rparr>) s1"
    obtain x s3 where s3: "up (DataLost ch) ?s2 = Some (x, s3)" "session_ok sys s3" "same_windows ?s2 s3"
      using up ok2 unfolding polite_def by (metis event_body.simps(5) option.distinct(1))
    have "length (ss_unreliable s1) = 32" using a(2) by (simp add: session_ok_def rx_ok_def)
    then have "ss_unreliable ?s2 ! ch = Some (rx\<lparr>ur_window := w\<rparr>)" using ch by (simp add: set_unreliable_def)
    then have some: "ss_unreliable s3 ! ch \<noteq> None" using s3(3) unfolding same_windows_def by fastforce
    obtain added' inserted' q s4 where q: "add_unreliable sys ch p' s3 = Some (added', inserted', q, s4)" "session_ok sys s4"
      "tidy (pkt_body q)" "ss_unreliable s4 ! ch \<noteq> None"
      using add_unreliable_safe[OF s3(2) ch some, of p'] a(4) False b by metis
    show ?thesis using a(1) False r w s3(1) q by (auto simp: insert_unreliable_def)
  qed
qed

lemma UnreliableReceived_safe:
  assumes up: "polite sys up" and ok: "session_ok sys s" and b: "tidy (pkt_body packet)" "\<not> IHS_BufferIsNull (pkt_body packet)"
  shows "\<exists>packet' s'. IHS_SessionUnreliableReceived sys up packet s = Some (packet', s') \<and> session_ok sys s' \<and> tidy (pkt_body packet')"
proof -
  let ?h = "pkt_header packet" and ?ch = "unat (ucast (hdr_channelId (pkt_header packet)) :: u8)"
  let ?s1 = "session_register sys ?ch s"
  have ok1: "session_ok sys ?s1" by (rule register_ok(1)[OF ok])
  obtain ox s2 where s2: "IHS_SessionUnreliableGet sys ?ch 2048 ?s1 = (ox, s2)" "session_ok sys s2"
    "\<forall>rx. ox = Some rx \<longrightarrow> ?ch < 32 \<and> ss_unreliable s2 ! ?ch = Some rx"
    by (rule UnreliableGet_safe[OF ok1])
  note unfold = IHS_SessionUnreliableReceived_def Let_def s2(1)
  consider "hdr_type ?h \<notin> {3, 4, 11}" | "hdr_type ?h \<in> {3, 4, 11}" "ox = None" | rx where "hdr_type ?h = 11" "ox = Some rx"
    | rx where "hdr_type ?h \<in> {3, 4}" "ox = Some rx" by (cases ox) auto
  then show ?thesis
  proof cases
    case 1
    then show ?thesis using ok b(1) by (simp add: unfold)
  next
    case 2
    then show ?thesis using Disconnect_safe[OF s2(2)] b(1) by (auto simp: unfold safe_def)
  next
    case 3
    have "receiver_ok rx" using receiver_at[OF s2(2)] s2(3) 3(2) by blast
    from receive_shard_safe[OF up s2(2) this, of packet ?ch] 3 show ?thesis using b(1) by (auto simp: unfold tidy_def)
  next
    case 4
    have r: "?ch < 32" "ss_unreliable s2 ! ?ch \<noteq> None" using s2(3) 4(2) by auto
    obtain inserted p' s3 where i: "insert_unreliable sys up ?ch packet s2 = Some (inserted, p', s3)" "session_ok sys s3"
      "tidy (pkt_body p')" "ss_unreliable s3 ! ?ch \<noteq> None"
      using insert_unreliable_safe[OF up s2(2) r b] by blast
    then obtain rx3 where x: "ss_unreliable s3 ! ?ch = Some rx3" by auto
    have "receiver_ok (note_stamp ?h rx3)" using receiver_at[OF i(2) r(1) x] by (simp add: receiver_ok_def note_stamp_def Let_def)
    from session_ok_unreliable[OF i(2) this, of ?ch] have "session_ok sys (upd_unreliable ?ch (note_stamp ?h) s3)"
      using x by (simp add: upd_unreliable_def)
    then show ?thesis using 4 i(1,3) note_retries_ok(1) by (auto simp: unfold)
  qed
qed

end
