(* ===== verification/Dispatch_Props.thy ===== *)
theory Dispatch_Props
  imports Receive_Props
begin

text \<open>
  The way of a datagram through the session: what is refused changes nothing, and what is accepted
  is handled without touching memory outside the buffers and leaves the session well-formed.
\<close>

section \<open>Parsing\<close>

lemma Parse_body:
  assumes wf: "tidy src" and run: "IHS_SessionPacketParse src = Some (ResultOK, p, src')"
  shows "tidy (pkt_body p)" "\<not> IHS_BufferIsNull (pkt_body p)" "buf_size (pkt_body p) \<le> buf_size src"
proof -
  have w: "buf_wf src" using wf by (simp add: tidy_def)
  have sz: "13 \<le> buf_size src" using run by (auto simp: IHS_SessionPacketParse_def split: if_splits)
  then have data: "buf_data src \<noteq> None" using w by (auto simp: buf_wf_def split: option.splits)
  have sub: "sz_sub (buf_size src) 13 = buf_size src - 13" using sz buf_wf_bounds[OF w] by (simp add: sz_sub_exact)
  note off = OffsetBy_forward[OF w, of 13, simplified] 
  have len: "headLen = 13" if "IHS_SessionPacketHeaderParse xs = Some (h, headLen)" for xs h headLen
    using that by (auto simp: IHS_SessionPacketHeaderParse_def bind_eq_Some_conv)
  let ?b = "src\<lparr>buf_offset := buf_offset src + 13, buf_size := buf_size src - 13\<rparr>"
  have "pkt_body p \<in> {?b, ?b\<lparr>buf_size := buf_size src - 17\<rparr>}"
    using run sz off(1) sub
    by (auto simp: IHS_SessionPacketParse_def bind_eq_Some_conv Let_def IHS_BufferTransferOwnership_def split: if_splits dest!: len)
  moreover have "?b = ?b\<lparr>buf_size := buf_size src - 13\<rparr>" by simp
  moreover have "buf_size src - 17 \<le> buf_size src - 13" by simp
  ultimately obtain n where n: "n \<le> buf_size src - 13" "pkt_body p = ?b\<lparr>buf_size := n\<rparr>"
    by (metis insertE order_refl singletonD)
  show "tidy (pkt_body p)" using wf n sz by (auto simp: tidy_def buf_wf_def split: option.splits)
  show "\<not> IHS_BufferIsNull (pkt_body p)" using n(2) data by (simp add: IHS_BufferIsNull_def)
  show "buf_size (pkt_body p) \<le> buf_size src" using n by simp
qed

section \<open>The steps of the dispatch\<close>

abbreviation clock_room :: "'n session \<Rightarrow> bool" where
  "clock_room s \<equiv> length (clk_list (cn_clock (ss_conn s))) < 2 ^ 32 - 1"

lemma clock_feedback_safe:
  assumes ok: "session_ok sys s" and room: "clock_room s"
  shows "\<exists>s'. clock_feedback sys echo h s = Some s' \<and> session_ok sys s'"
proof -
  obtain a1 s1 where s1: "may_alloc sys s = (a1, s1)" by fastforce
  obtain a2 s2 where s2: "may_alloc sys s1 = (a2, s2)" by fastforce
  have ok2: "session_ok sys s2" using env_ok(1)[OF ok s1] env_ok(1)[OF _ s2] by blast
  have same: "cn_clock (ss_conn s2) = cn_clock (ss_conn s)"
    using env_only(1)[OF s1] env_only(1)[OF s2] by (auto simp: set_env_def)
  have "clock_inv (cn_clock (ss_conn s2))" using ok2 by (simp add: session_ok_def rx_ok_def)
  from Feedback_mean[OF this, of a1 a2 echo "hdr_sendTimestamp h" "hdr_receiveTimestamp h"] room same
  obtain c where c: "IHS_StreamClockFeedback a1 a2 (cn_clock (ss_conn s2)) echo (hdr_sendTimestamp h) (hdr_receiveTimestamp h) = Some c"
    "clock_inv c" by auto
  have "session_ok sys (s2\<lparr>ss_conn := (ss_conn s2)\<lparr>cn_clock := c\<rparr>\<rparr>)" using ok2 c(2) by (simp add: session_ok_def tx_ok_def rx_ok_def)
  then show ?thesis using s1 s2 c(1) by (simp add: clock_feedback_def)
qed

lemma recv_account_ok:
  assumes ok: "session_ok sys s"
  shows "session_ok sys (recv_account sys p s)" "cn_clock (ss_conn (recv_account sys p s)) = cn_clock (ss_conn s)"
proof -
  let ?h = "pkt_header p"
  define s1 where "s1 = s\<lparr>ss_conn := (ss_conn s)\<lparr>cn_tp := (cn_tp (ss_conn s))\<lparr>tp_lastReceive := hdr_receiveTimestamp ?h\<rparr>\<rparr>\<rparr>"
  have ok1: "session_ok sys s1" using ok core_ok(1)[of s1 s sys] by (simp add: s1_def core_def)
  obtain a1 s2 where s2: "may_alloc sys s1 = (a1, s2)" by fastforce
  obtain a2 s3 where s3: "may_alloc sys s2 = (a2, s3)" by fastforce
  have ok3: "session_ok sys s3" using env_ok(1)[OF ok1 s2] env_ok(1)[OF _ s3] by blast
  let ?s4 = "set_network (IHS_SessionRecordNetworkReceived a1 a2 (lk_network (cn_link (ss_conn s3))) (hdr_receiveTimestamp ?h)
     (of_nat (13 + buf_size (pkt_body p)))) s3"
  define s5 where "s5 = (if hdr_type ?h \<noteq> IHS_SessionPacketTypeUnconnected then ?s4 else s)"
  have ok5: "session_ok sys s5" using ok ok3 by (simp add: s5_def)
  have clock5: "cn_clock (ss_conn s5) = cn_clock (ss_conn s)"
    using env_only(1)[OF s2] env_only(1)[OF s3] by (auto simp: s5_def s1_def set_env_def set_network_def)
  have run: "recv_account sys p s = (if \<not> recv_special (hdr_type ?h) \<and> shaken s5
      then session_register sys (unat (hdr_channelId ?h)) s5 else s5)"
    using s2 s3 by (simp add: recv_account_def Let_def s5_def s1_def[symmetric])
  have "cn_clock (ss_conn (session_register sys ch t)) = cn_clock (ss_conn t)" for ch and t :: "'a session"
    using register_shape[of sys ch t] by (auto simp: set_env_def set_outgoing_def)
  then show "session_ok sys (recv_account sys p s)" "cn_clock (ss_conn (recv_account sys p s)) = cn_clock (ss_conn s)"
    using register_ok(1)[OF ok5] ok5 clock5 by (simp_all add: run)
qed

lemma link_ok_marked: "link_ok q \<Longrightarrow> link_ok (marked c q)"
  by (simp add: marked_def Let_def link_ok_header)

lemma unreliable_nack_safe:
  assumes ok: "session_ok sys s" and b: "buf_wf (pkt_body p)" "buf_size (pkt_body p) \<le> 8198"
  shows "\<exists>s'. recv_unreliable_nack sys p s = Some s' \<and> session_ok sys s'"
proof (cases "shaken s")
  case True
  obtain now s1 where s1: "read_timestamp sys s = (now, s1)" by fastforce
  have ok1: "session_ok sys s1" using env_ok(3)[OF ok s1] by blast
  let ?ch = "unat (ucast (hdr_channelId (pkt_header p)) :: u8)"
  let ?age = "IHS_StreamClockNackAgeTicks (sy_nackMs sys (cn_clock (ss_conn s1)))"
  have wf: "out_wf link_ok (ss_outgoing s1)" "registry (ss_outgoing s1)" using ok1 by (simp_all add: session_ok_def tx_ok_def)
  have "\<exists>o'. IHS_OutgoingNack (ss_outgoing s1) p now ?age = Some o' \<and> out_wf link_ok o' \<and> registry o'"
  proof (cases "?ch \<ge> 32")
    case True
    then show ?thesis using wf by (simp add: IHS_OutgoingNack_def)
  next
    case False
    let ?w = "out_unreliable (ss_outgoing s1) ! ?ch"
    have w: "ow_inv ?w" "\<forall>i q. ow_get ?w i = Some q \<longrightarrow> link_ok q" using out_wf_window[OF wf(1), of ?ch] False by auto
    obtain w' where w': "nack_window ?w p now ?age = Some w'" "ow_inv w'"
      "\<forall>j q. ow_get w' j = Some q \<longrightarrow> (\<exists>c. ow_get ?w j = Some q \<or> (\<exists>q0. ow_get ?w j = Some q0 \<and> q = marked c q0))"
      using nack_window_total[OF w(1) b] by blast
    have "\<forall>j q. ow_get w' j = Some q \<longrightarrow> link_ok q" using w'(3) w(2) link_ok_marked by metis
    then have "out_wf link_ok (set_window ?ch w' (ss_outgoing s1))"
      using wf(1) w'(2) by (auto simp: out_wf_def set_window_def dest!: set_update_subset_insert[THEN subsetD])
    moreover have "registry (set_window ?ch w' (ss_outgoing s1))"
      using same_registryD[of "ss_outgoing s1"] wf(2) by simp
    ultimately show ?thesis using w'(1) False by (simp add: IHS_OutgoingNack_def)
  qed
  then obtain o' where o': "IHS_OutgoingNack (ss_outgoing s1) p now ?age = Some o'" "out_wf link_ok o'" "registry o'" by blast
  then show ?thesis using True s1 ok1
    by (auto simp: recv_unreliable_nack_def session_ok_def tx_ok_def rx_ok_def set_outgoing_def)
qed (use ok in \<open>simp add: recv_unreliable_nack_def\<close>)

lemma recv_ack_safe:
  assumes ok: "session_ok sys s" and room: "clock_room s" and b: "buf_wf (pkt_body p)" "4 \<le> buf_size (pkt_body p)"
  shows "\<exists>s'. recv_ack sys p s = Some s' \<and> session_ok sys s'"
proof -
  have "4 \<le> length (buf_content (pkt_body p))" using length_buf_content[OF b(1)] b(2) by simp
  then obtain echo where echo: "IHS_ReadUInt32LE (buf_content (pkt_body p)) = Some echo" using u32_wire.dec_enough by metis
  obtain s1 where s1: "clock_feedback sys echo (pkt_header p) s = Some s1" "session_ok sys s1"
    using clock_feedback_safe[OF ok room] by blast
  obtain nowMs s2 where s2: "IHS_TimerNow sys s1 = (nowMs, s2)" by fastforce
  have ok2: "session_ok sys s2" using env_ok(2)[OF s1(2) s2] by blast
  show ?thesis using body_bytes_content[OF b(1)] echo s1(1) s2
      session_ok_retransmission[OF ok2 AcknowledgeThrough_store[OF session_ok_store[OF ok2]]]
    by (simp add: recv_ack_def)
qed

lemma recv_disconnect_safe:
  assumes ok: "session_ok sys s"
  shows "\<exists>s'. recv_disconnect sys s = Some s' \<and> session_ok sys s'"
proof -
  have "live_alloc (ss_mem sys)" using ok by (simp add: session_ok_def tx_ok_def)
  from TransportDisconnect_like[OF this] obtain c where
    c: "IHS_SessionTransportDisconnect (sy_pf sys) (ss_conn s) = Some c" "conn_like (ss_conn s) c" by blast
  have "session_ok sys (s\<lparr>ss_hostRequestedStop := True, ss_conn := c\<rparr>)"
    using conn_like_ok(1)[OF ok c(2)] core_ok(1)[of "s\<lparr>ss_hostRequestedStop := True, ss_conn := c\<rparr>" "s\<lparr>ss_conn := c\<rparr>" sys]
    by (simp add: core_def)
  then show ?thesis using ok c(1) by (auto simp: recv_disconnect_def)
qed

lemma polite_call:
  assumes "polite sys up" "session_ok sys s" "\<forall>b. event_body e = Some b \<longrightarrow> tidy b"
  obtains b s' where "up e s = Some (b, s')" "tidy b" "session_ok sys s'"
  using assms unfolding polite_def by blast

lemma OnConnectACK_safe:
  assumes up: "polite sys up" and ok: "session_ok sys s" and room: "clock_room s" and b: "buf_wf (pkt_body p)"
  shows "\<exists>s'. OnConnectACK sys up p s = Some s' \<and> session_ok sys s'"
proof (cases "buf_size (pkt_body p) = 4")
  case True
  let ?h = "pkt_header p" and ?c = "ss_conn s"
  let ?s1 = "s\<lparr>ss_conn := ?c\<lparr>cn_hostConnectionId := hdr_srcConnectionId ?h, cn_link := (cn_link ?c)\<lparr>lk_crcRequired := hdr_hasCrc ?h\<rparr>\<rparr>\<rparr>"
  have ok1: "session_ok sys ?s1" using ok core_ok(1)[of ?s1 s sys] by (simp add: core_def)
  have room1: "clock_room ?s1" using room by simp
  have "4 \<le> length (buf_content (pkt_body p))" using length_buf_content[OF b] True by simp
  then obtain echo where echo: "IHS_ReadUInt32LE (buf_content (pkt_body p)) = Some echo" using u32_wire.dec_enough by metis
  obtain s2 where s2: "clock_feedback sys echo ?h ?s1 = Some s2" "session_ok sys s2"
    using clock_feedback_safe[OF ok1 room1] by blast
  obtain x s3 where s3: "up (Handshake (cn_testMode (ss_conn s2))) s2 = Some (x, s3)" "session_ok sys s3"
    by (rule polite_call[OF up s2(2), of "Handshake (cn_testMode (ss_conn s2))"]) simp_all
  obtain now s4 where s4: "read_timestamp sys s3 = (now, s4)" by fastforce
  have ok4: "session_ok sys s4" using env_ok(3)[OF s3(2) s4] by blast
  have "core (IHS_SessionNetworkTestConnected now s4) = core s4" by (simp add: core_def IHS_SessionNetworkTestConnected_def)
  then have "session_ok sys (IHS_SessionNetworkTestConnected now s4)" using ok4 core_ok(1) by blast
  then have "OnConnectACK sys up p s \<in> {Some s, Some (IHS_SessionNetworkTestConnected now s4)}"
    using True body_bytes_content[OF b] echo s2(1) s3(1) s4 by (auto simp: OnConnectACK_def Let_def)
  then show ?thesis using ok \<open>session_ok sys (IHS_SessionNetworkTestConnected now s4)\<close> by blast
qed (use ok in \<open>simp add: OnConnectACK_def Let_def\<close>)

lemma ReceivedPacket_safe:
  assumes up: "polite sys up" and ok: "session_ok sys s" and room: "clock_room s" and b: "tidy (pkt_body p)"
  shows "\<exists>p' s'. IHS_SessionChannelReceivedPacket sys up c p s = Some (p', s') \<and> session_ok sys s' \<and> tidy (pkt_body p')"
proof -
  obtain x s1 where s1: "up (ChannelPacket c p) s = Some (x, s1)" "tidy x" "session_ok sys s1"
    by (rule polite_call[OF up ok, of "ChannelPacket c p"]) (use b in simp_all)
  have live: "live_alloc (ss_mem sys)" using ok by (simp add: session_ok_def tx_ok_def)
  obtain k where k: "IHS_SessionTransportDisconnect (sy_pf sys) (ss_conn s) = Some k" "conn_like (ss_conn s) k"
    using TransportDisconnect_like[OF live] by blast
  obtain s2 where s2: "OnConnectACK sys up p s = Some s2" "session_ok sys s2"
    using OnConnectACK_safe[OF up ok room] b by (auto simp: tidy_def)
  show ?thesis using s1 s2 k(1) conn_like_ok(1)[OF ok k(2)] ok b
    by (simp add: IHS_SessionChannelReceivedPacket_def OnDiscoveryReceived_def Let_def)
qed

lemma dispatch_safe:
  assumes up: "polite sys up" and ok: "session_ok sys s" and room: "clock_room s"
    and b: "tidy (pkt_body p)" "\<not> IHS_BufferIsNull (pkt_body p)" "buf_size (pkt_body p) \<le> 8198"
  shows "\<exists>p' s'. recv_dispatch sys up p s = Some (p', s') \<and> session_ok sys s' \<and> tidy (pkt_body p')"
proof -
  let ?t = "hdr_type (pkt_header p)" and ?c = "hdr_channelId (pkt_header p)"
  have wf: "buf_wf (pkt_body p)" using b(1) by (simp add: tidy_def)
  have chan: "\<exists>p' s'. recv_channel sys up p t = Some (p', s') \<and> session_ok sys s' \<and> tidy (pkt_body p')"
    if t: "session_ok sys t" "clock_room t" for t
  proof -
    obtain c where c: "IHS_SessionChannelFor t ?c = Some c" using ChannelFor_total[of t ?c] t(1) by (auto simp: session_ok_def rx_ok_def)
    show ?thesis using c UnreliableReceived_safe[OF up t(1) b(1,2)] ReceivedPacket_safe[OF up t b(1)] t(1) b(1)
      by (auto simp: recv_channel_def Let_def split: option.splits)
  qed
  obtain c where c: "0 < length (ss_channels s)" "ss_channels s ! 0 = Some c"
    using ok by (cases "ss_channels s"; cases "hd (ss_channels s)") (auto simp: session_ok_def rx_ok_def channels_ok_def)
  consider "12 \<le> ?t \<or> ?t = 2 \<or> ?t = 10 \<or> ?t = 9 \<or> ?t = 7 \<and> buf_size (pkt_body p) < 4" | "?t \<in> {5, 6, 8}"
    | "?t = 7" "4 \<le> buf_size (pkt_body p)" | "?t \<notin> {2, 5, 6, 7, 8, 9, 10}" "\<not> 12 \<le> ?t" by fastforce
  then show ?thesis
  proof cases
    case 1
    then show ?thesis using ok b(1) c ReceivedPacket_safe[OF up ok room b(1), of c] unreliable_nack_safe[OF ok wf b(3)]
        recv_disconnect_safe[OF ok] by (auto simp: recv_dispatch_def Let_def)
  next
    case 2
    then show ?thesis using ReliableReceived_safe[OF ok b(1,2)] by (auto simp: recv_dispatch_def Let_def)
  next
    case 3
    obtain s1 where s1: "recv_ack sys p s = Some s1" "session_ok sys s1" using recv_ack_safe[OF ok room wf 3(2)] by blast
    have "\<exists>c. IHS_SessionChannelFor s1 ?c = Some c" using ChannelFor_total[of s1 ?c] s1(2) by (auto simp: session_ok_def rx_ok_def)
    then obtain c where "IHS_SessionChannelFor s1 ?c = Some c" ..
    moreover have "\<exists>p' s'. IHS_SessionChannelReceivedPacket sys up k p s1 = Some (p', s') \<and> session_ok sys s' \<and> tidy (pkt_body p')" for k
    proof -
      obtain x s2 where "up (ChannelPacket k p) s1 = Some (x, s2)" "tidy x" "session_ok sys s2"
        by (rule polite_call[OF up s1(2), of "ChannelPacket k p"]) (use b(1) in simp_all)
      then show ?thesis using 3(1) s1(2) b(1) by (simp add: IHS_SessionChannelReceivedPacket_def OnDiscoveryReceived_def Let_def)
    qed
    ultimately show ?thesis using s1 3 b(1) by (auto simp: recv_dispatch_def recv_channel_def Let_def split: option.splits)
  next
    case 4
    then show ?thesis using chan[OF ok room] by (auto simp: recv_dispatch_def Let_def)
  qed
qed

section \<open>Datagrams\<close>


text \<open>A delegate that only notes what it is given, a datagram with one frame, and one that ends the connection.\<close>

definition demo_up :: "unit delegate" where
  "demo_up e s = Some (case event_body e of Some b \<Rightarrow> b | None \<Rightarrow> IHS_BUFFER_WRAP [], s\<lparr>ss_events := ss_events s @ [e]\<rparr>)"

definition demo_wire :: "u32 \<Rightarrow> bytes \<Rightarrow> ihs_buffer" where
  "demo_wire t payload = IHS_BUFFER_WRAP (frame_bytes (zero_header\<lparr>hdr_hasCrc := True, hdr_type := t, hdr_srcConnectionId := 9,
     hdr_dstConnectionId := 7, hdr_channelId := 3\<rparr>) payload)"

lemma demo_wire_tidy: "length payload \<le> 1000 \<Longrightarrow> tidy (demo_wire t payload) \<and> buf_size (demo_wire t payload) \<le> 8192"
  by (simp add: tidy_def demo_wire_def buf_wf_def IHS_BUFFER_WRAP_def frame_bytes_def Let_def u32_wire.length_enc)

lemma demo_session_ok: "session_ok demo_system demo_session"
proof -
  have "clock_inv IHS_StreamClockInit" "zero_reliable = zero_reliable\<lparr>rl_window := None\<rparr>"
    by (simp_all add: clock_inv_def IHS_StreamClockInit_def ping_inv_def samples_def zero_queue_def sq_wf_def zero_reliable_def)
  then show ?thesis using demo_tx_ok
    by (auto simp: session_ok_def rx_ok_def demo_session_def live_conn_def zero_reliable_def channels_ok_def)
qed

lemma demo_up_polite: "polite demo_system demo_up"
proof -
  have "tidy (case event_body e of Some b \<Rightarrow> b | None \<Rightarrow> IHS_BUFFER_WRAP [])" if "\<forall>b. event_body e = Some b \<longrightarrow> tidy b" for e
    using that by (cases "event_body e") (simp_all add: tidy_def buf_wf_WRAP IHS_BUFFER_WRAP_def buf_wf_def)
  moreover have "session_ok demo_system (s\<lparr>ss_events := x\<rparr>)" if "session_ok demo_system s" for s x
    using that core_ok(1)[of "s\<lparr>ss_events := x\<rparr>" s demo_system] by (simp add: core_def)
  ultimately show ?thesis by (auto simp: polite_def demo_up_def same_windows_def)
qed


section \<open>Admission\<close>

text \<open>Which datagrams a session takes, read off the bytes, by packet type.\<close>

definition admissible :: "socket_address \<Rightarrow> bytes \<Rightarrow> 'n session \<Rightarrow> bool" where
  "admissible address bs s \<longleftrightarrow>
     (case parse_datagram bs of (result, h, _, _) \<Rightarrow>
        let c = ss_conn s; channel = hdr_channelId h;
            current = (\<not> tp_addressCleared (cn_tp c)); to_us = (hdr_dstConnectionId h = cn_connectionId c);
            from_host = (hdr_srcConnectionId h = cn_hostConnectionId c) in
        result = ResultOK \<and> address = ss_address s \<and> \<not> lk_detached (cn_link c) \<and> \<not> tp_timedOut (cn_tp c) \<and>
        (if hdr_type h = IHS_SessionPacketTypeUnconnected then channel = IHS_SessionChannelIdDiscovery
         else if hdr_type h = IHS_SessionPacketTypeConnect then current \<and> (cn_hostConnectionId c = 0 \<or> from_host)
         else if hdr_type h = IHS_SessionPacketTypeConnectACK then current \<and> to_us
         else if hdr_type h = IHS_SessionPacketTypeDisconnect then current \<and> to_us \<and> from_host
         else current \<and> to_us \<and> from_host \<and> channel < 32 \<and> (lk_crcRequired (cn_link c) \<longrightarrow> hdr_hasCrc h)))"

lemma IPAddressCompare_eq [simp]: "IHS_IPAddressCompare a b \<longleftrightarrow> a \<noteq> b"
  by (cases a; cases b) (auto simp: IHS_IPAddressCompare_def)

lemma admissible_checks:
  assumes "parse_datagram bs = (ResultOK, h, crc, body)"
  shows "admissible address bs s \<longleftrightarrow>
    \<not> lk_detached (cn_link (ss_conn s)) \<and> \<not> recv_foreign address h s \<and> \<not> recv_refused h s"
proof -
  have "address = ss_address s \<longleftrightarrow> sa_ip address = sa_ip (ss_address s) \<and> sa_port address = sa_port (ss_address s)"
    by (cases address; cases "ss_address s") simp
  then show ?thesis using assms
    by (cases "hdr_type h = 0"; cases "hdr_type h = 1"; cases "hdr_type h = 2"; cases "hdr_type h = 9")
      (auto simp: admissible_def recv_foreign_def recv_refused_def recv_special_def Let_def not_le)
qed

lemma clear_after: "Option.bind a (\<lambda>_. Some b) = map_option (\<lambda>_. b) a"
  by (cases a) simp_all

text \<open>C6: A datagram is handled exactly if it is admissible.  Anything else (too short, damaged, from
  another address, for another connection, of an unknown sender, on a channel that cannot exist,
  without the checksum that was agreed, after the host was given up or the session detached) leaves
  the session exactly as it was, and no handler is called.  What is admissible is stamped with the
  time of arrival, counts as a sign of life and is dispatched with the header and payload it carries.\<close>

theorem recv_admission:
  assumes "tidy data"
  shows "if admissible address (buf_content data) s
    then \<exists>p. pkt_header p = (fst (snd (parse_datagram (buf_content data))))\<lparr>hdr_receiveTimestamp := received, hdr_receiveBegin := received\<rparr> \<and>
      buf_content (pkt_body p) = snd (snd (snd (parse_datagram (buf_content data)))) \<and>
      SessionRecvAt sys up address data received s =
        Option.bind (recv_dispatch sys up p (recv_account sys p s)) (\<lambda>r. map_option (\<lambda>_. snd r) (IHS_SessionPacketClear (fst r) True))
    else SessionRecvAt sys up address data received s = Some s"
proof -
  have wf: "buf_wf data" using assms by (simp add: tidy_def)
  obtain r where r: "IHS_SessionPacketParse data = Some r" "parse_view r = parse_datagram (buf_content data)"
    using PacketParse_refines[OF wf] by blast
  obtain ret p rest where run: "r = (ret, p, rest)" by (cases r)
  have view: "parse_datagram (buf_content data) = (ret, pkt_header p, pkt_crc p, buf_content (pkt_body p))"
    using r(2) by (simp add: run parse_view_def)
  show ?thesis
  proof (cases "ret = ResultOK")
    case False
    then have "\<not> admissible address (buf_content data) s" using view by (simp add: admissible_def)
    then show ?thesis using False r(1) run by (simp add: SessionRecvAt_def)
  next
    case True
    let ?p = "p\<lparr>pkt_header := (pkt_header p)\<lparr>hdr_receiveTimestamp := received, hdr_receiveBegin := received\<rparr>\<rparr>"
    have run': "IHS_SessionPacketParse data = Some (ResultOK, p, rest)" using r(1) run True by simp
    note b = Parse_body[OF assms run']
    obtain q1 q2 where q: "IHS_SessionPacketClear p True = Some q1" "IHS_SessionPacketClear ?p True = Some q2"
      using tidy_PacketClear[of p] tidy_PacketClear[of ?p] b(1) by auto
    have refused: "recv_refused (pkt_header ?p) s = recv_refused (pkt_header p) s" by (simp add: recv_refused_def)
    note adm = admissible_checks[OF view[unfolded True], of address s]
    show ?thesis
    proof (cases "admissible address (buf_content data) s")
      case False
      then show ?thesis using adm run' q refused by (auto simp: SessionRecvAt_def Let_def)
    next
      case True
      have "SessionRecvAt sys up address data received s =
          Option.bind (recv_dispatch sys up ?p (recv_account sys ?p s)) (\<lambda>r. map_option (\<lambda>_. snd r) (IHS_SessionPacketClear (fst r) True))"
        using True adm run' refused by (simp add: SessionRecvAt_def Let_def clear_after case_prod_unfold)
      then show ?thesis using True view by (auto intro!: exI[of _ ?p])
    qed
  qed
qed

theorem recv_admission_witness:
  "(\<exists>p. hdr_type (pkt_header p) = IHS_SessionPacketTypeDisconnect \<and> buf_content (pkt_body p) = [] \<and>
     SessionRecvAt demo_system demo_up (ss_address demo_session) (demo_wire 9 []) 77 demo_session =
       Option.bind (recv_dispatch demo_system demo_up p (recv_account demo_system p demo_session))
         (\<lambda>r. map_option (\<lambda>_. snd r) (IHS_SessionPacketClear (fst r) True))) \<and>
   SessionRecvAt demo_system demo_up ((ss_address demo_session)\<lparr>sa_port := 1\<rparr>) (demo_wire 9 []) 77 demo_session = Some demo_session"
proof -
  have content: "buf_content (demo_wire 9 []) = frame_bytes (zero_header\<lparr>hdr_hasCrc := True, hdr_type := 9, hdr_srcConnectionId := 9,
     hdr_dstConnectionId := 7, hdr_channelId := 3\<rparr>) []" by (simp add: demo_wire_def)
  have adm: "admissible a (buf_content (demo_wire 9 [])) demo_session \<longleftrightarrow> a = ss_address demo_session" for a
    unfolding content by (simp add: admissible_def parse_frame_bytes wire_view_def zero_header_def demo_session_def live_defs)
  have tidy: "tidy (demo_wire 9 [])" using demo_wire_tidy[of "[]" 9] by simp
  have port: "(ss_address demo_session)\<lparr>sa_port := 1\<rparr> \<noteq> ss_address demo_session" by (simp add: demo_session_def)
  have "\<exists>p. pkt_header p = (wire_view (zero_header\<lparr>hdr_hasCrc := True, hdr_type := 9, hdr_srcConnectionId := 9, hdr_dstConnectionId := 7,
      hdr_channelId := 3\<rparr>))\<lparr>hdr_receiveTimestamp := 77, hdr_receiveBegin := 77\<rparr> \<and> buf_content (pkt_body p) = [] \<and>
     SessionRecvAt demo_system demo_up (ss_address demo_session) (demo_wire 9 []) 77 demo_session =
       Option.bind (recv_dispatch demo_system demo_up p (recv_account demo_system p demo_session))
         (\<lambda>r. map_option (\<lambda>_. snd r) (IHS_SessionPacketClear (fst r) True))"
    using recv_admission[OF tidy, of "ss_address demo_session" demo_session 77 demo_system demo_up] adm[of "ss_address demo_session"]
    by (simp add: content parse_frame_bytes)
  then obtain p where "pkt_header p = (wire_view (zero_header\<lparr>hdr_hasCrc := True, hdr_type := 9, hdr_srcConnectionId := 9, hdr_dstConnectionId := 7,
      hdr_channelId := 3\<rparr>))\<lparr>hdr_receiveTimestamp := 77, hdr_receiveBegin := 77\<rparr>" "buf_content (pkt_body p) = []"
     "SessionRecvAt demo_system demo_up (ss_address demo_session) (demo_wire 9 []) 77 demo_session =
       Option.bind (recv_dispatch demo_system demo_up p (recv_account demo_system p demo_session))
         (\<lambda>r. map_option (\<lambda>_. snd r) (IHS_SessionPacketClear (fst r) True))" by (elim exE conjE)
  then have "hdr_type (pkt_header p) = IHS_SessionPacketTypeDisconnect \<and> buf_content (pkt_body p) = [] \<and>
     SessionRecvAt demo_system demo_up (ss_address demo_session) (demo_wire 9 []) 77 demo_session =
       Option.bind (recv_dispatch demo_system demo_up p (recv_account demo_system p demo_session))
         (\<lambda>r. map_option (\<lambda>_. snd r) (IHS_SessionPacketClear (fst r) True))" by (simp add: wire_view_def)
  then show ?thesis
    using recv_admission[OF tidy, of "(ss_address demo_session)\<lparr>sa_port := 1\<rparr>" demo_session 77 demo_system demo_up] adm port
    by auto
qed

end
