(* ===== verification/Frame_Transfer.thy ===== *)
theory Frame_Transfer
  imports Frame_Admission Window_Props
begin

text \<open>
  A frame on its way from one session to another: the packets into which the sender cuts it
  (\<^verbatim>\<open>session/channels/channel.c\<close>) are put into the reliable receive window of the other side
  (\<^verbatim>\<open>session/window.c\<close>), in whatever order and however often they arrive.
\<close>

section \<open>Polling an incomplete window\<close>

lemma poll_measure_gap:
  assumes rep: "win_rep w n" and "k + left \<le> n"
    and "\<exists>j. k \<le> j \<and> j < k + left \<and> \<not> frag_ok (win_reliable w) (win_view w) j"
    and "acc + length (frame_data (take left (drop k (win_view w)))) \<le> SIZE_MAX"
  shows "poll_measure w k left acc = Inl PollOK"
  using assms(2-)
proof (induction left arbitrary: k acc)
  case 0
  then show ?case by auto
next
  case (Suc left)
  let ?item = "win_slot w (win_head w + int k)"
  have k: "k < n" using Suc.prems(1) by simp
  have split: "take (Suc left) (drop k (win_view w)) = win_view w ! k # take left (drop (Suc k) (win_view w))"
    using k view_len[OF rep] by (simp add: Cons_nth_drop_Suc[symmetric])
  have at: "win_view w ! k = slot_view ?item" using view_nth[OF rep k] .
  show ?case
  proof (cases "frag_ok (win_reliable w) (win_view w) k")
    case False
    then show ?thesis by (auto simp: Let_def frag_ok_def at slot_view_def split: if_splits)
  next
    case True
    then have used: "FrameItemIsUsed ?item" by (auto simp: frag_ok_def at slot_view_def split: if_splits)
    then have wf: "buf_wf (itm_body ?item)" using win_slot_ok[OF rep, of "win_head w + int k"] by (simp add: item_ok_def)
    have len: "length (view_body (win_view w ! k)) = buf_size (itm_body ?item)"
      using used by (simp add: at slot_body length_buf_content[OF wf])
    have "poll_measure w k (Suc left) acc = poll_measure w (Suc k) left (acc + buf_size (itm_body ?item))"
      using used True buf_wf_bounds(1)[OF wf] Suc.prems(3) len by (auto simp: Let_def frag_ok_def at slot_view_def split)
    moreover have "\<exists>j. Suc k \<le> j \<and> j < Suc k + left \<and> \<not> frag_ok (win_reliable w) (win_view w) j"
      using Suc.prems(2) True by (metis add_Suc_right add_Suc_shift le_neq_implies_less Suc_leI)
    ultimately show ?thesis
      using Suc.IH[of "Suc k" "acc + buf_size (itm_body ?item)"] Suc.prems(1,3) len by (simp add: split)
  qed
qed

text \<open>The payloads of all packets of a window fit into memory many times over.\<close>

definition small_bodies :: "packets_window \<Rightarrow> bool" where
  "small_bodies w \<longleftrightarrow> (\<forall>v \<in> set (win_view w). length (view_body v) \<le> 8192)"

lemma frame_data_bound:
  assumes "\<forall>v \<in> set vs. length (view_body v) \<le> 8192" "length vs \<le> 2 ^ 16"
  shows "length (frame_data vs) \<le> 2 ^ 30"
proof -
  have "length (frame_data vs) \<le> length vs * 8192"
    using assms(1) by (induction vs) auto
  also have "\<dots> \<le> 2 ^ 16 * 8192" using assms(2) by (rule mult_right_mono) simp
  finally show ?thesis by simp
qed

text \<open>A reliable window without a complete frame in front: nothing is delivered and nothing changes.\<close>

lemma Poll_waits:
  assumes wf: "win_wf w" and rel: "win_reliable w" and none: "frame_count True (win_view w) = None"
    and small: "small_bodies w"
  shows "IHS_SessionPacketsWindowPoll mem w frame = Some (False, w\<lparr>win_pollError := PollOK\<rparr>, frame)"
proof -
  define v where "v = w\<lparr>win_pollError := PollOK\<rparr>"
  define n where "n = IHS_SessionPacketsWindowSize w"
  have rep: "win_rep v n" using wf by (simp add: win_wf_def n_def v_def)
  have v: "win_view v = win_view w" "win_reliable v" "IHS_SessionPacketsWindowSize v = n" using rel by (simp_all add: v_def n_def)
  note D = win_repD[OF rep]
  let ?head = "win_slot v (win_head v)"
  let ?count = "1 + sint (hdr_fragmentId (itm_header ?head))"
  have stop: "skip_orphans v n = Some (v, n)" using skip_orphans_stop[OF rep] v(2) by simp
  consider "n = 0" | "0 < n" "\<not> FrameItemIsHead ?head \<or> ?count < 1 \<or> int n < ?count"
    | "0 < n" "FrameItemIsHead ?head" "1 \<le> ?count" "?count \<le> int n" by linarith
  then have "IHS_SessionPacketsWindowPoll mem w frame = Some (False, v, frame)"
  proof cases
    case 1
    then show ?thesis by (simp add: IHS_SessionPacketsWindowPoll_def Let_def v_def n_def)
  next
    case 2
    then show ?thesis unfolding IHS_SessionPacketsWindowPoll_def Let_def v_def[symmetric] v(3)
      using stop D(6) by auto
  next
    case 3
    have used: "FrameItemIsUsed ?head" using 3(2) win_slot_ok[OF rep, of "win_head v"]
      by (auto simp: FrameItemIsHead_def item_ok_def zero_header_def split: if_splits)
    have cons: "win_view v = slot_view ?head # tl (win_view v)" by (rule view_Cons[OF rep 3(1)])
    have at: "slot_view ?head = Some (itm_header ?head, itm_body ?head)" using used by (simp add: slot_view_def)
    have "\<not> orphan (slot_view ?head)" using 3(2) by (simp add: orphan_slot)
    then have "\<not> list_all (frag_ok True (win_view v)) [0..<nat ?count]"
      using none[folded v(1)] 3(3,4) view_len[OF rep] at trans[OF cons] by (auto simp: frame_count_def Let_def split: list.splits)
    then have "\<exists>j. 0 \<le> j \<and> j < 0 + nat ?count \<and> \<not> frag_ok (win_reliable v) (win_view v) j"
      using v(2) by (auto simp: list_all_iff)
    moreover have "length (frame_data (take (nat ?count) (win_view v))) \<le> 2 ^ 30"
      using small view_len[OF rep] D(2,8) by (intro frame_data_bound) (auto simp: small_bodies_def v(1) dest!: in_set_takeD)
    then have "0 + length (frame_data (take (nat ?count) (drop 0 (win_view v)))) \<le> SIZE_MAX" by (simp add: SIZE_MAX_def)
    ultimately have "poll_measure v 0 (nat ?count) 0 = Inl PollOK"
      using poll_measure_gap[OF rep, of 0 "nat ?count" 0] 3(4) by simp
    then show ?thesis unfolding IHS_SessionPacketsWindowPoll_def Let_def v_def[symmetric] v(3)
      using stop D(6) 3 by (auto simp: v_def)
  qed
  then show ?thesis by (simp add: v_def)
qed

section \<open>Collecting the packets of a frame\<close>

fun add_all :: "packets_window \<Rightarrow> session_packet list \<Rightarrow> packets_window option" where
  "add_all w [] = Some w"
| "add_all w (q # qs) = do { (_, _, w, _) \<leftarrow> IHS_SessionPacketsWindowAddEx True w q; add_all w qs }"

text \<open>
  What arrives: the same packet as far as the window is concerned.  The times, the connection
  identifiers and the retransmission count may differ from copy to copy.
\<close>

definition copy_of :: "session_packet \<Rightarrow> packet_header \<Rightarrow> ihs_buffer \<Rightarrow> bool" where
  "copy_of p h b \<longleftrightarrow> hdr_packetId h = hdr_packetId (pkt_header p) \<and> hdr_fragmentId h = hdr_fragmentId (pkt_header p) \<and>
     hdr_type h = hdr_type (pkt_header p) \<and> buf_content b = buf_content (pkt_body p)"

text \<open>The window holds copies of exactly the packets with numbers in \<open>R\<close>, from its first place on.\<close>

definition gathered :: "session_packet list \<Rightarrow> u16 \<Rightarrow> nat set \<Rightarrow> packets_window \<Rightarrow> bool" where
  "gathered ps i R w \<longleftrightarrow> win_wf w \<and> win_reliable w \<and> 0 \<le> win_tail w \<and>
     IHS_SessionPacketsWindowNextNeededPacketId w = i \<and> length (win_view w) \<le> length ps \<and>
     (\<forall>k. k \<in> R \<longleftrightarrow> k < length (win_view w) \<and> win_view w ! k \<noteq> None) \<and>
     (\<forall>k h b. k < length (win_view w) \<longrightarrow> win_view w ! k = Some (h, b) \<longrightarrow> copy_of (ps ! k) h b)"

lemma sint_u16_small: "- 32768 \<le> z \<Longrightarrow> z < 32768 \<Longrightarrow> sint (of_int z :: u16) = z"
  by (simp add: signed_of_int signed_take_bit_int_eq_self)

lemma gathered_step:
  assumes g: "gathered ps i R w" and ids: "\<forall>k < length ps. hdr_packetId (pkt_header (ps ! k)) = i + of_nat k"
    and len: "length ps \<le> 16384" and k: "k < length ps" and q: "copy_of (ps ! k) (pkt_header q) (pkt_body q)" "body_ok (pkt_body q)"
  shows "\<exists>ok ins w' q'. IHS_SessionPacketsWindowAddEx True w q = Some (ok, ins, w', q') \<and> gathered ps i (insert k R) w'"
proof -
  let ?m = "length (win_view w)"
  have wf: "win_wf w" and rel: "win_reliable w" and tail: "0 \<le> win_tail w" and nx: "IHS_SessionPacketsWindowNextNeededPacketId w = i"
    and m: "?m \<le> length ps" using g by (simp_all add: gathered_def)
  have "hdr_packetId (pkt_header q) - win_tail_id w = of_int (int k - int ?m + 1)"
    using nx q(1) ids k by (simp add: NextNeeded_view copy_of_def algebra_simps)
  then have "add_offset w q = sint (of_int (int k - int ?m + 1) :: u16)" using tail by (simp add: add_offset_def)
  also have "\<dots> = int k - int ?m + 1" using k m len by (intro sint_u16_small) simp_all
  finally have off: "add_offset w q = int k - int ?m + 1" .
  let ?v = "view_verdict (win_reliable w) (win_capacity w) (win_view w) (add_offset w q)"
  have verdict: "?v = (if k < ?m \<and> win_view w ! k \<noteq> None then Duplicate else Inserted k)"
    using k len rel by (simp add: view_verdict_def off Let_def)
  obtain r where r: "IHS_SessionPacketsWindowAddEx True w q = Some r" "add_post w q ?v r" using AddEx_verdict[OF wf q(2)] by metis
  obtain ok ins w' q' where rr: "r = (ok, ins, w', q')" by (cases r)
  have "gathered ps i (insert k R) w'"
  proof (cases "k < ?m \<and> win_view w ! k \<noteq> None")
    case True
    then have "?v = Duplicate" using verdict by simp
    then have "w' = w" using r(2) by (simp add: add_post_def rr)
    moreover have "insert k R = R" using True g by (auto simp: gathered_def)
    ultimately show ?thesis using g by simp
  next
    case False
    then have "?v = Inserted k" using verdict by simp
    then have st: "stored w w' k q" using r(2) by (simp add: add_post_def rr)
    have kk: "int k = int ?m + add_offset w q - 1" using off by simp
    have view: "win_view w' = (win_view w @ replicate (Suc k - ?m) None)[k := Some (pkt_header q, pkt_body q)]"
      and wf': "win_wf w'" and rel': "win_reliable w'" using st rel by (simp_all add: stored_def)
    have len': "length (win_view w') = max ?m (Suc k)" by (simp add: view)
    have at: "win_view w' ! j = (if j = k then Some (pkt_header q, pkt_body q) else if j < ?m then win_view w ! j else None)"
      if "j < max ?m (Suc k)" for j using that by (auto simp: view nth_list_update nth_append)
    have "win_rep w' (length (win_view w'))" using wf' by (simp add: win_wf_def length_win_view)
    then have tail': "0 \<le> win_tail w'" using len' by (auto simp: win_rep_def split: if_splits)
    have nx': "IHS_SessionPacketsWindowNextNeededPacketId w' = i" using stored_NextNeeded(1)[OF st wf kk] tail nx by simp
    have R: "j \<in> R \<longleftrightarrow> j < ?m \<and> win_view w ! j \<noteq> None" for j using g by (simp add: gathered_def)
    have old: "copy_of (ps ! j) h b" if "j < ?m" "win_view w ! j = Some (h, b)" for j h b using g that by (simp add: gathered_def)
    show ?thesis unfolding gathered_def
    proof (intro conjI allI impI)
      show "length (win_view w') \<le> length ps" using m k by (simp add: len')
      show "j \<in> insert k R \<longleftrightarrow> j < length (win_view w') \<and> win_view w' ! j \<noteq> None" for j
        using at[of j] R[of j] by (cases "j = k"; cases "j < max ?m (Suc k)") (simp_all add: len' not_less)
      show "copy_of (ps ! j) h b" if "j < length (win_view w')" "win_view w' ! j = Some (h, b)" for j h b
        using that at[of j] q(1) old by (auto simp: len' split: if_splits)
    qed (use wf' rel' tail' nx' in simp_all)
  qed
  then show ?thesis using r(1) rr by blast
qed

lemma gathered_all:
  assumes "gathered ps i R w" "\<forall>k < length ps. hdr_packetId (pkt_header (ps ! k)) = i + of_nat k" "length ps \<le> 16384"
    "\<forall>q \<in> set qs. body_ok (pkt_body q) \<and> num q < length ps \<and> copy_of (ps ! num q) (pkt_header q) (pkt_body q)"
  shows "\<exists>w'. add_all w qs = Some w' \<and> gathered ps i (R \<union> num ` set qs) w'"
  using assms(1,4)
proof (induction qs arbitrary: R w)
  case (Cons q qs)
  have q: "body_ok (pkt_body q)" "num q < length ps" "copy_of (ps ! num q) (pkt_header q) (pkt_body q)" using Cons.prems(2) by simp_all
  obtain ok ins w1 q' where w1: "IHS_SessionPacketsWindowAddEx True w q = Some (ok, ins, w1, q')" "gathered ps i (insert (num q) R) w1"
    using gathered_step[OF Cons.prems(1) assms(2,3) q(2,3,1)] by blast
  have rest: "\<forall>q \<in> set qs. body_ok (pkt_body q) \<and> num q < length ps \<and> copy_of (ps ! num q) (pkt_header q) (pkt_body q)"
    using Cons.prems(2) by simp
  show ?case using Cons.IH[OF w1(2) rest] w1(1) by simp
qed simp

section \<open>From sender to receiver\<close>

text \<open>The packets of a frame as the sender has cut them.\<close>

lemma cut_packets:
  assumes cut: "cut_frame h i lim d retransmit items" and t: "hdr_type h = IHS_SessionPacketTypeReliable"
    and lim: "0 < lim" "lim \<le> 8192" and d: "d \<noteq> []" and n: "length items \<le> 16384"
  defines "ps \<equiv> map qp_packet items"
  shows "\<forall>k < length ps. hdr_packetId (pkt_header (ps ! k)) = i + of_nat k"
    "0 < length ps" "hdr_type (pkt_header (ps ! 0)) = IHS_SessionPacketTypeReliable"
    "sint (hdr_fragmentId (pkt_header (ps ! 0))) = int (length ps) - 1"
    "\<forall>k < length ps. buf_content (pkt_body (ps ! k)) \<noteq> [] \<and> length (buf_content (pkt_body (ps ! k))) \<le> 8192"
    "concat (map (\<lambda>p. buf_content (pkt_body p)) ps) = d"
proof -
  let ?n = "length items"
  have len: "?n = max 1 ((length d + lim - 1) div lim)"
    and hdr: "map (\<lambda>q. pkt_header (qp_packet q)) items = map (fragment_of h i ?n) [0..<?n]"
    and sz: "map (\<lambda>q. length (buf_content (pkt_body (qp_packet q)))) items = map (\<lambda>j. min lim (length d - j * lim)) [0..<?n]"
    and body: "concat (map (\<lambda>q. buf_content (pkt_body (qp_packet q))) items) = d" using cut by (simp_all add: cut_frame_def)
  have hk: "pkt_header (ps ! k) = fragment_of h i ?n k" if "k < ?n" for k
    using arg_cong[OF hdr, of "\<lambda>xs. xs ! k"] that by (simp add: ps_def)
  have sk: "length (buf_content (pkt_body (ps ! k))) = min lim (length d - k * lim)" if "k < ?n" for k
    using arg_cong[OF sz, of "\<lambda>xs. xs ! k"] that by (simp add: ps_def)
  show "\<forall>k < length ps. hdr_packetId (pkt_header (ps ! k)) = i + of_nat k" using hk by (simp add: ps_def fragment_of_def)
  show "0 < length ps" using len by (simp add: ps_def)
  then have h0: "pkt_header (ps ! 0) = h\<lparr>hdr_packetId := i, hdr_fragmentId := of_nat (?n - 1)\<rparr>"
    using hk[of 0] by (simp add: ps_def fragment_of_def)
  show "hdr_type (pkt_header (ps ! 0)) = IHS_SessionPacketTypeReliable" using h0 t by simp
  have "sint (of_int (int (?n - 1)) :: u16) = int (?n - 1)" using n by (intro sint_u16_small) simp_all
  then show "sint (hdr_fragmentId (pkt_header (ps ! 0))) = int (length ps) - 1"
    using h0 \<open>0 < length ps\<close> by (cases items) (simp_all add: ps_def)
  have "0 < length d - k * lim" if "k < ?n" for k
  proof -
    have "k \<le> (length d - 1) div lim"
      using that len d lim(1) by (cases "length d") (auto simp: max_def div_add_self2 split: if_splits)
    then have "k * lim \<le> length d - 1" using lim(1) by (simp add: less_eq_div_iff_mult_less_eq)
    then show ?thesis using d by (cases d) auto
  qed
  then have "0 < length (buf_content (pkt_body (ps ! k))) \<and> length (buf_content (pkt_body (ps ! k))) \<le> 8192" if "k < ?n" for k
    using sk[OF that] that lim by simp
  then show "\<forall>k < length ps. buf_content (pkt_body (ps ! k)) \<noteq> [] \<and> length (buf_content (pkt_body (ps ! k))) \<le> 8192"
    by (auto simp: ps_def)
  show "concat (map (\<lambda>p. buf_content (pkt_body p)) ps) = d" using body by (simp add: ps_def comp_def)
qed

lemma gathered_poll:
  assumes g: "gathered ps i R w" and R: "R \<subseteq> {..<length ps}" and n: "0 < length ps"
    and hd: "hdr_type (pkt_header (ps ! 0)) = IHS_SessionPacketTypeReliable" "sint (hdr_fragmentId (pkt_header (ps ! 0))) = int (length ps) - 1"
    and b: "\<forall>k < length ps. buf_content (pkt_body (ps ! k)) \<noteq> [] \<and> length (buf_content (pkt_body (ps ! k))) \<le> 8192"
  shows "frame_count True (win_view w) = (if R = {..<length ps} then Some (length ps) else None)"
    "small_bodies w" "R = {..<length ps} \<Longrightarrow> win_view w \<noteq> [] \<and> length (win_view w) = length ps \<and>
       map view_body (win_view w) = map (\<lambda>p. buf_content (pkt_body p)) ps"
proof -
  let ?m = "length (win_view w)"
  have m: "?m \<le> length ps" and mem: "\<And>k. k \<in> R \<longleftrightarrow> k < ?m \<and> win_view w ! k \<noteq> None"
    and copy: "\<And>k h b. k < ?m \<Longrightarrow> win_view w ! k = Some (h, b) \<Longrightarrow> copy_of (ps ! k) h b" using g by (simp_all add: gathered_def)
  have body: "view_body (win_view w ! k) = buf_content (pkt_body (ps ! k))" if "k \<in> R" for k
    using that mem[of k] copy[of k] by (auto simp: view_body_def copy_of_def)
  show "small_bodies w" unfolding small_bodies_def
  proof
    fix v assume "v \<in> set (win_view w)"
    then obtain k where k: "k < ?m" "v = win_view w ! k" by (auto simp: in_set_conv_nth)
    show "length (view_body v) \<le> 8192"
    proof (cases "k \<in> R")
      case True
      then show ?thesis using body[OF True] b k m by simp
    next
      case False
      then have "v = None" using mem[of k] k by blast
      then show ?thesis by (simp add: view_body_def)
    qed
  qed
  have full: "?m = length ps" if "R = {..<length ps}"
    using that mem[of "length ps - 1"] n m by auto
  show "win_view w \<noteq> [] \<and> length (win_view w) = length ps \<and> map view_body (win_view w) = map (\<lambda>p. buf_content (pkt_body p)) ps"
    if "R = {..<length ps}"
    using full[OF that] n body that by (auto intro!: nth_equalityI)
  show "frame_count True (win_view w) = (if R = {..<length ps} then Some (length ps) else None)"
  proof (cases "0 \<in> R")
    case False
    then have "frame_count True (win_view w) = None"
      using mem[of 0] by (cases "win_view w") (auto simp: frame_count_def split: option.splits)
    moreover have "R \<noteq> {..<length ps}" using False n by auto
    ultimately show ?thesis by simp
  next
    case True
    then obtain h x where v0: "win_view w ! 0 = Some (h, x)" "0 < ?m" using mem[of 0] by auto
    then obtain rest where v: "win_view w = Some (h, x) # rest" by (cases "win_view w") auto
    have c: "\<not> orphan (Some (h, x))" "1 + sint (hdr_fragmentId h) = int (length ps)"
      using copy[OF v0(2,1)] hd by (simp_all add: copy_of_def orphan_def)
    have pos: "0 \<le> sint (hdr_fragmentId h)" using c(2) n by linarith
    have "frame_count True (win_view w) =
        (if length ps \<le> ?m \<and> list_all (frag_ok True (win_view w)) [0..<length ps] then Some (length ps) else None)"
      using c n pos unfolding frame_count_def by (simp add: v)
    moreover have "length ps \<le> ?m \<and> list_all (frag_ok True (win_view w)) [0..<length ps] \<longleftrightarrow> R = {..<length ps}"
    proof
      assume a: "length ps \<le> ?m \<and> list_all (frag_ok True (win_view w)) [0..<length ps]"
      then have "k \<in> R" if "k < length ps" for k using mem[of k] that by (auto simp: frag_ok_def list_all_iff split: option.splits)
      then show "R = {..<length ps}" using R by auto
    next
      assume e: "R = {..<length ps}"
      have "frag_ok True (win_view w) k" if "k < length ps" for k using mem[of k] that e by (auto simp: frag_ok_def)
      then show "length ps \<le> ?m \<and> list_all (frag_ok True (win_view w)) [0..<length ps]" using full[OF e] by (simp add: list_all_iff)
    qed
    ultimately show ?thesis by simp
  qed
qed

text \<open>C4: A frame crosses the network unchanged.  Take the packets into which a frame is cut, and let any
  number of copies of them reach the other side in any order.  The receive window takes them all,
  and asking it for a frame gives one exactly if of every packet at least one copy has arrived; its
  payload is then the payload of the frame that was sent.  Until then nothing is delivered and
  nothing is lost.\<close>

theorem frame_transfer:
  assumes cut: "cut_frame h i lim d retransmit items" and t: "hdr_type h = IHS_SessionPacketTypeReliable"
    and lim: "0 < lim" "lim \<le> 8192" and d: "d \<noteq> []" and n: "length items \<le> 16384"
    and w: "win_wf w" "win_reliable w" "0 \<le> win_tail w" "win_view w = []" "IHS_SessionPacketsWindowNextNeededPacketId w = i"
    and qs: "\<forall>q \<in> set qs. body_ok (pkt_body q) \<and> (\<exists>p \<in> set items. copy_of (qp_packet p) (pkt_header q) (pkt_body q))"
    and f: "buf_wf (frm_body frame)" "buf_offset (frm_body frame) + length d + buf_suffix (frm_body frame) \<le> 2 ^ 62"
      "buf_maxCapacity (frm_body frame) = 0" and live: "live_alloc mem"
  shows "\<exists>w' ready w2 frame'. add_all w qs = Some w' \<and> IHS_SessionPacketsWindowPoll mem w' frame = Some (ready, w2, frame') \<and>
     (ready \<longleftrightarrow> (\<forall>p \<in> set items. \<exists>q \<in> set qs. copy_of (qp_packet p) (pkt_header q) (pkt_body q))) \<and>
     (if ready then buf_content (frm_body frame') = d else frame' = frame \<and> win_view w2 = win_view w')"
proof -
  define ps where "ps = map qp_packet items"
  note P = cut_packets[OF cut t lim d n, folded ps_def]
  have len: "length ps \<le> 16384" using n by (simp add: ps_def)
  define num :: "session_packet \<Rightarrow> nat" where "num q = (SOME k. k < length ps \<and> copy_of (ps ! k) (pkt_header q) (pkt_body q))" for q
  have num: "num q < length ps \<and> copy_of (ps ! num q) (pkt_header q) (pkt_body q)" if q: "q \<in> set qs" for q
    unfolding num_def
  proof (rule someI_ex)
    obtain p where "p \<in> set items" "copy_of (qp_packet p) (pkt_header q) (pkt_body q)"
      using bspec[OF qs q] by (elim conjE bexE)
    then show "\<exists>k. k < length ps \<and> copy_of (ps ! k) (pkt_header q) (pkt_body q)"
      unfolding ps_def by (metis in_set_conv_nth length_map nth_map)
  qed
  have uniq: "j = k" if "j < length ps" "k < length ps" "copy_of (ps ! j) x b" "copy_of (ps ! k) x b" for j k x b
  proof -
    have "i + of_nat j = i + of_nat k" using that P(1) by (simp add: copy_of_def)
    then have "unat (of_nat j :: u16) = unat (of_nat k :: u16)" by simp
    then show ?thesis using that(1,2) len by (simp add: unat_of_nat)
  qed
  have "gathered ps i {} w" using w by (simp add: gathered_def)
  then obtain w' where w': "add_all w qs = Some w'" "gathered ps i (num ` set qs) w'"
    using gathered_all[of ps i "{}" w qs num] P(1) len qs num by auto
  have R: "num ` set qs \<subseteq> {..<length ps}" using num by auto
  note G = gathered_poll[OF w'(2) R P(2-5)]
  have all: "num ` set qs = {..<length ps} \<longleftrightarrow> (\<forall>p \<in> set items. \<exists>q \<in> set qs. copy_of (qp_packet p) (pkt_header q) (pkt_body q))"
  proof -
    have "k \<in> num ` set qs \<longleftrightarrow> (\<exists>q \<in> set qs. copy_of (ps ! k) (pkt_header q) (pkt_body q))" if k: "k < length ps" for k
    proof
      assume "\<exists>q \<in> set qs. copy_of (ps ! k) (pkt_header q) (pkt_body q)"
      then obtain q where "q \<in> set qs" "copy_of (ps ! k) (pkt_header q) (pkt_body q)" ..
      moreover from this have "k = num q" using num uniq[OF k] by blast
      ultimately show "k \<in> num ` set qs" by blast
    qed (use num in blast)
    then have "num ` set qs = {..<length ps} \<longleftrightarrow> (\<forall>k < length ps. \<exists>q \<in> set qs. copy_of (ps ! k) (pkt_header q) (pkt_body q))"
      using R by auto
    then show ?thesis by (auto simp: ps_def all_set_conv_all_nth)
  qed
  have wf: "win_wf w'" "win_reliable w'" using w'(2) by (simp_all add: gathered_def)
  show ?thesis
  proof (cases "num ` set qs = {..<length ps}")
    case False
    then have "IHS_SessionPacketsWindowPoll mem w' frame = Some (False, w'\<lparr>win_pollError := PollOK\<rparr>, frame)"
      using Poll_waits[OF wf _ G(2)] G(1) by simp
    then show ?thesis unfolding all[symmetric] using w'(1) False by (intro exI[of _ w'] exI[of _ False] exI[of _ "w'\<lparr>win_pollError := PollOK\<rparr>"]) simp
  next
    case True
    have v: "frame_data (win_view w') = d" "length (win_view w') = length ps" using G(3)[OF True] P(6) by simp_all
    have "list_all (\<lambda>v. view_body v \<noteq> []) (win_view w')"
    proof -
      have "view_body v \<in> (\<lambda>p. buf_content (pkt_body p)) ` set ps" if "v \<in> set (win_view w')" for v
        using G(3)[OF True] that by (metis image_eqI list.set_map)
      moreover have "x \<noteq> []" if "x \<in> (\<lambda>p. buf_content (pkt_body p)) ` set ps" for x
        using that P(5) by (auto simp: in_set_conv_nth)
      ultimately show ?thesis by (auto simp: list_all_iff)
    qed
    then have "poll_ready w' frame (length ps)" using G(1) True v f wf(2) by (simp add: poll_ready_def Let_def)
    then obtain w2 frame' where "IHS_SessionPacketsWindowPoll mem w' frame = Some (True, w2, frame')"
      "buf_content (frm_body frame') = d"
      using Poll_delivers[OF wf(1) _ live] v by (metis order_refl take_all)
    then show ?thesis unfolding all[symmetric] using w'(1) True by auto
  qed
qed

text \<open>Three bytes in two packets; the second one arrives twice before the first.\<close>

definition demo_part :: "nat \<Rightarrow> bytes \<Rightarrow> queued_packet" where
  "demo_part k d = \<lparr>qp_packet = \<lparr>pkt_header = fragment_of (zero_header\<lparr>hdr_type := IHS_SessionPacketTypeReliable\<rparr>) 5 2 k,
       pkt_body = \<lparr>buf_data = Some (replicate 13 0 @ d @ replicate 30 0), buf_capacity = 43 + length d, buf_offset = 13,
         buf_size = length d, buf_suffix = 0, buf_initialCapacity = 64, buf_maxCapacity = 2048\<rparr>, pkt_crc = 0\<rparr>,
     qp_reliable = True, qp_queuedAt = 0, qp_batchCount = (if k = 0 then 2 else 0)\<rparr>"

definition demo_arrival :: "nat \<Rightarrow> bytes \<Rightarrow> session_packet" where
  "demo_arrival k d = \<lparr>pkt_header = (pkt_header (qp_packet (demo_part k d)))\<lparr>hdr_sendTimestamp := 9, hdr_retransmitCount := 1\<rparr>,
     pkt_body = IHS_BUFFER_WRAP d, pkt_crc = 0\<rparr>"

lemma demo_part_body:
  "buf_content (pkt_body (qp_packet (demo_part k d))) = d" "pkt_header (qp_packet (demo_part k d)) =
     fragment_of (zero_header\<lparr>hdr_type := IHS_SessionPacketTypeReliable\<rparr>) 5 2 k"
  "qp_reliable (demo_part k d)" "qp_batchCount (demo_part k d) = (if k = 0 then 2 else 0)"
  "length d < 1000 \<Longrightarrow> link_ok (qp_packet (demo_part k d))"
  by (simp_all add: demo_part_def buf_content_def link_ok_def sendable_def buf_wf_def fragment_of_def zero_header_def)

lemma demo_cut:
  "cut_frame (zero_header\<lparr>hdr_type := IHS_SessionPacketTypeReliable\<rparr>) 5 2 [1, 2, 3] True [demo_part 0 [1, 2], demo_part 1 [3]]"
  by (simp add: cut_frame_def demo_part_body) (simp add: numeral_2_eq_2)

theorem frame_transfer_witness:
  "\<exists>w w' w2 frame'. IHS_SessionPacketsWindowCreateReliable True True 4 5 = Some w \<and>
     add_all w [demo_arrival 1 [3], demo_arrival 1 [3], demo_arrival 0 [1, 2]] = Some w' \<and>
     IHS_SessionPacketsWindowPoll zero_mem w' (demo_frame\<lparr>frm_body := IHS_BufferInit 1024 0\<rparr>) = Some (True, w2, frame') \<and>
     buf_content (frm_body frame') = [1, 2, 3]"
proof -
  let ?items = "[demo_part 0 [1, 2], demo_part 1 [3]]" and ?f = "demo_frame\<lparr>frm_body := IHS_BufferInit 1024 0\<rparr>"
  let ?qs = "[demo_arrival 1 [3], demo_arrival 1 [3], demo_arrival 0 [1, 2]]"
  obtain w where w: "IHS_SessionPacketsWindowCreateReliable True True 4 5 = Some w"
    by (simp add: IHS_SessionPacketsWindowCreateReliable_def IHS_SessionPacketsWindowCreate_def)
  have rep: "win_rep w 0" "win_tail_id w = 4" using CreateReliable_rep[OF w] by simp_all
  have wf: "win_wf w" "win_view w = []" "IHS_SessionPacketsWindowNextNeededPacketId w = 5"
    using win_rep_wf[OF rep(1)] view_len[OF rep(1)] rep(2) by (simp_all add: NextNeeded_view)
  have rel: "win_reliable w" "0 \<le> win_tail w"
    using w by (auto simp: IHS_SessionPacketsWindowCreateReliable_def IHS_SessionPacketsWindowCreate_def)
  have copies: "copy_of (qp_packet (demo_part k d)) (pkt_header (demo_arrival k d)) (pkt_body (demo_arrival k d))"
    "body_ok (pkt_body (demo_arrival k d)) \<longleftrightarrow> length d < 2 ^ 63" for k d
    by (auto simp: copy_of_def demo_arrival_def demo_part_body body_ok_def IHS_BufferIsNull_def IHS_BUFFER_WRAP_def buf_wf_def buf_content_WRAP[unfolded IHS_BUFFER_WRAP_def])
  then have qs: "\<forall>q \<in> set ?qs. body_ok (pkt_body q) \<and> (\<exists>p \<in> set ?items. copy_of (qp_packet p) (pkt_header q) (pkt_body q))"
    "\<forall>p \<in> set ?items. \<exists>q \<in> set ?qs. copy_of (qp_packet p) (pkt_header q) (pkt_body q)" by auto
  have f: "buf_wf (frm_body ?f)" "buf_offset (frm_body ?f) + length [1, 2, 3 :: u8] + buf_suffix (frm_body ?f) \<le> 2 ^ 62"
    "buf_maxCapacity (frm_body ?f) = 0" by (simp_all add: IHS_BufferInit_def buf_wf_def)
  obtain w' ready w2 frame' where "add_all w ?qs = Some w'" "IHS_SessionPacketsWindowPoll zero_mem w' ?f = Some (ready, w2, frame')"
    "ready \<longleftrightarrow> (\<forall>p \<in> set ?items. \<exists>q \<in> set ?qs. copy_of (qp_packet p) (pkt_header q) (pkt_body q))"
    "if ready then buf_content (frm_body frame') = [1, 2, 3] else frame' = ?f \<and> win_view w2 = win_view w'"
    using frame_transfer[OF demo_cut _ _ _ _ _ wf(1) rel wf(2,3) qs(1) f live_alloc_zero_mem] by auto
  then show ?thesis using w qs(2) by (intro exI[of _ w] exI[of _ w'] exI[of _ w2] exI[of _ frame']) simp
qed

end
