(* ===== verification/Drain.thy ===== *)
theory Drain
  imports Dispatch_Props Frame_Transfer
begin

text \<open>
  Delivery of the frames of a reliable channel (\<^verbatim>\<open>ReliableDrainFrames\<close> of \<^verbatim>\<open>session/reliable.c\<close>): the loop
  ends, and hands exactly the complete frames at the front of the window to the session, in order.
\<close>

section \<open>What a poll leaves of the destination\<close>

lemma Append_keeps:
  "IHS_BufferAppend mem b x = Some b' \<Longrightarrow> buf_suffix b' = buf_suffix b \<and> buf_maxCapacity b' = buf_maxCapacity b \<and> buf_offset b' = buf_offset b"
  by (auto simp: IHS_BufferAppend_def IHS_BufferAppendMem_def IHS_BufferPointerForAppend_def IHS_BufferEnsureMaxSize_def
      IHS_BufferEnsureCapacity_def IHS_BufferEnsureCapacityExact_def buf_store_def bind_eq_Some_conv Let_def split: if_splits option.splits)

lemma poll_collect_keeps:
  "poll_collect mem w frame k n = Some (w', frame') \<Longrightarrow>
     buf_suffix (frm_body frame') = buf_suffix (frm_body frame) \<and> buf_maxCapacity (frm_body frame') = buf_maxCapacity (frm_body frame)"
proof (induction n arbitrary: w frame k)
  case (Suc n)
  then show ?case by (fastforce simp: bind_eq_Some_conv Let_def dest!: Append_keeps)
qed simp

lemma ReserveFrame_keeps:
  "ReserveFrame mem b n = (e, b') \<Longrightarrow> buf_suffix b' = buf_suffix b \<and> buf_maxCapacity b' = buf_maxCapacity b"
  by (auto simp: ReserveFrame_def Let_def split: if_splits option.splits)

lemma Poll_keeps:
  assumes "IHS_SessionPacketsWindowPoll mem w frame = Some (r, w', frame')"
  shows "buf_suffix (frm_body frame') = buf_suffix (frm_body frame)" "buf_maxCapacity (frm_body frame') = buf_maxCapacity (frm_body frame)"
  using assms unfolding IHS_SessionPacketsWindowPoll_def Let_def
  by (auto simp: bind_eq_Some_conv bind_assert_that_Some split: if_splits sum.splits prod.splits
      dest!: poll_collect_keeps ReserveFrame_keeps)

section \<open>The complete frames in front\<close>

function front_frames :: "bool \<Rightarrow> (packet_header \<times> ihs_buffer) option list \<Rightarrow> (packet_header \<times> ihs_buffer) option list list" where
  "front_frames reliable view =
     (case frame_count reliable view of None \<Rightarrow> [] | Some c \<Rightarrow> take c view # front_frames reliable (drop c view))"
  by pat_completeness auto

termination
proof (relation "measure (\<lambda>(_, view). length view)")
  fix reliable view c
  assume "frame_count reliable view = Some c"
  then have "0 < c" "c \<le> length view" using frame_countD by blast+
  then show "((reliable, drop c view), (reliable, view)) \<in> measure (\<lambda>(_, view). length view)" by simp
qed simp

declare front_frames.simps [simp del]

text \<open>Handing over frames, each with the window that the poll has left.\<close>

fun deliver_all :: "'n system \<Rightarrow> 'n delegate \<Rightarrow> nat \<Rightarrow> (packets_window \<times> session_frame) list \<Rightarrow> 'n session \<Rightarrow> 'n session option" where
  "deliver_all sys up ch [] s = Some s"
| "deliver_all sys up ch ((w, frame) # xs) s = do {
     (_, _, s) \<leftarrow> IHS_SessionDeliverReliableFrame sys up frame (upd_reliable ch (\<lambda>c. c\<lparr>rl_window := Some w\<rparr>) s);
     deliver_all sys up ch xs s
   }"

definition dest :: "session_frame \<Rightarrow> bool" where
  "dest frame \<longleftrightarrow> tidy (frm_body frame) \<and> buf_offset (frm_body frame) = 0 \<and> buf_maxCapacity (frm_body frame) = 0"

text \<open>
  A window that the loop can work on: every packet carries between 1 and 8192 bytes, and the ring is
  not full with its head one past the last slot.
\<close>

definition drainable :: "packets_window \<Rightarrow> bool" where
  "drainable w \<longleftrightarrow> win_reliable w \<and> small_bodies w \<and> (\<forall>v \<in> set (win_view w). v \<noteq> None \<longrightarrow> view_body v \<noteq> []) \<and>
     (win_head w < int (win_capacity w) \<or> length (win_view w) < win_capacity w)"

lemma drain_poll:
  assumes inv: "window_inv w" and dr: "drainable w" and f: "dest frame" and live: "live_alloc mem"
    and c: "frame_count True (win_view w) = Some c"
  obtains w' frame' where "IHS_SessionPacketsWindowPoll mem w frame = Some (True, w', frame')" "window_inv w'" "drainable w'"
    "win_pollError w' = PollOK" "win_view w' = drop c (win_view w)" "tidy (frm_body frame')" "buf_maxCapacity (frm_body frame') = 0"
    "buf_content (frm_body frame') = frame_data (take c (win_view w))"
    "frm_receivedRetries frame' = sum_list (map view_retries (take c (win_view w)))" "0 < c" "c \<le> length (win_view w)"
proof -
  have wf: "win_wf w" "win_ids w" using inv by (simp_all add: window_inv_def)
  have rep: "win_rep w (length (win_view w))" using wf(1) by (simp add: win_wf_def length_win_view)
  have cap: "length (win_view w) \<le> win_capacity w" "win_capacity w < 2 ^ 16" using win_repD(8)[OF rep] win_repD(2)[OF rep] by simp_all
  have cc: "0 < c" "c \<le> length (win_view w)" using frame_countD[OF c] by blast+
  have frag: "frag_ok True (win_view w) k" if "k < c" for k using frame_countD[OF c] that by metis
  have rel: "win_reliable w" using dr by (simp add: drainable_def)
  have some: "v \<noteq> None" if v: "v \<in> set (take c (win_view w))" for v
  proof -
    obtain k where "k < c" "v = win_view w ! k" using v by (auto simp: in_set_conv_nth)
    then show ?thesis using frag[of k] by (simp add: frag_ok_def split: option.splits)
  qed
  have ne: "list_all (\<lambda>v. view_body v \<noteq> []) (take c (win_view w))"
    using dr some by (auto simp: drainable_def list_all_iff dest: in_set_takeD)
  have "length (frame_data (take c (win_view w))) \<le> 2 ^ 30"
    using dr cap by (intro frame_data_bound) (auto simp: drainable_def small_bodies_def dest: in_set_takeD)
  then have ready: "poll_ready w frame c" using c rel ne f by (simp add: poll_ready_def Let_def dest_def tidy_def)
  have room: "win_head w < int (win_capacity w) \<or> c < win_capacity w" using dr cc by (auto simp: drainable_def)
  obtain w' frame' where P: "IHS_SessionPacketsWindowPoll mem w frame = Some (True, w', frame')"
    "win_wf w'" "win_view w' = drop c (win_view w)" "win_tail_id w' = win_tail_id w"
    "win_reliable w' = win_reliable w" "win_capacity w' = win_capacity w" "win_pollError w' = PollOK"
    "buf_content (frm_body frame') = frame_data (take c (win_view w))" "buf_wf (frm_body frame')"
    "frm_receivedRetries frame' = sum_list (map view_retries (take c (win_view w)))"
    by (rule Poll_advances[OF wf(1) ready live room])
  have "window_inv w'" using P(2) win_ids_drop[OF P(3,4) cc(2) wf(2)] by (simp add: window_inv_def)
  moreover have "drainable w'" using dr P(3,5,6) cc cap by (auto simp: drainable_def small_bodies_def dest: in_set_dropD)
  moreover have "tidy (frm_body frame')" "buf_maxCapacity (frm_body frame') = 0"
    using Poll_keeps[OF P(1)] P(9) f by (simp_all add: dest_def tidy_def)
  ultimately show thesis using that P(1,3,7,8,10) cc by blast
qed

lemma window_at:
  assumes "session_ok sys s" "ch < 32" "rl_window (ss_reliable s ! ch) = Some w"
  shows "window_inv w"
proof -
  have "ss_reliable s ! ch \<in> set (ss_reliable s)" using assms(1,2) by (simp add: session_ok_def rx_ok_def)
  then show ?thesis using assms(1,3) by (simp add: session_ok_def rx_ok_def)
qed

lemma upd_window_at:
  assumes "session_ok sys s" "ch < 32"
  shows "rl_window (ss_reliable (upd_reliable ch (\<lambda>c. c\<lparr>rl_window := ow\<rparr>) s) ! ch) = ow"
  using assms by (simp add: session_ok_def rx_ok_def set_reliable_def)

lemma same_window_at:
  assumes "same_windows s t" "session_ok sys s" "session_ok sys t" "ch < 32"
  shows "rl_window (ss_reliable t ! ch) = rl_window (ss_reliable s ! ch)"
proof -
  have "map rl_window (ss_reliable t) ! ch = map rl_window (ss_reliable s) ! ch" using assms(1) by (simp add: same_windows_def)
  then show ?thesis using assms(2-4) by (simp add: session_ok_def rx_ok_def)
qed

lemma drain_frames_spec:
  assumes up: "polite sys up" and ch: "ch < 32"
  shows "session_ok sys s \<Longrightarrow> rl_window (ss_reliable s ! ch) = Some w \<Longrightarrow> drainable w \<Longrightarrow> dest frame \<Longrightarrow>
    \<exists>xs s1 w'. deliver_all sys up ch xs s = Some s1 \<and> session_ok sys s1 \<and>
      drain_frames sys up ch frame retries s =
        Some (True, retries + sum_list (map view_retries (concat (front_frames True (win_view w)))), upd_reliable ch (\<lambda>c. c\<lparr>rl_window := Some w'\<rparr>) s1) \<and>
      map (\<lambda>x. buf_content (frm_body (snd x))) xs = map frame_data (front_frames True (win_view w)) \<and>
      win_view w' = drop (length (concat (front_frames True (win_view w)))) (win_view w) \<and> window_inv w' \<and>
      rl_window (ss_reliable s1 ! ch) \<noteq> None"
proof (induction "length (win_view w)" arbitrary: w s frame retries rule: less_induct)
  case less
  note ok = less.prems(1) and win = less.prems(2) and dr = less.prems(3) and fr = less.prems(4)
  have inv: "window_inv w" by (rule window_at[OF ok ch win])
  have live: "live_alloc (ss_mem sys)" using ok by (simp add: session_ok_def tx_ok_def)
  show ?case
  proof (cases "frame_count True (win_view w)")
    case None
    let ?w = "w\<lparr>win_pollError := PollOK\<rparr>"
    have poll: "IHS_SessionPacketsWindowPoll (ss_mem sys) w frame = Some (False, ?w, frame)"
      using Poll_waits[of w] inv dr None by (simp add: window_inv_def drainable_def)
    obtain b where b: "IHS_BufferClear (frm_body frame) True = Some b" using tidy_clear[of "frm_body frame" True] fr by (auto simp: dest_def)
    have frames: "front_frames True (win_view w) = []" using None by (simp add: front_frames.simps)
    have "window_inv ?w" using inv by (simp add: window_inv_def win_wf_def win_ids_def IHS_SessionPacketsWindowNextNeededPacketId_def)
    moreover have "drain_frames sys up ch frame retries s = Some (True, retries, upd_reliable ch (\<lambda>c. c\<lparr>rl_window := Some ?w\<rparr>) s)"
      using win poll b by (subst drain_frames.simps) (simp add: IHS_SessionPacketsWindowLastError_def)
    ultimately show ?thesis using ok win by (intro exI[of _ "[]"] exI[of _ s] exI[of _ ?w]) (simp add: frames)
  next
    case (Some c)
    obtain w1 f1 where P: "IHS_SessionPacketsWindowPoll (ss_mem sys) w frame = Some (True, w1, f1)" "window_inv w1" "drainable w1"
      "win_pollError w1 = PollOK" "win_view w1 = drop c (win_view w)" "tidy (frm_body f1)" "buf_maxCapacity (frm_body f1) = 0"
      "buf_content (frm_body f1) = frame_data (take c (win_view w))"
      "frm_receivedRetries f1 = sum_list (map view_retries (take c (win_view w)))" "0 < c" "c \<le> length (win_view w)"
      by (rule drain_poll[OF inv dr fr live Some])
    let ?s1 = "upd_reliable ch (\<lambda>c. c\<lparr>rl_window := Some w1\<rparr>) s"
    have ok1: "session_ok sys ?s1" by (rule session_ok_window[OF ok]) (use P(2) in simp)
    obtain d f2 s2 where D: "IHS_SessionDeliverReliableFrame sys up f1 ?s1 = Some (d, f2, s2)" "handed sys f1 ?s1 f2 s2"
      by (rule Deliver_safe[OF up ok1 P(6)])
    have s2: "session_ok sys s2" "same_windows ?s1 s2" "tidy (frm_body f2)" "buf_maxCapacity (frm_body f2) = 0"
      using D(2) P(7) by (simp_all add: handed_def)
    obtain f3 where f3: "IHS_SessionPacketsWindowReleaseFrame f2 = Some f3" "dest f3"
      using tidy_FrameClear[OF s2(3), of False] s2(4)
      by (auto simp: IHS_SessionPacketsWindowReleaseFrame_def dest_def IHS_SessionFrameClear_def IHS_BufferClear_def Let_def
          bind_eq_Some_conv split: if_splits)
    have win2: "rl_window (ss_reliable s2 ! ch) = Some w1"
      using same_window_at[OF s2(2) ok1 s2(1) ch] upd_window_at[OF ok ch] by simp
    let ?ff = "front_frames True (win_view w1)"
    have shorter: "length (win_view w1) < length (win_view w)" using P(5,10,11) by simp
    obtain xs s3 w' where I: "deliver_all sys up ch xs s2 = Some s3" "session_ok sys s3"
      "drain_frames sys up ch f3 (retries + frm_receivedRetries f1) s2 = Some (True, retries + frm_receivedRetries f1 +
         sum_list (map view_retries (concat ?ff)), upd_reliable ch (\<lambda>c. c\<lparr>rl_window := Some w'\<rparr>) s3)"
      "map (\<lambda>x. buf_content (frm_body (snd x))) xs = map frame_data ?ff"
      "win_view w' = drop (length (concat ?ff)) (win_view w1)" "window_inv w'" "rl_window (ss_reliable s3 ! ch) \<noteq> None"
      using less.hyps[OF shorter s2(1) win2 P(3) f3(2), of "retries + frm_receivedRetries f1"] by (elim exE conjE)
    have frames: "front_frames True (win_view w) = take c (win_view w) # ?ff" using Some P(5) by (simp add: front_frames.simps[of True "win_view w"])
    have "drain_frames sys up ch frame retries s = drain_frames sys up ch f3 (retries + frm_receivedRetries f1) s2"
      using win P(1,4) D(1) f3(1) by (subst drain_frames.simps) (simp add: IHS_SessionPacketsWindowLastError_def Let_def)
    then have run: "drain_frames sys up ch frame retries s =
        Some (True, retries + sum_list (map view_retries (concat (front_frames True (win_view w)))), upd_reliable ch (\<lambda>c. c\<lparr>rl_window := Some w'\<rparr>) s3)"
      using I(3) P(9) by (simp add: frames add.assoc)
    have view: "win_view w' = drop (length (concat (front_frames True (win_view w)))) (win_view w)"
      using I(5) P(5,11) by (simp add: frames drop_drop add.commute min_absorb2)
    have del: "deliver_all sys up ch ((w1, f1) # xs) s = Some s3" using D(1) I(1) by simp
    show ?thesis using del run view I(2,4,6,7) P(8)
      by (intro exI[of _ "(w1, f1) # xs"] exI[of _ s3] exI[of _ w']) (simp add: frames)
  qed
qed

lemma front_frames_rest:
  "frame_count reliable (drop (length (concat (front_frames reliable view))) view) = None"
proof (induction reliable view rule: front_frames.induct)
  case (1 reliable view)
  show ?case
  proof (cases "frame_count reliable view")
    case (Some c)
    have "c \<le> length view" using frame_countD[OF Some] by blast
    moreover have "front_frames reliable view = take c view # front_frames reliable (drop c view)"
      using Some by (simp add: front_frames.simps[of reliable view])
    ultimately show ?thesis using 1[OF Some] by (simp add: add.commute min_absorb2)
  qed (simp add: front_frames.simps)
qed

section \<open>The loop\<close>


text \<open>A channel with a complete frame of two packets, a gap, and a packet behind it.\<close>

definition demo_inbox :: packets_window where
  "demo_inbox = (demo_ring 0 3 8 [demo_item 5 IHS_SessionPacketTypeReliable 1 [1, 2], demo_item 6 IHS_SessionPacketTypeReliableFrag 0 [3],
     zero_item, demo_item 8 IHS_SessionPacketTypeReliable 0 [4], zero_item])\<lparr>win_reliable := True\<rparr>"

lemma view_inbox: "win_view demo_inbox =
   [Some (demo_header 5 IHS_SessionPacketTypeReliable 1, IHS_BUFFER_WRAP [1, 2]), Some (demo_header 6 IHS_SessionPacketTypeReliableFrag 0, IHS_BUFFER_WRAP [3]),
    None, Some (demo_header 8 IHS_SessionPacketTypeReliable 0, IHS_BUFFER_WRAP [4])]"
proof -
  have "IHS_SessionPacketsWindowSize demo_inbox = 4" by (simp add: IHS_SessionPacketsWindowSize_def demo_inbox_def demo_simps)
  then show ?thesis unfolding win_view_def by (simp add: demo_inbox_def demo_simps upt_rec)
qed

lemma demo_inbox_inv: "window_inv demo_inbox"
proof -
  have "win_rep demo_inbox 4" by (auto simp: win_rep_def demo_inbox_def demo_simps)
  moreover have "win_ids demo_inbox"
    unfolding win_ids_def view_ids_def NextNeeded_view view_inbox
    by (auto simp: demo_inbox_def demo_ring_def demo_header_def less_Suc_eq numeral_eq_Suc)
  ultimately show ?thesis using win_rep_wf by (simp add: window_inv_def)
qed

lemma demo_inbox_drainable: "drainable demo_inbox"
  unfolding drainable_def small_bodies_def view_inbox
  by (simp add: view_body_def demo_inbox_def demo_ring_def)

lemma demo_inbox_frames: "front_frames True (win_view demo_inbox) =
   [[Some (demo_header 5 IHS_SessionPacketTypeReliable 1, IHS_BUFFER_WRAP [1, 2]), Some (demo_header 6 IHS_SessionPacketTypeReliableFrag 0, IHS_BUFFER_WRAP [3])]]"
proof -
  have "frame_count True (win_view demo_inbox) = Some 2"
    unfolding view_inbox by (simp add: frame_count_def demo_header_def orphan_def frag_ok_def upt_rec)
  moreover have "front_frames True (drop 2 (win_view demo_inbox)) = []"
    unfolding view_inbox by (simp add: front_frames.simps frame_count_def)
  ultimately show ?thesis by (simp add: front_frames.simps[of True "win_view demo_inbox"]) (simp add: view_inbox)
qed


end
