(* ===== verification/Crypto.thy ===== *)
theory Crypto
  imports Endianness
begin

text \<open>
  Symmetric encryption as the library uses it (\<^verbatim>\<open>crypto/impl_mbedtls.c\<close>): cipher block chaining with
  PKCS7 padding, block by block, into a caller's array of a given capacity.

  The block operations and the message digests belong to mbed TLS; they are the fields of the record
  \<open>crypto\<close>, each with the code it returns and the arrays it fills.  What the library relies on is
  \<open>sized_crypto\<close> (an operation fills the sixteen bytes of the arrays it is given) and \<open>working_crypto\<close>
  (with a key of a valid length the calls succeed, and decryption undoes encryption, leaving the same
  chaining value).  A result is the return code, the array and the length that the caller sees.
\<close>

section \<open>The cryptographic provider\<close>

text \<open>A block operation takes the key, the chaining value and a block, and gives the return code, the
  new chaining value and the output block.\<close>

record crypto =
  cp_cbc_enc :: "bytes \<Rightarrow> bytes \<Rightarrow> bytes \<Rightarrow> int \<times> bytes \<times> bytes"
  cp_cbc_dec :: "bytes \<Rightarrow> bytes \<Rightarrow> bytes \<Rightarrow> int \<times> bytes \<times> bytes"
  cp_setkey_dec :: "bytes \<Rightarrow> int"
  cp_ecb_enc :: "bytes \<Rightarrow> bytes \<Rightarrow> int \<times> bytes"
  cp_ecb_dec :: "bytes \<Rightarrow> bytes \<Rightarrow> int \<times> bytes"
  cp_md5 :: "bytes \<Rightarrow> bytes \<Rightarrow> int \<times> bytes"
  cp_sha256 :: "bytes \<Rightarrow> bytes \<Rightarrow> int \<times> bytes"

section \<open>Operations\<close>

definition CheckPKCS7Pad :: "bytes \<Rightarrow> u8 \<Rightarrow> bool" where
  "CheckPKCS7Pad data pad = list_all (\<lambda>x. x = pad) (take (unat pad) data)"

text \<open>The loops over the blocks, from position \<open>i\<close> on.\<close>

fun encrypt_blocks :: "crypto \<Rightarrow> bytes \<Rightarrow> bytes \<Rightarrow> nat \<Rightarrow> nat \<Rightarrow> bytes \<Rightarrow> bytes \<Rightarrow> (int \<times> bytes) option" where
  "encrypt_blocks cp key inp i 0 blockIv out = Some (0, out)"
| "encrypt_blocks cp key inp i (Suc n) blockIv out = do {
     let inCopyLen = min (sz_sub (length inp) i) 16;
     head \<leftarrow> mem_read inp i inCopyLen;
     let block = head @ replicate (16 - inCopyLen) (word_of_nat (16 - inCopyLen));
     case cp_cbc_enc cp key blockIv block of (ret, blockIv, res) \<Rightarrow> do {
       out \<leftarrow> mem_write out i res;
       if ret \<noteq> 0 then Some (ret, out) else encrypt_blocks cp key inp (i + 16) n blockIv out
     }
   }"

fun decrypt_blocks :: "crypto \<Rightarrow> bytes \<Rightarrow> bytes \<Rightarrow> nat \<Rightarrow> nat \<Rightarrow> bytes \<Rightarrow> bytes \<Rightarrow> (int \<times> bytes \<times> bytes) option" where
  "decrypt_blocks cp key inp i 0 blockIv out = Some (0, blockIv, out)"
| "decrypt_blocks cp key inp i (Suc n) blockIv out = do {
     block \<leftarrow> mem_read inp i 16;
     case cp_cbc_dec cp key blockIv block of (ret, blockIv, res) \<Rightarrow> do {
       out \<leftarrow> mem_write out i res;
       if ret \<noteq> 0 then Some (ret, blockIv, out) else decrypt_blocks cp key inp (i + 16) n blockIv out
     }
   }"

definition cbc_encrypt_pad :: "crypto \<Rightarrow> bytes \<Rightarrow> bytes \<Rightarrow> bytes \<Rightarrow> bytes \<Rightarrow> nat \<Rightarrow> (int \<times> bytes \<times> nat) option" where
  "cbc_encrypt_pad cp inp iv key out outLen =
     (let blockCount = length inp div 16 + 1; writeLen = sz_mul blockCount 16 in
      if outLen < writeLen then Some (-1, out, outLen)
      else do {
        (ret, out) \<leftarrow> encrypt_blocks cp key inp 0 (writeLen div 16) iv out;
        Some (ret, out, if ret = 0 then writeLen else outLen)
      })"

text \<open>The last block stays in a local array until its padding has been checked.\<close>

definition finish_plain :: "bytes \<Rightarrow> bytes \<Rightarrow> nat \<Rightarrow> bytes \<Rightarrow> nat \<Rightarrow> (int \<times> bytes \<times> nat) option" where
  "finish_plain inp final prefix out outLen = do {
     pads \<leftarrow> mem_read final 15 1;
     let padLen = hd pads;
     if padLen = 0 \<or> 16 < padLen \<or>
        \<not> CheckPKCS7Pad (drop (16 - unat padLen) final) padLen \<or> outLen < length inp - unat padLen
     then Some (-1, out, outLen)
     else do {
       let plainLen = length inp - unat padLen;
       let tail = (if length inp \<le> outLen then 16 else 16 - unat padLen);
       out \<leftarrow> mem_write out prefix (take tail final);
       out \<leftarrow> (if plainLen < outLen then mem_write out plainLen [0] else Some out);
       Some (0, out, plainLen)
     }
   }"

definition cbc_decrypt_pad :: "crypto \<Rightarrow> bytes \<Rightarrow> bytes \<Rightarrow> bytes \<Rightarrow> bytes \<Rightarrow> nat \<Rightarrow> (int \<times> bytes \<times> nat) option" where
  "cbc_decrypt_pad cp inp iv key out outLen =
     (if length inp < 16 \<or> length inp mod 16 \<noteq> 0 \<or> outLen < length inp - 16 then Some (-1, out, outLen)
      else if cp_setkey_dec cp key \<noteq> 0 then Some (cp_setkey_dec cp key, out, outLen)
      else do {
        let prefix = length inp - 16;
        (ret, blockIv, out) \<leftarrow> decrypt_blocks cp key inp 0 (prefix div 16) iv out;
        if ret \<noteq> 0 then Some (ret, out, outLen)
        else do {
          block \<leftarrow> mem_read inp prefix 16;
          case cp_cbc_dec cp key blockIv block of (ret, blockIv, final) \<Rightarrow>
            if ret \<noteq> 0 then Some (ret, out, outLen) else finish_plain inp final prefix out outLen
        }
      })"

definition CryptoAES_CBC_PKCS7Pad ::
    "crypto \<Rightarrow> bytes \<Rightarrow> bytes \<Rightarrow> bytes \<Rightarrow> bytes \<Rightarrow> nat \<Rightarrow> bool \<Rightarrow> (int \<times> bytes \<times> nat) option" where
  "CryptoAES_CBC_PKCS7Pad cp inp iv key out outLen enc =
     (if enc then cbc_encrypt_pad cp inp iv key out outLen else cbc_decrypt_pad cp inp iv key out outLen)"

definition CryptoAES_ECB :: "crypto \<Rightarrow> bytes \<Rightarrow> bytes \<Rightarrow> bool \<Rightarrow> int \<times> bytes" where
  "CryptoAES_ECB cp inp key enc = (if enc then cp_ecb_enc cp key inp else cp_ecb_dec cp key inp)"

text \<open>With \<open>withIV\<close> the encrypted chaining value is put in front; the array behind it is the rest.\<close>

definition IHS_CryptoSymmetricEncryptWithIV ::
    "crypto \<Rightarrow> bytes \<Rightarrow> bytes \<Rightarrow> bytes \<Rightarrow> bool \<Rightarrow> bytes \<Rightarrow> nat \<Rightarrow> (int \<times> bytes \<times> nat) option" where
  "IHS_CryptoSymmetricEncryptWithIV cp inp iv key withIV out outLen =
     (case if withIV then CryptoAES_ECB cp iv key True else (0, []) of (ret, ivEnc) \<Rightarrow>
      if ret \<noteq> 0 then Some (ret, out, outLen)
      else do {
        out \<leftarrow> mem_write out 0 ivEnc;
        let offset = length ivEnc;
        (ret, rest, cipherLen) \<leftarrow>
          CryptoAES_CBC_PKCS7Pad cp inp iv key (drop offset out) (sz_sub outLen offset) True;
        let out = take offset out @ rest;
        Some (ret, out, if ret \<noteq> 0 then outLen else sz_add offset cipherLen)
      })"

text \<open>The random chaining value is an argument.\<close>

definition IHS_CryptoSymmetricEncrypt ::
    "crypto \<Rightarrow> bytes \<Rightarrow> bytes \<Rightarrow> bytes \<Rightarrow> bytes \<Rightarrow> nat \<Rightarrow> (int \<times> bytes \<times> nat) option" where
  "IHS_CryptoSymmetricEncrypt cp random inp key out outLen =
     IHS_CryptoSymmetricEncryptWithIV cp inp random key True out outLen"

definition IHS_CryptoSymmetricDecryptWithIV ::
    "crypto \<Rightarrow> bytes \<Rightarrow> bytes \<Rightarrow> bytes \<Rightarrow> bytes \<Rightarrow> nat \<Rightarrow> (int \<times> bytes \<times> nat) option" where
  "IHS_CryptoSymmetricDecryptWithIV cp inp iv key out outLen = do {
     assert_that (length iv = 16);
     if inp = [] then Some (-1, out, outLen)
     else CryptoAES_CBC_PKCS7Pad cp inp iv key out outLen False
   }"

definition IHS_CryptoSymmetricDecrypt ::
    "crypto \<Rightarrow> bytes \<Rightarrow> bytes \<Rightarrow> bytes \<Rightarrow> nat \<Rightarrow> (int \<times> bytes \<times> nat) option" where
  "IHS_CryptoSymmetricDecrypt cp inp key out outLen =
     (if length inp < 2 * 16 then Some (-1, out, outLen)
      else case CryptoAES_ECB cp (take 16 inp) key False of (ret, iv) \<Rightarrow>
        if ret \<noteq> 0 then Some (ret, out, outLen)
        else IHS_CryptoSymmetricDecryptWithIV cp (drop 16 inp) iv key out outLen)"

section \<open>What the provider promises\<close>

definition sized_crypto :: "crypto \<Rightarrow> bool" where
  "sized_crypto cp \<longleftrightarrow> (\<forall>key iv b. length iv = 16 \<longrightarrow> length b = 16 \<longrightarrow>
     (case cp_cbc_enc cp key iv b of (r, iv', c) \<Rightarrow> length iv' = 16 \<and> length c = 16) \<and>
     (case cp_cbc_dec cp key iv b of (r, iv', c) \<Rightarrow> length iv' = 16 \<and> length c = 16) \<and>
     length (snd (cp_ecb_enc cp key b)) = 16 \<and> length (snd (cp_ecb_dec cp key b)) = 16) \<and>
     (\<forall>key d. length (snd (cp_md5 cp key d)) = 16 \<and> length (snd (cp_sha256 cp key d)) = 32)"

definition working_crypto :: "crypto \<Rightarrow> bytes \<Rightarrow> bool" where
  "working_crypto cp key \<longleftrightarrow> sized_crypto cp \<and> cp_setkey_dec cp key = 0 \<and>
     (\<forall>iv b. length iv = 16 \<longrightarrow> length b = 16 \<longrightarrow>
       fst (cp_cbc_enc cp key iv b) = 0 \<and> fst (cp_cbc_dec cp key iv b) = 0 \<and>
       (case cp_cbc_enc cp key iv b of (r, iv', c) \<Rightarrow> cp_cbc_dec cp key iv c = (0, iv', b)) \<and>
       fst (cp_ecb_enc cp key b) = 0 \<and> cp_ecb_dec cp key (snd (cp_ecb_enc cp key b)) = (0, b)) \<and>
     (\<forall>d. fst (cp_md5 cp key d) = 0 \<and> fst (cp_sha256 cp key d) = 0)"

section \<open>Chaining and padding as list functions\<close>

text \<open>\<open>cbc_run f iv n d\<close> chains \<open>f\<close> over \<open>n\<close> blocks of \<open>d\<close>.\<close>

fun cbc_run :: "(bytes \<Rightarrow> bytes \<Rightarrow> int \<times> bytes \<times> bytes) \<Rightarrow> bytes \<Rightarrow> nat \<Rightarrow> bytes \<Rightarrow> bytes \<times> bytes" where
  "cbc_run f iv 0 d = (iv, [])"
| "cbc_run f iv (Suc n) d =
     (case f iv (take 16 d) of (r, iv', c) \<Rightarrow>
      case cbc_run f iv' n (drop 16 d) of (iv'', cs) \<Rightarrow> (iv'', c @ cs))"

definition pkcs7 :: "bytes \<Rightarrow> bytes" where
  "pkcs7 d = d @ replicate (16 - length d mod 16) (word_of_nat (16 - length d mod 16))"

definition unpad :: "bytes \<Rightarrow> bytes option" where
  "unpad d = (let p = unat (last d) in
     if 0 < p \<and> p \<le> 16 \<and> drop (length d - p) d = replicate p (last d)
     then Some (take (length d - p) d) else None)"

lemma length_pkcs7: "length (pkcs7 d) = 16 * (length d div 16 + 1)"
proof -
  have "length d = 16 * (length d div 16) + length d mod 16" by simp
  moreover have "length d mod 16 < 16" by simp
  ultimately show ?thesis unfolding pkcs7_def length_append length_replicate by arith
qed

lemma unpad_pkcs7 [simp]: "unpad (pkcs7 d) = Some d"
proof -
  define p where "p = 16 - length d mod 16"
  have p: "0 < p" "p \<le> 16" by (simp_all add: p_def)
  have u: "unat (word_of_nat p :: u8) = p" using p by (simp add: unat_of_nat)
  have e: "pkcs7 d = d @ replicate p (word_of_nat p)" by (simp add: pkcs7_def p_def)
  have l: "last (pkcs7 d) = word_of_nat p" using p by (simp add: e)
  show ?thesis unfolding unpad_def l Let_def u using p by (simp add: e)
qed

lemma length_cbc_run:
  assumes "\<And>iv b. length iv = 16 \<Longrightarrow> length b = 16 \<Longrightarrow> (case f iv b of (r, iv', c) \<Rightarrow> length iv' = 16 \<and> length c = 16)"
    and "length iv = 16" "length d = 16 * n"
  shows "length (fst (cbc_run f iv n d)) = 16 \<and> length (snd (cbc_run f iv n d)) = 16 * n"
  using assms(2,3)
proof (induction n arbitrary: iv d)
  case (Suc n)
  obtain r iv' c where f: "f iv (take 16 d) = (r, iv', c)" by (metis prod_cases3)
  have "length iv' = 16" "length c = 16" using assms(1)[OF Suc.prems(1), of "take 16 d"] Suc.prems(2) f by simp_all
  then show ?case using Suc.IH[of iv' "drop 16 d"] Suc.prems f by (auto split: prod.splits)
qed simp

lemma cbc_run_Suc_right:
  "cbc_run f iv (Suc n) d =
     (case cbc_run f iv n d of (iv', cs) \<Rightarrow>
      case f iv' (take 16 (drop (16 * n) d)) of (r, iv'', c) \<Rightarrow> (iv'', cs @ c))"
proof (induction n arbitrary: iv d)
  case (Suc n)
  obtain r iv' c where f: "f iv (take 16 d) = (r, iv', c)" by (metis prod_cases3)
  have l: "cbc_run f iv (Suc (Suc n)) d = (case cbc_run f iv' (Suc n) (drop 16 d) of (iv'', cs) \<Rightarrow> (iv'', c @ cs))"
    by (subst cbc_run.simps(2)) (simp add: f del: cbc_run.simps)
  have r: "cbc_run f iv (Suc n) d = (case cbc_run f iv' n (drop 16 d) of (iv'', cs) \<Rightarrow> (iv'', c @ cs))"
    by (simp add: f)
  show ?case unfolding l Suc.IH[of iv' "drop 16 d"] r by (simp add: add.commute split: prod.splits)
qed (simp split: prod.splits)

lemma cbc_run_take: "16 * n \<le> m \<Longrightarrow> cbc_run f iv n (take m d) = cbc_run f iv n d"
proof (induction n arbitrary: iv d m)
  case (Suc n)
  then have "cbc_run f iv' n (take (m - 16) (drop 16 d)) = cbc_run f iv' n (drop 16 d)" for iv' by simp
  moreover have "take 16 (take m d) = take 16 d" using Suc.prems by simp
  ultimately show ?case by (simp add: drop_take split: prod.splits)
qed simp

lemmas sized = sized_crypto_def working_crypto_def

lemma working_sized: "working_crypto cp key \<Longrightarrow> sized_crypto cp"
  by (simp add: working_crypto_def)

lemma cbc_encD:
  assumes "working_crypto cp key" "length iv = 16" "length b = 16"
  obtains iv' c where "cp_cbc_enc cp key iv b = (0, iv', c)" "cp_cbc_dec cp key iv c = (0, iv', b)"
    "length iv' = 16" "length c = 16"
proof -
  obtain r iv' c where e: "cp_cbc_enc cp key iv b = (r, iv', c)" by (metis prod_cases3)
  have "case cp_cbc_enc cp key iv b of (r, iv', c) \<Rightarrow> length iv' = 16 \<and> length c = 16"
    "fst (cp_cbc_enc cp key iv b) = 0" "case cp_cbc_enc cp key iv b of (r, iv', c) \<Rightarrow> cp_cbc_dec cp key iv c = (0, iv', b)"
    using assms unfolding sized by metis+
  with e that[of iv' c] show thesis by simp
qed

lemma cbc_decD:
  assumes "working_crypto cp key" "length iv = 16" "length b = 16"
  obtains iv' c where "cp_cbc_dec cp key iv b = (0, iv', c)" "length iv' = 16" "length c = 16"
proof -
  obtain r iv' c where e: "cp_cbc_dec cp key iv b = (r, iv', c)" by (metis prod_cases3)
  have "case cp_cbc_dec cp key iv b of (r, iv', c) \<Rightarrow> length iv' = 16 \<and> length c = 16"
    "fst (cp_cbc_dec cp key iv b) = 0"
    using assms unfolding sized by metis+
  with e that[of iv' c] show thesis by simp
qed

lemma length_cbc:
  assumes "working_crypto cp key" "length iv = 16" "length d = 16 * n"
  shows "length (fst (cbc_run (cp_cbc_enc cp key) iv n d)) = 16" "length (snd (cbc_run (cp_cbc_enc cp key) iv n d)) = 16 * n"
    "length (fst (cbc_run (cp_cbc_dec cp key) iv n d)) = 16" "length (snd (cbc_run (cp_cbc_dec cp key) iv n d)) = 16 * n"
proof -
  have e: "case cp_cbc_enc cp key iv b of (r, iv', c) \<Rightarrow> length iv' = 16 \<and> length c = 16" if "length iv = 16" "length b = 16" for iv b
    by (rule cbc_encD[OF assms(1) that]) simp
  have d: "case cp_cbc_dec cp key iv b of (r, iv', c) \<Rightarrow> length iv' = 16 \<and> length c = 16" if "length iv = 16" "length b = 16" for iv b
    by (rule cbc_decD[OF assms(1) that]) simp
  note E = length_cbc_run[of "cp_cbc_enc cp key", OF e assms(2,3)] and D = length_cbc_run[of "cp_cbc_dec cp key", OF d assms(2,3)]
  show "length (fst (cbc_run (cp_cbc_enc cp key) iv n d)) = 16" "length (snd (cbc_run (cp_cbc_enc cp key) iv n d)) = 16 * n"
    by (rule conjunct1[OF E] conjunct2[OF E]; assumption)+
  show "length (fst (cbc_run (cp_cbc_dec cp key) iv n d)) = 16" "length (snd (cbc_run (cp_cbc_dec cp key) iv n d)) = 16 * n"
    by (rule conjunct1[OF D] conjunct2[OF D]; assumption)+
qed

lemma cbc_round_trip:
  assumes "working_crypto cp key" "length iv = 16" "length d = 16 * n"
  shows "snd (cbc_run (cp_cbc_dec cp key) iv n (snd (cbc_run (cp_cbc_enc cp key) iv n d))) = d"
  using assms(2,3)
proof (induction n arbitrary: iv d)
  case (Suc n)
  from cbc_encD[OF assms(1) Suc.prems(1), of "take 16 d"] Suc.prems(2) obtain iv' c where
    e: "cp_cbc_enc cp key iv (take 16 d) = (0, iv', c)" "cp_cbc_dec cp key iv c = (0, iv', take 16 d)" "length iv' = 16" "length c = 16"
    by auto
  then show ?case using Suc.IH[of iv' "drop 16 d"] Suc.prems by (auto split: prod.splits)
qed simp

section \<open>The loops compute the chaining\<close>

lemma encrypt_blocks_run:
  assumes cp: "working_crypto cp key"
  shows "length iv = 16 \<Longrightarrow> 16 dvd i \<Longrightarrow> i + 16 * n = length (pkcs7 inp) \<Longrightarrow> length (pkcs7 inp) \<le> length out \<Longrightarrow> length inp < 2 ^ 63 \<Longrightarrow>
    encrypt_blocks cp key inp i n iv out =
      Some (0, take i out @ snd (cbc_run (cp_cbc_enc cp key) iv n (drop i (pkcs7 inp))) @ drop (i + 16 * n) out)"
proof (induction n arbitrary: i iv out)
  case (Suc n)
  let ?b = "take 16 (drop i (pkcs7 inp))"
  have b: "length ?b = 16" using Suc.prems(3) by simp
  have i: "i \<le> length inp" using Suc.prems(2,3) length_pkcs7[of inp] by (auto elim!: dvdE)
  have blk: "take (min (length inp - i) 16) (drop i inp) @ replicate (16 - min (length inp - i) 16) (word_of_nat (16 - min (length inp - i) 16)) = ?b"
  proof (cases "i + 16 \<le> length inp")
    case False
    from Suc.prems(2) obtain j where j: "i = 16 * j" by (auto elim: dvdE)
    then have "length inp div 16 = j" using i False by auto
    then have "length inp - i = length inp mod 16" using j by (metis minus_mult_div_eq_mod)
    then show ?thesis using i False by (simp add: pkcs7_def min_def)
  qed (simp add: pkcs7_def)
  from cbc_encD[OF cp Suc.prems(1) b] obtain iv' c where
    e: "cp_cbc_enc cp key iv ?b = (0, iv', c)" "length iv' = 16" "length c = 16" by metis
  have m: "i + min (length inp - i) 16 \<le> length inp" using i by simp
  have sub: "sz_sub (length inp) i = length inp - i" using i Suc.prems(5) by (intro sz_sub_exact) simp_all
  have w: "mem_write out i c = Some (take i out @ c @ drop (i + 16) out)" using Suc.prems(3,4) e(3) by (simp add: mem_write_def)
  have "encrypt_blocks cp key inp i (Suc n) iv out = encrypt_blocks cp key inp (i + 16) n iv' (take i out @ c @ drop (i + 16) out)"
    using blk e w m by (simp add: sub mem_read_def Let_def del: of_nat_diff)
  also have "\<dots> = Some (0, take (i + 16) (take i out @ c @ drop (i + 16) out) @ snd (cbc_run (cp_cbc_enc cp key) iv' n (drop (i + 16) (pkcs7 inp))) @
      drop (i + 16 + 16 * n) (take i out @ c @ drop (i + 16) out))"
    using Suc.prems e(2,3) by (intro Suc.IH) simp_all
  finally show ?case using Suc.prems(3,4) e by (simp add: add.commute split: prod.splits) (simp add: add.assoc)
qed simp

lemma decrypt_blocks_run:
  assumes cp: "working_crypto cp key"
  shows "length iv = 16 \<Longrightarrow> i + 16 * n \<le> length inp \<Longrightarrow> i + 16 * n \<le> length out \<Longrightarrow>
    decrypt_blocks cp key inp i n iv out =
      (case cbc_run (cp_cbc_dec cp key) iv n (take (16 * n) (drop i inp)) of (iv', cs) \<Rightarrow> Some (0, iv', take i out @ cs @ drop (i + 16 * n) out))"
proof (induction n arbitrary: i iv out)
  case (Suc n)
  let ?b = "take 16 (drop i inp)"
  have b: "length ?b = 16" using Suc.prems(2) by simp
  from cbc_decD[OF cp Suc.prems(1) b] obtain iv' c where
    e: "cp_cbc_dec cp key iv ?b = (0, iv', c)" "length iv' = 16" "length c = 16" by metis
  have w: "mem_write out i c = Some (take i out @ c @ drop (i + 16) out)" using Suc.prems(3) e(3) by (simp add: mem_write_def)
  have "decrypt_blocks cp key inp i (Suc n) iv out = decrypt_blocks cp key inp (i + 16) n iv' (take i out @ c @ drop (i + 16) out)"
    using e w Suc.prems(2) by (simp add: mem_read_def)
  also have "\<dots> = (case cbc_run (cp_cbc_dec cp key) iv' n (take (16 * n) (drop (i + 16) inp)) of (iv'', cs) \<Rightarrow>
      Some (0, iv'', take (i + 16) (take i out @ c @ drop (i + 16) out) @ cs @ drop (i + 16 + 16 * n) (take i out @ c @ drop (i + 16) out)))"
    using Suc.prems e(2,3) by (intro Suc.IH) simp_all
  finally show ?case using Suc.prems(2,3) e by (simp add: add.commute drop_take split: prod.splits) (simp only: add.assoc)
qed simp

section \<open>Encryption and decryption of a whole message\<close>

definition sealed :: "crypto \<Rightarrow> bytes \<Rightarrow> bytes \<Rightarrow> bytes \<Rightarrow> bytes" where
  "sealed cp key iv d = snd (cbc_run (cp_cbc_enc cp key) iv (length d div 16 + 1) (pkcs7 d))"

definition opened :: "crypto \<Rightarrow> bytes \<Rightarrow> bytes \<Rightarrow> bytes \<Rightarrow> bytes option" where
  "opened cp key iv c = unpad (snd (cbc_run (cp_cbc_dec cp key) iv (length c div 16) c))"

lemma length_sealed:
  "working_crypto cp key \<Longrightarrow> length iv = 16 \<Longrightarrow> length (sealed cp key iv d) = length (pkcs7 d)"
  unfolding sealed_def by (subst length_cbc(2)) (simp_all add: length_pkcs7)

lemma opened_sealed:
  assumes "working_crypto cp key" "length iv = 16"
  shows "opened cp key iv (sealed cp key iv d) = Some d"
proof -
  have "length (sealed cp key iv d) div 16 = length d div 16 + 1"
    by (simp add: length_sealed[OF assms] length_pkcs7)
  then show ?thesis unfolding opened_def
    by (simp only: sealed_def cbc_round_trip[OF assms length_pkcs7] unpad_pkcs7)
qed

lemma encrypt_pad_spec:
  assumes "working_crypto cp key" "length iv = 16" "length inp < 2 ^ 62" "outLen \<le> length out"
  shows "CryptoAES_CBC_PKCS7Pad cp inp iv key out outLen True =
    (if outLen < length (pkcs7 inp) then Some (-1, out, outLen)
     else Some (0, sealed cp key iv inp @ drop (length (pkcs7 inp)) out, length (pkcs7 inp)))"
proof -
  have w: "sz_mul (length inp div 16 + 1) 16 = length (pkcs7 inp)"
    using assms(3) by (subst sz_mul_exact) (simp_all add: length_pkcs7)
  have "encrypt_blocks cp key inp 0 (length (pkcs7 inp) div 16) iv out =
      Some (0, sealed cp key iv inp @ drop (length (pkcs7 inp)) out)" if "\<not> outLen < length (pkcs7 inp)"
    using that assms encrypt_blocks_run[OF assms(1,2), of 0 "length inp div 16 + 1" inp out]
    by (simp add: sealed_def length_pkcs7)
  then show ?thesis unfolding CryptoAES_CBC_PKCS7Pad_def cbc_encrypt_pad_def Let_def w by simp
qed

text \<open>The last block decides about the padding; what is written is the plain text or nothing.\<close>

lemma finish_plain_spec:
  assumes l: "length final = 16" "length cs = 16 * n" "length inp = 16 * n + 16"
    and o: "outLen \<le> length cs + length rest" "16 * n \<le> outLen"
  shows "\<exists>out'. length out' = length cs + length rest \<and>
    finish_plain inp final (16 * n) (cs @ rest) outLen =
      (case unpad (cs @ final) of None \<Rightarrow> Some (-1, out', outLen)
       | Some p \<Rightarrow> if outLen < length p then Some (-1, out', outLen) else Some (0, out', length p)) \<and>
    (\<forall>p. unpad (cs @ final) = Some p \<longrightarrow> length p \<le> outLen \<longrightarrow> take (length p) out' = p)"
proof -
  have ne: "final \<noteq> []" using l(1) by auto
  have lst: "last (cs @ final) = last final" using ne by simp
  let ?k = "unat (last final)"
  have hd: "mem_read final 15 1 = Some [last final]"
    using l(1) ne Cons_nth_drop_Suc[of 15 final] by (simp add: mem_read_def last_conv_nth)
  have chk: "CheckPKCS7Pad (drop (16 - ?k) final) (last final) \<longleftrightarrow> drop (16 - ?k) final = replicate ?k (last final)" if "?k \<le> 16"
    using that l(1) by (auto simp: CheckPKCS7Pad_def list_all_iff intro!: replicate_eqI)
  have dr: "drop (length (cs @ final) - ?k) (cs @ final) = drop (16 - ?k) final" if "?k \<le> 16" using that l by simp
  have tk: "take (length (cs @ final) - ?k) (cs @ final) = cs @ take (16 - ?k) final" if "?k \<le> 16" using that l by simp
  have z: "last final = 0 \<longleftrightarrow> ?k = 0" by (simp add: unat_eq_0)
  have g: "16 < last final \<longleftrightarrow> 16 < ?k" by (simp add: word_less_nat_alt)
  define good where "good \<longleftrightarrow> 0 < ?k \<and> ?k \<le> 16 \<and> drop (16 - ?k) final = replicate ?k (last final)"
  have up: "unpad (cs @ final) = (if good then Some (cs @ take (16 - ?k) final) else None)"
    unfolding unpad_def Let_def lst good_def using dr tk by auto
  have gd: "good \<longleftrightarrow> \<not> (last final = 0 \<or> 16 < last final \<or> \<not> CheckPKCS7Pad (drop (16 - ?k) final) (last final))"
    unfolding good_def z g using chk by (auto simp: not_less)
  have fp: "finish_plain inp final (16 * n) (cs @ rest) outLen =
     (if \<not> good \<or> outLen < length inp - ?k then Some (-1, cs @ rest, outLen)
      else do {
        out \<leftarrow> mem_write (cs @ rest) (16 * n) (take (if length inp \<le> outLen then 16 else 16 - ?k) final);
        out \<leftarrow> (if length inp - ?k < outLen then mem_write out (length inp - ?k) [0] else Some out);
        Some (0, out, length inp - ?k) })"
    unfolding finish_plain_def hd gd by (simp add: Let_def)
  show ?thesis
  proof (cases "good \<and> length inp - ?k \<le> outLen")
    case False
    then show ?thesis using l unfolding fp up by (intro exI[of _ "cs @ rest"]) (auto simp: good_def)
  next
    case True
    define tail where "tail = (if length inp \<le> outLen then 16 else 16 - ?k)"
    have tl: "16 - ?k \<le> tail" "tail \<le> 16" "16 * n + tail \<le> outLen" using True l o by (auto simp: tail_def good_def)
    have w: "mem_write (cs @ rest) (16 * n) (take tail final) = Some (cs @ take tail final @ drop tail rest)"
      using tl l o by (simp add: mem_write_def)
    have k: "length inp - ?k = length cs + (16 - ?k)" "?k \<le> 16" "0 < ?k" using True l by (auto simp: good_def)
    define out' where "out' = (if length inp - ?k < outLen then take (length inp - ?k) (cs @ take tail final @ drop tail rest) @ [0] @
        drop (Suc (length inp - ?k)) (cs @ take tail final @ drop tail rest) else cs @ take tail final @ drop tail rest)"
    have w2: "(if length inp - ?k < outLen then mem_write (cs @ take tail final @ drop tail rest) (length inp - ?k) [0] else Some (cs @ take tail final @ drop tail rest)) = Some out'"
      using o tl l k by (auto simp: mem_write_def out'_def)
    have len: "length out' = length cs + length rest" using o tl l k by (auto simp: out'_def)
    have pre: "take (length cs + (16 - ?k)) out' = cs @ take (16 - ?k) final"
      using tl l k by (auto simp: out'_def)
    show ?thesis using True l k w w2 len pre unfolding fp up tail_def[symmetric]
      by (intro exI[of _ out']) (auto simp: min_def)
  qed
qed

lemma decrypt_pad_spec:
  assumes cp: "working_crypto cp key" "length iv = 16" and l: "length inp = 16 * n + 16"
    and o: "outLen \<le> length out" "16 * n \<le> outLen"
  shows "\<exists>out'. length out' = length out \<and>
    IHS_CryptoSymmetricDecryptWithIV cp inp iv key out outLen =
      (case opened cp key iv inp of None \<Rightarrow> Some (-1, out', outLen)
       | Some p \<Rightarrow> if outLen < length p then Some (-1, out', outLen) else Some (0, out', length p)) \<and>
    (\<forall>p. opened cp key iv inp = Some p \<longrightarrow> length p \<le> outLen \<longrightarrow> take (length p) out' = p)"
proof -
  obtain iv' cs where r: "cbc_run (cp_cbc_dec cp key) iv n inp = (iv', cs)" by fastforce
  have run: "cbc_run (cp_cbc_dec cp key) iv n (take (16 * n) inp) = (iv', cs)" using r by (simp add: cbc_run_take)
  have len: "length iv' = 16" "length cs = 16 * n"
    using length_cbc(3,4)[OF cp, of "take (16 * n) inp" n] run l by simp_all
  have b: "length (drop (16 * n) inp) = 16" using l by simp
  from cbc_decD[OF cp(1) len(1) b] obtain iv2 final where f: "cp_cbc_dec cp key iv' (drop (16 * n) inp) = (0, iv2, final)" "length final = 16" by metis
  have op: "opened cp key iv inp = unpad (cs @ final)"
    using l f by (simp add: opened_def cbc_run_Suc_right r del: cbc_run.simps)
  have sk: "cp_setkey_dec cp key = 0" using cp(1) by (simp add: working_crypto_def)
  have db: "decrypt_blocks cp key inp 0 n iv out = Some (0, iv', cs @ drop (16 * n) out)"
    using decrypt_blocks_run[OF cp, of 0 n inp out] run l o by simp
  have "IHS_CryptoSymmetricDecryptWithIV cp inp iv key out outLen = finish_plain inp final (16 * n) (cs @ drop (16 * n) out) outLen"
    using l o cp(2) f db by (auto simp: IHS_CryptoSymmetricDecryptWithIV_def CryptoAES_CBC_PKCS7Pad_def cbc_decrypt_pad_def sk mem_read_def Let_def)
  with finish_plain_spec[OF f(2) len(2) l, of outLen "drop (16 * n) out"] show ?thesis
    unfolding op using o len by simp
qed

section \<open>An example provider\<close>

text \<open>A cipher for the examples: it chains by exclusive or, and its digest is the sum of the bytes.\<close>

definition demo_crypto :: crypto where
  "demo_crypto = \<lparr>cp_cbc_enc = (\<lambda>key iv b. (0, map2 (XOR) b iv, map2 (XOR) b iv)), cp_cbc_dec = (\<lambda>key iv c. (0, c, map2 (XOR) c iv)),
     cp_setkey_dec = (\<lambda>key. 0), cp_ecb_enc = (\<lambda>key b. (0, b)), cp_ecb_dec = (\<lambda>key b. (0, b)),
     cp_md5 = (\<lambda>key d. (0, replicate 16 (sum_list d))), cp_sha256 = (\<lambda>key d. (0, replicate 32 (sum_list d)))\<rparr>"

lemma map2_xor_cancel: "length b = length iv \<Longrightarrow> map2 (XOR) (map2 (XOR) b iv) iv = (b :: bytes)"
  by (induction b iv rule: list_induct2) (simp_all add: xor.assoc)

lemma demo_crypto_works: "working_crypto demo_crypto key"
  by (simp add: sized demo_crypto_def map2_xor_cancel)

end
