(* ===== verification/Frame_Crypto.thy ===== *)
theory Frame_Crypto
  imports Crypto Buffer
begin

text \<open>
  Encrypted frames (\<^verbatim>\<open>session/frame_crypto.c\<close>).  A frame carries the message digest of its plain text,
  which is also the chaining value, and the encrypted plain text: an eight-byte sequence number and
  the payload.  Opening a frame has five verdicts.  \<open>frame_verdict\<close> is the specification on byte lists
  that the buffer code refines, and a sealed frame opens to the payload exactly under its own
  sequence number.
\<close>

section \<open>Operations\<close>

datatype decrypt_result = DecryptOK | DecryptOldSequence | DecryptSequenceMismatch | DecryptHashMismatch | DecryptFailed

text \<open>The result of \<^verbatim>\<open>malloc\<close> is not checked, so a failure is a write through a null pointer.\<close>

definition IHS_SessionFrameEncrypt ::
    "crypto \<Rightarrow> allocator \<Rightarrow> bytes \<Rightarrow> bytes \<Rightarrow> bytes \<Rightarrow> nat \<Rightarrow> u64 \<Rightarrow> (int \<times> bytes \<times> nat) option" where
  "IHS_SessionFrameEncrypt cp mem key inp out outLen sequence = do {
     let plainLen = sz_add 8 (length inp);
     plain \<leftarrow> mem plainLen;
     plain \<leftarrow> mem_write plain 0 (IHS_WriteUInt64LE sequence);
     plain \<leftarrow> mem_write plain 8 inp;
     case cp_md5 cp key plain of (ret, iv) \<Rightarrow> do {
       out \<leftarrow> mem_write out 0 iv;
       if ret \<noteq> 0 then Some (ret, out, outLen)
       else do {
         let ivLen = 16;
         (ret, rest, encLen) \<leftarrow>
           IHS_CryptoSymmetricEncryptWithIV cp plain iv key False (drop ivLen out) (sz_sub outLen ivLen);
         let out = take ivLen out @ rest;
         Some (ret, out, if ret \<noteq> 0 then outLen else sz_add ivLen encLen)
       }
     }
   }"

text \<open>What follows a successful decryption: the digest and the sequence number.\<close>

definition check_plain ::
    "crypto \<Rightarrow> bytes \<Rightarrow> bytes \<Rightarrow> ihs_buffer \<Rightarrow> u64 \<Rightarrow> (decrypt_result \<times> ihs_buffer \<times> u64 option) option" where
  "check_plain cp key iv out expectSequence =
     (if buf_size out < 8 then Some (DecryptFailed, out, None)
      else do {
        p \<leftarrow> IHS_BufferPointerAt out 0;
        plain \<leftarrow> buf_load out p (buf_size out);
        case cp_md5 cp key plain of (hmacRet, hash) \<Rightarrow>
          if hmacRet \<noteq> 0 then Some (DecryptFailed, out, None)
          else if hash \<noteq> iv then Some (DecryptHashMismatch, out, None)
          else do {
            actual \<leftarrow> IHS_ReadUInt64LE plain;
            out \<leftarrow> IHS_BufferOffsetBy out 8;
            Some (if actual \<noteq> expectSequence
                  then (if actual < expectSequence then DecryptOldSequence else DecryptSequenceMismatch)
                  else DecryptOK, out, Some actual)
          }
      })"

definition IHS_SessionFrameDecrypt ::
    "crypto \<Rightarrow> allocator \<Rightarrow> bytes \<Rightarrow> ihs_buffer \<Rightarrow> ihs_buffer \<Rightarrow> u64 \<Rightarrow>
     (decrypt_result \<times> ihs_buffer \<times> u64 option) option" where
  "IHS_SessionFrameDecrypt cp mem key inp out expectSequence =
     (if buf_size inp \<le> 16 \<or> (buf_size inp - 16) mod 16 \<noteq> 0 then Some (DecryptFailed, out, None)
      else do {
        out \<leftarrow> IHS_BufferEnsureMaxSizeExact mem out (buf_size inp);
        let outLen = IHS_BufferMaxSize out;
        p \<leftarrow> IHS_BufferPointerAt inp 16;
        cipher \<leftarrow> buf_load inp p (buf_size inp - 16);
        p \<leftarrow> IHS_BufferPointerAt inp 0;
        iv \<leftarrow> buf_load inp p 16;
        dst \<leftarrow> IHS_BufferPointerAt out 0;
        block \<leftarrow> buf_data out;
        (ret, rest, outLen) \<leftarrow> IHS_CryptoSymmetricDecryptWithIV cp cipher iv key (drop dst block) outLen;
        let out = out\<lparr>buf_data := Some (take dst block @ rest)\<rparr>;
        if ret \<noteq> 0 then Some (DecryptFailed, out, None)
        else check_plain cp key iv (out\<lparr>buf_size := outLen\<rparr>) expectSequence
      })"

text \<open>The digest of the outgoing configuration, with the capacity of the caller's array.\<close>

definition IHS_SessionFrameHMACSHA256 :: "crypto \<Rightarrow> bytes \<Rightarrow> bytes \<Rightarrow> bytes \<Rightarrow> nat \<Rightarrow> int \<Rightarrow> (int \<times> bytes \<times> nat) option" where
  "IHS_SessionFrameHMACSHA256 cp key inp out outLen badInput =
     (if outLen < 32 then Some (badInput, out, outLen)
      else case cp_sha256 cp key inp of (ret, hash) \<Rightarrow> do {
        out \<leftarrow> mem_write out 0 hash;
        Some (ret, out, if ret \<noteq> 0 then outLen else 32)
      })"

section \<open>Specification\<close>

definition seal_frame :: "crypto \<Rightarrow> bytes \<Rightarrow> u64 \<Rightarrow> bytes \<Rightarrow> bytes" where
  "seal_frame cp key sequence d =
     (let plain = IHS_WriteUInt64LE sequence @ d; h = snd (cp_md5 cp key plain) in h @ sealed cp key h plain)"

definition compare_sequence :: "u64 \<Rightarrow> u64 \<Rightarrow> decrypt_result" where
  "compare_sequence actual expect =
     (if actual = expect then DecryptOK else if actual < expect then DecryptOldSequence else DecryptSequenceMismatch)"

definition frame_verdict :: "crypto \<Rightarrow> bytes \<Rightarrow> u64 \<Rightarrow> bytes \<Rightarrow> decrypt_result \<times> (u64 \<times> bytes) option" where
  "frame_verdict cp key expect d =
     (if length d \<le> 16 \<or> (length d - 16) mod 16 \<noteq> 0 then (DecryptFailed, None)
      else case opened cp key (take 16 d) (drop 16 d) of
        None \<Rightarrow> (DecryptFailed, None)
      | Some p \<Rightarrow>
          if length p < 8 then (DecryptFailed, None)
          else if snd (cp_md5 cp key p) \<noteq> take 16 d then (DecryptHashMismatch, None)
          else (compare_sequence (le_word (take 8 p)) expect, Some (le_word (take 8 p), drop 8 p)))"

lemma verdict_authentic:
  "frame_verdict cp key expect d = (DecryptOK, r) \<Longrightarrow>
     \<exists>m. r = Some (expect, m) \<and> opened cp key (take 16 d) (drop 16 d) = Some (IHS_WriteUInt64LE expect @ m) \<and>
         snd (cp_md5 cp key (IHS_WriteUInt64LE expect @ m)) = take 16 d"
proof -
  have e: "IHS_WriteUInt64LE (le_word (take 8 p)) @ drop 8 p = p" if "\<not> length p < 8" for p
    using that by (simp add: IHS_WriteUInt64LE_def le_bytes_le_word)
  assume "frame_verdict cp key expect d = (DecryptOK, r)"
  then show ?thesis using e by (auto simp: frame_verdict_def compare_sequence_def split: if_splits option.splits)
qed

lemma md5_ok: "working_crypto cp key \<Longrightarrow> cp_md5 cp key d = (0, snd (cp_md5 cp key d)) \<and> length (snd (cp_md5 cp key d)) = 16"
  by (simp add: sized prod_eq_iff)

lemma verdict_seal_frame:
  assumes "working_crypto cp key"
  shows "frame_verdict cp key expect (seal_frame cp key sequence d) = (compare_sequence sequence expect, Some (sequence, d))"
proof -
  let ?p = "IHS_WriteUInt64LE sequence @ d" and ?h = "snd (cp_md5 cp key (IHS_WriteUInt64LE sequence @ d))"
  have h: "length ?h = 16" using md5_ok[OF assms] by simp
  have l: "length (sealed cp key ?h ?p) = 16 * (length ?p div 16 + 1)" by (simp only: length_sealed[OF assms h] length_pkcs7)
  have 8: "length (IHS_WriteUInt64LE sequence) = 8" by (simp add: IHS_WriteUInt64LE_def)
  have "le_word (take 8 ?p) = sequence" using 8 by (simp add: IHS_WriteUInt64LE_def le_word_le_bytes)
  then show ?thesis using h l 8 opened_sealed[OF assms h]
    by (simp add: frame_verdict_def seal_frame_def Let_def)
qed

section \<open>The code refines the specification\<close>

lemma frame_encrypt_spec:
  assumes cp: "working_crypto cp key" and mem: "live_alloc mem" and l: "length inp < 2 ^ 61"
    and o: "outLen \<le> length out" "length (seal_frame cp key sequence inp) \<le> outLen" "outLen < 2 ^ 64"
  shows "IHS_SessionFrameEncrypt cp mem key inp out outLen sequence =
    Some (0, seal_frame cp key sequence inp @ drop (length (seal_frame cp key sequence inp)) out, length (seal_frame cp key sequence inp))"
proof -
  let ?p = "IHS_WriteUInt64LE sequence @ inp"
  let ?N = "length (pkcs7 (IHS_WriteUInt64LE sequence @ inp))"
  have 8: "length (IHS_WriteUInt64LE sequence) = 8" by (simp add: IHS_WriteUInt64LE_def)
  obtain hh where h: "cp_md5 cp key ?p = (0, hh)" "length hh = 16" using md5_ok[OF cp, of ?p] by (cases "cp_md5 cp key ?p") simp
  have N: "length (seal_frame cp key sequence inp) = 16 + ?N" using h length_sealed[OF cp h(2)] by (simp add: seal_frame_def Let_def)
  have sz: "sz_add 8 (length inp) = 8 + length inp" using l by (intro sz_add_exact) simp
  from mem obtain fresh where f: "mem (8 + length inp) = Some fresh" "length fresh = 8 + length inp"
    unfolding live_alloc_def alloc_law_def by (meson not_None_eq)
  have w1: "mem_write fresh 0 (IHS_WriteUInt64LE sequence) = Some (IHS_WriteUInt64LE sequence @ drop 8 fresh)"
    using f 8 by (simp add: mem_write_def)
  have w2: "mem_write (IHS_WriteUInt64LE sequence @ drop 8 fresh) 8 inp = Some ?p" using f 8 by (simp add: mem_write_def)
  have w3: "mem_write out 0 hh = Some (hh @ drop 16 out)" using o N h(2) by (simp add: mem_write_def)
  have sub: "sz_sub outLen 16 = outLen - 16" using o N by (intro sz_sub_exact) simp_all
  have enc: "IHS_CryptoSymmetricEncryptWithIV cp ?p hh key False (drop 16 out) (outLen - 16) =
      Some (0, sealed cp key hh ?p @ drop ?N (drop 16 out), ?N)"
  proof -
    have "CryptoAES_CBC_PKCS7Pad cp ?p hh key (drop 16 out) (outLen - 16) True =
        Some (0, sealed cp key hh ?p @ drop ?N (drop 16 out), ?N)"
      using o N l 8 by (subst encrypt_pad_spec[OF cp h(2)]) auto
    moreover have "?N < 2 ^ 64" using o N by simp
    moreover have "sz_sub (outLen - 16) 0 = outLen - 16" using o by (subst sz_sub_exact) simp_all
    ultimately show ?thesis
      by (simp add: IHS_CryptoSymmetricEncryptWithIV_def mem_write_def sz_add_exact)
  qed
  have "sz_add 16 ?N = 16 + ?N" using o N by (intro sz_add_exact) simp
  then show ?thesis
    unfolding IHS_SessionFrameEncrypt_def N
    using f w1 w2 w3 h enc by (simp add: sz sub seal_frame_def Let_def add.commute)
qed

lemma check_plain_spec:
  assumes cp: "working_crypto cp key" and out: "buf_wf out" "buf_data out = Some block" "0 < IHS_BufferMaxSize out"
  shows "\<exists>out'. check_plain cp key iv out expect =
      (if length (buf_content out) < 8 then Some (DecryptFailed, out', None)
       else if snd (cp_md5 cp key (buf_content out)) \<noteq> iv then Some (DecryptHashMismatch, out', None)
       else Some (compare_sequence (le_word (take 8 (buf_content out))) expect, out', Some (le_word (take 8 (buf_content out))))) \<and>
    buf_wf out' \<and>
    (8 \<le> length (buf_content out) \<and> snd (cp_md5 cp key (buf_content out)) = iv \<longrightarrow> buf_content out' = drop 8 (buf_content out))"
proof -
  let ?d = "buf_content out"
  note b = buf_wf_bounds[OF out(1)]
  have l: "length ?d = buf_size out" by (rule length_buf_content[OF out(1)])
  obtain hh where h: "cp_md5 cp key ?d = (0, hh)" using md5_ok[OF cp, of ?d] by (cases "cp_md5 cp key ?d") simp
  have ptr: "IHS_BufferPointerAt out 0 = Some (buf_offset out)"
    using out b by (simp add: IHS_BufferPointerAt_def sz_add_exact)
  have ld: "buf_load out (buf_offset out) (buf_size out) = Some ?d"
    using out b by (simp add: buf_load_def mem_read_def buf_content_def buf_wf_def)
  show ?thesis
  proof (cases "8 \<le> length ?d \<and> hh = iv")
    case False
    then show ?thesis using out(1) l h ptr ld by (intro exI[of _ out]) (auto simp: check_plain_def)
  next
    case True
    have rd: "IHS_ReadUInt64LE ?d = Some (le_word (take 8 ?d))" using True by (simp add: IHS_ReadUInt64LE_def mem_read_def)
    have off: "IHS_BufferOffsetBy out 8 = Some (out\<lparr>buf_offset := buf_offset out + 8, buf_size := buf_size out - 8\<rparr>)" (is "_ = Some ?o")
      using True l b by (simp add: IHS_BufferOffsetBy_def sz_int_exact nat_add_distrib nat_diff_distrib)
    have "buf_wf ?o" using out True l by (simp add: buf_wf_def)
    moreover have "buf_content ?o = drop 8 ?d" using out(2) by (simp add: buf_content_def drop_take add.commute)
    ultimately show ?thesis using True l h ptr ld rd off
      by (intro exI[of _ ?o]) (auto simp: check_plain_def compare_sequence_def)
  qed
qed

text \<open>The output buffer is fresh; the code asserts that it may grow to the size of the input.\<close>

lemma frame_decrypt_spec:
  assumes cp: "working_crypto cp key" and mem: "live_alloc mem" and inp: "buf_wf inp" "buf_size inp \<le> m" and m: "i \<le> m" "m < 2 ^ 63"
  shows "\<exists>r out' a. IHS_SessionFrameDecrypt cp mem key inp (IHS_BufferInit i m) expect = Some (r, out', a) \<and> buf_wf out' \<and>
    frame_verdict cp key expect (buf_content inp) = (r, map_option (\<lambda>q. (q, buf_content out')) a)"
proof -
  let ?d = "buf_content inp" and ?n = "buf_size inp"
  note b = buf_wf_bounds[OF inp(1)]
  have l: "length ?d = ?n" by (rule length_buf_content[OF inp(1)])
  show ?thesis
  proof (cases "?n \<le> 16 \<or> (?n - 16) mod 16 \<noteq> 0")
    case True
    then show ?thesis using l buf_wf_Init[of i m] m by (auto simp: IHS_SessionFrameDecrypt_def frame_verdict_def)
  next
    case False
    then obtain k where k: "?n = 16 + (16 * k + 16)"
    proof -
      from False obtain j where "?n - 16 = 16 * j" by (metis dvd_def mod_eq_0_iff_dvd)
      then have "?n = 16 + 16 * j" "j \<noteq> 0" using False by auto
      then show thesis using that[of "j - 1"] by (cases j) auto
    qed
    obtain data where data: "buf_data inp = Some data" "length data = buf_capacity inp"
      using inp(1) k by (cases "buf_data inp") (auto simp: buf_wf_def)
    have mx: "16 < IHS_BufferMaxSize inp" unfolding IHS_BufferMaxSize_def
      using b k by (simp add: sz_sub_exact)
    have p16: "IHS_BufferPointerAt inp 16 = Some (buf_offset inp + 16)" "IHS_BufferPointerAt inp 0 = Some (buf_offset inp)"
      using mx data b k by (simp_all add: IHS_BufferPointerAt_def sz_add_exact)
    have ld: "buf_load inp (buf_offset inp + 16) (?n - 16) = Some (drop 16 ?d)" "buf_load inp (buf_offset inp) 16 = Some (take 16 ?d)"
      using data b k by (simp_all add: buf_load_def mem_read_def buf_content_def drop_take add.commute)
    from mem obtain fresh where f: "mem ?n = Some fresh" "length fresh = ?n" unfolding live_alloc_def alloc_law_def by (meson not_None_eq)
    define out where "out = (IHS_BufferInit i m)\<lparr>buf_data := Some fresh, buf_capacity := ?n\<rparr>"
    have od: "buf_data out = Some fresh" by (simp add: out_def)
    have grow: "IHS_BufferEnsureMaxSizeExact mem (IHS_BufferInit i m) ?n = Some out"
      using inp(2) m k f by (simp add: IHS_BufferEnsureMaxSizeExact_def IHS_BufferEnsureCapacityExact_def IHS_BufferInit_def
          realloc_bytes_def out_def sz_add_exact)
    have om: "IHS_BufferMaxSize out = ?n" "IHS_BufferPointerAt out 0 = Some 0"
      using inp(2) m k by (simp_all add: out_def IHS_BufferMaxSize_def IHS_BufferPointerAt_def IHS_BufferInit_def sz_sub_exact sz_add_exact)
    have c: "length (take 16 ?d) = 16" "length (drop 16 ?d) = 16 * k + 16" using l k by simp_all
    from decrypt_pad_spec[OF cp c, of ?n fresh] f k obtain rest where r: "length rest = ?n"
        "IHS_CryptoSymmetricDecryptWithIV cp (drop 16 ?d) (take 16 ?d) key fresh ?n =
          (case opened cp key (take 16 ?d) (drop 16 ?d) of None \<Rightarrow> Some (-1, rest, ?n)
           | Some p \<Rightarrow> if ?n < length p then Some (-1, rest, ?n) else Some (0, rest, length p))"
        "\<forall>p. opened cp key (take 16 ?d) (drop 16 ?d) = Some p \<longrightarrow> length p \<le> ?n \<longrightarrow> take (length p) rest = p" by auto
    have w: "buf_wf (out\<lparr>buf_data := Some rest\<rparr>)" using r(1) m k inp(2) by (auto simp: buf_wf_def out_def IHS_BufferInit_def)
    have short: "length p \<le> ?n" if "opened cp key (take 16 ?d) (drop 16 ?d) = Some p" for p
      using that length_cbc(4)[OF cp c(1), of "drop 16 ?d" "k + 1"] c(2) k
      by (auto simp: opened_def unpad_def Let_def split: if_splits)
    have dec: "IHS_SessionFrameDecrypt cp mem key inp (IHS_BufferInit i m) expect =
       (case opened cp key (take 16 ?d) (drop 16 ?d) of None \<Rightarrow> Some (DecryptFailed, out\<lparr>buf_data := Some rest\<rparr>, None)
        | Some p \<Rightarrow> check_plain cp key (take 16 ?d) (out\<lparr>buf_data := Some rest, buf_size := length p\<rparr>) expect)"
      unfolding IHS_SessionFrameDecrypt_def using False short
      by (auto simp: grow om od p16 ld r(2) Let_def dest: leD split: option.splits)
    show ?thesis
    proof (cases "opened cp key (take 16 ?d) (drop 16 ?d)")
      case None
      then show ?thesis using False w l by (simp add: dec frame_verdict_def)
    next
      case (Some p)
      let ?o = "out\<lparr>buf_data := Some rest, buf_size := length p\<rparr>"
      have "buf_wf ?o" using w short[OF Some] by (simp add: buf_wf_def out_def IHS_BufferInit_def)
      moreover have ct: "buf_content ?o = p" using r(3) Some short[OF Some] by (simp add: buf_content_def out_def IHS_BufferInit_def)
      moreover have "0 < IHS_BufferMaxSize ?o" using om(1) k by (simp add: IHS_BufferMaxSize_def)
      ultimately show ?thesis using check_plain_spec[OF cp, of ?o rest "take 16 ?d" expect] False l Some
        unfolding dec by (auto simp: frame_verdict_def ct split: if_splits)
    qed
  qed
qed

end
