(* ===== verification/Control.thy ===== *)
theory Control
  imports Frame_Crypto Receive
begin

text \<open>
  The control channel as a transport of messages (\<^verbatim>\<open>session/channels/ch_control.c\<close>,
  \<^verbatim>\<open>session/channels/control_receive.c\<close>): sending a message, with the sequence number and encryption of
  most types; receiving a frame, which is decrypted under the next expected number and handed to the
  queue of the main loop; draining that queue.

  A message is the list of bytes that protobuf packs it to.  The handlers of single messages
  (\<^verbatim>\<open>IHS_SessionChannelControlOnMessageReceived\<close>) and the target of a network test are behind the argument
  \<open>cu\<close>; it gets the channel and the session and returns them with the buffer as it leaves it, because a
  handler may send messages itself.  \<open>bitrate\<close> is the generated parser of one message.  The linked list
  of queued messages is a list, in the order of the links.
\<close>

section \<open>State\<close>

record incoming_control =
  ic_type :: u8
  ic_body :: ihs_buffer
  ic_header :: packet_header

record control_channel =
  cc_sendSequence :: u64
  cc_recvSequence :: u64
  cc_incoming :: "incoming_control list"
  cc_incomingCount :: u32

datatype control_call = MessageReceived u8 ihs_buffer packet_header | TargetBitrate u32

type_synonym 'n control_delegate =
  "control_call \<Rightarrow> ihs_buffer \<Rightarrow> control_channel \<Rightarrow> 'n session \<Rightarrow> (ihs_buffer \<times> control_channel \<times> 'n session) option"

abbreviation (input) k_EStreamControlAuthenticationRequest :: u8 where "k_EStreamControlAuthenticationRequest \<equiv> 1"
abbreviation (input) k_EStreamControlAuthenticationResponse :: u8 where "k_EStreamControlAuthenticationResponse \<equiv> 2"
abbreviation (input) k_EStreamControlNegotiationInit :: u8 where "k_EStreamControlNegotiationInit \<equiv> 3"
abbreviation (input) k_EStreamControlNegotiationSetConfig :: u8 where "k_EStreamControlNegotiationSetConfig \<equiv> 4"
abbreviation (input) k_EStreamControlClientHandshake :: u8 where "k_EStreamControlClientHandshake \<equiv> 6"
abbreviation (input) k_EStreamControlServerHandshake :: u8 where "k_EStreamControlServerHandshake \<equiv> 7"
abbreviation (input) k_EStreamControlKeepAlive :: u8 where "k_EStreamControlKeepAlive \<equiv> 9"
abbreviation (input) k_EStreamControlSetTargetBitrate :: u8 where "k_EStreamControlSetTargetBitrate \<equiv> 94"
abbreviation (input) k_EStreamControlRemoteHID :: u8 where "k_EStreamControlRemoteHID \<equiv> 106"

definition IsMessageEncrypted :: "u8 \<Rightarrow> bool" where
  "IsMessageEncrypted type \<longleftrightarrow> \<not> (type = k_EStreamControlClientHandshake \<or> type = k_EStreamControlServerHandshake \<or>
     type = k_EStreamControlAuthenticationRequest \<or> type = k_EStreamControlAuthenticationResponse)"

definition EncryptedMessageCapacity :: "nat \<Rightarrow> nat" where
  "EncryptedMessageCapacity plainSize = sz_add 16 (sz_mul (sz_add plainSize 8 div 16 + 1) 16)"

section \<open>Sending\<close>

definition IHS_SessionChannelInitializeFrame ::
    "'n system \<Rightarrow> nat \<Rightarrow> session_frame \<Rightarrow> u32 \<Rightarrow> bool \<Rightarrow> int \<Rightarrow> 'n session \<Rightarrow> (session_frame \<times> 'n session) option" where
  "IHS_SessionChannelInitializeFrame sys ch frame t hasCrc packetId s =
     (case IHS_SessionChannelInitializePacketHeader sys ch t hasCrc packetId s of (h, s) \<Rightarrow> do {
        body \<leftarrow> IHS_SessionFrameBodyInitialize (ss_mem sys) hasCrc;
        Some (frame\<lparr>frm_header := h, frm_body := body, frm_mediaOffset := 0, frm_mediaPrepared := False\<rparr>, s)
      })"

text \<open>The encrypted body of a message.  The sequence number is used up even when encryption fails.\<close>

definition append_encrypted ::
    "'n system \<Rightarrow> crypto \<Rightarrow> bytes \<Rightarrow> bytes \<Rightarrow> ihs_buffer \<Rightarrow> control_channel \<Rightarrow> (bool \<times> ihs_buffer \<times> control_channel) option" where
  "append_encrypted sys cp key packed body control = do {
     let cipherSize = EncryptedMessageCapacity (length packed);
     (body, cipher) \<leftarrow> IHS_BufferPointerForAppend (ss_mem sys) body cipherSize;
     block \<leftarrow> buf_data body;
     (ret, rest, cipherSize) \<leftarrow>
       IHS_SessionFrameEncrypt cp (ss_mem sys) key packed (drop cipher block) cipherSize (cc_sendSequence control);
     let control = control\<lparr>cc_sendSequence := cc_sendSequence control + 1\<rparr>;
     let body = body\<lparr>buf_data := Some (take cipher block @ rest)\<rparr>;
     Some (if ret \<noteq> 0 then (False, body, control)
           else (True, body\<lparr>buf_size := sz_add (buf_size body) cipherSize\<rparr>, control))
   }"

text \<open>\<open>junk\<close> is the frame on the stack before it is initialised.  The result is the admission, the
  identifier of the frame's first packet, the channel and the session.\<close>

definition ControlSendLocked ::
    "'n system \<Rightarrow> crypto \<Rightarrow> bytes \<Rightarrow> session_frame \<Rightarrow> u8 \<Rightarrow> bytes \<Rightarrow> int \<Rightarrow> control_channel \<Rightarrow> 'n session \<Rightarrow>
     (send_admission \<times> u16 option \<times> control_channel \<times> 'n session) option" where
  "ControlSendLocked sys cp key junk type packed packetId control s = do {
     (frame, s) \<leftarrow> IHS_SessionChannelInitializeFrame sys 1 junk IHS_SessionPacketTypeReliable False packetId s;
     let frame = frame\<lparr>frm_body := (frm_body frame)\<lparr>buf_maxCapacity := 0\<rparr>,
                       frm_header := (frm_header frame)\<lparr>hdr_hidReport := (type = k_EStreamControlRemoteHID)\<rparr>\<rparr>;
     body \<leftarrow> IHS_BufferAppendMem (ss_mem sys) (frm_body frame) [type];
     (ok, body, control, s) \<leftarrow>
       (if IsMessageEncrypted type then
          case IHS_SessionReliableGet sys 1 s of (_, s) \<Rightarrow>
          case may_alloc sys s of (ok, s) \<Rightarrow>
            if \<not> ok then Some (False, body, control, s)
            else do {
              (ok, body, control) \<leftarrow> append_encrypted sys cp key packed body control;
              Some (ok, body, control, s)
            }
        else do {
          body \<leftarrow> IHS_BufferAppendMem (ss_mem sys) body packed;
          Some (True, body, control, s)
        });
     let frame = frame\<lparr>frm_body := body\<rparr>;
     if \<not> ok then do {
       _ \<leftarrow> IHS_SessionFrameClear frame True;
       Some (LocalFailure, None, control, s)
     } else do {
       (ret, frame, s) \<leftarrow> IHS_SessionChannelQueueFrameResult sys 1 frame True s;
       _ \<leftarrow> IHS_SessionFrameClear frame True;
       Some (ret, Some (hdr_packetId (frm_header frame)), control, s)
     }
   }"

text \<open>A local failure closes the session, or fails a running network test (\<open>fail\<close>).\<close>

definition IHS_SessionChannelControlSend ::
    "'n system \<Rightarrow> crypto \<Rightarrow> bytes \<Rightarrow> ('n session \<Rightarrow> 'n session option) \<Rightarrow> session_frame \<Rightarrow> u8 \<Rightarrow> bytes \<Rightarrow> int \<Rightarrow>
     control_channel \<Rightarrow> 'n session \<Rightarrow> (bool \<times> control_channel \<times> 'n session) option" where
  "IHS_SessionChannelControlSend sys cp key fail junk type packed packetId control s = do {
     (ret, _, control, s) \<leftarrow> ControlSendLocked sys cp key junk type packed packetId control s;
     s \<leftarrow> (if ret = LocalFailure \<and> tp_shutdown (cn_tp (ss_conn s)) = 0 \<and> \<not> lk_detached (cn_link (ss_conn s)) then
            (if cn_testMode (ss_conn s) then fail s else IHS_SessionDisconnect sys s)
          else Some s);
     Some (ret = Accepted, control, s)
   }"

section \<open>Receiving\<close>

definition push_incoming :: "incoming_control \<Rightarrow> control_channel \<Rightarrow> control_channel" where
  "push_incoming m control =
     control\<lparr>cc_incoming := cc_incoming control @ [m], cc_incomingCount := cc_incomingCount control + 1\<rparr>"

text \<open>The network test takes its messages at once.\<close>

definition handoff_test ::
    "'n control_delegate \<Rightarrow> (bytes \<Rightarrow> u32 option) \<Rightarrow> u8 \<Rightarrow> ihs_buffer \<Rightarrow> packet_header \<Rightarrow> control_channel \<Rightarrow> 'n session \<Rightarrow>
     (ihs_buffer \<times> control_channel \<times> 'n session) option" where
  "handoff_test cu bitrate type body header control s =
     (let phase = cn_testPhase (ss_conn s) in
      if phase = 2 \<and> type = k_EStreamControlServerHandshake \<or> phase = 3 \<and> type = k_EStreamControlAuthenticationResponse
      then cu (MessageReceived type body header) body control s
      else if phase \<noteq> 2 \<and> phase \<noteq> 3 \<and> type = k_EStreamControlSetTargetBitrate then do {
        p \<leftarrow> IHS_BufferPointer body;
        d \<leftarrow> buf_load body p (buf_size body);
        case bitrate d of None \<Rightarrow> Some (body, control, s) | Some b \<Rightarrow> cu (TargetBitrate b) body control s
      } else Some (body, control, s))"

definition IHS_SessionChannelControlHandoff ::
    "'n system \<Rightarrow> 'n control_delegate \<Rightarrow> (bytes \<Rightarrow> u32 option) \<Rightarrow> u8 \<Rightarrow> ihs_buffer \<Rightarrow> packet_header \<Rightarrow>
     control_channel \<Rightarrow> 'n session \<Rightarrow> (ihs_buffer \<times> control_channel \<times> 'n session) option" where
  "IHS_SessionChannelControlHandoff sys cu bitrate type body header control s =
     (if cn_testMode (ss_conn s) then handoff_test cu bitrate type body header control s
      else if type = k_EStreamControlKeepAlive then Some (body, control, s)
      else if type = k_EStreamControlRemoteHID then cu (MessageReceived type body header) body control s
      else case may_alloc sys s of (ok, s) \<Rightarrow>
        if \<not> ok then do { s \<leftarrow> IHS_SessionDisconnect sys s; Some (body, control, s) }
        else do {
          (body, owned) \<leftarrow> IHS_BufferTransferOwnership body;
          Some (body, push_incoming \<lparr>ic_type = type, ic_body = owned, ic_header = header\<rparr> control, s)
        })"

text \<open>The first byte of a frame is the type of its message; a frame without it has type zero.\<close>

definition take_type :: "ihs_buffer \<Rightarrow> (u8 \<times> ihs_buffer) option" where
  "take_type body =
     (if buf_size body = 0 then Some (0, body)
      else do { t \<leftarrow> first_byte body; body \<leftarrow> IHS_BufferOffsetBy body 1; Some (t, body) })"

definition IHS_SessionChannelControlReceiveFrame ::
    "'n system \<Rightarrow> crypto \<Rightarrow> bytes \<Rightarrow> 'n control_delegate \<Rightarrow> (bytes \<Rightarrow> u32 option) \<Rightarrow> session_frame \<Rightarrow>
     control_channel \<Rightarrow> 'n session \<Rightarrow> (session_frame \<times> control_channel \<times> 'n session) option" where
  "IHS_SessionChannelControlReceiveFrame sys cp key cu bitrate frame control s =
     (if cn_connectionState (ss_conn s) = Unconnected \<or> cn_connectionState (ss_conn s) = Stopping \<or>
         cn_interrupted (ss_conn s) \<or> lk_detached (cn_link (ss_conn s))
      then Some (frame, control, s)
      else do {
        (type, body) \<leftarrow> take_type (frm_body frame);
        let frame = frame\<lparr>frm_body := body\<rparr>;
        if IsMessageEncrypted type then do {
          let plain = IHS_BufferInit 1024 (1024 * 1024);
          let expectSequence = cc_recvSequence control;
          let control = control\<lparr>cc_recvSequence := expectSequence + 1\<rparr>;
          (result, plain, _) \<leftarrow> IHS_SessionFrameDecrypt cp (ss_mem sys) key body plain expectSequence;
          (plain, control, s) \<leftarrow>
            (if result = DecryptOK
             then IHS_SessionChannelControlHandoff sys cu bitrate type plain (frm_header frame) control s
             else Some (plain, control, s));
          _ \<leftarrow> IHS_BufferClear plain True;
          Some (frame, control, s)
        } else do {
          (body, control, s) \<leftarrow> IHS_SessionChannelControlHandoff sys cu bitrate type body (frm_header frame) control s;
          Some (frame\<lparr>frm_body := body\<rparr>, control, s)
        }
      })"

section \<open>The queue of the main loop\<close>

definition Pop :: "control_channel \<Rightarrow> incoming_control option \<times> control_channel" where
  "Pop control = (case cc_incoming control of
       [] \<Rightarrow> (None, control)
     | m # ms \<Rightarrow> (Some m, control\<lparr>cc_incoming := ms, cc_incomingCount := cc_incomingCount control - 1\<rparr>))"

definition CanDispatch :: "connection_state \<Rightarrow> u8 \<Rightarrow> bool" where
  "CanDispatch phase type = (case phase of
       Handshaking \<Rightarrow> type = k_EStreamControlServerHandshake
     | Authenticating \<Rightarrow> type = k_EStreamControlAuthenticationResponse
     | Negotiating \<Rightarrow> type = k_EStreamControlNegotiationInit \<or> type = k_EStreamControlNegotiationSetConfig
     | _ \<Rightarrow> 50 \<le> type \<and> type \<le> 147)"

definition dispatch_message ::
    "'n control_delegate \<Rightarrow> incoming_control \<Rightarrow> control_channel \<Rightarrow> 'n session \<Rightarrow> (ihs_buffer \<times> control_channel \<times> 'n session) option" where
  "dispatch_message cu m control s =
     (if \<not> cn_interrupted (ss_conn s) \<and> \<not> lk_detached (cn_link (ss_conn s)) \<and>
         CanDispatch (cn_connectionState (ss_conn s)) (ic_type m)
      then cu (MessageReceived (ic_type m) (ic_body m) (ic_header m)) (ic_body m) control s
      else Some (ic_body m, control, s))"

partial_function (option) IHS_SessionChannelControlDrainIncoming ::
    "'n control_delegate \<Rightarrow> control_channel \<Rightarrow> 'n session \<Rightarrow> (control_channel \<times> 'n session) option" where
  "IHS_SessionChannelControlDrainIncoming cu control s =
     (case Pop control of
        (None, control) \<Rightarrow> Some (control, s)
      | (Some m, control) \<Rightarrow> do {
          (body, control, s) \<leftarrow> dispatch_message cu m control s;
          _ \<leftarrow> IHS_BufferClear body True;
          IHS_SessionChannelControlDrainIncoming cu control s
        })"

partial_function (option) IHS_SessionChannelControlClearIncoming :: "control_channel \<Rightarrow> control_channel option" where
  "IHS_SessionChannelControlClearIncoming control =
     (case Pop control of
        (None, control) \<Rightarrow> Some control
      | (Some m, control) \<Rightarrow> do {
          _ \<leftarrow> IHS_BufferClear (ic_body m) True;
          IHS_SessionChannelControlClearIncoming control
        })"

end
