(* ===== verification/Control_Props.thy ===== *)
theory Control_Props
  imports Control Receive_Props Schedule_Props
begin

text \<open>
  Correctness of the control channel: a message goes out as its type and the sealed bytes under the
  next sequence number; a received frame is handed on exactly when it opens under the expected
  number; a conversation arrives complete and in order; the main loop takes the messages in the order
  of their arrival.
\<close>

section \<open>The bytes of a message\<close>

definition wire_message :: "crypto \<Rightarrow> bytes \<Rightarrow> u64 \<Rightarrow> u8 \<Rightarrow> bytes \<Rightarrow> bytes" where
  "wire_message cp key q t d = t # (if IsMessageEncrypted t then seal_frame cp key q d else d)"

definition next_sequence :: "u8 \<Rightarrow> u64 \<Rightarrow> u64" where
  "next_sequence t q = (if IsMessageEncrypted t then q + 1 else q)"

lemma length_seal_frame:
  assumes "working_crypto cp key"
  shows "length (seal_frame cp key q d) = 16 + 16 * ((8 + length d) div 16 + 1)"
proof -
  let ?p = "IHS_WriteUInt64LE q @ d"
  have h: "length (snd (cp_md5 cp key ?p)) = 16" using md5_ok[OF assms] by simp
  have "length ?p = 8 + length d" by (simp add: IHS_WriteUInt64LE_def)
  then show ?thesis using h length_sealed[OF assms h] by (simp add: seal_frame_def Let_def length_pkcs7)
qed

lemma capacity_exact:
  assumes "working_crypto cp key" "length d < 2 ^ 60"
  shows "EncryptedMessageCapacity (length d) = length (seal_frame cp key q d)"
proof -
  have "sz_add (length d) 8 = 8 + length d" using assms(2) by (subst sz_add_exact) simp_all
  then show ?thesis using assms(2)
    by (simp add: EncryptedMessageCapacity_def length_seal_frame[OF assms(1)] sz_add_exact sz_mul_exact)
qed

section \<open>Sending\<close>

lemma append_encrypted_spec:
  assumes cp: "working_crypto cp key" and live: "live_alloc (ss_mem sys)" and d: "length packed < 2 ^ 60"
    and b: "buf_wf body" "0 < buf_capacity body" "buf_maxCapacity body = 0" "buf_offset body + buf_size body + buf_suffix body < 2 ^ 60"
  obtains body' where "append_encrypted sys cp key packed body control =
      Some (True, body', control\<lparr>cc_sendSequence := cc_sendSequence control + 1\<rparr>)" "buf_wf body'"
    "buf_content body' = buf_content body @ seal_frame cp key (cc_sendSequence control) packed"
    "buf_offset body' = buf_offset body" "buf_suffix body' = buf_suffix body" "buf_maxCapacity body' = 0"
proof -
  let ?q = "cc_sendSequence control"
  define x where "x = seal_frame cp key ?q packed"
  have cap: "EncryptedMessageCapacity (length packed) = length x" unfolding x_def by (rule capacity_exact[OF cp d])
  have lx: "0 < length x" "length x < 2 ^ 61" using d by (simp_all add: x_def length_seal_frame[OF cp])
  have sz: "sz_add (buf_size body) (length x) = buf_size body + length x" using b lx by (intro sz_add_exact) simp
  have can: "can_hold body (buf_offset body + (buf_size body + length x) + buf_suffix body)"
    using b lx by (simp add: can_hold_def grow_base_def)
  obtain c where c: "IHS_BufferEnsureMaxSize (ss_mem sys) body (buf_size body + length x) = Some c" "buf_wf c"
    "buf_offset body + (buf_size body + length x) + buf_suffix body \<le> buf_capacity c"
    "buf_content c = buf_content body" "c = body\<lparr>buf_data := buf_data c, buf_capacity := buf_capacity c\<rparr>" "buf_data c \<noteq> None"
    using EnsureMaxSize_grow[OF b(1) live can] by metis
  have fields: "buf_offset c = buf_offset body" "buf_size c = buf_size body" "buf_suffix c = buf_suffix body" "buf_maxCapacity c = 0"
    using c(5) b(3) by (metis ihs_buffer.surjective ihs_buffer.select_convs ihs_buffer.update_convs)+
  from c(6) obtain blk where blk: "buf_data c = Some blk" by blast
  have lb: "length blk = buf_capacity c" using c(2) blk by (simp add: buf_wf_def)
  have "buf_size body < buf_capacity c - buf_offset c - buf_suffix c" using c(3) lx(1) fields by linarith
  then have ptr: "IHS_BufferPointerAt c (buf_size body) = Some (buf_offset body + buf_size body)"
    using PointerAt_in[OF c(2)] fields by simp
  have pa: "IHS_BufferPointerForAppend (ss_mem sys) body (length x) = Some (c, buf_offset body + buf_size body)"
    using c(1) ptr fields by (simp add: IHS_BufferPointerForAppend_def sz Let_def)
  let ?p = "buf_offset body + buf_size body"
  have enc: "IHS_SessionFrameEncrypt cp (ss_mem sys) key packed (drop ?p blk) (length x) ?q = Some (0, x @ drop (?p + length x) blk, length x)"
    using frame_encrypt_spec[OF cp live, of packed "length x" "drop ?p blk" ?q] d lx c(3) lb
    by (simp add: x_def[symmetric] add.commute)
  let ?b = "c\<lparr>buf_data := Some (take ?p blk @ x @ drop (?p + length x) blk), buf_size := buf_size body + length x\<rparr>"
  show thesis
  proof (rule that[of ?b])
    show "append_encrypted sys cp key packed body control = Some (True, ?b, control\<lparr>cc_sendSequence := ?q + 1\<rparr>)"
      by (simp add: append_encrypted_def cap pa blk enc Let_def fields sz)
    show "buf_wf ?b" using c(2,3) lb fields by (simp add: buf_wf_def blk)
    show "buf_content ?b = buf_content body @ seal_frame cp key ?q packed"
      unfolding c(4)[symmetric] x_def[symmetric] using c(3) lb fields by (simp add: buf_content_def blk take_drop add.commute)
  qed (use fields in simp_all)
qed

text \<open>Frames and packets start with the same buffer.\<close>

lemma FrameBodyInitialize_ok:
  assumes "live_alloc mem"
  obtains body where "IHS_SessionFrameBodyInitialize mem False = Some body" "buf_wf body" "buf_content body = []"
    "buf_offset body = 13" "buf_suffix body = 0" "buf_size body = 0" "buf_capacity body = 2048"
proof -
  have "IHS_SessionFrameBodyInitialize mem False = IHS_SessionPacketBodyInitialize mem False"
    by (simp add: IHS_SessionFrameBodyInitialize_def IHS_SessionPacketBodyInitialize_def)
  then show thesis using BodyInitialize_ok[OF assms, of False] that by (fastforce simp: buf_wf_def buf_content_def)
qed

text \<open>What a sent message becomes: one frame, offered to the send queue.\<close>

definition offer ::
    "'n system \<Rightarrow> control_channel \<Rightarrow> session_frame \<Rightarrow> 'n session \<Rightarrow> (send_admission \<times> u16 option \<times> control_channel \<times> 'n session) option" where
  "offer sys control frame s = do {
     (ret, frame, s) \<leftarrow> IHS_SessionChannelQueueFrameResult sys 1 frame True s;
     _ \<leftarrow> IHS_SessionFrameClear frame True;
     Some (ret, Some (hdr_packetId (frm_header frame)), control, s)
   }"

lemma control_send_offer:
  assumes cp: "working_crypto cp key" and live: "live_alloc (ss_mem sys)" and gen: "generous sys" and d: "length packed < 2 ^ 60"
  obtains frame s1 where "ControlSendLocked sys cp key junk t packed IHS_PACKET_ID_NEXT control s =
      offer sys (control\<lparr>cc_sendSequence := next_sequence t (cc_sendSequence control)\<rparr>) frame s1"
    "buf_content (frm_body frame) = wire_message cp key (cc_sendSequence control) t packed"
    "buf_wf (frm_body frame)" "buf_offset (frm_body frame) = 13" "buf_suffix (frm_body frame) = 0"
    "hdr_type (frm_header frame) = IHS_SessionPacketTypeReliable" "hdr_channelId (frm_header frame) = 1" "hdr_autoPacketId (frm_header frame)"
    "hdr_hidReport (frm_header frame) \<longleftrightarrow> t = k_EStreamControlRemoteHID"
proof -
  let ?mem = "ss_mem sys"
  obtain h s0 where h: "IHS_SessionChannelInitializePacketHeader sys 1 IHS_SessionPacketTypeReliable False IHS_PACKET_ID_NEXT s = (h, s0)" by fastforce
  then have hf: "hdr_type h = IHS_SessionPacketTypeReliable" "hdr_channelId h = 1" "hdr_autoPacketId h"
    by (auto simp: IHS_SessionChannelInitializePacketHeader_def Let_def split: prod.splits)
  obtain body0 where b0: "IHS_SessionFrameBodyInitialize ?mem False = Some body0" "buf_wf body0" "buf_content body0 = []"
    "buf_offset body0 = 13" "buf_suffix body0 = 0" "buf_size body0 = 0" "buf_capacity body0 = 2048" by (rule FrameBodyInitialize_ok[OF live])
  let ?b1 = "body0\<lparr>buf_maxCapacity := 0\<rparr>"
  have b1: "buf_wf ?b1" "buf_content ?b1 = []" using b0 by (auto simp: buf_wf_def buf_content_def split: option.splits)
  have can1: "can_hold ?b1 (buf_offset ?b1 + (buf_size ?b1 + length [t]) + buf_suffix ?b1)"
    using b0 by (simp add: can_hold_def grow_base_def)
  obtain b2 where b2: "IHS_BufferAppendMem ?mem ?b1 [t] = Some b2" "buf_wf b2" "buf_frame ?b1 b2" "buf_offset b2 = 13" "buf_size b2 = 1" "buf_content b2 = [t]"
    using AppendMem_spec[OF b1(1) live can1] b0 b1 by auto
  have f2: "buf_maxCapacity b2 = 0" "buf_suffix b2 = 0" "2048 \<le> buf_capacity b2" "0 < buf_capacity b2" using b2(3) b0 by (auto simp: buf_frame_def)
  define frame where "frame b = junk\<lparr>frm_mediaOffset := 0, frm_mediaPrepared := False,
      frm_header := h\<lparr>hdr_hidReport := (t = k_EStreamControlRemoteHID)\<rparr>, frm_body := b\<rparr>" for b
  show thesis
  proof (cases "IsMessageEncrypted t")
    case True
    obtain s1 where s1: "IHS_SessionReliableGet sys 1 s0 = (True, s1)" by (simp add: IHS_SessionReliableGet_def)
    obtain s2 where s2: "may_alloc sys s1 = (True, s2)" using generous_alloc[OF gen] by (metis surj_pair)
    have "buf_offset b2 + buf_size b2 + buf_suffix b2 < 2 ^ 60" using b2 f2 by simp
    then obtain b3 where b3: "append_encrypted sys cp key packed b2 control =
        Some (True, b3, control\<lparr>cc_sendSequence := cc_sendSequence control + 1\<rparr>)" "buf_wf b3"
        "buf_content b3 = [t] @ seal_frame cp key (cc_sendSequence control) packed" "buf_offset b3 = 13" "buf_suffix b3 = 0"
      using append_encrypted_spec[OF cp live d b2(2) f2(4,1)] b2 f2 by metis
    show thesis
    proof (rule that[of "frame b3" s2])
      show "ControlSendLocked sys cp key junk t packed IHS_PACKET_ID_NEXT control s =
          offer sys (control\<lparr>cc_sendSequence := next_sequence t (cc_sendSequence control)\<rparr>) (frame b3) s2"
        using True s1 s2 b3(1) h b0(1) b2(1)
        by (simp add: ControlSendLocked_def IHS_SessionChannelInitializeFrame_def frame_def offer_def next_sequence_def)
    qed (use True b3 hf in \<open>simp_all add: frame_def wire_message_def\<close>)
  next
    case False
    have can: "can_hold b2 (buf_offset b2 + (buf_size b2 + length packed) + buf_suffix b2)"
      using b2 f2 d by (simp add: can_hold_def grow_base_def)
    have room: "packed \<noteq> [] \<or> buf_offset b2 + buf_size b2 + buf_suffix b2 < buf_capacity b2" using b2 f2 by simp
    obtain b3 where b3: "IHS_BufferAppendMem ?mem b2 packed = Some b3" "buf_wf b3" "buf_frame b2 b3" "buf_offset b3 = 13" "buf_content b3 = t # packed"
      using AppendMem_spec[OF b2(2) live can room] b2 by auto
    show thesis
    proof (rule that[of "frame b3" s0])
      show "ControlSendLocked sys cp key junk t packed IHS_PACKET_ID_NEXT control s =
          offer sys (control\<lparr>cc_sendSequence := next_sequence t (cc_sendSequence control)\<rparr>) (frame b3) s0"
        using False b3(1) h b0(1) b2(1)
        by (simp add: ControlSendLocked_def IHS_SessionChannelInitializeFrame_def frame_def offer_def next_sequence_def)
      show "buf_suffix (frm_body (frame b3)) = 0" using b3(3) f2 by (simp add: frame_def buf_frame_def)
    qed (use False b3 hf in \<open>simp_all add: frame_def wire_message_def\<close>)
  qed
qed

section \<open>Receiving\<close>

definition listening :: "'n session \<Rightarrow> bool" where
  "listening s \<longleftrightarrow> cn_connectionState (ss_conn s) \<noteq> Unconnected \<and> cn_connectionState (ss_conn s) \<noteq> Stopping \<and>
     \<not> cn_interrupted (ss_conn s) \<and> \<not> lk_detached (cn_link (ss_conn s)) \<and> \<not> cn_testMode (ss_conn s)"

lemma listening_set_env [simp]: "listening (set_env n s) = listening s"
  by (simp add: listening_def set_env_def)

definition queued_type :: "u8 \<Rightarrow> bool" where
  "queued_type t \<longleftrightarrow> t \<noteq> k_EStreamControlKeepAlive \<and> t \<noteq> k_EStreamControlRemoteHID"

lemma take_type_spec:
  assumes "buf_wf body" "buf_content body = t # x"
  obtains body' where "take_type body = Some (t, body')" "buf_wf body'" "buf_content body' = x"
proof -
  have n: "buf_size body = Suc (length x)" using length_buf_content[OF assms(1)] assms(2) by simp
  obtain xs where xs: "buf_data body = Some xs" using assms(2) by (auto simp: buf_content_def split: option.splits)
  have cap: "buf_size body \<le> buf_capacity body - buf_offset body - buf_suffix body" using buf_wf_bounds(1)[OF assms(1)] by simp
  then have pos: "0 < buf_capacity body - buf_offset body - buf_suffix body" using n by simp
  have len: "length xs = buf_capacity body" using assms(1) xs by (simp add: buf_wf_def)
  have "take (Suc (length x)) (drop (buf_offset body) xs) = t # x" using assms(2) xs n by (simp add: buf_content_def)
  then have "take 1 (drop (buf_offset body) xs) = [t]" by (metis One_nat_def take_Suc_Cons take0 take_take min_Suc_Suc min_0L)
  then have fb: "first_byte body = Some t"
    using PointerAt_in[OF assms(1) pos] xs n cap len buf_wf_bounds(1)[OF assms(1)]
    by (simp add: first_byte_def IHS_BufferPointer_def buf_load_def mem_read_def)
  show thesis using that fb OffsetBy_forward[OF assms(1), of 1] assms(2) n by (simp add: take_type_def)
qed

lemma handoff_queues:
  assumes "generous sys" "listening s" "queued_type t"
  obtains n drained where "IHS_SessionChannelControlHandoff sys cu bitrate t body header control s =
      Some (drained, push_incoming \<lparr>ic_type = t, ic_body = body, ic_header = header\<rparr> control, set_env n s)"
    "IHS_BufferClear drained True = Some drained"
proof -
  obtain s2 where s2: "may_alloc sys s = (True, s2)" using generous_alloc[OF assms(1)] by (metis surj_pair)
  then obtain n where n: "s2 = set_env n s" using env_only(1) by blast
  show thesis
    using that[of "body\<lparr>buf_data := None, buf_capacity := 0, buf_size := 0, buf_offset := 0\<rparr>" n] s2 n assms(2,3)
    by (simp add: IHS_SessionChannelControlHandoff_def listening_def queued_type_def IHS_BufferClear_def)
qed

lemma receive_encrypted:
  assumes cp: "working_crypto cp key" and live: "live_alloc (ss_mem sys)" and gen: "generous sys" and s: "listening s"
    and t: "queued_type t" "IsMessageEncrypted t" and b: "buf_wf (frm_body frame)" "buf_content (frm_body frame) = t # x" "length x \<le> 2 ^ 20"
  obtains frame' n m where "IHS_SessionChannelControlReceiveFrame sys cp key cu bitrate frame control s =
      Some (frame', let c = control\<lparr>cc_recvSequence := cc_recvSequence control + 1\<rparr> in
                    if fst (frame_verdict cp key (cc_recvSequence control) x) = DecryptOK then push_incoming m c else c, set_env n s)"
    "ic_type m = t" "ic_header m = frm_header frame" "buf_wf (ic_body m)"
    "fst (frame_verdict cp key (cc_recvSequence control) x) = DecryptOK \<Longrightarrow>
       snd (frame_verdict cp key (cc_recvSequence control) x) = Some (cc_recvSequence control, buf_content (ic_body m))"
proof -
  let ?q = "cc_recvSequence control" and ?c = "control\<lparr>cc_recvSequence := cc_recvSequence control + 1\<rparr>"
  obtain body where body: "take_type (frm_body frame) = Some (t, body)" "buf_wf body" "buf_content body = x" by (rule take_type_spec[OF b(1,2)])
  have n: "buf_size body \<le> 1024 * 1024" using length_buf_content[OF body(2)] body(3) b(3) by simp
  from frame_decrypt_spec[OF cp live body(2) n, of 1024 ?q] body(3) obtain r plain a where
    d: "IHS_SessionFrameDecrypt cp (ss_mem sys) key body (IHS_BufferInit 1024 (1024 * 1024)) ?q = Some (r, plain, a)" "buf_wf plain"
      "frame_verdict cp key ?q x = (r, map_option (\<lambda>q. (q, buf_content plain)) a)" by auto
  have start: "IHS_SessionChannelControlReceiveFrame sys cp key cu bitrate frame control s = do {
      (plain, control, s) \<leftarrow> (if r = DecryptOK
          then IHS_SessionChannelControlHandoff sys cu bitrate t plain (frm_header frame) ?c s else Some (plain, ?c, s));
      _ \<leftarrow> IHS_BufferClear plain True;
      Some (frame\<lparr>frm_body := body\<rparr>, control, s) }"
    using s t(2) body(1) d(1) by (simp add: IHS_SessionChannelControlReceiveFrame_def listening_def Let_def)
  let ?m = "\<lparr>ic_type = t, ic_body = plain, ic_header = frm_header frame\<rparr>"
  show thesis
  proof (cases "r = DecryptOK")
    case True
    from handoff_queues[OF gen s t(1), of cu bitrate plain "frm_header frame" ?c] obtain n drained where
      h: "IHS_SessionChannelControlHandoff sys cu bitrate t plain (frm_header frame) ?c s = Some (drained, push_incoming ?m ?c, set_env n s)"
        "IHS_BufferClear drained True = Some drained" by blast
    have v: "fst (frame_verdict cp key ?q x) = DecryptOK" using True d(3) by simp
    from verdict_authentic[of cp key ?q x] True d(3) obtain y where y: "map_option (\<lambda>q. (q, buf_content plain)) a = Some (?q, y)" by auto
    show thesis
      by (rule that[of "frame\<lparr>frm_body := body\<rparr>" ?m n]) (use True start h v d(2,3) y in \<open>auto simp: Let_def\<close>)
  next
    case False
    have v: "fst (frame_verdict cp key ?q x) \<noteq> DecryptOK" using False d(3) by simp
    obtain k where k: "ss_env s = k" by blast
    have e: "set_env k s = s" using k by (simp add: set_env_def)
    obtain p' where "IHS_BufferClear plain True = Some p'" by (rule Clear_spec[OF d(2)])
    then show thesis
      by (intro that[of "frame\<lparr>frm_body := body\<rparr>" ?m k]) (use False start v d(2) e in \<open>auto simp: Let_def\<close>)
  qed
qed

section \<open>A conversation\<close>

text \<open>The bodies of the frames of successive messages, the first encrypted one with number \<open>q\<close>.\<close>

fun numbered :: "crypto \<Rightarrow> bytes \<Rightarrow> u64 \<Rightarrow> (u8 \<times> bytes) list \<Rightarrow> bytes list" where
  "numbered cp key q [] = []"
| "numbered cp key q ((t, d) # ms) = wire_message cp key q t d # numbered cp key (next_sequence t q) ms"

fun receive_frames ::
    "'n system \<Rightarrow> crypto \<Rightarrow> bytes \<Rightarrow> 'n control_delegate \<Rightarrow> (bytes \<Rightarrow> u32 option) \<Rightarrow> session_frame list \<Rightarrow>
     control_channel \<Rightarrow> 'n session \<Rightarrow> (control_channel \<times> 'n session) option" where
  "receive_frames sys cp key cu bitrate [] control s = Some (control, s)"
| "receive_frames sys cp key cu bitrate (f # fs) control s = do {
     (_, control, s) \<leftarrow> IHS_SessionChannelControlReceiveFrame sys cp key cu bitrate f control s;
     receive_frames sys cp key cu bitrate fs control s
   }"

lemma receive_message:
  assumes cp: "working_crypto cp key" and live: "live_alloc (ss_mem sys)" and gen: "generous sys" and s: "listening s"
    and t: "queued_type t" and b: "buf_wf (frm_body frame)" "buf_content (frm_body frame) = wire_message cp key (cc_recvSequence control) t d"
    and d: "length d \<le> 2 ^ 19"
  obtains frame' n m where "IHS_SessionChannelControlReceiveFrame sys cp key cu bitrate frame control s =
      Some (frame', push_incoming m (control\<lparr>cc_recvSequence := next_sequence t (cc_recvSequence control)\<rparr>), set_env n s)"
    "ic_type m = t" "ic_header m = frm_header frame" "buf_content (ic_body m) = d"
proof (cases "IsMessageEncrypted t")
  case True
  let ?q = "cc_recvSequence control"
  let ?x = "seal_frame cp key ?q d"
  have "buf_content (frm_body frame) = t # ?x" "length ?x \<le> 2 ^ 20" using b(2) True d by (simp_all add: wire_message_def length_seal_frame[OF cp])
  from receive_encrypted[OF cp live gen s t True b(1) this] obtain frame' n m where
    r: "IHS_SessionChannelControlReceiveFrame sys cp key cu bitrate frame control s =
      Some (frame', let c = control\<lparr>cc_recvSequence := ?q + 1\<rparr> in
                    if fst (frame_verdict cp key ?q ?x) = DecryptOK then push_incoming m c else c, set_env n s)"
      "ic_type m = t" "ic_header m = frm_header frame"
      "fst (frame_verdict cp key ?q ?x) = DecryptOK \<Longrightarrow> snd (frame_verdict cp key ?q ?x) = Some (?q, buf_content (ic_body m))"
    by metis
  have v: "frame_verdict cp key ?q ?x = (DecryptOK, Some (?q, d))" using verdict_seal_frame[OF cp] by (simp add: compare_sequence_def)
  show thesis by (rule that[of frame' m n]) (use r v True in \<open>simp_all add: next_sequence_def Let_def\<close>)
next
  case False
  obtain body where body: "take_type (frm_body frame) = Some (t, body)" "buf_wf body" "buf_content body = d"
    by (rule take_type_spec[OF b(1), of t d]) (use b(2) False in \<open>simp_all add: wire_message_def\<close>)
  let ?m = "\<lparr>ic_type = t, ic_body = body, ic_header = frm_header frame\<rparr>"
  obtain n drained where h: "IHS_SessionChannelControlHandoff sys cu bitrate t body (frm_header frame) control s =
      Some (drained, push_incoming ?m control, set_env n s)" by (rule handoff_queues[OF gen s t])
  show thesis
    by (rule that[of "frame\<lparr>frm_body := drained\<rparr>" ?m n])
      (use s body h False in \<open>simp_all add: IHS_SessionChannelControlReceiveFrame_def listening_def next_sequence_def\<close>)
qed

lemma conversation:
  assumes cp: "working_crypto cp key" and live: "live_alloc (ss_mem sys)" and gen: "generous sys"
  shows "listening s \<Longrightarrow> \<forall>m \<in> set ms. queued_type (fst m) \<and> length (snd m) \<le> 2 ^ 19 \<Longrightarrow> \<forall>f \<in> set fs. buf_wf (frm_body f) \<Longrightarrow>
    map (\<lambda>f. buf_content (frm_body f)) fs = numbered cp key (cc_recvSequence control) ms \<Longrightarrow>
    \<exists>control' n ns. receive_frames sys cp key cu bitrate fs control s = Some (control', set_env n s) \<and>
      cc_incoming control' = cc_incoming control @ ns \<and> map (\<lambda>m. (ic_type m, buf_content (ic_body m))) ns = ms \<and>
      map ic_header ns = map frm_header fs \<and> cc_sendSequence control' = cc_sendSequence control"
proof (induction ms arbitrary: fs control s)
  case Nil
  have "set_env (ss_env s) s = s" by (simp add: set_env_def)
  with Nil show ?case by (intro exI[of _ control] exI[of _ "ss_env s"] exI[of _ "[]"]) simp
next
  case (Cons a ms)
  obtain t d where a: "a = (t, d)" by fastforce
  let ?q = "cc_recvSequence control"
  obtain f fs' where fs: "fs = f # fs'" "buf_content (frm_body f) = wire_message cp key ?q t d"
    "map (\<lambda>f. buf_content (frm_body f)) fs' = numbered cp key (next_sequence t ?q) ms"
    using Cons.prems(4) a by (cases fs) auto
  obtain f' n m where r: "IHS_SessionChannelControlReceiveFrame sys cp key cu bitrate f control s =
      Some (f', push_incoming m (control\<lparr>cc_recvSequence := next_sequence t ?q\<rparr>), set_env n s)"
      "ic_type m = t" "ic_header m = frm_header f" "buf_content (ic_body m) = d"
    by (rule receive_message[OF cp live gen Cons.prems(1) _ _ fs(2)]) (use Cons.prems a fs in auto)
  let ?c = "push_incoming m (control\<lparr>cc_recvSequence := next_sequence t ?q\<rparr>)"
  from Cons.IH[of "set_env n s" fs' ?c] Cons.prems fs obtain c' n' ns where
    "receive_frames sys cp key cu bitrate fs' ?c (set_env n s) = Some (c', set_env n' (set_env n s))"
    "cc_incoming c' = cc_incoming ?c @ ns" "map (\<lambda>m. (ic_type m, buf_content (ic_body m))) ns = ms"
    "map ic_header ns = map frm_header fs'" "cc_sendSequence c' = cc_sendSequence ?c"
    by (auto simp: push_incoming_def)
  then show ?case using r a fs(1)
    by (intro exI[of _ c'] exI[of _ n'] exI[of _ "m # ns"]) (simp add: push_incoming_def set_env_def)
qed

section \<open>Draining\<close>

text \<open>What the main loop relies on in the handlers: they return, leave a well-formed buffer and do not
  touch the queue.\<close>

definition careful :: "'n control_delegate \<Rightarrow> bool" where
  "careful cu \<longleftrightarrow> (\<forall>e b c s. buf_wf b \<longrightarrow> (\<exists>b' c' s'. cu e b c s = Some (b', c', s') \<and> buf_wf b' \<and>
     cc_incoming c' = cc_incoming c \<and> cc_incomingCount c' = cc_incomingCount c))"

text \<open>The messages one after the other, each with those behind it still in the queue.\<close>

fun dispatch_all ::
    "'n control_delegate \<Rightarrow> incoming_control list \<Rightarrow> control_channel \<Rightarrow> 'n session \<Rightarrow> (control_channel \<times> 'n session) option" where
  "dispatch_all cu [] control s = Some (control, s)"
| "dispatch_all cu (m # ms) control s = do {
     (_, control, s) \<leftarrow> dispatch_message cu m (control\<lparr>cc_incoming := ms, cc_incomingCount := word_of_nat (length ms)\<rparr>) s;
     dispatch_all cu ms control s
   }"

lemma drain_dispatches:
  assumes cu: "careful cu"
  shows "cc_incoming control = ms \<Longrightarrow> cc_incomingCount control = word_of_nat (length ms) \<Longrightarrow> \<forall>m \<in> set ms. buf_wf (ic_body m) \<Longrightarrow>
    \<exists>control' s'. IHS_SessionChannelControlDrainIncoming cu control s = Some (control', s') \<and>
      dispatch_all cu ms control s = Some (control', s') \<and> cc_incoming control' = [] \<and> cc_incomingCount control' = 0"
proof (induction ms arbitrary: control s)
  case Nil
  then show ?case by (subst IHS_SessionChannelControlDrainIncoming.simps) (simp add: Pop_def)
next
  case (Cons m ms)
  let ?c = "control\<lparr>cc_incoming := ms, cc_incomingCount := word_of_nat (length ms)\<rparr>"
  have pop: "Pop control = (Some m, ?c)" using Cons.prems by (simp add: Pop_def)
  have wf: "buf_wf (ic_body m)" using Cons.prems by simp
  have "\<exists>b' c' s'. dispatch_message cu m ?c s = Some (b', c', s') \<and> buf_wf b' \<and> cc_incoming c' = ms \<and> cc_incomingCount c' = word_of_nat (length ms)"
  proof (cases "\<not> cn_interrupted (ss_conn s) \<and> \<not> lk_detached (cn_link (ss_conn s)) \<and> CanDispatch (cn_connectionState (ss_conn s)) (ic_type m)")
    case True
    from cu[unfolded careful_def, rule_format, OF wf, of "MessageReceived (ic_type m) (ic_body m) (ic_header m)" ?c s] True
    show ?thesis by (auto simp: dispatch_message_def)
  qed (use wf in \<open>auto simp: dispatch_message_def\<close>)
  then obtain b' c' s' where d: "dispatch_message cu m ?c s = Some (b', c', s')" "buf_wf b'" "cc_incoming c' = ms" "cc_incomingCount c' = word_of_nat (length ms)"
    by blast
  obtain b'' where "IHS_BufferClear b' True = Some b''" by (rule Clear_spec[OF d(2)])
  with d Cons.IH[OF d(3,4), of s'] Cons.prems(3) show ?case
    by (subst IHS_SessionChannelControlDrainIncoming.simps) (simp add: pop)
qed

text \<open>A closed session drops its messages.\<close>

lemma dispatch_all_closed:
  "cn_interrupted (ss_conn s) \<or> lk_detached (cn_link (ss_conn s)) \<Longrightarrow> cc_incomingCount control = word_of_nat (length ms) \<Longrightarrow>
   cc_incoming control = ms \<Longrightarrow> dispatch_all cu ms control s = Some (control\<lparr>cc_incoming := [], cc_incomingCount := 0\<rparr>, s)"
  by (induction ms arbitrary: control) (auto simp: dispatch_message_def)

section \<open>Properties\<close>

definition demo_control :: control_channel where
  "demo_control = \<lparr>cc_sendSequence = 0, cc_recvSequence = 7, cc_incoming = [], cc_incomingCount = 0\<rparr>"

definition demo_envelope :: "bytes \<Rightarrow> session_frame" where
  "demo_envelope d = \<lparr>frm_header = zero_header, frm_body = IHS_BUFFER_WRAP d, frm_mediaOffset = 0, frm_mediaPrepared = False, frm_receivedRetries = 0\<rparr>"

lemma demo_sys_ok: "live_alloc (ss_mem demo_system)" "generous demo_system"
  by (simp_all add: demo_system_def quiet_platform_def generous_def)

lemma demo_listening: "listening demo_session"
  using demo_connected by (simp add: listening_def demo_session_def live_defs)

text \<open>C10: Encryption and decryption of a frame fit together.  A payload is sealed without touching memory
  outside the array it is given, if the array has room; a buffer with the sealed bytes opens to
  the payload and the sequence number it was sealed under.  The verdict is success exactly when that
  is the expected number, and tells an old number from a future one.\<close>

theorem frame_crypto_round_trip:
  assumes cp: "working_crypto cp key" and mem: "live_alloc mem" and d: "length d \<le> 2 ^ 19"
    and out: "outLen \<le> length out" "EncryptedMessageCapacity (length d) \<le> outLen" "outLen < 2 ^ 64"
  shows "\<exists>out' n. IHS_SessionFrameEncrypt cp mem key d out outLen sequence = Some (0, out', n) \<and> n \<le> outLen \<and> length out' = length out \<and>
    (\<forall>inp. buf_wf inp \<and> buf_content inp = take n out' \<longrightarrow>
      (\<exists>plain. IHS_SessionFrameDecrypt cp mem key inp (IHS_BufferInit 1024 (1024 * 1024)) expect =
           Some (if sequence = expect then DecryptOK else if sequence < expect then DecryptOldSequence else DecryptSequenceMismatch,
                 plain, Some sequence) \<and> buf_content plain = d))"
proof -
  let ?x = "seal_frame cp key sequence d"
  have cap: "length ?x \<le> outLen" using out(2) capacity_exact[OF cp, of d sequence] d by simp
  have x: "length ?x \<le> 1024 * 1024" using d by (simp add: length_seal_frame[OF cp])
  have "\<exists>plain. IHS_SessionFrameDecrypt cp mem key inp (IHS_BufferInit 1024 (1024 * 1024)) expect =
      Some (compare_sequence sequence expect, plain, Some sequence) \<and> buf_content plain = d"
    if inp: "buf_wf inp" "buf_content inp = ?x" for inp
  proof -
    have "buf_size inp \<le> 1024 * 1024" using length_buf_content[OF inp(1)] inp(2) x by simp
    from frame_decrypt_spec[OF cp mem inp(1) this, of 1024 expect] inp(2) obtain r plain a where
      r: "IHS_SessionFrameDecrypt cp mem key inp (IHS_BufferInit 1024 (1024 * 1024)) expect = Some (r, plain, a)"
        "(compare_sequence sequence expect, Some (sequence, d)) = (r, map_option (\<lambda>q. (q, buf_content plain)) a)"
      unfolding inp(2) verdict_seal_frame[OF cp] by auto
    then show ?thesis by (cases a) auto
  qed
  with frame_encrypt_spec[OF cp mem, of d outLen out sequence] cap out d show ?thesis by (simp add: compare_sequence_def)
qed

theorem frame_crypto_round_trip_witness:
  "\<exists>out' n. IHS_SessionFrameEncrypt demo_crypto zero_mem [1, 2, 3] [5, 6, 7, 8, 9] (replicate 100 0) 100 4 = Some (0, out', n) \<and>
    (\<forall>inp. buf_wf inp \<and> buf_content inp = take n out' \<longrightarrow>
      (\<exists>plain. IHS_SessionFrameDecrypt demo_crypto zero_mem [1, 2, 3] inp (IHS_BufferInit 1024 (1024 * 1024)) 9 =
        Some (DecryptOldSequence, plain, Some 4) \<and> buf_content plain = [5, 6, 7, 8, 9]))"
  using frame_crypto_round_trip[OF demo_crypto_works live_alloc_zero_mem, of "[5, 6, 7, 8, 9]" 100 "replicate 100 0" "[1, 2, 3]" 4 9]
  by (simp add: EncryptedMessageCapacity_def sz_add_def sz_mul_def) blast

text \<open>C11: A control message that is sent becomes one frame: the byte of its type, and its packed bytes,
  sealed under the next sequence number unless it belongs to the handshake.  Exactly the encrypted
  messages use up a number.  The frame is reliable, goes to the control channel and is offered to the
  send queue once.\<close>

theorem control_send_exact:
  assumes "working_crypto cp key" "live_alloc (ss_mem sys)" "generous sys" "length packed < 2 ^ 60"
  shows "\<exists>frame s1. ControlSendLocked sys cp key junk t packed IHS_PACKET_ID_NEXT control s =
      offer sys (control\<lparr>cc_sendSequence := (if IsMessageEncrypted t then cc_sendSequence control + 1 else cc_sendSequence control)\<rparr>) frame s1 \<and>
    buf_wf (frm_body frame) \<and>
    buf_content (frm_body frame) = t # (if IsMessageEncrypted t then seal_frame cp key (cc_sendSequence control) packed else packed) \<and>
    hdr_type (frm_header frame) = IHS_SessionPacketTypeReliable \<and> hdr_channelId (frm_header frame) = 1 \<and> hdr_autoPacketId (frm_header frame)"
  by (rule control_send_offer[OF assms, of junk t control s]) (auto simp: next_sequence_def wire_message_def)

theorem control_send_exact_witness:
  "\<exists>frame s1. ControlSendLocked demo_system demo_crypto [1] (demo_envelope []) 54 [2, 3] IHS_PACKET_ID_NEXT demo_control demo_session =
      offer demo_system (demo_control\<lparr>cc_sendSequence := 1\<rparr>) frame s1 \<and>
    buf_content (frm_body frame) = 54 # seal_frame demo_crypto [1] 0 [2, 3]"
  using control_send_exact[OF demo_crypto_works demo_sys_ok, of "[2, 3]" "[1]" "demo_envelope []" 54 demo_control demo_session]
  by (auto simp: IsMessageEncrypted_def demo_control_def)


definition demo_handler :: "unit control_delegate" where
  "demo_handler e b control s = Some (b, control, s\<lparr>ss_events := ss_events s @ [Handshake True]\<rparr>)"

lemma demo_handler_careful: "careful demo_handler"
  by (simp add: careful_def demo_handler_def)




text \<open>C33: The main loop empties its queue: with handlers that return and leave the queue alone, draining
  ends, has given the messages to the handlers in the order of their arrival, those that the phase
  of the connection does not allow left out, and a closed session drops them all unseen.\<close>

theorem control_drain_in_order:
  assumes "careful cu" "cc_incomingCount control = word_of_nat (length (cc_incoming control))" "\<forall>m \<in> set (cc_incoming control). buf_wf (ic_body m)"
  shows "\<exists>control' s'. IHS_SessionChannelControlDrainIncoming cu control s = Some (control', s') \<and>
     dispatch_all cu (cc_incoming control) control s = Some (control', s') \<and> cc_incoming control' = [] \<and> cc_incomingCount control' = 0 \<and>
     (cn_interrupted (ss_conn s) \<or> lk_detached (cn_link (ss_conn s)) \<longrightarrow>
        control' = control\<lparr>cc_incoming := [], cc_incomingCount := 0\<rparr> \<and> s' = s)"
  using drain_dispatches[OF assms(1) refl assms(2,3), of s] dispatch_all_closed[OF _ assms(2) refl, of s cu] by fastforce

definition demo_backlog :: control_channel where
  "demo_backlog = demo_control\<lparr>cc_incoming := [\<lparr>ic_type = 54, ic_body = IHS_BUFFER_WRAP [1], ic_header = zero_header\<rparr>,
      \<lparr>ic_type = 3, ic_body = IHS_BUFFER_WRAP [2], ic_header = zero_header\<rparr>], cc_incomingCount := 2\<rparr>"

theorem control_drain_in_order_witness:
  "\<exists>control' s'. IHS_SessionChannelControlDrainIncoming demo_handler demo_backlog demo_session = Some (control', s') \<and>
     cc_incoming control' = [] \<and> ss_events s' = [Handshake True]"
proof -
  have b: "cc_incomingCount demo_backlog = word_of_nat (length (cc_incoming demo_backlog))" "\<forall>m \<in> set (cc_incoming demo_backlog). buf_wf (ic_body m)"
    by (simp_all add: demo_backlog_def buf_wf_WRAP)
  have c: "cn_connectionState (ss_conn demo_session) = Connected" "\<not> cn_interrupted (ss_conn demo_session)" "\<not> lk_detached (cn_link (ss_conn demo_session))"
    "ss_events demo_session = []" by (simp_all add: demo_session_def live_defs)
  have "dispatch_all demo_handler (cc_incoming demo_backlog) demo_backlog demo_session = Some (x, s') \<Longrightarrow> ss_events s' = [Handshake True]" for x s'
    using c by (auto simp: demo_backlog_def dispatch_message_def CanDispatch_def demo_handler_def)
  with control_drain_in_order[OF demo_handler_careful b, of demo_session] show ?thesis by blast
qed

text \<open>A frame of more than one megabyte fails the assertion of the output buffer before anything about
  it has been authenticated.\<close>

lemma oversize_frame_aborts:
  assumes "2 ^ 20 < buf_size inp" "buf_size inp < 2 ^ 63" "(buf_size inp - 16) mod 16 = 0"
  shows "IHS_SessionFrameDecrypt cp mem key inp (IHS_BufferInit 1024 (1024 * 1024)) expect = None"
  using assms by (simp add: IHS_SessionFrameDecrypt_def IHS_BufferEnsureMaxSizeExact_def IHS_BufferEnsureCapacityExact_def
      IHS_BufferInit_def sz_add_exact)

end
