(* ===== verification/Partial_Frames.thy ===== *)
theory Partial_Frames
  imports Buffer
begin

text \<open>
  The list of video fragments that wait for assembly (\<^verbatim>\<open>video/partial_frames.c\<close>), a doubly linked list
  with its nodes in an explicit heap: an address is mapped to a node, \<^term>\<open>None\<close> is the null pointer.
  Following or freeing an address that is not allocated, a failing \<^verbatim>\<open>assert\<close> and a list with a cycle
  give \<^term>\<open>None\<close>.  \<open>fresh\<close> is what \<^verbatim>\<open>calloc\<close> returns.  A ticket is the number of a frame ticket; the
  operations that release tickets return those they released, in order.

  The invariant \<open>dlist\<close> relates both chains of pointers to one list of addresses, and every operation is
  shown to act on that list as the list function of its name.
\<close>

section \<open>State\<close>

record video_header =
  vh_sequence :: u16
  vh_flags :: u8
  vh_subFrameStart :: u16
  vh_subFrameEnd :: u16

record partial_frame =
  pn_frameId :: u16
  pn_ticket :: "nat option"
  pn_timestamp :: u32
  pn_header :: video_header
  pn_data :: ihs_buffer
  pn_prev :: "nat option"
  pn_next :: "nat option"

type_synonym partial_heap = "nat \<rightharpoonup> partial_frame"

record partial_frames =
  pl_head :: "nat option"
  pl_tail :: "nat option"

section \<open>Operations\<close>

definition IHS_VideoPartialFramesInit :: partial_frames where
  "IHS_VideoPartialFramesInit = \<lparr>pl_head = None, pl_tail = None\<rparr>"

definition new_node :: "u16 \<Rightarrow> video_header \<Rightarrow> ihs_buffer \<Rightarrow> partial_frame" where
  "new_node frameId header data = \<lparr>pn_frameId = frameId, pn_ticket = None, pn_timestamp = 0, pn_header = header,
     pn_data = data, pn_prev = None, pn_next = None\<rparr>"

definition NewNode ::
    "nat option \<Rightarrow> u16 \<Rightarrow> video_header \<Rightarrow> ihs_buffer \<Rightarrow> partial_heap \<Rightarrow> (nat option \<times> ihs_buffer \<times> partial_heap) option" where
  "NewNode fresh frameId header data h = do {
     assert_that (buf_data data \<noteq> None);
     case fresh of None \<Rightarrow> Some (None, data, h)
     | Some a \<Rightarrow> do {
         (data, owned) \<leftarrow> IHS_BufferTransferOwnership data;
         Some (Some a, data, h(a \<mapsto> new_node frameId header owned))
       }
   }"

definition FreeNode :: "nat \<Rightarrow> partial_heap \<Rightarrow> (nat list \<times> partial_heap) option" where
  "FreeNode a h = do {
     n \<leftarrow> h a;
     _ \<leftarrow> IHS_BufferClear (pn_data n) True;
     Some (case pn_ticket n of None \<Rightarrow> [] | Some t \<Rightarrow> [t], h(a := None))
   }"

text \<open>Assignments through a pointer.\<close>

definition set_next :: "nat \<Rightarrow> nat option \<Rightarrow> partial_heap \<Rightarrow> partial_heap option" where
  "set_next a p h = do { n \<leftarrow> h a; Some (h(a \<mapsto> n\<lparr>pn_next := p\<rparr>)) }"

definition set_prev :: "nat \<Rightarrow> nat option \<Rightarrow> partial_heap \<Rightarrow> partial_heap option" where
  "set_prev a p h = do { n \<leftarrow> h a; Some (h(a \<mapsto> n\<lparr>pn_prev := p\<rparr>)) }"

definition IHS_VideoPartialFramesInsertBefore ::
    "nat option \<Rightarrow> partial_frames \<Rightarrow> nat \<Rightarrow> u16 \<Rightarrow> video_header \<Rightarrow> ihs_buffer \<Rightarrow> partial_heap \<Rightarrow>
     (nat option \<times> ihs_buffer \<times> partial_frames \<times> partial_heap) option" where
  "IHS_VideoPartialFramesInsertBefore fresh frames before frameId header data h = do {
     (inserted, data, h) \<leftarrow> NewNode fresh frameId header data h;
     case inserted of None \<Rightarrow> Some (None, data, frames, h)
     | Some a \<Rightarrow> do {
         b \<leftarrow> h before;
         (frames, h) \<leftarrow> (case pn_prev b of
             None \<Rightarrow> do { assert_that (pl_head frames = Some before); Some (frames\<lparr>pl_head := Some a\<rparr>, h) }
           | Some prev \<Rightarrow> do { h \<leftarrow> set_next prev (Some a) h; Some (frames, h) });
         h \<leftarrow> set_prev before (Some a) h;
         h \<leftarrow> set_prev a (pn_prev b) h;
         h \<leftarrow> set_next a (Some before) h;
         Some (Some a, data, frames, h)
       }
   }"

definition IHS_VideoPartialFramesAppend ::
    "nat option \<Rightarrow> partial_frames \<Rightarrow> u16 \<Rightarrow> video_header \<Rightarrow> ihs_buffer \<Rightarrow> partial_heap \<Rightarrow>
     (nat option \<times> ihs_buffer \<times> partial_frames \<times> partial_heap) option" where
  "IHS_VideoPartialFramesAppend fresh frames frameId header data h = do {
     (inserted, data, h) \<leftarrow> NewNode fresh frameId header data h;
     case inserted of None \<Rightarrow> Some (None, data, frames, h)
     | Some a \<Rightarrow> do {
         let oldTail = pl_tail frames;
         frames \<leftarrow> (if pl_head frames = None
                    then do { assert_that (oldTail = None); Some (frames\<lparr>pl_head := Some a\<rparr>) } else Some frames);
         h \<leftarrow> (case oldTail of None \<Rightarrow> Some h
              | Some t \<Rightarrow> do { h \<leftarrow> set_next t (Some a) h; set_prev a (Some t) h });
         Some (Some a, data, frames\<lparr>pl_tail := Some a\<rparr>, h)
       }
   }"

text \<open>The data of a removed node is not freed: its caller has cleared it.\<close>

definition IHS_VideoPartialFramesRemove ::
    "partial_frames \<Rightarrow> nat \<Rightarrow> partial_heap \<Rightarrow> (nat list \<times> partial_frames \<times> partial_heap) option" where
  "IHS_VideoPartialFramesRemove frames node h = do {
     n \<leftarrow> h node;
     (frames, h) \<leftarrow> (case pn_prev n of
         Some prev \<Rightarrow> do { h \<leftarrow> set_next prev (pn_next n) h; Some (frames, h) }
       | None \<Rightarrow> Some (frames\<lparr>pl_head := pn_next n\<rparr>, h));
     (frames, h) \<leftarrow> (case pn_next n of
         Some next \<Rightarrow> do { h \<leftarrow> set_prev next (pn_prev n) h; Some (frames, h) }
       | None \<Rightarrow> Some (frames\<lparr>pl_tail := pn_prev n\<rparr>, h));
     Some (case pn_ticket n of None \<Rightarrow> [] | Some t \<Rightarrow> [t], frames, h(node := None))
   }"

partial_function (option) count_from :: "partial_heap \<Rightarrow> nat option \<Rightarrow> nat \<Rightarrow> nat option" where
  "count_from h cur count = (case cur of None \<Rightarrow> Some count
     | Some a \<Rightarrow> Option.bind (h a) (\<lambda>n. count_from h (pn_next n) (count + 1)))"

definition IHS_VideoPartialFramesCount :: "partial_frames \<Rightarrow> partial_heap \<Rightarrow> nat option" where
  "IHS_VideoPartialFramesCount frames h = count_from h (pl_head frames) 0"

partial_function (option) clear_from :: "nat option \<Rightarrow> nat \<Rightarrow> nat list \<Rightarrow> partial_heap \<Rightarrow> (nat \<times> nat list \<times> partial_heap) option" where
  "clear_from cur count released h = (case cur of None \<Rightarrow> Some (count, released, h)
     | Some a \<Rightarrow> Option.bind (h a) (\<lambda>n. Option.bind (FreeNode a h) (\<lambda>r.
         clear_from (pn_next n) (count + 1) (released @ fst r) (snd r))))"

definition IHS_VideoPartialFramesClear ::
    "partial_frames \<Rightarrow> partial_heap \<Rightarrow> (nat \<times> nat list \<times> partial_frames \<times> partial_heap) option" where
  "IHS_VideoPartialFramesClear frames h = do {
     (count, released, h) \<leftarrow> clear_from (pl_head frames) 0 [] h;
     Some (count, released, frames\<lparr>pl_head := None, pl_tail := None\<rparr>, h)
   }"

section \<open>Both chains of pointers\<close>

definition first_of :: "nat list \<Rightarrow> nat option \<Rightarrow> nat option" where
  "first_of as q = (case as of [] \<Rightarrow> q | a # _ \<Rightarrow> Some a)"

definition last_of :: "nat list \<Rightarrow> nat option \<Rightarrow> nat option" where
  "last_of as p = (if as = [] then p else Some (last as))"

lemma ends [simp]:
  "first_of [] q = q" "first_of (a # as) q = Some a" "last_of [] p = p" "last_of (as @ [a]) p = Some a"
  "last_of (a # as) p = last_of as (Some a)" "first_of (as @ bs) q = first_of as (first_of bs q)"
  "last_of (as @ bs) p = last_of bs (last_of as p)"
  by (simp_all add: first_of_def last_of_def split: list.split)

text \<open>\<open>links h p as q\<close>: the nodes of \<open>as\<close> are linked in both directions, \<open>p\<close> before and \<open>q\<close> behind them.\<close>

fun links :: "partial_heap \<Rightarrow> nat option \<Rightarrow> nat list \<Rightarrow> nat option \<Rightarrow> bool" where
  "links h p [] q \<longleftrightarrow> True"
| "links h p (a # as) q \<longleftrightarrow> (\<exists>n. h a = Some n \<and> pn_prev n = p \<and> pn_next n = first_of as q) \<and> links h (Some a) as q"

lemma links_append: "links h p (as @ bs) q \<longleftrightarrow> links h p as (first_of bs q) \<and> links h (last_of as p) bs q"
  by (induction as arbitrary: p) auto

lemma links_cong: "(\<And>a. a \<in> set as \<Longrightarrow> h' a = h a) \<Longrightarrow> links h' p as q = links h p as q"
  by (induction as arbitrary: p) auto

lemma links_dom: "links h p as q \<Longrightarrow> a \<in> set as \<Longrightarrow> h a \<noteq> None"
  by (induction as arbitrary: p) auto

lemma links_upd [simp]: "a \<notin> set as \<Longrightarrow> links (h(a := v)) p as q = links h p as q"
  by (rule links_cong) auto

definition dlist :: "partial_heap \<Rightarrow> partial_frames \<Rightarrow> nat list \<Rightarrow> bool" where
  "dlist h frames as \<longleftrightarrow> distinct as \<and> links h None as None \<and> pl_head frames = first_of as None \<and> pl_tail frames = last_of as None"

text \<open>What the list holds: the nodes without their pointers.\<close>

definition node_view :: "partial_frame \<Rightarrow> partial_frame" where
  "node_view n = n\<lparr>pn_prev := None, pn_next := None\<rparr>"

definition contents :: "partial_heap \<Rightarrow> nat list \<Rightarrow> partial_frame list" where
  "contents h as = map (\<lambda>a. node_view (the (h a))) as"

lemma contents_upd [simp]: "a \<notin> set as \<Longrightarrow> contents (h(a := v)) as = contents h as"
  by (auto simp: contents_def)

lemma node_view_links [simp]:
  "node_view (n\<lparr>pn_prev := p\<rparr>) = node_view n" "node_view (n\<lparr>pn_next := p\<rparr>) = node_view n"
  "node_view (new_node i v d) = new_node i v d"
  by (simp_all add: node_view_def new_node_def)

section \<open>The operations on the list\<close>

lemma insert_before_spec:
  assumes d: "dlist h frames (xs @ b # ys)" and data: "buf_data data \<noteq> None" and a: "h a = None"
  obtains frames' h' data' where
    "IHS_VideoPartialFramesInsertBefore (Some a) frames b frameId header data h = Some (Some a, data', frames', h')"
    "dlist h' frames' (xs @ a # b # ys)" "dom h' = insert a (dom h)"
    "contents h' (xs @ a # b # ys) = contents h xs @ new_node frameId header data # contents h (b # ys)"
proof -
  have dis: "distinct (xs @ b # ys)" and lk: "links h None xs (Some b)" "links h (last_of xs None) (b # ys) None"
    and ends: "pl_head frames = first_of xs (Some b)" "pl_tail frames = last_of ys (Some b)"
    using d by (auto simp: dlist_def links_append)
  have na: "a \<notin> set (xs @ b # ys)" using a links_dom[of h None "xs @ b # ys" None a] d by (auto simp: dlist_def)
  obtain nb where nb: "h b = Some nb" "pn_prev nb = last_of xs None" "pn_next nb = first_of ys None" using lk(2) by auto
  obtain data' where tr: "IHS_BufferTransferOwnership data = Some (data', data)" by simp
  let ?h0 = "h(a \<mapsto> new_node frameId header data)"
  let ?n = "(new_node frameId header data)\<lparr>pn_prev := last_of xs None, pn_next := Some b\<rparr>"
  have b0: "?h0 b = Some nb" using nb na by auto
  show thesis
  proof (cases xs rule: rev_cases)
    case Nil
    let ?h = "h(a \<mapsto> ?n, b \<mapsto> nb\<lparr>pn_prev := Some a\<rparr>)"
    have "IHS_VideoPartialFramesInsertBefore (Some a) frames b frameId header data h =
        Some (Some a, data', frames\<lparr>pl_head := Some a\<rparr>, ?h)"
      using Nil data tr nb na ends
      by (auto simp: IHS_VideoPartialFramesInsertBefore_def NewNode_def set_prev_def set_next_def fun_upd_twist)
    moreover have "dlist ?h (frames\<lparr>pl_head := Some a\<rparr>) (a # b # ys)"
      using Nil dis na ends lk nb by (auto simp: dlist_def)
    moreover have "contents ?h ys = contents h ys" using na dis by (auto simp: contents_def)
    then have "contents ?h (a # b # ys) = new_node frameId header data # contents h (b # ys)"
      using nb na by (simp add: contents_def)
    ultimately show thesis using that[of data' "frames\<lparr>pl_head := Some a\<rparr>" ?h] Nil nb(1) by (auto simp: contents_def)
  next
    case (snoc zs z)
    obtain nz where nz: "h z = Some nz" "pn_prev nz = last_of zs None" "pn_next nz = Some b" "links h None zs (Some z)"
      using lk(1) snoc by (auto simp: links_append)
    have dz: "z \<noteq> b" "z \<noteq> a" using dis na snoc by auto
    let ?h = "h(a \<mapsto> ?n, z \<mapsto> nz\<lparr>pn_next := Some a\<rparr>, b \<mapsto> nb\<lparr>pn_prev := Some a\<rparr>)"
    have "IHS_VideoPartialFramesInsertBefore (Some a) frames b frameId header data h = Some (Some a, data', frames, ?h)"
      using snoc data tr nb nz na dz
      by (auto simp: IHS_VideoPartialFramesInsertBefore_def NewNode_def set_prev_def set_next_def fun_upd_twist)
    moreover have "links ?h None zs (Some z)" "links ?h (Some b) ys None"
      using nz(4) lk(2) na dis snoc by auto
    then have "dlist ?h frames (xs @ a # b # ys)"
      using snoc dis na dz ends nb nz by (auto simp: dlist_def links_append)
    moreover have "contents ?h zs = contents h zs" "contents ?h ys = contents h ys"
      using na dis snoc by (auto simp: contents_def)
    then have "contents ?h (xs @ a # b # ys) = contents h xs @ new_node frameId header data # contents h (b # ys)"
      using nb nz na dz snoc by (simp add: contents_def)
    ultimately show thesis using that[of data' frames ?h] nb(1) nz(1) by auto
  qed
qed

lemma partial_append_spec:
  assumes d: "dlist h frames as" and data: "buf_data data \<noteq> None" and a: "h a = None"
  obtains frames' h' data' where
    "IHS_VideoPartialFramesAppend (Some a) frames frameId header data h = Some (Some a, data', frames', h')"
    "dlist h' frames' (as @ [a])" "dom h' = insert a (dom h)"
    "contents h' (as @ [a]) = contents h as @ [new_node frameId header data]"
proof -
  have dis: "distinct as" and lk: "links h None as None" and ends: "pl_head frames = first_of as None" "pl_tail frames = last_of as None"
    using d by (auto simp: dlist_def)
  have na: "a \<notin> set as" using a links_dom[OF lk, of a] by auto
  obtain data' where tr: "IHS_BufferTransferOwnership data = Some (data', data)" by simp
  show thesis
  proof (cases as rule: rev_cases)
    case Nil
    then show thesis using data tr ends
      by (intro that[of data' "frames\<lparr>pl_head := Some a, pl_tail := Some a\<rparr>" "h(a \<mapsto> new_node frameId header data)"])
        (auto simp: IHS_VideoPartialFramesAppend_def NewNode_def dlist_def contents_def new_node_def node_view_def)
  next
    case (snoc zs z)
    obtain nz where nz: "h z = Some nz" "pn_prev nz = last_of zs None" "links h None zs (Some z)"
      using lk snoc by (auto simp: links_append)
    have dz: "z \<noteq> a" "z \<notin> set zs" using dis na snoc by auto
    let ?h = "h(a \<mapsto> (new_node frameId header data)\<lparr>pn_prev := Some z\<rparr>, z \<mapsto> nz\<lparr>pn_next := Some a\<rparr>)"
    have hd: "pl_head frames \<noteq> None" using ends snoc by (cases zs) auto
    have "IHS_VideoPartialFramesAppend (Some a) frames frameId header data h = Some (Some a, data', frames\<lparr>pl_tail := Some a\<rparr>, ?h)"
      using snoc data tr nz na dz ends hd
      by (auto simp: IHS_VideoPartialFramesAppend_def NewNode_def set_prev_def set_next_def fun_upd_twist)
    moreover have "links ?h None zs (Some z)" using nz(3) na dz snoc by auto
    then have "dlist ?h (frames\<lparr>pl_tail := Some a\<rparr>) (as @ [a])"
      using snoc dis na dz ends nz by (auto simp: dlist_def links_append new_node_def)
    moreover have "contents ?h zs = contents h zs" using na dz snoc by (auto simp: contents_def)
    then have "contents ?h (as @ [a]) = contents h as @ [new_node frameId header data]"
      using nz na dz snoc by (simp add: contents_def)
    ultimately show thesis using that[of data' "frames\<lparr>pl_tail := Some a\<rparr>" ?h] nz(1) by auto
  qed
qed

definition ticket_of :: "partial_frame \<Rightarrow> nat list" where
  "ticket_of n = (case pn_ticket n of None \<Rightarrow> [] | Some t \<Rightarrow> [t])"

lemma ticket_of_view [simp]: "ticket_of (node_view n) = ticket_of n"
  by (simp add: ticket_of_def node_view_def)

lemma remove_spec:
  assumes d: "dlist h frames (xs @ b # ys)"
  obtains frames' h' where
    "IHS_VideoPartialFramesRemove frames b h = Some (ticket_of (the (h b)), frames', h')"
    "dlist h' frames' (xs @ ys)" "dom h' = dom h - {b}" "contents h' (xs @ ys) = contents h xs @ contents h ys"
proof -
  have dis: "distinct (xs @ b # ys)" and lk: "links h None xs (Some b)" "links h (Some b) ys None"
    and ends: "pl_head frames = first_of xs (Some b)" "pl_tail frames = last_of ys (Some b)"
    using d by (auto simp: dlist_def links_append)
  obtain n where n: "h b = Some n" "pn_prev n = last_of xs None" "pn_next n = first_of ys None"
    using d by (auto simp: dlist_def links_append)
  let ?rem = "\<lambda>fr h'. IHS_VideoPartialFramesRemove frames b h = Some (ticket_of (the (h b)), fr, h') \<and>
    dlist h' fr (xs @ ys) \<and> dom h' = dom h - {b} \<and> contents h' (xs @ ys) = contents h xs @ contents h ys"
  note defs = IHS_VideoPartialFramesRemove_def set_next_def set_prev_def dlist_def links_append contents_def ticket_of_def
  have "\<exists>fr h'. ?rem fr h'"
  proof (cases xs rule: rev_cases)
    case Nil
    show ?thesis
    proof (cases ys)
      case Nil
      then have "?rem (frames\<lparr>pl_head := None, pl_tail := None\<rparr>) (h(b := None))"
        using \<open>xs = []\<close> n ends by (auto simp: defs)
      then show ?thesis by blast
    next
      case (Cons y zs)
      obtain ny where ny: "h y = Some ny" "pn_next ny = first_of zs None" "links h (Some y) zs None" using lk(2) Cons by auto
      have "?rem (frames\<lparr>pl_head := Some y\<rparr>) (h(y \<mapsto> ny\<lparr>pn_prev := None\<rparr>, b := None))"
        using Cons \<open>xs = []\<close> n ny ends dis by (auto simp: defs)
      then show ?thesis by blast
    qed
  next
    case (snoc ws w)
    obtain nw where nw: "h w = Some nw" "pn_prev nw = last_of ws None" "links h None ws (Some w)" using lk(1) snoc by (auto simp: links_append)
    show ?thesis
    proof (cases ys)
      case Nil
      have "?rem (frames\<lparr>pl_tail := Some w\<rparr>) (h(w \<mapsto> nw\<lparr>pn_next := None\<rparr>, b := None))"
        using Nil snoc n nw ends dis by (auto simp: defs)
      then show ?thesis by blast
    next
      case (Cons y zs)
      obtain ny where ny: "h y = Some ny" "pn_next ny = first_of zs None" "links h (Some y) zs None" using lk(2) Cons by auto
      have "?rem frames (h(w \<mapsto> nw\<lparr>pn_next := Some y\<rparr>, y \<mapsto> ny\<lparr>pn_prev := Some w\<rparr>, b := None))"
        using Cons snoc n ny nw ends dis by (auto simp: defs)
      then show ?thesis by blast
    qed
  qed
  then show thesis using that by blast
qed

lemma count_links: "links h p as None \<Longrightarrow> count_from h (first_of as None) k = Some (k + length as)"
proof (induction as arbitrary: p k)
  case Nil
  then show ?case by (subst count_from.simps) simp
next
  case (Cons a as)
  then show ?case by (subst count_from.simps) auto
qed

lemma clear_links:
  "links h p as None \<Longrightarrow> distinct as \<Longrightarrow> \<forall>a \<in> set as. buf_wf (pn_data (the (h a))) \<Longrightarrow>
   clear_from (first_of as None) k r h =
     Some (k + length as, r @ concat (map (\<lambda>a. ticket_of (the (h a))) as), h |` (- set as))"
proof (induction as arbitrary: p k r h)
  case Nil
  have "h |` UNIV = h" by (rule ext) (simp add: restrict_map_def)
  then show ?case by (subst clear_from.simps) simp
next
  case (Cons a as)
  obtain n where n: "h a = Some n" "pn_next n = first_of as None" "links h (Some a) as None" using Cons.prems(1) by auto
  obtain b' where b': "IHS_BufferClear (pn_data n) True = Some b'" by (rule Clear_spec[of "pn_data n" True]) (use Cons.prems(3) n in simp_all)
  have l: "links (h(a := None)) (Some a) as None" "distinct as" "\<forall>x \<in> set as. buf_wf (pn_data (the ((h(a := None)) x)))"
    using Cons.prems n(3) by auto
  have "clear_from (first_of as None) (k + 1) (r @ ticket_of n) (h(a := None)) =
      Some (k + 1 + length as, (r @ ticket_of n) @ concat (map (\<lambda>x. ticket_of (the ((h(a := None)) x))) as), h(a := None) |` (- set as))"
    by (rule Cons.IH[OF l])
  moreover have m: "map (\<lambda>x. ticket_of (the ((h(a := None)) x))) as = map (\<lambda>x. ticket_of (the (h x))) as" using Cons.prems(2) by auto
  moreover have e: "h(a := None) |` (- set as) = h |` (- set (a # as))" by (rule ext) (simp add: restrict_map_def)
  ultimately have c: "clear_from (first_of as None) (k + 1) (r @ ticket_of n) (h(a := None)) =
      Some (k + 1 + length as, (r @ ticket_of n) @ concat (map (\<lambda>x. ticket_of (the (h x))) as), h |` (- set (a # as)))"
    unfolding m e by simp
  have "FreeNode a h = Some (ticket_of n, h(a := None))" using n b' by (simp add: FreeNode_def ticket_of_def)
  then show ?case using n c by (subst clear_from.simps) simp
qed

section \<open>Refinement\<close>

lemma partial_frames_ops:
  assumes d: "dlist h frames as" and data: "buf_data data \<noteq> None" and a: "h a = None" and c: "c = contents h as"
  shows "k < length as \<Longrightarrow> \<exists>data' frames' h' as'.
      IHS_VideoPartialFramesInsertBefore (Some a) frames (as ! k) frameId header data h = Some (Some a, data', frames', h') \<and>
      dlist h' frames' as' \<and> contents h' as' = take k c @ new_node frameId header data # drop k c \<and> dom h' = insert a (dom h)"
    and "\<exists>data' frames' h' as'.
      IHS_VideoPartialFramesAppend (Some a) frames frameId header data h = Some (Some a, data', frames', h') \<and>
      dlist h' frames' as' \<and> contents h' as' = c @ [new_node frameId header data] \<and> dom h' = insert a (dom h)"
    and "k < length as \<Longrightarrow> \<exists>frames' h' as'.
      IHS_VideoPartialFramesRemove frames (as ! k) h = Some (ticket_of (c ! k), frames', h') \<and>
      dlist h' frames' as' \<and> contents h' as' = take k c @ drop (Suc k) c \<and> dom h' = dom h - {as ! k}"
    and "IHS_VideoPartialFramesInsertBefore None frames b frameId header data h = Some (None, data, frames, h)"
    and "IHS_VideoPartialFramesAppend None frames frameId header data h = Some (None, data, frames, h)"
    and "IHS_VideoPartialFramesCount frames h = Some (length c)"
    and "\<forall>n \<in> set c. buf_wf (pn_data n) \<Longrightarrow> \<exists>frames' h'.
      IHS_VideoPartialFramesClear frames h = Some (length c, concat (map ticket_of c), frames', h') \<and>
      dlist h' frames' [] \<and> dom h' = dom h - set as"
proof -
  have lk: "links h None as None" "distinct as" "pl_head frames = first_of as None" using d by (auto simp: dlist_def)
  have split: "as = take k as @ as ! k # drop (Suc k) as" if "k < length as" using that by (rule id_take_nth_drop)
  have cs: "contents h (take k as) = take k c" "contents h (drop j as) = drop j c" for k j by (simp_all add: c contents_def take_map drop_map)
  show "\<exists>data' frames' h' as'.
      IHS_VideoPartialFramesInsertBefore (Some a) frames (as ! k) frameId header data h = Some (Some a, data', frames', h') \<and>
      dlist h' frames' as' \<and> contents h' as' = take k c @ new_node frameId header data # drop k c \<and> dom h' = insert a (dom h)"
    if "k < length as"
  proof -
    have "dlist h frames (take k as @ as ! k # drop (Suc k) as)" using d split[OF that] by simp
    from insert_before_spec[OF this data a, of frameId header] show ?thesis
      using cs Cons_nth_drop_Suc[OF that] by metis
  qed
  show "\<exists>data' frames' h' as'.
      IHS_VideoPartialFramesAppend (Some a) frames frameId header data h = Some (Some a, data', frames', h') \<and>
      dlist h' frames' as' \<and> contents h' as' = c @ [new_node frameId header data] \<and> dom h' = insert a (dom h)"
    using partial_append_spec[OF d data a, of frameId header] c by metis
  show "\<exists>frames' h' as'. IHS_VideoPartialFramesRemove frames (as ! k) h = Some (ticket_of (c ! k), frames', h') \<and>
      dlist h' frames' as' \<and> contents h' as' = take k c @ drop (Suc k) c \<and> dom h' = dom h - {as ! k}" if "k < length as"
  proof -
    have "dlist h frames (take k as @ as ! k # drop (Suc k) as)" using d split[OF that] by simp
    moreover have "ticket_of (c ! k) = ticket_of (the (h (as ! k)))" using that by (simp add: c contents_def)
    ultimately show ?thesis using remove_spec cs by metis
  qed
  show "IHS_VideoPartialFramesInsertBefore None frames b frameId header data h = Some (None, data, frames, h)"
    "IHS_VideoPartialFramesAppend None frames frameId header data h = Some (None, data, frames, h)"
    using data by (simp_all add: IHS_VideoPartialFramesInsertBefore_def IHS_VideoPartialFramesAppend_def NewNode_def)
  show "IHS_VideoPartialFramesCount frames h = Some (length c)"
    using count_links[OF lk(1)] lk(3) by (simp add: IHS_VideoPartialFramesCount_def c contents_def)
  show "\<exists>frames' h'. IHS_VideoPartialFramesClear frames h = Some (length c, concat (map ticket_of c), frames', h') \<and>
      dlist h' frames' [] \<and> dom h' = dom h - set as" if w: "\<forall>n \<in> set c. buf_wf (pn_data n)"
  proof -
    have "\<forall>a \<in> set as. buf_wf (pn_data (the (h a)))" using w by (auto simp: c contents_def node_view_def)
    from clear_links[OF lk(1,2) this, of 0 "[]"] show ?thesis
      using lk(3) by (auto simp: IHS_VideoPartialFramesClear_def dlist_def c contents_def comp_def)
  qed
qed

text \<open>C16: The doubly linked list of fragments implements a list.  On a list whose forward and backward
  pointers agree, inserting before a node, appending and removing do to the fragments what their
  names say, keep both chains intact, and allocate or free exactly the node concerned; a failed
  allocation changes nothing; counting gives the length, and clearing frees every node once, with the
  tickets released in order.\<close>

theorem partial_frames_refine:
  assumes "dlist h frames as" "buf_data data \<noteq> None" "h a = None" "c = contents h as"
  shows "(k < length as \<longrightarrow> (\<exists>data' frames' h' as'.
      IHS_VideoPartialFramesInsertBefore (Some a) frames (as ! k) frameId header data h = Some (Some a, data', frames', h') \<and>
      dlist h' frames' as' \<and> contents h' as' = take k c @ new_node frameId header data # drop k c \<and> dom h' = insert a (dom h))) \<and>
    (\<exists>data' frames' h' as'.
      IHS_VideoPartialFramesAppend (Some a) frames frameId header data h = Some (Some a, data', frames', h') \<and>
      dlist h' frames' as' \<and> contents h' as' = c @ [new_node frameId header data] \<and> dom h' = insert a (dom h)) \<and>
    (k < length as \<longrightarrow> (\<exists>frames' h' as'.
      IHS_VideoPartialFramesRemove frames (as ! k) h = Some (ticket_of (c ! k), frames', h') \<and>
      dlist h' frames' as' \<and> contents h' as' = take k c @ drop (Suc k) c \<and> dom h' = dom h - {as ! k})) \<and>
    IHS_VideoPartialFramesInsertBefore None frames b frameId header data h = Some (None, data, frames, h) \<and>
    IHS_VideoPartialFramesAppend None frames frameId header data h = Some (None, data, frames, h) \<and>
    IHS_VideoPartialFramesCount frames h = Some (length c) \<and>
    ((\<forall>n \<in> set c. buf_wf (pn_data n)) \<longrightarrow> (\<exists>frames' h'.
      IHS_VideoPartialFramesClear frames h = Some (length c, concat (map ticket_of c), frames', h') \<and>
      dlist h' frames' [] \<and> dom h' = dom h - set as))"
  by (intro conjI impI) (rule partial_frames_ops[OF assms]; assumption)+

definition demo_fragment :: "u16 \<Rightarrow> nat option \<Rightarrow> nat option \<Rightarrow> partial_frame" where
  "demo_fragment i p n = \<lparr>pn_frameId = i, pn_ticket = Some (unat i), pn_timestamp = 0,
     pn_header = \<lparr>vh_sequence = i, vh_flags = 0, vh_subFrameStart = 0, vh_subFrameEnd = 0\<rparr>,
     pn_data = IHS_BUFFER_WRAP [1], pn_prev = p, pn_next = n\<rparr>"

definition demo_list :: partial_heap where
  "demo_list = [10 \<mapsto> demo_fragment 1 None (Some 20), 20 \<mapsto> demo_fragment 2 (Some 10) (Some 30), 30 \<mapsto> demo_fragment 3 (Some 20) None]"

theorem partial_frames_refine_witness:
  "\<exists>frames' h' as'. IHS_VideoPartialFramesRemove \<lparr>pl_head = Some 10, pl_tail = Some 30\<rparr> 20 demo_list = Some ([2], frames', h') \<and>
     dlist h' frames' as' \<and> map pn_frameId (contents h' as') = [1, 3] \<and> dom h' = {10, 30}"
proof -
  have d: "dlist demo_list \<lparr>pl_head = Some 10, pl_tail = Some 30\<rparr> [10, 20, 30]" by (simp add: dlist_def demo_fragment_def demo_list_def)
  have x: "buf_data (IHS_BUFFER_WRAP []) \<noteq> None" "demo_list 40 = None" by (simp_all add: IHS_BUFFER_WRAP_def demo_list_def)
  have c: "contents demo_list [10, 20, 30] = map (\<lambda>i. demo_fragment i None None) [1, 2, 3]"
    by (simp add: contents_def demo_list_def node_view_def demo_fragment_def)
  have "dom demo_list - {20} = {10, 30}" by (auto simp: demo_list_def)
  with partial_frames_refine[OF d x c[symmetric], of 1, THEN conjunct2, THEN conjunct2, THEN conjunct1] obtain frames' h' as' where
    "IHS_VideoPartialFramesRemove \<lparr>pl_head = Some 10, pl_tail = Some 30\<rparr> 20 demo_list = Some ([2], frames', h')" "dlist h' frames' as'"
    "contents h' as' = [demo_fragment 1 None None, demo_fragment 3 None None]" "dom h' = {10, 30}"
    by (auto simp: ticket_of_def demo_fragment_def)
  then show ?thesis by (intro exI[of _ frames'] exI[of _ h'] exI[of _ as']) (simp add: demo_fragment_def)
qed

end
