(* ===== verification/Video.thy ===== *)
theory Video
  imports Partial_Frames NAL Crypto
begin

text \<open>
  The video channel between the data channel and the decoder (\<^verbatim>\<open>video/ch_data_video.c\<close>): the sequence
  numbers of fragments and the wait for a key frame, the pending fragments, their assembly into the
  frame buffer, the hand-over to the decoder and the handling of an overflow.

  The pending fragments are the list that \<open>Partial_Frames\<close> implements.  Frame tickets are numbers.  The calls
  that leave the channel (tickets, session, statistics, decoder) are recorded in order in \<open>vd_calls\<close>; what
  they answer is given by \<open>video_env\<close>, as a function of the number of calls made before.  A clock
  reading is such a call.  \<^term>\<open>None\<close> is a failing assertion, an unsupported codec or an access outside
  a block.

  The statistics taken at the start of \<open>DataReceived\<close> are left out, and \<open>timestamp\<close> is the time stamp of the
  frame header after its conversion to the local clock.
\<close>

section \<open>State\<close>

datatype video_codec = CodecH264 | CodecHEVC | CodecOther

datatype video_call = ReadClock | DataLost | Disconnected | BeginInput nat | Retained nat | RetainFailed nat | Released nat
  | Abandoned nat | SetTimestamp nat u32 | SetSize nat nat | DecodeStage nat bool | Completed nat
  | Submit u16 bytes u32 | DisableHardware | Overflow u16 u16 | FlushDecoder | FlushPlayer | DroppedReset u16 | Allocate
  | Prepare | OpenEpoch u64 | CloseEpoch u64 | StartDecoder u64 | StopDecoder u64 | DecoderInfo | CollectStats
  | Interrupt bool | ThinkDecoder | JoinWorker | RestartWorker

record video_env =
  ve_mem :: allocator
  ve_now :: "nat \<Rightarrow> u32"
  ve_alloc :: "nat \<Rightarrow> bool"
  ve_retain :: "nat \<Rightarrow> bool"
  ve_begin :: "nat \<Rightarrow> nat option"
  ve_submit :: "nat \<Rightarrow> int \<times> bool"
  ve_disable :: "nat \<Rightarrow> bool"
  ve_decoder :: bool
  ve_flush :: bool
  ve_stats :: bool
  ve_invalid :: bool
  ve_callbacks :: bool
  ve_has_prepare :: bool
  ve_prepare :: "nat \<Rightarrow> int"
  ve_tracker :: bool
  ve_open :: "nat \<Rightarrow> bool"
  ve_has_start :: bool
  ve_start :: "nat \<Rightarrow> int"
  ve_reports :: bool
  ve_has_stop :: bool
  ve_has_interrupt :: bool
  ve_has_think :: bool
  ve_interrupted :: "nat \<Rightarrow> bool"

record video =
  vd_expectedSequence :: u16
  vd_lastFrameId :: u16
  vd_lastRecoveryRequest :: u32
  vd_waitingKeyFrame :: bool
  vd_syncingBacklog :: bool
  vd_overflowFrameSpan :: int
  vd_frameStarted :: bool
  vd_frameFinished :: bool
  vd_contentModeSeen :: bool
  vd_contentMode :: bool
  vd_expectedSubFrameStart :: u32
  vd_partial :: "partial_frame list"
  vd_buffer :: ihs_buffer
  vd_flags :: u32
  vd_frameContentMode :: bool
  vd_hasPacketBuffers :: bool
  vd_deferred :: "nat list"
  vd_appStarted :: bool
  vd_prepared :: bool
  vd_backendReady :: bool
  vd_resetRequested :: bool
  vd_incoming :: "nat option"
  vd_assembly :: "nat option"
  vd_assemblyId :: u16
  vd_tracked :: bool
  vd_contributed :: bool
  vd_sessionId :: u64
  vd_epoch :: u64
  vd_nextEpoch :: u64
  vd_codec :: video_codec
  vd_calls :: "video_call list"

definition VideoFrameFlagSubFrameAdvance :: u8 where "VideoFrameFlagSubFrameAdvance = 4"
definition VideoFrameFlagFrameFinish :: u8 where "VideoFrameFlagFrameFinish = 8"
definition VideoFrameFlagKeyFrame :: u8 where "VideoFrameFlagKeyFrame = 16"
definition VideoFrameFlagEncrypted :: u8 where "VideoFrameFlagEncrypted = 32"
definition VideoFrameFlagContentMode :: u8 where "VideoFrameFlagContentMode = 64"

abbreviation has_flag :: "video_header \<Rightarrow> u8 \<Rightarrow> bool" where
  "has_flag header f \<equiv> vh_flags header AND f \<noteq> 0"

definition call :: "video_call \<Rightarrow> video \<Rightarrow> video" where
  "call c v = v\<lparr>vd_calls := vd_calls v @ [c]\<rparr>"

definition calls :: "video_call list \<Rightarrow> video \<Rightarrow> video" where
  "calls cs v = v\<lparr>vd_calls := vd_calls v @ cs\<rparr>"

definition read_clock :: "video_env \<Rightarrow> video \<Rightarrow> u32 \<times> video" where
  "read_clock env v = (ve_now env (length (vd_calls v)), call ReadClock v)"

definition retain_ticket :: "video_env \<Rightarrow> nat \<Rightarrow> video \<Rightarrow> bool \<times> video" where
  "retain_ticket env t v =
     (if ve_retain env (length (vd_calls v)) then (True, call (Retained t) v) else (False, call (RetainFailed t) v))"

section \<open>Pending fragments\<close>

text \<open>The part of \<open>keep\<close> is the ticket of the fragment being received, which stays open.\<close>

definition drop_tickets :: "nat option \<Rightarrow> nat list \<Rightarrow> video_call list" where
  "drop_tickets keep ts = concat (map (\<lambda>t. (if Some t \<noteq> keep then [Abandoned t] else []) @ [Released t]) ts)"

definition DiscardPending :: "video \<Rightarrow> video option" where
  "DiscardPending v = do {
     let v = calls (drop_tickets (vd_incoming v) (case vd_assembly v of None \<Rightarrow> [] | Some t \<Rightarrow> [t])) v;
     let v = calls (drop_tickets (vd_incoming v) (vd_deferred v)) (v\<lparr>vd_assembly := None\<rparr>);
     let v = v\<lparr>vd_deferred := []\<rparr>;
     let v = calls (map Abandoned (filter (\<lambda>t. Some t \<noteq> vd_incoming v) (concat (map ticket_of (vd_partial v))))) v;
     b \<leftarrow> IHS_BufferClear (vd_buffer v) False;
     let v = v\<lparr>vd_buffer := b, vd_frameStarted := False, vd_frameFinished := False\<rparr>;
     _ \<leftarrow> those (map (\<lambda>n. IHS_BufferClear (pn_data n) True) (vd_partial v));
     let v = calls (map Released (concat (map ticket_of (vd_partial v)))) v;
     Some (v\<lparr>vd_partial := [], vd_flags := 0, vd_hasPacketBuffers := False, vd_expectedSubFrameStart := 0,
             vd_overflowFrameSpan := 0\<rparr>)
   }"

definition before_fragment :: "u16 \<Rightarrow> video_header \<Rightarrow> partial_frame \<Rightarrow> bool" where
  "before_fragment frameId header cur \<longleftrightarrow>
     frameId = pn_frameId cur \<and> vh_subFrameEnd header < vh_subFrameStart (pn_header cur)"

text \<open>The ticket of the received fragment is shared by the new node.\<close>

definition insert_fragment ::
    "video_env \<Rightarrow> u16 \<Rightarrow> u32 \<Rightarrow> video_header \<Rightarrow> ihs_buffer \<Rightarrow> video \<Rightarrow> (ihs_buffer \<times> video) option" where
  "insert_fragment env frameId timestamp header data v = do {
     assert_that (buf_data data \<noteq> None);
     let ok = ve_alloc env (length (vd_calls v));
     let v = call Allocate v;
     if \<not> ok then Some (data, call Disconnected v)
     else do {
       (drained, owned) \<leftarrow> IHS_BufferTransferOwnership data;
       let node = (new_node frameId header owned)\<lparr>pn_timestamp := timestamp\<rparr>;
       let before = takeWhile (\<lambda>cur. \<not> before_fragment frameId header cur) (vd_partial v);
       let after = drop (length before) (vd_partial v);
       case vd_incoming v of
         None \<Rightarrow> Some (drained, v\<lparr>vd_partial := before @ node # after\<rparr>)
       | Some t \<Rightarrow> (case retain_ticket env t v of (ok, v) \<Rightarrow>
           if \<not> ok then Some (drained, call Disconnected (v\<lparr>vd_partial := before @ node # after\<rparr>))
           else Some (drained, v\<lparr>vd_partial := before @ node\<lparr>pn_ticket := Some t\<rparr> # after, vd_contributed := True\<rparr>))
     }
   }"

definition AddPartialFrame ::
    "video_env \<Rightarrow> u16 \<Rightarrow> u32 \<Rightarrow> video_header \<Rightarrow> ihs_buffer \<Rightarrow> video \<Rightarrow> (ihs_buffer \<times> video) option" where
  "AddPartialFrame env frameId timestamp header data v =
     (let bytes = buf_size (vd_buffer v) + sum_list (map (\<lambda>n. buf_size (pn_data n)) (vd_partial v));
          maxCapacity = buf_maxCapacity (vd_buffer v) in
      if 256 \<le> length (vd_partial v) \<or> maxCapacity < buf_size data \<or> maxCapacity - buf_size data < bytes
      then do {
        v \<leftarrow> DiscardPending v;
        let v = v\<lparr>vd_waitingKeyFrame := True\<rparr>;
        case read_clock env v of (now, v) \<Rightarrow> Some (data, call DataLost (v\<lparr>vd_lastRecoveryRequest := now\<rparr>))
      } else insert_fragment env frameId timestamp header data v)"

section \<open>Assembly\<close>

definition append_codec :: "video_env \<Rightarrow> bytes \<Rightarrow> video_header \<Rightarrow> video \<Rightarrow> (bool \<times> ihs_buffer) option" where
  "append_codec env data header v = (case vd_codec v of
       CodecH264 \<Rightarrow> IHS_SessionVideoFrameAppendH264 (ve_mem env) (vd_buffer v) data (vh_flags header)
     | CodecHEVC \<Rightarrow> IHS_SessionVideoFrameAppendHEVC (ve_mem env) (vd_buffer v) data (vh_flags header)
     | CodecOther \<Rightarrow> None)"

definition AppendToFrameBuffer :: "video_env \<Rightarrow> ihs_buffer \<Rightarrow> video_header \<Rightarrow> video \<Rightarrow> (bool \<times> video) option" where
  "AppendToFrameBuffer env data header v =
     (let size = buf_size data; maxCapacity = buf_maxCapacity (vd_buffer v);
          escape = has_flag header VideoFrameFlagNeedEscape;
          required = (if escape then size * 3 div 2 + 5 else size) in
      if maxCapacity < size \<or> size = 0 \<and> escape \<and> has_flag header VideoFrameFlagNeedStartSequence then Some (False, v)
      else if maxCapacity - buf_size (vd_buffer v) < required then Some (False, v)
      else if escape \<and> vd_hasPacketBuffers v \<or> \<not> escape \<and> \<not> vd_hasPacketBuffers v \<and> 0 < buf_size (vd_buffer v)
      then Some (False, v)
      else do {
        p \<leftarrow> IHS_BufferPointer data;
        d \<leftarrow> buf_load data p size;
        (appended, b) \<leftarrow> append_codec env d header v;
        let v = v\<lparr>vd_buffer := b\<rparr>;
        if \<not> appended then Some (False, v)
        else Some (True, v\<lparr>vd_hasPacketBuffers := vd_hasPacketBuffers v \<or> \<not> escape,
               vd_flags := (if has_flag header VideoFrameFlagKeyFrame then vd_flags v OR 1 else vd_flags v)\<rparr>)
      })"

definition sub_frame_due :: "partial_frame \<Rightarrow> video \<Rightarrow> bool" where
  "sub_frame_due n v \<longleftrightarrow> vh_subFrameEnd (pn_header n) = 0 \<or>
     ucast (vh_subFrameStart (pn_header n)) = vd_expectedSubFrameStart v"

definition advance_sub_frame :: "partial_frame \<Rightarrow> video \<Rightarrow> video" where
  "advance_sub_frame n v =
     (if vh_subFrameEnd (pn_header n) \<noteq> 0 \<and> has_flag (pn_header n) VideoFrameFlagSubFrameAdvance then
        v\<lparr>vd_expectedSubFrameStart :=
            (if has_flag (pn_header n) VideoFrameFlagFrameFinish then 0 else ucast (vh_subFrameEnd (pn_header n)) + 1)\<rparr>
      else v)"

text \<open>The first fragment of a frame lends the assembly its identity and ticket.\<close>

definition start_frame :: "video_env \<Rightarrow> partial_frame \<Rightarrow> video \<Rightarrow> bool \<times> video" where
  "start_frame env n v =
     (if vd_frameStarted v then (True, v)
      else let v = v\<lparr>vd_frameStarted := True, vd_assemblyId := pn_frameId n\<rparr> in
        case pn_ticket n of None \<Rightarrow> (True, v)
        | Some t \<Rightarrow> (case retain_ticket env t v of (ok, v) \<Rightarrow>
            if ok then (True, v\<lparr>vd_assembly := Some t\<rparr>) else (False, v)))"

text \<open>The finishing fragment determines identity, ticket, time and content mode.\<close>

definition take_over :: "video_env \<Rightarrow> partial_frame \<Rightarrow> video \<Rightarrow> bool \<times> video" where
  "take_over env n v =
     (if vd_tracked v \<and> pn_ticket n \<noteq> vd_assembly v then
        case pn_ticket n of None \<Rightarrow> (False, v)
        | Some t \<Rightarrow> (case retain_ticket env t v of (ok, v) \<Rightarrow>
            if \<not> ok then (False, v)
            else let v = calls (case vd_assembly v of None \<Rightarrow> [] | Some a \<Rightarrow> [Abandoned a, Released a]) v in
              (True, v\<lparr>vd_assembly := Some t\<rparr>))
      else (True, v))"

definition finish_frame :: "video_env \<Rightarrow> partial_frame \<Rightarrow> video \<Rightarrow> bool \<times> video" where
  "finish_frame env n v =
     (if has_flag (pn_header n) VideoFrameFlagFrameFinish then
        let v = v\<lparr>vd_lastFrameId := pn_frameId n\<rparr> in
        case take_over env n v of (ok, v) \<Rightarrow>
          if \<not> ok then (False, v)
          else let v = v\<lparr>vd_assemblyId := pn_frameId n\<rparr>;
                   v = calls (case vd_assembly v of None \<Rightarrow> [] | Some a \<Rightarrow> [SetTimestamp a (pn_timestamp n)]) v in
            (True, v\<lparr>vd_frameContentMode := has_flag (pn_header n) VideoFrameFlagContentMode, vd_frameFinished := True\<rparr>)
      else (True, v))"

text \<open>Removing the consumed fragment, which is the first of the list.\<close>

definition consume :: "partial_frame \<Rightarrow> video \<Rightarrow> video option" where
  "consume n v = do {
     let v = (case pn_ticket n of None \<Rightarrow> v
              | Some t \<Rightarrow> if Some t \<noteq> vd_assembly v then call (Abandoned t) v else v);
     _ \<leftarrow> IHS_BufferClear (pn_data n) True;
     Some (calls (map Released (ticket_of n)) (v\<lparr>vd_partial := tl (vd_partial v)\<rparr>))
   }"

fun assemble_parts :: "video_env \<Rightarrow> partial_frame list \<Rightarrow> video \<Rightarrow> (bool \<times> video) option" where
  "assemble_parts env [] v = Some (vd_frameFinished v, v)"
| "assemble_parts env (n # ns) v =
     (if vd_frameFinished v \<or> \<not> sub_frame_due n v then Some (vd_frameFinished v, v)
      else case start_frame env n (advance_sub_frame n v) of (ok, v) \<Rightarrow>
        if \<not> ok then Some (False, v)
        else do {
          (appended, v) \<leftarrow> AppendToFrameBuffer env (pn_data n) (pn_header n) v;
          if \<not> appended then do { v \<leftarrow> DiscardPending v; Some (False, call Disconnected v) }
          else case finish_frame env n v of (ok, v) \<Rightarrow>
            if \<not> ok then Some (False, v)
            else do { v \<leftarrow> consume n v; assemble_parts env ns v }
        })"

definition AssembleFrame :: "video_env \<Rightarrow> video \<Rightarrow> (bool \<times> video) option" where
  "AssembleFrame env v = assemble_parts env (vd_partial v) v"

section \<open>Decoder\<close>

text \<open>The result of the decoder is a set of bits, or -1.\<close>

definition ApplyDecodeFeedback :: "video_env \<Rightarrow> u32 \<Rightarrow> video \<Rightarrow> bool \<times> video" where
  "ApplyDecodeFeedback env result v =
     (let denied = (result AND 4 \<noteq> 0 \<and> \<not> ve_disable env (length (vd_calls v)));
          v = (if result AND 4 \<noteq> 0 then call DisableHardware v else v) in
      if denied then (False, v)
      else let v = (if result AND 2 \<noteq> 0 then v\<lparr>vd_resetRequested := True\<rparr> else v) in
        (True, if result AND 1 \<noteq> 0 then call DataLost v else v))"

definition with_assembly :: "(nat \<Rightarrow> video_call) \<Rightarrow> video \<Rightarrow> video" where
  "with_assembly c v = (case vd_assembly v of None \<Rightarrow> v | Some a \<Rightarrow> call (c a) v)"

definition submit_to_decoder :: "video_env \<Rightarrow> u16 \<Rightarrow> ihs_buffer \<Rightarrow> u32 \<Rightarrow> video \<Rightarrow> int \<times> bool \<times> video" where
  "submit_to_decoder env frameId data flags v =
     (if vd_backendReady v
      then case ve_submit env (length (vd_calls v)) of (result, taken) \<Rightarrow>
        (result, taken, call (Submit frameId (buf_content data) flags) v)
      else (2, False, v))"

definition SubmitFrame :: "video_env \<Rightarrow> u16 \<Rightarrow> ihs_buffer \<Rightarrow> u32 \<Rightarrow> video \<Rightarrow> video" where
  "SubmitFrame env frameId data flags v =
     (if \<not> ve_decoder env then v
      else let v = (if vd_tracked v then with_assembly (\<lambda>a. DecodeStage a False) (with_assembly (\<lambda>a. SetSize a (buf_size data)) v) else v) in
        case submit_to_decoder env frameId data flags v of (result, taken, v) \<Rightarrow>
          let v = (if vd_tracked v \<and> \<not> taken \<and> \<not> (result = 0 \<and> buf_size data = 0) then with_assembly Completed v else v) in
          case (if 0 < result \<and> result \<le> 7 then ApplyDecodeFeedback env (word_of_int result) v else (True, v)) of (ok, v) \<Rightarrow>
            let v = (if \<not> ok \<or> result = -1 then call Disconnected v else v) in
            if vd_tracked v then with_assembly (\<lambda>a. DecodeStage a True) v else v)"

definition CheckPartialOverflow :: "video_env \<Rightarrow> video \<Rightarrow> video" where
  "CheckPartialOverflow env v =
     (if vd_waitingKeyFrame v \<or> vd_syncingBacklog v \<or> length (vd_partial v) < 2 then v
      else let head = hd (vd_partial v); tail = last (vd_partial v);
               v = (if 9830 < sint (pn_timestamp tail - pn_timestamp head)
                    then case read_clock env (call DataLost v\<lparr>vd_syncingBacklog := True\<rparr>) of (now, v) \<Rightarrow> v\<lparr>vd_lastRecoveryRequest := now\<rparr>
                    else v);
               frameSpan = uint (pn_frameId tail) - uint (pn_frameId head) + 1;
               v = (if vd_overflowFrameSpan v \<le> frameSpan then call (Overflow (pn_frameId head) (pn_frameId tail)) v else v) in
        v\<lparr>vd_overflowFrameSpan := frameSpan\<rparr>)"

text \<open>A finished frame that meets a pending reset keeps its ticket until the reset or a key frame.\<close>

definition defer_frame :: "video \<Rightarrow> u32 \<times> video" where
  "defer_frame v =
     (if vd_assembly v \<noteq> None \<and> length (vd_deferred v) = 256 then (0xFFFFFFFF, call Disconnected v)
      else let v = (case vd_assembly v of None \<Rightarrow> v
                    | Some a \<Rightarrow> v\<lparr>vd_deferred := vd_deferred v @ [a], vd_assembly := None\<rparr>) in
        (0, v\<lparr>vd_frameStarted := False, vd_frameFinished := False, vd_flags := 0\<rparr>))"

definition hand_frame :: "video_env \<Rightarrow> video \<Rightarrow> (u32 \<times> video) option" where
  "hand_frame env v = do {
     let v = SubmitFrame env (vd_assemblyId v) (vd_buffer v) (vd_flags v) v;
     let v = (with_assembly Released v)\<lparr>vd_assembly := None\<rparr>;
     b \<leftarrow> IHS_BufferClear (vd_buffer v) False;
     let v = v\<lparr>vd_buffer := b, vd_hasPacketBuffers := False, vd_flags := 0, vd_frameFinished := False, vd_frameStarted := False\<rparr>;
     Some (if vd_partial v \<noteq> [] then 1 else 0xFFFFFFFF, CheckPartialOverflow env v)
   }"

definition note_mode :: "video \<Rightarrow> video" where
  "note_mode v = v\<lparr>vd_resetRequested := vd_resetRequested v \<or> vd_contentModeSeen v \<and> vd_contentMode v \<noteq> vd_frameContentMode v,
     vd_contentModeSeen := True, vd_contentMode := vd_frameContentMode v\<rparr>"

definition DataThink :: "video_env \<Rightarrow> video \<Rightarrow> (u32 \<times> video) option" where
  "DataThink env v = do {
     (ready, v) \<leftarrow> AssembleFrame env v;
     if \<not> ready then Some (0xFFFFFFFF, CheckPartialOverflow env v)
     else let v = note_mode v in if vd_resetRequested v then Some (defer_frame v) else hand_frame env v
   }"

section \<open>Received fragments\<close>

definition VideoFrameHeaderParse :: "bytes \<Rightarrow> (video_header \<times> nat) option" where
  "VideoFrameHeaderParse data = do {
     sequence \<leftarrow> IHS_ReadUInt16LE data;
     flags \<leftarrow> mem_read data 2 1;
     start \<leftarrow> IHS_ReadUInt16LE (drop 3 data);
     end \<leftarrow> IHS_ReadUInt16LE (drop 5 data);
     Some (\<lparr>vh_sequence = sequence, vh_flags = hd flags, vh_subFrameStart = start, vh_subFrameEnd = end\<rparr>, 7)
   }"

text \<open>A key frame ends the wait: what is pending is dropped and the frames between are reported.\<close>

definition key_frame :: "video_env \<Rightarrow> u16 \<Rightarrow> video_header \<Rightarrow> video \<Rightarrow> video option" where
  "key_frame env frameId header v =
     (if \<not> has_flag header VideoFrameFlagKeyFrame then Some v
      else do {
        let gap = unat (frameId - (vd_lastFrameId v + 1));
        let v = (if ve_stats env then calls (map (\<lambda>i. DroppedReset (vd_lastFrameId v + 1 + word_of_nat i)) [0..<gap]) v else v);
        v \<leftarrow> DiscardPending (v\<lparr>vd_lastFrameId := frameId - 1\<rparr>);
        let v = (if vd_tracked v \<and> ve_flush env then call FlushDecoder v\<lparr>vd_flags := vd_flags v OR 2\<rparr> else v);
        Some (v\<lparr>vd_waitingKeyFrame := False, vd_syncingBacklog := False, vd_overflowFrameSpan := 0,
                vd_expectedSequence := vh_sequence header\<rparr>)
      })"

definition check_sequence :: "video_env \<Rightarrow> video_header \<Rightarrow> video \<Rightarrow> video" where
  "check_sequence env header v =
     (case read_clock env v of (now, v) \<Rightarrow>
        let v = (if (vd_waitingKeyFrame v \<or> vd_syncingBacklog v) \<and> 6553 < sint (now - vd_lastRecoveryRequest v)
                 then call DataLost v\<lparr>vd_lastRecoveryRequest := now\<rparr> else v);
            v = (if \<not> vd_waitingKeyFrame v \<and> vh_sequence header \<noteq> vd_expectedSequence v
                 then (if \<not> vd_syncingBacklog v then call DataLost v\<lparr>vd_lastRecoveryRequest := now\<rparr> else v)\<lparr>vd_waitingKeyFrame := True\<rparr>
                 else v) in
        v\<lparr>vd_expectedSequence := vh_sequence header + 1\<rparr>)"

text \<open>Decryption works in place: a block is read before it is overwritten, so the block that is written
  starts as a copy of the input.  Its result is ignored.\<close>

definition decrypt_fragment :: "crypto \<Rightarrow> bytes \<Rightarrow> allocator \<Rightarrow> ihs_buffer \<Rightarrow> ihs_buffer option" where
  "decrypt_fragment cp key mem body = do {
     plain \<leftarrow> IHS_BufferEnsureMaxSizeExact mem (IHS_BufferInit 0 0) (if buf_size body \<noteq> 0 then buf_size body else 1);
     p \<leftarrow> IHS_BufferPointer body;
     d \<leftarrow> buf_load body p (buf_size body);
     plain \<leftarrow> IHS_BufferAppendMem mem plain d;
     p \<leftarrow> IHS_BufferPointer plain;
     cipher \<leftarrow> buf_load plain p (buf_size plain);
     block \<leftarrow> buf_data plain;
     (_, rest, outLen) \<leftarrow> IHS_CryptoSymmetricDecryptWithIV cp cipher (replicate 16 0) key (drop p block) (buf_size body);
     Some (plain\<lparr>buf_data := Some (take p block @ rest), buf_size := outLen\<rparr>)
   }"

definition accept_fragment ::
    "video_env \<Rightarrow> crypto \<Rightarrow> bytes \<Rightarrow> u16 \<Rightarrow> u32 \<Rightarrow> video_header \<Rightarrow> ihs_buffer \<Rightarrow> video \<Rightarrow> (ihs_buffer \<times> video) option" where
  "accept_fragment env cp key frameId timestamp header body v = do {
     v \<leftarrow> key_frame env frameId header v;
     let v = check_sequence env header v;
     if vd_waitingKeyFrame v then Some (body, v)
     else if has_flag header VideoFrameFlagEncrypted then do {
       plain \<leftarrow> decrypt_fragment cp key (ve_mem env) body;
       (plain, v) \<leftarrow> AddPartialFrame env frameId timestamp header plain v;
       _ \<leftarrow> IHS_BufferClear plain True;
       Some (body, v)
     } else AddPartialFrame env frameId timestamp header body v
   }"

definition release_incoming :: "video \<Rightarrow> video" where
  "release_incoming v = (case vd_incoming v of None \<Rightarrow> v
     | Some t \<Rightarrow> (calls ((if vd_contributed v then [] else [Abandoned t]) @ [Released t]) v)\<lparr>vd_incoming := None\<rparr>)"

definition DataReceived ::
    "video_env \<Rightarrow> crypto \<Rightarrow> bytes \<Rightarrow> u16 \<Rightarrow> u32 \<Rightarrow> ihs_buffer \<Rightarrow> video \<Rightarrow> (ihs_buffer \<times> video) option" where
  "DataReceived env cp key frameId timestamp body v =
     (if buf_size body < 7 then Some (body, v)
      else do {
        p \<leftarrow> IHS_BufferPointer body;
        d \<leftarrow> buf_load body p 7;
        (header, n) \<leftarrow> VideoFrameHeaderParse d;
        body \<leftarrow> IHS_BufferOffsetBy body (int n);
        let v = v\<lparr>vd_contributed := False\<rparr>;
        if vd_tracked v then
          (case ve_begin env (length (vd_calls v)) of
             None \<Rightarrow> Some (body, release_incoming (call Disconnected v))
           | Some t \<Rightarrow> do {
               (body, v) \<leftarrow> accept_fragment env cp key frameId timestamp header body (call (BeginInput t) v\<lparr>vd_incoming := Some t\<rparr>);
               Some (body, release_incoming v)
             })
        else do {
          (body, v) \<leftarrow> accept_fragment env cp key frameId timestamp header body v;
          Some (body, release_incoming v)
        }
      })"


section \<open>Life cycle\<close>

text \<open>The instance is zeroed before it is initialised.  \<^term>\<open>None\<close> stands for a failed initialisation, after
  which the channel is destroyed.  \<open>codecLen\<close> is the length of the codec data of the message, if it has any.\<close>

definition video_zero :: video where
  "video_zero = \<lparr>vd_expectedSequence = 0, vd_lastFrameId = 0, vd_lastRecoveryRequest = 0, vd_waitingKeyFrame = False,
     vd_syncingBacklog = False, vd_overflowFrameSpan = 0, vd_frameStarted = False, vd_frameFinished = False,
     vd_contentModeSeen = False, vd_contentMode = False, vd_expectedSubFrameStart = 0, vd_partial = [],
     vd_buffer = IHS_BufferInit 0 0, vd_flags = 0, vd_frameContentMode = False, vd_hasPacketBuffers = False, vd_deferred = [],
     vd_appStarted = False, vd_prepared = False, vd_backendReady = False, vd_resetRequested = False, vd_incoming = None,
     vd_assembly = None, vd_assemblyId = 0, vd_tracked = False, vd_contributed = False, vd_sessionId = 0, vd_epoch = 0,
     vd_nextEpoch = 0, vd_codec = CodecOther, vd_calls = []\<rparr>"

definition ChannelVideoInit ::
    "allocator \<Rightarrow> bool \<Rightarrow> video_codec \<Rightarrow> nat option \<Rightarrow> bool \<Rightarrow> u64 \<Rightarrow> u64 \<Rightarrow> video option" where
  "ChannelVideoInit mem mutex codec codecLen tracked trackingId nextEpoch = do {
     let v = video_zero\<lparr>vd_lastFrameId := 0xFFFF, vd_codec := codec, vd_nextEpoch := nextEpoch\<rparr>;
     assert_that (case codecLen of None \<Rightarrow> True | Some n \<Rightarrow> n = 0 \<or> n \<le> 2 * 1024 * 1024 \<and> mem n \<noteq> None);
     let b = IHS_BufferInit (128 * 1024) (2048 * 1024);
     block \<leftarrow> mem (buf_maxCapacity b);
     assert_that mutex;
     let v = v\<lparr>vd_buffer := b\<lparr>buf_data := Some block, buf_capacity := buf_maxCapacity b\<rparr>, vd_tracked := tracked, vd_sessionId := trackingId\<rparr>;
     Some (if tracked \<and> nextEpoch \<noteq> 0xFFFFFFFFFFFFFFFF then v\<lparr>vd_nextEpoch := nextEpoch + 1, vd_epoch := nextEpoch + 1\<rparr> else v)
   }"

text \<open>Opening the decoder.  A result of 1 from a decoder that was prepared means that it is not available yet.\<close>

definition prepare_decoder :: "video_env \<Rightarrow> video \<Rightarrow> bool \<times> video" where
  "prepare_decoder env v =
     (if vd_prepared v then (True, v)
      else if ve_has_prepare env then
        (if ve_prepare env (length (vd_calls v)) \<noteq> 0 then (False, call Prepare v) else (True, call Prepare v\<lparr>vd_prepared := True\<rparr>))
      else (True, v\<lparr>vd_prepared := True\<rparr>))"

definition open_epoch :: "video_env \<Rightarrow> video \<Rightarrow> bool \<times> video" where
  "open_epoch env v =
     (if \<not> vd_tracked v then (True, v)
      else if \<not> ve_tracker env \<or> vd_epoch v = 0 then (False, v)
      else (ve_open env (length (vd_calls v)), call (OpenEpoch (vd_epoch v)) v))"

definition start_decoder :: "video_env \<Rightarrow> video \<Rightarrow> bool \<times> video" where
  "start_decoder env v =
     (let started = ve_start env (length (vd_calls v)); v = call (StartDecoder (vd_epoch v)) v;
          unavailable = (ve_has_prepare env \<and> started = 1) in
      if started \<noteq> 0 \<and> \<not> unavailable then
        (False, call Disconnected (if vd_tracked v then call (CloseEpoch (vd_epoch v)) v else v))
      else let v = v\<lparr>vd_appStarted := True, vd_backendReady := \<not> unavailable\<rparr> in
        (True, if unavailable \<or> vd_tracked v \<and> ve_reports env then v else call DecoderInfo v))"

definition DataStart :: "video_env \<Rightarrow> video \<Rightarrow> bool \<times> video" where
  "DataStart env v =
     (if ve_invalid env then (False, call Disconnected v)
      else if \<not> ve_callbacks env then (True, v)
      else case prepare_decoder env v of (ok, v) \<Rightarrow>
        if \<not> ok then (False, v)
        else case open_epoch env v of (ok, v) \<Rightarrow>
          if \<not> ok then (False, call Disconnected v)
          else if \<not> vd_tracked v \<and> \<not> ve_has_start env then (True, v\<lparr>vd_backendReady := True\<rparr>)
          else start_decoder env v)"

definition close_stream :: "video_env \<Rightarrow> video \<Rightarrow> video" where
  "close_stream env v =
     (if vd_tracked v
      then calls ((if ve_stats env then [CollectStats] else []) @ [CloseEpoch (vd_epoch v)] @ (if ve_flush env then [FlushPlayer] else [])) v
      else v)"

definition stop_decoder :: "video_env \<Rightarrow> video \<Rightarrow> video" where
  "stop_decoder env v =
     (let v = (if vd_tracked v \<and> ve_flush env then call FlushDecoder v else v)\<lparr>vd_waitingKeyFrame := True, vd_syncingBacklog := False\<rparr> in
      case read_clock env v of (now, v) \<Rightarrow>
        let v = v\<lparr>vd_lastRecoveryRequest := now\<rparr>;
            v = (if vd_tracked v \<or> ve_has_stop env then call (StopDecoder (vd_epoch v)) v else v) in
        v\<lparr>vd_backendReady := False\<rparr>)"

definition DataStop :: "video_env \<Rightarrow> video \<Rightarrow> video option" where
  "DataStop env v =
     (if \<not> vd_appStarted v then Some v
      else do {
        v \<leftarrow> DiscardPending (close_stream env (v\<lparr>vd_appStarted := False\<rparr>));
        Some (stop_decoder env v)
      })"

definition DataInterrupt :: "video_env \<Rightarrow> bool \<Rightarrow> video \<Rightarrow> video" where
  "DataInterrupt env restarting v =
     (if vd_tracked v \<and> \<not> ve_invalid env \<and> ve_callbacks env \<and> ve_has_interrupt env then call (Interrupt restarting) v else v)"

definition ChannelVideoDeinit :: "video_env \<Rightarrow> video \<Rightarrow> video option" where
  "ChannelVideoDeinit env v = do {
     v \<leftarrow> DataStop env (DataInterrupt env False v);
     b \<leftarrow> IHS_BufferClear (vd_buffer v) True;
     _ \<leftarrow> those (map (\<lambda>n. IHS_BufferClear (pn_data n) True) (vd_partial v));
     Some (calls (map Released (concat (map ticket_of (vd_partial v)))) (v\<lparr>vd_buffer := b, vd_partial := []\<rparr>))
   }"

definition IHS_SessionVideoHandleFormatRequests :: "video_env \<Rightarrow> video \<Rightarrow> video" where
  "IHS_SessionVideoHandleFormatRequests env v =
     (if \<not> ve_interrupted env (length (vd_calls v)) \<and> vd_tracked v \<and> vd_appStarted v \<and> ve_callbacks env \<and> ve_has_think env
      then call ThinkDecoder v else v)"

text \<open>The reset joins the worker of the channel and drops its queue, then opens the decoder under a new epoch.\<close>

definition IHS_SessionVideoHandlePendingReset :: "video_env \<Rightarrow> video \<Rightarrow> video option" where
  "IHS_SessionVideoHandlePendingReset env v =
     (if ve_interrupted env (length (vd_calls v)) \<or> \<not> vd_resetRequested v \<or> \<not> vd_appStarted v then Some v
      else do {
        v \<leftarrow> DataStop env (call JoinWorker v);
        let v = v\<lparr>vd_resetRequested := False\<rparr>;
        if ve_interrupted env (length (vd_calls v)) then Some v
        else if vd_tracked v \<and> vd_nextEpoch v = 0xFFFFFFFFFFFFFFFF then Some (call Disconnected v)
        else
          let v = (if vd_tracked v then v\<lparr>vd_nextEpoch := vd_nextEpoch v + 1, vd_epoch := vd_nextEpoch v + 1\<rparr> else v) in
          case DataStart env v of (ok, v) \<Rightarrow>
            if \<not> ok \<or> ve_interrupted env (length (vd_calls v)) then Some v
            else Some (call DataLost (call RestartWorker v))
      })"

definition IHS_SessionVideoRequestReset :: "video \<Rightarrow> video" where
  "IHS_SessionVideoRequestReset v = v\<lparr>vd_resetRequested := True\<rparr>"

definition IHS_SessionVideoDecodeFeedback :: "video_env \<Rightarrow> u64 \<Rightarrow> u64 \<Rightarrow> int \<Rightarrow> video \<Rightarrow> bool \<times> video" where
  "IHS_SessionVideoDecodeFeedback env sessionId epoch result v =
     (if result < 0 \<or> 7 < result \<or> vd_sessionId v \<noteq> sessionId \<or> vd_epoch v \<noteq> epoch then (False, v)
      else ApplyDecodeFeedback env (word_of_int result) v)"

end
