(* ===== verification/Video_Safety.thy ===== *)
theory Video_Safety
  imports Video NAL_Props
begin

text \<open>
  Safety of the operations of the video channel: none fails an assertion or leaves the frame buffer, the
  pending fragments stay within their bounds, and no reference to a frame ticket is lost.  The tickets
  are counted by \<open>surplus\<close>, the references taken so far minus those given back and those still held,
  which every operation leaves unchanged.
\<close>

section \<open>Counting references\<close>

fun weight :: "nat \<Rightarrow> video_call \<Rightarrow> int" where
  "weight t (BeginInput u) = (if u = t then 1 else 0)"
| "weight t (Retained u) = (if u = t then 1 else 0)"
| "weight t (Released u) = (if u = t then -1 else 0)"
| "weight t _ = 0"

definition net :: "nat \<Rightarrow> video_call list \<Rightarrow> int" where
  "net t cs = sum_list (map (weight t) cs)"

definition opt_list :: "nat option \<Rightarrow> nat list" where
  "opt_list x = (case x of None \<Rightarrow> [] | Some t \<Rightarrow> [t])"

definition held_tickets :: "video \<Rightarrow> nat list" where
  "held_tickets v = opt_list (vd_incoming v) @ opt_list (vd_assembly v) @ vd_deferred v @ concat (map ticket_of (vd_partial v))"

definition surplus :: "nat \<Rightarrow> video \<Rightarrow> int" where
  "surplus t v = net t (vd_calls v) - int (count_list (held_tickets v) t)"

lemma net_simps [simp]: "net t [] = 0" "net t (c # cs) = weight t c + net t cs" "net t (cs @ ds) = net t cs + net t ds"
  by (simp_all add: net_def)

lemma opt_list_simps [simp]: "opt_list None = []" "opt_list (Some t) = [t]"
  by (simp_all add: opt_list_def)

lemma net_released [simp]: "net t (map Released ts) = - int (count_list ts t)"
  by (induction ts) auto

lemma net_abandoned [simp]: "net t (map Abandoned ts) = 0"
  by (induction ts) auto

lemma net_drop [simp]: "net t (drop_tickets keep ts) = - int (count_list ts t)"
  by (induction ts) (auto simp: drop_tickets_def)

lemma net_dropped [simp]: "net t (map (\<lambda>i. DroppedReset (f i)) is) = 0"
  by (induction "is") auto

text \<open>What a call leaves alone, and what an assignment does to the count.\<close>

lemma call_fields [simp]:
  "vd_expectedSequence (call c v) = vd_expectedSequence v" "vd_expectedSequence (calls cs v) = vd_expectedSequence v"
  "vd_lastFrameId (call c v) = vd_lastFrameId v" "vd_lastFrameId (calls cs v) = vd_lastFrameId v"
  "vd_lastRecoveryRequest (call c v) = vd_lastRecoveryRequest v" "vd_lastRecoveryRequest (calls cs v) = vd_lastRecoveryRequest v"
  "vd_waitingKeyFrame (call c v) = vd_waitingKeyFrame v" "vd_waitingKeyFrame (calls cs v) = vd_waitingKeyFrame v"
  "vd_syncingBacklog (call c v) = vd_syncingBacklog v" "vd_syncingBacklog (calls cs v) = vd_syncingBacklog v"
  "vd_overflowFrameSpan (call c v) = vd_overflowFrameSpan v" "vd_overflowFrameSpan (calls cs v) = vd_overflowFrameSpan v"
  "vd_frameStarted (call c v) = vd_frameStarted v" "vd_frameStarted (calls cs v) = vd_frameStarted v"
  "vd_frameFinished (call c v) = vd_frameFinished v" "vd_frameFinished (calls cs v) = vd_frameFinished v"
  "vd_contentModeSeen (call c v) = vd_contentModeSeen v" "vd_contentModeSeen (calls cs v) = vd_contentModeSeen v"
  "vd_contentMode (call c v) = vd_contentMode v" "vd_contentMode (calls cs v) = vd_contentMode v"
  "vd_expectedSubFrameStart (call c v) = vd_expectedSubFrameStart v" "vd_expectedSubFrameStart (calls cs v) = vd_expectedSubFrameStart v"
  "vd_buffer (call c v) = vd_buffer v" "vd_buffer (calls cs v) = vd_buffer v"
  "vd_flags (call c v) = vd_flags v" "vd_flags (calls cs v) = vd_flags v"
  "vd_frameContentMode (call c v) = vd_frameContentMode v" "vd_frameContentMode (calls cs v) = vd_frameContentMode v"
  "vd_hasPacketBuffers (call c v) = vd_hasPacketBuffers v" "vd_hasPacketBuffers (calls cs v) = vd_hasPacketBuffers v"
  "vd_backendReady (call c v) = vd_backendReady v" "vd_backendReady (calls cs v) = vd_backendReady v"
  "vd_resetRequested (call c v) = vd_resetRequested v" "vd_resetRequested (calls cs v) = vd_resetRequested v"
  "vd_assemblyId (call c v) = vd_assemblyId v" "vd_assemblyId (calls cs v) = vd_assemblyId v"
  "vd_tracked (call c v) = vd_tracked v" "vd_tracked (calls cs v) = vd_tracked v"
  "vd_contributed (call c v) = vd_contributed v" "vd_contributed (calls cs v) = vd_contributed v"
  "vd_appStarted (call c v) = vd_appStarted v" "vd_appStarted (calls cs v) = vd_appStarted v"
  "vd_prepared (call c v) = vd_prepared v" "vd_prepared (calls cs v) = vd_prepared v"
  "vd_sessionId (call c v) = vd_sessionId v" "vd_sessionId (calls cs v) = vd_sessionId v"
  "vd_epoch (call c v) = vd_epoch v" "vd_epoch (calls cs v) = vd_epoch v"
  "vd_nextEpoch (call c v) = vd_nextEpoch v" "vd_nextEpoch (calls cs v) = vd_nextEpoch v"
  "vd_codec (call c v) = vd_codec v" "vd_codec (calls cs v) = vd_codec v"
  "vd_partial (call c v) = vd_partial v" "vd_partial (calls cs v) = vd_partial v"
  "vd_deferred (call c v) = vd_deferred v" "vd_deferred (calls cs v) = vd_deferred v"
  "vd_incoming (call c v) = vd_incoming v" "vd_incoming (calls cs v) = vd_incoming v"
  "vd_assembly (call c v) = vd_assembly v" "vd_assembly (calls cs v) = vd_assembly v"
  by (simp_all add: call_def calls_def)

lemma surplus_calls [simp]: "surplus t (call c v) = surplus t v + weight t c" "surplus t (calls cs v) = surplus t v + net t cs"
  by (simp_all add: surplus_def held_tickets_def call_def calls_def)

lemma surplus_other [simp]:
  "surplus t (v\<lparr>vd_expectedSequence := x0\<rparr>) = surplus t v"
  "surplus t (v\<lparr>vd_lastFrameId := x1\<rparr>) = surplus t v"
  "surplus t (v\<lparr>vd_lastRecoveryRequest := x2\<rparr>) = surplus t v"
  "surplus t (v\<lparr>vd_waitingKeyFrame := x3\<rparr>) = surplus t v"
  "surplus t (v\<lparr>vd_syncingBacklog := x4\<rparr>) = surplus t v"
  "surplus t (v\<lparr>vd_overflowFrameSpan := x5\<rparr>) = surplus t v"
  "surplus t (v\<lparr>vd_frameStarted := x6\<rparr>) = surplus t v"
  "surplus t (v\<lparr>vd_frameFinished := x7\<rparr>) = surplus t v"
  "surplus t (v\<lparr>vd_contentModeSeen := x8\<rparr>) = surplus t v"
  "surplus t (v\<lparr>vd_contentMode := x9\<rparr>) = surplus t v"
  "surplus t (v\<lparr>vd_expectedSubFrameStart := x10\<rparr>) = surplus t v"
  "surplus t (v\<lparr>vd_buffer := x11\<rparr>) = surplus t v"
  "surplus t (v\<lparr>vd_flags := x12\<rparr>) = surplus t v"
  "surplus t (v\<lparr>vd_frameContentMode := x13\<rparr>) = surplus t v"
  "surplus t (v\<lparr>vd_hasPacketBuffers := x14\<rparr>) = surplus t v"
  "surplus t (v\<lparr>vd_backendReady := x15\<rparr>) = surplus t v"
  "surplus t (v\<lparr>vd_resetRequested := x16\<rparr>) = surplus t v"
  "surplus t (v\<lparr>vd_assemblyId := x17\<rparr>) = surplus t v"
  "surplus t (v\<lparr>vd_tracked := x18\<rparr>) = surplus t v"
  "surplus t (v\<lparr>vd_contributed := x19\<rparr>) = surplus t v"
  "surplus t (v\<lparr>vd_appStarted := x21\<rparr>) = surplus t v"
  "surplus t (v\<lparr>vd_prepared := x22\<rparr>) = surplus t v"
  "surplus t (v\<lparr>vd_sessionId := x23\<rparr>) = surplus t v"
  "surplus t (v\<lparr>vd_epoch := x24\<rparr>) = surplus t v"
  "surplus t (v\<lparr>vd_nextEpoch := x25\<rparr>) = surplus t v"
  "surplus t (v\<lparr>vd_codec := x20\<rparr>) = surplus t v"
  by (simp_all add: surplus_def held_tickets_def)

lemma surplus_held [simp]:
  "surplus t (v\<lparr>vd_incoming := x\<rparr>) = surplus t v + int (count_list (opt_list (vd_incoming v)) t) - int (count_list (opt_list x) t)"
  "surplus t (v\<lparr>vd_assembly := x\<rparr>) = surplus t v + int (count_list (opt_list (vd_assembly v)) t) - int (count_list (opt_list x) t)"
  "surplus t (v\<lparr>vd_deferred := ds\<rparr>) = surplus t v + int (count_list (vd_deferred v) t) - int (count_list ds t)"
  "surplus t (v\<lparr>vd_partial := ps\<rparr>) = surplus t v + int (count_list (concat (map ticket_of (vd_partial v))) t) -
     int (count_list (concat (map ticket_of ps)) t)"
  by (simp_all add: surplus_def held_tickets_def)

lemma DiscardPending_shape:
  assumes "DiscardPending v = Some v'"
  shows "surplus t v' = surplus t v" "vd_partial v' = []" "vd_assembly v' = None" "vd_deferred v' = []" "vd_incoming v' = vd_incoming v"
    "vd_codec v' = vd_codec v" "vd_tracked v' = vd_tracked v" "IHS_BufferClear (vd_buffer v) False = Some (vd_buffer v')"
    "vd_contributed v' = vd_contributed v" "\<not> vd_frameStarted v'"
    "vd_appStarted v' = vd_appStarted v" "vd_resetRequested v' = vd_resetRequested v" "vd_nextEpoch v' = vd_nextEpoch v" "vd_epoch v' = vd_epoch v"
proof -
  show "surplus t v' = surplus t v"
    using assms by (cases "vd_assembly v") (auto simp: DiscardPending_def Let_def bind_eq_Some_conv)
qed (use assms in \<open>auto simp: DiscardPending_def Let_def bind_eq_Some_conv\<close>)

lemma concat_split: "count_list (concat (map ticket_of (takeWhile P xs))) t + count_list (concat (map ticket_of (drop (length (takeWhile P xs)) xs))) t =
    count_list (concat (map ticket_of xs)) t"
  by (metis count_list_append concat_append map_append dropWhile_eq_drop takeWhile_dropWhile_id)

lemma retain_keeps:
  assumes "retain_ticket env u v = (ok, v')"
  shows "surplus t v' = surplus t v + (if ok \<and> u = t then 1 else 0)" "\<exists>c. v' = call c v"
  using assms by (auto simp: retain_ticket_def split: if_splits)

lemma insert_fragment_surplus:
  assumes "insert_fragment env i ts hdr d v = Some (d', v')"
  shows "surplus t v' = surplus t v"
proof -
  note c = concat_split[of "\<lambda>cur. \<not> before_fragment i hdr cur" "vd_partial v" t]
  show ?thesis
  proof (cases "vd_incoming v")
    case None
    then show ?thesis using assms c
      by (auto simp: insert_fragment_def Let_def bind_eq_Some_conv ticket_of_def new_node_def split: if_splits)
  next
    case (Some u)
    then show ?thesis using assms c
      by (auto simp: insert_fragment_def Let_def bind_eq_Some_conv ticket_of_def new_node_def retain_ticket_def split: if_splits)
  qed
qed

lemma AddPartialFrame_surplus:
  assumes "AddPartialFrame env i ts hdr d v = Some (d', v')"
  shows "surplus t v' = surplus t v"
  using assms insert_fragment_surplus[of env i ts hdr d v d' v' t] DiscardPending_shape(1)[of v _ t]
  by (auto simp: AddPartialFrame_def Let_def read_clock_def bind_eq_Some_conv split: if_splits)

section \<open>Assembly\<close>

definition started_ok :: "video \<Rightarrow> bool" where
  "started_ok v \<longleftrightarrow> (vd_frameStarted v \<or> vd_assembly v = None)"

text \<open>What the steps of the assembly keep.\<close>

definition same_rest :: "video \<Rightarrow> video \<Rightarrow> bool" where
  "same_rest v v' \<longleftrightarrow> vd_partial v' = vd_partial v \<and> vd_codec v' = vd_codec v \<and> vd_deferred v' = vd_deferred v \<and>
     vd_incoming v' = vd_incoming v \<and> vd_tracked v' = vd_tracked v \<and> (\<forall>t. surplus t v' = surplus t v)"

lemma AppendToFrameBuffer_keeps:
  assumes "AppendToFrameBuffer env d hdr v = Some (ok, v')"
  shows "same_rest v v'" "vd_frameStarted v' = vd_frameStarted v" "vd_assembly v' = vd_assembly v"
  using assms by (auto simp: AppendToFrameBuffer_def Let_def same_rest_def bind_eq_Some_conv split: if_splits)

lemma start_frame_keeps:
  assumes "start_frame env n v = (ok, v')" "started_ok v"
  shows "same_rest v v' \<and> vd_frameStarted v' \<and> vd_buffer v' = vd_buffer v"
  using assms by (auto simp: start_frame_def started_ok_def retain_ticket_def same_rest_def Let_def split: if_splits option.splits)

lemma take_over_keeps:
  assumes "take_over env n v = (ok, v')"
  shows "same_rest v v' \<and> vd_frameStarted v' = vd_frameStarted v \<and> vd_buffer v' = vd_buffer v"
  using assms by (auto simp: take_over_def retain_ticket_def same_rest_def Let_def split: if_splits option.splits)

lemma finish_frame_keeps:
  assumes "finish_frame env n v = (ok, v')"
  shows "same_rest v v' \<and> vd_frameStarted v' = vd_frameStarted v \<and> vd_buffer v' = vd_buffer v"
proof (cases "has_flag (pn_header n) VideoFrameFlagFrameFinish")
  case True
  obtain ok1 v1 where t: "take_over env n (v\<lparr>vd_lastFrameId := pn_frameId n\<rparr>) = (ok1, v1)" by fastforce
  show ?thesis using take_over_keeps[OF t] assms True t
    by (cases "vd_assembly v1") (auto simp: finish_frame_def same_rest_def Let_def split: if_splits)
qed (use assms in \<open>auto simp: finish_frame_def same_rest_def\<close>)

section \<open>The frame buffer\<close>

text \<open>The buffer is allocated once with its full capacity and never moves.\<close>

definition buffer_ok :: "ihs_buffer \<Rightarrow> bool" where
  "buffer_ok b \<longleftrightarrow> buf_wf b \<and> buf_data b \<noteq> None \<and> buf_offset b = 0 \<and> buf_suffix b = 0 \<and>
     buf_capacity b = 2 ^ 21 \<and> buf_maxCapacity b = 2 ^ 21"

definition shape :: "ihs_buffer \<Rightarrow> nat \<times> nat \<times> nat \<times> nat" where
  "shape b = (buf_offset b, buf_suffix b, buf_capacity b, buf_maxCapacity b)"

lemma buffer_ok_shape: "buffer_ok b \<Longrightarrow> buf_wf b' \<Longrightarrow> shape b' = shape b \<Longrightarrow> buffer_ok b'"
  by (auto simp: buffer_ok_def shape_def buf_wf_def split: option.splits)

lemma store_shape: "buf_store b p src = Some b' \<Longrightarrow> shape b' = shape b"
  by (auto simp: buf_store_def shape_def bind_eq_Some_conv)

lemma nal_loop_shape: "nal_loop b dst history vs = Some (b', dst') \<Longrightarrow> shape b' = shape b"
proof (induction vs arbitrary: b dst history)
  case (Cons v vs)
  obtain esc b1 dst1 history1 b2 where
    "(if esc then do { b \<leftarrow> buf_store b dst [3]; Some (b, dst + 1, history + 1) } else Some (b, dst, history)) = Some (b1, dst1, history1)"
    "buf_store b1 dst1 [v] = Some b2" "nal_loop b2 (dst1 + 1) (history1 + 1) vs = Some (b', dst')"
    using Cons.prems by (auto simp: bind_eq_Some_conv simp del: bind_assoc)
  then show ?case using Cons.IH store_shape by (auto simp: bind_eq_Some_conv split: if_splits)
qed simp

lemma nal_write_shape:
  assumes "buffer_ok b" "0 < n" "buf_size b + n \<le> 2 ^ 21" "nal_write mem b data start n = Some b'"
  shows "shape b' = shape b"
proof -
  have w: "buf_wf b" and c: "0 < buf_capacity b" using assms(1) by (auto simp: buffer_ok_def)
  have "sz_add (buf_size b) n = buf_size b + n" using assms(3) by (intro sz_add_exact) simp
  moreover have "IHS_BufferEnsureMaxSize mem b (buf_size b + n) = Some b"
    using EnsureMaxSize_fits[OF w c] assms(1,3) by (simp add: buffer_ok_def)
  ultimately have "IHS_BufferPointerForAppend mem b n = Option.bind (IHS_BufferPointerAt b (buf_size b)) (\<lambda>p. Some (b, p))"
    by (simp add: IHS_BufferPointerForAppend_def Let_def)
  then obtain p where p: "IHS_BufferPointerForAppend mem b n = Some (b, p)"
    using assms(4) by (cases "IHS_BufferPointerAt b (buf_size b)") (auto simp: nal_write_def)
  have sz: "shape (x\<lparr>buf_size := k\<rparr>) = shape x" for x k by (simp add: shape_def)
  show ?thesis
  proof (cases start)
    case True
    then obtain b1 b2 dst h d b3 dst3 where "buf_store b p [0, 0, 0, 1] = Some b1" "buf_store b1 (p + 4) (take (if length data < 3 then length data else 3) data) = Some b2"
      "nal_loop b2 dst h d = Some (b3, dst3)" "shape b' = shape b3"
      using assms(4) p sz by (auto simp: nal_write_def Let_def bind_eq_Some_conv)
    then show ?thesis by (simp add: store_shape nal_loop_shape)
  next
    case False
    then obtain dst h b3 dst3 where "nal_loop b dst h data = Some (b3, dst3)" "shape b' = shape b3"
      using assms(4) p sz by (auto simp: nal_write_def Let_def bind_eq_Some_conv)
    then show ?thesis by (simp add: nal_loop_shape)
  qed
qed

lemma AppendNAL_safe:
  assumes b: "buffer_ok b" and live: "live_alloc mem"
    and n: "(if flags AND VideoFrameFlagNeedEscape \<noteq> 0 then length data * 3 div 2 + 5 else length data) \<le> 2 ^ 21 - buf_size b"
  shows "\<exists>ok b'. IHS_SessionVideoFrameAppendNAL mem b data flags = Some (ok, b') \<and> buffer_ok b'"
proof -
  have wf: "buf_wf b" "buf_offset b = 0" "buf_suffix b = 0" "buf_capacity b = 2 ^ 21" "buf_maxCapacity b = 2 ^ 21"
    using b by (simp_all add: buffer_ok_def)
  have size: "buf_size b \<le> 2 ^ 21" using buf_wf_bounds(1)[OF wf(1)] wf by simp
  show ?thesis
  proof (cases "flags AND VideoFrameFlagNeedEscape = 0")
    case True
    show ?thesis
    proof (cases "data = []")
      case False
      have fit: "buf_size b + length data \<le> 2 ^ 21" using n size True by auto
      have "can_hold b (buf_offset b + (buf_size b + length data) + buf_suffix b)"
        using fit wf by (simp add: can_hold_def grow_base_def)
      from AppendMem_spec[OF wf(1) live this] False obtain b' where
        r: "IHS_BufferAppendMem mem b data = Some b'" "buf_wf b'" "buf_frame b b'" "buf_offset b' = buf_offset b" by metis
      have "buf_capacity b' = 2 ^ 21" using r(2,3) wf by (auto simp: buf_frame_def buf_wf_def)
      then have "buffer_ok b'" using r wf by (auto simp: buffer_ok_def buf_frame_def buf_wf_def split: option.splits)
      then show ?thesis using True False r(1) by (auto simp: IHS_SessionVideoFrameAppendNAL_def)
    qed (use True b in \<open>auto simp: IHS_SessionVideoFrameAppendNAL_def\<close>)
  next
    case esc: False
    let ?n = "length data + length data div 2 + 5" and ?start = "flags AND VideoFrameFlagNeedStartSequence \<noteq> 0"
    have n3: "length data * 3 div 2 = length data + length data div 2" by simp
    have fits: "buf_size b + ?n \<le> 2 ^ 21" using n esc size by (simp add: n3)
    have can: "can_hold b (buf_offset b + (buf_size b + ?n) + buf_suffix b)" using fits wf by (simp add: can_hold_def grow_base_def)
    have "\<exists>u. nal_unknown_history b data ?start = Some u"
    proof (cases "buf_size b = 1")
      case True
      have "IHS_BufferPointer b = Some 0" using PointerAt_in[OF wf(1), of 0] wf by (simp add: IHS_BufferPointer_def)
      moreover obtain xs where "buf_data b = Some xs" "length xs = 2 ^ 21" using b by (auto simp: buffer_ok_def buf_wf_def)
      ultimately show ?thesis using True by (auto simp: nal_unknown_history_def buf_load_def mem_read_def)
    qed (auto simp: nal_unknown_history_def)
    moreover have "\<exists>b'. nal_write mem b data ?start ?n = Some b' \<and> buf_wf b'"
      using nal_write_start[OF wf(1) live can] nal_write_continue[OF wf(1) live can] by (cases ?start) auto
    then obtain b' where w: "nal_write mem b data ?start ?n = Some b'" "buffer_ok b'"
      using nal_write_shape[OF b _ fits] buffer_ok_shape[OF b] by auto
    ultimately show ?thesis using esc b by (auto simp: IHS_SessionVideoFrameAppendNAL_def Let_def)
  qed
qed

lemma clear_buffer_ok:
  assumes "buffer_ok b"
  obtains b' where "IHS_BufferClear b False = Some b'" "buffer_ok b'" "buf_size b' = 0"
  using assms by (auto simp: buffer_ok_def IHS_BufferClear_def Let_def buf_wf_def split: option.splits)

section \<open>Well-formed channels\<close>

definition part_ok :: "partial_frame \<Rightarrow> bool" where
  "part_ok n \<longleftrightarrow> buf_wf (pn_data n) \<and> buf_data (pn_data n) \<noteq> None \<and>
     buf_offset (pn_data n) + buf_suffix (pn_data n) < buf_capacity (pn_data n)"

definition pending_bytes :: "partial_frame list \<Rightarrow> nat" where
  "pending_bytes ns = sum_list (map (\<lambda>n. buf_size (pn_data n)) ns)"

definition pending_ok :: "video \<Rightarrow> bool" where
  "pending_ok v \<longleftrightarrow> buffer_ok (vd_buffer v) \<and> list_all part_ok (vd_partial v) \<and> length (vd_partial v) \<le> 256 \<and>
     pending_bytes (vd_partial v) \<le> 2 ^ 21 \<and> vd_codec v \<noteq> CodecOther \<and> length (vd_deferred v) \<le> 256 \<and> started_ok v"

definition balanced :: "video \<Rightarrow> bool" where
  "balanced v \<longleftrightarrow> (\<forall>t. surplus t v = 0)"

text \<open>An outcome that is safe: it keeps the bounds, the balance of the tickets and the ticket of the
  fragment being received.\<close>

definition fine :: "video \<Rightarrow> video \<Rightarrow> bool" where
  "fine v v' \<longleftrightarrow> pending_ok v' \<and> (\<forall>t. surplus t v' = surplus t v) \<and> vd_incoming v' = vd_incoming v \<and> vd_tracked v' = vd_tracked v"

lemma fine_trans: "fine v v1 \<Longrightarrow> fine v1 v2 \<Longrightarrow> fine v v2"
  by (simp add: fine_def)

lemma pending_ok_call [simp]: "pending_ok (call c v) = pending_ok v" "pending_ok (calls cs v) = pending_ok v"
  by (simp_all add: pending_ok_def started_ok_def)

lemma those_clear: "list_all part_ok ns \<Longrightarrow> those (map (\<lambda>n. IHS_BufferClear (pn_data n) True) ns) \<noteq> None"
proof (induction ns)
  case (Cons n ns)
  then have "buf_wf (pn_data n)" by (simp add: part_ok_def)
  from Clear_spec[OF this, of True] obtain b where "IHS_BufferClear (pn_data n) True = Some b" by metis
  then show ?case using Cons by auto
qed simp

lemma DiscardPending_safe:
  assumes "pending_ok v"
  obtains v' where "DiscardPending v = Some v'" "fine v v'" "vd_partial v' = []" "vd_contributed v' = vd_contributed v"
proof -
  obtain b where b: "IHS_BufferClear (vd_buffer v) False = Some b" "buffer_ok b"
    using clear_buffer_ok assms by (metis pending_ok_def)
  obtain y where y: "those (map (\<lambda>n. IHS_BufferClear (pn_data n) True) (vd_partial v)) = Some y"
    using those_clear assms by (auto simp: pending_ok_def)
  obtain v' where v': "DiscardPending v = Some v'" using b(1) y by (simp add: DiscardPending_def Let_def)
  note d = DiscardPending_shape[OF v']
  have "vd_buffer v' = b" using d(8) b(1) by simp
  then have "fine v v'" using d b(2) assms by (simp add: fine_def pending_ok_def started_ok_def pending_bytes_def)
  then show thesis using that v' d by blast
qed

lemma pending_bytes_simps [simp]: "pending_bytes [] = 0" "pending_bytes (n # ns) = buf_size (pn_data n) + pending_bytes ns"
  "pending_bytes (ns @ ms) = pending_bytes ns + pending_bytes ms"
  by (simp_all add: pending_bytes_def)

lemma insert_fragment_safe:
  assumes v: "pending_ok v" and d: "part_ok (new_node i hdr d)" and room: "length (vd_partial v) < 256" "pending_bytes (vd_partial v) + buf_size d \<le> 2 ^ 21"
  obtains d' v' where "insert_fragment env i ts hdr d v = Some (d', v')" "fine v v'" "d' = d \<or> buf_data d' = None \<and> buf_capacity d' = 0"
proof -
  let ?P = "\<lambda>cur. \<not> before_fragment i hdr cur"
  let ?pre = "takeWhile ?P (vd_partial v)" and ?post = "drop (length (takeWhile ?P (vd_partial v))) (vd_partial v)"
  have split: "vd_partial v = ?pre @ ?post" by (metis dropWhile_eq_drop takeWhile_dropWhile_id)
  have all: "list_all part_ok ?pre" "list_all part_ok ?post" and len: "length ?pre + length ?post = length (vd_partial v)"
    and sum: "pending_bytes ?pre + pending_bytes ?post = pending_bytes (vd_partial v)"
    using v split by (metis pending_ok_def list_all_append, metis pending_ok_def list_all_append, metis length_append, metis pending_bytes_simps(3))
  have node: "part_ok ((new_node i hdr d)\<lparr>pn_timestamp := ts, pn_ticket := x\<rparr>)" "part_ok ((new_node i hdr d)\<lparr>pn_timestamp := ts\<rparr>)" for x
    using d by (simp_all add: part_ok_def new_node_def)
  have put: "pending_ok (w\<lparr>vd_partial := ?pre @ n # ?post\<rparr>)"
    if "part_ok n" "pn_data n = d" "pending_ok w" for n w
    using that all len sum room by (simp add: pending_ok_def started_ok_def)
  have data: "buf_data d \<noteq> None" "pn_data ((new_node i hdr d)\<lparr>pn_timestamp := ts\<rparr>) = d" using d by (simp_all add: part_ok_def new_node_def)
  obtain d' v' where r: "insert_fragment env i ts hdr d v = Some (d', v')" "pending_ok v'" "vd_incoming v' = vd_incoming v" "vd_tracked v' = vd_tracked v"
      "d' = d \<or> buf_data d' = None \<and> buf_capacity d' = 0"
  proof (cases "ve_alloc env (length (vd_calls v))")
    case False
    then show thesis using that[of d "call Disconnected (call Allocate v)"] data v by (simp add: insert_fragment_def Let_def)
  next
    case True
    let ?dd = "d\<lparr>buf_data := None, buf_capacity := 0, buf_size := 0, buf_offset := 0\<rparr>" and ?w = "call Allocate v"
    let ?n = "(new_node i hdr d)\<lparr>pn_timestamp := ts\<rparr>"
    show thesis
    proof (cases "vd_incoming v")
      case None
      then show thesis using that[of ?dd "?w\<lparr>vd_partial := ?pre @ ?n # ?post\<rparr>"] True data v put[OF node(2) data(2)]
        by (simp add: insert_fragment_def Let_def)
    next
      case (Some t)
      show thesis
      proof (cases "ve_retain env (length (vd_calls ?w))")
        case True
        let ?v = "(call (Retained t) ?w)\<lparr>vd_partial := ?pre @ ?n\<lparr>pn_ticket := Some t\<rparr> # ?post, vd_contributed := True\<rparr>"
        have "pending_ok ?v" using put[OF node(1)[of "Some t"], of "call (Retained t) ?w"] v data by (simp add: pending_ok_def started_ok_def new_node_def)
        then show thesis using that[of ?dd ?v] \<open>ve_alloc env (length (vd_calls v))\<close> True data Some
          by (simp add: insert_fragment_def retain_ticket_def Let_def)
      next
        case False
        let ?v = "call Disconnected ((call (RetainFailed t) ?w)\<lparr>vd_partial := ?pre @ ?n # ?post\<rparr>)"
        have "pending_ok ?v" using put[OF node(2), of "call (RetainFailed t) ?w"] v data by simp
        then show thesis using that[of ?dd ?v] \<open>ve_alloc env (length (vd_calls v))\<close> False data Some
          by (simp add: insert_fragment_def retain_ticket_def Let_def)
      qed
    qed
  qed
  then show thesis using that insert_fragment_surplus[OF r(1)] by (auto simp: fine_def)
qed


lemma AddPartialFrame_safe:
  assumes v: "pending_ok v" and d: "part_ok (new_node i hdr d)"
  obtains d' v' where "AddPartialFrame env i ts hdr d v = Some (d', v')" "fine v v'" "d' = d \<or> buf_data d' = None \<and> buf_capacity d' = 0"
proof (cases "256 \<le> length (vd_partial v) \<or> 2 ^ 21 < buf_size d \<or> 2 ^ 21 - buf_size d < buf_size (vd_buffer v) + pending_bytes (vd_partial v)")
  case True
  obtain w where w: "DiscardPending v = Some w" "fine v w" using DiscardPending_safe[OF v] by metis
  let ?w = "w\<lparr>vd_waitingKeyFrame := True\<rparr>"
  let ?x = "call DataLost (call ReadClock ?w\<lparr>vd_lastRecoveryRequest := ve_now env (length (vd_calls ?w))\<rparr>)"
  have "fine v ?x" using w(2) by (simp add: fine_def pending_ok_def started_ok_def)
  moreover have "AddPartialFrame env i ts hdr d v = Some (d, ?x)"
    using True w(1) v by (simp add: AddPartialFrame_def read_clock_def Let_def pending_ok_def buffer_ok_def pending_bytes_def)
  ultimately show thesis using that by blast
next
  case False
  then have r: "length (vd_partial v) < 256" "pending_bytes (vd_partial v) + buf_size d \<le> 2 ^ 21" by auto
  have "AddPartialFrame env i ts hdr d v = insert_fragment env i ts hdr d v"
    using False v by (simp add: AddPartialFrame_def Let_def pending_ok_def buffer_ok_def pending_bytes_def)
  then show thesis using insert_fragment_safe[OF v d r] that by metis
qed

lemma step_fine:
  "pending_ok v \<Longrightarrow> same_rest v v' \<Longrightarrow> started_ok v' \<Longrightarrow> buffer_ok (vd_buffer v') \<Longrightarrow> fine v v'"
  by (simp add: fine_def pending_ok_def same_rest_def)

lemma AppendToFrameBuffer_safe:
  assumes v: "pending_ok v" and n: "part_ok n" and live: "live_alloc (ve_mem env)"
  obtains ok v' where "AppendToFrameBuffer env (pn_data n) hdr v = Some (ok, v')" "fine v v'" "same_rest v v'" "vd_frameStarted v' = vd_frameStarted v"
proof -
  let ?d = "pn_data n"
  have room: "0 < buf_capacity ?d - buf_offset ?d - buf_suffix ?d" and wf: "buf_wf ?d" using n by (auto simp: part_ok_def)
  from buf_load_content[OF wf room] obtain p where p: "IHS_BufferPointer ?d = Some p" "buf_load ?d p (buf_size ?d) = Some (buf_content ?d)"
    by (auto simp: bind_eq_Some_conv)
  have len: "length (buf_content ?d) = buf_size ?d" using length_buf_content[OF wf] .
  have b: "buffer_ok (vd_buffer v)" "buf_maxCapacity (vd_buffer v) = 2 ^ 21" using v by (auto simp: pending_ok_def buffer_ok_def)
  have codec: "append_codec env (buf_content ?d) hdr v = IHS_SessionVideoFrameAppendNAL (ve_mem env) (vd_buffer v) (buf_content ?d) (vh_flags hdr)"
    using v by (auto simp: append_codec_def pending_ok_def IHS_SessionVideoFrameAppendH264_def IHS_SessionVideoFrameAppendHEVC_def split: video_codec.split)
  have "\<exists>ok v'. AppendToFrameBuffer env ?d hdr v = Some (ok, v') \<and> buffer_ok (vd_buffer v')"
  proof (cases "(if has_flag hdr VideoFrameFlagNeedEscape then buf_size ?d * 3 div 2 + 5 else buf_size ?d) \<le> 2 ^ 21 - buf_size (vd_buffer v)")
    case True
    then obtain ok b' where "append_codec env (buf_content ?d) hdr v = Some (ok, b')" "buffer_ok b'"
      using AppendNAL_safe[OF b(1) live, where data = "buf_content ?d" and flags = "vh_flags hdr"] unfolding len codec by blast
    then show ?thesis using p b by (auto simp: AppendToFrameBuffer_def Let_def)
  next
    case False
    then have "2 ^ 21 - buf_size (vd_buffer v) < (if has_flag hdr VideoFrameFlagNeedEscape then buf_size ?d * 3 div 2 + 5 else buf_size ?d)" by simp
    then have "AppendToFrameBuffer env ?d hdr v = Some (False, v)" unfolding AppendToFrameBuffer_def Let_def b(2) by simp
    then show ?thesis using b(1) by blast
  qed
  then obtain ok v' where r: "AppendToFrameBuffer env ?d hdr v = Some (ok, v')" "buffer_ok (vd_buffer v')" by blast
  note k = AppendToFrameBuffer_keeps[OF r(1)]
  have "started_ok v'" using k v by (simp add: started_ok_def pending_ok_def)
  from that[OF r(1) step_fine[OF v k(1) this r(2)] k(1,2)] show thesis .
qed

lemma consume_safe:
  assumes v: "pending_ok v" "vd_partial v = n # ns"
  obtains v' where "consume n v = Some v'" "fine v v'" "vd_partial v' = ns"
proof -
  have n: "buf_wf (pn_data n)" using v by (simp add: pending_ok_def part_ok_def)
  obtain b where b: "IHS_BufferClear (pn_data n) True = Some b" using Clear_spec[OF n, of True] by metis
  let ?w = "case pn_ticket n of None \<Rightarrow> v | Some t \<Rightarrow> if Some t \<noteq> vd_assembly v then call (Abandoned t) v else v"
  let ?x = "calls (map Released (ticket_of n)) (?w\<lparr>vd_partial := ns\<rparr>)"
  have w: "vd_partial ?w = n # ns" "pending_ok ?w" "vd_incoming ?w = vd_incoming v" "vd_tracked ?w = vd_tracked v" "surplus t ?w = surplus t v" for t
    using v by (auto split: option.splits)
  have "consume n v = Some ?x" using b w(1) by (simp add: consume_def Let_def)
  moreover have "fine v ?x" using w by (auto simp: fine_def pending_ok_def started_ok_def)
  moreover have "vd_partial ?x = ns" by simp
  ultimately show thesis using that by blast
qed

lemma advance_fine: "pending_ok v \<Longrightarrow> fine v (advance_sub_frame n v) \<and> vd_partial (advance_sub_frame n v) = vd_partial v"
  by (auto simp: advance_sub_frame_def fine_def pending_ok_def started_ok_def)

lemma assemble_parts_safe:
  assumes "live_alloc (ve_mem env)" "pending_ok v" "vd_partial v = ns"
  shows "\<exists>ok v'. assemble_parts env ns v = Some (ok, v') \<and> fine v v'"
  using assms(2,3)
proof (induction ns arbitrary: v)
  case Nil
  then show ?case by (simp add: fine_def)
next
  case (Cons n ns)
  show ?case
  proof (cases "vd_frameFinished v \<or> \<not> sub_frame_due n v")
    case True
    then show ?thesis using Cons.prems by (auto simp: fine_def)
  next
    case go: False
    obtain ok1 v1 where s: "start_frame env n (advance_sub_frame n v) = (ok1, v1)" by fastforce
    note a = conjunct1[OF advance_fine[OF Cons.prems(1), of n]] and ap = conjunct2[OF advance_fine[OF Cons.prems(1), of n]]
    have ao: "pending_ok (advance_sub_frame n v)" using a by (simp add: fine_def)
    note k1 = start_frame_keeps[OF s]
    have "started_ok (advance_sub_frame n v)" "buffer_ok (vd_buffer (advance_sub_frame n v))" using ao by (simp_all add: pending_ok_def)
    with k1 have f1: "fine (advance_sub_frame n v) v1" "vd_partial v1 = n # ns" "vd_frameStarted v1"
      using step_fine[OF ao] ap Cons.prems(2) by (auto simp: started_ok_def same_rest_def)
    have p1: "pending_ok v1" and fv1: "fine v v1" using f1(1) fine_trans[OF a f1(1)] by (simp_all add: fine_def)
    show ?thesis
    proof (cases ok1)
      case False
      then show ?thesis using go s fv1 by auto
    next
      case ok1: True
      have n: "part_ok n" using p1 f1(2) by (simp add: pending_ok_def)
      obtain ok2 v2 where s2: "AppendToFrameBuffer env (pn_data n) (pn_header n) v1 = Some (ok2, v2)" "fine v1 v2" "same_rest v1 v2" "vd_frameStarted v2"
        using AppendToFrameBuffer_safe[OF p1 n assms(1)] f1(3) by metis
      have p2: "pending_ok v2" and fv2: "fine v v2" using s2(2) fine_trans[OF fv1 s2(2)] by (simp_all add: fine_def)
      show ?thesis
      proof (cases ok2)
        case False
        obtain v3 where d: "DiscardPending v2 = Some v3" "fine v2 v3" using DiscardPending_safe[OF p2] by metis
        have "fine v (call Disconnected v3)" using fine_trans[OF fv2 d(2)] by (simp add: fine_def)
        then show ?thesis using go s ok1 s2(1) False d(1) by auto
      next
        case ok2: True
        obtain ok3 v3 where s3: "finish_frame env n v2 = (ok3, v3)" by fastforce
        note k3 = finish_frame_keeps[OF s3]
        have f3: "fine v2 v3" "vd_partial v3 = n # ns"
          using step_fine[OF p2, of v3] k3 s2(3,4) f1(2) p2 by (auto simp: started_ok_def same_rest_def pending_ok_def)
        have p3: "pending_ok v3" and fv3: "fine v v3" using f3(1) fine_trans[OF fv2 f3(1)] by (simp_all add: fine_def)
        obtain v4 where c: "consume n v3 = Some v4" "fine v3 v4" "vd_partial v4 = ns" using consume_safe[OF p3 f3(2)] by metis
        have "pending_ok v4" using c(2) by (simp add: fine_def)
        from Cons.IH[OF this c(3)] obtain ok' v' where r: "assemble_parts env ns v4 = Some (ok', v')" "fine v4 v'" by blast
        show ?thesis
        proof (cases ok3)
          case True
          then show ?thesis using go s ok1 s2(1) ok2 s3 c(1) r(1) fine_trans[OF fv3 fine_trans[OF c(2) r(2)]] by auto
        next
          case False
          then show ?thesis using go s ok1 s2(1) ok2 s3 fv3 by auto
        qed
      qed
    qed
  qed
qed

section \<open>Decoder turns\<close>

text \<open>Steps that change neither storage nor tickets.\<close>

definition neutral :: "video \<Rightarrow> video \<Rightarrow> bool" where
  "neutral v v' \<longleftrightarrow> same_rest v v' \<and> vd_assembly v' = vd_assembly v \<and> vd_frameStarted v' = vd_frameStarted v \<and> vd_buffer v' = vd_buffer v"

lemma neutral_trans: "neutral v v1 \<Longrightarrow> neutral v1 v2 \<Longrightarrow> neutral v v2"
  by (simp add: neutral_def same_rest_def)

lemma neutral_refl: "neutral v v"
  by (simp add: neutral_def same_rest_def)

lemma neutral_call: "(\<And>t. weight t c = 0) \<Longrightarrow> neutral v (call c v)"
  by (simp add: neutral_def same_rest_def)

lemma neutral_fine: "pending_ok v \<Longrightarrow> neutral v v' \<Longrightarrow> fine v v'"
  by (auto simp: neutral_def pending_ok_def started_ok_def intro!: step_fine)

lemma feedback_neutral: "ApplyDecodeFeedback env r v = (ok, v') \<Longrightarrow> neutral v v'"
  by (auto simp: ApplyDecodeFeedback_def Let_def neutral_def same_rest_def split: if_splits)

lemma with_assembly_neutral: "(\<And>t a. weight t (c a) = 0) \<Longrightarrow> neutral v (with_assembly c v)"
  by (simp add: with_assembly_def neutral_refl neutral_call split: option.split)

lemma submit_neutral: "submit_to_decoder env i d fl v = (r, taken, v') \<Longrightarrow> neutral v v'"
  by (auto simp: submit_to_decoder_def neutral_refl intro!: neutral_call split: if_splits prod.splits)

lemma SubmitFrame_neutral: "neutral v (SubmitFrame env i d fl v)"
proof -
  let ?v1 = "if vd_tracked v then with_assembly (\<lambda>a. DecodeStage a False) (with_assembly (\<lambda>a. SetSize a (buf_size d)) v) else v"
  have 1: "neutral v ?v1" by (auto simp: neutral_refl intro!: neutral_trans[OF with_assembly_neutral with_assembly_neutral])
  obtain r taken v2 where s: "submit_to_decoder env i d fl ?v1 = (r, taken, v2)" by (metis prod_cases3)
  note 2 = submit_neutral[OF s]
  let ?v3 = "if vd_tracked v2 \<and> \<not> taken \<and> \<not> (r = 0 \<and> buf_size d = 0) then with_assembly Completed v2 else v2"
  have 3: "neutral v2 ?v3" by (auto simp: neutral_refl intro!: with_assembly_neutral)
  obtain ok v4 where f: "(if 0 < r \<and> r \<le> 7 then ApplyDecodeFeedback env (word_of_int r) ?v3 else (True, ?v3)) = (ok, v4)" by (metis surj_pair)
  have 4: "neutral ?v3 v4" using f feedback_neutral by (auto simp: neutral_refl split: if_splits)
  let ?v5 = "if \<not> ok \<or> r = -1 then call Disconnected v4 else v4"
  have 5: "neutral v4 ?v5" by (auto simp: neutral_refl intro!: neutral_call)
  let ?v6 = "if vd_tracked ?v5 then with_assembly (\<lambda>a. DecodeStage a True) ?v5 else ?v5"
  have 6: "neutral ?v5 ?v6" by (simp only: neutral_refl with_assembly_neutral weight.simps if_True if_False split: if_split) simp
  have "neutral v ?v6" by (rule neutral_trans[OF 1 neutral_trans[OF 2 neutral_trans[OF 3 neutral_trans[OF 4 neutral_trans[OF 5 6]]]]])
  moreover have "SubmitFrame env i d fl v = (if ve_decoder env then ?v6 else v)"
    using s f unfolding SubmitFrame_def Let_def by (simp only: prod.case if_not_P split: if_split) simp
  ultimately show ?thesis by (simp add: neutral_refl)
qed

lemma overflow_neutral: "neutral v (CheckPartialOverflow env v)"
  by (simp add: CheckPartialOverflow_def Let_def read_clock_def neutral_def same_rest_def)

lemma note_mode_neutral: "neutral v (note_mode v)"
  by (simp add: note_mode_def neutral_def same_rest_def)

lemma defer_frame_fine:
  assumes "pending_ok v" "defer_frame v = (r, v')"
  shows "fine v v'"
  using assms by (cases "vd_assembly v") (auto simp: defer_frame_def Let_def fine_def pending_ok_def started_ok_def split: if_splits)

lemma hand_frame_safe:
  assumes v: "pending_ok v"
  shows "\<exists>r v'. hand_frame env v = Some (r, v') \<and> fine v v'"
proof -
  let ?s = "SubmitFrame env (vd_assemblyId v) (vd_buffer v) (vd_flags v) v"
  have s: "fine v ?s" by (rule neutral_fine[OF v SubmitFrame_neutral])
  let ?w = "(with_assembly Released ?s)\<lparr>vd_assembly := None\<rparr>"
  have w: "fine ?s ?w" using s by (cases "vd_assembly ?s") (auto simp: with_assembly_def fine_def pending_ok_def started_ok_def)
  have bw: "buffer_ok (vd_buffer ?w)" using w by (simp add: fine_def pending_ok_def)
  obtain b where b: "IHS_BufferClear (vd_buffer ?w) False = Some b" "buffer_ok b" using clear_buffer_ok[OF bw] by metis
  let ?x = "?w\<lparr>vd_buffer := b, vd_hasPacketBuffers := False, vd_flags := 0, vd_frameFinished := False, vd_frameStarted := False\<rparr>"
  have wx: "fine ?w ?x" using w b(2) by (simp add: fine_def pending_ok_def started_ok_def)
  have x: "fine v ?x" by (rule fine_trans[OF s fine_trans[OF w wx]])
  have xp: "pending_ok ?x" using wx unfolding fine_def by blast
  have "fine v (CheckPartialOverflow env ?x)" by (rule fine_trans[OF x neutral_fine[OF xp overflow_neutral]])
  moreover have "hand_frame env v = Some (if vd_partial ?x \<noteq> [] then 1 else 0xFFFFFFFF, CheckPartialOverflow env ?x)"
    using b(1) by (simp add: hand_frame_def Let_def)
  ultimately show ?thesis by blast
qed

lemma DataThink_safe:
  assumes v: "pending_ok v" and live: "live_alloc (ve_mem env)"
  shows "\<exists>r v'. DataThink env v = Some (r, v') \<and> fine v v'"
proof -
  obtain ready w where a: "AssembleFrame env v = Some (ready, w)" "fine v w"
    using assemble_parts_safe[OF live v refl] by (auto simp: AssembleFrame_def)
  then have w: "pending_ok w" by (simp add: fine_def)
  note o = fine_trans[OF a(2) neutral_fine[OF w overflow_neutral[of w env]]]
  have m: "fine v (note_mode w)" by (rule fine_trans[OF a(2) neutral_fine[OF w note_mode_neutral]])
  then have nm: "pending_ok (note_mode w)" by (simp add: fine_def)
  obtain r v' where d: "defer_frame (note_mode w) = (r, v')" by fastforce
  note f = fine_trans[OF m defer_frame_fine[OF nm d]]
  obtain r2 v2 where h: "hand_frame env (note_mode w) = Some (r2, v2)" "fine v v2" using hand_frame_safe[OF nm, of env] fine_trans[OF m] by metis
  have "DataThink env v = Some (if \<not> ready then (0xFFFFFFFF, CheckPartialOverflow env w) else if vd_resetRequested (note_mode w) then (r, v') else (r2, v2))"
    using a(1) d h(1) by (simp add: DataThink_def Let_def)
  then show ?thesis using o f h(2) by (auto split: if_splits)
qed

section \<open>Received fragments\<close>

lemma decrypt_total:
  assumes cp: "working_crypto cp key" "length iv = 16" and len: "length inp = outLen" "outLen \<le> length out"
  shows "\<exists>r out' n. IHS_CryptoSymmetricDecryptWithIV cp inp iv key out outLen = Some (r, out', n) \<and> length out' = length out \<and> n \<le> outLen"
proof (cases "length inp < 16 \<or> length inp mod 16 \<noteq> 0")
  case True
  then show ?thesis
    using cp(2) by (auto simp: IHS_CryptoSymmetricDecryptWithIV_def CryptoAES_CBC_PKCS7Pad_def cbc_decrypt_pad_def)
next
  case False
  then obtain k where k: "length inp = 16 * k" "16 \<le> length inp" by (auto elim: dvdE)
  then have n: "length inp = 16 * (k - 1) + 16" by (cases k) auto
  from decrypt_pad_spec[OF cp n len(2)] n len(1) obtain out' where o: "length out' = length out"
    "IHS_CryptoSymmetricDecryptWithIV cp inp iv key out outLen =
      (case opened cp key iv inp of None \<Rightarrow> Some (-1, out', outLen)
       | Some p \<Rightarrow> if outLen < length p then Some (-1, out', outLen) else Some (0, out', length p))" by auto
  then show ?thesis by (cases "opened cp key iv inp") auto
qed

definition has_room :: "ihs_buffer \<Rightarrow> bool" where
  "has_room b \<longleftrightarrow> buf_wf b \<and> buf_data b \<noteq> None \<and> buf_offset b + buf_suffix b < buf_capacity b"

lemma room_part: "part_ok (new_node i hdr b) = has_room b"
  by (simp add: part_ok_def new_node_def has_room_def)

lemma decrypt_fragment_safe:
  assumes cp: "working_crypto cp key" and live: "live_alloc mem" and b: "has_room b"
  obtains plain where "decrypt_fragment cp key mem b = Some plain" "has_room plain"
proof -
  let ?n = "if buf_size b \<noteq> 0 then buf_size b else 1"
  have wf: "buf_wf b" and cap: "0 < buf_capacity b - buf_offset b - buf_suffix b" using b by (auto simp: has_room_def)
  have n63: "?n < 2 ^ 63" using buf_wf_bounds(1,2)[OF wf] by simp
  obtain e where e: "IHS_BufferEnsureMaxSizeExact mem (IHS_BufferInit 0 0) ?n = Some e" "buf_wf e" "buf_capacity e = ?n"
    "buf_offset e = 0" "buf_size e = 0" "buf_suffix e = 0"
  proof -
    have "sz_add (sz_add 0 ?n) 0 = ?n" using n63 by (simp add: sz_add_exact)
    then have x: "IHS_BufferEnsureMaxSizeExact mem (IHS_BufferInit 0 0) ?n = IHS_BufferEnsureCapacityExact mem (IHS_BufferInit 0 0) ?n"
      by (simp add: IHS_BufferEnsureMaxSizeExact_def IHS_BufferInit_def)
    obtain e where "IHS_BufferEnsureCapacityExact mem (IHS_BufferInit 0 0) ?n = Some e" "buf_wf e" "buf_capacity e = max ?n (buf_capacity (IHS_BufferInit 0 0))"
      "e = (IHS_BufferInit 0 0)\<lparr>buf_data := buf_data e, buf_capacity := buf_capacity e\<rparr>"
      using EnsureCapacityExact_grow[OF buf_wf_Init live n63, of 0 0] by (auto simp: IHS_BufferInit_def)
    note y = this
    have "buf_offset e = 0" "buf_size e = 0" "buf_suffix e = 0" using y(4) by (metis ihs_buffer.simps IHS_BufferInit_def)+
    then show thesis using that x y(1-3) by (simp add: IHS_BufferInit_def)
  qed
  from buf_load_content[OF wf cap] obtain p where p: "IHS_BufferPointer b = Some p" "buf_load b p (buf_size b) = Some (buf_content b)"
    by (auto simp: bind_eq_Some_conv)
  have len: "length (buf_content b) = buf_size b" using length_buf_content[OF wf] .
  have can: "can_hold e (buf_offset e + (buf_size e + length (buf_content b)) + buf_suffix e)" using e len by (simp add: can_hold_def grow_base_def)
  obtain q where q: "IHS_BufferAppendMem mem e (buf_content b) = Some q" "buf_wf q" "buf_frame e q" "buf_offset q = 0" "buf_size q = buf_size b"
  proof (rule AppendMem_spec[OF e(2) live can])
    show "buf_content b \<noteq> [] \<or> buf_offset e + buf_size e + buf_suffix e < buf_capacity e" using e by simp
  qed (use that e len in simp)
  have qc: "buf_suffix q = 0" "0 < buf_capacity q" using q(3) e by (auto simp: buf_frame_def split: if_splits)
  obtain xs where xs: "buf_data q = Some xs" "length xs = buf_capacity q" using buf_wf_block[OF q(2) qc(2)] .
  have qp: "IHS_BufferPointer q = Some 0" using PointerAt_in[OF q(2), of 0] q(4) qc by (simp add: IHS_BufferPointer_def)
  have sz: "buf_size b \<le> length xs" using buf_wf_bounds(1)[OF q(2)] q xs(2) by simp
  then have ql: "buf_load q 0 (buf_size q) = Some (take (buf_size b) xs)" using xs q(5) by (simp add: buf_load_def mem_read_def)
  obtain r rest m where d: "IHS_CryptoSymmetricDecryptWithIV cp (take (buf_size b) xs) (replicate 16 0) key xs (buf_size b) = Some (r, rest, m)"
    "length rest = length xs" "m \<le> buf_size b"
    using decrypt_total[OF cp, of "replicate 16 0" "take (buf_size b) xs" "buf_size b" xs] sz by auto
  have "decrypt_fragment cp key mem b = Some (q\<lparr>buf_data := Some rest, buf_size := m\<rparr>)"
    using e(1) p q(1,5) qp ql xs(1) d(1) by (simp add: decrypt_fragment_def)
  moreover have "has_room (q\<lparr>buf_data := Some rest, buf_size := m\<rparr>)"
    using q qc xs d by (auto simp: has_room_def buf_wf_def)
  ultimately show thesis using that by blast
qed

lemma key_frame_safe:
  assumes v: "pending_ok v"
  obtains v' where "key_frame env i hdr v = Some v'" "fine v v'"
proof (cases "has_flag hdr VideoFrameFlagKeyFrame")
  case True
  let ?gap = "unat (i - (vd_lastFrameId v + 1))"
  let ?w = "(if ve_stats env then calls (map (\<lambda>i. DroppedReset (vd_lastFrameId v + 1 + word_of_nat i)) [0..<?gap]) v else v)\<lparr>vd_lastFrameId := i - 1\<rparr>"
  have w: "fine v ?w" using v by (simp add: fine_def pending_ok_def started_ok_def)
  then have "pending_ok ?w" by (simp add: fine_def)
  from DiscardPending_safe[OF this] obtain x where x: "DiscardPending ?w = Some x" "fine ?w x" by metis
  let ?f = "if vd_tracked x \<and> ve_flush env then call FlushDecoder x\<lparr>vd_flags := vd_flags x OR 2\<rparr> else x"
  let ?y = "?f\<lparr>vd_waitingKeyFrame := False, vd_syncingBacklog := False, vd_overflowFrameSpan := 0, vd_expectedSequence := vh_sequence hdr\<rparr>"
  have f: "fine v ?y" using fine_trans[OF w x(2)] by (simp add: fine_def pending_ok_def started_ok_def)
  have "key_frame env i hdr v = Some ?y" using True x(1) by (simp add: key_frame_def Let_def)
  then show thesis using that f by blast
next
  case False
  then show thesis using that[of v] v by (simp add: key_frame_def fine_def)
qed

lemma check_sequence_neutral: "neutral v (check_sequence env hdr v)"
  by (simp add: check_sequence_def Let_def read_clock_def neutral_def same_rest_def)

lemma accept_fragment_safe:
  assumes v: "pending_ok v" and live: "live_alloc (ve_mem env)" and cp: "working_crypto cp key" and b: "has_room b"
  shows "\<exists>b' v'. accept_fragment env cp key i ts hdr b v = Some (b', v') \<and> fine v v'"
proof -
  obtain w where w: "key_frame env i hdr v = Some w" "fine v w" using key_frame_safe[OF v] .
  then have pw: "pending_ok w" by (simp add: fine_def)
  let ?x = "check_sequence env hdr w"
  have x: "fine v ?x" by (rule fine_trans[OF w(2) neutral_fine[OF pw check_sequence_neutral]])
  then have px: "pending_ok ?x" by (simp add: fine_def)
  obtain plain where p: "decrypt_fragment cp key (ve_mem env) b = Some plain" "has_room plain"
    using decrypt_fragment_safe[OF cp live b] .
  obtain d1 v1 where a1: "AddPartialFrame env i ts hdr plain ?x = Some (d1, v1)" "fine ?x v1" "d1 = plain \<or> buf_data d1 = None \<and> buf_capacity d1 = 0"
    using AddPartialFrame_safe[OF px] p(2) room_part by metis
  have "\<exists>c. IHS_BufferClear d1 True = Some c"
    using a1(3) p(2) by (auto simp: has_room_def IHS_BufferClear_def Let_def)
  moreover obtain d2 v2 where a2: "AddPartialFrame env i ts hdr b ?x = Some (d2, v2)" "fine ?x v2"
    using AddPartialFrame_safe[OF px] b room_part by metis
  ultimately show ?thesis
    using w(1) p(1) a1(1) a2(1) x fine_trans[OF x a1(2)] fine_trans[OF x a2(2)]
    by (auto simp: accept_fragment_def Let_def)
qed

text \<open>A received body is a buffer; one that holds nothing but the header has a byte of room behind it.\<close>

definition fragment_ok :: "ihs_buffer \<Rightarrow> bool" where
  "fragment_ok b \<longleftrightarrow> buf_wf b \<and> (buf_size b = 7 \<longrightarrow> buf_offset b + 7 + buf_suffix b < buf_capacity b)"

text \<open>Between events no fragment is being received.\<close>

definition idle :: "video \<Rightarrow> bool" where
  "idle v \<longleftrightarrow> pending_ok v \<and> balanced v \<and> vd_incoming v = None"

lemma idle_fine: "idle v \<Longrightarrow> fine v v' \<Longrightarrow> idle v'"
  by (simp add: idle_def fine_def balanced_def)

lemma parse_header:
  assumes "length d = 7"
  obtains hdr where "VideoFrameHeaderParse d = Some (hdr, 7)"
  using assms by (simp add: VideoFrameHeaderParse_def IHS_ReadUInt16LE_def mem_read_def)

lemma release_idle:
  assumes "pending_ok v" "balanced v"
  shows "idle (release_incoming v)"
  using assms by (cases "vd_incoming v") (auto simp: release_incoming_def idle_def balanced_def pending_ok_def started_ok_def)

lemma DataReceived_safe:
  assumes v: "idle v" and live: "live_alloc (ve_mem env)" and cp: "working_crypto cp key" and b: "fragment_ok b"
  shows "\<exists>b' v'. DataReceived env cp key i ts b v = Some (b', v') \<and> idle v'"
proof (cases "buf_size b < 7")
  case True
  then show ?thesis using v by (simp add: DataReceived_def)
next
  case False
  then have sz: "7 \<le> buf_size b" by simp
  have wf: "buf_wf b" using b by (simp add: fragment_ok_def)
  have cap: "0 < buf_capacity b - buf_offset b - buf_suffix b" using buf_wf_bounds(1)[OF wf] sz by linarith
  have "0 < buf_capacity b" using cap by linarith
  then obtain xs where xs: "buf_data b = Some xs" "length xs = buf_capacity b" using buf_wf_block[OF wf] by metis
  have p: "IHS_BufferPointer b = Some (buf_offset b)" using PointerAt_in[OF wf cap] by (simp add: IHS_BufferPointer_def)
  have fit: "buf_offset b + 7 \<le> length xs" using buf_wf_bounds(1)[OF wf] sz xs(2) by linarith
  then have l: "buf_load b (buf_offset b) 7 = Some (take 7 (drop (buf_offset b) xs))" by (simp add: buf_load_def xs(1) mem_read_def)
  have len7: "length (take 7 (drop (buf_offset b) xs)) = 7" using fit by simp
  obtain hdr where h: "VideoFrameHeaderParse (take 7 (drop (buf_offset b) xs)) = Some (hdr, 7)" using parse_header[OF len7] .
  let ?b = "b\<lparr>buf_offset := buf_offset b + 7, buf_size := buf_size b - 7\<rparr>"
  note o = OffsetBy_forward[OF wf sz]
  have room: "has_room ?b" using o(2) b xs(1) buf_wf_bounds(1)[OF wf] sz by (cases "buf_size b = 7") (auto simp: has_room_def fragment_ok_def)
  let ?v = "v\<lparr>vd_contributed := False\<rparr>"
  have pre: "DataReceived env cp key i ts b v =
     (if vd_tracked ?v then
        (case ve_begin env (length (vd_calls ?v)) of None \<Rightarrow> Some (?b, release_incoming (call Disconnected ?v))
         | Some t \<Rightarrow> do { (body, v) \<leftarrow> accept_fragment env cp key i ts hdr ?b (call (BeginInput t) ?v\<lparr>vd_incoming := Some t\<rparr>); Some (body, release_incoming v) })
      else do { (body, v) \<leftarrow> accept_fragment env cp key i ts hdr ?b ?v; Some (body, release_incoming v) })"
    using False p l h o(1) by (simp add: DataReceived_def Let_def)
  have acc: "\<exists>b' v'. do { (body, v) \<leftarrow> accept_fragment env cp key i ts hdr ?b w; Some (body, release_incoming v) } = Some (b', v') \<and> idle v'"
    if w: "pending_ok w" "balanced w" for w
    using accept_fragment_safe[OF w(1) live cp room, of i ts hdr] w(2) release_idle by (fastforce simp: fine_def balanced_def)
  have v': "pending_ok ?v" "balanced ?v" using v by (simp_all add: idle_def pending_ok_def started_ok_def balanced_def)
  show ?thesis
  proof (cases "vd_tracked ?v")
    case tr: True
    show ?thesis
    proof (cases "ve_begin env (length (vd_calls ?v))")
      case None
      have "idle (release_incoming (call Disconnected ?v))" using v' by (intro release_idle) (simp_all add: balanced_def)
      then show ?thesis using pre tr None by simp
    next
      case (Some t)
      have "pending_ok (call (BeginInput t) ?v\<lparr>vd_incoming := Some t\<rparr>)" "balanced (call (BeginInput t) ?v\<lparr>vd_incoming := Some t\<rparr>)"
        using v v' by (simp_all add: idle_def balanced_def pending_ok_def started_ok_def)
      from acc[OF this] show ?thesis unfolding pre using tr Some by simp
    qed
  next
    case False
    from acc[OF v'] show ?thesis unfolding pre using False by simp
  qed
qed

section \<open>Life cycle\<close>

lemma prepare_neutral: "prepare_decoder env v = (ok, v') \<Longrightarrow> neutral v v'"
  by (auto simp: prepare_decoder_def neutral_def same_rest_def split: if_splits)

lemma open_epoch_neutral: "open_epoch env v = (ok, v') \<Longrightarrow> neutral v v'"
  by (auto simp: open_epoch_def neutral_refl intro!: neutral_call split: if_splits)

lemma start_decoder_neutral: "start_decoder env v = (ok, v') \<Longrightarrow> neutral v v'"
  by (auto simp: start_decoder_def Let_def neutral_def same_rest_def split: if_splits)

lemma DataStart_neutral:
  assumes "DataStart env v = (ok, v')"
  shows "neutral v v'"
proof (cases "ve_invalid env \<or> \<not> ve_callbacks env")
  case True
  then show ?thesis using assms by (auto simp: DataStart_def neutral_refl intro!: neutral_call split: if_splits)
next
  case False
  obtain ok1 v1 where p: "prepare_decoder env v = (ok1, v1)" by fastforce
  obtain ok2 v2 where o: "open_epoch env v1 = (ok2, v2)" by fastforce
  obtain ok3 v3 where s: "start_decoder env v2 = (ok3, v3)" by fastforce
  note n1 = prepare_neutral[OF p] and n2 = open_epoch_neutral[OF o] and n3 = start_decoder_neutral[OF s]
  have "neutral v2 (call Disconnected v2)" "neutral v2 (v2\<lparr>vd_backendReady := True\<rparr>)" by (simp_all add: neutral_def same_rest_def)
  then show ?thesis using assms False p o s n1 neutral_trans[OF n1 neutral_trans[OF n2]] n3
    by (auto simp: DataStart_def split: if_splits)
qed

lemma DataStop_safe:
  assumes v: "pending_ok v"
  obtains v' where "DataStop env v = Some v'" "fine v v'" "vd_appStarted v \<Longrightarrow> vd_partial v' = [] \<and> vd_assembly v' = None \<and> vd_deferred v' = []"
proof (cases "vd_appStarted v")
  case True
  let ?w = "close_stream env (v\<lparr>vd_appStarted := False\<rparr>)"
  have w: "fine v ?w" using v by (simp add: close_stream_def fine_def pending_ok_def started_ok_def)
  then have "pending_ok ?w" by (simp add: fine_def)
  from DiscardPending_safe[OF this] obtain x where x: "DiscardPending ?w = Some x" "fine ?w x" by metis
  note sh = DiscardPending_shape(2,3,4)[OF x(1)]
  have fx: "fine v x" by (rule fine_trans[OF w x(2)])
  have "neutral x (stop_decoder env x)" by (simp add: stop_decoder_def Let_def read_clock_def neutral_def same_rest_def)
  then obtain v' where v': "DataStop env v = Some v'" "neutral x v'" using True x(1) by (simp add: DataStop_def)
  have "fine v v'" using fine_trans[OF fx neutral_fine[OF _ v'(2)]] fx by (simp add: fine_def)
  moreover have "vd_partial v' = [] \<and> vd_assembly v' = None \<and> vd_deferred v' = []" using v'(2) sh by (simp add: neutral_def same_rest_def)
  ultimately show thesis using that v'(1) by blast
next
  case False
  then show thesis using that[of v] v by (simp add: DataStop_def fine_def)
qed

lemma PendingReset_safe:
  assumes v: "pending_ok v"
  obtains v' where "IHS_SessionVideoHandlePendingReset env v = Some v'" "fine v v'"
proof (cases "ve_interrupted env (length (vd_calls v)) \<or> \<not> vd_resetRequested v \<or> \<not> vd_appStarted v")
  case True
  then show thesis using that[of v] v by (simp add: IHS_SessionVideoHandlePendingReset_def fine_def)
next
  case False
  have j: "pending_ok (call JoinWorker v)" "fine v (call JoinWorker v)" using v by (simp_all add: fine_def)
  obtain w where w: "DataStop env (call JoinWorker v) = Some w" "fine (call JoinWorker v) w" using DataStop_safe[OF j(1)] by metis
  have fw: "fine v w" by (rule fine_trans[OF j(2) w(2)])
  let ?w = "w\<lparr>vd_resetRequested := False\<rparr>"
  let ?x = "if vd_tracked ?w then ?w\<lparr>vd_nextEpoch := vd_nextEpoch ?w + 1, vd_epoch := vd_nextEpoch ?w + 1\<rparr> else ?w"
  obtain ok y where s: "DataStart env ?x = (ok, y)" by fastforce
  have nx: "neutral w ?w" "neutral w ?x" by (simp_all add: neutral_def same_rest_def)
  note ny = neutral_trans[OF nx(2) DataStart_neutral[OF s]]
  have ends: "neutral w (call Disconnected ?w)" "neutral y (call DataLost (call RestartWorker y))" by (simp_all add: neutral_def same_rest_def)
  let ?r = "if ve_interrupted env (length (vd_calls ?w)) then ?w
     else if vd_tracked ?w \<and> vd_nextEpoch ?w = 0xFFFFFFFFFFFFFFFF then call Disconnected ?w
     else if \<not> ok \<or> ve_interrupted env (length (vd_calls y)) then y else call DataLost (call RestartWorker y)"
  have "neutral w ?r" using nx(1) ny ends(1) neutral_trans[OF ny ends(2)] by (auto split: if_split)
  then have "fine v ?r" using fine_trans[OF fw neutral_fine] fw unfolding fine_def by blast
  moreover have "IHS_SessionVideoHandlePendingReset env v = Some ?r"
    using False w(1) s unfolding IHS_SessionVideoHandlePendingReset_def by (simp add: Let_def)
  ultimately show thesis using that by blast
qed

lemma Deinit_balances:
  assumes v: "idle v" "vd_appStarted v"
  shows "\<exists>v'. ChannelVideoDeinit env v = Some v' \<and> (\<forall>t. net t (vd_calls v') = 0)"
proof -
  let ?i = "DataInterrupt env False v"
  have i: "pending_ok ?i" "vd_appStarted ?i" "fine v ?i" using v by (simp_all add: DataInterrupt_def idle_def fine_def)
  obtain w where w: "DataStop env ?i = Some w" "fine ?i w" "vd_partial w = [] \<and> vd_assembly w = None \<and> vd_deferred w = []"
    using DataStop_safe[OF i(1)] i(2) by metis
  have iw: "idle w" by (rule idle_fine[OF idle_fine[OF v(1) i(3)] w(2)])
  then have bw: "buf_wf (vd_buffer w)" by (simp add: idle_def pending_ok_def buffer_ok_def)
  obtain b where b: "IHS_BufferClear (vd_buffer w) True = Some b" using Clear_spec[OF bw, of True] by metis
  have "ChannelVideoDeinit env v = Some (calls [] (w\<lparr>vd_buffer := b, vd_partial := []\<rparr>))"
    using w b by (simp add: ChannelVideoDeinit_def)
  moreover have "net t (vd_calls w) = 0" for t
    using iw w(3) by (auto simp: idle_def balanced_def surplus_def held_tickets_def)
  ultimately show ?thesis by (simp add: calls_def)
qed

end
