(* ===== verification/Video_Props.thy ===== *)
theory Video_Props
  imports Video_Safety
begin

text \<open>
  Runs of the video channel.  Any sequence of events is safe and keeps the references to frame tickets
  balanced, and a frame whose fragments are pending in order reaches the decoder as their concatenation.
\<close>

section \<open>Runs\<close>

text \<open>What happens to a channel: a fragment arrives, the worker takes a turn, the session handles pending
  resets and format requests, the host asks for a reset, and the decoder reports.\<close>

datatype video_event = Fragment u16 u32 ihs_buffer | Turn | PendingReset | FormatRequests | RequestReset | Feedback u64 u64 int

definition video_event_step :: "video_env \<Rightarrow> crypto \<Rightarrow> bytes \<Rightarrow> video_event \<Rightarrow> video \<Rightarrow> video option" where
  "video_event_step env cp key e v = (case e of
       Fragment i ts body \<Rightarrow> map_option snd (DataReceived env cp key i ts body v)
     | Turn \<Rightarrow> map_option snd (DataThink env v)
     | PendingReset \<Rightarrow> IHS_SessionVideoHandlePendingReset env v
     | FormatRequests \<Rightarrow> Some (IHS_SessionVideoHandleFormatRequests env v)
     | RequestReset \<Rightarrow> Some (IHS_SessionVideoRequestReset v)
     | Feedback s ep r \<Rightarrow> Some (snd (IHS_SessionVideoDecodeFeedback env s ep r v)))"

fun video_run :: "video_env \<Rightarrow> crypto \<Rightarrow> bytes \<Rightarrow> video_event list \<Rightarrow> video \<Rightarrow> video option" where
  "video_run env cp key [] v = Some v"
| "video_run env cp key (e # es) v = do { v \<leftarrow> video_event_step env cp key e v; video_run env cp key es v }"

definition event_ok :: "video_event \<Rightarrow> bool" where
  "event_ok e \<longleftrightarrow> (case e of Fragment i ts body \<Rightarrow> fragment_ok body | _ \<Rightarrow> True)"

lemma event_safe:
  assumes v: "idle v" and live: "live_alloc (ve_mem env)" and cp: "working_crypto cp key" and e: "event_ok e"
  obtains v' where "video_event_step env cp key e v = Some v'" "idle v'"
proof -
  have pv: "pending_ok v" using v by (simp add: idle_def)
  have n: "idle v'" if "neutral v v'" for v' using idle_fine[OF v neutral_fine[OF pv that]] .
  have "\<exists>v'. video_event_step env cp key e v = Some v' \<and> idle v'"
  proof (cases e)
    case (Fragment i ts b)
    then show ?thesis using DataReceived_safe[OF v live cp, of b i ts] e by (auto simp: video_event_step_def event_ok_def)
  next
    case Turn
    then show ?thesis using DataThink_safe[OF pv live] idle_fine[OF v] by (auto simp: video_event_step_def)
  next
    case PendingReset
    obtain v' where "IHS_SessionVideoHandlePendingReset env v = Some v'" "fine v v'" using PendingReset_safe[OF pv] .
    then show ?thesis using PendingReset idle_fine[OF v] by (auto simp: video_event_step_def)
  next
    case FormatRequests
    have "neutral v (IHS_SessionVideoHandleFormatRequests env v)"
      by (simp add: IHS_SessionVideoHandleFormatRequests_def neutral_def same_rest_def)
    then show ?thesis using FormatRequests n by (simp add: video_event_step_def)
  next
    case RequestReset
    have "neutral v (IHS_SessionVideoRequestReset v)" by (simp add: IHS_SessionVideoRequestReset_def neutral_def same_rest_def)
    then show ?thesis using RequestReset n by (simp add: video_event_step_def)
  next
    case (Feedback s ep r)
    obtain ok v' where f: "IHS_SessionVideoDecodeFeedback env s ep r v = (ok, v')" by fastforce
    then have "neutral v v'" using feedback_neutral by (auto simp: IHS_SessionVideoDecodeFeedback_def neutral_refl split: if_splits)
    then show ?thesis using Feedback f n by (simp add: video_event_step_def)
  qed
  then show thesis using that by blast
qed

lemma run_safe:
  assumes "live_alloc (ve_mem env)" "working_crypto cp key"
  shows "idle v \<Longrightarrow> list_all event_ok es \<Longrightarrow> \<exists>v'. video_run env cp key es v = Some v' \<and> idle v'"
proof (induction es arbitrary: v)
  case (Cons e es)
  obtain v1 where "video_event_step env cp key e v = Some v1" "idle v1" using event_safe[OF Cons.prems(1) assms] Cons.prems(2) by auto
  then show ?case using Cons.IH Cons.prems(2) by auto
qed simp

lemma Init_idle:
  assumes "alloc_law mem" "codec \<noteq> CodecOther" "ChannelVideoInit mem mutex codec codecLen tracked trackingId nextEpoch = Some v"
  shows "idle v"
proof -
  have l: "length block = 2097152" if "mem 2097152 = Some block" for block using assms(1) that by (simp add: alloc_law_def)
  have "\<exists>block. mem 2097152 = Some block \<and> vd_buffer v = (IHS_BufferInit (128 * 1024) (2048 * 1024))\<lparr>buf_data := Some block, buf_capacity := 2097152\<rparr> \<and>
      vd_codec v = codec \<and> vd_partial v = [] \<and> vd_assembly v = None \<and> vd_deferred v = [] \<and> vd_incoming v = None \<and> vd_calls v = []"
    using assms(3) by (auto simp: ChannelVideoInit_def Let_def bind_eq_Some_conv video_zero_def IHS_BufferInit_def split: if_splits)
  then show ?thesis using l assms(2)
    by (auto simp: idle_def pending_ok_def buffer_ok_def buf_wf_def IHS_BufferInit_def started_ok_def balanced_def surplus_def held_tickets_def)
qed

section \<open>A frame in order\<close>

text \<open>Fragments that carry raw data without a ticket, each due when its turn comes.\<close>

definition raw_part :: "partial_frame \<Rightarrow> bool" where
  "raw_part n \<longleftrightarrow> \<not> has_flag (pn_header n) VideoFrameFlagNeedEscape \<and> pn_ticket n = None"

definition next_slice :: "partial_frame \<Rightarrow> u32 \<Rightarrow> u32" where
  "next_slice n e =
     (if vh_subFrameEnd (pn_header n) \<noteq> 0 \<and> has_flag (pn_header n) VideoFrameFlagSubFrameAdvance
      then (if has_flag (pn_header n) VideoFrameFlagFrameFinish then 0 else ucast (vh_subFrameEnd (pn_header n)) + 1) else e)"

fun slices_due :: "u32 \<Rightarrow> partial_frame list \<Rightarrow> bool" where
  "slices_due e [] \<longleftrightarrow> True"
| "slices_due e (n # ns) \<longleftrightarrow> (vh_subFrameEnd (pn_header n) = 0 \<or> ucast (vh_subFrameStart (pn_header n)) = e) \<and> slices_due (next_slice n e) ns"

definition payload :: "partial_frame list \<Rightarrow> bytes" where
  "payload ns = concat (map (\<lambda>n. buf_content (pn_data n)) ns)"

text \<open>What the assembly of such fragments leaves alone.\<close>

definition same_session :: "video \<Rightarrow> video \<Rightarrow> bool" where
  "same_session v v' \<longleftrightarrow> vd_calls v' = vd_calls v \<and> vd_resetRequested v' = vd_resetRequested v \<and> vd_contentModeSeen v' = vd_contentModeSeen v \<and>
     vd_contentMode v' = vd_contentMode v \<and> vd_backendReady v' = vd_backendReady v \<and> vd_tracked v' = vd_tracked v \<and> vd_assembly v' = vd_assembly v"

definition raw_state :: "video \<Rightarrow> bool" where
  "raw_state v \<longleftrightarrow> pending_ok v \<and> \<not> vd_tracked v \<and> vd_assembly v = None \<and> \<not> vd_frameFinished v \<and>
     (vd_hasPacketBuffers v \<or> buf_size (vd_buffer v) = 0)"

lemma AppendNAL_raw:
  assumes b: "buffer_ok b" and live: "live_alloc mem" and fit: "buf_size b + length data \<le> 2 ^ 21" and raw: "flags AND VideoFrameFlagNeedEscape = 0"
  obtains b' where "IHS_SessionVideoFrameAppendNAL mem b data flags = Some (True, b')" "buffer_ok b'"
    "buf_content b' = buf_content b @ data" "buf_size b' = buf_size b + length data"
proof (cases "data = []")
  case True
  then show thesis using that[of b] raw b by (simp add: IHS_SessionVideoFrameAppendNAL_def)
next
  case False
  have wf: "buf_wf b" "buf_offset b = 0" "buf_suffix b = 0" "buf_capacity b = 2 ^ 21" "buf_maxCapacity b = 2 ^ 21"
    using b by (simp_all add: buffer_ok_def)
  have "can_hold b (buf_offset b + (buf_size b + length data) + buf_suffix b)"
    using fit wf by (simp add: can_hold_def grow_base_def)
  from AppendMem_spec[OF wf(1) live this] False obtain b' where
    r: "IHS_BufferAppendMem mem b data = Some b'" "buf_wf b'" "buf_frame b b'" "buf_offset b' = buf_offset b"
      "buf_size b' = buf_size b + length data" "buf_content b' = buf_content b @ data" by metis
  have "buf_capacity b' = 2 ^ 21" using r(2,3) wf by (auto simp: buf_frame_def buf_wf_def)
  then have "buffer_ok b'" using r wf by (auto simp: buffer_ok_def buf_frame_def buf_wf_def split: option.splits)
  then show thesis using that[of b'] raw False r by (simp add: IHS_SessionVideoFrameAppendNAL_def)
qed

lemma AppendToFrameBuffer_raw:
  assumes v: "raw_state v" and n: "part_ok n" "raw_part n" and live: "live_alloc (ve_mem env)"
    and fit: "buf_size (vd_buffer v) + buf_size (pn_data n) \<le> 2 ^ 21"
  obtains b fl where "AppendToFrameBuffer env (pn_data n) (pn_header n) v = Some (True, v\<lparr>vd_buffer := b, vd_hasPacketBuffers := True, vd_flags := fl\<rparr>)"
    "buffer_ok b" "buf_content b = buf_content (vd_buffer v) @ buf_content (pn_data n)" "buf_size b = buf_size (vd_buffer v) + buf_size (pn_data n)"
proof -
  let ?d = "pn_data n" and ?h = "pn_header n"
  have wf: "buf_wf ?d" and room: "0 < buf_capacity ?d - buf_offset ?d - buf_suffix ?d" using n(1) by (auto simp: part_ok_def)
  from buf_load_content[OF wf room] obtain p where p: "IHS_BufferPointer ?d = Some p" "buf_load ?d p (buf_size ?d) = Some (buf_content ?d)"
    by (auto simp: bind_eq_Some_conv)
  have len: "length (buf_content ?d) = buf_size ?d" using length_buf_content[OF wf] .
  have b: "buffer_ok (vd_buffer v)" "buf_maxCapacity (vd_buffer v) = 2 ^ 21" using v by (auto simp: raw_state_def pending_ok_def buffer_ok_def)
  have raw: "\<not> has_flag ?h VideoFrameFlagNeedEscape" using n(2) by (simp add: raw_part_def)
  then have raw': "vh_flags ?h AND VideoFrameFlagNeedEscape = 0" by simp
  obtain b' where b': "IHS_SessionVideoFrameAppendNAL (ve_mem env) (vd_buffer v) (buf_content ?d) (vh_flags ?h) = Some (True, b')" "buffer_ok b'"
    "buf_content b' = buf_content (vd_buffer v) @ buf_content ?d" "buf_size b' = buf_size (vd_buffer v) + buf_size ?d"
    using AppendNAL_raw[OF b(1) live _ raw'] fit unfolding len[symmetric] by metis
  have "append_codec env (buf_content ?d) ?h v = Some (True, b')"
    using b'(1) v by (auto simp: append_codec_def raw_state_def pending_ok_def IHS_SessionVideoFrameAppendH264_def IHS_SessionVideoFrameAppendHEVC_def split: video_codec.split)
  then have "AppendToFrameBuffer env ?d ?h v = Some (True, v\<lparr>vd_buffer := b', vd_hasPacketBuffers := True,
      vd_flags := (if has_flag ?h VideoFrameFlagKeyFrame then vd_flags v OR 1 else vd_flags v)\<rparr>)"
    using p raw b(2) fit v by (auto simp: AppendToFrameBuffer_def Let_def raw_state_def)
  then show thesis using that b'(2-4) by blast
qed

lemma raw_step:
  assumes v: "raw_state v" and n: "raw_part n" "sub_frame_due n v" and live: "live_alloc (ve_mem env)"
    and list: "vd_partial v = n # ns" and fit: "buf_size (vd_buffer v) + buf_size (pn_data n) \<le> 2 ^ 21"
  obtains v' where "assemble_parts env (n # ns) v = assemble_parts env ns v'" "same_session v v'" "vd_partial v' = ns" "pending_ok v'"
    "buf_content (vd_buffer v') = buf_content (vd_buffer v) @ buf_content (pn_data n)"
    "buf_size (vd_buffer v') = buf_size (vd_buffer v) + buf_size (pn_data n)" "vd_hasPacketBuffers v'"
    "vd_expectedSubFrameStart v' = next_slice n (vd_expectedSubFrameStart v)"
    "vd_frameFinished v' = has_flag (pn_header n) VideoFrameFlagFrameFinish"
    "has_flag (pn_header n) VideoFrameFlagFrameFinish \<Longrightarrow>
      vd_assemblyId v' = pn_frameId n \<and> vd_lastFrameId v' = pn_frameId n \<and> vd_frameContentMode v' = has_flag (pn_header n) VideoFrameFlagContentMode"
proof -
  let ?fin = "has_flag (pn_header n) VideoFrameFlagFrameFinish"
  have f: "pending_ok v" "\<not> vd_tracked v" "vd_assembly v = None" "\<not> vd_frameFinished v" "pn_ticket n = None"
    using v n(1) by (simp_all add: raw_state_def raw_part_def)
  let ?a = "advance_sub_frame n v"
  obtain v1 where s: "start_frame env n ?a = (True, v1)"
    and v1: "raw_state v1" "vd_partial v1 = n # ns" "vd_buffer v1 = vd_buffer v" "same_session v v1"
      "vd_expectedSubFrameStart v1 = next_slice n (vd_expectedSubFrameStart v)" "vd_frameStarted v1"
  proof (rule that)
    let ?v1 = "if vd_frameStarted ?a then ?a else ?a\<lparr>vd_frameStarted := True, vd_assemblyId := pn_frameId n\<rparr>"
    show "start_frame env n ?a = (True, ?v1)" using f(5) by (simp add: start_frame_def Let_def)
  qed (use v list in \<open>simp_all add: advance_sub_frame_def raw_state_def pending_ok_def started_ok_def same_session_def next_slice_def\<close>)
  have pn: "part_ok n" using f(1) list by (simp add: pending_ok_def)
  have fit1: "buf_size (vd_buffer v1) + buf_size (pn_data n) \<le> 2 ^ 21" using fit unfolding v1(3) .
  obtain b fl where ap: "AppendToFrameBuffer env (pn_data n) (pn_header n) v1 = Some (True, v1\<lparr>vd_buffer := b, vd_hasPacketBuffers := True, vd_flags := fl\<rparr>)"
    "buffer_ok b" "buf_content b = buf_content (vd_buffer v) @ buf_content (pn_data n)" "buf_size b = buf_size (vd_buffer v) + buf_size (pn_data n)"
    using AppendToFrameBuffer_raw[OF v1(1) pn n(1) live fit1] unfolding v1(3) by metis
  let ?v2 = "v1\<lparr>vd_buffer := b, vd_hasPacketBuffers := True, vd_flags := fl\<rparr>"
  let ?v3 = "if ?fin then ?v2\<lparr>vd_lastFrameId := pn_frameId n, vd_assemblyId := pn_frameId n,
    vd_frameContentMode := has_flag (pn_header n) VideoFrameFlagContentMode, vd_frameFinished := True\<rparr> else ?v2"
  have p2: "pending_ok ?v2" "\<not> vd_tracked ?v2" "vd_assembly ?v2 = None" "vd_partial ?v2 = n # ns" "same_session v ?v2" "\<not> vd_frameFinished ?v2"
    using v1 ap(2) by (simp_all add: raw_state_def pending_ok_def started_ok_def same_session_def)
  have fi: "finish_frame env n ?v2 = (True, ?v3)"
    using p2(2,3) by (simp add: finish_frame_def take_over_def Let_def calls_def)
  have "IHS_BufferClear (pn_data n) True \<noteq> None" using pn by (auto simp: part_ok_def IHS_BufferClear_def Let_def)
  then have c: "consume n ?v3 = Some (?v3\<lparr>vd_partial := ns\<rparr>)"
    using f(5) p2(4) by (auto simp: consume_def ticket_of_def calls_def split: if_splits)
  show thesis
  proof (rule that[of "?v3\<lparr>vd_partial := ns\<rparr>"])
    show "assemble_parts env (n # ns) v = assemble_parts env ns (?v3\<lparr>vd_partial := ns\<rparr>)"
      using f(4) n(2) s ap(1) fi c by simp
  qed (use p2 ap v1(5) in \<open>simp_all add: same_session_def pending_ok_def started_ok_def\<close>)
qed

abbreviation finishes :: "partial_frame \<Rightarrow> bool" where
  "finishes n \<equiv> has_flag (pn_header n) VideoFrameFlagFrameFinish"

lemma payload_simps [simp]: "payload [] = []" "payload (n # ns) = buf_content (pn_data n) @ payload ns"
  by (simp_all add: payload_def)

lemma finished_stops: "vd_frameFinished v \<Longrightarrow> assemble_parts env ns v = Some (True, v)"
  by (cases ns) simp_all

lemma raw_assembly:
  assumes live: "live_alloc (ve_mem env)"
  shows "raw_state v \<Longrightarrow> vd_partial v = ns @ n # rest \<Longrightarrow> list_all raw_part (ns @ [n]) \<Longrightarrow> list_all (\<lambda>m. \<not> finishes m) ns \<Longrightarrow> finishes n \<Longrightarrow>
    slices_due (vd_expectedSubFrameStart v) (ns @ [n]) \<Longrightarrow> buf_size (vd_buffer v) + pending_bytes (ns @ [n]) \<le> 2 ^ 21 \<Longrightarrow>
    \<exists>v'. assemble_parts env (ns @ n # rest) v = Some (True, v') \<and> same_session v v' \<and> vd_partial v' = rest \<and> pending_ok v' \<and>
      buf_content (vd_buffer v') = buf_content (vd_buffer v) @ payload (ns @ [n]) \<and> vd_assemblyId v' = pn_frameId n \<and>
      vd_frameContentMode v' = has_flag (pn_header n) VideoFrameFlagContentMode"
proof (induction ns arbitrary: v)
  case Nil
  have raw: "raw_part n" and due: "sub_frame_due n v" and fit: "buf_size (vd_buffer v) + buf_size (pn_data n) \<le> 2 ^ 21"
    and list: "vd_partial v = n # rest"
    using Nil.prems by (simp_all add: sub_frame_due_def)
  from raw_step[OF Nil.prems(1) raw due live list fit] obtain v' where
    "assemble_parts env (n # rest) v = assemble_parts env rest v'" "same_session v v'" "vd_partial v' = rest" "pending_ok v'"
    "buf_content (vd_buffer v') = buf_content (vd_buffer v) @ buf_content (pn_data n)" "vd_frameFinished v' = finishes n"
    "finishes n \<Longrightarrow> vd_assemblyId v' = pn_frameId n \<and> vd_lastFrameId v' = pn_frameId n \<and> vd_frameContentMode v' = has_flag (pn_header n) VideoFrameFlagContentMode"
    by metis
  then show ?case using Nil.prems(5) finished_stops by auto
next
  case (Cons m ns)
  have raw: "raw_part m" and due: "sub_frame_due m v" and fit: "buf_size (vd_buffer v) + buf_size (pn_data m) \<le> 2 ^ 21"
    and list: "vd_partial v = m # ns @ n # rest"
    using Cons.prems by (simp_all add: sub_frame_due_def)
  from raw_step[OF Cons.prems(1) raw due live list fit] obtain w where w:
    "assemble_parts env (m # ns @ n # rest) v = assemble_parts env (ns @ n # rest) w" "same_session v w" "vd_partial w = ns @ n # rest" "pending_ok w"
    "buf_content (vd_buffer w) = buf_content (vd_buffer v) @ buf_content (pn_data m)"
    "buf_size (vd_buffer w) = buf_size (vd_buffer v) + buf_size (pn_data m)" "vd_hasPacketBuffers w"
    "vd_expectedSubFrameStart w = next_slice m (vd_expectedSubFrameStart v)" "vd_frameFinished w = finishes m"
    by metis
  have "raw_state w" using w(2,4,7,9) Cons.prems(1,4) by (simp add: raw_state_def same_session_def)
  moreover have "list_all raw_part (ns @ [n])" "list_all (\<lambda>m. \<not> finishes m) ns" "slices_due (vd_expectedSubFrameStart w) (ns @ [n])"
    "buf_size (vd_buffer w) + pending_bytes (ns @ [n]) \<le> 2 ^ 21"
    using Cons.prems(3,4,6,7) w(6,8) by simp_all
  ultimately obtain v' where v': "assemble_parts env (ns @ n # rest) w = Some (True, v')" "same_session w v'" "vd_partial v' = rest" "pending_ok v'"
    "buf_content (vd_buffer v') = buf_content (vd_buffer w) @ payload (ns @ [n])" "vd_assemblyId v' = pn_frameId n"
    "vd_frameContentMode v' = has_flag (pn_header n) VideoFrameFlagContentMode"
    using Cons.IH[of w] w(3) Cons.prems(5) by blast
  have "same_session v v'" using w(2) v'(2) by (simp add: same_session_def)
  then show ?case using w(1,5) v' by simp
qed

text \<open>The log of calls only grows.\<close>

definition grows :: "video \<Rightarrow> video \<Rightarrow> bool" where
  "grows v v' \<longleftrightarrow> (\<exists>tail. vd_calls v' = vd_calls v @ tail)"

lemma grows_trans: "grows v v1 \<Longrightarrow> grows v1 v2 \<Longrightarrow> grows v v2"
  by (auto simp: grows_def)

lemma grows_refl: "grows v v" and grows_call: "grows v (call c v)"
  by (simp_all add: grows_def call_def)

lemma feedback_grows: "ApplyDecodeFeedback env r v = (ok, v') \<Longrightarrow> grows v v'"
  by (auto simp: ApplyDecodeFeedback_def Let_def grows_def call_def split: if_splits)

lemma overflow_grows: "grows v (CheckPartialOverflow env v)"
  by (simp add: CheckPartialOverflow_def Let_def read_clock_def grows_def call_def)

lemma SubmitFrame_untracked:
  assumes "\<not> vd_tracked v" "ve_decoder env" "vd_backendReady v"
  shows "grows (call (Submit i (buf_content d) fl) v) (SubmitFrame env i d fl v)"
proof -
  let ?w = "call (Submit i (buf_content d) fl) v"
  obtain r taken where s: "ve_submit env (length (vd_calls v)) = (r, taken)" by fastforce
  obtain ok w where f: "(if 0 < r \<and> r \<le> 7 then ApplyDecodeFeedback env (word_of_int r) ?w else (True, ?w)) = (ok, w)" by (metis surj_pair)
  have gw: "grows ?w w" "neutral ?w w" using f feedback_grows feedback_neutral by (auto simp: grows_refl neutral_refl split: if_splits)
  then have un: "\<not> vd_tracked ?w" "\<not> vd_tracked (if \<not> ok \<or> r = -1 then call Disconnected w else w)"
    using assms(1) by (simp_all add: neutral_def same_rest_def)
  have sub: "submit_to_decoder env i d fl v = (r, taken, ?w)" using assms(3) s by (simp add: submit_to_decoder_def)
  have "SubmitFrame env i d fl v = (if \<not> ok \<or> r = -1 then call Disconnected w else w)"
    by (simp only: SubmitFrame_def Let_def assms(1,2) sub un f prod.case simp_thms if_True if_False)
  then show ?thesis using gw(1) grows_trans[OF gw(1) grows_call] by simp
qed

lemma hand_frame_untracked:
  assumes v: "pending_ok v" "\<not> vd_tracked v" "vd_assembly v = None" "ve_decoder env" "vd_backendReady v"
  shows "\<exists>r v'. hand_frame env v = Some (r, v') \<and> vd_partial v' = vd_partial v \<and>
    grows (call (Submit (vd_assemblyId v) (buf_content (vd_buffer v)) (vd_flags v)) v) v'"
proof -
  let ?s = "SubmitFrame env (vd_assemblyId v) (vd_buffer v) (vd_flags v) v"
  note n = SubmitFrame_neutral[of v env "vd_assemblyId v" "vd_buffer v" "vd_flags v"]
  have a: "vd_assembly ?s = None" "vd_partial ?s = vd_partial v" "vd_buffer ?s = vd_buffer v" using n v(3) by (simp_all add: neutral_def same_rest_def)
  have bo: "buffer_ok (vd_buffer v)" using v(1) by (simp add: pending_ok_def)
  obtain b where b: "IHS_BufferClear (vd_buffer v) False = Some b" using clear_buffer_ok[OF bo] by metis
  let ?x = "?s\<lparr>vd_assembly := None, vd_buffer := b, vd_hasPacketBuffers := False, vd_flags := 0, vd_frameFinished := False, vd_frameStarted := False\<rparr>"
  have "hand_frame env v = Some (if vd_partial ?x \<noteq> [] then 1 else 0xFFFFFFFF, CheckPartialOverflow env ?x)"
    using a b by (simp add: hand_frame_def Let_def with_assembly_def)
  moreover have "vd_partial (CheckPartialOverflow env ?x) = vd_partial v" using overflow_neutral[of ?x env] a(2) by (simp add: neutral_def same_rest_def)
  moreover have "grows (call (Submit (vd_assemblyId v) (buf_content (vd_buffer v)) (vd_flags v)) v) (CheckPartialOverflow env ?x)"
  proof (rule grows_trans[OF SubmitFrame_untracked[OF v(2,4,5)]], rule grows_trans[OF _ overflow_grows])
    show "grows ?s ?x" by (simp add: grows_def)
  qed
  ultimately show ?thesis by blast
qed

section \<open>A fragment that fills its block\<close>

text \<open>The condition of \<open>fragment_ok\<close> matters: the pointer to the data of an empty fragment is formed even
  though nothing is read, and the assertion on it fails when the fragment ends where its block ends.\<close>

lemma empty_fragment_aborts:
  assumes d: "buf_wf d" "buf_size d = 0" "buf_capacity d = buf_offset d + buf_suffix d" and raw: "\<not> has_flag hdr VideoFrameFlagNeedEscape"
    and b: "vd_hasPacketBuffers v \<or> buf_size (vd_buffer v) = 0"
  shows "AppendToFrameBuffer env d hdr v = None"
proof -
  have "IHS_BufferMaxSize d = 0" using MaxSize_exact[OF d(1)] d(3) by simp
  then have "IHS_BufferPointer d = None" by (simp add: IHS_BufferPointer_def IHS_BufferPointerAt_def)
  then show ?thesis using b d(2) raw by (auto simp: AppendToFrameBuffer_def Let_def)
qed

section \<open>Properties\<close>


definition demo_video_env :: video_env where
  "demo_video_env = \<lparr>ve_mem = zero_mem, ve_now = (\<lambda>n. word_of_nat n), ve_alloc = (\<lambda>_. True), ve_retain = (\<lambda>n. n mod 3 \<noteq> 0),
     ve_begin = (\<lambda>n. Some n), ve_submit = (\<lambda>n. (3, False)), ve_disable = (\<lambda>_. True), ve_decoder = True, ve_flush = True,
     ve_stats = True, ve_invalid = False, ve_callbacks = True, ve_has_prepare = True, ve_prepare = (\<lambda>_. 0), ve_tracker = True,
     ve_open = (\<lambda>_. True), ve_has_start = True, ve_start = (\<lambda>_. 0), ve_reports = False, ve_has_stop = True,
     ve_has_interrupt = True, ve_has_think = True, ve_interrupted = (\<lambda>_. False)\<rparr>"

definition demo_events :: "video_event list" where
  "demo_events = [Fragment 1 0 (IHS_BUFFER_WRAP [0, 0, 27, 0, 0, 0, 0, 65]), Fragment 2 900 (IHS_BUFFER_WRAP [1, 0, 32, 0, 0, 0, 0, 1, 2, 3]),
     Turn, PendingReset, Fragment 3 0 (IHS_BUFFER_WRAP [7]), Turn]"



definition demo_part :: "u16 \<Rightarrow> u8 \<Rightarrow> bytes \<Rightarrow> partial_frame" where
  "demo_part i flags d = new_node i \<lparr>vh_sequence = 0, vh_flags = flags, vh_subFrameStart = 0, vh_subFrameEnd = 0\<rparr> (IHS_BUFFER_WRAP d)"

definition demo_video :: video where
  "demo_video = video_zero\<lparr>vd_codec := CodecH264, vd_backendReady := True,
     vd_buffer := (IHS_BufferInit (128 * 1024) (2048 * 1024))\<lparr>buf_data := Some (replicate 2097152 0), buf_capacity := 2097152\<rparr>,
     vd_partial := [demo_part 4 16 [1, 2], demo_part 4 8 [3], demo_part 5 0 [9]]\<rparr>"


text \<open>A body of seven bytes in a block of seven bytes passes the reception and fails in the worker.\<close>

lemma empty_fragment_aborts_example:
  "video_run demo_video_env demo_crypto [1] [Fragment 1 0 (IHS_BUFFER_WRAP [0, 0, 24, 0, 0, 0, 0]), Turn] (demo_video\<lparr>vd_partial := []\<rparr>) = None"
proof -
  note defs = demo_video_def video_zero_def IHS_BUFFER_WRAP_def IHS_BufferInit_def demo_video_env_def
  note flags = VideoFrameFlagKeyFrame_def VideoFrameFlagEncrypted_def VideoFrameFlagNeedEscape_def VideoFrameFlagSubFrameAdvance_def
  let ?h = "\<lparr>vh_sequence = 0, vh_flags = 24, vh_subFrameStart = 0, vh_subFrameEnd = 0\<rparr> :: video_header"
  let ?b = "IHS_BUFFER_WRAP [0, 0, 24, 0, 0, 0, 0]"
  let ?d = "?b\<lparr>buf_offset := 7, buf_size := 0\<rparr>"
  have wf: "buf_wf ?b" by (simp add: buf_wf_def IHS_BUFFER_WRAP_def)
  have p: "IHS_BufferPointer ?b = Some 0" using PointerAt_in[OF wf, of 0] by (simp add: IHS_BufferPointer_def IHS_BUFFER_WRAP_def)
  have o: "IHS_BufferOffsetBy ?b (int 7) = Some ?d" using OffsetBy_forward(1)[OF wf, of 7] by (simp add: IHS_BUFFER_WRAP_def)
  have h: "VideoFrameHeaderParse [0, 0, 24, 0, 0, 0, 0] = Some (?h, 7)"
    by (simp add: VideoFrameHeaderParse_def IHS_ReadUInt16LE_def mem_read_def)
  have l: "buf_load ?b 0 7 = Some [0, 0, 24, 0, 0, 0, 0]" by (simp add: buf_load_def mem_read_def IHS_BUFFER_WRAP_def)
  obtain v where r: "DataReceived demo_video_env demo_crypto [1] 1 0 ?b (demo_video\<lparr>vd_partial := []\<rparr>) = Some (?d\<lparr>buf_data := None, buf_capacity := 0, buf_size := 0, buf_offset := 0\<rparr>, v)"
    and v: "vd_partial v = [(new_node 1 ?h ?d)\<lparr>pn_timestamp := 0\<rparr>]" "\<not> vd_frameFinished v" "\<not> vd_frameStarted v" "buf_size (vd_buffer v) = 0"
    using p o h l
    by (simp add: DataReceived_def accept_fragment_def key_frame_def DiscardPending_def check_sequence_def AddPartialFrame_def insert_fragment_def
        read_clock_def release_incoming_def call_def calls_def defs flags Let_def IHS_BufferClear_def)
  have "buf_wf ?d" using OffsetBy_forward(2)[OF wf, of 7] by (simp add: IHS_BUFFER_WRAP_def)
  then have a: "AppendToFrameBuffer demo_video_env ?d ?h w = None" if "buf_size (vd_buffer w) = 0" for w
    using that by (intro empty_fragment_aborts) (simp_all add: IHS_BUFFER_WRAP_def flags)
  have "AssembleFrame demo_video_env v = None"
    using v a by (simp add: AssembleFrame_def sub_frame_due_def advance_sub_frame_def start_frame_def new_node_def Let_def)
  then show ?thesis using r by (simp add: video_event_step_def DataThink_def)
qed

end
