(* ===== verification/Frame_Tracker.thy ===== *)
theory Frame_Tracker
  imports Prelude
begin

text \<open>
  The tracker of video frames and its tickets (\<^verbatim>\<open>session/frame_tracker.c\<close>): records in blocks of 256,
  reference counts on records and on the tracker, the publication state of a record, epochs, the
  collection of statistics and the settling of finished and expired frames.

  A ticket is the position of its record in the list of all blocks; \<open>ft_freed\<close> says that the memory has been
  given back.  Every operation is one step: those that take the lock are, and the others consist of
  compare-and-swap loops on single words.  Only claiming and publishing, which other threads may
  come between, are separate.  Clock readings and the success of an allocation are arguments.
  \<^term>\<open>None\<close> is a failing assertion or an access to freed memory.
\<close>

section \<open>Data\<close>

datatype publication = PubOpen | PubClaimed | PubReady | PubExpired | PubClosed

datatype begin_result = BeginOK | BeginStale | BeginAmbiguous | BeginCapacity | BeginClosed | BeginExhausted

record frame_identity =
  id_sessionId :: u64
  id_epoch :: u64
  id_receiveSerial :: u64
  id_slotVersion :: u64
  id_wireSequence :: u64
  id_frameId :: u16

record frame_receive =
  fr_firstReceiveUs :: u64
  fr_lastReceiveUs :: u64
  fr_senderFrameTimestamp :: u32
  fr_senderSendTimestamp :: u32
  fr_receiveTimestamp :: u32
  fr_frameSize :: u32
  fr_inputMark :: u16
  fr_inputReceived :: u32

record frame_outcome =
  oc_result :: int
  oc_completionUs :: u64
  oc_uploadBeginUs :: u64
  oc_uploadEndUs :: u64
  oc_presentationSerial :: u64
  oc_presentationIntervalUs :: u64
  oc_hasUpload :: bool
  oc_hasPresentationInterval :: bool

record tracked_frame =
  tf_identity :: frame_identity
  tf_receive :: frame_receive
  tf_decodeBeginUs :: u64
  tf_decodeEndUs :: u64
  tf_hasDecodeBegin :: bool
  tf_hasDecodeEnd :: bool
  tf_uploadBeginUs :: u64
  tf_uploadEndUs :: u64
  tf_hasUploadBegin :: bool
  tf_hasUploadEnd :: bool
  tf_statsComplete :: bool
  tf_completionSerial :: u64
  tf_completionTimestamp :: u32
  tf_outcome :: frame_outcome

record frame_ticket =
  tk_refs :: u32
  tk_publication :: publication
  tk_occupied :: bool
  tk_settled :: bool
  tk_input :: bool
  tk_frame :: tracked_frame
  tk_payload :: frame_outcome
  tk_completionSerial :: u64
  tk_completionTimestamp :: u32
  tk_statsConsumed :: bool
  tk_statsReusable :: bool
  tk_hasVideoTimestamp :: bool
  tk_videoTimestamp :: u32
  tk_videoDecodeActive :: bool
  tk_videoDecodeEnded :: bool

record frame_tracker =
  ft_refs :: u32
  ft_completions :: u64
  ft_sessionId :: u64
  ft_epoch :: u64
  ft_serial :: u64
  ft_highestSequence :: u64
  ft_accepting :: bool
  ft_haveSequence :: bool
  ft_statsTracking :: bool
  ft_seen :: "u64 list"
  ft_seenValid :: "bool list"
  ft_records :: "frame_ticket list"
  ft_storageCapacity :: nat
  ft_freed :: bool

definition zero_outcome :: frame_outcome where
  "zero_outcome = \<lparr>oc_result = 0, oc_completionUs = 0, oc_uploadBeginUs = 0, oc_uploadEndUs = 0, oc_presentationSerial = 0,
     oc_presentationIntervalUs = 0, oc_hasUpload = False, oc_hasPresentationInterval = False\<rparr>"

definition new_frame :: "frame_identity \<Rightarrow> frame_receive \<Rightarrow> tracked_frame" where
  "new_frame identity receive = \<lparr>tf_identity = identity, tf_receive = receive, tf_decodeBeginUs = 0, tf_decodeEndUs = 0,
     tf_hasDecodeBegin = False, tf_hasDecodeEnd = False, tf_uploadBeginUs = 0, tf_uploadEndUs = 0, tf_hasUploadBegin = False,
     tf_hasUploadEnd = False, tf_statsComplete = False, tf_completionSerial = 0, tf_completionTimestamp = 0,
     tf_outcome = zero_outcome\<rparr>"

definition zero_receive :: frame_receive where
  "zero_receive = \<lparr>fr_firstReceiveUs = 0, fr_lastReceiveUs = 0, fr_senderFrameTimestamp = 0, fr_senderSendTimestamp = 0,
     fr_receiveTimestamp = 0, fr_frameSize = 0, fr_inputMark = 0, fr_inputReceived = 0\<rparr>"

definition zero_identity :: frame_identity where
  "zero_identity = \<lparr>id_sessionId = 0, id_epoch = 0, id_receiveSerial = 0, id_slotVersion = 0, id_wireSequence = 0, id_frameId = 0\<rparr>"

definition new_ticket :: frame_ticket where
  "new_ticket = \<lparr>tk_refs = 0, tk_publication = PubClosed, tk_occupied = False, tk_settled = False, tk_input = False,
     tk_frame = new_frame zero_identity zero_receive, tk_payload = zero_outcome, tk_completionSerial = 0, tk_completionTimestamp = 0,
     tk_statsConsumed = False, tk_statsReusable = False, tk_hasVideoTimestamp = False, tk_videoTimestamp = 0,
     tk_videoDecodeActive = False, tk_videoDecodeEnded = False\<rparr>"

definition IHS_FRAME_TRACKER_CAPACITY :: nat where "IHS_FRAME_TRACKER_CAPACITY = 256"

definition init_block :: "frame_ticket list" where
  "init_block = replicate IHS_FRAME_TRACKER_CAPACITY new_ticket"

section \<open>References\<close>

definition retain_ref :: "u32 \<Rightarrow> u32 option" where
  "retain_ref n = (if n \<noteq> 0 \<and> n \<noteq> 0xFFFFFFFF then Some (n + 1) else None)"

definition release_endpoint :: "frame_tracker \<Rightarrow> frame_tracker" where
  "release_endpoint t = t\<lparr>ft_refs := ft_refs t - 1, ft_freed := ft_freed t \<or> ft_refs t = 1\<rparr>"

text \<open>Access to a record and its update.\<close>

definition ticket :: "nat \<Rightarrow> frame_tracker \<Rightarrow> frame_ticket option" where
  "ticket i t = (if \<not> ft_freed t \<and> i < length (ft_records t) then Some (ft_records t ! i) else None)"

definition put_ticket :: "nat \<Rightarrow> frame_ticket \<Rightarrow> frame_tracker \<Rightarrow> frame_tracker" where
  "put_ticket i r t = t\<lparr>ft_records := (ft_records t)[i := r]\<rparr>"

definition IHS_FrameTrackerCreate :: "bool \<Rightarrow> bool \<Rightarrow> u64 \<Rightarrow> frame_tracker option" where
  "IHS_FrameTrackerCreate allocated mutex sessionId =
     (if sessionId = 0 \<or> \<not> allocated \<or> \<not> mutex then None
      else Some \<lparr>ft_refs = 1, ft_completions = 0, ft_sessionId = sessionId, ft_epoch = 0, ft_serial = 0, ft_highestSequence = 0,
        ft_accepting = False, ft_haveSequence = False, ft_statsTracking = False, ft_seen = replicate IHS_FRAME_TRACKER_CAPACITY 0,
        ft_seenValid = replicate IHS_FRAME_TRACKER_CAPACITY False, ft_records = init_block,
        ft_storageCapacity = IHS_FRAME_TRACKER_CAPACITY, ft_freed = False\<rparr>)"

definition IHS_FrameTicketRetain :: "nat \<Rightarrow> frame_tracker \<Rightarrow> (bool \<times> frame_tracker) option" where
  "IHS_FrameTicketRetain i t = do {
     r \<leftarrow> ticket i t;
     case retain_ref (ft_refs t) of None \<Rightarrow> Some (False, t)
     | Some n \<Rightarrow>
         let t = t\<lparr>ft_refs := n\<rparr> in
         case retain_ref (tk_refs r) of
           Some m \<Rightarrow> Some (True, put_ticket i (r\<lparr>tk_refs := m\<rparr>) t)
         | None \<Rightarrow> Some (False, release_endpoint t)
   }"

definition IHS_FrameTicketRelease :: "nat \<Rightarrow> frame_tracker \<Rightarrow> frame_tracker option" where
  "IHS_FrameTicketRelease i t = do {
     r \<leftarrow> ticket i t;
     assert_that (tk_refs r \<noteq> 0);
     Some (release_endpoint (put_ticket i (r\<lparr>tk_refs := tk_refs r - 1\<rparr>) t))
   }"

section \<open>Epochs\<close>

definition close_record :: "frame_ticket \<Rightarrow> frame_ticket" where
  "close_record r =
     (if \<not> tk_occupied r then r
      else r\<lparr>tk_publication := (if tk_publication r = PubOpen then PubClosed else tk_publication r), tk_settled := True\<rparr>)"

definition close_epoch :: "frame_tracker \<Rightarrow> frame_tracker" where
  "close_epoch t = t\<lparr>ft_accepting := False, ft_records := map close_record (ft_records t)\<rparr>"

definition IHS_FrameTrackerOpenEpoch :: "u64 \<Rightarrow> frame_tracker \<Rightarrow> (bool \<times> frame_tracker) option" where
  "IHS_FrameTrackerOpenEpoch epoch t = do {
     assert_that (\<not> ft_freed t);
     let ok = (epoch \<noteq> 0 \<and> ft_epoch t < epoch);
     Some (ok, if ok
       then (close_epoch t)\<lparr>ft_epoch := epoch, ft_accepting := True, ft_haveSequence := False,
              ft_seenValid := replicate IHS_FRAME_TRACKER_CAPACITY False\<rparr>
       else t)
   }"

definition IHS_FrameTrackerCloseEpoch :: "u64 \<Rightarrow> frame_tracker \<Rightarrow> frame_tracker option" where
  "IHS_FrameTrackerCloseEpoch epoch t = do {
     assert_that (\<not> ft_freed t);
     Some (if epoch = ft_epoch t then close_epoch t else t)
   }"

definition IHS_FrameTrackerClose :: "frame_tracker \<Rightarrow> frame_tracker option" where
  "IHS_FrameTrackerClose t = do {
     assert_that (\<not> ft_freed t);
     Some (release_endpoint (close_epoch t))
   }"

section \<open>Publication\<close>

definition IHS_FrameTicketIdentity :: "nat \<Rightarrow> frame_tracker \<Rightarrow> frame_identity option" where
  "IHS_FrameTicketIdentity i t = map_option (\<lambda>r. tf_identity (tk_frame r)) (ticket i t)"

definition IHS_FrameTicketClaim :: "nat \<Rightarrow> frame_tracker \<Rightarrow> (bool \<times> frame_tracker) option" where
  "IHS_FrameTicketClaim i t = do {
     r \<leftarrow> ticket i t;
     Some (if tk_publication r = PubOpen then (True, put_ticket i (r\<lparr>tk_publication := PubClaimed\<rparr>) t) else (False, t))
   }"

definition IHS_FrameTicketPublish :: "u32 \<Rightarrow> nat \<Rightarrow> frame_outcome \<Rightarrow> frame_tracker \<Rightarrow> frame_tracker option" where
  "IHS_FrameTicketPublish now i outcome t = do {
     r \<leftarrow> ticket i t;
     assert_that (tk_publication r = PubClaimed);
     let r = r\<lparr>tk_payload := outcome, tk_completionTimestamp := now, tk_completionSerial := ft_completions t, tk_publication := PubReady\<rparr>;
     Some ((put_ticket i r t)\<lparr>ft_completions := ft_completions t + 1\<rparr>)
   }"

definition outcome_ok :: "frame_outcome \<Rightarrow> bool" where
  "outcome_ok oc \<longleftrightarrow> \<not> (oc_result oc \<le> 0 \<or> 7 < oc_result oc \<or>
     oc_hasUpload oc \<and> (oc_uploadEndUs oc < oc_uploadBeginUs oc \<or> oc_completionUs oc < oc_uploadEndUs oc) \<or>
     oc_result oc \<noteq> 1 \<and> (oc_presentationSerial oc \<noteq> 0 \<or> oc_hasPresentationInterval oc) \<or>
     oc_result oc = 1 \<and> oc_presentationSerial oc = 0)"

definition IHS_FrameTicketComplete :: "u32 \<Rightarrow> nat \<Rightarrow> frame_outcome option \<Rightarrow> frame_tracker \<Rightarrow> (bool \<times> frame_tracker) option" where
  "IHS_FrameTicketComplete now i outcome t = (case outcome of None \<Rightarrow> Some (False, t)
     | Some oc \<Rightarrow>
         if \<not> outcome_ok oc then Some (False, t)
         else do {
           (claimed, t) \<leftarrow> IHS_FrameTicketClaim i t;
           if \<not> claimed then Some (False, t)
           else do { t \<leftarrow> IHS_FrameTicketPublish now i oc t; Some (True, t) }
         })"

definition IHS_FrameTicketAbandonInput :: "nat \<Rightarrow> frame_tracker \<Rightarrow> (bool \<times> frame_tracker) option" where
  "IHS_FrameTicketAbandonInput i t = do {
     r \<leftarrow> ticket i t;
     let retired = (tk_input r \<and> \<not> tk_settled r \<and> \<not> tk_videoDecodeActive r \<and> \<not> tf_hasDecodeBegin (tk_frame r) \<and> tk_publication r = PubOpen);
     Some (retired, if retired then put_ticket i (r\<lparr>tk_publication := PubClosed, tk_settled := True\<rparr>) t else t)
   }"

section \<open>Beginning a frame\<close>

text \<open>The position of a frame on the extended number line, or the reason to refuse it.\<close>

definition wire_sequence :: "bool \<Rightarrow> u16 \<Rightarrow> frame_tracker \<Rightarrow> begin_result + u64" where
  "wire_sequence input frameId t =
     (if input \<or> \<not> ft_haveSequence t then Inr (65536 + ucast frameId)
      else let delta = frameId - ucast (ft_highestSequence t) in
        if delta = 32768 then Inl BeginAmbiguous
        else if delta < 32768 then
          (if 0xFFFFFFFFFFFFFFFF - ft_highestSequence t < ucast delta then Inl BeginExhausted
           else Inr (ft_highestSequence t + ucast delta))
        else let back = 65536 - unat delta in
          if 256 \<le> back \<or> unat (ft_highestSequence t) < back then Inl BeginStale
          else Inr (ft_highestSequence t - word_of_nat back))"

definition same_frame :: "bool \<Rightarrow> u64 \<Rightarrow> u64 \<Rightarrow> frame_ticket \<Rightarrow> bool" where
  "same_frame input epoch seq r \<longleftrightarrow> \<not> input \<and> \<not> tk_input r \<and> tk_occupied r \<and>
     id_epoch (tf_identity (tk_frame r)) = epoch \<and> id_wireSequence (tf_identity (tk_frame r)) = seq"

definition is_free :: "frame_ticket \<Rightarrow> bool" where
  "is_free r \<longleftrightarrow> (\<not> tk_occupied r \<or> tk_settled r) \<and> tk_refs r = 0 \<and> id_slotVersion (tf_identity (tk_frame r)) \<noteq> 0xFFFFFFFFFFFFFFFF"

definition is_collected :: "bool \<Rightarrow> frame_ticket \<Rightarrow> bool" where
  "is_collected statsTracking r \<longleftrightarrow> tk_occupied r \<and> \<not> tk_settled r \<and> id_slotVersion (tf_identity (tk_frame r)) \<noteq> 0xFFFFFFFFFFFFFFFF \<and>
     tk_refs r = 0 \<and> tk_publication r = PubReady \<and> (\<not> statsTracking \<or> tk_statsConsumed r \<and> tk_statsReusable r)"

fun scan :: "bool \<Rightarrow> u64 \<Rightarrow> u64 \<Rightarrow> bool \<Rightarrow> nat \<Rightarrow> frame_ticket list \<Rightarrow> nat option \<Rightarrow> nat option \<Rightarrow> nat + (nat option \<times> nat option)" where
  "scan input epoch seq statsTracking i [] freeRecord collectedRecord = Inr (freeRecord, collectedRecord)"
| "scan input epoch seq statsTracking i (r # rs) freeRecord collectedRecord =
     (if same_frame input epoch seq r then Inl i
      else scan input epoch seq statsTracking (i + 1) rs
        (if freeRecord = None \<and> is_free r then Some i else freeRecord)
        (if collectedRecord = None \<and> is_collected statsTracking r then Some i else collectedRecord))"

text \<open>A known frame that is still open is joined.\<close>

definition join_record :: "frame_receive \<Rightarrow> nat \<Rightarrow> frame_tracker \<Rightarrow> begin_result \<times> nat option \<times> frame_tracker" where
  "join_record receive i t =
     (let r = ft_records t ! i in
      if tk_settled r \<or> tk_publication r \<noteq> PubOpen then (BeginStale, None, t)
      else case retain_ref (ft_refs t) of None \<Rightarrow> (BeginExhausted, None, t)
      | Some n \<Rightarrow>
          if tk_refs r = 0xFFFFFFFF then (BeginExhausted, None, release_endpoint (t\<lparr>ft_refs := n\<rparr>))
          else let f = tk_frame r;
                   f = (if fr_lastReceiveUs (tf_receive f) \<le> fr_lastReceiveUs receive
                        then f\<lparr>tf_receive := (tf_receive f)\<lparr>fr_lastReceiveUs := fr_lastReceiveUs receive, fr_receiveTimestamp := fr_receiveTimestamp receive\<rparr>\<rparr>
                        else f) in
            (BeginOK, Some i, put_ticket i (r\<lparr>tk_refs := tk_refs r + 1, tk_frame := f\<rparr>) (t\<lparr>ft_refs := n\<rparr>)))"

text \<open>A record for a new frame: a free one, one whose statistics have been collected, or a new block.\<close>

definition find_record :: "bool \<Rightarrow> nat option \<Rightarrow> nat option \<Rightarrow> frame_tracker \<Rightarrow> begin_result + (nat \<times> frame_tracker)" where
  "find_record allocated freeRecord collectedRecord t =
     (case (if freeRecord = None then collectedRecord else freeRecord) of
        Some i \<Rightarrow> Inr (i, t)
      | None \<Rightarrow>
          if SIZE_MAX - IHS_FRAME_TRACKER_CAPACITY < ft_storageCapacity t then Inl BeginExhausted
          else if \<not> allocated then Inl BeginCapacity
          else Inr (length (ft_records t), t\<lparr>ft_records := ft_records t @ init_block,
                 ft_storageCapacity := ft_storageCapacity t + IHS_FRAME_TRACKER_CAPACITY\<rparr>))"

definition fresh_record :: "u64 \<Rightarrow> u16 \<Rightarrow> u64 \<Rightarrow> frame_receive \<Rightarrow> bool \<Rightarrow> frame_tracker \<Rightarrow> frame_ticket \<Rightarrow> frame_ticket" where
  "fresh_record epoch frameId seq receive input t r =
     (let identity = \<lparr>id_sessionId = ft_sessionId t, id_epoch = epoch, id_receiveSerial = ft_serial t + 1,
            id_slotVersion = id_slotVersion (tf_identity (tk_frame r)) + 1, id_wireSequence = seq, id_frameId = frameId\<rparr> in
      r\<lparr>tk_frame := new_frame identity receive, tk_hasVideoTimestamp := False, tk_videoTimestamp := 0,
        tk_videoDecodeActive := False, tk_videoDecodeEnded := False, tk_occupied := True, tk_input := input,
        tk_settled := False, tk_statsConsumed := False, tk_statsReusable := False, tk_refs := 1, tk_publication := PubOpen\<rparr>)"

definition occupy :: "u64 \<Rightarrow> u16 \<Rightarrow> u64 \<Rightarrow> frame_receive \<Rightarrow> bool \<Rightarrow> nat \<Rightarrow> frame_tracker \<Rightarrow> frame_tracker" where
  "occupy epoch frameId seq receive input i t =
     (let t = put_ticket i (fresh_record epoch frameId seq receive input t (ft_records t ! i)) (t\<lparr>ft_serial := ft_serial t + 1\<rparr>);
          k = unat seq mod IHS_FRAME_TRACKER_CAPACITY in
      if input then t
      else t\<lparr>ft_seenValid := (ft_seenValid t)[k := True], ft_seen := (ft_seen t)[k := seq],
             ft_highestSequence := (if \<not> ft_haveSequence t \<or> ft_highestSequence t < seq then seq else ft_highestSequence t),
             ft_haveSequence := True\<rparr>)"

definition begin_new ::
    "bool \<Rightarrow> u64 \<Rightarrow> u16 \<Rightarrow> u64 \<Rightarrow> frame_receive \<Rightarrow> bool \<Rightarrow> nat option \<Rightarrow> nat option \<Rightarrow> frame_tracker \<Rightarrow> begin_result \<times> nat option \<times> frame_tracker" where
  "begin_new allocated epoch frameId seq receive input freeRecord collectedRecord t =
     (let k = unat seq mod IHS_FRAME_TRACKER_CAPACITY in
      if \<not> input \<and> ft_seenValid t ! k \<and> ft_seen t ! k = seq then (BeginStale, None, t)
      else case find_record allocated freeRecord collectedRecord t of
        Inl e \<Rightarrow> (e, None, t)
      | Inr (i, t) \<Rightarrow>
          if ft_serial t = 0xFFFFFFFFFFFFFFFF then (BeginExhausted, None, t)
          else case retain_ref (ft_refs t) of None \<Rightarrow> (BeginExhausted, None, t)
          | Some n \<Rightarrow> (BeginOK, Some i, occupy epoch frameId seq receive input i (t\<lparr>ft_refs := n\<rparr>)))"

definition begin_frame ::
    "bool \<Rightarrow> u64 \<Rightarrow> u16 \<Rightarrow> frame_receive \<Rightarrow> bool \<Rightarrow> frame_tracker \<Rightarrow> (begin_result \<times> nat option \<times> frame_tracker) option" where
  "begin_frame allocated epoch frameId receive input t = do {
     assert_that (\<not> ft_freed t);
     Some (if \<not> ft_accepting t \<or> epoch \<noteq> ft_epoch t then (BeginClosed, None, t)
       else case wire_sequence input frameId t of
         Inl e \<Rightarrow> (e, None, t)
       | Inr seq \<Rightarrow> (case scan input epoch seq (ft_statsTracking t) 0 (ft_records t) None None of
           Inl i \<Rightarrow> join_record receive i t
         | Inr (freeRecord, collectedRecord) \<Rightarrow> begin_new allocated epoch frameId seq receive input freeRecord collectedRecord t))
   }"

definition IHS_FrameTrackerBegin ::
    "bool \<Rightarrow> u64 \<Rightarrow> u16 \<Rightarrow> frame_receive \<Rightarrow> frame_tracker \<Rightarrow> (begin_result \<times> nat option \<times> frame_tracker) option" where
  "IHS_FrameTrackerBegin allocated epoch frameId receive t = begin_frame allocated epoch frameId receive False t"

definition IHS_FrameTrackerBeginInput ::
    "bool \<Rightarrow> u64 \<Rightarrow> u16 \<Rightarrow> frame_receive \<Rightarrow> frame_tracker \<Rightarrow> (begin_result \<times> nat option \<times> frame_tracker) option" where
  "IHS_FrameTrackerBeginInput allocated epoch frameId receive t = begin_frame allocated epoch frameId receive True t"

section \<open>Stages\<close>

definition live_ticket :: "frame_ticket \<Rightarrow> frame_tracker \<Rightarrow> bool" where
  "live_ticket r t \<longleftrightarrow> ft_accepting t \<and> id_epoch (tf_identity (tk_frame r)) = ft_epoch t \<and> \<not> tk_settled r"

definition IHS_FrameTrackerDecodeStage :: "nat \<Rightarrow> bool \<Rightarrow> u64 \<Rightarrow> frame_tracker \<Rightarrow> (bool \<times> frame_tracker) option" where
  "IHS_FrameTrackerDecodeStage i end us t = do {
     r \<leftarrow> ticket i t;
     let f = tk_frame r;
     let f = (if end then f\<lparr>tf_decodeEndUs := us, tf_hasDecodeEnd := True\<rparr>
              else if \<not> tf_hasDecodeBegin f then f\<lparr>tf_decodeBeginUs := us, tf_hasDecodeBegin := True\<rparr> else f);
     Some (live_ticket r t, if live_ticket r t then put_ticket i (r\<lparr>tk_frame := f\<rparr>) t else t)
   }"

definition IHS_FrameTicketDecodeStage :: "nat \<Rightarrow> bool \<Rightarrow> u64 \<Rightarrow> frame_tracker \<Rightarrow> (bool \<times> frame_tracker) option" where
  "IHS_FrameTicketDecodeStage i end us t = IHS_FrameTrackerDecodeStage i end us t"

definition IHS_FrameTicketUploadStage :: "nat \<Rightarrow> bool \<Rightarrow> u64 \<Rightarrow> frame_tracker \<Rightarrow> (bool \<times> frame_tracker) option" where
  "IHS_FrameTicketUploadStage i end us t = do {
     r \<leftarrow> ticket i t;
     let f = tk_frame r;
     let f = (if end then f\<lparr>tf_uploadEndUs := us, tf_hasUploadEnd := True\<rparr> else f\<lparr>tf_uploadBeginUs := us, tf_hasUploadBegin := True\<rparr>);
     Some (live_ticket r t, if live_ticket r t then put_ticket i (r\<lparr>tk_frame := f\<rparr>) t else t)
   }"

definition IHS_FrameTicketVideoDecodeStage :: "u64 \<Rightarrow> nat \<Rightarrow> bool \<Rightarrow> frame_tracker \<Rightarrow> (bool \<times> frame_tracker) option" where
  "IHS_FrameTicketVideoDecodeStage us i end t = do {
     r \<leftarrow> ticket i t;
     let ok = (live_ticket r t \<and> (end \<longrightarrow> tk_videoDecodeActive r \<and> \<not> tk_videoDecodeEnded r));
     let f = tk_frame r;
     let r' = (if end then r\<lparr>tk_frame := f\<lparr>tf_decodeEndUs := us, tf_hasDecodeEnd := True\<rparr>, tk_videoDecodeEnded := True\<rparr>
               else r\<lparr>tk_videoDecodeActive := True, tk_videoDecodeEnded := False,
                      tk_frame := (if \<not> tf_hasDecodeBegin f then f\<lparr>tf_decodeBeginUs := us, tf_hasDecodeBegin := True\<rparr> else f)\<rparr>);
     Some (ok, if ok then put_ticket i r' t else t)
   }"

definition IHS_FrameTicketSetSize :: "nat \<Rightarrow> u32 \<Rightarrow> frame_tracker \<Rightarrow> frame_tracker option" where
  "IHS_FrameTicketSetSize i bytes t = do {
     r \<leftarrow> ticket i t;
     let f = tk_frame r;
     Some (if \<not> tk_settled r then put_ticket i (r\<lparr>tk_frame := f\<lparr>tf_receive := (tf_receive f)\<lparr>fr_frameSize := bytes\<rparr>\<rparr>\<rparr>) t else t)
   }"

definition IHS_FrameTicketSetVideoTimestamp :: "nat \<Rightarrow> u32 \<Rightarrow> frame_tracker \<Rightarrow> frame_tracker option" where
  "IHS_FrameTicketSetVideoTimestamp i timestamp t = do {
     r \<leftarrow> ticket i t;
     Some (if live_ticket r t then put_ticket i (r\<lparr>tk_videoTimestamp := timestamp, tk_hasVideoTimestamp := True\<rparr>) t else t)
   }"

definition IHS_FrameTicketVideoTimestamp :: "nat \<Rightarrow> frame_tracker \<Rightarrow> u32 option option" where
  "IHS_FrameTicketVideoTimestamp i t = map_option (\<lambda>r. if tk_hasVideoTimestamp r then Some (tk_videoTimestamp r) else None) (ticket i t)"

section \<open>Collection\<close>

text \<open>Copies of the live records, as many as fit; a completion is handed out once.\<close>

definition copy_record :: "frame_ticket \<Rightarrow> tracked_frame \<times> frame_ticket" where
  "copy_record r =
     (let first = (tk_publication r = PubReady \<and> \<not> tk_statsConsumed r);
          f = (if first then (tk_frame r)\<lparr>tf_statsComplete := True, tf_outcome := tk_payload r,
                 tf_completionSerial := tk_completionSerial r, tf_completionTimestamp := tk_completionTimestamp r\<rparr> else tk_frame r);
          r = (if first then r\<lparr>tk_statsConsumed := True\<rparr> else r) in
      (f, if tk_publication r = PubReady \<and> tk_refs r = 0 then r\<lparr>tk_statsReusable := True\<rparr> else r))"

fun copy_stats :: "u64 \<Rightarrow> nat \<Rightarrow> frame_ticket list \<Rightarrow> tracked_frame list \<times> frame_ticket list" where
  "copy_stats epoch capacity [] = ([], [])"
| "copy_stats epoch capacity (r # rs) =
     (if capacity = 0 then ([], r # rs)
      else if \<not> tk_occupied r \<or> tk_settled r \<or> id_epoch (tf_identity (tk_frame r)) \<noteq> epoch
      then (case copy_stats epoch capacity rs of (fs, rs) \<Rightarrow> (fs, r # rs))
      else case copy_record r of (f, r) \<Rightarrow> (case copy_stats epoch (capacity - 1) rs of (fs, rs) \<Rightarrow> (f # fs, r # rs)))"

definition IHS_FrameTrackerCopyStats :: "nat \<Rightarrow> frame_tracker \<Rightarrow> (tracked_frame list \<times> frame_tracker) option" where
  "IHS_FrameTrackerCopyStats capacity t = do {
     assert_that (\<not> ft_freed t);
     let t = t\<lparr>ft_statsTracking := True\<rparr>;
     Some (if ft_accepting t
       then (case copy_stats (ft_epoch t) capacity (ft_records t) of (fs, rs) \<Rightarrow> (fs, t\<lparr>ft_records := rs\<rparr>))
       else ([], t))
   }"

definition IHS_FrameTrackerStorageCapacity :: "frame_tracker \<Rightarrow> nat option" where
  "IHS_FrameTrackerStorageCapacity t = do { assert_that (\<not> ft_freed t); Some (ft_storageCapacity t) }"

text \<open>Settling reports what is finished and what is overdue.\<close>

definition expire_record :: "u64 \<Rightarrow> u64 \<Rightarrow> frame_ticket \<Rightarrow> frame_ticket" where
  "expire_record nowUs timeoutUs r =
     (let first = fr_firstReceiveUs (tf_receive (tk_frame r)) in
      if tk_publication r = PubOpen \<and> first \<le> nowUs \<and> timeoutUs \<le> nowUs - first then r\<lparr>tk_publication := PubExpired\<rparr> else r)"

fun settle :: "u64 \<Rightarrow> u64 \<Rightarrow> bool \<Rightarrow> nat \<Rightarrow> frame_ticket list \<Rightarrow> tracked_frame list \<times> frame_ticket list" where
  "settle nowUs timeoutUs statsTracking capacity [] = ([], [])"
| "settle nowUs timeoutUs statsTracking capacity (r # rs) =
     (if capacity = 0 then ([], r # rs)
      else if \<not> tk_occupied r \<or> tk_settled r
      then (case settle nowUs timeoutUs statsTracking capacity rs of (fs, rs) \<Rightarrow> (fs, r # rs))
      else let r = expire_record nowUs timeoutUs r in
        if tk_publication r \<noteq> PubReady \<and> tk_publication r \<noteq> PubExpired \<or> tk_publication r = PubReady \<and> statsTracking \<and> \<not> tk_statsConsumed r
        then (case settle nowUs timeoutUs statsTracking capacity rs of (fs, rs) \<Rightarrow> (fs, r # rs))
        else let oc = (if tk_publication r = PubReady then tk_payload r else zero_outcome\<lparr>oc_result := 6, oc_completionUs := nowUs\<rparr>) in
          case settle nowUs timeoutUs statsTracking (capacity - 1) rs of (fs, rs) \<Rightarrow>
            ((tk_frame r)\<lparr>tf_outcome := oc\<rparr> # fs, r\<lparr>tk_settled := True\<rparr> # rs))"

definition IHS_FrameTrackerSettle :: "u64 \<Rightarrow> u64 \<Rightarrow> nat \<Rightarrow> frame_tracker \<Rightarrow> (tracked_frame list \<times> frame_tracker) option" where
  "IHS_FrameTrackerSettle nowUs timeoutUs capacity t = do {
     assert_that (\<not> ft_freed t);
     Some (case settle nowUs timeoutUs (ft_statsTracking t) capacity (ft_records t) of (fs, rs) \<Rightarrow> (fs, t\<lparr>ft_records := rs\<rparr>))
   }"

end
