(* ===== verification/Frame_Tracker_Props.thy ===== *)
theory Frame_Tracker_Props
  imports Frame_Tracker
begin

text \<open>
  The contract of frame tickets.  Clients keep to the rules of \<^verbatim>\<open>frame_tracker.h\<close>: the owner uses the
  tracker until it closes it, a holder uses the tickets it holds, and a claimed ticket is published before
  the claimant releases it.  Then no operation touches freed memory or fails an assertion, the memory is
  freed exactly when the last reference goes, and a ticket names the same frame as long as it is held.
\<close>

section \<open>Clients\<close>

text \<open>The references that are held: each handle with the identity its holder was given, and the tickets that
  have been claimed and not yet published.\<close>

record tracker_world =
  tw_tracker :: frame_tracker
  tw_owner :: bool
  tw_handles :: "(nat \<times> frame_identity) list"
  tw_claims :: "nat list"

datatype tracker_op = OpOpen u64 | OpCloseEpoch u64 | OpClose | OpBegin bool bool u64 u16 frame_receive
  | OpRetain nat | OpRelease nat | OpClaim nat | OpPublish u32 nat frame_outcome | OpComplete u32 nat "frame_outcome option"
  | OpAbandon nat | OpDecode nat bool u64 | OpUpload nat bool u64 | OpVideoDecode u64 nat bool | OpSetSize nat u32
  | OpSetTimestamp nat u32 | OpCopyStats nat | OpSettle u64 u64 nat

definition holds :: "tracker_world \<Rightarrow> nat \<Rightarrow> bool" where
  "holds w i \<longleftrightarrow> i \<in> set (map fst (tw_handles w))"

fun op_allowed :: "tracker_op \<Rightarrow> tracker_world \<Rightarrow> bool" where
  "op_allowed (OpRetain i) w = holds w i"
| "op_allowed (OpRelease i) w = (count_list (tw_claims w) i < count_list (map fst (tw_handles w)) i)"
| "op_allowed (OpClaim i) w = holds w i"
| "op_allowed (OpPublish _ i _) w = (i \<in> set (tw_claims w))"
| "op_allowed (OpComplete _ i _) w = holds w i"
| "op_allowed (OpAbandon i) w = holds w i"
| "op_allowed (OpDecode i _ _) w = holds w i"
| "op_allowed (OpUpload i _ _) w = holds w i"
| "op_allowed (OpVideoDecode _ i _) w = holds w i"
| "op_allowed (OpSetSize i _) w = holds w i"
| "op_allowed (OpSetTimestamp i _) w = holds w i"
| "op_allowed _ w = tw_owner w"

fun drop_handle :: "nat \<Rightarrow> (nat \<times> frame_identity) list \<Rightarrow> (nat \<times> frame_identity) list" where
  "drop_handle i [] = []"
| "drop_handle i (h # hs) = (if fst h = i then hs else h # drop_handle i hs)"

definition record_identity :: "frame_tracker \<Rightarrow> nat \<Rightarrow> frame_identity" where
  "record_identity t i = tf_identity (tk_frame (ft_records t ! i))"

definition add_handle :: "nat \<Rightarrow> tracker_world \<Rightarrow> tracker_world" where
  "add_handle i w = w\<lparr>tw_handles := (i, record_identity (tw_tracker w) i) # tw_handles w\<rparr>"

fun op_step :: "tracker_op \<Rightarrow> tracker_world \<Rightarrow> tracker_world option" where
  "op_step (OpOpen e) w = map_option (\<lambda>(ok, t). w\<lparr>tw_tracker := t\<rparr>) (IHS_FrameTrackerOpenEpoch e (tw_tracker w))"
| "op_step (OpCloseEpoch e) w = map_option (\<lambda>t. w\<lparr>tw_tracker := t\<rparr>) (IHS_FrameTrackerCloseEpoch e (tw_tracker w))"
| "op_step OpClose w = map_option (\<lambda>t. w\<lparr>tw_tracker := t, tw_owner := False\<rparr>) (IHS_FrameTrackerClose (tw_tracker w))"
| "op_step (OpBegin allocated input e i rcv) w =
     map_option (\<lambda>(res, h, t). case h of None \<Rightarrow> w\<lparr>tw_tracker := t\<rparr> | Some k \<Rightarrow> add_handle k (w\<lparr>tw_tracker := t\<rparr>))
       (if input then IHS_FrameTrackerBeginInput allocated e i rcv (tw_tracker w) else IHS_FrameTrackerBegin allocated e i rcv (tw_tracker w))"
| "op_step (OpRetain i) w =
     map_option (\<lambda>(ok, t). if ok then add_handle i (w\<lparr>tw_tracker := t\<rparr>) else w\<lparr>tw_tracker := t\<rparr>) (IHS_FrameTicketRetain i (tw_tracker w))"
| "op_step (OpRelease i) w =
     map_option (\<lambda>t. w\<lparr>tw_tracker := t, tw_handles := drop_handle i (tw_handles w)\<rparr>) (IHS_FrameTicketRelease i (tw_tracker w))"
| "op_step (OpClaim i) w =
     map_option (\<lambda>(ok, t). if ok then w\<lparr>tw_tracker := t, tw_claims := i # tw_claims w\<rparr> else w) (IHS_FrameTicketClaim i (tw_tracker w))"
| "op_step (OpPublish now i oc) w =
     map_option (\<lambda>t. w\<lparr>tw_tracker := t, tw_claims := remove1 i (tw_claims w)\<rparr>) (IHS_FrameTicketPublish now i oc (tw_tracker w))"
| "op_step (OpComplete now i oc) w = map_option (\<lambda>(ok, t). w\<lparr>tw_tracker := t\<rparr>) (IHS_FrameTicketComplete now i oc (tw_tracker w))"
| "op_step (OpAbandon i) w = map_option (\<lambda>(ok, t). w\<lparr>tw_tracker := t\<rparr>) (IHS_FrameTicketAbandonInput i (tw_tracker w))"
| "op_step (OpDecode i e us) w = map_option (\<lambda>(ok, t). w\<lparr>tw_tracker := t\<rparr>) (IHS_FrameTicketDecodeStage i e us (tw_tracker w))"
| "op_step (OpUpload i e us) w = map_option (\<lambda>(ok, t). w\<lparr>tw_tracker := t\<rparr>) (IHS_FrameTicketUploadStage i e us (tw_tracker w))"
| "op_step (OpVideoDecode us i e) w = map_option (\<lambda>(ok, t). w\<lparr>tw_tracker := t\<rparr>) (IHS_FrameTicketVideoDecodeStage us i e (tw_tracker w))"
| "op_step (OpSetSize i n) w = map_option (\<lambda>t. w\<lparr>tw_tracker := t\<rparr>) (IHS_FrameTicketSetSize i n (tw_tracker w))"
| "op_step (OpSetTimestamp i ts) w = map_option (\<lambda>t. w\<lparr>tw_tracker := t\<rparr>) (IHS_FrameTicketSetVideoTimestamp i ts (tw_tracker w))"
| "op_step (OpCopyStats n) w = map_option (\<lambda>(fs, t). w\<lparr>tw_tracker := t\<rparr>) (IHS_FrameTrackerCopyStats n (tw_tracker w))"
| "op_step (OpSettle now timeout n) w = map_option (\<lambda>(fs, t). w\<lparr>tw_tracker := t\<rparr>) (IHS_FrameTrackerSettle now timeout n (tw_tracker w))"

text \<open>Operations in any order; one that the rules forbid is not made.\<close>

fun tracker_run :: "tracker_op list \<Rightarrow> tracker_world \<Rightarrow> tracker_world option" where
  "tracker_run [] w = Some w"
| "tracker_run (x # xs) w = (if op_allowed x w then Option.bind (op_step x w) (tracker_run xs) else tracker_run xs w)"

section \<open>Invariant\<close>

abbreviation records :: "tracker_world \<Rightarrow> frame_ticket list" where
  "records w \<equiv> ft_records (tw_tracker w)"

abbreviation serial_of :: "frame_ticket \<Rightarrow> u64" where
  "serial_of r \<equiv> id_receiveSerial (tf_identity (tk_frame r))"

definition refs_ok :: "tracker_world \<Rightarrow> bool" where
  "refs_ok w \<longleftrightarrow> (ft_freed (tw_tracker w) \<longleftrightarrow> \<not> tw_owner w \<and> tw_handles w = []) \<and>
     unat (ft_refs (tw_tracker w)) = of_bool (tw_owner w) + length (tw_handles w) \<and>
     (\<forall>i < length (records w). unat (tk_refs (records w ! i)) = count_list (map fst (tw_handles w)) i) \<and>
     (\<forall>(i, d) \<in> set (tw_handles w). i < length (records w) \<and> record_identity (tw_tracker w) i = d)"

definition claims_ok :: "tracker_world \<Rightarrow> bool" where
  "claims_ok w \<longleftrightarrow> distinct (tw_claims w) \<and> (\<forall>i \<in> set (tw_claims w). holds w i \<and> tk_publication (records w ! i) = PubClaimed)"

definition serials_ok :: "frame_tracker \<Rightarrow> bool" where
  "serials_ok t \<longleftrightarrow> (\<forall>r \<in> set (ft_records t). serial_of r \<le> ft_serial t) \<and>
     (\<forall>i < length (ft_records t). \<forall>j < length (ft_records t).
        serial_of (ft_records t ! i) = serial_of (ft_records t ! j) \<longrightarrow> serial_of (ft_records t ! i) \<noteq> 0 \<longrightarrow> i = j)"

definition tracker_inv :: "tracker_world \<Rightarrow> bool" where
  "tracker_inv w \<longleftrightarrow> refs_ok w \<and> claims_ok w \<and> serials_ok (tw_tracker w)"

text \<open>Steps that leave references, identities and claims alone.\<close>

definition same_refs :: "frame_tracker \<Rightarrow> frame_tracker \<Rightarrow> bool" where
  "same_refs t t' \<longleftrightarrow> ft_refs t' = ft_refs t \<and> ft_freed t' = ft_freed t \<and> ft_serial t' = ft_serial t \<and>
     list_all2 (\<lambda>r r'. tk_refs r' = tk_refs r \<and> tf_identity (tk_frame r') = tf_identity (tk_frame r) \<and>
       (tk_publication r = PubClaimed \<longrightarrow> tk_publication r' = PubClaimed)) (ft_records t) (ft_records t')"

lemma holds_less: "refs_ok w \<Longrightarrow> holds w i \<Longrightarrow> i < length (records w)"
  by (auto simp: refs_ok_def holds_def)

lemma held_live: "refs_ok w \<Longrightarrow> holds w i \<Longrightarrow> \<not> ft_freed (tw_tracker w)"
  by (auto simp: refs_ok_def holds_def)

lemma held_ticket: "refs_ok w \<Longrightarrow> holds w i \<Longrightarrow> ticket i (tw_tracker w) = Some (records w ! i)"
  using holds_less held_live by (simp add: ticket_def)

lemma owner_live: "refs_ok w \<Longrightarrow> tw_owner w \<Longrightarrow> \<not> ft_freed (tw_tracker w)"
  by (simp add: refs_ok_def)

lemma inv_same:
  assumes "tracker_inv w" "same_refs (tw_tracker w) t'"
  shows "tracker_inv (w\<lparr>tw_tracker := t'\<rparr>)"
proof -
  let ?t = "tw_tracker w"
  have len: "length (ft_records t') = length (records w)" using assms(2) by (auto simp: same_refs_def list_all2_conv_all_nth)
  have e: "tk_refs (ft_records t' ! i) = tk_refs (records w ! i)" "tf_identity (tk_frame (ft_records t' ! i)) = tf_identity (tk_frame (records w ! i))"
    "tk_publication (records w ! i) = PubClaimed \<Longrightarrow> tk_publication (ft_records t' ! i) = PubClaimed" if "i < length (records w)" for i
    using assms(2) that by (auto simp: same_refs_def list_all2_conv_all_nth)
  have r: "refs_ok w" and c: "claims_ok w" and s: "serials_ok ?t" using assms(1) by (simp_all add: tracker_inv_def)
  have "refs_ok (w\<lparr>tw_tracker := t'\<rparr>)" using r assms(2) len e by (auto simp: refs_ok_def same_refs_def record_identity_def)
  moreover have "claims_ok (w\<lparr>tw_tracker := t'\<rparr>)" using c e holds_less[OF r] by (auto simp: claims_ok_def holds_def)
  moreover have "serials_ok t'" using s assms(2) len e by (auto simp: serials_ok_def same_refs_def all_set_conv_all_nth)
  ultimately show ?thesis by (simp add: tracker_inv_def)
qed

lemma same_refl: "same_refs t t"
  by (simp add: same_refs_def list_all2_refl)

lemma same_put:
  assumes "i < length (ft_records t)" "tk_refs r = tk_refs (ft_records t ! i)" "tf_identity (tk_frame r) = tf_identity (tk_frame (ft_records t ! i))"
    "tk_publication (ft_records t ! i) = PubClaimed \<longrightarrow> tk_publication r = PubClaimed"
  shows "same_refs t (put_ticket i r t)"
  using assms by (auto simp: same_refs_def put_ticket_def list_all2_conv_all_nth nth_list_update)

lemma same_close: "same_refs t (close_epoch t)"
  by (auto simp: same_refs_def close_epoch_def close_record_def list_all2_conv_all_nth)

section \<open>Operations on statistics and stages\<close>

lemma copy_stats_same:
  "copy_stats e n rs = (fs, rs') \<Longrightarrow> list_all2 (\<lambda>r r'. tk_refs r' = tk_refs r \<and> tf_identity (tk_frame r') = tf_identity (tk_frame r) \<and>
       (tk_publication r = PubClaimed \<longrightarrow> tk_publication r' = PubClaimed)) rs rs'"
  by (induction e n rs arbitrary: fs rs' rule: copy_stats.induct)
     (auto simp: copy_record_def Let_def list_all2_refl split: if_splits prod.splits)

lemma settle_same:
  "settle now timeout st n rs = (fs, rs') \<Longrightarrow> list_all2 (\<lambda>r r'. tk_refs r' = tk_refs r \<and> tf_identity (tk_frame r') = tf_identity (tk_frame r) \<and>
       (tk_publication r = PubClaimed \<longrightarrow> tk_publication r' = PubClaimed)) rs rs'"
  by (induction now timeout st n rs arbitrary: fs rs' rule: settle.induct)
     (auto simp: expire_record_def Let_def list_all2_refl split: if_splits prod.splits)

lemma settle_op: "\<not> ft_freed t \<Longrightarrow> \<exists>fs t'. IHS_FrameTrackerSettle now timeout n t = Some (fs, t') \<and> same_refs t t'"
  using settle_same[of now timeout "ft_statsTracking t" n "ft_records t"]
  by (auto simp: IHS_FrameTrackerSettle_def same_refs_def split: prod.splits)

lemma copy_op: "\<not> ft_freed t \<Longrightarrow> \<exists>fs t'. IHS_FrameTrackerCopyStats n t = Some (fs, t') \<and> same_refs t t'"
  using copy_stats_same[of "ft_epoch t" n "ft_records t"]
  by (auto simp: IHS_FrameTrackerCopyStats_def Let_def same_refs_def list_all2_refl split: prod.splits)

lemma open_op: "\<not> ft_freed t \<Longrightarrow> \<exists>ok t'. IHS_FrameTrackerOpenEpoch e t = Some (ok, t') \<and> same_refs t t'"
  using same_close[of t] by (auto simp: IHS_FrameTrackerOpenEpoch_def Let_def same_refs_def list_all2_refl)

lemma close_epoch_op: "\<not> ft_freed t \<Longrightarrow> \<exists>t'. IHS_FrameTrackerCloseEpoch e t = Some t' \<and> same_refs t t'"
  by (simp add: IHS_FrameTrackerCloseEpoch_def same_close same_refl)

text \<open>The operations on one ticket that keep its references and identity.\<close>

lemma ticket_ops:
  assumes "i < length (ft_records t)" "\<not> ft_freed t"
  shows "\<exists>ok t'. IHS_FrameTicketAbandonInput i t = Some (ok, t') \<and> same_refs t t'"
    "\<exists>ok t'. IHS_FrameTicketDecodeStage i e us t = Some (ok, t') \<and> same_refs t t'"
    "\<exists>ok t'. IHS_FrameTicketUploadStage i e us t = Some (ok, t') \<and> same_refs t t'"
    "\<exists>ok t'. IHS_FrameTicketVideoDecodeStage us i e t = Some (ok, t') \<and> same_refs t t'"
    "\<exists>t'. IHS_FrameTicketSetSize i n t = Some t' \<and> same_refs t t'"
    "\<exists>t'. IHS_FrameTicketSetVideoTimestamp i ts t = Some t' \<and> same_refs t t'"
  using assms
  by (simp_all add: IHS_FrameTicketAbandonInput_def IHS_FrameTicketDecodeStage_def IHS_FrameTrackerDecodeStage_def
      IHS_FrameTicketUploadStage_def IHS_FrameTicketVideoDecodeStage_def IHS_FrameTicketSetSize_def
      IHS_FrameTicketSetVideoTimestamp_def ticket_def Let_def same_refl same_put)

lemma complete_op:
  assumes "i < length (ft_records t)" "\<not> ft_freed t"
  shows "\<exists>ok t'. IHS_FrameTicketComplete now i oc t = Some (ok, t') \<and> same_refs t t'"
proof (cases "oc = None \<or> \<not> outcome_ok (the oc) \<or> tk_publication (ft_records t ! i) \<noteq> PubOpen")
  case True
  then show ?thesis using assms
    by (auto simp: IHS_FrameTicketComplete_def IHS_FrameTicketClaim_def ticket_def same_refl split: option.split)
next
  case False
  then obtain c where oc: "oc = Some c" "outcome_ok c" and open_: "tk_publication (ft_records t ! i) = PubOpen" by auto
  then show ?thesis using assms
    by (auto simp: IHS_FrameTicketComplete_def IHS_FrameTicketClaim_def IHS_FrameTicketPublish_def ticket_def put_ticket_def Let_def
        same_refs_def list_all2_conv_all_nth nth_list_update)
qed

section \<open>References\<close>

lemma retain_ref_Some: "retain_ref n = Some m \<longleftrightarrow> n \<noteq> 0 \<and> n \<noteq> 0xFFFFFFFF \<and> m = n + 1"
  by (auto simp: retain_ref_def)

lemma tracker_unat_succ: "(n :: u32) \<noteq> 0xFFFFFFFF \<Longrightarrow> unat (n + 1) = unat n + 1"
proof -
  assume n: "n \<noteq> 0xFFFFFFFF"
  have "1 + n \<noteq> 0"
  proof
    assume "1 + n = 0"
    then have "n = - 1" by (simp add: eq_neg_iff_add_eq_0 add.commute)
    then show False using n by simp
  qed
  then show ?thesis using unatSuc[of n] by (simp add: add.commute)
qed

lemma unat_pred: "(n :: u32) \<noteq> 0 \<Longrightarrow> unat (n - 1) = unat n - 1"
  by (rule unat_minus_one)

lemma unat_one: "(n :: u32) = 1 \<longleftrightarrow> unat n = 1"
  by (simp add: word_unat_eq_iff)

text \<open>One more reference to a record.\<close>

lemma refs_add:
  assumes w: "refs_ok w" and i: "i < length (records w)" and live: "\<not> ft_freed (tw_tracker w)" "\<not> ft_freed t'"
    and n: "unat (ft_refs t') = unat (ft_refs (tw_tracker w)) + 1"
    and r: "ft_records t' = (records w)[i := r']" "unat (tk_refs r') = unat (tk_refs (records w ! i)) + 1"
    and d: "tf_identity (tk_frame r') = tf_identity (tk_frame (records w ! i)) \<or> tk_refs (records w ! i) = 0"
  shows "refs_ok (add_handle i (w\<lparr>tw_tracker := t'\<rparr>))"
proof -
  have c: "count_list (map fst (tw_handles w)) j = unat (tk_refs (records w ! j))" if "j < length (records w)" for j
    using w that by (simp add: refs_ok_def)
  have none: "(i, x) \<notin> set (tw_handles w)" if "tk_refs (records w ! i) = 0" for x
  proof
    assume "(i, x) \<in> set (tw_handles w)"
    then have "i \<in> set (map fst (tw_handles w))" by force
    then have "count_list (map fst (tw_handles w)) i \<noteq> 0" by (simp add: count_list_0_iff)
    then show False using c[OF i] that by simp
  qed
  have "\<forall>(j, x) \<in> set (tw_handles w). j < length (records w) \<and> tf_identity (tk_frame ((records w)[i := r'] ! j)) = x"
    using w d none i by (auto simp: refs_ok_def record_identity_def nth_list_update)
  moreover have "\<forall>j < length (records w). unat (tk_refs ((records w)[i := r'] ! j)) = count_list (i # map fst (tw_handles w)) j"
    using c r(2) i by (auto simp: nth_list_update)
  ultimately show ?thesis using w live n r(1) i by (auto simp: refs_ok_def add_handle_def record_identity_def)
qed

lemma claims_add:
  assumes "claims_ok w" "refs_ok w" "i < length (records w)" "ft_records t' = (records w)[i := r']" "i \<in> set (tw_claims w) \<Longrightarrow> tk_publication r' = PubClaimed"
  shows "claims_ok (add_handle i (w\<lparr>tw_tracker := t'\<rparr>))"
  using assms holds_less[OF assms(2)] by (auto simp: claims_ok_def add_handle_def holds_def nth_list_update)

lemma unclaimed:
  assumes "tracker_inv w" "i < length (records w)" "tk_refs (records w ! i) = 0 \<or> tk_publication (records w ! i) \<noteq> PubClaimed"
  shows "i \<notin> set (tw_claims w)"
proof
  assume i: "i \<in> set (tw_claims w)"
  then have h: "holds w i" "tk_publication (records w ! i) = PubClaimed" using assms(1) by (auto simp: tracker_inv_def claims_ok_def)
  then have "count_list (map fst (tw_handles w)) i \<noteq> 0" by (simp add: holds_def count_list_0_iff)
  then show False using assms h(2) by (auto simp: tracker_inv_def refs_ok_def)
qed

lemma serials_put:
  assumes "serials_ok t" "i < length (ft_records t)" "ft_records t' = (ft_records t)[i := r']" "ft_serial t' = ft_serial t"
    "tf_identity (tk_frame r') = tf_identity (tk_frame (ft_records t ! i))"
  shows "serials_ok t'"
proof -
  have "serial_of (ft_records t' ! j) = serial_of (ft_records t ! j)" if "j < length (ft_records t)" for j
    using assms(2,3,5) that by (auto simp: nth_list_update)
  then show ?thesis using assms(1,3,4) by (auto simp: serials_ok_def all_set_conv_all_nth)
qed

lemma next_serial: "(s :: u64) \<noteq> 0xFFFFFFFFFFFFFFFF \<Longrightarrow> s < s + 1 \<and> s + 1 \<noteq> 0"
proof -
  assume n: "s \<noteq> 0xFFFFFFFFFFFFFFFF"
  have "1 + s \<noteq> 0"
  proof
    assume "1 + s = 0"
    then have "s = - 1" by (simp add: eq_neg_iff_add_eq_0 add.commute)
    then show False using n by simp
  qed
  then show ?thesis using unatSuc[of s] by (simp add: add.commute word_less_nat_alt)
qed

lemma serials_new:
  assumes s: "serials_ok t" and i: "i < length (ft_records t)" and r: "ft_records t' = (ft_records t)[i := r']"
    and n: "ft_serial t \<noteq> 0xFFFFFFFFFFFFFFFF" "ft_serial t' = ft_serial t + 1" "serial_of r' = ft_serial t + 1"
  shows "serials_ok t'"
proof -
  note lt = next_serial[OF n(1)]
  have old: "serial_of (ft_records t ! j) \<le> ft_serial t" if "j < length (ft_records t)" for j using s that by (simp add: serials_ok_def)
  then have ne: "serial_of (ft_records t ! j) \<noteq> ft_serial t + 1" if "j < length (ft_records t)" for j
    using lt that by (metis leD)
  have "serial_of (ft_records t' ! j) \<le> ft_serial t'" if "j < length (ft_records t)" for j
    using old[OF that] lt n r i that by (cases "j = i") auto
  moreover have "j = k" if "j < length (ft_records t)" "k < length (ft_records t)" "serial_of (ft_records t' ! j) = serial_of (ft_records t' ! k)"
      "serial_of (ft_records t' ! j) \<noteq> 0" for j k
    using that s ne r n(3) i by (auto simp: serials_ok_def nth_list_update split: if_splits)
  ultimately show ?thesis using r by (auto simp: serials_ok_def all_set_conv_all_nth)
qed

lemma retain_inv:
  assumes w: "tracker_inv w" and h: "holds w i"
  shows "\<exists>w'. op_step (OpRetain i) w = Some w' \<and> tracker_inv w'"
proof -
  let ?t = "tw_tracker w" and ?r = "records w ! i"
  have r: "refs_ok w" "claims_ok w" "serials_ok ?t" using w by (simp_all add: tracker_inv_def)
  note i = holds_less[OF r(1) h] and live = held_live[OF r(1) h] and tk = held_ticket[OF r(1) h]
  show ?thesis
  proof (cases "ft_refs ?t \<noteq> 0 \<and> ft_refs ?t \<noteq> 0xFFFFFFFF")
    case False
    then show ?thesis using tk w by (auto simp: IHS_FrameTicketRetain_def retain_ref_def)
  next
    case a: True
    show ?thesis
    proof (cases "tk_refs ?r \<noteq> 0 \<and> tk_refs ?r \<noteq> 0xFFFFFFFF")
      case True
      let ?r' = "?r\<lparr>tk_refs := tk_refs ?r + 1\<rparr>" and ?t' = "put_ticket i (?r\<lparr>tk_refs := tk_refs ?r + 1\<rparr>) (?t\<lparr>ft_refs := ft_refs ?t + 1\<rparr>)"
      have rec: "ft_records ?t' = (records w)[i := ?r']" by (simp add: put_ticket_def)
      have "refs_ok (add_handle i (w\<lparr>tw_tracker := ?t'\<rparr>))"
        using a True live by (intro refs_add[OF r(1) i live _ _ rec]) (simp_all add: put_ticket_def tracker_unat_succ)
      moreover have "claims_ok (add_handle i (w\<lparr>tw_tracker := ?t'\<rparr>))"
        using r(2) by (intro claims_add[OF r(2,1) i rec]) (simp add: claims_ok_def)
      moreover have "serials_ok ?t'" by (rule serials_put[OF r(3) i rec]) (simp_all add: put_ticket_def)
      ultimately have "tracker_inv (add_handle i (w\<lparr>tw_tracker := ?t'\<rparr>))" by (simp add: tracker_inv_def add_handle_def)
      then show ?thesis using tk a True by (simp add: IHS_FrameTicketRetain_def retain_ref_def Let_def)
    next
      case False
      have "ft_refs ?t + 1 \<noteq> 1" using a by simp
      then have "release_endpoint (?t\<lparr>ft_refs := ft_refs ?t + 1\<rparr>) = ?t" using live by (simp add: release_endpoint_def)
      then have "op_step (OpRetain i) w = Some w" using tk a False by (auto simp: IHS_FrameTicketRetain_def retain_ref_def Let_def)
      with w show ?thesis by blast
    qed
  qed
qed

lemma drop_handle_facts:
  "j \<in> set (map fst hs) \<Longrightarrow> length (drop_handle j hs) + 1 = length hs"
  "j \<in> set (map fst hs) \<Longrightarrow> count_list (map fst (drop_handle j hs)) k = count_list (map fst hs) k - (if k = j then 1 else 0)"
  "set (drop_handle j hs) \<subseteq> set hs"
proof -
  show "j \<in> set (map fst hs) \<Longrightarrow> length (drop_handle j hs) + 1 = length hs" by (induction hs) auto
  show "j \<in> set (map fst hs) \<Longrightarrow> count_list (map fst (drop_handle j hs)) k = count_list (map fst hs) k - (if k = j then 1 else 0)"
  proof (induction hs)
    case (Cons h hs)
    have "count_list (map fst hs) j \<noteq> 0" if "j \<in> set (map fst hs)" using that by (simp add: count_list_0_iff)
    then show ?case using Cons by (cases "fst h = j"; cases "k = j") auto
  qed simp
  show "set (drop_handle j hs) \<subseteq> set hs" by (induction hs) auto
qed

lemma tracker_release_inv:
  assumes w: "tracker_inv w" and c: "count_list (tw_claims w) i < count_list (map fst (tw_handles w)) i"
  shows "\<exists>w'. op_step (OpRelease i) w = Some w' \<and> tracker_inv w'"
proof -
  let ?t = "tw_tracker w" and ?r = "records w ! i"
  have r: "refs_ok w" "claims_ok w" "serials_ok ?t" using w by (simp_all add: tracker_inv_def)
  have m: "i \<in> set (map fst (tw_handles w))" using c count_list_0_iff[of "map fst (tw_handles w)" i] by (cases "i \<in> set (map fst (tw_handles w))") auto
  then have h: "holds w i" by (simp add: holds_def)
  note i = holds_less[OF r(1) h] and live = held_live[OF r(1) h] and tk = held_ticket[OF r(1) h] and df = drop_handle_facts[of i "tw_handles w"]
  have n: "unat (tk_refs ?r) = count_list (map fst (tw_handles w)) i" "unat (ft_refs ?t) = of_bool (tw_owner w) + length (tw_handles w)"
    using r(1) i by (simp_all add: refs_ok_def)
  have nz: "tk_refs ?r \<noteq> 0" "ft_refs ?t \<noteq> 0" using n c m by auto
  let ?r' = "?r\<lparr>tk_refs := tk_refs ?r - 1\<rparr>"
  let ?t' = "release_endpoint (put_ticket i ?r' ?t)" and ?hs = "drop_handle i (tw_handles w)"
  let ?w = "w\<lparr>tw_tracker := ?t', tw_handles := ?hs\<rparr>"
  have rec: "ft_records ?t' = (records w)[i := ?r']" and ser: "ft_serial ?t' = ft_serial ?t" by (simp_all add: release_endpoint_def put_ticket_def)
  have one: "ft_refs ?t = 1 \<longleftrightarrow> \<not> tw_owner w \<and> ?hs = []"
    unfolding unat_one using n(2) df(1)[OF m] by (cases "tw_owner w"; cases ?hs) auto
  have cnt: "unat (tk_refs ((records w)[i := ?r'] ! j)) = count_list (map fst ?hs) j" if "j < length (records w)" for j
    using r(1) that df(2)[OF m, of j] n(1) unat_pred[OF nz(1)] i by (cases "j = i") (simp_all add: refs_ok_def)
  have idt: "j < length (records w) \<and> tf_identity (tk_frame ((records w)[i := ?r'] ! j)) = d" if "(j, d) \<in> set ?hs" for j d
  proof -
    have "(j, d) \<in> set (tw_handles w)" using df(3) that by blast
    then have "j < length (records w) \<and> tf_identity (tk_frame (records w ! j)) = d" using r(1) by (auto simp: refs_ok_def record_identity_def)
    then show ?thesis by (cases "j = i") auto
  qed
  have tot: "unat (ft_refs ?t') = of_bool (tw_owner w) + length ?hs" using n(2) df(1)[OF m] unat_pred[OF nz(2)]
    by (simp add: release_endpoint_def put_ticket_def)
  have freed: "ft_freed ?t' \<longleftrightarrow> \<not> tw_owner w \<and> ?hs = []" using live one by (simp add: release_endpoint_def put_ticket_def)
  have "refs_ok ?w" unfolding refs_ok_def using cnt idt tot freed by (auto simp: rec record_identity_def)
  moreover have "claims_ok ?w"
  proof -
    have "holds ?w j" if "j \<in> set (tw_claims w)" for j
    proof -
      have "0 < count_list (map fst ?hs) j"
      proof (cases "j = i")
        case True
        have "count_list (tw_claims w) i \<noteq> 0" using that True count_list_0_iff[of "tw_claims w" i] by simp
        then show ?thesis using True c df(2)[OF m, of i] by simp
      next
        case False
        have "j \<in> set (map fst (tw_handles w))" using r(2) that by (simp add: claims_ok_def holds_def)
        then have "count_list (map fst (tw_handles w)) j \<noteq> 0" by (simp add: count_list_0_iff)
        then show ?thesis using False df(2)[OF m, of j] by simp
      qed
      then show ?thesis using count_list_0_iff[of "map fst ?hs" j] by (cases "j \<in> set (map fst ?hs)") (auto simp: holds_def)
    qed
    then show ?thesis using r(2) rec i by (auto simp: claims_ok_def nth_list_update)
  qed
  moreover have "serials_ok ?t'" by (rule serials_put[OF r(3) i rec ser]) simp
  ultimately have "tracker_inv ?w" by (simp add: tracker_inv_def)
  moreover have "op_step (OpRelease i) w = Some ?w" using tk nz(1) by (simp add: IHS_FrameTicketRelease_def)
  ultimately show ?thesis by blast
qed

lemma close_inv:
  assumes w: "tracker_inv w" and o: "tw_owner w"
  shows "\<exists>w'. op_step OpClose w = Some w' \<and> tracker_inv w'"
proof -
  let ?t = "close_epoch (tw_tracker w)" and ?t' = "release_endpoint (close_epoch (tw_tracker w))"
  have r: "refs_ok (w\<lparr>tw_tracker := ?t\<rparr>)" "claims_ok (w\<lparr>tw_tracker := ?t\<rparr>)" "serials_ok ?t"
    using inv_same[OF w same_close] by (simp_all add: tracker_inv_def)
  have n: "unat (ft_refs ?t) = 1 + length (tw_handles w)" and live: "\<not> ft_freed ?t" using r(1) o by (simp_all add: refs_ok_def)
  then have nz: "ft_refs ?t \<noteq> 0" by auto
  have one: "ft_refs ?t = 1 \<longleftrightarrow> tw_handles w = []" unfolding unat_one using n by simp
  have "refs_ok (w\<lparr>tw_tracker := ?t', tw_owner := False\<rparr>)"
    using r(1) one live n unat_pred[OF nz] by (auto simp: refs_ok_def release_endpoint_def record_identity_def)
  moreover have "claims_ok (w\<lparr>tw_tracker := ?t', tw_owner := False\<rparr>)" "serials_ok ?t'"
    using r(2,3) by (simp_all add: claims_ok_def holds_def release_endpoint_def serials_ok_def)
  ultimately have "tracker_inv (w\<lparr>tw_tracker := ?t', tw_owner := False\<rparr>)" by (simp add: tracker_inv_def)
  moreover have "\<not> ft_freed (tw_tracker w)" using live by (simp add: close_epoch_def)
  ultimately show ?thesis by (simp add: IHS_FrameTrackerClose_def)
qed

lemma claim_inv:
  assumes w: "tracker_inv w" and h: "holds w i"
  shows "\<exists>w'. op_step (OpClaim i) w = Some w' \<and> tracker_inv w'"
proof -
  let ?t = "tw_tracker w" and ?r = "records w ! i"
  have r: "refs_ok w" "claims_ok w" "serials_ok ?t" using w by (simp_all add: tracker_inv_def)
  note i = holds_less[OF r(1) h] and tk = held_ticket[OF r(1) h]
  show ?thesis
  proof (cases "tk_publication ?r = PubOpen")
    case True
    let ?t' = "put_ticket i (?r\<lparr>tk_publication := PubClaimed\<rparr>) ?t"
    have "i \<notin> set (tw_claims w)" using unclaimed[OF w i] True by simp
    moreover have "tracker_inv (w\<lparr>tw_tracker := ?t'\<rparr>)" by (rule inv_same[OF w same_put[OF i]]) simp_all
    ultimately have "tracker_inv (w\<lparr>tw_tracker := ?t', tw_claims := i # tw_claims w\<rparr>)"
      using h i by (auto simp: tracker_inv_def refs_ok_def claims_ok_def holds_def put_ticket_def)
    then show ?thesis using tk True by (simp add: IHS_FrameTicketClaim_def)
  next
    case False
    then show ?thesis using tk w by (simp add: IHS_FrameTicketClaim_def)
  qed
qed

lemma publish_inv:
  assumes w: "tracker_inv w" and c: "i \<in> set (tw_claims w)"
  shows "\<exists>w'. op_step (OpPublish now i oc) w = Some w' \<and> tracker_inv w'"
proof -
  let ?t = "tw_tracker w" and ?r = "records w ! i"
  have r: "refs_ok w" "claims_ok w" "serials_ok ?t" using w by (simp_all add: tracker_inv_def)
  have h: "holds w i" "tk_publication ?r = PubClaimed" using r(2) c by (simp_all add: claims_ok_def)
  note i = holds_less[OF r(1) h(1)] and tk = held_ticket[OF r(1) h(1)]
  let ?r' = "?r\<lparr>tk_payload := oc, tk_completionTimestamp := now, tk_completionSerial := ft_completions ?t, tk_publication := PubReady\<rparr>"
  let ?t' = "(put_ticket i ?r' ?t)\<lparr>ft_completions := ft_completions ?t + 1\<rparr>"
  let ?w = "w\<lparr>tw_tracker := ?t', tw_claims := remove1 i (tw_claims w)\<rparr>"
  have rec: "ft_records ?t' = (records w)[i := ?r']" by (simp add: put_ticket_def)
  have "refs_ok ?w" using r(1) i by (auto simp: refs_ok_def put_ticket_def record_identity_def nth_list_update)
  moreover have "claims_ok ?w" using r(2) i by (auto simp: claims_ok_def holds_def put_ticket_def nth_list_update)
  moreover have "serials_ok ?t'" by (rule serials_put[OF r(3) i rec]) (simp_all add: put_ticket_def)
  ultimately have "tracker_inv ?w" by (simp add: tracker_inv_def)
  then show ?thesis using tk h(2) by (simp add: IHS_FrameTicketPublish_def Let_def)
qed

section \<open>Beginning a frame\<close>

lemma scan_Inl: "scan input e q st k rs f c = Inl i \<Longrightarrow> k \<le> i \<and> i < k + length rs"
  by (induction input e q st k rs f c rule: scan.induct) (fastforce split: if_splits)+

lemma scan_free:
  "scan input e q st k rs f c = Inr (f', c') \<Longrightarrow> (\<And>i. f = Some i \<Longrightarrow> P i) \<Longrightarrow>
   (\<And>i. i < length rs \<Longrightarrow> is_free (rs ! i) \<Longrightarrow> P (k + i)) \<Longrightarrow> f' = Some j \<Longrightarrow> P j"
proof (induction input e q st k rs f c rule: scan.induct)
  case (2 input e q st k r rs f c)
  have "P (k + 1 + i)" if "i < length rs" "is_free (rs ! i)" for i using 2(4)[of "Suc i"] that by simp
  moreover have "P i" if "(if f = None \<and> is_free r then Some k else f) = Some i" for i
    using that 2(3) 2(4)[of 0] by (auto split: if_splits)
  ultimately show ?case using 2(1,2,5) by (auto split: if_splits)
qed simp

lemma scan_collected:
  "scan input e q st k rs f c = Inr (f', c') \<Longrightarrow> (\<And>i. c = Some i \<Longrightarrow> P i) \<Longrightarrow>
   (\<And>i. i < length rs \<Longrightarrow> is_collected st (rs ! i) \<Longrightarrow> P (k + i)) \<Longrightarrow> c' = Some j \<Longrightarrow> P j"
proof (induction input e q st k rs f c rule: scan.induct)
  case (2 input e q st k r rs f c)
  have "P (k + 1 + i)" if "i < length rs" "is_collected st (rs ! i)" for i using 2(4)[of "Suc i"] that by simp
  moreover have "P i" if "(if c = None \<and> is_collected st r then Some k else c) = Some i" for i
    using that 2(3) 2(4)[of 0] by (auto split: if_splits)
  ultimately show ?case using 2(1,2,5) by (auto split: if_splits)
qed simp

text \<open>Only records without references are taken.\<close>

lemma scan_unreferenced:
  assumes "scan input e q st 0 rs None None = Inr (f, c)" "(if f = None then c else f) = Some i"
  shows "i < length rs \<and> tk_refs (rs ! i) = 0"
proof (cases f)
  case None
  then show ?thesis using assms scan_collected[OF assms(1), of "\<lambda>i. i < length rs \<and> tk_refs (rs ! i) = 0" i] by (simp add: is_collected_def)
next
  case (Some j)
  then show ?thesis using assms scan_free[OF assms(1), of "\<lambda>i. i < length rs \<and> tk_refs (rs ! i) = 0" i] by (simp add: is_free_def)
qed

lemma grow_inv:
  assumes "tracker_inv w"
  shows "tracker_inv (w\<lparr>tw_tracker := (tw_tracker w)\<lparr>ft_records := records w @ init_block, ft_storageCapacity := n\<rparr>\<rparr>)"
proof -
  have new: "r \<in> set init_block \<Longrightarrow> tk_refs r = 0 \<and> serial_of r = 0" for r by (simp add: init_block_def new_ticket_def new_frame_def zero_identity_def)
  have z: "tk_refs ((records w @ init_block) ! i) = 0" "serial_of ((records w @ init_block) ! i) = 0"
    if "\<not> i < length (records w)" "i < length (records w) + length init_block" for i
    using new[of "init_block ! (i - length (records w))"] that by (simp_all add: nth_append)
  have none: "count_list (map fst (tw_handles w)) i = 0" if "\<not> i < length (records w)" for i
    using assms that by (fastforce simp: tracker_inv_def refs_ok_def count_list_0_iff)
  have r: "refs_ok w" "claims_ok w" "serials_ok (tw_tracker w)" using assms by (simp_all add: tracker_inv_def)
  have "unat (tk_refs ((records w @ init_block) ! i)) = count_list (map fst (tw_handles w)) i" if "i < length (records w) + length init_block" for i
    using r(1) z(1) none that by (cases "i < length (records w)") (auto simp: refs_ok_def nth_append)
  moreover have "\<forall>(i, d) \<in> set (tw_handles w). i < length (records w) + length init_block \<and> tf_identity (tk_frame ((records w @ init_block) ! i)) = d"
    using r(1) by (auto simp: refs_ok_def record_identity_def nth_append)
  ultimately have "refs_ok (w\<lparr>tw_tracker := (tw_tracker w)\<lparr>ft_records := records w @ init_block, ft_storageCapacity := n\<rparr>\<rparr>)"
    using r(1) by (simp add: refs_ok_def record_identity_def)
  moreover have "claims_ok (w\<lparr>tw_tracker := (tw_tracker w)\<lparr>ft_records := records w @ init_block, ft_storageCapacity := n\<rparr>\<rparr>)"
    using r(2) holds_less[OF r(1)] by (auto simp: claims_ok_def holds_def nth_append)
  moreover have "serials_ok ((tw_tracker w)\<lparr>ft_records := records w @ init_block, ft_storageCapacity := n\<rparr>)"
    using r(3) z(2) new unfolding serials_ok_def by (auto simp: nth_append)
  ultimately show ?thesis by (simp add: tracker_inv_def)
qed

lemma occupy_inv:
  assumes w: "tracker_inv w" and i: "i < length (records w)" "tk_refs (records w ! i) = 0" and live: "\<not> ft_freed (tw_tracker w)"
    and s: "ft_serial (tw_tracker w) \<noteq> 0xFFFFFFFFFFFFFFFF" and n: "ft_refs (tw_tracker w) \<noteq> 0xFFFFFFFF"
  shows "tracker_inv (add_handle i (w\<lparr>tw_tracker := occupy e fid seq rcv input i ((tw_tracker w)\<lparr>ft_refs := ft_refs (tw_tracker w) + 1\<rparr>)\<rparr>))"
    (is "tracker_inv (add_handle i (w\<lparr>tw_tracker := ?t'\<rparr>))")
proof -
  let ?t = "tw_tracker w"
  have r: "refs_ok w" "claims_ok w" "serials_ok ?t" using w by (simp_all add: tracker_inv_def)
  obtain r' where rec: "ft_records ?t' = (records w)[i := r']" and r': "tk_refs r' = 1" "serial_of r' = ft_serial ?t + 1"
  proof (rule that)
    show "ft_records ?t' = (records w)[i := fresh_record e fid seq rcv input (?t\<lparr>ft_refs := ft_refs ?t + 1\<rparr>) (records w ! i)]"
      by (simp add: occupy_def Let_def put_ticket_def)
  qed (simp_all add: fresh_record_def new_frame_def)
  have f: "ft_refs ?t' = ft_refs ?t + 1" "ft_freed ?t' = ft_freed ?t" "ft_serial ?t' = ft_serial ?t + 1"
    by (simp_all add: occupy_def Let_def put_ticket_def)
  have "refs_ok (add_handle i (w\<lparr>tw_tracker := ?t'\<rparr>))"
    using f live n r' i by (intro refs_add[OF r(1) i(1) live _ _ rec]) (simp_all add: tracker_unat_succ)
  moreover have "claims_ok (add_handle i (w\<lparr>tw_tracker := ?t'\<rparr>))"
    using unclaimed[OF w i(1)] i(2) by (intro claims_add[OF r(2,1) i(1) rec]) simp
  moreover have "serials_ok ?t'" by (rule serials_new[OF r(3) i(1) rec s f(3) r'(2)])
  ultimately show ?thesis by (simp add: tracker_inv_def add_handle_def)
qed

lemma join_inv:
  assumes w: "tracker_inv w" and i: "i < length (records w)" and live: "\<not> ft_freed (tw_tracker w)"
    and j: "join_record rcv i (tw_tracker w) = (res, h, t')"
  shows "tracker_inv (case h of None \<Rightarrow> w\<lparr>tw_tracker := t'\<rparr> | Some k \<Rightarrow> add_handle k (w\<lparr>tw_tracker := t'\<rparr>))"
proof -
  let ?t = "tw_tracker w" and ?r = "records w ! i"
  have r: "refs_ok w" "claims_ok w" "serials_ok ?t" using w by (simp_all add: tracker_inv_def)
  consider (no) "tk_settled ?r \<or> tk_publication ?r \<noteq> PubOpen \<or> ft_refs ?t = 0 \<or> ft_refs ?t = 0xFFFFFFFF"
    | (full) "tk_publication ?r = PubOpen" "\<not> tk_settled ?r" "ft_refs ?t \<noteq> 0" "ft_refs ?t \<noteq> 0xFFFFFFFF" "tk_refs ?r = 0xFFFFFFFF"
    | (ok) "tk_publication ?r = PubOpen" "\<not> tk_settled ?r" "ft_refs ?t \<noteq> 0" "ft_refs ?t \<noteq> 0xFFFFFFFF" "tk_refs ?r \<noteq> 0xFFFFFFFF"
    by blast
  then show ?thesis
  proof cases
    case no
    then have "h = None \<and> t' = ?t" using j by (auto simp: join_record_def Let_def retain_ref_def split: if_splits)
    then show ?thesis using w by simp
  next
    case full
    have "ft_refs ?t + 1 \<noteq> 1" using full(3) by simp
    then have "release_endpoint (?t\<lparr>ft_refs := ft_refs ?t + 1\<rparr>) = ?t" using live by (simp add: release_endpoint_def)
    then have "h = None \<and> t' = ?t" using j full by (auto simp: join_record_def Let_def retain_ref_def)
    then show ?thesis using w by simp
  next
    case ok
    let ?g = "tk_frame ?r"
    let ?f = "if fr_lastReceiveUs (tf_receive ?g) \<le> fr_lastReceiveUs rcv
      then ?g\<lparr>tf_receive := (tf_receive ?g)\<lparr>fr_lastReceiveUs := fr_lastReceiveUs rcv, fr_receiveTimestamp := fr_receiveTimestamp rcv\<rparr>\<rparr> else ?g"
    obtain f where f: "h = Some i" "t' = put_ticket i (?r\<lparr>tk_refs := tk_refs ?r + 1, tk_frame := f\<rparr>) (?t\<lparr>ft_refs := ft_refs ?t + 1\<rparr>)"
      "tf_identity f = tf_identity ?g"
    proof (rule that[of ?f])
      show "h = Some i" "t' = put_ticket i (?r\<lparr>tk_refs := tk_refs ?r + 1, tk_frame := ?f\<rparr>) (?t\<lparr>ft_refs := ft_refs ?t + 1\<rparr>)"
        using j ok unfolding join_record_def Let_def by (simp_all add: retain_ref_def split del: if_split)
    qed simp
    let ?r' = "?r\<lparr>tk_refs := tk_refs ?r + 1, tk_frame := f\<rparr>"
    have rec: "ft_records t' = (records w)[i := ?r']" using f(2) by (simp add: put_ticket_def)
    have "refs_ok (add_handle i (w\<lparr>tw_tracker := t'\<rparr>))"
      using f ok live by (intro refs_add[OF r(1) i live _ _ rec]) (simp_all add: put_ticket_def tracker_unat_succ)
    moreover have "claims_ok (add_handle i (w\<lparr>tw_tracker := t'\<rparr>))"
      using unclaimed[OF w i] ok(1) by (intro claims_add[OF r(2,1) i rec]) simp
    moreover have "serials_ok t'" using f by (intro serials_put[OF r(3) i rec]) (simp_all add: put_ticket_def)
    ultimately show ?thesis using f(1) by (simp add: tracker_inv_def add_handle_def)
  qed
qed

lemma begin_new_inv:
  assumes w: "tracker_inv w" and live: "\<not> ft_freed (tw_tracker w)"
    and sc: "scan input e seq st 0 (records w) None None = Inr (f, c)"
    and b: "begin_new allocated e fid seq rcv input f c (tw_tracker w) = (res, h, t')"
  shows "tracker_inv (case h of None \<Rightarrow> w\<lparr>tw_tracker := t'\<rparr> | Some k \<Rightarrow> add_handle k (w\<lparr>tw_tracker := t'\<rparr>))"
proof (cases "find_record allocated f c (tw_tracker w)")
  case (Inl x)
  then have "h = None \<and> t' = tw_tracker w" using b by (auto simp: begin_new_def Let_def split: if_splits)
  then show ?thesis using w by simp
next
  case (Inr p)
  obtain i t1 where p: "p = (i, t1)" by fastforce
  let ?w1 = "w\<lparr>tw_tracker := t1\<rparr>"
  have t1: "tracker_inv ?w1 \<and> \<not> ft_freed t1 \<and> i < length (ft_records t1) \<and> tk_refs (ft_records t1 ! i) = 0"
  proof (cases "if f = None then c else f")
    case None
    have t1e: "i = length (records w)" "t1 = (tw_tracker w)\<lparr>ft_records := records w @ init_block, ft_storageCapacity := ft_storageCapacity (tw_tracker w) + IHS_FRAME_TRACKER_CAPACITY\<rparr>"
      using Inr p None by (auto simp: find_record_def split: if_splits)
    have "tracker_inv ?w1" unfolding t1e(2) by (rule grow_inv[OF w])
    then show ?thesis using t1e live by (simp add: nth_append init_block_def IHS_FRAME_TRACKER_CAPACITY_def new_ticket_def)
  next
    case (Some j)
    then have "i = j" "t1 = tw_tracker w" using Inr p by (auto simp: find_record_def split: option.splits if_splits)
    then show ?thesis using scan_unreferenced[OF sc Some] w live by simp
  qed
  show ?thesis
  proof (cases "\<not> input \<and> ft_seenValid (tw_tracker w) ! (unat seq mod IHS_FRAME_TRACKER_CAPACITY) \<and> ft_seen (tw_tracker w) ! (unat seq mod IHS_FRAME_TRACKER_CAPACITY) = seq")
    case True
    then have "h = None \<and> t' = tw_tracker w" using b by (auto simp: begin_new_def Let_def)
    then show ?thesis using w by simp
  next
    case False
    show ?thesis
    proof (cases "ft_serial t1 = 0xFFFFFFFFFFFFFFFF \<or> ft_refs t1 = 0 \<or> ft_refs t1 = 0xFFFFFFFF")
      case True
      then have "h = None \<and> t' = t1" using b False Inr p by (auto simp: begin_new_def Let_def retain_ref_def split: if_splits)
      then show ?thesis using t1 by simp
    next
      case ok: False
      then have "h = Some i" "t' = occupy e fid seq rcv input i (t1\<lparr>ft_refs := ft_refs t1 + 1\<rparr>)"
        using b False Inr p by (auto simp: begin_new_def Let_def retain_ref_def split: if_splits)
      then show ?thesis using occupy_inv[of ?w1 i e fid seq rcv input] t1 ok by simp
    qed
  qed
qed

lemma begin_inv:
  assumes w: "tracker_inv w" and o: "tw_owner w"
  shows "\<exists>w'. op_step (OpBegin allocated input e fid rcv) w = Some w' \<and> tracker_inv w'"
proof -
  let ?t = "tw_tracker w"
  have live: "\<not> ft_freed ?t" using owner_live w o by (simp add: tracker_inv_def)
  obtain res h t' where b: "begin_frame allocated e fid rcv input ?t = Some (res, h, t')"
    using live by (cases "begin_frame allocated e fid rcv input ?t") (auto simp: begin_frame_def)
  have "tracker_inv (case h of None \<Rightarrow> w\<lparr>tw_tracker := t'\<rparr> | Some k \<Rightarrow> add_handle k (w\<lparr>tw_tracker := t'\<rparr>))"
  proof (cases "\<not> ft_accepting ?t \<or> e \<noteq> ft_epoch ?t \<or> (\<exists>x. wire_sequence input fid ?t = Inl x)")
    case True
    then have "h = None \<and> t' = ?t" using b live by (auto simp: begin_frame_def split: if_splits)
    then show ?thesis using w by simp
  next
    case False
    then obtain seq where seq: "wire_sequence input fid ?t = Inr seq" "ft_accepting ?t" "e = ft_epoch ?t"
      by (cases "wire_sequence input fid ?t") auto
    show ?thesis
    proof (cases "scan input e seq (ft_statsTracking ?t) 0 (records w) None None")
      case (Inl i)
      then have j: "join_record rcv i ?t = (res, h, t')" using b seq live by (auto simp: begin_frame_def split: if_splits)
      show ?thesis using join_inv[OF w _ live j] scan_Inl[OF Inl] by simp
    next
      case (Inr p)
      obtain f c where p: "p = (f, c)" by fastforce
      then have j: "begin_new allocated e fid seq rcv input f c ?t = (res, h, t')" using b seq Inr live by (auto simp: begin_frame_def split: if_splits)
      show ?thesis using begin_new_inv[OF w live Inr[unfolded p] j] .
    qed
  qed
  then show ?thesis using b by (cases input) (simp_all add: IHS_FrameTrackerBeginInput_def IHS_FrameTrackerBegin_def)
qed

section \<open>Properties\<close>

lemma op_inv:
  assumes w: "tracker_inv w" and a: "op_allowed x w"
  shows "\<exists>w'. op_step x w = Some w' \<and> tracker_inv w'"
proof -
  have r: "refs_ok w" using w by (simp add: tracker_inv_def)
  note live = owner_live[OF r] and less = holds_less[OF r] and held = held_live[OF r] and same = inv_same[OF w]
  show ?thesis
  proof (cases x)
    case (OpOpen e) then show ?thesis using open_op[OF live, of e] a same by auto
  next
    case (OpCloseEpoch e) then show ?thesis using close_epoch_op[OF live, of e] a same by auto
  next
    case OpClose then show ?thesis using close_inv[OF w] a by simp
  next
    case (OpBegin allocated input e fid rcv) then show ?thesis using begin_inv[OF w] a by simp
  next
    case (OpRetain i) then show ?thesis using retain_inv[OF w] a by simp
  next
    case (OpRelease i) then show ?thesis using tracker_release_inv[OF w] a by simp
  next
    case (OpClaim i) then show ?thesis using claim_inv[OF w] a by simp
  next
    case (OpPublish now i oc) then show ?thesis using publish_inv[OF w] a by simp
  next
    case (OpComplete now i oc) then show ?thesis using complete_op[OF less held, of i i now oc] a same by auto
  next
    case (OpAbandon i) then show ?thesis using ticket_ops(1)[OF less held, of i i] a same by auto
  next
    case (OpDecode i e us) then show ?thesis using ticket_ops(2)[OF less held, of i i e us] a same by auto
  next
    case (OpUpload i e us) then show ?thesis using ticket_ops(3)[OF less held, of i i e us] a same by auto
  next
    case (OpVideoDecode us i e) then show ?thesis using ticket_ops(4)[OF less held, of i i us e] a same by auto
  next
    case (OpSetSize i n) then show ?thesis using ticket_ops(5)[OF less held, of i i n] a same by auto
  next
    case (OpSetTimestamp i ts) then show ?thesis using ticket_ops(6)[OF less held, of i i ts] a same by auto
  next
    case (OpCopyStats n) then show ?thesis using copy_op[OF live, of n] a same by auto
  next
    case (OpSettle now timeout n) then show ?thesis using settle_op[OF live, of now timeout n] a same by auto
  qed
qed

lemma run_inv: "tracker_inv w \<Longrightarrow> \<exists>w'. tracker_run xs w = Some w' \<and> tracker_inv w'"
proof (induction xs arbitrary: w)
  case (Cons x xs)
  show ?case
  proof (cases "op_allowed x w")
    case True
    then obtain w1 where "op_step x w = Some w1" "tracker_inv w1" using op_inv[OF Cons.prems] by blast
    then show ?thesis using True Cons.IH by auto
  next
    case False
    then show ?thesis using Cons by simp
  qed
qed simp

definition tracker_start :: "frame_tracker \<Rightarrow> tracker_world" where
  "tracker_start t = \<lparr>tw_tracker = t, tw_owner = True, tw_handles = [], tw_claims = []\<rparr>"

lemma start_inv:
  assumes "IHS_FrameTrackerCreate allocated mutex sid = Some t"
  shows "tracker_inv (tracker_start t)"
  using assms
  by (auto simp: IHS_FrameTrackerCreate_def tracker_start_def tracker_inv_def refs_ok_def claims_ok_def serials_ok_def
      init_block_def new_ticket_def new_frame_def zero_identity_def split: if_splits)

text \<open>C14: Whatever the owner and the holders of tickets do within the rules, no operation on a tracker touches freed
  memory or fails an assertion.  The tracker is freed exactly when its owner has closed it and the last
  ticket has been released, each count is the number of references held, a held ticket keeps the identity its
  holder was given, and two held tickets with the same receive serial are the same.\<close>

theorem frame_tracker_references:
  assumes "IHS_FrameTrackerCreate allocated mutex sid = Some t"
  shows "\<exists>w. tracker_run ops (tracker_start t) = Some w \<and>
    (ft_freed (tw_tracker w) \<longleftrightarrow> \<not> tw_owner w \<and> tw_handles w = []) \<and>
    (\<forall>(i, d) \<in> set (tw_handles w). IHS_FrameTicketIdentity i (tw_tracker w) = Some d \<and>
       unat (tk_refs (ft_records (tw_tracker w) ! i)) = count_list (map fst (tw_handles w)) i) \<and>
    (\<forall>(i, d) \<in> set (tw_handles w). \<forall>(j, e) \<in> set (tw_handles w).
       id_receiveSerial d = id_receiveSerial e \<and> id_receiveSerial d \<noteq> 0 \<longrightarrow> i = j)"
proof -
  obtain w where run: "tracker_run ops (tracker_start t) = Some w" and w: "tracker_inv w"
    using run_inv[OF start_inv[OF assms]] by blast
  have r: "refs_ok w" and s: "serials_ok (tw_tracker w)" using w by (simp_all add: tracker_inv_def)
  have h: "i < length (records w)" "tf_identity (tk_frame (records w ! i)) = d" "holds w i" if "(i, d) \<in> set (tw_handles w)" for i d
    using r that by (force simp: refs_ok_def record_identity_def holds_def)+
  have "\<forall>(i, d) \<in> set (tw_handles w). IHS_FrameTicketIdentity i (tw_tracker w) = Some d \<and>
       unat (tk_refs (records w ! i)) = count_list (map fst (tw_handles w)) i"
    using h r held_ticket[OF r] by (auto simp: IHS_FrameTicketIdentity_def refs_ok_def)
  moreover have "\<forall>(i, d) \<in> set (tw_handles w). \<forall>(j, e) \<in> set (tw_handles w).
       id_receiveSerial d = id_receiveSerial e \<and> id_receiveSerial d \<noteq> 0 \<longrightarrow> i = j"
    using h(1,2) s by (auto simp: serials_ok_def)
  moreover have "ft_freed (tw_tracker w) \<longleftrightarrow> \<not> tw_owner w \<and> tw_handles w = []" using r by (simp add: refs_ok_def)
  ultimately show ?thesis using run by blast
qed

theorem frame_tracker_references_witness:
  "\<exists>t w. IHS_FrameTrackerCreate True True 9 = Some t \<and>
    tracker_run [OpOpen 1, OpBegin True True 1 7 zero_receive, OpRetain 0, OpClaim 0, OpClose, OpRelease 0, OpPublish 5 0 zero_outcome, OpRelease 0]
      (tracker_start t) = Some w \<and> (ft_freed (tw_tracker w) \<longleftrightarrow> \<not> tw_owner w \<and> tw_handles w = [])"
proof -
  obtain t where t: "IHS_FrameTrackerCreate True True 9 = Some t" by (simp add: IHS_FrameTrackerCreate_def)
  from frame_tracker_references[OF t, of "[OpOpen 1, OpBegin True True 1 7 zero_receive, OpRetain 0, OpClaim 0, OpClose, OpRelease 0, OpPublish 5 0 zero_outcome, OpRelease 0]"]
  show ?thesis using t by blast
qed

end
