(* ===== verification/Data_Channel.thy ===== *)
theory Data_Channel
  imports Window
begin

text \<open>
  The data channel under audio and video (\<^verbatim>\<open>channels/ch_data.c\<close>, \<^verbatim>\<open>ch_data_decode.c\<close>): the queue of complete
  frames between the receiving thread and the worker, bounded in bytes and in frames, its life cycle,
  and the header that the worker strips before the consumer sees a frame.

  The linked list of the queue is a list of frames.  \<open>nodeSize\<close> is the size of a list node, which the source
  adds to every frame.  Threads are not modelled: a turn of the worker is one step, and the wait for input
  is left out.  \<^term>\<open>None\<close> is a failing assertion or an access outside a block.
\<close>

section \<open>The queue\<close>

record data_channel =
  dc_queue :: "session_frame list"
  dc_queuedBytes :: nat
  dc_queuedCount :: nat
  dc_queueLimit :: nat
  dc_queueCapacity :: nat
  dc_wakePending :: bool
  dc_interrupted :: bool
  dc_discardFrames :: bool
  dc_callerStarted :: bool
  dc_worker :: bool

definition no_frame :: session_frame where
  "no_frame = \<lparr>frm_header = zero_header, frm_body = IHS_BufferInit 0 0, frm_mediaOffset = 0, frm_mediaPrepared = False, frm_receivedRetries = 0\<rparr>"

text \<open>The previous content of \<open>frame\<close> is freed.\<close>

definition PollFEC :: "nat \<Rightarrow> session_frame \<Rightarrow> data_channel \<Rightarrow> (bool \<times> session_frame \<times> data_channel) option" where
  "PollFEC nodeSize frame c = (case dc_queue c of
       [] \<Rightarrow> Some (False, frame, c)
     | node # rest \<Rightarrow> do {
         _ \<leftarrow> IHS_BufferClear (frm_body frame) True;
         Some (True, node, c\<lparr>dc_queue := rest, dc_queuedBytes := sz_sub (dc_queuedBytes c) (buf_capacity (frm_body node) + nodeSize),
           dc_queuedCount := sz_sub (dc_queuedCount c) 1\<rparr>)
       })"

definition bad_body :: "ihs_buffer \<Rightarrow> bool" where
  "bad_body body \<longleftrightarrow> buf_capacity body < buf_offset body \<or> buf_capacity body - buf_offset body < buf_suffix body \<or>
     buf_capacity body - buf_offset body - buf_suffix body < buf_size body \<or> buf_capacity body \<noteq> 0 \<and> buf_data body = None"

definition is_data_packet :: "ihs_buffer \<Rightarrow> bool option" where
  "is_data_packet body =
     (if buf_size body = 0 then Some False
      else do { p \<leftarrow> IHS_BufferPointer body; d \<leftarrow> buf_load body p 1; Some (d = [1]) })"

text \<open>A frame that is not queued is freed.\<close>

definition refuse :: "session_frame \<Rightarrow> data_channel \<Rightarrow> (bool \<times> session_frame \<times> data_channel) option" where
  "refuse frame c = do { b \<leftarrow> IHS_BufferClear (frm_body frame) True; Some (False, frame\<lparr>frm_body := b\<rparr>, c) }"

text \<open>Storage beyond the limit is given back; the bytes, the offset and the suffix stay.\<close>

definition compact_body :: "nat \<Rightarrow> allocator \<Rightarrow> nat \<Rightarrow> ihs_buffer \<Rightarrow> (bool \<times> ihs_buffer) option" where
  "compact_body room mem used body =
     (if buf_capacity body \<le> room then Some (True, body)
      else if used = 0 then do { b \<leftarrow> IHS_BufferClear body True; Some (True, b) }
      else do {
        old \<leftarrow> buf_data body;
        case realloc_bytes mem old used of None \<Rightarrow> Some (False, body)
        | Some xs \<Rightarrow> Some (True, body\<lparr>buf_data := Some xs, buf_capacity := used\<rparr>)
      })"

fun make_room :: "nat \<Rightarrow> nat \<Rightarrow> session_frame list \<Rightarrow> data_channel \<Rightarrow> data_channel option" where
  "make_room nodeSize need [] c = Some c"
| "make_room nodeSize need (node # rest) c =
     (if sz_sub (dc_queueLimit c) need < dc_queuedBytes c \<or> dc_queuedCount c = dc_queueCapacity c
      then do {
        (_, old, c) \<leftarrow> PollFEC nodeSize no_frame c;
        _ \<leftarrow> IHS_BufferClear (frm_body old) True;
        make_room nodeSize need rest c
      } else Some c)"

definition append_node :: "nat \<Rightarrow> session_frame \<Rightarrow> data_channel \<Rightarrow> data_channel" where
  "append_node need frame c = c\<lparr>dc_queue := dc_queue c @ [frame], dc_queuedBytes := sz_add (dc_queuedBytes c) need,
     dc_queuedCount := sz_add (dc_queuedCount c) 1\<rparr>"

definition store_frame ::
    "nat \<Rightarrow> allocator \<Rightarrow> bool \<Rightarrow> session_frame \<Rightarrow> data_channel \<Rightarrow> (bool \<times> session_frame \<times> data_channel) option" where
  "store_frame nodeSize mem node frame c = do {
     let body = frm_body frame;
     let used = buf_offset body + buf_size body + buf_suffix body;
     if dc_queueLimit c < nodeSize \<or> dc_queueLimit c - nodeSize < used then refuse frame c
     else do {
       (ok, body) \<leftarrow> compact_body (dc_queueLimit c - nodeSize) mem used body;
       let frame = frame\<lparr>frm_body := body\<rparr>;
       if \<not> ok then refuse frame c
       else do {
         let need = sz_add (buf_capacity body) nodeSize;
         c \<leftarrow> make_room nodeSize need (dc_queue c) c;
         if \<not> node then refuse frame c
         else Some (True, no_frame, append_node need frame c)
       }
     }
   }"

text \<open>\<open>playing\<close> says that the connection is up and the client not paused; \<open>node\<close> that a list node could be
  allocated.\<close>

definition QueueFrame ::
    "nat \<Rightarrow> allocator \<Rightarrow> bool \<Rightarrow> bool \<Rightarrow> session_frame \<Rightarrow> data_channel \<Rightarrow> (bool \<times> session_frame \<times> data_channel) option" where
  "QueueFrame nodeSize mem playing node frame c =
     (if bad_body (frm_body frame) then refuse frame c
      else do {
        data \<leftarrow> is_data_packet (frm_body frame);
        if data \<and> \<not> playing then refuse frame c
        else store_frame nodeSize mem node frame c
      })"

fun purge :: "nat \<Rightarrow> session_frame list \<Rightarrow> data_channel \<Rightarrow> data_channel option" where
  "purge nodeSize [] c = Some c"
| "purge nodeSize (node # rest) c = do {
     (_, frame, c) \<leftarrow> PollFEC nodeSize no_frame c;
     _ \<leftarrow> IHS_BufferClear (frm_body frame) True;
     purge nodeSize rest c
   }"

section \<open>Life cycle\<close>

definition DataThreadInterrupt :: "data_channel \<Rightarrow> data_channel" where
  "DataThreadInterrupt c = c\<lparr>dc_interrupted := True, dc_wakePending := True\<rparr>"

text \<open>The verdict is whether the channel can be used.  \<open>resources\<close>: locks and receive window exist; \<open>onCaller\<close>, \<open>started\<close>:
  the decoder is started here, and with what result; \<open>thread\<close>: the worker could be created.\<close>

definition IHS_SessionChannelDataInit :: "nat \<Rightarrow> u16 \<Rightarrow> bool \<Rightarrow> bool \<Rightarrow> bool \<Rightarrow> bool \<Rightarrow> bool \<times> data_channel" where
  "IHS_SessionChannelDataInit nodeSize windowCapacity resources onCaller started thread =
     (let limit = unat windowCapacity * 2048; minimum = 2 * 1024 * 1024 + nodeSize;
          c = \<lparr>dc_queue = [], dc_queuedBytes = 0, dc_queuedCount = 0, dc_queueLimit = (if limit < minimum then minimum else limit),
               dc_queueCapacity = unat windowCapacity, dc_wakePending = False, dc_interrupted = False, dc_discardFrames = False,
               dc_callerStarted = False, dc_worker = False\<rparr> in
      if \<not> resources then (False, c)
      else let c = c\<lparr>dc_callerStarted := onCaller \<and> started\<rparr> in
        if onCaller \<and> \<not> started then (True, c\<lparr>dc_discardFrames := True\<rparr>)
        else let c = c\<lparr>dc_worker := thread\<rparr> in
          if \<not> thread \<and> onCaller then (True, c)
          else if \<not> thread then (False, DataThreadInterrupt c) else (True, c))"

text \<open>The result tells whether the consumer has to be stopped.\<close>

definition IHS_SessionChannelDataDeinit :: "nat \<Rightarrow> data_channel \<Rightarrow> (bool \<times> data_channel) option" where
  "IHS_SessionChannelDataDeinit nodeSize c = do {
     assert_that (dc_worker c \<longrightarrow> dc_interrupted c);
     c \<leftarrow> purge nodeSize (dc_queue c) c;
     Some (dc_callerStarted c, c\<lparr>dc_callerStarted := False\<rparr>)
   }"

definition IHS_SessionChannelDataStopped :: "data_channel \<Rightarrow> data_channel" where
  "IHS_SessionChannelDataStopped c = DataThreadInterrupt c"

definition IHS_SessionChannelDataJoinAndPurge :: "nat \<Rightarrow> data_channel \<Rightarrow> data_channel option" where
  "IHS_SessionChannelDataJoinAndPurge nodeSize c = do {
     let c = (DataThreadInterrupt c)\<lparr>dc_interrupted := True, dc_worker := False\<rparr>;
     purge nodeSize (dc_queue c) c
   }"

definition IHS_SessionChannelDataRestartWorker :: "bool \<Rightarrow> data_channel \<Rightarrow> data_channel option" where
  "IHS_SessionChannelDataRestartWorker thread c = do {
     assert_that (\<not> dc_worker c);
     Some (c\<lparr>dc_interrupted := False, dc_worker := thread\<rparr>)
   }"

definition IHS_SessionChannelDataReceiveReliableFrame ::
    "nat \<Rightarrow> allocator \<Rightarrow> bool \<Rightarrow> bool \<Rightarrow> session_frame \<Rightarrow> data_channel \<Rightarrow> (session_frame \<times> data_channel) option" where
  "IHS_SessionChannelDataReceiveReliableFrame nodeSize mem playing node frame c =
     (if dc_interrupted c \<or> dc_discardFrames c then Some (frame, c)
      else do {
        (drained, body) \<leftarrow> IHS_BufferTransferOwnership (frm_body frame);
        (queued, _, c) \<leftarrow> QueueFrame nodeSize mem playing node (frame\<lparr>frm_body := body, frm_receivedRetries := 0\<rparr>) c;
        Some (frame\<lparr>frm_body := drained\<rparr>, if queued then c\<lparr>dc_wakePending := True\<rparr> else c)
      })"

definition IHS_SessionChannelDataPollLocked :: "nat \<Rightarrow> session_frame \<Rightarrow> data_channel \<Rightarrow> (bool \<times> session_frame \<times> data_channel) option" where
  "IHS_SessionChannelDataPollLocked nodeSize frame c = PollFEC nodeSize frame c"

section \<open>The header of a data frame\<close>

record data_header =
  dh_timestampsLocal :: bool
  dh_receivedRecorded :: bool
  dh_id :: u16
  dh_timestamp :: u32
  dh_inputMark :: u16
  dh_inputRecvTimestamp :: u32
  dh_sendTimestamp :: u32
  dh_receiveTimestamp :: u32
  dh_receiveBegin :: u32

definition IHS_SESSION_DATA_FRAME_HEADER_SIZE :: nat where "IHS_SESSION_DATA_FRAME_HEADER_SIZE = 12"

definition field_at :: "ihs_buffer \<Rightarrow> nat \<Rightarrow> bytes option" where
  "field_at data offset = do { p \<leftarrow> IHS_BufferPointerAt data offset; xs \<leftarrow> buf_data data; Some (drop p xs) }"

definition IHS_SessionChannelDataFrameHeaderParse :: "ihs_buffer \<Rightarrow> (data_header \<times> nat) option option" where
  "IHS_SessionChannelDataFrameHeaderParse data =
     (if buf_size data < IHS_SESSION_DATA_FRAME_HEADER_SIZE then Some None
      else do {
        d \<leftarrow> field_at data 0; i \<leftarrow> IHS_ReadUInt16LE d;
        d \<leftarrow> field_at data 2; timestamp \<leftarrow> IHS_ReadUInt32LE d;
        d \<leftarrow> field_at data 6; inputMark \<leftarrow> IHS_ReadUInt16LE d;
        d \<leftarrow> field_at data 8; inputRecv \<leftarrow> IHS_ReadUInt32LE d;
        Some (Some (\<lparr>dh_timestampsLocal = False, dh_receivedRecorded = False, dh_id = i, dh_timestamp = timestamp, dh_inputMark = inputMark,
          dh_inputRecvTimestamp = inputRecv, dh_sendTimestamp = 0, dh_receiveTimestamp = 0, dh_receiveBegin = 0\<rparr>, 12))
      })"

definition localise :: "session_frame \<Rightarrow> data_header \<Rightarrow> data_header" where
  "localise frame h =
     (let h = h\<lparr>dh_sendTimestamp := hdr_sendTimestamp (frm_header frame), dh_receiveTimestamp := hdr_receiveTimestamp (frm_header frame),
                dh_receiveBegin := hdr_receiveBegin (frm_header frame)\<rparr> in
      if frm_mediaPrepared frame
      then h\<lparr>dh_timestamp := dh_timestamp h - frm_mediaOffset frame, dh_sendTimestamp := dh_sendTimestamp h - frm_mediaOffset frame,
             dh_inputRecvTimestamp := (if dh_inputRecvTimestamp h \<noteq> 0 then dh_inputRecvTimestamp h - frm_mediaOffset frame else 0),
             dh_timestampsLocal := True, dh_receivedRecorded := True\<rparr>
      else h)"

text \<open>The header and the body that the consumer gets, if it gets the frame.\<close>

definition IHS_SessionChannelDataReceiveFrame :: "session_frame \<Rightarrow> (data_header \<times> ihs_buffer) option option" where
  "IHS_SessionChannelDataReceiveFrame frame = do {
     assert_that (hdr_type (frm_header frame) \<in> {IHS_SessionPacketTypeUnreliable, IHS_SessionPacketTypeUnreliableFEC, IHS_SessionPacketTypeReliable});
     let body = frm_body frame;
     if buf_size body < 1 then Some None
     else do {
       p \<leftarrow> IHS_BufferPointer body;
       d \<leftarrow> buf_load body p 1;
       body \<leftarrow> IHS_BufferOffsetBy body 1;
       if d \<noteq> [1] then Some None
       else if buf_size body < IHS_SESSION_DATA_FRAME_HEADER_SIZE then Some None
       else do {
         parsed \<leftarrow> IHS_SessionChannelDataFrameHeaderParse body;
         case parsed of None \<Rightarrow> Some None
         | Some (h, offset) \<Rightarrow> do {
             body \<leftarrow> IHS_BufferOffsetBy body (int offset);
             Some (Some (localise frame h, body))
           }
       }
     }
   }"

end
