(* ===== verification/Data_Channel_Props.thy ===== *)
theory Data_Channel_Props
  imports Data_Channel "HOL-Library.Sublist"
begin

text \<open>
  The queue of a data channel stays within its limits and its counters are exact; the worker takes
  frames in the order of their arrival, and what is lost is dropped from the front, no more than
  a new frame needs.
\<close>

section \<open>Invariant\<close>

definition cost :: "nat \<Rightarrow> session_frame \<Rightarrow> nat" where
  "cost nodeSize f = buf_capacity (frm_body f) + nodeSize"

definition queued_total :: "nat \<Rightarrow> session_frame list \<Rightarrow> nat" where
  "queued_total nodeSize fs = sum_list (map (cost nodeSize) fs)"

definition fifo_ok :: "nat \<Rightarrow> data_channel \<Rightarrow> bool" where
  "fifo_ok nodeSize c \<longleftrightarrow> dc_queuedBytes c = queued_total nodeSize (dc_queue c) \<and> dc_queuedCount c = length (dc_queue c) \<and>
     dc_queuedBytes c \<le> dc_queueLimit c \<and> dc_queueLimit c < 2 ^ 64 \<and> length (dc_queue c) \<le> dc_queueCapacity c \<and>
     0 < dc_queueCapacity c \<and> dc_queueCapacity c < 2 ^ 64 \<and> list_all (\<lambda>f. buf_wf (frm_body f)) (dc_queue c)"

lemma queued_total_simps [simp]: "queued_total n [] = 0" "queued_total n (f # fs) = cost n f + queued_total n fs" "queued_total n (fs @ gs) = queued_total n fs + queued_total n gs"
  by (simp_all add: queued_total_def)

lemma clear_total: "buf_wf b \<Longrightarrow> \<exists>b'. IHS_BufferClear b x = Some b'"
  by (auto simp: IHS_BufferClear_def Let_def buf_wf_def split: option.splits)

text \<open>The channel after the first \<open>k\<close> frames have left the queue.\<close>

definition shorten :: "nat \<Rightarrow> nat \<Rightarrow> data_channel \<Rightarrow> data_channel" where
  "shorten nodeSize k c = c\<lparr>dc_queue := drop k (dc_queue c), dc_queuedBytes := queued_total nodeSize (drop k (dc_queue c)),
     dc_queuedCount := length (drop k (dc_queue c))\<rparr>"

lemma total_drop: "queued_total n (drop k fs) \<le> queued_total n fs"
proof -
  have "queued_total n fs = queued_total n (take k fs) + queued_total n (drop k fs)" by (metis append_take_drop_id queued_total_simps(3))
  then show ?thesis by simp
qed

lemma shorten_ok: "fifo_ok nodeSize c \<Longrightarrow> fifo_ok nodeSize (shorten nodeSize k c)"
  using total_drop[of nodeSize k "dc_queue c"]
  by (auto simp: fifo_ok_def shorten_def list_all_length)

lemma shorten_0: "fifo_ok nodeSize c \<Longrightarrow> shorten nodeSize 0 c = c"
  by (simp add: fifo_ok_def shorten_def)

lemma shorten_shorten: "shorten n j (shorten n k c) = shorten n (k + j) c"
  by (simp add: shorten_def add.commute)

lemma Poll_spec:
  assumes c: "fifo_ok nodeSize c" "dc_queue c = f # fs" and g: "buf_wf (frm_body g)"
  shows "PollFEC nodeSize g c = Some (True, f, shorten nodeSize 1 c)"
proof -
  have le: "cost nodeSize f + queued_total nodeSize fs < 2 ^ 64" "length fs < 2 ^ 64" using c by (auto simp: fifo_ok_def)
  have "sz_sub (dc_queuedBytes c) (buf_capacity (frm_body f) + nodeSize) = queued_total nodeSize fs"
    using c le by (simp add: fifo_ok_def sz_sub_exact cost_def)
  moreover have "sz_sub (dc_queuedCount c) 1 = length fs" using c le by (simp add: fifo_ok_def sz_sub_exact)
  moreover obtain b where "IHS_BufferClear (frm_body g) True = Some b" using clear_total[OF g] by blast
  ultimately show ?thesis using c(2) by (simp add: PollFEC_def shorten_def)
qed

lemma no_frame_wf [simp]: "buf_wf (frm_body no_frame)"
  by (simp add: no_frame_def buf_wf_Init)

section \<open>Operations\<close>

text \<open>Frames are dropped while there is no room, and no longer.\<close>

definition no_room :: "nat \<Rightarrow> nat \<Rightarrow> data_channel \<Rightarrow> bool" where
  "no_room nodeSize need c \<longleftrightarrow> dc_queueLimit c - need < queued_total nodeSize (dc_queue c) \<or> length (dc_queue c) = dc_queueCapacity c"

lemma make_room_spec:
  assumes need: "need \<le> dc_queueLimit c"
  shows "fifo_ok nodeSize c \<Longrightarrow> dc_queue c = fs \<Longrightarrow> \<exists>k. make_room nodeSize need fs c = Some (shorten nodeSize k c) \<and>
    \<not> no_room nodeSize need (shorten nodeSize k c) \<and> (\<forall>j < k. no_room nodeSize need (shorten nodeSize j c))"
  using need
proof (induction fs arbitrary: c)
  case Nil
  then show ?case by (intro exI[of _ 0]) (auto simp: shorten_0 no_room_def fifo_ok_def)
next
  case (Cons f fs)
  have lim: "sz_sub (dc_queueLimit c) need = dc_queueLimit c - need" using Cons.prems by (simp add: fifo_ok_def sz_sub_exact)
  have nr: "(sz_sub (dc_queueLimit c) need < dc_queuedBytes c \<or> dc_queuedCount c = dc_queueCapacity c) = no_room nodeSize need c"
    using Cons.prems(1) lim by (simp add: no_room_def fifo_ok_def)
  show ?case
  proof (cases "no_room nodeSize need c")
    case False
    then show ?thesis using nr Cons.prems(1) by (intro exI[of _ 0]) (simp add: shorten_0)
  next
    case True
    let ?c = "shorten nodeSize 1 c"
    have p: "PollFEC nodeSize no_frame c = Some (True, f, ?c)" by (rule Poll_spec[OF Cons.prems(1,2) no_frame_wf])
    have "buf_wf (frm_body f)" using Cons.prems by (simp add: fifo_ok_def)
    then obtain b where b: "IHS_BufferClear (frm_body f) True = Some b" using clear_total by blast
    have c: "dc_queue ?c = fs" "need \<le> dc_queueLimit ?c" using Cons.prems(2,3) by (simp_all add: shorten_def)
    from Cons.IH[OF shorten_ok[OF Cons.prems(1)] c] obtain k where k: "make_room nodeSize need fs ?c = Some (shorten nodeSize k ?c)"
      "\<not> no_room nodeSize need (shorten nodeSize k ?c)" "\<forall>j < k. no_room nodeSize need (shorten nodeSize j ?c)" by blast
    have "\<forall>j < Suc k. no_room nodeSize need (shorten nodeSize j c)"
      using k(3) True shorten_0[OF Cons.prems(1)] by (auto simp: shorten_shorten less_Suc_eq_0_disj)
    then show ?thesis using True nr p b k(1,2) by (intro exI[of _ "Suc k"]) (simp add: shorten_shorten)
  qed
qed

lemma compact_spec:
  assumes wf: "buf_wf b" and law: "alloc_law mem" and u: "used = buf_offset b + buf_size b + buf_suffix b" "used \<le> room"
  shows "\<exists>ok b'. compact_body room mem used b = Some (ok, b') \<and> buf_wf b' \<and> (\<not> ok \<longrightarrow> mem used = None) \<and>
    (ok \<longrightarrow> buf_content b' = buf_content b \<and> buf_capacity b' \<le> room)"
proof (cases "buf_capacity b \<le> room")
  case True
  then show ?thesis using wf by (auto simp: compact_body_def)
next
  case big: False
  show ?thesis
  proof (cases "used = 0")
    case True
    then have s: "buf_size b = 0" "buf_suffix b = 0" using u(1) by simp_all
    obtain b' where b': "IHS_BufferClear b True = Some b'" "buf_content b' = []" "buf_data b' = None \<and> buf_capacity b' = 0" "buf_wf b'"
      using Clear_spec[OF wf, of True] s(2) by metis
    have "buf_content b = []" using s(1) by (simp add: buf_content_def split: option.split)
    then show ?thesis using True big b' by (auto simp: compact_body_def)
  next
    case False
    have "0 < buf_capacity b" using big by simp
    then obtain old where old: "buf_data b = Some old" "length old = buf_capacity b" using buf_wf_block[OF wf] by metis
    show ?thesis
    proof (cases "mem used")
      case None
      then show ?thesis using big False old wf by (auto simp: compact_body_def realloc_bytes_def)
    next
      case (Some fresh)
      have "length fresh = used" using law Some by (simp add: alloc_law_def)
      then have r: "realloc_bytes mem old used = Some (take used old)" using Some old(2) big u(2) by (simp add: realloc_bytes_def)
      let ?b = "b\<lparr>buf_data := Some (take used old), buf_capacity := used\<rparr>"
      have "buf_wf ?b" using wf old big u by (auto simp: buf_wf_def)
      moreover have "buf_content ?b = buf_content b" using old u(1) by (simp add: buf_content_def drop_take min_def)
      ultimately show ?thesis using big False old r u(2) by (auto simp: compact_body_def)
    qed
  qed
qed

lemma refuse_spec:
  assumes "buf_wf (frm_body f)"
  obtains f' where "\<And>c. refuse f c = Some (False, f', c)"
proof -
  obtain b where "IHS_BufferClear (frm_body f) True = Some b" using clear_total[OF assms] by blast
  then show thesis using that[of "f\<lparr>frm_body := b\<rparr>"] by (simp add: refuse_def)
qed

lemma append_ok:
  assumes c: "fifo_ok nodeSize c" "\<not> no_room nodeSize (cost nodeSize f) c" and f: "buf_wf (frm_body f)" "cost nodeSize f \<le> dc_queueLimit c"
  shows "fifo_ok nodeSize (append_node (cost nodeSize f) f c)"
proof -
  have le: "queued_total nodeSize (dc_queue c) + cost nodeSize f \<le> dc_queueLimit c" "length (dc_queue c) < dc_queueCapacity c"
    using c f(2) by (auto simp: no_room_def fifo_ok_def)
  moreover have "sz_add (dc_queuedBytes c) (cost nodeSize f) = queued_total nodeSize (dc_queue c) + cost nodeSize f"
    using c(1) le(1) by (simp add: fifo_ok_def sz_add_exact)
  moreover have "sz_add (dc_queuedCount c) 1 = length (dc_queue c) + 1" using c(1) le(2) by (simp add: fifo_ok_def sz_add_exact)
  ultimately show ?thesis using c(1) f(1) by (simp add: fifo_ok_def append_node_def)
qed

text \<open>What a frame is to the consumer.\<close>

definition frame_view :: "session_frame \<Rightarrow> packet_header \<times> bytes" where
  "frame_view f = (frm_header f, buf_content (frm_body f))"

definition fits_queue :: "nat \<Rightarrow> session_frame \<Rightarrow> data_channel \<Rightarrow> bool" where
  "fits_queue nodeSize f c \<longleftrightarrow> buf_offset (frm_body f) + buf_size (frm_body f) + buf_suffix (frm_body f) + nodeSize \<le> dc_queueLimit c"

lemma store_spec:
  assumes c: "fifo_ok nodeSize c" and wf: "buf_wf (frm_body f)" and law: "alloc_law mem"
  shows "\<exists>ok f' c'. store_frame nodeSize mem node f c = Some (ok, f', c') \<and> fifo_ok nodeSize c' \<and>
    (\<exists>k. if ok then (\<exists>g. c' = append_node (cost nodeSize g) g (shorten nodeSize k c) \<and> frame_view g = frame_view f \<and>
            (\<forall>j < k. no_room nodeSize (cost nodeSize g) (shorten nodeSize j c)))
         else c' = shorten nodeSize k c) \<and>
    (live_alloc mem \<longrightarrow> (ok \<longleftrightarrow> node \<and> fits_queue nodeSize f c))"
proof -
  let ?b = "frm_body f"
  let ?used = "buf_offset ?b + buf_size ?b + buf_suffix ?b"
  note c0 = shorten_0[OF c]
  show ?thesis
  proof (cases "dc_queueLimit c < nodeSize \<or> dc_queueLimit c - nodeSize < ?used")
    case True
    then have "\<not> fits_queue nodeSize f c" by (auto simp: fits_queue_def)
    moreover obtain f' where "refuse f c = Some (False, f', c)" using refuse_spec[OF wf] by metis
    ultimately show ?thesis using True c c0 by (auto simp: store_frame_def Let_def intro!: exI[of _ 0])
  next
    case False
    then have fits: "fits_queue nodeSize f c" and room: "?used \<le> dc_queueLimit c - nodeSize" "nodeSize \<le> dc_queueLimit c" by (auto simp: fits_queue_def)
    obtain ok b where b: "compact_body (dc_queueLimit c - nodeSize) mem ?used ?b = Some (ok, b)" "buf_wf b" "\<not> ok \<longrightarrow> mem ?used = None"
      "ok \<longrightarrow> buf_content b = buf_content ?b \<and> buf_capacity b \<le> dc_queueLimit c - nodeSize"
      using compact_spec[OF wf law refl room(1)] by blast
    let ?g = "f\<lparr>frm_body := b\<rparr>"
    have wg: "buf_wf (frm_body ?g)" using b(2) by simp
    obtain f1 where r1: "\<And>c'. refuse ?g c' = Some (False, f1, c')" using refuse_spec[OF wg] by metis
    show ?thesis
    proof (cases ok)
      case no: False
      then have "\<not> live_alloc mem" using b(3) by (auto simp: live_alloc_def)
      then show ?thesis using False b(1) no r1 c c0 by (auto simp: store_frame_def Let_def intro!: exI[of _ 0])
    next
      case ok: True
      have sum: "buf_capacity b + nodeSize \<le> dc_queueLimit c" "dc_queueLimit c < 2 ^ 64" using b(4) ok room(2) c by (auto simp: fifo_ok_def)
      have cost: "cost nodeSize ?g \<le> dc_queueLimit c" "sz_add (buf_capacity b) nodeSize = cost nodeSize ?g"
        using sum sz_add_exact[of "buf_capacity b" nodeSize] by (simp_all add: cost_def)
      from make_room_spec[OF cost(1) c refl] obtain k where k: "make_room nodeSize (cost nodeSize ?g) (dc_queue c) c = Some (shorten nodeSize k c)"
        "\<not> no_room nodeSize (cost nodeSize ?g) (shorten nodeSize k c)" "\<forall>j < k. no_room nodeSize (cost nodeSize ?g) (shorten nodeSize j c)" by blast
      have "fifo_ok nodeSize (append_node (cost nodeSize ?g) ?g (shorten nodeSize k c))"
        using append_ok[OF shorten_ok[OF c] k(2)] b(2) cost(1) by (simp add: shorten_def)
      moreover have "frame_view ?g = frame_view f" using b(4) ok by (simp add: frame_view_def)
      moreover have "store_frame nodeSize mem node f c =
          (if node then Some (True, no_frame, append_node (cost nodeSize ?g) ?g (shorten nodeSize k c)) else Some (False, f1, shorten nodeSize k c))"
        using False b(1) ok cost(2) k(1) r1 by (simp add: store_frame_def Let_def)
      ultimately show ?thesis using k(3) fits shorten_ok[OF c] by (cases node) (simp_all, blast+)
    qed
  qed
qed

lemma Queue_spec:
  assumes c: "fifo_ok nodeSize c" and wf: "buf_wf (frm_body f)" and law: "alloc_law mem"
  shows "\<exists>ok f' c'. QueueFrame nodeSize mem playing node f c = Some (ok, f', c') \<and> fifo_ok nodeSize c' \<and>
    (\<exists>k. if ok then (\<exists>g. c' = append_node (cost nodeSize g) g (shorten nodeSize k c) \<and> frame_view g = frame_view f \<and>
            (\<forall>j < k. no_room nodeSize (cost nodeSize g) (shorten nodeSize j c)))
         else c' = shorten nodeSize k c)"
proof -
  have good: "\<not> bad_body (frm_body f)" using wf by (auto simp: bad_body_def buf_wf_def split: option.splits)
  have "\<exists>d. is_data_packet (frm_body f) = Some d"
  proof (cases "buf_size (frm_body f) = 0")
    case False
    have cap: "0 < buf_capacity (frm_body f) - buf_offset (frm_body f) - buf_suffix (frm_body f)" using buf_wf_bounds(1)[OF wf] False by linarith
    then have "0 < buf_capacity (frm_body f)" by linarith
    then obtain xs where xs: "buf_data (frm_body f) = Some xs" "length xs = buf_capacity (frm_body f)" using buf_wf_block[OF wf] by metis
    have "buf_offset (frm_body f) + 1 \<le> length xs" using buf_wf_bounds(1)[OF wf] False xs(2) by linarith
    then show ?thesis using PointerAt_in[OF wf cap] xs False by (simp add: is_data_packet_def IHS_BufferPointer_def buf_load_def mem_read_def)
  qed (auto simp: is_data_packet_def)
  then obtain d where d: "is_data_packet (frm_body f) = Some d" by blast
  show ?thesis
  proof (cases "d \<and> \<not> playing")
    case True
    obtain f' where "refuse f c = Some (False, f', c)" using refuse_spec[OF wf] by metis
    then show ?thesis using good d True c shorten_0[OF c] by (auto simp: QueueFrame_def intro!: exI[of _ 0])
  next
    case False
    then have "QueueFrame nodeSize mem playing node f c = store_frame nodeSize mem node f c" using good d by (auto simp: QueueFrame_def)
    then show ?thesis using store_spec[OF c wf law, of node] by metis
  qed
qed

lemma purge_spec: "fifo_ok nodeSize c \<Longrightarrow> dc_queue c = fs \<Longrightarrow> purge nodeSize fs c = Some (shorten nodeSize (length fs) c)"
proof (induction fs arbitrary: c)
  case Nil
  then show ?case by (simp add: shorten_0)
next
  case (Cons f fs)
  have "buf_wf (frm_body f)" using Cons.prems by (simp add: fifo_ok_def)
  then obtain b where b: "IHS_BufferClear (frm_body f) True = Some b" using clear_total by blast
  have q: "dc_queue (shorten nodeSize 1 c) = fs" using Cons.prems(2) by (simp add: shorten_def)
  show ?case using Poll_spec[OF Cons.prems no_frame_wf] b Cons.IH[OF shorten_ok[OF Cons.prems(1)] q] by (simp add: shorten_shorten)
qed

section \<open>The header\<close>

lemma field_read:
  assumes wf: "buf_wf b" and r: "pos + n \<le> buf_size b" "0 < n"
  obtains d where "field_at b pos = Some d" "mem_read d 0 n = Some (take n (drop pos (buf_content b)))"
proof -
  have le: "buf_offset b + buf_size b + buf_suffix b \<le> buf_capacity b" using buf_wf_bounds(1)[OF wf] .
  then have cap: "0 < buf_capacity b" "pos < buf_capacity b - buf_offset b - buf_suffix b" using r by linarith+
  obtain xs where xs: "buf_data b = Some xs" "length xs = buf_capacity b" using buf_wf_block[OF wf cap(1)] .
  have "field_at b pos = Some (drop (buf_offset b + pos) xs)" using PointerAt_in[OF wf cap(2)] xs(1) by (simp add: field_at_def)
  moreover have "mem_read (drop (buf_offset b + pos) xs) 0 n = Some (take n (drop pos (buf_content b)))"
  proof -
    have "n \<le> buf_size b - pos" "n \<le> length xs - (buf_offset b + pos)" using le r xs(2) by linarith+
    then show ?thesis using xs(1) by (simp add: mem_read_def buf_content_def drop_take add.commute min_def)
  qed
  ultimately show thesis using that by blast
qed

text \<open>The consumer gets the fields that the sender wrote and the bytes behind them.\<close>

lemma data_frame_decoded:
  assumes wf: "buf_wf (frm_body f)"
    and type: "hdr_type (frm_header f) \<in> {IHS_SessionPacketTypeUnreliable, IHS_SessionPacketTypeUnreliableFEC, IHS_SessionPacketTypeReliable}"
    and content: "buf_content (frm_body f) = 1 # le_bytes 2 i @ le_bytes 4 ts @ le_bytes 2 m @ le_bytes 4 rt @ payload"
  shows "\<exists>b. IHS_SessionChannelDataReceiveFrame f = Some (Some (localise f \<lparr>dh_timestampsLocal = False, dh_receivedRecorded = False, dh_id = i,
      dh_timestamp = ts, dh_inputMark = m, dh_inputRecvTimestamp = rt, dh_sendTimestamp = 0, dh_receiveTimestamp = 0, dh_receiveBegin = 0\<rparr>, b)) \<and>
    buf_wf b \<and> buf_content b = payload"
proof -
  let ?b = "frm_body f"
  have size: "buf_size ?b = 13 + length payload" using content length_buf_content[OF wf] by (simp add: length_le_bytes)
  have cap: "0 < buf_capacity ?b - buf_offset ?b - buf_suffix ?b" using buf_wf_bounds(1)[OF wf] size by linarith
  then have c0: "0 < buf_capacity ?b" by linarith
  obtain xs where xs: "buf_data ?b = Some xs" "length xs = buf_capacity ?b" using buf_wf_block[OF wf c0] .
  have p: "IHS_BufferPointer ?b = Some (buf_offset ?b)" using PointerAt_in[OF wf cap] by (simp add: IHS_BufferPointer_def)
  have l: "buf_load ?b (buf_offset ?b) 1 = Some [1]"
  proof -
    have "take 1 (drop (buf_offset ?b) xs) = take 1 (buf_content ?b)" using xs(1) size by (simp add: buf_content_def min_def)
    then show ?thesis using xs buf_wf_bounds(1)[OF wf] size content by (simp add: buf_load_def mem_read_def)
  qed
  have k1: "1 \<le> buf_size ?b" using size by simp
  obtain b1 where b1: "IHS_BufferOffsetBy ?b 1 = Some b1" "buf_wf b1" "buf_size b1 = 12 + length payload"
    and c1: "buf_content b1 = le_bytes 2 i @ le_bytes 4 ts @ le_bytes 2 m @ le_bytes 4 rt @ payload"
    using OffsetBy_forward[OF wf k1] content size by simp
  have k2: "12 \<le> buf_size b1" using b1(3) by simp
  obtain b2 where b2: "IHS_BufferOffsetBy b1 12 = Some b2" "buf_wf b2" "buf_content b2 = payload"
    using OffsetBy_forward[OF b1(2) k2] c1 by simp
  note fr = field_read[OF b1(2), unfolded c1]
  obtain d0 where d0: "field_at b1 0 = Some d0" "mem_read d0 0 2 = Some (le_bytes 2 i)" by (rule fr[of 0 2]) (simp_all add: b1(3))
  obtain d2 where d2: "field_at b1 2 = Some d2" "mem_read d2 0 4 = Some (le_bytes 4 ts)" by (rule fr[of 2 4]) (simp_all add: b1(3))
  obtain d6 where d6: "field_at b1 6 = Some d6" "mem_read d6 0 2 = Some (le_bytes 2 m)" by (rule fr[of 6 2]) (simp_all add: b1(3))
  obtain d8 where d8: "field_at b1 8 = Some d8" "mem_read d8 0 4 = Some (le_bytes 4 rt)" by (rule fr[of 8 4]) (simp_all add: b1(3))
  have parse: "IHS_SessionChannelDataFrameHeaderParse b1 = Some (Some (\<lparr>dh_timestampsLocal = False, dh_receivedRecorded = False, dh_id = i,
      dh_timestamp = ts, dh_inputMark = m, dh_inputRecvTimestamp = rt, dh_sendTimestamp = 0, dh_receiveTimestamp = 0, dh_receiveBegin = 0\<rparr>, 12))"
    using d0 d2 d6 d8 b1(3)
    by (simp add: IHS_SessionChannelDataFrameHeaderParse_def IHS_SESSION_DATA_FRAME_HEADER_SIZE_def IHS_ReadUInt16LE_def IHS_ReadUInt32LE_def le_word_le_bytes)
  show ?thesis using type p l parse b1(1,3) b2 size
    by (intro exI[of _ b2]) (simp add: IHS_SessionChannelDataReceiveFrame_def IHS_SESSION_DATA_FRAME_HEADER_SIZE_def Let_def)
qed

section \<open>Runs\<close>

text \<open>A frame arrives, the worker takes one, and the channel is emptied and started again.\<close>

datatype data_event = Arrive bool bool session_frame | Take | JoinAndPurge | RestartWorker bool

fun data_step :: "nat \<Rightarrow> allocator \<Rightarrow> data_event \<Rightarrow> data_channel \<times> session_frame list \<Rightarrow> (data_channel \<times> session_frame list) option" where
  "data_step nodeSize mem (Arrive playing node frame) (c, taken) =
     map_option (\<lambda>(frame, c). (c, taken)) (IHS_SessionChannelDataReceiveReliableFrame nodeSize mem playing node frame c)"
| "data_step nodeSize mem Take (c, taken) =
     map_option (\<lambda>(has, frame, c). (c, if has then taken @ [frame] else taken)) (IHS_SessionChannelDataPollLocked nodeSize no_frame c)"
| "data_step nodeSize mem JoinAndPurge (c, taken) = map_option (\<lambda>c. (c, taken)) (IHS_SessionChannelDataJoinAndPurge nodeSize c)"
| "data_step nodeSize mem (RestartWorker thread) (c, taken) =
     (if dc_worker c then Some (c, taken) else map_option (\<lambda>c. (c, taken)) (IHS_SessionChannelDataRestartWorker thread c))"

fun data_run :: "nat \<Rightarrow> allocator \<Rightarrow> data_event list \<Rightarrow> data_channel \<times> session_frame list \<Rightarrow> (data_channel \<times> session_frame list) option" where
  "data_run nodeSize mem [] s = Some s"
| "data_run nodeSize mem (e # es) s = Option.bind (data_step nodeSize mem e s) (data_run nodeSize mem es)"

fun arrivals :: "data_event list \<Rightarrow> session_frame list" where
  "arrivals [] = []"
| "arrivals (Arrive playing node frame # es) = frame # arrivals es"
| "arrivals (_ # es) = arrivals es"

text \<open>What was taken, followed by what is queued, comes from the arrivals in order.\<close>

definition in_order :: "nat \<Rightarrow> session_frame list \<Rightarrow> data_channel \<times> session_frame list \<Rightarrow> bool" where
  "in_order nodeSize fs s \<longleftrightarrow> fifo_ok nodeSize (fst s) \<and> subseq (map frame_view (snd s @ dc_queue (fst s))) (map frame_view fs)"

lemma subseq_drop_middle: "subseq (xs @ ys) zs \<Longrightarrow> subseq (xs @ drop k ys) zs"
proof -
  assume a: "subseq (xs @ ys) zs"
  have "subseq (drop k ys) ys" by (metis append_take_drop_id list_emb_append2 subseq_order.order_refl)
  then have "subseq (xs @ drop k ys) (xs @ ys)" by (rule list_emb_append_mono[OF subseq_order.order_refl])
  then show ?thesis using a subseq_order.order_trans by blast
qed

lemma in_order_shorten:
  assumes "in_order nodeSize fs (c, taken)"
  shows "in_order nodeSize fs (shorten nodeSize k c, taken)"
  using assms shorten_ok[of nodeSize c k] subseq_drop_middle[of "map frame_view taken" "map frame_view (dc_queue c)" "map frame_view fs" k]
  by (simp add: in_order_def shorten_def drop_map)

lemma in_order_flags:
  assumes "in_order nodeSize fs (c, taken)"
    and "dc_queue c' = dc_queue c" "dc_queuedBytes c' = dc_queuedBytes c" "dc_queuedCount c' = dc_queuedCount c" "dc_queueLimit c' = dc_queueLimit c"
      "dc_queueCapacity c' = dc_queueCapacity c"
  shows "in_order nodeSize fs (c', taken)"
  using assms by (simp add: in_order_def fifo_ok_def)

lemma in_order_more: "in_order nodeSize fs s \<Longrightarrow> in_order nodeSize (fs @ gs) s"
  by (auto simp: in_order_def intro: list_emb_append2 subseq_order.order_trans[of _ "map frame_view fs"])

definition limits :: "data_channel \<Rightarrow> nat \<times> nat" where
  "limits c = (dc_queueLimit c, dc_queueCapacity c)"

lemma arrive_step:
  assumes s: "in_order nodeSize fs (c, taken)" and wf: "buf_wf (frm_body f)" and law: "alloc_law mem"
  shows "\<exists>c'. data_step nodeSize mem (Arrive playing node f) (c, taken) = Some (c', taken) \<and> in_order nodeSize (fs @ [f]) (c', taken) \<and> limits c' = limits c"
proof (cases "dc_interrupted c \<or> dc_discardFrames c")
  case True
  then show ?thesis using in_order_more[OF s] by (simp add: IHS_SessionChannelDataReceiveReliableFrame_def)
next
  case False
  let ?f = "f\<lparr>frm_receivedRetries := 0\<rparr>"
  have c: "fifo_ok nodeSize c" and sub: "subseq (map frame_view (taken @ dc_queue c)) (map frame_view fs)" using s by (simp_all add: in_order_def)
  have wf': "buf_wf (frm_body ?f)" and view: "frame_view ?f = frame_view f" using wf by (simp_all add: frame_view_def)
  from Queue_spec[OF c wf' law, of playing node] obtain ok f' c' k where q: "QueueFrame nodeSize mem playing node ?f c = Some (ok, f', c')" "fifo_ok nodeSize c'"
    and k: "if ok then \<exists>g. c' = append_node (cost nodeSize g) g (shorten nodeSize k c) \<and> frame_view g = frame_view ?f \<and>
        (\<forall>j < k. no_room nodeSize (cost nodeSize g) (shorten nodeSize j c)) else c' = shorten nodeSize k c" by blast
  note short = in_order_shorten[OF s, of k]
  have "in_order nodeSize (fs @ [f]) (c', taken) \<and> limits c' = limits c"
  proof (cases ok)
    case True
    then obtain g where g: "c' = append_node (cost nodeSize g) g (shorten nodeSize k c)" "frame_view g = frame_view f" using k view by auto
    have "subseq (map frame_view (taken @ dc_queue (shorten nodeSize k c)) @ [frame_view f]) (map frame_view fs @ [frame_view f])"
      using short unfolding in_order_def by (intro list_emb_append_mono subseq_order.order_refl) simp
    then show ?thesis using g q(2) by (simp add: in_order_def append_node_def limits_def shorten_def)
  next
    case False
    then show ?thesis using k in_order_more[OF short] by (simp add: limits_def shorten_def)
  qed
  note r = this
  let ?c = "if ok then c'\<lparr>dc_wakePending := True\<rparr> else c'"
  have "in_order nodeSize (fs @ [f]) (?c, taken) \<and> limits ?c = limits c"
    using r in_order_flags[of nodeSize "fs @ [f]" c' taken ?c] by (simp add: limits_def)
  moreover have "data_step nodeSize mem (Arrive playing node f) (c, taken) = Some (?c, taken)"
    using False q(1) by (simp add: IHS_SessionChannelDataReceiveReliableFrame_def)
  ultimately show ?thesis by blast
qed

lemma other_step:
  assumes s: "in_order nodeSize fs (c, taken)" and e: "\<forall>p n f. e \<noteq> Arrive p n f"
  shows "\<exists>c' taken'. data_step nodeSize mem e (c, taken) = Some (c', taken') \<and> in_order nodeSize fs (c', taken') \<and> limits c' = limits c"
proof (cases e)
  case Take
  have c: "fifo_ok nodeSize c" using s by (simp add: in_order_def)
  show ?thesis
  proof (cases "dc_queue c")
    case Nil
    then show ?thesis using Take s by (simp add: IHS_SessionChannelDataPollLocked_def PollFEC_def)
  next
    case (Cons f q)
    have "in_order nodeSize fs (shorten nodeSize 1 c, taken @ [f])" using s shorten_ok[OF c, of 1] Cons by (simp add: in_order_def shorten_def)
    then show ?thesis using Take Poll_spec[OF c Cons no_frame_wf] by (simp add: IHS_SessionChannelDataPollLocked_def limits_def shorten_def)
  qed
next
  case JoinAndPurge
  let ?c = "(DataThreadInterrupt c)\<lparr>dc_interrupted := True, dc_worker := False\<rparr>"
  have i: "in_order nodeSize fs (?c, taken)" by (rule in_order_flags[OF s]) (simp_all add: DataThreadInterrupt_def)
  then have "purge nodeSize (dc_queue ?c) ?c = Some (shorten nodeSize (length (dc_queue ?c)) ?c)" by (intro purge_spec) (simp_all add: in_order_def)
  moreover have "limits (shorten nodeSize (length (dc_queue ?c)) ?c) = limits c" by (simp add: limits_def shorten_def DataThreadInterrupt_def)
  ultimately show ?thesis using JoinAndPurge in_order_shorten[OF i] by (simp add: IHS_SessionChannelDataJoinAndPurge_def Let_def)
next
  case (RestartWorker thread)
  have "in_order nodeSize fs (c\<lparr>dc_interrupted := False, dc_worker := thread\<rparr>, taken)" by (rule in_order_flags[OF s]) simp_all
  then show ?thesis using RestartWorker s by (simp add: IHS_SessionChannelDataRestartWorker_def limits_def)
qed (use e in auto)

lemma data_run_in_order:
  assumes law: "alloc_law mem"
  shows "in_order nodeSize fs (c, taken) \<Longrightarrow> list_all (\<lambda>f. buf_wf (frm_body f)) (arrivals es) \<Longrightarrow>
    \<exists>c' taken'. data_run nodeSize mem es (c, taken) = Some (c', taken') \<and> in_order nodeSize (fs @ arrivals es) (c', taken') \<and> limits c' = limits c"
proof (induction es arbitrary: fs c taken)
  case (Cons e es)
  show ?case
  proof (cases "\<exists>p n f. e = Arrive p n f")
    case True
    then obtain p n f where e: "e = Arrive p n f" by blast
    have wf: "buf_wf (frm_body f)" using Cons.prems(2) e by simp
    obtain c1 where c1: "data_step nodeSize mem e (c, taken) = Some (c1, taken)" "in_order nodeSize (fs @ [f]) (c1, taken)" "limits c1 = limits c"
      unfolding e using arrive_step[OF Cons.prems(1) wf law, of p n] by blast
    have "list_all (\<lambda>f. buf_wf (frm_body f)) (arrivals es)" using Cons.prems(2) e by simp
    moreover have "arrivals (e # es) = f # arrivals es" using e by simp
    ultimately show ?thesis using Cons.IH[OF c1(2)] c1(1,3) by simp
  next
    case False
    then have ne: "\<forall>p n f. e \<noteq> Arrive p n f" by simp
    obtain c1 t1 where c1: "data_step nodeSize mem e (c, taken) = Some (c1, t1)" "in_order nodeSize fs (c1, t1)" "limits c1 = limits c"
      using other_step[OF Cons.prems(1) ne, of mem] by blast
    have a: "arrivals (e # es) = arrivals es" using False by (cases e) auto
    have "list_all (\<lambda>f. buf_wf (frm_body f)) (arrivals es)" using Cons.prems(2) a by simp
    from Cons.IH[OF c1(2) this] show ?thesis using c1(1,3) a by simp
  qed
qed simp

section \<open>Properties\<close>

text \<open>C15: Whatever frames arrive at a data channel, while the client plays or is paused, and however the worker takes them,
  is stopped and is started again, no operation fails.  The queue never holds more frames than the window
  capacity nor more bytes than its limit, its counters are exact, and what the worker has taken followed
  by what is queued is a selection of the arrived frames in their order, with headers and bytes unchanged.\<close>

theorem data_queue_in_order:
  assumes "alloc_law mem" "0 < windowCapacity" "nodeSize < 2 ^ 32"
    and "IHS_SessionChannelDataInit nodeSize windowCapacity resources onCaller started thread = (usable, c0)"
    and "list_all (\<lambda>f. buf_wf (frm_body f)) (arrivals es)"
  shows "\<exists>c taken. data_run nodeSize mem es (c0, []) = Some (c, taken) \<and>
    dc_queuedBytes c = queued_total nodeSize (dc_queue c) \<and> dc_queuedCount c = length (dc_queue c) \<and>
    dc_queuedBytes c \<le> max (unat windowCapacity * 2048) (2 * 1024 * 1024 + nodeSize) \<and> dc_queuedCount c \<le> unat windowCapacity \<and>
    subseq (map frame_view (taken @ dc_queue c)) (map frame_view (arrivals es))"
proof -
  have cap: "0 < unat windowCapacity" "unat windowCapacity < 2 ^ 16" using assms(2) unsigned_less[of windowCapacity, where ?'a = nat] by (simp_all add: word_less_nat_alt)
  have q: "dc_queue c0 = []" "dc_queuedBytes c0 = 0" "dc_queuedCount c0 = 0" "dc_queueCapacity c0 = unat windowCapacity"
    "dc_queueLimit c0 = max (unat windowCapacity * 2048) (2 * 1024 * 1024 + nodeSize)"
    using assms(4) by (auto simp: IHS_SessionChannelDataInit_def DataThreadInterrupt_def Let_def max_def split: if_splits)
  have "dc_queueLimit c0 < 2 ^ 64" unfolding q(5) using cap(2) assms(3) by simp
  then have "in_order nodeSize [] (c0, [])" using q cap by (simp add: in_order_def fifo_ok_def)
  from data_run_in_order[OF assms(1) this assms(5)] obtain c taken where
    r: "data_run nodeSize mem es (c0, []) = Some (c, taken)" "in_order nodeSize (arrivals es) (c, taken)" "limits c = limits c0" by auto
  then show ?thesis using q(4,5) by (auto simp: in_order_def fifo_ok_def limits_def)
qed

definition demo_data_frame :: "bytes \<Rightarrow> session_frame" where
  "demo_data_frame d = no_frame\<lparr>frm_body := IHS_BUFFER_WRAP d\<rparr>"

theorem data_queue_in_order_witness:
  "\<exists>usable c0 c taken. IHS_SessionChannelDataInit 96 2 True True True True = (usable, c0) \<and>
    data_run 96 zero_mem [Arrive True True (demo_data_frame [1, 2]), Arrive True True (demo_data_frame [1, 3]), Take, JoinAndPurge, RestartWorker True,
      Arrive False True (demo_data_frame [1, 4]), Take] (c0, []) = Some (c, taken) \<and>
    subseq (map frame_view (taken @ dc_queue c)) (map frame_view [demo_data_frame [1, 2], demo_data_frame [1, 3], demo_data_frame [1, 4]])"
proof -
  obtain usable c0 where c0: "IHS_SessionChannelDataInit 96 2 True True True True = (usable, c0)" by fastforce
  let ?es = "[Arrive True True (demo_data_frame [1, 2]), Arrive True True (demo_data_frame [1, 3]), Take, JoinAndPurge, RestartWorker True,
      Arrive False True (demo_data_frame [1, 4]), Take]"
  have "list_all (\<lambda>f. buf_wf (frm_body f)) (arrivals ?es)" by (simp add: demo_data_frame_def buf_wf_WRAP)
  from data_queue_in_order[OF alloc_law_zero_mem _ _ c0 this] show ?thesis using c0 by auto
qed

end
