(* ===== verification/Spec2Isabelle.thy ===== *)
theory Spec2Isabelle
  imports Window_Props Wire_Props Retransmission_Props FEC_Props Outgoing_Props Clock Linked_Queue_Props
    NAL_Props HID_Props Transport_Props Media_Stats Enumeration Drain Control_Props Video_Props
    Frame_Tracker_Props Data_Channel_Props
begin

text \<open>
  A verification library for ihslib, a client library of the Steam In-Home Streaming protocol.  All
  paths are relative to \<^verbatim>\<open>src/src\<close>.

  \<^bold>\<open>The program.\<close>  A session (\<^verbatim>\<open>session/session.c\<close>) exchanges UDP datagrams with a host.  A datagram is a
  packet with a 13-byte header and an optional CRC-32C trailer.  Reliable packets are kept by the
  sender until they are confirmed (\<^verbatim>\<open>retransmission.c\<close>); unreliable ones stay in a window from which
  the peer's negative feedback recovers them (\<^verbatim>\<open>outgoing.c\<close>), under a rate limiter.  The receiver puts
  the fragments of frames into a sliding window (\<^verbatim>\<open>window.c\<close>) or rebuilds them from the shards of an
  erasure code (\<^verbatim>\<open>fec.c\<close>).  A clock (\<^verbatim>\<open>clock.c\<close>) estimates the round trip and the peer's time,
  collectors keep statistics, and a small state machine (\<^verbatim>\<open>lifecycle.c\<close>, \<^verbatim>\<open>shutdown.c\<close>) opens,
  pauses, times out and closes the connection.  The session cuts frames into packets and queues them,
  serves its channels in order of priority, admits and dispatches what it receives, and hands
  complete frames to the consumers behind its channels.  Video frames are assembled into H.264/HEVC byte
  streams, and input devices send batches of delta-coded reports.

  \<^bold>\<open>Conventions.\<close>  Fixed-width integers are words, \<^verbatim>\<open>size_t\<close> is a natural number with its wrap-around
  written out.  \<^term>\<open>None\<close> is an aborting assertion, an access outside allocated memory or a loop that
  does not end, so a theorem with a result \<open>Some r\<close> also states safety and termination.  The
  allocator, the socket, the packet clock and the random source are parameters; every hypothesis
  about them (an allocator that returns blocks of the size asked for) has a witness.  Mutexes make
  an operation one step; where the code releases a mutex in the middle (the sending loop of the
  retransmission store) the model gives the state to the environment and takes it back changed.

  \<^bold>\<open>Theories.\<close>
  \<^item> \<open>Prelude\<close>: C vocabulary, lists, words and the locale \<open>transition_system\<close> that every state machine
    interprets (the receive window, the retransmission store, the channel registry, the connection).
  \<^item> \<open>Endianness\<close>, \<open>Checksum\<close>, \<open>Buffer\<close>, \<open>Packet\<close>, \<open>Wire_Props\<close> (\<^verbatim>\<open>endianness.h\<close>, \<^verbatim>\<open>crc32.c\<close>, \<^verbatim>\<open>crc32c.c\<close>,
    \<^verbatim>\<open>ihs_buffer.c\<close>, \<^verbatim>\<open>packet.c\<close>): the byte layer.  The locales \<open>wire_int\<close> and \<open>crc_table\<close> are
    interpreted on the four integer widths and on both tables of the source.  Packets survive
    serialization, parsing accepts exactly the well-formed datagrams, bursts are detected, and
    buffer operations are safe and exact.
  \<^item> \<open>Window\<close>, \<open>Window_Spec\<close>, \<open>Window_Add\<close>, \<open>Window_Poll\<close>, \<open>Window_Props\<close> (\<^verbatim>\<open>window.c\<close>, \<^verbatim>\<open>frame.c\<close>): the ring as
    a list of received and missing packets; insertion, delivery, discarding and the feedback
    queries refine that list, and the invariant holds in every reachable window.
  \<^item> \<open>Retransmission\<close>, \<open>Retransmission_Spec\<close>, \<open>Retransmission_Props\<close> (\<^verbatim>\<open>retransmission.c\<close>): the store with its
    reference counts; no use after free in the sending loop under interference, exact effect of
    acknowledgements, order and pacing of attempts.
  \<^item> \<open>GF256\<close>, \<open>FEC\<close>, \<open>FEC_Spec\<close>, \<open>FEC_Props\<close> (\<^verbatim>\<open>fec.c\<close>): the tables make a field (an instance of the class
    \<open>field\<close>), elimination on a Cauchy matrix never fails, and any sufficient set of shards in any
    order gives back the message.
  \<^item> \<open>Outgoing\<close>, \<open>Outgoing_Spec\<close>, \<open>Outgoing_Nack\<close>, \<open>Outgoing_Send\<close>, \<open>Session_Link\<close>, \<open>Outgoing_Props\<close>
    (\<^verbatim>\<open>outgoing.c\<close> and \<^verbatim>\<open>IHS_SessionSendPacketResult\<close> of \<^verbatim>\<open>session.c\<close>): the retained packets as a finite
    map; the effect of feedback; sending in ID order over any network that fulfils the locale
    \<open>transmitter\<close>, which is interpreted on the session's own send function; the rate bound.
  \<^item> \<open>Collections\<close>, \<open>Network_Stats\<close>, \<open>Network_Stats_Props\<close>, \<open>Linked_Queue\<close>, \<open>Linked_Queue_Props\<close>, \<open>Array_List\<close>
    (\<^verbatim>\<open>network_stats.c\<close>, \<^verbatim>\<open>ihs_queue.c\<close>, \<^verbatim>\<open>ihs_arraylist.c\<close>): three containers that interpret the locale
    \<open>fifo\<close>; the linked queue works on an explicit heap.
  \<^item> \<open>Clock\<close> (\<^verbatim>\<open>clock.c\<close>): the offset is the mean of its samples, no sum overflows, delays are bounded.
  \<^item> \<open>Transport\<close>, \<open>Transport_Spec\<close>, \<open>Transport_Props\<close> (\<^verbatim>\<open>lifecycle.c\<close>, \<^verbatim>\<open>shutdown.c\<close>, \<^verbatim>\<open>connection_id.c\<close>,
    \<^verbatim>\<open>client_shutdown.c\<close>): the life of the connection over the modelled send path.  Foreground requests
    are all carried out, silence closes the connection, closed is final, and the invariant holds
    under every order of events.
  \<^item> \<open>Outgoing_Sort\<close> (\<^verbatim>\<open>outgoing_sort.c\<close>), \<open>Session\<close> (\<^verbatim>\<open>session_pri.h\<close> and the operations that all parts of
    a session share), \<open>Schedule\<close>, \<open>Schedule_Props\<close> (\<^verbatim>\<open>outgoing.c\<close> from \<^verbatim>\<open>IHS_OutgoingSnapshot\<close> on): the sort
    is correct although its scans test no bound, the cached order of the channels is exact in every
    reachable state, and an update serves every channel in order over any network (locale
    \<open>steady_transmitter\<close>).
  \<^item> \<open>Send_Queue\<close>, \<open>Send_Queue_Props\<close>, \<open>Frame_Admission\<close> (\<^verbatim>\<open>channel.c\<close>, \<^verbatim>\<open>session.c\<close>): fragmentation, the send
    queue with its batches and the sending worker; a frame is admitted whole or not at all.
  \<^item> \<open>Receive\<close>, \<open>Dispatch\<close>, \<open>Receive_Props\<close>, \<open>Dispatch_Props\<close> (\<^verbatim>\<open>reliable.c\<close>, \<^verbatim>\<open>unreliable.c\<close>,
    \<^verbatim>\<open>media_pending.c\<close>, \<^verbatim>\<open>ch_discovery.c\<close>, \<^verbatim>\<open>session.c\<close>): the way of a datagram through the session.  What is
    not admissible changes nothing; what is admissible is handled safely and keeps the invariant
    \<open>session_ok\<close> of the whole session.  The code behind the channels' function pointers is the
    argument \<open>up\<close>; \<open>polite\<close> is what the session relies on in it (it returns, keeps the invariant and
    leaves the receive windows alone), and an instance that records its calls is given.
  \<^item> \<open>Frame_Transfer\<close>, \<open>Drain\<close>: the composition of both ends.  The packets that the fragmentation cuts, in
    whatever order and however often they arrive, give the frame back exactly when all have arrived;
    and the delivery loop of a reliable channel ends and hands over the complete frames in order.
  \<^item> \<open>Crypto\<close>, \<open>Frame_Crypto\<close>, \<open>Control\<close>, \<open>Control_Props\<close> (\<^verbatim>\<open>crypto/impl_mbedtls.c\<close>, \<^verbatim>\<open>frame_crypto.c\<close>, \<^verbatim>\<open>ch_control.c\<close>,
    \<^verbatim>\<open>control_receive.c\<close>): cipher block chaining with padding over the block operations of mbed TLS (the
    argument \<open>cp\<close>; \<open>working_crypto\<close> is what the code relies on in them), sealed frames, and the control
    channel as a queue of messages.  What was sealed opens again under its own sequence number,
    nothing else is accepted, and a conversation arrives complete and in order.
  \<^item> \<open>Media_Stats\<close> (\<^verbatim>\<open>media_network_stats.c\<close>): the batches of frame latencies stay within their arrays.
  \<^item> \<open>Enumeration\<close> (\<^verbatim>\<open>ihs_enumeration*.c\<close>): the locale \<open>enumerator\<close>, interpreted on arrays, linked lists and
    the dispatch between them; the loop of the callers visits every item once.
  \<^item> \<open>NAL\<close>, \<open>NAL_Props\<close> (\<^verbatim>\<open>channels/video/frame_*.c\<close>) and \<open>HID_Report\<close>, \<open>HID_Props\<close> (\<^verbatim>\<open>hid/report.c\<close>): the byte
    stream can be decoded again and holds no false start code; a batch of delta reports leads the
    host to the newest state of the device.

  \<^item> \<open>Partial_Frames\<close>, \<open>Video\<close>, \<open>Video_Safety\<close>, \<open>Video_Props\<close> (\<^verbatim>\<open>channels/video/partial_frames.c\<close>,
    \<^verbatim>\<open>channels/video/ch_data_video.c\<close>): the list of pending fragments on a heap and the channel that
    assembles them, waits for key frames, hands frames to the decoder and restarts it.  The decoder, the
    frame tickets and the session answer as an environment record says.  No order of events fails, the
    storage is bounded, tickets are balanced, and frames in order reach the decoder unchanged.

  \<^item> \<open>Frame_Tracker\<close>, \<open>Frame_Tracker_Props\<close> (\<^verbatim>\<open>frame_tracker.c\<close>): the tickets that follow video frames through the
    client.  Under the rules of its header file a tracker lives exactly as long as it is referenced, and a
    held ticket keeps its frame.
  \<^item> \<open>Data_Channel\<close>, \<open>Data_Channel_Props\<close> (\<^verbatim>\<open>channels/ch_data.c\<close>, \<^verbatim>\<open>ch_data_decode.c\<close>): the bounded queue
    between receiver and decoder, which keeps order and limits, and the header of data frames.

  \<^bold>\<open>Bounds and loops.\<close>  Loops of the source are structural recursion over what they traverse, or
  \<open>partial_function\<close> where they may run for ever (doubling a capacity, following a linked list,
  drawing a random seed); that they return is part of the theorems.  The only numeral bounds are
  those of the code: 32 foreground edges per update, 600 frames per batch, 255 connection
  identifiers, 256 pending fragments.

  \<^bold>\<open>Not modelled.\<close>  Floating-point statistics (their integer parts are modelled, the conversions are
  parameters); the generated protobuf code and the message handlers of the control channel that
  consist of it; the cryptographic primitives, which belong to external libraries, and the OpenSSL
  variant of the calls; the client's discovery and pairing;
  SDL and operating-system adapters, threads and timers; creation of the consumers of a channel, the
  audio decoder, the statistics over tracked frames, and the phases of the network test.  They meet
  the model at the delegate of the receive path and at the send queue.
\<close>

end
